(* ===== verification/Lightnet_Prelude.thy ===== *)
theory Lightnet_Prelude
  imports Main "HOL-Library.Word" "HOL-Library.Signed_Division"
begin

text \<open>
  Shared vocabulary of the development: the machine integer types of the firmware, bytes of
  packed little-endian structs, signed arithmetic of the target's \<open>int\<close>, and the generic
  lemmas on words and lists that the component theories use. Three collections carry the
  proofs: \<open>layout\<close> (reading and writing packed structs), \<open>bounds\<close> (the range of an unsigned
  byte or half-word), and \<open>clock\<close> (wrap-around differences of millisecond counters).
\<close>

unbundle bit_operations_syntax

section \<open>Machine integers\<close>

type_synonym u8 = "8 word"
type_synonym u16 = "16 word"
type_synonym u32 = "32 word"

named_theorems layout \<open>reading back the bytes of packed structs\<close>
named_theorems bounds \<open>ranges of unsigned machine integers\<close>
named_theorems clock \<open>wrap-around time differences\<close>

lemma unat_u8_less [bounds]: "unat (a :: u8) < 256"
  using unsigned_less [where w = a and 'a = nat] by simp

lemma unat_u8_le [bounds]: "unat (a :: u8) \<le> 255"
  using unat_u8_less [of a] by simp

lemma unat_u16_less [bounds]: "unat (a :: u16) < 65536"
  using unsigned_less [where w = a and 'a = nat] by simp

lemma unat_u32_less [bounds]: "unat (a :: u32) < 4294967296"
  using unsigned_less [where w = a and 'a = nat] by simp

lemma unat_ucast_u8_u16 [simp]: "unat (ucast (a :: u8) :: u16) = unat a"
proof -
  have "unat a < 2 ^ 16" using unat_u8_less [of a] by simp
  then show ?thesis by (simp add: unsigned_ucast_eq take_bit_nat_eq_self)
qed

lemma unat_ucast_u16_u8: "unat (ucast (a :: u16) :: u8) = unat a mod 256"
  by (simp add: unsigned_ucast_eq take_bit_eq_mod)

lemma unat_add_one_u8: "unat (a :: u8) < 255 \<Longrightarrow> unat (a + 1) = Suc (unat a)"
  by (simp add: unat_word_ariths)

lemma unat_add_one_u16: "unat (a :: u16) < 65535 \<Longrightarrow> unat (a + 1) = Suc (unat a)"
  by (simp add: unat_word_ariths)

lemma unat_mult_u8_u16: "unat ((ucast (a :: u8) :: u16) * ucast (b :: u8)) = unat a * unat b"
proof -
  have "unat a * unat b \<le> 255 * 255"
    using unat_u8_le [of a] unat_u8_le [of b] by (rule mult_le_mono)
  then show ?thesis by (simp add: unat_word_ariths)
qed

lemma word_eq_unat: "(a = b) = (unat a = unat b)" for a b :: "'a::len word"
  by (simp add: word_unat_eq_iff)

lemma xor_right_cancel: "a XOR c = b XOR c \<longleftrightarrow> a = b" for a b c :: "'a::len word"
proof
  assume "a XOR c = b XOR c"
  then have "(a XOR c) XOR c = (b XOR c) XOR c" by simp
  then show "a = b" by (simp add: xor.assoc)
qed simp

lemma xor_left_cancel: "c XOR a = c XOR b \<longleftrightarrow> a = b" for a b c :: "'a::len word"
  using xor_right_cancel [of a c b] by (simp add: xor.commute)

section \<open>Signed arithmetic of the target\<close>

text \<open>
  \<open>c_int w x\<close> is the value of a signed C \<open>int\<close> of \<open>w\<close> bits after wrap-around. The code
  shares arithmetic between 32-bit targets (controller, simulator, mobile) and the AVR panel,
  whose \<open>int\<close> has 16 bits; signed division truncates, as \<open>sdiv\<close> does.
\<close>

definition c_int :: "nat \<Rightarrow> int \<Rightarrow> int" where
  "c_int w x = signed_take_bit (w - 1) x"

lemma c_int_32: "- (2 ^ 31) \<le> x \<Longrightarrow> x < 2 ^ 31 \<Longrightarrow> c_int 32 x = x"
  by (simp add: c_int_def signed_take_bit_int_eq_self)

lemma sdiv_nonneg: "0 \<le> a \<Longrightarrow> 0 < b \<Longrightarrow> a sdiv b = a div b" for a b :: int
  by (simp add: signed_divide_int_def sgn_if)

lemma sdiv_nonpos: "a \<le> 0 \<Longrightarrow> 0 < b \<Longrightarrow> a sdiv b = - ((- a) div b)" for a b :: int
  by (cases "a = 0") (simp_all add: signed_divide_int_def sgn_if)

section \<open>Bytes of packed structs\<close>

definition byte_at :: "u8 list \<Rightarrow> nat \<Rightarrow> u8" where
  "byte_at bs i = (if i < length bs then bs ! i else 0)"

definition le16_bytes :: "u16 \<Rightarrow> u8 list" where
  "le16_bytes w = [ucast w, ucast (drop_bit 8 w)]"

definition le16_at :: "u8 list \<Rightarrow> nat \<Rightarrow> u16" where
  "le16_at bs i = ucast (byte_at bs i) OR push_bit 8 (ucast (byte_at bs (i + 1)))"

lemma byte_at_Nil [layout]: "byte_at [] i = 0"
  by (simp add: byte_at_def)

lemma byte_at_Cons_0 [layout]: "byte_at (x # xs) 0 = x"
  by (simp add: byte_at_def)

lemma byte_at_Cons_Suc [layout]: "byte_at (x # xs) (Suc n) = byte_at xs n"
  by (simp add: byte_at_def)

lemma byte_at_Cons_numeral [layout]: "byte_at (x # xs) (numeral v) = byte_at xs (pred_numeral v)"
  by (simp add: byte_at_def numeral_eq_Suc)

lemma byte_at_append: "byte_at (xs @ ys) i = (if i < length xs then xs ! i else byte_at ys (i - length xs))"
  by (auto simp: byte_at_def nth_append)

lemma byte_at_append_right: "length xs \<le> i \<Longrightarrow> byte_at (xs @ ys) i = byte_at ys (i - length xs)"
  by (simp add: byte_at_append)

lemma byte_at_take: "i < n \<Longrightarrow> byte_at (take n xs) i = byte_at xs i"
  by (simp add: byte_at_def)

lemma le16_join [layout]:
  "ucast (ucast w :: u8) OR push_bit 8 (ucast (ucast (drop_bit 8 w) :: u8)) = (w :: u16)"
  by (rule bit_word_eqI)
     (auto simp: bit_or_iff bit_push_bit_iff bit_unsigned_iff bit_drop_bit_eq bit_ucast_iff
        dest: bit_imp_le_length)

lemma le16_split_lo [layout]:
  "ucast (ucast (a :: u8) OR push_bit 8 (ucast (b :: u8)) :: u16) = a"
  by (rule bit_word_eqI) (auto simp: bit_or_iff bit_push_bit_iff bit_ucast_iff)

lemma le16_split_hi [layout]:
  "ucast (drop_bit 8 (ucast (a :: u8) OR push_bit 8 (ucast (b :: u8)) :: u16)) = b"
  by (rule bit_word_eqI)
     (auto simp: bit_or_iff bit_push_bit_iff bit_drop_bit_eq bit_ucast_iff
        dest: bit_imp_le_length)

lemma drop_bit_low_byte [layout]: "drop_bit 8 (ucast (a :: u8) :: u16) = 0"
  by (rule bit_word_eqI) (auto simp: bit_drop_bit_eq bit_ucast_iff dest: bit_imp_le_length)

lemma drop_bit_high_byte [layout]: "ucast (drop_bit 8 (push_bit 8 (ucast (b :: u8) :: u16))) = b"
  by (rule bit_word_eqI)
     (auto simp: bit_push_bit_iff bit_drop_bit_eq bit_ucast_iff dest: bit_imp_le_length)

lemma length_le16_bytes [simp]: "length (le16_bytes w) = 2"
  by (simp add: le16_bytes_def)

lemma le16_bytes_inject: "le16_bytes a = le16_bytes b \<longleftrightarrow> a = b"
proof
  assume "le16_bytes a = le16_bytes b"
  then have "ucast a = (ucast b :: u8)" and "ucast (drop_bit 8 a) = (ucast (drop_bit 8 b) :: u8)"
    by (simp_all add: le16_bytes_def)
  then show "a = b" by (metis le16_join)
qed simp

lemma le16_bytes_at: "le16_bytes (le16_at bs i) = [byte_at bs i, byte_at bs (i + 1)]"
  unfolding le16_bytes_def le16_at_def by (simp only: le16_split_lo le16_split_hi)

lemma le16_at_bytes [simp]: "le16_at (le16_bytes w) 0 = w"
  using le16_join [of w] by (simp add: le16_at_def le16_bytes_def layout)

section \<open>Clocks\<close>

text \<open>
  Times are unsigned counters that wrap, and the code compares differences. The difference
  of two readings is the elapsed time as long as less than a full period has passed.
\<close>

lemma elapsed_u32 [clock]: "unat ((t + of_nat d) - t :: u32) = d mod 4294967296"
  by (simp add: unat_of_nat take_bit_eq_mod)

lemma elapsed_u16 [clock]: "unat ((t + of_nat d) - t :: u16) = d mod 65536"
  by (simp add: unat_of_nat take_bit_eq_mod)

section \<open>Lists\<close>

lemma list_update_take: "i \<le> n \<Longrightarrow> take n (xs[n := x]) = take n xs"
  by simp

lemma take_Suc_update: "n < length xs \<Longrightarrow> take (Suc n) (xs[n := x]) = take n xs @ [x]"
  by (simp add: take_Suc_conv_app_nth)

end
