(* ===== verification/Wire_Protocol.thy ===== *)
theory Wire_Protocol
  imports Lightnet_Prelude
begin

text \<open>
  The wire protocol shared by the controller and the panels (\<open>Core/Common/ProtocolTypes.hpp\<close>,
  \<open>Core/Common/ProtocolMeta.cpp\<close>, \<open>Utils/Crc.cpp\<close>): packet types, the packed structs and
  their bytes, the header CRC, packet stamping and validation, and the size of a frame from its
  type byte. A frame is the list of its bytes; a struct is a record of its payload fields, read
  from a frame at its packed offset (\<open>get_X\<close>) and written in declaration order (\<open>put_X\<close>). Both
  targets are little-endian. A read past the end of a frame yields 0 in the model; the framer
  only ever hands out frames of exactly the size of their type.
\<close>

section \<open>Packet types\<close>

datatype packetType_t =
    PACKET_NOOP
  | PACKET_ACK
  | PACKET_INITIALIZATION_PULL
  | PACKET_REGISTER_EDGE
  | PACKET_TURN_ON_OFF
  | PACKET_SET_COLOR
  | PACKET_REGISTER_EDGE_ACK
  | PACKET_PANEL_EDGE_INFO
  | PACKET_FETCH_STATE
  | PACKET_PANEL_CONFIGURATION
  | PACKET_ANIMATION_PREPARE
  | PACKET_ANIMATION_START
  | PACKET_ANIMATION_CONTROL
  | PACKET_FETCH_ANIM_STATE
  | PACKET_ANIMATION_UPDATE_PARAMS
  | PACKET_SET_PALETTE
  | PACKET_SET_BASE_COLORS
  | PACKET_SET_GLOBAL_BRIGHTNESS
  | PACKET_SET_BACKGROUND
  | PACKET_FETCH_STATE_REPLY
  | PACKET_FETCH_ANIM_STATE_REPLY
  | PACKET_DISCOVERY_ADVANCE
  | PACKET_DISCOVERY_DONE
  | PACKET_LINK_ACK
  | PACKET_RESET_DEVICE
  | PACKET_ENTER_BOOTLOADER
  | PACKET_BOOTLOADER_PING
  | PACKET_BOOTLOADER_PONG
  | PACKET_BOOTLOADER_WRITE_CHUNK
  | PACKET_BOOTLOADER_WRITE_ACK
  | PACKET_BOOTLOADER_START_APP

fun packetType_code :: "packetType_t \<Rightarrow> u8" where
  "packetType_code PACKET_NOOP = 0"
| "packetType_code PACKET_ACK = 1"
| "packetType_code PACKET_INITIALIZATION_PULL = 2"
| "packetType_code PACKET_REGISTER_EDGE = 3"
| "packetType_code PACKET_TURN_ON_OFF = 4"
| "packetType_code PACKET_SET_COLOR = 5"
| "packetType_code PACKET_REGISTER_EDGE_ACK = 8"
| "packetType_code PACKET_PANEL_EDGE_INFO = 9"
| "packetType_code PACKET_FETCH_STATE = 10"
| "packetType_code PACKET_PANEL_CONFIGURATION = 11"
| "packetType_code PACKET_ANIMATION_PREPARE = 12"
| "packetType_code PACKET_ANIMATION_START = 13"
| "packetType_code PACKET_ANIMATION_CONTROL = 14"
| "packetType_code PACKET_FETCH_ANIM_STATE = 15"
| "packetType_code PACKET_ANIMATION_UPDATE_PARAMS = 16"
| "packetType_code PACKET_SET_PALETTE = 17"
| "packetType_code PACKET_SET_BASE_COLORS = 18"
| "packetType_code PACKET_SET_GLOBAL_BRIGHTNESS = 19"
| "packetType_code PACKET_SET_BACKGROUND = 20"
| "packetType_code PACKET_FETCH_STATE_REPLY = 21"
| "packetType_code PACKET_FETCH_ANIM_STATE_REPLY = 22"
| "packetType_code PACKET_DISCOVERY_ADVANCE = 23"
| "packetType_code PACKET_DISCOVERY_DONE = 24"
| "packetType_code PACKET_LINK_ACK = 25"
| "packetType_code PACKET_RESET_DEVICE = 200"
| "packetType_code PACKET_ENTER_BOOTLOADER = 201"
| "packetType_code PACKET_BOOTLOADER_PING = 202"
| "packetType_code PACKET_BOOTLOADER_PONG = 203"
| "packetType_code PACKET_BOOTLOADER_WRITE_CHUNK = 204"
| "packetType_code PACKET_BOOTLOADER_WRITE_ACK = 205"
| "packetType_code PACKET_BOOTLOADER_START_APP = 206"

text \<open>
  A type byte off the wire is any value; a switch on it that meets no enumerator takes its
  default branch, here \<open>None\<close>.
\<close>

definition packet_types :: "packetType_t list" where
  "packet_types =
     [PACKET_NOOP, PACKET_ACK, PACKET_INITIALIZATION_PULL, PACKET_REGISTER_EDGE,
      PACKET_TURN_ON_OFF, PACKET_SET_COLOR, PACKET_REGISTER_EDGE_ACK, PACKET_PANEL_EDGE_INFO,
      PACKET_FETCH_STATE, PACKET_PANEL_CONFIGURATION, PACKET_ANIMATION_PREPARE,
      PACKET_ANIMATION_START, PACKET_ANIMATION_CONTROL, PACKET_FETCH_ANIM_STATE,
      PACKET_ANIMATION_UPDATE_PARAMS, PACKET_SET_PALETTE, PACKET_SET_BASE_COLORS,
      PACKET_SET_GLOBAL_BRIGHTNESS, PACKET_SET_BACKGROUND, PACKET_FETCH_STATE_REPLY,
      PACKET_FETCH_ANIM_STATE_REPLY, PACKET_DISCOVERY_ADVANCE, PACKET_DISCOVERY_DONE,
      PACKET_LINK_ACK, PACKET_RESET_DEVICE, PACKET_ENTER_BOOTLOADER, PACKET_BOOTLOADER_PING,
      PACKET_BOOTLOADER_PONG, PACKET_BOOTLOADER_WRITE_CHUNK, PACKET_BOOTLOADER_WRITE_ACK,
      PACKET_BOOTLOADER_START_APP]"

definition packetType_of :: "u8 \<Rightarrow> packetType_t option" where
  "packetType_of b = map_of (map (\<lambda>t. (packetType_code t, t)) packet_types) b"

lemma packetType_of_code [simp]: "packetType_of (packetType_code t) = Some t"
  by (cases t) (simp_all add: packetType_of_def packet_types_def)

lemma packetType_of_SomeD: "packetType_of b = Some t \<Longrightarrow> packetType_code t = b"
  unfolding packetType_of_def by (auto dest!: map_of_SomeD)

lemma packetType_code_inj: "packetType_code s = packetType_code t \<longleftrightarrow> s = t"
  by (metis packetType_of_code option.inject)

section \<open>The CRC\<close>

text \<open>One bit of \<open>crc16Update\<close>'s inner loop, and the loop's eight rounds.\<close>

definition crc16_bit :: "u16 \<Rightarrow> u16" where
  "crc16_bit crc = (if crc AND 1 \<noteq> 0 then drop_bit 1 crc XOR 0xA001 else drop_bit 1 crc)"

definition crc16Update :: "u16 \<Rightarrow> u8 \<Rightarrow> u16" where
  "crc16Update crc a =
     (let c = crc XOR ucast a in
      crc16_bit (crc16_bit (crc16_bit (crc16_bit (crc16_bit (crc16_bit (crc16_bit (crc16_bit c))))))))"

fun crc16_from :: "u16 \<Rightarrow> u8 list \<Rightarrow> u16" where
  "crc16_from crc [] = crc"
| "crc16_from crc (a # as) = crc16_from (crc16Update crc a) as"

definition crc16 :: "u8 list \<Rightarrow> u16" where
  "crc16 data = crc16_from 0xFFFF data"

text \<open>
  Every round is injective: bit 15 of the result tells which branch was taken, because the
  polynomial has that bit and a shifted value does not.
\<close>

lemma crc16_bit_top: "bit (crc16_bit c) 15 \<longleftrightarrow> bit c 0"
proof -
  have "bit (drop_bit 1 c) 15 = False"
    by (auto simp: bit_drop_bit_eq dest: bit_imp_le_length)
  moreover have "bit (0xA001 :: u16) 15" by simp
  moreover have "(c AND 1 \<noteq> 0) = bit c 0"
    by (simp add: and_one_eq odd_iff_mod_2_eq_one bit_0)
  ultimately show ?thesis
    by (simp add: crc16_bit_def bit_xor_iff)
qed

lemma crc16_bit_inj: "crc16_bit a = crc16_bit b \<Longrightarrow> a = b"
proof -
  assume eq: "crc16_bit a = crc16_bit b"
  have low: "bit a 0 = bit b 0" using eq crc16_bit_top by metis
  have odd: "(x AND 1 \<noteq> 0) = bit x 0" for x :: u16
    by (simp add: and_one_eq odd_iff_mod_2_eq_one bit_0)
  have shift: "drop_bit 1 a = drop_bit 1 b"
    using eq low by (simp add: crc16_bit_def odd xor_right_cancel split: if_splits)
  show "a = b"
  proof (rule bit_word_eqI)
    fix n assume "n < LENGTH(16)"
    show "bit a n = bit b n"
    proof (cases n)
      case 0
      with low show ?thesis by simp
    next
      case (Suc m)
      have "bit (drop_bit 1 a) m = bit (drop_bit 1 b) m" using shift by simp
      with Suc show ?thesis by (simp add: bit_drop_bit_eq)
    qed
  qed
qed

lemma crc16Update_inj: "crc16Update c a = crc16Update d b \<Longrightarrow> c XOR ucast a = d XOR ucast b"
  unfolding crc16Update_def Let_def by (drule crc16_bit_inj)+ assumption

lemma crc16Update_inj_crc: "crc16Update c a = crc16Update d a \<Longrightarrow> c = d"
  by (drule crc16Update_inj) (simp only: xor_right_cancel)

lemma crc16Update_inj_byte: "crc16Update c a = crc16Update c b \<Longrightarrow> a = b"
proof -
  assume "crc16Update c a = crc16Update c b"
  then have "c XOR ucast a = c XOR ucast b" by (rule crc16Update_inj)
  then have "(ucast a :: u16) = ucast b" by (simp only: xor_left_cancel)
  then have "unat (ucast a :: u16) = unat (ucast b :: u16)" by simp
  then show "a = b" by (simp add: word_eq_unat)
qed

lemma crc16_from_append: "crc16_from c (xs @ ys) = crc16_from (crc16_from c xs) ys"
  by (induction xs arbitrary: c) simp_all

lemma crc16_from_inj: "crc16_from c xs = crc16_from d xs \<Longrightarrow> c = d"
  by (induction xs arbitrary: c d) (auto dest: crc16Update_inj_crc)

lemma crc16_one_byte: "a \<noteq> b \<Longrightarrow> crc16 (xs @ a # ys) \<noteq> crc16 (xs @ b # ys)"
  unfolding crc16_def crc16_from_append
  by (auto dest!: crc16_from_inj crc16Update_inj_byte)

section \<open>Packet metadata\<close>

definition PROTOCOL_VERSION :: u16 where
  "PROTOCOL_VERSION = 14"

definition sizeof_PacketHeader :: nat where
  "sizeof_PacketHeader = 5"

definition sizeof_PacketMeta :: nat where
  "sizeof_PacketMeta = 7"

definition MAX_PACKET_SIZE :: nat where
  "MAX_PACKET_SIZE = 80"

record PacketHeader =
  hdr_type :: u8
  hdr_protocolVersion :: u16
  hdr_targetPanelIndex :: u16

record PacketMeta =
  meta_header :: PacketHeader
  meta_headerCrc :: u16

definition put_PacketHeader :: "PacketHeader \<Rightarrow> u8 list" where
  "put_PacketHeader h =
     hdr_type h # le16_bytes (hdr_protocolVersion h) @ le16_bytes (hdr_targetPanelIndex h)"

definition put_PacketMeta :: "PacketMeta \<Rightarrow> u8 list" where
  "put_PacketMeta m = put_PacketHeader (meta_header m) @ le16_bytes (meta_headerCrc m)"

definition get_PacketMeta :: "u8 list \<Rightarrow> PacketMeta" where
  "get_PacketMeta bs =
     \<lparr>meta_header = \<lparr>hdr_type = byte_at bs 0, hdr_protocolVersion = le16_at bs 1,
                    hdr_targetPanelIndex = le16_at bs 3\<rparr>,
      meta_headerCrc = le16_at bs 5\<rparr>"

text \<open>\<open>setPacketMeta\<close> stamps the header in place; \<open>makeMeta\<close> is the zeroed struct, stamped.\<close>

definition setPacketMeta :: "packetType_t \<Rightarrow> u16 \<Rightarrow> PacketMeta" where
  "setPacketMeta type target =
     (let h = \<lparr>hdr_type = packetType_code type, hdr_protocolVersion = PROTOCOL_VERSION,
               hdr_targetPanelIndex = target\<rparr>
      in \<lparr>meta_header = h, meta_headerCrc = crc16 (put_PacketHeader h)\<rparr>)"

definition makeMeta :: "packetType_t \<Rightarrow> u16 \<Rightarrow> u8 list" where
  "makeMeta type target = put_PacketMeta (setPacketMeta type target)"

definition frame_type :: "u8 list \<Rightarrow> u8" where
  "frame_type bs = hdr_type (meta_header (get_PacketMeta bs))"

definition frame_target :: "u8 list \<Rightarrow> u16" where
  "frame_target bs = hdr_targetPanelIndex (meta_header (get_PacketMeta bs))"

definition isVersionExemptType :: "u8 \<Rightarrow> bool" where
  "isVersionExemptType b \<longleftrightarrow>
     (case packetType_of b of
        None \<Rightarrow> False
      | Some t \<Rightarrow> t = PACKET_RESET_DEVICE \<or> t = PACKET_ENTER_BOOTLOADER
          \<or> t = PACKET_INITIALIZATION_PULL \<or> t = PACKET_REGISTER_EDGE
          \<or> t = PACKET_DISCOVERY_ADVANCE \<or> t = PACKET_DISCOVERY_DONE \<or> t = PACKET_LINK_ACK)"

definition isLinkAckedType :: "u8 \<Rightarrow> bool" where
  "isLinkAckedType b \<longleftrightarrow>
     (case packetType_of b of
        None \<Rightarrow> False
      | Some t \<Rightarrow> t \<in> set [PACKET_ACK, PACKET_TURN_ON_OFF, PACKET_PANEL_EDGE_INFO,
          PACKET_FETCH_STATE, PACKET_FETCH_STATE_REPLY, PACKET_FETCH_ANIM_STATE,
          PACKET_FETCH_ANIM_STATE_REPLY, PACKET_PANEL_CONFIGURATION, PACKET_ANIMATION_PREPARE,
          PACKET_ANIMATION_CONTROL, PACKET_ANIMATION_UPDATE_PARAMS, PACKET_SET_PALETTE,
          PACKET_SET_BASE_COLORS, PACKET_SET_GLOBAL_BRIGHTNESS, PACKET_SET_BACKGROUND,
          PACKET_RESET_DEVICE, PACKET_ENTER_BOOTLOADER, PACKET_BOOTLOADER_PONG,
          PACKET_BOOTLOADER_WRITE_ACK])"

text \<open>
  \<open>validatePacket\<close>: 0 accepts, 1 is too short, 2 a bad header CRC, 3 a protocol version
  mismatch of a type that is not exempt.
\<close>

definition validatePacket :: "u8 list \<Rightarrow> nat \<Rightarrow> bool \<Rightarrow> u8" where
  "validatePacket packet sz validateProtocolVersion =
     (let m = get_PacketMeta packet in
      if sz < sizeof_PacketMeta then 1
      else if crc16 (put_PacketHeader (meta_header m)) \<noteq> meta_headerCrc m then 2
      else if validateProtocolVersion \<and> hdr_protocolVersion (meta_header m) \<noteq> PROTOCOL_VERSION
        \<and> \<not> isVersionExemptType (hdr_type (meta_header m)) then 3
      else 0)"

fun packet_size :: "packetType_t \<Rightarrow> nat" where
  "packet_size PACKET_NOOP = 7"
| "packet_size PACKET_ACK = 7"
| "packet_size PACKET_INITIALIZATION_PULL = 11"
| "packet_size PACKET_REGISTER_EDGE = 13"
| "packet_size PACKET_TURN_ON_OFF = 8"
| "packet_size PACKET_SET_COLOR = 10"
| "packet_size PACKET_REGISTER_EDGE_ACK = 7"
| "packet_size PACKET_PANEL_EDGE_INFO = 12"
| "packet_size PACKET_FETCH_STATE = 7"
| "packet_size PACKET_FETCH_STATE_REPLY = 13"
| "packet_size PACKET_PANEL_CONFIGURATION = 14"
| "packet_size PACKET_ANIMATION_PREPARE = 28"
| "packet_size PACKET_ANIMATION_START = 9"
| "packet_size PACKET_ANIMATION_CONTROL = 9"
| "packet_size PACKET_FETCH_ANIM_STATE = 7"
| "packet_size PACKET_ANIMATION_UPDATE_PARAMS = 12"
| "packet_size PACKET_FETCH_ANIM_STATE_REPLY = 14"
| "packet_size PACKET_SET_PALETTE = 72"
| "packet_size PACKET_SET_BASE_COLORS = 16"
| "packet_size PACKET_SET_GLOBAL_BRIGHTNESS = 8"
| "packet_size PACKET_SET_BACKGROUND = 10"
| "packet_size PACKET_DISCOVERY_ADVANCE = 9"
| "packet_size PACKET_DISCOVERY_DONE = 9"
| "packet_size PACKET_LINK_ACK = 9"
| "packet_size PACKET_RESET_DEVICE = 7"
| "packet_size PACKET_ENTER_BOOTLOADER = 8"
| "packet_size PACKET_BOOTLOADER_PING = 7"
| "packet_size PACKET_BOOTLOADER_PONG = 12"
| "packet_size PACKET_BOOTLOADER_WRITE_CHUNK = 76"
| "packet_size PACKET_BOOTLOADER_WRITE_ACK = 12"
| "packet_size PACKET_BOOTLOADER_START_APP = 7"

definition packetSizeForType :: "u8 \<Rightarrow> nat" where
  "packetSizeForType b = (case packetType_of b of None \<Rightarrow> 0 | Some t \<Rightarrow> packet_size t)"

lemma packet_size_bounds: "7 \<le> packet_size t \<and> packet_size t \<le> 76"
  by (cases t) simp_all

lemma packetSizeForType_code [simp]: "packetSizeForType (packetType_code t) = packet_size t"
  by (simp add: packetSizeForType_def)

lemma packetSizeForType_le: "packetSizeForType b \<le> MAX_PACKET_SIZE"
  using packet_size_bounds [THEN conjunct2, THEN le_trans, of 80]
  by (simp add: packetSizeForType_def MAX_PACKET_SIZE_def split: option.split)

lemma packetSizeForType_pos: "packetSizeForType b \<noteq> 0 \<Longrightarrow> 7 \<le> packetSizeForType b"
  using packet_size_bounds by (auto simp: packetSizeForType_def split: option.splits)

subsection \<open>Layout of the metadata\<close>

lemma length_put_PacketHeader [simp]: "length (put_PacketHeader h) = 5"
  by (simp add: put_PacketHeader_def)

lemma length_put_PacketMeta [simp]: "length (put_PacketMeta m) = 7"
  by (simp add: put_PacketMeta_def)

lemma length_makeMeta [simp]: "length (makeMeta t p) = 7"
  by (simp add: makeMeta_def)

lemma get_put_PacketMeta [layout]: "get_PacketMeta (put_PacketMeta m @ rest) = m"
  by (simp add: get_PacketMeta_def put_PacketMeta_def put_PacketHeader_def le16_at_def
      le16_bytes_def layout)

lemma put_get_PacketMeta: "7 \<le> length bs \<Longrightarrow> put_PacketMeta (get_PacketMeta bs) = take 7 bs"
  by (auto simp: put_PacketMeta_def put_PacketHeader_def get_PacketMeta_def le16_bytes_at
      byte_at_def numeral_eq_Suc take_Suc_conv_app_nth)

lemma frame_type_make [layout]: "frame_type (makeMeta t p @ rest) = packetType_code t"
  by (simp add: frame_type_def makeMeta_def get_put_PacketMeta setPacketMeta_def Let_def)

lemma frame_target_make [layout]: "frame_target (makeMeta t p @ rest) = p"
  by (simp add: frame_target_def makeMeta_def get_put_PacketMeta setPacketMeta_def Let_def)

lemma validatePacket_make:
  "7 \<le> n \<Longrightarrow> validatePacket (makeMeta t p @ rest) n v = 0"
  by (simp add: validatePacket_def makeMeta_def get_put_PacketMeta setPacketMeta_def Let_def
      sizeof_PacketMeta_def)

text \<open>The CRC check alone, over the bytes of the frame.\<close>

definition crc_ok :: "u8 list \<Rightarrow> bool" where
  "crc_ok bs \<longleftrightarrow> le16_bytes (crc16 (take 5 bs)) = take 2 (drop 5 bs)"

lemma crc_ok_meta:
  assumes "7 \<le> length bs"
  shows "crc_ok bs \<longleftrightarrow>
    crc16 (put_PacketHeader (meta_header (get_PacketMeta bs))) = meta_headerCrc (get_PacketMeta bs)"
proof -
  let ?m = "get_PacketMeta bs"
  have "take 7 bs = take 5 bs @ take 2 (drop 5 bs)"
    by (simp add: take_add [symmetric])
  then have "put_PacketHeader (meta_header ?m) @ le16_bytes (meta_headerCrc ?m) =
      take 5 bs @ take 2 (drop 5 bs)"
    using put_get_PacketMeta [OF assms] by (simp add: put_PacketMeta_def)
  then have "put_PacketHeader (meta_header ?m) = take 5 bs"
    and "le16_bytes (meta_headerCrc ?m) = take 2 (drop 5 bs)"
    using assms by (simp_all add: append_eq_append_conv)
  then show ?thesis by (simp add: crc_ok_def le16_bytes_inject [symmetric])
qed

lemma validatePacket_crc_ok: "7 \<le> length bs \<Longrightarrow> validatePacket bs n v = 0 \<Longrightarrow> crc_ok bs"
  by (simp add: crc_ok_meta validatePacket_def Let_def split: if_splits)

lemma validatePacket_bad_crc: "7 \<le> length bs \<Longrightarrow> 7 \<le> n \<Longrightarrow> \<not> crc_ok bs \<Longrightarrow> validatePacket bs n v = 2"
  by (simp add: crc_ok_meta validatePacket_def Let_def sizeof_PacketMeta_def)

lemma validatePacket_size: "validatePacket bs n v = 0 \<Longrightarrow> 7 \<le> n"
  by (simp add: validatePacket_def Let_def sizeof_PacketMeta_def split: if_splits)

lemma crc_ok_update_byte:
  assumes "crc_ok bs" and "7 \<le> length bs" and "i < 7" and "x \<noteq> bs ! i"
  shows "\<not> crc_ok (bs[i := x])"
proof (cases "i < 5")
  case True
  let ?h = "take 5 bs"
  have l: "i < length ?h" using True assms(2) by simp
  have old: "?h = take i ?h @ ?h ! i # drop (Suc i) ?h" by (rule id_take_nth_drop [OF l])
  have new: "take 5 (bs[i := x]) = take i ?h @ x # drop (Suc i) ?h"
    using upd_conv_take_nth_drop [OF l] by (simp add: take_update_swap)
  have "?h ! i \<noteq> x" using True assms(4) by simp
  then have "crc16 (take 5 (bs[i := x])) \<noteq> crc16 ?h"
    using crc16_one_byte [of x "?h ! i" "take i ?h" "drop (Suc i) ?h"] old new by metis
  then show ?thesis
    using assms(1) True by (simp add: crc_ok_def drop_update_cancel)
       (metis le16_bytes_inject)
next
  case False
  then have "take 5 (bs[i := x]) = take 5 bs" by simp
  moreover have "take 2 (drop 5 (bs[i := x])) \<noteq> take 2 (drop 5 bs)"
  proof
    assume eq: "take 2 (drop 5 (bs[i := x])) = take 2 (drop 5 bs)"
    have "take 2 (drop 5 (bs[i := x])) ! (i - 5) = take 2 (drop 5 bs) ! (i - 5)" using eq by simp
    then show False using False assms(2,3,4) by simp
  qed
  ultimately show ?thesis using assms(1) by (simp add: crc_ok_def)
qed

end
