(* ===== verification/Packet_Structs.thy ===== *)
theory Packet_Structs
  imports Wire_Protocol
begin

text \<open>
  The packed wire structs of \<open>Core/Common/ProtocolTypes.hpp\<close>, \<open>ColorRef.hpp\<close> and
  \<open>Palette.hpp\<close>: one record per struct with its payload fields in declaration order, \<open>put_X\<close>
  for its bytes and \<open>get_X\<close> for the cast of a received frame's payload. \<open>payload\<close> is the sum of
  all payload shapes, and \<open>makePacket\<close> the stamped frame of a packet type and payload.
\<close>

section \<open>Colours, colour references and gradient stops\<close>

record ColorRGB =
  rgb_r :: u8
  rgb_g :: u8
  rgb_b :: u8

definition rgb :: "u8 \<Rightarrow> u8 \<Rightarrow> u8 \<Rightarrow> ColorRGB" where
  "rgb r g b = \<lparr>rgb_r = r, rgb_g = g, rgb_b = b\<rparr>"

text \<open>
  The union of \<open>ColorRef\<close> overlays its three payload bytes: \<open>rgb.r\<close>, \<open>palette.pos\<close> and
  \<open>useColor.slot\<close> are all \<open>raw[0]\<close>.
\<close>

record ColorRef =
  cr_kind :: u8
  cr_raw0 :: u8
  cr_raw1 :: u8
  cr_raw2 :: u8

definition COLORREF_RGB :: u8 where "COLORREF_RGB = 0"
definition COLORREF_PALETTE :: u8 where "COLORREF_PALETTE = 1"
definition COLORREF_USE_COLOR :: u8 where "COLORREF_USE_COLOR = 2"

definition ColorRef_rgb :: "u8 \<Rightarrow> u8 \<Rightarrow> u8 \<Rightarrow> ColorRef" where
  "ColorRef_rgb r g b = \<lparr>cr_kind = COLORREF_RGB, cr_raw0 = r, cr_raw1 = g, cr_raw2 = b\<rparr>"

definition ColorRef_palette :: "u8 \<Rightarrow> ColorRef" where
  "ColorRef_palette pos = \<lparr>cr_kind = COLORREF_PALETTE, cr_raw0 = pos, cr_raw1 = 0, cr_raw2 = 0\<rparr>"

definition ColorRef_useColor :: "u8 \<Rightarrow> ColorRef" where
  "ColorRef_useColor slot = \<lparr>cr_kind = COLORREF_USE_COLOR, cr_raw0 = slot, cr_raw1 = 0, cr_raw2 = 0\<rparr>"

definition ColorRef_scalar :: "u8 \<Rightarrow> ColorRef" where
  "ColorRef_scalar v = ColorRef_rgb v 0 0"

definition ColorRef_scalarValue :: "ColorRef \<Rightarrow> u8" where
  "ColorRef_scalarValue c = cr_raw0 c"

record GradientStop =
  gs_pos :: u8
  gs_r :: u8
  gs_g :: u8
  gs_b :: u8

definition PALETTE_STOPS :: nat where "PALETTE_STOPS = 16"
definition BASE_COLORS_COUNT :: nat where "BASE_COLORS_COUNT = 3"
definition LIGHTNET_MAX_PANELS :: nat where "LIGHTNET_MAX_PANELS = 100"

definition put_ColorRGB :: "ColorRGB \<Rightarrow> u8 list" where
  "put_ColorRGB c = [rgb_r c, rgb_g c, rgb_b c]"

definition get_ColorRGB :: "u8 list \<Rightarrow> nat \<Rightarrow> ColorRGB" where
  "get_ColorRGB bs i = rgb (byte_at bs i) (byte_at bs (i + 1)) (byte_at bs (i + 2))"

definition put_ColorRef :: "ColorRef \<Rightarrow> u8 list" where
  "put_ColorRef c = [cr_kind c, cr_raw0 c, cr_raw1 c, cr_raw2 c]"

definition get_ColorRef :: "u8 list \<Rightarrow> nat \<Rightarrow> ColorRef" where
  "get_ColorRef bs i =
     \<lparr>cr_kind = byte_at bs i, cr_raw0 = byte_at bs (i + 1), cr_raw1 = byte_at bs (i + 2),
      cr_raw2 = byte_at bs (i + 3)\<rparr>"

definition put_GradientStop :: "GradientStop \<Rightarrow> u8 list" where
  "put_GradientStop s = [gs_pos s, gs_r s, gs_g s, gs_b s]"

definition get_GradientStop :: "u8 list \<Rightarrow> nat \<Rightarrow> GradientStop" where
  "get_GradientStop bs i =
     \<lparr>gs_pos = byte_at bs i, gs_r = byte_at bs (i + 1), gs_g = byte_at bs (i + 2),
      gs_b = byte_at bs (i + 3)\<rparr>"

section \<open>The payload records\<close>

record PacketInitializationPull =
  pull_panelIndex :: u16
  pull_parentEdgeIndex :: u16

definition DISCOVERY_REJECTED_INDEX :: u16 where "DISCOVERY_REJECTED_INDEX = 0"

record PacketRegisterEdge =
  reg_panelIndex :: u16
  reg_edgeIndex :: u16
  reg_parentEdgeIndex :: u16

record PacketDiscoveryAdvance =
  adv_assignIndex :: u16

record PacketDiscoveryDone =
  done_panelIndex :: u16

record PacketTurnOnOff =
  too_on :: u8

record PacketSetColor =
  sc_color :: ColorRGB

record PacketPanelConfiguration =
  pc_useGammaCorrection :: bool
  pc_colorTemperature :: ColorRGB
  pc_colorCorrection :: ColorRGB

record PacketPanelEdgeInfo =
  pei_panelIndex :: u16
  pei_edgeIndex :: u8
  pei_connectedPanelIndex :: u16

record PacketPanelState =
  ps_panelIndex :: u16
  ps_state :: u8
  ps_color :: ColorRGB

record PacketAnimationPrepare =
  ap_animType :: u8
  ap_group_id :: u8
  ap_flags :: u8
  ap_transitionMs :: u8
  ap_durationMs :: u16
  ap_colorFrom :: ColorRef
  ap_colorTo :: ColorRef
  ap_param1 :: u8
  ap_param2 :: u8
  ap_composeMode :: u8
  ap_composeOrder :: u8
  ap_startDelayMs :: u16
  ap_animates :: u8

record PacketAnimationStart =
  as_seq_id :: u8
  as_group_id :: u8

record PacketAnimationControl =
  ac_cmd :: u8
  ac_group_id :: u8

record PacketAnimationUpdateParams =
  aup_seq_id :: u8
  aup_group_id :: u8
  aup_param_type :: u8
  aup_value :: u8
  aup_transitionMs :: u8

record PacketAnimationStatus =
  ast_animType :: u8
  ast_group_id :: u8
  ast_elapsedMs :: u16
  ast_durationMs :: u16
  ast_queueLen :: u8

record PacketSetPalette =
  sp_count :: u8
  sp_stops :: "GradientStop list"

record PacketSetBaseColors =
  sbc_colors :: "ColorRGB list"

record PacketSetGlobalBrightness =
  sgb_value :: u8

record PacketSetBackground =
  sbg_color :: ColorRGB

record PacketLinkAck =
  la_frameCrc :: u16

definition BOOTLOADER_ENTRY_TOKEN :: u8 where "BOOTLOADER_ENTRY_TOKEN = 0xB0"

record PacketEnterBootloader =
  eb_token :: u8

definition BOOTLOADER_CHUNK_SIZE :: nat where "BOOTLOADER_CHUNK_SIZE = 64"
definition BOOTLOADER_PROTOCOL_VERSION :: u8 where "BOOTLOADER_PROTOCOL_VERSION = 2"

record PacketBootloaderPong =
  bp_bootloaderVersion :: u8
  bp_pageSize :: u16
  bp_flashSize :: u16

record PacketBootloaderWriteChunk =
  wc_address :: u16
  wc_length :: u8
  wc_data :: "u8 list"
  wc_dataCrc :: u16

record PacketBootloaderWriteAck =
  wa_address :: u16
  wa_status :: u8
  wa_payloadCrc :: u16

datatype payload =
    Meta_Only
  | Initialization_Pull PacketInitializationPull
  | Register_Edge PacketRegisterEdge
  | Discovery_Advance PacketDiscoveryAdvance
  | Discovery_Done PacketDiscoveryDone
  | Turn_On_Off PacketTurnOnOff
  | Set_Color PacketSetColor
  | Panel_Configuration PacketPanelConfiguration
  | Panel_Edge_Info PacketPanelEdgeInfo
  | Panel_State PacketPanelState
  | Animation_Prepare PacketAnimationPrepare
  | Animation_Start PacketAnimationStart
  | Animation_Control PacketAnimationControl
  | Animation_Update_Params PacketAnimationUpdateParams
  | Animation_Status PacketAnimationStatus
  | Set_Palette PacketSetPalette
  | Set_Base_Colors PacketSetBaseColors
  | Set_Global_Brightness PacketSetGlobalBrightness
  | Set_Background PacketSetBackground
  | Link_Ack PacketLinkAck
  | Enter_Bootloader PacketEnterBootloader
  | Bootloader_Pong PacketBootloaderPong
  | Bootloader_Write_Chunk PacketBootloaderWriteChunk
  | Bootloader_Write_Ack PacketBootloaderWriteAck

section \<open>Writing a struct\<close>

definition put_bool :: "bool \<Rightarrow> u8" where
  "put_bool b = (if b then 1 else 0)"

fun put_payload :: "payload \<Rightarrow> u8 list" where
  "put_payload Meta_Only = []"
| "put_payload (Initialization_Pull p) =
     le16_bytes (pull_panelIndex p) @ le16_bytes (pull_parentEdgeIndex p)"
| "put_payload (Register_Edge p) =
     le16_bytes (reg_panelIndex p) @ le16_bytes (reg_edgeIndex p) @ le16_bytes (reg_parentEdgeIndex p)"
| "put_payload (Discovery_Advance p) = le16_bytes (adv_assignIndex p)"
| "put_payload (Discovery_Done p) = le16_bytes (done_panelIndex p)"
| "put_payload (Turn_On_Off p) = [too_on p]"
| "put_payload (Set_Color p) = put_ColorRGB (sc_color p)"
| "put_payload (Panel_Configuration p) =
     put_bool (pc_useGammaCorrection p) # put_ColorRGB (pc_colorTemperature p)
       @ put_ColorRGB (pc_colorCorrection p)"
| "put_payload (Panel_Edge_Info p) =
     le16_bytes (pei_panelIndex p) @ pei_edgeIndex p # le16_bytes (pei_connectedPanelIndex p)"
| "put_payload (Panel_State p) =
     le16_bytes (ps_panelIndex p) @ ps_state p # put_ColorRGB (ps_color p)"
| "put_payload (Animation_Prepare p) =
     [ap_animType p, ap_group_id p, ap_flags p, ap_transitionMs p] @ le16_bytes (ap_durationMs p)
       @ put_ColorRef (ap_colorFrom p) @ put_ColorRef (ap_colorTo p)
       @ [ap_param1 p, ap_param2 p, ap_composeMode p, ap_composeOrder p]
       @ le16_bytes (ap_startDelayMs p) @ [ap_animates p]"
| "put_payload (Animation_Start p) = [as_seq_id p, as_group_id p]"
| "put_payload (Animation_Control p) = [ac_cmd p, ac_group_id p]"
| "put_payload (Animation_Update_Params p) =
     [aup_seq_id p, aup_group_id p, aup_param_type p, aup_value p, aup_transitionMs p]"
| "put_payload (Animation_Status p) =
     [ast_animType p, ast_group_id p] @ le16_bytes (ast_elapsedMs p)
       @ le16_bytes (ast_durationMs p) @ [ast_queueLen p]"
| "put_payload (Set_Palette p) = sp_count p # concat (map put_GradientStop (sp_stops p))"
| "put_payload (Set_Base_Colors p) = concat (map put_ColorRGB (sbc_colors p))"
| "put_payload (Set_Global_Brightness p) = [sgb_value p]"
| "put_payload (Set_Background p) = put_ColorRGB (sbg_color p)"
| "put_payload (Link_Ack p) = le16_bytes (la_frameCrc p)"
| "put_payload (Enter_Bootloader p) = [eb_token p]"
| "put_payload (Bootloader_Pong p) =
     bp_bootloaderVersion p # le16_bytes (bp_pageSize p) @ le16_bytes (bp_flashSize p)"
| "put_payload (Bootloader_Write_Chunk p) =
     le16_bytes (wc_address p) @ wc_length p # wc_data p @ le16_bytes (wc_dataCrc p)"
| "put_payload (Bootloader_Write_Ack p) =
     le16_bytes (wa_address p) @ wa_status p # le16_bytes (wa_payloadCrc p)"

definition makePacket :: "packetType_t \<Rightarrow> u16 \<Rightarrow> payload \<Rightarrow> u8 list" where
  "makePacket type target p = makeMeta type target @ put_payload p"

section \<open>Reading a struct out of a received frame\<close>

text \<open>The struct fields behind \<open>PacketMeta\<close>, at offset 7 of the frame.\<close>

definition frame_payload :: "u8 list \<Rightarrow> u8 list" where
  "frame_payload bs = drop sizeof_PacketMeta bs"

definition get_InitializationPull :: "u8 list \<Rightarrow> PacketInitializationPull" where
  "get_InitializationPull p = \<lparr>pull_panelIndex = le16_at p 0, pull_parentEdgeIndex = le16_at p 2\<rparr>"

definition get_RegisterEdge :: "u8 list \<Rightarrow> PacketRegisterEdge" where
  "get_RegisterEdge p =
     \<lparr>reg_panelIndex = le16_at p 0, reg_edgeIndex = le16_at p 2, reg_parentEdgeIndex = le16_at p 4\<rparr>"

definition get_DiscoveryAdvance :: "u8 list \<Rightarrow> PacketDiscoveryAdvance" where
  "get_DiscoveryAdvance p = \<lparr>adv_assignIndex = le16_at p 0\<rparr>"

definition get_DiscoveryDone :: "u8 list \<Rightarrow> PacketDiscoveryDone" where
  "get_DiscoveryDone p = \<lparr>done_panelIndex = le16_at p 0\<rparr>"

definition get_LinkAck :: "u8 list \<Rightarrow> PacketLinkAck" where
  "get_LinkAck p = \<lparr>la_frameCrc = le16_at p 0\<rparr>"

definition get_AnimationPrepare :: "u8 list \<Rightarrow> PacketAnimationPrepare" where
  "get_AnimationPrepare p =
     \<lparr>ap_animType = byte_at p 0, ap_group_id = byte_at p 1, ap_flags = byte_at p 2,
      ap_transitionMs = byte_at p 3, ap_durationMs = le16_at p 4, ap_colorFrom = get_ColorRef p 6,
      ap_colorTo = get_ColorRef p 10, ap_param1 = byte_at p 14, ap_param2 = byte_at p 15,
      ap_composeMode = byte_at p 16, ap_composeOrder = byte_at p 17, ap_startDelayMs = le16_at p 18,
      ap_animates = byte_at p 20\<rparr>"

definition get_SetPalette :: "u8 list \<Rightarrow> PacketSetPalette" where
  "get_SetPalette p =
     \<lparr>sp_count = byte_at p 0, sp_stops = map (\<lambda>k. get_GradientStop p (1 + 4 * k)) [0..<PALETTE_STOPS]\<rparr>"

definition get_SetBaseColors :: "u8 list \<Rightarrow> PacketSetBaseColors" where
  "get_SetBaseColors p =
     \<lparr>sbc_colors = map (\<lambda>k. get_ColorRGB p (3 * k)) [0..<BASE_COLORS_COUNT]\<rparr>"

definition get_BootloaderWriteChunk :: "u8 list \<Rightarrow> PacketBootloaderWriteChunk" where
  "get_BootloaderWriteChunk p =
     \<lparr>wc_address = le16_at p 0, wc_length = byte_at p 2,
      wc_data = map (\<lambda>k. byte_at p (3 + k)) [0..<BOOTLOADER_CHUNK_SIZE], wc_dataCrc = le16_at p 67\<rparr>"

fun get_payload :: "packetType_t \<Rightarrow> u8 list \<Rightarrow> payload" where
  "get_payload PACKET_INITIALIZATION_PULL p = Initialization_Pull (get_InitializationPull p)"
| "get_payload PACKET_REGISTER_EDGE p = Register_Edge (get_RegisterEdge p)"
| "get_payload PACKET_DISCOVERY_ADVANCE p = Discovery_Advance (get_DiscoveryAdvance p)"
| "get_payload PACKET_DISCOVERY_DONE p = Discovery_Done (get_DiscoveryDone p)"
| "get_payload PACKET_TURN_ON_OFF p = Turn_On_Off \<lparr>too_on = byte_at p 0\<rparr>"
| "get_payload PACKET_SET_COLOR p = Set_Color \<lparr>sc_color = get_ColorRGB p 0\<rparr>"
| "get_payload PACKET_PANEL_CONFIGURATION p =
     Panel_Configuration \<lparr>pc_useGammaCorrection = (byte_at p 0 \<noteq> 0),
       pc_colorTemperature = get_ColorRGB p 1, pc_colorCorrection = get_ColorRGB p 4\<rparr>"
| "get_payload PACKET_PANEL_EDGE_INFO p =
     Panel_Edge_Info \<lparr>pei_panelIndex = le16_at p 0, pei_edgeIndex = byte_at p 2,
       pei_connectedPanelIndex = le16_at p 3\<rparr>"
| "get_payload PACKET_FETCH_STATE_REPLY p =
     Panel_State \<lparr>ps_panelIndex = le16_at p 0, ps_state = byte_at p 2, ps_color = get_ColorRGB p 3\<rparr>"
| "get_payload PACKET_ANIMATION_PREPARE p = Animation_Prepare (get_AnimationPrepare p)"
| "get_payload PACKET_ANIMATION_START p =
     Animation_Start \<lparr>as_seq_id = byte_at p 0, as_group_id = byte_at p 1\<rparr>"
| "get_payload PACKET_ANIMATION_CONTROL p =
     Animation_Control \<lparr>ac_cmd = byte_at p 0, ac_group_id = byte_at p 1\<rparr>"
| "get_payload PACKET_ANIMATION_UPDATE_PARAMS p =
     Animation_Update_Params \<lparr>aup_seq_id = byte_at p 0, aup_group_id = byte_at p 1,
       aup_param_type = byte_at p 2, aup_value = byte_at p 3, aup_transitionMs = byte_at p 4\<rparr>"
| "get_payload PACKET_FETCH_ANIM_STATE_REPLY p =
     Animation_Status \<lparr>ast_animType = byte_at p 0, ast_group_id = byte_at p 1,
       ast_elapsedMs = le16_at p 2, ast_durationMs = le16_at p 4, ast_queueLen = byte_at p 6\<rparr>"
| "get_payload PACKET_SET_PALETTE p = Set_Palette (get_SetPalette p)"
| "get_payload PACKET_SET_BASE_COLORS p = Set_Base_Colors (get_SetBaseColors p)"
| "get_payload PACKET_SET_GLOBAL_BRIGHTNESS p = Set_Global_Brightness \<lparr>sgb_value = byte_at p 0\<rparr>"
| "get_payload PACKET_SET_BACKGROUND p = Set_Background \<lparr>sbg_color = get_ColorRGB p 0\<rparr>"
| "get_payload PACKET_LINK_ACK p = Link_Ack (get_LinkAck p)"
| "get_payload PACKET_ENTER_BOOTLOADER p = Enter_Bootloader \<lparr>eb_token = byte_at p 0\<rparr>"
| "get_payload PACKET_BOOTLOADER_PONG p =
     Bootloader_Pong \<lparr>bp_bootloaderVersion = byte_at p 0, bp_pageSize = le16_at p 1,
       bp_flashSize = le16_at p 3\<rparr>"
| "get_payload PACKET_BOOTLOADER_WRITE_CHUNK p = Bootloader_Write_Chunk (get_BootloaderWriteChunk p)"
| "get_payload PACKET_BOOTLOADER_WRITE_ACK p =
     Bootloader_Write_Ack \<lparr>wa_address = le16_at p 0, wa_status = byte_at p 2,
       wa_payloadCrc = le16_at p 3\<rparr>"
| "get_payload _ p = Meta_Only"

text \<open>
  Which payload belongs to which packet type: the array members have exactly their declared
  length, and a type without a struct of its own is meta-only on the wire.
\<close>

fun payload_fits :: "packetType_t \<Rightarrow> payload \<Rightarrow> bool" where
  "payload_fits t Meta_Only = (packet_size t = sizeof_PacketMeta)"
| "payload_fits t (Initialization_Pull p) = (t = PACKET_INITIALIZATION_PULL)"
| "payload_fits t (Register_Edge p) = (t = PACKET_REGISTER_EDGE)"
| "payload_fits t (Discovery_Advance p) = (t = PACKET_DISCOVERY_ADVANCE)"
| "payload_fits t (Discovery_Done p) = (t = PACKET_DISCOVERY_DONE)"
| "payload_fits t (Turn_On_Off p) = (t = PACKET_TURN_ON_OFF)"
| "payload_fits t (Set_Color p) = (t = PACKET_SET_COLOR)"
| "payload_fits t (Panel_Configuration p) = (t = PACKET_PANEL_CONFIGURATION)"
| "payload_fits t (Panel_Edge_Info p) = (t = PACKET_PANEL_EDGE_INFO)"
| "payload_fits t (Panel_State p) = (t = PACKET_FETCH_STATE_REPLY)"
| "payload_fits t (Animation_Prepare p) = (t = PACKET_ANIMATION_PREPARE)"
| "payload_fits t (Animation_Start p) = (t = PACKET_ANIMATION_START)"
| "payload_fits t (Animation_Control p) = (t = PACKET_ANIMATION_CONTROL)"
| "payload_fits t (Animation_Update_Params p) = (t = PACKET_ANIMATION_UPDATE_PARAMS)"
| "payload_fits t (Animation_Status p) = (t = PACKET_FETCH_ANIM_STATE_REPLY)"
| "payload_fits t (Set_Palette p) = (t = PACKET_SET_PALETTE \<and> length (sp_stops p) = PALETTE_STOPS)"
| "payload_fits t (Set_Base_Colors p) = (t = PACKET_SET_BASE_COLORS \<and> length (sbc_colors p) = BASE_COLORS_COUNT)"
| "payload_fits t (Set_Global_Brightness p) = (t = PACKET_SET_GLOBAL_BRIGHTNESS)"
| "payload_fits t (Set_Background p) = (t = PACKET_SET_BACKGROUND)"
| "payload_fits t (Link_Ack p) = (t = PACKET_LINK_ACK)"
| "payload_fits t (Enter_Bootloader p) = (t = PACKET_ENTER_BOOTLOADER)"
| "payload_fits t (Bootloader_Pong p) = (t = PACKET_BOOTLOADER_PONG)"
| "payload_fits t (Bootloader_Write_Chunk p) = (t = PACKET_BOOTLOADER_WRITE_CHUNK \<and> length (wc_data p) = BOOTLOADER_CHUNK_SIZE)"
| "payload_fits t (Bootloader_Write_Ack p) = (t = PACKET_BOOTLOADER_WRITE_ACK)"

section \<open>Arrays in packed structs\<close>

text \<open>
  A packed array is a concatenation of fixed-width elements. The interface: an element is
  written as \<open>width\<close> bytes and read back at its offset, whatever surrounds it.
\<close>

locale packed_array =
  fixes put :: "'a \<Rightarrow> u8 list"
    and get :: "u8 list \<Rightarrow> nat \<Rightarrow> 'a"
    and width :: nat
  assumes length_put: "length (put x) = width"
    and get_put: "get (pre @ put x @ rest) (length pre) = x"
begin

lemma length_concat: "length (concat (map put xs)) = width * length xs"
  by (induction xs) (simp_all add: length_put)

lemma map_get_concat:
  "map (\<lambda>k. get (pre @ concat (map put xs) @ rest) (length pre + width * k)) [0..<length xs] = xs"
proof (induction xs arbitrary: pre)
  case Nil
  show ?case by simp
next
  case (Cons x xs)
  have "map (\<lambda>k. get ((pre @ put x) @ concat (map put xs) @ rest) (length (pre @ put x) + width * k))
      [0..<length xs] = xs"
    by (rule Cons.IH)
  then show ?case
    using get_put [of pre x "concat (map put xs) @ rest"]
    by (simp add: length_put map_upt_Suc add.assoc del: upt_Suc)
qed

end

interpretation stop_array: packed_array put_GradientStop get_GradientStop 4
  by unfold_locales
     (simp_all add: put_GradientStop_def get_GradientStop_def byte_at_append layout)

interpretation color_array: packed_array put_ColorRGB get_ColorRGB 3
  by unfold_locales (simp_all add: put_ColorRGB_def get_ColorRGB_def rgb_def byte_at_append layout)

interpretation byte_array: packed_array "\<lambda>b. [b]" byte_at 1
  by unfold_locales (simp_all add: byte_at_append layout)

lemma concat_bytes: "concat (map (\<lambda>b. [b]) bs) = bs"
  by (induction bs) simp_all

section \<open>Every struct reads back what was written\<close>

lemmas struct_defs =
  get_InitializationPull_def get_RegisterEdge_def get_DiscoveryAdvance_def get_DiscoveryDone_def
  get_LinkAck_def get_AnimationPrepare_def put_ColorRGB_def get_ColorRGB_def rgb_def
  put_ColorRef_def get_ColorRef_def put_bool_def

lemma get_put_SetPalette:
  "length (sp_stops p) = PALETTE_STOPS \<Longrightarrow> get_SetPalette (put_payload (Set_Palette p)) = p"
  using stop_array.map_get_concat [of "[sp_count p]" "sp_stops p" "[]"]
  by (simp add: get_SetPalette_def byte_at_Cons_0)

lemma get_put_SetBaseColors:
  "length (sbc_colors p) = BASE_COLORS_COUNT \<Longrightarrow> get_SetBaseColors (put_payload (Set_Base_Colors p)) = p"
  using color_array.map_get_concat [of "[]" "sbc_colors p" "[]"]
  by (simp add: get_SetBaseColors_def)

lemma get_put_BootloaderWriteChunk:
  assumes "length (wc_data p) = BOOTLOADER_CHUNK_SIZE"
  shows "get_BootloaderWriteChunk (put_payload (Bootloader_Write_Chunk p)) = p"
proof -
  let ?pre = "le16_bytes (wc_address p) @ [wc_length p]"
  let ?f = "?pre @ wc_data p @ le16_bytes (wc_dataCrc p)"
  have f: "put_payload (Bootloader_Write_Chunk p) = ?f" by simp
  have addr: "le16_at ?f 0 = wc_address p" and len: "byte_at ?f 2 = wc_length p"
    by (simp_all add: le16_at_def le16_bytes_def layout)
  have data: "map (\<lambda>k. byte_at ?f (3 + k)) [0..<BOOTLOADER_CHUNK_SIZE] = wc_data p"
    using byte_array.map_get_concat [of ?pre "wc_data p" "le16_bytes (wc_dataCrc p)"] assms
    by (simp add: concat_bytes numeral_3_eq_3)
  have crc: "le16_at ?f 67 = wc_dataCrc p"
    using assms by (simp add: le16_at_def byte_at_append BOOTLOADER_CHUNK_SIZE_def le16_bytes_def layout)
  show ?thesis
    unfolding get_BootloaderWriteChunk_def f addr len data crc by simp
qed

lemma get_put_payload: "payload_fits t p \<Longrightarrow> get_payload t (put_payload p) = p"
proof (cases p)
  case Meta_Only
  assume "payload_fits t p"
  with Meta_Only show ?thesis by (cases t) (simp_all add: sizeof_PacketMeta_def)
next
  case (Set_Palette q)
  assume "payload_fits t p"
  with Set_Palette show ?thesis
    using get_put_SetPalette [of q] by (auto simp del: put_payload.simps)
next
  case (Set_Base_Colors q)
  assume "payload_fits t p"
  with Set_Base_Colors show ?thesis
    using get_put_SetBaseColors [of q] by (auto simp del: put_payload.simps)
next
  case (Bootloader_Write_Chunk q)
  assume "payload_fits t p"
  with Bootloader_Write_Chunk show ?thesis
    using get_put_BootloaderWriteChunk [of q] by (auto simp del: put_payload.simps)
qed (auto simp: struct_defs le16_at_def le16_bytes_def layout)

lemma length_put_payload: "payload_fits t p \<Longrightarrow> 7 + length (put_payload p) = packet_size t"
  by (cases p)
     (auto simp: struct_defs sizeof_PacketMeta_def stop_array.length_concat color_array.length_concat
        PALETTE_STOPS_def BASE_COLORS_COUNT_def BOOTLOADER_CHUNK_SIZE_def)

lemma frame_payload_make [layout]: "frame_payload (makeMeta t target @ rest) = rest"
  by (simp add: frame_payload_def sizeof_PacketMeta_def)

lemma length_makePacket: "payload_fits t p \<Longrightarrow> length (makePacket t target p) = packet_size t"
  using length_put_payload by (simp add: makePacket_def)

lemma frame_type_makePacket [simp]: "frame_type (makePacket t target p) = packetType_code t"
  by (simp add: makePacket_def frame_type_make)

lemma frame_target_makePacket [simp]: "frame_target (makePacket t target p) = target"
  by (simp add: makePacket_def frame_target_make)

lemma frame_payload_makePacket [simp]: "frame_payload (makePacket t target p) = put_payload p"
  by (simp add: makePacket_def frame_payload_make)

end
