(* ===== verification/Byte_Scanner.thy ===== *)
theory Byte_Scanner
  imports Lightnet_Prelude
begin

text \<open>
  The interface of a receiver that is fed one byte at a time and recognises items in the stream:
  its client, a receive loop, wants to know which items a whole stream yields. The provider
  states an abstract scan of byte lists that returns the items and the unfinished rest, and
  promises that one pushed byte extends the scan by one byte. The framer and the link-ack matcher
  both provide it.
\<close>

fun scan_feed :: "(u8 \<Rightarrow> 's \<Rightarrow> 'o option \<times> 's) \<Rightarrow> u8 list \<Rightarrow> 's \<Rightarrow> 'o list \<times> 's" where
  "scan_feed push [] s = ([], s)"
| "scan_feed push (b # bs) s =
     (let (item, s1) = push b s; (items, s2) = scan_feed push bs s1
      in (case item of None \<Rightarrow> items | Some x \<Rightarrow> x # items, s2))"

locale byte_scanner =
  fixes push :: "u8 \<Rightarrow> 's \<Rightarrow> 'o option \<times> 's"
    and inv :: "'s \<Rightarrow> bool"
    and pending :: "'s \<Rightarrow> u8 list"
    and scan :: "u8 list \<Rightarrow> 'o list \<times> u8 list"
  assumes push_inv: "inv s \<Longrightarrow> inv (snd (push b s))"
    and push_scan: "inv s \<Longrightarrow> scan (pending s @ [b]) =
      ((case fst (push b s) of None \<Rightarrow> [] | Some x \<Rightarrow> [x]), pending (snd (push b s)))"
    and pending_scan: "inv s \<Longrightarrow> scan (pending s) = ([], pending s)"
    and scan_append: "scan (xs @ ys) =
      (fst (scan xs) @ fst (scan (snd (scan xs) @ ys)), snd (scan (snd (scan xs) @ ys)))"
begin

lemma feed_refines:
  "inv s \<Longrightarrow> scan_feed push bs s = (items, s') \<Longrightarrow>
   inv s' \<and> scan (pending s @ bs) = (items, pending s')"
proof (induction bs arbitrary: s items s')
  case Nil
  then show ?case by (simp add: pending_scan)
next
  case (Cons b bs)
  obtain item s1 where push: "push b s = (item, s1)" by force
  obtain items1 s2 where feed: "scan_feed push bs s1 = (items1, s2)" by force
  have inv1: "inv s1" using push_inv [OF Cons.prems(1), of b] push by simp
  note IH = Cons.IH [OF inv1 feed]
  have out: "items = (case item of None \<Rightarrow> items1 | Some x \<Rightarrow> x # items1)" and s': "s' = s2"
    using Cons.prems(2) unfolding scan_feed.simps push Let_def prod.case feed by auto
  have "scan ((pending s @ [b]) @ bs) =
      ((case item of None \<Rightarrow> [] | Some x \<Rightarrow> [x]) @ items1, pending s2)"
    using push_scan [OF Cons.prems(1), of b] push IH by (subst scan_append) simp
  then show ?case using out s' IH by (simp split: option.splits)
qed

lemma feed_inv: "inv s \<Longrightarrow> inv (snd (scan_feed push bs s))"
  using feed_refines [of s bs] by (metis prod.collapse)

end

end
