(* ===== verification/Packet_Framer.thy ===== *)
theory Packet_Framer
  imports Packet_Structs Byte_Scanner
begin

text \<open>
  \<open>PacketFramer\<close> (\<open>Core/Relay/PacketFramer.cpp\<close>) recovers frames from a raw byte stream: the
  first byte of a frame is its type and gives its size. The abstract contract is \<open>deframe\<close>, which
  cuts a whole stream into frames; \<open>framer_feed\<close> refines it byte by byte.
\<close>

section \<open>The framer\<close>

record PacketFramer =
  pf_buffer :: "u8 list"
  pf_filled :: nat
  pf_expectedSize :: nat
  pf_validateProtocolVersion :: bool

definition framer_init :: "bool \<Rightarrow> PacketFramer" where
  "framer_init v =
     \<lparr>pf_buffer = replicate MAX_PACKET_SIZE 0, pf_filled = 0, pf_expectedSize = 0,
      pf_validateProtocolVersion = v\<rparr>"

definition framer_reset :: "PacketFramer \<Rightarrow> PacketFramer" where
  "framer_reset fr = fr\<lparr>pf_filled := 0, pf_expectedSize := 0\<rparr>"

text \<open>
  A completed frame the caller has not reset is forgotten first, so that nothing is written past
  the end of the buffer; then the byte is taken.
\<close>

definition framer_settle :: "PacketFramer \<Rightarrow> PacketFramer" where
  "framer_settle fr =
     (if 0 < pf_filled fr \<and> pf_filled fr = pf_expectedSize fr then framer_reset fr else fr)"

definition framer_accept :: "u8 \<Rightarrow> PacketFramer \<Rightarrow> bool \<times> PacketFramer" where
  "framer_accept value fr1 =
     (if pf_filled fr1 = 0 \<and> packetSizeForType value = 0 then (False, fr1)
      else
        (let fr2 = (if pf_filled fr1 = 0 then fr1\<lparr>pf_expectedSize := packetSizeForType value\<rparr> else fr1);
             fr3 = fr2\<lparr>pf_buffer := (pf_buffer fr2)[pf_filled fr2 := value],
                      pf_filled := pf_filled fr2 + 1\<rparr>
         in if pf_filled fr3 < pf_expectedSize fr3 then (False, fr3)
         else if validatePacket (pf_buffer fr3) (pf_filled fr3) (pf_validateProtocolVersion fr3) = 0
           then (True, fr3)
         else (False, framer_reset fr3)))"

definition framer_pushByte :: "u8 \<Rightarrow> PacketFramer \<Rightarrow> bool \<times> PacketFramer" where
  "framer_pushByte value fr = framer_accept value (framer_settle fr)"

definition framer_frame :: "PacketFramer \<Rightarrow> u8 list" where
  "framer_frame fr = take (pf_filled fr) (pf_buffer fr)"

definition framer_frameSize :: "PacketFramer \<Rightarrow> nat" where
  "framer_frameSize fr = pf_filled fr"

definition framer_hasPartialFrame :: "PacketFramer \<Rightarrow> bool" where
  "framer_hasPartialFrame fr \<longleftrightarrow> 0 < pf_filled fr \<and> pf_filled fr < pf_expectedSize fr"

text \<open>A caller's loop: push every byte, collect the frame whenever \<open>pushByte\<close> returns true.\<close>

fun framer_feed :: "u8 list \<Rightarrow> PacketFramer \<Rightarrow> u8 list list \<times> PacketFramer" where
  "framer_feed [] fr = ([], fr)"
| "framer_feed (b # bs) fr =
     (let (done, fr1) = framer_pushByte b fr;
          (frames, fr2) = framer_feed bs fr1
      in (if done then framer_frame fr1 # frames else frames, fr2))"

section \<open>Representation invariant\<close>

definition framer_inv :: "PacketFramer \<Rightarrow> bool" where
  "framer_inv fr \<longleftrightarrow>
     length (pf_buffer fr) = MAX_PACKET_SIZE \<and> pf_filled fr \<le> pf_expectedSize fr
     \<and> pf_expectedSize fr \<le> MAX_PACKET_SIZE
     \<and> (if pf_filled fr = 0 then pf_expectedSize fr = 0
        else pf_expectedSize fr = packetSizeForType (pf_buffer fr ! 0) \<and> 7 \<le> pf_expectedSize fr)"

text \<open>The bytes of the frame in progress: none once a frame is complete.\<close>

definition framer_pending :: "PacketFramer \<Rightarrow> u8 list" where
  "framer_pending fr = (if framer_hasPartialFrame fr then framer_frame fr else [])"

lemma framer_inv_init [simp]: "framer_inv (framer_init v)"
  by (simp add: framer_inv_def framer_init_def MAX_PACKET_SIZE_def)

lemma framer_version_init [simp]: "pf_validateProtocolVersion (framer_init v) = v"
  by (simp add: framer_init_def)

lemma framer_pending_init [simp]: "framer_pending (framer_init v) = []"
  by (simp add: framer_pending_def framer_hasPartialFrame_def framer_init_def)

lemma framer_inv_reset [simp]: "framer_inv fr \<Longrightarrow> framer_inv (framer_reset fr)"
  by (simp add: framer_inv_def framer_reset_def split: if_splits)

lemma framer_version_reset [simp]:
  "pf_validateProtocolVersion (framer_reset fr) = pf_validateProtocolVersion fr"
  by (simp add: framer_reset_def)

lemma hasPartialFrame_init [simp]: "\<not> framer_hasPartialFrame (framer_init v)"
  by (simp add: framer_hasPartialFrame_def framer_init_def)

lemma hasPartialFrame_reset [simp]: "\<not> framer_hasPartialFrame (framer_reset fr)"
  by (simp add: framer_hasPartialFrame_def framer_reset_def)

lemma framer_pending_reset [simp]: "framer_pending (framer_reset fr) = []"
  by (simp add: framer_pending_def framer_hasPartialFrame_def framer_reset_def)

lemma hasPartialFrame_pending: "framer_hasPartialFrame fr \<Longrightarrow> framer_inv fr \<Longrightarrow> framer_pending fr \<noteq> []"
  by (auto simp: framer_pending_def framer_frame_def framer_inv_def framer_hasPartialFrame_def)

lemma pending_Nil_iff: "framer_inv fr \<Longrightarrow> framer_pending fr = [] \<longleftrightarrow> \<not> framer_hasPartialFrame fr"
  using hasPartialFrame_pending by (auto simp: framer_pending_def)

lemma validatePacket_take: "7 \<le> n \<Longrightarrow> validatePacket (take n bs) k v = validatePacket bs k v"
  by (simp add: validatePacket_def get_PacketMeta_def le16_at_def byte_at_take)

section \<open>The abstract contract\<close>

text \<open>
  The frames of a byte stream, and the unfinished rest: a byte that is no packet type is skipped,
  a frame is as long as its type says, and a frame that does not validate is dropped whole.
\<close>

function deframe :: "bool \<Rightarrow> u8 list \<Rightarrow> u8 list list \<times> u8 list" where
  "deframe v [] = ([], [])"
| "deframe v (b # bs) =
     (let n = packetSizeForType b in
      if n = 0 then deframe v bs
      else if length (b # bs) < n then ([], b # bs)
      else (let f = take n (b # bs); (frames, rest) = deframe v (drop n (b # bs))
            in (if validatePacket f n v = 0 then f # frames else frames, rest)))"
  by pat_completeness auto
termination
  by (relation "measure (\<lambda>(v, bs). length bs)") (auto dest: packetSizeForType_pos)

declare deframe.simps(2) [simp del]

lemma deframe_noise: "packetSizeForType b = 0 \<Longrightarrow> deframe v (b # bs) = deframe v bs"
  by (simp add: deframe.simps)

lemma deframe_partial:
  "p \<noteq> [] \<Longrightarrow> length p < packetSizeForType (p ! 0) \<Longrightarrow> deframe v p = ([], p)"
  by (cases p) (simp_all add: deframe.simps Let_def)

lemma deframe_frame:
  "p \<noteq> [] \<Longrightarrow> length p = packetSizeForType (p ! 0) \<Longrightarrow>
   deframe v (p @ bs) =
     (let (frames, rest) = deframe v bs in
      (if validatePacket p (length p) v = 0 then p # frames else frames, rest))"
proof -
  assume p: "p \<noteq> []" and len: "length p = packetSizeForType (p ! 0)"
  obtain a l where al: "p = a # l" using p by (cases p) auto
  have size: "packetSizeForType a = length p" using al len by simp
  have "take (length p) (a # l @ bs) = p" and "drop (length p) (a # l @ bs) = bs"
    using al by simp_all
  then show ?thesis
    unfolding al by (simp add: deframe.simps(2) size [unfolded al] Let_def)
qed

lemma deframe_append:
  "deframe v (xs @ ys) =
     (let (fs, r) = deframe v xs; (gs, r') = deframe v (r @ ys) in (fs @ gs, r'))"
proof (induction v xs rule: deframe.induct)
  case (1 v)
  show ?case by (simp add: split_def)
next
  case (2 v b bs)
  let ?n = "packetSizeForType b"
  consider (noise) "?n = 0" | (partial) "?n \<noteq> 0" "length (b # bs) < ?n"
    | (frame) "?n \<noteq> 0" "\<not> length (b # bs) < ?n" by blast
  then show ?case
  proof cases
    case noise
    with 2 show ?thesis by (simp add: deframe_noise)
  next
    case partial
    then have "deframe v (b # bs) = ([], b # bs)" by (simp add: deframe.simps)
    then show ?thesis by (simp add: split_def)
  next
    case frame
    let ?f = "take ?n (b # bs)" and ?d = "drop ?n (b # bs)"
    have split: "b # bs = ?f @ ?d" and ne: "?f \<noteq> []" and len: "length ?f = packetSizeForType (?f ! 0)"
      using frame by (simp_all add: nth_Cons_0)
    have cut: "deframe v (?f @ zs) = (let (frames, rest) = deframe v zs in
        (if validatePacket ?f (length ?f) v = 0 then ?f # frames else frames, rest))" for zs
      by (rule deframe_frame [OF ne len])
    have IH: "deframe v (?d @ ys) =
        (let (fs, r) = deframe v ?d; (gs, r') = deframe v (r @ ys) in (fs @ gs, r'))"
      using 2(2) [OF refl frame] by simp
    have "deframe v ((?f @ ?d) @ ys) = (let (fs, r) = deframe v (?f @ ?d);
        (gs, r') = deframe v (r @ ys) in (fs @ gs, r'))"
      unfolding append_assoc cut IH by (simp add: split_def Let_def)
    then show ?thesis by (simp only: split [symmetric])
  qed
qed

section \<open>The framer implements the contract\<close>

text \<open>
  \<open>pushByte\<close> first forgets a completed frame; what is left is either empty or a frame in
  progress.
\<close>

lemma framer_settle_ok:
  assumes "framer_inv fr"
  shows "framer_inv (framer_settle fr)" and "framer_pending (framer_settle fr) = framer_pending fr"
    and "pf_validateProtocolVersion (framer_settle fr) = pf_validateProtocolVersion fr"
    and "pf_filled (framer_settle fr) = 0 \<or> framer_hasPartialFrame (framer_settle fr)"
  using assms
  by (auto simp: framer_settle_def framer_pending_def framer_hasPartialFrame_def framer_inv_def
      framer_reset_def split: if_splits)

definition framer_step_ok :: "PacketFramer \<Rightarrow> u8 \<Rightarrow> bool \<times> PacketFramer \<Rightarrow> bool" where
  "framer_step_ok fr b r \<longleftrightarrow>
     framer_inv (snd r)
     \<and> pf_validateProtocolVersion (snd r) = pf_validateProtocolVersion fr
     \<and> deframe (pf_validateProtocolVersion fr) (framer_pending fr @ [b]) =
         (if fst r then [framer_frame (snd r)] else [], framer_pending (snd r))"

lemma framer_step_first:
  assumes "framer_inv fr" and "pf_filled fr = 0"
  shows "framer_step_ok fr b (framer_accept b fr)"
proof (cases "packetSizeForType b = 0")
  case True
  then show ?thesis
    using assms by (simp add: framer_step_ok_def framer_accept_def Let_def deframe_noise
        framer_pending_def framer_hasPartialFrame_def)
next
  case False
  then have n: "7 \<le> packetSizeForType b" by (rule packetSizeForType_pos)
  let ?fr = "fr\<lparr>pf_expectedSize := packetSizeForType b, pf_buffer := (pf_buffer fr)[0 := b], pf_filled := 1\<rparr>"
  have "framer_accept b fr = (False, ?fr)"
    using assms(2) False n by (simp add: framer_accept_def Let_def)
  moreover have "framer_frame ?fr = [b]"
    using assms(1) by (cases "pf_buffer fr")
      (simp_all add: framer_frame_def framer_inv_def MAX_PACKET_SIZE_def)
  then have "framer_pending ?fr = [b]"
    using n by (simp add: framer_pending_def framer_hasPartialFrame_def)
  moreover have "framer_inv ?fr"
    using assms n packetSizeForType_le [of b]
    by (simp add: framer_inv_def MAX_PACKET_SIZE_def nth_list_update)
  moreover have "framer_pending fr = []"
    using assms(2) by (simp add: framer_pending_def framer_hasPartialFrame_def)
  moreover have "deframe v [b] = ([], [b])" for v
    using n by (intro deframe_partial) simp_all
  ultimately show ?thesis by (simp add: framer_step_ok_def)
qed

lemma framer_step_next:
  assumes inv: "framer_inv fr" and part: "framer_hasPartialFrame fr"
  shows "framer_step_ok fr b (framer_accept b fr)"
proof -
  let ?k = "pf_filled fr" and ?n = "pf_expectedSize fr" and ?v = "pf_validateProtocolVersion fr"
  let ?buf = "(pf_buffer fr)[?k := b]"
  let ?fr = "fr\<lparr>pf_buffer := ?buf, pf_filled := Suc ?k\<rparr>"
  have k: "0 < ?k" "?k < ?n" "?n \<le> MAX_PACKET_SIZE" "length (pf_buffer fr) = MAX_PACKET_SIZE"
    and n: "?n = packetSizeForType (pf_buffer fr ! 0)" "7 \<le> ?n"
    using inv part by (auto simp: framer_inv_def framer_hasPartialFrame_def)
  have push: "framer_accept b fr =
      (if Suc ?k < ?n then (False, ?fr)
       else if validatePacket ?buf (Suc ?k) ?v = 0 then (True, ?fr) else (False, framer_reset ?fr))"
    using k by (simp add: framer_accept_def Let_def)
  have inv': "framer_inv ?fr" using inv k by (simp add: framer_inv_def)
  have pend: "framer_pending fr = take ?k (pf_buffer fr)"
    using part by (simp add: framer_pending_def framer_frame_def)
  have new: "take (Suc ?k) ?buf = framer_pending fr @ [b]"
    using k pend by (simp add: take_Suc_update)
  have hd: "(framer_pending fr @ [b]) ! 0 = pf_buffer fr ! 0" and len: "length (framer_pending fr) = ?k"
    using k pend by (simp_all add: nth_append)
  show ?thesis
  proof (cases "Suc ?k < ?n")
    case True
    then have "deframe ?v (framer_pending fr @ [b]) = ([], framer_pending fr @ [b])"
      using n hd len by (intro deframe_partial) simp_all
    moreover have "framer_pending ?fr = framer_pending fr @ [b]"
      using True new by (simp add: framer_pending_def framer_hasPartialFrame_def framer_frame_def)
    ultimately show ?thesis
      using True push inv' by (simp add: framer_step_ok_def)
  next
    case False
    with k have eq: "Suc ?k = ?n" by simp
    have "deframe ?v ((framer_pending fr @ [b]) @ []) =
        (if validatePacket (framer_pending fr @ [b]) ?n ?v = 0 then [framer_pending fr @ [b]] else [], [])"
      using n hd len eq by (subst deframe_frame) simp_all
    moreover have "validatePacket (framer_pending fr @ [b]) ?n ?v = validatePacket ?buf ?n ?v"
      using validatePacket_take [of ?n ?buf ?n ?v] n(2) new eq by simp
    moreover have "framer_frame ?fr = framer_pending fr @ [b]" and "framer_pending ?fr = []"
      using new eq by (simp_all add: framer_frame_def framer_pending_def framer_hasPartialFrame_def)
    ultimately show ?thesis
      using push inv' eq by (simp add: framer_step_ok_def)
  qed
qed

lemma framer_pushByte_ok:
  assumes "framer_inv fr"
  shows "framer_step_ok fr b (framer_pushByte b fr)"
proof -
  note settle = framer_settle_ok [OF assms]
  have "framer_step_ok (framer_settle fr) b (framer_accept b (framer_settle fr))"
    using settle(1,4) framer_step_first framer_step_next by blast
  then show ?thesis
    using settle(2,3) by (simp add: framer_step_ok_def framer_pushByte_def)
qed

lemma framer_inv_pushByte: "framer_inv fr \<Longrightarrow> framer_pushByte b fr = (d, fr') \<Longrightarrow> framer_inv fr'"
  using framer_pushByte_ok [of fr b] by (simp add: framer_step_ok_def)

text \<open>A push as the scanner interface sees it: the delivered frame, if there is one.\<close>

definition framer_emit :: "u8 \<Rightarrow> PacketFramer \<Rightarrow> u8 list option \<times> PacketFramer" where
  "framer_emit b fr =
     (let (done, fr') = framer_pushByte b fr in (if done then Some (framer_frame fr') else None, fr'))"

definition framer_inv_at :: "bool \<Rightarrow> PacketFramer \<Rightarrow> bool" where
  "framer_inv_at v fr \<longleftrightarrow> framer_inv fr \<and> pf_validateProtocolVersion fr = v"

lemma framer_feed_scan: "framer_feed bs fr = scan_feed framer_emit bs fr"
  by (induction bs arbitrary: fr) (auto simp: framer_emit_def split_def Let_def)

lemma deframe_pending:
  assumes "framer_inv fr"
  shows "deframe v (framer_pending fr) = ([], framer_pending fr)"
proof (cases "framer_pending fr = []")
  case False
  then have "framer_hasPartialFrame fr" by (simp add: framer_pending_def split: if_splits)
  then have "length (framer_pending fr) < packetSizeForType (framer_pending fr ! 0)"
    using assms by (auto simp: framer_pending_def framer_frame_def framer_inv_def
        framer_hasPartialFrame_def split: if_splits)
  with False show ?thesis by (rule deframe_partial)
qed simp

interpretation framer_scanner: byte_scanner framer_emit "framer_inv_at v" framer_pending "deframe v"
  for v
proof unfold_locales
  fix fr b
  assume inv: "framer_inv_at v fr"
  then have ok: "framer_step_ok fr b (framer_pushByte b fr)"
    by (simp add: framer_inv_at_def framer_pushByte_ok)
  then show "framer_inv_at v (snd (framer_emit b fr))"
    using inv by (simp add: framer_inv_at_def framer_step_ok_def framer_emit_def split_def Let_def)
  show "deframe v (framer_pending fr @ [b]) =
      ((case fst (framer_emit b fr) of None \<Rightarrow> [] | Some x \<Rightarrow> [x]), framer_pending (snd (framer_emit b fr)))"
    using ok inv by (simp add: framer_inv_at_def framer_step_ok_def framer_emit_def split_def Let_def)
next
  fix fr
  assume "framer_inv_at v fr"
  then show "deframe v (framer_pending fr) = ([], framer_pending fr)"
    by (simp add: framer_inv_at_def deframe_pending)
next
  fix xs ys
  show "deframe v (xs @ ys) = (fst (deframe v xs) @ fst (deframe v (snd (deframe v xs) @ ys)),
      snd (deframe v (snd (deframe v xs) @ ys)))"
    by (subst deframe_append) (simp only: split_def Let_def)
qed

lemma framer_feed_refines:
  "framer_inv fr \<Longrightarrow> framer_feed bs fr = (frames, fr') \<Longrightarrow>
   framer_inv fr'
   \<and> deframe (pf_validateProtocolVersion fr) (framer_pending fr @ bs) = (frames, framer_pending fr')"
  using framer_scanner.feed_refines [of "pf_validateProtocolVersion fr" fr bs frames fr']
  by (simp add: framer_inv_at_def framer_feed_scan)

lemma framer_feed_version:
  "framer_inv fr \<Longrightarrow> pf_validateProtocolVersion (snd (framer_feed bs fr)) = pf_validateProtocolVersion fr"
  using framer_scanner.feed_inv [of "pf_validateProtocolVersion fr" fr bs]
  by (simp add: framer_inv_at_def framer_feed_scan)

lemma framer_feed_init:
  "framer_feed bs (framer_init v) = (frames, fr) \<Longrightarrow>
   framer_inv fr \<and> deframe v bs = (frames, framer_pending fr)"
  using framer_feed_refines [OF framer_inv_init] by fastforce

section \<open>Frames in and out\<close>

text \<open>A frame as the framer delivers it: of the size of its type, and accepted by \<open>validatePacket\<close>.\<close>

definition wire_frame :: "bool \<Rightarrow> u8 list \<Rightarrow> bool" where
  "wire_frame v f \<longleftrightarrow>
     f \<noteq> [] \<and> length f = packetSizeForType (f ! 0) \<and> validatePacket f (length f) v = 0"

definition noise :: "u8 list \<Rightarrow> bool" where
  "noise bs \<longleftrightarrow> list_all (\<lambda>b. packetSizeForType b = 0) bs"

lemma frame_type_hd: "frame_type f = byte_at f 0"
  by (simp add: frame_type_def get_PacketMeta_def)

lemma wire_frame_length: "wire_frame v f \<Longrightarrow> length f = packetSizeForType (frame_type f) \<and> 7 \<le> length f"
proof -
  assume f: "wire_frame v f"
  then have "packetSizeForType (f ! 0) \<noteq> 0" by (metis length_0_conv wire_frame_def)
  then show ?thesis
    using f packetSizeForType_pos [of "f ! 0"] by (simp add: wire_frame_def frame_type_hd byte_at_def)
qed

lemma wire_frame_makePacket:
  assumes "payload_fits t p"
  shows "wire_frame v (makePacket t target p)"
proof -
  let ?f = "makePacket t target p"
  have len: "length ?f = packet_size t" by (rule length_makePacket [OF assms])
  have "7 \<le> length ?f" using len packet_size_bounds [of t] by simp
  then have "?f \<noteq> []" by auto
  have "validatePacket ?f (length ?f) v = 0"
    using \<open>7 \<le> length ?f\<close> by (simp add: makePacket_def validatePacket_make)
  moreover have "?f ! 0 = packetType_code t"
    using frame_type_makePacket [of t target p] \<open>?f \<noteq> []\<close> by (simp add: frame_type_hd byte_at_def)
  ultimately show ?thesis using len \<open>?f \<noteq> []\<close> by (simp add: wire_frame_def)
qed

lemma deframe_noise_append: "noise ns \<Longrightarrow> deframe v (ns @ bs) = deframe v bs"
  by (induction ns) (simp_all add: noise_def deframe_noise)

lemma deframe_wire_frame:
  "wire_frame v f \<Longrightarrow> deframe v (f @ bs) = (let (fs, r) = deframe v bs in (f # fs, r))"
  by (auto simp: wire_frame_def deframe_frame split_def)

lemma deframe_stream:
  "list_all (\<lambda>(ns, f). noise ns \<and> wire_frame v f) segs \<Longrightarrow>
   deframe v (concat (map (\<lambda>(ns, f). ns @ f) segs)) = (map snd segs, [])"
  by (induction segs) (auto simp: deframe_noise_append deframe_wire_frame)

lemma deframe_wire_frames: "f \<in> set (fst (deframe v bs)) \<Longrightarrow> wire_frame v f"
proof (induction v bs rule: deframe.induct)
  case (1 v)
  then show ?case by simp
next
  case (2 v b bs)
  let ?n = "packetSizeForType b" and ?f = "take (packetSizeForType b) (b # bs)"
  consider (skip) "?n = 0" | (short) "?n \<noteq> 0" "length (b # bs) < ?n"
    | (frame) "?n \<noteq> 0" "\<not> length (b # bs) < ?n" by blast
  then show ?case
  proof cases
    case skip
    with 2 show ?thesis by (simp add: deframe.simps(2))
  next
    case short
    with 2 show ?thesis by (simp add: deframe.simps(2))
  next
    case frame
    have "?f ! 0 = b" and "?f \<noteq> []" and "length ?f = ?n" using frame by simp_all
    then have "validatePacket ?f ?n v = 0 \<Longrightarrow> wire_frame v ?f" by (simp add: wire_frame_def)
    with frame 2 show ?thesis
      by (auto simp: deframe.simps(2) Let_def split_def split: if_splits)
  qed
qed

section \<open>Properties\<close>

text \<open>
  C1. Every packet struct survives the wire: the frame \<open>makePacket\<close> builds has the size the
  receiver computes from its type byte alone, validates with or without the version check,
  carries its target address, and reads back as the same struct.
\<close>

theorem packet_roundtrip:
  assumes "payload_fits t p"
  shows "let f = makePacket t target p in
    length f = packetSizeForType (frame_type f) \<and> validatePacket f (length f) v = 0
    \<and> frame_type f = packetType_code t \<and> frame_target f = target
    \<and> get_payload t (frame_payload f) = p"
proof -
  let ?f = "makePacket t target p"
  have "validatePacket ?f (length ?f) v = 0"
    using wire_frame_makePacket [OF assms, of v target] unfolding wire_frame_def by blast
  then show ?thesis
    using length_makePacket [OF assms, of target] get_put_payload [OF assms] by (simp add: Let_def)
qed

theorem packet_roundtrip_witness:
  "let f = makePacket PACKET_REGISTER_EDGE 7
         (Register_Edge \<lparr>reg_panelIndex = 300, reg_edgeIndex = 2, reg_parentEdgeIndex = 1\<rparr>) in
    length f = packetSizeForType (frame_type f) \<and> validatePacket f (length f) True = 0
    \<and> frame_type f = packetType_code PACKET_REGISTER_EDGE \<and> frame_target f = 7
    \<and> get_payload PACKET_REGISTER_EDGE (frame_payload f) =
        Register_Edge \<lparr>reg_panelIndex = 300, reg_edgeIndex = 2, reg_parentEdgeIndex = 1\<rparr>"
  by (rule packet_roundtrip) simp

text \<open>
  C2. The header CRC catches every corruption confined to one byte of the packet metadata,
  whichever byte and whatever its new value: \<open>validatePacket\<close> returns 2.
\<close>

theorem header_corruption_detected:
  assumes "wire_frame v f" and "i < 7" and "x \<noteq> f ! i"
  shows "validatePacket (f[i := x]) (length f) w = 2"
proof -
  have len: "7 \<le> length f" using assms(1) wire_frame_length by blast
  have "crc_ok f"
    using assms(1) len by (auto simp: wire_frame_def intro: validatePacket_crc_ok)
  then have "\<not> crc_ok (f[i := x])" using len assms(2,3) by (rule crc_ok_update_byte)
  with len show ?thesis by (intro validatePacket_bad_crc) simp_all
qed

theorem header_corruption_detected_witness:
  "validatePacket ((makePacket PACKET_NOOP 5 Meta_Only)[3 := 6])
     (length (makePacket PACKET_NOOP 5 Meta_Only)) True = 2"
proof (rule header_corruption_detected)
  show "wire_frame True (makePacket PACKET_NOOP 5 Meta_Only)"
    by (rule wire_frame_makePacket) (simp add: sizeof_PacketMeta_def)
  show "(6 :: u8) \<noteq> makePacket PACKET_NOOP 5 Meta_Only ! 3"
    by (simp add: makePacket_def makeMeta_def put_PacketMeta_def put_PacketHeader_def
        setPacketMeta_def Let_def le16_bytes_def)
qed simp

text \<open>
  C3. Refinement: whatever bytes arrive, in whatever grouping, the framer delivers exactly the
  frames the abstract segmentation finds, keeps the unfinished rest as its partial frame, and
  never leaves its representation invariant (so no write is past its 80-byte buffer).
\<close>

theorem framer_implements_deframe:
  "let (frames, fr) = framer_feed bs (framer_init v) in
     deframe v bs = (frames, framer_pending fr) \<and> framer_inv fr"
proof -
  obtain frames fr where feed: "framer_feed bs (framer_init v) = (frames, fr)" by force
  show ?thesis using framer_feed_init [OF feed] feed by simp
qed

text \<open>
  C4. Sent frames arrive: a stream of stamped packets, each after any number of noise bytes that
  are no packet type (the 0xFF preamble), comes out as exactly those packets in order, and no
  partial frame is left behind.
\<close>

theorem framer_recovers_stream:
  assumes "list_all (\<lambda>(ns, t, target, p). noise ns \<and> payload_fits t p) pkts"
  shows "let (frames, fr) = framer_feed
      (concat (map (\<lambda>(ns, t, target, p). ns @ makePacket t target p) pkts)) (framer_init v) in
    frames = map (\<lambda>(ns, t, target, p). makePacket t target p) pkts
    \<and> \<not> framer_hasPartialFrame fr"
proof -
  let ?segs = "map (\<lambda>(ns, t, target, p). (ns, makePacket t target p)) pkts"
  have "list_all (\<lambda>(ns, f). noise ns \<and> wire_frame v f) ?segs"
    using assms by (auto simp: list_all_iff wire_frame_makePacket)
  from deframe_stream [OF this] have spec:
    "deframe v (concat (map (\<lambda>(ns, t, target, p). ns @ makePacket t target p) pkts)) =
      (map (\<lambda>(ns, t, target, p). makePacket t target p) pkts, [])"
    by (simp add: comp_def split_def)
  obtain frames fr where feed: "framer_feed
      (concat (map (\<lambda>(ns, t, target, p). ns @ makePacket t target p) pkts)) (framer_init v) = (frames, fr)"
    by force
  have "framer_inv fr" and "deframe v (concat (map (\<lambda>(ns, t, target, p). ns @ makePacket t target p) pkts)) =
      (frames, framer_pending fr)"
    using framer_feed_init [OF feed] by simp_all
  with spec feed show ?thesis by (simp add: pending_Nil_iff [symmetric])
qed

theorem framer_recovers_stream_witness:
  "let (frames, fr) = framer_feed
      (concat (map (\<lambda>(ns, t, target, p). ns @ makePacket t target p)
        [([0xFF, 0xFF :: u8], PACKET_ACK, 3, Meta_Only),
         ([0xFF], PACKET_DISCOVERY_DONE, 0, Discovery_Done \<lparr>done_panelIndex = 4\<rparr>)])) (framer_init True) in
    frames = map (\<lambda>(ns, t, target, p). makePacket t target p)
        [([0xFF, 0xFF :: u8], PACKET_ACK, 3, Meta_Only),
         ([0xFF], PACKET_DISCOVERY_DONE, 0, Discovery_Done \<lparr>done_panelIndex = 4\<rparr>)]
    \<and> \<not> framer_hasPartialFrame fr"
  by (rule framer_recovers_stream)
     (simp add: noise_def packetSizeForType_def packetType_of_def packet_types_def sizeof_PacketMeta_def)

end
