(* ===== verification/Frame_Receivers.thy ===== *)
theory Frame_Receivers
  imports Packet_Framer
begin

text \<open>
  The two receivers on top of the framer: \<open>TrunkFrameReceiver\<close> (the controller's single trunk,
  an idle-gap reset) and \<open>EdgeFrameReceiver\<close> (a panel's muxed edges, one claim at a time). Their
  clocks are 32-bit millisecond counters that wrap.
\<close>

section \<open>The trunk receiver\<close>

definition IDLE_GAP_RESET_MS :: u32 where "IDLE_GAP_RESET_MS = 10"

record TrunkFrameReceiver =
  tfr_framer :: PacketFramer
  tfr_lastByteMs :: u32

definition tfr_init :: "bool \<Rightarrow> TrunkFrameReceiver" where
  "tfr_init v = \<lparr>tfr_framer = framer_init v, tfr_lastByteMs = 0\<rparr>"

definition tfr_onByte :: "u8 \<Rightarrow> u32 \<Rightarrow> TrunkFrameReceiver \<Rightarrow> bool \<times> TrunkFrameReceiver" where
  "tfr_onByte value nowMs r =
     (let fr = (if framer_hasPartialFrame (tfr_framer r) \<and> IDLE_GAP_RESET_MS \<le> nowMs - tfr_lastByteMs r
                then framer_reset (tfr_framer r) else tfr_framer r);
          (done, fr') = framer_pushByte value fr
      in (done, r\<lparr>tfr_lastByteMs := nowMs, tfr_framer := fr'\<rparr>))"

definition tfr_reset :: "TrunkFrameReceiver \<Rightarrow> TrunkFrameReceiver" where
  "tfr_reset r = r\<lparr>tfr_framer := framer_reset (tfr_framer r)\<rparr>"

definition tfr_frame :: "TrunkFrameReceiver \<Rightarrow> u8 list" where
  "tfr_frame r = framer_frame (tfr_framer r)"

definition tfr_frameSize :: "TrunkFrameReceiver \<Rightarrow> nat" where
  "tfr_frameSize r = framer_frameSize (tfr_framer r)"

text \<open>A stream of timed bytes, collecting each completed frame.\<close>

fun tfr_feed :: "(u8 \<times> u32) list \<Rightarrow> TrunkFrameReceiver \<Rightarrow> u8 list list \<times> TrunkFrameReceiver" where
  "tfr_feed [] r = ([], r)"
| "tfr_feed ((b, t) # bs) r =
     (let (done, r1) = tfr_onByte b t r; (frames, r2) = tfr_feed bs r1
      in (if done then tfr_frame r1 # frames else frames, r2))"

definition tfr_inv :: "TrunkFrameReceiver \<Rightarrow> bool" where
  "tfr_inv r \<longleftrightarrow> framer_inv (tfr_framer r)"

text \<open>Bytes that follow each other with less than the idle gap between them.\<close>

fun contiguous :: "u32 \<Rightarrow> (u8 \<times> u32) list \<Rightarrow> bool" where
  "contiguous prev [] \<longleftrightarrow> True"
| "contiguous prev ((b, t) # bs) \<longleftrightarrow> t - prev < IDLE_GAP_RESET_MS \<and> contiguous t bs"

lemma tfr_feed_contiguous:
  "contiguous (tfr_lastByteMs r) bs \<Longrightarrow>
   tfr_feed bs r = (let (frames, fr) = framer_feed (map fst bs) (tfr_framer r)
     in (frames, r\<lparr>tfr_framer := fr, tfr_lastByteMs := snd (last ((0, tfr_lastByteMs r) # bs))\<rparr>))"
proof (induction bs arbitrary: r)
  case Nil
  then show ?case by simp
next
  case (Cons x bs)
  obtain b t where x: "x = (b, t)" by force
  obtain d fr where push: "framer_pushByte b (tfr_framer r) = (d, fr)" by force
  have "\<not> IDLE_GAP_RESET_MS \<le> t - tfr_lastByteMs r" using Cons.prems x by (simp add: not_le)
  then have on: "tfr_onByte b t r = (d, r\<lparr>tfr_lastByteMs := t, tfr_framer := fr\<rparr>)"
    using push by (simp add: tfr_onByte_def)
  have "contiguous (tfr_lastByteMs (r\<lparr>tfr_lastByteMs := t, tfr_framer := fr\<rparr>)) bs"
    using Cons.prems x by simp
  note IH = Cons.IH [OF this]
  show ?case
    unfolding x tfr_feed.simps on Let_def prod.case IH
    by (simp add: push tfr_frame_def split_def Let_def)
qed

text \<open>
  Starting a burst after the gap, the receiver behaves as one whose framer holds no partial
  frame: either there was none, or it is reset now.
\<close>

lemma tfr_feed_after_gap:
  assumes inv: "tfr_inv r" and gap: "IDLE_GAP_RESET_MS \<le> t - tfr_lastByteMs r"
    and cont: "contiguous t bs"
  shows "fst (tfr_feed ((b, t) # bs) r)
    = fst (deframe (pf_validateProtocolVersion (tfr_framer r)) (map fst ((b, t) # bs)))"
proof -
  let ?fr = "if framer_hasPartialFrame (tfr_framer r) then framer_reset (tfr_framer r) else tfr_framer r"
  let ?r = "r\<lparr>tfr_framer := ?fr, tfr_lastByteMs := t\<rparr>"
  have fr: "framer_inv ?fr" "framer_pending ?fr = []"
    and v: "pf_validateProtocolVersion ?fr = pf_validateProtocolVersion (tfr_framer r)"
    using inv by (auto simp: tfr_inv_def framer_pending_def)
  have "tfr_onByte b t r = tfr_onByte b t ?r"
    using gap by (simp add: tfr_onByte_def IDLE_GAP_RESET_MS_def split_def)
  then have same: "tfr_feed ((b, t) # bs) r = tfr_feed ((b, t) # bs) ?r" by simp
  have "contiguous (tfr_lastByteMs ?r) ((b, t) # bs)" using cont by (simp add: IDLE_GAP_RESET_MS_def)
  from tfr_feed_contiguous [OF this]
  have "fst (tfr_feed ((b, t) # bs) ?r) = fst (framer_feed (map fst ((b, t) # bs)) ?fr)"
    by (simp add: split_def Let_def)
  also have "\<dots> = fst (deframe (pf_validateProtocolVersion ?fr) (map fst ((b, t) # bs)))"
  proof -
    obtain fs fr' where feed: "framer_feed (map fst ((b, t) # bs)) ?fr = (fs, fr')" by force
    show ?thesis using framer_feed_refines [OF fr(1) feed] fr(2) feed by simp
  qed
  finally show ?thesis using same v by simp
qed

text \<open>
  The trunk heals itself: whatever bytes were received before and however the framer was
  left, a frame whose first byte comes at least the idle gap after the last byte, and whose
  bytes follow each other within it, is delivered.
\<close>

theorem trunk_self_heals:
  assumes "tfr_inv r" and "wire_frame (pf_validateProtocolVersion (tfr_framer r)) f"
    and "map fst burst = f" and "burst = (b, t) # bs"
    and "IDLE_GAP_RESET_MS \<le> t - tfr_lastByteMs r" and "contiguous t bs"
  shows "fst (tfr_feed burst r) = [f]"
  using tfr_feed_after_gap [OF assms(1,5,6), of b] deframe_wire_frame [OF assms(2), of "[]"] assms(3,4)
  by (simp add: split_def)

theorem trunk_self_heals_witness:
  "fst (tfr_feed (map (\<lambda>b. (b, 100)) (makePacket PACKET_ACK 1 Meta_Only))
     (snd (tfr_onByte 13 7 (tfr_init True)))) = [makePacket PACKET_ACK 1 Meta_Only]"
proof -
  let ?r = "snd (tfr_onByte 13 7 (tfr_init True))" and ?f = "makePacket PACKET_ACK 1 Meta_Only"
  let ?burst = "map (\<lambda>b. (b, 100 :: u32)) ?f"
  obtain d fr where push: "framer_pushByte 13 (framer_init True) = (d, fr)" by force
  have fr: "framer_inv fr" "pf_validateProtocolVersion fr = True"
    using framer_pushByte_ok [OF framer_inv_init [of True], of 13] push
    by (simp_all add: framer_step_ok_def)
  have r: "?r = \<lparr>tfr_framer = fr, tfr_lastByteMs = 7\<rparr>"
    using push by (simp add: tfr_onByte_def tfr_init_def framer_hasPartialFrame_def framer_init_def)
  have wf: "wire_frame True ?f" by (rule wire_frame_makePacket) (simp add: sizeof_PacketMeta_def)
  have ne: "?f \<noteq> []" using wf by (simp add: wire_frame_def)
  have cont: "contiguous 100 (map (\<lambda>b. (b, 100)) bs)" for bs
    by (induction bs) (simp_all add: IDLE_GAP_RESET_MS_def)
  show ?thesis
  proof (rule trunk_self_heals)
    show "tfr_inv ?r" using fr r by (simp add: tfr_inv_def)
    show "wire_frame (pf_validateProtocolVersion (tfr_framer ?r)) ?f" using fr r wf by simp
    show "map fst ?burst = ?f" by (simp add: comp_def)
    show "?burst = (hd ?f, 100) # map (\<lambda>b. (b, 100)) (tl ?f)" using ne by (cases ?f) simp_all
    show "IDLE_GAP_RESET_MS \<le> 100 - tfr_lastByteMs ?r" by (simp add: r IDLE_GAP_RESET_MS_def)
    show "contiguous 100 (map (\<lambda>b. (b, 100)) (tl ?f))" by (rule cont)
  qed
qed

section \<open>The edge receiver\<close>

definition NO_EDGE :: u8 where "NO_EDGE = 0xFF"
definition FRAME_TIMEOUT_MS :: u32 where "FRAME_TIMEOUT_MS = 20"
definition MAX_CLAIM_MS :: u32 where "MAX_CLAIM_MS = 100"

record EdgeFrameReceiver =
  efr_framer :: PacketFramer
  efr_activeEdge :: u8
  efr_completedEdge :: u8
  efr_lastActivityMs :: u32
  efr_claimStartMs :: u32

definition efr_init :: EdgeFrameReceiver where
  "efr_init =
     \<lparr>efr_framer = framer_init True, efr_activeEdge = NO_EDGE, efr_completedEdge = NO_EDGE,
      efr_lastActivityMs = 0, efr_claimStartMs = 0\<rparr>"

definition efr_onEdgeWake :: "u8 \<Rightarrow> u32 \<Rightarrow> EdgeFrameReceiver \<Rightarrow> bool \<times> EdgeFrameReceiver" where
  "efr_onEdgeWake edgeIndex nowMs r =
     (if efr_activeEdge r \<noteq> NO_EDGE then (False, r)
      else (True, r\<lparr>efr_activeEdge := edgeIndex, efr_lastActivityMs := nowMs, efr_claimStartMs := nowMs\<rparr>))"

definition efr_preemptClaim :: "u8 \<Rightarrow> u32 \<Rightarrow> EdgeFrameReceiver \<Rightarrow> bool \<times> EdgeFrameReceiver" where
  "efr_preemptClaim edgeIndex nowMs r =
     (if efr_activeEdge r = edgeIndex then (False, r)
      else
        (let r1 = (if efr_activeEdge r \<noteq> NO_EDGE then r\<lparr>efr_framer := framer_reset (efr_framer r)\<rparr> else r)
         in (True, r1\<lparr>efr_activeEdge := edgeIndex, efr_lastActivityMs := nowMs,
                     efr_claimStartMs := nowMs\<rparr>)))"

definition efr_release :: "EdgeFrameReceiver \<Rightarrow> EdgeFrameReceiver" where
  "efr_release r = r\<lparr>efr_activeEdge := NO_EDGE\<rparr>"

definition efr_onByte :: "u8 \<Rightarrow> u32 \<Rightarrow> EdgeFrameReceiver \<Rightarrow> bool \<times> EdgeFrameReceiver" where
  "efr_onByte value nowMs r =
     (if efr_activeEdge r = NO_EDGE then (False, r)
      else
        (let r1 = r\<lparr>efr_lastActivityMs := nowMs\<rparr>;
             (done, fr) = framer_pushByte value (efr_framer r1);
             r2 = r1\<lparr>efr_framer := fr\<rparr>
         in if \<not> done then (False, r2)
            else (True, efr_release (r2\<lparr>efr_completedEdge := efr_activeEdge r2\<rparr>))))"

definition efr_tick :: "u32 \<Rightarrow> EdgeFrameReceiver \<Rightarrow> EdgeFrameReceiver" where
  "efr_tick nowMs r =
     (if efr_activeEdge r = NO_EDGE then r
      else if FRAME_TIMEOUT_MS \<le> nowMs - efr_lastActivityMs r then
        efr_release (r\<lparr>efr_framer := framer_reset (efr_framer r)\<rparr>)
      else if MAX_CLAIM_MS \<le> nowMs - efr_claimStartMs r then
        efr_release (r\<lparr>efr_framer := framer_reset (efr_framer r)\<rparr>)
      else r)"

definition efr_frame :: "EdgeFrameReceiver \<Rightarrow> u8 list" where
  "efr_frame r = framer_frame (efr_framer r)"

definition efr_frameSize :: "EdgeFrameReceiver \<Rightarrow> nat" where
  "efr_frameSize r = framer_frameSize (efr_framer r)"

definition efr_fromEdge :: "EdgeFrameReceiver \<Rightarrow> u8" where
  "efr_fromEdge r = efr_completedEdge r"

definition efr_claimedEdge :: "EdgeFrameReceiver \<Rightarrow> u8" where
  "efr_claimedEdge r = efr_activeEdge r"

subsection \<open>The events of the receiver and its invariant\<close>

text \<open>The main loop calls the four operations in any order, at any time.\<close>

inductive efr_step :: "EdgeFrameReceiver \<Rightarrow> EdgeFrameReceiver \<Rightarrow> bool" where
  wake: "efr_onEdgeWake e t r = (c, r') \<Longrightarrow> efr_step r r'"
| preempt: "efr_preemptClaim e t r = (c, r') \<Longrightarrow> efr_step r r'"
| byte: "efr_onByte b t r = (d, r') \<Longrightarrow> efr_step r r'"
| tick: "efr_tick t r = r' \<Longrightarrow> efr_step r r'"

inductive efr_reachable :: "EdgeFrameReceiver \<Rightarrow> bool" where
  start: "efr_reachable efr_init"
| step: "efr_reachable r \<Longrightarrow> efr_step r r' \<Longrightarrow> efr_reachable r'"

text \<open>
  A partial frame exists only under a claim, so no claim ever starts with the leftover of another
  edge's frame.
\<close>

definition efr_inv :: "EdgeFrameReceiver \<Rightarrow> bool" where
  "efr_inv r \<longleftrightarrow>
     framer_inv (efr_framer r) \<and> pf_validateProtocolVersion (efr_framer r)
     \<and> (efr_activeEdge r = NO_EDGE \<longrightarrow> \<not> framer_hasPartialFrame (efr_framer r))"

lemma efr_inv_init: "efr_inv efr_init"
  by (simp add: efr_inv_def efr_init_def)

lemma efr_inv_wake: "efr_inv r \<Longrightarrow> efr_inv (snd (efr_onEdgeWake e t r))"
  by (auto simp: efr_inv_def efr_onEdgeWake_def)

lemma efr_inv_preempt: "efr_inv r \<Longrightarrow> efr_inv (snd (efr_preemptClaim e t r))"
  by (auto simp: efr_inv_def efr_preemptClaim_def)

lemma efr_inv_tick: "efr_inv r \<Longrightarrow> efr_inv (efr_tick t r)"
  by (auto simp: efr_inv_def efr_tick_def efr_release_def)

text \<open>Once \<open>pushByte\<close> reports a frame, the frame is complete.\<close>

lemma pushByte_done_complete:
  "framer_pushByte b fr = (True, fr') \<Longrightarrow> framer_inv fr \<Longrightarrow> \<not> framer_hasPartialFrame fr'"
  by (auto simp: framer_pushByte_def framer_accept_def Let_def framer_hasPartialFrame_def split: if_splits)

lemma efr_onByte_claimed:
  "efr_activeEdge r \<noteq> NO_EDGE \<Longrightarrow> framer_pushByte b (efr_framer r) = (d, fr) \<Longrightarrow>
   efr_onByte b t r = (d, if d
     then r\<lparr>efr_lastActivityMs := t, efr_framer := fr, efr_completedEdge := efr_activeEdge r,
            efr_activeEdge := NO_EDGE\<rparr>
     else r\<lparr>efr_lastActivityMs := t, efr_framer := fr\<rparr>)"
  by (simp add: efr_onByte_def efr_release_def)

lemma efr_onByte_idle: "efr_activeEdge r = NO_EDGE \<Longrightarrow> efr_onByte b t r = (False, r)"
  by (simp add: efr_onByte_def)

lemma efr_inv_byte:
  assumes "efr_inv r"
  shows "efr_inv (snd (efr_onByte b t r))"
proof -
  obtain d fr where push: "framer_pushByte b (efr_framer r) = (d, fr)" by force
  have "framer_step_ok (efr_framer r) b (d, fr)"
    using framer_pushByte_ok [of "efr_framer r" b] assms push by (simp add: efr_inv_def)
  then have fr: "framer_inv fr" "pf_validateProtocolVersion fr"
    using assms by (simp_all add: framer_step_ok_def efr_inv_def)
  have "d \<Longrightarrow> \<not> framer_hasPartialFrame fr"
    using push assms pushByte_done_complete by (auto simp: efr_inv_def)
  with fr assms show ?thesis
    by (cases "efr_activeEdge r = NO_EDGE")
       (simp_all add: efr_inv_def efr_onByte_idle efr_onByte_claimed [OF _ push])
qed

lemma efr_step_inv: "efr_step r r' \<Longrightarrow> efr_inv r \<Longrightarrow> efr_inv r'"
  by (induction rule: efr_step.induct)
     (metis efr_inv_wake efr_inv_preempt efr_inv_byte efr_inv_tick snd_conv)+

lemma efr_reachable_inv: "efr_reachable r \<Longrightarrow> efr_inv r"
  by (induction rule: efr_reachable.induct) (auto intro: efr_inv_init efr_step_inv)

subsection \<open>Frames of the claimed edge\<close>

fun efr_bytes :: "(u8 \<times> u32) list \<Rightarrow> EdgeFrameReceiver \<Rightarrow> bool list \<times> EdgeFrameReceiver" where
  "efr_bytes [] r = ([], r)"
| "efr_bytes ((b, t) # bs) r =
     (let (d, r1) = efr_onByte b t r; (ds, r2) = efr_bytes bs r1 in (d # ds, r2))"


lemma efr_bytes_claimed:
  "efr_activeEdge r \<noteq> NO_EDGE \<Longrightarrow> framer_feed (map fst bs) (efr_framer r) = ([], fr) \<Longrightarrow>
   \<exists>t. efr_bytes bs r =
     (replicate (length bs) False, r\<lparr>efr_framer := fr, efr_lastActivityMs := t\<rparr>)"
proof (induction bs arbitrary: r)
  case Nil
  then show ?case by (auto intro: exI [of _ "efr_lastActivityMs r"])
next
  case (Cons x bs)
  obtain b t where x: "x = (b, t)" by force
  obtain d fr1 where push: "framer_pushByte b (efr_framer r) = (d, fr1)" by force
  obtain fs fr2 where feed: "framer_feed (map fst bs) fr1 = (fs, fr2)" by force
  have "\<not> d" and "fs = []" and "fr2 = fr"
    using Cons.prems(2) unfolding x list.map fst_conv framer_feed.simps push Let_def prod.case feed
    by (auto split: if_splits)
  let ?r = "r\<lparr>efr_lastActivityMs := t, efr_framer := fr1\<rparr>"
  have on: "efr_onByte b t r = (False, ?r)"
    using efr_onByte_claimed [OF Cons.prems(1) push] \<open>\<not> d\<close> by simp
  have "efr_activeEdge ?r \<noteq> NO_EDGE" and "framer_feed (map fst bs) (efr_framer ?r) = ([], fr)"
    using Cons.prems(1) feed \<open>fs = []\<close> \<open>fr2 = fr\<close> by simp_all
  from Cons.IH [OF this] show ?case by (auto simp: x on)
qed

lemma efr_bytes_append:
  "efr_bytes (xs @ ys) r =
     (let (ds, r1) = efr_bytes xs r; (es, r2) = efr_bytes ys r1 in (ds @ es, r2))"
proof (induction xs arbitrary: r)
  case (Cons x xs)
  obtain b t where x: "x = (b, t)" by force
  show ?case using Cons.IH [of "snd (efr_onByte b t r)"] by (simp add: x split_def Let_def)
qed simp

text \<open>Up to its last byte a frame is pending; the last byte delivers it.\<close>

lemma framer_almost_frame:
  assumes inv: "framer_inv fr" and idle: "\<not> framer_hasPartialFrame fr"
    and f: "wire_frame (pf_validateProtocolVersion fr) f" and ns: "noise ns"
  shows "\<exists>fr1. framer_feed (ns @ butlast f) fr = ([], fr1) \<and> framer_inv fr1
    \<and> (\<exists>fr2. framer_pushByte (last f) fr1 = (True, fr2) \<and> framer_frame fr2 = f)"
proof -
  let ?v = "pf_validateProtocolVersion fr"
  obtain fs fr1 where feed: "framer_feed (ns @ butlast f) fr = (fs, fr1)" by force
  have len: "7 \<le> length f" "length f = packetSizeForType (f ! 0)" and ne: "f \<noteq> []"
    using f wire_frame_length [OF f] by (auto simp: wire_frame_def)
  have pos: "0 < length (butlast f)" using len(1) by simp
  then have "butlast f \<noteq> []" by (rule length_greater_0_conv [THEN iffD1])
  moreover have "butlast f ! 0 = f ! 0" using pos by (rule nth_butlast)
  ultimately have "deframe ?v (butlast f) = ([], butlast f)"
    using len by (intro deframe_partial) simp_all
  then have "deframe ?v (framer_pending fr @ ns @ butlast f) = ([], butlast f)"
    using idle ns by (simp add: framer_pending_def deframe_noise_append)
  with framer_feed_refines [OF inv feed]
  have fs: "fs = []" and inv1: "framer_inv fr1" and pend: "framer_pending fr1 = butlast f" by auto
  obtain d fr2 where push: "framer_pushByte (last f) fr1 = (d, fr2)" by force
  have v1: "pf_validateProtocolVersion fr1 = ?v"
    using feed framer_feed_version [OF inv, of "ns @ butlast f"] by simp
  have "deframe ?v (butlast f @ [last f]) = ([f], [])"
    using deframe_wire_frame [OF f, of "[]"] ne by simp
  moreover have "framer_step_ok fr1 (last f) (d, fr2)"
    using framer_pushByte_ok [OF inv1, of "last f"] push by simp
  ultimately have "d" and "framer_frame fr2 = f"
    using pend v1 by (auto simp: framer_step_ok_def split: if_splits)
  with feed fs inv1 push show ?thesis by auto
qed

section \<open>Properties of the edge receiver\<close>

text \<open>
  In every reachable state, whatever the order of wakes, pre-emptions, bytes and ticks, an
  unclaimed receiver holds no partial frame: a new claim never begins with another edge's
  leftover bytes, and the framer's buffer invariant holds.
\<close>

theorem edge_unclaimed_clean:
  "efr_reachable r \<Longrightarrow>
   framer_inv (efr_framer r)
   \<and> (efr_claimedEdge r = NO_EDGE \<longrightarrow> \<not> framer_hasPartialFrame (efr_framer r))"
  using efr_reachable_inv [of r] by (simp add: efr_inv_def efr_claimedEdge_def)

theorem edge_unclaimed_clean_witness:
  "let r = efr_tick 25 (snd (efr_onByte 3 5 (snd (efr_onEdgeWake 1 4 efr_init)))) in
   efr_claimedEdge r = NO_EDGE
   \<and> framer_inv (efr_framer r)
   \<and> (efr_claimedEdge r = NO_EDGE \<longrightarrow> \<not> framer_hasPartialFrame (efr_framer r))"
proof -
  let ?a = "snd (efr_onEdgeWake 1 4 efr_init)" let ?b = "snd (efr_onByte 3 5 ?a)"
  have "efr_reachable ?a" by (rule efr_reachable.step [OF efr_reachable.start])
    (rule efr_step.wake [of 1 4 _ "fst (efr_onEdgeWake 1 4 efr_init)"], simp)
  then have "efr_reachable ?b" by (rule efr_reachable.step)
    (rule efr_step.byte [of 3 5 _ "fst (efr_onByte 3 5 ?a)"], simp)
  then have "efr_reachable (efr_tick 25 ?b)" by (rule efr_reachable.step) (rule efr_step.tick, rule refl)
  note clean = edge_unclaimed_clean [OF this]
  have "efr_claimedEdge (efr_tick 25 ?b) = NO_EDGE"
    by (simp add: efr_claimedEdge_def efr_tick_def efr_release_def FRAME_TIMEOUT_MS_def
        efr_onByte_def efr_onEdgeWake_def efr_init_def NO_EDGE_def split_def Let_def)
  with clean show ?thesis by (simp only: Let_def simp_thms)
qed

text \<open>
  Attribution: after a wake on a free receiver, the noise bytes and the frame that follow are
  attributed to the edge that woke it. The frame is reported exactly at its last byte, its edge is
  the woken edge, its contents are the bytes sent, and the claim is released.
\<close>

theorem edge_frame_attributed:
  assumes reach: "efr_reachable r" and free: "efr_claimedEdge r = NO_EDGE" and e: "e \<noteq> NO_EDGE"
    and ns: "noise ns" and f: "wire_frame True f" and bs: "map fst bs = ns @ f"
  shows "let (claimed, r1) = efr_onEdgeWake e t r; (reported, r2) = efr_bytes bs r1 in
    claimed \<and> reported = replicate (length bs - 1) False @ [True]
    \<and> efr_frame r2 = f \<and> efr_fromEdge r2 = e \<and> efr_claimedEdge r2 = NO_EDGE"
proof -
  let ?r1 = "r\<lparr>efr_activeEdge := e, efr_lastActivityMs := t, efr_claimStartMs := t\<rparr>"
  have inv: "efr_inv r" by (rule efr_reachable_inv [OF reach])
  have wake: "efr_onEdgeWake e t r = (True, ?r1)"
    using free by (simp add: efr_onEdgeWake_def efr_claimedEdge_def)
  have "framer_inv (efr_framer ?r1)" and "\<not> framer_hasPartialFrame (efr_framer ?r1)"
    and "wire_frame (pf_validateProtocolVersion (efr_framer ?r1)) f"
    using inv free f by (simp_all add: efr_inv_def efr_claimedEdge_def)
  from framer_almost_frame [OF this ns]
  obtain fr1 fr2 where feed: "framer_feed (ns @ butlast f) (efr_framer ?r1) = ([], fr1)"
    and push: "framer_pushByte (last f) fr1 = (True, fr2)" and frame: "framer_frame fr2 = f" by blast
  have ne: "f \<noteq> []" using f by (simp add: wire_frame_def)
  then have "bs \<noteq> []" using bs by auto
  then obtain pre b tb where split: "bs = pre @ [(b, tb)]" by (metis append_butlast_last_id surj_pair)
  have "map fst pre @ [b] = (ns @ butlast f) @ [last f]" using bs split ne by simp
  then have pre: "map fst pre = ns @ butlast f" and b: "b = last f" by simp_all
  have act: "efr_activeEdge ?r1 \<noteq> NO_EDGE" using e by simp
  obtain t' where most: "efr_bytes pre ?r1 =
      (replicate (length pre) False, ?r1\<lparr>efr_framer := fr1, efr_lastActivityMs := t'\<rparr>)"
    using efr_bytes_claimed [OF act, of pre fr1] feed pre by auto
  let ?r2 = "?r1\<lparr>efr_framer := fr1, efr_lastActivityMs := t'\<rparr>"
  have "efr_onByte b tb ?r2 = (True, ?r2\<lparr>efr_lastActivityMs := tb, efr_framer := fr2,
      efr_completedEdge := e, efr_activeEdge := NO_EDGE\<rparr>)"
    using efr_onByte_claimed [of ?r2 b True fr2 tb] e push b by simp
  then show ?thesis
    using frame by (simp add: wake split efr_bytes_append most efr_frame_def efr_fromEdge_def
        efr_claimedEdge_def)
qed

theorem edge_frame_attributed_witness:
  "let (claimed, r1) = efr_onEdgeWake 2 40 efr_init;
       (reported, r2) = efr_bytes (map (\<lambda>b. (b, 41)) ([0xFF] @ makePacket PACKET_NOOP 0 Meta_Only)) r1 in
    claimed
    \<and> reported = replicate (length (map (\<lambda>b. (b, 41 :: u32)) ([0xFF] @ makePacket PACKET_NOOP 0 Meta_Only)) - 1) False @ [True]
    \<and> efr_frame r2 = makePacket PACKET_NOOP 0 Meta_Only
    \<and> efr_fromEdge r2 = 2 \<and> efr_claimedEdge r2 = NO_EDGE"
proof (rule edge_frame_attributed)
  show "efr_reachable efr_init" by (rule efr_reachable.start)
  show "efr_claimedEdge efr_init = NO_EDGE" by (simp add: efr_claimedEdge_def efr_init_def)
  show "(2 :: u8) \<noteq> NO_EDGE" by (simp add: NO_EDGE_def)
  show "noise [0xFF]" by (simp add: noise_def packetSizeForType_def packetType_of_def packet_types_def)
  show "wire_frame True (makePacket PACKET_NOOP 0 Meta_Only)"
    by (rule wire_frame_makePacket) (simp add: sizeof_PacketMeta_def)
  show "map fst (map (\<lambda>b. (b, 41)) ([0xFF] @ makePacket PACKET_NOOP 0 Meta_Only)) =
      [0xFF] @ makePacket PACKET_NOOP 0 Meta_Only" by (simp add: comp_def)
qed

lemma efr_bytes_claimStart: "efr_claimStartMs (snd (efr_bytes bs r)) = efr_claimStartMs r"
proof (induction bs arbitrary: r)
  case (Cons x bs)
  obtain b t where x: "x = (b, t)" by force
  have "efr_claimStartMs (snd (efr_onByte b t r)) = efr_claimStartMs r"
    by (simp add: efr_onByte_def efr_release_def split_def Let_def)
  then show ?case using Cons.IH [of "snd (efr_onByte b t r)"] by (simp add: x split_def Let_def)
qed simp

text \<open>
  No claim outlives its cap: however many bytes of noise keep arriving on a claimed edge, and
  at whatever times, a tick \<open>MAX_CLAIM_MS\<close> or more after the claim began leaves the receiver
  free for the next wake.
\<close>

theorem edge_claim_capped:
  assumes "efr_claimedEdge r = NO_EDGE" and "MAX_CLAIM_MS \<le> t - t0"
  shows "efr_claimedEdge (efr_tick t (snd (efr_bytes bs (snd (efr_onEdgeWake e t0 r))))) = NO_EDGE"
proof -
  have "efr_claimStartMs (snd (efr_bytes bs (snd (efr_onEdgeWake e t0 r)))) = t0"
    using assms(1) by (simp add: efr_bytes_claimStart efr_onEdgeWake_def efr_claimedEdge_def)
  with assms(2) show ?thesis by (simp add: efr_tick_def efr_claimedEdge_def efr_release_def)
qed

theorem edge_claim_capped_witness:
  "efr_claimedEdge (efr_tick 150 (snd (efr_bytes [(3, 60), (9, 140)] (snd (efr_onEdgeWake 1 50 efr_init)))))
     = NO_EDGE"
  by (rule edge_claim_capped) (simp_all add: efr_claimedEdge_def efr_init_def MAX_CLAIM_MS_def)

end
