(* ===== verification/Link_Arq.thy ===== *)
theory Link_Arq
  imports Packet_Framer
begin

text \<open>
  The pure pieces of the hop-acknowledgment layer (\<open>Core/Relay/LinkArq.hpp\<close>, \<open>LinkArq.cpp\<close>):
  \<open>LinkAckMatcher\<close>, which a sender runs over the bytes of its ack window, and \<open>LinkDedup\<close>, the
  receiver's per-edge memory of the last frame CRC. \<open>arq_receive\<close> is the receiver rule that uses
  it, and \<open>arq_send\<close> the sender's loop of one transmission and at most \<open>LINK_RETRANSMITS\<close> more.
\<close>

section \<open>Recognising an acknowledgment\<close>

definition LINK_ACK_TIMEOUT_MS :: u32 where "LINK_ACK_TIMEOUT_MS = 4"
definition LINK_RETRANSMITS :: nat where "LINK_RETRANSMITS = 2"
definition LINK_DEDUP_WINDOW_MS :: u32 where "LINK_DEDUP_WINDOW_MS = 12"

definition sizeof_PacketLinkAck :: nat where "sizeof_PacketLinkAck = 9"

record LinkAckMatcher =
  lam_buffer :: "u8 list"
  lam_filled :: nat

definition lam_init :: LinkAckMatcher where
  "lam_init = \<lparr>lam_buffer = replicate sizeof_PacketLinkAck 0, lam_filled = 0\<rparr>"

definition lam_reset :: "LinkAckMatcher \<Rightarrow> LinkAckMatcher" where
  "lam_reset m = m\<lparr>lam_filled := 0\<rparr>"

text \<open>\<open>pushByte\<close> returns true together with the echoed CRC: here \<open>Some crc\<close>.\<close>

definition lam_pushByte :: "u8 \<Rightarrow> LinkAckMatcher \<Rightarrow> u16 option \<times> LinkAckMatcher" where
  "lam_pushByte value m =
     (if lam_filled m = 0 \<and> value \<noteq> packetType_code PACKET_LINK_ACK then (None, m)
      else
        (let m1 = m\<lparr>lam_buffer := (lam_buffer m)[lam_filled m := value], lam_filled := lam_filled m + 1\<rparr>
         in if lam_filled m1 < sizeof_PacketLinkAck then (None, m1)
         else
           (let m2 = m1\<lparr>lam_filled := 0\<rparr>
            in if validatePacket (lam_buffer m2) sizeof_PacketLinkAck False \<noteq> 0 then (None, m2)
               else (Some (la_frameCrc (get_LinkAck (frame_payload (lam_buffer m2)))), m2))))"

text \<open>
  The matcher as a segmentation of the stream: a byte that is not the ack type is skipped, and
  nine bytes that begin with it are one candidate acknowledgment.
\<close>

function ack_scan :: "u8 list \<Rightarrow> u16 list \<times> u8 list" where
  "ack_scan [] = ([], [])"
| "ack_scan (b # bs) =
     (if b \<noteq> packetType_code PACKET_LINK_ACK then ack_scan bs
      else if length (b # bs) < sizeof_PacketLinkAck then ([], b # bs)
      else (let f = take sizeof_PacketLinkAck (b # bs);
                (crcs, rest) = ack_scan (drop sizeof_PacketLinkAck (b # bs))
            in (if validatePacket f sizeof_PacketLinkAck False = 0
                then la_frameCrc (get_LinkAck (frame_payload f)) # crcs else crcs, rest)))"
  by pat_completeness auto
termination
  by (relation "measure length") (auto simp: sizeof_PacketLinkAck_def)

declare ack_scan.simps(2) [simp del]

definition lam_inv :: "LinkAckMatcher \<Rightarrow> bool" where
  "lam_inv m \<longleftrightarrow>
     length (lam_buffer m) = sizeof_PacketLinkAck \<and> lam_filled m < sizeof_PacketLinkAck
     \<and> (0 < lam_filled m \<longrightarrow> lam_buffer m ! 0 = packetType_code PACKET_LINK_ACK)"

definition lam_pending :: "LinkAckMatcher \<Rightarrow> u8 list" where
  "lam_pending m = take (lam_filled m) (lam_buffer m)"

lemma lam_inv_init: "lam_inv lam_init"
  by (simp add: lam_inv_def lam_init_def sizeof_PacketLinkAck_def)

lemma ack_scan_partial:
  "p \<noteq> [] \<Longrightarrow> p ! 0 = packetType_code PACKET_LINK_ACK \<Longrightarrow> length p < sizeof_PacketLinkAck \<Longrightarrow>
   ack_scan p = ([], p)"
  by (cases p) (simp_all add: ack_scan.simps(2))

lemma ack_scan_candidate:
  assumes "length p = sizeof_PacketLinkAck" and "p ! 0 = packetType_code PACKET_LINK_ACK"
  shows "ack_scan (p @ bs) = (let (crcs, rest) = ack_scan bs in
    (if validatePacket p sizeof_PacketLinkAck False = 0
     then la_frameCrc (get_LinkAck (frame_payload p)) # crcs else crcs, rest))"
proof -
  obtain a l where al: "p = a # l" using assms(1) by (cases p) (simp_all add: sizeof_PacketLinkAck_def)
  have a: "a = packetType_code PACKET_LINK_ACK" using assms(2) al by simp
  have "take sizeof_PacketLinkAck (a # l @ bs) = p" and "drop sizeof_PacketLinkAck (a # l @ bs) = bs"
    using al assms(1) by (metis append_Cons append_eq_conv_conj)+
  moreover have "\<not> length (a # l @ bs) < sizeof_PacketLinkAck" using al assms(1) by simp
  ultimately show ?thesis
    unfolding al append_Cons by (simp only: ack_scan.simps(2) a not_not if_False refl Let_def simp_thms)
qed

lemma ack_scan_skip: "b \<noteq> packetType_code PACKET_LINK_ACK \<Longrightarrow> ack_scan (b # bs) = ack_scan bs"
  by (simp add: ack_scan.simps(2))

lemma ack_scan_append:
  "ack_scan (xs @ ys) =
     (fst (ack_scan xs) @ fst (ack_scan (snd (ack_scan xs) @ ys)), snd (ack_scan (snd (ack_scan xs) @ ys)))"
proof (induction xs rule: ack_scan.induct)
  case 1
  show ?case by simp
next
  case (2 b bs)
  let ?n = sizeof_PacketLinkAck
  consider (skip) "b \<noteq> packetType_code PACKET_LINK_ACK"
    | (partial) "b = packetType_code PACKET_LINK_ACK" "length (b # bs) < ?n"
    | (cand) "b = packetType_code PACKET_LINK_ACK" "\<not> length (b # bs) < ?n" by blast
  then show ?case
  proof cases
    case skip
    with 2(1) show ?thesis by (simp add: ack_scan_skip)
  next
    case partial
    then have "ack_scan (b # bs) = ([], b # bs)" by (intro ack_scan_partial) simp_all
    then show ?thesis by simp
  next
    case cand
    let ?f = "take ?n (b # bs)" and ?d = "drop ?n (b # bs)"
    have split: "b # bs = ?f @ ?d" by simp
    have f: "length ?f = ?n" "?f ! 0 = packetType_code PACKET_LINK_ACK"
      using cand by (simp_all add: sizeof_PacketLinkAck_def)
    note cut = ack_scan_candidate [OF f]
    have "\<not> b \<noteq> packetType_code PACKET_LINK_ACK" using cand(1) by simp
    note IH = 2(2) [OF this cand(2) refl]
    have "ack_scan ((?f @ ?d) @ ys) = (fst (ack_scan (?f @ ?d)) @
        fst (ack_scan (snd (ack_scan (?f @ ?d)) @ ys)), snd (ack_scan (snd (ack_scan (?f @ ?d)) @ ys)))"
      unfolding append_assoc cut IH by (simp add: split_def Let_def)
    then show ?thesis by (simp only: split [symmetric])
  qed
qed

lemma lam_step:
  assumes "lam_inv m"
  shows "lam_inv (snd (lam_pushByte b m))"
    and "ack_scan (lam_pending m @ [b]) =
      ((case fst (lam_pushByte b m) of None \<Rightarrow> [] | Some x \<Rightarrow> [x]), lam_pending (snd (lam_pushByte b m)))"
proof -
  let ?n = sizeof_PacketLinkAck and ?k = "lam_filled m"
  let ?buf = "(lam_buffer m)[?k := b]"
  have len: "length (lam_buffer m) = ?n" and k: "?k < ?n"
    using assms by (simp_all add: lam_inv_def)
  have new: "take (Suc ?k) ?buf = lam_pending m @ [b]"
    using len k by (simp add: lam_pending_def take_Suc_update)
  have "lam_inv (snd (lam_pushByte b m)) \<and> ack_scan (lam_pending m @ [b]) =
      ((case fst (lam_pushByte b m) of None \<Rightarrow> [] | Some x \<Rightarrow> [x]), lam_pending (snd (lam_pushByte b m)))"
  proof (cases "?k = 0 \<and> b \<noteq> packetType_code PACKET_LINK_ACK")
    case True
    then show ?thesis using assms by (simp add: lam_pushByte_def lam_pending_def ack_scan_skip)
  next
    case False
    have hd: "?buf ! 0 = packetType_code PACKET_LINK_ACK"
      using False assms by (cases "?k = 0") (auto simp: lam_inv_def sizeof_PacketLinkAck_def)
    have hd': "(lam_pending m @ [b]) ! 0 = packetType_code PACKET_LINK_ACK"
      unfolding new [symmetric] using hd by simp
    have plen: "length (lam_pending m) = ?k" using len k by (simp add: lam_pending_def)
    show ?thesis
    proof (cases "Suc ?k < ?n")
      case True
      have push: "lam_pushByte b m = (None, m\<lparr>lam_buffer := ?buf, lam_filled := Suc ?k\<rparr>)"
        unfolding lam_pushByte_def if_not_P [OF False] Let_def using True by simp
      have "ack_scan (lam_pending m @ [b]) = ([], lam_pending m @ [b])"
        using True hd' plen by (intro ack_scan_partial) simp_all
      then show ?thesis
        using True push hd len new by (simp add: lam_inv_def lam_pending_def)
    next
      case last: False
      with k have n: "Suc ?k = ?n" by simp
      have full: "lam_pending m @ [b] = ?buf" using new n len by simp
      have push: "lam_pushByte b m = (if validatePacket ?buf ?n False \<noteq> 0
          then (None, m\<lparr>lam_buffer := ?buf, lam_filled := 0\<rparr>)
          else (Some (la_frameCrc (get_LinkAck (frame_payload ?buf))), m\<lparr>lam_buffer := ?buf, lam_filled := 0\<rparr>))"
        unfolding lam_pushByte_def if_not_P [OF False] Let_def using n by simp
      have "ack_scan (?buf @ []) = (if validatePacket ?buf ?n False = 0
          then [la_frameCrc (get_LinkAck (frame_payload ?buf))] else [], [])"
        using len hd by (subst ack_scan_candidate) simp_all
      then show ?thesis
        using push len full by (simp add: lam_inv_def lam_pending_def sizeof_PacketLinkAck_def)
    qed
  qed
  then show "lam_inv (snd (lam_pushByte b m))"
    and "ack_scan (lam_pending m @ [b]) =
      ((case fst (lam_pushByte b m) of None \<Rightarrow> [] | Some x \<Rightarrow> [x]), lam_pending (snd (lam_pushByte b m)))"
    by blast+
qed

lemma ack_scan_pending:
  assumes "lam_inv m"
  shows "ack_scan (lam_pending m) = ([], lam_pending m)"
proof (cases "lam_pending m = []")
  case False
  then have "0 < lam_filled m" by (auto simp: lam_pending_def)
  then have "lam_pending m ! 0 = packetType_code PACKET_LINK_ACK" and "length (lam_pending m) < sizeof_PacketLinkAck"
    using assms by (simp_all add: lam_inv_def lam_pending_def)
  with False show ?thesis by (intro ack_scan_partial)
qed simp

interpretation ack_scanner: byte_scanner lam_pushByte lam_inv lam_pending ack_scan
proof unfold_locales
  show "lam_inv m \<Longrightarrow> ack_scan (lam_pending m) = ([], lam_pending m)" for m by (rule ack_scan_pending)
  show "ack_scan (xs @ ys) =
     (fst (ack_scan xs) @ fst (ack_scan (snd (ack_scan xs) @ ys)), snd (ack_scan (snd (ack_scan xs) @ ys)))"
    for xs ys by (rule ack_scan_append)
qed (rule lam_step, assumption)+

lemma lam_match_member:
  assumes "lam_inv m" and "lam_filled m = 0" and "scan_feed lam_pushByte bs m = (crcs, m')"
  shows "fst (ack_scan bs) = crcs \<and> lam_inv m'"
  using ack_scanner.feed_refines [OF assms(1,3)] assms(2) by (simp add: lam_pending_def)

section \<open>The sender\<close>

text \<open>
  \<open>ArqEdgeLink\<close> over an environment that says what one ack window sees: the clock reading that
  opens it, and for every turn of its loop the clock reading and the byte available then, if any.
  A window that runs out of turns never returns (\<open>None\<close>).
\<close>

type_synonym ack_window = "u32 \<times> (u32 \<times> u8 option) list"

record ArqEdgeLink =
  al_ackMatcher :: LinkAckMatcher
  al_linkRetransmits :: u16
  al_linkAckTimeouts :: u16

fun await_loop :: "u32 \<Rightarrow> u16 \<Rightarrow> (u32 \<times> u8 option) list \<Rightarrow> LinkAckMatcher \<Rightarrow> (bool \<times> LinkAckMatcher) option" where
  "await_loop start frameCrc [] m = None"
| "await_loop start frameCrc ((now, rx) # turns) m =
     (if now - start < LINK_ACK_TIMEOUT_MS then
        (case rx of
           None \<Rightarrow> await_loop start frameCrc turns m
         | Some b \<Rightarrow>
             (let (acked, m1) = lam_pushByte b m
              in if acked = Some frameCrc then Some (True, m1) else await_loop start frameCrc turns m1))
      else Some (False, m))"

definition awaitLinkAck :: "u16 \<Rightarrow> ack_window \<Rightarrow> LinkAckMatcher \<Rightarrow> (bool \<times> LinkAckMatcher) option" where
  "awaitLinkAck frameCrc w m = await_loop (fst w) frameCrc (snd w) (lam_reset m)"

text \<open>The retransmission loop; the result lists the frames transmitted after the first one.\<close>

fun arq_attempts :: "nat \<Rightarrow> u8 list \<Rightarrow> u16 \<Rightarrow> ack_window list \<Rightarrow> ArqEdgeLink \<Rightarrow> (u8 list list \<times> ArqEdgeLink) option" where
  "arq_attempts attempt f frameCrc [] l = None"
| "arq_attempts attempt f frameCrc (w # ws) l =
     (case awaitLinkAck frameCrc w (al_ackMatcher l) of
        None \<Rightarrow> None
      | Some (True, m) \<Rightarrow> Some ([], l\<lparr>al_ackMatcher := m\<rparr>)
      | Some (False, m) \<Rightarrow>
          if LINK_RETRANSMITS \<le> attempt
          then Some ([], l\<lparr>al_ackMatcher := m, al_linkAckTimeouts := al_linkAckTimeouts l + 1\<rparr>)
          else map_option (\<lambda>(tx, l'). (f # tx, l'))
            (arq_attempts (attempt + 1) f frameCrc ws
              (l\<lparr>al_ackMatcher := m, al_linkRetransmits := al_linkRetransmits l + 1\<rparr>)))"

definition arq_sendOnEdge :: "u8 list \<Rightarrow> ack_window list \<Rightarrow> ArqEdgeLink \<Rightarrow> (u8 list list \<times> ArqEdgeLink) option" where
  "arq_sendOnEdge packet ws l =
     (if \<not> isLinkAckedType (frame_type packet) \<or> MAX_PACKET_SIZE < length packet then Some ([packet], l)
      else map_option (\<lambda>(tx, l'). (packet # tx, l')) (arq_attempts 0 packet (crc16 packet) ws l))"

text \<open>
  What a window has to show: the bytes read before its clock passes the deadline, whether the
  clock passes it, and whether those bytes hold the acknowledgment.
\<close>

fun window_bytes :: "ack_window \<Rightarrow> u8 list" where
  "window_bytes (start, []) = []"
| "window_bytes (start, (now, rx) # turns) =
     (if now - start < LINK_ACK_TIMEOUT_MS
      then (case rx of None \<Rightarrow> [] | Some b \<Rightarrow> [b]) @ window_bytes (start, turns) else [])"

definition window_ends :: "ack_window \<Rightarrow> bool" where
  "window_ends w \<longleftrightarrow> list_ex (\<lambda>(now, rx). LINK_ACK_TIMEOUT_MS \<le> now - fst w) (snd w)"

definition window_acked :: "u16 \<Rightarrow> ack_window \<Rightarrow> bool" where
  "window_acked frameCrc w \<longleftrightarrow> frameCrc \<in> set (fst (ack_scan (window_bytes w)))"

lemma await_loop_spec:
  "lam_inv m \<Longrightarrow> window_ends (start, turns) \<Longrightarrow>
   \<exists>m'. await_loop start c turns m =
     Some (c \<in> set (fst (ack_scan (lam_pending m @ window_bytes (start, turns)))), m') \<and> lam_inv m'"
proof (induction turns arbitrary: m)
  case Nil
  then show ?case by (simp add: window_ends_def)
next
  case (Cons turn turns)
  obtain now rx where turn: "turn = (now, rx)" by force
  show ?case
  proof (cases "now - start < LINK_ACK_TIMEOUT_MS")
    case late: False
    then show ?thesis using Cons.prems by (simp add: turn ack_scan_pending)
  next
    case early: True
    then have ends: "window_ends (start, turns)"
      using Cons.prems(2) by (auto simp: window_ends_def turn)
    show ?thesis
    proof (cases rx)
      case None
      then show ?thesis using early Cons.IH [OF Cons.prems(1) ends] by (simp add: turn)
    next
      case (Some b)
      obtain out m1 where push: "lam_pushByte b m = (out, m1)" by force
      have inv1: "lam_inv m1" using lam_step(1) [OF Cons.prems(1), of b] push by simp
      have scan: "fst (ack_scan (lam_pending m @ b # rest)) =
          (case out of None \<Rightarrow> [] | Some x \<Rightarrow> [x]) @ fst (ack_scan (lam_pending m1 @ rest))" for rest
        using ack_scan_append [of "lam_pending m @ [b]" rest] lam_step(2) [OF Cons.prems(1), of b] push by simp
      show ?thesis
        using early Some push inv1 Cons.IH [OF inv1 ends] scan [of "window_bytes (start, turns)"]
        by (cases out) (auto simp: turn)
    qed
  qed
qed

lemma lam_reset_inv: "lam_inv m \<Longrightarrow> lam_inv (lam_reset m)"
  by (auto simp: lam_inv_def lam_reset_def)

lemma awaitLinkAck_spec:
  assumes "lam_inv m" and "window_ends w"
  shows "\<exists>m'. awaitLinkAck c w m = Some (window_acked c w, m') \<and> lam_inv m'"
proof -
  have "lam_pending (lam_reset m) = []" by (simp add: lam_pending_def lam_reset_def)
  then show ?thesis
    using await_loop_spec [OF lam_reset_inv [OF assms(1)], of "fst w" "snd w" c] assms(2)
    by (simp add: awaitLinkAck_def window_acked_def)
qed

definition arq_failures :: "u16 \<Rightarrow> ack_window list \<Rightarrow> nat" where
  "arq_failures c ws = length (takeWhile (\<lambda>w. \<not> window_acked c w) ws)"

lemma arq_attempts_spec:
  assumes "lam_inv (al_ackMatcher l)" and "list_all window_ends ws"
    and "length ws = Suc (LINK_RETRANSMITS - attempt)" and "attempt \<le> LINK_RETRANSMITS"
  shows "\<exists>m. lam_inv m \<and> arq_attempts attempt f c ws l =
    Some (replicate (min (LINK_RETRANSMITS - attempt) (arq_failures c ws)) f,
      l\<lparr>al_ackMatcher := m,
        al_linkRetransmits := al_linkRetransmits l + of_nat (min (LINK_RETRANSMITS - attempt) (arq_failures c ws)),
        al_linkAckTimeouts := al_linkAckTimeouts l + (if arq_failures c ws = length ws then 1 else 0)\<rparr>)"
  using assms
proof (induction ws arbitrary: attempt l)
  case Nil
  then show ?case by simp
next
  case (Cons w ws)
  obtain m where m: "lam_inv m" and aw: "awaitLinkAck c w (al_ackMatcher l) = Some (window_acked c w, m)"
    using awaitLinkAck_spec [of "al_ackMatcher l" w c] Cons.prems(1,2) by auto
  show ?case
  proof (cases "window_acked c w")
    case True
    then show ?thesis using aw m by (auto simp: arq_failures_def)
  next
    case fails: False
    show ?thesis
    proof (cases "LINK_RETRANSMITS \<le> attempt")
      case True
      then have "ws = []" using Cons.prems(3) by simp
      then show ?thesis using True aw m fails by (auto simp: arq_failures_def)
    next
      case False
      let ?l = "l\<lparr>al_ackMatcher := m, al_linkRetransmits := al_linkRetransmits l + 1\<rparr>"
      have len: "length ws = Suc (LINK_RETRANSMITS - (attempt + 1))" "attempt + 1 \<le> LINK_RETRANSMITS"
        using False Cons.prems(3) by simp_all
      have step: "arq_attempts attempt f c (w # ws) l =
          map_option (\<lambda>(tx, l'). (f # tx, l')) (arq_attempts (attempt + 1) f c ws ?l)"
        using False aw fails by simp
      have min: "min (LINK_RETRANSMITS - attempt) (Suc n) = Suc (min (LINK_RETRANSMITS - (attempt + 1)) n)" for n
        using len(2) by linarith
      obtain m2 where m2: "lam_inv m2" and IH: "arq_attempts (attempt + 1) f c ws ?l =
          Some (replicate (min (LINK_RETRANSMITS - (attempt + 1)) (arq_failures c ws)) f,
            ?l\<lparr>al_ackMatcher := m2,
              al_linkRetransmits := al_linkRetransmits ?l + of_nat (min (LINK_RETRANSMITS - (attempt + 1)) (arq_failures c ws)),
              al_linkAckTimeouts := al_linkAckTimeouts ?l + (if arq_failures c ws = length ws then 1 else 0)\<rparr>)"
        using Cons.IH [of ?l "attempt + 1"] m len Cons.prems(2) by auto
      have "arq_failures c (w # ws) = Suc (arq_failures c ws)" using fails by (simp add: arq_failures_def)
      then show ?thesis unfolding step IH using m2 by (intro exI [of _ m2]) (simp add: min)
    qed
  qed
qed

section \<open>The receiver\<close>

record DedupEntry =
  de_frameCrc :: u16
  de_seenAtMs :: u32
  de_armed :: bool

type_synonym LinkDedup = "DedupEntry list"

text \<open>The constructor sets only \<open>armed\<close>; the other fields of an entry are read after a sighting set them.\<close>

definition ld_init :: "nat \<Rightarrow> LinkDedup" where
  "ld_init edgeCount = replicate edgeCount \<lparr>de_frameCrc = 0, de_seenAtMs = 0, de_armed = False\<rparr>"

definition ld_checkAndNote :: "u8 \<Rightarrow> u16 \<Rightarrow> u32 \<Rightarrow> LinkDedup \<Rightarrow> bool \<times> LinkDedup" where
  "ld_checkAndNote edge frameCrc nowMs d =
     (if length d \<le> unat edge then (False, d)
      else (let entry = d ! unat edge;
                duplicate = de_armed entry \<and> de_frameCrc entry = frameCrc
                  \<and> nowMs - de_seenAtMs entry < LINK_DEDUP_WINDOW_MS
            in (duplicate, d[unat edge := \<lparr>de_frameCrc = frameCrc, de_seenAtMs = nowMs, de_armed = True\<rparr>])))"

text \<open>
  The link-ARQ part of \<open>LightnetPanel::pollBytes\<close> for one completed frame: the CRC to echo in a
  hop ack, if one is sent, whether the frame goes on to the dispatcher, and the new memory.
\<close>

definition arq_receive :: "u8 \<Rightarrow> u8 list \<Rightarrow> u32 \<Rightarrow> LinkDedup \<Rightarrow> u16 option \<times> bool \<times> LinkDedup" where
  "arq_receive edge f nowMs d =
     (if frame_type f = packetType_code PACKET_LINK_ACK then (None, False, d)
      else if isLinkAckedType (frame_type f) then
        (let frameCrc = crc16 f; (dup, d') = ld_checkAndNote edge frameCrc nowMs d
         in (Some frameCrc, \<not> dup, d'))
      else (None, True, d))"

definition sendLinkAck :: "u16 \<Rightarrow> u8 list" where
  "sendLinkAck frameCrc = makePacket PACKET_LINK_ACK 0 (Link_Ack \<lparr>la_frameCrc = frameCrc\<rparr>)"

fun arq_receive_all :: "u8 \<Rightarrow> u8 list \<Rightarrow> u32 list \<Rightarrow> LinkDedup \<Rightarrow> (u16 option \<times> bool) list \<times> LinkDedup" where
  "arq_receive_all edge f [] d = ([], d)"
| "arq_receive_all edge f (t # ts) d =
     (let (ack, go, d1) = arq_receive edge f t d; (rest, d2) = arq_receive_all edge f ts d1
      in ((ack, go) # rest, d2))"

text \<open>The memory against the history: what was last seen on an edge.\<close>

fun ld_run :: "(u8 \<times> u16 \<times> u32) list \<Rightarrow> LinkDedup \<Rightarrow> LinkDedup" where
  "ld_run [] d = d"
| "ld_run ((edge, c, t) # es) d = ld_run es (snd (ld_checkAndNote edge c t d))"

fun last_seen :: "u8 \<Rightarrow> (u8 \<times> u16 \<times> u32) list \<Rightarrow> (u16 \<times> u32) option" where
  "last_seen edge [] = None"
| "last_seen edge ((e, c, t) # es) =
     (case last_seen edge es of None \<Rightarrow> if e = edge then Some (c, t) else None | Some s \<Rightarrow> Some s)"

definition ld_view :: "LinkDedup \<Rightarrow> u8 \<Rightarrow> (u16 \<times> u32) option" where
  "ld_view d edge =
     (if unat edge < length d \<and> de_armed (d ! unat edge)
      then Some (de_frameCrc (d ! unat edge), de_seenAtMs (d ! unat edge)) else None)"

definition repeats :: "(u16 \<times> u32) option \<Rightarrow> u16 \<Rightarrow> u32 \<Rightarrow> bool" where
  "repeats s c now \<longleftrightarrow> (case s of None \<Rightarrow> False | Some (c', t) \<Rightarrow> c' = c \<and> now - t < LINK_DEDUP_WINDOW_MS)"

lemma ld_check_view:
  "fst (ld_checkAndNote edge c t d) = repeats (ld_view d edge) c t"
  "length (snd (ld_checkAndNote edge c t d)) = length d"
  "ld_view (snd (ld_checkAndNote edge c t d)) e =
     (if e = edge \<and> unat e < length d then Some (c, t) else ld_view d e)"
  by (auto simp: ld_checkAndNote_def ld_view_def repeats_def Let_def nth_list_update word_unat_eq_iff)

lemma ld_run_view:
  "length (ld_run es d) = length d"
  "ld_view (ld_run es d) e = (case last_seen e es of
     Some s \<Rightarrow> if unat e < length d then Some s else None | None \<Rightarrow> ld_view d e)"
proof (induction es arbitrary: d)
  case (Cons x es)
  case 1
  show ?case using Cons(1) by (cases x) (simp add: ld_check_view(2))
next
  case (Cons x es)
  case 2
  have "\<not> unat e < length d \<Longrightarrow> ld_view d e = None" by (simp add: ld_view_def)
  then show ?case using Cons(2) by (cases x) (auto simp: ld_check_view(2,3) split: option.splits)
qed simp_all

lemma ack_scan_reply:
  assumes "list_all (\<lambda>b. b \<noteq> packetType_code PACKET_LINK_ACK) ns"
  shows "fst (ack_scan (ns @ sendLinkAck c @ rest)) = c # fst (ack_scan rest)"
proof -
  have skip: "ack_scan (ns @ bs) = ack_scan bs" for bs
    using assms by (induction ns) (simp_all add: ack_scan_skip)
  let ?f = "sendLinkAck c"
  have fits: "payload_fits PACKET_LINK_ACK (Link_Ack \<lparr>la_frameCrc = c\<rparr>)" by simp
  have wf: "wire_frame False (sendLinkAck c)" unfolding sendLinkAck_def by (rule wire_frame_makePacket [OF fits])
  have len: "length (sendLinkAck c) = sizeof_PacketLinkAck"
    using length_makePacket [OF fits, of 0] by (simp add: sendLinkAck_def sizeof_PacketLinkAck_def)
  have hd: "?f ! 0 = packetType_code PACKET_LINK_ACK"
    using frame_type_makePacket [of PACKET_LINK_ACK 0 "Link_Ack \<lparr>la_frameCrc = c\<rparr>"] len
    by (auto simp: frame_type_hd byte_at_def sendLinkAck_def sizeof_PacketLinkAck_def split: if_splits)
  have valid: "validatePacket ?f sizeof_PacketLinkAck False = 0"
    using wf len unfolding wire_frame_def by metis
  have "la_frameCrc (get_LinkAck (frame_payload ?f)) = c"
    using get_put_payload [OF fits] by (simp add: sendLinkAck_def)
  then show ?thesis
    unfolding skip ack_scan_candidate [OF len hd] using valid by (simp add: split_def Let_def)
qed

section \<open>The properties of a hop\<close>

lemma acked_not_link_ack: "isLinkAckedType b \<Longrightarrow> b \<noteq> packetType_code PACKET_LINK_ACK"
  using packetType_of_code [of PACKET_LINK_ACK] by (auto simp: isLinkAckedType_def)

lemma acked_ack: "isLinkAckedType 1"
  using packetType_of_code [of PACKET_ACK] by (simp add: isLinkAckedType_def)

fun burst :: "u32 \<Rightarrow> u32 list \<Rightarrow> bool" where
  "burst t [] \<longleftrightarrow> True"
| "burst t (t' # ts) \<longleftrightarrow> t' - t < LINK_DEDUP_WINDOW_MS \<and> burst t' ts"

lemma arq_receive_acked:
  assumes "isLinkAckedType (frame_type f)" and "unat edge < length d"
  shows "\<exists>d'. arq_receive edge f t d = (Some (crc16 f), \<not> repeats (ld_view d edge) (crc16 f) t, d')
    \<and> length d' = length d \<and> ld_view d' edge = Some (crc16 f, t)"
  using assms acked_not_link_ack [OF assms(1)] ld_check_view [of edge "crc16 f" t d]
  by (auto simp: arq_receive_def Let_def split_def)

lemma arq_receive_burst:
  assumes "isLinkAckedType (frame_type f)"
  shows "unat edge < length d \<Longrightarrow> ld_view d edge = Some (crc16 f, t) \<Longrightarrow> burst t ts \<Longrightarrow>
    fst (arq_receive_all edge f ts d) = replicate (length ts) (Some (crc16 f), False)"
proof (induction ts arbitrary: t d)
  case (Cons t' ts)
  obtain d' where r: "arq_receive edge f t' d = (Some (crc16 f), \<not> repeats (ld_view d edge) (crc16 f) t', d')"
    and d': "length d' = length d" "ld_view d' edge = Some (crc16 f, t')"
    using arq_receive_acked [OF assms Cons.prems(1), of t'] by blast
  have "repeats (ld_view d edge) (crc16 f) t'" using Cons.prems(2,3) by (simp add: repeats_def)
  then show ?case using r Cons.IH [of d' t'] d' Cons.prems by (simp add: Let_def split_def)
qed simp

lemma window_bytes_in_time:
  "list_all (\<lambda>(now, rx). now - start < LINK_ACK_TIMEOUT_MS) turns \<Longrightarrow>
   window_bytes (start, turns @ late) =
     concat (map (\<lambda>(now, rx). case rx of None \<Rightarrow> [] | Some b \<Rightarrow> [b]) turns) @ window_bytes (start, late)"
  by (induction turns) auto

text \<open>
  The receiver's duplicate memory is the history: after any sequence of sightings, on any
  edges, \<open>checkAndNote\<close> reports a duplicate exactly when the edge exists and the last sighting on
  that edge had the same CRC and is less than the window old.
\<close>

theorem dedup_by_history:
  "fst (ld_checkAndNote edge c now (ld_run es (ld_init edgeCount))) \<longleftrightarrow>
     unat edge < edgeCount \<and> repeats (last_seen edge es) c now"
proof -
  have "ld_view (ld_init edgeCount) edge = None" by (simp add: ld_view_def ld_init_def)
  moreover have "length (ld_init edgeCount) = edgeCount" by (simp add: ld_init_def)
  ultimately show ?thesis
    by (simp add: ld_check_view(1) [of edge c now] ld_run_view repeats_def split: option.splits)
qed

text \<open>
  C5. An acked hop always ends: with every ack window's clock passing its deadline, \<open>sendOnEdge\<close>
  returns after transmitting the frame once more per window that shows no acknowledgment of its
  CRC, three times at most; the counters record the retransmissions, and one timeout exactly when
  the third window fails too.
\<close>

theorem arq_send_bounded:
  assumes "lam_inv (al_ackMatcher l)" and "isLinkAckedType (frame_type f)" and "length f \<le> MAX_PACKET_SIZE"
    and "list_all window_ends ws" and "length ws = Suc LINK_RETRANSMITS"
  shows "\<exists>m. lam_inv m \<and> arq_sendOnEdge f ws l =
    (let k = arq_failures (crc16 f) ws; sent = min LINK_RETRANSMITS k in
     Some (replicate (Suc sent) f,
       l\<lparr>al_ackMatcher := m, al_linkRetransmits := al_linkRetransmits l + of_nat sent,
         al_linkAckTimeouts := al_linkAckTimeouts l + (if k = Suc LINK_RETRANSMITS then 1 else 0)\<rparr>))"
proof -
  obtain m where "lam_inv m" and "arq_attempts 0 f (crc16 f) ws l =
    Some (replicate (min LINK_RETRANSMITS (arq_failures (crc16 f) ws)) f,
      l\<lparr>al_ackMatcher := m,
        al_linkRetransmits := al_linkRetransmits l + of_nat (min LINK_RETRANSMITS (arq_failures (crc16 f) ws)),
        al_linkAckTimeouts := al_linkAckTimeouts l + (if arq_failures (crc16 f) ws = length ws then 1 else 0)\<rparr>)"
    using arq_attempts_spec [OF assms(1,4), of 0 f "crc16 f"] assms(5) by auto
  then show ?thesis using assms(2,3,5) by (intro exI [of _ m]) (simp add: arq_sendOnEdge_def Let_def)
qed

theorem arq_send_bounded_witness:
  "let f = makePacket PACKET_ACK 1 Meta_Only;
       ws = [(100, [(101, None), (104, None)]),
             (104, (105, Some 0xFF) # map (\<lambda>b. (106, Some b)) (sendLinkAck (crc16 f)) @ [(110, None)]),
             (110, [(120, None)])];
       l = \<lparr>al_ackMatcher = lam_init, al_linkRetransmits = 7, al_linkAckTimeouts = 2\<rparr>
   in \<exists>m. lam_inv m \<and> arq_sendOnEdge f ws l =
     Some ([f, f], \<lparr>al_ackMatcher = m, al_linkRetransmits = 8, al_linkAckTimeouts = 2\<rparr>)"
proof -
  let ?f = "makePacket PACKET_ACK 1 Meta_Only"
  let ?w = "(104, (105, Some 0xFF) # map (\<lambda>b. (106, Some b)) (sendLinkAck (crc16 ?f)) @ [(110, None)]) :: ack_window"
  let ?ws = "[(100, [(101, None), (104, None)]), ?w, (110, [(120, None)])] :: ack_window list"
  let ?l = "\<lparr>al_ackMatcher = lam_init, al_linkRetransmits = 7, al_linkAckTimeouts = 2\<rparr>"
  have quiet: "\<not> window_acked (crc16 ?f) (100, [(101, None), (104, None)])"
    by (simp add: window_acked_def LINK_ACK_TIMEOUT_MS_def)
  have "window_bytes ?w = [0xFF] @ sendLinkAck (crc16 ?f) @ []"
    using window_bytes_in_time [of 104 "(105, Some 0xFF) # map (\<lambda>b. (106, Some b)) (sendLinkAck (crc16 ?f))" "[(110, None)]"]
    by (simp add: LINK_ACK_TIMEOUT_MS_def list_all_iff comp_def)
  then have "window_acked (crc16 ?f) ?w"
    using ack_scan_reply [of "[0xFF]" "crc16 ?f" "[]"] by (simp add: window_acked_def)
  with quiet have k: "arq_failures (crc16 ?f) ?ws = 1" by (simp add: arq_failures_def)
  have "\<exists>m. lam_inv m \<and> arq_sendOnEdge ?f ?ws ?l =
    (let k = arq_failures (crc16 ?f) ?ws; sent = min LINK_RETRANSMITS k in
     Some (replicate (Suc sent) ?f,
       ?l\<lparr>al_ackMatcher := m, al_linkRetransmits := al_linkRetransmits ?l + of_nat sent,
         al_linkAckTimeouts := al_linkAckTimeouts ?l + (if k = Suc LINK_RETRANSMITS then 1 else 0)\<rparr>))"
  proof (rule arq_send_bounded)
    show "length ?f \<le> MAX_PACKET_SIZE"
      using length_makePacket [of PACKET_ACK Meta_Only 1] packet_size_bounds [of PACKET_ACK]
      by (simp add: sizeof_PacketMeta_def MAX_PACKET_SIZE_def)
    show "list_all window_ends ?ws" by (simp add: window_ends_def LINK_ACK_TIMEOUT_MS_def)
  qed (simp_all add: lam_inv_init acked_ack LINK_RETRANSMITS_def)
  then show ?thesis unfolding k Let_def by (simp add: LINK_RETRANSMITS_def)
qed

text \<open>
  C6. A hop delivers exactly once: when copies of one frame arrive on an edge, each less than the
  duplicate window after the one before and the first no repeat of what was last seen there, the
  receiver acks every copy with the frame's CRC and dispatches only the first; and that ack, after
  any bytes that are not the ack type and before any others, completes the sender's window.
\<close>

theorem hop_exactly_once:
  assumes "isLinkAckedType (frame_type f)" and "unat edge < length d"
    and "\<not> repeats (ld_view d edge) (crc16 f) t" and "burst t ts"
    and "list_all (\<lambda>b. b \<noteq> packetType_code PACKET_LINK_ACK) ns"
    and "window_bytes w = ns @ sendLinkAck (crc16 f) @ rest"
  shows "fst (arq_receive_all edge f (t # ts) d) =
      (Some (crc16 f), True) # replicate (length ts) (Some (crc16 f), False)
    \<and> window_acked (crc16 f) w"
proof -
  obtain d' where r: "arq_receive edge f t d = (Some (crc16 f), \<not> repeats (ld_view d edge) (crc16 f) t, d')"
    and d': "length d' = length d" "ld_view d' edge = Some (crc16 f, t)"
    using arq_receive_acked [OF assms(1,2), of t] by blast
  have "fst (arq_receive_all edge f ts d') = replicate (length ts) (Some (crc16 f), False)"
    using arq_receive_burst [OF assms(1), of edge d' t ts] d' assms(2,4) by simp
  then show ?thesis
    using r assms(3) ack_scan_reply [OF assms(5), of "crc16 f" rest] assms(6)
    by (simp add: Let_def split_def window_acked_def)
qed

theorem hop_exactly_once_witness:
  "let f = makePacket PACKET_ACK 1 Meta_Only in
   fst (arq_receive_all 2 f [0xFFFFFFFE, 2, 8] (ld_init 4)) =
     [(Some (crc16 f), True), (Some (crc16 f), False), (Some (crc16 f), False)]
   \<and> window_acked (crc16 f) (0, map (\<lambda>b. (3, Some b)) ([0xFF, 0xFF] @ sendLinkAck (crc16 f)))"
proof -
  let ?f = "makePacket PACKET_ACK 1 Meta_Only"
  have "window_bytes (0, map (\<lambda>b. (3, Some b)) ([0xFF, 0xFF] @ sendLinkAck (crc16 ?f))) =
      [0xFF, 0xFF] @ sendLinkAck (crc16 ?f) @ []"
    using window_bytes_in_time [of 0 "map (\<lambda>b. (3, Some b)) ([0xFF, 0xFF] @ sendLinkAck (crc16 ?f))" "[]"]
    by (simp add: LINK_ACK_TIMEOUT_MS_def list_all_iff comp_def)
  from hop_exactly_once [OF _ _ _ _ _ this, where edge = 2 and d = "ld_init 4" and t = "0xFFFFFFFE" and ts = "[2, 8]"]
  have "fst (arq_receive_all 2 ?f [0xFFFFFFFE, 2, 8] (ld_init 4)) =
      (Some (crc16 ?f), True) # replicate (length [2, 8 :: u32]) (Some (crc16 ?f), False)
    \<and> window_acked (crc16 ?f) (0, map (\<lambda>b. (3, Some b)) ([0xFF, 0xFF] @ sendLinkAck (crc16 ?f)))"
  proof this
    show "\<not> repeats (ld_view (ld_init 4) 2) (crc16 ?f) 0xFFFFFFFE"
      by (simp add: repeats_def ld_view_def ld_init_def)
    show "burst 0xFFFFFFFE [2, 8]" by (simp add: LINK_DEDUP_WINDOW_MS_def)
  qed (simp_all add: acked_ack ld_init_def)
  then show ?thesis by (simp add: Let_def numeral_2_eq_2 del: arq_receive_all.simps)
qed

end
