(* ===== verification/Byte_Queues.thy ===== *)
theory Byte_Queues
  imports Lightnet_Prelude
begin

text \<open>
  The rings between an interrupt handler and the main loop: \<open>ByteRing\<close> (single bytes,
  \<open>Core/Common/ByteRing.hpp\<close>) and \<open>SpscByteQueue\<close> (length-prefixed records,
  \<open>Core/Common/SpscByteQueue.hpp\<close>). Both provide the interface \<open>bounded_fifo\<close>. \<open>spsc_pop_isr\<close>
  cuts the consumer's pop into its single memory accesses and lets the producer run between any
  two of them.
\<close>

section \<open>The interface of a bounded queue\<close>

datatype 'a fifo_op = Fifo_Push 'a | Fifo_Pop

text \<open>What an operation answers: whether the item was taken, or the item that came out.\<close>

datatype 'a fifo_out = Pushed bool | Popped "'a option"

fun fifo_run :: "('a \<Rightarrow> 's \<Rightarrow> bool \<times> 's) \<Rightarrow> ('s \<Rightarrow> 'a option \<times> 's) \<Rightarrow> 'a fifo_op list \<Rightarrow> 's \<Rightarrow> 'a fifo_out list \<times> 's" where
  "fifo_run push pop [] s = ([], s)"
| "fifo_run push pop (Fifo_Push x # ops) s =
     (let (ok, s1) = push x s; (outs, s2) = fifo_run push pop ops s1 in (Pushed ok # outs, s2))"
| "fifo_run push pop (Fifo_Pop # ops) s =
     (let (x, s1) = pop s; (outs, s2) = fifo_run push pop ops s1 in (Popped x # outs, s2))"

text \<open>The contract: a list whose items cost at most \<open>room\<close> together.\<close>

fun list_push :: "('a \<Rightarrow> nat) \<Rightarrow> nat \<Rightarrow> 'a \<Rightarrow> 'a list \<Rightarrow> bool \<times> 'a list" where
  "list_push cost room x xs =
     (if sum_list (map cost xs) + cost x \<le> room then (True, xs @ [x]) else (False, xs))"

fun list_pop :: "'a list \<Rightarrow> 'a option \<times> 'a list" where
  "list_pop [] = (None, [])"
| "list_pop (x # xs) = (Some x, xs)"

fun fifo_items :: "'a fifo_op list \<Rightarrow> 'a list" where
  "fifo_items [] = []"
| "fifo_items (Fifo_Push x # ops) = x # fifo_items ops"
| "fifo_items (Fifo_Pop # ops) = fifo_items ops"

locale bounded_fifo =
  fixes holds :: "'s \<Rightarrow> 'a list \<Rightarrow> bool"
    and push :: "'a \<Rightarrow> 's \<Rightarrow> bool \<times> 's"
    and pop :: "'s \<Rightarrow> 'a option \<times> 's"
    and cost :: "'a \<Rightarrow> nat"
    and room :: nat
    and item :: "'a \<Rightarrow> bool"
  assumes push_law: "holds s xs \<Longrightarrow> item x \<Longrightarrow>
      fst (push x s) = fst (list_push cost room x xs) \<and> holds (snd (push x s)) (snd (list_push cost room x xs))"
    and pop_law: "holds s xs \<Longrightarrow> fst (pop s) = fst (list_pop xs) \<and> holds (snd (pop s)) (snd (list_pop xs))"
begin

lemma run_refines:
  "holds s xs \<Longrightarrow> list_all item (fifo_items ops) \<Longrightarrow>
   fst (fifo_run push pop ops s) = fst (fifo_run (list_push cost room) list_pop ops xs)
   \<and> holds (snd (fifo_run push pop ops s)) (snd (fifo_run (list_push cost room) list_pop ops xs))"
proof (induction ops arbitrary: s xs)
  case (Cons oper ops)
  show ?case
  proof (cases oper)
    case (Fifo_Push x)
    then show ?thesis
      using Cons.prems push_law [OF Cons.prems(1), of x]
        Cons.IH [of "snd (push x s)" "snd (list_push cost room x xs)"]
      by (simp add: split_def Let_def del: list_push.simps)
  next
    case Fifo_Pop
    then show ?thesis
      using Cons.prems pop_law [OF Cons.prems(1)] Cons.IH [of "snd (pop s)" "snd (list_pop xs)"]
      by (simp add: split_def Let_def)
  qed
qed simp

lemma pushes_fit:
  "holds s xs \<Longrightarrow> list_all item ys \<Longrightarrow> sum_list (map cost (xs @ ys)) \<le> room \<Longrightarrow>
   fst (fifo_run push pop (map Fifo_Push ys) s) = replicate (length ys) (Pushed True)
   \<and> holds (snd (fifo_run push pop (map Fifo_Push ys) s)) (xs @ ys)"
proof (induction ys arbitrary: s xs)
  case (Cons y ys)
  then show ?case
    using push_law [OF Cons.prems(1), of y] Cons.IH [of "snd (push y s)" "xs @ [y]"]
    by (simp add: split_def Let_def)
qed simp

end

section \<open>The cells of a ring\<close>

text \<open>The next offset, and how many cells lie between the read and the write offset.\<close>

definition ring_next :: "nat \<Rightarrow> nat \<Rightarrow> nat" where
  "ring_next cap p = (if p + 1 = cap then 0 else p + 1)"

definition ring_used :: "nat \<Rightarrow> nat \<Rightarrow> nat \<Rightarrow> nat" where
  "ring_used cap w r = (if r \<le> w then w - r else cap - r + w)"

definition ring_cells :: "u8 list \<Rightarrow> nat \<Rightarrow> nat \<Rightarrow> u8 list" where
  "ring_cells buf r n = map (\<lambda>k. buf ! ((r + k) mod length buf)) [0..<n]"

lemma ring_next_less: "p < cap \<Longrightarrow> ring_next cap p < cap"
  by (auto simp: ring_next_def)

lemma ring_next_mod: "p < cap \<Longrightarrow> ring_next cap p = (p + 1) mod cap"
  by (auto simp: ring_next_def)

lemma ring_used_less: "w < cap \<Longrightarrow> r < cap \<Longrightarrow> ring_used cap w r < cap"
  by (auto simp: ring_used_def)

lemma ring_used_zero: "w < cap \<Longrightarrow> r < cap \<Longrightarrow> ring_used cap w r = 0 \<longleftrightarrow> w = r"
  by (auto simp: ring_used_def)

lemma ring_write_offset: "w < cap \<Longrightarrow> r < cap \<Longrightarrow> (r + ring_used cap w r) mod cap = w"
  by (auto simp: ring_used_def)

lemma ring_used_next_w:
  "w < cap \<Longrightarrow> r < cap \<Longrightarrow> ring_next cap w \<noteq> r \<Longrightarrow> ring_used cap (ring_next cap w) r = Suc (ring_used cap w r)"
  by (auto simp: ring_used_def ring_next_def split: if_splits)

lemma ring_used_next_r:
  "w < cap \<Longrightarrow> r < cap \<Longrightarrow> w \<noteq> r \<Longrightarrow> ring_used cap w r = Suc (ring_used cap w (ring_next cap r))"
  by (auto simp: ring_used_def ring_next_def)

lemma ring_full: "w < cap \<Longrightarrow> r < cap \<Longrightarrow> ring_next cap w = r \<longleftrightarrow> Suc (ring_used cap w r) = cap"
  by (auto simp: ring_used_def ring_next_def)

lemma length_ring_cells [simp]: "length (ring_cells buf r n) = n"
  by (simp add: ring_cells_def)

lemma ring_cells_0 [simp]: "ring_cells buf r 0 = []"
  by (simp add: ring_cells_def)

lemma ring_cells_Suc: "ring_cells buf r (Suc n) = ring_cells buf r n @ [buf ! ((r + n) mod length buf)]"
  by (simp add: ring_cells_def)

lemma ring_cells_Cons:
  assumes "r < length buf"
  shows "ring_cells buf r (Suc n) = buf ! r # ring_cells buf (ring_next (length buf) r) n"
proof -
  have "(ring_next (length buf) r + k) mod length buf = (r + Suc k) mod length buf" for k
    using assms by (simp add: ring_next_mod mod_add_left_eq)
  then show ?thesis
    using assms unfolding ring_cells_def by (simp add: upt_conv_Cons map_Suc_upt [symmetric] comp_def del: upt_Suc)
qed

lemma ring_cells_update:
  assumes "r < length buf" and "w < length buf" and "n \<le> ring_used (length buf) w r"
  shows "ring_cells (buf[w := b]) r n = ring_cells buf r n"
proof -
  have "w \<noteq> (r + k) mod length buf" if "k < n" for k
  proof -
    have k: "k < ring_used (length buf) w r" using that assms(3) by simp
    then have small: "k < length buf" using ring_used_less [OF assms(2,1)] by simp
    have "(r + k) mod length buf = (if r + k < length buf then r + k else r + k - length buf)"
      using assms(1) small by (auto simp: le_mod_geq)
    then show ?thesis using k assms(1,2) by (auto simp: ring_used_def split: if_splits)
  qed
  then show ?thesis by (auto simp: ring_cells_def)
qed

lemma ring_cells_write:
  assumes "r < length buf" and "w < length buf"
  shows "ring_cells (buf[w := b]) r (Suc (ring_used (length buf) w r)) =
    ring_cells buf r (ring_used (length buf) w r) @ [b]"
  using assms ring_cells_update [OF assms, of "ring_used (length buf) w r" b]
  by (simp add: ring_cells_Suc ring_write_offset)

text \<open>The index type is as narrow as the capacity allows; a stored offset never loses bits.\<close>

definition ring_index :: "nat \<Rightarrow> nat \<Rightarrow> nat" where
  "ring_index cap p = p mod (if cap \<le> 256 then 256 else 65536)"

lemma ring_index_id: "p < cap \<Longrightarrow> cap \<le> 65536 \<Longrightarrow> ring_index cap p = p"
  by (auto simp: ring_index_def)

section \<open>The byte ring\<close>

record ByteRing =
  br_buf :: "u8 list"
  br_w :: nat
  br_r :: nat

definition br_init :: "nat \<Rightarrow> ByteRing" where
  "br_init cap = \<lparr>br_buf = replicate cap 0, br_w = 0, br_r = 0\<rparr>"

definition br_push :: "u8 \<Rightarrow> ByteRing \<Rightarrow> bool \<times> ByteRing" where
  "br_push b q =
     (let nxt = ring_index (length (br_buf q)) (ring_next (length (br_buf q)) (br_w q))
      in if nxt = br_r q then (False, q)
         else (True, q\<lparr>br_buf := (br_buf q)[br_w q := b], br_w := nxt\<rparr>))"

definition br_pop :: "ByteRing \<Rightarrow> u8 option \<times> ByteRing" where
  "br_pop q =
     (if br_w q = br_r q then (None, q)
      else (Some (br_buf q ! br_r q),
        q\<lparr>br_r := ring_index (length (br_buf q)) (ring_next (length (br_buf q)) (br_r q))\<rparr>))"

definition br_empty :: "ByteRing \<Rightarrow> bool" where
  "br_empty q \<longleftrightarrow> br_w q = br_r q"

definition br_reset :: "ByteRing \<Rightarrow> ByteRing" where
  "br_reset q = q\<lparr>br_w := 0, br_r := 0\<rparr>"

definition br_holds :: "nat \<Rightarrow> ByteRing \<Rightarrow> u8 list \<Rightarrow> bool" where
  "br_holds cap q xs \<longleftrightarrow>
     length (br_buf q) = cap \<and> cap \<le> 65536 \<and> br_w q < cap \<and> br_r q < cap
     \<and> ring_cells (br_buf q) (br_r q) (ring_used cap (br_w q) (br_r q)) = xs"

lemma br_holds_init: "0 < cap \<Longrightarrow> cap \<le> 65536 \<Longrightarrow> br_holds cap (br_init cap) []"
  by (simp add: br_holds_def br_init_def ring_used_def)

lemma br_holds_reset: "br_holds cap q xs \<Longrightarrow> br_holds cap (br_reset q) []"
  by (auto simp: br_holds_def br_reset_def ring_used_def)

lemma br_empty_holds: "br_holds cap q xs \<Longrightarrow> br_empty q \<longleftrightarrow> xs = []"
  by (auto simp: br_holds_def br_empty_def ring_used_zero simp flip: length_0_conv)

lemma br_push_holds:
  assumes "br_holds cap q xs"
  shows "br_push b q = (Suc (length xs) < cap, snd (br_push b q))"
    and "br_holds cap (snd (br_push b q)) (if Suc (length xs) < cap then xs @ [b] else xs)"
proof -
  have len: "length (br_buf q) = cap" and w: "br_w q < cap" and r: "br_r q < cap" and big: "cap \<le> 65536"
    and xs: "ring_cells (br_buf q) (br_r q) (ring_used cap (br_w q) (br_r q)) = xs"
    using assms by (simp_all add: br_holds_def)
  have n: "length xs = ring_used cap (br_w q) (br_r q)" using xs by auto
  have "Suc (length xs) \<le> cap" using ring_used_less [OF w r] n by simp
  then have full: "ring_next cap (br_w q) = br_r q \<longleftrightarrow> \<not> Suc (length xs) < cap"
    using ring_full [OF w r] n by auto
  have idx: "ring_index cap (ring_next cap (br_w q)) = ring_next cap (br_w q)"
    using ring_next_less [OF w] big by (rule ring_index_id)
  show "br_push b q = (Suc (length xs) < cap, snd (br_push b q))"
    using full idx len by (simp add: br_push_def Let_def)
  show "br_holds cap (snd (br_push b q)) (if Suc (length xs) < cap then xs @ [b] else xs)"
  proof (cases "Suc (length xs) < cap")
    case False
    then show ?thesis using full idx len assms by (simp add: br_push_def Let_def)
  next
    case True
    then have ne: "ring_next cap (br_w q) \<noteq> br_r q" using full by simp
    have "ring_cells ((br_buf q)[br_w q := b]) (br_r q) (ring_used cap (ring_next cap (br_w q)) (br_r q)) = xs @ [b]"
      using ring_cells_write [of "br_r q" "br_buf q" "br_w q" b] len w r xs
      by (simp add: ring_used_next_w [OF w r ne])
    then show ?thesis
      using True ne idx len r big ring_next_less [OF w] by (simp add: br_push_def Let_def br_holds_def)
  qed
qed

lemma br_pop_holds:
  assumes "br_holds cap q xs"
  shows "fst (br_pop q) = fst (list_pop xs) \<and> br_holds cap (snd (br_pop q)) (snd (list_pop xs))"
proof -
  have len: "length (br_buf q) = cap" and w: "br_w q < cap" and r: "br_r q < cap" and big: "cap \<le> 65536"
    and xs: "ring_cells (br_buf q) (br_r q) (ring_used cap (br_w q) (br_r q)) = xs"
    using assms by (simp_all add: br_holds_def)
  show ?thesis
  proof (cases "br_w q = br_r q")
    case True
    then have "xs = []" using xs by (auto simp: ring_used_def)
    then show ?thesis using True assms by (simp add: br_pop_def)
  next
    case False
    have idx: "ring_index cap (ring_next cap (br_r q)) = ring_next cap (br_r q)"
      using ring_next_less [OF r] big by (rule ring_index_id)
    have "xs = br_buf q ! br_r q #
        ring_cells (br_buf q) (ring_next cap (br_r q)) (ring_used cap (br_w q) (ring_next cap (br_r q)))"
      using xs ring_cells_Cons [of "br_r q" "br_buf q"] len r by (simp add: ring_used_next_r [OF w r False])
    then show ?thesis
      using False idx len w big ring_next_less [OF r] by (simp add: br_pop_def br_holds_def)
  qed
qed

definition RX_RING_BYTES :: nat where "RX_RING_BYTES = 128"

interpretation rx_ring: bounded_fifo "br_holds RX_RING_BYTES" br_push br_pop "\<lambda>_. 1" "RX_RING_BYTES - 1" "\<lambda>_. True"
proof unfold_locales
  fix q xs and b :: u8
  assume q: "br_holds RX_RING_BYTES q xs"
  have "Suc (length xs) < RX_RING_BYTES \<longleftrightarrow> sum_list (map (\<lambda>_. 1) xs) + 1 \<le> RX_RING_BYTES - 1"
    by (auto simp: sum_list_triv RX_RING_BYTES_def)
  then show "fst (br_push b q) = fst (list_push (\<lambda>_. 1) (RX_RING_BYTES - 1) b xs)
      \<and> br_holds RX_RING_BYTES (snd (br_push b q)) (snd (list_push (\<lambda>_. 1) (RX_RING_BYTES - 1) b xs))"
    using br_push_holds(2) [OF q, of b] arg_cong [OF br_push_holds(1) [OF q, of b], of fst]
    unfolding list_push.simps by (auto split: if_splits)
next
  fix q xs
  assume "br_holds RX_RING_BYTES q xs"
  then show "fst (br_pop q) = fst (list_pop xs) \<and> br_holds RX_RING_BYTES (snd (br_pop q)) (snd (list_pop xs))"
    by (rule br_pop_holds)
qed

section \<open>The record queue\<close>

record SpscByteQueue =
  sq_buf :: "u8 list"
  sq_w :: nat
  sq_r :: nat

definition spsc_init :: "nat \<Rightarrow> SpscByteQueue" where
  "spsc_init cap = \<lparr>sq_buf = replicate cap 0, sq_w = 0, sq_r = 0\<rparr>"

definition SPSC_HEADER :: nat where "SPSC_HEADER = 2"

fun spsc_put :: "nat \<Rightarrow> u8 list \<Rightarrow> u8 list \<Rightarrow> nat \<times> u8 list" where
  "spsc_put p [] buf = (p, buf)"
| "spsc_put p (b # bs) buf = spsc_put (ring_next (length buf) p) bs (buf[p := b])"

text \<open>\<open>data\<close> has the length the caller passes, below \<open>2 ^ 16\<close>; \<open>need\<close> is computed in 16 bits.\<close>

definition spsc_push :: "u8 list \<Rightarrow> SpscByteQueue \<Rightarrow> bool \<times> SpscByteQueue" where
  "spsc_push data q =
     (if data = [] then (False, q)
      else (let cap = length (sq_buf q);
                need = (SPSC_HEADER + length data) mod 65536;
                used = ring_used cap (sq_w q) (sq_r q);
                freeB = cap - 1 - used
            in if freeB < need then (False, q)
               else (let (p, buf) = spsc_put (sq_w q) (le16_bytes (of_nat (length data)) @ data) (sq_buf q)
                     in (True, q\<lparr>sq_buf := buf, sq_w := ring_index cap p\<rparr>))))"

fun spsc_get :: "nat \<Rightarrow> nat \<Rightarrow> u8 list \<Rightarrow> u8 list \<times> nat" where
  "spsc_get 0 p buf = ([], p)"
| "spsc_get (Suc n) p buf =
     (let (bs, p') = spsc_get n (ring_next (length buf) p) buf in (buf ! p # bs, p'))"

text \<open>The length \<open>pop\<close> returns and what it wrote to the first \<open>outCap\<close> bytes of \<open>out\<close>.\<close>

definition spsc_pop :: "nat \<Rightarrow> SpscByteQueue \<Rightarrow> nat \<times> u8 list \<times> SpscByteQueue" where
  "spsc_pop outCap q =
     (if sq_w q = sq_r q then (0, [], q)
      else (let (hdr, p) = spsc_get SPSC_HEADER (sq_r q) (sq_buf q);
                len = unat (le16_at hdr 0);
                (data, p') = spsc_get len p (sq_buf q)
            in (len, take outCap data, q\<lparr>sq_r := ring_index (length (sq_buf q)) p'\<rparr>)))"

definition spsc_empty :: "SpscByteQueue \<Rightarrow> bool" where
  "spsc_empty q \<longleftrightarrow> sq_w q = sq_r q"

definition spsc_reset :: "SpscByteQueue \<Rightarrow> SpscByteQueue" where
  "spsc_reset q = q\<lparr>sq_w := 0, sq_r := 0\<rparr>"

definition spsc_encode :: "u8 list \<Rightarrow> u8 list" where
  "spsc_encode data = le16_bytes (of_nat (length data)) @ data"

definition spsc_item :: "u8 list \<Rightarrow> bool" where
  "spsc_item data \<longleftrightarrow> data \<noteq> [] \<and> SPSC_HEADER + length data < 65536"

definition spsc_cost :: "u8 list \<Rightarrow> nat" where
  "spsc_cost data = SPSC_HEADER + length data"

definition sq_holds :: "nat \<Rightarrow> SpscByteQueue \<Rightarrow> u8 list list \<Rightarrow> bool" where
  "sq_holds cap q rs \<longleftrightarrow>
     length (sq_buf q) = cap \<and> cap \<le> 65536 \<and> sq_w q < cap \<and> sq_r q < cap
     \<and> ring_cells (sq_buf q) (sq_r q) (ring_used cap (sq_w q) (sq_r q)) = concat (map spsc_encode rs)
     \<and> list_all spsc_item rs"

lemma length_spsc_encode: "length (spsc_encode data) = spsc_cost data"
  by (simp add: spsc_encode_def spsc_cost_def le16_bytes_def SPSC_HEADER_def)

lemma sq_holds_used: "sq_holds cap q rs \<Longrightarrow> ring_used cap (sq_w q) (sq_r q) = sum_list (map spsc_cost rs)"
proof -
  assume "sq_holds cap q rs"
  then have "ring_used cap (sq_w q) (sq_r q) = length (concat (map spsc_encode rs))"
    unfolding sq_holds_def by (metis length_ring_cells)
  then show ?thesis by (simp add: length_concat comp_def length_spsc_encode)
qed

lemma spsc_put_length: "length (snd (spsc_put p bs buf)) = length buf"
  by (induction bs arbitrary: p buf) simp_all

lemma spsc_put_cells:
  assumes "r < cap"
  shows "length buf = cap \<Longrightarrow> p < cap \<Longrightarrow> ring_used cap p r + length bs < cap \<Longrightarrow>
    spsc_put p bs buf = (p', buf') \<Longrightarrow>
    p' < cap \<and> ring_used cap p' r = ring_used cap p r + length bs
    \<and> ring_cells buf' r (ring_used cap p r + length bs) = ring_cells buf r (ring_used cap p r) @ bs"
proof (induction bs arbitrary: p buf)
  case (Cons b bs)
  have ne: "ring_next cap p \<noteq> r" using ring_full [OF Cons.prems(2) assms] Cons.prems(3) by auto
  have used: "ring_used cap (ring_next cap p) r = Suc (ring_used cap p r)"
    by (rule ring_used_next_w [OF Cons.prems(2) assms ne])
  have cells: "ring_cells (buf[p := b]) r (Suc (ring_used cap p r)) = ring_cells buf r (ring_used cap p r) @ [b]"
    using ring_cells_write [of r buf p b] assms Cons.prems(1,2) by simp
  show ?case
    using Cons.IH [of "buf[p := b]" "ring_next cap p"] Cons.prems used cells ring_next_less [OF Cons.prems(2)]
    by simp
qed simp

lemma spsc_get_cells:
  assumes "w < cap" and "length buf = cap"
  shows "p < cap \<Longrightarrow> n + m \<le> ring_used cap w p \<Longrightarrow> spsc_get n p buf = (bs, p') \<Longrightarrow>
    p' < cap \<and> bs = ring_cells buf p n \<and> ring_used cap w p = n + ring_used cap w p'
    \<and> ring_cells buf p (n + m) = bs @ ring_cells buf p' m"
proof (induction n arbitrary: p bs)
  case (Suc n)
  obtain bs1 p1 where get1: "spsc_get n (ring_next cap p) buf = (bs1, p1)" by force
  then have get: "spsc_get n (ring_next cap p) buf = (bs1, p')" and bs: "bs = buf ! p # bs1"
    using Suc.prems(3) assms(2) by auto
  have ne: "w \<noteq> p" using Suc.prems(2) ring_used_zero [OF assms(1) Suc.prems(1)] by auto
  have used: "ring_used cap w p = Suc (ring_used cap w (ring_next cap p))"
    by (rule ring_used_next_r [OF assms(1) Suc.prems(1) ne])
  have cells: "ring_cells buf p (Suc k) = buf ! p # ring_cells buf (ring_next cap p) k" for k
    using ring_cells_Cons [of p buf k] Suc.prems(1) assms(2) by simp
  show ?case
    using Suc.IH [OF ring_next_less [OF Suc.prems(1)] _ get] Suc.prems(2) used bs cells by simp
qed simp

lemma sq_holds_init: "0 < cap \<Longrightarrow> cap \<le> 65536 \<Longrightarrow> sq_holds cap (spsc_init cap) []"
  by (simp add: sq_holds_def spsc_init_def ring_used_def)

lemma sq_holds_reset: "sq_holds cap q rs \<Longrightarrow> sq_holds cap (spsc_reset q) []"
  by (auto simp: sq_holds_def spsc_reset_def ring_used_def)

lemma spsc_push_holds:
  assumes "sq_holds cap q rs" and "spsc_item data"
  shows "fst (spsc_push data q) = fst (list_push spsc_cost (cap - 1) data rs)
    \<and> sq_holds cap (snd (spsc_push data q)) (snd (list_push spsc_cost (cap - 1) data rs))"
    and "sq_r (snd (spsc_push data q)) = sq_r q"
proof -
  let ?used = "ring_used cap (sq_w q) (sq_r q)"
  have len: "length (sq_buf q) = cap" and w: "sq_w q < cap" and r: "sq_r q < cap" and big: "cap \<le> 65536"
    and cells: "ring_cells (sq_buf q) (sq_r q) ?used = concat (map spsc_encode rs)"
    and items: "list_all spsc_item rs"
    using assms(1) by (simp_all add: sq_holds_def)
  have data: "data \<noteq> []" and need: "(SPSC_HEADER + length data) mod 65536 = spsc_cost data"
    using assms(2) by (simp_all add: spsc_item_def spsc_cost_def)
  have room: "\<not> cap - 1 - ?used < spsc_cost data \<longleftrightarrow> sum_list (map spsc_cost rs) + spsc_cost data \<le> cap - 1"
    using sq_holds_used [OF assms(1)] ring_used_less [OF w r] by auto
  obtain p buf where put: "spsc_put (sq_w q) (spsc_encode data) (sq_buf q) = (p, buf)" by force
  have push: "spsc_push data q =
      (if cap - 1 - ?used < spsc_cost data then (False, q)
       else (True, q\<lparr>sq_buf := buf, sq_w := ring_index cap p\<rparr>))"
    using data put unfolding spsc_push_def Let_def len need spsc_encode_def by simp
  show "sq_r (snd (spsc_push data q)) = sq_r q" unfolding push by simp
  show "fst (spsc_push data q) = fst (list_push spsc_cost (cap - 1) data rs)
    \<and> sq_holds cap (snd (spsc_push data q)) (snd (list_push spsc_cost (cap - 1) data rs))"
  proof (cases "cap - 1 - ?used < spsc_cost data")
    case True
    then show ?thesis using push room assms(1) by simp
  next
    case False
    then have "?used + length (spsc_encode data) < cap"
      using ring_used_less [OF w r] by (simp add: length_spsc_encode)
    from spsc_put_cells [OF r len w this put, unfolded cells] have p: "p < cap"
      and used': "ring_used cap p (sq_r q) = ?used + length (spsc_encode data)"
    and cells': "ring_cells buf (sq_r q) (?used + length (spsc_encode data)) = concat (map spsc_encode rs) @ spsc_encode data"
      by blast+
    have "length buf = cap" using spsc_put_length [of "sq_w q" "spsc_encode data" "sq_buf q"] put len by simp
    then have "sq_holds cap (q\<lparr>sq_buf := buf, sq_w := ring_index cap p\<rparr>) (rs @ [data])"
      using p cells' used' items assms(2) r big by (simp add: sq_holds_def ring_index_id)
    then show ?thesis using False push room by simp
  qed
qed

lemma spsc_pop_holds:
  assumes "sq_holds cap q (data # rs)"
  shows "\<exists>q'. spsc_pop outCap q = (length data, take outCap data, q') \<and> sq_holds cap q' rs"
    and "sq_w q \<noteq> sq_r q"
proof -
  let ?used = "ring_used cap (sq_w q) (sq_r q)"
  have len: "length (sq_buf q) = cap" and w: "sq_w q < cap" and r: "sq_r q < cap" and big: "cap \<le> 65536"
    and cells: "ring_cells (sq_buf q) (sq_r q) ?used = spsc_encode data @ concat (map spsc_encode rs)"
    and items: "spsc_item data" "list_all spsc_item rs"
    using assms by (simp_all add: sq_holds_def)
  let ?rest = "sum_list (map spsc_cost rs)"
  have used: "?used = SPSC_HEADER + (length data + ?rest)"
    using sq_holds_used [OF assms] by (simp add: spsc_cost_def)
  then show ne: "sq_w q \<noteq> sq_r q" by (auto simp: ring_used_def SPSC_HEADER_def)
  obtain hdr p where hdr: "spsc_get SPSC_HEADER (sq_r q) (sq_buf q) = (hdr, p)" by force
  have le: "SPSC_HEADER + (length data + ?rest) \<le> ?used" using used by simp
  note cut = spsc_get_cells [OF w len r le hdr]
  have p: "p < cap" and h: "hdr = ring_cells (sq_buf q) (sq_r q) SPSC_HEADER"
    and split1: "ring_cells (sq_buf q) (sq_r q) (SPSC_HEADER + (length data + ?rest)) =
      hdr @ ring_cells (sq_buf q) p (length data + ?rest)"
    using cut by blast+
  have used1: "ring_used cap (sq_w q) p = length data + ?rest" using cut used by linarith
  have hlen: "length hdr = SPSC_HEADER" unfolding h by simp
  have "hdr @ ring_cells (sq_buf q) p (length data + ?rest) =
      le16_bytes (of_nat (length data)) @ data @ concat (map spsc_encode rs)"
    using split1 cells [unfolded used] by (simp only: spsc_encode_def append_assoc)
  then have hdr_is: "hdr = le16_bytes (of_nat (length data))"
    and tail: "ring_cells (sq_buf q) p (length data + ?rest) = data @ concat (map spsc_encode rs)"
    using hlen by (simp_all add: append_eq_append_conv SPSC_HEADER_def)
  have n: "unat (le16_at hdr 0) = length data"
    using items(1) by (simp add: hdr_is le16_at_bytes spsc_item_def unat_of_nat)
  obtain d p' where get: "spsc_get (length data) p (sq_buf q) = (d, p')" by force
  have le: "length data + ?rest \<le> ring_used cap (sq_w q) p" using used1 by simp
  note cut = spsc_get_cells [OF w len p le get]
  have p': "p' < cap" and d: "d = ring_cells (sq_buf q) p (length data)"
    and split2: "ring_cells (sq_buf q) p (length data + ?rest) = d @ ring_cells (sq_buf q) p' ?rest"
    using cut by blast+
  have used2: "ring_used cap (sq_w q) p' = ?rest" using cut used1 by linarith
  have dlen: "length d = length data" unfolding d by simp
  have "d = data" and rest: "ring_cells (sq_buf q) p' ?rest = concat (map spsc_encode rs)"
    using trans [OF split2 [symmetric] tail] append_eq_append_conv [OF disjI1, OF dlen] by blast+
  then have "spsc_pop outCap q = (length data, take outCap data, q\<lparr>sq_r := p'\<rparr>)"
    unfolding spsc_pop_def if_not_P [OF ne] hdr Let_def prod.case n get len ring_index_id [OF p' big] by simp
  moreover have "sq_holds cap (q\<lparr>sq_r := p'\<rparr>) rs"
    using len w p' big rest used2 items(2) by (simp add: sq_holds_def)
  ultimately show "\<exists>q'. spsc_pop outCap q = (length data, take outCap data, q') \<and> sq_holds cap q' rs" by blast
qed

lemma spsc_get_pos: "p < length buf \<Longrightarrow> snd (spsc_get n p buf) = (p + n) mod length buf"
proof (induction n arbitrary: p)
  case (Suc n)
  have "ring_next (length buf) p < length buf" using Suc.prems by (rule ring_next_less)
  then show ?case using Suc by (simp add: split_def Let_def ring_next_mod mod_Suc_eq mod_add_left_eq)
qed simp

lemma spsc_pop_state:
  assumes "sq_w q \<noteq> sq_r q" and "sq_r q < length (sq_buf q)" and "spsc_pop outCap q = (len, out, q')"
  shows "q' = q\<lparr>sq_r := ring_index (length (sq_buf q)) ((sq_r q + SPSC_HEADER + len) mod length (sq_buf q))\<rparr>"
proof -
  let ?cap = "length (sq_buf q)"
  have "(sq_r q + SPSC_HEADER) mod ?cap < ?cap" by (rule mod_less_divisor) (use assms(2) in linarith)
  from spsc_get_pos [OF this, of len] show ?thesis
    using assms(1,3) spsc_get_pos [OF assms(2), of SPSC_HEADER]
    by (auto simp: spsc_pop_def Let_def split_def mod_add_left_eq)
qed

text \<open>A consumer whose \<open>out\<close> buffer is as large as the ring, as the code asks; no record reads as none.\<close>

definition spsc_pop_record :: "SpscByteQueue \<Rightarrow> u8 list option \<times> SpscByteQueue" where
  "spsc_pop_record q =
     (let (len, out, q') = spsc_pop (length (sq_buf q)) q in (if len = 0 then None else Some out, q'))"

lemma spsc_pop_record_holds:
  assumes "sq_holds cap q rs"
  shows "fst (spsc_pop_record q) = fst (list_pop rs) \<and> sq_holds cap (snd (spsc_pop_record q)) (snd (list_pop rs))"
proof (cases rs)
  case Nil
  then have "sq_w q = sq_r q"
    using sq_holds_used [OF assms] assms by (simp add: sq_holds_def ring_used_zero)
  then show ?thesis using Nil assms by (simp add: spsc_pop_record_def spsc_pop_def)
next
  case (Cons data rest)
  obtain q' where pop: "spsc_pop (length (sq_buf q)) q = (length data, take (length (sq_buf q)) data, q')"
    and q': "sq_holds cap q' rest"
    using spsc_pop_holds(1) [OF assms [unfolded Cons]] by blast
  have "length (sq_buf q) = cap" "ring_used cap (sq_w q) (sq_r q) < cap"
    using assms by (auto simp: sq_holds_def ring_used_less)
  then have "length data \<le> length (sq_buf q)"
    using sq_holds_used [OF assms] Cons by (simp add: spsc_cost_def)
  moreover have "data \<noteq> []" using assms Cons by (simp add: sq_holds_def spsc_item_def)
  ultimately show ?thesis using Cons pop q' by (simp add: spsc_pop_record_def)
qed

text \<open>The capacity the main-loop queue instantiates.\<close>

definition MAIN_LOOP_CAPACITY :: nat where "MAIN_LOOP_CAPACITY = 512"

interpretation spsc: bounded_fifo "sq_holds cap" spsc_push spsc_pop_record spsc_cost "cap - 1" spsc_item for cap
proof unfold_locales
  show "sq_holds cap q rs \<Longrightarrow> spsc_item data \<Longrightarrow>
      fst (spsc_push data q) = fst (list_push spsc_cost (cap - 1) data rs)
      \<and> sq_holds cap (snd (spsc_push data q)) (snd (list_push spsc_cost (cap - 1) data rs))" for q rs data
    by (rule spsc_push_holds)
  show "sq_holds cap q rs \<Longrightarrow> fst (spsc_pop_record q) = fst (list_pop rs)
      \<and> sq_holds cap (snd (spsc_pop_record q)) (snd (list_pop rs))" for q rs
    by (rule spsc_pop_record_holds)
qed

section \<open>A pop interrupted by the producer\<close>

text \<open>
  The producer's interrupt runs to completion, so whole pushes happen between two accesses of the
  consumer: \<open>isr i\<close> lists the records pushed just before the consumer's access number \<open>i\<close>
  (the reads of the length bytes are accesses 0 and 1, then the payload, then the store to \<open>_r\<close>).
\<close>

definition spsc_pushes :: "u8 list list \<Rightarrow> SpscByteQueue \<Rightarrow> SpscByteQueue" where
  "spsc_pushes ds q = fold (\<lambda>d q. snd (spsc_push d q)) ds q"

fun spsc_get_isr :: "(nat \<Rightarrow> u8 list list) \<Rightarrow> nat \<Rightarrow> nat \<Rightarrow> nat \<Rightarrow> SpscByteQueue \<Rightarrow> u8 list \<times> nat \<times> SpscByteQueue" where
  "spsc_get_isr isr i 0 p q = ([], p, q)"
| "spsc_get_isr isr i (Suc n) p q =
     (let q1 = spsc_pushes (isr i) q;
          (bs, p', q2) = spsc_get_isr isr (Suc i) n (ring_next (length (sq_buf q1)) p) q1
      in (sq_buf q1 ! p # bs, p', q2))"

definition spsc_pop_isr :: "(nat \<Rightarrow> u8 list list) \<Rightarrow> nat \<Rightarrow> SpscByteQueue \<Rightarrow> nat \<times> u8 list \<times> SpscByteQueue" where
  "spsc_pop_isr isr outCap q =
     (if sq_w q = sq_r q then (0, [], q)
      else (let (hdr, p, q1) = spsc_get_isr isr 0 SPSC_HEADER (sq_r q) q;
                len = unat (le16_at hdr 0);
                (data, p', q2) = spsc_get_isr isr SPSC_HEADER len p q1;
                q3 = spsc_pushes (isr (SPSC_HEADER + len)) q2
            in (len, take outCap data, q3\<lparr>sq_r := ring_index (length (sq_buf q3)) p'\<rparr>)))"

lemma spsc_pushes_append: "spsc_pushes (xs @ ys) q = spsc_pushes ys (spsc_pushes xs q)"
  by (simp add: spsc_pushes_def)

lemma spsc_pushes_hold:
  "sq_holds cap q rs \<Longrightarrow> list_all spsc_item ds \<Longrightarrow>
   \<exists>extra. sq_holds cap (spsc_pushes ds q) (rs @ extra) \<and> sq_r (spsc_pushes ds q) = sq_r q"
proof (induction ds arbitrary: q rs)
  case Nil
  then show ?case by (auto simp: spsc_pushes_def intro: exI [of _ "[]"])
next
  case (Cons d ds)
  have push: "sq_holds cap (snd (spsc_push d q)) (snd (list_push spsc_cost (cap - 1) d rs))"
    and r: "sq_r (snd (spsc_push d q)) = sq_r q"
    using spsc_push_holds [OF Cons.prems(1)] Cons.prems(2) by auto
  have all: "list_all spsc_item ds" using Cons.prems(2) by simp
  have "\<exists>xs. snd (list_push spsc_cost (cap - 1) d rs) = rs @ xs" by auto
  then obtain xs where xs: "snd (list_push spsc_cost (cap - 1) d rs) = rs @ xs" by blast
  obtain extra where "sq_holds cap (spsc_pushes ds (snd (spsc_push d q))) ((rs @ xs) @ extra)"
    and "sq_r (spsc_pushes ds (snd (spsc_push d q))) = sq_r q"
    using Cons.IH [OF push all] r xs by auto
  then show ?case by (intro exI [of _ "xs @ extra"]) (simp add: spsc_pushes_def)
qed

lemma sq_holds_prefix_cell:
  assumes "sq_holds cap q (rs @ extra)" and "k < sum_list (map spsc_cost rs)"
  shows "sq_buf q ! ((sq_r q + k) mod cap) = concat (map spsc_encode rs) ! k"
proof -
  have len: "length (concat (map spsc_encode rs)) = sum_list (map spsc_cost rs)"
    by (simp add: length_concat comp_def length_spsc_encode)
  have used: "ring_used cap (sq_w q) (sq_r q) = sum_list (map spsc_cost (rs @ extra))"
    by (rule sq_holds_used [OF assms(1)])
  have "ring_cells (sq_buf q) (sq_r q) (ring_used cap (sq_w q) (sq_r q)) ! k = concat (map spsc_encode (rs @ extra)) ! k"
    using assms(1) by (simp add: sq_holds_def)
  then show ?thesis
    using assms used len by (simp add: ring_cells_def sq_holds_def nth_append)
qed

text \<open>What the interrupted reads see is what was there: the cells of the records still queued.\<close>

lemma spsc_get_isr_cells:
  assumes "\<And>i. list_all spsc_item (isr i)"
  shows "sq_holds cap q (rs @ extra) \<Longrightarrow> k + n \<le> sum_list (map spsc_cost rs) \<Longrightarrow>
    \<exists>extra'. spsc_get_isr isr i n ((sq_r q + k) mod cap) q =
      (take n (drop k (concat (map spsc_encode rs))), (sq_r q + k + n) mod cap,
       spsc_pushes (concat (map isr [i..<i + n])) q)
    \<and> sq_holds cap (spsc_pushes (concat (map isr [i..<i + n])) q) (rs @ extra')
    \<and> sq_r (spsc_pushes (concat (map isr [i..<i + n])) q) = sq_r q"
proof (induction n arbitrary: i k q extra)
  case 0
  then show ?case by (auto simp: spsc_pushes_def intro: exI [of _ extra])
next
  case (Suc n)
  let ?q1 = "spsc_pushes (isr i) q" and ?all = "concat (map spsc_encode rs)"
  obtain m1 where q1: "sq_holds cap ?q1 (rs @ m1)" and r1: "sq_r ?q1 = sq_r q"
    using spsc_pushes_hold [OF Suc.prems(1) assms] by auto
  have cap: "length (sq_buf ?q1) = cap" "0 < cap" using q1 by (auto simp: sq_holds_def)
  have k: "k < sum_list (map spsc_cost rs)" using Suc.prems(2) by simp
  have cell: "sq_buf ?q1 ! ((sq_r q + k) mod cap) = ?all ! k"
    using sq_holds_prefix_cell [OF q1 k] r1 by simp
  have nxt: "ring_next cap ((sq_r q + k) mod cap) = (sq_r ?q1 + Suc k) mod cap"
    using cap r1 by (simp add: ring_next_mod mod_Suc_eq)
  have upt: "[i..<i + Suc n] = i # [Suc i..<Suc i + n]" by (simp add: upt_conv_Cons)
  have len: "k < length ?all" using k by (simp add: length_concat comp_def length_spsc_encode)
  then have tk: "take (Suc n) (drop k ?all) = ?all ! k # take n (drop (Suc k) ?all)"
    by (simp flip: Cons_nth_drop_Suc)
  obtain m2 where IH: "spsc_get_isr isr (Suc i) n ((sq_r ?q1 + Suc k) mod cap) ?q1 =
      (take n (drop (Suc k) ?all), (sq_r ?q1 + Suc k + n) mod cap, spsc_pushes (concat (map isr [Suc i..<Suc i + n])) ?q1)"
    and hold: "sq_holds cap (spsc_pushes (concat (map isr [Suc i..<Suc i + n])) ?q1) (rs @ m2)"
    and rr: "sq_r (spsc_pushes (concat (map isr [Suc i..<Suc i + n])) ?q1) = sq_r ?q1"
    using Suc.IH [OF q1, of "Suc k" "Suc i"] Suc.prems(2) by auto
  have all: "spsc_pushes (concat (map isr [i..<i + Suc n])) q = spsc_pushes (concat (map isr [Suc i..<Suc i + n])) ?q1"
    unfolding upt by (simp add: spsc_pushes_append)
  have "spsc_get_isr isr i (Suc n) ((sq_r q + k) mod cap) q =
      (take (Suc n) (drop k ?all), (sq_r q + k + Suc n) mod cap, spsc_pushes (concat (map isr [i..<i + Suc n])) q)"
    unfolding spsc_get_isr.simps Let_def cap nxt IH prod.case cell tk all by (simp add: r1)
  then show ?case unfolding all using hold rr r1 by (intro exI [of _ m2]) simp
qed

section \<open>The properties of the queues\<close>

text \<open>
  C10. \<open>SpscByteQueue\<close> is a bounded FIFO of records: from the empty ring of any capacity, every
  sequence of pushes (of records whose length and header fit 16 bits) and pops answers as a list
  whose records take two bytes more than their length and at most one byte less than the capacity
  together, wrap-around included; a push that does not fit changes nothing.
\<close>

theorem spsc_is_bounded_fifo:
  assumes "0 < cap" and "cap \<le> 65536" and "list_all spsc_item (fifo_items ops)"
  shows "fst (fifo_run spsc_push spsc_pop_record ops (spsc_init cap)) =
    fst (fifo_run (list_push spsc_cost (cap - 1)) list_pop ops [])"
  using spsc.run_refines [OF sq_holds_init [OF assms(1,2)] assms(3)] by simp

theorem spsc_is_bounded_fifo_witness:
  "fst (fifo_run spsc_push spsc_pop_record
     [Fifo_Push [1, 2, 3], Fifo_Push [4], Fifo_Pop, Fifo_Push [5, 6, 7], Fifo_Pop, Fifo_Pop, Fifo_Pop] (spsc_init 8)) =
   [Pushed True, Pushed False, Popped (Some [1, 2, 3]), Pushed True, Popped (Some [5, 6, 7]), Popped None, Popped None]"
  by (subst spsc_is_bounded_fifo) (simp_all add: spsc_item_def spsc_cost_def SPSC_HEADER_def)

text \<open>
  C11. A pop interrupted by the producer is one step: with pushes of any records before any of its
  memory accesses, a pop of a non-empty queue returns what a pop after all those pushes returns
  (the record that was at the head when it began) and leaves the same queue.
\<close>

theorem spsc_pop_isr_atomic:
  assumes "sq_holds cap q (data # rs)" and "\<And>i. list_all spsc_item (isr i)"
  shows "spsc_pop_isr isr outCap q =
      spsc_pop outCap (spsc_pushes (concat (map isr [0..<length data + 3])) q)
    \<and> fst (spsc_pop_isr isr outCap q) = length data
    \<and> fst (snd (spsc_pop_isr isr outCap q)) = take outCap data"
proof -
  let ?n = "length data" and ?rec = "spsc_encode data"
  let ?q1 = "spsc_pushes (concat (map isr [0..<SPSC_HEADER])) q"
  let ?q2 = "spsc_pushes (concat (map isr [SPSC_HEADER..<SPSC_HEADER + ?n])) ?q1"
  let ?q3 = "spsc_pushes (isr (SPSC_HEADER + ?n)) ?q2"
  have ne: "sq_w q \<noteq> sq_r q" by (rule spsc_pop_holds(2) [OF assms(1)])
  have cap: "length (sq_buf q) = cap" "sq_r q < cap" "cap \<le> 65536" and item: "spsc_item data"
    using assms(1) by (simp_all add: sq_holds_def)
  have start: "sq_holds cap q ([data] @ rs)" using assms(1) by simp
  obtain e1 where g1: "spsc_get_isr isr 0 SPSC_HEADER (sq_r q) q =
      (take SPSC_HEADER ?rec, (sq_r q + SPSC_HEADER) mod cap, ?q1)"
    and h1: "sq_holds cap ?q1 ([data] @ e1)" and r1: "sq_r ?q1 = sq_r q"
    using spsc_get_isr_cells [where isr = isr, OF assms(2) start, where i = 0 and n = SPSC_HEADER and k = 0] cap(2) by (auto simp: spsc_cost_def)
  have hdr: "take SPSC_HEADER ?rec = le16_bytes (of_nat ?n)" and payload: "take ?n (drop SPSC_HEADER ?rec) = data"
    by (simp_all add: spsc_encode_def SPSC_HEADER_def)
  have n: "unat (le16_at (le16_bytes (of_nat ?n)) 0) = ?n"
    using item by (simp add: spsc_item_def unat_of_nat)
  obtain e2 where g2: "spsc_get_isr isr SPSC_HEADER ?n ((sq_r q + SPSC_HEADER) mod cap) ?q1 =
      (data, (sq_r q + SPSC_HEADER + ?n) mod cap, ?q2)"
    and h2: "sq_holds cap ?q2 ([data] @ e2)" and r2: "sq_r ?q2 = sq_r q"
    using spsc_get_isr_cells [where isr = isr, OF assms(2) h1, where i = SPSC_HEADER and n = ?n and k = SPSC_HEADER] r1 payload
    by (auto simp: spsc_cost_def)
  obtain e3 where h3: "sq_holds cap ?q3 (([data] @ e2) @ e3)" and r3: "sq_r ?q3 = sq_r q"
    using spsc_pushes_hold [OF h2 assms(2)] r2 by metis
  have cap3: "length (sq_buf ?q3) = cap" using h3 by (simp add: sq_holds_def)
  have isr: "spsc_pop_isr isr outCap q =
      (?n, take outCap data, ?q3\<lparr>sq_r := ring_index cap ((sq_r q + SPSC_HEADER + ?n) mod cap)\<rparr>)"
    unfolding spsc_pop_isr_def if_not_P [OF ne] g1 Let_def prod.case hdr n g2 cap3 by (rule refl)
  have all: "spsc_pushes (concat (map isr [0..<?n + 3])) q = ?q3"
  proof -
    have "[0..<?n + 3] = [0..<SPSC_HEADER] @ [SPSC_HEADER..<SPSC_HEADER + ?n] @ [SPSC_HEADER + ?n]"
      using upt_add_eq_append [of 0 2 ?n] by (simp add: SPSC_HEADER_def numeral_3_eq_3)
    then show ?thesis by (simp only: map_append concat_append spsc_pushes_append) simp
  qed
  have pop3: "spsc_pop outCap ?q3 =
      (?n, take outCap data, ?q3\<lparr>sq_r := ring_index cap ((sq_r q + SPSC_HEADER + ?n) mod cap)\<rparr>)"
    using spsc_pop_holds(1) [of cap ?q3 data "e2 @ e3" outCap] spsc_pop_holds(2) [of cap ?q3 data "e2 @ e3"] spsc_pop_state [of ?q3 outCap] h3 r3 cap cap3
    by auto
  show ?thesis unfolding all isr pop3 by simp
qed

theorem spsc_pop_isr_atomic_witness:
  "let q = snd (spsc_push [1, 2, 3] (spsc_init 16)); isr = (\<lambda>i. if i = 1 \<or> i = 4 then [[9, 8 + of_nat i]] else [])
   in spsc_pop_isr isr 16 q = spsc_pop 16 (spsc_pushes (concat (map isr [0..<length [1 :: u8, 2, 3] + 3])) q)
     \<and> fst (spsc_pop_isr isr 16 q) = length [1 :: u8, 2, 3]
     \<and> fst (snd (spsc_pop_isr isr 16 q)) = take 16 [1, 2, 3]"
proof -
  have "sq_holds 16 (snd (spsc_push [1, 2, 3] (spsc_init 16))) [[1, 2, 3]]"
    using spsc_push_holds(1) [of 16 "spsc_init 16" "[]" "[1, 2, 3]"] sq_holds_init [of 16]
    by (simp add: spsc_item_def spsc_cost_def SPSC_HEADER_def)
  then show ?thesis
    unfolding Let_def by (rule spsc_pop_isr_atomic) (simp add: spsc_item_def SPSC_HEADER_def)
qed

lemma rx_ring_keeps_frame:
  "length bs < RX_RING_BYTES \<Longrightarrow>
   fst (fifo_run br_push br_pop (map Fifo_Push bs) (br_init RX_RING_BYTES)) = replicate (length bs) (Pushed True)
   \<and> br_holds RX_RING_BYTES (snd (fifo_run br_push br_pop (map Fifo_Push bs) (br_init RX_RING_BYTES))) bs"
  using rx_ring.pushes_fit [OF br_holds_init, of bs] by (simp add: RX_RING_BYTES_def sum_list_triv list_all_iff)

text \<open>
  The 16-bit \<open>need\<close> wraps for a record of 65534 or 65535 bytes, and the check that it fits is
  passed at any capacity of at least two bytes.
\<close>

lemma spsc_need_wraps:
  assumes "length data = 65534 \<or> length data = 65535" and "2 \<le> cap"
  shows "fst (spsc_push data (spsc_init cap))"
proof -
  have "(SPSC_HEADER + length data) mod 65536 \<le> cap - 1" using assms by (auto simp: SPSC_HEADER_def)
  moreover have "data \<noteq> []" using assms(1) by auto
  ultimately show ?thesis by (simp add: spsc_push_def spsc_init_def ring_used_def Let_def split_def)
qed

end
