(* ===== verification/Panel_Discovery.thy ===== *)
theory Panel_Discovery
  imports Packet_Structs
begin

text \<open>
  The panel's half of discovery: \<open>PanelDiscovery\<close>, the table of what each edge leads to, and
  \<open>PanelDiscoveryDriver\<close>, which answers offers, probes its edges one at a time and reports when
  none is left (\<open>Core/Relay/PanelDiscovery.cpp\<close>, \<open>PanelDiscoveryDriver.cpp\<close>). The driver's
  reference to the table is a field of its record; what it sends through \<open>IEdgeLink\<close> is returned
  as a list of edges and frames, in order.
\<close>

section \<open>The edge table\<close>

datatype EdgeLinkState = Unexplored | Connected | NotConnected

definition MAX_EDGES :: nat where "MAX_EDGES = 6"

record PanelDiscovery =
  pd_edgeCount :: u8
  pd_hasParent :: bool
  pd_parent :: u8
  pd_edges :: "EdgeLinkState list"
  pd_childIndexes :: "u16 list"

text \<open>The arrays have \<open>MAX_EDGES\<close> entries; those behind the edge count are never read.\<close>

definition pd_init :: "u8 \<Rightarrow> PanelDiscovery" where
  "pd_init edgeCount =
     \<lparr>pd_edgeCount = edgeCount, pd_hasParent = False, pd_parent = 0,
      pd_edges = replicate MAX_EDGES Unexplored, pd_childIndexes = replicate MAX_EDGES 0\<rparr>"

definition pd_edgeState :: "PanelDiscovery \<Rightarrow> u8 \<Rightarrow> EdgeLinkState" where
  "pd_edgeState d e = pd_edges d ! unat e"

definition pd_isConnected :: "PanelDiscovery \<Rightarrow> u8 \<Rightarrow> bool" where
  "pd_isConnected d e \<longleftrightarrow> pd_edges d ! unat e = Connected"

definition pd_childIndex :: "PanelDiscovery \<Rightarrow> u8 \<Rightarrow> u16" where
  "pd_childIndex d e = pd_childIndexes d ! unat e"

definition pd_onParentOffer :: "u8 \<Rightarrow> PanelDiscovery \<Rightarrow> bool \<times> PanelDiscovery" where
  "pd_onParentOffer fromEdge d =
     (if \<not> pd_hasParent d then
        (True, d\<lparr>pd_hasParent := True, pd_parent := fromEdge, pd_edges := (pd_edges d)[unat fromEdge := Connected]\<rparr>)
      else if fromEdge = pd_parent d then (True, d)
      else (False, d\<lparr>pd_edges := (pd_edges d)[unat fromEdge := NotConnected]\<rparr>))"

definition pd_onChildProbeAccepted :: "u8 \<Rightarrow> u16 \<Rightarrow> PanelDiscovery \<Rightarrow> PanelDiscovery" where
  "pd_onChildProbeAccepted e childPanelIndex d =
     d\<lparr>pd_edges := (pd_edges d)[unat e := Connected],
       pd_childIndexes := (pd_childIndexes d)[unat e := childPanelIndex]\<rparr>"

definition pd_onChildProbeFailed :: "u8 \<Rightarrow> PanelDiscovery \<Rightarrow> PanelDiscovery" where
  "pd_onChildProbeFailed e d =
     d\<lparr>pd_edges := (pd_edges d)[unat e := NotConnected],
       pd_childIndexes := (pd_childIndexes d)[unat e := 0]\<rparr>"

section \<open>The driver\<close>

datatype DeferredDiscLog =
  Log_None | Log_Pull | Log_AdvAccept | Log_Probe | Log_DoneSend | Log_ChildAccepted | Log_ChildRejected | Log_ProbeTimeout

record DeferredLogEntry =
  dle_code :: DeferredDiscLog
  dle_a :: u16
  dle_b :: u16

definition DRIVER_NO_EDGE :: u8 where "DRIVER_NO_EDGE = 0xFF"
definition PROBE_TIMEOUT_MS :: u32 where "PROBE_TIMEOUT_MS = 20"
definition PROBE_ATTEMPTS :: u8 where "PROBE_ATTEMPTS = 3"
definition DEFERRED_LOG_CAP :: nat where "DEFERRED_LOG_CAP = 8"

text \<open>\<open>deferredLogs\<close> lists the entries in use, oldest first; \<open>deferredLogCount\<close> is its length.\<close>

record PanelDiscoveryDriver =
  pdd_discovery :: PanelDiscovery
  pdd_assignedIndex :: u16
  pdd_pendingAssignIndex :: u16
  pdd_probingEdgeIndex :: u8
  pdd_probeAttempts :: u8
  pdd_probeStartedMs :: u32
  pdd_deferredLogs :: "DeferredLogEntry list"

definition pdd_init :: "PanelDiscovery \<Rightarrow> PanelDiscoveryDriver" where
  "pdd_init d =
     \<lparr>pdd_discovery = d, pdd_assignedIndex = 0, pdd_pendingAssignIndex = 0,
      pdd_probingEdgeIndex = DRIVER_NO_EDGE, pdd_probeAttempts = 0, pdd_probeStartedMs = 0, pdd_deferredLogs = []\<rparr>"

type_synonym edge_sends = "(u8 \<times> u8 list) list"

definition pdd_deferLog :: "DeferredDiscLog \<Rightarrow> u16 \<Rightarrow> u16 \<Rightarrow> PanelDiscoveryDriver \<Rightarrow> PanelDiscoveryDriver" where
  "pdd_deferLog code a b d =
     (let logs = (if DEFERRED_LOG_CAP \<le> length (pdd_deferredLogs d)
                  then tl (pdd_deferredLogs d) else pdd_deferredLogs d)
      in d\<lparr>pdd_deferredLogs := logs @ [\<lparr>dle_code = code, dle_a = a, dle_b = b\<rparr>]\<rparr>)"

text \<open>Prints the oldest entry (returned, as the debug line goes to the serial port) and drops it.\<close>

definition pdd_flushOneDeferredLog ::
  "PanelDiscoveryDriver \<Rightarrow> bool \<times> DeferredLogEntry option \<times> PanelDiscoveryDriver" where
  "pdd_flushOneDeferredLog d =
     (case pdd_deferredLogs d of
        [] \<Rightarrow> (False, None, d)
      | e # es \<Rightarrow> (es \<noteq> [], Some e, d\<lparr>pdd_deferredLogs := es\<rparr>))"

definition pdd_isProbing :: "PanelDiscoveryDriver \<Rightarrow> bool" where
  "pdd_isProbing d \<longleftrightarrow> pdd_probingEdgeIndex d \<noteq> DRIVER_NO_EDGE"

definition probe_frame :: "u16 \<Rightarrow> u8 \<Rightarrow> u8 list" where
  "probe_frame assign e = makePacket PACKET_INITIALIZATION_PULL 0
     (Initialization_Pull \<lparr>pull_panelIndex = assign, pull_parentEdgeIndex = ucast e\<rparr>)"

definition done_frame :: "u16 \<Rightarrow> u8 list" where
  "done_frame panelIndex = makePacket PACKET_DISCOVERY_DONE 0 (Discovery_Done \<lparr>done_panelIndex = panelIndex\<rparr>)"

definition pdd_sendProbe :: "u8 \<Rightarrow> u32 \<Rightarrow> PanelDiscoveryDriver \<Rightarrow> edge_sends \<times> PanelDiscoveryDriver" where
  "pdd_sendProbe e nowMs d =
     ([(e, probe_frame (pdd_pendingAssignIndex d) e)],
      pdd_deferLog Log_Probe (ucast e) 0 (d\<lparr>pdd_probingEdgeIndex := e, pdd_probeStartedMs := nowMs\<rparr>))"

definition pdd_nextEdge :: "PanelDiscovery \<Rightarrow> nat option" where
  "pdd_nextEdge t =
     find (\<lambda>e. \<not> (of_nat e = pd_parent t \<or> pd_edgeState t (of_nat e) \<noteq> Unexplored)) [0..<unat (pd_edgeCount t)]"

definition pdd_tryNextEdge :: "u32 \<Rightarrow> PanelDiscoveryDriver \<Rightarrow> edge_sends \<times> PanelDiscoveryDriver" where
  "pdd_tryNextEdge nowMs d =
     (case pdd_nextEdge (pdd_discovery d) of
        Some e \<Rightarrow> pdd_sendProbe (of_nat e) nowMs (d\<lparr>pdd_probeAttempts := 0\<rparr>)
      | None \<Rightarrow>
          (let parent = pd_parent (pdd_discovery d)
           in ([(parent, done_frame (pdd_assignedIndex d))],
               pdd_deferLog Log_DoneSend (pdd_assignedIndex d) (ucast parent) d)))"

definition pdd_handleInitializationPull ::
  "u8 \<Rightarrow> PacketInitializationPull \<Rightarrow> PanelDiscoveryDriver \<Rightarrow> edge_sends \<times> PanelDiscoveryDriver" where
  "pdd_handleInitializationPull fromEdge pull d =
     (let (accepted, t) = pd_onParentOffer fromEdge (pdd_discovery d);
          d1 = d\<lparr>pdd_discovery := t\<rparr>;
          d2 = (if accepted \<and> pdd_assignedIndex d1 = 0 then d1\<lparr>pdd_assignedIndex := pull_panelIndex pull\<rparr> else d1);
          idx = (if accepted then pdd_assignedIndex d2 else DISCOVERY_REJECTED_INDEX);
          reply = makePacket PACKET_REGISTER_EDGE 0
            (Register_Edge \<lparr>reg_panelIndex = idx, reg_edgeIndex = ucast fromEdge,
               reg_parentEdgeIndex = pull_parentEdgeIndex pull\<rparr>)
      in ([(fromEdge, reply)], pdd_deferLog Log_Pull (ucast fromEdge) idx d2))"

definition pdd_handleRegisterEdgeReply ::
  "u8 \<Rightarrow> PacketRegisterEdge \<Rightarrow> u32 \<Rightarrow> PanelDiscoveryDriver \<Rightarrow> edge_sends \<times> PanelDiscoveryDriver" where
  "pdd_handleRegisterEdgeReply fromEdge reply nowMs d =
     (let d1 = d\<lparr>pdd_probingEdgeIndex := DRIVER_NO_EDGE\<rparr>
      in if reg_panelIndex reply \<noteq> DISCOVERY_REJECTED_INDEX then
           ([], pdd_deferLog Log_ChildAccepted (ucast fromEdge) 0
             (d1\<lparr>pdd_discovery := pd_onChildProbeAccepted fromEdge (reg_panelIndex reply) (pdd_discovery d1)\<rparr>))
         else
           (let (out, d2) = pdd_tryNextEdge nowMs
                  (d1\<lparr>pdd_discovery := pd_onChildProbeFailed fromEdge (pdd_discovery d1)\<rparr>)
            in (out, pdd_deferLog Log_ChildRejected (ucast fromEdge) 0 d2)))"

definition pdd_handleAdvance ::
  "u16 \<Rightarrow> PacketDiscoveryAdvance \<Rightarrow> u32 \<Rightarrow> PanelDiscoveryDriver \<Rightarrow> edge_sends \<times> PanelDiscoveryDriver" where
  "pdd_handleAdvance target advance nowMs d =
     (if target \<noteq> pdd_assignedIndex d then ([], d)
      else if pdd_isProbing d then ([], d)
      else pdd_tryNextEdge nowMs
             (pdd_deferLog Log_AdvAccept (adv_assignIndex advance) 0
                (d\<lparr>pdd_pendingAssignIndex := adv_assignIndex advance\<rparr>)))"

definition pdd_onFrameArrived ::
  "u8 \<Rightarrow> u8 list \<Rightarrow> u32 \<Rightarrow> PanelDiscoveryDriver \<Rightarrow> edge_sends \<times> PanelDiscoveryDriver" where
  "pdd_onFrameArrived fromEdge frame nowMs d =
     (case packetType_of (frame_type frame) of
        Some PACKET_INITIALIZATION_PULL \<Rightarrow>
          pdd_handleInitializationPull fromEdge (get_InitializationPull (frame_payload frame)) d
      | Some PACKET_REGISTER_EDGE \<Rightarrow>
          if fromEdge = pdd_probingEdgeIndex d
          then pdd_handleRegisterEdgeReply fromEdge (get_RegisterEdge (frame_payload frame)) nowMs d
          else ([], d)
      | Some PACKET_DISCOVERY_ADVANCE \<Rightarrow>
          pdd_handleAdvance (frame_target frame) (get_DiscoveryAdvance (frame_payload frame)) nowMs d
      | _ \<Rightarrow> ([], d))"

definition pdd_tick :: "u32 \<Rightarrow> PanelDiscoveryDriver \<Rightarrow> edge_sends \<times> PanelDiscoveryDriver" where
  "pdd_tick nowMs d =
     (if pdd_probingEdgeIndex d = DRIVER_NO_EDGE then ([], d)
      else if nowMs - pdd_probeStartedMs d < PROBE_TIMEOUT_MS then ([], d)
      else
        (let e = pdd_probingEdgeIndex d;
             d1 = pdd_deferLog Log_ProbeTimeout (ucast e) 0 d;
             d2 = d1\<lparr>pdd_probeAttempts := pdd_probeAttempts d1 + 1\<rparr>
         in if pdd_probeAttempts d2 < PROBE_ATTEMPTS then pdd_sendProbe e nowMs d2
            else pdd_tryNextEdge nowMs
              (d2\<lparr>pdd_probingEdgeIndex := DRIVER_NO_EDGE,
                 pdd_discovery := pd_onChildProbeFailed e (pdd_discovery d2)\<rparr>)))"

text \<open>The driver on the frames the protocol stamps.\<close>

lemma pdd_frame_simps:
  "pdd_onFrameArrived e (makePacket PACKET_REGISTER_EDGE target (Register_Edge r)) nowMs d =
     (if e = pdd_probingEdgeIndex d then pdd_handleRegisterEdgeReply e r nowMs d else ([], d))"
  "pdd_onFrameArrived e (makePacket PACKET_INITIALIZATION_PULL target (Initialization_Pull p)) nowMs d =
     pdd_handleInitializationPull e p d"
  "pdd_onFrameArrived e (makePacket PACKET_DISCOVERY_ADVANCE target (Discovery_Advance a)) nowMs d =
     pdd_handleAdvance target a nowMs d"
  "pdd_onFrameArrived e (makePacket PACKET_DISCOVERY_DONE target (Discovery_Done q)) nowMs d = ([], d)"
  using get_put_payload [of PACKET_REGISTER_EDGE "Register_Edge r"]
    get_put_payload [of PACKET_INITIALIZATION_PULL "Initialization_Pull p"]
    get_put_payload [of PACKET_DISCOVERY_ADVANCE "Discovery_Advance a"]
  by (simp_all add: pdd_onFrameArrived_def del: packetType_code.simps put_payload.simps)

section \<open>What a panel can meet\<close>

text \<open>Everything that reaches the driver: a frame on an edge, or a turn of the main loop.\<close>

datatype disc_event = Disc_Frame u8 "u8 list" u32 | Disc_Tick u32 | Disc_Flush

fun pdd_step :: "disc_event \<Rightarrow> PanelDiscoveryDriver \<Rightarrow> edge_sends \<times> PanelDiscoveryDriver" where
  "pdd_step (Disc_Frame fromEdge frame nowMs) d = pdd_onFrameArrived fromEdge frame nowMs d"
| "pdd_step (Disc_Tick nowMs) d = pdd_tick nowMs d"
| "pdd_step Disc_Flush d = ([], snd (snd (pdd_flushOneDeferredLog d)))"

fun pdd_run :: "disc_event list \<Rightarrow> PanelDiscoveryDriver \<Rightarrow> edge_sends \<times> PanelDiscoveryDriver" where
  "pdd_run [] d = ([], d)"
| "pdd_run (e # es) d =
     (let (out, d1) = pdd_step e d; (outs, d2) = pdd_run es d1 in (out @ outs, d2))"

text \<open>
  What the rest of the network guarantees: frames come in on existing edges, offers carry a
  non-zero index, and no ADVANCE is addressed to index 0.
\<close>

fun disc_event_ok :: "u8 \<Rightarrow> disc_event \<Rightarrow> bool" where
  "disc_event_ok n (Disc_Frame fromEdge frame nowMs) \<longleftrightarrow>
     fromEdge < n
     \<and> (packetType_of (frame_type frame) \<noteq> Some PACKET_INITIALIZATION_PULL
        \<or> pull_panelIndex (get_InitializationPull (frame_payload frame)) \<noteq> 0)
     \<and> (packetType_of (frame_type frame) \<noteq> Some PACKET_DISCOVERY_ADVANCE \<or> frame_target frame \<noteq> 0)"
| "disc_event_ok n (Disc_Tick nowMs) \<longleftrightarrow> True"
| "disc_event_ok n Disc_Flush \<longleftrightarrow> True"

definition pd_inv :: "u8 \<Rightarrow> PanelDiscovery \<Rightarrow> bool" where
  "pd_inv n t \<longleftrightarrow>
     pd_edgeCount t = n \<and> unat n \<le> MAX_EDGES
     \<and> length (pd_edges t) = MAX_EDGES \<and> length (pd_childIndexes t) = MAX_EDGES
     \<and> (pd_hasParent t \<longrightarrow> pd_parent t < n \<and> pd_edgeState t (pd_parent t) = Connected
          \<and> pd_childIndex t (pd_parent t) = 0)
     \<and> (\<not> pd_hasParent t \<longrightarrow> (\<forall>e < n. pd_edgeState t e = Unexplored \<and> pd_childIndex t e = 0))
     \<and> (\<forall>e < n. e \<noteq> pd_parent t \<longrightarrow>
          (pd_edgeState t e = Connected \<longrightarrow> pd_childIndex t e \<noteq> 0)
          \<and> (pd_edgeState t e = Unexplored \<longrightarrow> pd_childIndex t e = 0))"

definition pdd_inv :: "u8 \<Rightarrow> PanelDiscoveryDriver \<Rightarrow> bool" where
  "pdd_inv n d \<longleftrightarrow>
     pd_inv n (pdd_discovery d)
     \<and> (pd_hasParent (pdd_discovery d) \<longleftrightarrow> pdd_assignedIndex d \<noteq> 0)
     \<and> length (pdd_deferredLogs d) \<le> DEFERRED_LOG_CAP
     \<and> (pdd_isProbing d \<longrightarrow> pd_hasParent (pdd_discovery d) \<and> pdd_probingEdgeIndex d < n
          \<and> pdd_probingEdgeIndex d \<noteq> pd_parent (pdd_discovery d) \<and> pdd_probeAttempts d < PROBE_ATTEMPTS)"

text \<open>What every step keeps: the invariant, the parent and index once adopted, and resolved edges.\<close>

definition pdd_keeps :: "u8 \<Rightarrow> PanelDiscoveryDriver \<Rightarrow> edge_sends \<times> PanelDiscoveryDriver \<Rightarrow> bool" where
  "pdd_keeps n d r \<longleftrightarrow>
     pdd_inv n (snd r) \<and> list_all (\<lambda>(e, f). e < n) (fst r)
     \<and> (pd_hasParent (pdd_discovery d) \<longrightarrow>
          pd_hasParent (pdd_discovery (snd r))
          \<and> pd_parent (pdd_discovery (snd r)) = pd_parent (pdd_discovery d)
          \<and> pdd_assignedIndex (snd r) = pdd_assignedIndex d)
     \<and> (\<forall>e < n. pd_edgeState (pdd_discovery d) e \<noteq> Unexplored \<longrightarrow>
          pd_edgeState (pdd_discovery (snd r)) e \<noteq> Unexplored)"

lemma deferLog_simps [simp]:
  "pdd_discovery (pdd_deferLog c a b d) = pdd_discovery d"
  "pdd_assignedIndex (pdd_deferLog c a b d) = pdd_assignedIndex d"
  "pdd_pendingAssignIndex (pdd_deferLog c a b d) = pdd_pendingAssignIndex d"
  "pdd_probingEdgeIndex (pdd_deferLog c a b d) = pdd_probingEdgeIndex d"
  "pdd_probeAttempts (pdd_deferLog c a b d) = pdd_probeAttempts d"
  "pdd_probeStartedMs (pdd_deferLog c a b d) = pdd_probeStartedMs d"
  "pdd_isProbing (pdd_deferLog c a b d) = pdd_isProbing d"
  by (simp_all add: pdd_deferLog_def pdd_isProbing_def Let_def)

lemma deferLog_length:
  "length (pdd_deferredLogs d) \<le> DEFERRED_LOG_CAP \<Longrightarrow>
   length (pdd_deferredLogs (pdd_deferLog c a b d)) \<le> DEFERRED_LOG_CAP"
  by (auto simp: pdd_deferLog_def Let_def DEFERRED_LOG_CAP_def)

lemma pdd_inv_deferLog: "pdd_inv n d \<Longrightarrow> pdd_inv n (pdd_deferLog c a b d)"
  by (auto simp: pdd_inv_def deferLog_length)

lemma pdd_keeps_deferLog:
  "pdd_keeps n d (out, d') \<Longrightarrow> pdd_keeps n d (out, pdd_deferLog c a b d')"
  by (simp add: pdd_keeps_def pdd_inv_deferLog)

lemma edge_small:
  "unat (n :: u8) \<le> MAX_EDGES \<Longrightarrow> e < n \<Longrightarrow> unat e < MAX_EDGES \<and> e \<noteq> DRIVER_NO_EDGE"
  by (auto simp: word_less_nat_alt MAX_EDGES_def DRIVER_NO_EDGE_def)

lemma edges_update:
  "length (pd_edges t) = MAX_EDGES \<Longrightarrow> unat e < MAX_EDGES \<Longrightarrow>
   pd_edgeState (t\<lparr>pd_edges := (pd_edges t)[unat e := s]\<rparr>) e' = (if e' = e then s else pd_edgeState t e')"
  by (simp add: pd_edgeState_def nth_list_update word_unat_eq_iff)

lemma children_update:
  "length (pd_childIndexes t) = MAX_EDGES \<Longrightarrow> unat e < MAX_EDGES \<Longrightarrow>
   (pd_childIndexes t)[unat e := c] ! unat e' = (if e' = e then c else pd_childIndexes t ! unat e')"
  by (simp add: nth_list_update word_unat_eq_iff)

lemma pd_inv_offer:
  assumes "pd_inv n t" and "e < n"
  shows "pd_inv n (snd (pd_onParentOffer e t))"
    and "fst (pd_onParentOffer e t) \<longleftrightarrow> \<not> pd_hasParent t \<or> e = pd_parent t"
    and "pd_hasParent (snd (pd_onParentOffer e t))"
    and "pd_hasParent t \<Longrightarrow> pd_parent (snd (pd_onParentOffer e t)) = pd_parent t"
    and "pd_edgeState t e' \<noteq> Unexplored \<Longrightarrow> pd_edgeState (snd (pd_onParentOffer e t)) e' \<noteq> Unexplored"
  using assms edge_small [OF _ assms(2)]
  by (auto simp: pd_onParentOffer_def pd_inv_def pd_edgeState_def pd_childIndex_def nth_list_update word_unat_eq_iff)

lemma pd_inv_accepted:
  assumes "pd_inv n t" and "e < n" and "pd_hasParent t" and "e \<noteq> pd_parent t" and "c \<noteq> 0"
  shows "pd_inv n (pd_onChildProbeAccepted e c t)"
  using assms edge_small [OF _ assms(2)]
  by (auto simp: pd_onChildProbeAccepted_def pd_inv_def pd_edgeState_def pd_childIndex_def nth_list_update word_unat_eq_iff)

lemma pd_inv_failed:
  assumes "pd_inv n t" and "e < n" and "pd_hasParent t" and "e \<noteq> pd_parent t"
  shows "pd_inv n (pd_onChildProbeFailed e t)"
  using assms edge_small [OF _ assms(2)]
  by (auto simp: pd_onChildProbeFailed_def pd_inv_def pd_edgeState_def pd_childIndex_def nth_list_update word_unat_eq_iff)

lemma pd_probe_result_simps [simp]:
  "pd_hasParent (pd_onChildProbeAccepted e c t) = pd_hasParent t"
  "pd_parent (pd_onChildProbeAccepted e c t) = pd_parent t"
  "pd_hasParent (pd_onChildProbeFailed e t) = pd_hasParent t"
  "pd_parent (pd_onChildProbeFailed e t) = pd_parent t"
  "pd_edgeCount (pd_onChildProbeFailed e t) = pd_edgeCount t"
  "pd_edgeCount (pd_onChildProbeAccepted e c t) = pd_edgeCount t"
  by (simp_all add: pd_onChildProbeAccepted_def pd_onChildProbeFailed_def)

lemma pd_probe_result_edges:
  assumes "pd_inv n t" and "e < n"
  shows "pd_edgeState (pd_onChildProbeFailed e t) e' = (if e' = e then NotConnected else pd_edgeState t e')"
    and "pd_edgeState (pd_onChildProbeAccepted e c t) e' = (if e' = e then Connected else pd_edgeState t e')"
  using assms edge_small [OF _ assms(2)]
  by (auto simp: pd_onChildProbeFailed_def pd_onChildProbeAccepted_def pd_inv_def pd_edgeState_def
      nth_list_update word_unat_eq_iff)

lemma nextEdge_some:
  assumes "pdd_nextEdge t = Some k"
  shows "of_nat k < pd_edgeCount t \<and> k < unat (pd_edgeCount t) \<and> of_nat k \<noteq> pd_parent t
    \<and> pd_edgeState t (of_nat k) = Unexplored"
proof -
  have k: "k < unat (pd_edgeCount t)" and "of_nat k \<noteq> pd_parent t" and "pd_edgeState t (of_nat k) = Unexplored"
    using assms by (auto simp: pdd_nextEdge_def find_Some_iff)
  moreover have "unat (of_nat k :: u8) = k"
    using k unat_u8_less [of "pd_edgeCount t"] by (simp add: unat_of_nat)
  ultimately show ?thesis by (simp add: word_less_nat_alt)
qed

lemma tryNextEdge_keeps:
  assumes "pdd_inv n d" and "pd_hasParent (pdd_discovery d)" and "pdd_probingEdgeIndex d = DRIVER_NO_EDGE"
  shows "pdd_keeps n d (pdd_tryNextEdge nowMs d)"
proof (cases "pdd_nextEdge (pdd_discovery d)")
  case None
  have "pd_parent (pdd_discovery d) < n" using assms by (simp add: pdd_inv_def pd_inv_def)
  moreover have "pdd_keeps n d ([(pd_parent (pdd_discovery d), done_frame (pdd_assignedIndex d))], d)"
    using assms calculation by (simp add: pdd_keeps_def)
  ultimately show ?thesis
    using None by (simp add: pdd_tryNextEdge_def Let_def pdd_keeps_deferLog)
next
  case (Some k)
  have n: "pd_edgeCount (pdd_discovery d) = n" using assms by (simp add: pdd_inv_def pd_inv_def)
  have "of_nat k < n" "of_nat k \<noteq> pd_parent (pdd_discovery d)"
    using nextEdge_some [OF Some] n by auto
  then show ?thesis
    using assms Some
    by (auto simp: pdd_tryNextEdge_def pdd_sendProbe_def pdd_inv_def pdd_keeps_def pdd_isProbing_def
        deferLog_length PROBE_ATTEMPTS_def)
qed

lemma pull_keeps:
  assumes "pdd_inv n d" and "e < n" and "pull_panelIndex pull \<noteq> 0"
  shows "pdd_keeps n d (pdd_handleInitializationPull e pull d)"
proof -
  obtain acc t where offer: "pd_onParentOffer e (pdd_discovery d) = (acc, t)" by force
  have inv: "pd_inv n (pdd_discovery d)" using assms(1) by (simp add: pdd_inv_def)
  note facts = pd_inv_offer [OF inv assms(2), unfolded offer fst_conv snd_conv]
  have "acc \<or> pdd_assignedIndex d \<noteq> 0" using facts(2) assms(1) by (auto simp: pdd_inv_def)
  then show ?thesis
    using assms facts offer
    by (auto simp: pdd_handleInitializationPull_def Let_def pdd_keeps_def pdd_inv_def deferLog_length pdd_isProbing_def)
qed

lemma register_keeps:
  assumes "pdd_inv n d" and "e = pdd_probingEdgeIndex d" and "e < n"
  shows "pdd_keeps n d (pdd_handleRegisterEdgeReply e reply nowMs d)"
proof -
  let ?d1 = "d\<lparr>pdd_probingEdgeIndex := DRIVER_NO_EDGE\<rparr>"
  have inv: "pd_inv n (pdd_discovery d)" using assms(1) by (simp add: pdd_inv_def)
  then have "e \<noteq> DRIVER_NO_EDGE" using edge_small [OF _ assms(3)] by (auto simp: pd_inv_def)
  then have probing: "pd_hasParent (pdd_discovery d)" "e \<noteq> pd_parent (pdd_discovery d)"
    using assms by (auto simp: pdd_inv_def pdd_isProbing_def)
  show ?thesis
  proof (cases "reg_panelIndex reply = DISCOVERY_REJECTED_INDEX")
    case False
    then have "pd_inv n (pd_onChildProbeAccepted e (reg_panelIndex reply) (pdd_discovery d))"
      using pd_inv_accepted [OF inv assms(3) probing] by (simp add: DISCOVERY_REJECTED_INDEX_def)
    then show ?thesis
      using False assms(1) probing pd_probe_result_edges(2) [OF inv assms(3)]
      by (auto simp: pdd_handleRegisterEdgeReply_def Let_def pdd_keeps_def pdd_inv_def deferLog_length pdd_isProbing_def)
  next
    case True
    let ?d2 = "?d1\<lparr>pdd_discovery := pd_onChildProbeFailed e (pdd_discovery d)\<rparr>"
    have "pdd_inv n ?d2"
      using pd_inv_failed [OF inv assms(3) probing] assms(1) by (simp add: pdd_inv_def pdd_isProbing_def)
    then have "pdd_keeps n ?d2 (pdd_tryNextEdge nowMs ?d2)"
      using probing by (intro tryNextEdge_keeps) simp_all
    moreover obtain out d3 where "pdd_tryNextEdge nowMs ?d2 = (out, d3)" by force
    ultimately show ?thesis
      using True probing pd_probe_result_edges(1) [OF inv assms(3)]
      by (auto simp: pdd_handleRegisterEdgeReply_def Let_def pdd_keeps_def pdd_inv_deferLog)
  qed
qed

lemma advance_keeps:
  assumes "pdd_inv n d" and "target \<noteq> 0"
  shows "pdd_keeps n d (pdd_handleAdvance target adv nowMs d)"
proof (cases "target \<noteq> pdd_assignedIndex d \<or> pdd_isProbing d")
  case True
  then show ?thesis using assms(1) by (auto simp: pdd_handleAdvance_def pdd_keeps_def)
next
  case False
  let ?d1 = "pdd_deferLog Log_AdvAccept (adv_assignIndex adv) 0 (d\<lparr>pdd_pendingAssignIndex := adv_assignIndex adv\<rparr>)"
  have "pdd_inv n ?d1"
    using assms(1) by (auto simp: pdd_inv_def deferLog_length pdd_isProbing_def)
  moreover have "pd_hasParent (pdd_discovery ?d1)"
    using assms False by (simp add: pdd_inv_def)
  moreover have "pdd_probingEdgeIndex ?d1 = DRIVER_NO_EDGE" using False by (simp add: pdd_isProbing_def)
  ultimately have "pdd_keeps n ?d1 (pdd_tryNextEdge nowMs ?d1)" by (rule tryNextEdge_keeps)
  then show ?thesis using False by (simp add: pdd_handleAdvance_def pdd_keeps_def)
qed

lemma tick_keeps:
  assumes "pdd_inv n d"
  shows "pdd_keeps n d (pdd_tick nowMs d)"
proof (cases "pdd_probingEdgeIndex d = DRIVER_NO_EDGE \<or> nowMs - pdd_probeStartedMs d < PROBE_TIMEOUT_MS")
  case True
  then show ?thesis using assms by (auto simp: pdd_tick_def pdd_keeps_def)
next
  case False
  let ?e = "pdd_probingEdgeIndex d"
  have inv: "pd_inv n (pdd_discovery d)" using assms by (simp add: pdd_inv_def)
  have probing: "pd_hasParent (pdd_discovery d)" "?e < n" "?e \<noteq> pd_parent (pdd_discovery d)"
    using assms False by (auto simp: pdd_inv_def pdd_isProbing_def)
  let ?d1 = "pdd_deferLog Log_ProbeTimeout (ucast ?e) 0 d"
  let ?d2 = "?d1\<lparr>pdd_probeAttempts := pdd_probeAttempts ?d1 + 1\<rparr>"
  let ?d3 = "?d2\<lparr>pdd_probingEdgeIndex := DRIVER_NO_EDGE, pdd_discovery := pd_onChildProbeFailed ?e (pdd_discovery ?d2)\<rparr>"
  show ?thesis
  proof (cases "pdd_probeAttempts ?d2 < PROBE_ATTEMPTS")
    case retry: True
    then show ?thesis
      using False assms probing
      by (auto simp: pdd_tick_def Let_def pdd_sendProbe_def pdd_keeps_def pdd_inv_def pdd_isProbing_def deferLog_length)
  next
    case last: False
    have logs: "length (pdd_deferredLogs ?d1) \<le> DEFERRED_LOG_CAP"
      using assms by (simp add: pdd_inv_def deferLog_length)
    have "pdd_inv n ?d3"
      using pd_inv_failed [OF inv probing(2,1,3)] assms logs by (auto simp: pdd_inv_def pdd_isProbing_def)
    then have "pdd_keeps n ?d3 (pdd_tryNextEdge nowMs ?d3)"
      using probing by (intro tryNextEdge_keeps) simp_all
    then show ?thesis
      using False last probing pd_probe_result_edges(1) [OF inv probing(2)]
      by (auto simp: pdd_tick_def Let_def pdd_keeps_def)
  qed
qed

lemma step_keeps:
  assumes "pdd_inv n d" and "disc_event_ok n e"
  shows "pdd_keeps n d (pdd_step e d)"
proof (cases e)
  case (Disc_Frame fromEdge frame nowMs)
  have same: "pdd_keeps n d ([], d)" using assms(1) by (simp add: pdd_keeps_def)
  show ?thesis
  proof (cases "packetType_of (frame_type frame)")
    case None
    then show ?thesis using Disc_Frame same by (simp add: pdd_onFrameArrived_def)
  next
    case (Some t)
    then show ?thesis
      using Disc_Frame assms same pull_keeps [OF assms(1)] register_keeps [OF assms(1)] advance_keeps [OF assms(1)]
      by (cases t) (auto simp: pdd_onFrameArrived_def)
  qed
next
  case (Disc_Tick nowMs)
  then show ?thesis using tick_keeps [OF assms(1)] by simp
next
  case Disc_Flush
  then show ?thesis
    using assms(1)
    by (auto simp: pdd_flushOneDeferredLog_def pdd_keeps_def pdd_inv_def pdd_isProbing_def split: list.split)
qed

lemma keeps_trans:
  "pdd_keeps n d (out, d1) \<Longrightarrow> pdd_keeps n d1 (outs, d2) \<Longrightarrow> pdd_keeps n d (out @ outs, d2)"
  by (auto simp: pdd_keeps_def)

lemma run_keeps:
  "pdd_inv n d \<Longrightarrow> list_all (disc_event_ok n) es \<Longrightarrow> pdd_keeps n d (pdd_run es d)"
proof (induction es arbitrary: d)
  case Nil
  then show ?case by (simp add: pdd_keeps_def)
next
  case (Cons e es)
  obtain out d1 outs d2 where step: "pdd_step e d = (out, d1)" and rest: "pdd_run es d1 = (outs, d2)"
    by (metis surj_pair)
  have first: "pdd_keeps n d (out, d1)" using step_keeps [OF Cons.prems(1)] Cons.prems(2) step by force
  then have "pdd_inv n d1" by (simp add: pdd_keeps_def)
  then have "pdd_keeps n d1 (outs, d2)" using Cons rest by force
  then show ?case using keeps_trans [OF first] step rest by simp
qed

lemma pdd_inv_init: "unat n \<le> MAX_EDGES \<Longrightarrow> pdd_inv n (pdd_init (pd_init n))"
  by (auto simp: pdd_inv_def pdd_init_def pd_inv_def pd_init_def pdd_isProbing_def pd_edgeState_def pd_childIndex_def
      word_less_nat_alt)

section \<open>Silence\<close>

definition unexplored_edges :: "PanelDiscovery \<Rightarrow> u8 list" where
  "unexplored_edges t =
     filter (\<lambda>e. \<not> (e = pd_parent t \<or> pd_edgeState t e \<noteq> Unexplored)) (map of_nat [0..<unat (pd_edgeCount t)])"

fun spaced :: "u32 \<Rightarrow> u32 list \<Rightarrow> bool" where
  "spaced t [] \<longleftrightarrow> True"
| "spaced t (t' # ts) \<longleftrightarrow> PROBE_TIMEOUT_MS \<le> t' - t \<and> spaced t' ts"

lemma find_filter_map:
  "find P (map f xs) = (case filter P (map f xs) of [] \<Rightarrow> None | y # ys \<Rightarrow> Some y)"
  "map_option f (find (P \<circ> f) xs) = find P (map f xs)"
  by (induction xs) auto

lemma nextEdge_unexplored:
  "map_option of_nat (pdd_nextEdge t) = (case unexplored_edges t of [] \<Rightarrow> None | e # es \<Rightarrow> Some e)"
  unfolding pdd_nextEdge_def unexplored_edges_def find_filter_map(1) [symmetric] find_filter_map(2) [symmetric]
  by (simp add: comp_def)

lemma tryNextEdge_unexplored:
  "pdd_tryNextEdge nowMs d =
     (case unexplored_edges (pdd_discovery d) of
        e # es \<Rightarrow> pdd_sendProbe e nowMs (d\<lparr>pdd_probeAttempts := 0\<rparr>)
      | [] \<Rightarrow> ([(pd_parent (pdd_discovery d), done_frame (pdd_assignedIndex d))],
               pdd_deferLog Log_DoneSend (pdd_assignedIndex d) (ucast (pd_parent (pdd_discovery d))) d))"
  using nextEdge_unexplored [of "pdd_discovery d"]
  by (cases "pdd_nextEdge (pdd_discovery d)") (auto simp: pdd_tryNextEdge_def Let_def split: list.splits)

lemma unexplored_distinct: "distinct (unexplored_edges t)"
proof -
  have "inj_on (of_nat :: nat \<Rightarrow> u8) {0..<unat (pd_edgeCount t)}"
  proof (rule inj_on_inverseI)
    fix k assume "k \<in> {0..<unat (pd_edgeCount t)}"
    then show "unat (of_nat k :: u8) = k" using unat_u8_less [of "pd_edgeCount t"] by (simp add: unat_of_nat)
  qed
  then show ?thesis by (simp add: unexplored_edges_def distinct_map)
qed

lemma unexplored_failed:
  assumes "pd_inv n t" and "e < n" and "unexplored_edges t = e # es"
  shows "unexplored_edges (pd_onChildProbeFailed e t) = es"
proof -
  have "unexplored_edges (pd_onChildProbeFailed e t) = filter (\<lambda>x. x \<noteq> e) (unexplored_edges t)"
    using assms(1,2) by (auto simp: unexplored_edges_def pd_probe_result_edges(1) intro!: filter_cong)
  also have "\<dots> = es"
    using unexplored_distinct [of t] unfolding assms(3) by (simp add: filter_id_conv) (metis)
  finally show ?thesis .
qed

lemma unexplored_mem: "e \<in> set (unexplored_edges t) \<Longrightarrow> e < pd_edgeCount t \<and> e \<noteq> pd_parent t"
proof -
  assume "e \<in> set (unexplored_edges t)"
  then obtain k where k: "k < unat (pd_edgeCount t)" "e = of_nat k" "e \<noteq> pd_parent t"
    by (auto simp: unexplored_edges_def)
  then have "unat e = k" using unat_u8_less [of "pd_edgeCount t"] by (simp add: unat_of_nat)
  then show ?thesis using k by (simp add: word_less_nat_alt)
qed

definition silent_probes :: "u16 \<Rightarrow> u8 list \<Rightarrow> edge_sends" where
  "silent_probes assign es = concat (map (\<lambda>e. replicate (unat PROBE_ATTEMPTS) (e, probe_frame assign e)) es)"

lemma unat_PROBE_ATTEMPTS: "unat PROBE_ATTEMPTS = 3"
  by (simp add: PROBE_ATTEMPTS_def)

lemma silent_probes_simps:
  "silent_probes assign [] = []"
  "silent_probes assign (e # es) = (e, probe_frame assign e) # replicate 2 (e, probe_frame assign e)
      @ silent_probes assign es"
  by (simp_all add: silent_probes_def unat_PROBE_ATTEMPTS numeral_3_eq_3 numeral_2_eq_2)

lemma three_more: "length ts = 3 * length (e # es) \<Longrightarrow>
    \<exists>t1 t2 t3 us. ts = t1 # t2 # t3 # us \<and> length us = 3 * length es"
  by (auto simp: numeral_3_eq_3 Suc_length_conv length_Suc_conv)

text \<open>An edge that has just been probed and stays silent for as many timeouts as it has attempts.\<close>

lemma silent_edge:
  assumes "spaced (pdd_probeStartedMs d) (t1 # t2 # t3 # ts)" and "pdd_probingEdgeIndex d = e"
    and "e \<noteq> DRIVER_NO_EDGE" and "pdd_probeAttempts d = 0"
  shows "\<exists>logs att. pdd_run (map Disc_Tick (t1 # t2 # t3 # ts)) d =
    (let (out, d') = pdd_tryNextEdge t3 (d\<lparr>pdd_probingEdgeIndex := DRIVER_NO_EDGE, pdd_probeStartedMs := t2,
           pdd_probeAttempts := att, pdd_deferredLogs := logs,
           pdd_discovery := pd_onChildProbeFailed e (pdd_discovery d)\<rparr>);
         (outs, d'') = pdd_run (map Disc_Tick ts) d'
     in (replicate 2 (e, probe_frame (pdd_pendingAssignIndex d) e) @ out @ outs, d''))"
proof -
  have late: "\<not> t1 - pdd_probeStartedMs d < PROBE_TIMEOUT_MS" "\<not> t2 - t1 < PROBE_TIMEOUT_MS"
      "\<not> t3 - t2 < PROBE_TIMEOUT_MS"
    using assms(1) by (simp_all add: not_less)
  obtain l1 where tick1: "pdd_tick t1 d = ([(e, probe_frame (pdd_pendingAssignIndex d) e)],
      d\<lparr>pdd_probeStartedMs := t1, pdd_probeAttempts := 1, pdd_deferredLogs := l1\<rparr>)"
    using late(1) assms(2-4)
    by (cases d) (auto simp: pdd_tick_def pdd_sendProbe_def pdd_deferLog_def Let_def PROBE_ATTEMPTS_def)
  obtain l2 where tick2: "pdd_tick t2 (d\<lparr>pdd_probeStartedMs := t1, pdd_probeAttempts := 1, pdd_deferredLogs := l1\<rparr>) =
      ([(e, probe_frame (pdd_pendingAssignIndex d) e)],
       d\<lparr>pdd_probeStartedMs := t2, pdd_probeAttempts := 2, pdd_deferredLogs := l2\<rparr>)"
    using late(2) assms(2-4)
    by (cases d) (auto simp: pdd_tick_def pdd_sendProbe_def pdd_deferLog_def Let_def PROBE_ATTEMPTS_def)
  obtain l3 where tick3: "pdd_tick t3 (d\<lparr>pdd_probeStartedMs := t2, pdd_probeAttempts := 2, pdd_deferredLogs := l2\<rparr>) =
      pdd_tryNextEdge t3 (d\<lparr>pdd_probingEdgeIndex := DRIVER_NO_EDGE, pdd_probeStartedMs := t2,
           pdd_probeAttempts := 3, pdd_deferredLogs := l3,
           pdd_discovery := pd_onChildProbeFailed e (pdd_discovery d)\<rparr>)"
    using late(3) assms(2-4)
    by (cases d) (auto simp: pdd_tick_def pdd_deferLog_def Let_def PROBE_ATTEMPTS_def)
  show ?thesis
    by (intro exI [of _ l3] exI [of _ 3])
       (simp only: list.map pdd_run.simps pdd_step.simps tick1 tick2 tick3 Let_def split_def prod.sel,
        simp add: numeral_2_eq_2)
qed

lemma silent_walk:
  "pd_inv n (pdd_discovery d) \<Longrightarrow> pdd_probingEdgeIndex d = e \<Longrightarrow> pdd_probeAttempts d = 0 \<Longrightarrow>
   unexplored_edges (pdd_discovery d) = e # es \<Longrightarrow> spaced (pdd_probeStartedMs d) ts \<Longrightarrow>
   pd_hasParent (pdd_discovery d) \<Longrightarrow>
   length ts = unat PROBE_ATTEMPTS * length (e # es) \<Longrightarrow>
   \<exists>d'. pdd_run (map Disc_Tick ts) d =
     (replicate 2 (e, probe_frame (pdd_pendingAssignIndex d) e) @ silent_probes (pdd_pendingAssignIndex d) es
        @ [(pd_parent (pdd_discovery d), done_frame (pdd_assignedIndex d))], d')
     \<and> \<not> pdd_isProbing d' \<and> unexplored_edges (pdd_discovery d') = []"
proof (induction es arbitrary: d e ts)
  case (Nil d e ts)
  obtain t1 t2 t3 where ts: "ts = [t1, t2, t3]"
    using three_more [OF Nil.prems(7) [unfolded unat_PROBE_ATTEMPTS]] by auto
  have e: "e < n" "e \<noteq> DRIVER_NO_EDGE"
    using unexplored_mem [of e "pdd_discovery d"] Nil.prems(1,4) edge_small [of n e] by (auto simp: pd_inv_def)
  have un: "unexplored_edges (pd_onChildProbeFailed e (pdd_discovery d)) = []"
    by (rule unexplored_failed [OF Nil.prems(1) e(1) Nil.prems(4)])
  show ?case
    using silent_edge [of d t1 t2 t3 "[]" e] Nil.prems e(2) un
    unfolding ts by (auto simp: tryNextEdge_unexplored silent_probes_simps pdd_isProbing_def)
next
  case (Cons e2 es d e ts)
  obtain t1 t2 t3 us where ts: "ts = t1 # t2 # t3 # us" and us: "length us = unat PROBE_ATTEMPTS * length (e2 # es)"
    using three_more [OF Cons.prems(7) [unfolded unat_PROBE_ATTEMPTS]] unfolding unat_PROBE_ATTEMPTS by blast
  have e: "e < n" "e \<noteq> DRIVER_NO_EDGE"
    using unexplored_mem [of e "pdd_discovery d"] Cons.prems(1,4) edge_small [of n e] by (auto simp: pd_inv_def)
  have un: "unexplored_edges (pd_onChildProbeFailed e (pdd_discovery d)) = e2 # es"
    by (rule unexplored_failed [OF Cons.prems(1) e(1) Cons.prems(4)])
  have ne: "e \<noteq> pd_parent (pdd_discovery d)" using unexplored_mem [of e "pdd_discovery d"] Cons.prems(4) by simp
  obtain logs att where run: "pdd_run (map Disc_Tick (t1 # t2 # t3 # us)) d =
    (let (out, d') = pdd_tryNextEdge t3 (d\<lparr>pdd_probingEdgeIndex := DRIVER_NO_EDGE, pdd_probeStartedMs := t2,
           pdd_probeAttempts := att, pdd_deferredLogs := logs,
           pdd_discovery := pd_onChildProbeFailed e (pdd_discovery d)\<rparr>);
         (outs, d'') = pdd_run (map Disc_Tick us) d'
     in (replicate 2 (e, probe_frame (pdd_pendingAssignIndex d) e) @ out @ outs, d''))"
    using silent_edge [of d t1 t2 t3 us e] Cons.prems(2,3,5) e(2) unfolding ts by blast
  obtain l2 where next_probe: "pdd_tryNextEdge t3 (d\<lparr>pdd_probingEdgeIndex := DRIVER_NO_EDGE, pdd_probeStartedMs := t2,
           pdd_probeAttempts := att, pdd_deferredLogs := logs,
           pdd_discovery := pd_onChildProbeFailed e (pdd_discovery d)\<rparr>) =
      ([(e2, probe_frame (pdd_pendingAssignIndex d) e2)],
       d\<lparr>pdd_probingEdgeIndex := e2, pdd_probeStartedMs := t3, pdd_probeAttempts := 0, pdd_deferredLogs := l2,
         pdd_discovery := pd_onChildProbeFailed e (pdd_discovery d)\<rparr>)"
    using un by (cases d) (auto simp: tryNextEdge_unexplored pdd_sendProbe_def pdd_deferLog_def Let_def)
  let ?d2 = "d\<lparr>pdd_probingEdgeIndex := e2, pdd_probeStartedMs := t3, pdd_probeAttempts := 0, pdd_deferredLogs := l2,
         pdd_discovery := pd_onChildProbeFailed e (pdd_discovery d)\<rparr>"
  have inv2: "pd_inv n (pdd_discovery ?d2)"
    using pd_inv_failed [OF Cons.prems(1) e(1) Cons.prems(6) ne] by simp
  have "spaced (pdd_probeStartedMs ?d2) us" using Cons.prems(5) ts by simp
  with us obtain d' where rest: "pdd_run (map Disc_Tick us) ?d2 =
     (replicate 2 (e2, probe_frame (pdd_pendingAssignIndex ?d2) e2) @ silent_probes (pdd_pendingAssignIndex ?d2) es
        @ [(pd_parent (pdd_discovery ?d2), done_frame (pdd_assignedIndex ?d2))], d')"
     and d': "\<not> pdd_isProbing d'" "unexplored_edges (pdd_discovery d') = []"
    using Cons.IH [OF inv2, of e2 us] un Cons.prems(6) by auto
  show ?case
    unfolding ts run next_probe Let_def prod.case rest using d' by (simp add: silent_probes_simps)
qed

section \<open>The properties of the driver\<close>

text \<open>
  C12. The loop-rejection state of a panel is permanent: whatever frames and turns of the main
  loop reach its driver in whatever order, the parent edge and the index it first adopted never
  change, the parent edge stays connected and is never probed, a resolved edge is never probed
  again or becomes unexplored, every connected edge but the parent's records a child index, the
  deferred log holds at most its capacity, and frames are only sent on existing edges.
\<close>

theorem panel_parent_permanent:
  assumes "unat n \<le> MAX_EDGES" and "list_all (disc_event_ok n) (before @ after)"
  shows "let d1 = snd (pdd_run before (pdd_init (pd_init n))) in
    pdd_inv n d1 \<and> pdd_keeps n d1 (pdd_run after d1)"
proof -
  have "pdd_inv n (snd (pdd_run before (pdd_init (pd_init n))))"
    using run_keeps [OF pdd_inv_init [OF assms(1)], of before] assms(2) by (simp add: pdd_keeps_def)
  then show ?thesis using run_keeps assms(2) by (simp add: Let_def)
qed

theorem panel_parent_permanent_witness:
  "let d1 = snd (pdd_run [Disc_Frame 1 (probe_frame 5 0) 7, Disc_Tick 8] (pdd_init (pd_init 3))) in
    pdd_inv 3 d1 \<and> pdd_keeps 3 d1 (pdd_run [Disc_Frame 2 (probe_frame 6 1) 9, Disc_Flush, Disc_Frame 1 (done_frame 4) 10] d1)"
  by (rule panel_parent_permanent)
     (simp_all add: MAX_EDGES_def probe_frame_def done_frame_def get_InitializationPull_def le16_bytes_def le16_at_def
        layout packetType_of_def packet_types_def)

text \<open>
  C13. An ADVANCE always comes back: on a panel that is not probing, an ADVANCE addressed to it,
  followed by silence, makes it probe every unexplored edge but the parent's in ascending order,
  each with \<open>PROBE_ATTEMPTS\<close> offers of the index to assign, and then report DONE to its parent,
  after as many timeouts as offers; every edge is then resolved.
\<close>

theorem silent_advance_done:
  assumes "pdd_inv n d" and "\<not> pdd_isProbing d" and "pdd_assignedIndex d \<noteq> 0"
    and "spaced now ts" and "length ts = unat PROBE_ATTEMPTS * length (unexplored_edges (pdd_discovery d))"
  shows "let (out, d1) = pdd_handleAdvance (pdd_assignedIndex d) adv now d; (outs, d2) = pdd_run (map Disc_Tick ts) d1 in
    out @ outs = silent_probes (adv_assignIndex adv) (unexplored_edges (pdd_discovery d))
      @ [(pd_parent (pdd_discovery d), done_frame (pdd_assignedIndex d))]
    \<and> \<not> pdd_isProbing d2 \<and> unexplored_edges (pdd_discovery d2) = []"
proof -
  have inv: "pd_inv n (pdd_discovery d)" and parent: "pd_hasParent (pdd_discovery d)"
    using assms(1,3) by (simp_all add: pdd_inv_def)
  let ?d0 = "pdd_deferLog Log_AdvAccept (adv_assignIndex adv) 0 (d\<lparr>pdd_pendingAssignIndex := adv_assignIndex adv\<rparr>)"
  have adv: "pdd_handleAdvance (pdd_assignedIndex d) adv now d = pdd_tryNextEdge now ?d0"
    using assms(2) by (simp add: pdd_handleAdvance_def)
  show ?thesis
  proof (cases "unexplored_edges (pdd_discovery d)")
    case Nil
    then show ?thesis
      using assms(2,5) unfolding adv by (simp add: tryNextEdge_unexplored silent_probes_simps pdd_isProbing_def)
  next
    case (Cons e es)
    obtain logs where probe: "pdd_tryNextEdge now ?d0 = ([(e, probe_frame (adv_assignIndex adv) e)],
        d\<lparr>pdd_pendingAssignIndex := adv_assignIndex adv, pdd_probingEdgeIndex := e, pdd_probeStartedMs := now,
          pdd_probeAttempts := 0, pdd_deferredLogs := logs\<rparr>)"
      using Cons by (cases d) (auto simp: tryNextEdge_unexplored pdd_sendProbe_def pdd_deferLog_def Let_def)
    show ?thesis
      using silent_walk [of n "d\<lparr>pdd_pendingAssignIndex := adv_assignIndex adv, pdd_probingEdgeIndex := e,
          pdd_probeStartedMs := now, pdd_probeAttempts := 0, pdd_deferredLogs := logs\<rparr>" e es ts]
        inv parent assms(4,5) Cons
      unfolding adv probe by (auto simp: split_def Let_def silent_probes_simps)
  qed
qed

theorem silent_advance_done_witness:
  "let d = snd (pdd_handleInitializationPull 0 \<lparr>pull_panelIndex = 5, pull_parentEdgeIndex = 2\<rparr> (pdd_init (pd_init 3)));
       (out, d1) = pdd_handleAdvance (pdd_assignedIndex d) \<lparr>adv_assignIndex = 6\<rparr> 1000 d;
       (outs, d2) = pdd_run (map Disc_Tick [1020, 1041, 1070, 1090, 1110, 1130]) d1 in
    out @ outs = silent_probes 6 [1, 2] @ [(0, done_frame 5)]
    \<and> \<not> pdd_isProbing d2 \<and> unexplored_edges (pdd_discovery d2) = []"
proof -
  let ?d = "snd (pdd_handleInitializationPull 0 \<lparr>pull_panelIndex = 5, pull_parentEdgeIndex = 2\<rparr> (pdd_init (pd_init 3)))"
  have inv: "pdd_inv 3 ?d"
    using pull_keeps [OF pdd_inv_init, of 3 0 "\<lparr>pull_panelIndex = 5, pull_parentEdgeIndex = 2\<rparr>"]
    by (simp add: pdd_keeps_def MAX_EDGES_def)
  have three: "map word_of_nat [0..<3] = [0, 1, 2 :: u8]" by (simp add: upt_rec)
  have d: "pdd_assignedIndex ?d = 5" "pd_parent (pdd_discovery ?d) = 0" "\<not> pdd_isProbing ?d"
    "unexplored_edges (pdd_discovery ?d) = [1, 2]"
    by (simp_all add: pdd_handleInitializationPull_def pd_onParentOffer_def pdd_init_def pd_init_def Let_def
        unexplored_edges_def pd_edgeState_def pdd_isProbing_def DRIVER_NO_EDGE_def MAX_EDGES_def three nth_list_update)
  show ?thesis
    using silent_advance_done [OF inv d(3), of 1000 "[1020, 1041, 1070, 1090, 1110, 1130]" "\<lparr>adv_assignIndex = 6\<rparr>"] d
    by (simp add: Let_def PROBE_TIMEOUT_MS_def PROBE_ATTEMPTS_def)
qed

section \<open>A lost registration\<close>

text \<open>
  When a child's registration is recorded by its parent but lost further up, the controller's
  repeated ADVANCE (it still assigns the same index) makes the parent offer that index on its
  next edge: two children can end up with one index.
\<close>

lemma lost_registration_reassigns:
  assumes "pd_inv n (pdd_discovery d)" and "\<not> pdd_isProbing d" and "unexplored_edges (pdd_discovery d) = e # e2 # es"
    and "adv_assignIndex adv \<noteq> 0"
  shows "let c = adv_assignIndex adv; me = pdd_assignedIndex d;
      (out1, d1) = pdd_handleAdvance me adv t1 d;
      (out2, d2) = pdd_onFrameArrived e (makePacket PACKET_REGISTER_EDGE 0
        (Register_Edge \<lparr>reg_panelIndex = c, reg_edgeIndex = 0, reg_parentEdgeIndex = ucast e\<rparr>)) t2 d1;
      (out3, d3) = pdd_handleAdvance me adv t3 d2
    in out1 = [(e, probe_frame c e)] \<and> out2 = [] \<and> pd_childIndex (pdd_discovery d2) e = c
       \<and> out3 = [(e2, probe_frame c e2)]"
proof -
  have e: "e < n" "unat e < MAX_EDGES" "e \<noteq> DRIVER_NO_EDGE"
    using unexplored_mem [of e "pdd_discovery d"] assms(1,3) edge_small [of n e] by (auto simp: pd_inv_def)
  have "unexplored_edges (pd_onChildProbeAccepted e c (pdd_discovery d)) =
      filter (\<lambda>x. x \<noteq> e) (unexplored_edges (pdd_discovery d))" for c
    using assms(1) e(1)
    by (auto simp: unexplored_edges_def pd_probe_result_edges(2) intro!: filter_cong)
  then have un: "unexplored_edges (pd_onChildProbeAccepted e c (pdd_discovery d)) = e2 # es" for c
    using unexplored_distinct [of "pdd_discovery d"] assms(3) by (simp add: filter_id_conv) (metis)
  have child: "pd_childIndex (pd_onChildProbeAccepted e c (pdd_discovery d)) e = c" for c
    using assms(1) e(2) by (simp add: pd_childIndex_def pd_onChildProbeAccepted_def pd_inv_def)
  show ?thesis
    using assms(2-4) e(3) un child
    by (simp add: Let_def pdd_handleAdvance_def tryNextEdge_unexplored pdd_sendProbe_def pdd_frame_simps
        pdd_handleRegisterEdgeReply_def DISCOVERY_REJECTED_INDEX_def pdd_isProbing_def
        del: put_payload.simps)
qed

end
