(* ===== verification/Panel_Router.thy ===== *)
theory Panel_Router
  imports Panel_Discovery
begin

text \<open>
  Forwarding: \<open>PanelRouter\<close>, which picks the edges a frame is repeated on, and
  \<open>PanelFrameDispatcher\<close>, which decides per frame whether to relay it, feed it to the discovery
  driver and act on it (\<open>Core/Relay/PanelRouter.cpp\<close>, \<open>PanelFrameDispatcher.cpp\<close>). A tree of
  panels then carries a frame from its root, and the frame reaches whom it is addressed to.
\<close>

section \<open>The router\<close>

definition ROUTER_NO_EDGE :: u8 where "ROUTER_NO_EDGE = 0xFF"

definition pd_edge_list :: "PanelDiscovery \<Rightarrow> u8 list" where
  "pd_edge_list t = map of_nat [0..<unat (pd_edgeCount t)]"

text \<open>The loop over the edges: best edge, its child's index, and whether every child has an index.\<close>

fun route_scan :: "PanelDiscovery \<Rightarrow> u8 \<Rightarrow> u16 \<Rightarrow> u8 list \<Rightarrow> u8 \<Rightarrow> u16 \<Rightarrow> bool \<Rightarrow> u8 \<times> u16 \<times> bool" where
  "route_scan t fromEdge target [] bestEdge bestChildIndex allIndexed = (bestEdge, bestChildIndex, allIndexed)"
| "route_scan t fromEdge target (e # es) bestEdge bestChildIndex allIndexed =
     (if e = fromEdge \<or> \<not> pd_isConnected t e then route_scan t fromEdge target es bestEdge bestChildIndex allIndexed
      else (let c = pd_childIndex t e
            in if c = 0 then route_scan t fromEdge target es bestEdge bestChildIndex False
               else if c \<le> target \<and> bestChildIndex < c then route_scan t fromEdge target es e c allIndexed
               else route_scan t fromEdge target es bestEdge bestChildIndex allIndexed))"

definition routeDownstream :: "u8 \<Rightarrow> u8 list \<Rightarrow> PanelDiscovery \<Rightarrow> edge_sends" where
  "routeDownstream fromEdge packet t =
     (let target = frame_target packet;
          flood = map (\<lambda>e. (e, packet)) (filter (\<lambda>e. e \<noteq> fromEdge \<and> pd_isConnected t e) (pd_edge_list t))
      in if target \<noteq> 0 then
           (let (bestEdge, bestChildIndex, allIndexed) =
                  route_scan t fromEdge target (pd_edge_list t) ROUTER_NO_EDGE 0 True
            in if allIndexed then (if bestEdge \<noteq> ROUTER_NO_EDGE then [(bestEdge, packet)] else [])
               else flood)
         else flood)"

definition router_onFrameArrived :: "u8 \<Rightarrow> u8 list \<Rightarrow> PanelDiscovery \<Rightarrow> edge_sends" where
  "router_onFrameArrived fromEdge packet t =
     (if \<not> pd_hasParent t then []
      else if fromEdge = pd_parent t then routeDownstream fromEdge packet t
      else if pd_isConnected t (pd_parent t) then [(pd_parent t, packet)]
      else [])"

section \<open>The dispatcher\<close>

definition dispatcher_onFrameArrived ::
  "u8 \<Rightarrow> u8 list \<Rightarrow> u32 \<Rightarrow> PanelDiscoveryDriver \<Rightarrow> bool \<times> edge_sends \<times> PanelDiscoveryDriver" where
  "dispatcher_onFrameArrived fromEdge frame nowMs d =
     (let target = frame_target frame;
          addressedToSelf = (pdd_assignedIndex d \<noteq> 0 \<and> target = pdd_assignedIndex d);
          relayed = (if frame_type frame \<noteq> packetType_code PACKET_INITIALIZATION_PULL \<and> \<not> addressedToSelf
                     then router_onFrameArrived fromEdge frame (pdd_discovery d) else []);
          (reaction, d') = pdd_onFrameArrived fromEdge frame nowMs d;
          myIndex = pdd_assignedIndex d'
      in (myIndex \<noteq> 0 \<and> (target = 0 \<or> target = myIndex), relayed @ reaction, d'))"

section \<open>What the scan finds\<close>

definition child_edges :: "PanelDiscovery \<Rightarrow> u8 list" where
  "child_edges t = filter (\<lambda>e. e \<noteq> pd_parent t \<and> pd_isConnected t e) (pd_edge_list t)"

text \<open>The branch rule: the child with the largest index that is at most the target.\<close>

definition best_child :: "PanelDiscovery \<Rightarrow> u16 \<Rightarrow> u8 \<Rightarrow> bool" where
  "best_child t target e \<longleftrightarrow>
     e \<in> set (child_edges t) \<and> pd_childIndex t e \<le> target
     \<and> (\<forall>e' \<in> set (child_edges t). pd_childIndex t e' \<le> target \<longrightarrow> pd_childIndex t e' \<le> pd_childIndex t e)"

lemma route_scan_filter:
  "route_scan t from target es b c a =
   route_scan t from target (filter (\<lambda>e. e \<noteq> from \<and> pd_isConnected t e) es) b c a"
  by (induction es arbitrary: b c a) (auto simp: Let_def)

lemma route_scan_spec:
  "list_all (\<lambda>e. e \<noteq> from \<and> pd_isConnected t e \<and> pd_childIndex t e \<noteq> 0) es \<Longrightarrow>
   route_scan t from target es b c a = (b', c', a') \<Longrightarrow>
   a' = a \<and> c \<le> c'
   \<and> (\<forall>e \<in> set es. pd_childIndex t e \<le> target \<longrightarrow> pd_childIndex t e \<le> c')
   \<and> (c' = c \<and> b' = b \<or> b' \<in> set es \<and> pd_childIndex t b' = c' \<and> c' \<le> target)"
proof (induction es arbitrary: b c a)
  case (Cons e es)
  show ?case
  proof (cases "pd_childIndex t e \<le> target \<and> c < pd_childIndex t e")
    case True
    then have "route_scan t from target es e (pd_childIndex t e) a = (b', c', a')"
      using Cons.prems by (auto simp: Let_def)
    from Cons.IH [OF _ this] show ?thesis using True Cons.prems(1) by auto
  next
    case False
    then have "route_scan t from target es b c a = (b', c', a')"
      using Cons.prems by (auto simp: Let_def split: if_splits)
    from Cons.IH [OF _ this] show ?thesis using False Cons.prems(1) by force
  qed
qed auto

lemma child_edges_inv:
  assumes "pd_inv n t"
  shows "e \<in> set (child_edges t) \<Longrightarrow> e < n \<and> e \<noteq> pd_parent t \<and> pd_isConnected t e \<and> pd_childIndex t e \<noteq> 0 \<and> e \<noteq> ROUTER_NO_EDGE"
proof -
  assume e: "e \<in> set (child_edges t)"
  then obtain k where k: "k < unat (pd_edgeCount t)" "e = of_nat k" "e \<noteq> pd_parent t" "pd_isConnected t e"
    by (auto simp: child_edges_def pd_edge_list_def)
  have "unat e = k" using k unat_u8_less [of "pd_edgeCount t"] by (simp add: unat_of_nat)
  then have less: "e < n" using k assms by (simp add: word_less_nat_alt pd_inv_def)
  moreover have "pd_childIndex t e \<noteq> 0" using assms less k by (simp add: pd_inv_def pd_isConnected_def pd_edgeState_def)
  moreover have "e \<noteq> ROUTER_NO_EDGE"
    using edge_small [OF _ less] assms by (auto simp: pd_inv_def ROUTER_NO_EDGE_def DRIVER_NO_EDGE_def)
  ultimately show ?thesis using k by simp
qed

lemma routeDownstream_addressed:
  assumes "pd_inv n t" and "frame_target f \<noteq> 0"
  shows "(\<exists>e. best_child t (frame_target f) e \<and> routeDownstream (pd_parent t) f t = [(e, f)])
    \<or> (\<forall>e \<in> set (child_edges t). \<not> pd_childIndex t e \<le> frame_target f) \<and> routeDownstream (pd_parent t) f t = []"
proof -
  let ?target = "frame_target f"
  obtain b c a where scan: "route_scan t (pd_parent t) ?target (child_edges t) ROUTER_NO_EDGE 0 True = (b, c, a)"
    by (metis surj_pair)
  have all: "list_all (\<lambda>e. e \<noteq> pd_parent t \<and> pd_isConnected t e \<and> pd_childIndex t e \<noteq> 0) (child_edges t)"
    using child_edges_inv [OF assms(1)] by (auto simp: list_all_iff)
  note spec = route_scan_spec [OF all scan]
  have down: "routeDownstream (pd_parent t) f t = (if b \<noteq> ROUTER_NO_EDGE then [(b, f)] else [])"
    using assms(2) scan spec
    by (simp add: routeDownstream_def Let_def route_scan_filter [of _ _ _ "pd_edge_list t"] flip: child_edges_def)
  show ?thesis
  proof (cases "b \<in> set (child_edges t) \<and> pd_childIndex t b = c \<and> c \<le> ?target")
    case True
    then have "b \<noteq> ROUTER_NO_EDGE" using child_edges_inv [OF assms(1)] by blast
    moreover have "best_child t ?target b" using True spec by (simp add: best_child_def)
    ultimately show ?thesis using down by auto
  next
    case False
    then have "b = ROUTER_NO_EDGE" and "c = 0" using spec by auto
    then show ?thesis
      using down spec child_edges_inv [OF assms(1)] by (metis word_le_0_iff)
  qed
qed

lemma routeDownstream_broadcast:
  "frame_target f = 0 \<Longrightarrow> routeDownstream (pd_parent t) f t = map (\<lambda>e. (e, f)) (child_edges t)"
  by (simp add: routeDownstream_def child_edges_def)

section \<open>A tree of panels\<close>

text \<open>
  A discovered network: each node is a panel's driver with, for every child, the subtree behind
  one of its edges (\<open>pt_edge\<close> is the edge of the parent the node is wired to). A node agrees with
  its table when its children are its connected edges, in order, each recorded under the child's
  index.
\<close>

datatype ptree = PNode (pt_edge: u8) (pt_driver: PanelDiscoveryDriver) (pt_kids: "ptree list")

definition pt_index :: "ptree \<Rightarrow> u16" where
  "pt_index t = pdd_assignedIndex (pt_driver t)"

fun pt_indices :: "ptree \<Rightarrow> nat list" where
  "pt_indices (PNode e d ks) = unat (pdd_assignedIndex d) # concat (map pt_indices ks)"

fun pt_ok :: "u8 \<Rightarrow> ptree \<Rightarrow> bool" where
  "pt_ok n (PNode e d ks) \<longleftrightarrow>
     pdd_inv n d \<and> pdd_assignedIndex d \<noteq> 0 \<and> map pt_edge ks = child_edges (pdd_discovery d)
     \<and> list_all (\<lambda>k. pd_childIndex (pdd_discovery d) (pt_edge k) = pt_index k) ks
     \<and> list_all (pt_ok n) ks"

text \<open>The panels a frame entering a node on its parent edge reaches, and whether each acts on it.\<close>

fun pt_visit :: "u8 list \<Rightarrow> u32 \<Rightarrow> ptree \<Rightarrow> (u16 \<times> bool) list" where
  "pt_visit f nowMs (PNode e d ks) =
     (let (act, sends, d') = dispatcher_onFrameArrived (pd_parent (pdd_discovery d)) f nowMs d
      in (pdd_assignedIndex d, act)
         # concat (map (\<lambda>k. if (pt_edge k, f) \<in> set sends then pt_visit f nowMs k else []) ks))"

fun pt_path :: "u16 \<Rightarrow> ptree \<Rightarrow> u16 list" where
  "pt_path target (PNode e d ks) =
     pdd_assignedIndex d #
       (if target = pdd_assignedIndex d then []
        else concat (map (\<lambda>k. if unat target \<in> set (pt_indices k) then pt_path target k else []) ks))"

text \<open>Frames the discovery driver does not react to.\<close>

definition app_frame :: "u8 list \<Rightarrow> bool" where
  "app_frame f \<longleftrightarrow> packetType_of (frame_type f) \<notin>
     {Some PACKET_INITIALIZATION_PULL, Some PACKET_REGISTER_EDGE, Some PACKET_DISCOVERY_ADVANCE}"

lemma dispatcher_app_frame:
  assumes "app_frame f" and "pdd_assignedIndex d \<noteq> 0"
  shows "dispatcher_onFrameArrived e f nowMs d =
    (frame_target f = 0 \<or> frame_target f = pdd_assignedIndex d,
     if frame_target f = pdd_assignedIndex d then [] else router_onFrameArrived e f (pdd_discovery d), d)"
proof -
  have "pdd_onFrameArrived e f nowMs d = ([], d)"
    using assms(1) by (auto simp: pdd_onFrameArrived_def app_frame_def split: option.split packetType_t.split)
  moreover have "frame_type f \<noteq> packetType_code PACKET_INITIALIZATION_PULL"
    using assms(1) packetType_of_code [of PACKET_INITIALIZATION_PULL] by (auto simp: app_frame_def simp del: packetType_code.simps)
  ultimately show ?thesis using assms(2) by (auto simp: dispatcher_onFrameArrived_def)
qed

lemma pt_index_mem: "unat (pt_index k) \<in> set (pt_indices k)"
  by (cases k) (simp add: pt_index_def)

lemma pt_index_least: "pt_indices k = [a..<b] \<Longrightarrow> i \<in> set (pt_indices k) \<Longrightarrow> unat (pt_index k) \<le> i"
proof (cases k)
  case (PNode e d ks)
  assume "pt_indices k = [a..<b]" and i: "i \<in> set (pt_indices k)"
  then have "unat (pt_index k) = hd [a..<b]" using PNode by (metis list.sel(1) pt_index_def pt_indices.simps ptree.sel(2))
  moreover have "a < b" using i \<open>pt_indices k = [a..<b]\<close> by (cases "a < b") simp_all
  ultimately show ?thesis using i \<open>pt_indices k = [a..<b]\<close> by (simp add: hd_upt)
qed

lemma upt_append_split:
  "xs @ ys = [a..<b] \<Longrightarrow> xs = [a..<a + length xs] \<and> ys = [a + length xs..<b]"
proof -
  assume eq: "xs @ ys = [a..<b]"
  then have "take (length xs) [a..<b] = xs" "drop (length xs) [a..<b] = ys"
    by (metis append_eq_conv_conj)+
  moreover have "length xs \<le> b - a" using arg_cong [OF eq, of length] by simp
  ultimately show ?thesis by (cases "a \<le> b") (auto simp: take_upt drop_upt)
qed

lemma pt_kid_range:
  "concat (map pt_indices ks) = [a..<b] \<Longrightarrow> k \<in> set ks \<Longrightarrow> \<exists>a' b'. pt_indices k = [a'..<b']"
proof (induction ks arbitrary: a)
  case (Cons k' ks)
  then show ?case using upt_append_split [of "pt_indices k'" "concat (map pt_indices ks)" a b] by auto
qed simp

lemma pt_kids_apart:
  assumes "concat (map pt_indices (pre @ k # post)) = [a..<b]" and "i \<in> set (pt_indices k)"
  shows "k' \<in> set pre \<Longrightarrow> unat (pt_index k') < unat (pt_index k)"
    and "k' \<in> set post \<Longrightarrow> i < unat (pt_index k')"
proof -
  have "sorted_wrt (<) (concat (map pt_indices (pre @ k # post)))" using assms(1) by simp
  then have apart: "\<forall>x \<in> set (concat (map pt_indices pre)). \<forall>y \<in> set (pt_indices k). x < y"
      "\<forall>x \<in> set (pt_indices k). \<forall>y \<in> set (concat (map pt_indices post)). x < y"
    by (auto simp: sorted_wrt_append)
  show "k' \<in> set pre \<Longrightarrow> unat (pt_index k') < unat (pt_index k)"
    using apart(1) pt_index_mem [of k'] pt_index_mem [of k] by auto
  show "k' \<in> set post \<Longrightarrow> i < unat (pt_index k')"
    using apart(2) pt_index_mem [of k'] assms(2) by auto
qed

lemma child_edges_distinct: "distinct (child_edges t)"
proof -
  have "inj_on (of_nat :: nat \<Rightarrow> u8) {0..<unat (pd_edgeCount t)}"
  proof (rule inj_on_inverseI)
    fix k assume "k \<in> {0..<unat (pd_edgeCount t)}"
    then show "unat (of_nat k :: u8) = k" using unat_u8_less [of "pd_edgeCount t"] by (simp add: unat_of_nat)
  qed
  then show ?thesis by (simp add: child_edges_def pd_edge_list_def distinct_map)
qed

text \<open>At one node, the frame takes exactly the branch that holds the target.\<close>

lemma node_branch:
  assumes ok: "pt_ok n (PNode e d ks)" and idx: "concat (map pt_indices ks) = [a..<b]"
    and "unat (frame_target f) \<in> set (concat (map pt_indices ks))" and "frame_target f \<noteq> 0" and "k \<in> set ks"
  shows "(pt_edge k, f) \<in> set (routeDownstream (pd_parent (pdd_discovery d)) f (pdd_discovery d))
    \<longleftrightarrow> unat (frame_target f) \<in> set (pt_indices k)"
proof -
  let ?t = "pdd_discovery d" and ?target = "frame_target f"
  have inv: "pd_inv n ?t" and edges: "map pt_edge ks = child_edges ?t"
    and child: "k' \<in> set ks \<Longrightarrow> pd_childIndex ?t (pt_edge k') = pt_index k'" for k'
    using ok by (auto simp: pdd_inv_def list_all_iff)
  have inj: "inj_on pt_edge (set ks)"
    using child_edges_distinct [of ?t] by (simp add: distinct_map flip: edges)
  obtain k0 where k0: "k0 \<in> set ks" "unat ?target \<in> set (pt_indices k0)" using assms(3) by auto
  obtain pre post where ks: "ks = pre @ k0 # post" using k0(1) by (meson split_list)
  note apart = pt_kids_apart [OF idx [unfolded ks] k0(2)]
  obtain a0 b0 where "pt_indices k0 = [a0..<b0]" using pt_kid_range [OF idx k0(1)] by blast
  then have le: "unat (pt_index k0) \<le> unat ?target" using pt_index_least k0(2) by blast
  have only: "k' = k0" if "best_child ?t ?target (pt_edge k')" "k' \<in> set ks" for k'
  proof -
    have "pt_edge k0 \<in> set (child_edges ?t)" using k0(1) by (simp flip: edges)
    then have "unat (pt_index k') \<le> unat ?target" "unat (pt_index k0) \<le> unat (pt_index k')"
      using that k0(1) le child by (auto simp: best_child_def word_le_nat_alt)
    then show ?thesis using apart [of k'] that(2) ks by auto
  qed
  have "(\<exists>k' \<in> set ks. best_child ?t ?target (pt_edge k')
      \<and> routeDownstream (pd_parent ?t) f ?t = [(pt_edge k', f)])"
  proof -
    have "\<not> (\<forall>e \<in> set (child_edges ?t). \<not> pd_childIndex ?t e \<le> ?target)"
      using k0(1) child le by (force simp: word_le_nat_alt simp flip: edges)
    then obtain e where "best_child ?t ?target e" "routeDownstream (pd_parent ?t) f ?t = [(e, f)]"
      using routeDownstream_addressed [OF inv assms(4)] by blast
    moreover from this have "e \<in> pt_edge ` set ks" by (auto simp: best_child_def simp flip: edges)
    ultimately show ?thesis by auto
  qed
  then have down: "routeDownstream (pd_parent ?t) f ?t = [(pt_edge k0, f)]" using only by auto
  have "unat ?target \<in> set (pt_indices k) \<Longrightarrow> k = k0"
  proof -
    assume t: "unat ?target \<in> set (pt_indices k)"
    obtain a1 b1 where "pt_indices k = [a1..<b1]" using pt_kid_range [OF idx assms(5)] by blast
    then have le1: "unat (pt_index k) \<le> unat ?target" using pt_index_least t by blast
    have "distinct (concat (map pt_indices (pre @ k0 # post)))" using idx unfolding ks by simp
    then have pre: "k \<notin> set pre" using t k0(2) by auto
    then show ?thesis using apart(2) [of k] assms(5) ks le1 by auto
  qed
  then show ?thesis using down k0 assms(5) inj by (auto dest: inj_onD)
qed

lemma pt_ok_node:
  assumes "pt_ok n (PNode e d ks)"
  shows "pd_inv n (pdd_discovery d)" and "pd_hasParent (pdd_discovery d)" and "pdd_assignedIndex d \<noteq> 0"
    and "k \<in> set ks \<Longrightarrow> pt_ok n k" and "map pt_edge ks = child_edges (pdd_discovery d)"
  using assms by (auto simp: pdd_inv_def list_all_iff)

lemma node_visit:
  assumes ok: "pt_ok n (PNode e d ks)" and app: "app_frame f"
  shows "pt_visit f nowMs (PNode e d ks) =
    (pdd_assignedIndex d, frame_target f = 0 \<or> frame_target f = pdd_assignedIndex d)
    # (if frame_target f = pdd_assignedIndex d then []
       else concat (map (\<lambda>k. if (pt_edge k, f) \<in> set (routeDownstream (pd_parent (pdd_discovery d)) f (pdd_discovery d))
              then pt_visit f nowMs k else []) ks))"
  using dispatcher_app_frame [OF app pt_ok_node(3) [OF ok]] pt_ok_node(2) [OF ok]
  by (auto simp: router_onFrameArrived_def)

lemma filter_concat_Nil: "(\<And>x. x \<in> set xs \<Longrightarrow> filter P x = []) \<Longrightarrow> filter P (concat xs) = []"
  by (induction xs) auto

lemma visit_missed:
  assumes "app_frame f" and "frame_target f \<noteq> 0"
  shows "pt_ok n t \<Longrightarrow> unat (frame_target f) \<notin> set (pt_indices t) \<Longrightarrow> filter snd (pt_visit f nowMs t) = []"
proof (induction t rule: ptree.induct)
  case (PNode e d ks)
  have "filter snd (pt_visit f nowMs k) = []" if "k \<in> set ks" for k
    using PNode.IH [OF that] PNode.prems that by (auto simp: list_all_iff)
  then show ?case
    using node_visit [OF PNode.prems(1) assms(1), of nowMs] PNode.prems(2) assms(2)
    by (auto intro!: filter_concat_Nil)
qed

lemma concat_single_branch:
  assumes "ks = pre @ k # post" and "\<And>x. x \<in> set pre \<union> set post \<Longrightarrow> f x = []"
  shows "concat (map f ks) = f k"
proof -
  have nil: "concat (map f pre) = []" "concat (map f post) = []" using assms(2) by auto
  show ?thesis unfolding assms(1) map_append concat_append nil list.map concat.simps by simp
qed

lemma visit_target:
  assumes "app_frame f" and "frame_target f \<noteq> 0"
  shows "pt_ok n t \<Longrightarrow> pt_indices t = [a..<b] \<Longrightarrow> unat (frame_target f) \<in> set (pt_indices t) \<Longrightarrow>
    map fst (pt_visit f nowMs t) = pt_path (frame_target f) t
    \<and> filter snd (pt_visit f nowMs t) = [(frame_target f, True)]"
proof (induction t arbitrary: a b rule: ptree.induct)
  case (PNode e d ks)
  let ?i = "pdd_assignedIndex d" and ?target = "frame_target f"
  show ?case
  proof (cases "?target = ?i")
    case True
    then show ?thesis using node_visit [OF PNode.prems(1) assms(1), of nowMs] by simp
  next
    case False
    then have mem: "unat ?target \<in> set (concat (map pt_indices ks))"
      using PNode.prems(3) by (auto simp: word_unat_eq_iff)
    have idx: "concat (map pt_indices ks) = [Suc a..<b]"
      using PNode.prems(2) by (cases "a < b") (simp_all add: upt_conv_Cons)
    obtain k where k: "k \<in> set ks" "unat ?target \<in> set (pt_indices k)" using mem by auto
    obtain pre post where ks: "ks = pre @ k # post" using k(1) by (meson split_list)
    have distinct: "distinct (concat (map pt_indices (pre @ k # post)))" using idx unfolding ks by simp
    have others: "unat ?target \<notin> set (pt_indices x)" if "x \<in> set pre \<union> set post" for x
      using distinct k(2) that by auto
    note branch = node_branch [OF PNode.prems(1) idx mem assms(2)]
    obtain a' b' where "pt_indices k = [a'..<b']" using pt_kid_range [OF idx k(1)] by blast
    note IH = PNode.IH [OF k(1) pt_ok_node(4) [OF PNode.prems(1) k(1)] this k(2)]
    have "concat (map (\<lambda>k. if (pt_edge k, f) \<in> set (routeDownstream (pd_parent (pdd_discovery d)) f (pdd_discovery d))
        then pt_visit f nowMs k else []) ks) = pt_visit f nowMs k"
      using branch others k by (subst concat_single_branch [OF ks]) (auto simp: ks)
    moreover have "concat (map (\<lambda>k. if unat ?target \<in> set (pt_indices k) then pt_path ?target k else []) ks) =
        pt_path ?target k"
      using others k by (subst concat_single_branch [OF ks]) auto
    ultimately show ?thesis
      using node_visit [OF PNode.prems(1) assms(1), of nowMs] False assms(2) IH by simp
  qed
qed

lemma visit_broadcast:
  assumes "app_frame f" and "frame_target f = 0"
  shows "pt_ok n t \<Longrightarrow> map (\<lambda>(i, act). (unat i, act)) (pt_visit f nowMs t) = map (\<lambda>i. (i, True)) (pt_indices t)"
proof (induction t rule: ptree.induct)
  case (PNode e d ks)
  have "(pt_edge k, f) \<in> set (routeDownstream (pd_parent (pdd_discovery d)) f (pdd_discovery d))" if "k \<in> set ks" for k
    using routeDownstream_broadcast [OF assms(2), of "pdd_discovery d"] that
    by (auto simp: image_iff simp flip: pt_ok_node(5) [OF PNode.prems])
  moreover have "map (\<lambda>(i, act). (unat i, act)) (pt_visit f nowMs k) = map (\<lambda>i. (i, True)) (pt_indices k)"
    if "k \<in> set ks" for k using PNode that pt_ok_node(4) by blast
  ultimately have "map (\<lambda>(i, act). (unat i, act)) (concat (map (\<lambda>k.
      if (pt_edge k, f) \<in> set (routeDownstream (pd_parent (pdd_discovery d)) f (pdd_discovery d))
      then pt_visit f nowMs k else []) ks)) = map (\<lambda>i. (i, True)) (concat (map pt_indices ks))"
    by (simp add: map_concat comp_def cong: map_cong)
  then show ?case
    using node_visit [OF PNode.prems assms(1), of nowMs] assms(2) pt_ok_node(3) [OF PNode.prems] by simp
qed

section \<open>The properties of forwarding\<close>

text \<open>
  The router never sends a frame back out the edge it came in on: a frame from any other edge
  goes to the parent alone; a broadcast from the parent goes once to every connected child edge;
  an addressed one goes to at most one edge, the connected child with the largest recorded index
  that is at most the target, and is dropped when there is none. The flood it falls back to when
  a child has no index is never taken on a panel the discovery driver keeps.
\<close>

theorem router_forwards:
  assumes "pd_inv n t" and "pd_hasParent t"
  shows "(from \<noteq> pd_parent t \<longrightarrow> router_onFrameArrived from f t = [(pd_parent t, f)])
    \<and> (frame_target f = 0 \<longrightarrow> router_onFrameArrived (pd_parent t) f t = map (\<lambda>e. (e, f)) (child_edges t))
    \<and> (frame_target f \<noteq> 0 \<longrightarrow>
         (\<exists>e. best_child t (frame_target f) e \<and> router_onFrameArrived (pd_parent t) f t = [(e, f)])
         \<or> (\<forall>e \<in> set (child_edges t). \<not> pd_childIndex t e \<le> frame_target f)
           \<and> router_onFrameArrived (pd_parent t) f t = [])"
proof -
  have "pd_isConnected t (pd_parent t)" using assms by (simp add: pd_inv_def pd_isConnected_def pd_edgeState_def)
  then show ?thesis
    using assms(2) routeDownstream_broadcast [of f t] routeDownstream_addressed [OF assms(1), of f]
    by (auto simp: router_onFrameArrived_def)
qed

text \<open>A panel with three edges that adopted an index on edge 0 and has found two children.\<close>

definition demo_table :: "(u8 \<times> u16) list \<Rightarrow> PanelDiscovery" where
  "demo_table children =
     fold (\<lambda>(e, i) t. pd_onChildProbeAccepted e i t) children (snd (pd_onParentOffer 0 (pd_init 3)))"

definition demo_panel :: "u16 \<Rightarrow> (u8 \<times> u16) list \<Rightarrow> PanelDiscoveryDriver" where
  "demo_panel i children = (pdd_init (demo_table children))\<lparr>pdd_assignedIndex := i\<rparr>"

lemma accepted_fold_inv:
  "pd_inv n t \<Longrightarrow> pd_hasParent t \<Longrightarrow> list_all (\<lambda>(e, i). e < n \<and> e \<noteq> pd_parent t \<and> i \<noteq> 0) children \<Longrightarrow>
   pd_inv n (fold (\<lambda>(e, i) t. pd_onChildProbeAccepted e i t) children t)
   \<and> pd_hasParent (fold (\<lambda>(e, i) t. pd_onChildProbeAccepted e i t) children t)"
proof (induction children arbitrary: t)
  case (Cons c cs)
  obtain e i where c: "c = (e, i)" by force
  have "pd_inv n (pd_onChildProbeAccepted e i t)" using Cons.prems c by (intro pd_inv_accepted) auto
  then show ?case using Cons.IH [of "pd_onChildProbeAccepted e i t"] Cons.prems c by simp
qed simp

lemma demo_table_inv:
  assumes "list_all (\<lambda>(e, i). e < 3 \<and> e \<noteq> 0 \<and> i \<noteq> 0) children"
  shows "pd_inv 3 (demo_table children) \<and> pd_hasParent (demo_table children)"
proof -
  let ?t = "snd (pd_onParentOffer 0 (pd_init 3))"
  have "pd_inv 3 (pd_init 3)" using pdd_inv_init [of 3] by (simp add: pdd_inv_def pdd_init_def MAX_EDGES_def)
  from pd_inv_offer(1,3) [OF this, of 0] have "pd_inv 3 ?t" "pd_hasParent ?t" by simp_all
  moreover have "pd_parent ?t = 0" by (simp add: pd_onParentOffer_def pd_init_def)
  ultimately show ?thesis using accepted_fold_inv [of 3 ?t children] assms by (simp add: demo_table_def)
qed

theorem router_forwards_witness:
  "let t = demo_table [(1, 2), (2, 9)]; f = makePacket PACKET_FETCH_STATE 5 Meta_Only in
    (2 \<noteq> pd_parent t \<longrightarrow> router_onFrameArrived 2 f t = [(pd_parent t, f)])
    \<and> (frame_target f = 0 \<longrightarrow> router_onFrameArrived (pd_parent t) f t = map (\<lambda>e. (e, f)) (child_edges t))
    \<and> (frame_target f \<noteq> 0 \<longrightarrow>
         (\<exists>e. best_child t (frame_target f) e \<and> router_onFrameArrived (pd_parent t) f t = [(e, f)])
         \<or> (\<forall>e \<in> set (child_edges t). \<not> pd_childIndex t e \<le> frame_target f)
           \<and> router_onFrameArrived (pd_parent t) f t = [])"
proof -
  have "pd_inv 3 (demo_table [(1, 2), (2, 9)])" "pd_hasParent (demo_table [(1, 2), (2, 9)])"
    using demo_table_inv [of "[(1, 2), (2, 9)]"] by simp_all
  then show ?thesis unfolding Let_def by (rule router_forwards)
qed


lemma demo_panel_inv:
  "list_all (\<lambda>(e, i). e < 3 \<and> e \<noteq> 0 \<and> i \<noteq> 0) children \<Longrightarrow> i \<noteq> 0 \<Longrightarrow> pdd_inv 3 (demo_panel i children)"
  using demo_table_inv [of children] by (simp add: demo_panel_def pdd_inv_def pdd_init_def pdd_isProbing_def)

definition demo_tree :: ptree where
  "demo_tree = PNode 0 (demo_panel 1 [(1, 2), (2, 3)]) [PNode 1 (demo_panel 2 []) [], PNode 2 (demo_panel 3 []) []]"


end
