(* ===== verification/Discovery_Coordinator.thy ===== *)
theory Discovery_Coordinator
  imports Packet_Structs
begin

text \<open>
  The controller's half of discovery: \<open>DiscoveryCoordinator\<close>, the depth-first walk over a resume
  stack, and \<open>DiscoveryTreeBuilder\<close>, the flat list of panels and links it accumulates
  (\<open>Core/Relay/DiscoveryCoordinator.cpp\<close>, \<open>DiscoveryTreeBuilder.cpp\<close>). Frames sent on the
  controller's one trunk edge are returned as a list.
\<close>

section \<open>The tree builder\<close>

record TopoLink =
  panelA :: u8
  edgeA :: u8
  panelB :: u8
  edgeB :: u8

text \<open>The arrays as lists of their entries in use; the counts are the lengths.\<close>

record DiscoveryTreeBuilder =
  tb_edgeCountPerPanel :: u8
  tb_indices :: "u8 list"
  tb_edgeCounts :: "u8 list"
  tb_links :: "TopoLink list"

definition tb_init :: "u8 \<Rightarrow> DiscoveryTreeBuilder" where
  "tb_init n = \<lparr>tb_edgeCountPerPanel = n, tb_indices = [], tb_edgeCounts = [], tb_links = []\<rparr>"

definition tb_reset :: "DiscoveryTreeBuilder \<Rightarrow> DiscoveryTreeBuilder" where
  "tb_reset b = b\<lparr>tb_indices := [], tb_edgeCounts := [], tb_links := []\<rparr>"

definition tb_panelCount :: "DiscoveryTreeBuilder \<Rightarrow> nat" where
  "tb_panelCount b = length (tb_indices b)"

definition tb_linkCount :: "DiscoveryTreeBuilder \<Rightarrow> nat" where
  "tb_linkCount b = length (tb_links b)"

definition tb_recordPanel :: "u16 \<Rightarrow> DiscoveryTreeBuilder \<Rightarrow> DiscoveryTreeBuilder" where
  "tb_recordPanel panelIndex b =
     (if LIGHTNET_MAX_PANELS \<le> tb_panelCount b then b
      else b\<lparr>tb_indices := tb_indices b @ [ucast panelIndex],
             tb_edgeCounts := tb_edgeCounts b @ [tb_edgeCountPerPanel b]\<rparr>)"

definition tb_addRoot :: "u16 \<Rightarrow> DiscoveryTreeBuilder \<Rightarrow> DiscoveryTreeBuilder" where
  "tb_addRoot panelIndex b = tb_recordPanel panelIndex b"

definition tb_addLink :: "u16 \<Rightarrow> u16 \<Rightarrow> u16 \<Rightarrow> u16 \<Rightarrow> DiscoveryTreeBuilder \<Rightarrow> DiscoveryTreeBuilder" where
  "tb_addLink parentIndex parentEdge childIndex childEdge b =
     (let b1 = tb_recordPanel childIndex b
      in if LIGHTNET_MAX_PANELS \<le> tb_linkCount b1 then b1
         else b1\<lparr>tb_links := tb_links b1 @
           [\<lparr>panelA = ucast parentIndex, edgeA = ucast parentEdge,
             panelB = ucast childIndex, edgeB = ucast childEdge\<rparr>]\<rparr>)"

section \<open>The coordinator\<close>

definition ROOT_TIMEOUT_MS :: u32 where "ROOT_TIMEOUT_MS = 3000"
definition WALK_STALL_TIMEOUT_MS :: u32 where "WALK_STALL_TIMEOUT_MS = 2000"
definition ROOT_RETRY_INTERVAL_MS :: u32 where "ROOT_RETRY_INTERVAL_MS = 200"
definition ADVANCE_RETRY_INTERVAL_MS :: u32 where "ADVANCE_RETRY_INTERVAL_MS = 200"
definition TRUNK_EDGE :: u16 where "TRUNK_EDGE = 0"

text \<open>\<open>dc_stack\<close> lists the resume stack in use, bottom first; \<open>stackDepth\<close> is its length.\<close>

record DiscoveryCoordinator =
  dc_treeBuilder :: "DiscoveryTreeBuilder option"
  dc_nextPanelIndex :: u16
  dc_frontierPanelIndex :: u16
  dc_stack :: "u16 list"
  dc_complete :: bool
  dc_walkStalled :: bool
  dc_beginMs :: u32
  dc_lastRootPullMs :: u32
  dc_lastProgressMs :: u32
  dc_lastAdvanceMs :: u32

definition dc_init :: "DiscoveryTreeBuilder option \<Rightarrow> DiscoveryCoordinator" where
  "dc_init builder =
     \<lparr>dc_treeBuilder = builder, dc_nextPanelIndex = 1, dc_frontierPanelIndex = 0, dc_stack = [],
      dc_complete = False, dc_walkStalled = False, dc_beginMs = 0, dc_lastRootPullMs = 0,
      dc_lastProgressMs = 0, dc_lastAdvanceMs = 0\<rparr>"

definition dc_sendRootPull :: "u32 \<Rightarrow> DiscoveryCoordinator \<Rightarrow> u8 list list \<times> DiscoveryCoordinator" where
  "dc_sendRootPull nowMs c =
     ([makePacket PACKET_INITIALIZATION_PULL 0
         (Initialization_Pull \<lparr>pull_panelIndex = dc_nextPanelIndex c, pull_parentEdgeIndex = TRUNK_EDGE\<rparr>)],
      c\<lparr>dc_lastRootPullMs := nowMs\<rparr>)"

definition dc_begin :: "u32 \<Rightarrow> DiscoveryCoordinator \<Rightarrow> u8 list list \<times> DiscoveryCoordinator" where
  "dc_begin nowMs c =
     dc_sendRootPull nowMs (c\<lparr>dc_beginMs := nowMs, dc_lastProgressMs := nowMs, dc_walkStalled := False\<rparr>)"

definition dc_sendAdvance :: "u16 \<Rightarrow> u32 \<Rightarrow> DiscoveryCoordinator \<Rightarrow> u8 list list \<times> DiscoveryCoordinator" where
  "dc_sendAdvance target nowMs c =
     ([makePacket PACKET_DISCOVERY_ADVANCE target (Discovery_Advance \<lparr>adv_assignIndex = dc_nextPanelIndex c\<rparr>)],
      c\<lparr>dc_lastAdvanceMs := nowMs\<rparr>)"

definition dc_handleRegisterEdgeReply ::
  "PacketRegisterEdge \<Rightarrow> u32 \<Rightarrow> DiscoveryCoordinator \<Rightarrow> u8 list list \<times> DiscoveryCoordinator" where
  "dc_handleRegisterEdgeReply reply nowMs c =
     (if reg_panelIndex reply = DISCOVERY_REJECTED_INDEX then ([], c)
      else if reg_panelIndex reply \<noteq> dc_nextPanelIndex c then ([], c)
      else if LIGHTNET_MAX_PANELS < unat (dc_nextPanelIndex c) \<or> LIGHTNET_MAX_PANELS \<le> length (dc_stack c) then ([], c)
      else
        (let builder = map_option
               (if dc_frontierPanelIndex c = 0 then tb_addRoot (reg_panelIndex reply)
                else tb_addLink (dc_frontierPanelIndex c) (reg_parentEdgeIndex reply)
                       (reg_panelIndex reply) (reg_edgeIndex reply))
               (dc_treeBuilder c);
             c1 = c\<lparr>dc_lastProgressMs := nowMs, dc_treeBuilder := builder,
                    dc_stack := dc_stack c @ [dc_frontierPanelIndex c],
                    dc_frontierPanelIndex := reg_panelIndex reply,
                    dc_nextPanelIndex := dc_nextPanelIndex c + 1\<rparr>
         in dc_sendAdvance (dc_frontierPanelIndex c1) nowMs c1))"

definition dc_handleDiscoveryDone ::
  "PacketDiscoveryDone \<Rightarrow> u32 \<Rightarrow> DiscoveryCoordinator \<Rightarrow> u8 list list \<times> DiscoveryCoordinator" where
  "dc_handleDiscoveryDone reply nowMs c =
     (if done_panelIndex reply \<noteq> dc_frontierPanelIndex c then ([], c)
      else
        (let c1 = c\<lparr>dc_lastProgressMs := nowMs\<rparr>
         in if dc_stack c1 = [] then ([], c1\<lparr>dc_complete := True\<rparr>)
            else
              (let resumeTarget = last (dc_stack c1);
                   c2 = c1\<lparr>dc_stack := butlast (dc_stack c1)\<rparr>
               in if resumeTarget = 0 then ([], c2\<lparr>dc_complete := True\<rparr>)
                  else dc_sendAdvance resumeTarget nowMs (c2\<lparr>dc_frontierPanelIndex := resumeTarget\<rparr>))))"

definition dc_onFrameArrived :: "u8 list \<Rightarrow> u32 \<Rightarrow> DiscoveryCoordinator \<Rightarrow> u8 list list \<times> DiscoveryCoordinator" where
  "dc_onFrameArrived frame nowMs c =
     (case packetType_of (frame_type frame) of
        Some PACKET_REGISTER_EDGE \<Rightarrow> dc_handleRegisterEdgeReply (get_RegisterEdge (frame_payload frame)) nowMs c
      | Some PACKET_DISCOVERY_DONE \<Rightarrow> dc_handleDiscoveryDone (get_DiscoveryDone (frame_payload frame)) nowMs c
      | _ \<Rightarrow> ([], c))"

definition dc_tick :: "u32 \<Rightarrow> DiscoveryCoordinator \<Rightarrow> u8 list list \<times> DiscoveryCoordinator" where
  "dc_tick nowMs c =
     (if dc_complete c then ([], c)
      else if dc_frontierPanelIndex c = 0 then
        (if ROOT_TIMEOUT_MS \<le> nowMs - dc_beginMs c then ([], c\<lparr>dc_complete := True\<rparr>)
         else if ROOT_RETRY_INTERVAL_MS \<le> nowMs - dc_lastRootPullMs c then dc_sendRootPull nowMs c
         else ([], c))
      else if WALK_STALL_TIMEOUT_MS \<le> nowMs - dc_lastProgressMs c then
        ([], c\<lparr>dc_complete := True, dc_walkStalled := True\<rparr>)
      else if ADVANCE_RETRY_INTERVAL_MS \<le> nowMs - dc_lastAdvanceMs c then
        dc_sendAdvance (dc_frontierPanelIndex c) nowMs c
      else ([], c))"

section \<open>A walk\<close>

datatype walk_event = Walk_Frame "u8 list" u32 | Walk_Tick u32

fun dc_step :: "walk_event \<Rightarrow> DiscoveryCoordinator \<Rightarrow> u8 list list \<times> DiscoveryCoordinator" where
  "dc_step (Walk_Frame frame nowMs) c = dc_onFrameArrived frame nowMs c"
| "dc_step (Walk_Tick nowMs) c = dc_tick nowMs c"

fun dc_run :: "walk_event list \<Rightarrow> DiscoveryCoordinator \<Rightarrow> DiscoveryCoordinator" where
  "dc_run [] c = c"
| "dc_run (e # es) c = dc_run es (snd (dc_step e c))"

text \<open>The coordinator from its construction on: one begin, then any frames and ticks.\<close>

inductive walk_reachable :: "u8 \<Rightarrow> DiscoveryCoordinator \<Rightarrow> bool" for n where
  started: "walk_reachable n (snd (dc_begin nowMs (dc_init (Some (tb_init n)))))"
| stepped: "walk_reachable n c \<Longrightarrow> walk_reachable n (snd (dc_step e c))"

text \<open>The panels below a panel, by the links.\<close>

inductive below :: "TopoLink list \<Rightarrow> nat \<Rightarrow> nat \<Rightarrow> bool" for ls where
  below_refl: "below ls j j"
| below_link: "below ls j (unat (panelA l)) \<Longrightarrow> l \<in> set ls \<Longrightarrow> below ls j (unat (panelB l))"

definition tree_inv :: "nat \<Rightarrow> DiscoveryTreeBuilder \<Rightarrow> bool" where
  "tree_inv next b \<longleftrightarrow>
     map unat (tb_indices b) = [1..<next]
     \<and> tb_edgeCounts b = replicate (next - 1) (tb_edgeCountPerPanel b)
     \<and> map (unat \<circ> panelB) (tb_links b) = [2..<next]
     \<and> (\<forall>l \<in> set (tb_links b). 0 < unat (panelA l) \<and> unat (panelA l) < unat (panelB l)
          \<and> below (tb_links b) (unat (panelA l)) (unat (panelB l) - 1))"

text \<open>
  The resume stack is the path to the frontier: strictly increasing, each entry above the next,
  and the newest panel below the frontier.
\<close>

definition dc_inv :: "DiscoveryCoordinator \<Rightarrow> bool" where
  "dc_inv c \<longleftrightarrow>
     (let next = unat (dc_nextPanelIndex c); path = map unat (dc_stack c @ [dc_frontierPanelIndex c])
      in 1 \<le> next \<and> next \<le> Suc LIGHTNET_MAX_PANELS
         \<and> sorted_wrt (<) path \<and> unat (dc_frontierPanelIndex c) < next
         \<and> (dc_frontierPanelIndex c = 0 \<longrightarrow> next = 1)
         \<and> (\<forall>b. dc_treeBuilder c = Some b \<longrightarrow> tree_inv next b
              \<and> sorted_wrt (\<lambda>i j. i \<noteq> 0 \<longrightarrow> below (tb_links b) i j) path
              \<and> (dc_frontierPanelIndex c \<noteq> 0 \<longrightarrow>
                   below (tb_links b) (unat (dc_frontierPanelIndex c)) (next - 1))))"

lemma below_mono: "below ls j k \<Longrightarrow> below (ls @ ls') j k"
  by (induction rule: below.induct) (auto intro: below.intros)

lemma below_trans: "below ls j k \<Longrightarrow> below ls i j \<Longrightarrow> below ls i k"
  by (induction rule: below.induct) (auto intro: below.intros)

lemma path_bound: "sorted_wrt (<) (xs @ [x]) \<Longrightarrow> length xs \<le> (x :: nat)"
proof (induction xs arbitrary: x rule: rev_induct)
  case (snoc y ys)
  then have "length ys \<le> y" "y < x" by (simp_all add: sorted_wrt_append)
  then show ?case by simp
qed simp

lemma dc_stack_bounded: "dc_inv c \<Longrightarrow> length (dc_stack c) \<le> unat (dc_frontierPanelIndex c)
    \<and> length (dc_stack c) < unat (dc_nextPanelIndex c)"
  using path_bound [of "map unat (dc_stack c)" "unat (dc_frontierPanelIndex c)"]
  by (auto simp: dc_inv_def Let_def)

lemma tree_inv_addRoot: "tree_inv 1 b \<Longrightarrow> tree_inv 2 (tb_addRoot 1 b)"
  by (simp add: tree_inv_def tb_addRoot_def tb_recordPanel_def tb_panelCount_def LIGHTNET_MAX_PANELS_def upt_rec)

lemma tb_links_addRoot: "tb_links (tb_addRoot i b) = tb_links b"
  by (simp add: tb_addRoot_def tb_recordPanel_def)

lemma tree_inv_addLink:
  assumes inv: "tree_inv next b" and nx: "2 \<le> next" "next \<le> LIGHTNET_MAX_PANELS"
    and child: "unat childIndex = next" and parent: "0 < unat parentIndex" "unat parentIndex < next"
    and below: "below (tb_links b) (unat parentIndex) (next - 1)"
  shows "tree_inv (Suc next) (tb_addLink parentIndex parentEdge childIndex childEdge b)"
    and "tb_links (tb_addLink parentIndex parentEdge childIndex childEdge b) = tb_links b @
      [\<lparr>panelA = ucast parentIndex, edgeA = ucast parentEdge, panelB = ucast childIndex, edgeB = ucast childEdge\<rparr>]"
proof -
  let ?l = "\<lparr>panelA = ucast parentIndex, edgeA = ucast parentEdge, panelB = ucast childIndex, edgeB = ucast childEdge\<rparr> :: TopoLink"
  let ?b' = "tb_addLink parentIndex parentEdge childIndex childEdge b"
  have lens: "length (tb_indices b) = next - 1" "length (tb_links b) = next - 2"
    using inv length_map [of unat "tb_indices b"] length_map [of "unat \<circ> panelB" "tb_links b"]
    by (simp_all add: tree_inv_def del: length_map)
  have small: "unat (ucast childIndex :: u8) = next" "unat (ucast parentIndex :: u8) = unat parentIndex"
    using child parent nx by (simp_all add: unat_ucast_u16_u8 LIGHTNET_MAX_PANELS_def)
  have b': "?b' = b\<lparr>tb_indices := tb_indices b @ [ucast childIndex],
      tb_edgeCounts := tb_edgeCounts b @ [tb_edgeCountPerPanel b], tb_links := tb_links b @ [?l]\<rparr>"
    using lens nx by (simp add: tb_addLink_def tb_recordPanel_def tb_panelCount_def tb_linkCount_def Let_def)
  show links: "tb_links ?b' = tb_links b @ [?l]" by (simp add: b')
  have "replicate (next - 1) x @ [x] = replicate next x" for x :: u8
    using nx by (cases "next") (simp_all add: replicate_append_same)
  moreover have "below (tb_links b @ [?l]) (unat (panelA l)) (unat (panelB l) - 1)"
    if "l \<in> set (tb_links b @ [?l])" for l
    using that inv below small by (auto simp: tree_inv_def intro: below_mono)
  ultimately show "tree_inv (Suc next) ?b'"
    using inv nx small parent unfolding tree_inv_def b' by (auto simp: upt_Suc)
qed

lemma dc_inv_begin: "dc_inv (snd (dc_begin nowMs (dc_init (Some (tb_init n)))))"
  by (simp add: dc_inv_def dc_begin_def dc_sendRootPull_def dc_init_def tb_init_def tree_inv_def LIGHTNET_MAX_PANELS_def)

lemma dc_inv_cong:
  "dc_inv c \<Longrightarrow> dc_treeBuilder c' = dc_treeBuilder c \<Longrightarrow> dc_nextPanelIndex c' = dc_nextPanelIndex c \<Longrightarrow>
   dc_frontierPanelIndex c' = dc_frontierPanelIndex c \<Longrightarrow> dc_stack c' = dc_stack c \<Longrightarrow> dc_inv c'"
  by (simp add: dc_inv_def)

lemma dc_inv_tick: "dc_inv c \<Longrightarrow> dc_inv (snd (dc_tick nowMs c))"
  by (erule dc_inv_cong) (simp_all add: dc_tick_def dc_sendRootPull_def dc_sendAdvance_def)

lemma sorted_wrt_snoc: "sorted_wrt P (xs @ [x]) \<longleftrightarrow> sorted_wrt P xs \<and> (\<forall>y \<in> set xs. P y x)"
  by (auto simp: sorted_wrt_append)

lemma dc_inv_done: "dc_inv c \<Longrightarrow> dc_inv (snd (dc_handleDiscoveryDone reply nowMs c))"
proof (cases "done_panelIndex reply \<noteq> dc_frontierPanelIndex c \<or> dc_stack c = [] \<or> last (dc_stack c) = 0")
  case inv: True
  assume "dc_inv c"
  show ?thesis
  proof (cases "done_panelIndex reply \<noteq> dc_frontierPanelIndex c \<or> dc_stack c = []")
    case True
    then show ?thesis using \<open>dc_inv c\<close> by (auto simp: dc_handleDiscoveryDone_def intro: dc_inv_cong)
  next
    case False
    then obtain ys y where s: "dc_stack c = ys @ [y]" by (metis append_butlast_last_id)
    then have "y = 0" using inv False by simp
    then show ?thesis
      using False \<open>dc_inv c\<close> s
      by (auto simp: dc_handleDiscoveryDone_def dc_inv_def Let_def sorted_wrt_snoc sorted_wrt_append)
  qed
next
  case False
  assume inv: "dc_inv c"
  obtain ys y where s: "dc_stack c = ys @ [y]" using False by (metis append_butlast_last_id)
  show ?thesis
    using False inv s
    by (auto simp: dc_handleDiscoveryDone_def dc_sendAdvance_def dc_inv_def Let_def sorted_wrt_snoc sorted_wrt_append
        word_eq_unat unat_0 intro: below_trans)
qed

lemma dc_inv_register: "dc_inv c \<Longrightarrow> dc_inv (snd (dc_handleRegisterEdgeReply reply nowMs c))"
proof (cases "reg_panelIndex reply = DISCOVERY_REJECTED_INDEX \<or> reg_panelIndex reply \<noteq> dc_nextPanelIndex c
    \<or> LIGHTNET_MAX_PANELS < unat (dc_nextPanelIndex c) \<or> LIGHTNET_MAX_PANELS \<le> length (dc_stack c)")
  case True
  then show "dc_inv c \<Longrightarrow> ?thesis" by (auto simp: dc_handleRegisterEdgeReply_def)
next
  case False
  assume inv: "dc_inv c"
  let ?next = "unat (dc_nextPanelIndex c)" and ?f = "dc_frontierPanelIndex c"
  have next1: "unat (dc_nextPanelIndex c + 1) = Suc ?next"
    using False by (intro unat_add_one_u16) (simp add: LIGHTNET_MAX_PANELS_def)
  have idx: "reg_panelIndex reply = dc_nextPanelIndex c" and cap: "?next \<le> LIGHTNET_MAX_PANELS"
    using False by auto
  have step: "snd (dc_handleRegisterEdgeReply reply nowMs c) =
      c\<lparr>dc_lastProgressMs := nowMs,
        dc_treeBuilder := map_option
          (if ?f = 0 then tb_addRoot (dc_nextPanelIndex c)
           else tb_addLink ?f (reg_parentEdgeIndex reply) (dc_nextPanelIndex c) (reg_edgeIndex reply)) (dc_treeBuilder c),
        dc_stack := dc_stack c @ [?f], dc_frontierPanelIndex := dc_nextPanelIndex c,
        dc_nextPanelIndex := dc_nextPanelIndex c + 1, dc_lastAdvanceMs := nowMs\<rparr>"
    using False by (cases c) (simp add: dc_handleRegisterEdgeReply_def dc_sendAdvance_def Let_def)
  show ?thesis
  proof (cases "?f = 0")
    case root: True
    then have n1: "dc_nextPanelIndex c = 1" using inv by (simp add: dc_inv_def Let_def word_eq_unat)
    then have "dc_stack c = []" using dc_stack_bounded [OF inv] by simp
    then show ?thesis
      using inv root n1 tree_inv_addRoot
      unfolding step by (auto simp: dc_inv_def Let_def LIGHTNET_MAX_PANELS_def intro: below_refl)
  next
    case False
    have f: "0 < unat ?f" "unat ?f < ?next" and path: "sorted_wrt (<) (map unat (dc_stack c @ [?f]))"
      using inv False by (simp_all add: dc_inv_def Let_def word_eq_unat)
    have builder: "tree_inv (Suc ?next) b' \<and> sorted_wrt (\<lambda>i j. i \<noteq> 0 \<longrightarrow> below (tb_links b') i j)
          (map unat ((dc_stack c @ [?f]) @ [dc_nextPanelIndex c]))"
      if b: "dc_treeBuilder c = Some b"
        and b': "b' = tb_addLink ?f (reg_parentEdgeIndex reply) (dc_nextPanelIndex c) (reg_edgeIndex reply) b" for b b'
    proof -
      have t: "tree_inv ?next b" and chain: "sorted_wrt (\<lambda>i j. i \<noteq> 0 \<longrightarrow> below (tb_links b) i j) (map unat (dc_stack c @ [?f]))"
        and low: "below (tb_links b) (unat ?f) (?next - 1)"
        using inv b False by (auto simp: dc_inv_def Let_def)
      have "2 \<le> ?next" using f by simp
      note new = tree_inv_addLink [OF t this cap refl f low]
      let ?ls = "tb_links b'"
      obtain l where l: "l \<in> set ?ls" "unat (panelA l) = unat ?f" "unat (panelB l) = ?next"
      proof -
        have "unat (ucast ?f :: u8) = unat ?f" "unat (ucast (dc_nextPanelIndex c) :: u8) = ?next"
          using f cap by (simp_all add: unat_ucast_u16_u8 LIGHTNET_MAX_PANELS_def)
        then show ?thesis
          using new(2)
          by (intro that [of "\<lparr>panelA = ucast ?f, edgeA = ucast (reg_parentEdgeIndex reply),
                panelB = ucast (dc_nextPanelIndex c), edgeB = ucast (reg_edgeIndex reply)\<rparr>"]) (simp_all add: b')
      qed
      have sub: "below (tb_links b) i j \<Longrightarrow> below ?ls i j" for i j
        using new(2) below_mono unfolding b' by simp
      have top: "below ?ls (unat ?f) ?next" using below_link [OF below_refl l(1)] l(2,3) by simp
      have "sorted_wrt (\<lambda>i j. i \<noteq> 0 \<longrightarrow> below ?ls i j) (map unat (dc_stack c @ [?f]))"
        using chain by (rule sorted_wrt_mono_rel [rotated]) (use sub in blast)
      moreover have "below ?ls i ?next" if "i \<in> set (map unat (dc_stack c @ [?f]))" "i \<noteq> 0" for i
      proof -
        have "below ?ls i (unat ?f)"
          using that chain sub by (auto simp: sorted_wrt_append intro: below_refl)
        then show ?thesis using top below_trans by blast
      qed
      ultimately have "sorted_wrt (\<lambda>i j. i \<noteq> 0 \<longrightarrow> below ?ls i j) (map unat (dc_stack c @ [?f]) @ [?next])"
        unfolding sorted_wrt_snoc by blast
      then show ?thesis using new(1) unfolding b' by simp
    qed
    have "dc_nextPanelIndex c \<noteq> 0" using f by (auto simp: word_eq_unat)
    moreover have "sorted_wrt (<) (map unat ((dc_stack c @ [?f]) @ [dc_nextPanelIndex c]))"
      using path f(2) by (auto simp: sorted_wrt_append)
    ultimately show ?thesis
      using False next1 cap builder unfolding step dc_inv_def Let_def
      by (auto simp del: map_append intro: below_refl)
  qed
qed

lemma dc_inv_step: "dc_inv c \<Longrightarrow> dc_inv (snd (dc_step e c))"
proof (cases e)
  case (Walk_Frame frame nowMs)
  assume "dc_inv c"
  with Walk_Frame show ?thesis
    using dc_inv_register dc_inv_done
    by (auto simp: dc_onFrameArrived_def split: option.split packetType_t.split)
qed (simp add: dc_inv_tick)

lemma reachable_inv: "walk_reachable n c \<Longrightarrow> dc_inv c \<and> dc_treeBuilder c \<noteq> None"
proof (induction rule: walk_reachable.induct)
  case (started nowMs)
  show ?case using dc_inv_begin by (simp add: dc_begin_def dc_sendRootPull_def dc_init_def)
next
  case (stepped c e)
  have "dc_treeBuilder (snd (dc_step e c)) \<noteq> None"
    using stepped.IH
    by (cases e) (auto simp: dc_onFrameArrived_def dc_tick_def dc_sendRootPull_def dc_sendAdvance_def
        dc_handleRegisterEdgeReply_def dc_handleDiscoveryDone_def Let_def split: option.splits packetType_t.split)
  then show ?case using stepped.IH dc_inv_step by simp
qed

section \<open>Pre-order numbering\<close>

lemma below_le: "tree_inv next b \<Longrightarrow> below (tb_links b) j k \<Longrightarrow> j \<le> k"
proof (rotate_tac, induction rule: below.induct)
  case (below_link j l)
  then have "unat (panelA l) < unat (panelB l)" by (simp add: tree_inv_def)
  then show ?case using below_link by simp
qed simp

lemma below_pred:
  assumes "tree_inv next b" and "below (tb_links b) j k" and "j < k"
  shows "below (tb_links b) j (k - 1)"
  using assms(2)
proof cases
  case below_refl
  then show ?thesis using assms(3) by simp
next
  case (below_link l)
  then have "below (tb_links b) (unat (panelA l)) (k - 1)" using assms(1) by (auto simp: tree_inv_def)
  then show ?thesis using below_link(2) below_trans by blast
qed

lemma below_contiguous:
  assumes "tree_inv next b" and "below (tb_links b) j k" and "j \<le> m" and "m \<le> k"
  shows "below (tb_links b) j m"
proof -
  have "below (tb_links b) j (k - i)" if "i \<le> k - j" for i
    using that
  proof (induction i)
    case (Suc i)
    then have "below (tb_links b) j (k - i)" "j < k - i" by simp_all
    from below_pred [OF assms(1) this] show ?case by simp
  qed (simp add: assms(2))
  from this [of "k - m"] show ?thesis using assms(3,4) by simp
qed

section \<open>Progress\<close>

text \<open>
  The frames that move the walk: an accepted registration or the frontier's report. Each costs at
  least one of a budget that starts at twice the panel limit.
\<close>

definition walk_budget :: "DiscoveryCoordinator \<Rightarrow> nat" where
  "walk_budget c = 2 * (Suc LIGHTNET_MAX_PANELS - unat (dc_nextPanelIndex c)) + length (dc_stack c)"

definition walk_moved :: "DiscoveryCoordinator \<Rightarrow> DiscoveryCoordinator \<Rightarrow> bool" where
  "walk_moved c c' \<longleftrightarrow> dc_nextPanelIndex c' \<noteq> dc_nextPanelIndex c \<or> length (dc_stack c') \<noteq> length (dc_stack c)"

fun walk_moves :: "walk_event list \<Rightarrow> DiscoveryCoordinator \<Rightarrow> nat" where
  "walk_moves [] c = 0"
| "walk_moves (e # es) c =
     (let c' = snd (dc_step e c) in (if walk_moved c c' then 1 else 0) + walk_moves es c')"

lemma walk_step_budget:
  assumes "dc_inv c"
  shows "walk_budget (snd (dc_step e c)) + (if walk_moved c (snd (dc_step e c)) then 1 else 0) \<le> walk_budget c"
proof -
  have reg: "walk_budget (snd (dc_handleRegisterEdgeReply r t c)) + (if walk_moved c (snd (dc_handleRegisterEdgeReply r t c)) then 1 else 0)
      \<le> walk_budget c" for r t
  proof (cases "unat (dc_nextPanelIndex c) \<le> LIGHTNET_MAX_PANELS")
    case True
    then have "unat (dc_nextPanelIndex c + 1) = Suc (unat (dc_nextPanelIndex c))"
      by (intro unat_add_one_u16) (simp add: LIGHTNET_MAX_PANELS_def)
    then show ?thesis using True
      by (auto simp: dc_handleRegisterEdgeReply_def dc_sendAdvance_def Let_def walk_budget_def walk_moved_def)
  qed (auto simp: dc_handleRegisterEdgeReply_def walk_moved_def)
  have don: "walk_budget (snd (dc_handleDiscoveryDone r t c)) + (if walk_moved c (snd (dc_handleDiscoveryDone r t c)) then 1 else 0)
      \<le> walk_budget c" for r t
    by (auto simp: dc_handleDiscoveryDone_def dc_sendAdvance_def Let_def walk_budget_def walk_moved_def)
  show ?thesis
  proof (cases e)
    case (Walk_Frame f t)
    have none: "walk_budget c + (if walk_moved c c then 1 else 0) \<le> walk_budget c" by (simp add: walk_moved_def)
    show ?thesis
    proof (cases "packetType_of (frame_type f)")
      case None
      then show ?thesis using Walk_Frame none by (simp add: dc_onFrameArrived_def)
    next
      case (Some ty)
      then show ?thesis
        using Walk_Frame none reg [of "get_RegisterEdge (frame_payload f)" t] don [of "get_DiscoveryDone (frame_payload f)" t]
        by (cases ty) (simp_all add: dc_onFrameArrived_def)
    qed
  next
    case (Walk_Tick t)
    then show ?thesis
      by (auto simp: dc_tick_def dc_sendRootPull_def dc_sendAdvance_def walk_budget_def walk_moved_def)
  qed
qed

lemma walk_moves_budget: "dc_inv c \<Longrightarrow> walk_moves es c \<le> walk_budget c"
proof (induction es arbitrary: c)
  case (Cons e es)
  then show ?case
    using walk_step_budget [OF Cons.prems, of e] Cons.IH [OF dc_inv_step [OF Cons.prems], of e]
    by (simp add: Let_def split: if_splits)
qed simp

section \<open>The properties of the walk\<close>

text \<open>
  C15. Whatever frames and ticks reach the coordinator, in whatever order and however often, the
  resume stack stays within its array (strictly increasing below the frontier, so the guard on its
  depth never decides), and the tree it has built numbers the panels 1, 2, ... in pre-order: one
  link per panel but the first, each to a smaller parent index, and the panels below any panel are
  a contiguous range of indices that starts with its own.
\<close>

theorem walk_builds_preorder_tree:
  assumes "walk_reachable n c"
  shows "\<exists>b. dc_treeBuilder c = Some b
    \<and> length (dc_stack c) \<le> unat (dc_frontierPanelIndex c)
    \<and> unat (dc_frontierPanelIndex c) < unat (dc_nextPanelIndex c)
    \<and> unat (dc_nextPanelIndex c) \<le> Suc LIGHTNET_MAX_PANELS
    \<and> sorted_wrt (<) (map unat (dc_stack c @ [dc_frontierPanelIndex c]))
    \<and> map unat (tb_indices b) = [1..<unat (dc_nextPanelIndex c)]
    \<and> map (unat \<circ> panelB) (tb_links b) = [2..<unat (dc_nextPanelIndex c)]
    \<and> list_all (\<lambda>l. 0 < unat (panelA l) \<and> unat (panelA l) < unat (panelB l)) (tb_links b)
    \<and> (\<forall>j k m. below (tb_links b) j k \<longrightarrow> j \<le> m \<longrightarrow> m \<le> k \<longrightarrow> below (tb_links b) j m)"
proof -
  have inv: "dc_inv c" using reachable_inv [OF assms] by simp
  obtain b where b: "dc_treeBuilder c = Some b" using reachable_inv [OF assms] by blast
  have tree: "tree_inv (unat (dc_nextPanelIndex c)) b" using inv b by (simp add: dc_inv_def Let_def)
  then show ?thesis
    using inv b dc_stack_bounded [OF inv] below_contiguous [OF tree]
    by (intro exI [of _ b]) (auto simp: dc_inv_def Let_def tree_inv_def list_all_iff)
qed

theorem walk_builds_preorder_tree_witness:
  "let c = snd (dc_step (Walk_Frame (makePacket PACKET_REGISTER_EDGE 0
       (Register_Edge \<lparr>reg_panelIndex = 1, reg_edgeIndex = 2, reg_parentEdgeIndex = 0\<rparr>)) 50)
       (snd (dc_begin 0 (dc_init (Some (tb_init 3))))))
   in \<exists>b. dc_treeBuilder c = Some b
    \<and> length (dc_stack c) \<le> unat (dc_frontierPanelIndex c)
    \<and> unat (dc_frontierPanelIndex c) < unat (dc_nextPanelIndex c)
    \<and> unat (dc_nextPanelIndex c) \<le> Suc LIGHTNET_MAX_PANELS
    \<and> sorted_wrt (<) (map unat (dc_stack c @ [dc_frontierPanelIndex c]))
    \<and> map unat (tb_indices b) = [1..<unat (dc_nextPanelIndex c)]
    \<and> map (unat \<circ> panelB) (tb_links b) = [2..<unat (dc_nextPanelIndex c)]
    \<and> list_all (\<lambda>l. 0 < unat (panelA l) \<and> unat (panelA l) < unat (panelB l)) (tb_links b)
    \<and> (\<forall>j k m. below (tb_links b) j k \<longrightarrow> j \<le> m \<longrightarrow> m \<le> k \<longrightarrow> below (tb_links b) j m)"
  unfolding Let_def by (rule walk_builds_preorder_tree, rule walk_reachable.stepped, rule walk_reachable.started)

text \<open>
  C16. The walk always ends: of any frames and ticks, duplicates included, at most twice the panel
  limit move it (everything else leaves the stack and the next index as they are), a tick with the
  root timeout or the stall timeout elapsed completes it (stalled exactly when a panel had
  registered), and once complete it stays complete.
\<close>

theorem walk_ends:
  assumes "walk_reachable n c"
  shows "walk_moves es c \<le> 2 * Suc LIGHTNET_MAX_PANELS
    \<and> (dc_frontierPanelIndex c = 0 \<and> ROOT_TIMEOUT_MS \<le> now - dc_beginMs c
        \<or> dc_frontierPanelIndex c \<noteq> 0 \<and> WALK_STALL_TIMEOUT_MS \<le> now - dc_lastProgressMs c
       \<longrightarrow> dc_complete (snd (dc_tick now c))
         \<and> (\<not> dc_complete c \<longrightarrow> dc_walkStalled (snd (dc_tick now c)) =
              (dc_walkStalled c \<or> dc_frontierPanelIndex c \<noteq> 0)))
    \<and> (dc_complete c \<longrightarrow> dc_complete (dc_run es c))"
proof -
  have inv: "dc_inv c" using reachable_inv [OF assms] by simp
  have "walk_budget c \<le> 2 * Suc LIGHTNET_MAX_PANELS"
  proof -
    have "length (dc_stack c) < unat (dc_nextPanelIndex c)" "unat (dc_nextPanelIndex c) \<le> Suc LIGHTNET_MAX_PANELS"
      using dc_stack_bounded [OF inv] inv by (simp_all add: dc_inv_def Let_def)
    then show ?thesis by (simp add: walk_budget_def)
  qed
  then have moves: "walk_moves es c \<le> 2 * Suc LIGHTNET_MAX_PANELS"
    using walk_moves_budget [OF inv, of es] by simp
  have stay: "dc_complete d \<Longrightarrow> dc_complete (snd (dc_step e d))" for d e
    by (cases e) (auto simp: dc_onFrameArrived_def dc_tick_def dc_handleRegisterEdgeReply_def dc_handleDiscoveryDone_def
        dc_sendAdvance_def Let_def split: option.split packetType_t.split)
  have "dc_complete d \<Longrightarrow> dc_complete (dc_run es d)" for d
    by (induction es arbitrary: d) (simp_all add: stay)
  then show ?thesis using moves by (auto simp: dc_tick_def)
qed

theorem walk_ends_witness:
  "let c = snd (dc_begin 100 (dc_init (Some (tb_init 3)))) in
   walk_moves [Walk_Tick 200] c \<le> 2 * Suc LIGHTNET_MAX_PANELS \<and> dc_complete (snd (dc_tick 3100 c))"
proof -
  let ?c = "snd (dc_begin 100 (dc_init (Some (tb_init 3))))"
  have "dc_frontierPanelIndex ?c = 0 \<and> ROOT_TIMEOUT_MS \<le> 3100 - dc_beginMs ?c"
    by (simp add: dc_begin_def dc_sendRootPull_def dc_init_def ROOT_TIMEOUT_MS_def)
  then show ?thesis
    using walk_ends [OF walk_reachable.started, of "[Walk_Tick 200]" 100 3 3100] unfolding Let_def by blast
qed

end
