(* ===== verification/Insertion_Sort.thy ===== *)
theory Insertion_Sort
  imports "HOL-Library.Multiset"
begin

text \<open>
  The insertion sort the firmware writes out in several places: an element is taken from the array and the
  larger ones below it are shifted up one by one until its place is found. Only strictly larger keys are
  shifted, so the result is the stable sort of the library.
\<close>

fun insert_down :: "('a \<Rightarrow> 'k::linorder) \<Rightarrow> 'a \<Rightarrow> nat \<Rightarrow> 'a list \<Rightarrow> 'a list" where
  "insert_down f x 0 xs = xs[0 := x]"
| "insert_down f x (Suc j) xs = (if f x < f (xs ! j) then insert_down f x j (xs[Suc j := xs ! j]) else xs[Suc j := x])"

definition insertion_sort :: "('a \<Rightarrow> 'k::linorder) \<Rightarrow> 'a list \<Rightarrow> 'a list" where
  "insertion_sort f xs = fold (\<lambda>i xs. insert_down f (xs ! i) i xs) [1..<length xs] xs"

lemma insert_down_spec:
  "sorted (map f pre) \<Longrightarrow>
   insert_down f tmp (length pre) (pre @ hole # post) =
     filter (\<lambda>l. f l \<le> f tmp) pre @ tmp
     # filter (\<lambda>l. \<not> f l \<le> f tmp) pre @ post"
proof (induction pre arbitrary: hole post rule: rev_induct)
  case (snoc y pre)
  have sorted: "sorted (map f pre)" using snoc.prems by (simp add: sorted_append)
  show ?case
  proof (cases "f tmp < f y")
    case True
    then have "\<not> f y \<le> f tmp" by simp
    then show ?thesis using True snoc.IH [OF sorted, of y "y # post"] by (simp add: nth_append list_update_append)
  next
    case False
    then have "l \<in> set pre \<Longrightarrow> f l \<le> f tmp" for l
      using snoc.prems by (force simp: sorted_append)
    then have "filter (\<lambda>l. f l \<le> f tmp) pre = pre"
      "filter (\<lambda>l. \<not> f l \<le> f tmp) pre = []"
      by (simp_all add: filter_id_conv filter_empty_conv)
    moreover have le: "f y \<le> f tmp" using False by simp
    ultimately show ?thesis by (simp add: nth_append list_update_append leD [OF le] le)
  qed
qed simp

lemma sort_key_snoc:
  "sort_key f (xs @ [x]) =
     filter (\<lambda>y. f y \<le> f x) (sort_key f xs) @ x # filter (\<lambda>y. \<not> f y \<le> f x) (sort_key f xs)"
proof (rule properties_for_sort_key)
  let ?s = "sort_key f xs"
  show "mset (filter (\<lambda>y. f y \<le> f x) ?s @ x # filter (\<lambda>y. \<not> f y \<le> f x) ?s) = mset (xs @ [x])"
    by (simp add: mset_filter flip: multiset_partition)
  fix k
  have stable: "filter (\<lambda>y. f k = f y) ?s = filter (\<lambda>y. f k = f y) xs" by (simp add: sort_key_stable eq_commute [of "f k"])
  show "filter (\<lambda>y. f k = f y) (filter (\<lambda>y. f y \<le> f x) ?s @ x # filter (\<lambda>y. \<not> f y \<le> f x) ?s) =
      filter (\<lambda>y. f k = f y) (xs @ [x])"
  proof (cases "f k \<le> f x")
    case True
    then have "filter (\<lambda>y. f k = f y) (filter (\<lambda>y. f y \<le> f x) ?s) = filter (\<lambda>y. f k = f y) ?s"
      "filter (\<lambda>y. f k = f y) (filter (\<lambda>y. \<not> f y \<le> f x) ?s) = []"
      by (auto simp: filter_empty_conv intro: filter_cong)
    then show ?thesis using stable by (simp, auto simp: filter_empty_conv)
  next
    case False
    then have "filter (\<lambda>y. f k = f y) (filter (\<lambda>y. f y \<le> f x) ?s) = []"
      "filter (\<lambda>y. f k = f y) (filter (\<lambda>y. \<not> f y \<le> f x) ?s) = filter (\<lambda>y. f k = f y) ?s"
      by (auto simp: filter_empty_conv intro: filter_cong)
    moreover have "f k \<noteq> f x" using False by auto
    ultimately show ?thesis using stable by simp
  qed
next
  show "sorted (map f (filter (\<lambda>y. f y \<le> f x) (sort_key f xs) @ x # filter (\<lambda>y. \<not> f y \<le> f x) (sort_key f xs)))"
    by (auto simp: sorted_append sorted_filter)
qed

lemma insertion_sort_steps:
  assumes "i \<le> length ls" and "0 < i"
  shows "fold (\<lambda>i ls. insert_down f (ls ! i) i ls) [1..<i] ls = sort_key f (take i ls) @ drop i ls"
  using assms
proof (induction i)
  case (Suc i)
  show ?case
  proof (cases "i = 0")
    case True
    then show ?thesis using Suc.prems by (cases ls) simp_all
  next
    case False
    let ?s = "sort_key f (take i ls)"
    have i: "i < length ls" using Suc.prems by simp
    have len: "length ?s = i" using i by simp
    have drop: "drop i ls = ls ! i # drop (Suc i) ls" using i by (rule Cons_nth_drop_Suc [symmetric])
    have "fold (\<lambda>i ls. insert_down f (ls ! i) i ls) [1..<Suc i] ls = insert_down f (ls ! i) i (?s @ drop i ls)"
      using Suc.IH i False len by (simp add: drop nth_append)
    also have "\<dots> = sort_key f (take i ls @ [ls ! i]) @ drop (Suc i) ls"
      using insert_down_spec [of f ?s "ls ! i" "ls ! i" "drop (Suc i) ls"]
      unfolding len drop sort_key_snoc by simp
    also have "take i ls @ [ls ! i] = take (Suc i) ls" using i by (simp add: take_Suc_conv_app_nth)
    finally show ?thesis .
  qed
qed simp

lemma insertion_sort_stable: "insertion_sort f xs = sort_key f xs"
proof (cases "xs = []")
  case False
  then show ?thesis using insertion_sort_steps [of "length xs" xs f] by (simp add: insertion_sort_def)
qed (simp add: insertion_sort_def)

lemma sort_key_unique:
  assumes "mset xs = mset ys" and "distinct (map f xs)"
  shows "sort_key f xs = sort_key f ys"
proof (rule properties_for_sort_key)
  show "mset (sort_key f ys) = mset xs" using assms(1) by simp
  show "sorted (map f (sort_key f ys))" by simp
  fix k assume "k \<in> set (sort_key f ys)"
  have "distinct (map f ys)"
    using assms by (metis mset_map mset_eq_imp_distinct_iff)
  have one: "filter (\<lambda>y. f k = f y) zs = [k]" if "distinct (map f zs)" "k \<in> set zs" for zs
    using that by (induction zs) (auto simp: filter_empty_conv rev_image_eqI)
  show "filter (\<lambda>y. f k = f y) (sort_key f ys) = filter (\<lambda>y. f k = f y) xs"
    using one [of xs] one [of ys] assms \<open>distinct (map f ys)\<close> \<open>k \<in> set (sort_key f ys)\<close> mset_eq_setD [OF assms(1)]
    by (simp add: sort_key_stable eq_commute [of "f k"])
qed

end
