(* ===== verification/Color_Model.thy ===== *)
theory Color_Model
  imports Packet_Structs Insertion_Sort
begin

text \<open>
  Colour arithmetic shared by the panel and the controller: palette sampling
  (\<open>Core/Common/Palette.hpp\<close>), blending, the modifiers and the layer fold
  (\<open>Core/Panel/ColorCompose.hpp\<close>), the built-in palette and the blend default
  (\<open>UserColors.hpp\<close>, \<open>AnimationTypes.hpp\<close>). Unsigned intermediate values stay below
  \<open>2 ^ 16\<close> and are written as naturals; the signed ones are computed in the target's \<open>int\<close>, whose
  width is the argument \<open>w\<close> (32 on the controller and in the simulator, 16 on the AVR panel, where
  a product that does not fit wraps).
\<close>

section \<open>Mixing two channels\<close>

text \<open>\<open>(uint8_t)(a + ((b - a) * f) / 255)\<close>, as the code writes it in several places.\<close>

definition mix_channel :: "nat \<Rightarrow> u8 \<Rightarrow> u8 \<Rightarrow> u8 \<Rightarrow> u8" where
  "mix_channel w a b f = word_of_int (uint a + c_int w ((uint b - uint a) * uint f) sdiv 255)"

section \<open>Palettes\<close>

function palette_scan :: "GradientStop list \<Rightarrow> nat \<Rightarrow> u8 \<Rightarrow> nat \<Rightarrow> nat" where
  "palette_scan stops cnt pos i =
     (if i + 1 < cnt \<and> gs_pos (stops ! (i + 1)) \<le> pos then palette_scan stops cnt pos (i + 1) else i)"

  by pat_completeness auto
termination
  by (relation "measure (\<lambda>(stops, cnt, pos, i). cnt - i)") auto

declare palette_scan.simps [simp del]

definition stop_rgb :: "GradientStop \<Rightarrow> ColorRGB" where
  "stop_rgb s = rgb (gs_r s) (gs_g s) (gs_b s)"

definition samplePalette :: "nat \<Rightarrow> GradientStop list \<Rightarrow> nat \<Rightarrow> u8 \<Rightarrow> ColorRGB" where
  "samplePalette w stops cnt pos =
     (if cnt = 0 then rgb 0xFF 0xFF 0xFF
      else if cnt = 1 \<or> pos \<le> gs_pos (stops ! 0) then stop_rgb (stops ! 0)
      else if gs_pos (stops ! (cnt - 1)) \<le> pos then stop_rgb (stops ! (cnt - 1))
      else
        (let i = palette_scan stops cnt pos 0; a = stops ! i; b = stops ! (i + 1);
             span = gs_pos b - gs_pos a
         in if span = 0 then stop_rgb a
            else
              (let frac_q8 = (of_nat ((unat (pos - gs_pos a) * 255) div unat span) :: u8)
               in rgb (mix_channel w (gs_r a) (gs_r b) frac_q8)
                      (mix_channel w (gs_g a) (gs_g b) frac_q8)
                      (mix_channel w (gs_b a) (gs_b b) frac_q8))))"

definition buildUserColors :: "ColorRGB list \<Rightarrow> GradientStop list" where
  "buildUserColors baseColors =
     map (\<lambda>(p, c). \<lparr>gs_pos = p, gs_r = rgb_r c, gs_g = rgb_g c, gs_b = rgb_b c\<rparr>)
       [(0, baseColors ! 0), (128, baseColors ! 1), (255, baseColors ! 2)]"

section \<open>Blending\<close>

type_synonym RGB8 = ColorRGB

datatype ComposeOp = CO_DEFAULT | CO_OPAQUE | CO_ADD | CO_MAX | CO_MULTIPLY | CO_SCREEN | CO_DARKEN | CO_OVERLAY
  | CO_DIFFERENCE | CO_SUBTRACT

text \<open>The operation a byte selects; the switch falls to its default for any other byte.\<close>

definition ComposeOp_of :: "u8 \<Rightarrow> ComposeOp option" where
  "ComposeOp_of b =
     map_of (zip [0, 1, 2, 3, 4, 5, 6, 7, 8, 9]
       [CO_DEFAULT, CO_OPAQUE, CO_ADD, CO_MAX, CO_MULTIPLY, CO_SCREEN, CO_DARKEN, CO_OVERLAY, CO_DIFFERENCE, CO_SUBTRACT]) b"

definition cc_clampAdd :: "u8 \<Rightarrow> u8 \<Rightarrow> u8" where
  "cc_clampAdd a b = (let s = unat a + unat b in if 255 < s then 255 else of_nat s)"

definition cc_mul :: "u8 \<Rightarrow> u8 \<Rightarrow> u8" where
  "cc_mul a b = of_nat ((unat a * unat b) div 255)"

definition cc_screen :: "u8 \<Rightarrow> u8 \<Rightarrow> u8" where
  "cc_screen a b = 255 - cc_mul (255 - a) (255 - b)"

definition cc_max :: "u8 \<Rightarrow> u8 \<Rightarrow> u8" where
  "cc_max a b = (if b < a then a else b)"

definition cc_min :: "u8 \<Rightarrow> u8 \<Rightarrow> u8" where
  "cc_min a b = (if a < b then a else b)"

definition cc_overlay :: "u8 \<Rightarrow> u8 \<Rightarrow> u8" where
  "cc_overlay a b =
     (if a < 128 then of_nat ((2 * unat a * unat b) div 255)
      else of_nat (255 - (2 * (255 - unat a) * (255 - unat b)) div 255))"

definition cc_diff :: "u8 \<Rightarrow> u8 \<Rightarrow> u8" where
  "cc_diff a b = (if b < a then a - b else b - a)"

definition cc_sub :: "u8 \<Rightarrow> u8 \<Rightarrow> u8" where
  "cc_sub a b = (if b < a then a - b else 0)"

definition per_channel :: "(u8 \<Rightarrow> u8 \<Rightarrow> u8) \<Rightarrow> RGB8 \<Rightarrow> RGB8 \<Rightarrow> RGB8" where
  "per_channel f a b = rgb (f (rgb_r a) (rgb_r b)) (f (rgb_g a) (rgb_g b)) (f (rgb_b a) (rgb_b b))"

definition composeColor :: "RGB8 \<Rightarrow> RGB8 \<Rightarrow> u8 \<Rightarrow> RGB8" where
  "composeColor acc src c_op =
     (case ComposeOp_of c_op of
        Some CO_ADD \<Rightarrow> per_channel cc_clampAdd acc src
      | Some CO_MAX \<Rightarrow> per_channel cc_max acc src
      | Some CO_MULTIPLY \<Rightarrow> per_channel cc_mul acc src
      | Some CO_SCREEN \<Rightarrow> per_channel cc_screen acc src
      | Some CO_DARKEN \<Rightarrow> per_channel cc_min acc src
      | Some CO_OVERLAY \<Rightarrow> per_channel cc_overlay acc src
      | Some CO_DIFFERENCE \<Rightarrow> per_channel cc_diff acc src
      | Some CO_SUBTRACT \<Rightarrow> per_channel cc_sub acc src
      | Some CO_OPAQUE \<Rightarrow> src
      | _ \<Rightarrow> src)"

definition resolveComposeMode :: "u8 \<Rightarrow> bool \<Rightarrow> u8" where
  "resolveComposeMode blend runnerDefaultMax =
     (if blend = 0 then (if runnerDefaultMax then 3 else 1) else blend)"

section \<open>Hue, saturation, value\<close>

record HSV8 =
  hsv_h :: u8
  hsv_s :: u8
  hsv_v :: u8

definition rgb2hsv :: "RGB8 \<Rightarrow> HSV8" where
  "rgb2hsv c =
     (let mx = cc_max (cc_max (rgb_r c) (rgb_g c)) (rgb_b c);
          mn = (if rgb_r c < rgb_g c then (if rgb_r c < rgb_b c then rgb_r c else rgb_b c)
                else (if rgb_g c < rgb_b c then rgb_g c else rgb_b c))
      in if mx = 0 then \<lparr>hsv_h = 0, hsv_s = 0, hsv_v = mx\<rparr>
         else
           (let delta = mx - mn; s = of_nat ((unat delta * 255) div unat mx)
            in if delta = 0 then \<lparr>hsv_h = 0, hsv_s = s, hsv_v = mx\<rparr>
               else
                 (let r = uint (rgb_r c); g = uint (rgb_g c); b = uint (rgb_b c); d = uint delta;
                      h = (if mx = rgb_r c then ((g - b) * 43) sdiv d
                           else if mx = rgb_g c then 85 + ((b - r) * 43) sdiv d
                           else 171 + ((r - g) * 43) sdiv d)
                  in \<lparr>hsv_h = word_of_int h, hsv_s = s, hsv_v = mx\<rparr>)))"

definition hsv2rgb :: "HSV8 \<Rightarrow> RGB8" where
  "hsv2rgb c =
     (if hsv_s c = 0 then rgb (hsv_v c) (hsv_v c) (hsv_v c)
      else
        (let h = unat (hsv_h c); s = unat (hsv_s c); v = unat (hsv_v c);
             region = h div 43;
             remainder = unat (of_nat ((h - region * 43) * 6) :: u8);
             p = of_nat (v * (255 - s) div 255);
             q = of_nat (v * (255 - s * remainder div 255) div 255);
             t = of_nat (v * (255 - s * (255 - remainder) div 255) div 255)
         in if region = 0 then rgb (hsv_v c) t p
            else if region = 1 then rgb q (hsv_v c) p
            else if region = 2 then rgb p (hsv_v c) t
            else if region = 3 then rgb p q (hsv_v c)
            else if region = 4 then rgb t p (hsv_v c)
            else rgb (hsv_v c) p q))"

section \<open>Modifiers\<close>

definition modDim :: "RGB8 \<Rightarrow> u8 \<Rightarrow> RGB8" where
  "modDim acc v = rgb (cc_mul (rgb_r acc) v) (cc_mul (rgb_g acc) v) (cc_mul (rgb_b acc) v)"

definition modDesaturate :: "RGB8 \<Rightarrow> u8 \<Rightarrow> RGB8" where
  "modDesaturate acc v =
     (if v = 255 then acc
      else (let h = rgb2hsv acc in hsv2rgb (h\<lparr>hsv_s := cc_mul (hsv_s h) v\<rparr>)))"

definition modBrighten :: "nat \<Rightarrow> RGB8 \<Rightarrow> u8 \<Rightarrow> RGB8" where
  "modBrighten w acc v =
     (if v = 0 then acc
      else rgb (mix_channel w (rgb_r acc) 255 v) (mix_channel w (rgb_g acc) 255 v) (mix_channel w (rgb_b acc) 255 v))"

definition modSaturate :: "nat \<Rightarrow> RGB8 \<Rightarrow> u8 \<Rightarrow> RGB8" where
  "modSaturate w acc v =
     (if v = 0 then acc
      else (let h = rgb2hsv acc
            in if hsv_s h = 0 then acc
               else hsv2rgb (h\<lparr>hsv_s := mix_channel w (hsv_s h) 255 v\<rparr>)))"

definition modHueShift :: "RGB8 \<Rightarrow> u8 \<Rightarrow> RGB8" where
  "modHueShift acc v =
     (if v = 0 then acc else (let h = rgb2hsv acc in hsv2rgb (h\<lparr>hsv_h := hsv_h h + v\<rparr>)))"

definition modInvert :: "nat \<Rightarrow> RGB8 \<Rightarrow> u8 \<Rightarrow> RGB8" where
  "modInvert w acc v =
     (if v = 0 then acc
      else (let inv = rgb (255 - rgb_r acc) (255 - rgb_g acc) (255 - rgb_b acc)
            in if v = 255 then inv
               else rgb (mix_channel w (rgb_r acc) (rgb_r inv) v)
                        (mix_channel w (rgb_g acc) (rgb_g inv) v)
                        (mix_channel w (rgb_b acc) (rgb_b inv) v)))"

section \<open>The layer fold\<close>

datatype ModOp = MO_DIM | MO_DESATURATE | MO_HUE | MO_INVERT | MO_BRIGHTEN | MO_SATURATE

fun ModOp_code :: "ModOp \<Rightarrow> u8" where
  "ModOp_code MO_DIM = 0"
| "ModOp_code MO_DESATURATE = 1"
| "ModOp_code MO_HUE = 2"
| "ModOp_code MO_INVERT = 3"
| "ModOp_code MO_BRIGHTEN = 4"
| "ModOp_code MO_SATURATE = 5"

record CompositeLayer =
  cl_composeOrder :: u8
  cl_isModifier :: bool
  cl_op :: u8
  cl_value :: u8
  cl_color :: RGB8

definition applyLayer :: "nat \<Rightarrow> CompositeLayer \<Rightarrow> RGB8 \<Rightarrow> RGB8" where
  "applyLayer w l acc =
     (if cl_isModifier l then
        (if cl_op l = ModOp_code MO_DIM then modDim acc (cl_value l)
         else if cl_op l = ModOp_code MO_DESATURATE then modDesaturate acc (cl_value l)
         else if cl_op l = ModOp_code MO_HUE then modHueShift acc (cl_value l)
         else if cl_op l = ModOp_code MO_INVERT then modInvert w acc (cl_value l)
         else if cl_op l = ModOp_code MO_BRIGHTEN then modBrighten w acc (cl_value l)
         else if cl_op l = ModOp_code MO_SATURATE then modSaturate w acc (cl_value l)
         else acc)
      else composeColor acc (cl_color l) (cl_op l))"

definition sortLayers :: "CompositeLayer list \<Rightarrow> CompositeLayer list" where
  "sortLayers ls = insertion_sort cl_composeOrder ls"

definition foldLayers :: "nat \<Rightarrow> CompositeLayer list \<Rightarrow> RGB8 \<Rightarrow> RGB8" where
  "foldLayers w ls base = fold (applyLayer w) (sortLayers ls) base"

section \<open>Mixing\<close>

lemma uint_u8: "0 \<le> uint (a :: u8)" "uint (a :: u8) \<le> 255"
  using uint_nonnegative [of a] uint_lt2p [of a] by simp_all

lemma mix_product: "\<bar>(uint (b :: u8) - uint (a :: u8)) * uint (f :: u8)\<bar> \<le> 255 * 255"
  unfolding abs_mult using uint_u8 [of a] uint_u8 [of b] uint_u8 [of f]
  by (intro mult_mono) (linarith | simp add: abs_if)+

lemma uint_word_of_int_u8: "0 \<le> x \<Longrightarrow> x \<le> 255 \<Longrightarrow> uint (word_of_int x :: u8) = x"
  by (simp add: uint_word_of_int_eq take_bit_int_eq_self)

lemma mix_step:
  assumes "0 \<le> (d :: int)" and "0 \<le> f" and "f \<le> 255"
  shows "0 \<le> d * f div 255" and "d * f div 255 \<le> d"
proof -
  have "d * f \<le> d * 255" using assms by (intro mult_left_mono)
  then show "d * f div 255 \<le> d" by (metis zdiv_mono1 nonzero_mult_div_cancel_right zero_less_numeral zero_neq_numeral)
  show "0 \<le> d * f div 255" using assms by (simp add: pos_imp_zdiv_nonneg_iff)
qed

lemma mix_32_up:
  assumes "a \<le> b"
  shows "uint (mix_channel 32 a b f) = uint a + (uint b - uint a) * uint f div 255"
proof -
  have ab: "0 \<le> uint b - uint a" using assms by (simp add: word_le_def)
  note st = mix_step [OF ab uint_u8 [of f]]
  have c: "c_int 32 ((uint b - uint a) * uint f) = (uint b - uint a) * uint f"
    using mix_product [of b a f] by (intro c_int_32) simp_all
  have d: "((uint b - uint a) * uint f) sdiv 255 = (uint b - uint a) * uint f div 255"
    by (intro sdiv_nonneg mult_nonneg_nonneg ab uint_u8) simp
  have "mix_channel 32 a b f = word_of_int (uint a + (uint b - uint a) * uint f div 255)"
    unfolding mix_channel_def c d by (rule refl)
  moreover have "0 \<le> uint a + (uint b - uint a) * uint f div 255" "uint a + (uint b - uint a) * uint f div 255 \<le> 255"
    using st uint_u8 [of a] uint_u8 [of b] by linarith+
  ultimately show ?thesis by (simp only: uint_word_of_int_u8)
qed

lemma mix_32_down:
  assumes "b \<le> a"
  shows "uint (mix_channel 32 a b f) = uint a - (uint a - uint b) * uint f div 255"
proof -
  have ab: "0 \<le> uint a - uint b" using assms by (simp add: word_le_def)
  note st = mix_step [OF ab uint_u8 [of f]]
  have c: "c_int 32 ((uint b - uint a) * uint f) = (uint b - uint a) * uint f"
    using mix_product [of b a f] by (intro c_int_32) simp_all
  have "(uint b - uint a) * uint f \<le> 0"
    by (intro mult_nonpos_nonneg uint_u8) (use ab in linarith)
  moreover have neg: "- ((uint b - uint a) * uint f) = (uint a - uint b) * uint f" by (simp add: algebra_simps)
  ultimately have d: "((uint b - uint a) * uint f) sdiv 255 = - ((uint a - uint b) * uint f div 255)"
    by (simp only: sdiv_nonpos zero_less_numeral neg)
  have "mix_channel 32 a b f = word_of_int (uint a - (uint a - uint b) * uint f div 255)"
    unfolding mix_channel_def c d by (simp only: add_uminus_conv_diff)
  moreover have "0 \<le> uint a - (uint a - uint b) * uint f div 255" "uint a - (uint a - uint b) * uint f div 255 \<le> 255"
    using st uint_u8 [of a] uint_u8 [of b] by linarith+
  ultimately show ?thesis by (simp only: uint_word_of_int_u8)
qed

definition between_u8 :: "u8 \<Rightarrow> u8 \<Rightarrow> u8 \<Rightarrow> bool" where
  "between_u8 a b x \<longleftrightarrow> cc_min a b \<le> x \<and> x \<le> cc_max a b"

lemma mix_between: "between_u8 a b (mix_channel 32 a b f)"
proof (cases "a \<le> b")
  case True
  then show ?thesis
    using mix_32_up [OF True, of f] mix_step [of "uint b - uint a" "uint f"] uint_u8 [of f]
    by (auto simp: between_u8_def cc_min_def cc_max_def word_le_def word_less_def)
next
  case False
  then have ba: "b \<le> a" by simp
  then show ?thesis
    using mix_32_down [OF ba, of f] mix_step [of "uint a - uint b" "uint f"] uint_u8 [of f]
    by (auto simp: between_u8_def cc_min_def cc_max_def word_le_def word_less_def)
qed

lemma mix_ends: "mix_channel w a b 0 = a" "mix_channel 32 a b 255 = b"
proof -
  show "mix_channel w a b 0 = a" by (simp add: mix_channel_def c_int_def signed_divide_int_def)
  show "mix_channel 32 a b 255 = b"
    using mix_32_up [of a b 255] mix_32_down [of b a 255]
    by (cases "a \<le> b") (simp_all add: word_uint_eq_iff)
qed

section \<open>The sort of the fold\<close>

lemma sortLayers_stable: "sortLayers ls = sort_key cl_composeOrder ls"
  by (simp add: sortLayers_def insertion_sort_stable)

section \<open>Palettes\<close>

definition palette_ok :: "GradientStop list \<Rightarrow> nat \<Rightarrow> bool" where
  "palette_ok stops cnt \<longleftrightarrow>
     0 < cnt \<and> cnt \<le> length stops \<and> sorted_wrt (\<lambda>a b. gs_pos a < gs_pos b) (take cnt stops)"

lemma palette_ok_less: "palette_ok stops cnt \<Longrightarrow> i < j \<Longrightarrow> j < cnt \<Longrightarrow> gs_pos (stops ! i) < gs_pos (stops ! j)"
  using sorted_wrt_nth_less [of "\<lambda>a b. gs_pos a < gs_pos b" "take cnt stops" i j] by (simp add: palette_ok_def)

lemma palette_ok_le: "palette_ok stops cnt \<Longrightarrow> i \<le> j \<Longrightarrow> j < cnt \<Longrightarrow> gs_pos (stops ! i) \<le> gs_pos (stops ! j)"
  using palette_ok_less [of stops cnt i j] by (cases "i = j") (auto intro: less_imp_le)

lemma palette_scan_finds:
  assumes "palette_ok stops cnt" and "i + 1 < cnt" and "gs_pos (stops ! i) \<le> pos" and "pos < gs_pos (stops ! (i + 1))"
    and "j \<le> i"
  shows "palette_scan stops cnt pos j = i"
  using assms(5)
proof (induction "i - j" arbitrary: j)
  case 0
  then show ?case using assms(4) by (subst palette_scan.simps) (auto simp: not_le [symmetric])
next
  case (Suc d)
  then have "gs_pos (stops ! (j + 1)) \<le> gs_pos (stops ! i)"
    using assms(1,2) by (intro palette_ok_le [OF assms(1)]) (simp_all add: Suc_lessD)
  then have "gs_pos (stops ! (j + 1)) \<le> pos" using assms(3) by simp
  moreover have "palette_scan stops cnt pos (j + 1) = i" "j + 1 < cnt" using Suc(2,3) assms(2) Suc(1) [of "j + 1"] by simp_all
  ultimately show ?case by (simp add: palette_scan.simps [of stops cnt pos j])
qed

lemma samplePalette_low:
  "palette_ok stops cnt \<Longrightarrow> pos \<le> gs_pos (stops ! 0) \<Longrightarrow> samplePalette w stops cnt pos = stop_rgb (stops ! 0)"
  by (simp add: samplePalette_def palette_ok_def)

lemma samplePalette_high:
  assumes ok: "palette_ok stops cnt" and pos: "gs_pos (stops ! (cnt - 1)) \<le> pos"
  shows "samplePalette w stops cnt pos = stop_rgb (stops ! (cnt - 1))"
proof (cases "cnt = 1")
  case False
  then have "gs_pos (stops ! 0) < gs_pos (stops ! (cnt - 1))"
    using ok by (intro palette_ok_less [OF ok]) (auto simp: palette_ok_def)
  then show ?thesis using pos False ok by (auto simp: samplePalette_def palette_ok_def)
qed (use ok in \<open>simp add: samplePalette_def\<close>)

lemma samplePalette_segment:
  assumes ok: "palette_ok stops cnt" and i: "i + 1 < cnt"
    and lo: "gs_pos (stops ! i) \<le> pos" and hi: "pos < gs_pos (stops ! (i + 1))"
  obtains f where "samplePalette w stops cnt pos =
      rgb (mix_channel w (gs_r (stops ! i)) (gs_r (stops ! (i + 1))) f)
          (mix_channel w (gs_g (stops ! i)) (gs_g (stops ! (i + 1))) f)
          (mix_channel w (gs_b (stops ! i)) (gs_b (stops ! (i + 1))) f)"
    and "pos = gs_pos (stops ! i) \<Longrightarrow> f = 0"
proof (cases "pos \<le> gs_pos (stops ! 0)")
  case True
  then have "i = 0" using lo palette_ok_less [OF ok, of 0 i] i by (cases i) auto
  then show thesis using that [of 0] samplePalette_low [OF ok True] by (simp add: mix_ends stop_rgb_def)
next
  case False
  have "gs_pos (stops ! (i + 1)) \<le> gs_pos (stops ! (cnt - 1))" using i by (intro palette_ok_le [OF ok]) auto
  then have last: "\<not> gs_pos (stops ! (cnt - 1)) \<le> pos" using hi by auto
  have span: "gs_pos (stops ! (i + 1)) - gs_pos (stops ! i) \<noteq> 0" using lo hi by auto
  have scan: "palette_scan stops cnt pos 0 = i" using palette_scan_finds [OF ok i lo hi] by simp
  show thesis
    using that [of "of_nat ((unat (pos - gs_pos (stops ! i)) * 255) div unat (gs_pos (stops ! (i + 1)) - gs_pos (stops ! i)))"]
      False last span i scan by (auto simp: samplePalette_def Let_def)
qed

definition between_rgb :: "ColorRGB \<Rightarrow> ColorRGB \<Rightarrow> ColorRGB \<Rightarrow> bool" where
  "between_rgb a b x \<longleftrightarrow>
     between_u8 (rgb_r a) (rgb_r b) (rgb_r x) \<and> between_u8 (rgb_g a) (rgb_g b) (rgb_g x)
     \<and> between_u8 (rgb_b a) (rgb_b b) (rgb_b x)"

lemma between_refl: "between_rgb a b a" "between_rgb a b b"
  by (auto simp: between_rgb_def between_u8_def cc_min_def cc_max_def)

text \<open>
  Palette sampling with a 32-bit \<open>int\<close>, for stops at strictly increasing positions: every stop's
  colour is met exactly at its position, the ends extend flat, and between two neighbouring stops each
  channel stays between those of the two stops, so an interpolation never overshoots.
\<close>

theorem palette_interpolates:
  assumes "palette_ok stops cnt"
  shows "(\<forall>i < cnt. samplePalette 32 stops cnt (gs_pos (stops ! i)) = stop_rgb (stops ! i))
    \<and> (\<forall>pos. pos \<le> gs_pos (stops ! 0) \<longrightarrow> samplePalette 32 stops cnt pos = stop_rgb (stops ! 0))
    \<and> (\<forall>pos. gs_pos (stops ! (cnt - 1)) \<le> pos \<longrightarrow> samplePalette 32 stops cnt pos = stop_rgb (stops ! (cnt - 1)))
    \<and> (\<forall>i pos. i + 1 < cnt \<and> gs_pos (stops ! i) \<le> pos \<and> pos \<le> gs_pos (stops ! (i + 1))
        \<longrightarrow> between_rgb (stop_rgb (stops ! i)) (stop_rgb (stops ! (i + 1))) (samplePalette 32 stops cnt pos))"
proof -
  have at_stop: "samplePalette 32 stops cnt (gs_pos (stops ! i)) = stop_rgb (stops ! i)" if "i < cnt" for i
  proof (cases "i + 1 < cnt")
    case True
    have "gs_pos (stops ! i) < gs_pos (stops ! (i + 1))" by (rule palette_ok_less [OF assms _ True]) simp
    from samplePalette_segment [OF assms True order_refl this, where w = 32] obtain f
      where "samplePalette 32 stops cnt (gs_pos (stops ! i)) =
        rgb (mix_channel 32 (gs_r (stops ! i)) (gs_r (stops ! (i + 1))) f)
            (mix_channel 32 (gs_g (stops ! i)) (gs_g (stops ! (i + 1))) f)
            (mix_channel 32 (gs_b (stops ! i)) (gs_b (stops ! (i + 1))) f)" "f = 0" by blast
    then show ?thesis by (simp add: mix_ends stop_rgb_def)
  next
    case False
    then have "i = cnt - 1" using that by simp
    then show ?thesis using samplePalette_high [OF assms] by simp
  qed
  have inside: "between_rgb (stop_rgb (stops ! i)) (stop_rgb (stops ! (i + 1))) (samplePalette 32 stops cnt pos)"
    if i: "i + 1 < cnt" and lo: "gs_pos (stops ! i) \<le> pos" and hi: "pos \<le> gs_pos (stops ! (i + 1))" for i pos
  proof (cases "pos = gs_pos (stops ! (i + 1))")
    case True
    then show ?thesis using at_stop [OF i] by (simp only: between_refl)
  next
    case False
    then have "pos < gs_pos (stops ! (i + 1))" using hi by simp
    from samplePalette_segment [OF assms i lo this, where w = 32] obtain f
      where "samplePalette 32 stops cnt pos =
        rgb (mix_channel 32 (gs_r (stops ! i)) (gs_r (stops ! (i + 1))) f)
            (mix_channel 32 (gs_g (stops ! i)) (gs_g (stops ! (i + 1))) f)
            (mix_channel 32 (gs_b (stops ! i)) (gs_b (stops ! (i + 1))) f)" by blast
    then show ?thesis by (simp add: between_rgb_def stop_rgb_def rgb_def mix_between)
  qed
  show ?thesis using at_stop inside samplePalette_low [OF assms] samplePalette_high [OF assms] by blast
qed

text \<open>The default palette of the panel, white at both ends, is well formed.\<close>

definition white_stops :: "GradientStop list" where
  "white_stops = [\<lparr>gs_pos = 0, gs_r = 0xFF, gs_g = 0xFF, gs_b = 0xFF\<rparr>, \<lparr>gs_pos = 255, gs_r = 0xFF, gs_g = 0xFF, gs_b = 0xFF\<rparr>]"

lemma palette_interpolates_witness:
  "samplePalette 32 white_stops 2 255 = rgb 0xFF 0xFF 0xFF \<and> palette_ok white_stops 2"
proof -
  have ok: "palette_ok white_stops 2" by (simp add: palette_ok_def white_stops_def)
  have "\<forall>i < 2. samplePalette 32 white_stops 2 (gs_pos (white_stops ! i)) = stop_rgb (white_stops ! i)"
    using palette_interpolates [OF ok] by blast
  then have "samplePalette 32 white_stops 2 (gs_pos (white_stops ! 1)) = stop_rgb (white_stops ! 1)" by simp
  then show ?thesis using ok by (simp add: white_stops_def stop_rgb_def)
qed

section \<open>Blending\<close>

lemma u8_eq_unat: "(a = b) = (unat a = unat b)" for a b :: u8
  by (rule word_eq_unat)

lemma unat_of_nat_u8: "n \<le> 255 \<Longrightarrow> unat (of_nat n :: u8) = n"
  by (simp add: unsigned_of_nat take_bit_nat_eq_self)

lemma u8_le_255: "(a :: u8) \<le> 255"
  using unat_u8_le [of a] by (simp add: word_le_nat_alt)

lemma unat_compl_u8: "unat (255 - a :: u8) = 255 - unat a"
  using u8_le_255 [of a] by (simp add: unat_sub)

lemma scale_le: "y \<le> 255 \<Longrightarrow> x * y div 255 \<le> (x :: nat)"
  using div_le_mono [of "x * y" "x * 255" 255] by simp

lemma unat_cc_mul: "unat (cc_mul a b) = unat a * unat b div 255"
  using scale_le [of "unat b" "unat a"] unat_u8_le [of a] unat_u8_le [of b]
  unfolding cc_mul_def by (intro unat_of_nat_u8) linarith

lemma unat_cc_clampAdd: "unat (cc_clampAdd a b) = min 255 (unat a + unat b)"
  using unat_of_nat_u8 [of "unat a + unat b"] by (simp add: cc_clampAdd_def Let_def not_less del: of_nat_add)

lemma cc_mul_units: "cc_mul a 255 = a" "cc_mul 255 a = a" "cc_mul a 0 = 0" "cc_mul 0 a = 0"
  by (simp_all add: u8_eq_unat unat_cc_mul)

lemma cc_screen_black: "cc_screen a 0 = a" "cc_screen 0 a = a"
  by (simp_all add: cc_screen_def cc_mul_units)

lemma cc_black: "cc_clampAdd a 0 = a" "cc_max a 0 = a" "cc_diff a 0 = a" "cc_sub a 0 = a" "cc_min a 255 = a"
proof -
  show "cc_min a 255 = a" using u8_le_255 [of a] by (auto simp: cc_min_def)
  show "cc_clampAdd a 0 = a" using unat_u8_le [of a] by (simp add: u8_eq_unat unat_cc_clampAdd)
  show "cc_max a 0 = a" "cc_diff a 0 = a" "cc_sub a 0 = a"
    using word_gt_0 [of a] by (auto simp: cc_max_def cc_diff_def cc_sub_def)
qed

lemma cc_comm:
  "cc_clampAdd a b = cc_clampAdd b a" "cc_max a b = cc_max b a" "cc_mul a b = cc_mul b a"
  "cc_screen a b = cc_screen b a" "cc_min a b = cc_min b a" "cc_diff a b = cc_diff b a"
  by (auto simp: cc_clampAdd_def cc_max_def cc_mul_def cc_screen_def cc_min_def cc_diff_def
    add.commute mult.commute not_less)

definition black :: RGB8 where "black = rgb 0 0 0"
definition white :: RGB8 where "white = rgb 255 255 255"

lemma rgb_collapse: "rgb (rgb_r c) (rgb_g c) (rgb_b c) = c"
  by (cases c) (simp add: rgb_def)

lemma per_channel_unit: "(\<And>a. f a u = a) \<Longrightarrow> per_channel f c (rgb u u u) = c"
  by (cases c) (simp add: per_channel_def rgb_def)

lemma per_channel_comm: "(\<And>a b. f a b = f b a) \<Longrightarrow> per_channel f c d = per_channel f d c"
  by (simp add: per_channel_def)

lemma composeColor_code:
  "composeColor acc src 1 = src" "composeColor acc src 2 = per_channel cc_clampAdd acc src"
  "composeColor acc src 3 = per_channel cc_max acc src" "composeColor acc src 4 = per_channel cc_mul acc src"
  "composeColor acc src 5 = per_channel cc_screen acc src" "composeColor acc src 6 = per_channel cc_min acc src"
  "composeColor acc src 7 = per_channel cc_overlay acc src" "composeColor acc src 8 = per_channel cc_diff acc src"
  "composeColor acc src 9 = per_channel cc_sub acc src" "composeColor acc src 0 = src"
  by (simp_all add: composeColor_def ComposeOp_of_def)

lemma composeColor_other: "9 < b \<Longrightarrow> composeColor acc src b = src"
  by (auto simp: composeColor_def ComposeOp_of_def split: option.splits dest!: map_of_SomeD)

text \<open>
  The laws of the blend modes: DEFAULT, OPAQUE and every unknown byte replace the accumulator;
  black is neutral for ADD, MAX, SCREEN, DIFFERENCE and SUBTRACT and white for MULTIPLY and DARKEN, so a
  layer of the neutral colour is invisible; ADD, MAX, MULTIPLY, SCREEN, DARKEN and DIFFERENCE do not depend
  on which colour is below; ADD saturates at 255 instead of wrapping.
\<close>

theorem blend_laws:
  "(\<forall>b acc src. b \<in> {0, 1} \<or> 9 < b \<longrightarrow> composeColor acc src b = src)
   \<and> (\<forall>b \<in> {2, 3, 5, 8, 9}. \<forall>acc. composeColor acc black b = acc)
   \<and> (\<forall>b \<in> {4, 6}. \<forall>acc. composeColor acc white b = acc)
   \<and> (\<forall>b \<in> {2, 3, 4, 5, 6, 8}. \<forall>c d. composeColor c d b = composeColor d c b)
   \<and> (\<forall>acc src. unat (rgb_r (composeColor acc src 2)) = min 255 (unat (rgb_r acc) + unat (rgb_r src))
        \<and> unat (rgb_g (composeColor acc src 2)) = min 255 (unat (rgb_g acc) + unat (rgb_g src))
        \<and> unat (rgb_b (composeColor acc src 2)) = min 255 (unat (rgb_b acc) + unat (rgb_b src)))"
proof (intro conjI allI ballI impI)
  fix b :: u8 and acc src c d :: RGB8
  show "composeColor acc src b = src" if "b \<in> {0, 1} \<or> 9 < b"
    using that composeColor_other [of b acc src] by (auto simp: composeColor_code)
  show "composeColor acc black b = acc" if "b \<in> {2, 3, 5, 8, 9}"
    using that by (elim insertE) (simp_all add: composeColor_code black_def per_channel_unit cc_black cc_screen_black)
  show "composeColor acc white b = acc" if "b \<in> {4, 6}"
    using that by (elim insertE) (simp_all add: composeColor_code white_def per_channel_unit cc_black cc_mul_units)
  show "composeColor c d b = composeColor d c b" if "b \<in> {2, 3, 4, 5, 6, 8}"
    using that by (elim insertE) (simp_all add: composeColor_code per_channel_comm [of cc_clampAdd, OF cc_comm(1)]
      per_channel_comm [of cc_max, OF cc_comm(2)] per_channel_comm [of cc_mul, OF cc_comm(3)]
      per_channel_comm [of cc_screen, OF cc_comm(4)] per_channel_comm [of cc_min, OF cc_comm(5)]
      per_channel_comm [of cc_diff, OF cc_comm(6)])
qed (simp_all add: composeColor_code per_channel_def rgb_def unat_cc_clampAdd)

lemma blend_laws_witness:
  "composeColor (rgb 200 100 0) (rgb 100 100 7) 2 = rgb 255 200 7
   \<and> composeColor (rgb 9 8 7) black 3 = rgb 9 8 7"
proof -
  have "composeColor (rgb 9 8 7) black 3 = rgb 9 8 7" using blend_laws by blast
  moreover have "composeColor (rgb 200 100 0) (rgb 100 100 7) 2 = rgb 255 200 7"
    by (simp add: composeColor_code per_channel_def rgb_def cc_clampAdd_def)
  ultimately show ?thesis by simp
qed

section \<open>Modifiers\<close>

definition rgb_max :: "RGB8 \<Rightarrow> u8" where
  "rgb_max c = cc_max (cc_max (rgb_r c) (rgb_g c)) (rgb_b c)"

lemma cc_max_max: "cc_max a b = max a b"
  by (auto simp: cc_max_def max_def)

lemma of_nat_scale_le: "unat v * k div 255 = n \<Longrightarrow> k \<le> 255 \<Longrightarrow> (of_nat n :: u8) \<le> v"
  using scale_le [of k "unat v"] unat_u8_le [of v] by (auto simp: word_le_nat_alt unat_of_nat_u8)

lemma hsv_value: "hsv_v (rgb2hsv c) = rgb_max c"
  by (simp add: rgb2hsv_def rgb_max_def Let_def)

lemma rgb_max_rgb: "rgb_max (rgb r g b) = max (max r g) b"
  by (simp add: rgb_max_def rgb_def cc_max_max)

lemma hsv2rgb_max: "rgb_max (hsv2rgb c) = hsv_v c"
proof -
  have le: "of_nat (unat (hsv_v c) * (255 - k) div 255) \<le> hsv_v c" for k
    by (rule of_nat_scale_le [OF refl]) simp
  show ?thesis
    unfolding hsv2rgb_def Let_def using le by (simp add: rgb_max_rgb max_absorb1 max_absorb2 del: of_nat_mult of_nat_diff)
qed

lemma hsv_modifiers_keep_max:
  "rgb_max (modDesaturate c v) = rgb_max c" "rgb_max (modSaturate w c v) = rgb_max c" "rgb_max (modHueShift c v) = rgb_max c"
  by (simp_all add: modDesaturate_def modSaturate_def modHueShift_def Let_def hsv2rgb_max hsv_value)

lemma modDesaturate_grey: "modDesaturate c 0 = rgb (rgb_max c) (rgb_max c) (rgb_max c)"
  by (simp add: modDesaturate_def Let_def cc_mul_units hsv2rgb_def hsv_value)

lemma cc_mul_le: "cc_mul a v \<le> a"
  using scale_le [of "unat v" "unat a"] unat_u8_le [of v] by (simp add: word_le_nat_alt unat_cc_mul)

lemma mix_up_ge: "a \<le> mix_channel 32 a 255 v"
  using mix_between [of a 255 v] u8_le_255 [of a] by (auto simp: between_u8_def cc_min_def split: if_splits)

text \<open>
  The modifiers. Each has its documented identity value (255 for dim and desaturate, 0 for the
  others), at which the colour does not drift; the extremes are black for dim 0, white for brighten 255,
  grey of the same brightness for desaturate 0, and invert 255 is its own inverse. Dim never raises and
  brighten never lowers a channel, and the three modifiers that go through integer HSV (desaturate,
  saturate, hue shift) leave the largest channel, the brightness, exactly as it was. The statements on
  brighten 255 and on the growth are for the 32-bit \<open>int\<close>.
\<close>

theorem modifier_laws:
  "modDim c 255 = c \<and> modDesaturate c 255 = c \<and> modBrighten w c 0 = c \<and> modSaturate w c 0 = c
   \<and> modHueShift c 0 = c \<and> modInvert w c 0 = c
   \<and> modDim c 0 = black \<and> modBrighten 32 c 255 = white
   \<and> modDesaturate c 0 = rgb (rgb_max c) (rgb_max c) (rgb_max c)
   \<and> modInvert w (modInvert w c 255) 255 = c
   \<and> rgb_r (modDim c v) \<le> rgb_r c \<and> rgb_g (modDim c v) \<le> rgb_g c \<and> rgb_b (modDim c v) \<le> rgb_b c
   \<and> rgb_r c \<le> rgb_r (modBrighten 32 c v) \<and> rgb_g c \<le> rgb_g (modBrighten 32 c v) \<and> rgb_b c \<le> rgb_b (modBrighten 32 c v)
   \<and> rgb_max (modDesaturate c v) = rgb_max c \<and> rgb_max (modSaturate w c v) = rgb_max c
   \<and> rgb_max (modHueShift c v) = rgb_max c"
proof (intro conjI hsv_modifiers_keep_max modDesaturate_grey)
  show "modDim c 255 = c" "modDim c 0 = black" by (simp_all add: modDim_def cc_mul_units rgb_collapse black_def)
  show "modDesaturate c 255 = c" "modBrighten w c 0 = c" "modSaturate w c 0 = c" "modHueShift c 0 = c" "modInvert w c 0 = c"
    by (simp_all add: modDesaturate_def modBrighten_def modSaturate_def modHueShift_def modInvert_def)
  show "modBrighten 32 c 255 = white" by (simp add: modBrighten_def mix_ends white_def)
  show "modInvert w (modInvert w c 255) 255 = c" by (cases c) (simp add: modInvert_def Let_def rgb_def)
qed (simp_all add: modDim_def modBrighten_def rgb_def cc_mul_le mix_up_ge)

text \<open>
  With a 16-bit \<open>int\<close> the product of a full channel difference and a large factor does not fit:
  the same call gives another colour on the AVR panel than on the controller, and the extremes miss.
\<close>

lemma avr_mix_wraps:
  "mix_channel 16 0 255 255 = 254" "mix_channel 32 0 255 255 = 255"
  "modBrighten 16 black 255 = rgb 254 254 254" "modBrighten 32 black 255 = white"
proof -
  have c: "c_int 16 65025 = - 511" by (simp add: c_int_def)
  show a: "mix_channel 16 0 255 255 = 254" by (simp add: mix_channel_def c signed_divide_int_def)
  show "mix_channel 32 0 255 255 = 255" by (rule mix_ends)
  show "modBrighten 16 black 255 = rgb 254 254 254" using a by (simp add: modBrighten_def black_def rgb_def)
  show "modBrighten 32 black 255 = white" by (simp add: modBrighten_def mix_ends white_def)
qed

section \<open>The fold\<close>

lemma foldLayers_sorted: "foldLayers w ls base = fold (applyLayer w) (sort_key cl_composeOrder ls) base"
  by (simp add: foldLayers_def sortLayers_stable)

text \<open>
  C17. The layer fold applies the contributions one after another in ascending composeOrder, layers of
  equal order in the order of their slots (the insertion sort is the stable sort); when the orders differ,
  the result does not depend on which slots the layers sit in.
\<close>

theorem fold_in_compose_order:
  assumes "mset ls' = mset ls"
  shows "foldLayers w ls base = fold (applyLayer w) (sort_key cl_composeOrder ls) base
    \<and> sorted (map cl_composeOrder (sortLayers ls)) \<and> mset (sortLayers ls) = mset ls
    \<and> (distinct (map cl_composeOrder ls) \<longrightarrow> foldLayers w ls' base = foldLayers w ls base)"
  using sort_key_unique [OF assms [symmetric], of cl_composeOrder]
  by (simp add: foldLayers_sorted sortLayers_stable)

definition layer_red :: CompositeLayer where
  "layer_red = \<lparr>cl_composeOrder = 1, cl_isModifier = False, cl_op = 1, cl_value = 0, cl_color = rgb 200 0 0\<rparr>"

definition layer_dim :: CompositeLayer where
  "layer_dim = \<lparr>cl_composeOrder = 2, cl_isModifier = True, cl_op = 0, cl_value = 255, cl_color = rgb 0 0 0\<rparr>"

lemma fold_in_compose_order_witness:
  "foldLayers 32 [layer_dim, layer_red] black = rgb 200 0 0
   \<and> foldLayers 32 [layer_red, layer_dim] black = rgb 200 0 0"
proof -
  have perm: "mset [layer_red, layer_dim] = mset [layer_dim, layer_red]" by simp
  have s: "sort_key cl_composeOrder [layer_dim, layer_red] = [layer_red, layer_dim]"
    by (simp add: layer_dim_def layer_red_def word_le_nat_alt)
  have d: "distinct (map cl_composeOrder [layer_dim, layer_red])" by (simp add: layer_dim_def layer_red_def)
  have f: "fold (applyLayer 32) [layer_red, layer_dim] black = rgb 200 0 0"
    by (simp add: applyLayer_def layer_red_def layer_dim_def composeColor_code modDim_def cc_mul_units rgb_def)
  show ?thesis using fold_in_compose_order [OF perm, of 32 black] d f unfolding s by simp
qed

end
