(* ===== verification/Animation_Player.thy ===== *)
theory Animation_Player
  imports Color_Model
begin

text \<open>
  The panel-side animation player (\<open>Core/Panel/AnimationPlayer.cpp\<close>, \<open>AnimationPlayer.hpp\<close>,
  the state and constants of \<open>Core/Common/AnimationTypes.hpp\<close>): twelve slots, each an animation
  state machine keyed by a group id, composited once per frame onto the background. The bit flags of a
  slot are five booleans; times are 16-bit millisecond counters that wrap. Memory the constructor leaves
  uninitialised (the animation states and the palette entries above the second) is an argument of
  \<open>ap_init\<close>; the width \<open>w\<close> of the target's \<open>int\<close> matters only in the colour arithmetic.
\<close>

section \<open>Animation types, targets and flags\<close>

definition ANIM_SOLID :: u8 where "ANIM_SOLID = 0"
definition ANIM_FADE :: u8 where "ANIM_FADE = 1"
definition ANIM_TRANSITION :: u8 where "ANIM_TRANSITION = 2"
definition ANIM_BREATHE :: u8 where "ANIM_BREATHE = 3"
definition ANIM_PULSE :: u8 where "ANIM_PULSE = 4"
definition ANIM_BLINK :: u8 where "ANIM_BLINK = 5"
definition ANIM_HUE_CYCLE :: u8 where "ANIM_HUE_CYCLE = 6"
definition ANIM_STROBE :: u8 where "ANIM_STROBE = 7"
definition ANIM_REACTIVE :: u8 where "ANIM_REACTIVE = 8"

lemmas anim_type_defs = ANIM_SOLID_def ANIM_FADE_def ANIM_TRANSITION_def ANIM_BREATHE_def ANIM_PULSE_def
  ANIM_BLINK_def ANIM_HUE_CYCLE_def ANIM_STROBE_def ANIM_REACTIVE_def

definition TARGET_COLOR :: u8 where "TARGET_COLOR = 0"
definition TARGET_DIM :: u8 where "TARGET_DIM = 1"
definition TARGET_DESATURATE :: u8 where "TARGET_DESATURATE = 2"
definition TARGET_HUE :: u8 where "TARGET_HUE = 3"
definition TARGET_INVERT :: u8 where "TARGET_INVERT = 4"
definition TARGET_BRIGHTEN :: u8 where "TARGET_BRIGHTEN = 5"
definition TARGET_SATURATE :: u8 where "TARGET_SATURATE = 6"

definition FLAG_LOOP :: u8 where "FLAG_LOOP = 0x01"
definition FLAG_CURRENT_COLOR_FROM :: u8 where "FLAG_CURRENT_COLOR_FROM = 0x08"
definition FLAG_CURRENT_COLOR_TO :: u8 where "FLAG_CURRENT_COLOR_TO = 0x10"
definition FLAG_REAP_ON_DONE :: u8 where "FLAG_REAP_ON_DONE = 0x80"

definition ANIM_CTRL_STOP :: u8 where "ANIM_CTRL_STOP = 1"
definition ANIM_CTRL_PAUSE :: u8 where "ANIM_CTRL_PAUSE = 2"
definition ANIM_CTRL_RESUME :: u8 where "ANIM_CTRL_RESUME = 3"
definition ANIM_CTRL_CLEAR_QUEUE :: u8 where "ANIM_CTRL_CLEAR_QUEUE = 4"

definition PARAM_TRIGGER :: u8 where "PARAM_TRIGGER = 1"

definition MAX_ANIM_SLOTS :: nat where "MAX_ANIM_SLOTS = 12"

lemmas ctrl_defs = ANIM_CTRL_STOP_def ANIM_CTRL_PAUSE_def ANIM_CTRL_RESUME_def ANIM_CTRL_CLEAR_QUEUE_def

section \<open>State\<close>

record AnimationState =
  an_animType :: u8
  an_group_id :: u8
  an_flags :: u8
  an_transitionMs :: u8
  an_durationMs :: u16
  an_startMs :: u16
  an_colorFrom :: ColorRef
  an_colorTo :: ColorRef
  an_param1 :: u8
  an_param2 :: u8
  an_composeMode :: u8
  an_composeOrder :: u8
  an_startDelayMs :: u16
  an_animates :: u8

definition has_flag :: "AnimationState \<Rightarrow> u8 \<Rightarrow> bool" where
  "has_flag a f \<longleftrightarrow> an_flags a AND f \<noteq> 0"

record Slot =
  sl_occupied :: bool
  sl_started :: bool
  sl_holding :: bool
  sl_paused :: bool
  sl_hasPending :: bool
  sl_pausedElapsedMs :: u16
  sl_groupId :: u8
  sl_cur :: AnimationState
  sl_pending :: AnimationState
  sl_reactiveLevel :: u8
  sl_reactiveTriggerMs :: u16

record AnimationPlayer =
  pl_slots :: "Slot list"
  pl_lastStartSeqId :: u8
  pl_lastParamsSeqId :: u8
  pl_nowMs :: u16
  pl_lastTickMs :: u16
  pl_outputDirty :: bool
  pl_lastOutput :: ColorRGB
  pl_backgroundColor :: ColorRGB
  pl_palette :: "GradientStop list"
  pl_paletteCount :: u8
  pl_baseColors :: "ColorRGB list"

definition clear_flags :: "Slot \<Rightarrow> Slot" where
  "clear_flags s = s\<lparr>sl_occupied := False, sl_started := False, sl_holding := False, sl_paused := False, sl_hasPending := False\<rparr>"

definition clearSlot :: "Slot \<Rightarrow> Slot" where
  "clearSlot s = (clear_flags s)\<lparr>sl_pausedElapsedMs := 0, sl_groupId := 0, sl_reactiveLevel := 0, sl_reactiveTriggerMs := 0\<rparr>"

definition ap_init :: "Slot list \<Rightarrow> GradientStop list \<Rightarrow> AnimationPlayer" where
  "ap_init raw_slots raw_palette =
     \<lparr>pl_slots = map clearSlot raw_slots, pl_lastStartSeqId = 0xFF, pl_lastParamsSeqId = 0xFF, pl_nowMs = 0,
      pl_lastTickMs = 0, pl_outputDirty = False, pl_lastOutput = rgb 0 0 0, pl_backgroundColor = rgb 0 0 0,
      pl_palette = raw_palette[0 := \<lparr>gs_pos = 0, gs_r = 0xFF, gs_g = 0xFF, gs_b = 0xFF\<rparr>,
                               1 := \<lparr>gs_pos = 255, gs_r = 0xFF, gs_g = 0xFF, gs_b = 0xFF\<rparr>],
      pl_paletteCount = 2, pl_baseColors = [rgb 0xFF 0xFF 0xFF, rgb 0 0 0, rgb 0 0 0]\<rparr>"

section \<open>Output, palette, base colours and background\<close>

definition ap_currentColor :: "AnimationPlayer \<Rightarrow> ColorRGB" where
  "ap_currentColor pl = pl_lastOutput pl"

definition ap_takeDirty :: "AnimationPlayer \<Rightarrow> bool \<times> AnimationPlayer" where
  "ap_takeDirty pl = (pl_outputDirty pl, pl\<lparr>pl_outputDirty := False\<rparr>)"

definition ap_setOutput :: "ColorRGB \<Rightarrow> AnimationPlayer \<Rightarrow> AnimationPlayer" where
  "ap_setOutput c pl = (if c = pl_lastOutput pl then pl else pl\<lparr>pl_lastOutput := c, pl_outputDirty := True\<rparr>)"

definition ap_setPalette :: "GradientStop list \<Rightarrow> u8 \<Rightarrow> AnimationPlayer \<Rightarrow> AnimationPlayer" where
  "ap_setPalette stops cnt pl =
     (if cnt = 0 then pl
      else (let n = (if PALETTE_STOPS < unat cnt then PALETTE_STOPS else unat cnt)
            in pl\<lparr>pl_palette := take n stops @ drop n (pl_palette pl), pl_paletteCount := of_nat n\<rparr>))"

definition ap_setBaseColors :: "ColorRGB list \<Rightarrow> AnimationPlayer \<Rightarrow> AnimationPlayer" where
  "ap_setBaseColors cs pl = pl\<lparr>pl_baseColors := take BASE_COLORS_COUNT cs\<rparr>"

definition ap_setBackground :: "ColorRGB \<Rightarrow> AnimationPlayer \<Rightarrow> AnimationPlayer" where
  "ap_setBackground c pl =
     (let pl = pl\<lparr>pl_backgroundColor := c\<rparr>
      in if list_ex sl_occupied (pl_slots pl) then pl else ap_setOutput c pl)"

definition ap_setColorDirect :: "ColorRGB \<Rightarrow> AnimationPlayer \<Rightarrow> AnimationPlayer" where
  "ap_setColorDirect c pl = pl\<lparr>pl_lastOutput := c, pl_backgroundColor := c, pl_outputDirty := True\<rparr>"

definition ap_resolveColorRef :: "nat \<Rightarrow> AnimationPlayer \<Rightarrow> ColorRef \<Rightarrow> ColorRGB" where
  "ap_resolveColorRef w pl ref =
     (if cr_kind ref = COLORREF_RGB then rgb (cr_raw0 ref) (cr_raw1 ref) (cr_raw2 ref)
      else if cr_kind ref = COLORREF_PALETTE then samplePalette w (pl_palette pl) (unat (pl_paletteCount pl)) (cr_raw0 ref)
      else if cr_kind ref = COLORREF_USE_COLOR then
        (let slot = unat (cr_raw0 ref) in pl_baseColors pl ! (if BASE_COLORS_COUNT \<le> slot then 0 else slot))
      else rgb 0xFF 0xFF 0xFF)"

definition ap_resolveColors :: "nat \<Rightarrow> AnimationPlayer \<Rightarrow> AnimationState \<Rightarrow> ColorRGB \<times> ColorRGB" where
  "ap_resolveColors w pl a = (ap_resolveColorRef w pl (an_colorFrom a), ap_resolveColorRef w pl (an_colorTo a))"

section \<open>Slots\<close>

text \<open>A slot pointer is the index of the slot, the null pointer is \<open>None\<close>.\<close>

fun first_slot :: "(Slot \<Rightarrow> bool) \<Rightarrow> Slot list \<Rightarrow> nat option" where
  "first_slot P [] = None"
| "first_slot P (s # ss) = (if P s then Some 0 else map_option Suc (first_slot P ss))"

definition ap_findSlot :: "u8 \<Rightarrow> AnimationPlayer \<Rightarrow> nat option" where
  "ap_findSlot gid pl = first_slot (\<lambda>s. sl_occupied s \<and> sl_groupId s = gid) (pl_slots pl)"

definition ap_allocSlot :: "u8 \<Rightarrow> AnimationPlayer \<Rightarrow> nat option \<times> AnimationPlayer" where
  "ap_allocSlot gid pl =
     (case ap_findSlot gid pl of
        Some i \<Rightarrow> (Some i, pl)
      | None \<Rightarrow>
          (case first_slot (\<lambda>s. \<not> sl_occupied s) (pl_slots pl) of
             None \<Rightarrow> (None, pl)
           | Some i \<Rightarrow> (Some i, pl\<lparr>pl_slots := (pl_slots pl)[i := (clearSlot (pl_slots pl ! i))\<lparr>sl_occupied := True, sl_groupId := gid\<rparr>]\<rparr>)))"

definition ap_activatePending :: "AnimationPlayer \<Rightarrow> Slot \<Rightarrow> Slot" where
  "ap_activatePending pl s =
     (let s = s\<lparr>sl_cur := sl_pending s, sl_hasPending := False, sl_started := True, sl_holding := False,
                sl_paused := False, sl_pausedElapsedMs := 0\<rparr>;
          o' = pl_lastOutput pl; out = ColorRef_rgb (rgb_r o') (rgb_g o') (rgb_b o');
          a = (sl_cur s)\<lparr>an_startMs := pl_nowMs pl\<rparr>;
          a = (if has_flag a FLAG_CURRENT_COLOR_FROM then a\<lparr>an_colorFrom := out\<rparr> else a);
          a = (if has_flag a FLAG_CURRENT_COLOR_TO then a\<lparr>an_colorTo := out\<rparr> else a);
          s = s\<lparr>sl_cur := a\<rparr>
      in if an_animType a = ANIM_REACTIVE then s\<lparr>sl_reactiveTriggerMs := an_startMs a, sl_reactiveLevel := 0\<rparr> else s)"

section \<open>Packet handlers\<close>

definition prepared_state :: "PacketAnimationPrepare \<Rightarrow> AnimationState" where
  "prepared_state pkt =
     \<lparr>an_animType = ap_animType pkt, an_group_id = ap_group_id pkt, an_flags = ap_flags pkt,
      an_transitionMs = ap_transitionMs pkt, an_durationMs = ap_durationMs pkt, an_startMs = 0,
      an_colorFrom = ap_colorFrom pkt, an_colorTo = ap_colorTo pkt, an_param1 = ap_param1 pkt,
      an_param2 = ap_param2 pkt, an_composeMode = ap_composeMode pkt, an_composeOrder = ap_composeOrder pkt,
      an_startDelayMs = ap_startDelayMs pkt, an_animates = ap_animates pkt\<rparr>"

definition ap_prepare :: "PacketAnimationPrepare \<Rightarrow> AnimationPlayer \<Rightarrow> AnimationPlayer" where
  "ap_prepare pkt pl =
     (case ap_allocSlot (ap_group_id pkt) pl of
        (None, pl) \<Rightarrow> pl
      | (Some i, pl) \<Rightarrow>
          pl\<lparr>pl_slots := (pl_slots pl)[i := (pl_slots pl ! i)\<lparr>sl_pending := prepared_state pkt, sl_hasPending := True\<rparr>]\<rparr>)"

definition ap_start :: "u8 \<Rightarrow> u8 \<Rightarrow> u16 \<Rightarrow> AnimationPlayer \<Rightarrow> AnimationPlayer" where
  "ap_start seq_id gid now pl =
     (let pl = pl\<lparr>pl_nowMs := now\<rparr>
      in if seq_id = pl_lastStartSeqId pl then pl
         else
           (let pl = pl\<lparr>pl_lastStartSeqId := seq_id\<rparr>
            in case ap_findSlot gid pl of
                 None \<Rightarrow> pl
               | Some i \<Rightarrow>
                   if \<not> sl_hasPending (pl_slots pl ! i) then pl
                   else pl\<lparr>pl_slots := (pl_slots pl)[i := ap_activatePending pl (pl_slots pl ! i)]\<rparr>))"

text \<open>The body of the loop of \<open>control\<close>; any other command changes nothing.\<close>

definition control_slot :: "u8 \<Rightarrow> u8 \<Rightarrow> u16 \<Rightarrow> Slot \<Rightarrow> Slot" where
  "control_slot cmd gid now s =
     (if \<not> sl_occupied s then s
      else if gid \<noteq> 0 \<and> sl_groupId s \<noteq> gid then s
      else if cmd = ANIM_CTRL_STOP then clearSlot s
      else if cmd = ANIM_CTRL_PAUSE then
        (if sl_started s \<and> \<not> sl_paused s then s\<lparr>sl_paused := True, sl_pausedElapsedMs := now - an_startMs (sl_cur s)\<rparr> else s)
      else if cmd = ANIM_CTRL_RESUME then
        (if sl_paused s then s\<lparr>sl_paused := False, sl_cur := (sl_cur s)\<lparr>an_startMs := now - sl_pausedElapsedMs s\<rparr>\<rparr> else s)
      else if cmd = ANIM_CTRL_CLEAR_QUEUE then s\<lparr>sl_hasPending := False\<rparr>
      else s)"

definition ap_control :: "u8 \<Rightarrow> u8 \<Rightarrow> u16 \<Rightarrow> AnimationPlayer \<Rightarrow> AnimationPlayer" where
  "ap_control cmd gid now pl = pl\<lparr>pl_nowMs := now, pl_slots := map (control_slot cmd gid now) (pl_slots pl)\<rparr>"

definition update_slot :: "u8 \<Rightarrow> u8 \<Rightarrow> u16 \<Rightarrow> Slot \<Rightarrow> Slot" where
  "update_slot gid v now s =
     (if \<not> sl_occupied s \<or> \<not> sl_started s then s
      else if gid \<noteq> 0 \<and> sl_groupId s \<noteq> gid then s
      else if an_animType (sl_cur s) = ANIM_REACTIVE then s\<lparr>sl_reactiveLevel := v, sl_reactiveTriggerMs := now\<rparr>
      else s)"

definition ap_updateParams :: "u8 \<Rightarrow> u8 \<Rightarrow> u8 \<Rightarrow> u8 \<Rightarrow> u8 \<Rightarrow> u16 \<Rightarrow> AnimationPlayer \<Rightarrow> AnimationPlayer" where
  "ap_updateParams seq_id gid param_type v transitionMs now pl =
     (let pl = pl\<lparr>pl_nowMs := now\<rparr>
      in if seq_id = pl_lastParamsSeqId pl then pl
         else
           (let pl = pl\<lparr>pl_lastParamsSeqId := seq_id\<rparr>
            in if param_type \<noteq> PARAM_TRIGGER then pl
               else pl\<lparr>pl_slots := map (update_slot gid v now) (pl_slots pl)\<rparr>))"

section \<open>Interpolation\<close>

definition ap_lerp8 :: "u8 \<Rightarrow> u8 \<Rightarrow> u8 \<Rightarrow> u8" where
  "ap_lerp8 a b frac_q8 =
     (if a = b \<or> frac_q8 = 0 then a
      else if frac_q8 = 255 then b
      else if a < b then a + of_nat ((unat (b - a) * unat frac_q8) div 256)
      else a - of_nat ((unat (a - b) * unat frac_q8) div 256))"

definition ap_rgbLerp :: "ColorRGB \<Rightarrow> ColorRGB \<Rightarrow> u8 \<Rightarrow> ColorRGB" where
  "ap_rgbLerp a b frac_q8 =
     rgb (ap_lerp8 (rgb_r a) (rgb_r b) frac_q8) (ap_lerp8 (rgb_g a) (rgb_g b) frac_q8) (ap_lerp8 (rgb_b a) (rgb_b b) frac_q8)"

definition ap_getValueFrom :: "AnimationState \<Rightarrow> u8" where
  "ap_getValueFrom a = (if an_animates a = TARGET_INVERT then 0 else ColorRef_scalarValue (an_colorFrom a))"

definition ap_getValueTo :: "AnimationState \<Rightarrow> u8" where
  "ap_getValueTo a = (if an_animates a = TARGET_INVERT then 255 else ColorRef_scalarValue (an_colorTo a))"

text \<open>
  The handlers write \<open>*outColor\<close> or \<open>*outValue\<close>; the pair \<open>(colour, value)\<close> holds both, starting as
  black and 0.
\<close>

type_synonym slot_out = "ColorRGB \<times> u8"

definition ap_applyProgress :: "nat \<Rightarrow> AnimationPlayer \<Rightarrow> AnimationState \<Rightarrow> u8 \<Rightarrow> slot_out \<Rightarrow> slot_out" where
  "ap_applyProgress w pl a progress_q8 out =
     (if an_animates a = TARGET_COLOR then
        (case ap_resolveColors w pl a of (cFrom, cTo) \<Rightarrow> (ap_rgbLerp cFrom cTo progress_q8, snd out))
      else (fst out, ap_lerp8 (ap_getValueFrom a) (ap_getValueTo a) progress_q8))"

section \<open>Animation type handlers\<close>

definition fade_progress :: "AnimationState \<Rightarrow> u16 \<Rightarrow> u8" where
  "fade_progress a elapsed =
     (if an_durationMs a \<noteq> 0 then
        (let prog = (unat elapsed * 256) div unat (an_durationMs a) in if 255 < prog then 255 else of_nat prog)
      else 255)"

definition ap_tickFade :: "nat \<Rightarrow> AnimationPlayer \<Rightarrow> AnimationState \<Rightarrow> u16 \<Rightarrow> slot_out \<Rightarrow> slot_out" where
  "ap_tickFade w pl a elapsed out = ap_applyProgress w pl a (fade_progress a elapsed) out"

definition breathe_ease :: "nat \<Rightarrow> nat \<Rightarrow> u8" where
  "breathe_ease duration t =
     (let half = duration div 2;
          phase_q8 = (if t \<le> half then of_nat ((t * 255) div half) else of_nat (((duration - t) * 255) div half) :: u8);
          inv = 255 - phase_q8;
          inv_sq = of_nat (drop_bit 8 (unat inv * unat inv)) :: u8
      in 255 - inv_sq)"

definition ap_tickBreathe :: "nat \<Rightarrow> AnimationPlayer \<Rightarrow> AnimationState \<Rightarrow> u16 \<Rightarrow> slot_out \<Rightarrow> slot_out" where
  "ap_tickBreathe w pl a elapsed out =
     (if an_durationMs a = 0 then out
      else
        (let duration = unat (an_durationMs a); t = unat elapsed mod duration
         in if duration div 2 = 0 then out else ap_applyProgress w pl a (breathe_ease duration t) out))"

text \<open>
  \<open>pulse_shares\<close> are \<open>rise_ms\<close> and \<open>hold_ms\<close>. The divisors \<open>rise_ms + 1\<close> and \<open>fall_duration + 1\<close> are
  positive as naturals; on a 16-bit \<open>int\<close> the second one wraps to 0 when the duration is 65535 with an
  empty rise and hold, where C leaves the quotient undefined.
\<close>

definition pulse_shares :: "AnimationState \<Rightarrow> nat \<times> nat" where
  "pulse_shares a =
     (let rise = unat (an_param1 a); fall = unat (an_param2 a); sum = rise + fall;
          rise_pct = (if 255 < sum then (255 * rise) div sum else rise);
          fall_pct = (if 255 < sum then 255 - rise_pct else fall);
          hold_pct = 255 - rise_pct - fall_pct
      in ((unat (an_durationMs a) * rise_pct) div 256, (unat (an_durationMs a) * hold_pct) div 256))"

definition pulse_progress :: "AnimationState \<Rightarrow> u16 \<Rightarrow> u8" where
  "pulse_progress a elapsed =
     (case pulse_shares a of (rise_ms, hold_ms) \<Rightarrow>
        if unat elapsed < rise_ms then of_nat ((unat elapsed * 256) div (rise_ms + 1))
        else if unat elapsed < rise_ms + hold_ms then 255
        else
          (let fall_elapsed = unat elapsed - rise_ms - hold_ms;
               fall_duration = unat (an_durationMs a) - rise_ms - hold_ms
           in 255 - of_nat ((fall_elapsed * 256) div (fall_duration + 1))))"

definition ap_tickPulse :: "nat \<Rightarrow> AnimationPlayer \<Rightarrow> AnimationState \<Rightarrow> u16 \<Rightarrow> slot_out \<Rightarrow> slot_out" where
  "ap_tickPulse w pl a elapsed out = ap_applyProgress w pl a (pulse_progress a elapsed) out"

definition ap_tickBlink :: "nat \<Rightarrow> AnimationPlayer \<Rightarrow> AnimationState \<Rightarrow> u16 \<Rightarrow> slot_out \<Rightarrow> slot_out" where
  "ap_tickBlink w pl a elapsed out =
     (let period_ms = (if an_param1 a = 0 then 1 else unat (an_param1 a));
          phase = unat elapsed mod (period_ms * 2)
      in ap_applyProgress w pl a (if phase < period_ms then 255 else 0) out)"

definition ap_tickHueCycle :: "AnimationState \<Rightarrow> u16 \<Rightarrow> ColorRGB" where
  "ap_tickHueCycle a elapsed =
     (let speed = (if an_param1 a = 0 then 1 else unat (an_param1 a));
          hue_step = ((unat elapsed * speed) div 10) mod 1530;
          segment = hue_step div 255; remainder = of_nat (hue_step mod 255) :: u8
      in if segment = 0 then rgb 255 remainder 0
         else if segment = 1 then rgb (255 - remainder) 255 0
         else if segment = 2 then rgb 0 255 remainder
         else if segment = 3 then rgb 0 (255 - remainder) 255
         else if segment = 4 then rgb remainder 0 255
         else if segment = 5 then rgb 255 0 (255 - remainder)
         else rgb 0 0 0)"

definition strobe_on :: "AnimationState \<Rightarrow> u16 \<Rightarrow> bool" where
  "strobe_on a elapsed =
     (let hz = (if an_param1 a = 0 then 1 else unat (an_param1 a)); period_ms = 1000 div hz
      in unat elapsed mod period_ms < period_ms div 2)"

definition ap_tickStrobe :: "nat \<Rightarrow> AnimationPlayer \<Rightarrow> AnimationState \<Rightarrow> u16 \<Rightarrow> slot_out \<Rightarrow> slot_out" where
  "ap_tickStrobe w pl a elapsed out =
     (let on = strobe_on a elapsed
      in if an_animates a = TARGET_COLOR then
           (if on then ap_resolveColorRef w pl (an_colorTo a) else rgb 0 0 0, snd out)
         else (fst out, if on then ap_getValueTo a else ap_getValueFrom a))"

definition ap_tickReactive :: "nat \<Rightarrow> AnimationPlayer \<Rightarrow> Slot \<Rightarrow> slot_out \<Rightarrow> Slot \<times> slot_out" where
  "ap_tickReactive w pl s out =
     (let s = (if sl_reactiveLevel s \<noteq> 0 then
                 (let since_trigger = unat (pl_nowMs pl - sl_reactiveTriggerMs s);
                      decay_amount = (unat (an_param1 (sl_cur s)) * since_trigger) div 1000
                  in s\<lparr>sl_reactiveLevel :=
                         (if unat (sl_reactiveLevel s) \<le> decay_amount then 0 else sl_reactiveLevel s - of_nat decay_amount)\<rparr>)
               else s)
      in (s, ap_applyProgress w pl (sl_cur s) (sl_reactiveLevel s) out))"

definition ap_computeSlotOutput :: "nat \<Rightarrow> AnimationPlayer \<Rightarrow> Slot \<Rightarrow> u16 \<Rightarrow> slot_out \<Rightarrow> Slot \<times> slot_out" where
  "ap_computeSlotOutput w pl s elapsed out =
     (let a = sl_cur s; t = an_animType a
      in if t = ANIM_SOLID then
           (s, if an_animates a = TARGET_COLOR then (ap_resolveColorRef w pl (an_colorTo a), snd out)
               else (fst out, ap_getValueFrom a))
         else if t = ANIM_FADE then (s, ap_tickFade w pl a elapsed out)
         else if t = ANIM_TRANSITION then (s, ap_tickFade w pl a elapsed out)
         else if t = ANIM_BREATHE then (s, ap_tickBreathe w pl a elapsed out)
         else if t = ANIM_PULSE then (s, ap_tickPulse w pl a elapsed out)
         else if t = ANIM_BLINK then (s, ap_tickBlink w pl a elapsed out)
         else if t = ANIM_HUE_CYCLE then (s, (ap_tickHueCycle a elapsed, snd out))
         else if t = ANIM_STROBE then (s, ap_tickStrobe w pl a elapsed out)
         else if t = ANIM_REACTIVE then ap_tickReactive w pl s out
         else (s, out))"

section \<open>Frames\<close>

text \<open>
  \<open>slot_onset\<close> is the timing part of the compositor's loop body: the slot after finish detection and
  the animation time to render, or \<open>None\<close> when the slot contributes nothing this frame.
\<close>

definition slot_elapsed :: "u16 \<Rightarrow> Slot \<Rightarrow> u16" where
  "slot_elapsed now s = (if sl_paused s then sl_pausedElapsedMs s else now - an_startMs (sl_cur s))"

definition slot_onset :: "u16 \<Rightarrow> Slot \<Rightarrow> Slot \<times> u16 option" where
  "slot_onset now s =
     (let a = sl_cur s; elapsed = slot_elapsed now s
      in if has_flag a FLAG_LOOP \<and> an_durationMs a \<noteq> 0 then
           (let duration = unat (an_durationMs a);
                offset = duration - (unat (an_startDelayMs a) mod duration)
            in (s, Some (of_nat ((unat elapsed + offset) mod duration))))
         else if \<not> sl_holding s \<and> elapsed < an_startDelayMs a then (s, None)
         else
           (let animElapsed = elapsed - an_startDelayMs a;
                finished = (\<not> sl_paused s \<and> \<not> sl_holding s \<and> an_durationMs a \<noteq> 0
                            \<and> an_durationMs a \<le> animElapsed \<and> an_animType a \<noteq> ANIM_REACTIVE)
            in if finished \<and> has_flag a FLAG_REAP_ON_DONE then (clear_flags s, None)
               else
                 (let s = (if finished then s\<lparr>sl_holding := True\<rparr> else s)
                  in (s, Some (if sl_holding s \<and> an_durationMs a \<noteq> 0 then an_durationMs a else animElapsed)))))"

text \<open>The modifier operation an animated target selects.\<close>

definition modifier_op :: "u8 \<Rightarrow> u8" where
  "modifier_op target =
     ModOp_code (if target = TARGET_DESATURATE then MO_DESATURATE
                 else if target = TARGET_HUE then MO_HUE
                 else if target = TARGET_INVERT then MO_INVERT
                 else if target = TARGET_BRIGHTEN then MO_BRIGHTEN
                 else if target = TARGET_SATURATE then MO_SATURATE
                 else MO_DIM)"

text \<open>
  The loop body for one slot. A contribution's unused half (the colour of a modifier, the value of a
  source) is left uninitialised by the code and is never read; here it is what the handler computed.
\<close>

definition composite_slot :: "nat \<Rightarrow> AnimationPlayer \<Rightarrow> Slot \<Rightarrow> Slot \<times> CompositeLayer option" where
  "composite_slot w pl s =
     (if \<not> sl_occupied s \<or> \<not> sl_started s then (s, None)
      else
        (case slot_onset (pl_nowMs pl) s of
           (s, None) \<Rightarrow> (s, None)
         | (s, Some animElapsed) \<Rightarrow>
             (case ap_computeSlotOutput w pl s animElapsed (rgb 0 0 0, 0) of
                (s, outColor, outValue) \<Rightarrow>
                  (let a = sl_cur s
                   in (s, Some \<lparr>cl_composeOrder = an_composeOrder a, cl_isModifier = (an_animates a \<noteq> TARGET_COLOR),
                                cl_op = (if an_animates a \<noteq> TARGET_COLOR then modifier_op (an_animates a) else an_composeMode a),
                                cl_value = outValue, cl_color = outColor\<rparr>)))))"

definition contributions :: "nat \<Rightarrow> AnimationPlayer \<Rightarrow> CompositeLayer list" where
  "contributions w pl = List.map_filter (\<lambda>s. snd (composite_slot w pl s)) (pl_slots pl)"

definition ap_composite :: "nat \<Rightarrow> AnimationPlayer \<Rightarrow> AnimationPlayer" where
  "ap_composite w pl =
     (let contrib = contributions w pl;
          pl' = pl\<lparr>pl_slots := map (\<lambda>s. fst (composite_slot w pl s)) (pl_slots pl)\<rparr>
      in if contrib = [] then ap_setOutput (pl_backgroundColor pl) pl'
         else ap_setOutput (foldLayers w contrib (pl_backgroundColor pl)) pl')"

definition ap_tick :: "nat \<Rightarrow> u16 \<Rightarrow> AnimationPlayer \<Rightarrow> AnimationPlayer" where
  "ap_tick w now pl =
     (let pl = pl\<lparr>pl_nowMs := now\<rparr>
      in if now - pl_lastTickMs pl < 16 then pl
         else ap_composite w (pl\<lparr>pl_lastTickMs := now\<rparr>))"

section \<open>Status\<close>

definition running :: "Slot \<Rightarrow> bool" where
  "running s \<longleftrightarrow> sl_occupied s \<and> sl_started s"

definition ap_isAnimating :: "AnimationPlayer \<Rightarrow> bool" where
  "ap_isAnimating pl =
     list_ex (\<lambda>s. running s \<and> (an_animType (sl_cur s) \<noteq> ANIM_SOLID \<or> sl_reactiveLevel s \<noteq> 0)) (pl_slots pl)"

text \<open>The three status functions scan for the first running slot of the highest composeOrder.\<close>

definition top_step :: "Slot \<Rightarrow> Slot option \<times> int \<Rightarrow> Slot option \<times> int" where
  "top_step s acc =
     (if \<not> running s then acc
      else if snd acc < uint (an_composeOrder (sl_cur s)) then (Some s, uint (an_composeOrder (sl_cur s))) else acc)"

definition top_slot :: "Slot list \<Rightarrow> Slot option" where
  "top_slot ss = fst (fold top_step ss (None, - 1))"

definition ap_getAnimType :: "AnimationPlayer \<Rightarrow> u8" where
  "ap_getAnimType pl = (case top_slot (pl_slots pl) of None \<Rightarrow> ANIM_SOLID | Some s \<Rightarrow> an_animType (sl_cur s))"

definition ap_getGroupId :: "AnimationPlayer \<Rightarrow> u8" where
  "ap_getGroupId pl = (case top_slot (pl_slots pl) of None \<Rightarrow> 0 | Some s \<Rightarrow> sl_groupId s)"

definition ap_fillStatus :: "u16 \<Rightarrow> AnimationPlayer \<Rightarrow> PacketAnimationStatus \<times> AnimationPlayer" where
  "ap_fillStatus now pl =
     (let pl = pl\<lparr>pl_nowMs := now\<rparr>; occupiedCount = length (filter running (pl_slots pl))
      in (case top_slot (pl_slots pl) of
            Some s \<Rightarrow>
              \<lparr>ast_animType = an_animType (sl_cur s), ast_group_id = sl_groupId s,
               ast_elapsedMs = slot_elapsed (pl_nowMs pl) s, ast_durationMs = an_durationMs (sl_cur s),
               ast_queueLen = (if 0 < occupiedCount then of_nat (occupiedCount - 1) else 0)\<rparr>
          | None \<Rightarrow>
              \<lparr>ast_animType = ANIM_SOLID, ast_group_id = 0, ast_elapsedMs = 0, ast_durationMs = 0, ast_queueLen = 0\<rparr>,
          pl))"

section \<open>The invariant of the player\<close>

text \<open>
  A slot that is started, holding, paused or has a pending step is in use, and holding and paused slots
  are started. No two slots in use serve the same group, so a packet addressed to a group reaches one
  animation.
\<close>

definition slot_ok :: "Slot \<Rightarrow> bool" where
  "slot_ok s \<longleftrightarrow>
     (sl_started s \<longrightarrow> sl_occupied s) \<and> (sl_holding s \<longrightarrow> sl_started s) \<and> (sl_paused s \<longrightarrow> sl_started s)
     \<and> (sl_hasPending s \<longrightarrow> sl_occupied s)"

definition unique_groups :: "Slot list \<Rightarrow> bool" where
  "unique_groups ss \<longleftrightarrow>
     (\<forall>i < length ss. \<forall>j < length ss. i \<noteq> j \<and> sl_occupied (ss ! i) \<and> sl_occupied (ss ! j)
        \<longrightarrow> sl_groupId (ss ! i) \<noteq> sl_groupId (ss ! j))"

definition pl_ok :: "AnimationPlayer \<Rightarrow> bool" where
  "pl_ok pl \<longleftrightarrow>
     length (pl_slots pl) = MAX_ANIM_SLOTS \<and> list_all slot_ok (pl_slots pl) \<and> unique_groups (pl_slots pl)
     \<and> length (pl_palette pl) = PALETTE_STOPS \<and> 1 \<le> unat (pl_paletteCount pl) \<and> unat (pl_paletteCount pl) \<le> PALETTE_STOPS
     \<and> length (pl_baseColors pl) = BASE_COLORS_COUNT"

datatype player_op =
    Prepare PacketAnimationPrepare
  | Start u8 u8 u16
  | Control u8 u8 u16
  | UpdateParams u8 u8 u8 u8 u8 u16
  | SetColorDirect ColorRGB
  | SetPalette "GradientStop list" u8
  | SetBaseColors "ColorRGB list"
  | SetBackground ColorRGB
  | Tick u16
  | TakeDirty
  | FillStatus u16

fun player_step :: "nat \<Rightarrow> player_op \<Rightarrow> AnimationPlayer \<Rightarrow> AnimationPlayer" where
  "player_step w (Prepare pkt) pl = ap_prepare pkt pl"
| "player_step w (Start seq_id gid now) pl = ap_start seq_id gid now pl"
| "player_step w (Control cmd gid now) pl = ap_control cmd gid now pl"
| "player_step w (UpdateParams seq_id gid pt v tr now) pl = ap_updateParams seq_id gid pt v tr now pl"
| "player_step w (SetColorDirect c) pl = ap_setColorDirect c pl"
| "player_step w (SetPalette stops cnt) pl = ap_setPalette stops cnt pl"
| "player_step w (SetBaseColors cs) pl = ap_setBaseColors cs pl"
| "player_step w (SetBackground c) pl = ap_setBackground c pl"
| "player_step w (Tick now) pl = ap_tick w now pl"
| "player_step w TakeDirty pl = snd (ap_takeDirty pl)"
| "player_step w (FillStatus now) pl = snd (ap_fillStatus now pl)"

text \<open>The packets carry whole arrays: sixteen stops, three base colours.\<close>

fun valid_op :: "player_op \<Rightarrow> bool" where
  "valid_op (SetPalette stops cnt) \<longleftrightarrow> length stops = PALETTE_STOPS"
| "valid_op (SetBaseColors cs) \<longleftrightarrow> length cs = BASE_COLORS_COUNT"
| "valid_op _ \<longleftrightarrow> True"

lemma first_slot_Some: "first_slot P ss = Some i \<Longrightarrow> i < length ss \<and> P (ss ! i)"
  by (induction ss arbitrary: i) (auto split: if_splits)

lemma first_slot_None: "first_slot P ss = None \<longleftrightarrow> (\<forall>s \<in> set ss. \<not> P s)"
  by (induction ss) auto

lemma unique_groups_map:
  assumes "unique_groups ss" and "\<And>s. sl_occupied (f s) \<Longrightarrow> sl_occupied s \<and> sl_groupId (f s) = sl_groupId s"
  shows "unique_groups (map f ss)"
  using assms unfolding unique_groups_def by auto

lemma unique_groups_update:
  assumes "unique_groups ss" and "i < length ss" and "sl_occupied s \<Longrightarrow> sl_occupied (ss ! i) \<and> sl_groupId s = sl_groupId (ss ! i)"
  shows "unique_groups (ss[i := s])"
  using assms unfolding unique_groups_def by (auto simp: nth_list_update)

lemma unique_groups_new:
  assumes "unique_groups ss" and "i < length ss" and "\<forall>t \<in> set ss. \<not> (sl_occupied t \<and> sl_groupId t = sl_groupId s)"
  shows "unique_groups (ss[i := s])"
  using assms unfolding unique_groups_def by (auto simp: nth_list_update)

lemma list_all_update: "list_all P xs \<Longrightarrow> P x \<Longrightarrow> list_all P (xs[i := x])"
  using set_update_subset_insert [of xs i x] by (auto simp: list_all_iff)

lemma slot_same: "s\<lparr>sl_reactiveLevel := sl_reactiveLevel s\<rparr> = s" "s\<lparr>sl_holding := sl_holding s\<rparr> = s"
  by simp_all

lemma compute_state: "\<exists>r. fst (ap_computeSlotOutput w pl s e out) = s\<lparr>sl_reactiveLevel := r\<rparr>"
proof (cases "an_animType (sl_cur s) = ANIM_REACTIVE")
  case True
  then have "ap_computeSlotOutput w pl s e out = ap_tickReactive w pl s out"
    by (simp add: ap_computeSlotOutput_def anim_type_defs)
  moreover have "\<exists>r. fst (ap_tickReactive w pl s out) = s\<lparr>sl_reactiveLevel := r\<rparr>"
    by (cases "sl_reactiveLevel s \<noteq> 0") (auto simp: ap_tickReactive_def Let_def intro: exI [of _ "sl_reactiveLevel s"])
  ultimately show ?thesis by simp
next
  case False
  then have "fst (ap_computeSlotOutput w pl s e out) = s" by (simp add: ap_computeSlotOutput_def Let_def)
  then show ?thesis using slot_same(1) [of s] by metis
qed

lemma onset_cases:
  assumes "Q (clear_flags s, None)" and "\<And>e. Q (s, e)"
    and "\<lbrakk>\<not> sl_holding s; \<not> sl_paused s\<rbrakk> \<Longrightarrow> Q (s\<lparr>sl_holding := True\<rparr>, Some (an_durationMs (sl_cur s)))"
  shows "Q (slot_onset now s)"
  using assms by (simp add: slot_onset_def Let_def)

lemma onset_state:
  "fst (slot_onset now s) = clear_flags s \<and> snd (slot_onset now s) = None
   \<or> (\<exists>h. fst (slot_onset now s) = s\<lparr>sl_holding := h\<rparr> \<and> (sl_holding s \<longrightarrow> h))"
proof (rule onset_cases [where s = s and now = now])
  fix e :: "u16 option"
  have "fst (s, e) = s\<lparr>sl_holding := sl_holding s\<rparr>" by simp
  then show "fst (s, e) = clear_flags s \<and> snd (s, e) = None
      \<or> (\<exists>h. fst (s, e) = s\<lparr>sl_holding := h\<rparr> \<and> (sl_holding s \<longrightarrow> h))" by blast
qed auto

lemma composite_state:
  "fst (composite_slot w pl s) = s \<or> fst (composite_slot w pl s) = clear_flags s
   \<or> (sl_occupied s \<and> sl_started s \<and> (\<exists>h r. fst (composite_slot w pl s) = s\<lparr>sl_holding := h, sl_reactiveLevel := r\<rparr>))"
proof (cases "sl_occupied s \<and> sl_started s")
  case True
  obtain s' e where on: "slot_onset (pl_nowMs pl) s = (s', e)" by fastforce
  note st = onset_state [of "pl_nowMs pl" s, unfolded on fst_conv snd_conv]
  show ?thesis
  proof (cases e)
    case None
    then have "fst (composite_slot w pl s) = s'" using True on by (simp add: composite_slot_def)
    moreover have "s\<lparr>sl_holding := h\<rparr> = s\<lparr>sl_holding := h, sl_reactiveLevel := sl_reactiveLevel s\<rparr>" for h
      by (cases s) simp
    ultimately show ?thesis using st True by metis
  next
    case (Some t)
    then obtain h where h: "s' = s\<lparr>sl_holding := h\<rparr>" using st by auto
    obtain r where r: "fst (ap_computeSlotOutput w pl s' t (rgb 0 0 0, 0)) = s'\<lparr>sl_reactiveLevel := r\<rparr>"
      using compute_state by blast
    obtain s'' c v where cso: "ap_computeSlotOutput w pl s' t (rgb 0 0 0, 0) = (s'', c, v)" by (cases "ap_computeSlotOutput w pl s' t (rgb 0 0 0, 0)") auto
    then have "fst (composite_slot w pl s) = s'\<lparr>sl_reactiveLevel := r\<rparr>"
      using True on Some r by (simp add: composite_slot_def Let_def)
    then show ?thesis using True h by auto
  qed
qed (auto simp: composite_slot_def)

lemma slot_keeps_composite: "slot_ok s \<Longrightarrow> slot_ok (fst (composite_slot w pl s))"
  using composite_state [of w pl s] by (auto simp: slot_ok_def clear_flags_def)

lemma control_cases:
  assumes "Q s" and "Q (clearSlot s)" and "Q (s\<lparr>sl_hasPending := False\<rparr>)"
    and "\<And>e. sl_started s \<Longrightarrow> Q (s\<lparr>sl_paused := True, sl_pausedElapsedMs := e\<rparr>)"
    and "\<And>a. Q (s\<lparr>sl_paused := False, sl_cur := a\<rparr>)"
  shows "Q (control_slot cmd gid now s)"
  using assms by (simp add: control_slot_def)

lemma slot_keeps:
  "slot_ok s \<Longrightarrow> slot_ok (control_slot cmd gid now s)"
  "slot_ok s \<Longrightarrow> slot_ok (update_slot gid v now s)"
proof -
  show "slot_ok (control_slot cmd gid now s)" if "slot_ok s"
    by (rule control_cases) (use that in \<open>simp_all add: slot_ok_def clearSlot_def clear_flags_def\<close>)
  show "slot_ok (update_slot gid v now s)" if "slot_ok s"
    using that by (simp add: slot_ok_def update_slot_def)
qed

lemma activate_fields:
  "sl_occupied (ap_activatePending pl s) = sl_occupied s" "sl_groupId (ap_activatePending pl s) = sl_groupId s"
  "sl_started (ap_activatePending pl s)" "\<not> sl_holding (ap_activatePending pl s)" "\<not> sl_paused (ap_activatePending pl s)"
  "\<not> sl_hasPending (ap_activatePending pl s)"
  by (simp_all add: ap_activatePending_def Let_def)

lemma slot_group_keeps:
  "sl_occupied (control_slot cmd gid now s) \<Longrightarrow> sl_occupied s \<and> sl_groupId (control_slot cmd gid now s) = sl_groupId s"
  "sl_occupied (update_slot gid v now s) \<Longrightarrow> sl_occupied s \<and> sl_groupId (update_slot gid v now s) = sl_groupId s"
  "sl_occupied (fst (composite_slot w pl s)) \<Longrightarrow> sl_occupied s \<and> sl_groupId (fst (composite_slot w pl s)) = sl_groupId s"
proof -
  show "sl_occupied s \<and> sl_groupId (control_slot cmd gid now s) = sl_groupId s" if "sl_occupied (control_slot cmd gid now s)"
  proof -
    have "sl_occupied (control_slot cmd gid now s) \<longrightarrow> sl_occupied s \<and> sl_groupId (control_slot cmd gid now s) = sl_groupId s"
      by (rule control_cases) (simp_all add: clearSlot_def clear_flags_def)
    then show ?thesis using that by blast
  qed
  show "sl_occupied s \<and> sl_groupId (update_slot gid v now s) = sl_groupId s" if "sl_occupied (update_slot gid v now s)"
    using that by (simp add: update_slot_def split: if_splits)
  show "sl_occupied s \<and> sl_groupId (fst (composite_slot w pl s)) = sl_groupId s" if "sl_occupied (fst (composite_slot w pl s))"
    using composite_state [of w pl s] by (elim disjE conjE exE) (use that in \<open>simp_all add: clear_flags_def\<close>)
qed

text \<open>The fields a frame or a slot loop leaves alone.\<close>

lemma pl_ok_slots:
  assumes "pl_ok pl" and "list_all slot_ok ss" and "unique_groups ss" and "length ss = length (pl_slots pl)"
    and "pl_palette pl' = pl_palette pl" "pl_paletteCount pl' = pl_paletteCount pl" "pl_baseColors pl' = pl_baseColors pl"
    and "pl_slots pl' = ss"
  shows "pl_ok pl'"
  using assms by (simp add: pl_ok_def)

lemma pl_ok_map:
  assumes "pl_ok pl" and "\<And>s. slot_ok s \<Longrightarrow> slot_ok (f s)"
    and "\<And>s. sl_occupied (f s) \<Longrightarrow> sl_occupied s \<and> sl_groupId (f s) = sl_groupId s"
    and "pl_palette pl' = pl_palette pl" "pl_paletteCount pl' = pl_paletteCount pl" "pl_baseColors pl' = pl_baseColors pl"
    and "pl_slots pl' = map f (pl_slots pl)"
  shows "pl_ok pl'"
proof (rule pl_ok_slots [OF assms(1) _ _ _ assms(4-7)])
  show "list_all slot_ok (map f (pl_slots pl))" using assms(1,2) by (auto simp: pl_ok_def list_all_iff)
  show "unique_groups (map f (pl_slots pl))"
    using assms(1) by (intro unique_groups_map assms(3)) (simp_all add: pl_ok_def)
qed simp

lemma setOutput_fields [simp]:
  "pl_slots (ap_setOutput c pl) = pl_slots pl" "pl_palette (ap_setOutput c pl) = pl_palette pl"
  "pl_paletteCount (ap_setOutput c pl) = pl_paletteCount pl" "pl_baseColors (ap_setOutput c pl) = pl_baseColors pl"
  "pl_backgroundColor (ap_setOutput c pl) = pl_backgroundColor pl" "pl_nowMs (ap_setOutput c pl) = pl_nowMs pl"
  "pl_lastTickMs (ap_setOutput c pl) = pl_lastTickMs pl" "pl_lastOutput (ap_setOutput c pl) = c"
  by (simp_all add: ap_setOutput_def)

lemma composite_fields [simp]:
  "pl_slots (ap_composite w pl) = map (\<lambda>s. fst (composite_slot w pl s)) (pl_slots pl)"
  "pl_palette (ap_composite w pl) = pl_palette pl" "pl_paletteCount (ap_composite w pl) = pl_paletteCount pl"
  "pl_baseColors (ap_composite w pl) = pl_baseColors pl" "pl_backgroundColor (ap_composite w pl) = pl_backgroundColor pl"
  "pl_nowMs (ap_composite w pl) = pl_nowMs pl" "pl_lastTickMs (ap_composite w pl) = pl_lastTickMs pl"
  by (simp_all add: ap_composite_def Let_def)

lemma pl_ok_composite: "pl_ok pl \<Longrightarrow> pl_ok (ap_composite w pl)"
  by (rule pl_ok_map [where f = "\<lambda>s. fst (composite_slot w pl s)"]) (simp_all add: slot_keeps_composite slot_group_keeps(3))

lemma allocSlot_cases:
  assumes "pl_ok pl"
  obtains "ap_allocSlot gid pl = (None, pl)" "ap_findSlot gid pl = None" "\<forall>s \<in> set (pl_slots pl). sl_occupied s"
  | i where "ap_allocSlot gid pl = (Some i, pl)" "ap_findSlot gid pl = Some i" "i < length (pl_slots pl)"
      "sl_occupied (pl_slots pl ! i)" "sl_groupId (pl_slots pl ! i) = gid"
  | i s where "ap_allocSlot gid pl = (Some i, pl\<lparr>pl_slots := (pl_slots pl)[i := s]\<rparr>)"
      "s = (clearSlot (pl_slots pl ! i))\<lparr>sl_occupied := True, sl_groupId := gid\<rparr>" "i < length (pl_slots pl)"
      "ap_findSlot gid pl = None" "\<not> sl_occupied (pl_slots pl ! i)"
proof (cases "ap_findSlot gid pl")
  case (Some i)
  then have "i < length (pl_slots pl)" "sl_occupied (pl_slots pl ! i)" "sl_groupId (pl_slots pl ! i) = gid"
    using first_slot_Some [of _ "pl_slots pl" i] by (auto simp: ap_findSlot_def)
  then show thesis using that(2) [of i] Some by (simp add: ap_allocSlot_def)
next
  case None
  show thesis
  proof (cases "first_slot (\<lambda>s. \<not> sl_occupied s) (pl_slots pl)")
    case None
    then have "\<forall>s \<in> set (pl_slots pl). sl_occupied s" by (simp add: first_slot_None)
    then show thesis using that(1) \<open>ap_findSlot gid pl = None\<close> None by (simp add: ap_allocSlot_def)
  next
    case (Some i)
    then show thesis using that(3) [of i] first_slot_Some [OF Some] \<open>ap_findSlot gid pl = None\<close>
      by (simp add: ap_allocSlot_def)
  qed
qed

lemma pl_ok_slot: "pl_ok pl \<Longrightarrow> i < length (pl_slots pl) \<Longrightarrow> slot_ok (pl_slots pl ! i)"
  by (simp add: pl_ok_def list_all_length)

lemma pl_ok_update:
  assumes "pl_ok pl" and "i < length (pl_slots pl)" and "slot_ok s"
    and "sl_occupied s \<Longrightarrow> sl_occupied (pl_slots pl ! i) \<and> sl_groupId s = sl_groupId (pl_slots pl ! i)"
  shows "pl_ok (pl\<lparr>pl_slots := (pl_slots pl)[i := s]\<rparr>)"
  using assms unique_groups_update [of "pl_slots pl" i s] list_all_update [of slot_ok "pl_slots pl" s i]
  by (simp add: pl_ok_def)

lemma pl_ok_new:
  assumes "pl_ok pl" and "i < length (pl_slots pl)" and "slot_ok s" and "ap_findSlot (sl_groupId s) pl = None"
  shows "pl_ok (pl\<lparr>pl_slots := (pl_slots pl)[i := s]\<rparr>)"
  using assms unique_groups_new [of "pl_slots pl" i s] list_all_update [of slot_ok "pl_slots pl" s i]
  by (simp add: pl_ok_def ap_findSlot_def first_slot_None)

lemma pl_ok_prepare:
  assumes ok: "pl_ok pl"
  shows "pl_ok (ap_prepare pkt pl)"
proof (cases rule: allocSlot_cases [OF ok, of "ap_group_id pkt"])
  case 1
  then show ?thesis using ok by (simp add: ap_prepare_def)
next
  case (2 i)
  then show ?thesis
    using pl_ok_update [OF ok, of i "(pl_slots pl ! i)\<lparr>sl_pending := prepared_state pkt, sl_hasPending := True\<rparr>"]
      pl_ok_slot [OF ok] by (simp add: ap_prepare_def slot_ok_def)
next
  case (3 i s)
  then show ?thesis
    using pl_ok_new [OF ok, of i "s\<lparr>sl_pending := prepared_state pkt, sl_hasPending := True\<rparr>"]
    by (simp add: ap_prepare_def slot_ok_def clearSlot_def clear_flags_def)
qed

lemma pl_ok_clock: "pl_ok (pl\<lparr>pl_nowMs := t\<rparr>) = pl_ok pl" "pl_ok (pl\<lparr>pl_lastTickMs := t\<rparr>) = pl_ok pl"
  "pl_ok (pl\<lparr>pl_lastStartSeqId := n\<rparr>) = pl_ok pl" "pl_ok (pl\<lparr>pl_lastParamsSeqId := n\<rparr>) = pl_ok pl"
  "pl_ok (pl\<lparr>pl_backgroundColor := c\<rparr>) = pl_ok pl" "pl_ok (pl\<lparr>pl_outputDirty := d\<rparr>) = pl_ok pl"
  "pl_ok (ap_setOutput c pl) = pl_ok pl" "pl_ok (ap_setColorDirect c pl) = pl_ok pl"
  by (simp_all add: pl_ok_def ap_setColorDirect_def)

lemma pl_ok_start:
  assumes "pl_ok pl"
  shows "pl_ok (ap_start seq_id gid now pl)"
proof -
  let ?pl = "pl\<lparr>pl_nowMs := now, pl_lastStartSeqId := seq_id\<rparr>"
  have ok: "pl_ok ?pl" using assms by (simp add: pl_ok_def)
  show ?thesis
  proof (cases "ap_findSlot gid ?pl")
    case None
    then show ?thesis using ok assms by (simp add: ap_start_def Let_def pl_ok_clock)
  next
    case (Some i)
    then have i: "i < length (pl_slots ?pl)" "sl_occupied (pl_slots ?pl ! i)"
      using first_slot_Some [of _ "pl_slots ?pl" i] by (auto simp: ap_findSlot_def)
    then have "slot_ok (ap_activatePending ?pl (pl_slots ?pl ! i))" by (simp add: slot_ok_def activate_fields)
    then show ?thesis using pl_ok_update [OF ok i(1), of "ap_activatePending ?pl (pl_slots ?pl ! i)"] i ok assms Some
      by (simp add: ap_start_def Let_def activate_fields pl_ok_clock)
  qed
qed

lemma pl_ok_step:
  assumes ok: "pl_ok pl" and v: "valid_op op"
  shows "pl_ok (player_step w op pl)"
proof (cases op)
  case (Control cmd gid now)
  have "pl_ok (ap_control cmd gid now pl)"
    by (rule pl_ok_map [OF ok, where f = "control_slot cmd gid now"])
       (simp_all add: ap_control_def slot_keeps slot_group_keeps(1))
  then show ?thesis using Control by simp
next
  case (UpdateParams seq_id gid pt v tr now)
  have "pl_ok (pl\<lparr>pl_nowMs := now, pl_lastParamsSeqId := seq_id, pl_slots := map (update_slot gid v now) (pl_slots pl)\<rparr>)"
    by (rule pl_ok_map [OF ok, where f = "update_slot gid v now"]) (simp_all add: slot_keeps slot_group_keeps(2))
  then show ?thesis using UpdateParams ok by (simp add: ap_updateParams_def Let_def pl_ok_clock)
next
  case (SetPalette stops cnt)
  have "cnt \<noteq> 0 \<Longrightarrow> Suc 0 \<le> unat cnt" by (simp add: Suc_le_eq unat_gt_0)
  then show ?thesis using ok v SetPalette
    by (simp add: ap_setPalette_def Let_def pl_ok_def PALETTE_STOPS_def unat_of_nat_u8)
next
  case (Tick now)
  then show ?thesis using ok by (simp add: ap_tick_def Let_def pl_ok_composite pl_ok_clock)
qed (use ok v in \<open>simp_all add: pl_ok_prepare pl_ok_start ap_setBackground_def Let_def pl_ok_clock ap_takeDirty_def
      ap_fillStatus_def\<close>, simp add: pl_ok_def ap_setBaseColors_def)

definition player_run :: "nat \<Rightarrow> player_op list \<Rightarrow> AnimationPlayer \<Rightarrow> AnimationPlayer" where
  "player_run w ops pl = fold (player_step w) ops pl"

lemma pl_ok_run: "pl_ok pl \<Longrightarrow> list_all valid_op ops \<Longrightarrow> pl_ok (player_run w ops pl)"
  unfolding player_run_def by (induction ops arbitrary: pl) (simp_all add: pl_ok_step)

lemma pl_ok_init:
  assumes "length raw_slots = MAX_ANIM_SLOTS" and "length raw_palette = PALETTE_STOPS"
  shows "pl_ok (ap_init raw_slots raw_palette)"
  using assms by (simp add: pl_ok_def ap_init_def list_all_iff slot_ok_def clearSlot_def clear_flags_def
      unique_groups_def PALETTE_STOPS_def BASE_COLORS_COUNT_def)

text \<open>
  C18. The invariant of the player: whatever packets, frames and status requests arrive, in any order and at
  any time, there are twelve slots whose flags are consistent, no group owns two of them, the palette
  never has fewer than one or more than sixteen stops, and there are three base colours.
\<close>

theorem player_invariant:
  assumes "length raw_slots = MAX_ANIM_SLOTS" and "length raw_palette = PALETTE_STOPS" and "list_all valid_op ops"
  shows "pl_ok (player_run w ops (ap_init raw_slots raw_palette))"
  by (rule pl_ok_run [OF pl_ok_init [OF assms(1,2)] assms(3)])

definition no_anim :: AnimationState where
  "no_anim = \<lparr>an_animType = 0, an_group_id = 0, an_flags = 0, an_transitionMs = 0, an_durationMs = 0, an_startMs = 0,
     an_colorFrom = ColorRef_rgb 0 0 0, an_colorTo = ColorRef_rgb 0 0 0, an_param1 = 0, an_param2 = 0, an_composeMode = 0,
     an_composeOrder = 0, an_startDelayMs = 0, an_animates = 0\<rparr>"

definition raw_slot :: Slot where
  "raw_slot = \<lparr>sl_occupied = True, sl_started = False, sl_holding = True, sl_paused = False, sl_hasPending = True,
     sl_pausedElapsedMs = 7, sl_groupId = 3, sl_cur = no_anim, sl_pending = no_anim, sl_reactiveLevel = 9,
     sl_reactiveTriggerMs = 1\<rparr>"

definition fresh_player :: AnimationPlayer where
  "fresh_player = ap_init (replicate 12 raw_slot) (replicate 16 (hd white_stops))"

definition fade_packet :: PacketAnimationPrepare where
  "fade_packet = \<lparr>ap_animType = ANIM_FADE, ap_group_id = 5, ap_flags = 0, ap_transitionMs = 0, ap_durationMs = 1000,
     ap_colorFrom = ColorRef_rgb 0 0 0, ap_colorTo = ColorRef_rgb 200 100 50, ap_param1 = 0, ap_param2 = 0,
     ap_composeMode = 1, ap_composeOrder = 0, ap_startDelayMs = 0, ap_animates = 0\<rparr>"

lemma player_invariant_witness:
  "pl_ok (player_run 32 [Prepare fade_packet, Start 1 5 100, Tick 200, Control 2 0 300, SetColorDirect (rgb 1 2 3)] fresh_player)"
  unfolding fresh_player_def
  by (rule player_invariant) (simp_all add: MAX_ANIM_SLOTS_def PALETTE_STOPS_def)

section \<open>Preparing and starting a step\<close>

text \<open>What a prepared step becomes when it is activated at time \<open>now\<close> with \<open>out\<close> on the LED.\<close>

definition started_state :: "PacketAnimationPrepare \<Rightarrow> u16 \<Rightarrow> ColorRGB \<Rightarrow> AnimationState" where
  "started_state pkt now out =
     (let a = prepared_state pkt; c = ColorRef_rgb (rgb_r out) (rgb_g out) (rgb_b out)
      in a\<lparr>an_startMs := now,
           an_colorFrom := (if has_flag a FLAG_CURRENT_COLOR_FROM then c else ap_colorFrom pkt),
           an_colorTo := (if has_flag a FLAG_CURRENT_COLOR_TO then c else ap_colorTo pkt)\<rparr>)"

lemma activate_cur:
  "sl_pending s = prepared_state pkt \<Longrightarrow>
   sl_cur (ap_activatePending pl s) = started_state pkt (pl_nowMs pl) (pl_lastOutput pl)"
  by (simp add: ap_activatePending_def started_state_def Let_def prepared_state_def has_flag_def)

lemma findSlot_unique:
  assumes "pl_ok pl" and "i < length (pl_slots pl)" and "sl_occupied (pl_slots pl ! i)" and "sl_groupId (pl_slots pl ! i) = gid"
  shows "ap_findSlot gid pl = Some i"
proof (cases "ap_findSlot gid pl")
  case None
  then show ?thesis using assms nth_mem [OF assms(2)] by (auto simp: ap_findSlot_def first_slot_None)
next
  case (Some j)
  then have j: "j < length (pl_slots pl)" "sl_occupied (pl_slots pl ! j)" "sl_groupId (pl_slots pl ! j) = gid"
    using first_slot_Some [of _ "pl_slots pl" j] by (auto simp: ap_findSlot_def)
  then have "i = j" using assms unfolding pl_ok_def unique_groups_def by metis
  then show ?thesis using Some by simp
qed

lemma start_prepared:
  assumes ok: "pl_ok pl" and seq: "seq_id \<noteq> pl_lastStartSeqId pl" and i: "i < length (pl_slots pl)"
    and s: "sl_occupied (pl_slots pl ! i)" "sl_groupId (pl_slots pl ! i) = gid" "sl_hasPending (pl_slots pl ! i)"
  shows "ap_start seq_id gid now pl =
    (let pl' = pl\<lparr>pl_nowMs := now, pl_lastStartSeqId := seq_id\<rparr>
     in pl'\<lparr>pl_slots := (pl_slots pl)[i := ap_activatePending pl' (pl_slots pl ! i)]\<rparr>)"
proof -
  let ?pl = "pl\<lparr>pl_nowMs := now, pl_lastStartSeqId := seq_id\<rparr>"
  have "pl_ok ?pl" using ok by (simp add: pl_ok_def)
  then have "ap_findSlot gid ?pl = Some i" using findSlot_unique [of ?pl i gid] i s by simp
  then show ?thesis using seq s by (simp add: ap_start_def Let_def)
qed

lemma prepare_effect:
  assumes ok: "pl_ok pl" and room: "\<not> ((\<forall>s \<in> set (pl_slots pl). sl_occupied s) \<and> ap_findSlot (ap_group_id pkt) pl = None)"
  obtains i s where "ap_prepare pkt pl = pl\<lparr>pl_slots := (pl_slots pl)[i := s]\<rparr>" "i < length (pl_slots pl)"
    "sl_occupied s" "sl_groupId s = ap_group_id pkt" "sl_hasPending s" "sl_pending s = prepared_state pkt"
proof (cases rule: allocSlot_cases [OF ok, of "ap_group_id pkt"])
  case 1
  then show thesis using room by simp
next
  case (2 i)
  then show thesis using that [of i "(pl_slots pl ! i)\<lparr>sl_pending := prepared_state pkt, sl_hasPending := True\<rparr>"]
    by (simp add: ap_prepare_def)
next
  case (3 i s)
  then show thesis using that [of i "s\<lparr>sl_pending := prepared_state pkt, sl_hasPending := True\<rparr>"]
    by (simp add: ap_prepare_def)
qed

lemma prepare_start_effect:
  assumes ok: "pl_ok pl" and seq: "seq_id \<noteq> pl_lastStartSeqId pl"
  shows "let pl' = ap_start seq_id (ap_group_id pkt) now (ap_prepare pkt pl) in
    if (\<forall>s \<in> set (pl_slots pl). sl_occupied s) \<and> ap_findSlot (ap_group_id pkt) pl = None then ap_prepare pkt pl = pl
    else \<exists>i s. ap_findSlot (ap_group_id pkt) pl' = Some i \<and> pl_slots pl' = (pl_slots pl)[i := s] \<and> i < length (pl_slots pl)
      \<and> running s \<and> \<not> sl_holding s \<and> \<not> sl_paused s \<and> sl_groupId s = ap_group_id pkt
      \<and> sl_cur s = started_state pkt now (pl_lastOutput pl)
      \<and> (\<forall>gid now'. ap_start seq_id gid now' pl' = pl'\<lparr>pl_nowMs := now'\<rparr>)"
proof (cases "(\<forall>s \<in> set (pl_slots pl). sl_occupied s) \<and> ap_findSlot (ap_group_id pkt) pl = None")
  case True
  then have "ap_prepare pkt pl = pl"
    by (cases rule: allocSlot_cases [OF ok, of "ap_group_id pkt"]) (auto simp: ap_prepare_def)
  then show ?thesis using True by (simp add: Let_def)
next
  case False
  define pl' where "pl' = ap_start seq_id (ap_group_id pkt) now (ap_prepare pkt pl)"
  obtain i s where prep: "ap_prepare pkt pl = pl\<lparr>pl_slots := (pl_slots pl)[i := s]\<rparr>" "i < length (pl_slots pl)"
    "sl_occupied s" "sl_groupId s = ap_group_id pkt" "sl_hasPending s" "sl_pending s = prepared_state pkt"
    by (rule prepare_effect [OF ok False])
  let ?q = "pl\<lparr>pl_slots := (pl_slots pl)[i := s], pl_nowMs := now, pl_lastStartSeqId := seq_id\<rparr>"
  let ?s = "ap_activatePending ?q s"
  have ok1: "pl_ok (ap_prepare pkt pl)" by (rule pl_ok_prepare [OF ok])
  have run: "pl' = ?q\<lparr>pl_slots := (pl_slots pl)[i := ?s]\<rparr>"
    unfolding pl'_def using start_prepared [OF ok1, of seq_id i "ap_group_id pkt" now] prep seq by (simp add: Let_def)
  have ok2: "pl_ok pl'" unfolding pl'_def by (rule pl_ok_start [OF ok1])
  have "ap_findSlot (ap_group_id pkt) pl' = Some i"
    by (rule findSlot_unique [OF ok2]) (use run prep in \<open>simp_all add: activate_fields\<close>)
  moreover have "pl_slots pl' = (pl_slots pl)[i := ?s]" using run by simp
  moreover have "sl_cur ?s = started_state pkt now (pl_lastOutput pl)" using activate_cur [OF prep(6), of ?q] by simp
  moreover have "ap_start seq_id gid now' pl' = pl'\<lparr>pl_nowMs := now'\<rparr>" for gid now'
    using run by (simp add: ap_start_def Let_def)
  ultimately show ?thesis using prep(2-4) unfolding pl'_def [symmetric] Let_def if_not_P [OF False]
    by (auto simp: running_def activate_fields)
qed

text \<open>
  C19. PREPARE followed by a START with a fresh sequence id runs the step: the group's slot, and no other, is
  started at the time of the START with the packet's fields (its colours replaced by the current colour
  where the flags ask for it), whatever the slot was doing before. With every slot taken by other groups
  the PREPARE is dropped; a START whose sequence id was the last one seen changes nothing but the clock.
\<close>

theorem prepare_start_runs:
  assumes ok: "pl_ok pl" and seq: "seq_id \<noteq> pl_lastStartSeqId pl"
  shows "let pl' = ap_start seq_id (ap_group_id pkt) now (ap_prepare pkt pl) in
    if (\<forall>s \<in> set (pl_slots pl). sl_occupied s) \<and> ap_findSlot (ap_group_id pkt) pl = None then ap_prepare pkt pl = pl
    else \<exists>i s. ap_findSlot (ap_group_id pkt) pl' = Some i \<and> pl_slots pl' = (pl_slots pl)[i := s] \<and> i < length (pl_slots pl)
      \<and> running s \<and> \<not> sl_holding s \<and> \<not> sl_paused s \<and> sl_groupId s = ap_group_id pkt
      \<and> sl_cur s = started_state pkt now (pl_lastOutput pl)
      \<and> (\<forall>gid now'. ap_start seq_id gid now' pl' = pl'\<lparr>pl_nowMs := now'\<rparr>)"
  by (rule prepare_start_effect [OF assms])

lemma pl_ok_fresh: "pl_ok fresh_player"
  unfolding fresh_player_def by (rule pl_ok_init) (simp_all add: MAX_ANIM_SLOTS_def PALETTE_STOPS_def)

lemma prepare_start_runs_witness:
  "\<exists>i s. pl_slots (ap_start 1 5 100 (ap_prepare fade_packet fresh_player)) = (pl_slots fresh_player)[i := s]
     \<and> running s \<and> sl_cur s = started_state fade_packet 100 (rgb 0 0 0)"
proof -
  have seq: "1 \<noteq> pl_lastStartSeqId fresh_player" by (simp add: fresh_player_def ap_init_def)
  have free: "\<not> ((\<forall>s \<in> set (pl_slots fresh_player). sl_occupied s) \<and> ap_findSlot (ap_group_id fade_packet) fresh_player = None)"
    by (simp add: fresh_player_def ap_init_def clearSlot_def clear_flags_def)
  have "ap_group_id fade_packet = 5" "pl_lastOutput fresh_player = rgb 0 0 0"
    by (simp_all add: fade_packet_def fresh_player_def ap_init_def)
  then show ?thesis
    using prepare_start_runs [OF pl_ok_fresh seq, of fade_packet 100] unfolding Let_def if_not_P [OF free] by auto
qed

section \<open>Pause and resume\<close>

definition addressed :: "u8 \<Rightarrow> Slot \<Rightarrow> bool" where
  "addressed gid s \<longleftrightarrow> sl_occupied s \<and> (gid = 0 \<or> sl_groupId s = gid)"

lemma pause_slot:
  "addressed gid s \<Longrightarrow> sl_started s \<Longrightarrow> \<not> sl_paused s \<Longrightarrow>
   control_slot ANIM_CTRL_PAUSE gid t s = s\<lparr>sl_paused := True, sl_pausedElapsedMs := slot_elapsed t s\<rparr>"
  by (auto simp: control_slot_def addressed_def ctrl_defs slot_elapsed_def)

lemma resume_slot:
  "addressed gid s \<Longrightarrow> sl_paused s \<Longrightarrow>
   control_slot ANIM_CTRL_RESUME gid t s = s\<lparr>sl_paused := False, sl_cur := (sl_cur s)\<lparr>an_startMs := t - sl_pausedElapsedMs s\<rparr>\<rparr>"
  by (auto simp: control_slot_def addressed_def ctrl_defs)

lemma pause_again: "sl_paused s \<Longrightarrow> control_slot ANIM_CTRL_PAUSE gid t s = s"
  by (simp add: control_slot_def ctrl_defs)

lemma not_addressed: "\<not> addressed gid s \<Longrightarrow> control_slot cmd gid t s = s"
  by (auto simp: control_slot_def addressed_def)

lemma paused_onset: "sl_paused s \<Longrightarrow> slot_onset t s = slot_onset t' s \<and> fst (slot_onset t s) = s"
  by (simp add: slot_onset_def slot_elapsed_def Let_def)

text \<open>
  C20. PAUSE freezes an animation and RESUME continues it where it stopped, on the 16-bit clock with its
  wrap-around: while paused, the elapsed time and what the slot is about to render stay as they were at the PAUSE
  (a second PAUSE included) and the slot does not finish; \<open>d\<close> ms after the RESUME the elapsed time is the
  frozen one plus \<open>d\<close>. Slots of other groups are untouched.
\<close>

theorem pause_resume_keeps_elapsed:
  assumes i: "i < length (pl_slots pl)" and run: "running (pl_slots pl ! i)" and np: "\<not> sl_paused (pl_slots pl ! i)"
    and gid: "addressed gid (pl_slots pl ! i)"
  shows "let s = pl_slots pl ! i; pl1 = ap_control ANIM_CTRL_PAUSE gid t1 pl; p = pl_slots pl1 ! i;
      pl2 = ap_control ANIM_CTRL_RESUME gid t2 (ap_control ANIM_CTRL_PAUSE gid t1' pl1); r = pl_slots pl2 ! i
    in (\<forall>t. slot_elapsed t p = slot_elapsed t1 s) \<and> (\<forall>t. slot_onset t p = slot_onset t1 p \<and> fst (slot_onset t p) = p)
      \<and> pl_slots (ap_control ANIM_CTRL_PAUSE gid t1' pl1) ! i = p
      \<and> (\<forall>d. slot_elapsed (t2 + d) r = slot_elapsed t1 s + d)
      \<and> running r \<and> \<not> sl_paused r \<and> sl_holding r = sl_holding s
      \<and> (\<forall>j < length (pl_slots pl). \<not> addressed gid (pl_slots pl ! j) \<longrightarrow> pl_slots pl2 ! j = pl_slots pl ! j)"
proof -
  let ?s = "pl_slots pl ! i"
  let ?p = "?s\<lparr>sl_paused := True, sl_pausedElapsedMs := slot_elapsed t1 ?s\<rparr>"
  have p: "control_slot ANIM_CTRL_PAUSE gid t1 ?s = ?p" using pause_slot [OF gid _ np] run by (simp add: running_def)
  have pp: "control_slot ANIM_CTRL_PAUSE gid t1' ?p = ?p" by (rule pause_again) simp
  have r: "control_slot ANIM_CTRL_RESUME gid t2 ?p
      = ?p\<lparr>sl_paused := False, sl_cur := (sl_cur ?p)\<lparr>an_startMs := t2 - slot_elapsed t1 ?s\<rparr>\<rparr>"
    using resume_slot [of gid ?p t2] gid by (simp add: addressed_def)
  have frozen: "slot_onset t ?p = slot_onset t1 ?p" "fst (slot_onset t ?p) = ?p" for t
    using paused_onset [of ?p t t1] by (simp, intro conjunct2 [OF paused_onset], simp)
  have other: "control_slot ANIM_CTRL_RESUME gid t2 (control_slot ANIM_CTRL_PAUSE gid t1' (control_slot ANIM_CTRL_PAUSE gid t1 s)) = s"
    if "\<not> addressed gid s" for s using that by (simp add: not_addressed)
  let ?r = "?p\<lparr>sl_paused := False, sl_cur := (sl_cur ?p)\<lparr>an_startMs := t2 - slot_elapsed t1 ?s\<rparr>\<rparr>"
  have elapsed: "slot_elapsed t ?p = slot_elapsed t1 ?s" "slot_elapsed (t2 + d) ?r = slot_elapsed t1 ?s + d" for t d
    by (subst slot_elapsed_def, simp)+
  have flags: "running ?r" "\<not> sl_paused ?r" "sl_holding ?r = sl_holding ?s" using run by (simp_all add: running_def)
  have step1: "pl_slots (ap_control ANIM_CTRL_PAUSE gid t1 pl) ! i = ?p" using i p by (simp add: ap_control_def)
  have step2: "pl_slots (ap_control ANIM_CTRL_PAUSE gid t1' (ap_control ANIM_CTRL_PAUSE gid t1 pl)) ! i = ?p"
    using i p pp by (simp add: ap_control_def)
  have step3: "pl_slots (ap_control ANIM_CTRL_RESUME gid t2 (ap_control ANIM_CTRL_PAUSE gid t1' (ap_control ANIM_CTRL_PAUSE gid t1 pl))) ! i = ?r"
    using i p pp r by (simp add: ap_control_def)
  have rest: "pl_slots (ap_control ANIM_CTRL_RESUME gid t2 (ap_control ANIM_CTRL_PAUSE gid t1' (ap_control ANIM_CTRL_PAUSE gid t1 pl))) ! j
      = pl_slots pl ! j" if "j < length (pl_slots pl)" "\<not> addressed gid (pl_slots pl ! j)" for j
    using other [OF that(2)] that(1) by (simp add: ap_control_def)
  show ?thesis unfolding Let_def step1 step2 step3
    by (intro conjI allI impI frozen elapsed flags rest refl)
qed

lemma fresh_running:
  "\<exists>i < length (pl_slots fresh_player). \<exists>s. running s \<and> \<not> sl_paused s \<and> sl_groupId s = 5
     \<and> pl_slots (ap_start 1 5 100 (ap_prepare fade_packet fresh_player)) = (pl_slots fresh_player)[i := s]
     \<and> sl_cur s = started_state fade_packet 100 (rgb 0 0 0)"
proof -
  let ?s = "(clearSlot raw_slot)\<lparr>sl_occupied := True, sl_groupId := 5, sl_pending := prepared_state fade_packet, sl_hasPending := True\<rparr>"
  have slots: "pl_slots fresh_player = replicate 12 (clearSlot raw_slot)" by (simp add: fresh_player_def ap_init_def)
  have fields: "pl_lastStartSeqId fresh_player = 0xFF" "pl_lastOutput fresh_player = rgb 0 0 0"
    by (simp_all add: fresh_player_def ap_init_def)
  have unocc: "\<not> sl_occupied (clearSlot raw_slot)" by (simp add: clearSlot_def clear_flags_def)
  have find: "ap_findSlot 5 fresh_player = None" using unocc by (simp add: ap_findSlot_def slots first_slot_None)
  have "first_slot (\<lambda>s. \<not> sl_occupied s) (pl_slots fresh_player) = Some 0"
    using unocc unfolding slots numeral_eq_Suc replicate_Suc by simp
  then have prep: "ap_prepare fade_packet fresh_player = fresh_player\<lparr>pl_slots := (pl_slots fresh_player)[0 := ?s]\<rparr>"
    using find by (simp add: ap_prepare_def ap_allocSlot_def slots fade_packet_def clearSlot_def clear_flags_def)
  let ?q = "ap_prepare fade_packet fresh_player"
  have st: "ap_start 1 5 100 ?q = (let pl' = ?q\<lparr>pl_nowMs := 100, pl_lastStartSeqId := 1\<rparr>
      in pl'\<lparr>pl_slots := (pl_slots ?q)[0 := ap_activatePending pl' (pl_slots ?q ! 0)]\<rparr>)"
    by (rule start_prepared [OF pl_ok_prepare [OF pl_ok_fresh]]) (simp_all add: prep slots fields)
  let ?pl = "?q\<lparr>pl_nowMs := 100, pl_lastStartSeqId := 1\<rparr>"
  have "pl_slots (ap_start 1 5 100 ?q) = (pl_slots fresh_player)[0 := ap_activatePending ?pl ?s]"
    unfolding st by (simp add: Let_def prep slots)
  moreover have "sl_cur (ap_activatePending ?pl ?s) = started_state fade_packet 100 (rgb 0 0 0)"
    using activate_cur [of ?s fade_packet ?pl] by (simp add: prep fields)
  moreover have "running (ap_activatePending ?pl ?s)" "\<not> sl_paused (ap_activatePending ?pl ?s)"
    "sl_groupId (ap_activatePending ?pl ?s) = 5" "0 < length (pl_slots fresh_player)"
    by (simp_all add: slots running_def activate_fields)
  ultimately show ?thesis by blast
qed

lemma pause_resume_keeps_elapsed_witness:
  "\<exists>i. slot_elapsed 2007 (pl_slots (ap_control ANIM_CTRL_RESUME 5 2000 (ap_control ANIM_CTRL_PAUSE 5 400
     (ap_control ANIM_CTRL_PAUSE 5 350 (ap_start 1 5 100 (ap_prepare fade_packet fresh_player))))) ! i) = 257"
proof -
  let ?pl = "ap_start 1 5 100 (ap_prepare fade_packet fresh_player)"
  obtain i s where i: "i < length (pl_slots fresh_player)" and s: "running s" "\<not> sl_paused s" "sl_groupId s = 5"
    "pl_slots ?pl = (pl_slots fresh_player)[i := s]" "sl_cur s = started_state fade_packet 100 (rgb 0 0 0)"
    using fresh_running by blast
  have at: "pl_slots ?pl ! i = s" "i < length (pl_slots ?pl)" using i s by simp_all
  have "slot_elapsed 350 s = 250" using s by (simp add: slot_elapsed_def started_state_def Let_def)
  moreover have "addressed 5 s" using s by (simp add: addressed_def running_def)
  ultimately show ?thesis
    using pause_resume_keeps_elapsed [of i ?pl 5 350 2000 400] at s
    by (intro exI [of _ i]) (auto simp: Let_def dest!: spec [of _ 7] )
qed

section \<open>Onset, finish and hold\<close>

lemma resolve_clock:
  "ap_resolveColorRef w (pl\<lparr>pl_nowMs := t\<rparr>) c = ap_resolveColorRef w pl c"
  "ap_resolveColors w (pl\<lparr>pl_nowMs := t\<rparr>) a = ap_resolveColors w pl a"
  "ap_applyProgress w (pl\<lparr>pl_nowMs := t\<rparr>) a q out = ap_applyProgress w pl a q out"
  by (simp_all add: ap_resolveColorRef_def ap_resolveColors_def ap_applyProgress_def Let_def)

lemma tick_clock:
  "ap_tickFade w (pl\<lparr>pl_nowMs := t\<rparr>) a e out = ap_tickFade w pl a e out"
  "ap_tickBreathe w (pl\<lparr>pl_nowMs := t\<rparr>) a e out = ap_tickBreathe w pl a e out"
  "ap_tickPulse w (pl\<lparr>pl_nowMs := t\<rparr>) a e out = ap_tickPulse w pl a e out"
  "ap_tickBlink w (pl\<lparr>pl_nowMs := t\<rparr>) a e out = ap_tickBlink w pl a e out"
  "ap_tickStrobe w (pl\<lparr>pl_nowMs := t\<rparr>) a e out = ap_tickStrobe w pl a e out"
  by (simp_all add: ap_tickFade_def ap_tickBreathe_def ap_tickPulse_def ap_tickBlink_def ap_tickStrobe_def
      Let_def resolve_clock)

text \<open>Outside REACTIVE the handlers are pure: they do not read the clock nor change the slot.\<close>

lemma compute_pure:
  assumes "an_animType (sl_cur s) \<noteq> ANIM_REACTIVE"
  shows "ap_computeSlotOutput w (pl\<lparr>pl_nowMs := t\<rparr>) s e out = ap_computeSlotOutput w pl s e out"
    and "fst (ap_computeSlotOutput w pl s e out) = s"
  using assms by (simp_all add: ap_computeSlotOutput_def Let_def tick_clock resolve_clock)

definition layer_of :: "AnimationState \<Rightarrow> slot_out \<Rightarrow> CompositeLayer" where
  "layer_of a out =
     \<lparr>cl_composeOrder = an_composeOrder a, cl_isModifier = (an_animates a \<noteq> TARGET_COLOR),
      cl_op = (if an_animates a \<noteq> TARGET_COLOR then modifier_op (an_animates a) else an_composeMode a),
      cl_value = snd out, cl_color = fst out\<rparr>"

lemma composite_slot_some:
  assumes "running s" and "slot_onset (pl_nowMs pl) s = (s', Some e)" and "an_animType (sl_cur s') \<noteq> ANIM_REACTIVE"
  shows "composite_slot w pl s = (s', Some (layer_of (sl_cur s') (snd (ap_computeSlotOutput w pl s' e (rgb 0 0 0, 0)))))"
  using assms compute_pure(2) [OF assms(3), where w = w and pl = pl and e = e and out = "(rgb 0 0 0, 0)"]
  by (cases "ap_computeSlotOutput w pl s' e (rgb 0 0 0, 0)") (auto simp: composite_slot_def running_def layer_of_def Let_def)

lemma composite_slot_none:
  "running s \<Longrightarrow> slot_onset (pl_nowMs pl) s = (s', None) \<Longrightarrow> composite_slot w pl s = (s', None)"
  by (simp add: composite_slot_def running_def)

text \<open>A one-shot step: not looping, of a given length, not driven by triggers.\<close>

definition one_shot :: "AnimationState \<Rightarrow> bool" where
  "one_shot a \<longleftrightarrow> \<not> has_flag a FLAG_LOOP \<and> an_durationMs a \<noteq> 0 \<and> an_animType a \<noteq> ANIM_REACTIVE"

lemma onset_held: "one_shot (sl_cur s) \<Longrightarrow> sl_holding s \<Longrightarrow> slot_onset t s = (s, Some (an_durationMs (sl_cur s)))"
  by (simp add: slot_onset_def one_shot_def Let_def)

lemma onset_waiting:
  "one_shot (sl_cur s) \<Longrightarrow> \<not> sl_holding s \<Longrightarrow> slot_elapsed t s < an_startDelayMs (sl_cur s) \<Longrightarrow> slot_onset t s = (s, None)"
  by (simp add: slot_onset_def one_shot_def Let_def)

lemma onset_finish:
  assumes "one_shot (sl_cur s)" and "\<not> sl_holding s" and "\<not> sl_paused s"
    and "\<not> slot_elapsed t s < an_startDelayMs (sl_cur s)"
    and "an_durationMs (sl_cur s) \<le> slot_elapsed t s - an_startDelayMs (sl_cur s)"
  shows "slot_onset t s =
    (if has_flag (sl_cur s) FLAG_REAP_ON_DONE then (clear_flags s, None)
     else (s\<lparr>sl_holding := True\<rparr>, Some (an_durationMs (sl_cur s))))"
  using assms by (simp add: slot_onset_def one_shot_def Let_def)

lemma lerp8_ends [simp]: "ap_lerp8 a b 0 = a" "ap_lerp8 a b 255 = b"
  by (simp_all add: ap_lerp8_def)

lemma rgbLerp_ends [simp]: "ap_rgbLerp a b 0 = a" "ap_rgbLerp a b 255 = b"
  by (simp_all add: ap_rgbLerp_def rgb_collapse)

lemma applyProgress_color:
  "an_animates a = TARGET_COLOR \<Longrightarrow>
   ap_applyProgress w pl a q out = (ap_rgbLerp (ap_resolveColorRef w pl (an_colorFrom a)) (ap_resolveColorRef w pl (an_colorTo a)) q, snd out)"
  by (simp add: ap_applyProgress_def ap_resolveColors_def)

lemma applyProgress_value:
  "an_animates a \<noteq> TARGET_COLOR \<Longrightarrow>
   ap_applyProgress w pl a q out = (fst out, ap_lerp8 (ap_getValueFrom a) (ap_getValueTo a) q)"
  by (simp add: ap_applyProgress_def)

lemma compute_fade:
  "an_animType (sl_cur s) \<in> {ANIM_FADE, ANIM_TRANSITION} \<Longrightarrow>
   ap_computeSlotOutput w pl s e out = (s, ap_applyProgress w pl (sl_cur s) (fade_progress (sl_cur s) e) out)"
  by (auto simp: ap_computeSlotOutput_def anim_type_defs ap_tickFade_def Let_def)

lemma fade_end: "fade_progress a (an_durationMs a) = 255"
  by (simp add: fade_progress_def Let_def unat_eq_0)

text \<open>
  The end of a one-shot step. Before its start delay has passed it is transparent; on the first frame
  at which its duration has run after the delay it either frees the slot (REAP_ON_DONE, contributing
  nothing) or holds: from then on it contributes the same layer in every frame, whatever the 16-bit clock
  reads, so the wrap of the clock does not restart it. A finished FADE holds exactly its target.
\<close>

theorem one_shot_finishes:
  assumes run: "running s" and shot: "one_shot (sl_cur s)" and np: "\<not> sl_paused s" and nh: "\<not> sl_holding s"
  shows "let a = sl_cur s; elapsed = slot_elapsed (pl_nowMs pl) s; held = s\<lparr>sl_holding := True\<rparr>
    in (elapsed < an_startDelayMs a \<longrightarrow> composite_slot w pl s = (s, None))
      \<and> (an_startDelayMs a \<le> elapsed \<and> an_durationMs a \<le> elapsed - an_startDelayMs a \<longrightarrow>
          (if has_flag a FLAG_REAP_ON_DONE then composite_slot w pl s = (clear_flags s, None)
           else \<exists>l. composite_slot w pl s = (held, Some l)
             \<and> (\<forall>t. composite_slot w (pl\<lparr>pl_nowMs := t\<rparr>) held = (held, Some l))
             \<and> (an_animType a = ANIM_FADE \<and> an_animates a = TARGET_COLOR \<longrightarrow> cl_color l = ap_resolveColorRef w pl (an_colorTo a))
             \<and> (an_animType a = ANIM_FADE \<and> an_animates a \<noteq> TARGET_COLOR \<longrightarrow> cl_value l = ap_getValueTo a)))"
proof -
  let ?a = "sl_cur s" and ?h = "s\<lparr>sl_holding := True\<rparr>"
  let ?out = "\<lambda>pl. snd (ap_computeSlotOutput w pl ?h (an_durationMs ?a) (rgb 0 0 0, 0))"
  have pure: "an_animType (sl_cur ?h) \<noteq> ANIM_REACTIVE" using shot by (simp add: one_shot_def)
  have waiting: "composite_slot w pl s = (s, None)" if "slot_elapsed (pl_nowMs pl) s < an_startDelayMs ?a"
    using composite_slot_none [OF run onset_waiting [OF shot nh that]] by blast
  have held: "composite_slot w (pl\<lparr>pl_nowMs := t\<rparr>) ?h = (?h, Some (layer_of ?a (?out pl)))" for t
    using composite_slot_some [of ?h "pl\<lparr>pl_nowMs := t\<rparr>" ?h "an_durationMs ?a" w] onset_held [of ?h t] run shot pure
      compute_pure(1) [OF pure, where w = w and pl = pl and t = t] by (simp add: running_def)
  have fade_c: "cl_color (layer_of ?a (?out pl)) = ap_resolveColorRef w pl (an_colorTo ?a)"
    if "an_animType ?a = ANIM_FADE \<and> an_animates ?a = TARGET_COLOR"
    using that by (simp add: layer_of_def compute_fade fade_end applyProgress_color)
  have fade_v: "cl_value (layer_of ?a (?out pl)) = ap_getValueTo ?a"
    if "an_animType ?a = ANIM_FADE \<and> an_animates ?a \<noteq> TARGET_COLOR"
    using that by (simp add: layer_of_def compute_fade fade_end applyProgress_value)
  have finish: "if has_flag ?a FLAG_REAP_ON_DONE then composite_slot w pl s = (clear_flags s, None)
      else composite_slot w pl s = (?h, Some (layer_of ?a (?out pl)))"
    if "an_startDelayMs ?a \<le> slot_elapsed (pl_nowMs pl) s" "an_durationMs ?a \<le> slot_elapsed (pl_nowMs pl) s - an_startDelayMs ?a"
  proof (cases "has_flag ?a FLAG_REAP_ON_DONE")
    case True
    then have "slot_onset (pl_nowMs pl) s = (clear_flags s, None)"
      using onset_finish [OF shot nh np, of "pl_nowMs pl"] that by simp
    then show ?thesis using True composite_slot_none [OF run] by simp
  next
    case False
    then have "slot_onset (pl_nowMs pl) s = (?h, Some (an_durationMs ?a))"
      using onset_finish [OF shot nh np, of "pl_nowMs pl"] that by simp
    then show ?thesis using False composite_slot_some [OF run _ pure] by simp
  qed
  show ?thesis using waiting held fade_c fade_v finish unfolding Let_def by meson
qed

definition fade_slot :: Slot where
  "fade_slot = raw_slot\<lparr>sl_started := True, sl_holding := False, sl_cur := started_state fade_packet 100 (rgb 0 0 0)\<rparr>"

lemma one_shot_finishes_witness:
  "\<exists>l. composite_slot 32 (fresh_player\<lparr>pl_nowMs := 1200\<rparr>) fade_slot = (fade_slot\<lparr>sl_holding := True\<rparr>, Some l)
     \<and> composite_slot 32 (fresh_player\<lparr>pl_nowMs := 150\<rparr>) (fade_slot\<lparr>sl_holding := True\<rparr>) = (fade_slot\<lparr>sl_holding := True\<rparr>, Some l)
     \<and> cl_color l = rgb 200 100 50"
proof -
  have s: "running fade_slot" "one_shot (sl_cur fade_slot)" "\<not> sl_paused fade_slot" "\<not> sl_holding fade_slot"
    by (simp_all add: running_def fade_slot_def raw_slot_def one_shot_def started_state_def prepared_state_def fade_packet_def
        has_flag_def Let_def anim_type_defs FLAG_LOOP_def)
  have e: "slot_elapsed 1200 fade_slot = 1100"
    by (simp add: slot_elapsed_def fade_slot_def raw_slot_def started_state_def Let_def)
  have a: "an_startDelayMs (sl_cur fade_slot) = 0" "an_durationMs (sl_cur fade_slot) = 1000" "an_animType (sl_cur fade_slot) = ANIM_FADE"
    "an_animates (sl_cur fade_slot) = TARGET_COLOR" "\<not> has_flag (sl_cur fade_slot) FLAG_REAP_ON_DONE"
    "ap_resolveColorRef 32 pl (an_colorTo (sl_cur fade_slot)) = rgb 200 100 50" for pl
    by (simp_all add: fade_slot_def started_state_def prepared_state_def fade_packet_def Let_def has_flag_def TARGET_COLOR_def
        FLAG_CURRENT_COLOR_TO_def ap_resolveColorRef_def ColorRef_rgb_def)
  have dur: "an_startDelayMs (sl_cur fade_slot) \<le> slot_elapsed 1200 fade_slot
      \<and> an_durationMs (sl_cur fade_slot) \<le> slot_elapsed 1200 fade_slot - an_startDelayMs (sl_cur fade_slot)"
    by (simp add: a e word_le_nat_alt)
  note th = one_shot_finishes [OF s, where w = 32 and pl = "fresh_player\<lparr>pl_nowMs := 1200\<rparr>", unfolded Let_def]
  from th dur a obtain l where l: "composite_slot 32 (fresh_player\<lparr>pl_nowMs := 1200\<rparr>) fade_slot = (fade_slot\<lparr>sl_holding := True\<rparr>, Some l)"
    "\<forall>t. composite_slot 32 (fresh_player\<lparr>pl_nowMs := 1200, pl_nowMs := t\<rparr>) (fade_slot\<lparr>sl_holding := True\<rparr>) = (fade_slot\<lparr>sl_holding := True\<rparr>, Some l)"
    "cl_color l = rgb 200 100 50" by auto
  from l(2) [rule_format, of 150] l(1,3) show ?thesis by auto
qed

section \<open>The composited frame\<close>

lemma mset_map_filter: "mset xs = mset ys \<Longrightarrow> mset (List.map_filter f xs) = mset (List.map_filter f ys)"
  by (simp add: map_filter_def mset_filter)

lemma setOutput_dirty: "pl_outputDirty (ap_setOutput c pl) \<longleftrightarrow> pl_outputDirty pl \<or> c \<noteq> pl_lastOutput pl"
  by (simp add: ap_setOutput_def)

lemma composite_output:
  "pl_lastOutput (ap_composite w pl) =
     (if contributions w pl = [] then pl_backgroundColor pl else foldLayers w (contributions w pl) (pl_backgroundColor pl))"
  "pl_outputDirty (ap_composite w pl) \<longleftrightarrow> pl_outputDirty pl \<or> pl_lastOutput (ap_composite w pl) \<noteq> pl_lastOutput pl"
  by (simp_all add: ap_composite_def Let_def setOutput_dirty)

lemma contributions_slots:
  assumes "pl_nowMs pl = pl_nowMs pl'" "pl_palette pl = pl_palette pl'" "pl_paletteCount pl = pl_paletteCount pl'"
    "pl_baseColors pl = pl_baseColors pl'"
  shows "composite_slot w pl s = composite_slot w pl' s"
proof -
  have r: "ap_resolveColorRef w pl c = ap_resolveColorRef w pl' c" for c using assms by (simp add: ap_resolveColorRef_def)
  then have p: "ap_applyProgress w pl a q out = ap_applyProgress w pl' a q out" for a q out
    by (simp add: ap_applyProgress_def ap_resolveColors_def)
  have "ap_computeSlotOutput w pl s e out = ap_computeSlotOutput w pl' s e out" for s e out
    using assms(1) by (simp add: ap_computeSlotOutput_def r p ap_tickFade_def ap_tickBreathe_def ap_tickPulse_def ap_tickBlink_def
        ap_tickStrobe_def ap_tickReactive_def Let_def)
  then show ?thesis using assms(1) by (simp add: composite_slot_def)
qed

text \<open>
  A tick. Less than 16 ms after the previous frame it only records the time. Otherwise the current
  colour becomes the background when no slot contributes, and else the contributions folded onto the
  background in composeOrder; the dirty flag is raised exactly when the colour changed. The colour does not
  depend on which slots the groups were given, as long as the contributing layers have different
  orders: two players that differ only in the arrangement of their slots show the same.
\<close>

theorem tick_shows_frame:
  assumes perm: "mset ss = mset (pl_slots pl)"
  shows "if now - pl_lastTickMs pl < 16 then ap_tick w now pl = pl\<lparr>pl_nowMs := now\<rparr>
    else let layers = contributions w (pl\<lparr>pl_nowMs := now\<rparr>); pl' = ap_tick w now pl
      in pl_lastOutput pl' = (if layers = [] then pl_backgroundColor pl
           else fold (applyLayer w) (sort_key cl_composeOrder layers) (pl_backgroundColor pl))
         \<and> (pl_outputDirty pl' \<longleftrightarrow> pl_outputDirty pl \<or> pl_lastOutput pl' \<noteq> pl_lastOutput pl)
         \<and> pl_lastTickMs pl' = now \<and> pl_backgroundColor pl' = pl_backgroundColor pl
         \<and> (distinct (map cl_composeOrder layers) \<longrightarrow>
              pl_lastOutput (ap_tick w now (pl\<lparr>pl_slots := ss\<rparr>)) = pl_lastOutput pl')"
proof (cases "now - pl_lastTickMs pl < 16")
  case True
  then show ?thesis by (simp add: ap_tick_def Let_def)
next
  case False
  let ?q = "pl\<lparr>pl_nowMs := now, pl_lastTickMs := now\<rparr>"
  let ?r = "pl\<lparr>pl_slots := ss, pl_nowMs := now, pl_lastTickMs := now\<rparr>"
  let ?layers = "contributions w (pl\<lparr>pl_nowMs := now\<rparr>)"
  have tick: "ap_tick w now pl = ap_composite w ?q" using False by (simp add: ap_tick_def Let_def)
  have tick': "ap_tick w now (pl\<lparr>pl_slots := ss\<rparr>) = ap_composite w ?r"
    using False by (simp add: ap_tick_def Let_def)
  have slot: "composite_slot w ?q = composite_slot w (pl\<lparr>pl_nowMs := now\<rparr>)"
    "composite_slot w ?r = composite_slot w (pl\<lparr>pl_nowMs := now\<rparr>)"
    by (intro ext contributions_slots; simp)+
  have c: "contributions w ?q = ?layers" by (simp add: contributions_def slot)
  have ms: "mset (contributions w ?r) = mset ?layers"
    unfolding contributions_def slot using mset_map_filter [OF perm] by simp
  then have emp: "contributions w ?r = [] \<longleftrightarrow> ?layers = []" by (metis mset_zero_iff)
  have fold_eq: "foldLayers w (contributions w ?r) base = foldLayers w ?layers base"
    if "distinct (map cl_composeOrder ?layers)" for base
    using sort_key_unique [OF ms [symmetric] that] by (simp add: foldLayers_sorted)
  show ?thesis unfolding if_not_P [OF False] Let_def
  proof (intro conjI impI)
    assume "distinct (map cl_composeOrder ?layers)"
    then show "pl_lastOutput (ap_tick w now (pl\<lparr>pl_slots := ss\<rparr>)) = pl_lastOutput (ap_tick w now pl)"
      unfolding tick tick' composite_output(1) c emp by (simp add: fold_eq)
  qed (simp_all add: tick composite_output c foldLayers_sorted)
qed

lemma tick_shows_frame_witness:
  "pl_lastOutput (ap_tick 32 100 (ap_setColorDirect (rgb 7 8 9) fresh_player)) = rgb 7 8 9"
proof -
  let ?pl = "ap_setColorDirect (rgb 7 8 9) fresh_player"
  have "contributions 32 (?pl\<lparr>pl_nowMs := 100\<rparr>) = []"
    by (simp add: contributions_def map_filter_def ap_setColorDirect_def fresh_player_def ap_init_def composite_slot_def
        clearSlot_def clear_flags_def filter_empty_conv)
  moreover have "pl_backgroundColor ?pl = rgb 7 8 9" "\<not> (100 :: u16) - pl_lastTickMs ?pl < 16"
    by (simp_all add: ap_setColorDirect_def fresh_player_def ap_init_def word_less_nat_alt)
  ultimately show ?thesis using tick_shows_frame [OF refl, of 100 ?pl 32] by (simp add: Let_def)
qed

section \<open>Interpolated colours\<close>

lemma lerp_step_le: "unat (d :: u8) * unat (f :: u8) div 256 \<le> unat d"
  using div_le_mono [of "unat d * unat f" "unat d * 256" 256] unat_u8_le [of f] by (simp add: mult_le_mono2)

lemma lerp8_between: "between_u8 a b (ap_lerp8 a b f)"
proof -
  have up: "a \<le> a + of_nat k \<and> a + of_nat k \<le> b" if "a \<le> b" "k \<le> unat (b - a)" for a b :: u8 and k
  proof -
    have "unat a + k \<le> unat b" "unat a + k < 256"
      using that unat_u8_le [of b] by (simp_all add: unat_sub word_le_nat_alt)
    then have "unat (a + of_nat k) = unat a + k" by (simp add: unat_word_ariths unat_of_nat_u8 unsigned_of_nat take_bit_eq_mod)
    then show ?thesis using \<open>unat a + k \<le> unat b\<close> by (simp add: word_le_nat_alt)
  qed
  have down: "b \<le> a - of_nat k \<and> a - of_nat k \<le> a" if "b \<le> a" "k \<le> unat (a - b)" for a b :: u8 and k
  proof -
    have k: "k \<le> unat a" "unat b + k \<le> unat a" using that by (simp_all add: unat_sub word_le_nat_alt)
    have "k \<le> 255" using k(1) unat_u8_le [of a] by linarith
    then have "unat (of_nat k :: u8) = k" by (rule unat_of_nat_u8)
    then have "unat (a - of_nat k) = unat a - k" using k(1) by (simp add: unat_sub word_le_nat_alt)
    then show ?thesis using k by (simp add: word_le_nat_alt)
  qed
  show ?thesis
    using up [OF _ lerp_step_le, of a b f] down [OF _ lerp_step_le, of b a f]
    by (auto simp: ap_lerp8_def between_u8_def cc_min_def cc_max_def not_less)
qed

lemma rgbLerp_between: "between_rgb a b (ap_rgbLerp a b f)"
  by (simp add: between_rgb_def ap_rgbLerp_def rgb_def lerp8_between)

definition blends :: "AnimationState \<Rightarrow> bool" where
  "blends a \<longleftrightarrow>
     an_animType a \<in> {ANIM_FADE, ANIM_TRANSITION, ANIM_PULSE, ANIM_BLINK, ANIM_REACTIVE}
     \<or> (an_animType a = ANIM_BREATHE \<and> 2 \<le> unat (an_durationMs a))"

lemma compute_blends:
  assumes "blends (sl_cur s)"
  obtains q where "snd (ap_computeSlotOutput w pl s e out) = ap_applyProgress w pl (sl_cur s) q out"
proof -
  have cur: "sl_cur (fst (ap_tickReactive w pl s out)) = sl_cur s"
    by (simp add: ap_tickReactive_def Let_def)
  have breathe: "\<exists>q. ap_tickBreathe w pl a e out = ap_applyProgress w pl a q out" if "2 \<le> unat (an_durationMs a)" for a
    using that by (auto simp: ap_tickBreathe_def Let_def)
  have reactive: "\<exists>q. snd (ap_tickReactive w pl s out) = ap_applyProgress w pl (sl_cur s) q out"
    by (auto simp: ap_tickReactive_def Let_def)
  consider "an_animType (sl_cur s) \<in> {ANIM_FADE, ANIM_TRANSITION}" | "an_animType (sl_cur s) = ANIM_PULSE"
    | "an_animType (sl_cur s) = ANIM_BLINK" | "an_animType (sl_cur s) = ANIM_REACTIVE"
    | "an_animType (sl_cur s) = ANIM_BREATHE" "2 \<le> unat (an_durationMs (sl_cur s))"
    using assms by (auto simp: blends_def)
  then have "\<exists>q. snd (ap_computeSlotOutput w pl s e out) = ap_applyProgress w pl (sl_cur s) q out"
  proof cases
    case 1 then show ?thesis by (auto simp: compute_fade)
  next
    case 2 then show ?thesis by (auto simp: ap_computeSlotOutput_def anim_type_defs Let_def ap_tickPulse_def)
  next
    case 3 then show ?thesis by (auto simp: ap_computeSlotOutput_def anim_type_defs Let_def ap_tickBlink_def)
  next
    case 4 then show ?thesis using reactive by (simp add: ap_computeSlotOutput_def anim_type_defs Let_def)
  next
    case 5 then show ?thesis using breathe by (simp add: ap_computeSlotOutput_def anim_type_defs Let_def)
  qed
  then show thesis using that by blast
qed

text \<open>
  Interpolation never leaves its endpoints. For FADE, TRANSITION, PULSE, BLINK, REACTIVE and BREATHE (of
  at least 2 ms) each channel of a source layer lies between those of its two resolved colours, and a
  modifier's value between its two values, at every elapsed time; a FADE starts exactly at the first colour
  and is exactly at the second from its duration on.
\<close>

theorem slot_colour_between:
  assumes "blends (sl_cur s)"
  shows "let a = sl_cur s; from = ap_resolveColorRef w pl (an_colorFrom a); to = ap_resolveColorRef w pl (an_colorTo a);
      (c, v) = snd (ap_computeSlotOutput w pl s elapsed (black, 0))
    in (if an_animates a = TARGET_COLOR then between_rgb from to c else between_u8 (ap_getValueFrom a) (ap_getValueTo a) v)
      \<and> (an_animType a = ANIM_FADE \<and> an_animates a = TARGET_COLOR \<and> an_durationMs a \<noteq> 0 \<longrightarrow>
          (elapsed = 0 \<longrightarrow> c = from) \<and> (an_durationMs a \<le> elapsed \<longrightarrow> c = to))"
proof -
  obtain q where q: "snd (ap_computeSlotOutput w pl s elapsed (black, 0)) = ap_applyProgress w pl (sl_cur s) q (black, 0)"
    by (rule compute_blends [OF assms])
  have fade: "fade_progress a 0 = 0" "a' \<le> elapsed \<Longrightarrow> an_durationMs a = a' \<Longrightarrow> fade_progress a elapsed = 255"
    if "an_durationMs a \<noteq> 0" for a a'
  proof -
    show "fade_progress a 0 = 0" using that by (simp add: fade_progress_def)
    assume le: "a' \<le> elapsed" and eq: "an_durationMs a = a'"
    have pos: "0 < unat (an_durationMs a)" using that by (simp add: unat_gt_0)
    have "unat (an_durationMs a) * 256 \<le> unat elapsed * 256" using le eq by (simp add: word_le_nat_alt)
    then have "256 \<le> unat elapsed * 256 div unat (an_durationMs a)"
      using div_le_mono [of "unat (an_durationMs a) * 256" "unat elapsed * 256" "unat (an_durationMs a)"] pos by simp
    then show "fade_progress a elapsed = 255" using that by (simp add: fade_progress_def Let_def)
  qed
  show ?thesis
  proof (cases "an_animates (sl_cur s) = TARGET_COLOR")
    case True
    then show ?thesis using q fade [of "sl_cur s"] rgbLerp_between
      by (auto simp: applyProgress_color Let_def compute_fade split: prod.splits)
  next
    case False
    then show ?thesis using q lerp8_between by (auto simp: applyProgress_value Let_def split: prod.splits)
  qed
qed

lemma slot_colour_between_witness:
  "fst (snd (ap_computeSlotOutput 32 fresh_player fade_slot 0 (black, 0))) = rgb 0 0 0"
proof -
  have a: "an_animType (sl_cur fade_slot) = ANIM_FADE" "an_animates (sl_cur fade_slot) = TARGET_COLOR" "an_durationMs (sl_cur fade_slot) \<noteq> 0"
    "ap_resolveColorRef 32 fresh_player (an_colorFrom (sl_cur fade_slot)) = rgb 0 0 0"
    by (simp_all add: fade_slot_def started_state_def prepared_state_def fade_packet_def Let_def has_flag_def TARGET_COLOR_def
        FLAG_CURRENT_COLOR_FROM_def ap_resolveColorRef_def ColorRef_rgb_def)
  then have "blends (sl_cur fade_slot)" by (simp add: blends_def)
  from slot_colour_between [OF this, where w = 32 and pl = fresh_player and elapsed = 0] a show ?thesis
    by (simp add: Let_def split: prod.splits)
qed

section \<open>Edge cases of the handlers\<close>

text \<open>
  A REACTIVE slot subtracts the decay since the trigger from the level of the previous frame, not from the
  trigger's level: with a decay rate of 100 per second, frames at 500 ms and 1000 ms leave 50 of a trigger of 200,
  where one frame at 1000 ms leaves 100.
\<close>

lemma reactive_level:
  "sl_reactiveLevel (fst (ap_tickReactive w pl s out)) =
     of_nat (unat (sl_reactiveLevel s)
       - (unat (an_param1 (sl_cur s)) * unat (pl_nowMs pl - sl_reactiveTriggerMs s)) div 1000)"
  by (simp add: ap_tickReactive_def Let_def of_nat_diff)

definition reactive_slot :: Slot where
  "reactive_slot = raw_slot\<lparr>sl_cur := no_anim\<lparr>an_animType := ANIM_REACTIVE, an_param1 := 100\<rparr>, sl_reactiveLevel := 200,
     sl_reactiveTriggerMs := 0\<rparr>"

lemma reactive_decay_compounds:
  "sl_reactiveLevel (fst (ap_tickReactive w (pl\<lparr>pl_nowMs := 1000\<rparr>)
     (fst (ap_tickReactive w (pl\<lparr>pl_nowMs := 500\<rparr>) reactive_slot (black, 0))) (black, 0))) = 50"
  "sl_reactiveLevel (fst (ap_tickReactive w (pl\<lparr>pl_nowMs := 1000\<rparr>) reactive_slot (black, 0))) = 100"
proof -
  have 1: "fst (ap_tickReactive w (pl\<lparr>pl_nowMs := 500\<rparr>) reactive_slot (black, 0)) = reactive_slot\<lparr>sl_reactiveLevel := 150\<rparr>"
    by (simp add: ap_tickReactive_def reactive_slot_def Let_def no_anim_def)
  show "sl_reactiveLevel (fst (ap_tickReactive w (pl\<lparr>pl_nowMs := 1000\<rparr>) reactive_slot (black, 0))) = 100"
    unfolding reactive_level by (simp add: reactive_slot_def no_anim_def)
  show "sl_reactiveLevel (fst (ap_tickReactive w (pl\<lparr>pl_nowMs := 1000\<rparr>)
     (fst (ap_tickReactive w (pl\<lparr>pl_nowMs := 500\<rparr>) reactive_slot (black, 0))) (black, 0))) = 50"
    unfolding 1 reactive_level by (simp add: reactive_slot_def no_anim_def)
qed

text \<open>
  A PULSE reaches its first colour at its end only if the fall lasts at least 255 ms: the quotient
  \<open>fall * 256 / (fall + 1)\<close> is below 255 before.
\<close>

lemma pulse_end_residual:
  assumes "an_durationMs a = 200" and "an_param1 a = 0" and "an_param2 a = 255"
  shows "pulse_progress a 200 = 1"
  using assms by (simp add: pulse_progress_def pulse_shares_def Let_def)

text \<open>
  A step of unlimited length (duration 0, not looping) never enters the holding state, so its start delay
  is compared again after every wrap of the 16-bit clock, and it is transparent once more.
\<close>

lemma unlimited_step_reappears:
  assumes "\<not> sl_holding s" and "\<not> sl_paused s" and "an_durationMs (sl_cur s) = 0" and "an_startDelayMs (sl_cur s) = 5000"
  shows "snd (slot_onset (an_startMs (sl_cur s) + of_nat 60000) s) = Some 55000"
    and "slot_onset (an_startMs (sl_cur s) + of_nat (65536 + 100)) s = (s, None)"
  using assms by (simp_all add: slot_onset_def slot_elapsed_def Let_def word_less_nat_alt)

end
