(* ===== verification/Panel_Graph.thy ===== *)
theory Panel_Graph
  imports Discovery_Coordinator
begin

text \<open>
  The raw adjacency of the discovered tree (\<open>Core/Controller/PanelGraph.hpp\<close>): panel indices mapped to
  slots, and for every slot the list of its neighbours in compressed-row form, built by counting degrees,
  taking prefix sums and filling with a cursor per slot. Slots and offsets are naturals; the three places
  where the code counts in one byte wrap with \<open>mod 256\<close>. The arrays keep their capacity; what the
  constructor leaves uninitialised is whatever graph \<open>pg_build\<close> is applied to.
\<close>

section \<open>The model\<close>

definition MAXN :: nat where "MAXN = LIGHTNET_MAX_PANELS"
definition NO_SLOT :: nat where "NO_SLOT = 0xFF"

record PanelGraph =
  pg_n :: nat
  pg_idx :: "u8 list"
  pg_slotByIndex :: "nat list"
  pg_deg :: "nat list"
  pg_adjStart :: "nat list"
  pg_adjSlot :: "nat list"
  pg_adjMyEdge :: "u8 list"
  pg_adjPeerEdge :: "u8 list"

definition pg_init :: "PanelGraph \<Rightarrow> PanelGraph" where
  "pg_init raw = raw\<lparr>pg_n := 0\<rparr>"

definition inc8 :: "nat \<Rightarrow> nat" where
  "inc8 x = (x + 1) mod 256"

definition count_link :: "nat list \<Rightarrow> TopoLink \<Rightarrow> nat list \<Rightarrow> nat list" where
  "count_link slotByIndex l deg =
     (let a = slotByIndex ! unat (panelA l); b = slotByIndex ! unat (panelB l)
      in if a = NO_SLOT \<or> b = NO_SLOT then deg
         else (let deg = deg[a := inc8 (deg ! a)] in deg[b := inc8 (deg ! b)]))"

text \<open>The prefix sums: the accumulator and the array, slot after slot.\<close>

definition start_step :: "nat list \<Rightarrow> nat \<Rightarrow> nat \<times> nat list \<Rightarrow> nat \<times> nat list" where
  "start_step deg s st = (case st of (acc, adjStart) \<Rightarrow> (acc + deg ! s, adjStart[s := acc mod 256]))"

type_synonym adj_arrays = "nat list \<times> nat list \<times> u8 list \<times> u8 list"

definition put_half :: "nat \<Rightarrow> nat \<times> u8 \<times> u8 \<Rightarrow> adj_arrays \<Rightarrow> adj_arrays" where
  "put_half s h st =
     (case (h, st) of ((t, myEdge, peerEdge), (cursor, adjSlot, adjMyEdge, adjPeerEdge)) \<Rightarrow>
        (cursor[s := inc8 (cursor ! s)], adjSlot[cursor ! s := t], adjMyEdge[cursor ! s := myEdge],
         adjPeerEdge[cursor ! s := peerEdge]))"

definition fill_link :: "nat list \<Rightarrow> TopoLink \<Rightarrow> adj_arrays \<Rightarrow> adj_arrays" where
  "fill_link slotByIndex l st =
     (let a = slotByIndex ! unat (panelA l); b = slotByIndex ! unat (panelB l)
      in if a = NO_SLOT \<or> b = NO_SLOT then st
         else put_half b (a, edgeB l, edgeA l) (put_half a (b, edgeA l, edgeB l) st))"

definition pg_buildAdjacency :: "TopoLink list \<Rightarrow> PanelGraph \<Rightarrow> PanelGraph" where
  "pg_buildAdjacency links g =
     (let n = pg_n g; sbi = pg_slotByIndex g;
          deg = fold (count_link sbi) links (replicate n 0 @ drop n (pg_deg g));
          adjStart = snd (fold (start_step deg) [0..<n] (0, pg_adjStart g));
          cursor = map (\<lambda>s. adjStart ! s) [0..<n]
      in case fold (fill_link sbi) links (cursor, pg_adjSlot g, pg_adjMyEdge g, pg_adjPeerEdge g) of
           (cursor, adjSlot, adjMyEdge, adjPeerEdge) \<Rightarrow>
             g\<lparr>pg_deg := deg, pg_adjStart := adjStart, pg_adjSlot := adjSlot, pg_adjMyEdge := adjMyEdge,
               pg_adjPeerEdge := adjPeerEdge\<rparr>)"

definition register_panel :: "u8 list \<Rightarrow> nat \<Rightarrow> PanelGraph \<Rightarrow> PanelGraph" where
  "register_panel panelIndices s g =
     g\<lparr>pg_idx := (pg_idx g)[s := panelIndices ! s], pg_slotByIndex := (pg_slotByIndex g)[unat (panelIndices ! s) := s]\<rparr>"

definition pg_build :: "u8 list \<Rightarrow> TopoLink list \<Rightarrow> PanelGraph \<Rightarrow> bool \<times> PanelGraph" where
  "pg_build panelIndices links g =
     (let g = g\<lparr>pg_n := 0\<rparr>; n = length panelIndices
      in if n = 0 \<or> MAXN < n then (False, g)
         else
           (let g = g\<lparr>pg_n := n, pg_slotByIndex := replicate 256 NO_SLOT\<rparr>;
                g = fold (register_panel panelIndices) [0..<n] g
            in (True, pg_buildAdjacency links g)))"

definition pg_count :: "PanelGraph \<Rightarrow> nat" where "pg_count g = pg_n g"
definition pg_panelAt :: "PanelGraph \<Rightarrow> nat \<Rightarrow> u8" where "pg_panelAt g s = pg_idx g ! s"

definition pg_slotOf :: "PanelGraph \<Rightarrow> u8 \<Rightarrow> nat option" where
  "pg_slotOf g p = (let s = pg_slotByIndex g ! unat p in if s = NO_SLOT then None else Some s)"

definition pg_degree :: "PanelGraph \<Rightarrow> nat \<Rightarrow> nat" where "pg_degree g s = pg_deg g ! s"
definition pg_neighborSlot :: "PanelGraph \<Rightarrow> nat \<Rightarrow> nat \<Rightarrow> nat" where "pg_neighborSlot g s i = pg_adjSlot g ! (pg_adjStart g ! s + i)"
definition pg_neighborMyEdge :: "PanelGraph \<Rightarrow> nat \<Rightarrow> nat \<Rightarrow> u8" where "pg_neighborMyEdge g s i = pg_adjMyEdge g ! (pg_adjStart g ! s + i)"
definition pg_neighborPeerEdge :: "PanelGraph \<Rightarrow> nat \<Rightarrow> nat \<Rightarrow> u8" where "pg_neighborPeerEdge g s i = pg_adjPeerEdge g ! (pg_adjStart g ! s + i)"

definition pg_lowestSlot :: "PanelGraph \<Rightarrow> nat" where
  "pg_lowestSlot g = fold (\<lambda>s best. if pg_idx g ! s < pg_idx g ! best then s else best) [1..<pg_n g] 0"

section \<open>Half edges\<close>

text \<open>A link seen from each of its ends: the slot, and there the neighbour and the two connectors.\<close>

type_synonym half_edge = "nat \<times> nat \<times> u8 \<times> u8"

definition link_halves :: "(u8 \<Rightarrow> nat option) \<Rightarrow> TopoLink \<Rightarrow> half_edge list" where
  "link_halves slot l =
     (case (slot (panelA l), slot (panelB l)) of
        (Some a, Some b) \<Rightarrow> [(a, b, edgeA l, edgeB l), (b, a, edgeB l, edgeA l)]
      | _ \<Rightarrow> [])"

definition half_edges :: "(u8 \<Rightarrow> nat option) \<Rightarrow> TopoLink list \<Rightarrow> half_edge list" where
  "half_edges slot links = concat (map (link_halves slot) links)"

definition at_slot :: "nat \<Rightarrow> half_edge list \<Rightarrow> (nat \<times> u8 \<times> u8) list" where
  "at_slot s hs = map snd (filter (\<lambda>h. fst h = s) hs)"

definition lookup_slot :: "nat list \<Rightarrow> u8 \<Rightarrow> nat option" where
  "lookup_slot sbi p = (if sbi ! unat p = NO_SLOT then None else Some (sbi ! unat p))"

definition bump :: "half_edge \<Rightarrow> nat list \<Rightarrow> nat list" where
  "bump h deg = deg[fst h := inc8 (deg ! fst h)]"

lemma fold_links:
  assumes "\<And>l st. f l st = fold g (link_halves slot l) st"
  shows "fold f links st = fold g (half_edges slot links) st"
  by (induction links arbitrary: st) (simp_all add: half_edges_def assms)

lemma count_link_halves:
  "count_link sbi l deg = fold bump (link_halves (lookup_slot sbi) l) deg"
  by (simp add: count_link_def link_halves_def lookup_slot_def Let_def bump_def)

lemma fill_link_halves:
  "fill_link sbi l st = fold (\<lambda>h. put_half (fst h) (snd h)) (link_halves (lookup_slot sbi) l) st"
  by (simp add: fill_link_def link_halves_def lookup_slot_def Let_def)

lemma length_half_edges: "length (half_edges slot links) \<le> 2 * length links"
  by (induction links) (auto simp: half_edges_def link_halves_def split: option.splits)

lemma at_slot_simps [simp]:
  "at_slot s [] = []" "at_slot s (hs @ hs') = at_slot s hs @ at_slot s hs'"
  "at_slot s [h] = (if fst h = s then [snd h] else [])"
  by (simp_all add: at_slot_def)

lemma length_at_slot: "length (at_slot s hs) \<le> length hs"
  by (simp add: at_slot_def)

section \<open>Degrees and prefix sums\<close>

lemma length_deg_fold: "length (fold bump hs deg) = length deg"
  by (induction hs rule: rev_induct) (simp_all add: bump_def)

lemma deg_fold:
  "s < length deg \<Longrightarrow> deg ! s + length (at_slot s hs) < 256 \<Longrightarrow>
   fold bump hs deg ! s = deg ! s + length (at_slot s hs)"
  by (induction hs rule: rev_induct) (auto simp: bump_def inc8_def nth_list_update length_deg_fold split: if_splits)

lemma start_fold:
  "n \<le> length st \<Longrightarrow>
   fold (start_step deg) [0..<n] (0, st) = ((\<Sum>j<n. deg ! j), map (\<lambda>s. (\<Sum>j < s. deg ! j) mod 256) [0..<n] @ drop n st)"
proof (induction n)
  case (Suc n)
  have "(map f [0..<n] @ drop n st)[n := x] = map f [0..<n] @ x # drop (Suc n) st" for f :: "nat \<Rightarrow> nat" and x
    using Suc.prems by (simp add: list_update_append Cons_nth_drop_Suc [symmetric])
  then show ?case using Suc by (simp add: start_step_def)
qed simp

section \<open>Filling the rows\<close>

definition row_start :: "half_edge list \<Rightarrow> nat \<Rightarrow> nat" where
  "row_start hs s = (\<Sum>j < s. length (at_slot j hs))"

lemma row_start_Suc: "row_start hs (Suc s) = row_start hs s + length (at_slot s hs)"
  by (simp add: row_start_def)

lemma row_start_mono: "s \<le> t \<Longrightarrow> row_start hs s \<le> row_start hs t"
  unfolding row_start_def by (intro sum_mono2) auto

lemma row_disjoint:
  assumes "s \<noteq> t" and "i < length (at_slot s hs)" and "j < length (at_slot t hs)"
  shows "row_start hs s + i \<noteq> row_start hs t + j"
proof (cases "s < t")
  case True
  then have "row_start hs (Suc s) \<le> row_start hs t" by (intro row_start_mono) simp
  then show ?thesis using assms by (simp add: row_start_Suc)
next
  case False
  then have "row_start hs (Suc t) \<le> row_start hs s" using assms(1) by (intro row_start_mono) simp
  then show ?thesis using assms by (simp add: row_start_Suc)
qed

lemma row_total: "\<forall>h \<in> set hs. fst h < n \<Longrightarrow> row_start hs n = length hs"
proof (induction hs rule: rev_induct)
  case (snoc h hs)
  have "row_start (hs @ [h]) n = (\<Sum>j<n. length (at_slot j hs) + (if fst h = j then 1 else 0))"
    unfolding row_start_def by (intro sum.cong) auto
  also have "\<dots> = row_start hs n + (\<Sum>j<n. if fst h = j then 1 else 0)" by (simp only: sum.distrib row_start_def)
  also have "(\<Sum>j<n. if fst h = j then 1 else 0) = (1 :: nat)" using snoc.prems by simp
  finally show ?case using snoc by simp
qed (simp add: row_start_def)

lemma row_bound:
  assumes "\<forall>h \<in> set hs. fst h < n" and "s < n"
  shows "row_start hs s + length (at_slot s hs) \<le> length hs"
  using row_start_mono [of "Suc s" n hs] row_total [OF assms(1)] assms(2) by (simp add: row_start_Suc)

text \<open>
  The state of the fill after a prefix \<open>pre\<close> of the half edges: each cursor has moved over the half
  edges of its slot, and the cells behind it hold them in order.
\<close>

definition fill_inv :: "half_edge list \<Rightarrow> nat \<Rightarrow> half_edge list \<Rightarrow> adj_arrays \<Rightarrow> bool" where
  "fill_inv hs n pre st =
     (case st of (cursor, adjSlot, adjMyEdge, adjPeerEdge) \<Rightarrow>
        length cursor = n \<and> length adjSlot = 2 * MAXN \<and> length adjMyEdge = 2 * MAXN \<and> length adjPeerEdge = 2 * MAXN
        \<and> (\<forall>s < n. cursor ! s = row_start hs s + length (at_slot s pre))
        \<and> (\<forall>s < n. \<forall>i < length (at_slot s pre).
             (adjSlot ! (row_start hs s + i), adjMyEdge ! (row_start hs s + i), adjPeerEdge ! (row_start hs s + i))
             = at_slot s pre ! i))"

lemma fill_step:
  assumes hs: "hs = pre @ h # post" and targets: "\<forall>h \<in> set hs. fst h < n" and fits: "length hs \<le> 2 * MAXN"
    and inv: "fill_inv hs n pre st"
  shows "fill_inv hs n (pre @ [h]) (put_half (fst h) (snd h) st)"
proof -
  obtain cursor A M P where st: "st = (cursor, A, M, P)" by (cases st) auto
  obtain s0 t me pe where h: "h = (s0, t, me, pe)" by (cases h) auto
  note I = inv [unfolded fill_inv_def st split]
  have s0: "s0 < n" using targets hs h by auto
  let ?k = "row_start hs s0 + length (at_slot s0 pre)"
  have cnt: "length (at_slot s0 pre) < length (at_slot s0 hs)" unfolding hs by (simp add: h at_slot_def)
  have k: "?k < 2 * MAXN" using row_bound [OF targets s0] cnt fits by linarith
  have k8: "inc8 ?k = Suc ?k" using k by (simp add: inc8_def MAXN_def LIGHTNET_MAX_PANELS_def)
  have pre_le: "length (at_slot s pre) \<le> length (at_slot s hs)" for s unfolding hs by (simp add: at_slot_def)
  have apart: "row_start hs s + i \<noteq> ?k" if "s \<noteq> s0 \<or> i < length (at_slot s0 pre)" "i < length (at_slot s pre)" for s i
    using row_disjoint [of s s0 i hs "length (at_slot s0 pre)"] that pre_le [of s] cnt by (cases "s = s0") auto
  have cells: "(A[?k := t] ! (row_start hs s + i), M[?k := me] ! (row_start hs s + i), P[?k := pe] ! (row_start hs s + i))
      = at_slot s (pre @ [h]) ! i" if s: "s < n" and i: "i < length (at_slot s (pre @ [h]))" for s i
  proof (cases "s = s0 \<and> i = length (at_slot s0 pre)")
    case True
    then show ?thesis using I k by (simp add: h)
  next
    case False
    then have old: "i < length (at_slot s pre)" using i by (auto simp: h less_Suc_eq split: if_splits)
    then have "row_start hs s + i \<noteq> ?k" using False apart [of s i] by auto
    then show ?thesis using I s old by (simp add: nth_append)
  qed
  have "cursor[s0 := Suc ?k] ! s = row_start hs s + length (at_slot s (pre @ [h]))" if "s < n" for s
    using I that by (auto simp: h nth_list_update)
  then show ?thesis using I cells k8 s0 by (simp add: fill_inv_def st h put_half_def)
qed

lemma fill_all:
  assumes "\<forall>h \<in> set hs. fst h < n" and "length hs \<le> 2 * MAXN" and "fill_inv hs n [] st"
  shows "fill_inv hs n hs (fold (\<lambda>h. put_half (fst h) (snd h)) hs st)"
proof -
  have "pre @ post = hs \<Longrightarrow> fill_inv hs n pre (fold (\<lambda>h. put_half (fst h) (snd h)) pre st)" for pre post
  proof (induction pre arbitrary: post rule: rev_induct)
    case Nil
    then show ?case using assms(3) by simp
  next
    case (snoc h pre)
    then show ?case using fill_step [of hs pre h post n] snoc.IH [of "h # post"] assms(1,2) by simp
  qed
  from this [of hs "[]"] show ?thesis by simp
qed

section \<open>Building the graph\<close>

definition pg_caps :: "PanelGraph \<Rightarrow> bool" where
  "pg_caps g \<longleftrightarrow>
     length (pg_idx g) = MAXN \<and> length (pg_deg g) = MAXN \<and> length (pg_adjStart g) = MAXN
     \<and> length (pg_adjSlot g) = 2 * MAXN \<and> length (pg_adjMyEdge g) = 2 * MAXN \<and> length (pg_adjPeerEdge g) = 2 * MAXN"

definition slot_in :: "u8 list \<Rightarrow> u8 \<Rightarrow> nat option" where
  "slot_in ps p = map_of (zip ps [0..<length ps]) p"

lemma slot_in_nth: "distinct ps \<Longrightarrow> s < length ps \<Longrightarrow> slot_in ps (ps ! s) = Some s"
  by (simp add: slot_in_def map_of_zip_nth)

lemma slot_in_none: "p \<notin> set ps \<Longrightarrow> slot_in ps p = None"
  by (auto simp: slot_in_def map_of_eq_None_iff dest: set_zip_leftD)

lemma slot_in_some: "slot_in ps p = Some s \<Longrightarrow> s < length ps \<and> ps ! s = p"
  unfolding slot_in_def by (auto dest!: map_of_SomeD simp: in_set_zip)

lemma register_fields:
  "pg_n (fold (register_panel ps) ss g) = pg_n g" "pg_deg (fold (register_panel ps) ss g) = pg_deg g"
  "pg_adjStart (fold (register_panel ps) ss g) = pg_adjStart g" "pg_adjSlot (fold (register_panel ps) ss g) = pg_adjSlot g"
  "pg_adjMyEdge (fold (register_panel ps) ss g) = pg_adjMyEdge g" "pg_adjPeerEdge (fold (register_panel ps) ss g) = pg_adjPeerEdge g"
  "length (pg_idx (fold (register_panel ps) ss g)) = length (pg_idx g)"
  "length (pg_slotByIndex (fold (register_panel ps) ss g)) = length (pg_slotByIndex g)"
  by (induction ss arbitrary: g) (simp_all add: register_panel_def)

lemma register_fold:
  assumes "distinct ps" and "m \<le> length ps" and "length ps \<le> length (pg_idx g)" and "pg_slotByIndex g = replicate 256 NO_SLOT"
  shows "(\<forall>s < m. pg_idx (fold (register_panel ps) [0..<m] g) ! s = ps ! s)
    \<and> (\<forall>s < m. pg_slotByIndex (fold (register_panel ps) [0..<m] g) ! unat (ps ! s) = s)
    \<and> (\<forall>p. (\<forall>s < m. ps ! s \<noteq> p) \<longrightarrow> pg_slotByIndex (fold (register_panel ps) [0..<m] g) ! unat p = NO_SLOT)"
  using assms(2)
proof (induction m)
  case 0
  have "replicate 256 NO_SLOT ! unat p = NO_SLOT" for p :: u8 using unat_u8_less [of p] by (intro nth_replicate)
  then show ?case using assms(4) by simp
next
  case (Suc m)
  define h where "h = fold (register_panel ps) [0..<m] g"
  have step: "fold (register_panel ps) [0..<Suc m] g = register_panel ps m h" by (simp add: h_def)
  have len: "length (pg_slotByIndex h) = 256" using assms(4) by (simp add: h_def register_fields)
  have dist: "ps ! s \<noteq> ps ! m" if "s < m" for s using assms(1) Suc.prems that by (simp add: nth_eq_iff_index_eq)
  have idx: "m < length (pg_idx h)" using Suc.prems assms(3) by (simp add: h_def register_fields)
  have IH: "\<forall>s < m. pg_idx h ! s = ps ! s" "\<forall>s < m. pg_slotByIndex h ! unat (ps ! s) = s"
    "\<forall>p. (\<forall>s < m. ps ! s \<noteq> p) \<longrightarrow> pg_slotByIndex h ! unat p = NO_SLOT" using Suc by (simp_all add: h_def)
  have sbi: "pg_slotByIndex (register_panel ps m h) ! unat p = (if p = ps ! m then m else pg_slotByIndex h ! unat p)" for p
    using len unat_u8_less [of "ps ! m"] by (simp add: register_panel_def nth_list_update word_unat_eq_iff eq_commute [of "unat p"])
  have ix: "pg_idx (register_panel ps m h) ! s = (if s = m then ps ! m else pg_idx h ! s)" for s
    using idx by (simp add: register_panel_def nth_list_update)
  show ?case unfolding step sbi ix using IH dist by (auto simp: less_Suc_eq)
qed

lemma lookup_slot_in:
  assumes "distinct ps" and "length ps \<le> MAXN"
    and "\<forall>s < length ps. sbi ! unat (ps ! s) = s" and "\<forall>p. (\<forall>s < length ps. ps ! s \<noteq> p) \<longrightarrow> sbi ! unat p = NO_SLOT"
  shows "lookup_slot sbi = slot_in ps"
proof
  fix p
  show "lookup_slot sbi p = slot_in ps p"
  proof (cases "p \<in> set ps")
    case True
    then obtain s where s: "s < length ps" "p = ps ! s" by (auto simp: in_set_conv_nth)
    then have "s \<noteq> NO_SLOT" using assms(2) by (simp add: NO_SLOT_def MAXN_def LIGHTNET_MAX_PANELS_def)
    then show ?thesis using s assms(1,3) slot_in_nth by (simp add: lookup_slot_def)
  next
    case False
    then have "sbi ! unat p = NO_SLOT" using assms(4) by (auto simp: in_set_conv_nth)
    then show ?thesis using slot_in_none [OF False] by (simp add: lookup_slot_def)
  qed
qed

lemma half_edges_below: "\<forall>h \<in> set (half_edges (slot_in ps) links). fst h < length ps"
  by (auto simp: half_edges_def link_halves_def dest: slot_in_some slot_in_some [OF sym] split: option.splits)

lemma buildAdjacency_rows:
  assumes caps: "pg_caps g" and n: "pg_n g = length ps" "length ps \<le> MAXN" and links: "length links \<le> MAXN"
    and look: "lookup_slot (pg_slotByIndex g) = slot_in ps" and s: "s < length ps"
  shows "map (\<lambda>i. (pg_neighborSlot (pg_buildAdjacency links g) s i, pg_neighborMyEdge (pg_buildAdjacency links g) s i,
      pg_neighborPeerEdge (pg_buildAdjacency links g) s i)) [0..<pg_degree (pg_buildAdjacency links g) s]
    = at_slot s (half_edges (slot_in ps) links)"
proof -
  let ?hs = "half_edges (slot_in ps) links" and ?n = "length ps"
  let ?zeros = "replicate ?n 0 @ drop ?n (pg_deg g)"
  let ?deg = "fold bump ?hs ?zeros"
  let ?start = "snd (fold (start_step ?deg) [0..<?n] (0, pg_adjStart g))"
  let ?st0 = "(map (\<lambda>s. ?start ! s) [0..<?n], pg_adjSlot g, pg_adjMyEdge g, pg_adjPeerEdge g)"
  have len: "length ?hs \<le> 2 * MAXN" using length_half_edges [of "slot_in ps" links] links by linarith
  have small: "2 * MAXN < 256" by (simp add: MAXN_def LIGHTNET_MAX_PANELS_def)
  have degs: "?deg ! t = length (at_slot t ?hs)" if "t < ?n" for t
  proof -
    have t: "?zeros ! t = 0" "t < length ?zeros" using that by (simp_all add: nth_append)
    have "length (at_slot t ?hs) < 256" using length_at_slot [of t ?hs] len small by linarith
    then show ?thesis using deg_fold [OF t(2), of ?hs] t(1) by simp
  qed
  have start: "?start ! t = row_start ?hs t" if "t < ?n" for t
  proof -
    have "(\<Sum>j < t. ?deg ! j) = row_start ?hs t" unfolding row_start_def using degs that by (intro sum.cong) auto
    moreover have "row_start ?hs t < 256" using row_bound [OF half_edges_below that] len small by (meson le_less_trans le_add1 le_trans)
    ultimately show ?thesis using that start_fold [of ?n "pg_adjStart g" ?deg] caps n(2) by (simp add: pg_caps_def nth_append)
  qed
  have "fill_inv ?hs ?n [] ?st0" using caps start by (simp add: fill_inv_def pg_caps_def)
  from fill_all [OF half_edges_below len this] obtain cursor A M P
    where fill: "fold (\<lambda>h. put_half (fst h) (snd h)) ?hs ?st0 = (cursor, A, M, P)"
      and cells: "\<forall>s < ?n. \<forall>i < length (at_slot s ?hs). (A ! (row_start ?hs s + i), M ! (row_start ?hs s + i), P ! (row_start ?hs s + i)) = at_slot s ?hs ! i"
    by (cases "fold (\<lambda>h. put_half (fst h) (snd h)) ?hs ?st0") (auto simp: fill_inv_def)
  have counts: "fold (count_link (pg_slotByIndex g)) links deg = fold bump ?hs deg" for deg
    using fold_links [of "count_link (pg_slotByIndex g)" bump "lookup_slot (pg_slotByIndex g)" links deg] count_link_halves
    by (simp add: look)
  have fills: "fold (fill_link (pg_slotByIndex g)) links st = fold (\<lambda>h. put_half (fst h) (snd h)) ?hs st" for st
    using fold_links [of "fill_link (pg_slotByIndex g)" "\<lambda>h. put_half (fst h) (snd h)" "lookup_slot (pg_slotByIndex g)" links st]
      fill_link_halves by (simp add: look)
  have g': "pg_buildAdjacency links g = g\<lparr>pg_deg := ?deg, pg_adjStart := ?start, pg_adjSlot := A, pg_adjMyEdge := M, pg_adjPeerEdge := P\<rparr>"
    unfolding pg_buildAdjacency_def Let_def n(1) counts fills fill by simp
  show ?thesis unfolding g' using cells degs [OF s] start [OF s] s
    by (intro nth_equalityI) (simp_all add: pg_degree_def pg_neighborSlot_def pg_neighborMyEdge_def pg_neighborPeerEdge_def)
qed

lemma buildAdjacency_fields:
  "pg_n (pg_buildAdjacency links g) = pg_n g" "pg_idx (pg_buildAdjacency links g) = pg_idx g"
  "pg_slotByIndex (pg_buildAdjacency links g) = pg_slotByIndex g"
  by (simp_all add: pg_buildAdjacency_def Let_def split: prod.splits)

lemma lowest_fold:
  "m \<le> n \<Longrightarrow> 0 < n \<Longrightarrow>
   (let b = fold (\<lambda>s best. if idx ! s < idx ! best then s else best) [1..<m] 0
    in b < n \<and> (\<forall>s < max 1 m. (idx :: u8 list) ! b \<le> idx ! s))"
proof (induction m)
  case (Suc m)
  let ?b = "fold (\<lambda>s best. if idx ! s < idx ! best then s else best) [1..<m] 0"
  have IH: "?b < n" "\<forall>s < max 1 m. idx ! ?b \<le> idx ! s" using Suc by (simp_all add: Let_def)
  show ?case
  proof (cases "m = 0")
    case True
    then show ?thesis using Suc.prems by simp
  next
    case False
    then show ?thesis using IH Suc.prems by (auto simp: Let_def less_Suc_eq max_def split: if_splits)
  qed
qed simp

lemma pg_build_spec:
  assumes caps: "pg_caps g" and ps: "distinct ps" "0 < length ps" "length ps \<le> MAXN" and links: "length links \<le> MAXN"
  shows "\<exists>g'. pg_build ps links g = (True, g') \<and> pg_count g' = length ps
    \<and> (\<forall>s < length ps. pg_panelAt g' s = ps ! s) \<and> pg_slotOf g' = slot_in ps
    \<and> (\<forall>s < length ps. map (\<lambda>i. (pg_neighborSlot g' s i, pg_neighborMyEdge g' s i, pg_neighborPeerEdge g' s i)) [0..<pg_degree g' s]
         = at_slot s (half_edges (slot_in ps) links))
    \<and> pg_lowestSlot g' < length ps \<and> (\<forall>s < length ps. ps ! pg_lowestSlot g' \<le> ps ! s)"
proof -
  let ?g0 = "g\<lparr>pg_n := length ps, pg_slotByIndex := replicate 256 NO_SLOT\<rparr>"
  let ?g1 = "fold (register_panel ps) [0..<length ps] ?g0"
  let ?g' = "pg_buildAdjacency links ?g1"
  have build: "pg_build ps links g = (True, ?g')" using ps by (simp add: pg_build_def Let_def)
  have caps1: "pg_caps ?g1" using caps by (simp add: pg_caps_def register_fields)
  have reg: "\<forall>s < length ps. pg_idx ?g1 ! s = ps ! s" "\<forall>s < length ps. pg_slotByIndex ?g1 ! unat (ps ! s) = s"
    "\<forall>p. (\<forall>s < length ps. ps ! s \<noteq> p) \<longrightarrow> pg_slotByIndex ?g1 ! unat p = NO_SLOT"
    using register_fold [OF ps(1) order_refl, of ?g0] caps ps(3) by (simp_all add: pg_caps_def)
  have look: "lookup_slot (pg_slotByIndex ?g1) = slot_in ps" by (rule lookup_slot_in [OF ps(1,3) reg(2,3)])
  have n: "pg_n ?g1 = length ps" by (simp add: register_fields)
  have rows: "map (\<lambda>i. (pg_neighborSlot ?g' s i, pg_neighborMyEdge ?g' s i, pg_neighborPeerEdge ?g' s i)) [0..<pg_degree ?g' s]
      = at_slot s (half_edges (slot_in ps) links)" if "s < length ps" for s
    by (rule buildAdjacency_rows [OF caps1 n ps(3) links look that])
  have slots: "pg_slotOf ?g' = slot_in ps"
    unfolding look [symmetric] by (rule ext) (simp add: pg_slotOf_def lookup_slot_def Let_def buildAdjacency_fields)
  have low: "pg_lowestSlot ?g' < length ps" "\<forall>s < length ps. pg_idx ?g1 ! pg_lowestSlot ?g' \<le> pg_idx ?g1 ! s"
    using lowest_fold [of "length ps" "length ps" "pg_idx ?g1"] ps(2)
    by (simp_all add: pg_lowestSlot_def buildAdjacency_fields n Let_def max_def)
  have "\<forall>s < length ps. ps ! pg_lowestSlot ?g' \<le> ps ! s" using low reg(1) by simp
  then show ?thesis using build rows slots low(1) reg(1) n
    by (intro exI [of _ ?g']) (simp add: pg_count_def pg_panelAt_def buildAdjacency_fields)
qed

text \<open>
  The compressed adjacency is the graph of the links. For at most 100 distinct panel indices and at
  most 100 links (a tree has fewer), \<open>build\<close> succeeds; slots and panel indices correspond; the row of
  every slot holds exactly the half edges of the links at that slot, in the order of the links, each with
  the neighbour and both connectors, and links to unknown panels are skipped; and \<open>lowestSlot\<close> is a slot of
  the smallest panel index.
\<close>

theorem panel_graph_adjacency:
  assumes caps: "pg_caps g" and ps: "distinct ps" "0 < length ps" "length ps \<le> MAXN" and links: "length links \<le> MAXN"
  shows "\<exists>g'. pg_build ps links g = (True, g') \<and> pg_count g' = length ps
    \<and> (\<forall>s < length ps. pg_panelAt g' s = ps ! s) \<and> pg_slotOf g' = slot_in ps
    \<and> (\<forall>s < length ps. map (\<lambda>i. (pg_neighborSlot g' s i, pg_neighborMyEdge g' s i, pg_neighborPeerEdge g' s i)) [0..<pg_degree g' s]
         = at_slot s (half_edges (slot_in ps) links))
    \<and> pg_lowestSlot g' < length ps \<and> (\<forall>s < length ps. ps ! pg_lowestSlot g' \<le> ps ! s)"
  by (rule pg_build_spec [OF assms])

definition blank_graph :: PanelGraph where
  "blank_graph = \<lparr>pg_n = 7, pg_idx = replicate MAXN 9, pg_slotByIndex = replicate 256 3, pg_deg = replicate MAXN 5,
     pg_adjStart = replicate MAXN 1, pg_adjSlot = replicate (2 * MAXN) 2, pg_adjMyEdge = replicate (2 * MAXN) 4,
     pg_adjPeerEdge = replicate (2 * MAXN) 6\<rparr>"

lemma panel_graph_adjacency_witness:
  "\<exists>g'. pg_build [1, 2] [\<lparr>panelA = 2, edgeA = 0, panelB = 1, edgeB = 3\<rparr>] blank_graph = (True, g')
     \<and> pg_degree g' 0 = 1 \<and> pg_neighborSlot g' 0 0 = 1 \<and> pg_neighborMyEdge g' 0 0 = 3 \<and> pg_neighborPeerEdge g' 0 0 = 0"
proof -
  let ?l = "\<lparr>panelA = 2, edgeA = 0, panelB = 1, edgeB = 3\<rparr>"
  have "pg_caps blank_graph" "distinct [1, 2 :: u8]" "0 < length [1, 2 :: u8]" "length [1, 2 :: u8] \<le> MAXN" "length [?l] \<le> MAXN"
    by (simp_all add: pg_caps_def blank_graph_def MAXN_def LIGHTNET_MAX_PANELS_def)
  from panel_graph_adjacency [OF this] obtain g' where g': "pg_build [1, 2] [?l] blank_graph = (True, g')"
    and row: "map (\<lambda>i. (pg_neighborSlot g' 0 i, pg_neighborMyEdge g' 0 i, pg_neighborPeerEdge g' 0 i)) [0..<pg_degree g' 0]
         = at_slot 0 (half_edges (slot_in [1, 2]) [?l])" by auto
  have "at_slot 0 (half_edges (slot_in [1, 2]) [?l]) = [(1, 3, 0)]"
    by (simp add: half_edges_def link_halves_def slot_in_def at_slot_def upt_rec)
  then have r: "map (\<lambda>i. (pg_neighborSlot g' 0 i, pg_neighborMyEdge g' 0 i, pg_neighborPeerEdge g' 0 i)) [0..<pg_degree g' 0] = [(1, 3, 0)]"
    using row by simp
  have "length (map (\<lambda>i. (pg_neighborSlot g' 0 i, pg_neighborMyEdge g' 0 i, pg_neighborPeerEdge g' 0 i)) [0..<pg_degree g' 0]) = 1"
    unfolding r by simp
  then have "pg_degree g' 0 = 1" by simp
  then show ?thesis using r g' by simp
qed

end
