(* ===== verification/Level_Search.thy ===== *)
theory Level_Search
  imports Main "HOL-Library.While_Combinator"
begin

text \<open>
  Breadth-first search as an interface. The topology code runs the same loop over a queue array twice, once
  filling depths and parents from the root and once filling distances from a set of sources. The locale
  names what the two have in common: a queue, a head index, a partial distance and a step that visits the
  neighbours of the head; its laws give, once, that the loop ends and that the distances are the
  smallest numbers of hops.
\<close>

section \<open>Hops\<close>

fun hop_set :: "(nat \<Rightarrow> nat list) \<Rightarrow> nat set \<Rightarrow> nat \<Rightarrow> nat set" where
  "hop_set N S 0 = S"
| "hop_set N S (Suc k) = (\<Union>u \<in> hop_set N S k. set (N u))"

text \<open>\<open>k\<close> is the smallest number of hops from a source to \<open>v\<close>.\<close>

definition is_distance :: "(nat \<Rightarrow> nat list) \<Rightarrow> nat set \<Rightarrow> nat \<Rightarrow> nat \<Rightarrow> bool" where
  "is_distance N S v k \<longleftrightarrow> v \<in> hop_set N S k \<and> (\<forall>j < k. v \<notin> hop_set N S j)"

section \<open>Visiting the neighbours of one node\<close>

definition visit_one :: "nat \<Rightarrow> nat \<Rightarrow> nat list \<times> (nat \<Rightarrow> nat option) \<Rightarrow> nat list \<times> (nat \<Rightarrow> nat option)" where
  "visit_one k v st = (case st of (Q, d) \<Rightarrow> if d v = None then (Q @ [v], d(v \<mapsto> k)) else (Q, d))"

lemma visit_all:
  "\<exists>new. fold (visit_one k) vs (Q, d) = (Q @ new, \<lambda>v. if v \<in> set new then Some k else d v)
     \<and> distinct new \<and> set new = set vs - dom d"
proof (induction vs arbitrary: Q d)
  case (Cons v vs)
  show ?case
  proof (cases "d v = None")
    case True
    obtain new where new: "fold (visit_one k) vs (Q @ [v], d(v \<mapsto> k)) =
        ((Q @ [v]) @ new, \<lambda>x. if x \<in> set new then Some k else (d(v \<mapsto> k)) x)" "distinct new"
      "set new = set vs - dom (d(v \<mapsto> k))" using Cons.IH by blast
    have "fold (visit_one k) (v # vs) (Q, d) = (Q @ (v # new), \<lambda>x. if x \<in> set (v # new) then Some k else d x)"
      using True new(1) by (auto simp: visit_one_def)
    moreover have "distinct (v # new)" "set (v # new) = set (v # vs) - dom d" using new(2,3) True by auto
    ultimately show ?thesis by blast
  next
    case False
    then show ?thesis using Cons.IH [of Q d] by (auto simp: visit_one_def)
  qed
qed (auto intro: exI [of _ "[]"])

section \<open>The invariant of the search\<close>

definition search_inv :: "(nat \<Rightarrow> nat list) \<Rightarrow> nat \<Rightarrow> nat set \<Rightarrow> nat list \<Rightarrow> nat \<Rightarrow> (nat \<Rightarrow> nat option) \<Rightarrow> bool" where
  "search_inv N n S Q h d \<longleftrightarrow>
     distinct Q \<and> set Q = dom d \<and> set Q \<subseteq> {..<n} \<and> h \<le> length Q
     \<and> sorted (map (\<lambda>v. the (d v)) Q)
     \<and> (h < length Q \<longrightarrow> (\<forall>v \<in> set Q. the (d v) \<le> Suc (the (d (Q ! h)))))
     \<and> (\<forall>i < length Q. the (d (Q ! i)) \<le> i)
     \<and> (\<forall>v k. d v = Some k \<longrightarrow> v \<in> hop_set N S k)
     \<and> (\<forall>i < h. \<forall>v \<in> set (N (Q ! i)). v \<in> dom d \<and> the (d v) \<le> Suc (the (d (Q ! i))))
     \<and> (\<forall>v \<in> S. d v = Some 0)"

lemma search_inv_start:
  assumes "distinct Q" and "set Q \<subseteq> {..<n}"
  shows "search_inv N n (set Q) Q 0 (\<lambda>v. if v \<in> set Q then Some 0 else None)"
  using assms by (auto simp: search_inv_def dom_def sorted_iff_nth_mono split: if_splits)

lemma const_sorted: "sorted (map (\<lambda>_. c :: nat) xs)"
  by (induction xs) auto

lemma search_inv_step:
  assumes inv: "search_inv N n S Q h d" and h: "h < length Q" and below: "\<And>v. v \<in> set (N (Q ! h)) \<Longrightarrow> v < n"
    and step: "(Q', d') = fold (visit_one (Suc (the (d (Q ! h))))) (N (Q ! h)) (Q, d)"
  shows "search_inv N n S Q' (Suc h) d'"
proof -
  let ?u = "Q ! h" and ?k = "the (d (Q ! h))"
  note I = inv [unfolded search_inv_def]
  obtain new where new: "Q' = Q @ new" "d' = (\<lambda>v. if v \<in> set new then Some (Suc ?k) else d v)" "distinct new"
    "set new = set (N ?u) - dom d" using visit_all [of "Suc ?k" "N ?u" Q d] step by auto
  have u: "d ?u = Some ?k" using I h nth_mem [OF h] by force
  have old: "d' v = d v" if "v \<in> dom d" for v using that new(2,4) by auto
  have oldQ: "d' v = d v" if "v \<in> set Q" for v using that I old by auto
  have newd: "d' v = Some (Suc ?k)" if "v \<in> set new" for v using that new(2) by simp
  have le: "the (d v) \<le> Suc ?k" if "v \<in> set Q" for v using I h that by blast
  have dom': "dom d' = dom d \<union> set new" using new(2) by (auto simp: dom_def)
  have vals: "map (\<lambda>v. the (d' v)) Q' = map (\<lambda>v. the (d v)) Q @ map (\<lambda>_. Suc ?k) new"
    using oldQ newd by (simp add: new(1))
  have 1: "distinct Q'" using I new(1,3,4) by auto
  have 2: "set Q' = dom d'" using I new(1) dom' by auto
  have 3: "set Q' \<subseteq> {..<n}" using I new(1,4) below by auto
  have 4: "Suc h \<le> length Q'" using h new(1) by simp
  have 5: "sorted (map (\<lambda>v. the (d' v)) Q')"
    unfolding vals using I le const_sorted by (auto simp: sorted_append)
  have 6: "\<forall>v \<in> set Q'. the (d' v) \<le> Suc (the (d' (Q' ! Suc h)))" if "Suc h < length Q'"
  proof
    fix v assume "v \<in> set Q'"
    have "?k \<le> the (d' (Q' ! Suc h))"
    proof -
      have "the (d' (Q' ! h)) \<le> the (d' (Q' ! Suc h))" using sorted_nth_mono [OF 5, of h "Suc h"] that by simp
      moreover have "Q' ! h = ?u" using h new(1) by (simp add: nth_append)
      ultimately show ?thesis using oldQ [OF nth_mem [OF h]] by simp
    qed
    moreover have "the (d' v) \<le> Suc ?k" using \<open>v \<in> set Q'\<close> new(1) le oldQ newd by auto
    ultimately show "the (d' v) \<le> Suc (the (d' (Q' ! Suc h)))" by simp
  qed
  have 7: "the (d' (Q' ! i)) \<le> i" if "i < length Q'" for i
  proof (cases "i < length Q")
    case True
    then have "Q' ! i = Q ! i" "d' (Q ! i) = d (Q ! i)" using oldQ [OF nth_mem] new(1) by (simp_all add: nth_append)
    then show ?thesis using I True by simp
  next
    case False
    then have "Q' ! i \<in> set new" using that new(1) by (simp add: nth_append)
    moreover have "?k \<le> h" using I h by blast
    ultimately show ?thesis using newd False h by simp
  qed
  have hops: "\<And>v k. d v = Some k \<Longrightarrow> v \<in> hop_set N S k" and src: "\<And>v. v \<in> S \<Longrightarrow> d v = Some 0"
    and past: "\<And>i v. i < h \<Longrightarrow> v \<in> set (N (Q ! i)) \<Longrightarrow> v \<in> dom d \<and> the (d v) \<le> Suc (the (d (Q ! i)))"
    and domQ: "set Q = dom d" using I by blast+
  have 8: "v \<in> hop_set N S k" if k: "d' v = Some k" for v k
  proof (cases "v \<in> set new")
    case True
    then have "k = Suc ?k" "v \<in> set (N ?u)" using k newd [OF True] new(4) by auto
    then show ?thesis using hops [OF u] by auto
  next
    case False
    then show ?thesis using hops [of v k] k new(2) by simp
  qed
  have 9: "v \<in> dom d' \<and> the (d' v) \<le> Suc (the (d' (Q' ! i)))" if "i < Suc h" "v \<in> set (N (Q' ! i))" for i v
  proof -
    have i: "i < length Q" using that(1) h by simp
    have Qi: "Q' ! i = Q ! i" "d' (Q ! i) = d (Q ! i)" using i new(1) oldQ [of "Q ! i"] by (simp_all add: nth_append)
    show ?thesis
    proof (cases "i < h")
      case True
      then have "v \<in> dom d" "the (d v) \<le> Suc (the (d (Q ! i)))" using past [OF True, of v] that(2) Qi by simp_all
      then show ?thesis using old dom' Qi by simp
    next
      case False
      then have "i = h" using that(1) by simp
      show ?thesis
      proof (cases "v \<in> dom d")
        case True
        then show ?thesis using old [OF True] le [of v] domQ dom' Qi \<open>i = h\<close> by auto
      next
        case False
        then have "v \<in> set new" using that(2) new(4) Qi \<open>i = h\<close> by auto
        then show ?thesis using newd dom' Qi u \<open>i = h\<close> by auto
      qed
    qed
  qed
  have 10: "d' v = Some 0" if "v \<in> S" for v using src [OF that] old [of v] by (simp add: domI)
  show ?thesis unfolding search_inv_def using 1 2 3 4 5 6 7 8 9 10 by (intro conjI allI impI ballI) blast+
qed

lemma search_inv_size: "search_inv N n S Q h d \<Longrightarrow> length Q \<le> n"
  unfolding search_inv_def by (metis distinct_card card_lessThan card_mono finite_lessThan)

lemma search_inv_bound:
  assumes inv: "search_inv N n S Q h d" and k: "d v = Some k"
  shows "k < n"
proof -
  have "v \<in> set Q" "\<forall>i < length Q. the (d (Q ! i)) \<le> i" using inv k by (auto simp: search_inv_def)
  then obtain i where "i < length Q" "k \<le> i" using k by (metis in_set_conv_nth option.sel)
  then show ?thesis using search_inv_size [OF inv] by linarith
qed

lemma search_inv_end:
  assumes inv: "search_inv N n S Q (length Q) d"
  shows "d v = Some k \<longleftrightarrow> is_distance N S v k"
proof -
  have dom: "set Q = dom d" and hops: "\<And>v k. d v = Some k \<Longrightarrow> v \<in> hop_set N S k"
    and sources: "\<And>v. v \<in> S \<Longrightarrow> d v = Some 0"
    and all: "\<And>i v. i < length Q \<Longrightarrow> v \<in> set (N (Q ! i)) \<Longrightarrow> v \<in> dom d \<and> the (d v) \<le> Suc (the (d (Q ! i)))"
    using inv unfolding search_inv_def by blast+
  have closed: "v \<in> dom d \<and> the (d v) \<le> Suc (the (d u))" if "u \<in> dom d" "v \<in> set (N u)" for u v
  proof -
    have "u \<in> set Q" using that(1) dom by simp
    then obtain i where "i < length Q" "Q ! i = u" by (auto simp: in_set_conv_nth)
    then show ?thesis using all [of i v] that(2) by blast
  qed
  have reach: "v \<in> hop_set N S j \<Longrightarrow> v \<in> dom d \<and> the (d v) \<le> j" for v j
  proof (induction j arbitrary: v)
    case 0
    then show ?case using sources [of v] by (simp add: domI)
  next
    case (Suc j)
    then obtain u where "u \<in> hop_set N S j" "v \<in> set (N u)" by auto
    then have "u \<in> dom d" "the (d u) \<le> j" "v \<in> dom d" "the (d v) \<le> Suc (the (d u))"
      using Suc.IH [of u] closed [of u v] by blast+
    then show ?case by simp
  qed
  show ?thesis
  proof
    assume d: "d v = Some k"
    then have "v \<in> hop_set N S k" by (rule hops)
    moreover have "v \<notin> hop_set N S j" if "j < k" for j using reach [of v j] d that by auto
    ultimately show "is_distance N S v k" by (simp add: is_distance_def)
  next
    assume k: "is_distance N S v k"
    then obtain j where j: "d v = Some j" "j \<le> k" using reach [of v k] by (auto simp: is_distance_def)
    moreover have "v \<in> hop_set N S j" using hops [OF j(1)] .
    ultimately show "d v = Some k" using k by (auto simp: is_distance_def le_less)
  qed
qed

section \<open>The interface\<close>

locale level_search =
  fixes nbr :: "'g \<Rightarrow> nat \<Rightarrow> nat list"
    and gok :: "'g \<Rightarrow> bool"
    and nodes :: "'g \<Rightarrow> nat"
    and que :: "'s \<Rightarrow> nat list"
    and head :: "'s \<Rightarrow> nat"
    and dist :: "'g \<Rightarrow> 's \<Rightarrow> nat \<Rightarrow> nat option"
    and ok :: "'g \<Rightarrow> 's \<Rightarrow> bool"
    and step :: "'g \<Rightarrow> 's \<Rightarrow> 's"
  assumes nbr_below: "gok g \<Longrightarrow> u < nodes g \<Longrightarrow> v \<in> set (nbr g u) \<Longrightarrow> v < nodes g"
    and step_spec: "gok g \<Longrightarrow> ok g s \<Longrightarrow> head s < length (que s) \<Longrightarrow> u = que s ! head s \<Longrightarrow> u < nodes g \<Longrightarrow>
        dist g s u = Some k \<Longrightarrow> k < nodes g \<Longrightarrow>
        ok g (step g s) \<and> head (step g s) = Suc (head s)
        \<and> (que (step g s), dist g (step g s)) = fold (visit_one (Suc k)) (nbr g u) (que s, dist g s)"
begin

definition inv :: "'g \<Rightarrow> nat set \<Rightarrow> 's \<Rightarrow> bool" where
  "inv g S s \<longleftrightarrow> ok g s \<and> search_inv (nbr g) (nodes g) S (que s) (head s) (dist g s)"

lemma inv_step:
  assumes g: "gok g" and inv: "inv g S s" and more: "head s < length (que s)"
  shows "inv g S (step g s)" and "nodes g - head (step g s) < nodes g - head s"
proof -
  let ?u = "que s ! head s"
  note I = inv [unfolded inv_def search_inv_def]
  have u: "?u \<in> set (que s)" using more by simp
  then have d: "dist g s ?u = Some (the (dist g s ?u))" "?u < nodes g" using I by force+
  have "the (dist g s ?u) \<le> head s" using I more by blast
  moreover have size: "length (que s) \<le> nodes g" using inv search_inv_size unfolding inv_def by blast
  ultimately have k: "the (dist g s ?u) < nodes g" using more by linarith
  note st = step_spec [OF g _ more refl d(2) d(1) k]
  have "search_inv (nbr g) (nodes g) S (que (step g s)) (Suc (head s)) (dist g (step g s))"
    using inv st nbr_below [OF g d(2)] unfolding inv_def by (intro search_inv_step [OF _ more]) auto
  then show "inv g S (step g s)" using st inv by (simp add: inv_def)
  show "nodes g - head (step g s) < nodes g - head s" using st inv more size by (simp add: inv_def)
qed

lemma search_ends:
  assumes g: "gok g" and "ok g s" and "head s = 0" and "distinct (que s)" and "set (que s) \<subseteq> {..<nodes g}"
    and "dist g s = (\<lambda>v. if v \<in> set (que s) then Some 0 else None)"
  obtains t where "while_option (\<lambda>s. head s < length (que s)) (step g) s = Some t" "ok g t" "set (que t) = dom (dist g t)"
    "set (que t) \<subseteq> {..<nodes g}" "distinct (que t)" "\<And>v k. dist g t v = Some k \<longleftrightarrow> is_distance (nbr g) (set (que s)) v k"
    "\<And>v k. is_distance (nbr g) (set (que s)) v k \<Longrightarrow> k < nodes g"
proof -
  have start: "inv g (set (que s)) s"
    using search_inv_start [OF assms(4,5), of "nbr g"] assms by (simp add: inv_def)
  have "\<exists>t. while_option (\<lambda>s. head s < length (que s)) (step g) s = Some t"
    by (rule measure_while_option_Some [where P = "inv g (set (que s))" and f = "\<lambda>s. nodes g - head s"])
       (use inv_step [OF g] start in auto)
  then obtain t where t: "while_option (\<lambda>s. head s < length (que s)) (step g) s = Some t" by blast
  have inv: "inv g (set (que s)) t"
    by (rule while_option_rule [where P = "inv g (set (que s))", OF _ t start]) (use inv_step [OF g] in blast)
  have "\<not> head t < length (que t)" using while_option_stop [OF t] .
  then have h: "head t = length (que t)" using inv by (simp add: inv_def search_inv_def)
  have fin: "search_inv (nbr g) (nodes g) (set (que s)) (que t) (length (que t)) (dist g t)" and okt: "ok g t"
    using inv h by (simp_all add: inv_def)
  have "set (que t) = dom (dist g t)" "set (que t) \<subseteq> {..<nodes g}" "distinct (que t)"
    using fin unfolding search_inv_def by blast+
  moreover have "k < nodes g" if "is_distance (nbr g) (set (que s)) v k" for v k
    by (rule search_inv_bound [OF fin]) (use search_inv_end [OF fin] that in blast)
  ultimately show thesis using that [OF t okt] search_inv_end [OF fin] by blast
qed

end

end
