(* ===== verification/Topology_Index.thy ===== *)
theory Topology_Index
  imports Panel_Graph Level_Search Insertion_Sort
begin

text \<open>
  The rooted view of the panel tree (\<open>Core/Controller/TopologyIndex.hpp\<close>): the panel bit set, the
  breadth-first search from the chosen root, the canonical pre-order, subtrees and multi-source distances. A
  \<open>while\<close> loop is \<open>while_option\<close>, so that a loop that does not end is the value \<open>None\<close>; a queue or stack
  array with its end index is the list of the entries below that index.
\<close>

section \<open>Panel sets\<close>

definition PANEL_WORDS :: nat where "PANEL_WORDS = (LIGHTNET_MAX_PANELS + 7) div 8"

type_synonym PanelSet = "u8 list"

definition ps_clearAll :: "PanelSet \<Rightarrow> PanelSet" where
  "ps_clearAll bits = replicate PANEL_WORDS 0"

definition ps_set :: "nat \<Rightarrow> PanelSet \<Rightarrow> PanelSet" where
  "ps_set i bits = bits[i div 8 := bits ! (i div 8) OR push_bit (i mod 8) 1]"

definition ps_unset :: "nat \<Rightarrow> PanelSet \<Rightarrow> PanelSet" where
  "ps_unset i bits = bits[i div 8 := bits ! (i div 8) AND NOT (push_bit (i mod 8) 1)]"

definition ps_test :: "PanelSet \<Rightarrow> nat \<Rightarrow> bool" where
  "ps_test bits i \<longleftrightarrow> drop_bit (i mod 8) (bits ! (i div 8)) AND 1 \<noteq> 0"

definition ps_orWith :: "PanelSet \<Rightarrow> PanelSet \<Rightarrow> PanelSet" where
  "ps_orWith bits other = map2 (OR) bits other"

definition ps_andWith :: "PanelSet \<Rightarrow> PanelSet \<Rightarrow> PanelSet" where
  "ps_andWith bits other = map2 (AND) bits other"

definition ps_invert :: "nat \<Rightarrow> PanelSet \<Rightarrow> PanelSet" where
  "ps_invert cnt bits = fold (\<lambda>i bits. if ps_test bits i then ps_unset i bits else ps_set i bits) [0..<cnt] bits"

definition ps_popcount :: "nat \<Rightarrow> PanelSet \<Rightarrow> nat" where
  "ps_popcount cnt bits = fold (\<lambda>i k. if ps_test bits i then k + 1 else k) [0..<cnt] 0"

section \<open>The rooted view\<close>

definition NO_PARENT :: nat where "NO_PARENT = 0xFF"

record TopologyIndex =
  ti_graph :: PanelGraph
  ti_n :: nat
  ti_rootSlot :: nat
  ti_maxDepthVal :: nat
  ti_depth :: "nat list"
  ti_parent :: "nat list"
  ti_childCount :: "nat list"
  ti_canonPos :: "nat list"

definition nbrs :: "PanelGraph \<Rightarrow> nat \<Rightarrow> nat list" where
  "nbrs g s = map (pg_neighborSlot g s) [0..<pg_degree g s]"

definition ti_pickRoot :: "PanelGraph \<Rightarrow> u8 \<Rightarrow> nat" where
  "ti_pickRoot g rootPanelIdx = (case pg_slotOf g rootPanelIdx of Some s \<Rightarrow> s | None \<Rightarrow> pg_lowestSlot g)"

text \<open>The local state of the search with the arrays it fills.\<close>

record bfs_state =
  bs_queue :: "nat list"
  bs_qh :: nat
  bs_visited :: "bool list"
  bs_maxDepth :: nat
  bs_depth :: "nat list"
  bs_parent :: "nat list"
  bs_childCount :: "nat list"

definition bfs_visit :: "nat \<Rightarrow> nat \<Rightarrow> bfs_state \<Rightarrow> bfs_state" where
  "bfs_visit u v st =
     (if bs_visited st ! v then st
      else
        (let d = bs_depth st ! u + 1
         in st\<lparr>bs_visited := (bs_visited st)[v := True], bs_parent := (bs_parent st)[v := u],
               bs_depth := (bs_depth st)[v := d], bs_maxDepth := (if bs_maxDepth st < d then d else bs_maxDepth st),
               bs_childCount := (bs_childCount st)[u := bs_childCount st ! u + 1], bs_queue := bs_queue st @ [v]\<rparr>))"

definition bfs_step :: "PanelGraph \<Rightarrow> bfs_state \<Rightarrow> bfs_state" where
  "bfs_step g st =
     (let u = bs_queue st ! bs_qh st
      in fold (bfs_visit u) (nbrs g u) (st\<lparr>bs_qh := bs_qh st + 1\<rparr>))"

definition bfs_start :: "TopologyIndex \<Rightarrow> bfs_state" where
  "bfs_start t =
     (let n = ti_n t; fill = (\<lambda>x xs. replicate n x @ drop n xs)
      in \<lparr>bs_queue = [ti_rootSlot t], bs_qh = 0, bs_visited = (replicate n False)[ti_rootSlot t := True], bs_maxDepth = 0,
          bs_depth = (fill 0 (ti_depth t))[ti_rootSlot t := 0], bs_parent = (fill NO_PARENT (ti_parent t))[ti_rootSlot t := NO_PARENT],
          bs_childCount = fill 0 (ti_childCount t)\<rparr>)"

definition bfs_more :: "bfs_state \<Rightarrow> bool" where
  "bfs_more st \<longleftrightarrow> bs_qh st < length (bs_queue st)"

definition ti_bfsFromRoot :: "TopologyIndex \<Rightarrow> TopologyIndex option" where
  "ti_bfsFromRoot t =
     map_option (\<lambda>st. t\<lparr>ti_maxDepthVal := bs_maxDepth st, ti_depth := bs_depth st, ti_parent := bs_parent st,
         ti_childCount := bs_childCount st\<rparr>)
       (while_option bfs_more (bfs_step (ti_graph t)) (bfs_start t))"

text \<open>
  The children of \<open>u\<close> with the connector towards each, at most eight, sorted by connector with the insertion
  sort of the code.
\<close>

definition gather_children :: "TopologyIndex \<Rightarrow> nat \<Rightarrow> (nat \<times> u8) list" where
  "gather_children t u =
     fold (\<lambda>i cs. if ti_parent t ! pg_neighborSlot (ti_graph t) u i = u \<and> length cs < 8
                 then cs @ [(pg_neighborSlot (ti_graph t) u i, pg_neighborMyEdge (ti_graph t) u i)] else cs)
       [0..<pg_degree (ti_graph t) u] []"

definition sort_children :: "(nat \<times> u8) list \<Rightarrow> (nat \<times> u8) list" where
  "sort_children cs = insertion_sort snd cs"

text \<open>The stack is a list with its top first, so pushing in reverse puts the children on it in order.\<close>

type_synonym canon_state = "nat list \<times> nat \<times> nat list"

definition canon_step :: "TopologyIndex \<Rightarrow> canon_state \<Rightarrow> canon_state" where
  "canon_step t st =
     (case st of (stack, order, canonPos) \<Rightarrow>
        (let u = hd stack
         in (map fst (sort_children (gather_children t u)) @ tl stack, order + 1, canonPos[u := order])))"

definition canon_more :: "canon_state \<Rightarrow> bool" where
  "canon_more st \<longleftrightarrow> fst st \<noteq> []"

definition ti_computeCanonicalOrder :: "TopologyIndex \<Rightarrow> TopologyIndex option" where
  "ti_computeCanonicalOrder t =
     map_option (\<lambda>(stack, order, canonPos). t\<lparr>ti_canonPos := canonPos\<rparr>)
       (while_option canon_more (canon_step t) ([ti_rootSlot t], 0, ti_canonPos t))"

definition ti_build :: "PanelGraph \<Rightarrow> u8 \<Rightarrow> TopologyIndex \<Rightarrow> (bool \<times> TopologyIndex) option" where
  "ti_build g rootPanelIdx t =
     (let t = t\<lparr>ti_graph := g, ti_n := pg_count g\<rparr>
      in if ti_n t = 0 then Some (False, t)
         else
           (case ti_bfsFromRoot (t\<lparr>ti_rootSlot := ti_pickRoot g rootPanelIdx\<rparr>) of
              None \<Rightarrow> None
            | Some t \<Rightarrow> map_option (Pair True) (ti_computeCanonicalOrder t)))"

definition ti_isLeaf :: "TopologyIndex \<Rightarrow> nat \<Rightarrow> bool" where "ti_isLeaf t s \<longleftrightarrow> ti_childCount t ! s = 0"
definition ti_isBranch :: "TopologyIndex \<Rightarrow> nat \<Rightarrow> bool" where "ti_isBranch t s \<longleftrightarrow> 2 \<le> ti_childCount t ! s"
definition ti_depthOf :: "TopologyIndex \<Rightarrow> nat \<Rightarrow> nat" where "ti_depthOf t s = ti_depth t ! s"
definition ti_parentOf :: "TopologyIndex \<Rightarrow> nat \<Rightarrow> nat" where "ti_parentOf t s = ti_parent t ! s"
definition ti_canonicalPos :: "TopologyIndex \<Rightarrow> nat \<Rightarrow> nat" where "ti_canonicalPos t s = ti_canonPos t ! s"

section \<open>Subtrees and distances\<close>

definition subtree_step :: "TopologyIndex \<Rightarrow> nat list \<times> PanelSet \<Rightarrow> nat list \<times> PanelSet" where
  "subtree_step t st =
     (case st of (stack, out) \<Rightarrow>
        (let u = hd stack
         in (fold (\<lambda>v stack. if ti_parent t ! v = u then v # stack else stack) (nbrs (ti_graph t) u) (tl stack), ps_set u out)))"

definition ti_fillSubtree :: "TopologyIndex \<Rightarrow> nat \<Rightarrow> PanelSet \<Rightarrow> PanelSet option" where
  "ti_fillSubtree t s out = map_option snd (while_option (\<lambda>st. fst st \<noteq> []) (subtree_step t) ([s], out))"

definition NO_DIST :: nat where "NO_DIST = 0xFF"

record dist_state =
  ds_queue :: "nat list"
  ds_qh :: nat
  ds_dist :: "nat list"

definition dist_visit :: "nat \<Rightarrow> nat \<Rightarrow> dist_state \<Rightarrow> dist_state" where
  "dist_visit u v st =
     (if ds_dist st ! v = NO_DIST
      then st\<lparr>ds_dist := (ds_dist st)[v := (ds_dist st ! u + 1) mod 256], ds_queue := ds_queue st @ [v]\<rparr>
      else st)"

definition dist_step :: "PanelGraph \<Rightarrow> dist_state \<Rightarrow> dist_state" where
  "dist_step g st =
     (let u = ds_queue st ! ds_qh st in fold (dist_visit u) (nbrs g u) (st\<lparr>ds_qh := ds_qh st + 1\<rparr>))"

definition dist_start :: "nat \<Rightarrow> PanelSet \<Rightarrow> nat list \<Rightarrow> dist_state" where
  "dist_start n sources dist =
     fold (\<lambda>s st. if ps_test sources s then st\<lparr>ds_dist := (ds_dist st)[s := 0], ds_queue := ds_queue st @ [s]\<rparr> else st)
       [0..<n] \<lparr>ds_queue = [], ds_qh = 0, ds_dist = replicate n NO_DIST @ drop n dist\<rparr>"

definition dist_more :: "dist_state \<Rightarrow> bool" where
  "dist_more st \<longleftrightarrow> ds_qh st < length (ds_queue st)"

definition ti_distancesFrom :: "TopologyIndex \<Rightarrow> PanelSet \<Rightarrow> nat list \<Rightarrow> nat list option" where
  "ti_distancesFrom t sources dist =
     map_option ds_dist (while_option dist_more (dist_step (ti_graph t)) (dist_start (ti_n t) sources dist))"

section \<open>The search from the root\<close>

definition graph_ok :: "PanelGraph \<Rightarrow> bool" where
  "graph_ok g \<longleftrightarrow> pg_n g \<le> MAXN \<and> (\<forall>u < pg_n g. \<forall>v \<in> set (nbrs g u). v < pg_n g)"

definition bs_dist :: "PanelGraph \<Rightarrow> bfs_state \<Rightarrow> nat \<Rightarrow> nat option" where
  "bs_dist g st v = (if v < pg_n g \<and> bs_visited st ! v then Some (bs_depth st ! v) else None)"

text \<open>The tree the parent pointers of the visited slots form, the child counts and the greatest depth.\<close>

definition parent_ok :: "PanelGraph \<Rightarrow> bfs_state \<Rightarrow> nat \<Rightarrow> bool" where
  "parent_ok g st v \<longleftrightarrow>
     (let p = bs_parent st ! v
      in if bs_visited st ! v
         then (p = NO_PARENT \<and> bs_depth st ! v = 0)
           \<or> (p < pg_n g \<and> bs_visited st ! p \<and> v \<in> set (nbrs g p) \<and> bs_depth st ! v = Suc (bs_depth st ! p))
         else p = NO_PARENT)"

definition bs_tree :: "PanelGraph \<Rightarrow> bfs_state \<Rightarrow> bool" where
  "bs_tree g st \<longleftrightarrow>
     (\<forall>v < pg_n g. parent_ok g st v)
     \<and> (\<forall>u < pg_n g. bs_childCount st ! u = card {v. v < pg_n g \<and> bs_parent st ! v = u})
     \<and> (\<forall>v < pg_n g. bs_visited st ! v \<longrightarrow> bs_depth st ! v \<le> bs_maxDepth st)
     \<and> (\<exists>v < pg_n g. bs_visited st ! v \<and> bs_depth st ! v = bs_maxDepth st)"

definition bs_ok :: "PanelGraph \<Rightarrow> bfs_state \<Rightarrow> bool" where
  "bs_ok g st \<longleftrightarrow>
     length (bs_visited st) = pg_n g \<and> length (bs_depth st) = MAXN \<and> length (bs_parent st) = MAXN
     \<and> length (bs_childCount st) = MAXN \<and> bs_tree g st"

lemma no_parent_big: "pg_n g \<le> MAXN \<Longrightarrow> u < pg_n g \<Longrightarrow> u \<noteq> NO_PARENT"
  by (simp add: NO_PARENT_def MAXN_def LIGHTNET_MAX_PANELS_def)

lemma bfs_visit_ok:
  assumes g: "graph_ok g" and ok: "bs_ok g st" and u: "u < pg_n g" "bs_visited st ! u" and v: "v \<in> set (nbrs g u)"
  shows "bs_ok g (bfs_visit u v st)"
proof (cases "bs_visited st ! v")
  case True
  then show ?thesis using ok by (simp add: bfs_visit_def)
next
  case False
  let ?st = "bfs_visit u v st" and ?d = "Suc (bs_depth st ! u)"
  have n: "pg_n g \<le> MAXN" and vn: "v < pg_n g" using g u(1) v by (auto simp: graph_ok_def)
  have len: "length (bs_visited st) = pg_n g" "length (bs_depth st) = MAXN" "length (bs_parent st) = MAXN"
    "length (bs_childCount st) = MAXN" and tree: "bs_tree g st" using ok by (simp_all add: bs_ok_def)
  have par: "\<And>w. w < pg_n g \<Longrightarrow> parent_ok g st w"
    and cc: "\<And>x. x < pg_n g \<Longrightarrow> bs_childCount st ! x = card {w. w < pg_n g \<and> bs_parent st ! w = x}"
    and le: "\<And>w. w < pg_n g \<Longrightarrow> bs_visited st ! w \<Longrightarrow> bs_depth st ! w \<le> bs_maxDepth st"
    using tree by (simp_all add: bs_tree_def)
  have fields: "bs_visited ?st ! w = (w = v \<or> bs_visited st ! w)" "bs_parent ?st ! w = (if w = v then u else bs_parent st ! w)"
    "bs_depth ?st ! w = (if w = v then ?d else bs_depth st ! w)" if "w < pg_n g" for w
    using False len n vn that by (simp_all add: bfs_visit_def Let_def nth_list_update)
  have uv: "u \<noteq> v" using u(2) False by auto
  have vpar: "bs_parent st ! v = NO_PARENT" using par [OF vn] False by (simp add: parent_ok_def Let_def)
  have 1: "parent_ok g ?st w" if w: "w < pg_n g" for w
  proof (cases "w = v")
    case True
    then show ?thesis using fields vn u v uv by (simp add: parent_ok_def Let_def)
  next
    case w': False
    show ?thesis
    proof (cases "bs_visited st ! w \<and> bs_parent st ! w \<noteq> NO_PARENT")
      case True
      then have "bs_parent st ! w < pg_n g" "bs_visited st ! (bs_parent st ! w)" "bs_parent st ! w \<noteq> v"
        using par [OF w] False by (auto simp: parent_ok_def Let_def)
      then show ?thesis using par [OF w] True w' fields w by (simp add: parent_ok_def Let_def)
    next
      case False
      then show ?thesis using par [OF w] w' fields [OF w] no_parent_big [OF n, of NO_PARENT] by (auto simp: parent_ok_def Let_def)
    qed
  qed
  have 2: "bs_childCount ?st ! x = card {w. w < pg_n g \<and> bs_parent ?st ! w = x}" if x: "x < pg_n g" for x
  proof -
    have new: "bs_childCount ?st ! x = (if x = u then Suc (bs_childCount st ! x) else bs_childCount st ! x)"
      using False len n u(1) x by (simp add: bfs_visit_def Let_def nth_list_update)
    have "{w. w < pg_n g \<and> bs_parent ?st ! w = x} =
        (if x = u then insert v {w. w < pg_n g \<and> bs_parent st ! w = x} else {w. w < pg_n g \<and> bs_parent st ! w = x})"
      using fields vn vpar no_parent_big [OF n x] by (auto split: if_splits)
    moreover have "v \<notin> {w. w < pg_n g \<and> bs_parent st ! w = x}" using vpar no_parent_big [OF n x] by auto
    moreover have "finite {w. w < pg_n g \<and> bs_parent st ! w = x}" by simp
    ultimately show ?thesis using cc [OF x] new by (simp add: card_insert_disjoint split: if_splits)
  qed
  have max: "bs_maxDepth ?st = max (bs_maxDepth st) ?d" using False by (simp add: bfs_visit_def Let_def max_def)
  have 3: "bs_depth ?st ! w \<le> bs_maxDepth ?st" if "w < pg_n g" "bs_visited ?st ! w" for w
    using le [OF that(1)] that(2) fields [OF that(1)] max by (cases "w = v") auto
  have 4: "\<exists>w < pg_n g. bs_visited ?st ! w \<and> bs_depth ?st ! w = bs_maxDepth ?st"
  proof (cases "bs_maxDepth st < ?d")
    case True
    then show ?thesis using fields vn max by (intro exI [of _ v]) (simp add: max_def)
  next
    case less: False
    obtain w where w: "w < pg_n g" "bs_visited st ! w" "bs_depth st ! w = bs_maxDepth st" using tree by (auto simp: bs_tree_def)
    then have "w \<noteq> v" using False by auto
    then show ?thesis using fields w max less by (intro exI [of _ w]) (simp add: max_def)
  qed
  have "bs_tree g ?st" unfolding bs_tree_def using 1 2 3 4 by blast
  then show ?thesis using len False by (simp add: bs_ok_def bfs_visit_def Let_def)
qed

lemma bfs_visit_law:
  assumes g: "graph_ok g" and ok: "bs_ok g st" and u: "bs_dist g st u = Some k" and v: "v \<in> set (nbrs g u)"
  shows "bs_ok g (bfs_visit u v st)" and "bs_qh (bfs_visit u v st) = bs_qh st" and "bs_dist g (bfs_visit u v st) u = Some k"
    and "(bs_queue (bfs_visit u v st), bs_dist g (bfs_visit u v st)) = visit_one (Suc k) v (bs_queue st, bs_dist g st)"
proof -
  have u': "u < pg_n g" "bs_visited st ! u" "bs_depth st ! u = k" using u by (auto simp: bs_dist_def split: if_splits)
  then have vn: "v < pg_n g" using g v by (auto simp: graph_ok_def)
  have len: "length (bs_visited st) = pg_n g" "v < length (bs_depth st)" "length (bs_depth st) = MAXN" "pg_n g \<le> MAXN"
    using ok g vn by (auto simp: bs_ok_def graph_ok_def)
  show "bs_ok g (bfs_visit u v st)" by (rule bfs_visit_ok [OF g ok u'(1,2) v])
  show "bs_qh (bfs_visit u v st) = bs_qh st" by (simp add: bfs_visit_def Let_def)
  show "bs_dist g (bfs_visit u v st) u = Some k"
    using u' len by (auto simp: bfs_visit_def Let_def bs_dist_def nth_list_update)
  show "(bs_queue (bfs_visit u v st), bs_dist g (bfs_visit u v st)) = visit_one (Suc k) v (bs_queue st, bs_dist g st)"
    using u' len vn by (auto simp: bfs_visit_def Let_def bs_dist_def visit_one_def nth_list_update fun_eq_iff)
qed

lemma bfs_fold_law:
  assumes g: "graph_ok g"
  shows "set vs \<subseteq> set (nbrs g u) \<Longrightarrow> bs_ok g st \<Longrightarrow> bs_dist g st u = Some k \<Longrightarrow>
    bs_ok g (fold (bfs_visit u) vs st) \<and> bs_qh (fold (bfs_visit u) vs st) = bs_qh st
    \<and> (bs_queue (fold (bfs_visit u) vs st), bs_dist g (fold (bfs_visit u) vs st)) = fold (visit_one (Suc k)) vs (bs_queue st, bs_dist g st)"
proof (induction vs arbitrary: st)
  case (Cons v vs)
  note law = bfs_visit_law [OF g Cons.prems(2,3), of v]
  show ?case using Cons.IH [of "bfs_visit u v st"] Cons.prems(1) law by simp
qed simp

interpretation root_bfs: level_search nbrs graph_ok pg_n bs_queue bs_qh bs_dist bs_ok bfs_step
proof unfold_locales
  fix g u v
  show "graph_ok g \<Longrightarrow> u < pg_n g \<Longrightarrow> v \<in> set (nbrs g u) \<Longrightarrow> v < pg_n g" by (simp add: graph_ok_def)
next
  fix g s u k
  assume "graph_ok g" and ok: "bs_ok g s" and u: "u = bs_queue s ! bs_qh s" and d: "bs_dist g s u = Some k"
  let ?s = "s\<lparr>bs_qh := bs_qh s + 1\<rparr>"
  have "bs_ok g ?s" "bs_dist g ?s = bs_dist g s" using ok by (simp_all add: bs_ok_def bs_tree_def parent_ok_def Let_def bs_dist_def fun_eq_iff)
  then show "bs_ok g (bfs_step g s) \<and> bs_qh (bfs_step g s) = Suc (bs_qh s)
      \<and> (bs_queue (bfs_step g s), bs_dist g (bfs_step g s)) = fold (visit_one (Suc k)) (nbrs g u) (bs_queue s, bs_dist g s)"
    using bfs_fold_law [OF \<open>graph_ok g\<close> order_refl, of ?s u k] d by (simp add: bfs_step_def Let_def u)
qed

section \<open>The distances\<close>

definition ds_distance :: "PanelGraph \<Rightarrow> dist_state \<Rightarrow> nat \<Rightarrow> nat option" where
  "ds_distance g st v = (if v < pg_n g \<and> ds_dist st ! v \<noteq> NO_DIST then Some (ds_dist st ! v) else None)"

definition ds_ok :: "PanelGraph \<Rightarrow> dist_state \<Rightarrow> bool" where
  "ds_ok g st \<longleftrightarrow> pg_n g \<le> length (ds_dist st)"

lemma dist_fold_law:
  assumes g: "graph_ok g" and k: "k < pg_n g"
  shows "set vs \<subseteq> set (nbrs g u) \<Longrightarrow> ds_ok g st \<Longrightarrow> ds_distance g st u = Some k \<Longrightarrow>
    ds_ok g (fold (dist_visit u) vs st) \<and> ds_qh (fold (dist_visit u) vs st) = ds_qh st
    \<and> (ds_queue (fold (dist_visit u) vs st), ds_distance g (fold (dist_visit u) vs st)) = fold (visit_one (Suc k)) vs (ds_queue st, ds_distance g st)"
proof (induction vs arbitrary: st)
  case (Cons v vs)
  have u: "u < pg_n g" "ds_dist st ! u = k" using Cons.prems(3) by (auto simp: ds_distance_def split: if_splits)
  then have v: "v < pg_n g" using g Cons.prems(1) by (auto simp: graph_ok_def)
  have small: "Suc k mod 256 = Suc k" "Suc k \<noteq> NO_DIST" "k \<noteq> NO_DIST"
    using k g by (auto simp: graph_ok_def NO_DIST_def MAXN_def LIGHTNET_MAX_PANELS_def)
  have len: "v < length (ds_dist st)" using v Cons.prems(2) by (simp add: ds_ok_def)
  have "ds_ok g (dist_visit u v st)" "ds_qh (dist_visit u v st) = ds_qh st" "ds_distance g (dist_visit u v st) u = Some k"
    using Cons.prems(2) u small len by (auto simp: dist_visit_def ds_ok_def ds_distance_def nth_list_update)
  moreover have "(ds_queue (dist_visit u v st), ds_distance g (dist_visit u v st)) = visit_one (Suc k) v (ds_queue st, ds_distance g st)"
    using u small len v by (auto simp: dist_visit_def ds_distance_def visit_one_def nth_list_update fun_eq_iff)
  ultimately show ?case using Cons.IH [of "dist_visit u v st"] Cons.prems(1) by simp
qed simp

interpretation distances: level_search nbrs graph_ok pg_n ds_queue ds_qh ds_distance ds_ok dist_step
proof unfold_locales
  fix g u v
  show "graph_ok g \<Longrightarrow> u < pg_n g \<Longrightarrow> v \<in> set (nbrs g u) \<Longrightarrow> v < pg_n g" by (simp add: graph_ok_def)
next
  fix g s u k
  assume g: "graph_ok g" and ok: "ds_ok g s" and u: "u = ds_queue s ! ds_qh s" and d: "ds_distance g s u = Some k" and k: "k < pg_n g"
  let ?s = "s\<lparr>ds_qh := ds_qh s + 1\<rparr>"
  have "ds_ok g ?s" "ds_distance g ?s = ds_distance g s" using ok by (simp_all add: ds_ok_def ds_distance_def fun_eq_iff)
  then show "ds_ok g (dist_step g s) \<and> ds_qh (dist_step g s) = Suc (ds_qh s)
      \<and> (ds_queue (dist_step g s), ds_distance g (dist_step g s)) = fold (visit_one (Suc k)) (nbrs g u) (ds_queue s, ds_distance g s)"
    using dist_fold_law [OF g k order_refl, of ?s u] d by (simp add: dist_step_def Let_def u)
qed

section \<open>What the searches compute\<close>

definition ti_caps :: "TopologyIndex \<Rightarrow> bool" where
  "ti_caps t \<longleftrightarrow>
     length (ti_depth t) = MAXN \<and> length (ti_parent t) = MAXN \<and> length (ti_childCount t) = MAXN
     \<and> length (ti_canonPos t) = MAXN"

lemma bfs_start_ok:
  assumes g: "graph_ok (ti_graph t)" and n: "ti_n t = pg_n (ti_graph t)" and r: "ti_rootSlot t < ti_n t" and caps: "ti_caps t"
  shows "bs_ok (ti_graph t) (bfs_start t)"
    and "bs_dist (ti_graph t) (bfs_start t) = (\<lambda>v. if v \<in> {ti_rootSlot t} then Some 0 else None)"
proof -
  let ?g = "ti_graph t" and ?st = "bfs_start t" and ?r = "ti_rootSlot t"
  have nm: "ti_n t \<le> MAXN" using g n by (simp add: graph_ok_def)
  have fields: "bs_visited ?st ! v = (v = ?r)" "bs_parent ?st ! v = NO_PARENT" "bs_depth ?st ! v = 0" "bs_childCount ?st ! v = 0"
    if "v < ti_n t" for v
    using that r nm caps by (simp_all add: bfs_start_def Let_def nth_list_update nth_append ti_caps_def)
  have len: "length (bs_visited ?st) = ti_n t" "length (bs_depth ?st) = MAXN" "length (bs_parent ?st) = MAXN" "length (bs_childCount ?st) = MAXN"
    using nm caps by (simp_all add: bfs_start_def Let_def ti_caps_def)
  have none: "{v. v < ti_n t \<and> bs_parent ?st ! v = u} = {}" if "u < ti_n t" for u
    using that nm n no_parent_big [of ?g u] fields by auto
  have "bs_maxDepth ?st = 0" by (simp add: bfs_start_def Let_def)
  then have "bs_tree ?g ?st"
    using fields none r by (auto simp: bs_tree_def parent_ok_def n [symmetric] card_eq_0_iff)
  then show "bs_ok ?g ?st" using len by (simp add: bs_ok_def n)
  show "bs_dist ?g ?st = (\<lambda>v. if v \<in> {?r} then Some 0 else None)"
    using fields r by (auto simp: bs_dist_def n [symmetric] fun_eq_iff)
qed

definition rooted_at :: "PanelGraph \<Rightarrow> nat \<Rightarrow> TopologyIndex \<Rightarrow> bool" where
  "rooted_at g r t \<longleftrightarrow>
     (\<forall>v < pg_n g. \<forall>k. is_distance (nbrs g) {r} v k \<longrightarrow> ti_depth t ! v = k \<and> k < pg_n g)
     \<and> (\<forall>v < pg_n g. if v \<noteq> r \<and> (\<exists>k. v \<in> hop_set (nbrs g) {r} k)
          then ti_parent t ! v < pg_n g \<and> v \<in> set (nbrs g (ti_parent t ! v)) \<and> ti_depth t ! v = Suc (ti_depth t ! (ti_parent t ! v))
            \<and> (\<exists>k. ti_parent t ! v \<in> hop_set (nbrs g) {r} k)
          else ti_parent t ! v = NO_PARENT)
     \<and> (\<forall>u < pg_n g. ti_childCount t ! u = card {v. v < pg_n g \<and> ti_parent t ! v = u})
     \<and> (\<forall>v < pg_n g. \<forall>k. is_distance (nbrs g) {r} v k \<longrightarrow> k \<le> ti_maxDepthVal t)
     \<and> (\<exists>v < pg_n g. is_distance (nbrs g) {r} v (ti_maxDepthVal t))"

lemma hop_is_distance: "(\<exists>k. v \<in> hop_set N S k) \<longleftrightarrow> (\<exists>k. is_distance N S v k)"
proof
  assume "\<exists>k. v \<in> hop_set N S k"
  then have "v \<in> hop_set N S (LEAST k. v \<in> hop_set N S k)" by (rule LeastI_ex)
  then show "\<exists>k. is_distance N S v k" unfolding is_distance_def by (blast dest: not_less_Least)
qed (auto simp: is_distance_def)

lemma distance_unique: "is_distance N S v k \<Longrightarrow> is_distance N S v j \<Longrightarrow> k = j"
  by (metis is_distance_def nat_neq_iff)

lemma distance_zero: "is_distance N S v 0 \<longleftrightarrow> v \<in> S"
  by (simp add: is_distance_def)

lemma bfs_rooted:
  assumes g: "graph_ok (ti_graph t)" and n: "ti_n t = pg_n (ti_graph t)" and r: "ti_rootSlot t < ti_n t" and caps: "ti_caps t"
  obtains st where "ti_bfsFromRoot t = Some (t\<lparr>ti_maxDepthVal := bs_maxDepth st, ti_depth := bs_depth st, ti_parent := bs_parent st,
         ti_childCount := bs_childCount st\<rparr>)" "bs_ok (ti_graph t) st"
    "\<And>v k. bs_dist (ti_graph t) st v = Some k \<longleftrightarrow> is_distance (nbrs (ti_graph t)) {ti_rootSlot t} v k"
    "\<And>v k. is_distance (nbrs (ti_graph t)) {ti_rootSlot t} v k \<Longrightarrow> k < pg_n (ti_graph t)"
proof -
  let ?g = "ti_graph t" and ?s = "bfs_start t"
  note start = bfs_start_ok [OF g n r caps]
  have q: "bs_qh ?s = 0" "bs_queue ?s = [ti_rootSlot t]" by (simp_all add: bfs_start_def Let_def)
  have que: "distinct (bs_queue ?s)" "set (bs_queue ?s) \<subseteq> {..<pg_n ?g}"
    "bs_dist ?g ?s = (\<lambda>v. if v \<in> set (bs_queue ?s) then Some 0 else None)"
    using q r n start(2) by simp_all
  obtain st
    where st: "while_option (\<lambda>s. bs_qh s < length (bs_queue s)) (bfs_step ?g) ?s = Some st" "bs_ok ?g st"
      "set (bs_queue st) = dom (bs_dist ?g st)" "set (bs_queue st) \<subseteq> {..<pg_n ?g}" "distinct (bs_queue st)"
      "\<And>v k. bs_dist ?g st v = Some k \<longleftrightarrow> is_distance (nbrs ?g) (set (bs_queue ?s)) v k"
      "\<And>v k. is_distance (nbrs ?g) (set (bs_queue ?s)) v k \<Longrightarrow> k < pg_n ?g"
    by (rule root_bfs.search_ends [OF g start(1) q(1) que]) blast
  have "ti_bfsFromRoot t = Some (t\<lparr>ti_maxDepthVal := bs_maxDepth st, ti_depth := bs_depth st, ti_parent := bs_parent st,
         ti_childCount := bs_childCount st\<rparr>)"
    using st(1) by (simp add: ti_bfsFromRoot_def bfs_more_def [abs_def])
  then show thesis using that [of st] st(2,6,7) unfolding q(2) by simp
qed

lemma bs_rooted_at:
  assumes g: "graph_ok g" and r: "r < pg_n g" and ok: "bs_ok g st"
    and dist: "\<And>v k. bs_dist g st v = Some k \<longleftrightarrow> is_distance (nbrs g) {r} v k"
    and bound: "\<And>v k. is_distance (nbrs g) {r} v k \<Longrightarrow> k < pg_n g"
    and t: "ti_depth t = bs_depth st" "ti_parent t = bs_parent st" "ti_childCount t = bs_childCount st" "ti_maxDepthVal t = bs_maxDepth st"
  shows "rooted_at g r t"
proof -
  have par: "\<And>w. w < pg_n g \<Longrightarrow> parent_ok g st w"
    and cc: "\<And>x. x < pg_n g \<Longrightarrow> bs_childCount st ! x = card {w. w < pg_n g \<and> bs_parent st ! w = x}"
    and le: "\<And>w. w < pg_n g \<Longrightarrow> bs_visited st ! w \<Longrightarrow> bs_depth st ! w \<le> bs_maxDepth st"
    and ex: "\<exists>v < pg_n g. bs_visited st ! v \<and> bs_depth st ! v = bs_maxDepth st"
    using ok by (simp_all add: bs_ok_def bs_tree_def)
  have vis: "bs_visited st ! v \<longleftrightarrow> (\<exists>k. v \<in> hop_set (nbrs g) {r} k)" if "v < pg_n g" for v
    using dist [of v] that unfolding hop_is_distance bs_dist_def by (metis option.distinct(1))
  have dep: "is_distance (nbrs g) {r} v (bs_depth st ! v)" if "v < pg_n g" "bs_visited st ! v" for v
    using dist [of v "bs_depth st ! v"] that by (simp add: bs_dist_def)
  have below: "v < pg_n g \<and> bs_visited st ! v \<and> bs_depth st ! v = k" if "is_distance (nbrs g) {r} v k" for v k
    using dist [of v k] that by (simp add: bs_dist_def split: if_splits)
  have tree: "if v \<noteq> r \<and> (\<exists>k. v \<in> hop_set (nbrs g) {r} k)
      then bs_parent st ! v < pg_n g \<and> v \<in> set (nbrs g (bs_parent st ! v))
        \<and> bs_depth st ! v = Suc (bs_depth st ! (bs_parent st ! v)) \<and> (\<exists>k. bs_parent st ! v \<in> hop_set (nbrs g) {r} k)
      else bs_parent st ! v = NO_PARENT" if v: "v < pg_n g" for v
  proof (cases "bs_visited st ! v")
    case True
    have "bs_depth st ! v = 0 \<longleftrightarrow> v = r" using dep [OF v True] distance_zero [of "nbrs g" "{r}" v] distance_unique by fastforce
    then show ?thesis using par [OF v] True vis [OF v] vis [of "bs_parent st ! v"] by (auto simp: parent_ok_def Let_def)
  next
    case False
    then show ?thesis using par [OF v] vis [OF v] by (simp add: parent_ok_def Let_def)
  qed
  have deep: "\<exists>v < pg_n g. is_distance (nbrs g) {r} v (bs_maxDepth st)" using ex dep by metis
  have depths: "\<forall>v < pg_n g. \<forall>k. is_distance (nbrs g) {r} v k \<longrightarrow> bs_depth st ! v = k \<and> k < pg_n g" using below bound by blast
  have top: "\<forall>v < pg_n g. \<forall>k. is_distance (nbrs g) {r} v k \<longrightarrow> k \<le> bs_maxDepth st" using below le by blast
  have trees: "\<forall>v < pg_n g. if v \<noteq> r \<and> (\<exists>k. v \<in> hop_set (nbrs g) {r} k)
      then bs_parent st ! v < pg_n g \<and> v \<in> set (nbrs g (bs_parent st ! v))
        \<and> bs_depth st ! v = Suc (bs_depth st ! (bs_parent st ! v)) \<and> (\<exists>k. bs_parent st ! v \<in> hop_set (nbrs g) {r} k)
      else bs_parent st ! v = NO_PARENT" using tree by blast
  show ?thesis unfolding rooted_at_def t by (intro conjI depths trees top deep) (use cc in blast)
qed

section \<open>The canonical order\<close>

definition child_list :: "TopologyIndex \<Rightarrow> nat \<Rightarrow> nat list" where
  "child_list t u = map fst (sort_children (gather_children t u))"

text \<open>The neighbours of \<open>u\<close> with its connectors towards them, and among these the children.\<close>

definition row :: "PanelGraph \<Rightarrow> nat \<Rightarrow> (nat \<times> u8) list" where
  "row g u = map (\<lambda>i. (pg_neighborSlot g u i, pg_neighborMyEdge g u i)) [0..<pg_degree g u]"

lemma gather_children_take:
  "gather_children t u = take 8 (filter (\<lambda>c. ti_parent t ! fst c = u) (row (ti_graph t) u))"
proof -
  define f where "f = (\<lambda>i cs. if ti_parent t ! pg_neighborSlot (ti_graph t) u i = u \<and> length cs < 8
                 then cs @ [(pg_neighborSlot (ti_graph t) u i, pg_neighborMyEdge (ti_graph t) u i)] else cs)"
  have "fold f [0..<m] [] = take 8 (filter (\<lambda>c. ti_parent t ! fst c = u)
      (map (\<lambda>i. (pg_neighborSlot (ti_graph t) u i, pg_neighborMyEdge (ti_graph t) u i)) [0..<m]))" for m
    by (induction m) (auto simp: f_def)
  then show ?thesis unfolding gather_children_def f_def row_def by blast
qed

lemma child_list_eq:
  assumes "pg_degree (ti_graph t) u \<le> 8"
  shows "child_list t u = map fst (sort_key snd (filter (\<lambda>c. ti_parent t ! fst c = u) (row (ti_graph t) u)))"
proof -
  have "length (filter (\<lambda>c. ti_parent t ! fst c = u) (row (ti_graph t) u)) \<le> 8"
    using assms length_filter_le [of "\<lambda>c. ti_parent t ! fst c = u" "row (ti_graph t) u"] by (simp add: row_def)
  then show ?thesis by (simp add: child_list_def sort_children_def insertion_sort_stable gather_children_take)
qed

lemma nbrs_row: "nbrs g u = map fst (row g u)"
  by (simp add: nbrs_def row_def)

lemma child_list_props:
  assumes "pg_degree (ti_graph t) u \<le> 8" and "distinct (nbrs (ti_graph t) u)"
  shows "set (child_list t u) = {v \<in> set (nbrs (ti_graph t) u). ti_parent t ! v = u}" and "distinct (child_list t u)"
proof -
  let ?f = "filter (\<lambda>c. ti_parent t ! fst c = u) (row (ti_graph t) u)"
  show "set (child_list t u) = {v \<in> set (nbrs (ti_graph t) u). ti_parent t ! v = u}"
    unfolding child_list_eq [OF assms(1)] by (auto simp: nbrs_row)
  have "distinct (map fst ?f)" using assms(2) by (simp add: nbrs_row distinct_map_filter)
  moreover have "mset (map fst (sort_key snd ?f)) = mset (map fst ?f)" by simp
  ultimately show "distinct (child_list t u)" unfolding child_list_eq [OF assms(1)] using mset_eq_imp_distinct_iff by blast
qed

section \<open>Pre-order of a tree given by child lists\<close>

fun preorder :: "(nat \<Rightarrow> nat list) \<Rightarrow> nat \<Rightarrow> nat \<Rightarrow> nat list" where
  "preorder C 0 u = [u]"
| "preorder C (Suc m) u = u # concat (map (preorder C m) (C u))"

text \<open>
  A tree of child lists below depth \<open>n\<close>: the children of a node are one deeper and point back to it.
\<close>

definition child_tree :: "(nat \<Rightarrow> nat list) \<Rightarrow> (nat \<Rightarrow> nat) \<Rightarrow> (nat \<Rightarrow> nat) \<Rightarrow> nat set \<Rightarrow> nat \<Rightarrow> bool" where
  "child_tree C par dep R n \<longleftrightarrow>
     (\<forall>u \<in> R. dep u < n \<and> distinct (C u) \<and> (\<forall>v \<in> set (C u). v \<in> R \<and> dep v = Suc (dep u) \<and> par v = u))"

definition below_of :: "(nat \<Rightarrow> nat list) \<Rightarrow> (nat \<Rightarrow> nat) \<Rightarrow> nat \<Rightarrow> nat \<Rightarrow> nat list" where
  "below_of C dep n u = preorder C (n - dep u) u"

lemma below_of_unfold:
  assumes "child_tree C par dep R n" and "u \<in> R"
  shows "below_of C dep n u = u # concat (map (below_of C dep n) (C u))"
proof -
  have u: "dep u < n" and ch: "\<And>v. v \<in> set (C u) \<Longrightarrow> n - dep v = n - Suc (dep u)" using assms by (auto simp: child_tree_def)
  have "n - dep u = Suc (n - Suc (dep u))" using u by simp
  then have "below_of C dep n u = u # concat (map (preorder C (n - Suc (dep u))) (C u))" by (simp add: below_of_def)
  also have "map (preorder C (n - Suc (dep u))) (C u) = map (below_of C dep n) (C u)"
    using ch by (intro map_cong refl) (simp add: below_of_def)
  finally show ?thesis .
qed

lemma below_of_members:
  assumes tree: "child_tree C par dep R n"
  shows "u \<in> R \<Longrightarrow> x \<in> set (below_of C dep n u) \<Longrightarrow>
    x \<in> R \<and> dep u \<le> dep x \<and> (par ^^ (dep x - dep u)) x = u \<and> set (C x) \<subseteq> set (below_of C dep n u)"
proof (induction "n - dep u" arbitrary: u x rule: less_induct)
  case less
  note unf = below_of_unfold [OF tree less.prems(1)]
  have self: "\<And>v. v \<in> R \<Longrightarrow> v \<in> set (below_of C dep n v)" using below_of_unfold [OF tree] by force
  show ?case
  proof (cases "x = u")
    case True
    have "set (C u) \<subseteq> set (below_of C dep n u)"
      unfolding unf using self less.prems(1) tree by (fastforce simp: child_tree_def)
    then show ?thesis using True less.prems(1) by simp
  next
    case False
    then obtain v where v: "v \<in> set (C u)" "x \<in> set (below_of C dep n v)" using less.prems(2) unfolding unf by auto
    have v': "v \<in> R" "dep v = Suc (dep u)" "par v = u" "dep u < n" using tree less.prems(1) v(1) by (auto simp: child_tree_def)
    have IH: "x \<in> R" "dep v \<le> dep x" "(par ^^ (dep x - dep v)) x = v" "set (C x) \<subseteq> set (below_of C dep n v)"
      using less.hyps [of v x] v v' by auto
    have "dep x - dep u = Suc (dep x - dep v)" using IH(2) v'(2) by simp
    then have "(par ^^ (dep x - dep u)) x = u" using IH(3) v'(3) by simp
    moreover have "set (below_of C dep n v) \<subseteq> set (below_of C dep n u)" unfolding unf using v(1) by auto
    ultimately show ?thesis using IH v' by auto
  qed
qed

lemma below_of_distinct:
  assumes tree: "child_tree C par dep R n"
  shows "u \<in> R \<Longrightarrow> distinct (below_of C dep n u)"
proof (induction "n - dep u" arbitrary: u rule: less_induct)
  case less
  have ch: "v \<in> R" "dep v = Suc (dep u)" if "v \<in> set (C u)" for v using tree less.prems that by (auto simp: child_tree_def)
  have u: "dep u < n" "distinct (C u)" using tree less.prems by (auto simp: child_tree_def)
  have IH: "distinct (below_of C dep n v)" if "v \<in> set (C u)" for v
    using less.hyps [of v] ch [OF that] u by simp
  have apart: "set (below_of C dep n v) \<inter> set (below_of C dep n w) = {}" if "v \<in> set (C u)" "w \<in> set (C u)" "v \<noteq> w" for v w
    using below_of_members [OF tree ch(1) [OF that(1)]] below_of_members [OF tree ch(1) [OF that(2)]] ch(2) that by fastforce
  have notin: "u \<notin> set (below_of C dep n v)" if "v \<in> set (C u)" for v
    using below_of_members [OF tree ch(1) [OF that], of u] ch(2) [OF that] by auto
  have "set xs \<subseteq> set (C u) \<Longrightarrow> distinct xs \<Longrightarrow> distinct (concat (map (below_of C dep n) xs))" for xs
  proof (induction xs)
    case (Cons x xs)
    have "set (below_of C dep n x) \<inter> set (below_of C dep n y) = {}" if "y \<in> set xs" for y
      using apart [of x y] Cons.prems that by auto
    then show ?case using Cons IH by (auto simp: disjoint_iff)
  qed simp
  then show ?case using u(2) notin unfolding below_of_unfold [OF tree less.prems] by auto
qed

text \<open>
  The worklist loop of both traversals: pop a node, process it, push its children. It ends having
  processed the tree below the start in pre-order.
\<close>

definition dfs_step :: "(nat \<Rightarrow> nat list) \<Rightarrow> (nat \<Rightarrow> 'a \<Rightarrow> 'a) \<Rightarrow> nat list \<times> 'a \<Rightarrow> nat list \<times> 'a" where
  "dfs_step C f st = (C (hd (fst st)) @ tl (fst st), f (hd (fst st)) (snd st))"

lemma dfs_loop:
  assumes tree: "child_tree C par dep R n" and u: "u \<in> R"
  shows "while_option (\<lambda>st. fst st \<noteq> []) (dfs_step C f) ([u], acc) = Some ([], fold f (below_of C dep n u) acc)"
proof -
  let ?B = "\<lambda>us. concat (map (below_of C dep n) us)"
  let ?P = "\<lambda>st. set (fst st) \<subseteq> R \<and> fold f (?B (fst st)) (snd st) = fold f (below_of C dep n u) acc"
  have step: "?P (dfs_step C f st) \<and> length (?B (fst (dfs_step C f st))) < length (?B (fst st))" if P: "?P st" and ne: "fst st \<noteq> []" for st
  proof -
    obtain v vs where vs: "fst st = v # vs" using ne by (cases "fst st") auto
    then have v: "v \<in> R" using P by simp
    show ?thesis using P tree v by (auto simp: dfs_step_def vs below_of_unfold [OF tree v] child_tree_def)
  qed
  have start: "?P ([u], acc)" using u by simp
  have "\<exists>t. while_option (\<lambda>st. fst st \<noteq> []) (dfs_step C f) ([u], acc) = Some t"
    by (rule measure_while_option_Some [where P = ?P and f = "\<lambda>st. length (?B (fst st))"]) (use step start in blast)+
  then obtain t where t: "while_option (\<lambda>st. fst st \<noteq> []) (dfs_step C f) ([u], acc) = Some t" by blast
  have "?P t" by (rule while_option_rule [where P = ?P, OF _ t start]) (use step in blast)
  moreover have "fst t = []" using while_option_stop [OF t] by simp
  ultimately have "t = ([], fold f (below_of C dep n u) acc)" by (cases t) simp
  then show ?thesis using t by simp
qed

section \<open>Both traversals\<close>

text \<open>What the traversals need of the graph: simple, and at most the eight children the code gathers.\<close>

definition graph_simple :: "PanelGraph \<Rightarrow> bool" where
  "graph_simple g \<longleftrightarrow> (\<forall>u < pg_n g. distinct (nbrs g u) \<and> pg_degree g u \<le> 8)"

definition reach :: "PanelGraph \<Rightarrow> nat \<Rightarrow> nat set" where
  "reach g r = {v. v < pg_n g \<and> (\<exists>k. v \<in> hop_set (nbrs g) {r} k)}"

lemma rooted_at_canon: "rooted_at g r t \<Longrightarrow> rooted_at g r (t\<lparr>ti_canonPos := c\<rparr>)"
  by (simp add: rooted_at_def)

lemma rooted_child:
  assumes g: "graph_ok g" and rt: "rooted_at g r t" and u: "u \<in> reach g r" and v: "v \<in> set (nbrs g u)" and p: "ti_parent t ! v = u"
  shows "v \<in> reach g r \<and> ti_depth t ! v = Suc (ti_depth t ! u)"
proof -
  have vn: "v < pg_n g" "u < pg_n g" and n: "pg_n g \<le> MAXN" using g u v by (auto simp: graph_ok_def reach_def)
  obtain k where "u \<in> hop_set (nbrs g) {r} k" using u by (auto simp: reach_def)
  then have "v \<in> hop_set (nbrs g) {r} (Suc k)" using v by auto
  then have R: "v \<in> reach g r" using vn unfolding reach_def by blast
  have "ti_parent t ! v \<noteq> NO_PARENT" using p no_parent_big [OF n vn(2)] by simp
  then show ?thesis using R rt vn(1) p unfolding rooted_at_def by (metis (no_types, lifting))
qed

lemma rooted_parent:
  assumes rt: "rooted_at g r t" and x: "x \<in> reach g r" and nr: "x \<noteq> r"
  shows "ti_parent t ! x \<in> reach g r" and "x \<in> set (nbrs g (ti_parent t ! x))"
    and "ti_depth t ! x = Suc (ti_depth t ! (ti_parent t ! x))"
proof -
  have "x < pg_n g" "\<exists>k. x \<in> hop_set (nbrs g) {r} k" using x by (simp_all add: reach_def)
  moreover have "\<forall>v < pg_n g. if v \<noteq> r \<and> (\<exists>k. v \<in> hop_set (nbrs g) {r} k)
          then ti_parent t ! v < pg_n g \<and> v \<in> set (nbrs g (ti_parent t ! v)) \<and> ti_depth t ! v = Suc (ti_depth t ! (ti_parent t ! v))
            \<and> (\<exists>k. ti_parent t ! v \<in> hop_set (nbrs g) {r} k)
          else ti_parent t ! v = NO_PARENT" using rt unfolding rooted_at_def by blast
  ultimately show "ti_parent t ! x \<in> reach g r" "x \<in> set (nbrs g (ti_parent t ! x))"
    "ti_depth t ! x = Suc (ti_depth t ! (ti_parent t ! x))" using nr by (simp_all add: reach_def)
qed

lemma rooted_distance:
  assumes "rooted_at g r t" and "v < pg_n g" and "is_distance (nbrs g) {r} v k"
  shows "ti_depth t ! v = k" and "k < pg_n g"
  using assms(1) [unfolded rooted_at_def, THEN conjunct1] assms(2,3) by blast+

lemma rooted_depth: "rooted_at g r t \<Longrightarrow> u \<in> reach g r \<Longrightarrow> ti_depth t ! u < pg_n g"
  unfolding reach_def hop_is_distance using rooted_distance by blast

lemma rooted_root: "rooted_at g r t \<Longrightarrow> r < pg_n g \<Longrightarrow> ti_depth t ! r = 0"
  by (rule rooted_distance(1)) (simp_all add: distance_zero)

lemma rooted_tree:
  assumes g: "graph_ok g" and rt: "rooted_at g r t"
    and C: "\<And>u. u \<in> reach g r \<Longrightarrow> distinct (C u) \<and> set (C u) = {v \<in> set (nbrs g u). ti_parent t ! v = u}"
  shows "child_tree C (\<lambda>v. ti_parent t ! v) (\<lambda>v. ti_depth t ! v) (reach g r) (pg_n g)"
  unfolding child_tree_def using rooted_depth [OF rt] rooted_child [OF g rt] C by auto

text \<open>The nodes below \<open>u\<close> are those whose parent chain leads to \<open>u\<close>.\<close>

definition descends :: "TopologyIndex \<Rightarrow> nat \<Rightarrow> nat \<Rightarrow> bool" where
  "descends t u x \<longleftrightarrow> ti_depth t ! u \<le> ti_depth t ! x \<and> ((\<lambda>v. ti_parent t ! v) ^^ (ti_depth t ! x - ti_depth t ! u)) x = u"

lemma below_of_set:
  assumes g: "graph_ok g" and r: "r < pg_n g" and rt: "rooted_at g r t"
    and C: "\<And>u. u \<in> reach g r \<Longrightarrow> distinct (C u) \<and> set (C u) = {v \<in> set (nbrs g u). ti_parent t ! v = u}"
    and u: "u \<in> reach g r"
  shows "set (below_of C (\<lambda>v. ti_depth t ! v) (pg_n g) u) = {x \<in> reach g r. descends t u x}"
proof -
  let ?B = "below_of C (\<lambda>v. ti_depth t ! v) (pg_n g) u" and ?par = "\<lambda>v. ti_parent t ! v"
  have tree: "child_tree C ?par (\<lambda>v. ti_depth t ! v) (reach g r) (pg_n g)" by (rule rooted_tree [OF g rt C])
  have mem: "x \<in> reach g r \<and> descends t u x \<and> set (C x) \<subseteq> set ?B" if "x \<in> set ?B" for x
    using below_of_members [OF tree u that] by (simp add: descends_def)
  have u_in: "u \<in> set ?B" unfolding below_of_unfold [OF tree u] by simp
  have chain: "x \<in> reach g r \<Longrightarrow> ti_depth t ! x = ti_depth t ! u + j \<Longrightarrow> (?par ^^ j) x = u \<Longrightarrow> x \<in> set ?B" for j x
  proof (induction j arbitrary: x)
    case 0
    then show ?case using u_in by simp
  next
    case (Suc j)
    have nr: "x \<noteq> r"
      using rooted_root [OF rt r] Suc.prems(2) by auto
    let ?p = "ti_parent t ! x"
    note p = rooted_parent [OF rt Suc.prems(1) nr]
    have "(?par ^^ j) ?p = u" using Suc.prems(3) by (simp add: funpow_swap1)
    then have "?p \<in> set ?B" using Suc.IH [OF p(1)] p(3) Suc.prems(2) by simp
    then have "set (C ?p) \<subseteq> set ?B" using mem by blast
    then show ?case using C [OF p(1)] p(2) by auto
  qed
  have "x \<in> set ?B" if "x \<in> reach g r" "descends t u x" for x
    using chain [OF that(1), of "ti_depth t ! x - ti_depth t ! u"] that(2) by (simp add: descends_def)
  then show ?thesis using mem by blast
qed

lemma descends_root:
  assumes g: "graph_ok g" and r: "r < pg_n g" and rt: "rooted_at g r t" and x: "x \<in> reach g r"
  shows "descends t r x"
proof -
  note r0 = rooted_root [OF rt r]
  have "x \<in> reach g r \<Longrightarrow> ti_depth t ! x = j \<Longrightarrow> ((\<lambda>v. ti_parent t ! v) ^^ j) x = r" for j x
  proof (induction j arbitrary: x)
    case 0
    then obtain k where "x < pg_n g" "is_distance (nbrs g) {r} x k" unfolding reach_def hop_is_distance by blast
    then show ?case using rooted_distance(1) [OF rt] 0(2) distance_zero [of "nbrs g" "{r}" x] by force
  next
    case (Suc j)
    then have "x \<noteq> r" using r0 by auto
    then have "ti_parent t ! x \<in> reach g r" "ti_depth t ! x = Suc (ti_depth t ! (ti_parent t ! x))"
      using rooted_parent [OF rt Suc.prems(1)] by blast+
    then show ?case using Suc.IH [of "ti_parent t ! x"] Suc.prems(2) by (simp add: funpow_swap1)
  qed
  then show ?thesis using x r0 by (simp add: descends_def)
qed

definition canon_visit :: "nat \<Rightarrow> nat \<times> nat list \<Rightarrow> nat \<times> nat list" where
  "canon_visit u acc = (fst acc + 1, (snd acc)[u := fst acc])"

lemma canon_step_dfs: "canon_step t = dfs_step (child_list t) canon_visit"
  by (rule ext) (simp add: canon_step_def dfs_step_def canon_visit_def child_list_def Let_def split: prod.splits)

lemma canon_visit_fold:
  assumes "distinct us" and "set us \<subseteq> {..<length c}"
  shows "fst (fold canon_visit us (0, c)) = length us \<and> length (snd (fold canon_visit us (0, c))) = length c
    \<and> (\<forall>i < length us. snd (fold canon_visit us (0, c)) ! (us ! i) = i)"
  using assms
proof (induction us rule: rev_induct)
  case (snoc u us)
  then have "us ! i \<noteq> u" if "i < length us" for i using nth_mem [OF that] by auto
  then show ?case using snoc by (auto simp: canon_visit_def nth_append nth_list_update less_Suc_eq)
qed simp

text \<open>The children pushed by \<open>fillSubtree\<close>, in stack order.\<close>

definition pushed_children :: "TopologyIndex \<Rightarrow> nat \<Rightarrow> nat list" where
  "pushed_children t u = rev (filter (\<lambda>v. ti_parent t ! v = u) (nbrs (ti_graph t) u))"

lemma push_fold: "fold (\<lambda>v stack. if P v then v # stack else stack) vs stack = rev (filter P vs) @ stack"
  by (induction vs arbitrary: stack) simp_all

lemma subtree_step_dfs: "subtree_step t = dfs_step (pushed_children t) ps_set"
  by (rule ext) (simp add: subtree_step_def dfs_step_def pushed_children_def push_fold Let_def split: prod.splits)

lemma ps_test_bit: "ps_test bits i \<longleftrightarrow> bit (bits ! (i div 8)) (i mod 8)"
  by (simp add: ps_test_def bit_iff_odd_drop_bit and_one_eq odd_iff_mod_2_eq_one)

lemma ps_test_set:
  assumes "i < 8 * length bits"
  shows "ps_test (ps_set i bits) j \<longleftrightarrow> j = i \<or> ps_test bits j"
proof (cases "j div 8 = i div 8")
  case True
  have "i div 8 < length bits" using assms by (simp add: less_mult_imp_div_less)
  moreover have "j mod 8 = i mod 8 \<longleftrightarrow> j = i" using True by (metis div_mult_mod_eq)
  moreover have "j mod 8 < 8" by simp
  ultimately show ?thesis using True
    by (auto simp: ps_test_bit ps_set_def bit_or_iff bit_exp_iff)
next
  case False
  then show ?thesis by (auto simp: ps_test_bit ps_set_def)
qed

lemma ps_test_clear: "i < 8 * PANEL_WORDS \<Longrightarrow> \<not> ps_test (ps_clearAll bits) i"
  by (simp add: ps_test_bit ps_clearAll_def less_mult_imp_div_less)

lemma length_ps_set: "length (ps_set i bits) = length bits"
  by (simp add: ps_set_def)

lemma ps_test_fold:
  assumes "\<forall>i \<in> set us. i < 8 * length bits"
  shows "ps_test (fold ps_set us bits) j \<longleftrightarrow> j \<in> set us \<or> ps_test bits j"
  using assms
proof (induction us arbitrary: bits)
  case (Cons u us)
  then show ?case by (auto simp: ps_test_set length_ps_set)
qed simp

definition pre_order :: "TopologyIndex \<Rightarrow> nat \<Rightarrow> nat list" where
  "pre_order t r = preorder (child_list t) (ti_n t) r"

text \<open>
  The canonical order: positions are indices into the pre-order of the tree that visits every reachable
  slot once, each node before its children, and the children by ascending connector.
\<close>

definition canonical :: "PanelGraph \<Rightarrow> nat \<Rightarrow> TopologyIndex \<Rightarrow> bool" where
  "canonical g r t \<longleftrightarrow>
     distinct (pre_order t r) \<and> set (pre_order t r) = reach g r \<and> hd (pre_order t r) = r
     \<and> (\<forall>i < length (pre_order t r). ti_canonicalPos t (pre_order t r ! i) = i)
     \<and> (\<forall>u \<in> reach g r. child_list t u = map fst (sort_key snd (filter (\<lambda>c. ti_parentOf t (fst c) = u) (row g u))))"

lemma bfs_more_eq: "bfs_more = (\<lambda>s. bs_qh s < length (bs_queue s))"
  by (rule ext) (simp add: bfs_more_def)

lemma canon_more_eq: "canon_more = (\<lambda>st. fst st \<noteq> [])"
  by (rule ext) (simp add: canon_more_def)

lemma canonical_order:
  assumes g: "graph_ok g" "graph_simple g" and r: "r < pg_n g" and rt: "rooted_at g r t"
    and t: "ti_graph t = g" "ti_n t = pg_n g" "ti_rootSlot t = r" "length (ti_canonPos t) = MAXN"
  obtains cp where "ti_computeCanonicalOrder t = Some (t\<lparr>ti_canonPos := cp\<rparr>)" "length cp = MAXN"
    "canonical g r (t\<lparr>ti_canonPos := cp\<rparr>)"
proof -
  let ?dep = "\<lambda>v. ti_depth t ! v" and ?par = "\<lambda>v. ti_parent t ! v"
  have simple: "pg_degree (ti_graph t) u \<le> 8" "distinct (nbrs (ti_graph t) u)" if "u \<in> reach g r" for u
    using g(2) t(1) that by (auto simp: graph_simple_def reach_def)
  have C: "distinct (child_list t u) \<and> set (child_list t u) = {v \<in> set (nbrs g u). ti_parent t ! v = u}" if "u \<in> reach g r" for u
    using child_list_props [OF simple [OF that]] t(1) by simp
  have tree: "child_tree (child_list t) ?par ?dep (reach g r) (pg_n g)" by (rule rooted_tree [OF g(1) rt C])
  have rr: "r \<in> reach g r" using r unfolding reach_def by (auto intro: exI [of _ 0])
  have pre: "pre_order t r = below_of (child_list t) ?dep (pg_n g) r"
    using rooted_root [OF rt r] by (simp add: pre_order_def below_of_def t)
  have loop: "while_option canon_more (canon_step t) ([r], 0, ti_canonPos t) = Some ([], fold canon_visit (pre_order t r) (0, ti_canonPos t))"
    unfolding canon_more_eq canon_step_dfs pre by (rule dfs_loop [OF tree rr])
  have dist: "distinct (pre_order t r)" unfolding pre by (rule below_of_distinct [OF tree rr])
  have "set (below_of (child_list t) ?dep (pg_n g) r) = {x \<in> reach g r. descends t r x}"
    by (rule below_of_set [OF g(1) r rt C rr])
  then have set: "set (pre_order t r) = reach g r" unfolding pre using descends_root [OF g(1) r rt] by auto
  let ?cp = "snd (fold canon_visit (pre_order t r) (0, ti_canonPos t))"
  have nm: "pg_n g \<le> MAXN" using g(1) by (simp add: graph_ok_def)
  have below: "set (pre_order t r) \<subseteq> {..<length (ti_canonPos t)}" unfolding set t(4) using nm by (auto simp: reach_def)
  note cp = canon_visit_fold [OF dist below]
  have ord: "ti_computeCanonicalOrder t = Some (t\<lparr>ti_canonPos := ?cp\<rparr>)"
    unfolding ti_computeCanonicalOrder_def t(3) loop by (simp split: prod.splits)
  have same: "child_list (t\<lparr>ti_canonPos := ?cp\<rparr>) = child_list t"
    by (rule ext) (simp add: child_list_def gather_children_take)
  then have pre': "pre_order (t\<lparr>ti_canonPos := ?cp\<rparr>) r = pre_order t r" by (simp add: pre_order_def)
  have hd: "hd (pre_order t r) = r" unfolding pre below_of_unfold [OF tree rr] by simp
  have rows: "child_list t u = map fst (sort_key snd (filter (\<lambda>c. ti_parent t ! fst c = u) (row g u)))" if "u \<in> reach g r" for u
    using child_list_eq [OF simple(1) [OF that]] t(1) by simp
  have "canonical g r (t\<lparr>ti_canonPos := ?cp\<rparr>)"
    unfolding canonical_def pre' same using dist set hd cp rows by (simp add: ti_canonicalPos_def ti_parentOf_def)
  then show thesis using that [OF ord] cp t(4) by simp
qed

lemma topology_build_spec:
  assumes g: "graph_ok g" "graph_simple g" and n: "0 < pg_n g" and root: "ti_pickRoot g p < pg_n g" and caps: "ti_caps t"
  shows "\<exists>t'. ti_build g p t = Some (True, t') \<and> rooted_at g (ti_pickRoot g p) t' \<and> canonical g (ti_pickRoot g p) t'
    \<and> ti_graph t' = g \<and> ti_n t' = pg_n g \<and> ti_rootSlot t' = ti_pickRoot g p \<and> ti_caps t'"
proof -
  let ?r = "ti_pickRoot g p" and ?t = "t\<lparr>ti_graph := g, ti_n := pg_n g, ti_rootSlot := ti_pickRoot g p\<rparr>"
  have caps': "ti_caps ?t" using caps by (simp add: ti_caps_def)
  obtain st where st: "ti_bfsFromRoot ?t = Some (?t\<lparr>ti_maxDepthVal := bs_maxDepth st, ti_depth := bs_depth st, ti_parent := bs_parent st,
         ti_childCount := bs_childCount st\<rparr>)" "bs_ok (ti_graph ?t) st"
    "\<And>v k. bs_dist (ti_graph ?t) st v = Some k \<longleftrightarrow> is_distance (nbrs (ti_graph ?t)) {ti_rootSlot ?t} v k"
    "\<And>v k. is_distance (nbrs (ti_graph ?t)) {ti_rootSlot ?t} v k \<Longrightarrow> k < pg_n (ti_graph ?t)"
    by (rule bfs_rooted [of ?t]) (use g root caps' in simp_all)
  let ?u = "?t\<lparr>ti_maxDepthVal := bs_maxDepth st, ti_depth := bs_depth st, ti_parent := bs_parent st, ti_childCount := bs_childCount st\<rparr>"
  have rt: "rooted_at g ?r ?u" by (rule bs_rooted_at [OF g(1) root, of st]) (use st in simp_all)
  have u: "ti_graph ?u = g" "ti_n ?u = pg_n g" "ti_rootSlot ?u = ?r" "length (ti_canonPos ?u) = MAXN"
    using caps by (simp_all add: ti_caps_def)
  obtain cp where cp: "ti_computeCanonicalOrder ?u = Some (?u\<lparr>ti_canonPos := cp\<rparr>)" "length cp = MAXN" "canonical g ?r (?u\<lparr>ti_canonPos := cp\<rparr>)"
    by (rule canonical_order [OF g root rt u])
  have build: "ti_build g p t = Some (True, ?u\<lparr>ti_canonPos := cp\<rparr>)"
    using n st(1) cp(1) by (simp add: ti_build_def pg_count_def Let_def)
  have "rooted_at g ?r (?u\<lparr>ti_canonPos := cp\<rparr>)" using rt by (rule rooted_at_canon)
  moreover have "ti_caps (?u\<lparr>ti_canonPos := cp\<rparr>)" using st(2) cp(2) by (simp add: ti_caps_def bs_ok_def)
  ultimately show ?thesis using build cp(3) by (intro exI [of _ "?u\<lparr>ti_canonPos := cp\<rparr>"]) simp
qed

text \<open>
  C21. Building the rooted view of a simple graph of at most 100 panels and eight neighbours each ends, and
  gives the tree of shortest paths from the chosen root (the panel asked for, or the lowest index when it
  does not exist): depths are the numbers of hops, every other reachable slot hangs below a neighbour one hop
  nearer, unreachable slots have no parent, child counts count the children, the greatest depth is met;
  and the canonical positions enumerate the reachable slots in pre-order, children by connector.
\<close>

theorem topology_build_rooted:
  assumes g: "graph_ok g" "graph_simple g" and n: "0 < pg_n g" and root: "ti_pickRoot g p < pg_n g" and caps: "ti_caps t"
  shows "\<exists>t'. ti_build g p t = Some (True, t') \<and> rooted_at g (ti_pickRoot g p) t' \<and> canonical g (ti_pickRoot g p) t'
    \<and> ti_graph t' = g \<and> ti_n t' = pg_n g \<and> ti_rootSlot t' = ti_pickRoot g p \<and> ti_caps t'"
  by (rule topology_build_spec [OF assms])

lemma fill_subtree_spec:
  assumes g: "graph_ok g" "graph_simple g" and r: "r < pg_n g" and rt: "rooted_at g r t" and t: "ti_graph t = g"
    and u: "u \<in> reach g r" and out: "length out = PANEL_WORDS"
  shows "\<exists>out'. ti_fillSubtree t u out = Some out' \<and> length out' = length out \<and> (\<forall>x. ps_test out' x \<longleftrightarrow> ps_test out x \<or> (x \<in> reach g r \<and> descends t u x))"
proof -
  let ?dep = "\<lambda>v. ti_depth t ! v" and ?par = "\<lambda>v. ti_parent t ! v"
  have C: "distinct (pushed_children t v) \<and> set (pushed_children t v) = {w \<in> set (nbrs g v). ti_parent t ! w = v}" if "v \<in> reach g r" for v
    using g(2) that t by (auto simp: pushed_children_def graph_simple_def reach_def)
  have tree: "child_tree (pushed_children t) ?par ?dep (reach g r) (pg_n g)" by (rule rooted_tree [OF g(1) rt C])
  let ?us = "below_of (pushed_children t) ?dep (pg_n g) u"
  have loop: "ti_fillSubtree t u out = Some (fold ps_set ?us out)"
    unfolding ti_fillSubtree_def subtree_step_dfs dfs_loop [OF tree u] by simp
  have set: "set ?us = {x \<in> reach g r. descends t u x}" by (rule below_of_set [OF g(1) r rt C u])
  have "\<forall>i \<in> set ?us. i < 8 * length out"
    using g(1) unfolding set out by (auto simp: reach_def graph_ok_def PANEL_WORDS_def MAXN_def LIGHTNET_MAX_PANELS_def)
  note test = ps_test_fold [OF this]
  have "length (fold ps_set us bits) = length bits" for us bits by (induction us arbitrary: bits) (simp_all add: length_ps_set)
  then show ?thesis using loop test set by auto
qed

text \<open>
  The subtree of a slot: \<open>fillSubtree\<close> ends and adds exactly the slots whose parent chain leads to
  the slot, itself included, to the set.
\<close>

theorem fill_subtree_descendants:
  assumes g: "graph_ok g" "graph_simple g" and r: "r < pg_n g" and rt: "rooted_at g r t" and t: "ti_graph t = g"
    and u: "u \<in> reach g r" and out: "length out = PANEL_WORDS"
  shows "\<exists>out'. ti_fillSubtree t u out = Some out' \<and> (\<forall>x. ps_test out' x \<longleftrightarrow> ps_test out x \<or> (x \<in> reach g r \<and> descends t u x))"
  using fill_subtree_spec [OF assms] by blast

lemma dist_start_fold:
  assumes "m \<le> n" and "n \<le> length dist"
  defines "st0 \<equiv> \<lparr>ds_queue = [], ds_qh = 0, ds_dist = replicate n NO_DIST @ drop n dist\<rparr>"
  shows "ds_queue (fold (\<lambda>s st. if ps_test S s then st\<lparr>ds_dist := (ds_dist st)[s := 0], ds_queue := ds_queue st @ [s]\<rparr> else st) [0..<m] st0)
      = filter (ps_test S) [0..<m]
    \<and> ds_qh (fold (\<lambda>s st. if ps_test S s then st\<lparr>ds_dist := (ds_dist st)[s := 0], ds_queue := ds_queue st @ [s]\<rparr> else st) [0..<m] st0) = 0
    \<and> length (ds_dist (fold (\<lambda>s st. if ps_test S s then st\<lparr>ds_dist := (ds_dist st)[s := 0], ds_queue := ds_queue st @ [s]\<rparr> else st) [0..<m] st0))
      = length dist
    \<and> (\<forall>v < n. ds_dist (fold (\<lambda>s st. if ps_test S s then st\<lparr>ds_dist := (ds_dist st)[s := 0], ds_queue := ds_queue st @ [s]\<rparr> else st) [0..<m] st0) ! v
      = (if v < m \<and> ps_test S v then 0 else NO_DIST))"
  using assms(1)
proof (induction m)
  case 0
  then show ?case using assms(2) by (simp add: st0_def nth_append)
next
  case (Suc m)
  then show ?case using assms(2) by (auto simp: nth_list_update less_Suc_eq)
qed

lemma distances_spec:
  assumes g: "graph_ok g" and t: "ti_graph t = g" "ti_n t = pg_n g" and len: "pg_n g \<le> length dist"
  shows "\<exists>d. ti_distancesFrom t S dist = Some d \<and> length d = length dist
    \<and> (\<forall>v < pg_n g. \<forall>k. is_distance (nbrs g) {s. s < pg_n g \<and> ps_test S s} v k \<longrightarrow> d ! v = k)
    \<and> (\<forall>v < pg_n g. (\<nexists>k. v \<in> hop_set (nbrs g) {s. s < pg_n g \<and> ps_test S s} k) \<longrightarrow> d ! v = NO_DIST)
    \<and> (\<forall>v k. is_distance (nbrs g) {s. s < pg_n g \<and> ps_test S s} v k \<longrightarrow> k < pg_n g)"
proof -
  let ?s = "dist_start (pg_n g) S dist" and ?S = "{s. s < pg_n g \<and> ps_test S s}"
  have start: "ds_queue ?s = filter (ps_test S) [0..<pg_n g]" "ds_qh ?s = 0" "length (ds_dist ?s) = length dist"
    "\<And>v. v < pg_n g \<Longrightarrow> ds_dist ?s ! v = (if ps_test S v then 0 else NO_DIST)"
    using dist_start_fold [OF order_refl len, of S] by (simp_all add: dist_start_def)
  have S: "set (ds_queue ?s) = ?S" using start(1) by auto
  have nz: "NO_DIST \<noteq> 0" by (simp add: NO_DIST_def)
  have ok: "ds_ok g ?s" using start(3) len by (simp add: ds_ok_def)
  have d0: "ds_distance g ?s = (\<lambda>v. if v \<in> set (ds_queue ?s) then Some 0 else None)"
    unfolding S using start(4) nz by (auto simp: ds_distance_def fun_eq_iff split: if_splits)
  have q: "distinct (ds_queue ?s)" "set (ds_queue ?s) \<subseteq> {..<pg_n g}" using start(1) by auto
  obtain st where st: "while_option (\<lambda>s. ds_qh s < length (ds_queue s)) (dist_step g) ?s = Some st" "ds_ok g st"
      "set (ds_queue st) = dom (ds_distance g st)" "set (ds_queue st) \<subseteq> {..<pg_n g}" "distinct (ds_queue st)"
      "\<And>v k. ds_distance g st v = Some k \<longleftrightarrow> is_distance (nbrs g) (set (ds_queue ?s)) v k"
      "\<And>v k. is_distance (nbrs g) (set (ds_queue ?s)) v k \<Longrightarrow> k < pg_n g"
    by (rule distances.search_ends [OF g ok start(2) q d0]) blast
  have more: "dist_more = (\<lambda>s. ds_qh s < length (ds_queue s))" by (rule ext) (simp add: dist_more_def)
  have run: "ti_distancesFrom t S dist = Some (ds_dist st)"
    unfolding ti_distancesFrom_def t more st(1) by simp
  have lenv: "length (ds_dist (dist_visit u v s)) = length (ds_dist s)" for u v s by (simp add: dist_visit_def)
  have lenf: "length (ds_dist (fold (dist_visit u) vs s)) = length (ds_dist s)" for u vs s
    by (induction vs arbitrary: s) (simp_all add: lenv)
  have "length (ds_dist st) = length dist"
    by (rule while_option_rule [where P = "\<lambda>s. length (ds_dist s) = length dist", OF _ st(1)])
       (simp_all add: dist_step_def Let_def lenf start(3))
  moreover have "ds_dist st ! v = k" if "v < pg_n g" "is_distance (nbrs g) ?S v k" for v k
    using st(6) [of v k] that S by (simp add: ds_distance_def split: if_splits)
  moreover have "ds_dist st ! v = NO_DIST" if "v < pg_n g" "\<nexists>k. v \<in> hop_set (nbrs g) ?S k" for v
    using st(6) [of v "ds_dist st ! v"] that S unfolding hop_is_distance by (auto simp: ds_distance_def split: if_splits)
  moreover have "k < pg_n g" if "is_distance (nbrs g) ?S v k" for v k using st(7) [of v k] that S by simp
  ultimately show ?thesis using run by blast
qed

text \<open>
  Multi-source distances: the search ends, and every slot gets the smallest number of hops from a
  source, or 0xFF when no source reaches it.
\<close>

theorem distances_are_shortest:
  assumes g: "graph_ok g" and t: "ti_graph t = g" "ti_n t = pg_n g" and len: "pg_n g \<le> length dist"
  shows "\<exists>d. ti_distancesFrom t S dist = Some d \<and> length d = length dist
    \<and> (\<forall>v < pg_n g. \<forall>k. is_distance (nbrs g) {s. s < pg_n g \<and> ps_test S s} v k \<longrightarrow> d ! v = k)
    \<and> (\<forall>v < pg_n g. (\<nexists>k. v \<in> hop_set (nbrs g) {s. s < pg_n g \<and> ps_test S s} k) \<longrightarrow> d ! v = NO_DIST)"
  using distances_spec [OF assms] by blast

section \<open>From links to the rooted view\<close>

text \<open>A graph built from links satisfies what the searches ask for.\<close>

lemma built_graph_ok:
  assumes "pg_caps raw" and ps: "distinct ps" "0 < length ps" "length ps \<le> MAXN" and "length links \<le> MAXN"
    and build: "pg_build ps links raw = (True, g)"
  shows "graph_ok g" and "pg_n g = length ps" and "ti_pickRoot g p < pg_n g"
    and "\<And>s. s < length ps \<Longrightarrow> nbrs g s = map fst (at_slot s (half_edges (slot_in ps) links))"
proof -
  have spec: "pg_count g = length ps" "pg_slotOf g = slot_in ps" "pg_lowestSlot g < length ps"
    "\<And>s. s < length ps \<Longrightarrow> map (\<lambda>i. (pg_neighborSlot g s i, pg_neighborMyEdge g s i, pg_neighborPeerEdge g s i)) [0..<pg_degree g s]
         = at_slot s (half_edges (slot_in ps) links)"
    using pg_build_spec [OF assms(1-5)] build by auto
  show n: "pg_n g = length ps" using spec(1) by (simp add: pg_count_def)
  show nb: "nbrs g s = map fst (at_slot s (half_edges (slot_in ps) links))" if "s < length ps" for s
    using arg_cong [OF spec(4) [OF that], of "map fst"] by (simp add: nbrs_def comp_def)
  have "v < length ps" if "(s, v, e) \<in> set (half_edges (slot_in ps) links)" for s v e
    using that by (auto simp: half_edges_def link_halves_def dest: slot_in_some slot_in_some [OF sym] split: option.splits)
  then have "v < length ps" if "v \<in> set (map fst (at_slot s (half_edges (slot_in ps) links)))" for s v
    using that by (auto simp: at_slot_def)
  then show "graph_ok g" using n nb ps(3) by (simp add: graph_ok_def)
  show "ti_pickRoot g p < pg_n g"
    using spec(2,3) n by (auto simp: ti_pickRoot_def dest: slot_in_some split: option.splits)
qed

definition pair_graph :: PanelGraph where
  "pair_graph = blank_graph\<lparr>pg_n := 2, pg_idx := [1, 2], pg_deg := [1, 1], pg_adjStart := [0, 1], pg_adjSlot := [1, 0],
     pg_slotByIndex := (replicate 256 NO_SLOT)[1 := 0, 2 := 1]\<rparr>"

definition blank_index :: TopologyIndex where
  "blank_index = \<lparr>ti_graph = blank_graph, ti_n = 9, ti_rootSlot = 9, ti_maxDepthVal = 9, ti_depth = replicate MAXN 7,
     ti_parent = replicate MAXN 7, ti_childCount = replicate MAXN 7, ti_canonPos = replicate MAXN 7\<rparr>"

lemma pair_graph_facts:
  "graph_ok pair_graph" "graph_simple pair_graph" "0 < pg_n pair_graph" "ti_pickRoot pair_graph 2 = 1" "ti_caps blank_index"
  "nbrs pair_graph 0 = [1]" "nbrs pair_graph 1 = [0]" "pg_n pair_graph = 2"
proof -
  show n: "nbrs pair_graph 0 = [1]" "nbrs pair_graph 1 = [0]" "pg_n pair_graph = 2" "0 < pg_n pair_graph"
    by (simp_all add: nbrs_def pair_graph_def pg_neighborSlot_def pg_degree_def upt_rec)
  then show "graph_ok pair_graph" "graph_simple pair_graph"
    by (auto simp: graph_ok_def graph_simple_def MAXN_def LIGHTNET_MAX_PANELS_def less_Suc_eq numeral_2_eq_2 pg_degree_def pair_graph_def)
  show "ti_pickRoot pair_graph 2 = 1" by (simp add: ti_pickRoot_def pg_slotOf_def pair_graph_def NO_SLOT_def)
  show "ti_caps blank_index" by (simp add: ti_caps_def blank_index_def)
qed

lemma topology_build_rooted_witness:
  "\<exists>t'. ti_build pair_graph 2 blank_index = Some (True, t') \<and> rooted_at pair_graph 1 t' \<and> canonical pair_graph 1 t'"
  using topology_build_rooted [OF pair_graph_facts(1-3), of 2 blank_index] pair_graph_facts by auto

definition pair_index :: TopologyIndex where
  "pair_index = \<lparr>ti_graph = pair_graph, ti_n = 2, ti_rootSlot = 0, ti_maxDepthVal = 1, ti_depth = [0, 1],
     ti_parent = [NO_PARENT, 0], ti_childCount = [1, 0], ti_canonPos = [0, 1]\<rparr>"

lemma pair_distances: "is_distance (nbrs pair_graph) {0} 0 k \<longleftrightarrow> k = 0" "is_distance (nbrs pair_graph) {0} 1 k \<longleftrightarrow> k = 1"
proof -
  have z: "is_distance (nbrs pair_graph) {0} 0 0" by (simp add: distance_zero)
  have o: "is_distance (nbrs pair_graph) {0} 1 1" by (simp add: is_distance_def pair_graph_facts)
  show "is_distance (nbrs pair_graph) {0} 0 k \<longleftrightarrow> k = 0" using z distance_unique by blast
  show "is_distance (nbrs pair_graph) {0} 1 k \<longleftrightarrow> k = 1" using o distance_unique by blast
qed

lemma pair_reach: "reach pair_graph 0 = {0, 1}"
proof -
  have "\<exists>k. 0 \<in> hop_set (nbrs pair_graph) {0} k" "\<exists>k. 1 \<in> hop_set (nbrs pair_graph) {0} k"
    unfolding hop_is_distance using pair_distances by blast+
  then show ?thesis by (auto simp: reach_def pair_graph_facts less_Suc_eq numeral_2_eq_2)
qed

lemma less_two_iff: "(\<forall>v < (2 :: nat). P v) \<longleftrightarrow> P 0 \<and> P 1" "(\<exists>v < (2 :: nat). P v) \<longleftrightarrow> P 0 \<or> P 1"
  by (auto simp: less_2_cases_iff)

lemma pair_rooted: "rooted_at pair_graph 0 pair_index"
proof -
  have h: "\<exists>k. 0 \<in> hop_set (nbrs pair_graph) {0} k" "\<exists>k. 1 \<in> hop_set (nbrs pair_graph) {0} k"
    unfolding hop_is_distance using pair_distances by blast+
  have c: "{v. v < 2 \<and> [NO_PARENT, 0] ! v = 0} = {1}" "{v. v < 2 \<and> [NO_PARENT, 0] ! v = 1} = {}"
    by (auto simp: NO_PARENT_def dest!: less_2_cases)
  have f: "ti_depth pair_index = [0, 1]" "ti_parent pair_index = [NO_PARENT, 0]" "ti_childCount pair_index = [1, 0]" "ti_maxDepthVal pair_index = 1"
    by (simp_all add: pair_index_def)
  show ?thesis
    unfolding rooted_at_def pair_graph_facts(8) less_two_iff f c using h pair_distances
    by (simp add: pair_graph_facts(6))
qed

lemma fill_subtree_descendants_witness:
  "\<exists>out. ti_fillSubtree pair_index 0 (ps_clearAll []) = Some out \<and> ps_test out 1"
proof -
  have 0: "0 < pg_n pair_graph" "(0 :: nat) \<in> reach pair_graph 0" "length (ps_clearAll []) = PANEL_WORDS" "ti_graph pair_index = pair_graph"
    by (simp_all add: pair_graph_facts pair_reach ps_clearAll_def pair_index_def)
  have "descends pair_index 0 1" by (simp add: descends_def pair_index_def)
  then show ?thesis
    using fill_subtree_descendants [OF pair_graph_facts(1,2) 0(1) pair_rooted 0(4) 0(2) 0(3)] pair_reach by auto
qed

lemma distances_are_shortest_witness:
  "\<exists>d. ti_distancesFrom pair_index (ps_set 0 (ps_clearAll [])) [5, 5] = Some d \<and> d ! 1 = 1"
proof -
  have t: "ti_graph pair_index = pair_graph" "ti_n pair_index = pg_n pair_graph" "pg_n pair_graph \<le> length [5, 5 :: nat]"
    by (simp_all add: pair_index_def pair_graph_facts)
  have S: "{s. s < pg_n pair_graph \<and> ps_test (ps_set 0 (ps_clearAll [])) s} = {0}"
    using ps_test_clear [of 0] ps_test_clear [of 1]
    by (auto simp: pair_graph_facts ps_test_set PANEL_WORDS_def LIGHTNET_MAX_PANELS_def ps_clearAll_def dest!: less_2_cases)
  show ?thesis
    using distances_are_shortest [OF pair_graph_facts(1) t, of "ps_set 0 (ps_clearAll [])"] pair_distances(2) unfolding S by (auto simp: pair_graph_facts(8))
qed

end
