(* ===== verification/Panel_Selector.thy ===== *)
theory Panel_Selector
  imports
    Topology_Index
begin

text \<open>
  Panel selectors (\<open>Core/Controller/PanelSelector.hpp\<close>): the postfix byte program that says which panels a
  scene layer targets, and its evaluator over the rooted view. \<open>i\<close> is the read position in the program, the
  evaluation stack is the list of its live entries with the top last. The result is an option because one leaf
  runs \<open>fillSubtree\<close>, whose loop is a \<open>while_option\<close>. The language of programs is specified by expressions
  with a meaning as sets of slots.
\<close>

section \<open>Panel sets as sets\<close>

definition ps_members :: "nat \<Rightarrow> PanelSet \<Rightarrow> nat set" where
  "ps_members n bits = {x. x < n \<and> ps_test bits x}"

definition ps_ok :: "nat \<Rightarrow> PanelSet \<Rightarrow> bool" where
  "ps_ok n bits \<longleftrightarrow> length bits = PANEL_WORDS \<and> n \<le> MAXN"

lemma panel_bits: "n \<le> MAXN \<Longrightarrow> x < n \<Longrightarrow> x div 8 < PANEL_WORDS \<and> x < 8 * PANEL_WORDS"
  by (simp add: PANEL_WORDS_def MAXN_def LIGHTNET_MAX_PANELS_def)

lemma ps_clear_ok: "n \<le> MAXN \<Longrightarrow> ps_ok n (ps_clearAll bits) \<and> ps_members n (ps_clearAll bits) = {}"
  using panel_bits ps_test_clear by (auto simp: ps_ok_def ps_clearAll_def ps_members_def)

lemma ps_set_ok:
  assumes "ps_ok n bits" and "i < n"
  shows "ps_ok n (ps_set i bits)" and "ps_members n (ps_set i bits) = insert i (ps_members n bits)"
  using assms panel_bits [of n i] by (auto simp: ps_ok_def ps_members_def ps_test_set length_ps_set)

lemma ps_or_ok:
  assumes "ps_ok n a" and "ps_ok n b"
  shows "ps_ok n (ps_orWith a b) \<and> ps_members n (ps_orWith a b) = ps_members n a \<union> ps_members n b"
  using assms panel_bits by (auto simp: ps_ok_def ps_members_def ps_orWith_def ps_test_bit bit_or_iff)

lemma ps_and_ok:
  assumes "ps_ok n a" and "ps_ok n b"
  shows "ps_ok n (ps_andWith a b) \<and> ps_members n (ps_andWith a b) = ps_members n a \<inter> ps_members n b"
  using assms panel_bits by (auto simp: ps_ok_def ps_members_def ps_andWith_def ps_test_bit bit_and_iff)

lemma ps_test_unset:
  assumes "i < 8 * length bits"
  shows "ps_test (ps_unset i bits) j \<longleftrightarrow> j \<noteq> i \<and> ps_test bits j"
proof (cases "j div 8 = i div 8")
  case True
  have "i div 8 < length bits" using assms by (simp add: less_mult_imp_div_less)
  moreover have "j mod 8 = i mod 8 \<longleftrightarrow> j = i" using True by (metis div_mult_mod_eq)
  moreover have "j mod 8 < 8" by simp
  ultimately show ?thesis using True
    by (auto simp: ps_test_bit ps_unset_def bit_and_iff bit_not_iff bit_exp_iff)
next
  case False
  then show ?thesis by (auto simp: ps_test_bit ps_unset_def)
qed

lemma length_ps_unset: "length (ps_unset i bits) = length bits"
  by (simp add: ps_unset_def)

lemma ps_invert_ok:
  assumes ok: "ps_ok n bits"
  shows "ps_ok n (ps_invert n bits) \<and> ps_members n (ps_invert n bits) = {..<n} - ps_members n bits"
proof -
  have "ps_ok n (ps_invert m bits) \<and> (\<forall>x < n. ps_test (ps_invert m bits) x = (if x < m then \<not> ps_test bits x else ps_test bits x))"
    if "m \<le> n" for m
    using that
  proof (induction m)
    case (Suc m)
    let ?b = "ps_invert m bits"
    have IH: "ps_ok n ?b" "\<And>x. x < n \<Longrightarrow> ps_test ?b x = (if x < m then \<not> ps_test bits x else ps_test bits x)" and m: "m < 8 * length ?b"
      using Suc panel_bits [of n m] by (auto simp: ps_ok_def)
    have "ps_invert (Suc m) bits = (if ps_test ?b m then ps_unset m ?b else ps_set m ?b)" by (simp add: ps_invert_def)
    then show ?case using IH m Suc.prems by (auto simp: ps_test_set ps_test_unset ps_ok_def length_ps_unset length_ps_set less_Suc_eq)
  qed (simp add: ps_invert_def ok)
  then show ?thesis by (auto simp: ps_members_def)
qed

lemma ps_popcount_card: "ps_popcount n bits = card (ps_members n bits)"
proof (induction n)
  case (Suc n)
  have "ps_members (Suc n) bits = (if ps_test bits n then insert n (ps_members n bits) else ps_members n bits)"
    by (auto simp: ps_members_def less_Suc_eq)
  moreover have "n \<notin> ps_members n bits" "finite (ps_members n bits)" by (simp_all add: ps_members_def)
  ultimately show ?case using Suc by (simp add: ps_popcount_def)
qed (simp add: ps_popcount_def ps_members_def)

text \<open>The loops of the leaf operations: set every slot that passes a test, or every slot of a list.\<close>

definition fill_if :: "(nat \<Rightarrow> bool) \<Rightarrow> nat \<Rightarrow> PanelSet \<Rightarrow> PanelSet" where
  "fill_if P cnt s = fold (\<lambda>x s. if P x then ps_set x s else s) [0..<cnt] s"

lemma fill_if_eq: "fill_if P cnt s = fold ps_set (filter P [0..<cnt]) s"
proof -
  have "fold (\<lambda>x s. if P x then ps_set x s else s) xs s = fold ps_set (filter P xs) s" for xs
    by (induction xs arbitrary: s) auto
  then show ?thesis by (simp add: fill_if_def)
qed

lemma ps_fold_ok:
  assumes "ps_ok n s" and "set us \<subseteq> {..<n}"
  shows "ps_ok n (fold ps_set us s) \<and> ps_members n (fold ps_set us s) = set us \<union> ps_members n s"
  using assms by (induction us arbitrary: s) (auto simp: ps_set_ok)

lemma fill_if_ok:
  "ps_ok n s \<Longrightarrow> ps_ok n (fill_if P n s) \<and> ps_members n (fill_if P n s) = {x. x < n \<and> P x} \<union> ps_members n s"
  unfolding fill_if_eq using ps_fold_ok [of n s "filter P [0..<n]"] by fastforce

section \<open>Programs and their evaluation\<close>

definition SEL_ALL :: u8 where "SEL_ALL = 1"
definition SEL_ROOT :: u8 where "SEL_ROOT = 2"
definition SEL_LEAVES :: u8 where "SEL_LEAVES = 3"
definition SEL_BRANCHES :: u8 where "SEL_BRANCHES = 4"
definition SEL_EVEN :: u8 where "SEL_EVEN = 5"
definition SEL_ODD :: u8 where "SEL_ODD = 6"
definition SEL_DEPTH :: u8 where "SEL_DEPTH = 7"
definition SEL_SUBTREE :: u8 where "SEL_SUBTREE = 8"
definition SEL_NEIGHBORS :: u8 where "SEL_NEIGHBORS = 9"
definition SEL_FRACTION :: u8 where "SEL_FRACTION = 10"
definition SEL_FIRST :: u8 where "SEL_FIRST = 11"
definition SEL_LAST :: u8 where "SEL_LAST = 12"
definition SEL_INDICES :: u8 where "SEL_INDICES = 13"
definition SEL_AND :: u8 where "SEL_AND = 15"
definition SEL_OR :: u8 where "SEL_OR = 16"
definition SEL_NOT :: u8 where "SEL_NOT = 17"

lemmas sel_codes = SEL_ALL_def SEL_ROOT_def SEL_LEAVES_def SEL_BRANCHES_def SEL_EVEN_def SEL_ODD_def SEL_DEPTH_def
  SEL_SUBTREE_def SEL_NEIGHBORS_def SEL_FRACTION_def SEL_FIRST_def SEL_LAST_def SEL_INDICES_def SEL_AND_def SEL_OR_def SEL_NOT_def

definition SEL_CAP :: nat where "SEL_CAP = 64"
definition SEL_STACK_MAX :: nat where "SEL_STACK_MAX = 6"

record PanelSelector =
  sel_ops :: "u8 list"
  sel_len :: nat

definition sel_clear :: "PanelSelector \<Rightarrow> PanelSelector" where
  "sel_clear s = s\<lparr>sel_len := 0\<rparr>"

definition sel_emit :: "u8 \<Rightarrow> PanelSelector \<Rightarrow> bool \<times> PanelSelector" where
  "sel_emit b s = (if SEL_CAP \<le> sel_len s then (False, s) else (True, s\<lparr>sel_ops := (sel_ops s)[sel_len s := b], sel_len := sel_len s + 1\<rparr>))"

definition ti_slotOf :: "TopologyIndex \<Rightarrow> u8 \<Rightarrow> nat option" where "ti_slotOf t p = pg_slotOf (ti_graph t) p"
definition ti_panelAt :: "TopologyIndex \<Rightarrow> nat \<Rightarrow> u8" where "ti_panelAt t s = pg_panelAt (ti_graph t) s"
definition ti_degree :: "TopologyIndex \<Rightarrow> nat \<Rightarrow> nat" where "ti_degree t s = pg_degree (ti_graph t) s"
definition ti_neighborSlot :: "TopologyIndex \<Rightarrow> nat \<Rightarrow> nat \<Rightarrow> nat" where "ti_neighborSlot t s i = pg_neighborSlot (ti_graph t) s i"
definition ti_count :: "TopologyIndex \<Rightarrow> nat" where "ti_count t = ti_n t"
definition ti_root :: "TopologyIndex \<Rightarrow> nat" where "ti_root t = ti_rootSlot t"

text \<open>One listed panel index; indices of panels that are not there are skipped.\<close>

definition set_index :: "TopologyIndex \<Rightarrow> u8 \<Rightarrow> PanelSet \<Rightarrow> PanelSet" where
  "set_index topo p s = (case ti_slotOf topo p of None \<Rightarrow> s | Some sl \<Rightarrow> ps_set sl s)"

text \<open>One leaf: whether its operands were complete, the new read position and the set.\<close>

definition selEvalLeaf :: "u8 \<Rightarrow> PanelSelector \<Rightarrow> nat \<Rightarrow> TopologyIndex \<Rightarrow> PanelSet \<Rightarrow> (bool \<times> nat \<times> PanelSet) option" where
  "selEvalLeaf op sel i topo s =
     (let COUNT = ti_count topo; avail = sel_len sel - i; a = sel_ops sel ! i; b = sel_ops sel ! (i + 1)
      in if op = SEL_ALL then Some (True, i, fill_if (\<lambda>x. True) COUNT s)
         else if op = SEL_ROOT then Some (True, i, ps_set (ti_root topo) s)
         else if op = SEL_LEAVES then Some (True, i, fill_if (ti_isLeaf topo) COUNT s)
         else if op = SEL_BRANCHES then Some (True, i, fill_if (ti_isBranch topo) COUNT s)
         else if op = SEL_EVEN then Some (True, i, fill_if (\<lambda>x. ti_canonicalPos topo x mod 2 = 0) COUNT s)
         else if op = SEL_ODD then Some (True, i, fill_if (\<lambda>x. ti_canonicalPos topo x mod 2 \<noteq> 0) COUNT s)
         else if op = SEL_DEPTH then
           (if avail < 2 then Some (False, i, s)
            else Some (True, i + 2, fill_if (\<lambda>x. unat a \<le> ti_depthOf topo x \<and> ti_depthOf topo x \<le> unat b) COUNT s))
         else if op = SEL_SUBTREE then
           (if avail < 1 then Some (False, i, s)
            else (case ti_slotOf topo a of
                    None \<Rightarrow> Some (True, i + 1, s)
                  | Some sl \<Rightarrow> map_option (\<lambda>s. (True, i + 1, s)) (ti_fillSubtree topo sl s)))
         else if op = SEL_NEIGHBORS then
           (if avail < 1 then Some (False, i, s)
            else (case ti_slotOf topo a of
                    None \<Rightarrow> Some (True, i + 1, s)
                  | Some sl \<Rightarrow> Some (True, i + 1, fold (\<lambda>k. ps_set (ti_neighborSlot topo sl k)) [0..<ti_degree topo sl] s)))
         else if op = SEL_FRACTION then
           (if avail < 2 then Some (False, i, s)
            else if COUNT \<le> 1 then Some (True, i + 2, if a = 0 then ps_set 0 s else s)
            else
              (let span = COUNT - 1; np255 = (\<lambda>x. ti_canonicalPos topo x * 255 mod 65536)
               in Some (True, i + 2, fill_if (\<lambda>x. unat a * span mod 65536 \<le> np255 x \<and> np255 x \<le> unat b * span mod 65536) COUNT s)))
         else if op = SEL_FIRST then
           (if avail < 1 then Some (False, i, s)
            else Some (True, i + 1, fill_if (\<lambda>x. ti_canonicalPos topo x < unat a) COUNT s))
         else if op = SEL_LAST then
           (if avail < 1 then Some (False, i, s)
            else
              (let from = (if COUNT \<le> unat a then 0 else COUNT - unat a)
               in Some (True, i + 1, fill_if (\<lambda>x. from \<le> ti_canonicalPos topo x) COUNT s)))
         else if op = SEL_INDICES then
           (if avail < 1 then Some (False, i, s)
            else if sel_len sel - (i + 1) < unat a then Some (False, i + 1, s)
            else Some (True, i + 1 + unat a, fold (set_index topo) (map (\<lambda>k. sel_ops sel ! (i + 1 + k)) [0..<unat a]) s))
         else Some (False, i, s))"

lemma selEvalLeaf_advances: "selEvalLeaf op sel i topo s = Some (ok, j, s') \<Longrightarrow> i \<le> j"
  unfolding selEvalLeaf_def Let_def by (auto split: if_splits option.splits)

text \<open>The loop of \<open>resolveSelector\<close>: the final stack, or no stack when the program is rejected.\<close>

function sel_loop :: "PanelSelector \<Rightarrow> TopologyIndex \<Rightarrow> nat \<Rightarrow> PanelSet list \<Rightarrow> PanelSet list option option" where
  "sel_loop sel topo i stack =
     (if sel_len sel \<le> i then Some (Some stack)
      else
        (let op = sel_ops sel ! i; sp = length stack
         in if op = SEL_AND \<or> op = SEL_OR then
              (if sp < 2 then Some None
               else
                 (let a = stack ! (sp - 2); b = stack ! (sp - 1); c = (if op = SEL_AND then ps_andWith a b else ps_orWith a b)
                  in sel_loop sel topo (i + 1) (take (sp - 2) stack @ [c])))
            else if op = SEL_NOT then
              (if sp < 1 then Some None
               else sel_loop sel topo (i + 1) (stack[sp - 1 := ps_invert (ti_count topo) (stack ! (sp - 1))]))
            else if SEL_STACK_MAX \<le> sp then Some None
            else
              (case selEvalLeaf op sel (i + 1) topo (ps_clearAll []) of
                 None \<Rightarrow> None
               | Some (ok, j, s) \<Rightarrow> if \<not> ok then Some None else sel_loop sel topo j (stack @ [s]))))"
  by pat_completeness auto
termination
  by (relation "measure (\<lambda>(sel, topo, i, stack). sel_len sel - i)") (auto dest!: selEvalLeaf_advances)

declare sel_loop.simps [simp del]

definition resolveSelector :: "PanelSelector \<Rightarrow> TopologyIndex \<Rightarrow> PanelSet \<Rightarrow> (bool \<times> PanelSet) option" where
  "resolveSelector sel topo out =
     (case sel_loop sel topo 0 [] of
        None \<Rightarrow> None
      | Some None \<Rightarrow> Some (False, out)
      | Some (Some stack) \<Rightarrow> if length stack \<noteq> 1 then Some (False, out) else Some (True, stack ! 0))"

definition emitPanelIndices :: "PanelSet \<Rightarrow> TopologyIndex \<Rightarrow> nat \<Rightarrow> u8 list" where
  "emitPanelIndices slots topo maxLen =
     fold (\<lambda>x out. if ps_test slots x \<and> length out < maxLen then out @ [ti_panelAt topo x] else out) [0..<ti_count topo] []"

section \<open>Selector expressions and their meaning\<close>

datatype sel_expr =
  SAll | SRoot | SLeaves | SBranches | SEven | SOdd | SDepth u8 u8 | SSubtree u8 | SNeighbors u8 | SFraction u8 u8
  | SFirst u8 | SLast u8 | SIndices "u8 list" | SAnd sel_expr sel_expr | SOr sel_expr sel_expr | SNot sel_expr

fun sel_code :: "sel_expr \<Rightarrow> u8 list" where
  "sel_code SAll = [SEL_ALL]"
| "sel_code SRoot = [SEL_ROOT]"
| "sel_code SLeaves = [SEL_LEAVES]"
| "sel_code SBranches = [SEL_BRANCHES]"
| "sel_code SEven = [SEL_EVEN]"
| "sel_code SOdd = [SEL_ODD]"
| "sel_code (SDepth a b) = [SEL_DEPTH, a, b]"
| "sel_code (SSubtree p) = [SEL_SUBTREE, p]"
| "sel_code (SNeighbors p) = [SEL_NEIGHBORS, p]"
| "sel_code (SFraction a b) = [SEL_FRACTION, a, b]"
| "sel_code (SFirst k) = [SEL_FIRST, k]"
| "sel_code (SLast k) = [SEL_LAST, k]"
| "sel_code (SIndices ps) = SEL_INDICES # of_nat (length ps) # ps"
| "sel_code (SAnd e f) = sel_code e @ sel_code f @ [SEL_AND]"
| "sel_code (SOr e f) = sel_code e @ sel_code f @ [SEL_OR]"
| "sel_code (SNot e) = sel_code e @ [SEL_NOT]"

text \<open>The stack entries an expression needs, and the lists whose length fits in its byte.\<close>

fun sel_need :: "sel_expr \<Rightarrow> nat" where
  "sel_need (SAnd e f) = max (sel_need e) (Suc (sel_need f))"
| "sel_need (SOr e f) = max (sel_need e) (Suc (sel_need f))"
| "sel_need (SNot e) = sel_need e"
| "sel_need _ = 1"

fun sel_lists_ok :: "sel_expr \<Rightarrow> bool" where
  "sel_lists_ok (SAnd e f) = (sel_lists_ok e \<and> sel_lists_ok f)"
| "sel_lists_ok (SOr e f) = (sel_lists_ok e \<and> sel_lists_ok f)"
| "sel_lists_ok (SNot e) = sel_lists_ok e"
| "sel_lists_ok (SIndices ps) = (length ps < 256)"
| "sel_lists_ok _ = True"

definition sel_expr_ok :: "sel_expr \<Rightarrow> bool" where
  "sel_expr_ok e \<longleftrightarrow> sel_lists_ok e \<and> sel_need e \<le> SEL_STACK_MAX"

fun sel_set :: "TopologyIndex \<Rightarrow> sel_expr \<Rightarrow> nat set" where
  "sel_set t SAll = {..<ti_n t}"
| "sel_set t SRoot = {ti_rootSlot t}"
| "sel_set t SLeaves = {x. x < ti_n t \<and> ti_isLeaf t x}"
| "sel_set t SBranches = {x. x < ti_n t \<and> ti_isBranch t x}"
| "sel_set t SEven = {x. x < ti_n t \<and> even (ti_canonicalPos t x)}"
| "sel_set t SOdd = {x. x < ti_n t \<and> odd (ti_canonicalPos t x)}"
| "sel_set t (SDepth a b) = {x. x < ti_n t \<and> ti_depthOf t x \<in> {unat a..unat b}}"
| "sel_set t (SSubtree p) = (case ti_slotOf t p of None \<Rightarrow> {} | Some u \<Rightarrow> {x. x < ti_n t \<and> descends t u x})"
| "sel_set t (SNeighbors p) = (case ti_slotOf t p of None \<Rightarrow> {} | Some u \<Rightarrow> set (nbrs (ti_graph t) u))"
| "sel_set t (SFraction a b) =
     (if ti_n t = 1 then (if a = 0 then {0} else {})
      else {x. x < ti_n t \<and> ti_canonicalPos t x * 255 \<in> {unat a * (ti_n t - 1)..unat b * (ti_n t - 1)}})"
| "sel_set t (SFirst k) = {x. x < ti_n t \<and> ti_canonicalPos t x < unat k}"
| "sel_set t (SLast k) = {x. x < ti_n t \<and> ti_n t \<le> ti_canonicalPos t x + unat k}"
| "sel_set t (SIndices ps) = {u. \<exists>p \<in> set ps. ti_slotOf t p = Some u}"
| "sel_set t (SAnd e f) = sel_set t e \<inter> sel_set t f"
| "sel_set t (SOr e f) = sel_set t e \<union> sel_set t f"
| "sel_set t (SNot e) = {..<ti_n t} - sel_set t e"

text \<open>A rooted view of a connected tree, as \<open>topology_build_rooted\<close> delivers it.\<close>

definition topo_ready :: "TopologyIndex \<Rightarrow> bool" where
  "topo_ready t \<longleftrightarrow>
     graph_ok (ti_graph t) \<and> graph_simple (ti_graph t) \<and> ti_n t = pg_n (ti_graph t) \<and> ti_rootSlot t < ti_n t
     \<and> rooted_at (ti_graph t) (ti_rootSlot t) t \<and> canonical (ti_graph t) (ti_rootSlot t) t
     \<and> reach (ti_graph t) (ti_rootSlot t) = {..<ti_n t}
     \<and> (\<forall>p u. ti_slotOf t p = Some u \<longrightarrow> u < ti_n t)"

lemma ready_positions:
  assumes "topo_ready t"
  shows "ti_n t \<le> MAXN" and "x < ti_n t \<Longrightarrow> ti_canonicalPos t x < ti_n t"
proof -
  let ?g = "ti_graph t" and ?r = "ti_rootSlot t"
  have can: "distinct (pre_order t ?r)" "set (pre_order t ?r) = {..<ti_n t}"
    "\<And>i. i < length (pre_order t ?r) \<Longrightarrow> ti_canonicalPos t (pre_order t ?r ! i) = i"
    using assms by (auto simp: topo_ready_def canonical_def)
  have "length (pre_order t ?r) = ti_n t" using distinct_card [OF can(1)] can(2) by simp
  then show "ti_canonicalPos t x < ti_n t" if "x < ti_n t"
    using that can(2,3) by (metis in_set_conv_nth lessThan_iff)
  show "ti_n t \<le> MAXN" using assms by (simp add: topo_ready_def graph_ok_def)
qed

lemma ready_subtree:
  assumes t: "topo_ready t" and u: "u < ti_n t" and s: "ps_ok (ti_n t) s"
  obtains s' where "ti_fillSubtree t u s = Some s'" "ps_ok (ti_n t) s'"
    "ps_members (ti_n t) s' = ps_members (ti_n t) s \<union> {x. x < ti_n t \<and> descends t u x}"
proof -
  have r: "ti_rootSlot t < pg_n (ti_graph t)" and R: "reach (ti_graph t) (ti_rootSlot t) = {..<ti_n t}"
    and g: "graph_ok (ti_graph t)" "graph_simple (ti_graph t)" and rt: "rooted_at (ti_graph t) (ti_rootSlot t) t"
    using t by (simp_all add: topo_ready_def)
  obtain s' where s': "ti_fillSubtree t u s = Some s'" "length s' = length s"
      "\<forall>x. ps_test s' x \<longleftrightarrow> ps_test s x \<or> (x \<in> reach (ti_graph t) (ti_rootSlot t) \<and> descends t u x)"
    using fill_subtree_spec [OF g r rt refl, of u s] u s R by (auto simp: ps_ok_def)
  show thesis by (rule that [OF s'(1)]) (use s'(2,3) R s in \<open>auto simp: ps_members_def ps_ok_def\<close>)
qed

section \<open>The evaluator computes the meaning\<close>

definition prog :: "PanelSelector \<Rightarrow> u8 list" where
  "prog sel = take (sel_len sel) (sel_ops sel)"

lemma prog_at:
  assumes "sel_len sel \<le> length (sel_ops sel)" and "drop i (prog sel) = xs" and "k < length xs"
  shows "sel_ops sel ! (i + k) = xs ! k" and "sel_len sel = i + length xs"
proof -
  have len: "length (prog sel) = sel_len sel" using assms(1) by (simp add: prog_def)
  then have "length xs = sel_len sel - i" using assms(2) by auto
  then show l: "sel_len sel = i + length xs" using assms(3) by simp
  then have "i + k < length (prog sel)" using len assms(3) by simp
  then have "prog sel ! (i + k) = xs ! k" using assms(2) by auto
  then show "sel_ops sel ! (i + k) = xs ! k" using l assms(3) by (simp add: prog_def)
qed

definition leaf_expr :: "sel_expr \<Rightarrow> bool" where
  "leaf_expr e \<longleftrightarrow> (case e of SAnd _ _ \<Rightarrow> False | SOr _ _ \<Rightarrow> False | SNot _ \<Rightarrow> False | _ \<Rightarrow> True)"

definition yields :: "TopologyIndex \<Rightarrow> PanelSet \<Rightarrow> sel_expr \<Rightarrow> bool" where
  "yields t s e \<longleftrightarrow> ps_ok (ti_n t) s \<and> ps_members (ti_n t) s = sel_set t e"

lemma set_indices_ok:
  assumes "ps_ok n s" and "\<And>p u. ti_slotOf t p = Some u \<Longrightarrow> u < n"
  shows "ps_ok n (fold (set_index t) ps s) \<and> ps_members n (fold (set_index t) ps s) = {u. \<exists>p \<in> set ps. ti_slotOf t p = Some u} \<union> ps_members n s"
  using assms(1)
proof (induction ps arbitrary: s)
  case (Cons p ps)
  have "ps_ok n (set_index t p s) \<and> ps_members n (set_index t p s) = {u. ti_slotOf t p = Some u} \<union> ps_members n s"
    using Cons.prems assms(2) by (auto simp: set_index_def ps_set_ok split: option.splits)
  then show ?case using Cons.IH [of "set_index t p s"] by auto
qed simp

lemma neighbours_ok:
  assumes t: "topo_ready t" and u: "u < ti_n t" and s: "ps_ok (ti_n t) s"
  shows "ps_ok (ti_n t) (fold (\<lambda>k. ps_set (ti_neighborSlot t u k)) [0..<ti_degree t u] s)"
    and "ps_members (ti_n t) (fold (\<lambda>k. ps_set (ti_neighborSlot t u k)) [0..<ti_degree t u] s) = set (nbrs (ti_graph t) u) \<union> ps_members (ti_n t) s"
proof -
  have eq: "fold (\<lambda>k. ps_set (ti_neighborSlot t u k)) [0..<ti_degree t u] s = fold ps_set (nbrs (ti_graph t) u) s"
    by (simp add: nbrs_def fold_map comp_def ti_neighborSlot_def ti_degree_def)
  have "set (nbrs (ti_graph t) u) \<subseteq> {..<ti_n t}" using t u by (auto simp: topo_ready_def graph_ok_def)
  note fo = ps_fold_ok [OF s this]
  show "ps_ok (ti_n t) (fold (\<lambda>k. ps_set (ti_neighborSlot t u k)) [0..<ti_degree t u] s)"
    and "ps_members (ti_n t) (fold (\<lambda>k. ps_set (ti_neighborSlot t u k)) [0..<ti_degree t u] s) = set (nbrs (ti_graph t) u) \<union> ps_members (ti_n t) s"
    unfolding eq using fo by simp_all
qed

lemma clear_ready: "topo_ready t \<Longrightarrow> ps_ok (ti_n t) (ps_clearAll []) \<and> ps_members (ti_n t) (ps_clearAll []) = {}"
  using ps_clear_ok ready_positions(1) by blast

lemma leaf_forward:
  assumes t: "topo_ready t" and len: "sel_len sel \<le> length (sel_ops sel)" and e: "leaf_expr e" "sel_lists_ok e"
    and d: "drop i (prog sel) = sel_code e @ rest"
  obtains s where "selEvalLeaf (sel_ops sel ! i) sel (i + 1) t (ps_clearAll []) = Some (True, i + length (sel_code e), s)" "yields t s e"
proof -
  note at = prog_at [OF len d]
  note c = clear_ready [OF t]
  have ops: "sel_ops sel ! (i + k) = sel_code e ! k" if "k < length (sel_code e)" for k
    using at(1) [of k] that by (simp add: nth_append)
  have ne: "0 < length (sel_code e)" by (cases e) auto
  have l: "sel_len sel = i + length (sel_code e) + length rest" using at(2) [of 0] ne by simp
  have fill: "yields t (fill_if P (ti_n t) (ps_clearAll [])) e" if "{x. x < ti_n t \<and> P x} = sel_set t e" for P
    using fill_if_ok [of "ti_n t" "ps_clearAll []" P] c that by (simp add: yields_def)
  have pos: "x < ti_n t \<Longrightarrow> ti_canonicalPos t x < ti_n t" for x by (rule ready_positions(2) [OF t])
  have n: "ti_n t \<le> 100" "0 < ti_n t" using ready_positions(1) [OF t] t by (auto simp: MAXN_def LIGHTNET_MAX_PANELS_def topo_ready_def)
  have slots: "\<And>p u. ti_slotOf t p = Some u \<Longrightarrow> u < ti_n t" using t unfolding topo_ready_def by blast
  show thesis
  proof (cases e)
    case SAll
    then show ?thesis using ops [of 0] that [OF _ fill [of "\<lambda>x. True"]]
      by (auto simp: selEvalLeaf_def sel_codes ti_count_def lessThan_def)
  next
    case SRoot
    have "yields t (ps_set (ti_rootSlot t) (ps_clearAll [])) e" using ps_set_ok [of "ti_n t" "ps_clearAll []" "ti_rootSlot t"] c t
      by (simp add: yields_def SRoot topo_ready_def)
    then show ?thesis using ops [of 0] that SRoot by (auto simp: selEvalLeaf_def sel_codes ti_root_def)
  next
    case SLeaves
    then show ?thesis using ops [of 0] that [OF _ fill [of "ti_isLeaf t"]] by (auto simp: selEvalLeaf_def sel_codes ti_count_def)
  next
    case SBranches
    then show ?thesis using ops [of 0] that [OF _ fill [of "ti_isBranch t"]] by (auto simp: selEvalLeaf_def sel_codes ti_count_def)
  next
    case SEven
    then show ?thesis using ops [of 0] that [OF _ fill [of "\<lambda>x. ti_canonicalPos t x mod 2 = 0"]]
      by (auto simp: selEvalLeaf_def sel_codes ti_count_def even_iff_mod_2_eq_zero)
  next
    case SOdd
    then show ?thesis using ops [of 0] that [OF _ fill [of "\<lambda>x. ti_canonicalPos t x mod 2 \<noteq> 0"]]
      by (auto simp: selEvalLeaf_def sel_codes ti_count_def odd_iff_mod_2_eq_one)
  next
    case (SDepth a b)
    have "yields t (fill_if (\<lambda>x. unat a \<le> ti_depthOf t x \<and> ti_depthOf t x \<le> unat b) (ti_n t) (ps_clearAll [])) e"
      by (rule fill) (auto simp: SDepth)
    then show ?thesis using ops [of 0] ops [of 1] ops [of 2] that l SDepth by (simp add: selEvalLeaf_def sel_codes ti_count_def Let_def)
  next
    case (SSubtree p)
    show ?thesis
    proof (cases "ti_slotOf t p")
      case None
      then show ?thesis using ops [of 0] ops [of 1] that [of "ps_clearAll []"] l SSubtree c
        by (simp add: selEvalLeaf_def sel_codes Let_def yields_def)
    next
      case (Some u)
      obtain s' where s': "ti_fillSubtree t u (ps_clearAll []) = Some s'" "ps_ok (ti_n t) s'"
          "ps_members (ti_n t) s' = ps_members (ti_n t) (ps_clearAll []) \<union> {x. x < ti_n t \<and> descends t u x}"
        by (rule ready_subtree [OF t slots [OF Some], of "ps_clearAll []"]) (use c in blast)+
      then show ?thesis using ops [of 0] ops [of 1] that [of s'] l SSubtree c Some
        by (simp add: selEvalLeaf_def sel_codes Let_def yields_def)
    qed
  next
    case (SNeighbors p)
    show ?thesis
    proof (cases "ti_slotOf t p")
      case None
      then show ?thesis using ops [of 0] ops [of 1] that [of "ps_clearAll []"] l SNeighbors c
        by (simp add: selEvalLeaf_def sel_codes Let_def yields_def)
    next
      case (Some u)
      then show ?thesis using ops [of 0] ops [of 1] that l SNeighbors c neighbours_ok [OF t slots [OF Some], of "ps_clearAll []"]
        by (simp add: selEvalLeaf_def sel_codes Let_def yields_def)
    qed
  next
    case (SFraction a b)
    show ?thesis
    proof (cases "ti_n t = 1")
      case True
      then have "yields t (if a = 0 then ps_set 0 (ps_clearAll []) else ps_clearAll []) e"
        using c ps_set_ok [of 1 "ps_clearAll []" 0] by (simp add: yields_def SFraction)
      then show ?thesis using ops [of 0] ops [of 1] ops [of 2] that l SFraction True by (simp add: selEvalLeaf_def sel_codes ti_count_def Let_def)
    next
      case False
      have small: "unat v * (ti_n t - 1) mod 65536 = unat v * (ti_n t - 1)" for v :: u8
      proof -
        have "unat v * (ti_n t - 1) \<le> 255 * 99" using n unat_u8_le [of v] by (intro mult_le_mono) auto
        then show ?thesis by simp
      qed
      have p255: "ti_canonicalPos t x * 255 mod 65536 = ti_canonicalPos t x * 255" if "x < ti_n t" for x
        using pos [OF that] n by simp
      let ?P = "\<lambda>x. unat a * (ti_n t - 1) \<le> ti_canonicalPos t x * 255 mod 65536 \<and> ti_canonicalPos t x * 255 mod 65536 \<le> unat b * (ti_n t - 1)"
      have "yields t (fill_if ?P (ti_n t) (ps_clearAll [])) e"
        by (rule fill) (use False p255 in \<open>auto simp: SFraction\<close>)
      moreover have "\<not> ti_n t \<le> 1" using False n by simp
      ultimately show ?thesis using ops [of 0] ops [of 1] ops [of 2] that l SFraction small by (simp add: selEvalLeaf_def sel_codes ti_count_def Let_def)
    qed
  next
    case (SFirst k)
    have "yields t (fill_if (\<lambda>x. ti_canonicalPos t x < unat k) (ti_n t) (ps_clearAll [])) e" by (rule fill) (auto simp: SFirst)
    then show ?thesis using ops [of 0] ops [of 1] that l SFirst by (simp add: selEvalLeaf_def sel_codes ti_count_def Let_def)
  next
    case (SLast k)
    have "yields t (fill_if (\<lambda>x. (if ti_n t \<le> unat k then 0 else ti_n t - unat k) \<le> ti_canonicalPos t x) (ti_n t) (ps_clearAll [])) e"
      by (rule fill) (auto simp: SLast)
    then show ?thesis using ops [of 0] ops [of 1] that l SLast by (simp add: selEvalLeaf_def sel_codes ti_count_def Let_def)
  next
    case (SIndices ps)
    have lp: "length ps < 256" using e(2) SIndices by simp
    have cnt: "unat (of_nat (length ps) :: u8) = length ps" using lp by (simp add: unat_of_nat take_bit_nat_eq_self)
    have "map (\<lambda>k. sel_ops sel ! (i + 2 + k)) [0..<length ps] = ps"
      using ops [of "Suc (Suc k)" for k] SIndices by (auto intro!: nth_equalityI)
    moreover have "yields t (fold (set_index t) ps (ps_clearAll [])) e" using set_indices_ok [of "ti_n t" "ps_clearAll []" t ps] c slots
      by (simp add: yields_def SIndices)
    ultimately show ?thesis using ops [of 0] ops [of 1] that l SIndices cnt by (simp add: selEvalLeaf_def sel_codes Let_def)
  qed (use e(1) in \<open>simp_all add: leaf_expr_def\<close>)
qed

text \<open>Conversely, a leaf that is accepted stands for an expression.\<close>

lemma drop_prog:
  assumes "sel_len sel \<le> length (sel_ops sel)" and "i < j" and "j \<le> sel_len sel"
  shows "drop i (prog sel) = sel_ops sel ! i # map (\<lambda>k. sel_ops sel ! (i + 1 + k)) [0..<j - i - 1] @ drop j (prog sel)"
proof (rule nth_equalityI)
  have len: "length (prog sel) = sel_len sel" using assms(1) by (simp add: prog_def)
  show "length (drop i (prog sel)) = length (sel_ops sel ! i # map (\<lambda>k. sel_ops sel ! (i + 1 + k)) [0..<j - i - 1] @ drop j (prog sel))"
    using assms len by simp
  show "drop i (prog sel) ! m = (sel_ops sel ! i # map (\<lambda>k. sel_ops sel ! (i + 1 + k)) [0..<j - i - 1] @ drop j (prog sel)) ! m"
    if "m < length (drop i (prog sel))" for m
    using that assms len by (cases m) (auto simp: nth_append prog_def add.commute)
qed

lemma leaf_accepted:
  assumes "selEvalLeaf op sel i t s = Some (True, j, s')"
  shows "(op \<in> {SEL_ALL, SEL_ROOT, SEL_LEAVES, SEL_BRANCHES, SEL_EVEN, SEL_ODD} \<and> j = i)
    \<or> (op \<in> {SEL_SUBTREE, SEL_NEIGHBORS, SEL_FIRST, SEL_LAST} \<and> j = i + 1 \<and> j \<le> sel_len sel)
    \<or> (op \<in> {SEL_DEPTH, SEL_FRACTION} \<and> j = i + 2 \<and> j \<le> sel_len sel)
    \<or> (op = SEL_INDICES \<and> j = i + 1 + unat (sel_ops sel ! i) \<and> j \<le> sel_len sel)"
  using assms unfolding selEvalLeaf_def Let_def by (auto split: if_splits option.splits)

lemma leaf_backward:
  assumes len: "sel_len sel \<le> length (sel_ops sel)" and i: "i < sel_len sel"
    and ev: "selEvalLeaf (sel_ops sel ! i) sel (i + 1) t s = Some (True, j, s')"
  obtains e where "leaf_expr e" "sel_lists_ok e" "drop i (prog sel) = sel_code e @ drop j (prog sel)" "i < j" "j \<le> sel_len sel"
proof -
  let ?op = "sel_ops sel ! i" and ?a = "sel_ops sel ! (i + 1)" and ?b = "sel_ops sel ! (i + 2)"
  have j: "i < j" "j \<le> sel_len sel" using leaf_accepted [OF ev] i by auto
  note d = drop_prog [OF len j]
  have "\<exists>e. leaf_expr e \<and> sel_lists_ok e \<and> sel_code e = ?op # map (\<lambda>k. sel_ops sel ! (i + 1 + k)) [0..<j - i - 1]"
    using leaf_accepted [OF ev]
  proof (elim disjE conjE)
    assume "?op \<in> {SEL_ALL, SEL_ROOT, SEL_LEAVES, SEL_BRANCHES, SEL_EVEN, SEL_ODD}" "j = i + 1"
    then have "\<exists>e \<in> {SAll, SRoot, SLeaves, SBranches, SEven, SOdd}. leaf_expr e \<and> sel_lists_ok e \<and> sel_code e = [?op]"
      by (auto simp: leaf_expr_def)
    moreover have "map (\<lambda>k. sel_ops sel ! (i + 1 + k)) [0..<j - i - 1] = tl [?op]" using \<open>j = i + 1\<close> by (simp add: upt_rec)
    ultimately show ?thesis by auto
  next
    assume "?op \<in> {SEL_SUBTREE, SEL_NEIGHBORS, SEL_FIRST, SEL_LAST}" "j = i + 1 + 1"
    then have "\<exists>e \<in> {SSubtree ?a, SNeighbors ?a, SFirst ?a, SLast ?a}. leaf_expr e \<and> sel_lists_ok e \<and> sel_code e = [?op, ?a]"
      by (auto simp: leaf_expr_def)
    moreover have "map (\<lambda>k. sel_ops sel ! (i + 1 + k)) [0..<j - i - 1] = tl [?op, ?a]" using \<open>j = i + 1 + 1\<close> by (simp add: upt_rec)
    ultimately show ?thesis by auto
  next
    assume "?op \<in> {SEL_DEPTH, SEL_FRACTION}" "j = i + 1 + 2"
    then have "\<exists>e \<in> {SDepth ?a ?b, SFraction ?a ?b}. leaf_expr e \<and> sel_lists_ok e \<and> sel_code e = [?op, ?a, ?b]"
      by (auto simp: leaf_expr_def)
    moreover have "map (\<lambda>k. sel_ops sel ! (i + 1 + k)) [0..<j - i - 1] = tl [?op, ?a, ?b]" using \<open>j = i + 1 + 2\<close> by (simp add: upt_rec)
    ultimately show ?thesis by auto
  next
    assume op: "?op = SEL_INDICES" and jj: "j = i + 1 + 1 + unat ?a"
    let ?ps = "map (\<lambda>k. sel_ops sel ! (i + 2 + k)) [0..<unat ?a]"
    have "[0..<j - i - 1] = 0 # map Suc [0..<unat ?a]" unfolding map_Suc_upt by (simp add: jj upt_conv_Cons del: upt_Suc)
    then have "map (\<lambda>k. sel_ops sel ! (i + 1 + k)) [0..<j - i - 1] = ?a # ?ps" by simp
    then have "sel_code (SIndices ?ps) = ?op # map (\<lambda>k. sel_ops sel ! (i + 1 + k)) [0..<j - i - 1]"
      using op by (simp del: map_map)
    moreover have "sel_lists_ok (SIndices ?ps)" using unat_u8_less [of ?a] by simp
    ultimately show ?thesis by (intro exI [of _ "SIndices ?ps"]) (simp add: leaf_expr_def)
  qed
  then obtain e where e: "leaf_expr e" "sel_lists_ok e" "sel_code e = ?op # map (\<lambda>k. sel_ops sel ! (i + 1 + k)) [0..<j - i - 1]" by blast
  show thesis by (rule that [OF e(1,2) _ j]) (simp only: d e(3) append_Cons)
qed

text \<open>The steps of the loop.\<close>

lemma sel_loop_leaf:
  assumes "i < sel_len sel" and "sel_ops sel ! i \<notin> {SEL_AND, SEL_OR, SEL_NOT}"
  shows "sel_loop sel t i stack =
    (if SEL_STACK_MAX \<le> length stack then Some None
     else (case selEvalLeaf (sel_ops sel ! i) sel (i + 1) t (ps_clearAll []) of
             None \<Rightarrow> None | Some (ok, j, s) \<Rightarrow> if \<not> ok then Some None else sel_loop sel t j (stack @ [s])))"
  using assms by (subst sel_loop.simps) (simp add: Let_def)

lemma sel_loop_binary:
  assumes "i < sel_len sel" and "sel_ops sel ! i = SEL_AND \<or> sel_ops sel ! i = SEL_OR"
  shows "sel_loop sel t i (stack @ [a, b]) =
    sel_loop sel t (i + 1) (stack @ [if sel_ops sel ! i = SEL_AND then ps_andWith a b else ps_orWith a b])"
  using assms by (subst sel_loop.simps) (simp add: Let_def nth_append)

lemma sel_loop_not:
  assumes "i < sel_len sel" and "sel_ops sel ! i = SEL_NOT"
  shows "sel_loop sel t i (stack @ [a]) = sel_loop sel t (i + 1) (stack @ [ps_invert (ti_count t) a])"
  using assms by (subst sel_loop.simps) (simp add: Let_def sel_codes list_update_append)

lemma yields_binary:
  "yields t a e \<Longrightarrow> yields t b f \<Longrightarrow> yields t (ps_andWith a b) (SAnd e f) \<and> yields t (ps_orWith a b) (SOr e f)"
  by (simp add: yields_def ps_and_ok ps_or_ok)

lemma yields_not: "yields t a e \<Longrightarrow> yields t (ps_invert (ti_count t) a) (SNot e)"
  by (simp add: yields_def ps_invert_ok ti_count_def)

lemma leaf_op: "leaf_expr e \<Longrightarrow> hd (sel_code e) \<notin> {SEL_AND, SEL_OR, SEL_NOT} \<and> sel_code e \<noteq> [] \<and> sel_need e = 1"
  by (cases e) (simp_all add: leaf_expr_def sel_codes)

lemma drop_next: "drop i xs = ys @ zs \<Longrightarrow> drop (i + length ys) xs = zs"
  by (metis add.commute append_eq_conv_conj drop_drop)

lemma sel_loop_leaf_expr:
  assumes t: "topo_ready t" and len: "sel_len sel \<le> length (sel_ops sel)"
    and e2: "sel_lists_ok e" and room: "length stack + sel_need e \<le> SEL_STACK_MAX"
    and d: "drop i (prog sel) = sel_code e @ rest" and e1: "leaf_expr e"
  shows "\<exists>s. yields t s e \<and> sel_loop sel t i stack = sel_loop sel t (i + length (sel_code e)) (stack @ [s])"
proof -
  obtain s where s: "selEvalLeaf (sel_ops sel ! i) sel (i + 1) t (ps_clearAll []) = Some (True, i + length (sel_code e), s)" "yields t s e"
    by (rule leaf_forward [OF t len e1 e2 d]) blast
  have ne: "sel_code e \<noteq> []" using leaf_op [OF e1] by blast
  have at: "sel_ops sel ! i = hd (sel_code e)" "i < sel_len sel"
    using prog_at [OF len d, of 0] ne by (simp_all add: nth_append hd_conv_nth)
  then have "sel_loop sel t i stack = sel_loop sel t (i + length (sel_code e)) (stack @ [s])"
    using sel_loop_leaf [OF at(2), of t stack] leaf_op [OF e1] s(1) room by simp
  then show ?thesis using s(2) by blast
qed

lemma need_max: "a + max x (Suc y) \<le> m \<longleftrightarrow> a + x \<le> m \<and> Suc a + y \<le> (m :: nat)"
  by auto

lemma sel_loop_expr:
  assumes t: "topo_ready t" and len: "sel_len sel \<le> length (sel_ops sel)"
  shows "sel_lists_ok e \<Longrightarrow> length stack + sel_need e \<le> SEL_STACK_MAX \<Longrightarrow> drop i (prog sel) = sel_code e @ rest \<Longrightarrow>
    \<exists>s. yields t s e \<and> sel_loop sel t i stack = sel_loop sel t (i + length (sel_code e)) (stack @ [s])"
proof (induction e arbitrary: stack i rest)
  case (SNot e)
  obtain s where s: "yields t s e" "sel_loop sel t i stack = sel_loop sel t (i + length (sel_code e)) (stack @ [s])"
    using SNot.IH [of stack i "SEL_NOT # rest"] SNot.prems by auto
  have "drop (i + length (sel_code e)) (prog sel) = SEL_NOT # rest" using drop_next [of i "prog sel" "sel_code e"] SNot.prems(3) by simp
  note at = prog_at [OF len this, of 0]
  then have "sel_loop sel t i stack = sel_loop sel t (i + length (sel_code (SNot e))) (stack @ [ps_invert (ti_count t) s])"
    using s(2) sel_loop_not [of "i + length (sel_code e)" sel t stack s] by simp
  then show ?case using yields_not [OF s(1)] by blast
next
  case (SAnd e f)
  obtain a where a: "yields t a e" "sel_loop sel t i stack = sel_loop sel t (i + length (sel_code e)) (stack @ [a])"
    using SAnd.IH(1) [of stack i "sel_code f @ SEL_AND # rest"] SAnd.prems by (auto simp: need_max)
  have d: "drop (i + length (sel_code e)) (prog sel) = sel_code f @ SEL_AND # rest"
    using drop_next [of i "prog sel" "sel_code e"] SAnd.prems(3) by simp
  obtain b where b: "yields t b f" "sel_loop sel t (i + length (sel_code e)) (stack @ [a])
      = sel_loop sel t (i + length (sel_code e) + length (sel_code f)) ((stack @ [a]) @ [b])"
    using SAnd.IH(2) [OF _ _ d, of "stack @ [a]"] SAnd.prems by (auto simp: need_max)
  note at = prog_at [OF len drop_next [OF d], of 0]
  then have "sel_loop sel t i stack = sel_loop sel t (i + length (sel_code (SAnd e f))) (stack @ [ps_andWith a b])"
    using a(2) b(2) sel_loop_binary [of "i + length (sel_code e) + length (sel_code f)" sel t stack a b] by (simp add: add.assoc)
  then show ?case using yields_binary [OF a(1) b(1)] by blast
next
  case (SOr e f)
  obtain a where a: "yields t a e" "sel_loop sel t i stack = sel_loop sel t (i + length (sel_code e)) (stack @ [a])"
    using SOr.IH(1) [of stack i "sel_code f @ SEL_OR # rest"] SOr.prems by (auto simp: need_max)
  have d: "drop (i + length (sel_code e)) (prog sel) = sel_code f @ SEL_OR # rest"
    using drop_next [of i "prog sel" "sel_code e"] SOr.prems(3) by simp
  obtain b where b: "yields t b f" "sel_loop sel t (i + length (sel_code e)) (stack @ [a])
      = sel_loop sel t (i + length (sel_code e) + length (sel_code f)) ((stack @ [a]) @ [b])"
    using SOr.IH(2) [OF _ _ d, of "stack @ [a]"] SOr.prems by (auto simp: need_max)
  note at = prog_at [OF len drop_next [OF d], of 0]
  then have "sel_loop sel t i stack = sel_loop sel t (i + length (sel_code (SOr e f))) (stack @ [ps_orWith a b])"
    using a(2) b(2) sel_loop_binary [of "i + length (sel_code e) + length (sel_code f)" sel t stack a b] by (simp add: add.assoc sel_codes)
  then show ?case using yields_binary [OF a(1) b(1)] by blast
qed (rule sel_loop_leaf_expr [OF t len], assumption+, simp add: leaf_expr_def)+

text \<open>Whatever the loop has consumed is the code of the expressions on its stack.\<close>

definition stacked :: "sel_expr list \<Rightarrow> bool" where
  "stacked es \<longleftrightarrow> (\<forall>k < length es. sel_lists_ok (es ! k) \<and> k + sel_need (es ! k) \<le> SEL_STACK_MAX)"

lemma stacked_snoc: "stacked (es @ [e]) \<longleftrightarrow> stacked es \<and> sel_lists_ok e \<and> length es + sel_need e \<le> SEL_STACK_MAX"
  by (auto simp: stacked_def nth_append less_Suc_eq)

lemma take_prog_snoc:
  assumes "sel_len sel \<le> length (sel_ops sel)" and "i < sel_len sel"
  shows "take (i + 1) (prog sel) = take i (prog sel) @ [sel_ops sel ! i]"
  using assms by (simp add: prog_def take_Suc_conv_app_nth)

lemma two_last: "2 \<le> length xs \<Longrightarrow> \<exists>ys a b. xs = ys @ [a, b] \<and> length ys = length xs - 2"
  by (cases xs rule: rev_cases, simp, rename_tac ys y, case_tac ys rule: rev_cases) auto

lemma sel_loop_accepts:
  assumes len: "sel_len sel \<le> length (sel_ops sel)"
  shows "sel_loop sel t i stack = Some (Some final) \<Longrightarrow> take i (prog sel) = concat (map sel_code es) \<Longrightarrow> stacked es \<Longrightarrow>
    length es = length stack \<Longrightarrow> \<exists>es'. prog sel = concat (map sel_code es') \<and> stacked es' \<and> length es' = length final"
proof (induction "sel_len sel - i" arbitrary: i stack es rule: less_induct)
  case less
  let ?op = "sel_ops sel ! i"
  show ?case
  proof (cases "sel_len sel \<le> i")
    case True
    then have "stack = final" "take i (prog sel) = prog sel" using less.prems(1) by (simp_all add: sel_loop.simps prog_def)
    then show ?thesis using less.prems(2-4) by (intro exI [of _ es]) simp
  next
    case False
    then have i: "i < sel_len sel" by simp
    note step = take_prog_snoc [OF len i]
    consider (bin) "?op = SEL_AND \<or> ?op = SEL_OR" | (neg) "?op = SEL_NOT" | (leaf) "?op \<notin> {SEL_AND, SEL_OR, SEL_NOT}" by auto
    then show ?thesis
    proof cases
      case bin
      have two: "2 \<le> length stack" using less.prems(1) i bin by (subst (asm) sel_loop.simps) (auto simp: Let_def split: if_splits)
      obtain st a b where st: "stack = st @ [a, b]" "length st = length stack - 2" using two_last [OF two] by blast
      obtain fs e f where fs: "es = fs @ [e, f]" "length fs = length es - 2" using two_last [of es] two less.prems(4) by auto
      let ?g = "if ?op = SEL_AND then SAnd e f else SOr e f"
      have "sel_code ?g = sel_code e @ sel_code f @ [?op]" using bin by auto
      then have 1: "take (i + 1) (prog sel) = concat (map sel_code (fs @ [?g]))" using step less.prems(2) by (simp add: fs(1))
      have 2: "stacked (fs @ [?g])" using less.prems(3) stacked_snoc [of "fs @ [e]" f] stacked_snoc [of fs e] stacked_snoc [of fs ?g]
        by (simp add: fs(1) need_max)
      show ?thesis using less.hyps [OF _ _ 1 2] less.prems(1,4) sel_loop_binary [OF i bin, of t st a b] i st(1) fs(1) by simp
    next
      case neg
      have one: "stack \<noteq> []" using less.prems(1) i neg by (subst (asm) sel_loop.simps) (auto simp: Let_def sel_codes split: if_splits)
      obtain st a where st: "stack = st @ [a]" using one by (cases stack rule: rev_cases) auto
      obtain fs e where fs: "es = fs @ [e]" using one less.prems(4) by (cases es rule: rev_cases) auto
      have 1: "take (i + 1) (prog sel) = concat (map sel_code (fs @ [SNot e]))" using step less.prems(2) neg by (simp add: fs)
      have 2: "stacked (fs @ [SNot e])" using less.prems(3) by (simp add: fs stacked_snoc)
      show ?thesis using less.hyps [OF _ _ 1 2] less.prems(1,4) sel_loop_not [OF i neg, of t st a] i st fs by simp
    next
      case leaf
      have room: "length stack < SEL_STACK_MAX" using less.prems(1) sel_loop_leaf [OF i leaf, of t stack] by (simp split: if_splits)
      obtain j s where ev: "selEvalLeaf ?op sel (i + 1) t (ps_clearAll []) = Some (True, j, s)"
          and rec: "sel_loop sel t j (stack @ [s]) = Some (Some final)"
        using less.prems(1) room sel_loop_leaf [OF i leaf, of t stack] by (auto split: option.splits if_splits prod.splits)
      obtain e where e: "leaf_expr e" "sel_lists_ok e" "drop i (prog sel) = sel_code e @ drop j (prog sel)" "i < j" "j \<le> sel_len sel"
        by (rule leaf_backward [OF len i ev]) blast
      have "take j (prog sel) @ drop j (prog sel) = take i (prog sel) @ drop i (prog sel)" by simp
      then have "take j (prog sel) @ drop j (prog sel) = (concat (map sel_code es) @ sel_code e) @ drop j (prog sel)"
        by (simp only: less.prems(2) e(3) append_assoc)
      then have 1: "take j (prog sel) = concat (map sel_code (es @ [e]))" by (simp only: append_same_eq) simp
      have 2: "stacked (es @ [e])" using less.prems(3,4) room e(2) leaf_op [OF e(1)] by (simp add: stacked_snoc)
      show ?thesis using less.hyps [OF _ rec 1 2] less.prems(4) e(4,5) by simp
    qed
  qed
qed

lemma if_some: "x \<noteq> None \<Longrightarrow> y \<noteq> None \<Longrightarrow> (if c then x else y) \<noteq> None"
  by simp

lemma case_some: "a \<noteq> None \<Longrightarrow> (\<And>u. x = Some u \<Longrightarrow> f u \<noteq> None) \<Longrightarrow> (case x of None \<Rightarrow> a | Some u \<Rightarrow> f u) \<noteq> None"
  by (cases x) simp_all

lemma leaf_total:
  assumes t: "topo_ready t"
  shows "selEvalLeaf op sel i t (ps_clearAll []) \<noteq> None"
proof -
  have sub: "ti_fillSubtree t u (ps_clearAll []) \<noteq> None" if u: "ti_slotOf t p = Some u" for p u
  proof -
    have "u < ti_n t" using t u unfolding topo_ready_def by blast
    then show ?thesis using ready_subtree [OF t, of u "ps_clearAll []"] clear_ready [OF t] by blast
  qed
  show ?thesis unfolding selEvalLeaf_def Let_def by (intro if_some case_some) (simp_all add: sub)
qed

lemma sel_loop_total:
  assumes t: "topo_ready t"
  shows "sel_loop sel t i stack \<noteq> None"
proof (induction "sel_len sel - i" arbitrary: i stack rule: less_induct)
  case less
  have rec: "sel_loop sel t j st \<noteq> None" if "i < sel_len sel" "i < j" for j st using less [of j st] that by simp
  show ?case
  proof (cases "sel_len sel \<le> i \<or> sel_ops sel ! i \<in> {SEL_AND, SEL_OR, SEL_NOT}")
    case True
    then show ?thesis using rec by (subst sel_loop.simps) (auto simp: Let_def)
  next
    case False
    obtain ok j s where ev: "selEvalLeaf (sel_ops sel ! i) sel (i + 1) t (ps_clearAll []) = Some (ok, j, s)"
      using leaf_total [OF t, of "sel_ops sel ! i" sel "i + 1"] by auto
    then have "sel_loop sel t j (stack @ [s]) \<noteq> None" using selEvalLeaf_advances [OF ev] rec False by simp
    then show ?thesis using False ev sel_loop_leaf [of i sel t stack] by simp
  qed
qed

text \<open>
  The selector programs that \<open>resolveSelector\<close> accepts are exactly the postfix codes of expressions that
  fit the six-entry stack, a truncated, unknown, over- or underflowing program leaves the result alone, and an
  accepted program yields exactly the panels its expression denotes: depth bands by hop distance, subtrees by
  descent, fractions and ends by canonical position, and the set operations of their operands.
\<close>

lemma selector_meaning:
  assumes t: "topo_ready t" and len: "sel_len sel \<le> length (sel_ops sel)"
  shows "\<exists>ok s. resolveSelector sel t out = Some (ok, s)
    \<and> (ok \<longleftrightarrow> (\<exists>e. sel_expr_ok e \<and> take (sel_len sel) (sel_ops sel) = sel_code e))
    \<and> (\<not> ok \<longrightarrow> s = out)
    \<and> (\<forall>e. sel_expr_ok e \<and> take (sel_len sel) (sel_ops sel) = sel_code e \<longrightarrow> {x. x < ti_n t \<and> ps_test s x} = sel_set t e)"
proof -
  have good: "\<exists>s. resolveSelector sel t out = Some (True, s) \<and> yields t s e" if "sel_expr_ok e" "prog sel = sel_code e" for e
  proof -
    have "sel_lists_ok e" "length ([] :: PanelSet list) + sel_need e \<le> SEL_STACK_MAX" "drop 0 (prog sel) = sel_code e @ []"
      using that by (simp_all add: sel_expr_ok_def)
    then obtain s where s: "yields t s e" "sel_loop sel t 0 [] = sel_loop sel t (length (sel_code e)) [s]"
      using sel_loop_expr [OF t len, of e "[]" 0 "[]"] by auto
    have "length (sel_code e) = sel_len sel" using len that(2) [symmetric] by (simp add: prog_def)
    then show ?thesis using s by (auto simp: resolveSelector_def sel_loop.simps)
  qed
  show ?thesis
  proof (cases "\<exists>e. sel_expr_ok e \<and> prog sel = sel_code e")
    case True
    then obtain e s where s: "sel_expr_ok e" "prog sel = sel_code e" "resolveSelector sel t out = Some (True, s)" using good by blast
    have "yields t s f" if "sel_expr_ok f" "prog sel = sel_code f" for f using good [OF that] s(3) by simp
    then have "\<forall>f. sel_expr_ok f \<and> prog sel = sel_code f \<longrightarrow> {x. x < ti_n t \<and> ps_test s x} = sel_set t f"
      unfolding yields_def ps_members_def by blast
    then show ?thesis using s True unfolding prog_def by (intro exI [of _ True] exI [of _ s]) simp
  next
    case False
    have "resolveSelector sel t out = Some (False, out)"
    proof (cases "sel_loop sel t 0 []")
      case (Some r)
      have "length st \<noteq> 1" if "r = Some st" for st
      proof
        assume "length st = 1"
        have "sel_loop sel t 0 [] = Some (Some st)" using Some that by simp
        then obtain es where "prog sel = concat (map sel_code es)" "stacked es" "length es = length st"
          using sel_loop_accepts [OF len, of t 0 "[]" st "[]"] by (auto simp: stacked_def)
        then show False using False \<open>length st = 1\<close> by (auto simp: length_Suc_conv stacked_def sel_expr_ok_def)
      qed
      then show ?thesis using Some by (simp add: resolveSelector_def split: option.splits)
    qed (simp add: sel_loop_total [OF t])
    then show ?thesis using False unfolding prog_def by (intro exI [of _ False] exI [of _ out]) blast
  qed
qed

section \<open>A concrete view\<close>

lemma pair_children: "child_list pair_index 0 = [1]" "child_list pair_index 1 = []"
proof -
  have "ti_graph pair_index = pair_graph" "ti_parent pair_index = [NO_PARENT, 0]" by (simp_all add: pair_index_def)
  moreover have "pg_degree pair_graph 0 = 1" "pg_degree pair_graph 1 = 1" by (simp_all add: pg_degree_def pair_graph_def)
  moreover have "nbrs pair_graph 0 = [1]" "nbrs pair_graph 1 = [0]" by (rule pair_graph_facts)+
  ultimately show "child_list pair_index 0 = [1]" "child_list pair_index 1 = []"
    by (auto simp: child_list_eq row_def nbrs_def NO_PARENT_def)
qed

lemma pair_ready: "topo_ready pair_index"
proof -
  have f: "ti_graph pair_index = pair_graph" "ti_n pair_index = 2" "ti_rootSlot pair_index = 0" "ti_canonPos pair_index = [0, 1]"
    "ti_parent pair_index = [NO_PARENT, 0]" by (simp_all add: pair_index_def)
  have po: "pre_order pair_index 0 = [0, 1]" using pair_children by (simp add: pre_order_def f numeral_2_eq_2)
  have "child_list pair_index u = map fst (sort_key snd (filter (\<lambda>c. ti_parentOf pair_index (fst c) = u) (row pair_graph u)))" if "u \<in> {0, 1}" for u
    using child_list_eq [of pair_index u] that by (auto simp: f pg_degree_def pair_graph_def ti_parentOf_def)
  then have can: "canonical pair_graph 0 pair_index"
    unfolding canonical_def po pair_reach by (auto simp: f ti_canonicalPos_def less_Suc_eq)
  have slots: "u < 2" if "ti_slotOf pair_index p = Some u" for p u
  proof -
    have "unat p < 256" by (rule unat_u8_less)
    then have "pg_slotByIndex pair_graph ! unat p \<in> {NO_SLOT, 0, 1}" by (simp add: pair_graph_def nth_list_update)
    then show ?thesis using that by (auto simp: ti_slotOf_def pg_slotOf_def f Let_def split: if_splits)
  qed
  show ?thesis unfolding topo_ready_def f using pair_graph_facts pair_rooted can pair_reach slots by auto
qed

end
