(* ===== verification/Scene_Topology.thy ===== *)
theory Scene_Topology
  imports
    Panel_Selector
begin

text \<open>
  The topology half of scene playback: the owner of the graph and of its rooted view
  (\<open>Core/Controller/SceneTopology.hpp\<close>), and the hop-distance field the moving runners sweep
  (\<open>Core/Controller/PanelField.hpp\<close>). The panel tree comes from a provider, here the lists of panel indices and
  links it fills in; the planar layout is not part of this model. The main result composes discovery with
  playback: the tree any walk has built is a tree the selectors and the field are right about.
\<close>

section \<open>The owner of the views\<close>

record SceneTopology =
  st_graph :: PanelGraph
  st_topo :: TopologyIndex
  st_logicalRoot :: u8

definition st_init :: "SceneTopology \<Rightarrow> SceneTopology" where
  "st_init raw = raw\<lparr>st_graph := pg_init (st_graph raw), st_logicalRoot := 1\<rparr>"

definition st_setLogicalRoot :: "u8 \<Rightarrow> SceneTopology \<Rightarrow> SceneTopology" where
  "st_setLogicalRoot p st = st\<lparr>st_logicalRoot := (if p \<noteq> 0 then p else 1)\<rparr>"

text \<open>The rooted view refers to the graph it is built from, so it is rebuilt with it.\<close>

definition st_rebuild :: "u8 list \<Rightarrow> TopoLink list \<Rightarrow> SceneTopology \<Rightarrow> SceneTopology option" where
  "st_rebuild indices links st =
     (let total = length indices;
          g = (if total = 0 \<or> LIGHTNET_MAX_PANELS < total then snd (pg_build [] [] (st_graph st))
               else snd (pg_build indices links (st_graph st)))
      in map_option (\<lambda>(_, t). st\<lparr>st_graph := g, st_topo := t\<rparr>) (ti_build g (st_logicalRoot st) (st_topo st)))"

definition st_resolvePanels :: "PanelSelector \<Rightarrow> nat \<Rightarrow> SceneTopology \<Rightarrow> u8 list option" where
  "st_resolvePanels target maxLen st =
     (case resolveSelector target (st_topo st) (ps_clearAll []) of
        None \<Rightarrow> None
      | Some (ok, s) \<Rightarrow> Some (if \<not> ok then [] else emitPanelIndices s (st_topo st) maxLen))"

section \<open>The distance field\<close>

definition SRC_ROOT :: u8 where "SRC_ROOT = 0"
definition SRC_LEAVES :: u8 where "SRC_LEAVES = 1"
definition SRC_ALL :: u8 where "SRC_ALL = 2"
definition SRC_PANEL :: u8 where "SRC_PANEL = 3"

lemmas src_codes = SRC_ROOT_def SRC_LEAVES_def SRC_ALL_def SRC_PANEL_def

definition buildSourceSet :: "TopologyIndex \<Rightarrow> u8 \<Rightarrow> u8 \<Rightarrow> PanelSet \<Rightarrow> PanelSet" where
  "buildSourceSet topo kind arg out =
     (let out = ps_clearAll out; n = ti_count topo;
          out = (if kind = SRC_LEAVES then fill_if (ti_isLeaf topo) n out
                 else if kind = SRC_ALL then fill_if (\<lambda>s. True) n out
                 else if kind = SRC_PANEL then set_index topo arg out
                 else if n \<noteq> 0 then ps_set (ti_root topo) out else out)
      in if n \<noteq> 0 \<and> ps_popcount n out = 0 then ps_set (ti_root topo) out else out)"

text \<open>One coordinate, and the field with its largest value; \<open>raw\<close> is the uninitialised distance array.\<close>

definition panel_coord :: "TopologyIndex \<Rightarrow> nat list \<Rightarrow> u8 \<Rightarrow> nat" where
  "panel_coord topo dist p = (case ti_slotOf topo p of None \<Rightarrow> 0 | Some sl \<Rightarrow> if dist ! sl \<noteq> NO_DIST then dist ! sl else 0)"

definition computeDistanceField :: "TopologyIndex \<Rightarrow> u8 list \<Rightarrow> u8 \<Rightarrow> u8 \<Rightarrow> bool \<Rightarrow> nat list \<Rightarrow> (nat \<times> nat list) option" where
  "computeDistanceField topo panels srcKind srcArg reverse raw =
     map_option
       (\<lambda>dist.
          (let coords = map (panel_coord topo dist) panels;
               maxD = fold (\<lambda>d m. if m < d then d else m) coords 0
           in (maxD, if reverse then map (\<lambda>d. maxD - d) coords else coords)))
       (ti_distancesFrom topo (buildSourceSet topo srcKind srcArg []) raw)"

section \<open>Trees given by parent links\<close>

text \<open>
  Every panel but the first is the far end of exactly one link, whose near end is listed before it. The links
  may come in any order, since the provider collects them panel by panel.
\<close>

definition link_ends :: "u8 list \<Rightarrow> TopoLink \<Rightarrow> nat \<Rightarrow> nat \<Rightarrow> bool" where
  "link_ends ps l a b \<longleftrightarrow> a < b \<and> b < length ps \<and> panelA l = ps ! a \<and> panelB l = ps ! b"

definition links_ok :: "u8 list \<Rightarrow> TopoLink list \<Rightarrow> bool" where
  "links_ok ps links \<longleftrightarrow> distinct ps \<and> (\<forall>l \<in> set links. \<exists>a b. link_ends ps l a b)"

definition tree_shape :: "u8 list \<Rightarrow> TopoLink list \<Rightarrow> bool" where
  "tree_shape ps links \<longleftrightarrow>
     links_ok ps links \<and> ps \<noteq> [] \<and> length ps \<le> MAXN \<and> length links \<le> MAXN \<and> distinct (map panelB links)
     \<and> set (map panelB links) = set (tl ps)"

definition peers :: "u8 list \<Rightarrow> TopoLink list \<Rightarrow> nat \<Rightarrow> nat list" where
  "peers ps links s = map fst (at_slot s (half_edges (slot_in ps) links))"

lemma link_end_slots:
  assumes "distinct ps" and "link_ends ps l a b"
  shows "slot_in ps (panelA l) = Some a" and "slot_in ps (panelB l) = Some b"
  using assms slot_in_nth [of ps a] slot_in_nth [of ps b] by (simp_all add: link_ends_def)

lemma link_ends_unique: "distinct ps \<Longrightarrow> link_ends ps l a b \<Longrightarrow> link_ends ps l c d \<Longrightarrow> a = c \<and> b = d"
  using link_end_slots by (metis option.inject)

lemma peers_Cons:
  assumes "distinct ps" and "link_ends ps l a b"
  shows "peers ps (l # links) s = (if s = a then [b] else []) @ (if s = b then [a] else []) @ peers ps links s"
  using link_end_slots [OF assms] assms(2) by (simp add: peers_def half_edges_def link_halves_def at_slot_def)

definition linked :: "u8 list \<Rightarrow> TopoLink list \<Rightarrow> nat \<Rightarrow> nat \<Rightarrow> bool" where
  "linked ps links s t \<longleftrightarrow> (\<exists>l \<in> set links. link_ends ps l s t \<or> link_ends ps l t s)"

lemma linked_Cons:
  assumes "distinct ps" and "link_ends ps l a b"
  shows "linked ps (l # links) s t \<longleftrightarrow> (s = a \<and> t = b) \<or> (s = b \<and> t = a) \<or> linked ps links s t"
proof -
  have "link_ends ps l x y \<longleftrightarrow> x = a \<and> y = b" for x y
    using link_ends_unique [OF assms(1) _ assms(2), of x y] assms(2) by auto
  moreover have "linked ps (l # links) s t \<longleftrightarrow> (link_ends ps l s t \<or> link_ends ps l t s) \<or> linked ps links s t"
    unfolding linked_def by simp
  ultimately show ?thesis by (simp add: conj_commute)
qed

lemma links_ok_Cons: "links_ok ps (l # links) \<Longrightarrow> links_ok ps links \<and> (\<exists>a b. link_ends ps l a b)"
  by (simp add: links_ok_def)

lemma peers_set: "links_ok ps links \<Longrightarrow> set (peers ps links s) = {t. linked ps links s t}"
proof (induction links)
  case (Cons l links)
  obtain a b where l: "link_ends ps l a b" using links_ok_Cons [OF Cons.prems] by blast
  have d: "distinct ps" using Cons.prems by (simp add: links_ok_def)
  have IH: "set (peers ps links s) = {t. linked ps links s t}" using Cons.IH links_ok_Cons [OF Cons.prems] by blast
  show ?case unfolding peers_Cons [OF d l] linked_Cons [OF d l] set_append IH by (auto split: if_splits)
qed (simp add: peers_def half_edges_def at_slot_def linked_def)

lemma peers_distinct: "links_ok ps links \<Longrightarrow> distinct (map panelB links) \<Longrightarrow> distinct (peers ps links s)"
proof (induction links)
  case (Cons l links)
  obtain a b where l: "link_ends ps l a b" and ok: "links_ok ps links" using links_ok_Cons [OF Cons.prems(1)] by blast
  have d: "distinct ps" using ok by (simp add: links_ok_def)
  have ab: "a < b" "panelB l = ps ! b" using l by (simp_all add: link_ends_def)
  have new: "panelB l' \<noteq> ps ! b" if "l' \<in> set links" for l' using Cons.prems(2) that ab(2) by force
  have no: "\<not> linked ps links a b" "\<not> linked ps links b a" using new ab(1) by (auto simp: linked_def link_ends_def)
  have "distinct (peers ps links s)" using Cons.IH [OF ok] Cons.prems(2) by simp
  then show ?case
    unfolding peers_Cons [OF d l] using ab(1) no peers_set [OF ok, of a] peers_set [OF ok, of b]
    by (cases "s = a"; cases "s = b") simp_all
qed (simp add: peers_def half_edges_def at_slot_def)

lemma peers_length:
  "links_ok ps links \<Longrightarrow> s < length ps \<Longrightarrow>
    length (peers ps links s) = length (filter (\<lambda>l. panelA l = ps ! s) links) + length (filter (\<lambda>l. panelB l = ps ! s) links)"
proof (induction links)
  case (Cons l links)
  obtain a b where l: "link_ends ps l a b" and ok: "links_ok ps links" using links_ok_Cons [OF Cons.prems(1)] by blast
  have d: "distinct ps" using ok by (simp add: links_ok_def)
  have ab: "panelA l = ps ! s \<longleftrightarrow> s = a" "panelB l = ps ! s \<longleftrightarrow> s = b" "a \<noteq> b"
    using l nth_eq_iff_index_eq [OF d _ Cons.prems(2)] by (auto simp: link_ends_def)
  show ?case unfolding peers_Cons [OF d l] using Cons.IH [OF ok Cons.prems(2)] ab by simp
qed (simp add: peers_def half_edges_def at_slot_def)

lemma one_far_end: "distinct (map panelB links) \<Longrightarrow> length (filter (\<lambda>l. panelB l = p) links) \<le> 1"
proof (induction links)
  case (Cons l links)
  then show ?case by (cases "panelB l = p") (auto simp: filter_empty_conv image_iff)
qed simp

text \<open>Every slot but the first has its parent among its peers, so every slot is reached from every other.\<close>

lemma tree_parent:
  assumes t: "tree_shape ps links" and s: "0 < s" "s < length ps"
  obtains a where "a < s" "a \<in> set (peers ps links s)" "s \<in> set (peers ps links a)"
proof -
  have ok: "links_ok ps links" and d: "distinct ps" and tl: "set (map panelB links) = set (tl ps)"
    using t by (simp_all add: tree_shape_def links_ok_def)
  have "ps ! s = tl ps ! (s - 1)" "s - 1 < length (tl ps)" using s by (simp_all add: nth_tl)
  then have "ps ! s \<in> set (tl ps)" by (metis nth_mem)
  then obtain l where l: "l \<in> set links" "panelB l = ps ! s" unfolding tl [symmetric] by auto
  obtain a b where ab: "link_ends ps l a b" using ok l(1) unfolding links_ok_def by blast
  have "b = s" using ab l(2) nth_eq_iff_index_eq [OF d _ s(2), of b] by (simp add: link_ends_def)
  then have "linked ps links s a" "linked ps links a s" "a < s" using ab l(1) by (auto simp: linked_def link_ends_def)
  then show thesis using that [of a] peers_set [OF ok] by simp
qed

lemma hop_closed: "u \<in> hop_set N S k \<Longrightarrow> v \<in> set (N u) \<Longrightarrow> v \<in> hop_set N S (Suc k)"
  by auto

lemma reachI: "v < pg_n g \<Longrightarrow> v \<in> hop_set (nbrs g) {r} k \<Longrightarrow> v \<in> reach g r"
  by (auto simp: reach_def)

lemma tree_reach:
  assumes t: "tree_shape ps links" and g: "pg_n g = length ps" "\<And>s. s < length ps \<Longrightarrow> nbrs g s = peers ps links s"
    and r: "r < length ps"
  shows "reach g r = {..<length ps}"
proof -
  have step: "v \<in> reach g r" if "u \<in> reach g r" "v \<in> set (peers ps links u)" "u < length ps" "v < length ps" for u v
  proof -
    note uv = that
    obtain k where "u \<in> hop_set (nbrs g) {r} k" using uv(1) by (auto simp: reach_def)
    then have "v \<in> hop_set (nbrs g) {r} (Suc k)" using hop_closed [of u "nbrs g" "{r}" k v] uv g(2) by simp
    then show ?thesis using uv(4) g(1) by (intro reachI) (simp_all del: hop_set.simps)
  qed
  have r_in: "r \<in> reach g r" by (rule reachI [of _ _ _ 0]) (simp_all add: r g(1))
  have "s \<in> reach g r \<Longrightarrow> s < length ps \<Longrightarrow> 0 \<in> reach g r" for s
  proof (induction s rule: less_induct)
    case (less s)
    show ?case
    proof (cases "s = 0")
      case False
      then obtain a where a: "a < s" "a \<in> set (peers ps links s)" using tree_parent [OF t, of s] less.prems(2) by auto
      then show ?thesis using less.IH [of a] step [of s a] less.prems by simp
    qed (use less.prems in simp)
  qed
  then have zero: "0 \<in> reach g r" using r_in r by blast
  have "s < length ps \<Longrightarrow> s \<in> reach g r" for s
  proof (induction s rule: less_induct)
    case (less s)
    show ?case
    proof (cases "s = 0")
      case False
      then obtain a where a: "a < s" "s \<in> set (peers ps links a)" using tree_parent [OF t, of s] less.prems by auto
      then show ?thesis using less.IH [of a] step [of a s] less.prems by simp
    qed (simp add: zero)
  qed
  then show ?thesis using g(1) by (auto simp: reach_def)
qed

section \<open>Rebuilding\<close>

definition st_caps :: "SceneTopology \<Rightarrow> bool" where
  "st_caps st \<longleftrightarrow> pg_caps (st_graph st) \<and> ti_caps (st_topo st)"

text \<open>Building keeps the capacity of every array.\<close>

definition adj_lens :: "adj_arrays \<Rightarrow> nat \<times> nat \<times> nat" where
  "adj_lens st = (case st of (c, s, m, p) \<Rightarrow> (length s, length m, length p))"

lemma fill_link_lens: "adj_lens (fold (fill_link sbi) links st) = adj_lens st"
proof -
  have "adj_lens (put_half s h st) = adj_lens st" for s h st
    by (cases h; cases st) (simp add: adj_lens_def put_half_def)
  then have "adj_lens (fill_link sbi l st) = adj_lens st" for l st by (simp add: fill_link_def Let_def)
  then show ?thesis by (induction links arbitrary: st) simp_all
qed

lemma pg_build_caps:
  assumes "pg_caps g"
  shows "pg_caps (snd (pg_build ps links g))"
proof -
  have deg: "length (fold (count_link sbi) links deg) = length deg" for sbi deg
    by (induction links arbitrary: deg) (simp_all add: count_link_def Let_def)
  have start: "length (snd (fold (start_step deg) ss st)) = length (snd st)" for deg ss st
    by (induction ss arbitrary: st) (simp_all add: start_step_def split: prod.splits)
  have adj: "pg_caps (pg_buildAdjacency links h)" if "pg_caps h" "pg_n h \<le> MAXN" for h
  proof -
    let ?deg = "fold (count_link (pg_slotByIndex h)) links (replicate (pg_n h) 0 @ drop (pg_n h) (pg_deg h))"
    let ?st = "snd (fold (start_step ?deg) [0..<pg_n h] (0, pg_adjStart h))"
    let ?cur = "map (\<lambda>s. ?st ! s) [0..<pg_n h]"
    obtain c s m p where f: "fold (fill_link (pg_slotByIndex h)) links (?cur, pg_adjSlot h, pg_adjMyEdge h, pg_adjPeerEdge h) = (c, s, m, p)"
      by (metis prod_cases4)
    have "(length s, length m, length p) = (length (pg_adjSlot h), length (pg_adjMyEdge h), length (pg_adjPeerEdge h))"
      using fill_link_lens [of "pg_slotByIndex h" links "(?cur, pg_adjSlot h, pg_adjMyEdge h, pg_adjPeerEdge h)"]
      unfolding f by (simp add: adj_lens_def)
    moreover have "pg_buildAdjacency links h = h\<lparr>pg_deg := ?deg, pg_adjStart := ?st, pg_adjSlot := s, pg_adjMyEdge := m, pg_adjPeerEdge := p\<rparr>"
      using f by (simp add: pg_buildAdjacency_def Let_def)
    ultimately show ?thesis using that deg start by (simp add: pg_caps_def)
  qed
  show ?thesis using assms adj by (auto simp: pg_build_def Let_def pg_caps_def register_fields)
qed

definition fan_out :: "TopoLink list \<Rightarrow> u8 \<Rightarrow> nat" where
  "fan_out links p = length (filter (\<lambda>l. panelA l = p) links)"

lemma rebuild_ready:
  assumes t: "tree_shape ps links" and fan: "\<And>p. fan_out links p \<le> 7" and caps: "st_caps st"
  obtains st' where "st_rebuild ps links st = Some st'" "topo_ready (st_topo st')" "ti_n (st_topo st') = length ps"
    "ti_slotOf (st_topo st') = slot_in ps" "\<And>s. s < length ps \<Longrightarrow> ti_panelAt (st_topo st') s = ps ! s"
    "\<And>s. s < length ps \<Longrightarrow> nbrs (ti_graph (st_topo st')) s = peers ps links s"
    "ti_rootSlot (st_topo st') = (case slot_in ps (st_logicalRoot st) of Some s \<Rightarrow> s | None \<Rightarrow> pg_lowestSlot (ti_graph (st_topo st')))"
    "\<forall>s < length ps. ps ! pg_lowestSlot (ti_graph (st_topo st')) \<le> ps ! s" "st_caps st'"
    "st_graph st' = ti_graph (st_topo st')" "pg_lowestSlot (st_graph st') < length ps"
proof -
  have ok: "links_ok ps links" "distinct (map panelB links)" and ps: "distinct ps" "0 < length ps" "length ps \<le> MAXN" "length links \<le> MAXN"
    using t by (simp_all add: tree_shape_def links_ok_def)
  have c: "pg_caps (st_graph st)" "ti_caps (st_topo st)" using caps by (simp_all add: st_caps_def)
  obtain g where g: "pg_build ps links (st_graph st) = (True, g)" "pg_count g = length ps" "\<forall>s < length ps. pg_panelAt g s = ps ! s"
      "pg_slotOf g = slot_in ps" "\<forall>s < length ps. ps ! pg_lowestSlot g \<le> ps ! s" "pg_caps g" "pg_lowestSlot g < length ps"
    using pg_build_spec [OF c(1) ps] pg_build_caps [OF c(1), of ps links] by auto
  note bg = built_graph_ok [OF c(1) ps g(1)]
  have nb: "nbrs g s = peers ps links s" if "s < length ps" for s using bg(4) [OF that] by (simp add: peers_def)
  have "pg_degree g s \<le> 8" if "s < length ps" for s
  proof -
    have "pg_degree g s = length (nbrs g s)" by (simp add: nbrs_def)
    then show ?thesis using nb [OF that] peers_length [OF ok(1) that] fan [of "ps ! s"] one_far_end [OF ok(2), of "ps ! s"]
      by (simp add: fan_out_def)
  qed
  then have simple: "graph_simple g" using nb peers_distinct [OF ok] bg(2) by (simp add: graph_simple_def)
  let ?p = "st_logicalRoot st"
  obtain t' where t': "ti_build g ?p (st_topo st) = Some (True, t')" "rooted_at g (ti_pickRoot g ?p) t'" "canonical g (ti_pickRoot g ?p) t'"
      "ti_graph t' = g" "ti_n t' = pg_n g" "ti_rootSlot t' = ti_pickRoot g ?p" "ti_caps t'"
    using topology_build_spec [OF bg(1) simple _ bg(3) c(2), of ?p] bg(2) ps(2) by auto
  have "reach g (ti_pickRoot g ?p) = {..<length ps}" by (rule tree_reach [OF t bg(2) nb]) (use bg(2,3) in simp_all)
  moreover have "u < length ps" if "slot_in ps p = Some u" for p u using slot_in_some [OF that] by simp
  ultimately have ready: "topo_ready t'"
    using bg(1,3) simple t' bg(2) unfolding topo_ready_def ti_slotOf_def by (simp add: g(4))
  have total: "\<not> (length ps = 0 \<or> LIGHTNET_MAX_PANELS < length ps)" using ps by (simp add: MAXN_def)
  have build: "st_rebuild ps links st = Some (st\<lparr>st_graph := g, st_topo := t'\<rparr>)"
    using total t'(1) g(1) by (simp add: st_rebuild_def Let_def)
  show thesis
    by (rule that [OF build]) (use ready t' bg(2) g nb in \<open>auto simp: ti_slotOf_def fun_eq_iff ti_panelAt_def ti_pickRoot_def st_caps_def cong: option.case_cong\<close>)
qed

section \<open>From discovery to playback\<close>

lemma discovered_tree_shape:
  assumes inv: "tree_inv nxt b" and nxt: "1 < nxt" "nxt \<le> Suc LIGHTNET_MAX_PANELS"
  shows "tree_shape (tb_indices b) (tb_links b)"
proof -
  let ?ps = "tb_indices b" and ?ls = "tb_links b"
  have idx: "map unat ?ps = [1..<nxt]" and lk: "map (unat \<circ> panelB) ?ls = [2..<nxt]"
    and below: "\<And>l. l \<in> set ?ls \<Longrightarrow> 0 < unat (panelA l) \<and> unat (panelA l) < unat (panelB l)"
    using inv by (auto simp: tree_inv_def)
  have len: "length ?ps = nxt - 1" "length ?ls = nxt - 2" using arg_cong [OF idx, of length] arg_cong [OF lk, of length] by simp_all
  have nth: "unat (?ps ! s) = Suc s" if "s < nxt - 1" for s
    using arg_cong [OF idx, of "\<lambda>xs. xs ! s"] that len by simp
  have at: "?ps ! (unat p - 1) = p" "unat p - 1 < length ?ps" if "0 < unat p" "unat p < nxt" for p
    using nth [of "unat p - 1"] that len by (simp_all add: word_eq_unat)
  have dl: "distinct (map panelB ?ls)" using lk by (metis distinct_map distinct_upt map_map)
  have far: "unat (panelB l) < nxt" if "l \<in> set ?ls" for l
  proof -
    have "unat (panelB l) \<in> set (map (unat \<circ> panelB) ?ls)" using that by simp
    then show ?thesis unfolding lk by simp
  qed
  have ends: "link_ends ?ps l (unat (panelA l) - 1) (unat (panelB l) - 1)" if "l \<in> set ?ls" for l
    using below [OF that] far [OF that] at [of "panelA l"] at [of "panelB l"] by (simp add: link_ends_def) linarith
  have "map unat (map panelB ?ls) = map unat (tl ?ps)" using lk idx by (simp add: map_tl upt_rec [of 1] nxt(1) numeral_2_eq_2)
  then have "map panelB ?ls = tl ?ps" by (rule map_injective) (simp add: inj_on_def word_eq_unat)
  moreover have "distinct ?ps" using idx by (metis distinct_map distinct_upt)
  ultimately show ?thesis using ends len nxt dl unfolding tree_shape_def links_ok_def MAXN_def by auto
qed

lemma emit_listed:
  "emitPanelIndices s t maxLen = take maxLen (map (ti_panelAt t) (filter (ps_test s) [0..<ti_n t]))"
proof -
  have "fold (\<lambda>x out. if ps_test s x \<and> length out < m then out @ [f x] else out) xs []
      = take m (map f (filter (ps_test s) xs))" for m xs and f :: "nat \<Rightarrow> u8"
    by (induction xs rule: rev_induct) (auto simp: take_append)
  then show ?thesis by (simp add: emitPanelIndices_def ti_count_def)
qed

text \<open>
  C22. The panels of a layer: the selector programs accepted are exactly the postfix codes of expressions that
  fit the six-entry stack; the panels listed for an accepted program are those its expression denotes (depth
  bands by hop distance, subtrees by descent, fractions and ends by canonical position, set operations of the
  operands), in discovery order and cut at the caller's bound; any other program lists nothing.
\<close>

theorem layer_panels_meaning:
  assumes t: "topo_ready (st_topo st)" and len: "sel_len sel \<le> length (sel_ops sel)"
  shows "\<exists>out. st_resolvePanels sel maxLen st = Some out
    \<and> (\<forall>e. sel_expr_ok e \<and> take (sel_len sel) (sel_ops sel) = sel_code e \<longrightarrow>
         out = take maxLen (map (ti_panelAt (st_topo st)) (filter (\<lambda>x. x \<in> sel_set (st_topo st) e) [0..<ti_n (st_topo st)])))
    \<and> ((\<nexists>e. sel_expr_ok e \<and> take (sel_len sel) (sel_ops sel) = sel_code e) \<longrightarrow> out = [])"
proof -
  let ?t = "st_topo st"
  obtain ok s where r: "resolveSelector sel ?t (ps_clearAll []) = Some (ok, s)"
      "ok \<longleftrightarrow> (\<exists>e. sel_expr_ok e \<and> take (sel_len sel) (sel_ops sel) = sel_code e)"
      "\<And>e. sel_expr_ok e \<and> take (sel_len sel) (sel_ops sel) = sel_code e \<Longrightarrow> {x. x < ti_n ?t \<and> ps_test s x} = sel_set ?t e"
    using selector_meaning [OF t len, of "ps_clearAll []"] by blast
  have "filter (ps_test s) [0..<ti_n ?t] = filter (\<lambda>x. x \<in> sel_set ?t e) [0..<ti_n ?t]"
    if "sel_expr_ok e \<and> take (sel_len sel) (sel_ops sel) = sel_code e" for e
    unfolding r(3) [OF that, symmetric] by (intro filter_cong) auto
  note same = this
  have res: "st_resolvePanels sel maxLen st = Some (if ok then emitPanelIndices s ?t maxLen else [])"
    using r(1) by (simp add: st_resolvePanels_def)
  have "(if ok then emitPanelIndices s ?t maxLen else []) = take maxLen (map (ti_panelAt ?t) (filter (\<lambda>x. x \<in> sel_set ?t e) [0..<ti_n ?t]))"
    if "sel_expr_ok e \<and> take (sel_len sel) (sel_ops sel) = sel_code e" for e
  proof -
    have ok using that r(2) by blast
    then show ?thesis using same [OF that] by (simp add: emit_listed)
  qed
  moreover have "(if ok then emitPanelIndices s ?t maxLen else []) = []"
    if "\<nexists>e. sel_expr_ok e \<and> take (sel_len sel) (sel_ops sel) = sel_code e"
    using that r(2) by (simp only: if_False)
  ultimately show ?thesis by (intro exI [of _ "if ok then emitPanelIndices s ?t maxLen else []"] conjI res) blast+
qed

text \<open>
  C23. Discovery to playback: whatever frames and timeouts the discovery walk went through, the tree it has
  built once a panel answered rebuilds, for any chosen logical root, into a rooted view that is connected, whose
  depths are hop distances and whose order is canonical, with the slots and indices of the discovered panels and
  the neighbours of the discovered links.
\<close>

theorem discovered_tree_ready:
  assumes walk: "walk_reachable n c" and b: "dc_treeBuilder c = Some b" and some: "tb_indices b \<noteq> []"
    and fan: "\<And>p. fan_out (tb_links b) p \<le> 7" and caps: "st_caps st"
  shows "\<exists>st'. st_rebuild (tb_indices b) (tb_links b) st = Some st' \<and> topo_ready (st_topo st')
    \<and> ti_n (st_topo st') = length (tb_indices b) \<and> ti_slotOf (st_topo st') = slot_in (tb_indices b)
    \<and> (\<forall>s < length (tb_indices b). ti_panelAt (st_topo st') s = tb_indices b ! s
         \<and> nbrs (ti_graph (st_topo st')) s = peers (tb_indices b) (tb_links b) s)
    \<and> st_caps st'"
proof -
  obtain b' where inv: "dc_inv c" and "dc_treeBuilder c = Some b'" using reachable_inv [OF walk] by blast
  then have tree: "tree_inv (unat (dc_nextPanelIndex c)) b" and nxt: "unat (dc_nextPanelIndex c) \<le> Suc LIGHTNET_MAX_PANELS"
    using b by (simp_all add: dc_inv_def Let_def)
  have "length (tb_indices b) = unat (dc_nextPanelIndex c) - 1"
    using tree unfolding tree_inv_def by (metis length_map length_upt)
  then have "1 < unat (dc_nextPanelIndex c)" using some by (cases "tb_indices b") auto
  note shape = discovered_tree_shape [OF tree this nxt]
  show ?thesis by (rule rebuild_ready [OF shape fan caps]) blast
qed

section \<open>The field\<close>

definition source_slots :: "TopologyIndex \<Rightarrow> u8 \<Rightarrow> u8 \<Rightarrow> nat set" where
  "source_slots t kind arg =
     (let S = (if kind = SRC_LEAVES then {s. s < ti_n t \<and> ti_isLeaf t s}
               else if kind = SRC_ALL then {..<ti_n t}
               else if kind = SRC_PANEL then {s. ti_slotOf t arg = Some s}
               else {ti_rootSlot t})
      in if S = {} then {ti_rootSlot t} else S)"

lemma source_set_spec:
  assumes t: "topo_ready t"
  shows "{s. s < ti_n t \<and> ps_test (buildSourceSet t kind arg out) s} = source_slots t kind arg"
proof -
  let ?n = "ti_n t" and ?c = "ps_clearAll out" and ?r = "ti_rootSlot t"
  have n: "?n \<le> MAXN" "?r < ?n" and slots: "\<And>p u. ti_slotOf t p = Some u \<Longrightarrow> u < ?n"
    using ready_positions(1) [OF t] t unfolding topo_ready_def by auto
  have c: "ps_ok ?n ?c" "ps_members ?n ?c = {}" using ps_clear_ok [OF n(1)] by simp_all
  define out1 where "out1 = (if kind = SRC_LEAVES then fill_if (ti_isLeaf t) ?n ?c
                 else if kind = SRC_ALL then fill_if (\<lambda>s. True) ?n ?c
                 else if kind = SRC_PANEL then set_index t arg ?c
                 else if ?n \<noteq> 0 then ps_set ?r ?c else ?c)"
  define S where "S = (if kind = SRC_LEAVES then {s. s < ?n \<and> ti_isLeaf t s} else if kind = SRC_ALL then {..<?n}
               else if kind = SRC_PANEL then {s. ti_slotOf t arg = Some s} else {?r})"
  have idx: "ps_ok ?n (set_index t arg ?c) \<and> ps_members ?n (set_index t arg ?c) = {s. ti_slotOf t arg = Some s}"
    using set_indices_ok [OF c(1), of t "[arg]"] slots c(2) by simp
  have rt: "ps_ok ?n (ps_set ?r ?c)" "ps_members ?n (ps_set ?r ?c) = {?r}" using ps_set_ok [OF c(1) n(2)] c(2) by simp_all
  have fl: "ps_ok ?n (fill_if P ?n ?c) \<and> ps_members ?n (fill_if P ?n ?c) = {x. x < ?n \<and> P x}" for P
    using fill_if_ok [OF c(1), of P] c(2) by simp
  have n0: "?n \<noteq> 0" using n(2) by simp
  consider "kind = SRC_LEAVES" | "kind = SRC_ALL" | "kind = SRC_PANEL" | "kind \<notin> {SRC_LEAVES, SRC_ALL, SRC_PANEL}" by blast
  then have one: "ps_ok ?n out1 \<and> ps_members ?n out1 = S"
    using idx rt fl [of "ti_isLeaf t"] fl [of "\<lambda>s. True"] n0 unfolding out1_def S_def
    by cases (simp_all add: src_codes lessThan_def)
  have "buildSourceSet t kind arg out = (if ps_popcount ?n out1 = 0 then ps_set ?r out1 else out1)"
    unfolding buildSourceSet_def out1_def ti_count_def ti_root_def Let_def using n(2) by simp
  moreover have "S \<subseteq> {..<?n}" using one by (auto simp: ps_members_def)
  then have "finite S" by (rule finite_subset) simp
  then have "ps_popcount ?n out1 = 0 \<longleftrightarrow> S = {}" using one by (simp add: ps_popcount_card)
  ultimately have "ps_members ?n (buildSourceSet t kind arg out) = (if S = {} then {?r} else S)"
    using one ps_set_ok [of ?n out1 ?r] n(2) by simp
  then show ?thesis unfolding source_slots_def S_def ps_members_def Let_def .
qed

lemma fold_max: "fold (\<lambda>d m. if m < d then d else m) xs (k :: nat) = Max (insert k (set xs))"
proof -
  have "(\<lambda>d m. if m < d then d else m) = (max :: nat \<Rightarrow> nat \<Rightarrow> nat)" by (auto simp: max_def fun_eq_iff)
  then show ?thesis using Max.set_eq_fold [of k xs] by simp
qed

text \<open>
  The field of a moving runner: every targeted panel gets its number of hops from the nearest source
  (the root, the leaves, all panels or one panel, and the root where that set is empty), a panel that is not
  there or not connected to a source gets 0, the span is the largest of these, and a reversed field counts
  down from the span.
\<close>

theorem distance_field_hops:
  assumes t: "topo_ready t" and raw: "ti_n t \<le> length raw"
  shows "\<exists>ds. computeDistanceField t panels kind arg flip raw
      = Some (Max (insert 0 (set ds)), if flip then map (\<lambda>d. Max (insert 0 (set ds)) - d) ds else ds)
    \<and> length ds = length panels
    \<and> (\<forall>i < length panels. case ti_slotOf t (panels ! i) of
         None \<Rightarrow> ds ! i = 0
       | Some s \<Rightarrow> (\<forall>k. is_distance (nbrs (ti_graph t)) (source_slots t kind arg) s k \<longrightarrow> ds ! i = k)
           \<and> ((\<nexists>k. is_distance (nbrs (ti_graph t)) (source_slots t kind arg) s k) \<longrightarrow> ds ! i = 0))"
proof -
  let ?g = "ti_graph t" and ?S = "source_slots t kind arg"
  have g: "graph_ok ?g" "ti_n t = pg_n ?g" and slots: "\<And>p u. ti_slotOf t p = Some u \<Longrightarrow> u < ti_n t"
    using t unfolding topo_ready_def by auto
  obtain dist where d: "ti_distancesFrom t (buildSourceSet t kind arg []) raw = Some dist"
      "\<And>v k. v < pg_n ?g \<Longrightarrow> is_distance (nbrs ?g) ?S v k \<Longrightarrow> dist ! v = k"
      "\<And>v. v < pg_n ?g \<Longrightarrow> \<nexists>k. v \<in> hop_set (nbrs ?g) ?S k \<Longrightarrow> dist ! v = NO_DIST"
      "\<And>v k. is_distance (nbrs ?g) ?S v k \<Longrightarrow> k < pg_n ?g"
    using distances_spec [OF g(1) refl g(2), of raw "buildSourceSet t kind arg []"] raw source_set_spec [OF t, of kind arg "[]"] g(2) by auto
  have small: "k \<noteq> NO_DIST" if "is_distance (nbrs ?g) ?S v k" for v k
    using d(4) [OF that] g(1) by (simp add: graph_ok_def NO_DIST_def MAXN_def LIGHTNET_MAX_PANELS_def)
  let ?ds = "map (panel_coord t dist) panels"
  have coord: "case ti_slotOf t p of None \<Rightarrow> panel_coord t dist p = 0
       | Some s \<Rightarrow> (\<forall>k. is_distance (nbrs ?g) ?S s k \<longrightarrow> panel_coord t dist p = k)
           \<and> ((\<nexists>k. is_distance (nbrs ?g) ?S s k) \<longrightarrow> panel_coord t dist p = 0)" for p
  proof (cases "ti_slotOf t p")
    case (Some s)
    have s: "s < pg_n ?g" using slots [OF Some] g(2) by simp
    have "panel_coord t dist p = k" if "is_distance (nbrs ?g) ?S s k" for k
      using Some d(2) [OF s that] small [OF that] by (simp add: panel_coord_def)
    moreover have "panel_coord t dist p = 0" if "\<nexists>k. is_distance (nbrs ?g) ?S s k"
      using Some d(3) [OF s] that by (simp add: panel_coord_def hop_is_distance)
    ultimately show ?thesis using Some by simp
  qed (simp add: panel_coord_def)
  show ?thesis
    by (rule exI [of _ ?ds]) (use d(1) coord in \<open>auto simp: computeDistanceField_def Let_def fold_max cong: option.case_cong\<close>)
qed

section \<open>The properties on concrete input\<close>

definition pair_topology :: SceneTopology where
  "pair_topology = \<lparr>st_graph = pair_graph, st_topo = pair_index, st_logicalRoot = 1\<rparr>"

lemma layer_panels_meaning_witness:
  "st_resolvePanels \<lparr>sel_ops = [SEL_ALL, SEL_ROOT, SEL_NOT, SEL_AND, 0], sel_len = 4\<rparr> 32 pair_topology = Some [2]"
proof -
  let ?sel = "\<lparr>sel_ops = [SEL_ALL, SEL_ROOT, SEL_NOT, SEL_AND, 0], sel_len = 4\<rparr>" and ?e = "SAnd SAll (SNot SRoot)"
  have e: "sel_expr_ok ?e \<and> take (sel_len ?sel) (sel_ops ?sel) = sel_code ?e" by (simp add: sel_expr_ok_def SEL_STACK_MAX_def)
  have f: "st_topo pair_topology = pair_index" "ti_n pair_index = 2" "ti_rootSlot pair_index = 0"
    by (simp_all add: pair_index_def pair_topology_def)
  have s: "filter (\<lambda>x. x \<in> sel_set pair_index ?e) [0..<2] = [1]" by (auto simp: f upt_rec)
  have p: "ti_panelAt pair_index 1 = 2" by (simp add: ti_panelAt_def pg_panelAt_def pair_index_def pair_graph_def)
  obtain out where "st_resolvePanels ?sel 32 pair_topology = Some out"
      "\<forall>e. sel_expr_ok e \<and> take (sel_len ?sel) (sel_ops ?sel) = sel_code e \<longrightarrow>
         out = take 32 (map (ti_panelAt pair_index) (filter (\<lambda>x. x \<in> sel_set pair_index e) [0..<2]))"
    using layer_panels_meaning [of pair_topology ?sel 32] pair_ready f by auto
  then show ?thesis using e s p by (metis list.simps(8,9) take_Nil take_Cons_numeral)
qed

definition two_panel_walk :: DiscoveryCoordinator where
  "two_panel_walk = dc_run
     [Walk_Frame (makePacket PACKET_REGISTER_EDGE 0 (Register_Edge \<lparr>reg_panelIndex = 1, reg_edgeIndex = 2, reg_parentEdgeIndex = 0\<rparr>)) 50,
      Walk_Frame (makePacket PACKET_REGISTER_EDGE 0 (Register_Edge \<lparr>reg_panelIndex = 2, reg_edgeIndex = 0, reg_parentEdgeIndex = 1\<rparr>)) 90]
     (snd (dc_begin 0 (dc_init (Some (tb_init 3)))))"

lemma register_frame:
  "dc_onFrameArrived (makePacket PACKET_REGISTER_EDGE target (Register_Edge r)) now c = dc_handleRegisterEdgeReply r now c"
  using get_put_payload [of PACKET_REGISTER_EDGE "Register_Edge r"] by (simp add: dc_onFrameArrived_def del: packetType_code.simps put_payload.simps)

lemma two_panel_tree:
  "dc_treeBuilder two_panel_walk = Some \<lparr>tb_edgeCountPerPanel = 3, tb_indices = [1, 2], tb_edgeCounts = [3, 3],
     tb_links = [\<lparr>panelA = 1, edgeA = 1, panelB = 2, edgeB = 0\<rparr>]\<rparr>"
  by (simp add: two_panel_walk_def register_frame dc_begin_def dc_sendRootPull_def dc_init_def tb_init_def
      dc_handleRegisterEdgeReply_def dc_sendAdvance_def tb_addRoot_def tb_addLink_def tb_recordPanel_def tb_panelCount_def
      tb_linkCount_def tb_reset_def DISCOVERY_REJECTED_INDEX_def LIGHTNET_MAX_PANELS_def Let_def del: makePacket_def)

lemma discovered_tree_ready_witness:
  "\<exists>st'. st_rebuild [1, 2] [\<lparr>panelA = 1, edgeA = 1, panelB = 2, edgeB = 0\<rparr>] \<lparr>st_graph = blank_graph, st_topo = blank_index, st_logicalRoot = 2\<rparr> = Some st'
     \<and> topo_ready (st_topo st') \<and> ti_n (st_topo st') = 2"
proof -
  let ?b = "\<lparr>tb_edgeCountPerPanel = 3, tb_indices = [1, 2], tb_edgeCounts = [3, 3], tb_links = [\<lparr>panelA = 1, edgeA = 1, panelB = 2, edgeB = 0\<rparr>]\<rparr>"
  have walk: "walk_reachable 3 two_panel_walk" unfolding two_panel_walk_def dc_run.simps
    by (intro walk_reachable.stepped walk_reachable.started)
  have fan: "fan_out (tb_links ?b) p \<le> 7" for p by (simp add: fan_out_def)
  have caps: "st_caps \<lparr>st_graph = blank_graph, st_topo = blank_index, st_logicalRoot = 2\<rparr>"
    using pair_graph_facts(5) by (simp add: st_caps_def pg_caps_def blank_graph_def)
  show ?thesis using discovered_tree_ready [OF walk two_panel_tree _ fan caps] by auto
qed

lemma distance_field_hops_witness:
  "\<exists>d. computeDistanceField pair_index [2, 1] SRC_ROOT 0 True [7, 7] = Some (d, [0, 1])"
proof -
  have f: "ti_n pair_index = 2" "ti_graph pair_index = pair_graph" "ti_rootSlot pair_index = 0" by (simp_all add: pair_index_def)
  have s: "source_slots pair_index SRC_ROOT 0 = {0}" by (simp add: source_slots_def src_codes f)
  have sl: "ti_slotOf pair_index 2 = Some 1" "ti_slotOf pair_index 1 = Some 0"
    by (simp_all add: ti_slotOf_def f pg_slotOf_def pair_graph_def NO_SLOT_def)
  obtain ds where d: "computeDistanceField pair_index [2, 1] SRC_ROOT 0 True [7, 7]
      = Some (Max (insert 0 (set ds)), map (\<lambda>d. Max (insert 0 (set ds)) - d) ds)" "length ds = 2"
    and at: "\<forall>i < 2. case ti_slotOf pair_index ([2, 1] ! i) of None \<Rightarrow> ds ! i = 0
       | Some s \<Rightarrow> (\<forall>k. is_distance (nbrs pair_graph) {0} s k \<longrightarrow> ds ! i = k)
           \<and> ((\<nexists>k. is_distance (nbrs pair_graph) {0} s k) \<longrightarrow> ds ! i = 0)"
    using distance_field_hops [OF pair_ready, of "[7, 7]" "[2, 1]" SRC_ROOT 0 True] unfolding f s by auto
  have "ds ! 0 = 1" "ds ! 1 = 0" using at [rule_format, of 0] at [rule_format, of 1] pair_distances sl by simp_all
  have "ds = [1, 0]" using d(2) \<open>ds ! 0 = 1\<close> \<open>ds ! 1 = 0\<close> by (auto simp: length_Suc_conv numeral_2_eq_2)
  then show ?thesis using d(1) by simp
qed

end
