(* ===== verification/Panel_Node.thy ===== *)
theory Panel_Node
  imports
    Animation_Player Panel_Router
begin

text \<open>
  What a panel does with a packet addressed to it: the LED driver (\<open>Panel/RGBController.cpp\<close>,
  \<open>Panel/ClockedLed.cpp\<close>, \<open>Utils/Gamma.hpp\<close>) and the packet handlers of \<open>LightnetPanel\<close>. Everything the
  handlers do outside the panel's own memory is a value: frames clocked out to the LED, packets sent on an edge,
  the reset and the jump to the bootloader.
\<close>

section \<open>The LED\<close>

definition gammaTable :: "u8 list" where
  "gammaTable = [
     0, 0, 0, 0, 0, 0, 0, 0, 0, 0, 0, 0, 0, 0, 0, 1, 1, 1, 1, 1, 1, 1, 1, 1, 1, 2, 2, 2, 2, 2, 2, 2,
     3, 3, 3, 3, 3, 4, 4, 4, 4, 5, 5, 5, 5, 6, 6, 6, 6, 7, 7, 7, 8, 8, 8, 9, 9, 9, 10, 10, 11, 11, 11, 12,
     12, 12, 13, 13, 14, 14, 15, 15, 16, 16, 16, 17, 17, 18, 19, 19, 20, 21, 21, 22, 22, 23, 23, 24, 24, 25, 26, 26, 27, 28, 28, 29,
     30, 31, 31, 32, 33, 33, 34, 35, 36, 36, 37, 38, 39, 39, 40, 41, 42, 43, 44, 44, 45, 46, 47, 48, 49, 50, 50, 51, 52, 53, 54, 55,
     56, 57, 58, 59, 60, 61, 62, 63, 64, 65, 66, 67, 68, 69, 70, 71, 72, 73, 74, 75, 76, 78, 79, 80, 81, 82, 83, 85, 86, 87, 88, 90,
     91, 93, 94, 95, 97, 98, 99, 100, 102, 103, 104, 106, 107, 109, 110, 111, 113, 114, 116, 117, 119, 120, 122, 123, 124, 126, 127, 129, 130, 132, 134, 135,
     137, 139, 140, 142, 143, 145, 147, 148, 150, 151, 153, 155, 156, 158, 160, 161, 163, 165, 166, 168, 170, 172, 173, 175, 177, 179, 181, 182, 184, 186, 188, 190,
     192, 194, 196, 198, 200, 202, 203, 205, 207, 209, 211, 213, 215, 217, 219, 221, 223, 225, 227, 229, 231, 234, 236, 238, 240, 242, 244, 246, 248, 251, 253, 255]"

definition gammaValue :: "u8 \<Rightarrow> u8" where
  "gammaValue v = gammaTable ! unat v"

text \<open>One LED frame on the wire: start frame, header with the brightness field, blue, green, red, end frame.\<close>

definition led_show :: "u8 \<Rightarrow> u8 \<Rightarrow> u8 \<Rightarrow> u8 \<Rightarrow> u8 list" where
  "led_show r g b brightness5bit = [0, 0, 0, 0, 0xE0 OR (brightness5bit AND 0x1F), b, g, r, 0xFF, 0xFF, 0xFF, 0xFF]"

text \<open>The data line at the rising clock edges of one byte.\<close>

definition led_writeByte :: "u8 \<Rightarrow> bool list" where
  "led_writeByte v = map (\<lambda>k. v AND push_bit k 1 \<noteq> 0) (rev [0..<8])"

section \<open>The colour driver\<close>

record RGBController =
  rc_color :: ColorRGB
  rc_globalBrightness :: u8
  rc_on :: bool
  rc_useGamma :: bool
  rc_correction :: ColorRGB
  rc_temperature :: ColorRGB

definition rc_init :: RGBController where
  "rc_init = \<lparr>rc_color = rgb 0 0 0, rc_globalBrightness = 0xFF, rc_on = False, rc_useGamma = True,
     rc_correction = rgb 255 255 255, rc_temperature = rgb 255 255 255\<rparr>"

definition rc_scaleChannel :: "u8 \<Rightarrow> u8 \<Rightarrow> u8" where
  "rc_scaleChannel v scale = ucast (drop_bit 8 ((ucast v :: u16) * (ucast scale + 1)))"

text \<open>The value shown for one channel, and the LED frames an update writes.\<close>

definition rc_channel :: "RGBController \<Rightarrow> (ColorRGB \<Rightarrow> u8) \<Rightarrow> u8" where
  "rc_channel c ch =
     (let v = (if rc_useGamma c then gammaValue (ch (rc_color c)) else ch (rc_color c));
          v = rc_scaleChannel (rc_scaleChannel v (ch (rc_temperature c))) (ch (rc_correction c))
      in rc_scaleChannel v (rc_globalBrightness c))"

definition rc_updateOutputs :: "RGBController \<Rightarrow> u8 list list" where
  "rc_updateOutputs c =
     (if \<not> rc_on c then []
      else [led_show (rc_channel c rgb_r) (rc_channel c rgb_g) (rc_channel c rgb_b) 0x1F])"

definition rc_turnOn :: "RGBController \<Rightarrow> u8 list list \<times> RGBController" where
  "rc_turnOn c = (let c = c\<lparr>rc_on := True\<rparr> in (rc_updateOutputs c, c))"

definition rc_turnOff :: "RGBController \<Rightarrow> u8 list list \<times> RGBController" where
  "rc_turnOff c = ([led_show 0 0 0 0], c\<lparr>rc_on := False\<rparr>)"

definition rc_setColor :: "u8 \<Rightarrow> u8 \<Rightarrow> u8 \<Rightarrow> RGBController \<Rightarrow> u8 list list \<times> RGBController" where
  "rc_setColor r g b c = (let c = c\<lparr>rc_color := rgb r g b\<rparr> in (rc_updateOutputs c, c))"

definition rc_setGlobalBrightness :: "u8 \<Rightarrow> RGBController \<Rightarrow> u8 list list \<times> RGBController" where
  "rc_setGlobalBrightness v c = (let c = c\<lparr>rc_globalBrightness := v\<rparr> in (rc_updateOutputs c, c))"

definition rc_gammaCorrection :: "bool \<Rightarrow> RGBController \<Rightarrow> u8 list list \<times> RGBController" where
  "rc_gammaCorrection u c = (let c = c\<lparr>rc_useGamma := u\<rparr> in (rc_updateOutputs c, c))"

definition rc_setColorCorrection :: "ColorRGB \<Rightarrow> RGBController \<Rightarrow> u8 list list \<times> RGBController" where
  "rc_setColorCorrection t c = (let c = c\<lparr>rc_correction := t\<rparr> in (rc_updateOutputs c, c))"

definition rc_setColorTemperature :: "ColorRGB \<Rightarrow> RGBController \<Rightarrow> u8 list list \<times> RGBController" where
  "rc_setColorTemperature t c = (let c = c\<lparr>rc_temperature := t\<rparr> in (rc_updateOutputs c, c))"

section \<open>The packet handlers\<close>

datatype node_effect = Led "u8 list" | Send_Up u8 "u8 list" | Device_Reset | Enter_Boot u8 u16

record PanelNode =
  pn_driver :: PanelDiscoveryDriver
  pn_player :: AnimationPlayer
  pn_rgb :: RGBController

definition with_rgb :: "(RGBController \<Rightarrow> u8 list list \<times> RGBController) \<Rightarrow> PanelNode \<Rightarrow> node_effect list \<times> PanelNode" where
  "with_rgb f n = (case f (pn_rgb n) of (leds, c) \<Rightarrow> (map Led leds, n\<lparr>pn_rgb := c\<rparr>))"

definition with_player :: "(AnimationPlayer \<Rightarrow> AnimationPlayer) \<Rightarrow> PanelNode \<Rightarrow> node_effect list \<times> PanelNode" where
  "with_player f n = ([], n\<lparr>pn_player := f (pn_player n)\<rparr>)"

definition lp_handleTurnOnOff :: "PacketTurnOnOff \<Rightarrow> PanelNode \<Rightarrow> node_effect list \<times> PanelNode" where
  "lp_handleTurnOnOff p n = with_rgb (if too_on p \<noteq> 0 then rc_turnOn else rc_turnOff) n"

definition lp_handleSetColor :: "PacketSetColor \<Rightarrow> PanelNode \<Rightarrow> node_effect list \<times> PanelNode" where
  "lp_handleSetColor p n = with_player (ap_setColorDirect (sc_color p)) n"

definition lp_handlePanelConfiguration :: "PacketPanelConfiguration \<Rightarrow> PanelNode \<Rightarrow> node_effect list \<times> PanelNode" where
  "lp_handlePanelConfiguration p n =
     (let (o1, n) = with_rgb (rc_gammaCorrection (pc_useGammaCorrection p)) n;
          (o2, n) = with_rgb (rc_setColorTemperature (pc_colorTemperature p)) n;
          (o3, n) = with_rgb (rc_setColorCorrection (pc_colorCorrection p)) n
      in (o1 @ o2 @ o3, n))"

definition lp_handleAnimationPrepare :: "PacketAnimationPrepare \<Rightarrow> PanelNode \<Rightarrow> node_effect list \<times> PanelNode" where
  "lp_handleAnimationPrepare p n = with_player (ap_prepare p) n"

definition lp_handleAnimationStart :: "PacketAnimationStart \<Rightarrow> u32 \<Rightarrow> PanelNode \<Rightarrow> node_effect list \<times> PanelNode" where
  "lp_handleAnimationStart p millis n = with_player (ap_start (as_seq_id p) (as_group_id p) (ucast millis)) n"

definition lp_handleAnimationControl :: "PacketAnimationControl \<Rightarrow> u32 \<Rightarrow> PanelNode \<Rightarrow> node_effect list \<times> PanelNode" where
  "lp_handleAnimationControl p millis n = with_player (ap_control (ac_cmd p) (ac_group_id p) (ucast millis)) n"

definition lp_handleAnimationUpdateParams :: "PacketAnimationUpdateParams \<Rightarrow> u32 \<Rightarrow> PanelNode \<Rightarrow> node_effect list \<times> PanelNode" where
  "lp_handleAnimationUpdateParams p millis n =
     with_player (ap_updateParams (aup_seq_id p) (aup_group_id p) (aup_param_type p) (aup_value p) (aup_transitionMs p) (ucast millis)) n"

definition lp_handleSetPalette :: "PacketSetPalette \<Rightarrow> PanelNode \<Rightarrow> node_effect list \<times> PanelNode" where
  "lp_handleSetPalette p n = with_player (ap_setPalette (sp_stops p) (sp_count p)) n"

definition lp_handleSetBaseColors :: "PacketSetBaseColors \<Rightarrow> PanelNode \<Rightarrow> node_effect list \<times> PanelNode" where
  "lp_handleSetBaseColors p n = with_player (ap_setBaseColors (sbc_colors p)) n"

definition lp_handleSetGlobalBrightness :: "PacketSetGlobalBrightness \<Rightarrow> PanelNode \<Rightarrow> node_effect list \<times> PanelNode" where
  "lp_handleSetGlobalBrightness p n = with_rgb (rc_setGlobalBrightness (sgb_value p)) n"

definition lp_handleFetchState :: "PanelNode \<Rightarrow> node_effect list \<times> PanelNode" where
  "lp_handleFetchState n =
     (let myIndex = pdd_assignedIndex (pn_driver n);
          reply = makePacket PACKET_FETCH_STATE_REPLY myIndex
            (Panel_State \<lparr>ps_panelIndex = myIndex, ps_state = (if rc_on (pn_rgb n) then 1 else 0), ps_color = rc_color (pn_rgb n)\<rparr>)
      in ([Send_Up (pd_parent (pdd_discovery (pn_driver n))) reply], n))"

definition lp_handleEnterBootloader :: "PacketEnterBootloader \<Rightarrow> PanelNode \<Rightarrow> node_effect list \<times> PanelNode" where
  "lp_handleEnterBootloader p n =
     (if eb_token p \<noteq> BOOTLOADER_ENTRY_TOKEN then ([], n)
      else ([Enter_Boot (pd_parent (pdd_discovery (pn_driver n))) (pdd_assignedIndex (pn_driver n))], n))"

text \<open>The switch of \<open>handlePacket\<close> on the header type, and the cast of the frame to the struct of that type.\<close>

definition lp_handlePacket :: "u8 list \<Rightarrow> u32 \<Rightarrow> PanelNode \<Rightarrow> node_effect list \<times> PanelNode" where
  "lp_handlePacket f millis n =
     (case packetType_of (frame_type f) of
        None \<Rightarrow> ([], n)
      | Some t \<Rightarrow>
          (case get_payload t (frame_payload f) of
             Turn_On_Off p \<Rightarrow> lp_handleTurnOnOff p n
           | Set_Color p \<Rightarrow> lp_handleSetColor p n
           | Panel_Configuration p \<Rightarrow> lp_handlePanelConfiguration p n
           | Animation_Prepare p \<Rightarrow> lp_handleAnimationPrepare p n
           | Animation_Start p \<Rightarrow> lp_handleAnimationStart p millis n
           | Animation_Control p \<Rightarrow> lp_handleAnimationControl p millis n
           | Animation_Update_Params p \<Rightarrow> lp_handleAnimationUpdateParams p millis n
           | Set_Palette p \<Rightarrow> lp_handleSetPalette p n
           | Set_Base_Colors p \<Rightarrow> lp_handleSetBaseColors p n
           | Set_Global_Brightness p \<Rightarrow> lp_handleSetGlobalBrightness p n
           | Set_Background p \<Rightarrow> with_player (ap_setBackground (sbg_color p)) n
           | Enter_Bootloader p \<Rightarrow> lp_handleEnterBootloader p n
           | _ \<Rightarrow>
               if t = PACKET_RESET_DEVICE then ([Device_Reset], n)
               else if t = PACKET_FETCH_STATE then lp_handleFetchState n
               else ([], n)))"

text \<open>The end of a turn of the main loop: the player ticks, and a changed colour goes to the LED.\<close>

definition lp_tickPlayer :: "nat \<Rightarrow> u32 \<Rightarrow> PanelNode \<Rightarrow> node_effect list \<times> PanelNode" where
  "lp_tickPlayer w nowMs n =
     (let n = n\<lparr>pn_player := ap_tick w (ucast nowMs) (pn_player n)\<rparr>;
          (dirty, pl) = ap_takeDirty (pn_player n);
          n = n\<lparr>pn_player := pl\<rparr>
      in if dirty
         then (let c = ap_currentColor pl in with_rgb (rc_setColor (rgb_r c) (rgb_g c) (rgb_b c)) n)
         else ([], n))"

lemma handle_made:
  assumes "payload_fits t p"
  shows "packetType_of (frame_type (makePacket t a p)) = Some t" "get_payload t (frame_payload (makePacket t a p)) = p"
  using get_put_payload [OF assms]
  by (simp_all add: makePacket_def frame_type_make packetType_of_code frame_payload_def sizeof_PacketMeta_def)

section \<open>Channel scaling\<close>

lemma scaleChannel_nat: "unat (rc_scaleChannel v s) = unat v * (unat s + 1) div 256"
proof -
  have le: "unat v * (unat s + 1) \<le> 255 * 256" using unat_u8_le [of v] unat_u8_le [of s] by (intro mult_le_mono) auto
  have s1: "unat (ucast s + 1 :: u16) = unat s + 1" using unat_u8_less [of s] by (simp add: unat_word_ariths)
  have "unat ((ucast v :: u16) * (ucast s + 1)) = unat v * (unat s + 1)"
    unfolding unat_word_ariths(2) s1 using le by simp
  then have "unat (drop_bit 8 ((ucast v :: u16) * (ucast s + 1))) = unat v * (unat s + 1) div 256"
    unfolding unat_drop_bit_eq by (simp add: drop_bit_eq_div del: mult_Suc_right)
  moreover have "unat v * (unat s + 1) div 256 < 256" using le by linarith
  ultimately show ?thesis by (simp add: rc_scaleChannel_def unat_ucast_u16_u8)
qed

lemma scaleChannel_laws:
  "rc_scaleChannel v 255 = v" "rc_scaleChannel v s \<le> v" "v \<le> v' \<Longrightarrow> rc_scaleChannel v s \<le> rc_scaleChannel v' s"
proof -
  show "rc_scaleChannel v 255 = v" by (simp add: word_eq_unat scaleChannel_nat)
  have "unat v * (unat s + 1) \<le> unat v * 256" using unat_u8_less [of s] by (intro mult_le_mono) auto
  then have "unat v * (unat s + 1) div 256 \<le> unat v * 256 div 256" by (rule div_le_mono)
  then show "rc_scaleChannel v s \<le> v" unfolding word_le_nat_alt scaleChannel_nat by simp
  show "rc_scaleChannel v s \<le> rc_scaleChannel v' s" if "v \<le> v'"
    using that unfolding word_le_nat_alt scaleChannel_nat by (intro div_le_mono mult_le_mono1)
qed

text \<open>The LED never shows more than the (gamma-corrected) colour, and exactly the colour with neutral settings.\<close>

lemma rc_channel_bounds:
  "rc_channel c ch \<le> (if rc_useGamma c then gammaValue (ch (rc_color c)) else ch (rc_color c))"
  "\<lbrakk>\<not> rc_useGamma c; ch (rc_temperature c) = 255; ch (rc_correction c) = 255; rc_globalBrightness c = 255\<rbrakk> \<Longrightarrow> rc_channel c ch = ch (rc_color c)"
proof -
  show "rc_channel c ch \<le> (if rc_useGamma c then gammaValue (ch (rc_color c)) else ch (rc_color c))"
    unfolding rc_channel_def Let_def using scaleChannel_laws(2) by (meson order_trans)
qed (simp add: rc_channel_def scaleChannel_laws)

section \<open>What the LED shows\<close>

datatype node_event = Hear "u8 list" u32 | Turn u32

fun node_step :: "nat \<Rightarrow> node_event \<Rightarrow> PanelNode \<Rightarrow> node_effect list \<times> PanelNode" where
  "node_step w (Hear f millis) n = lp_handlePacket f millis n"
| "node_step w (Turn nowMs) n = lp_tickPlayer w nowMs n"

fun node_effect_halts :: "node_effect \<Rightarrow> bool" where
  "node_effect_halts Device_Reset = True"
| "node_effect_halts (Enter_Boot e i) = True"
| "node_effect_halts _ = False"

text \<open>A run ends where the device is reset or jumps to the bootloader.\<close>

fun node_run :: "nat \<Rightarrow> node_event list \<Rightarrow> PanelNode \<Rightarrow> node_effect list \<times> PanelNode" where
  "node_run w [] n = ([], n)"
| "node_run w (e # es) n =
     (let (out, n1) = node_step w e n
      in if list_ex node_effect_halts out then (out, n1) else (let (rest, n2) = node_run w es n1 in (out @ rest, n2)))"

fun led_now :: "node_effect list \<Rightarrow> u8 list option \<Rightarrow> u8 list option" where
  "led_now [] shown = shown"
| "led_now (Led f # es) shown = led_now es (Some f)"
| "led_now (_ # es) shown = led_now es shown"

definition rendered :: "RGBController \<Rightarrow> u8 list" where
  "rendered c = led_show (rc_channel c rgb_r) (rc_channel c rgb_g) (rc_channel c rgb_b) 0x1F"

definition led_ok :: "u8 list option \<Rightarrow> RGBController \<Rightarrow> bool" where
  "led_ok shown c \<longleftrightarrow> (if rc_on c then shown = Some (rendered c) else shown = None \<or> shown = Some (led_show 0 0 0 0))"

definition colour_ok :: "PanelNode \<Rightarrow> bool" where
  "colour_ok n \<longleftrightarrow> pl_outputDirty (pn_player n) \<or> rc_color (pn_rgb n) = pl_lastOutput (pn_player n)"

lemma led_now_append: "led_now (xs @ ys) shown = led_now ys (led_now xs shown)"
  by (induction xs shown rule: led_now.induct) simp_all

text \<open>An operation of the colour driver leaves the LED showing its state, and only \<open>setColor\<close> changes the colour.\<close>

definition keeps_led :: "(RGBController \<Rightarrow> u8 list list \<times> RGBController) \<Rightarrow> bool" where
  "keeps_led f \<longleftrightarrow> (\<forall>c shown. led_ok shown c \<longrightarrow> led_ok (led_now (map Led (fst (f c))) shown) (snd (f c)))"

lemmas rc_ops = rc_turnOn_def rc_turnOff_def rc_setColor_def rc_setGlobalBrightness_def rc_gammaCorrection_def
  rc_setColorCorrection_def rc_setColorTemperature_def

lemma rc_ops_keep:
  "keeps_led rc_turnOn" "keeps_led rc_turnOff" "keeps_led (rc_setColor r g b)" "keeps_led (rc_setGlobalBrightness v)"
  "keeps_led (rc_gammaCorrection u)" "keeps_led (rc_setColorCorrection t)" "keeps_led (rc_setColorTemperature t)"
  by (auto simp: keeps_led_def led_ok_def rc_ops Let_def rc_updateOutputs_def rendered_def)

lemma rc_ops_colour:
  "rc_color (snd (rc_turnOn c)) = rc_color c" "rc_color (snd (rc_turnOff c)) = rc_color c"
  "rc_color (snd (rc_setGlobalBrightness v c)) = rc_color c" "rc_color (snd (rc_gammaCorrection u c)) = rc_color c"
  "rc_color (snd (rc_setColorCorrection t c)) = rc_color c" "rc_color (snd (rc_setColorTemperature t c)) = rc_color c"
  by (simp_all add: rc_ops Let_def)

definition node_keeps :: "PanelNode \<Rightarrow> node_effect list \<times> PanelNode \<Rightarrow> bool" where
  "node_keeps n r \<longleftrightarrow>
     (\<forall>shown. led_ok shown (pn_rgb n) \<longrightarrow> led_ok (led_now (fst r) shown) (pn_rgb (snd r))) \<and> (colour_ok n \<longrightarrow> colour_ok (snd r))"

lemma with_rgb_keeps:
  assumes "keeps_led f" and "rc_color (snd (f (pn_rgb n))) = rc_color (pn_rgb n)"
  shows "node_keeps n (with_rgb f n)"
  using assms(1) [unfolded keeps_led_def, rule_format, of _ "pn_rgb n"] assms(2)
  by (cases "f (pn_rgb n)") (simp add: node_keeps_def with_rgb_def colour_ok_def)

definition keeps_output :: "(AnimationPlayer \<Rightarrow> AnimationPlayer) \<Rightarrow> bool" where
  "keeps_output f \<longleftrightarrow> (\<forall>pl. pl_outputDirty (f pl) \<or> (pl_lastOutput (f pl) = pl_lastOutput pl \<and> \<not> pl_outputDirty pl))"

lemma with_player_keeps:
  assumes "keeps_output f"
  shows "node_keeps n (with_player f n)"
  using assms [unfolded keeps_output_def, rule_format, of "pn_player n"] by (auto simp: node_keeps_def with_player_def colour_ok_def)

lemma allocSlot_output: "pl_outputDirty (snd (ap_allocSlot g pl)) = pl_outputDirty pl" "pl_lastOutput (snd (ap_allocSlot g pl)) = pl_lastOutput pl"
  by (auto simp: ap_allocSlot_def split: option.splits)

lemma setOutput_keeps:
  "pl_outputDirty (ap_setOutput c pl) \<or> pl_lastOutput (ap_setOutput c pl) = pl_lastOutput pl \<and> \<not> pl_outputDirty pl"
  by (simp add: ap_setOutput_def)

lemma prepare_output: "keeps_output (ap_prepare p)"
proof (unfold keeps_output_def, rule allI)
  fix pl
  obtain oi pl1 where a: "ap_allocSlot (ap_group_id p) pl = (oi, pl1)" by (cases "ap_allocSlot (ap_group_id p) pl")
  have "pl_outputDirty pl1 = pl_outputDirty pl" "pl_lastOutput pl1 = pl_lastOutput pl"
    using allocSlot_output [of "ap_group_id p" pl] by (simp_all add: a)
  then show "pl_outputDirty (ap_prepare p pl) \<or> pl_lastOutput (ap_prepare p pl) = pl_lastOutput pl \<and> \<not> pl_outputDirty pl"
    by (cases oi) (simp_all add: ap_prepare_def a Let_def)
qed

lemma player_ops_output:
  "keeps_output (ap_prepare p)" "keeps_output (ap_start sq g t)" "keeps_output (ap_control cmd g t)"
  "keeps_output (ap_updateParams sq g ty v tr t)" "keeps_output (ap_setPalette st k)" "keeps_output (ap_setBaseColors cs)"
  "keeps_output (ap_setBackground col)" "keeps_output (ap_setColorDirect col)"
  by (rule prepare_output, simp_all add: keeps_output_def ap_start_def ap_control_def ap_updateParams_def ap_setPalette_def
      ap_setBaseColors_def ap_setBackground_def ap_setColorDirect_def ap_setOutput_def Let_def split: option.split)

text \<open>Every packet, whatever it holds, and every turn of the loop keep the LED in step with the driver.\<close>

lemma node_keeps_same: "list_all (\<lambda>e. \<nexists>f. e = Led f) es \<Longrightarrow> node_keeps n (es, n)"
proof -
  have "led_now es shown = shown" if "list_all (\<lambda>e. \<nexists>f. e = Led f) es" for es shown
    using that by (induction es shown rule: led_now.induct) auto
  then show "list_all (\<lambda>e. \<nexists>f. e = Led f) es \<Longrightarrow> node_keeps n (es, n)" by (simp add: node_keeps_def)
qed

lemma node_keeps_trans:
  assumes "node_keeps n (o1, n1)" and "node_keeps n1 (o2, n2)"
  shows "node_keeps n (o1 @ o2, n2)"
  using assms by (simp add: node_keeps_def led_now_append)

lemma rgb_ops_node:
  "node_keeps n (with_rgb rc_turnOn n)" "node_keeps n (with_rgb rc_turnOff n)" "node_keeps n (with_rgb (rc_setGlobalBrightness v) n)"
  "node_keeps n (with_rgb (rc_gammaCorrection u) n)" "node_keeps n (with_rgb (rc_setColorCorrection t) n)"
  "node_keeps n (with_rgb (rc_setColorTemperature t) n)"
  by (intro with_rgb_keeps rc_ops_keep rc_ops_colour)+

lemma configuration_keeps: "node_keeps n (lp_handlePanelConfiguration p n)"
proof -
  obtain o1 n1 where 1: "with_rgb (rc_gammaCorrection (pc_useGammaCorrection p)) n = (o1, n1)" by fastforce
  obtain o2 n2 where 2: "with_rgb (rc_setColorTemperature (pc_colorTemperature p)) n1 = (o2, n2)" by fastforce
  obtain o3 n3 where 3: "with_rgb (rc_setColorCorrection (pc_colorCorrection p)) n2 = (o3, n3)" by fastforce
  have "node_keeps n (o1 @ o2 @ o3, n3)"
    using rgb_ops_node(4) [of n "pc_useGammaCorrection p"] rgb_ops_node(6) [of n1 "pc_colorTemperature p"]
      rgb_ops_node(5) [of n2 "pc_colorCorrection p"] unfolding 1 2 3 by (metis node_keeps_trans)
  then show ?thesis by (simp add: lp_handlePanelConfiguration_def Let_def 1 2 3)
qed

lemma handle_keeps: "node_keeps n (lp_handlePacket f millis n)"
  by (simp add: lp_handlePacket_def lp_handleTurnOnOff_def lp_handleSetColor_def lp_handleAnimationPrepare_def
      lp_handleAnimationStart_def lp_handleAnimationControl_def lp_handleAnimationUpdateParams_def lp_handleSetPalette_def
      lp_handleSetBaseColors_def lp_handleSetGlobalBrightness_def lp_handleFetchState_def lp_handleEnterBootloader_def
      Let_def configuration_keeps rgb_ops_node with_player_keeps player_ops_output node_keeps_same
      split: option.split payload.split)

lemma tick_output: "keeps_output (ap_tick w t)"
  by (simp add: keeps_output_def ap_tick_def Let_def composite_output)

lemma tickPlayer_keeps:
  "node_keeps n (lp_tickPlayer w t n)"
  "colour_ok n \<Longrightarrow> rc_color (pn_rgb (snd (lp_tickPlayer w t n))) = ap_currentColor (pn_player (snd (lp_tickPlayer w t n)))"
proof -
  define pl where "pl = ap_tick w (ucast t) (pn_player n)"
  have out: "pl_outputDirty pl \<or> pl_lastOutput pl = pl_lastOutput (pn_player n) \<and> \<not> pl_outputDirty (pn_player n)"
    using tick_output by (simp add: keeps_output_def pl_def)
  have step: "lp_tickPlayer w t n =
      (let n1 = n\<lparr>pn_player := pl\<lparr>pl_outputDirty := False\<rparr>\<rparr>; c = pl_lastOutput pl
       in if pl_outputDirty pl then with_rgb (rc_setColor (rgb_r c) (rgb_g c) (rgb_b c)) n1 else ([], n1))"
    by (simp add: lp_tickPlayer_def Let_def ap_takeDirty_def ap_currentColor_def pl_def)
  have keep: "keeps_led (rc_setColor r g b)" for r g b by (rule rc_ops_keep)
  have set: "rc_color (snd (rc_setColor r g b c)) = rgb r g b" for r g b c by (simp add: rc_setColor_def Let_def)
  have led: "led_ok shown (pn_rgb n) \<Longrightarrow> led_ok (led_now (fst (lp_tickPlayer w t n)) shown) (pn_rgb (snd (lp_tickPlayer w t n)))" for shown
    using keep [unfolded keeps_led_def, rule_format]
    by (auto simp: step Let_def with_rgb_def split: prod.split dest: eq_fst_iff [THEN iffD2])
       (metis fst_conv snd_conv)
  show col: "colour_ok n \<Longrightarrow> rc_color (pn_rgb (snd (lp_tickPlayer w t n))) = ap_currentColor (pn_player (snd (lp_tickPlayer w t n)))"
    using out by (auto simp: step Let_def with_rgb_def ap_currentColor_def colour_ok_def rc_setColor_def rgb_def)
  then show "node_keeps n (lp_tickPlayer w t n)"
    using led by (simp add: node_keeps_def colour_ok_def ap_currentColor_def)
qed

lemma node_step_keeps: "node_keeps n (node_step w e n)"
  by (cases e) (simp_all add: handle_keeps tickPlayer_keeps)

lemma node_run_keeps: "node_keeps n (node_run w es n)"
proof (induction es arbitrary: n)
  case (Cons e es)
  obtain out n1 where s: "node_step w e n = (out, n1)" by (cases "node_step w e n")
  obtain rest n2 where r: "node_run w es n1 = (rest, n2)" by (cases "node_run w es n1")
  show ?case using node_step_keeps [of n w e] Cons.IH [of n1] node_keeps_trans [of n out n1 rest n2] by (simp add: s r)
qed (simp add: node_keeps_same)

lemma node_run_snoc:
  "node_run w (es @ [e]) n =
     (let (out, n1) = node_run w es n
      in if list_ex node_effect_halts out then (out, n1) else (let (o2, n2) = node_step w e n1 in (out @ o2, n2)))"
  by (induction es arbitrary: n) (auto simp: Let_def split: prod.splits)

text \<open>
  C24. A panel that starts as constructed (LED off, black), then handles any packets in any order and ticks its
  player, and has not been reset, shows after a tick what its state says: the driver holds the colour the player
  computed, and when the panel is on the last LED frame written is that colour rendered with the current gamma,
  temperature, correction and brightness, and when it is off the LED has been written black or never written.
\<close>

theorem panel_led_shows_player:
  assumes "pn_rgb n = rc_init" and "pn_player n = ap_init slots palette"
    and "node_run w (es @ [Turn t]) n = (out, n')" and "\<not> list_ex node_effect_halts out"
  shows "rc_color (pn_rgb n') = ap_currentColor (pn_player n') \<and>
    (if rc_on (pn_rgb n') then led_now out None = Some (rendered (pn_rgb n'))
     else led_now out None = None \<or> led_now out None = Some (led_show 0 0 0 0))"
proof -
  obtain o1 n1 where r: "node_run w es n = (o1, n1)" by (cases "node_run w es n")
  have start: "colour_ok n" "led_ok None (pn_rgb n)"
    using assms(1,2) by (simp_all add: colour_ok_def led_ok_def rc_init_def ap_init_def)
  have "\<not> list_ex node_effect_halts o1" using assms(3,4) by (auto simp: node_run_snoc r Let_def split: if_splits prod.splits)
  then have last: "n' = snd (lp_tickPlayer w t n1)" using assms(3) by (auto simp: node_run_snoc r Let_def split: prod.splits)
  have "colour_ok n1" using node_run_keeps [of n w es] start by (simp add: node_keeps_def r)
  then have "rc_color (pn_rgb n') = ap_currentColor (pn_player n')" using tickPlayer_keeps(2) by (simp add: last)
  moreover have "led_ok (led_now out None) (pn_rgb n')"
    using node_run_keeps [of n w "es @ [Turn t]"] start by (simp add: node_keeps_def assms(3))
  ultimately show ?thesis by (simp add: led_ok_def)
qed

lemma tick_effects:
  "\<not> list_ex node_effect_halts (fst (lp_tickPlayer w t n))" "rc_on (pn_rgb (snd (lp_tickPlayer w t n))) = rc_on (pn_rgb n)"
  by (simp_all add: lp_tickPlayer_def with_rgb_def rc_setColor_def rc_updateOutputs_def Let_def split: prod.split)

definition fresh_node :: PanelNode where
  "fresh_node =
     \<lparr>pn_driver = pdd_init (pd_init 3),
      pn_player = fresh_player, pn_rgb = rc_init\<rparr>"

definition turn_on_red :: "node_event list" where
  "turn_on_red =
     [Hear (makePacket PACKET_TURN_ON_OFF 3 (Turn_On_Off \<lparr>too_on = 1\<rparr>)) 5,
      Hear (makePacket PACKET_SET_COLOR 3 (Set_Color \<lparr>sc_color = rgb 255 0 0\<rparr>)) 7]"

lemma handle_turn_on_red:
  "lp_handlePacket (makePacket PACKET_TURN_ON_OFF a (Turn_On_Off q)) t n = lp_handleTurnOnOff q n"
  "lp_handlePacket (makePacket PACKET_SET_COLOR a (Set_Color c)) t n = lp_handleSetColor c n"
  using handle_made [of PACKET_TURN_ON_OFF "Turn_On_Off q" a] handle_made [of PACKET_SET_COLOR "Set_Color c" a]
  by (simp_all add: lp_handlePacket_def del: packetType_code.simps put_payload.simps)

lemma turn_on_red_run:
  "\<not> list_ex node_effect_halts (fst (node_run 32 (turn_on_red @ [Turn 100]) fresh_node))"
  "rc_on (pn_rgb (snd (node_run 32 (turn_on_red @ [Turn 100]) fresh_node)))"
proof -
  define n1 where "n1 = snd (lp_handleTurnOnOff \<lparr>too_on = 1\<rparr> fresh_node)"
  define n2 where "n2 = snd (lp_handleSetColor \<lparr>sc_color = rgb 255 0 0\<rparr> n1)"
  obtain o3 n3 where 3: "lp_tickPlayer 32 100 n2 = (o3, n3)" by (cases "lp_tickPlayer 32 100 n2")
  obtain o1 where 1: "lp_handleTurnOnOff \<lparr>too_on = 1\<rparr> fresh_node = (o1, n1)" "\<not> list_ex node_effect_halts o1" "rc_on (pn_rgb n1)"
    by (simp add: n1_def lp_handleTurnOnOff_def with_rgb_def rc_turnOn_def Let_def rc_updateOutputs_def)
  have 2: "lp_handleSetColor \<lparr>sc_color = rgb 255 0 0\<rparr> n1 = ([], n2)" "rc_on (pn_rgb n2)"
    using 1(3) by (simp_all add: n2_def lp_handleSetColor_def with_player_def)
  have "node_run 32 (turn_on_red @ [Turn 100]) fresh_node = (o1 @ o3, n3)"
    using 1(2) tick_effects(1) [of 32 100 n2] by (simp add: turn_on_red_def handle_turn_on_red 1(1) 2(1) 3)
  then show "\<not> list_ex node_effect_halts (fst (node_run 32 (turn_on_red @ [Turn 100]) fresh_node))"
    "rc_on (pn_rgb (snd (node_run 32 (turn_on_red @ [Turn 100]) fresh_node)))"
    using 1(2) 2(2) tick_effects [of 32 100 n2] by (simp_all add: 3)
qed

lemma panel_led_shows_player_witness:
  "let r = node_run 32 (turn_on_red @ [Turn 100]) fresh_node
   in rc_color (pn_rgb (snd r)) = ap_currentColor (pn_player (snd r)) \<and> led_now (fst r) None = Some (rendered (pn_rgb (snd r)))"
proof -
  obtain out n' where r: "node_run 32 (turn_on_red @ [Turn 100]) fresh_node = (out, n')" by fastforce
  have "pn_rgb fresh_node = rc_init" "pn_player fresh_node = ap_init (replicate 12 raw_slot) (replicate 16 (hd white_stops))"
    by (simp_all add: fresh_node_def fresh_player_def)
  then show ?thesis using panel_led_shows_player [OF _ _ r] turn_on_red_run by (simp add: r)
qed

end
