(* ===== verification/Animation_Scheduler.thy ===== *)
theory Animation_Scheduler
  imports
    Panel_Node
begin

text \<open>
  The controller's side of an animation (\<open>Core/Controller/AnimationScheduler.cpp\<close>) and the addressing done by
  the relay sink (\<open>Controller/Relay/ControllerRelayPacketSink.cpp\<close>, \<open>send\<close>). The sink is an interface of the
  code: what the scheduler asks of it is a list of calls. The section on the panels' side runs the packet
  handlers on what a panel hears of these calls.
\<close>

section \<open>The calls on the sink\<close>

datatype sink_call = Sink_Send u8 "u8 list" bool | Sink_Pace u16 | Sink_PaceForHop nat

record AnimationScheduler =
  sch_nextSeqId :: u8

definition sch_init :: AnimationScheduler where
  "sch_init = \<lparr>sch_nextSeqId = 1\<rparr>"

definition sch_sendPrepareToPanel ::
  "u8 \<Rightarrow> u8 \<Rightarrow> u8 \<Rightarrow> u8 \<Rightarrow> u16 \<Rightarrow> ColorRef \<Rightarrow> ColorRef \<Rightarrow> u8 \<Rightarrow> u8 \<Rightarrow> u8 \<Rightarrow> u8 \<Rightarrow> u16 \<Rightarrow> u8 \<Rightarrow> sink_call list" where
  "sch_sendPrepareToPanel panelAddress group_id animType flags durationMs colorFrom colorTo param1 param2
       composeMode composeOrder startDelayMs animates =
     (let prepare = makePacket PACKET_ANIMATION_PREPARE 0 (Animation_Prepare
            \<lparr>ap_animType = animType, ap_group_id = group_id, ap_flags = flags, ap_transitionMs = 0, ap_durationMs = durationMs,
             ap_colorFrom = colorFrom, ap_colorTo = colorTo, ap_param1 = param1, ap_param2 = param2,
             ap_composeMode = composeMode, ap_composeOrder = composeOrder, ap_startDelayMs = startDelayMs,
             ap_animates = animates\<rparr>)
      in [Sink_Send panelAddress prepare False, Sink_PaceForHop (length prepare)])"

definition START_FLOOD_SEND_COUNT :: nat where "START_FLOOD_SEND_COUNT = 3"

definition bump_seq :: "AnimationScheduler \<Rightarrow> AnimationScheduler" where
  "bump_seq s =
     (let s = s\<lparr>sch_nextSeqId := sch_nextSeqId s + 1\<rparr> in if sch_nextSeqId s = 0 then s\<lparr>sch_nextSeqId := 1\<rparr> else s)"

definition sch_sendGroupStart :: "u8 \<Rightarrow> AnimationScheduler \<Rightarrow> sink_call list \<times> AnimationScheduler" where
  "sch_sendGroupStart group_id s =
     (let startPkt = makePacket PACKET_ANIMATION_START 0 (Animation_Start \<lparr>as_seq_id = sch_nextSeqId s, as_group_id = group_id\<rparr>)
      in (concat (replicate START_FLOOD_SEND_COUNT [Sink_Send 0 startPkt False, Sink_Pace 200]), bump_seq s))"

definition sch_playOnPanels ::
  "u8 \<Rightarrow> u8 \<Rightarrow> u8 \<Rightarrow> u16 \<Rightarrow> ColorRef \<Rightarrow> ColorRef \<Rightarrow> u8 \<Rightarrow> u8 \<Rightarrow> u8 list \<Rightarrow> u8 \<Rightarrow> u8 \<Rightarrow> u8 \<Rightarrow> AnimationScheduler \<Rightarrow>
     sink_call list \<times> AnimationScheduler" where
  "sch_playOnPanels group_id animType flags durationMs colorFrom colorTo param1 param2 panelAddresses
       composeMode composeOrder animates s =
     (let prepares = concat (map (\<lambda>p. sch_sendPrepareToPanel p group_id animType flags durationMs colorFrom colorTo
            param1 param2 composeMode composeOrder 0 animates) panelAddresses);
          (starts, s) = sch_sendGroupStart group_id s
      in (prepares @ Sink_Pace 300 # starts, s))"

definition sch_playOnPanels_rgb ::
  "u8 \<Rightarrow> u8 \<Rightarrow> u8 \<Rightarrow> u16 \<Rightarrow> ColorRGB \<Rightarrow> ColorRGB \<Rightarrow> u8 \<Rightarrow> u8 \<Rightarrow> u8 list \<Rightarrow> u8 \<Rightarrow> u8 \<Rightarrow> u8 \<Rightarrow> AnimationScheduler \<Rightarrow>
     sink_call list \<times> AnimationScheduler" where
  "sch_playOnPanels_rgb group_id animType flags durationMs colorFrom colorTo =
     sch_playOnPanels group_id animType flags durationMs
       (ColorRef_rgb (rgb_r colorFrom) (rgb_g colorFrom) (rgb_b colorFrom))
       (ColorRef_rgb (rgb_r colorTo) (rgb_g colorTo) (rgb_b colorTo))"

definition sch_broadcastBlack :: "sink_call list" where
  "sch_broadcastBlack = [Sink_Send 0 (makePacket PACKET_SET_COLOR 0 (Set_Color \<lparr>sc_color = rgb 0 0 0\<rparr>)) False]"

definition sch_broadcastStop :: "sink_call list" where
  "sch_broadcastStop =
     [Sink_Send 0 (makePacket PACKET_ANIMATION_CONTROL 0 (Animation_Control \<lparr>ac_cmd = ANIM_CTRL_STOP, ac_group_id = 0\<rparr>)) False]"

definition sch_clearAllPanelQueues :: "sink_call list" where
  "sch_clearAllPanelQueues =
     [Sink_Send 0 (makePacket PACKET_ANIMATION_CONTROL 0 (Animation_Control \<lparr>ac_cmd = ANIM_CTRL_CLEAR_QUEUE, ac_group_id = 0\<rparr>)) False]"

definition sch_sendGeneralCallUpdateParams :: "u8 \<Rightarrow> u8 \<Rightarrow> u8 \<Rightarrow> AnimationScheduler \<Rightarrow> sink_call list \<times> AnimationScheduler" where
  "sch_sendGeneralCallUpdateParams group_id param_type v s =
     ([Sink_Send 0 (makePacket PACKET_ANIMATION_UPDATE_PARAMS 0 (Animation_Update_Params
         \<lparr>aup_seq_id = sch_nextSeqId s, aup_group_id = group_id, aup_param_type = param_type, aup_value = v, aup_transitionMs = 10\<rparr>)) False],
      bump_seq s)"

definition sch_triggerGroup :: "u8 \<Rightarrow> u8 \<Rightarrow> AnimationScheduler \<Rightarrow> sink_call list \<times> AnimationScheduler" where
  "sch_triggerGroup group_id v = sch_sendGeneralCallUpdateParams group_id PARAM_TRIGGER v"

text \<open>A unicast to every panel of a list, paced one hop each: the loop shared by four operations.\<close>

definition unicast :: "u8 list \<Rightarrow> u8 list \<Rightarrow> sink_call list" where
  "unicast f panelAddresses = concat (map (\<lambda>p. [Sink_Send p f False, Sink_PaceForHop (length f)]) panelAddresses)"

definition sch_sendControlToPanels :: "u8 \<Rightarrow> u8 \<Rightarrow> u8 list \<Rightarrow> sink_call list" where
  "sch_sendControlToPanels group_id cmd panelAddresses =
     unicast (makePacket PACKET_ANIMATION_CONTROL 0 (Animation_Control \<lparr>ac_cmd = cmd, ac_group_id = group_id\<rparr>)) panelAddresses"

definition sch_makeSetPalettePacket :: "GradientStop list \<Rightarrow> nat \<Rightarrow> PacketSetPalette" where
  "sch_makeSetPalettePacket stops cnt =
     (let cnt = (if PALETTE_STOPS < cnt then PALETTE_STOPS else cnt)
      in \<lparr>sp_count = of_nat cnt, sp_stops = take cnt stops @ replicate (PALETTE_STOPS - cnt) \<lparr>gs_pos = 0, gs_r = 0, gs_g = 0, gs_b = 0\<rparr>\<rparr>)"

definition sch_broadcastPalette :: "GradientStop list \<Rightarrow> nat \<Rightarrow> sink_call list" where
  "sch_broadcastPalette stops cnt =
     (if cnt = 0 then [] else [Sink_Send 0 (makePacket PACKET_SET_PALETTE 0 (Set_Palette (sch_makeSetPalettePacket stops cnt))) False])"

definition sch_unicastPaletteToPanels :: "GradientStop list \<Rightarrow> nat \<Rightarrow> u8 list \<Rightarrow> sink_call list" where
  "sch_unicastPaletteToPanels stops cnt panelAddresses =
     (if cnt = 0 then [] else unicast (makePacket PACKET_SET_PALETTE 0 (Set_Palette (sch_makeSetPalettePacket stops cnt))) panelAddresses)"

definition sch_turnOnPanels :: "u8 list \<Rightarrow> sink_call list" where
  "sch_turnOnPanels panelAddresses = unicast (makePacket PACKET_TURN_ON_OFF 0 (Turn_On_Off \<lparr>too_on = 1\<rparr>)) panelAddresses"

definition sch_broadcastBaseColors :: "ColorRGB list \<Rightarrow> sink_call list" where
  "sch_broadcastBaseColors colors =
     [Sink_Send 0 (makePacket PACKET_SET_BASE_COLORS 0 (Set_Base_Colors \<lparr>sbc_colors = take BASE_COLORS_COUNT colors\<rparr>)) False]"

definition sch_broadcastGlobalBrightness :: "u8 \<Rightarrow> sink_call list" where
  "sch_broadcastGlobalBrightness v =
     [Sink_Send 0 (makePacket PACKET_SET_GLOBAL_BRIGHTNESS 0 (Set_Global_Brightness \<lparr>sgb_value = v\<rparr>)) False]"

definition sch_broadcastBackground :: "ColorRGB \<Rightarrow> sink_call list" where
  "sch_broadcastBackground color = [Sink_Send 0 (makePacket PACKET_SET_BACKGROUND 0 (Set_Background \<lparr>sbg_color = color\<rparr>)) False]"

section \<open>What a panel hears\<close>

text \<open>The sink restamps the metadata of every packet with the address, and a panel acts on its own and on broadcasts.\<close>

definition sink_restamp :: "u8 \<Rightarrow> u8 list \<Rightarrow> u8 list" where
  "sink_restamp address f =
     (case packetType_of (frame_type f) of None \<Rightarrow> f | Some t \<Rightarrow> makeMeta t (ucast address) @ drop sizeof_PacketMeta f)"

fun heard :: "u8 \<Rightarrow> sink_call list \<Rightarrow> u8 list list" where
  "heard p [] = []"
| "heard p (Sink_Send a f ack # cs) = (if a = p \<or> a = 0 then sink_restamp a f # heard p cs else heard p cs)"
| "heard p (c # cs) = heard p cs"

fun node_hears :: "(u8 list \<times> u32) list \<Rightarrow> PanelNode \<Rightarrow> PanelNode" where
  "node_hears [] n = n"
| "node_hears ((f, millis) # fs) n = node_hears fs (snd (lp_handlePacket f millis n))"

lemma restamp_made: "payload_fits t p \<Longrightarrow> sink_restamp a (makePacket t 0 p) = makePacket t (ucast a) p"
  by (simp add: sink_restamp_def makePacket_def frame_type_make packetType_of_code sizeof_PacketMeta_def)

lemma heard_append: "heard p (cs @ ds) = heard p cs @ heard p ds"
  by (induction p cs rule: heard.induct) simp_all

lemma handle_prepare:
  "lp_handlePacket (makePacket PACKET_ANIMATION_PREPARE a (Animation_Prepare q)) t n = with_player (ap_prepare q) n"
  using handle_made [of PACKET_ANIMATION_PREPARE "Animation_Prepare q" a]
  by (simp add: lp_handlePacket_def lp_handleAnimationPrepare_def del: packetType_code.simps put_payload.simps)

lemma handle_start:
  "lp_handlePacket (makePacket PACKET_ANIMATION_START a (Animation_Start q)) t n =
     with_player (ap_start (as_seq_id q) (as_group_id q) (ucast t)) n"
  using handle_made [of PACKET_ANIMATION_START "Animation_Start q" a]
  by (simp add: lp_handlePacket_def lp_handleAnimationStart_def del: packetType_code.simps put_payload.simps)

definition prepare_payload :: "u8 \<Rightarrow> u8 \<Rightarrow> u8 \<Rightarrow> u16 \<Rightarrow> ColorRef \<Rightarrow> ColorRef \<Rightarrow> u8 \<Rightarrow> u8 \<Rightarrow> u8 \<Rightarrow> u8 \<Rightarrow> u8 \<Rightarrow> PacketAnimationPrepare" where
  "prepare_payload gid ty fl dur cf ct p1 p2 cm co an =
     \<lparr>ap_animType = ty, ap_group_id = gid, ap_flags = fl, ap_transitionMs = 0, ap_durationMs = dur, ap_colorFrom = cf, ap_colorTo = ct,
      ap_param1 = p1, ap_param2 = p2, ap_composeMode = cm, ap_composeOrder = co, ap_startDelayMs = 0, ap_animates = an\<rparr>"

lemma heard_prepares:
  assumes "distinct panels" and "0 \<notin> set panels"
  shows "heard p (concat (map (\<lambda>p. sch_sendPrepareToPanel p gid ty fl dur cf ct p1 p2 cm co 0 an) panels)) =
    (if p \<in> set panels then [makePacket PACKET_ANIMATION_PREPARE (ucast p) (Animation_Prepare (prepare_payload gid ty fl dur cf ct p1 p2 cm co an))] else [])"
  using assms
proof (induction panels)
  case (Cons a panels)
  have "heard p (sch_sendPrepareToPanel a gid ty fl dur cf ct p1 p2 cm co 0 an) =
      (if a = p then [makePacket PACKET_ANIMATION_PREPARE (ucast a) (Animation_Prepare (prepare_payload gid ty fl dur cf ct p1 p2 cm co an))] else [])"
    using Cons.prems restamp_made [of PACKET_ANIMATION_PREPARE "Animation_Prepare (prepare_payload gid ty fl dur cf ct p1 p2 cm co an)" a]
    by (auto simp: sch_sendPrepareToPanel_def prepare_payload_def Let_def)
  then show ?case using Cons by (auto simp: heard_append)
qed simp

lemma heard_play:
  assumes "distinct panels" and "0 \<notin> set panels"
  shows "heard p (fst (sch_playOnPanels gid ty fl dur cf ct p1 p2 panels cm co an s)) =
    (if p \<in> set panels then [makePacket PACKET_ANIMATION_PREPARE (ucast p) (Animation_Prepare (prepare_payload gid ty fl dur cf ct p1 p2 cm co an))] else [])
    @ replicate START_FLOOD_SEND_COUNT (makePacket PACKET_ANIMATION_START 0 (Animation_Start \<lparr>as_seq_id = sch_nextSeqId s, as_group_id = gid\<rparr>))"
  using restamp_made [of PACKET_ANIMATION_START "Animation_Start \<lparr>as_seq_id = sch_nextSeqId s, as_group_id = gid\<rparr>" 0]
  by (simp add: sch_playOnPanels_def sch_sendGroupStart_def Let_def heard_append heard_prepares [OF assms] START_FLOOD_SEND_COUNT_def numeral_3_eq_3)

text \<open>Copies of one START after the first change nothing but the clock of the player.\<close>

lemma hear_starts_again:
  assumes "pl_lastStartSeqId (pn_player n) = seq"
  shows "list_all (\<lambda>f. fst f = makePacket PACKET_ANIMATION_START 0 (Animation_Start \<lparr>as_seq_id = seq, as_group_id = gid\<rparr>)) fs \<Longrightarrow>
    \<exists>now. pn_player (node_hears fs n) = (pn_player n)\<lparr>pl_nowMs := now\<rparr>"
  using assms
proof (induction fs arbitrary: n)
  case Nil
  show ?case by (intro exI [of _ "pl_nowMs (pn_player n)"]) simp
next
  case (Cons f fs)
  obtain t where f: "f = (makePacket PACKET_ANIMATION_START 0 (Animation_Start \<lparr>as_seq_id = seq, as_group_id = gid\<rparr>), t)"
    using Cons.prems(1) by (cases f) auto
  let ?n = "n\<lparr>pn_player := (pn_player n)\<lparr>pl_nowMs := ucast t\<rparr>\<rparr>"
  have "snd (lp_handlePacket (fst f) t n) = ?n"
    unfolding f fst_conv handle_start with_player_def using Cons.prems(2) by (simp add: ap_start_def Let_def)
  moreover obtain now where "pn_player (node_hears fs ?n) = (pn_player ?n)\<lparr>pl_nowMs := now\<rparr>" using Cons.IH [of ?n] Cons.prems by auto
  ultimately show ?case by (auto simp: f)
qed

lemma bump_seq_moves: "sch_nextSeqId s \<noteq> 0 \<Longrightarrow> sch_nextSeqId (bump_seq s) \<noteq> 0 \<and> sch_nextSeqId (bump_seq s) \<noteq> sch_nextSeqId s"
  by (auto simp: bump_seq_def Let_def)

lemma node_hears_append: "node_hears (fs @ gs) n = node_hears gs (node_hears fs n)"
  by (induction fs n rule: node_hears.induct) simp_all

text \<open>
  C25. Playing an animation on a list of panels: the packets the scheduler emits, restamped by the sink and read
  by the packet handlers, make every listed panel with room for the group start exactly the described step, once,
  at the time of the first START copy it hears, even if up to two of the three copies are lost, and leave the
  slots of every panel that is not listed and has nothing prepared for the group as they were. The next group
  start carries another sequence id, never 0.
\<close>

theorem play_runs_once:
  assumes panels: "distinct panels" "0 \<notin> set panels"
    and calls: "sch_playOnPanels gid ty fl dur cf ct p1 p2 panels cm co an s = (calls, s')"
    and seq: "sch_nextSeqId s \<noteq> 0" and ok: "pl_ok (pn_player n)" and fresh: "sch_nextSeqId s \<noteq> pl_lastStartSeqId (pn_player n)"
    and lost: "lost \<le> 2" and hear: "map fst fs = take (length (heard p calls) - lost) (heard p calls)"
  shows "let pl = pn_player n; pl' = pn_player (node_hears fs n); pkt = prepare_payload gid ty fl dur cf ct p1 p2 cm co an in
    (p \<in> set panels \<and> \<not> ((\<forall>sl \<in> set (pl_slots pl). sl_occupied sl) \<and> ap_findSlot gid pl = None) \<longrightarrow>
       (\<exists>i sl. i < length (pl_slots pl) \<and> pl_slots pl' = (pl_slots pl)[i := sl] \<and> running sl \<and> sl_groupId sl = gid
          \<and> sl_cur sl = started_state pkt (ucast (snd (fs ! 1))) (pl_lastOutput pl)))
    \<and> (p \<notin> set panels \<and> (\<forall>i. ap_findSlot gid pl = Some i \<longrightarrow> \<not> sl_hasPending (pl_slots pl ! i)) \<longrightarrow> pl_slots pl' = pl_slots pl)
    \<and> sch_nextSeqId s' \<noteq> 0 \<and> sch_nextSeqId s' \<noteq> sch_nextSeqId s"
proof -
  let ?pkt = "prepare_payload gid ty fl dur cf ct p1 p2 cm co an"
  let ?P = "makePacket PACKET_ANIMATION_PREPARE (ucast p) (Animation_Prepare ?pkt)"
  let ?S = "makePacket PACKET_ANIMATION_START 0 (Animation_Start \<lparr>as_seq_id = sch_nextSeqId s, as_group_id = gid\<rparr>)"
  let ?pl = "pn_player n" and ?seq = "sch_nextSeqId s"
  have h: "heard p calls = (if p \<in> set panels then [?P] else []) @ replicate 3 ?S"
    using heard_play [OF panels, of p gid ty fl dur cf ct p1 p2 cm co an s] calls by (simp add: START_FLOOD_SEND_COUNT_def)
  have moved: "sch_nextSeqId s' \<noteq> 0 \<and> sch_nextSeqId s' \<noteq> ?seq"
    using bump_seq_moves [OF seq] calls by (auto simp: sch_playOnPanels_def sch_sendGroupStart_def Let_def)
  have start: "pn_player (node_hears ((?S, t) # gs) m) = (ap_start ?seq gid (ucast t) (pn_player m))\<lparr>pl_nowMs := now\<rparr>"
    if "pn_player (node_hears gs (m\<lparr>pn_player := ap_start ?seq gid (ucast t) (pn_player m)\<rparr>)) = (ap_start ?seq gid (ucast t) (pn_player m))\<lparr>pl_nowMs := now\<rparr>" for t gs m now
    using that unfolding node_hears.simps handle_start with_player_def by simp
  have again: "\<exists>now. pn_player (node_hears ((?S, t) # gs) m) = (ap_start ?seq gid (ucast t) (pn_player m))\<lparr>pl_nowMs := now\<rparr>"
    if "map fst gs = replicate j ?S" for t gs m j
  proof -
    have "list_all (\<lambda>f. fst f = ?S) gs" using arg_cong [OF that, of set] by (force simp: list_all_iff)
    moreover have "pl_lastStartSeqId (ap_start ?seq gid (ucast t) (pn_player m)) = ?seq"
      by (auto simp: ap_start_def Let_def split: option.splits)
    ultimately show ?thesis using hear_starts_again [of "m\<lparr>pn_player := ap_start ?seq gid (ucast t) (pn_player m)\<rparr>" ?seq gid gs] start
      by auto
  qed
  obtain j where j: "3 - lost = Suc j" using lost by (cases "3 - lost") auto
  then have four: "4 - lost = Suc (Suc j)" "min 3 (Suc j) = Suc j" using lost by auto
  show ?thesis
  proof (cases "p \<in> set panels")
    case True
    then have "map fst fs = [?P] @ replicate (Suc j) ?S" using hear four by (simp add: h take_replicate)
    then obtain t0 t1 gs where fs: "fs = (?P, t0) # (?S, t1) # gs" "map fst gs = replicate j ?S"
      by (auto simp: map_eq_Cons_conv)
    let ?m = "n\<lparr>pn_player := ap_prepare ?pkt ?pl\<rparr>"
    have "node_hears fs n = node_hears ((?S, t1) # gs) ?m" unfolding fs(1) node_hears.simps(2) [of ?P] handle_prepare with_player_def by simp
    then obtain now where pl': "pn_player (node_hears fs n) = (ap_start ?seq gid (ucast t1) (ap_prepare ?pkt ?pl))\<lparr>pl_nowMs := now\<rparr>"
      using again [OF fs(2), of t1 ?m] by auto
    have g: "ap_group_id ?pkt = gid" by (simp add: prepare_payload_def)
    show ?thesis using prepare_start_effect [OF ok fresh, of ?pkt "ucast t1"] True moved pl' fs(1)
      unfolding Let_def g by (auto split: if_splits)
  next
    case False
    then have "map fst fs = replicate (Suc j) ?S" using hear j four by (simp add: h take_replicate)
    then obtain t1 gs where fs: "fs = (?S, t1) # gs" "map fst gs = replicate j ?S" by (auto simp: map_eq_Cons_conv)
    obtain now where pl': "pn_player (node_hears fs n) = (ap_start ?seq gid (ucast t1) ?pl)\<lparr>pl_nowMs := now\<rparr>"
      using again [OF fs(2), of t1 n] fs(1) by auto
    have "pl_slots (ap_start ?seq gid (ucast t1) ?pl) = pl_slots ?pl" if "\<forall>i. ap_findSlot gid ?pl = Some i \<longrightarrow> \<not> sl_hasPending (pl_slots ?pl ! i)"
      using that by (auto simp: ap_start_def ap_findSlot_def Let_def split: option.splits)
    then show ?thesis using False moved pl' by (auto simp: Let_def)
  qed
qed

lemma play_runs_once_witness:
  "let calls = fst (sch_playOnPanels 5 ANIM_FADE 0 1000 (ColorRef_rgb 0 0 0) (ColorRef_rgb 200 100 50) 0 0 [3, 7] 1 0 0 sch_init);
       pl' = pn_player (node_hears (map (\<lambda>f. (f, 100)) (take 3 (heard 3 calls))) fresh_node)
   in \<exists>i sl. pl_slots pl' = (pl_slots fresh_player)[i := sl] \<and> running sl \<and> sl_groupId sl = 5"
proof -
  obtain calls s' where c: "sch_playOnPanels 5 ANIM_FADE 0 1000 (ColorRef_rgb 0 0 0) (ColorRef_rgb 200 100 50) 0 0 [3, 7] 1 0 0 sch_init = (calls, s')"
    by fastforce
  have len: "length (heard 3 calls) = 4"
    using heard_play [of "[3, 7]" 3 5 ANIM_FADE 0 1000 "ColorRef_rgb 0 0 0" "ColorRef_rgb 200 100 50" 0 0 1 0 0 sch_init] c
    by (simp add: START_FLOOD_SEND_COUNT_def)
  have player: "pn_player fresh_node = fresh_player" by (simp add: fresh_node_def)
  have "\<not> (\<forall>sl \<in> set (pl_slots fresh_player). sl_occupied sl)"
    by (simp add: fresh_player_def ap_init_def clearSlot_def clear_flags_def)
  moreover have "sch_nextSeqId sch_init \<noteq> pl_lastStartSeqId fresh_player" by (simp add: sch_init_def fresh_player_def ap_init_def)
  moreover have "map fst (map (\<lambda>f. (f, 100 :: u32)) (take 3 (heard 3 calls))) = take (length (heard 3 calls) - 1) (heard 3 calls)"
    by (simp add: len comp_def)
  ultimately show ?thesis
    using play_runs_once [OF _ _ c, of fresh_node 1 "map (\<lambda>f. (f, 100)) (take 3 (heard 3 calls))" 3] pl_ok_fresh
    unfolding player c Let_def by (auto simp: sch_init_def)
qed

end
