(* ===== verification/Runner_Spawn.thy ===== *)
theory Runner_Spawn
  imports
    Panel_Selector
begin

text \<open>
  The pure helpers of the particle spawners (\<open>Core/Controller/RunnerSpawn.hpp\<close>): the random generator, the
  spawn-rate accumulator, the sweep schedule, the pool of group ids, the path from the root to a leaf, and the
  timing of one drop on one panel. A reference argument of the source is returned beside the result.
\<close>

section \<open>Random numbers\<close>

definition spawnRandNext :: "u32 \<Rightarrow> u32" where
  "spawnRandNext state =
     (let x = (if state \<noteq> 0 then state else 0x9E3779B9);
          x = x XOR push_bit 13 x;
          x = x XOR drop_bit 17 x
      in x XOR push_bit 5 x)"

definition spawnRandBelow :: "u32 \<Rightarrow> u32 \<Rightarrow> u32 \<times> u32" where
  "spawnRandBelow state n = (if n \<noteq> 0 then (spawnRandNext state mod n, spawnRandNext state) else (0, state))"

section \<open>Spawn rate\<close>

fun due_loop :: "nat \<Rightarrow> u32 \<Rightarrow> u32 \<Rightarrow> nat \<times> u32" where
  "due_loop 0 intervalMs accumMs = (0, accumMs)"
| "due_loop (Suc k) intervalMs accumMs =
     (if intervalMs \<le> accumMs then (case due_loop k intervalMs (accumMs - intervalMs) of (c, a) \<Rightarrow> (Suc c, a)) else (0, accumMs))"

definition spawnInterval :: "u8 \<Rightarrow> u32" where
  "spawnInterval wavesPerSec = (let i = 1000 div ucast wavesPerSec in if i = 0 then 1 else i)"

definition spawnDueCount :: "u32 \<Rightarrow> u32 \<Rightarrow> u8 \<Rightarrow> u8 \<Rightarrow> u8 \<times> u32" where
  "spawnDueCount accumMs dtMs wavesPerSec maxBurst =
     (if wavesPerSec = 0 then (0, accumMs)
      else
        (let intervalMs = spawnInterval wavesPerSec;
             (c, a) = due_loop (unat maxBurst) intervalMs (accumMs + dtMs)
         in (of_nat c, if intervalMs < a then intervalMs else a)))"

section \<open>Sweep schedule and group pool\<close>

definition sweepSpawnCount :: "u8 \<Rightarrow> u8" where
  "sweepSpawnCount countParam = (if countParam = 0 then 1 else if 30 < countParam then 30 else countParam)"

definition spawnSweepStartMs :: "u16 \<Rightarrow> u8 \<Rightarrow> u8 \<Rightarrow> u32" where
  "spawnSweepStartMs durationMs cnt spawnIndex =
     (let cnt = sweepSpawnCount cnt
      in if cnt \<le> spawnIndex then ucast durationMs else ucast durationMs * ucast spawnIndex div ucast cnt)"

definition spawnPoolNext :: "u16 \<Rightarrow> u8 \<Rightarrow> u8 \<Rightarrow> u8 \<times> u16" where
  "spawnPoolNext cursor base poolSize =
     (if poolSize = 0 then (base, cursor) else (base + ucast (cursor mod ucast poolSize), cursor + 1))"

section \<open>Path from the root to a leaf\<close>

text \<open>The loop fills the buffer from the leaf upwards; the third argument is the room left.\<close>

fun path_up :: "nat list \<Rightarrow> nat \<Rightarrow> nat \<Rightarrow> nat \<Rightarrow> nat list option" where
  "path_up parent root 0 n = None"
| "path_up parent root (Suc room) n =
     (if n = root then Some [n]
      else (let p = parent ! n in if p = n \<or> p = 0xFF then None else map_option (Cons n) (path_up parent root room p)))"

definition spawnBuildPath :: "nat list \<Rightarrow> nat \<Rightarrow> nat \<Rightarrow> nat \<Rightarrow> nat list" where
  "spawnBuildPath parent leaf root maxLen = (case path_up parent root maxLen leaf of None \<Rightarrow> [] | Some ns \<Rightarrow> rev ns)"

section \<open>Drop timing\<close>

record DropPulse =
  dp_startDelayMs :: u16
  dp_durationMs :: u16
  dp_risePct :: u8
  dp_fallPct :: u8

definition sparkleFlash :: "u16 \<Rightarrow> DropPulse" where
  "sparkleFlash fadeMs =
     \<lparr>dp_startDelayMs = 0, dp_durationMs = (if fadeMs = 0 then 1 else fadeMs), dp_risePct = 0, dp_fallPct = 255\<rparr>"

definition rainDropAt :: "u16 \<Rightarrow> u8 \<Rightarrow> u8 \<Rightarrow> u8 \<Rightarrow> DropPulse" where
  "rainDropAt fallMs widthRings pos pathLen =
     (let span = (if 1 < pathLen then pathLen - 1 else 1);
          ringTime = ucast fallMs div ucast span :: u32;
          ringTime = (if ringTime = 0 then 1 else ringTime);
          rings = (if widthRings \<noteq> 0 then ucast widthRings else 1);
          dur = rings * ringTime;
          sd = ucast pos * ringTime;
          dur = (if 65535 < dur then 65535 else dur);
          sd = (if 65535 < sd then 65535 else sd)
      in \<lparr>dp_startDelayMs = ucast sd, dp_durationMs = ucast dur, dp_risePct = 0, dp_fallPct = 255\<rparr>)"

section \<open>The generator never sticks\<close>

text \<open>Adding a shifted copy of a word to itself can be undone, so no step maps a non-zero state to zero.\<close>

lemma xor_zero: "x XOR y = 0 \<Longrightarrow> x = y" for x y :: "'a::len word"
  by (metis xor.assoc xor.left_neutral xor.right_neutral xor_self_eq)

lemma xor_shift_zero:
  fixes x :: u32
  shows "x XOR push_bit k x = 0 \<Longrightarrow> 0 < k \<Longrightarrow> x = 0" "x XOR drop_bit k x = 0 \<Longrightarrow> 0 < k \<Longrightarrow> x = 0"
proof -
  assume z: "x XOR push_bit k x = 0" and k: "0 < k"
  from z have "x = push_bit k x" by (rule xor_zero)
  have "\<not> bit x n" if "n < 32" for n
    using that
  proof (induction n rule: less_induct)
    case (less n)
    have "bit x n = bit (push_bit k x) n" using \<open>x = push_bit k x\<close> by simp
    then show ?case using less k by (auto simp: bit_push_bit_iff possible_bit_def)
  qed
  then show "x = 0" by (intro bit_word_eqI) simp
next
  assume z: "x XOR drop_bit k x = 0" and k: "0 < k"
  from z have e: "x = drop_bit k x" by (rule xor_zero)
  have "\<not> bit x n" for n
  proof (induction "32 - n" arbitrary: n rule: less_induct)
    case less
    show ?case
    proof (cases "n < 32")
      case True
      have "bit x n = bit x (k + n)" using e by (metis bit_drop_bit_eq comp_apply)
      then show ?thesis using less [of "k + n"] True k by simp
    qed (use bit_imp_le_length in force)
  qed
  then show "x = 0" by (intro bit_word_eqI) simp
qed

lemma spawnRandNext_nonzero: "spawnRandNext state \<noteq> 0"
proof
  define x0 :: u32 where "x0 = (if state \<noteq> 0 then state else 0x9E3779B9)"
  define x1 where "x1 = x0 XOR push_bit 13 x0"
  define x2 where "x2 = x1 XOR drop_bit 17 x1"
  assume "spawnRandNext state = 0"
  then have "x2 XOR push_bit 5 x2 = 0" by (simp only: spawnRandNext_def Let_def x0_def x1_def x2_def)
  then have "x2 = 0" by (rule xor_shift_zero) simp
  then have "x1 = 0" unfolding x2_def by (rule xor_shift_zero) simp
  then have "x0 = 0" unfolding x1_def by (rule xor_shift_zero) simp
  then show False by (simp add: x0_def split: if_splits)
qed

lemma spawnRandBelow_less: "n \<noteq> 0 \<Longrightarrow> fst (spawnRandBelow state n) < n"
  by (simp add: spawnRandBelow_def word_mod_less_divisor word_greater_zero_iff)

section \<open>The rate is exact\<close>

lemma due_loop_spec:
  assumes "0 < unat i" and "due_loop k i a = (c, a')"
  shows "unat a = c * unat i + unat a' \<and> c \<le> k \<and> (c < k \<longrightarrow> a' < i)"
  using assms(2)
proof (induction k arbitrary: a c a')
  case (Suc k)
  show ?case
  proof (cases "i \<le> a")
    case True
    obtain c1 where r: "due_loop k i (a - i) = (c1, a')" and c: "c = Suc c1"
      using Suc.prems True by (auto split: prod.splits)
    have "unat (a - i) = unat a - unat i" using True by (rule unat_sub)
    moreover have "unat i \<le> unat a" using True by (simp add: word_le_nat_alt)
    ultimately show ?thesis using Suc.IH [OF r] c by auto
  next
    case False
    then have "c = 0" "a' = a" "a < i" using Suc.prems by auto
    then show ?thesis by simp
  qed
qed auto

lemma spawnInterval_pos: "0 < unat (spawnInterval w)" "w \<noteq> 0 \<Longrightarrow> unat (spawnInterval w) \<le> 1000"
proof -
  show "0 < unat (spawnInterval w)" by (simp add: spawnInterval_def Let_def unat_gt_0)
  assume "w \<noteq> 0"
  have "unat (1000 div ucast w :: u32) \<le> 1000" by (simp add: unat_div)
  then show "unat (spawnInterval w) \<le> 1000" by (simp add: spawnInterval_def Let_def)
qed

text \<open>The services of one window: elapsed times in, numbers of drops out.\<close>

fun spawn_run :: "u8 \<Rightarrow> u8 \<Rightarrow> u32 list \<Rightarrow> u32 \<Rightarrow> nat \<times> u32" where
  "spawn_run waves burst [] a = (0, a)"
| "spawn_run waves burst (dt # dts) a =
     (let (c, a1) = spawnDueCount a dt waves burst; (n, a2) = spawn_run waves burst dts a1 in (unat c + n, a2))"

lemma due_count_spec:
  assumes w: "waves \<noteq> 0" and a: "unat a \<le> unat (spawnInterval waves)" and d: "spawnDueCount a dt waves burst = (c, a')"
  shows "unat a' \<le> unat (spawnInterval waves) \<and> unat c * unat (spawnInterval waves) + unat a' \<le> unat a + unat dt"
    and "0 < burst \<Longrightarrow> a < spawnInterval waves \<Longrightarrow> unat dt \<le> (unat burst - 1) * unat (spawnInterval waves) \<Longrightarrow>
      a' < spawnInterval waves \<and> unat c * unat (spawnInterval waves) + unat a' = unat a + unat dt"
proof -
  let ?i = "spawnInterval waves"
  obtain n b where l: "due_loop (unat burst) ?i (a + dt) = (n, b)" by (cases "due_loop (unat burst) ?i (a + dt)")
  note s = due_loop_spec [OF spawnInterval_pos(1) l]
  have n: "n < 256" using s unat_u8_less [of burst] by linarith
  have c: "unat c = n" and a': "a' = (if ?i < b then ?i else b)"
    using d w l n by (auto simp: spawnDueCount_def Let_def unat_of_nat)
  have b: "unat a' \<le> unat b" "unat a' \<le> unat ?i" using a' by (auto simp: word_less_nat_alt)
  have sum: "unat (a + dt) \<le> unat a + unat dt" by (simp add: unat_word_ariths)
  show "unat a' \<le> unat ?i \<and> unat c * unat ?i + unat a' \<le> unat a + unat dt" using b s sum unfolding c by linarith
  assume burst: "0 < burst" and less: "a < ?i" and dt: "unat dt \<le> (unat burst - 1) * unat ?i"
  have pos: "0 < unat burst" using burst by (simp add: unat_gt_0 word_greater_zero_iff)
  have lt: "unat a < unat ?i" using less by (simp add: word_less_nat_alt)
  have total: "unat a + unat dt < unat burst * unat ?i"
    using dt lt pos by (cases "unat burst") auto
  also have "\<dots> \<le> 255 * 1000" using spawnInterval_pos(2) [OF w] unat_u8_le [of burst] by (intro mult_le_mono) auto
  finally have ad: "unat (a + dt) = unat a + unat dt" by (simp add: unat_word_ariths)
  have "n < unat burst"
  proof (rule ccontr)
    assume "\<not> n < unat burst"
    then have "unat burst * unat ?i \<le> n * unat ?i" by (intro mult_le_mono1) simp
    then show False using s ad total by linarith
  qed
  then have "b < ?i" using s by simp
  then have "a' = b" using a' by (simp add: word_less_nat_alt)
  then show "a' < ?i \<and> unat c * unat ?i + unat a' = unat a + unat dt" using s ad c \<open>b < ?i\<close> by simp
qed

lemma spawn_run_upper:
  assumes "waves \<noteq> 0" and "unat a \<le> unat (spawnInterval waves)" and "spawn_run waves burst dts a = (n, a')"
  shows "n * unat (spawnInterval waves) + unat a' \<le> unat a + sum_list (map unat dts)"
  using assms(2,3)
proof (induction dts arbitrary: a n)
  case (Cons dt dts)
  obtain c a1 where d: "spawnDueCount a dt waves burst = (c, a1)" by (cases "spawnDueCount a dt waves burst")
  obtain m where r: "spawn_run waves burst dts a1 = (m, a')" and n: "n = unat c + m"
    using Cons.prems(2) by (auto simp: d Let_def split: prod.splits)
  note s = due_count_spec(1) [OF assms(1) Cons.prems(1) d]
  show ?case using Cons.IH [OF _ r] s by (simp add: n add_mult_distrib)
qed simp

text \<open>
  C27. The spawners keep the authored rate however the services are spaced: with \<open>waves\<close> drops a second the number
  of drops of a window never exceeds the whole spawn intervals in the elapsed time, and equals them when no pause
  between two services is longer than the burst allows (seven intervals for the burst of eight used by the player).
\<close>

theorem spawn_rate_exact:
  assumes "waves \<noteq> 0" and "0 < burst" and "spawn_run waves burst dts 0 = (n, a')"
  shows "n \<le> sum_list (map unat dts) div unat (spawnInterval waves)
    \<and> ((\<forall>dt \<in> set dts. unat dt \<le> (unat burst - 1) * unat (spawnInterval waves)) \<longrightarrow>
        n = sum_list (map unat dts) div unat (spawnInterval waves))"
proof -
  let ?i = "unat (spawnInterval waves)"
  have i: "0 < ?i" by (rule spawnInterval_pos)
  have "n * ?i + unat a' \<le> sum_list (map unat dts)" using spawn_run_upper [OF assms(1) _ assms(3)] by simp
  then have upper: "n \<le> sum_list (map unat dts) div ?i"
    using i by (metis add_leD1 div_le_mono nonzero_mult_div_cancel_right less_not_refl)
  have exact: "n * ?i + unat a' = unat a + sum_list (map unat dts) \<and> unat a' < ?i"
    if "\<forall>dt \<in> set dts. unat dt \<le> (unat burst - 1) * ?i" "unat a < ?i" "spawn_run waves burst dts a = (n, a')" for dts a n
    using that
  proof (induction dts arbitrary: a n)
    case (Cons dt dts)
    obtain c a1 where d: "spawnDueCount a dt waves burst = (c, a1)" by (cases "spawnDueCount a dt waves burst")
    obtain m where r: "spawn_run waves burst dts a1 = (m, a')" and n: "n = unat c + m"
      using Cons.prems(3) by (auto simp: d Let_def split: prod.splits)
    have "a1 < spawnInterval waves \<and> unat c * ?i + unat a1 = unat a + unat dt"
      using due_count_spec(2) [OF assms(1) _ d assms(2)] Cons.prems by (simp add: word_less_nat_alt)
    then show ?case using Cons.IH [of a1 m] Cons.prems(1) r n by (simp add: word_less_nat_alt add_mult_distrib)
  qed simp
  show ?thesis
  proof (intro conjI impI)
    assume short: "\<forall>dt \<in> set dts. unat dt \<le> (unat burst - 1) * ?i"
    have "n * ?i + unat a' = sum_list (map unat dts)" "unat a' < ?i" using exact [OF short _ assms(3)] i by auto
    then show "n = sum_list (map unat dts) div ?i" by (metis div_mult_self3 div_less add_0_right less_not_refl i)
  qed (rule upper)
qed

lemma spawn_rate_exact_witness:
  "fst (spawn_run 20 8 [100, 30, 16, 200] 0) = 346 div 50"
proof -
  obtain n a where r: "spawn_run 20 8 [100, 30, 16, 200] 0 = (n, a)" by fastforce
  have "unat (spawnInterval 20) = 50" by (simp add: spawnInterval_def)
  then show ?thesis using spawn_rate_exact [OF _ _ r] unfolding r by simp
qed

section \<open>Drops fall along a branch of the tree\<close>

lemma ready_parent:
  assumes t: "topo_ready t" and v: "v < ti_n t"
  shows "ti_depthOf t v < ti_n t"
    and "v \<noteq> ti_rootSlot t \<Longrightarrow> ti_parentOf t v < ti_n t \<and> ti_parentOf t v \<noteq> v \<and> ti_parentOf t v \<noteq> 0xFF
      \<and> ti_depthOf t v = Suc (ti_depthOf t (ti_parentOf t v)) \<and> v \<in> set (nbrs (ti_graph t) (ti_parentOf t v))"
proof -
  let ?g = "ti_graph t" and ?r = "ti_rootSlot t"
  have g: "ti_n t = pg_n ?g" "rooted_at ?g ?r t" "reach ?g ?r = {..<ti_n t}" "pg_n ?g \<le> MAXN"
    using t by (simp_all add: topo_ready_def graph_ok_def)
  have r: "\<exists>k. v \<in> hop_set (nbrs ?g) {?r} k" using g(3) v by (auto simp: reach_def)
  then show "ti_depthOf t v < ti_n t" using g v by (auto simp: hop_is_distance rooted_at_def ti_depthOf_def)
  assume "v \<noteq> ?r"
  then have p: "ti_parent t ! v < pg_n ?g" "v \<in> set (nbrs ?g (ti_parent t ! v))" "ti_depth t ! v = Suc (ti_depth t ! (ti_parent t ! v))"
    using g(1,2) v r unfolding rooted_at_def by auto
  have "ti_parent t ! v \<noteq> 0xFF" using p(1) g(4) by (simp add: MAXN_def LIGHTNET_MAX_PANELS_def)
  then show "ti_parentOf t v < ti_n t \<and> ti_parentOf t v \<noteq> v \<and> ti_parentOf t v \<noteq> 0xFF
      \<and> ti_depthOf t v = Suc (ti_depthOf t (ti_parentOf t v)) \<and> v \<in> set (nbrs ?g (ti_parentOf t v))"
    using p g(1) by (auto simp: ti_parentOf_def ti_depthOf_def)
qed

lemma path_up_ready:
  assumes t: "topo_ready t" and v: "v < ti_n t" and room: "ti_depthOf t v < room"
  shows "\<exists>ns. path_up (map (ti_parentOf t) [0..<ti_n t]) (ti_rootSlot t) room v = Some ns \<and> length ns \<le> Suc (ti_depthOf t v)
    \<and> ns \<noteq> [] \<and> hd ns = v \<and> last ns = ti_rootSlot t \<and> set ns \<subseteq> {..<ti_n t}
    \<and> (\<forall>i. Suc i < length ns \<longrightarrow> ns ! Suc i = ti_parentOf t (ns ! i))"
  using v room
proof (induction room arbitrary: v)
  case (Suc room)
  show ?case
  proof (cases "v = ti_rootSlot t")
    case False
    note p = ready_parent(2) [OF t Suc.prems(1) False]
    obtain ns where ns: "path_up (map (ti_parentOf t) [0..<ti_n t]) (ti_rootSlot t) room (ti_parentOf t v) = Some ns"
        "length ns \<le> Suc (ti_depthOf t (ti_parentOf t v))" "ns \<noteq> []" "hd ns = ti_parentOf t v" "last ns = ti_rootSlot t"
        "set ns \<subseteq> {..<ti_n t}" "\<forall>i. Suc i < length ns \<longrightarrow> ns ! Suc i = ti_parentOf t (ns ! i)"
      using Suc.IH [of "ti_parentOf t v"] p Suc.prems by auto
    have "(v # ns) ! Suc i = ti_parentOf t ((v # ns) ! i)" if "Suc i < length (v # ns)" for i
      using that ns(3,4,7) by (cases i) (auto simp: hd_conv_nth)
    then show ?thesis using ns p False Suc.prems(1) by (intro exI [of _ "v # ns"]) (auto simp: Let_def)
  qed (use Suc.prems in auto)
qed simp

text \<open>The path of a drop: from the root to the leaf, one tree edge at a time; the buffer is always large enough.\<close>

lemma drop_path:
  assumes t: "topo_ready t" and v: "v < ti_n t"
  defines "path \<equiv> spawnBuildPath (map (ti_parentOf t) [0..<ti_n t]) v (ti_rootSlot t) MAXN"
  shows "path \<noteq> []" "hd path = ti_rootSlot t" "last path = v" "set path \<subseteq> {..<ti_n t}" "length path \<le> MAXN"
    and "Suc i < length path \<Longrightarrow> path ! i = ti_parentOf t (path ! Suc i)"
proof -
  have "ti_n t \<le> MAXN" by (rule ready_positions [OF t])
  then have room: "ti_depthOf t v < MAXN" using ready_parent(1) [OF t v] by simp
  obtain ns where ns: "path_up (map (ti_parentOf t) [0..<ti_n t]) (ti_rootSlot t) MAXN v = Some ns"
      "length ns \<le> Suc (ti_depthOf t v)" "ns \<noteq> []" "hd ns = v" "last ns = ti_rootSlot t" "set ns \<subseteq> {..<ti_n t}"
      "\<forall>i. Suc i < length ns \<longrightarrow> ns ! Suc i = ti_parentOf t (ns ! i)"
    using path_up_ready [OF t v room] by blast
  have p: "path = rev ns" by (simp add: path_def spawnBuildPath_def ns(1))
  show "path \<noteq> []" "hd path = ti_rootSlot t" "last path = v" "set path \<subseteq> {..<ti_n t}" "length path \<le> MAXN"
    using ns room by (simp_all add: p hd_rev last_rev)
  assume i: "Suc i < length path"
  then have "ns ! Suc (length ns - Suc (Suc i)) = ti_parentOf t (ns ! (length ns - Suc (Suc i)))" using ns(7) by (simp add: p)
  then show "path ! i = ti_parentOf t (path ! Suc i)" using i by (simp add: p rev_nth Suc_diff_Suc)
qed

section \<open>Group ids of a pool\<close>

text \<open>Until the 16-bit cursor wraps, any \<open>poolSize\<close> consecutive drops carry distinct ids of the pool.\<close>

fun pool_ids :: "nat \<Rightarrow> u16 \<Rightarrow> u8 \<Rightarrow> u8 \<Rightarrow> u8 list" where
  "pool_ids 0 cursor base poolSize = []"
| "pool_ids (Suc k) cursor base poolSize = (let (g, cursor) = spawnPoolNext cursor base poolSize in g # pool_ids k cursor base poolSize)"

lemma pool_id_in:
  assumes "poolSize \<noteq> 0" and "unat base + unat poolSize \<le> 256"
  shows "unat (fst (spawnPoolNext cursor base poolSize)) = unat base + unat cursor mod unat poolSize"
proof -
  have "unat cursor mod unat poolSize < unat poolSize" using assms(1) by (simp add: unat_gt_0)
  moreover have "unat (cursor mod ucast poolSize) = unat cursor mod unat poolSize" by (simp add: unat_mod)
  ultimately show ?thesis
    using assms unat_u8_less [of poolSize] by (simp add: spawnPoolNext_def unat_word_ariths(1) unat_ucast_u16_u8)
qed

lemma pool_ids_values:
  assumes "poolSize \<noteq> 0" and "unat base + unat poolSize \<le> 256"
  shows "unat cursor + k \<le> 65536 \<Longrightarrow>
    map unat (pool_ids k cursor base poolSize) = map (\<lambda>j. unat base + j mod unat poolSize) [unat cursor..<unat cursor + k]"
proof (induction k arbitrary: cursor)
  case (Suc k)
  have tail: "map unat (pool_ids k (cursor + 1) base poolSize) = map (\<lambda>j. unat base + j mod unat poolSize) [Suc (unat cursor)..<Suc (unat cursor) + k]"
  proof (cases "k = 0")
    case False
    then have "unat (cursor + 1) = Suc (unat cursor)" using Suc.prems by (intro unat_add_one_u16) simp
    then show ?thesis using Suc.IH [of "cursor + 1"] Suc.prems by simp
  qed simp
  obtain g where e: "spawnPoolNext cursor base poolSize = (g, cursor + 1)" using assms(1) by (simp add: spawnPoolNext_def)
  then have "map unat (pool_ids (Suc k) cursor base poolSize) = unat g # map unat (pool_ids k (cursor + 1) base poolSize)" by simp
  also have "\<dots> = map (\<lambda>j. unat base + j mod unat poolSize) (unat cursor # [Suc (unat cursor)..<Suc (unat cursor) + k])"
    using pool_id_in [OF assms, of cursor] unfolding tail e by simp
  also have "unat cursor # [Suc (unat cursor)..<Suc (unat cursor) + k] = [unat cursor..<unat cursor + Suc k]"
    by (simp add: upt_rec [of "unat cursor"] del: upt_Suc)
  finally show ?case .
qed simp

lemma pool_ids_distinct:
  assumes "poolSize \<noteq> 0" and "unat base + unat poolSize \<le> 256" and "unat cursor + unat poolSize \<le> 65536"
  shows "distinct (pool_ids (unat poolSize) cursor base poolSize)"
proof -
  let ?m = "unat poolSize" and ?c = "unat cursor"
  have "inj_on (\<lambda>j. unat base + j mod ?m) {?c..<?c + ?m}"
  proof (rule inj_onI)
    fix a b
    assume ab: "a \<in> {?c..<?c + ?m}" "b \<in> {?c..<?c + ?m}" "unat base + a mod ?m = unat base + b mod ?m"
    have eq: "a = b" if "a mod ?m = b mod ?m" "a \<le> b" "b < a + ?m" for a b
    proof -
      have "?m dvd b - a" using that(1,2) by (metis mod_eq_dvd_iff_nat)
      then show ?thesis using that by (auto dest: dvd_imp_le)
    qed
    from eq [of a b] eq [of b a] show "a = b" using ab by (cases "a \<le> b") auto
  qed
  then have "distinct (map unat (pool_ids ?m cursor base poolSize))"
    unfolding pool_ids_values [OF assms(1,2,3)] by (simp add: distinct_map)
  then show ?thesis by (simp add: distinct_map)
qed

end
