(* ===== verification/Binary32.thy ===== *)
theory Binary32
  imports Complex_Main "HOL-Library.Log_Nat"
begin

text \<open>
  Binary32 arithmetic for the controller's runner code. A \<open>float\<close> is the real number it stands for, and every
  operation of the source rounds its exact result to the nearest representable number, ties to even, gradual
  underflow included. The values of this code stay far from the overflow threshold and no operation produces a NaN
  (every divisor is guarded), so infinities and NaNs have no counterpart here.
\<close>

section \<open>Rounding\<close>

definition round_even :: "real \<Rightarrow> int" where
  "round_even r =
     (let f = \<lfloor>r\<rfloor>; d = r - of_int f
      in if d < 1 / 2 then f else if d > 1 / 2 then f + 1 else if even f then f else f + 1)"

text \<open>A number in units of the smallest subnormal \<open>2 ^ -149\<close>: at most 24 digits are kept.\<close>

definition fl_shift :: "real \<Rightarrow> nat" where
  "fl_shift m = floorlog 2 (nat \<lfloor>m\<rfloor>) - 24"

definition fl_units :: "real \<Rightarrow> real" where
  "fl_units m = of_int (round_even (m / 2 ^ fl_shift m)) * 2 ^ fl_shift m"

definition fl :: "real \<Rightarrow> real" where
  "fl x = (if x < 0 then - (fl_units (- x * 2 ^ 149) / 2 ^ 149) else fl_units (x * 2 ^ 149) / 2 ^ 149)"

text \<open>Conversion of a \<open>float\<close> to an integer type truncates towards zero.\<close>

definition trunc :: "real \<Rightarrow> int" where
  "trunc x = (if x < 0 then - \<lfloor>- x\<rfloor> else \<lfloor>x\<rfloor>)"

section \<open>Laws of the rounding\<close>

lemma round_even_near: "\<bar>of_int (round_even r) - r\<bar> \<le> 1 / 2"
proof -
  have "of_int \<lfloor>r\<rfloor> \<le> r" "r < of_int \<lfloor>r\<rfloor> + 1" by linarith+
  then show ?thesis by (auto simp: round_even_def Let_def)
qed

lemma round_even_of_int [simp]: "round_even (of_int k) = k"
  by (simp add: round_even_def)

lemma round_even_mono:
  assumes "r \<le> s"
  shows "round_even r \<le> round_even s"
proof (cases "\<lfloor>r\<rfloor> = \<lfloor>s\<rfloor>")
  case True
  then show ?thesis using assms by (auto simp: round_even_def Let_def)
next
  case False
  then have "\<lfloor>r\<rfloor> + 1 \<le> \<lfloor>s\<rfloor>" using floor_mono [OF assms] by linarith
  moreover have "round_even r \<le> \<lfloor>r\<rfloor> + 1" "\<lfloor>s\<rfloor> \<le> round_even s" by (auto simp: round_even_def Let_def)
  ultimately show ?thesis by linarith
qed

lemma fl_shift_mono: "m \<le> n \<Longrightarrow> fl_shift m \<le> fl_shift n"
  by (simp add: fl_shift_def diff_le_mono floorlog_mono nat_mono floor_mono)

lemma fl_shift_less:
  assumes "0 \<le> m"
  shows "m < 2 ^ (24 + fl_shift m)"
proof (cases "nat \<lfloor>m\<rfloor> = 0")
  case True
  then have "m < 1" using assms by linarith
  also have "(1 :: real) \<le> 2 ^ (24 + fl_shift m)" by simp
  finally show ?thesis .
next
  case False
  then have "nat \<lfloor>m\<rfloor> < 2 ^ floorlog 2 (nat \<lfloor>m\<rfloor>)" using floorlog_bounds [of "nat \<lfloor>m\<rfloor>" 2] by simp
  also have "(2 :: nat) ^ floorlog 2 (nat \<lfloor>m\<rfloor>) \<le> 2 ^ (24 + fl_shift m)" by (rule power_increasing) (simp_all add: fl_shift_def)
  finally have "real (nat \<lfloor>m\<rfloor>) + 1 \<le> 2 ^ (24 + fl_shift m)"
    by (metis Suc_leI of_nat_Suc of_nat_le_iff of_nat_numeral of_nat_power add.commute)
  moreover have "m < real (nat \<lfloor>m\<rfloor>) + 1" using assms by linarith
  ultimately show ?thesis by linarith
qed

lemma fl_shift_least:
  assumes "0 < fl_shift m"
  shows "2 ^ (23 + fl_shift m) \<le> m"
proof -
  let ?k = "nat \<lfloor>m\<rfloor>"
  have d: "floorlog 2 ?k = 24 + fl_shift m" using assms by (simp add: fl_shift_def)
  then have "?k > 0" by (cases "?k = 0") (simp_all add: floorlog_def)
  then have "(2 :: nat) ^ (23 + fl_shift m) \<le> ?k" using floorlog_bounds [of ?k 2] by (simp add: d)
  then have "(2 :: real) ^ (23 + fl_shift m) \<le> real ?k" by (metis of_nat_le_iff of_nat_numeral of_nat_power)
  also have "\<dots> \<le> m" using \<open>?k > 0\<close> by linarith
  finally show ?thesis .
qed

lemma fl_units_mono:
  assumes "0 \<le> m" and "m \<le> n"
  shows "fl_units m \<le> fl_units n"
proof (cases "fl_shift m = fl_shift n")
  case True
  have "round_even (m / 2 ^ fl_shift n) \<le> round_even (n / 2 ^ fl_shift n)"
    by (rule round_even_mono) (simp add: divide_right_mono assms)
  then show ?thesis by (simp add: fl_units_def True mult_right_mono)
next
  case False
  then have less: "fl_shift m < fl_shift n" using fl_shift_mono [OF assms(2)] by simp
  have "m / 2 ^ fl_shift m \<le> of_int (2 ^ 24)"
    using fl_shift_less [OF assms(1)] by (simp add: field_simps power_add)
  then have "round_even (m / 2 ^ fl_shift m) \<le> 2 ^ 24" using round_even_mono round_even_of_int by metis
  then have "real_of_int (round_even (m / 2 ^ fl_shift m)) \<le> 2 ^ 24" by (simp add: of_int_le_numeral_power_cancel_iff)
  then have "fl_units m \<le> 2 ^ 24 * 2 ^ fl_shift m" by (simp add: fl_units_def mult_right_mono)
  also have "\<dots> \<le> 2 ^ 23 * 2 ^ fl_shift n"
  proof -
    have "(2 :: real) ^ (1 + fl_shift m) \<le> 2 ^ fl_shift n" using less by (intro power_increasing) auto
    then show ?thesis by simp
  qed
  also have "\<dots> \<le> fl_units n"
  proof -
    have "real_of_int (2 ^ 23) \<le> n / 2 ^ fl_shift n"
      using fl_shift_least [of n] less by (simp add: field_simps power_add)
    then have "2 ^ 23 \<le> round_even (n / 2 ^ fl_shift n)" using round_even_mono round_even_of_int by metis
    then have "2 ^ 23 \<le> real_of_int (round_even (n / 2 ^ fl_shift n))" by (simp add: numeral_power_le_of_int_cancel_iff)
    then show ?thesis by (simp add: fl_units_def mult_right_mono)
  qed
  finally show ?thesis .
qed

lemma fl_units_zero [simp]: "fl_units 0 = 0"
  by (simp add: fl_units_def round_even_def)

lemma fl_units_nonneg: "0 \<le> m \<Longrightarrow> 0 \<le> fl_units m"
  using fl_units_mono [of 0 m] by simp

lemma fl_mono: "x \<le> y \<Longrightarrow> fl x \<le> fl y"
proof (cases "x < 0")
  case True
  assume le: "x \<le> y"
  show ?thesis
  proof (cases "y < 0")
    case True
    have "fl_units (- y * 2 ^ 149) \<le> fl_units (- x * 2 ^ 149)" using le True by (intro fl_units_mono) auto
    then show ?thesis using le True by (simp add: fl_def divide_right_mono)
  next
    case False
    have "0 \<le> fl_units (- x * 2 ^ 149)" "0 \<le> fl_units (y * 2 ^ 149)" using True False by (auto intro!: fl_units_nonneg)
    moreover have "- (fl_units (- x * 2 ^ 149) / 2 ^ 149) \<le> 0" "0 \<le> fl_units (y * 2 ^ 149) / 2 ^ 149" using calculation by simp_all
    ultimately show ?thesis using True False by (simp add: fl_def)
  qed
next
  case False
  assume "x \<le> y"
  then have "fl_units (x * 2 ^ 149) \<le> fl_units (y * 2 ^ 149)" using False by (intro fl_units_mono) auto
  then show ?thesis using False \<open>x \<le> y\<close> by (simp add: fl_def divide_right_mono)
qed

lemma fl_minus: "fl (- x) = - fl x"
  by (cases x "0 :: real" rule: linorder_cases) (simp_all add: fl_def)

lemma fl_zero [simp]: "fl 0 = 0" by (simp add: fl_def)

text \<open>Numbers with at most 24 digits are representable; the whole numbers of this code are among them.\<close>

lemma fl_units_exact:
  assumes "0 \<le> k" and "k \<le> 2 ^ 24"
  shows "fl_units (of_int k * 2 ^ j) = of_int k * 2 ^ j"
proof -
  let ?m = "of_int k * 2 ^ j :: real"
  have fl: "\<lfloor>?m\<rfloor> = k * 2 ^ j" by (metis floor_of_int of_int_mult of_int_numeral of_int_power)
  have s: "fl_shift ?m \<le> j \<or> k = 2 ^ 24 \<and> fl_shift ?m = Suc j"
  proof (cases "k = 2 ^ 24")
    case True
    have "2 ^ 24 * 2 ^ j = (2 ^ (24 + j) :: int)" by (simp add: power_add)
    then have "nat (k * 2 ^ j) = nat (2 ^ (24 + j))" by (simp only: True)
    also have "\<dots> = 1 * 2 ^ (24 + j)" by (subst nat_power_eq) simp_all
    finally have "nat \<lfloor>?m\<rfloor> = 1 * 2 ^ (24 + j)" unfolding fl .
    then have "floorlog 2 (nat \<lfloor>?m\<rfloor>) = floorlog 2 1 + (24 + j)"
      unfolding \<open>nat \<lfloor>?m\<rfloor> = 1 * 2 ^ (24 + j)\<close> by (intro floorlog_power) simp_all
    then have "floorlog 2 (nat \<lfloor>?m\<rfloor>) = 25 + j" by (simp add: floorlog_def)
    then show ?thesis using True by (auto simp: fl_shift_def)
  next
    case False
    have "nat \<lfloor>?m\<rfloor> < 2 ^ (24 + j)"
    proof -
      have "nat \<lfloor>?m\<rfloor> = nat k * 2 ^ j" unfolding fl using assms by (simp add: nat_mult_distrib nat_power_eq)
      moreover have "nat k < 2 ^ 24" using False assms by (simp add: nat_less_iff)
      ultimately show ?thesis by (simp add: power_add)
    qed
    then have "floorlog 2 (nat \<lfloor>?m\<rfloor>) \<le> 24 + j" by (intro floorlog_leI) auto
    then show ?thesis by (auto simp: fl_shift_def)
  qed
  obtain i :: int where i: "?m / 2 ^ fl_shift ?m = of_int i"
  proof (cases "fl_shift ?m \<le> j")
    case True
    then have "?m / 2 ^ fl_shift ?m = of_int k * 2 ^ (j - fl_shift ?m)" by (simp add: power_diff)
    then have "?m / 2 ^ fl_shift ?m = of_int (k * 2 ^ (j - fl_shift ?m))" by simp
    then show thesis by (rule that)
  next
    case False
    then have "k = 2 ^ 24" "fl_shift ?m = Suc j" using s by auto
    then have "?m / 2 ^ fl_shift ?m = of_int (2 ^ 23)" by simp
    then show thesis by (rule that)
  qed
  have "fl_units ?m = of_int (round_even (?m / 2 ^ fl_shift ?m)) * 2 ^ fl_shift ?m" by (rule fl_units_def)
  also have "\<dots> = (?m / 2 ^ fl_shift ?m) * 2 ^ fl_shift ?m" unfolding i by simp
  also have "\<dots> = ?m" by simp
  finally show ?thesis .
qed

lemma fl_exact:
  assumes "\<bar>k\<bar> \<le> 2 ^ 24" and "j \<le> 149"
  shows "fl (of_int k / 2 ^ j) = of_int k / 2 ^ j"
proof -
  have pos: "fl (of_int i / 2 ^ j) = of_int i / 2 ^ j" if "0 \<le> i" "i \<le> 2 ^ 24" for i
  proof -
    have "of_int i / 2 ^ j * 2 ^ 149 = (of_int i * 2 ^ (149 - j) :: real)" using assms(2) by (simp add: power_diff)
    moreover have "\<not> (of_int i / 2 ^ j :: real) < 0" using that(1) by (simp only: not_less) simp
    ultimately have "fl (of_int i / 2 ^ j) = of_int i * 2 ^ (149 - j) / 2 ^ 149"
      unfolding fl_def using fl_units_exact [OF that, of "149 - j"] by (simp only: if_False)
    also have "\<dots> = of_int i / 2 ^ j" using assms(2) by (simp add: power_diff)
    finally show ?thesis .
  qed
  show ?thesis using pos [of k] pos [of "- k"] assms(1) fl_minus [of "of_int (- k) / 2 ^ j"] by (cases "0 \<le> k") auto
qed

lemma fl_of_nat [simp]: "n \<le> 2 ^ 24 \<Longrightarrow> fl (of_nat n) = of_nat n"
  using fl_exact [of "int n" 0] by simp

lemma fl_numeral [simp]: "numeral n \<le> (2 ^ 24 :: nat) \<Longrightarrow> fl (numeral n) = numeral n"
  using fl_of_nat [of "numeral n"] by simp

lemma fl_one [simp]: "fl 1 = 1" using fl_of_nat [of 1] by simp

lemma fl_nonneg: "0 \<le> x \<Longrightarrow> 0 \<le> fl x" using fl_mono [of 0 x] by simp

lemma fl_nonpos: "x \<le> 0 \<Longrightarrow> fl x \<le> 0" using fl_mono [of x 0] by simp

lemma fl_idem [simp]: "fl (fl x) = fl x"
proof -
  have pos: "fl (fl y) = fl y" if "0 \<le> y" for y
  proof -
    define m k where "m = y * 2 ^ 149" and "k = round_even (m / 2 ^ fl_shift m)"
    have m: "0 \<le> m" using that by (simp add: m_def)
    have "m / 2 ^ fl_shift m \<le> of_int (2 ^ 24)" using fl_shift_less [OF m] by (simp add: field_simps power_add)
    then have "k \<le> 2 ^ 24" unfolding k_def using round_even_mono round_even_of_int by metis
    moreover have "0 \<le> k" unfolding k_def using round_even_mono [of "of_int 0" "m / 2 ^ fl_shift m"] round_even_of_int [of 0] m by simp
    ultimately have "fl_units (of_int k * 2 ^ fl_shift m) = of_int k * 2 ^ fl_shift m" by (intro fl_units_exact)
    moreover have "fl_units m = of_int k * 2 ^ fl_shift m" by (simp add: fl_units_def k_def)
    moreover have "fl y = fl_units m / 2 ^ 149" using that by (simp add: fl_def m_def)
    moreover have "0 \<le> fl y" using that by (rule fl_nonneg)
    ultimately show ?thesis by (simp add: fl_def)
  qed
  show ?thesis using pos [of x] pos [of "- x"] by (cases "0 \<le> x") (auto simp: fl_minus)
qed

text \<open>The rounding error: half a unit in the last place.\<close>

lemma fl_units_error:
  assumes "0 \<le> m"
  shows "\<bar>fl_units m - m\<bar> \<le> max 1 (m / 2 ^ 23) / 2"
proof -
  let ?e = "2 ^ fl_shift m :: real"
  have "\<bar>of_int (round_even (m / ?e)) - m / ?e\<bar> \<le> 1 / 2" by (rule round_even_near)
  then have "\<bar>of_int (round_even (m / ?e)) * ?e - m\<bar> \<le> ?e / 2"
    by (simp add: abs_le_iff field_simps)
  moreover have "?e \<le> max 1 (m / 2 ^ 23)"
    using fl_shift_least [of m] by (cases "fl_shift m = 0") (simp_all add: power_add field_simps le_max_iff_disj)
  moreover have "?e / 2 \<le> max 1 (m / 2 ^ 23) / 2" using calculation(2) by (rule divide_right_mono) simp
  ultimately have "\<bar>of_int (round_even (m / ?e)) * ?e - m\<bar> \<le> max 1 (m / 2 ^ 23) / 2" by (meson order_trans)
  then show ?thesis unfolding fl_units_def .
qed

lemma fl_error:
  assumes "\<bar>x\<bar> \<le> b" and "2 ^ 23 / 2 ^ 149 \<le> b"
  shows "\<bar>fl x - x\<bar> \<le> b / 2 ^ 24"
proof -
  have pos: "\<bar>fl y - y\<bar> \<le> b / 2 ^ 24" if "0 \<le> y" "y \<le> b" for y
  proof -
    have "\<bar>fl_units (y * 2 ^ 149) - y * 2 ^ 149\<bar> \<le> max 1 (y * 2 ^ 149 / 2 ^ 23) / 2" using that by (intro fl_units_error) simp
    also have "\<dots> \<le> b * 2 ^ 149 / 2 ^ 24" using that assms(2) by (auto simp: field_simps)
    finally have "\<bar>(fl_units (y * 2 ^ 149) - y * 2 ^ 149) / 2 ^ 149\<bar> \<le> b / 2 ^ 24" by (simp add: abs_le_iff field_simps)
    moreover have "fl y - y = (fl_units (y * 2 ^ 149) - y * 2 ^ 149) / 2 ^ 149" using that by (simp add: fl_def field_simps)
    ultimately show ?thesis by (simp only:)
  qed
  show ?thesis
  proof (cases "0 \<le> x")
    case False
    then have "\<bar>fl (- x) - - x\<bar> \<le> b / 2 ^ 24" using assms(1) by (intro pos) auto
    then show ?thesis unfolding fl_minus by linarith
  qed (use pos assms(1) in auto)
qed

end
