(* ===== verification/Runner_Compile.thy ===== *)
theory Runner_Compile
  imports
    Binary32 Animation_Scheduler
begin

text \<open>
  The spatial envelopes of the moving runners (\<open>Core/Controller/RunnerMath.hpp\<close>), their inversion into one pulse
  per panel (\<open>RunnerCompile.hpp\<close>) and the list-order sweep of the actions (\<open>CompiledSweep.cpp\<close>). Floating point is
  written out: \<open>fl\<close> stands at every operation that rounds.
\<close>

definition of_u :: "'a::len word \<Rightarrow> real" where
  "of_u x = real (unat x)"

section \<open>Envelopes\<close>

definition waveCenterAt :: "real \<Rightarrow> u8 \<Rightarrow> u8 \<Rightarrow> real" where
  "waveCenterAt t maxCoord width =
     (let halfW = fl (of_u width / 2) in fl (- halfW + fl (fl (of_u maxCoord + of_u width) * t)))"

definition to_u8 :: "real \<Rightarrow> u8" where
  "to_u8 x = of_int (trunc x)"

definition to_u16 :: "real \<Rightarrow> u16" where
  "to_u16 x = of_int (trunc x)"

definition waveBrightness :: "real \<Rightarrow> real \<Rightarrow> u8 \<Rightarrow> u8" where
  "waveBrightness coord center width =
     (let halfW = fl (of_u width / 2)
      in if halfW \<le> 0 then 0
         else (let d = \<bar>fl (coord - center)\<bar>
               in if halfW \<le> d then 0 else to_u8 (fl (255 * fl (1 - fl (d / halfW))))))"

definition rippleRadiusAt :: "real \<Rightarrow> u8 \<Rightarrow> u8 \<Rightarrow> real" where
  "rippleRadiusAt t maxCoord width =
     (let halfW = fl (of_u width / 2) in fl (fl (of_u maxCoord + halfW) * t))"

definition rippleBrightness :: "real \<Rightarrow> real \<Rightarrow> u8 \<Rightarrow> u8" where
  "rippleBrightness coord radius width =
     (let ringW = fl (of_u width / 2)
      in if ringW \<le> 0 then 0
         else (let d = \<bar>fl (coord - radius)\<bar>
               in if ringW \<le> d then 0 else to_u8 (fl (255 * fl (1 - fl (d / ringW))))))"

definition rippleBandBrightness :: "real \<Rightarrow> real \<Rightarrow> real \<Rightarrow> u8 \<Rightarrow> u8" where
  "rippleBandBrightness near far radius width =
     (let ringW = fl (of_u width / 2)
      in if ringW \<le> 0 then 0
         else if \<not> radius < near \<and> \<not> far < radius then 255
         else (let d = (if radius < near then fl (near - radius) else fl (radius - far))
               in if ringW \<le> d then 0 else to_u8 (fl (255 * fl (1 - fl (d / ringW))))))"

definition chaseLitCoord :: "real \<Rightarrow> u8 \<Rightarrow> u8" where
  "chaseLitCoord t maxCoord =
     (let c = trunc (fl (real (unat maxCoord + 1) * t));
          c = (if int (unat maxCoord) < c then int (unat maxCoord) else c);
          c = (if c < 0 then 0 else c)
      in of_int c)"

definition chaseBrightness :: "u8 \<Rightarrow> u8 \<Rightarrow> u8" where
  "chaseBrightness coord litCoord = (if coord = litCoord then 255 else 0)"

section \<open>Compiled pulses\<close>

record CompiledPulse =
  cp_lit :: bool
  cp_startDelayMs :: u16
  cp_durationMs :: u16
  cp_risePct :: u8
  cp_fallPct :: u8

definition cp_dark :: "u8 \<Rightarrow> u8 \<Rightarrow> CompiledPulse" where
  "cp_dark rise fall = \<lparr>cp_lit = False, cp_startDelayMs = 0, cp_durationMs = 0, cp_risePct = rise, cp_fallPct = fall\<rparr>"

definition rc_ms :: "real \<Rightarrow> u16" where
  "rc_ms v =
     (let v = (if v < 0 then 0 else v); v = (if 65535 < v then 65535 else v) in to_u16 (fl (v + fl (1 / 2))))"

definition rc_pct :: "real \<Rightarrow> u8" where
  "rc_pct share =
     (let f = (if share < 0 then 0 else share); f = (if 1 < f then 1 else f) in to_u8 (fl (fl (f * 255) + fl (1 / 2))))"

definition at_least_one :: "u16 \<Rightarrow> u16" where
  "at_least_one d = (if d = 0 then 1 else d)"

definition compileWave :: "real \<Rightarrow> u8 \<Rightarrow> u8 \<Rightarrow> u16 \<Rightarrow> CompiledPulse" where
  "compileWave coord maxCoord width dur =
     (if width = 0 \<or> dur = 0 then cp_dark 127 128
      else
        (let denom = fl (of_u maxCoord + of_u width)
         in if denom \<le> 0 then cp_dark 127 128
            else
              (let tOn = fl (coord / denom); tSpan = fl (of_u width / denom)
               in \<lparr>cp_lit = True, cp_startDelayMs = rc_ms (fl (of_u dur * tOn)),
                   cp_durationMs = at_least_one (rc_ms (fl (of_u dur * tSpan))), cp_risePct = 127, cp_fallPct = 128\<rparr>)))"

definition compileBounce :: "real \<Rightarrow> u8 \<Rightarrow> u8 \<Rightarrow> u16 \<Rightarrow> CompiledPulse" where
  "compileBounce coord maxCoord width dur =
     (if width = 0 \<or> dur = 0 then cp_dark 127 128
      else
        (let span = of_u maxCoord;
             span = (if span \<le> 0 then 1 else span);
             halfW = fl (of_u width / 2);
             tPeak = fl (coord / span);
             tOn = fl (fl (coord - halfW) / span);
             tOff = fl (fl (coord + halfW) / span);
             tOn = (if tOn < 0 then 0 else tOn);
             tOff = (if 1 < tOff then 1 else tOff)
         in if tOff \<le> tOn then cp_dark 127 128
            else
              (let tPeak = (if tPeak < tOn then tOn else tPeak);
                   tPeak = (if tOff < tPeak then tOff else tPeak);
                   spanT = fl (tOff - tOn)
               in \<lparr>cp_lit = True, cp_startDelayMs = rc_ms (fl (of_u dur * tOn)),
                   cp_durationMs = at_least_one (rc_ms (fl (of_u dur * spanT))),
                   cp_risePct = rc_pct (fl (fl (tPeak - tOn) / spanT)), cp_fallPct = rc_pct (fl (fl (tOff - tPeak) / spanT))\<rparr>)))"

definition compileChase :: "u8 \<Rightarrow> u8 \<Rightarrow> u16 \<Rightarrow> CompiledPulse" where
  "compileChase coord maxCoord dur =
     (if dur = 0 then cp_dark 8 8
      else
        (let denom = fl (of_u maxCoord + 1); tOn = fl (of_u coord / denom)
         in \<lparr>cp_lit = True, cp_startDelayMs = rc_ms (fl (of_u dur * tOn)),
             cp_durationMs = at_least_one (rc_ms (fl (of_u dur / denom))), cp_risePct = 8, cp_fallPct = 8\<rparr>))"

definition compileRipple :: "real \<Rightarrow> real \<Rightarrow> u8 \<Rightarrow> u8 \<Rightarrow> u16 \<Rightarrow> CompiledPulse" where
  "compileRipple nearC farC maxCoord width dur =
     (if width = 0 \<or> dur = 0 then cp_dark 127 128
      else
        (let ringW = fl (of_u width / 2); denom = fl (of_u maxCoord + ringW)
         in if denom \<le> 0 then cp_dark 127 128
            else
              (let tOn = fl (fl (nearC - ringW) / denom);
                   tFullOn = fl (nearC / denom);
                   tFullOff = fl (farC / denom);
                   tOff = fl (fl (farC + ringW) / denom);
                   tOn = (if tOn < 0 then 0 else tOn);
                   tOff = (if 1 < tOff then 1 else tOff)
               in if tOff \<le> tOn then cp_dark 127 128
                  else
                    (let span = fl (tOff - tOn)
                     in \<lparr>cp_lit = True, cp_startDelayMs = rc_ms (fl (of_u dur * tOn)),
                         cp_durationMs = at_least_one (rc_ms (fl (of_u dur * span))),
                         cp_risePct = rc_pct (fl (fl (tFullOn - tOn) / span)),
                         cp_fallPct = rc_pct (fl (fl (tOff - tFullOff) / span))\<rparr>))))"

text \<open>\<open>fmodf (x, 1)\<close> is exact.\<close>

definition fmod_one :: "real \<Rightarrow> real" where
  "fmod_one x = x - of_int (trunc x)"

definition compileRepeatingAsym :: "real \<Rightarrow> real \<Rightarrow> real \<Rightarrow> u16 \<Rightarrow> CompiledPulse" where
  "compileRepeatingAsym phase riseFrac fallFrac period =
     (if period = 0 then cp_dark 0 0
      else
        (let phase = fmod_one phase; phase = (if phase < 0 then fl (phase + 1) else phase)
         in \<lparr>cp_lit = True, cp_startDelayMs = rc_ms (fl (phase * of_u period)), cp_durationMs = period,
             cp_risePct = rc_pct riseFrac, cp_fallPct = rc_pct fallFrac\<rparr>))"

definition compileRepeating :: "real \<Rightarrow> real \<Rightarrow> u16 \<Rightarrow> CompiledPulse" where
  "compileRepeating phase halfWidth period = compileRepeatingAsym phase halfWidth halfWidth period"

definition compileWheel :: "real \<Rightarrow> u8 \<Rightarrow> u8 \<Rightarrow> u16 \<Rightarrow> CompiledPulse" where
  "compileWheel turns lns thicknessDeg rotationMs =
     (if lns = 0 \<or> rotationMs = 0 then cp_dark 0 0
      else
        (let period = at_least_one (rotationMs div ucast lns);
             slot = fl (turns * of_u lns);
             phase = fl (slot - of_int \<lfloor>slot\<rfloor>);
             halfWidth = fl (fl (of_u thicknessDeg * of_u lns) / 720)
         in compileRepeating phase halfWidth period))"

section \<open>The list-order sweep\<close>

definition COMPOSE_DEFAULT :: u8 where "COMPOSE_DEFAULT = 0"
definition COMPOSE_OPAQUE :: u8 where "COMPOSE_OPAQUE = 1"
definition COMPOSE_MAX :: u8 where "COMPOSE_MAX = 3"

definition resolveComposeMode :: "u8 \<Rightarrow> bool \<Rightarrow> u8" where
  "resolveComposeMode blend runnerDefaultMax =
     (if blend = COMPOSE_DEFAULT then (if runnerDefaultMax then COMPOSE_MAX else COMPOSE_OPAQUE) else blend)"

datatype LinearSweepKind = Wave | Ripple | Chase

definition list_distance :: "nat \<Rightarrow> u8 \<Rightarrow> u8" where
  "list_distance i origin = (if origin \<le> of_nat i then of_nat i - origin else origin - of_nat i)"

definition emitLinearSweep ::
  "u8 \<Rightarrow> u8 list \<Rightarrow> u16 \<Rightarrow> u8 \<Rightarrow> u8 \<Rightarrow> ColorRGB \<Rightarrow> LinearSweepKind \<Rightarrow> AnimationScheduler \<Rightarrow> sink_call list \<times> AnimationScheduler" where
  "emitLinearSweep groupId panelAddresses durationMs width rippleOriginIndex color kind s =
     (let panelCount = length panelAddresses
      in if panelCount = 0 \<or> durationMs = 0 then ([], s)
         else
           (let width = (if width < 2 then 2 else width);
                maxCoord = (if 1 < panelCount then of_nat (panelCount - 1) else 0);
                rippleMax = fold (\<lambda>j m. if m < list_distance j rippleOriginIndex then list_distance j rippleOriginIndex else m) [0..<panelCount] 0;
                pulse = (\<lambda>i. case kind of
                           Wave \<Rightarrow> compileWave (real i) maxCoord width durationMs
                         | Chase \<Rightarrow> compileChase (of_nat i) maxCoord durationMs
                         | Ripple \<Rightarrow> (let d = list_distance i rippleOriginIndex in compileRipple (of_u d) (of_u d) rippleMax width durationMs));
                prepares = concat (map (\<lambda>i.
                  (let cp = pulse i
                   in if \<not> cp_lit cp then []
                      else sch_sendPrepareToPanel (panelAddresses ! i) groupId ANIM_PULSE FLAG_REAP_ON_DONE (cp_durationMs cp)
                             (ColorRef_rgb 0 0 0) (ColorRef_rgb (rgb_r color) (rgb_g color) (rgb_b color)) (cp_risePct cp) (cp_fallPct cp)
                             COMPOSE_MAX 0 (cp_startDelayMs cp) TARGET_COLOR)) [0..<panelCount]);
                (starts, s) = sch_sendGroupStart groupId s
            in (prepares @ Sink_Pace 300 # starts, s)))"

section \<open>Accuracy\<close>

text \<open>A small error: a bound in units of the spacing of binary32 just below 1.\<close>

definition close_to :: "real \<Rightarrow> nat \<Rightarrow> real \<Rightarrow> bool" where
  "close_to x k y \<longleftrightarrow> \<bar>x - y\<bar> \<le> real k / 2 ^ 24"

lemma fl_half [simp]: "fl (1 / 2) = 1 / 2" using fl_exact [of 1 1] by simp

lemma fl_unit_error: "\<bar>x\<bar> \<le> 1 \<Longrightarrow> close_to (fl x) 1 x"
  using fl_error [of x 1] by (simp add: close_to_def)

lemma close_to_trans: "close_to x k y \<Longrightarrow> close_to y l z \<Longrightarrow> close_to x (k + l) z"
  unfolding close_to_def of_nat_add add_divide_distrib by linarith

declare of_nat_unat [simp del]

lemma fl_small_int [simp]: "fl (of_u (a :: u8) + of_u (b :: u8)) = of_u a + of_u b" "fl (of_u (a :: u8) + 1) = of_u a + 1"
proof -
  have "fl (real (unat a + unat b)) = real (unat a + unat b)" using unat_u8_less [of a] unat_u8_less [of b] by (intro fl_of_nat) simp
  then show "fl (of_u a + of_u b) = of_u a + of_u b" by (simp add: of_u_def)
  have "fl (real (unat a + 1)) = real (unat a + 1)" using unat_u8_less [of a] by (intro fl_of_nat) simp
  then show "fl (of_u a + 1) = of_u a + 1" by (simp add: of_u_def add.commute)
qed

lemma fl_halves:
  "fl (of_u (w :: u8) / 2) = of_u w / 2" "fl (of_u (c :: u8) - of_u w / 2) = of_u c - of_u w / 2" "fl (of_u c + of_u w / 2) = of_u c + of_u w / 2"
proof -
  have b: "unat w < 256" "unat c < 256" using unat_u8_less by auto
  show "fl (of_u w / 2) = of_u w / 2" using fl_exact [of "int (unat w)" 1] b by (simp add: of_u_def)
  have "of_u c - of_u w / 2 = of_int (2 * int (unat c) - int (unat w)) / 2 ^ 1" by (simp add: of_u_def field_simps)
  then show "fl (of_u c - of_u w / 2) = of_u c - of_u w / 2"
    using fl_exact [of "2 * int (unat c) - int (unat w)" 1] b by (simp only: abs_le_iff) simp
  have "of_u c + of_u w / 2 = of_int (2 * int (unat c) + int (unat w)) / 2 ^ 1" by (simp add: of_u_def field_simps)
  then show "fl (of_u c + of_u w / 2) = of_u c + of_u w / 2"
    using fl_exact [of "2 * int (unat c) + int (unat w)" 1] b by (simp only: abs_le_iff) simp
qed

lemma of_u_bounds: "0 \<le> of_u x" "of_u (a :: u8) \<le> 255" "of_u (b :: u16) \<le> 65535"
  using unat_u8_less [of a] unat_u16_less [of b] by (simp_all add: of_u_def)

lemma of_u_pos: "0 < of_u x \<longleftrightarrow> x \<noteq> 0"
  by (simp add: of_u_def unat_gt_0)

text \<open>Milliseconds: the float result is rounded to the nearest whole number.\<close>

lemma of_u_trunc: "0 \<le> k \<Longrightarrow> k < 65536 \<Longrightarrow> of_u (of_int k :: u16) = of_int k"
  by (simp add: of_u_def unsigned_of_int take_bit_int_eq_self)

lemma rc_ms_near:
  assumes "0 \<le> v" and "v \<le> 65535"
  shows "\<bar>of_u (rc_ms v) - v\<bar> \<le> 1 / 2 + 1 / 256"
proof -
  have e: "\<bar>fl (v + 1 / 2) - (v + 1 / 2)\<bar> \<le> 1 / 256" using fl_error [of "v + 1 / 2" 65536] assms by simp
  have nn: "0 \<le> fl (v + 1 / 2)" using assms by (intro fl_nonneg) simp
  have "fl (v + 1 / 2) \<le> fl (65535 + 1 / 2)" using assms by (intro fl_mono) simp
  also have "\<dots> = 65535 + 1 / 2" using fl_exact [of 131071 1] by simp
  finally have up: "\<lfloor>fl (v + 1 / 2)\<rfloor> < 65536" by linarith
  have "rc_ms v = of_int \<lfloor>fl (v + 1 / 2)\<rfloor>" using assms nn by (simp add: rc_ms_def to_u16_def trunc_def)
  then have "of_u (rc_ms v) = of_int \<lfloor>fl (v + 1 / 2)\<rfloor>" using up nn by (simp add: of_u_trunc)
  then show ?thesis using e by linarith
qed

lemma rc_ms_share:
  assumes "close_to t' k t" and "k \<le> 8" and "0 \<le> t" and "t \<le> 1" and "0 \<le> t'" and "t' \<le> 1"
  shows "\<bar>of_u (rc_ms (fl (of_u (dur :: u16) * t'))) - of_u dur * t\<bar> \<le> 3 / 5"
proof -
  have d: "0 \<le> of_u dur" "of_u dur \<le> 65535" using of_u_bounds by auto
  have m: "0 \<le> of_u dur * t'" "of_u dur * t' \<le> 65535" using d assms mult_mono [of "of_u dur" 65535 t' 1] by auto
  have "fl (of_u dur * t') \<le> fl 65535" using m by (intro fl_mono)
  then have r: "0 \<le> fl (of_u dur * t')" "fl (of_u dur * t') \<le> 65535" using m fl_nonneg by auto
  have e1: "\<bar>fl (of_u dur * t') - of_u dur * t'\<bar> \<le> 65535 / 2 ^ 24" using m by (intro fl_error) auto
  have "\<bar>of_u dur * (t' - t)\<bar> \<le> 65535 * (real k / 2 ^ 24)"
    unfolding abs_mult using d assms(1) by (intro mult_mono) (auto simp: close_to_def)
  also have "\<dots> \<le> 65535 * (8 / 2 ^ 24)" using assms(2) by simp
  finally have e2: "\<bar>of_u dur * t' - of_u dur * t\<bar> \<le> 65535 * (8 / 2 ^ 24)" by (simp only: right_diff_distrib)
  have "(65535 :: real) * (8 / 2 ^ 24) \<le> 1 / 30" "(65535 :: real) / 2 ^ 24 \<le> 1 / 200" by simp_all
  then show ?thesis using rc_ms_near [OF r] e1 e2 by linarith
qed

lemma at_least_one_near: "\<bar>of_u x - y\<bar> \<le> 3 / 5 \<Longrightarrow> 0 \<le> y \<Longrightarrow> \<bar>of_u (at_least_one x) - y\<bar> \<le> 1"
  by (auto simp: at_least_one_def of_u_def)

text \<open>A quotient of two small numbers, and the difference of two such quotients.\<close>

lemma fl_share:
  assumes "0 \<le> x" and "x \<le> d" and "0 < d"
  shows "close_to (fl (x / d)) 1 (x / d)" "0 \<le> fl (x / d)" "fl (x / d) \<le> 1" "0 \<le> x / d" "x / d \<le> 1"
proof -
  show r: "0 \<le> x / d" "x / d \<le> 1" using assms by simp_all
  then show "close_to (fl (x / d)) 1 (x / d)" by (intro fl_unit_error) simp
  show "0 \<le> fl (x / d)" using r by (intro fl_nonneg)
  have "fl (x / d) \<le> fl 1" using r by (intro fl_mono)
  then show "fl (x / d) \<le> 1" by simp
qed

definition pulse_near :: "CompiledPulse \<Rightarrow> u16 \<Rightarrow> real \<Rightarrow> real \<Rightarrow> bool" where
  "pulse_near cp dur t0 t1 \<longleftrightarrow> cp_lit cp \<and> cp_durationMs cp \<noteq> 0
     \<and> \<bar>of_u (cp_startDelayMs cp) - of_u dur * t0\<bar> \<le> 1 \<and> \<bar>of_u (cp_durationMs cp) - of_u dur * (t1 - t0)\<bar> \<le> 1"

lemma pulse_nearI:
  assumes "cp = \<lparr>cp_lit = True, cp_startDelayMs = S, cp_durationMs = at_least_one D, cp_risePct = rp, cp_fallPct = fp\<rparr>"
    and "\<bar>of_u S - of_u dur * t0\<bar> \<le> 3 / 5" and "\<bar>of_u D - of_u dur * (t1 - t0)\<bar> \<le> 3 / 5" and "t0 \<le> t1"
  shows "pulse_near cp dur t0 t1"
  using assms at_least_one_near [OF assms(3)] of_u_bounds(1) [of dur] by (auto simp: pulse_near_def at_least_one_def)

text \<open>A window clipped to the sweep, and how its float ends relate to the exact ones.\<close>

lemma clip_low:
  assumes "t \<le> 1"
  shows "close_to (if fl t < 0 then 0 else fl t) 1 (max 0 t)"
proof (cases "0 \<le> t")
  case True
  then show ?thesis using assms fl_unit_error [of t] fl_nonneg [of t] by (simp add: max_absorb2)
next
  case False
  then show ?thesis using fl_nonpos [of t] by (simp add: close_to_def max_absorb1)
qed

lemma clip_high:
  assumes "0 \<le> t"
  shows "close_to (if 1 < fl t then 1 else fl t) 1 (min 1 t)"
proof (cases "t \<le> 1")
  case True
  then have "fl t \<le> 1" using fl_mono [of t 1] by simp
  then show ?thesis using True assms fl_unit_error [of t] by (simp add: min_absorb2)
next
  case False
  then have "1 \<le> fl t" using fl_mono [of 1 t] by simp
  then show ?thesis using False by (simp add: close_to_def min_absorb1)
qed

lemma clipped_window:
  assumes "t0 \<le> 1" and "0 \<le> t1" and "max 0 t0 + 1 / 600 \<le> min 1 t1"
  shows "let s = (if fl t0 < 0 then 0 else fl t0); e = (if 1 < fl t1 then 1 else fl t1)
    in s < e \<and> 0 \<le> s \<and> s \<le> 1 \<and> close_to s 2 (max 0 t0) \<and> close_to (fl (e - s)) 4 (min 1 t1 - max 0 t0)
       \<and> 0 \<le> fl (e - s) \<and> fl (e - s) \<le> 1"
proof -
  define s e where "s = (if fl t0 < 0 then 0 else fl t0)" and "e = (if 1 < fl t1 then 1 else fl t1)"
  have s: "\<bar>s - max 0 t0\<bar> \<le> 1 / 2 ^ 24" and e: "\<bar>e - min 1 t1\<bar> \<le> 1 / 2 ^ 24"
    using clip_low [OF assms(1)] clip_high [OF assms(2)] by (simp_all add: close_to_def s_def e_def)
  have "(1 :: real) / 2 ^ 24 + 1 / 2 ^ 24 < 1 / 600" by simp
  then have "s < e" using s e assms(3) by linarith
  moreover have se: "0 \<le> s" "e \<le> 1" by (simp_all add: s_def e_def)
  ultimately have d: "0 \<le> e - s" "e - s \<le> 1" by linarith+
  have f: "\<bar>fl (e - s) - (e - s)\<bar> \<le> 1 / 2 ^ 24" using fl_unit_error [of "e - s"] d by (simp add: close_to_def)
  have "fl (e - s) \<le> fl 1" using d by (intro fl_mono)
  then have "fl (e - s) \<le> 1" by simp
  moreover have "0 \<le> fl (e - s)" using d by (intro fl_nonneg)
  moreover have "close_to s 2 (max 0 t0)" using s by (simp add: close_to_def)
  moreover have "\<bar>fl (e - s) - (min 1 t1 - max 0 t0)\<bar> \<le> 1 / 2 ^ 24 + 1 / 2 ^ 24 + 1 / 2 ^ 24" using f s e by linarith
  then have "close_to (fl (e - s)) 4 (min 1 t1 - max 0 t0)" by (simp add: close_to_def)
  moreover have "s \<le> 1" using \<open>s < e\<close> se by linarith
  ultimately show ?thesis using \<open>s < e\<close> se(1) by (simp only: Let_def s_def [symmetric] e_def [symmetric])
qed

lemma window_open:
  fixes h :: real
  assumes "0 \<le> c0" and "c0 \<le> c1" and "c1 \<le> d" and "1 / 2 \<le> h" and "d \<le> 255 + h" and "0 < d"
  shows "(c0 - h) / d \<le> 1" "0 \<le> (c1 + h) / d" "max 0 ((c0 - h) / d) + 1 / 600 \<le> min 1 ((c1 + h) / d)"
proof -
  have 1: "1 / 600 \<le> h / d" using assms by (simp add: field_simps)
  have 2: "(c0 - h) / d + h / d \<le> 1" using assms by (simp add: field_simps)
  have 3: "h / d \<le> (c1 + h) / d" "(c0 - h) / d + h / d \<le> (c1 + h) / d"
    using assms by (simp_all add: divide_right_mono flip: add_divide_distrib)
  then show "0 \<le> (c1 + h) / d" "(c0 - h) / d \<le> 1" using 1 2 by linarith+
  have gap: "max 0 x + 1 / 600 \<le> min 1 y" if "1 / 600 \<le> z" "x + z \<le> 1" "z \<le> y" "x + z \<le> y" for x y z :: real
    using that by (auto simp: max_def min_def)
  show "max 0 ((c0 - h) / d) + 1 / 600 \<le> min 1 ((c1 + h) / d)" using 1 2 3 by (rule gap)
qed

lemma of_u_le: "a \<le> b \<Longrightarrow> of_u a \<le> of_u b"
  by (simp add: of_u_def word_le_nat_alt)

lemma of_u_half: "w \<noteq> 0 \<Longrightarrow> 1 / 2 \<le> of_u w / 2"
  using of_u_pos [of w] by (simp add: of_u_def)

lemma close_to_weaken: "close_to x k y \<Longrightarrow> k \<le> l \<Longrightarrow> close_to x l y"
  unfolding close_to_def by (meson divide_right_mono of_nat_le_iff order_trans zero_le_numeral zero_le_power)

lemma share_ms:
  assumes "0 \<le> x" and "x \<le> d" and "0 < d"
  shows "\<bar>of_u (rc_ms (fl (of_u (dur :: u16) * fl (x / d)))) - of_u dur * (x / d)\<bar> \<le> 3 / 5"
  using fl_share [OF assms] by (intro rc_ms_share [where k = 1]) simp_all

lemma wave_pulse:
  assumes "c \<le> M" and "w \<noteq> 0" and "dur \<noteq> 0"
  shows "pulse_near (compileWave (of_u c) M w dur) dur (of_u c / (of_u M + of_u w)) ((of_u c + of_u w) / (of_u M + of_u w))"
proof (rule pulse_nearI)
  let ?d = "of_u M + of_u w"
  have b: "of_u c \<le> of_u M" "0 < of_u w" "0 \<le> of_u c" "0 \<le> of_u M"
    using assms of_u_le of_u_pos [of w] of_u_bounds(1) by auto
  then have d: "0 < ?d" "of_u c \<le> ?d" "of_u w \<le> ?d" by linarith+
  have len: "(of_u c + of_u w) / ?d - of_u c / ?d = of_u w / ?d" by (simp add: add_divide_distrib)
  show "compileWave (of_u c) M w dur = \<lparr>cp_lit = True, cp_startDelayMs = rc_ms (fl (of_u dur * fl (of_u c / ?d))),
      cp_durationMs = at_least_one (rc_ms (fl (of_u dur * fl (of_u w / ?d)))), cp_risePct = 127, cp_fallPct = 128\<rparr>"
    using assms d by (simp add: compileWave_def Let_def)
  show "\<bar>of_u (rc_ms (fl (of_u dur * fl (of_u c / ?d)))) - of_u dur * (of_u c / ?d)\<bar> \<le> 3 / 5" using b d by (intro share_ms)
  show "\<bar>of_u (rc_ms (fl (of_u dur * fl (of_u w / ?d)))) - of_u dur * ((of_u c + of_u w) / ?d - of_u c / ?d)\<bar> \<le> 3 / 5"
    unfolding len using b d by (intro share_ms) auto
  show "of_u c / ?d \<le> (of_u c + of_u w) / ?d" using b d by (intro divide_right_mono) auto
qed

lemma chase_pulse:
  assumes "c \<le> M" and "dur \<noteq> 0"
  shows "pulse_near (compileChase c M dur) dur (of_u c / (of_u M + 1)) ((of_u c + 1) / (of_u M + 1))"
proof (rule pulse_nearI)
  let ?d = "of_u M + 1"
  have b: "of_u c \<le> of_u M" "0 \<le> of_u c" "0 \<le> of_u M" using assms of_u_le of_u_bounds(1) by auto
  then have d: "0 < ?d" "of_u c \<le> ?d" by linarith+
  have len: "(of_u c + 1) / ?d - of_u c / ?d = 1 / ?d" by (simp add: add_divide_distrib)
  show "compileChase c M dur = \<lparr>cp_lit = True, cp_startDelayMs = rc_ms (fl (of_u dur * fl (of_u c / ?d))),
      cp_durationMs = at_least_one (rc_ms (fl (of_u dur / ?d))), cp_risePct = 8, cp_fallPct = 8\<rparr>"
    using assms by (simp add: compileChase_def Let_def)
  show "\<bar>of_u (rc_ms (fl (of_u dur * fl (of_u c / ?d)))) - of_u dur * (of_u c / ?d)\<bar> \<le> 3 / 5" using b d by (intro share_ms)
  have v: "0 \<le> of_u dur / ?d" "of_u dur / ?d \<le> 65535 / 1"
    using of_u_bounds(1) [of dur] of_u_bounds(3) [of dur] b d by (simp, intro frac_le) auto
  then have "fl (of_u dur / ?d) \<le> fl 65535" by (intro fl_mono) simp
  then have r: "0 \<le> fl (of_u dur / ?d)" "fl (of_u dur / ?d) \<le> 65535" using v fl_nonneg by auto
  have "\<bar>of_u dur / ?d\<bar> \<le> 65535" using v by (simp only: abs_of_nonneg)
  then have "\<bar>fl (of_u dur / ?d) - of_u dur / ?d\<bar> \<le> 65535 / 2 ^ 24" by (intro fl_error) simp_all
  moreover have "(65535 :: real) / 2 ^ 24 \<le> 1 / 200" by simp
  ultimately show "\<bar>of_u (rc_ms (fl (of_u dur / ?d))) - of_u dur * ((of_u c + 1) / ?d - of_u c / ?d)\<bar> \<le> 3 / 5"
    unfolding len using rc_ms_near [OF r] by (simp only: times_divide_eq_right mult_1_right)
  show "of_u c / ?d \<le> (of_u c + 1) / ?d" using b d by (intro divide_right_mono) auto
qed

text \<open>The two clipped sweeps share everything but the coordinate ends and the denominator.\<close>

lemma clipped_pulse:
  fixes h :: real
  assumes "0 \<le> c0" and "c0 \<le> c1" and "c1 \<le> d" and "1 / 2 \<le> h" and "d \<le> 255 + h" and "0 < d"
    and s: "s = (if fl ((c0 - h) / d) < 0 then 0 else fl ((c0 - h) / d))"
    and e: "e = (if 1 < fl ((c1 + h) / d) then 1 else fl ((c1 + h) / d))"
  shows "s < e"
    and "pulse_near \<lparr>cp_lit = True, cp_startDelayMs = rc_ms (fl (of_u dur * s)),
        cp_durationMs = at_least_one (rc_ms (fl (of_u dur * fl (e - s)))), cp_risePct = rp, cp_fallPct = fp\<rparr> dur
      (max 0 ((c0 - h) / d)) (min 1 ((c1 + h) / d))"
proof -
  note o = window_open [OF assms(1-6)]
  have w: "s < e" "0 \<le> s" "s \<le> 1" "close_to s 2 (max 0 ((c0 - h) / d))"
    "close_to (fl (e - s)) 4 (min 1 ((c1 + h) / d) - max 0 ((c0 - h) / d))" "0 \<le> fl (e - s)" "fl (e - s) \<le> 1"
    using clipped_window [OF o] unfolding Let_def s [symmetric] e [symmetric] by auto
  have r: "0 \<le> max 0 ((c0 - h) / d)" "max 0 ((c0 - h) / d) \<le> min 1 ((c1 + h) / d)" "min 1 ((c1 + h) / d) \<le> 1"
    using o(3) by auto
  show "s < e" by (rule w(1))
  show "pulse_near \<lparr>cp_lit = True, cp_startDelayMs = rc_ms (fl (of_u dur * s)),
        cp_durationMs = at_least_one (rc_ms (fl (of_u dur * fl (e - s)))), cp_risePct = rp, cp_fallPct = fp\<rparr> dur
      (max 0 ((c0 - h) / d)) (min 1 ((c1 + h) / d))"
  proof (rule pulse_nearI [OF refl])
    show "\<bar>of_u (rc_ms (fl (of_u dur * s))) - of_u dur * max 0 ((c0 - h) / d)\<bar> \<le> 3 / 5"
      using w r o(1) by (intro rc_ms_share [where k = 2]) auto
    show "\<bar>of_u (rc_ms (fl (of_u dur * fl (e - s)))) - of_u dur * (min 1 ((c1 + h) / d) - max 0 ((c0 - h) / d))\<bar> \<le> 3 / 5"
      using w r by (intro rc_ms_share [where k = 4]) linarith+
  qed (rule r(2))
qed

lemma bounce_pulse:
  assumes "c \<le> M" and "w \<noteq> 0" and "dur \<noteq> 0"
  shows "let d = max 1 (of_u M) in pulse_near (compileBounce (of_u c) M w dur) dur
    (max 0 ((of_u c - of_u w / 2) / d)) (min 1 ((of_u c + of_u w / 2) / d))"
proof -
  define d where "d = max 1 (of_u M)"
  have b: "0 \<le> of_u c" "of_u c \<le> of_u c" "of_u c \<le> d" "1 / 2 \<le> of_u w / 2" "d \<le> 255 + of_u w / 2" "0 < d"
    using assms of_u_le [of c M] of_u_half [of w] of_u_bounds(1) [of c] of_u_bounds(2) [of M] by (auto simp: d_def)
  have span: "(if of_u M \<le> 0 then 1 else of_u M) = d"
    using of_u_half [of M] by (cases "M = 0") (auto simp: d_def of_u_def)
  define s e where "s = (if fl ((of_u c - of_u w / 2) / d) < 0 then 0 else fl ((of_u c - of_u w / 2) / d))"
    and "e = (if 1 < fl ((of_u c + of_u w / 2) / d) then 1 else fl ((of_u c + of_u w / 2) / d))"
  note p = clipped_pulse [OF b s_def e_def]
  obtain rp fp where "compileBounce (of_u c) M w dur = \<lparr>cp_lit = True, cp_startDelayMs = rc_ms (fl (of_u dur * s)),
      cp_durationMs = at_least_one (rc_ms (fl (of_u dur * fl (e - s)))), cp_risePct = rp, cp_fallPct = fp\<rparr>"
    unfolding compileBounce_def Let_def span fl_halves s_def [symmetric] e_def [symmetric] using assms p(1) by simp
  then show ?thesis using p(2) by (simp add: Let_def flip: d_def)
qed

lemma ripple_pulse:
  assumes "near \<le> far" and "far \<le> M" and "w \<noteq> 0" and "dur \<noteq> 0"
  shows "let d = of_u M + of_u w / 2 in pulse_near (compileRipple (of_u near) (of_u far) M w dur) dur
    (max 0 ((of_u near - of_u w / 2) / d)) (min 1 ((of_u far + of_u w / 2) / d))"
proof -
  define d where "d = of_u M + of_u w / 2"
  have b: "0 \<le> of_u near" "of_u near \<le> of_u far" "of_u far \<le> d" "1 / 2 \<le> of_u w / 2" "d \<le> 255 + of_u w / 2" "0 < d"
    using assms of_u_le [of near far] of_u_le [of far M] of_u_half [of w] of_u_bounds(1) [of near] of_u_bounds(1) [of M] of_u_bounds(2) [of M]
    by (auto simp: d_def)
  define s e where "s = (if fl ((of_u near - of_u w / 2) / d) < 0 then 0 else fl ((of_u near - of_u w / 2) / d))"
    and "e = (if 1 < fl ((of_u far + of_u w / 2) / d) then 1 else fl ((of_u far + of_u w / 2) / d))"
  note p = clipped_pulse [OF b s_def e_def]
  have fld: "fl d = d" unfolding d_def by (rule fl_halves)
  obtain rp fp where "compileRipple (of_u near) (of_u far) M w dur = \<lparr>cp_lit = True, cp_startDelayMs = rc_ms (fl (of_u dur * s)),
      cp_durationMs = at_least_one (rc_ms (fl (of_u dur * fl (e - s)))), cp_risePct = rp, cp_fallPct = fp\<rparr>"
    unfolding compileRipple_def Let_def fl_halves d_def [symmetric] fld s_def [symmetric] e_def [symmetric] using assms p(1) b(6) by simp
  then show ?thesis using p(2) by (simp add: Let_def flip: d_def)
qed

text \<open>
  C26. Each compiled pulse is the exact window of the sweep on that panel, within a millisecond: with coordinates up
  to the field's maximum \<open>M\<close>, width \<open>w\<close> and duration \<open>dur\<close>, the wave lights coordinate \<open>c\<close> over the share
  \<open>[c, c + w] / (M + w)\<close> of the duration, the chase over \<open>[c, c + 1] / (M + 1)\<close>, the bounce over
  \<open>[c - w/2, c + w/2] / max M 1\<close> and the ripple over \<open>[near - w/2, far + w/2] / (M + w/2)\<close>, the last two clipped to the
  whole sweep, although every step of the computation rounds to binary32.
\<close>

theorem compiled_pulses_exact:
  assumes "c \<le> M" and "near \<le> far" and "far \<le> M" and "w \<noteq> 0" and "dur \<noteq> 0"
  shows "pulse_near (compileWave (of_u c) M w dur) dur (of_u c / (of_u M + of_u w)) ((of_u c + of_u w) / (of_u M + of_u w))
    \<and> pulse_near (compileChase c M dur) dur (of_u c / (of_u M + 1)) ((of_u c + 1) / (of_u M + 1))
    \<and> (let d = max 1 (of_u M) in pulse_near (compileBounce (of_u c) M w dur) dur
        (max 0 ((of_u c - of_u w / 2) / d)) (min 1 ((of_u c + of_u w / 2) / d)))
    \<and> (let d = of_u M + of_u w / 2 in pulse_near (compileRipple (of_u near) (of_u far) M w dur) dur
        (max 0 ((of_u near - of_u w / 2) / d)) (min 1 ((of_u far + of_u w / 2) / d)))"
  using wave_pulse [of c M w dur] chase_pulse [of c M dur] bounce_pulse [of c M w dur] ripple_pulse [of near far M w dur] assms
  by (intro conjI) simp_all

lemma compiled_pulses_exact_witness:
  "pulse_near (compileWave (of_u (1 :: u8)) 3 2 1000) 1000 (1 / 5) (3 / 5)"
  using compiled_pulses_exact [of 1 3 1 2 2 1000] by (simp add: of_u_def)

end
