(* ===== verification/Panel_Geometry.thy ===== *)
theory Panel_Geometry
  imports
    Runner_Compile Scene_Topology
begin

text \<open>
  The planar layout of the panel tree and the geometric fields of the moving runners
  (\<open>Core/Controller/PanelGeometry.hpp\<close>). The functions of the C library that the code calls are the parameter
  \<open>libm\<close>; the square root is the correctly rounded one. An array of \<open>float\<close> is a list of reals.
\<close>

record libm =
  sinf :: "real \<Rightarrow> real"
  cosf :: "real \<Rightarrow> real"
  atan2f :: "real \<Rightarrow> real \<Rightarrow> real"

definition sqrtf :: "real \<Rightarrow> real" where
  "sqrtf x = fl (sqrt x)"

definition GEO_PI :: real where "GEO_PI = fl (314159265358979323846 / 10 ^ 20)"
definition EDGE_LEN :: real where "EDGE_LEN = 100"
definition MAXE :: nat where "MAXE = 8"

section \<open>The layout\<close>

type_synonym point = "real \<times> real"

record PanelGeometry =
  pgeo_graph :: PanelGraph
  pgeo_n :: nat
  pgeo_ec :: "nat list"
  pgeo_parent :: "nat list"
  pgeo_parentMyEdge :: "nat list"
  pgeo_parentPeerEdge :: "nat list"
  pgeo_bfsOrder :: "nat list"
  pgeo_rotDeg :: "real list"
  pgeo_refLocal :: "point list"
  pgeo_refWorld :: "point list"
  pgeo_centroid :: "point list"

definition pgeo_valid :: "PanelGeometry \<Rightarrow> bool" where "pgeo_valid geo \<longleftrightarrow> 0 < pgeo_n geo"

definition pgeo_centroidOf :: "PanelGeometry \<Rightarrow> u8 \<Rightarrow> point option" where
  "pgeo_centroidOf geo p = map_option (\<lambda>s. pgeo_centroid geo ! s) (pg_slotOf (pgeo_graph geo) p)"

definition pgeo_circumradiusOf :: "libm \<Rightarrow> PanelGeometry \<Rightarrow> u8 \<Rightarrow> real" where
  "pgeo_circumradiusOf m geo p =
     (case pg_slotOf (pgeo_graph geo) p of
        None \<Rightarrow> 0
      | Some s \<Rightarrow>
          (let N = pgeo_ec geo ! s
           in if N < 2 then 0 else fl (EDGE_LEN / fl (2 * sinf m (fl (GEO_PI / real N))))))"

text \<open>The queue of the search is also the order in which panels are placed.\<close>

record geo_search =
  gs_queue :: "nat list"
  gs_qh :: nat
  gs_visited :: "bool list"
  gs_parent :: "nat list"
  gs_myEdge :: "nat list"
  gs_peerEdge :: "nat list"

definition geo_visit :: "PanelGraph \<Rightarrow> nat \<Rightarrow> nat \<Rightarrow> geo_search \<Rightarrow> geo_search" where
  "geo_visit g u i st =
     (let v = pg_neighborSlot g u i
      in if gs_visited st ! v then st
         else st\<lparr>gs_visited := (gs_visited st)[v := True], gs_parent := (gs_parent st)[v := u],
                 gs_myEdge := (gs_myEdge st)[v := unat (pg_neighborPeerEdge g u i)],
                 gs_peerEdge := (gs_peerEdge st)[v := unat (pg_neighborMyEdge g u i)], gs_queue := gs_queue st @ [v]\<rparr>)"

definition geo_step :: "PanelGraph \<Rightarrow> geo_search \<Rightarrow> geo_search" where
  "geo_step g st =
     (let u = gs_queue st ! gs_qh st in fold (geo_visit g u) [0..<pg_degree g u] (st\<lparr>gs_qh := gs_qh st + 1\<rparr>))"

definition geo_more :: "geo_search \<Rightarrow> bool" where
  "geo_more st \<longleftrightarrow> gs_qh st < length (gs_queue st)"

definition geo_start :: "nat \<Rightarrow> nat \<Rightarrow> geo_search" where
  "geo_start n rootSlot =
     \<lparr>gs_queue = [rootSlot], gs_qh = 0, gs_visited = (replicate n False)[rootSlot := True],
      gs_parent = replicate n NO_PARENT, gs_myEdge = replicate n 0, gs_peerEdge = replicate n 0\<rparr>"

definition pgeo_bfsParents :: "PanelGraph \<Rightarrow> nat \<Rightarrow> geo_search option" where
  "pgeo_bfsParents g rootSlot = while_option geo_more (geo_step g) (geo_start (pg_n g) rootSlot)"

text \<open>Vertices of a regular polygon with one vertex at the origin; the last entry closes the polygon.\<close>

definition localVerts :: "libm \<Rightarrow> nat \<Rightarrow> point list" where
  "localVerts m N =
     (let step = fl (360 / real N)
      in fold (\<lambda>k vs.
           (let rad = fl (fl (step * real k) * fl (GEO_PI / 180)); (x, y) = vs ! k
            in vs @ [(fl (x + fl (EDGE_LEN * cosf m rad)), fl (y + fl (EDGE_LEN * sinf m rad)))])) [0..<N] [(0, 0)])"

definition applyT :: "libm \<Rightarrow> real \<Rightarrow> point \<Rightarrow> point \<Rightarrow> point \<Rightarrow> point" where
  "applyT m rotDeg refLocal refWorld p =
     (let rad = fl (rotDeg * fl (GEO_PI / 180));
          cosA = cosf m rad; sinA = sinf m rad;
          dx = fl (fst p - fst refLocal); dy = fl (snd p - snd refLocal)
      in (fl (fl (fl (cosA * dx) + fl (sinA * dy)) + fst refWorld), fl (fl (fl (- sinA * dx) + fl (cosA * dy)) + snd refWorld)))"

definition angleBetween :: "libm \<Rightarrow> real \<Rightarrow> real \<Rightarrow> real \<Rightarrow> real \<Rightarrow> real" where
  "angleBetween m ax ay bx by =
     (let cross = fl (fl (ax * by) - fl (ay * bx)); dot = fl (fl (ax * bx) + fl (ay * by))
      in fl (fl (atan2f m cross dot * 180) / GEO_PI))"

definition sides :: "PanelGeometry \<Rightarrow> nat \<Rightarrow> nat" where
  "sides geo s = (if pgeo_ec geo ! s \<le> MAXE then pgeo_ec geo ! s else MAXE)"

definition place_panel :: "libm \<Rightarrow> nat \<Rightarrow> PanelGeometry \<Rightarrow> PanelGeometry" where
  "place_panel m s geo =
     (let N = sides geo s;
          vs = localVerts m N;
          (rot, loc, world) =
            (if pgeo_parent geo ! s = NO_PARENT then (0, (0, 0), (0, 0))
             else
               (let p = pgeo_parent geo ! s;
                    ppe = pgeo_parentPeerEdge geo ! s; rme = pgeo_parentMyEdge geo ! s;
                    ppe = (if pgeo_ec geo ! p \<le> ppe then 0 else ppe);
                    rme = (if N \<le> rme then 0 else rme);
                    pvs = localVerts m (sides geo p);
                    T = applyT m (pgeo_rotDeg geo ! p) (pgeo_refLocal geo ! p) (pgeo_refWorld geo ! p);
                    (psx, psy) = T (pvs ! ppe); (pex, pey) = T (pvs ! (ppe + 1));
                    (rsx, rsy) = vs ! rme; (rex, rey) = vs ! (rme + 1)
                in (angleBetween m (fl (psx - pex)) (fl (psy - pey)) (fl (rex - rsx)) (fl (rey - rsy)), (rsx, rsy), (pex, pey))));
          lc = fold (\<lambda>k (x, y). (fl (x + fst (vs ! k)), fl (y + snd (vs ! k)))) [0..<N] (0, 0);
          lc = (fl (fst lc / real N), fl (snd lc / real N))
      in geo\<lparr>pgeo_rotDeg := (pgeo_rotDeg geo)[s := rot], pgeo_refLocal := (pgeo_refLocal geo)[s := loc],
             pgeo_refWorld := (pgeo_refWorld geo)[s := world], pgeo_centroid := (pgeo_centroid geo)[s := applyT m rot loc world lc]\<rparr>)"

definition pgeo_layout :: "libm \<Rightarrow> PanelGeometry \<Rightarrow> PanelGeometry" where
  "pgeo_layout m geo = fold (place_panel m) (pgeo_bfsOrder geo) geo"

definition pgeo_build :: "libm \<Rightarrow> PanelGraph \<Rightarrow> u8 list \<Rightarrow> u8 \<Rightarrow> PanelGeometry \<Rightarrow> (bool \<times> PanelGeometry) option" where
  "pgeo_build m g edgeCounts anchorPanelIdx geo =
     (let geo = geo\<lparr>pgeo_graph := g, pgeo_n := pg_count g\<rparr>
      in if pgeo_n geo = 0 then Some (False, geo)
         else
           (let ec = map (\<lambda>s. if edgeCounts ! s \<noteq> 0 then unat (edgeCounts ! s) else 1) [0..<pgeo_n geo];
                rootSlot = (case pg_slotOf g anchorPanelIdx of Some s \<Rightarrow> s | None \<Rightarrow> pg_lowestSlot g)
            in map_option
                 (\<lambda>st. (True, pgeo_layout m
                    (geo\<lparr>pgeo_ec := ec @ drop (pgeo_n geo) (pgeo_ec geo), pgeo_parent := gs_parent st,
                         pgeo_parentMyEdge := gs_myEdge st, pgeo_parentPeerEdge := gs_peerEdge st, pgeo_bfsOrder := gs_queue st\<rparr>)))
                 (pgeo_bfsParents g rootSlot)))"

definition pgeo_worldVertsOf :: "libm \<Rightarrow> PanelGeometry \<Rightarrow> u8 \<Rightarrow> point list option" where
  "pgeo_worldVertsOf m geo p =
     map_option (\<lambda>s. map (applyT m (pgeo_rotDeg geo ! s) (pgeo_refLocal geo ! s) (pgeo_refWorld geo ! s))
         (take (sides geo s) (localVerts m (sides geo s)))) (pg_slotOf (pgeo_graph geo) p)"

section \<open>Overlap of two panels\<close>

definition projectPolygon :: "point list \<Rightarrow> real \<Rightarrow> real \<Rightarrow> real \<times> real" where
  "projectPolygon ps ax ay =
     (let q = (\<lambda>p. fl (fl (fst p * ax) + fl (snd p * ay)))
      in fold (\<lambda>p (lo, hi). (if q p < lo then q p else lo, if hi < q p then q p else hi)) (tl ps) (q (hd ps), q (hd ps)))"

definition separating :: "point list \<Rightarrow> point list \<Rightarrow> real \<Rightarrow> point list \<Rightarrow> nat \<Rightarrow> bool" where
  "separating as bs eps ps i =
     (let j = (i + 1) mod length ps;
          nx = - fl (snd (ps ! j) - snd (ps ! i)); ny = fl (fst (ps ! j) - fst (ps ! i));
          (aMin, aMax) = projectPolygon as nx ny; (bMin, bMax) = projectPolygon bs nx ny
      in aMax \<le> fl (bMin + eps) \<or> bMax \<le> fl (aMin + eps))"

definition convexPolygonsOverlap :: "point list \<Rightarrow> point list \<Rightarrow> real \<Rightarrow> bool" where
  "convexPolygonsOverlap as bs eps \<longleftrightarrow>
     \<not> list_ex (separating as bs eps as) [0..<length as] \<and> \<not> list_ex (separating as bs eps bs) [0..<length bs]"

section \<open>Geometric fields\<close>

definition lowest :: "real \<Rightarrow> real option \<Rightarrow> real option" where
  "lowest x acc = (case acc of None \<Rightarrow> Some x | Some lo \<Rightarrow> Some (if x < lo then x else lo))"

definition highest :: "real \<Rightarrow> real option \<Rightarrow> real option" where
  "highest x acc = (case acc of None \<Rightarrow> Some x | Some hi \<Rightarrow> Some (if hi < x then x else hi))"

definition clamp_coord :: "nat \<Rightarrow> real \<Rightarrow> nat" where
  "clamp_coord maxC x =
     (let c = trunc (fl (x + fl (1 / 2))); c = (if c < 0 then 0 else c); c = (if int maxC < c then int maxC else c) in nat c)"

definition min_span :: real where "min_span = fl (1 / 10000)"

definition axis_projection :: "libm \<Rightarrow> PanelGeometry \<Rightarrow> real \<Rightarrow> u8 \<Rightarrow> real option" where
  "axis_projection m geo angleDeg p =
     (let rad = fl (angleDeg * fl (GEO_PI / 180))
      in map_option (\<lambda>(x, y). fl (fl (x * cosf m rad) + fl (y * sinf m rad))) (pgeo_centroidOf geo p))"

definition computeGeometricField ::
  "libm \<Rightarrow> PanelGeometry \<Rightarrow> u8 list \<Rightarrow> real \<Rightarrow> bool \<Rightarrow> nat \<Rightarrow> nat \<times> nat list" where
  "computeGeometricField m geo panels angleDeg reverse resolution =
     (let resolution = (if resolution = 0 then 1 else resolution);
          prs = List.map_filter (axis_projection m geo angleDeg) panels;
          zero = (0, map (\<lambda>_. 0) panels)
      in case (fold lowest prs None, fold highest prs None) of
           (Some minP, Some maxP) \<Rightarrow>
             (let span = fl (maxP - minP)
              in if span \<le> min_span then zero
                 else
                   (resolution,
                    map (\<lambda>p. case axis_projection m geo angleDeg p of
                               None \<Rightarrow> 0
                             | Some pr \<Rightarrow>
                                 (let c = clamp_coord resolution (fl (fl (fl (pr - minP) / span) * real resolution))
                                  in if reverse then resolution - c else c)) panels))
         | _ \<Rightarrow> zero)"

definition centroid_distance :: "real \<Rightarrow> real \<Rightarrow> point \<Rightarrow> real" where
  "centroid_distance px py q =
     (let dx = fl (px - fst q); dy = fl (py - snd q) in sqrtf (fl (fl (dx * dx) + fl (dy * dy))))"

definition source_centroids :: "PanelGeometry \<Rightarrow> TopologyIndex \<Rightarrow> PanelSet \<Rightarrow> point list" where
  "source_centroids geo topo src =
     List.map_filter (\<lambda>s. if ps_test src s then pgeo_centroidOf geo (ti_panelAt topo s) else None) [0..<ti_count topo]"

definition nearestRippleDist :: "PanelGeometry \<Rightarrow> TopologyIndex \<Rightarrow> PanelSet \<Rightarrow> point option \<Rightarrow> real \<Rightarrow> real \<Rightarrow> real option" where
  "nearestRippleDist geo topo src center px py =
     (case center of
        Some c \<Rightarrow> Some (centroid_distance px py c)
      | None \<Rightarrow> fold (\<lambda>q. lowest (centroid_distance px py q)) (source_centroids geo topo src) None)"

definition mean_point :: "point list \<Rightarrow> point option" where
  "mean_point qs =
     (if qs = [] then None
      else
        (let (sx, sy) = fold (\<lambda>q (x, y). (fl (x + fst q), fl (y + snd q))) qs (0, 0)
         in Some (fl (sx / real (length qs)), fl (sy / real (length qs)))))"

definition panel_band :: "libm \<Rightarrow> PanelGeometry \<Rightarrow> TopologyIndex \<Rightarrow> PanelSet \<Rightarrow> point option \<Rightarrow> u8 \<Rightarrow> (real option \<times> real) option" where
  "panel_band m geo topo src center p =
     map_option (\<lambda>(px, py). (nearestRippleDist geo topo src center px py, pgeo_circumradiusOf m geo p)) (pgeo_centroidOf geo p)"

text \<open>The quantised band of one panel, from its distance to the source and its radius.\<close>

definition band_coords :: "nat \<Rightarrow> real \<Rightarrow> bool \<Rightarrow> real \<Rightarrow> real \<Rightarrow> nat \<times> nat" where
  "band_coords resolution maxFar reverse c r =
     (let nd = fl (c - r); fd = fl (c + r);
          nd = (if nd < 0 then 0 else nd);
          nc = clamp_coord resolution (fl (fl (nd / maxFar) * real resolution));
          fc = clamp_coord resolution (fl (fl (fd / maxFar) * real resolution))
      in if reverse then (resolution - fc, resolution - nc) else (nc, fc))"

definition computeGeometricCenterField ::
  "libm \<Rightarrow> PanelGeometry \<Rightarrow> TopologyIndex \<Rightarrow> u8 list \<Rightarrow> u8 \<Rightarrow> u8 \<Rightarrow> bool \<Rightarrow> nat \<Rightarrow> nat \<times> (nat \<times> nat) list" where
  "computeGeometricCenterField m geo topo panels srcKind srcArg reverse resolution =
     (let resolution = (if resolution = 0 then 1 else resolution);
          src = buildSourceSet topo srcKind srcArg [];
          center = (if srcKind = SRC_ALL then mean_point (source_centroids geo topo src) else None);
          zero = (0, map (\<lambda>_. (0, 0)) panels)
      in if srcKind = SRC_ALL \<and> center = None then zero
         else
           (let fars = List.map_filter (\<lambda>p. case panel_band m geo topo src center p of
                           Some (Some best, r) \<Rightarrow> Some (fl (best + r)) | _ \<Rightarrow> None) panels
            in case fold highest fars None of
                 None \<Rightarrow> zero
               | Some maxFar \<Rightarrow>
                   if maxFar \<le> min_span then zero
                   else
                     (resolution,
                      map (\<lambda>p. case panel_band m geo topo src center p of
                                 None \<Rightarrow> (0, 0)
                               | Some (best, r) \<Rightarrow> band_coords resolution maxFar reverse (case best of None \<Rightarrow> 0 | Some b \<Rightarrow> b) r) panels)))"

definition FULL_TURN_RAD :: real where "FULL_TURN_RAD = fl (2 * GEO_PI)"

definition wheel_turn :: "libm \<Rightarrow> bool \<Rightarrow> point \<Rightarrow> point \<Rightarrow> real option" where
  "wheel_turn m reverse c q =
     (let dx = fl (fst q - fst c); dy = fl (snd q - snd c)
      in if \<bar>dx\<bar> \<le> min_span \<and> \<bar>dy\<bar> \<le> min_span then None
         else
           (let ang = atan2f m dy dx;
                ang = (if ang < 0 then fl (ang + FULL_TURN_RAD) else ang);
                t = fl (ang / FULL_TURN_RAD);
                t = (if 1 \<le> t then fl (t - 1) else t)
            in Some (if reverse then (if t = 0 then 0 else fl (1 - t)) else t)))"

text \<open>The result is absent when no bearing could be computed.\<close>

definition computeWheelField ::
  "libm \<Rightarrow> PanelGeometry \<Rightarrow> TopologyIndex \<Rightarrow> u8 list \<Rightarrow> u8 \<Rightarrow> u8 \<Rightarrow> bool \<Rightarrow> real list option" where
  "computeWheelField m geo topo panels srcKind srcArg reverse =
     (case mean_point (source_centroids geo topo (buildSourceSet topo srcKind srcArg [])) of
        None \<Rightarrow> None
      | Some c \<Rightarrow>
          (let ts = map (\<lambda>p. Option.bind (pgeo_centroidOf geo p) (wheel_turn m reverse c)) panels
           in if list_all (\<lambda>t. t = None) ts then None else Some (map (\<lambda>t. case t of None \<Rightarrow> 0 | Some x \<Rightarrow> x) ts)))"

section \<open>The layout is built\<close>

definition geo_inv :: "PanelGraph \<Rightarrow> nat \<Rightarrow> geo_search \<Rightarrow> bool" where
  "geo_inv g r st \<longleftrightarrow>
     length (gs_visited st) = pg_n g \<and> length (gs_parent st) = pg_n g \<and> distinct (gs_queue st) \<and> r \<in> set (gs_queue st)
     \<and> set (gs_queue st) = {v. v < pg_n g \<and> gs_visited st ! v} \<and> gs_qh st \<le> length (gs_queue st)
     \<and> set (gs_queue st) \<subseteq> reach g r
     \<and> (\<forall>v \<in> set (gs_queue st). v \<noteq> r \<longrightarrow> gs_parent st ! v \<in> set (gs_queue st) \<and> v \<in> set (nbrs g (gs_parent st ! v)))
     \<and> (\<forall>i < gs_qh st. set (nbrs g (gs_queue st ! i)) \<subseteq> set (gs_queue st))"

lemma geo_visit_inv:
  assumes g: "graph_ok g" and inv: "geo_inv g r st" and u: "u \<in> set (gs_queue st)" and i: "i < pg_degree g u"
  shows "geo_inv g r (geo_visit g u i st) \<and> pg_neighborSlot g u i \<in> set (gs_queue (geo_visit g u i st))
    \<and> (\<exists>new. gs_queue (geo_visit g u i st) = gs_queue st @ new) \<and> gs_qh (geo_visit g u i st) = gs_qh st"
proof -
  let ?v = "pg_neighborSlot g u i"
  have v: "?v \<in> set (nbrs g u)" using i by (auto simp: nbrs_def)
  have un: "u < pg_n g" "u \<in> reach g r" using inv u by (auto simp: geo_inv_def)
  then have vn: "?v < pg_n g" using g v by (auto simp: graph_ok_def)
  obtain k where "u \<in> hop_set (nbrs g) {r} k" using un(2) by (auto simp: reach_def)
  then have "?v \<in> hop_set (nbrs g) {r} (Suc k)" using v by auto
  then have vr: "?v \<in> reach g r" using vn unfolding reach_def by blast
  show ?thesis
  proof (cases "gs_visited st ! ?v")
    case False
    then have new: "?v \<notin> set (gs_queue st)" "?v \<noteq> r" using inv by (auto simp: geo_inv_def)
    have st: "geo_visit g u i st = st\<lparr>gs_visited := (gs_visited st)[?v := True], gs_parent := (gs_parent st)[?v := u],
                gs_myEdge := (gs_myEdge st)[?v := unat (pg_neighborPeerEdge g u i)],
                gs_peerEdge := (gs_peerEdge st)[?v := unat (pg_neighborMyEdge g u i)], gs_queue := gs_queue st @ [?v]\<rparr>"
      using False by (simp add: geo_visit_def Let_def)
    have par: "(gs_parent st)[?v := u] ! x = (if x = ?v then u else gs_parent st ! x)" for x
      using inv vn by (simp add: geo_inv_def nth_list_update)
    have vis: "(gs_visited st)[?v := True] ! x = (x = ?v \<or> gs_visited st ! x)" for x
      using inv vn by (simp add: geo_inv_def nth_list_update)
    have past: "(gs_queue st @ [?v]) ! j = gs_queue st ! j" if "j < gs_qh st" for j
      using that inv by (simp add: geo_inv_def nth_append)
    have old: "set (nbrs g (gs_queue st ! j)) \<subseteq> set (gs_queue st @ [?v])" if "j < gs_qh st" for j
      using that inv unfolding geo_inv_def by fastforce
    have "geo_inv g r (geo_visit g u i st)"
      using inv new vn vr v u old unfolding geo_inv_def st by (simp add: par vis past) blast
    then show ?thesis by (simp add: st)
  next
    case True
    then have "geo_visit g u i st = st" by (simp add: geo_visit_def Let_def)
    moreover have "?v \<in> set (gs_queue st)" using True vn inv unfolding geo_inv_def by blast
    ultimately show ?thesis using inv by simp
  qed
qed

lemma geo_fold_inv:
  assumes g: "graph_ok g"
  shows "\<lbrakk>geo_inv g r st; u \<in> set (gs_queue st); \<forall>i \<in> set is. i < pg_degree g u\<rbrakk> \<Longrightarrow>
    geo_inv g r (fold (geo_visit g u) is st) \<and> pg_neighborSlot g u ` set is \<subseteq> set (gs_queue (fold (geo_visit g u) is st))
    \<and> (\<exists>new. gs_queue (fold (geo_visit g u) is st) = gs_queue st @ new) \<and> gs_qh (fold (geo_visit g u) is st) = gs_qh st"
proof (induction "is" arbitrary: st)
  case (Cons i js)
  let ?st = "geo_visit g u i st"
  have i: "i < pg_degree g u" "\<forall>i \<in> set js. i < pg_degree g u" using Cons.prems(3) by simp_all
  have v: "geo_inv g r ?st" "pg_neighborSlot g u i \<in> set (gs_queue ?st)" "\<exists>new. gs_queue ?st = gs_queue st @ new" "gs_qh ?st = gs_qh st"
    using geo_visit_inv [OF g Cons.prems(1,2) i(1)] by blast+
  have "u \<in> set (gs_queue ?st)" using Cons.prems(2) v(3) by auto
  note IH = Cons.IH [OF v(1) this i(2)]
  have "set (gs_queue ?st) \<subseteq> set (gs_queue (fold (geo_visit g u) js ?st))" using IH by force
  then show ?case using IH v by force
qed auto

lemma geo_visit_qh: "geo_visit g u i (s\<lparr>gs_qh := k\<rparr>) = (geo_visit g u i s)\<lparr>gs_qh := k\<rparr>"
  by (simp add: geo_visit_def Let_def)

lemma geo_inv_qh:
  assumes "geo_inv g r x" and "k \<le> length (gs_queue x)" and "\<And>i. i < k \<Longrightarrow> set (nbrs g (gs_queue x ! i)) \<subseteq> set (gs_queue x)"
  shows "geo_inv g r (x\<lparr>gs_qh := k\<rparr>)"
proof -
  have sel: "gs_queue (x\<lparr>gs_qh := k\<rparr>) = gs_queue x" "gs_visited (x\<lparr>gs_qh := k\<rparr>) = gs_visited x" "gs_parent (x\<lparr>gs_qh := k\<rparr>) = gs_parent x"
    "gs_qh (x\<lparr>gs_qh := k\<rparr>) = k" by simp_all
  show ?thesis unfolding geo_inv_def sel
    by (insert assms(1) [unfolded geo_inv_def], elim conjE, intro conjI allI impI assms(2,3)) assumption+
qed

lemma geo_step_inv:
  assumes g: "graph_ok g" and inv: "geo_inv g r st" and more: "geo_more st"
  shows "geo_inv g r (geo_step g st)" and "gs_qh (geo_step g st) = Suc (gs_qh st)"
proof -
  let ?u = "gs_queue st ! gs_qh st"
  have u: "?u \<in> set (gs_queue st)" using more by (simp add: geo_more_def)
  let ?fin = "fold (geo_visit g ?u) [0..<pg_degree g ?u] st"
  have shift: "fold (geo_visit g ?u) is (s\<lparr>gs_qh := k\<rparr>) = (fold (geo_visit g ?u) is s)\<lparr>gs_qh := k\<rparr>" for "is" s k
    by (induction "is" arbitrary: s) (simp_all add: geo_visit_qh)
  have e: "geo_inv g r ?fin" "pg_neighborSlot g ?u ` set [0..<pg_degree g ?u] \<subseteq> set (gs_queue ?fin)"
    "\<exists>new. gs_queue ?fin = gs_queue st @ new" "gs_qh ?fin = gs_qh st"
    using geo_fold_inv [OF g inv u, of "[0..<pg_degree g ?u]"] by auto
  have st: "geo_step g st = ?fin\<lparr>gs_qh := Suc (gs_qh st)\<rparr>" by (simp add: geo_step_def Let_def shift)
  have n: "set (nbrs g ?u) \<subseteq> set (gs_queue ?fin)" using e(2) by (auto simp: nbrs_def)
  have q: "gs_queue ?fin ! gs_qh st = ?u" "Suc (gs_qh st) \<le> length (gs_queue ?fin)"
    using more e(3) by (auto simp: nth_append geo_more_def)
  have past: "set (nbrs g (gs_queue ?fin ! i)) \<subseteq> set (gs_queue ?fin)" if "i < Suc (gs_qh st)" for i
  proof (cases "i = gs_qh st")
    case False
    then have "i < gs_qh ?fin" using that e(4) by simp
    then show ?thesis using e(1) unfolding geo_inv_def by blast
  qed (use n q(1) in simp)
  show "geo_inv g r (geo_step g st)" unfolding st by (rule geo_inv_qh [OF e(1) q(2) past])
  show "gs_qh (geo_step g st) = Suc (gs_qh st)" by (simp add: st)
qed

text \<open>The search ends and queues exactly the slots that hang together with the root, each after its parent link.\<close>

lemma geo_search_ends:
  assumes g: "graph_ok g" and r: "r < pg_n g"
  shows "\<exists>st. pgeo_bfsParents g r = Some st \<and> geo_inv g r st \<and> set (gs_queue st) = reach g r"
proof -
  have "r \<in> reach g r" using r unfolding reach_def by (auto intro: exI [of _ 0])
  moreover have "(replicate (pg_n g) False)[r := True] ! v \<longleftrightarrow> v = r" if "v < pg_n g" for v using that r by (simp add: nth_list_update)
  ultimately have start: "geo_inv g r (geo_start (pg_n g) r)" using r unfolding geo_inv_def geo_start_def by auto
  have bound: "gs_qh s \<le> pg_n g" if s: "geo_inv g r s" for s
  proof -
    have "distinct (gs_queue s)" "gs_qh s \<le> length (gs_queue s)" "set (gs_queue s) = {v. v < pg_n g \<and> gs_visited s ! v}"
      using s unfolding geo_inv_def by blast+
    moreover from this(3) have "set (gs_queue s) \<subseteq> {..<pg_n g}" by auto
    ultimately show ?thesis using distinct_card [of "gs_queue s"] card_mono [of "{..<pg_n g}" "set (gs_queue s)"] by simp
  qed
  have "\<exists>st. pgeo_bfsParents g r = Some st"
    unfolding pgeo_bfsParents_def
  proof (rule measure_while_option_Some [where P = "geo_inv g r" and f = "\<lambda>s. Suc (pg_n g) - gs_qh s"])
    fix s assume s: "geo_inv g r s" "geo_more s"
    show "geo_inv g r (geo_step g s) \<and> Suc (pg_n g) - gs_qh (geo_step g s) < Suc (pg_n g) - gs_qh s"
      using geo_step_inv [OF g s] bound [OF geo_step_inv(1) [OF g s]] by simp
  qed (rule start)
  then obtain st where st: "pgeo_bfsParents g r = Some st" by blast
  have inv: "geo_inv g r st"
    by (rule while_option_rule [where P = "geo_inv g r", OF _ st [unfolded pgeo_bfsParents_def] start]) (rule geo_step_inv [OF g])
  have "\<not> geo_more st" using while_option_stop [OF st [unfolded pgeo_bfsParents_def]] .
  then have all: "gs_qh st = length (gs_queue st)" using inv by (simp add: geo_inv_def geo_more_def)
  have closed: "set (nbrs g u) \<subseteq> set (gs_queue st)" if uq: "u \<in> set (gs_queue st)" for u
  proof -
    obtain i where "i < length (gs_queue st)" "u = gs_queue st ! i" using uq by (auto simp: in_set_conv_nth)
    then show ?thesis using inv all unfolding geo_inv_def by metis
  qed
  have "v \<in> hop_set (nbrs g) {r} k \<Longrightarrow> v \<in> set (gs_queue st)" for v k
  proof (induction k arbitrary: v)
    case (Suc k)
    then show ?case using closed by auto
  qed (use inv in \<open>auto simp: geo_inv_def\<close>)
  then have "reach g r \<subseteq> set (gs_queue st)" by (auto simp: reach_def)
  moreover have "set (gs_queue st) \<subseteq> reach g r" using inv unfolding geo_inv_def by blast
  ultimately show ?thesis using st inv by blast
qed

lemma pgeo_build_total:
  assumes "graph_ok g" and "pg_n g = 0 \<or> pg_slotOf g a \<noteq> None \<and> the (pg_slotOf g a) < pg_n g \<or> pg_slotOf g a = None \<and> pg_lowestSlot g < pg_n g"
  shows "pgeo_build m g ec a geo \<noteq> None"
proof (cases "pg_n g = 0")
  case False
  let ?r = "case pg_slotOf g a of Some s \<Rightarrow> s | None \<Rightarrow> pg_lowestSlot g"
  have "?r < pg_n g" using assms(2) False by (auto split: option.splits)
  then show ?thesis using geo_search_ends [OF assms(1)] False by (fastforce simp: pgeo_build_def Let_def pg_count_def)
qed (simp add: pgeo_build_def Let_def pg_count_def)

section \<open>The fields are valid inputs of the runners\<close>

lemma trunc_mono: "x \<le> y \<Longrightarrow> trunc x \<le> trunc y"
proof -
  assume le: "x \<le> y"
  consider "y < 0" | "x < 0" "0 \<le> y" | "0 \<le> x" "0 \<le> y" using le by linarith
  then show ?thesis
  proof cases
    case 2
    then have "0 \<le> \<lfloor>- x\<rfloor>" "0 \<le> \<lfloor>y\<rfloor>" by simp_all
    then have "- \<lfloor>- x\<rfloor> \<le> \<lfloor>y\<rfloor>" by linarith
    then show ?thesis using 2 by (simp add: trunc_def)
  qed (use le in \<open>auto simp: trunc_def floor_mono\<close>)
qed

lemma clamp_coord_le: "clamp_coord n x \<le> n"
  by (simp add: clamp_coord_def Let_def nat_le_iff)

lemma clamp_coord_mono:
  assumes "x \<le> y"
  shows "clamp_coord n x \<le> clamp_coord n y"
proof -
  have "trunc (fl (x + fl (1 / 2))) \<le> trunc (fl (y + fl (1 / 2)))" using assms by (intro trunc_mono fl_mono) simp
  then show ?thesis by (simp add: clamp_coord_def Let_def nat_le_iff nat_mono)
qed

lemma scaled_mono:
  assumes "x \<le> y" and "0 < d"
  shows "clamp_coord n (fl (fl (x / d) * real k)) \<le> clamp_coord n (fl (fl (y / d) * real k))"
proof -
  have "x / d \<le> y / d" using assms by (intro divide_right_mono) auto
  then have "fl (x / d) * real k \<le> fl (y / d) * real k" by (intro mult_right_mono fl_mono) auto
  then show ?thesis by (intro clamp_coord_mono fl_mono)
qed

text \<open>A field: one coordinate per panel, none above the maximum.\<close>

definition field_ok :: "u8 list \<Rightarrow> nat \<Rightarrow> nat \<times> nat list \<Rightarrow> bool" where
  "field_ok panels res fld \<longleftrightarrow> length (snd fld) = length panels \<and> fst fld \<le> max 1 res \<and> (\<forall>c \<in> set (snd fld). c \<le> fst fld)"

lemma extremes_pos: "fold lowest xs None = Some lo \<Longrightarrow> fold highest xs None = Some hi \<Longrightarrow> x \<in> set xs \<Longrightarrow> lo \<le> x \<and> x \<le> hi"
proof -
  have "fold lowest xs (Some a) = Some (fold (\<lambda>x a. if x < a then x else a) xs a)" for xs a
    by (induction xs arbitrary: a) (simp_all add: lowest_def)
  moreover have "fold highest xs (Some a) = Some (fold (\<lambda>x a. if a < x then x else a) xs a)" for xs a
    by (induction xs arbitrary: a) (simp_all add: highest_def)
  moreover have "fold (\<lambda>x a. if x < a then x else a) xs a \<le> a \<and> (\<forall>x \<in> set xs. fold (\<lambda>x a. if x < a then x else a) xs a \<le> x)" for xs and a :: real
    by (induction xs arbitrary: a) (auto, (meson linorder_not_le order_trans less_imp_le)+)
  moreover have "a \<le> fold (\<lambda>x a. if a < x then x else a) xs a \<and> (\<forall>x \<in> set xs. x \<le> fold (\<lambda>x a. if a < x then x else a) xs a)" for xs and a :: real
    by (induction xs arbitrary: a) (auto, (meson linorder_not_le order_trans less_imp_le)+)
  ultimately show "fold lowest xs None = Some lo \<Longrightarrow> fold highest xs None = Some hi \<Longrightarrow> x \<in> set xs \<Longrightarrow> lo \<le> x \<and> x \<le> hi"
    by (cases xs) (auto simp: lowest_def highest_def)
qed

lemma axis_field_ok:
  "field_ok panels res (computeGeometricField m geo panels a flip res)"
  by (auto simp: field_ok_def computeGeometricField_def Let_def clamp_coord_le split: option.splits)

definition field_order :: "(u8 \<Rightarrow> real option) \<Rightarrow> bool \<Rightarrow> u8 list \<Rightarrow> nat list \<Rightarrow> bool" where
  "field_order proj flip panels cs \<longleftrightarrow>
     (\<forall>i < length panels. \<forall>j < length panels. \<forall>x y. proj (panels ! i) = Some x \<and> proj (panels ! j) = Some y \<and> x \<le> y \<longrightarrow>
        (if flip then cs ! j \<le> cs ! i else cs ! i \<le> cs ! j))"

lemma axis_field_order:
  "field_order (axis_projection m geo a) flip panels (snd (computeGeometricField m geo panels a flip res))"
proof -
  let ?res = "if res = 0 then 1 else res" and ?proj = "axis_projection m geo a"
  have pos: "0 < fl d" if "\<not> fl d \<le> min_span" for d
    using that fl_nonneg [of "1 / 10000"] by (simp add: min_span_def)
  have mono: "clamp_coord ?res (fl (fl (fl (x - lo) / fl d) * real ?res)) \<le> clamp_coord ?res (fl (fl (fl (y - lo) / fl d) * real ?res))"
    if "x \<le> y" "\<not> fl d \<le> min_span" for x y lo d
    using that pos by (intro scaled_mono) (auto intro: fl_mono)
  show ?thesis unfolding field_order_def
  proof (intro allI impI)
    fix i j x y
    assume ij: "i < length panels" "j < length panels" "?proj (panels ! i) = Some x \<and> ?proj (panels ! j) = Some y \<and> x \<le> y"
    show "if flip then snd (computeGeometricField m geo panels a flip res) ! j \<le> snd (computeGeometricField m geo panels a flip res) ! i
        else snd (computeGeometricField m geo panels a flip res) ! i \<le> snd (computeGeometricField m geo panels a flip res) ! j"
      using ij mono [of x y] by (auto simp: computeGeometricField_def Let_def diff_le_mono2 split: option.split)
  qed
qed

text \<open>The radial bands: near below far below the maximum.\<close>

definition band_ok :: "u8 list \<Rightarrow> nat \<Rightarrow> nat \<times> (nat \<times> nat) list \<Rightarrow> bool" where
  "band_ok panels res fld \<longleftrightarrow> length (snd fld) = length panels \<and> fst fld \<le> max 1 res \<and> (\<forall>(near, far) \<in> set (snd fld). near \<le> far \<and> far \<le> fst fld)"

definition libm_ok :: "libm \<Rightarrow> bool" where
  "libm_ok m \<longleftrightarrow> (\<forall>y x. \<bar>atan2f m y x\<bar> \<le> GEO_PI) \<and> (\<forall>x. 0 \<le> x \<and> x \<le> 2 \<longrightarrow> 0 \<le> sinf m x)"

lemma geo_pi_bounds: "0 \<le> GEO_PI" "GEO_PI \<le> 4"
proof -
  show "0 \<le> GEO_PI" unfolding GEO_PI_def by (rule fl_nonneg) simp
  have "fl (314159265358979323846 / 10 ^ 20) \<le> fl 4" by (rule fl_mono) simp
  then show "GEO_PI \<le> 4" by (simp add: GEO_PI_def)
qed

lemma circumradius_nonneg: "libm_ok m \<Longrightarrow> 0 \<le> pgeo_circumradiusOf m geo p"
proof (cases "pg_slotOf (pgeo_graph geo) p")
  case (Some s)
  assume m: "libm_ok m"
  show ?thesis
  proof (cases "pgeo_ec geo ! s < 2")
    case False
    let ?N = "real (pgeo_ec geo ! s)"
    have "GEO_PI / ?N \<le> 4 / 2" using False geo_pi_bounds by (intro frac_le) auto
    then have "fl (GEO_PI / ?N) \<le> fl 2" by (intro fl_mono) simp
    then have "fl (GEO_PI / ?N) \<le> 2" "0 \<le> fl (GEO_PI / ?N)" using geo_pi_bounds by (auto intro!: fl_nonneg)
    then have "0 \<le> sinf m (fl (GEO_PI / ?N))" using m by (simp add: libm_ok_def)
    then show ?thesis using Some False by (simp add: pgeo_circumradiusOf_def Let_def EDGE_LEN_def fl_nonneg)
  qed (use Some in \<open>simp add: pgeo_circumradiusOf_def\<close>)
qed (simp add: pgeo_circumradiusOf_def)

lemma band_coords_ok:
  assumes "0 \<le> r" and "0 \<le> c" and "\<not> maxFar \<le> min_span"
  shows "case band_coords res maxFar flip c r of (near, far) \<Rightarrow> near \<le> far \<and> far \<le> res"
proof -
  have "0 \<le> min_span" unfolding min_span_def by (rule fl_nonneg) simp
  then have "0 < maxFar" using assms(3) by linarith
  moreover have "(if fl (c - r) < 0 then 0 else fl (c - r)) \<le> fl (c + r)" using assms fl_mono [of "c - r" "c + r"] fl_nonneg [of "c + r"] by auto
  ultimately have "clamp_coord res (fl (fl ((if fl (c - r) < 0 then 0 else fl (c - r)) / maxFar) * real res))
      \<le> clamp_coord res (fl (fl (fl (c + r) / maxFar) * real res))" by (intro scaled_mono)
  then show ?thesis by (simp add: band_coords_def Let_def clamp_coord_le diff_le_mono2)
qed

lemma centroid_distance_nonneg: "0 \<le> centroid_distance px py q"
  unfolding centroid_distance_def sqrtf_def Let_def by (intro fl_nonneg real_sqrt_ge_zero add_nonneg_nonneg) (auto intro!: fl_nonneg)

lemma lowest_nonneg:
  assumes "\<And>q. 0 \<le> f q"
  shows "fold (\<lambda>q. lowest (f q)) qs acc = Some d \<Longrightarrow> (\<And>a. acc = Some a \<Longrightarrow> 0 \<le> a) \<Longrightarrow> 0 \<le> d"
proof (induction qs arbitrary: acc)
  case (Cons q qs)
  show ?case
    by (rule Cons.IH [of "lowest (f q) acc"]) (use Cons.prems assms in \<open>auto simp: lowest_def split: option.splits if_splits\<close>)
qed simp

lemma nearest_nonneg: "nearestRippleDist geo topo src center px py = Some d \<Longrightarrow> 0 \<le> d"
  using lowest_nonneg [of "centroid_distance px py" "source_centroids geo topo src" None d] centroid_distance_nonneg
  by (cases center) (simp_all add: nearestRippleDist_def, metis)

lemma panel_band_nonneg:
  assumes "libm_ok m" and "panel_band m geo topo src center p = Some (b, r)"
  shows "0 \<le> r" "0 \<le> (case b of None \<Rightarrow> 0 | Some x \<Rightarrow> x)"
  using assms circumradius_nonneg nearest_nonneg by (auto simp: panel_band_def split: option.splits)

lemma center_field_ok:
  assumes "libm_ok m"
  shows "band_ok panels res (computeGeometricCenterField m geo topo panels kind arg flip res)"
proof -
  define src where "src = buildSourceSet topo kind arg []"
  define center where "center = (if kind = SRC_ALL then mean_point (source_centroids geo topo src) else None)"
  have one: "near \<le> far" "far \<le> k"
    if "panel_band m geo topo src center p = Some (b, r)" "\<not> mf \<le> min_span"
      "band_coords k mf flip (case b of None \<Rightarrow> 0 | Some b \<Rightarrow> b) r = (near, far)" for src center p k mf b r near far
    using band_coords_ok [OF panel_band_nonneg [OF assms that(1)] that(2), of k flip] that(3) by auto
  have zero: "band_ok panels res (0, map (\<lambda>_. (0, 0)) panels)" by (auto simp: band_ok_def)
  show ?thesis
    unfolding computeGeometricCenterField_def Let_def src_def [symmetric] center_def [symmetric]
    using zero by (auto simp: band_ok_def dest: one split: option.split simp del: split_paired_All)
qed

lemma wheel_turn_range:
  assumes "libm_ok m" and "wheel_turn m flip c q = Some t"
  shows "0 \<le> t \<and> t \<le> 1"
proof -
  define ang where "ang = (let a = atan2f m (fl (snd q - snd c)) (fl (fst q - fst c)) in if a < 0 then fl (a + FULL_TURN_RAD) else a)"
  define u where "u = fl (ang / FULL_TURN_RAD)"
  define v where "v = (if 1 \<le> u then fl (u - 1) else u)"
  have full: "GEO_PI \<le> FULL_TURN_RAD" "0 < FULL_TURN_RAD"
  proof -
    have "fl 3 \<le> GEO_PI" unfolding GEO_PI_def by (rule fl_mono) simp
    then have three: "3 \<le> GEO_PI" by simp
    have g: "fl GEO_PI = GEO_PI" by (simp add: GEO_PI_def)
    have "fl GEO_PI \<le> FULL_TURN_RAD" unfolding FULL_TURN_RAD_def using three by (intro fl_mono) simp
    then show "GEO_PI \<le> FULL_TURN_RAD" "0 < FULL_TURN_RAD" using g three by auto
  qed
  have a: "\<bar>atan2f m y x\<bar> \<le> GEO_PI" for y x using assms(1) by (simp add: libm_ok_def)
  have "0 \<le> ang \<and> ang \<le> FULL_TURN_RAD"
  proof -
    define b where "b = atan2f m (fl (snd q - snd c)) (fl (fst q - fst c))"
    have b: "- GEO_PI \<le> b" "b \<le> GEO_PI" using a [of "fl (snd q - snd c)" "fl (fst q - fst c)"] by (simp_all add: b_def abs_le_iff)
    have "fl FULL_TURN_RAD = FULL_TURN_RAD" by (simp add: FULL_TURN_RAD_def)
    then have "fl (b + FULL_TURN_RAD) \<le> FULL_TURN_RAD" if "b < 0" using that fl_mono [of "b + FULL_TURN_RAD" FULL_TURN_RAD] by simp
    moreover have "0 \<le> fl (b + FULL_TURN_RAD)" using b full by (intro fl_nonneg) simp
    ultimately show ?thesis using b full by (auto simp: ang_def Let_def simp flip: b_def)
  qed
  then have "0 \<le> ang / FULL_TURN_RAD" "ang / FULL_TURN_RAD \<le> 1" using full by simp_all
  then have u: "0 \<le> u" "u \<le> fl 1" unfolding u_def by (auto intro: fl_nonneg fl_mono simp del: fl_one)
  then have v: "0 \<le> v" "v \<le> 1" by (auto simp: v_def intro!: fl_nonneg)
  have "fl (1 - v) \<le> 1" "0 \<le> fl (1 - v)" using v fl_mono [of "1 - v" 1] by (simp_all add: fl_nonneg)
  moreover have "t = (if flip then if v = 0 then 0 else fl (1 - v) else v)"
    using assms(2) by (auto simp: wheel_turn_def Let_def ang_def u_def v_def split: if_splits)
  ultimately show ?thesis using v by auto
qed

text \<open>
  Whatever the layout, the geometric fields are valid inputs of the compiled sweeps: the axis sweep gives every
  panel a coordinate between 0 and its maximum, ordered as the projections of the panels on the axis (the other way
  round when reversed); the radial field gives bands whose near edge is not beyond the far edge, within the maximum;
  and the wheel's bearings lie between 0 and 1 turn. About the C library it is used that \<open>atan2f\<close> stays within
  half a turn and that \<open>sinf\<close> is not negative between 0 and 2.
\<close>

theorem geometric_fields_valid:
  assumes "libm_ok m"
  shows "field_ok panels res (computeGeometricField m geo panels a flip res)
    \<and> field_order (axis_projection m geo a) flip panels (snd (computeGeometricField m geo panels a flip res))
    \<and> band_ok panels res (computeGeometricCenterField m geo topo panels kind arg flip res)
    \<and> (\<forall>ts. computeWheelField m geo topo panels kind arg flip = Some ts \<longrightarrow> length ts = length panels \<and> (\<forall>t \<in> set ts. 0 \<le> t \<and> t \<le> 1))"
proof (intro conjI allI impI)
  fix ts
  assume "computeWheelField m geo topo panels kind arg flip = Some ts"
  then obtain c where ts: "ts = map (\<lambda>t. case t of None \<Rightarrow> 0 | Some x \<Rightarrow> x) (map (\<lambda>p. Option.bind (pgeo_centroidOf geo p) (wheel_turn m flip c)) panels)"
    by (auto simp: computeWheelField_def Let_def split: option.splits if_splits)
  then show "length ts = length panels" by simp
  show "\<forall>t \<in> set ts. 0 \<le> t \<and> t \<le> 1"
    using wheel_turn_range [OF assms] by (auto simp: ts split: option.splits bind_splits)
qed (rule axis_field_ok axis_field_order center_field_ok [OF assms])+

text \<open>A crude library: the quadrant of the bearing, and rounded sines.\<close>

definition quadrant_libm :: libm where
  "quadrant_libm = \<lparr>sinf = (\<lambda>x. fl (sin x)), cosf = (\<lambda>x. fl (cos x)),
     atan2f = (\<lambda>y x. if y < 0 then - fl (GEO_PI / 2) else fl (GEO_PI / 2))\<rparr>"

lemma quadrant_ok: "libm_ok quadrant_libm"
proof -
  have "0 \<le> fl (GEO_PI / 2)" "fl (GEO_PI / 2) \<le> fl GEO_PI" using geo_pi_bounds by (auto intro!: fl_nonneg fl_mono)
  moreover have "fl GEO_PI = GEO_PI" by (simp add: GEO_PI_def)
  moreover have "0 \<le> sin x" if "0 \<le> x" "x \<le> 2" for x :: real using that pi_ge_two by (intro sin_ge_zero) auto
  ultimately show ?thesis by (simp add: libm_ok_def quadrant_libm_def fl_nonneg)
qed

lemma geometric_fields_valid_witness:
  "\<forall>geo topo. field_ok [1, 2] 3 (computeGeometricField quadrant_libm geo [1, 2] 90 False 3)
    \<and> band_ok [1, 2] 3 (computeGeometricCenterField quadrant_libm geo topo [1, 2] SRC_ROOT 0 True 3)"
  using geometric_fields_valid [OF quadrant_ok] by blast

end
