(* ===== verification/Scene_Data.thy ===== *)
theory Scene_Data
  imports
    Runner_Spawn Panel_Geometry
begin

text \<open>
  The data of a scene (\<open>Core/Controller/ScenePlayer.hpp\<close>) and what a layer's steps say about the slots it uses
  on the panels (the helpers of \<open>ScenePlayer.cpp\<close>). Counts behind arrays are natural numbers; a \<open>char\<close> array is
  the string up to its terminating zero.
\<close>

section \<open>Constants\<close>

definition SCENE_MAX_LAYERS :: nat where "SCENE_MAX_LAYERS = 8"
definition SCENE_MAX_STEPS :: nat where "SCENE_MAX_STEPS = 12"
definition SCENE_MAX_RESOLVED_PANELS :: nat where "SCENE_MAX_RESOLVED_PANELS = LIGHTNET_MAX_PANELS"
definition SCENE_NO_STEP_INDEX :: u8 where "SCENE_NO_STEP_INDEX = 0xFF"

definition ANIM_GAP :: u8 where "ANIM_GAP = 9"
definition RUN_WAVE :: u8 where "RUN_WAVE = 64"
definition RUN_RIPPLE :: u8 where "RUN_RIPPLE = 65"
definition RUN_CHASE :: u8 where "RUN_CHASE = 66"
definition RUN_WHEEL :: u8 where "RUN_WHEEL = 67"
definition RUN_BOUNCE :: u8 where "RUN_BOUNCE = 68"
definition RUN_RAIN :: u8 where "RUN_RAIN = 69"
definition RUN_SPARKLE :: u8 where "RUN_SPARKLE = 70"
definition RUN_MATRIX :: u8 where "RUN_MATRIX = 71"

lemmas run_types = ANIM_GAP_def RUN_WAVE_def RUN_RIPPLE_def RUN_CHASE_def RUN_WHEEL_def RUN_BOUNCE_def RUN_RAIN_def
  RUN_SPARKLE_def RUN_MATRIX_def

definition isRunnerType :: "u8 \<Rightarrow> bool" where "isRunnerType t \<longleftrightarrow> 64 \<le> t"

definition STEP_PARAM_PREPARE_1 :: nat where "STEP_PARAM_PREPARE_1 = 0"
definition STEP_PARAM_PREPARE_2 :: nat where "STEP_PARAM_PREPARE_2 = 1"

definition RUNNER_PARAM_WIDTH :: nat where "RUNNER_PARAM_WIDTH = 0"
definition RUNNER_PARAM_SRC_KIND :: nat where "RUNNER_PARAM_SRC_KIND = 1"
definition RUNNER_PARAM_SRC_ARG :: nat where "RUNNER_PARAM_SRC_ARG = 2"
definition RUNNER_PARAM_FLAGS :: nat where "RUNNER_PARAM_FLAGS = 3"
definition RUNNER_PARAM_AMOUNT :: nat where "RUNNER_PARAM_AMOUNT = 4"
definition RUNNER_PARAM_LINES :: nat where "RUNNER_PARAM_LINES = 5"
definition RUNNER_PARAM_COUNT :: nat where "RUNNER_PARAM_COUNT = 5"
definition RUNNER_PARAM_WAVES :: nat where "RUNNER_PARAM_WAVES = 5"
definition RUNNER_FLAG_REVERSE :: u8 where "RUNNER_FLAG_REVERSE = 0x01"
definition RUNNER_FLAG_GEOMETRIC :: u8 where "RUNNER_FLAG_GEOMETRIC = 0x02"

definition LAYER_ASYNC_LOOP :: u8 where "LAYER_ASYNC_LOOP = 0x01"
definition LAYER_ASYNC_NON_BLOCKING :: u8 where "LAYER_ASYNC_NON_BLOCKING = 0x02"

definition SPAWN_MAX_BURST :: u8 where "SPAWN_MAX_BURST = 8"
definition SPAWN_POOL_MAX :: nat where "SPAWN_POOL_MAX = 64"
definition SPARKLE_FADE_MS_PER_WIDTH :: u32 where "SPARKLE_FADE_MS_PER_WIDTH = 8"
definition RAIN_DEFAULT_FALL_MS :: u32 where "RAIN_DEFAULT_FALL_MS = 1000"
definition SPAWN_DEG2RAD :: real where "SPAWN_DEG2RAD = fl (17453293 / 10 ^ 9)"
definition MATRIX_HEAD_RISE :: u8 where "MATRIX_HEAD_RISE = 48"
definition MATRIX_LINE_HALFWIDTH_K :: real where "MATRIX_LINE_HALFWIDTH_K = 2"

section \<open>Steps and layers\<close>

datatype LayerState = WAITING | RUNNING | DONE

record SceneStep =
  ss_animType :: u8
  ss_flags :: u8
  ss_durationMs :: u16
  ss_colorFrom :: ColorRef
  ss_colorTo :: ColorRef
  ss_params :: "u8 list"
  ss_speedMs :: u16
  ss_animates :: u8
  ss_valueFrom :: u8
  ss_valueTo :: u8

record SceneLayer =
  ly_groupId :: u8
  ly_startAfterGroupId :: u8
  ly_startAfterStepIndex :: u8
  ly_async :: u8
  ly_stepCount :: nat
  ly_blend :: u8
  ly_disabled :: bool
  ly_groupName :: string
  ly_palette :: string
  ly_target :: PanelSelector
  ly_steps :: "SceneStep list"

text \<open>The steps that are in use; every loop over the steps of a layer runs over them.\<close>

definition steps_of :: "SceneLayer \<Rightarrow> SceneStep list" where
  "steps_of layer = take (ly_stepCount layer) (ly_steps layer)"

definition isSweepRunner :: "u8 \<Rightarrow> bool" where
  "isSweepRunner t \<longleftrightarrow> t = RUN_WAVE \<or> t = RUN_RIPPLE \<or> t = RUN_CHASE"

definition isDropRunner :: "u8 \<Rightarrow> bool" where
  "isDropRunner t \<longleftrightarrow> t = RUN_RAIN \<or> t = RUN_SPARKLE \<or> t = RUN_MATRIX"

definition isSpawnRunner :: "u8 \<Rightarrow> bool" where
  "isSpawnRunner t \<longleftrightarrow> isDropRunner t \<or> isSweepRunner t"

definition stepUsesLayerGroup :: "SceneStep \<Rightarrow> bool" where
  "stepUsesLayerGroup st \<longleftrightarrow>
     (if \<not> isRunnerType (ss_animType st) then True else ss_animType st = RUN_BOUNCE \<or> ss_animType st = RUN_WHEEL)"

definition maxSweepCountForLayer :: "SceneLayer \<Rightarrow> u8" where
  "maxSweepCountForLayer layer =
     fold (\<lambda>st maxC.
       (if \<not> isSweepRunner (ss_animType st) then maxC
        else (let c = sweepSpawnCount (ss_params st ! RUNNER_PARAM_COUNT) in if maxC < c then c else maxC)))
       (steps_of layer) 1"

definition layerIsSpawner :: "SceneLayer \<Rightarrow> bool" where
  "layerIsSpawner layer \<longleftrightarrow> list_ex (\<lambda>st. isSpawnRunner (ss_animType st)) (steps_of layer)"

definition layerIsSweepSpawner :: "SceneLayer \<Rightarrow> bool" where
  "layerIsSweepSpawner layer \<longleftrightarrow> list_ex (\<lambda>st. isSweepRunner (ss_animType st)) (steps_of layer)"

definition isAsyncLayer :: "SceneLayer \<Rightarrow> bool" where
  "isAsyncLayer layer \<longleftrightarrow> ly_async layer AND LAYER_ASYNC_LOOP \<noteq> 0 \<and> ly_startAfterGroupId layer = 0"

definition isNonBlocking :: "SceneLayer \<Rightarrow> bool" where
  "isNonBlocking layer \<longleftrightarrow> ly_async layer AND LAYER_ASYNC_NON_BLOCKING \<noteq> 0"

text \<open>When a restart of the scene makes the STOP of a finished layer redundant.\<close>

definition restartReclaimsLayerSlot :: "SceneLayer \<Rightarrow> bool" where
  "restartReclaimsLayerSlot layer \<longleftrightarrow>
     (if isAsyncLayer layer \<or> ly_disabled layer \<or> ly_stepCount layer = 0 \<or> ly_startAfterGroupId layer \<noteq> 0 then False
      else if stepUsesLayerGroup (ly_steps layer ! 0) then True
      else \<not> list_ex stepUsesLayerGroup (drop 1 (steps_of layer)))"

text \<open>A value of an \<open>animates\<close> target at which the modifier has no effect.\<close>

definition target_identity :: "u8 \<Rightarrow> u8" where
  "target_identity target = (if target = TARGET_DIM \<or> target = TARGET_DESATURATE then 255 else 0)"

definition has_runner_flag :: "SceneStep \<Rightarrow> u8 \<Rightarrow> bool" where
  "has_runner_flag st f \<longleftrightarrow> ss_params st ! RUNNER_PARAM_FLAGS AND f \<noteq> 0"

section \<open>Durations under the global speed\<close>

definition to_u32 :: "real \<Rightarrow> u32" where
  "to_u32 x = word_of_int (trunc x)"

definition scaled_ms :: "u16 \<Rightarrow> real \<Rightarrow> u32" where
  "scaled_ms d speed = (if speed = 1 then ucast d else to_u32 (fl (of_u d / speed)))"

definition effective_ms :: "u16 \<Rightarrow> real \<Rightarrow> u16" where
  "effective_ms d speed =
     (if d = 0 \<or> speed = 1 then d
      else (let x = to_u32 (fl (of_u d / speed)) in if 65535 < x then 65535 else ucast x))"

definition SPEED_MIN :: real where "SPEED_MIN = fl (1 / 10)"
definition SPEED_MAX :: real where "SPEED_MAX = 10"

definition clamp_speed :: "real \<Rightarrow> real" where
  "clamp_speed s = (if s < SPEED_MIN then SPEED_MIN else if SPEED_MAX < s then SPEED_MAX else s)"

section \<open>Spawner state of a layer\<close>

text \<open>The cached sweep field is given by lists of the length \<open>sweepPanelCount\<close>.\<close>

record LayerSpawnState =
  lss_rng :: u32
  lss_accumMs :: u32
  lss_lastServiceMs :: u32
  lss_cursor :: u16
  lss_poolBase :: u8
  lss_poolSize :: u8
  lss_sweepPanels :: "u8 list"
  lss_sweepCoord :: "nat list"
  lss_sweepCoordFar :: "nat list"
  lss_sweepMaxCoord :: nat
  lss_sweepHaveFar :: bool
  lss_sweepWidth :: u8
  lss_sweepDurationMs :: u16
  lss_sweepSpawnIndex :: u8
  lss_nextSpawnMs :: u32
  lss_wheelStopAtMs :: u32
  lss_bounceNextFlipAtMs :: u32
  lss_bouncePassDur :: u16

definition lss_zero :: LayerSpawnState where
  "lss_zero =
     \<lparr>lss_rng = 0, lss_accumMs = 0, lss_lastServiceMs = 0, lss_cursor = 0, lss_poolBase = 0, lss_poolSize = 0,
      lss_sweepPanels = [], lss_sweepCoord = [], lss_sweepCoordFar = [], lss_sweepMaxCoord = 0, lss_sweepHaveFar = False,
      lss_sweepWidth = 0, lss_sweepDurationMs = 0, lss_sweepSpawnIndex = 0, lss_nextSpawnMs = 0, lss_wheelStopAtMs = 0,
      lss_bounceNextFlipAtMs = 0, lss_bouncePassDur = 0\<rparr>"

definition lss_next_group :: "LayerSpawnState \<Rightarrow> u8 \<times> LayerSpawnState" where
  "lss_next_group st =
     (let (g, c) = spawnPoolNext (lss_cursor st) (lss_poolBase st) (lss_poolSize st) in (g, st\<lparr>lss_cursor := c\<rparr>))"

definition lss_draw :: "nat \<Rightarrow> LayerSpawnState \<Rightarrow> nat \<times> LayerSpawnState" where
  "lss_draw n st = (let (r, s) = spawnRandBelow (lss_rng st) (of_nat n) in (unat r, st\<lparr>lss_rng := s\<rparr>))"

section \<open>The pulse of a runner on one panel\<close>

text \<open>
  A colour runner goes from black to the lit colour, a modifier runner from the identity to its peak; the wheel
  swaps the two ends.
\<close>

definition runner_prepare :: "u8 \<Rightarrow> u8 \<Rightarrow> u8 \<Rightarrow> bool \<Rightarrow> SceneLayer \<Rightarrow> SceneStep \<Rightarrow> nat \<Rightarrow> ColorRGB \<Rightarrow> CompiledPulse \<Rightarrow> sink_call list" where
  "runner_prepare panel grp flags swapped layer st layerIdx color cp =
     (if \<not> cp_lit cp then []
      else
        (let target = ss_animates st;
             (dark, lit, blend) =
               (if target = TARGET_COLOR
                then (ColorRef_rgb 0 0 0, ColorRef_rgb (rgb_r color) (rgb_g color) (rgb_b color), resolveComposeMode (ly_blend layer) True)
                else (ColorRef_rgb (target_identity target) 0 0, ColorRef_rgb (ss_params st ! RUNNER_PARAM_AMOUNT) 0 0,
                      resolveComposeMode (ly_blend layer) False));
             (from, to) = (if swapped then (lit, dark) else (dark, lit))
         in sch_sendPrepareToPanel panel grp ANIM_PULSE flags (cp_durationMs cp) from to (cp_risePct cp) (cp_fallPct cp)
              blend (of_nat layerIdx) (cp_startDelayMs cp) target))"

end
