(* ===== verification/Spawn_Drops.thy ===== *)
theory Spawn_Drops
  imports
    Scene_Data
begin

text \<open>
  The drops of the particle spawners (\<open>ScenePlayer.cpp\<close>, RAIN, SPARKLE and MATRIX): how a drop looks, which panels
  it visits, and the packets of one drop. A drop takes a group id of the pool and some random numbers from the
  spawner state of its layer and gives the calls on the sink.
\<close>

section \<open>Appearance\<close>

record DropStyle =
  ds_target :: u8
  ds_identity :: u8
  ds_peak :: u8
  ds_blend :: u8
  ds_fromRgb :: ColorRGB
  ds_litRgb :: ColorRGB

definition scale8 :: "u8 \<Rightarrow> u8 \<Rightarrow> u8" where
  "scale8 v b = ucast ((ucast v * ucast b :: u16) div 255)"

definition scaled_rgb :: "ColorRGB \<Rightarrow> u8 \<Rightarrow> ColorRef" where
  "scaled_rgb c b = ColorRef_rgb (scale8 (rgb_r c) b) (scale8 (rgb_g c) b) (scale8 (rgb_b c) b)"

definition sendDropPrepare :: "u8 \<Rightarrow> u8 \<Rightarrow> nat \<Rightarrow> DropStyle \<Rightarrow> DropPulse \<Rightarrow> u16 \<Rightarrow> u8 \<Rightarrow> sink_call list" where
  "sendDropPrepare panel grp composeOrder s dp extraDelayMs bright =
     (let sd32 = ucast (dp_startDelayMs dp) + ucast extraDelayMs :: u32;
          sd = (if 65535 < sd32 then 65535 else ucast sd32);
          (from, lit) = (if ds_target s = TARGET_COLOR then (scaled_rgb (ds_fromRgb s) bright, scaled_rgb (ds_litRgb s) bright)
                         else (ColorRef_rgb (ds_identity s) 0 0, ColorRef_rgb (scale8 (ds_peak s) bright) 0 0))
      in sch_sendPrepareToPanel panel grp ANIM_PULSE FLAG_REAP_ON_DONE (dp_durationMs dp) from lit (dp_risePct dp) (dp_fallPct dp)
           (ds_blend s) (of_nat composeOrder) sd (ds_target s))"

section \<open>Coordinates along and across the fall axis\<close>

definition fall_axis :: "libm \<Rightarrow> SceneStep \<Rightarrow> real \<times> real" where
  "fall_axis m st =
     (let th = fl (fl (of_u (ss_params st ! RUNNER_PARAM_SRC_ARG) * 2) * SPAWN_DEG2RAD) in (cosf m th, sinf m th))"

definition fall_dir :: "SceneStep \<Rightarrow> real" where
  "fall_dir st = (if has_runner_flag st RUNNER_FLAG_REVERSE then -1 else 1)"

definition fallCoordOf :: "PanelGeometry \<Rightarrow> TopologyIndex \<Rightarrow> nat \<Rightarrow> real \<Rightarrow> real \<Rightarrow> real \<Rightarrow> real option" where
  "fallCoordOf geo topo s ca sa dir =
     map_option (\<lambda>(x, y). fl (fl (fl (x * ca) + fl (y * sa)) * dir)) (pgeo_centroidOf geo (ti_panelAt topo s))"

definition perpCoordOf :: "PanelGeometry \<Rightarrow> TopologyIndex \<Rightarrow> nat \<Rightarrow> real \<Rightarrow> real \<Rightarrow> real option" where
  "perpCoordOf geo topo s ca sa = map_option (\<lambda>(x, y). fl (fl (- x * sa) + fl (y * ca))) (pgeo_centroidOf geo (ti_panelAt topo s))"

section \<open>Drops on one group\<close>

type_synonym spawner = "LayerSpawnState \<times> AnimationScheduler"
type_synonym drop_step = "spawner \<Rightarrow> sink_call list \<times> spawner"

definition start_group :: "u8 \<Rightarrow> u16 \<Rightarrow> sink_call list \<Rightarrow> spawner \<Rightarrow> sink_call list \<times> spawner" where
  "start_group grp gap prepares sp =
     (let (starts, sch) = sch_sendGroupStart grp (snd sp) in (prepares @ Sink_Pace gap # starts, (fst sp, sch)))"

fun repeat_drops :: "nat \<Rightarrow> drop_step \<Rightarrow> spawner \<Rightarrow> sink_call list \<times> spawner" where
  "repeat_drops 0 f sp = ([], sp)"
| "repeat_drops (Suc n) f sp = (let (cs, sp) = f sp; (ds, sp) = repeat_drops n f sp in (cs @ ds, sp))"

definition sparkle_drop :: "u8 list \<Rightarrow> u16 \<Rightarrow> nat \<Rightarrow> DropStyle \<Rightarrow> u16 \<Rightarrow> drop_step" where
  "sparkle_drop panels interval layerIdx ds fadeMs sp =
     (let (grp, st) = lss_next_group (fst sp);
          (k, st) = lss_draw (length panels) st;
          (off, st) = lss_draw (unat interval) st
      in start_group grp 200 (sendDropPrepare (panels ! k) grp layerIdx ds (sparkleFlash fadeMs) (of_nat off) 255) (st, snd sp))"

text \<open>The pulses of a drop along a chain of slots; position 0 is the first panel lit.\<close>

definition chain_prepares ::
  "TopologyIndex \<Rightarrow> nat list \<Rightarrow> bool \<Rightarrow> (u8 \<Rightarrow> DropPulse) \<Rightarrow> u8 \<Rightarrow> nat \<Rightarrow> DropStyle \<Rightarrow> u16 \<Rightarrow> sink_call list" where
  "chain_prepares topo path reverse pulse grp layerIdx ds off =
     concat (map (\<lambda>i. sendDropPrepare (ti_panelAt topo (path ! i)) grp layerIdx ds
         (pulse (of_nat (if reverse then length path - 1 - i else i))) off 255) [0..<length path])"

definition tree_path :: "TopologyIndex \<Rightarrow> nat \<Rightarrow> nat list" where
  "tree_path topo leaf =
     spawnBuildPath (map (ti_parentOf topo) [0..<ti_count topo]) leaf (ti_root topo) LIGHTNET_MAX_PANELS"

definition leaf_slots :: "TopologyIndex \<Rightarrow> nat list" where
  "leaf_slots topo = filter (ti_isLeaf topo) [0..<ti_count topo]"

definition rain_drop :: "TopologyIndex \<Rightarrow> bool \<Rightarrow> u8 \<Rightarrow> u16 \<Rightarrow> u16 \<Rightarrow> nat \<Rightarrow> DropStyle \<Rightarrow> drop_step" where
  "rain_drop topo reverse width fallMs interval layerIdx ds sp =
     (let (grp, st) = lss_next_group (fst sp);
          (k, st) = lss_draw (length (leaf_slots topo)) st;
          (off, st) = lss_draw (unat interval) st;
          path = tree_path topo (leaf_slots topo ! k)
      in if path = [] then ([], (st, snd sp))
         else start_group grp 300
                (chain_prepares topo path reverse (\<lambda>pos. rainDropAt fallMs width pos (of_nat (length path))) grp layerIdx ds (of_nat off))
                (st, snd sp))"

definition matrix_pulse :: "DropPulse \<Rightarrow> DropPulse" where
  "matrix_pulse dp = dp\<lparr>dp_risePct := MATRIX_HEAD_RISE, dp_fallPct := 255 - MATRIX_HEAD_RISE\<rparr>"

definition matrix_path_drop :: "TopologyIndex \<Rightarrow> bool \<Rightarrow> u8 \<Rightarrow> u16 \<Rightarrow> u16 \<Rightarrow> nat \<Rightarrow> DropStyle \<Rightarrow> drop_step" where
  "matrix_path_drop topo reverse width fallMs interval layerIdx ds sp =
     (let maxDepth = (if ti_maxDepthVal topo = 0 then 1 else ti_maxDepthVal topo);
          (grp, st) = lss_next_group (fst sp);
          (off, st) = lss_draw (unat interval) st;
          (k, st) = lss_draw (length (leaf_slots topo)) st;
          path = tree_path topo (leaf_slots topo ! k)
      in if path = [] then ([], (st, snd sp))
         else start_group grp 300
                (chain_prepares topo path reverse (\<lambda>pos. matrix_pulse (rainDropAt fallMs width pos (of_nat (maxDepth + 1)))) grp layerIdx ds (of_nat off))
                (st, snd sp))"

section \<open>A straight line over the layout\<close>

definition smoothstep_bright :: "real \<Rightarrow> u8" where
  "smoothstep_bright t = to_u8 (fl (fl (1 - fl (fl (t * t) * fl (3 - fl (2 * t)))) * 255))"

text \<open>The pulse of a line on one slot: none outside the line's width or when it would be nearly black.\<close>

definition line_prepare ::
  "PanelGeometry \<Rightarrow> TopologyIndex \<Rightarrow> real \<times> real \<Rightarrow> real \<Rightarrow> real \<Rightarrow> real \<Rightarrow> real \<Rightarrow> real \<Rightarrow> u16 \<Rightarrow> u16 \<Rightarrow> u8 \<Rightarrow> nat \<Rightarrow> DropStyle \<Rightarrow> u16 \<Rightarrow> nat \<Rightarrow> sink_call list" where
  "line_prepare geo topo axis dir alongMin alongSpan anchorPerp halfWidth fallMs tailDur grp layerIdx ds off s =
     (case (perpCoordOf geo topo s (fst axis) (snd axis), fallCoordOf geo topo s (fst axis) (snd axis) dir) of
        (Some perp, Some along) \<Rightarrow>
          (let dd = \<bar>fl (perp - anchorPerp)\<bar>
           in if halfWidth \<le> dd then []
              else
                (let bright = smoothstep_bright (fl (dd / halfWidth))
                 in if bright < 12 then []
                    else sendDropPrepare (ti_panelAt topo s) grp layerIdx ds
                           \<lparr>dp_startDelayMs = to_u16 (fl (fl (fl (along - alongMin) / alongSpan) * of_u fallMs)), dp_durationMs = tailDur,
                            dp_risePct = MATRIX_HEAD_RISE, dp_fallPct = 255 - MATRIX_HEAD_RISE\<rparr> off bright))
      | _ \<Rightarrow> [])"

text \<open>The slots that have a place in the layout.\<close>

definition line_slots :: "PanelGeometry \<Rightarrow> TopologyIndex \<Rightarrow> nat list" where
  "line_slots geo topo = filter (\<lambda>s. pgeo_centroidOf geo (ti_panelAt topo s) \<noteq> None) [0..<ti_count topo]"

definition along_extent :: "PanelGeometry \<Rightarrow> TopologyIndex \<Rightarrow> real \<times> real \<Rightarrow> real \<Rightarrow> real \<times> real" where
  "along_extent geo topo axis dir =
     (let fs = List.map_filter (\<lambda>s. fallCoordOf geo topo s (fst axis) (snd axis) dir) [0..<ti_count topo]
      in case (fold lowest fs None, fold highest fs None) of (Some lo, Some hi) \<Rightarrow> (lo, hi) | _ \<Rightarrow> (0, 0))"

definition line_drop ::
  "libm \<Rightarrow> PanelGeometry \<Rightarrow> TopologyIndex \<Rightarrow> SceneStep \<Rightarrow> u8 \<Rightarrow> u16 \<Rightarrow> u16 \<Rightarrow> nat \<Rightarrow> DropStyle \<Rightarrow> drop_step" where
  "line_drop m geo topo step width fallMs interval layerIdx ds sp =
     (let axis = fall_axis m step; dir = fall_dir step;
          (alongMin, alongMax) = along_extent geo topo axis dir;
          alongSpan = (if 0 < fl (alongMax - alongMin) then fl (alongMax - alongMin) else 1);
          (grp, st) = lss_next_group (fst sp);
          (off, st) = lss_draw (unat interval) st;
          (k, st) = lss_draw (length (line_slots geo topo)) st;
          anchor = line_slots geo topo ! k
      in case perpCoordOf geo topo anchor (fst axis) (snd axis) of
           None \<Rightarrow> ([], (st, snd sp))
         | Some anchorPerp \<Rightarrow>
             (let r = pgeo_circumradiusOf m geo (ti_panelAt topo anchor);
                  panelSize = (if r \<le> 0 then fl (alongSpan / real (if 1 < ti_count topo then ti_count topo else 1)) else r);
                  w = (if width \<noteq> 0 then of_u width else 1);
                  tailDur = at_least_one (to_u16 (fl (fl (fl (w * panelSize) * of_u fallMs) / alongSpan)));
                  halfWidth = fl (panelSize * MATRIX_LINE_HALFWIDTH_K);
                  halfWidth = (if halfWidth \<le> 0 then fl (1 / 1000) else halfWidth)
              in start_group grp 300
                   (concat (map (line_prepare geo topo axis dir alongMin alongSpan anchorPerp halfWidth fallMs tailDur grp layerIdx ds (of_nat off))
                      (line_slots geo topo))) (st, snd sp)))"

section \<open>A streak along the connections of the panels\<close>

definition top_slot :: "PanelGeometry \<Rightarrow> TopologyIndex \<Rightarrow> real \<times> real \<Rightarrow> real \<Rightarrow> nat \<Rightarrow> bool" where
  "top_slot geo topo axis dir s \<longleftrightarrow>
     (case fallCoordOf geo topo s (fst axis) (snd axis) dir of
        None \<Rightarrow> False
      | Some fc \<Rightarrow>
          \<not> list_ex (\<lambda>k. case fallCoordOf geo topo (ti_neighborSlot topo s k) (fst axis) (snd axis) dir of None \<Rightarrow> False | Some nf \<Rightarrow> nf < fc)
             [0..<ti_degree topo s])"

definition top_slots :: "PanelGeometry \<Rightarrow> TopologyIndex \<Rightarrow> real \<times> real \<Rightarrow> real \<Rightarrow> nat list" where
  "top_slots geo topo axis dir = filter (top_slot geo topo axis dir) [0..<ti_count topo]"

text \<open>The steepest descending neighbour, with its coordinate.\<close>

definition steepest :: "PanelGeometry \<Rightarrow> TopologyIndex \<Rightarrow> real \<times> real \<Rightarrow> real \<Rightarrow> nat \<Rightarrow> real \<Rightarrow> nat option \<times> real" where
  "steepest geo topo axis dir cur curF =
     fold (\<lambda>k (best, bestF).
        (let v = ti_neighborSlot topo cur k
         in case fallCoordOf geo topo v (fst axis) (snd axis) dir of
              None \<Rightarrow> (best, bestF)
            | Some vf \<Rightarrow> if bestF < vf then (Some v, vf) else (best, bestF))) [0..<ti_degree topo cur] (None, curF)"

fun streak :: "nat \<Rightarrow> PanelGeometry \<Rightarrow> TopologyIndex \<Rightarrow> real \<times> real \<Rightarrow> real \<Rightarrow> nat \<Rightarrow> real \<Rightarrow> nat list" where
  "streak 0 geo topo axis dir cur curF = []"
| "streak (Suc room) geo topo axis dir cur curF =
     cur # (case steepest geo topo axis dir cur curF of (None, _) \<Rightarrow> [] | (Some v, vf) \<Rightarrow> streak room geo topo axis dir v vf)"

definition streak_drop ::
  "libm \<Rightarrow> PanelGeometry \<Rightarrow> TopologyIndex \<Rightarrow> SceneStep \<Rightarrow> u8 \<Rightarrow> u16 \<Rightarrow> u16 \<Rightarrow> nat \<Rightarrow> DropStyle \<Rightarrow> drop_step" where
  "streak_drop m geo topo step width fallMs interval layerIdx ds sp =
     (let axis = fall_axis m step; dir = fall_dir step; tops = top_slots geo topo axis dir;
          (grp, st) = lss_next_group (fst sp);
          (off, st) = lss_draw (unat interval) st;
          (k, st) = lss_draw (length tops) st
      in case fallCoordOf geo topo (tops ! k) (fst axis) (snd axis) dir of
           None \<Rightarrow> ([], (st, snd sp))
         | Some curF \<Rightarrow>
             (let chain = streak (ti_count topo) geo topo axis dir (tops ! k) curF
              in start_group grp 300
                   (chain_prepares topo chain False (\<lambda>pos. rainDropAt fallMs width pos (of_nat (length chain))) grp layerIdx ds (of_nat off))
                   (st, snd sp)))"

end
