(* ===== verification/Option_Programs.thy ===== *)
theory Option_Programs
  imports Main "HOL-Library.Monad_Syntax"
begin

text \<open>
  Operations that may fail to return, as functions to \<open>option\<close>: \<open>None\<close> stands for a read outside an array or a
  loop that does not end. \<open>returns m P\<close> says that \<open>m\<close> has a result and the result satisfies \<open>P\<close>; its rules follow
  the shape of a program, so an invariant is carried through a sequence of calls by \<open>intro\<close>.
\<close>

definition returns :: "'a option \<Rightarrow> ('a \<Rightarrow> bool) \<Rightarrow> bool" where
  "returns m P \<longleftrightarrow> (\<exists>x. m = Some x \<and> P x)"

named_theorems returned \<open>operations that return and what their results satisfy\<close>

lemma returns_Some [simp]: "returns (Some x) P \<longleftrightarrow> P x"
  by (simp add: returns_def)

lemma returns_None [simp]: "\<not> returns None P"
  by (simp add: returns_def)

lemma returns_bind [simp]: "returns (m \<bind> f) P \<longleftrightarrow> returns m (\<lambda>x. returns (f x) P)"
  by (cases m) simp_all

lemma returns_map [simp]: "returns (map_option f m) P \<longleftrightarrow> returns m (\<lambda>x. P (f x))"
  by (cases m) simp_all

lemma returns_mono: "returns m P \<Longrightarrow> (\<And>x. m = Some x \<Longrightarrow> P x \<Longrightarrow> Q x) \<Longrightarrow> returns m Q"
  by (auto simp: returns_def)

lemma returns_conj: "returns m P \<Longrightarrow> returns m Q \<Longrightarrow> returns m (\<lambda>x. P x \<and> Q x)"
  by (auto simp: returns_def)

lemma returnsE: "returns m P \<Longrightarrow> (\<And>x. m = Some x \<Longrightarrow> P x \<Longrightarrow> R) \<Longrightarrow> R"
  by (auto simp: returns_def)

lemma returns_if: "(c \<Longrightarrow> returns a P) \<Longrightarrow> (\<not> c \<Longrightarrow> returns b P) \<Longrightarrow> returns (if c then a else b) P"
  by simp

lemma returns_prod: "(\<And>a b. p = (a, b) \<Longrightarrow> returns (f a b) P) \<Longrightarrow> returns (case p of (a, b) \<Rightarrow> f a b) P"
  by (cases p) simp

section \<open>A loop over a list\<close>

fun each :: "('a \<Rightarrow> 's \<Rightarrow> 's option) \<Rightarrow> 'a list \<Rightarrow> 's \<Rightarrow> 's option" where
  "each f [] s = Some s"
| "each f (x # xs) s = f x s \<bind> each f xs"

lemma each_append: "each f (xs @ ys) s = Option.bind (each f xs s) (each f ys)"
proof (induction xs arbitrary: s)
  case (Cons x xs)
  show ?case by (cases "f x s") (simp_all only: append_Cons each.simps Option.bind.simps Cons.IH)
qed simp

lemma each_invariant:
  "\<lbrakk>I s; \<And>x s. x \<in> set xs \<Longrightarrow> I s \<Longrightarrow> returns (f x s) I\<rbrakk> \<Longrightarrow> returns (each f xs s) I"
proof (induction xs arbitrary: s)
  case (Cons x xs)
  have "returns (f x s) I" by (rule Cons.prems(2)) (simp_all add: Cons.prems(1))
  then obtain s' where s': "f x s = Some s'" "I s'" by (rule returnsE)
  have "returns (each f xs s') I" by (rule Cons.IH [OF s'(2)], rule Cons.prems(2)) simp_all
  then show ?case by (simp only: each.simps s'(1) Option.bind.simps)
qed (simp only: each.simps returns_Some)

text \<open>An invariant that counts the rounds of a loop over \<open>[0..<n]\<close>.\<close>

lemma each_upt:
  assumes "I 0 s" and "\<And>i s. i < n \<Longrightarrow> I i s \<Longrightarrow> returns (f i s) (I (Suc i))"
  shows "returns (each f [0..<n] s) (I n)"
  using assms(2)
proof (induction n)
  case (Suc n)
  have "returns (each f [0..<n] s) (I n)" by (rule Suc.IH, rule Suc.prems) simp_all
  then obtain s' where s': "each f [0..<n] s = Some s'" "I n s'" by (rule returnsE)
  have "returns (f n s') (I (Suc n))" by (rule Suc.prems [OF _ s'(2)]) simp
  then obtain s'' where s'': "f n s' = Some s''" "I (Suc n) s''" by (rule returnsE)
  then show ?case by (simp add: each_append s'(1))
qed (simp add: assms(1))

end
