(* ===== verification/Scene_Runners.thy ===== *)
theory Scene_Runners
  imports
    Spawn_Drops Option_Programs
begin

text \<open>
  The state of the scene player (\<open>Core/Controller/ScenePlayer.cpp\<close>) and the operations that put a runner on the
  panels: the pools of group ids, stopping a layer, the bouncing band, the scheduled sweeps and the particle
  spawners. The calls on the sink are appended to \<open>sp_sent\<close>. The palette resolver and the topology provider are
  interfaces of the code; what they answer is the record \<open>scene_env\<close>.
\<close>

section \<open>State\<close>

record scene_env =
  env_libm :: libm
  env_resolve :: "string \<Rightarrow> GradientStop list option"
  env_indices :: "u8 list"
  env_edgeCounts :: "u8 list"
  env_links :: "TopoLink list"

record ScenePlayer =
  sp_scheduler :: AnimationScheduler
  sp_topo :: SceneTopology
  sp_geom :: PanelGeometry
  sp_layers :: "SceneLayer list"
  sp_currentStep :: "nat list"
  sp_stepStartMs :: "u32 list"
  sp_layerState :: "LayerState list"
  sp_pendingStop :: "bool list"
  sp_bouncePhase :: "bool list"
  sp_spawnState :: "LayerSpawnState list"
  sp_lCount :: nat
  sp_loop :: bool
  sp_playing :: bool
  sp_speed :: real
  sp_defaultPalette :: string
  sp_baseColors :: "ColorRGB list"
  sp_background :: ColorRGB
  sp_resolvedPalettes :: "GradientStop list list"
  sp_sent :: "sink_call list"

definition sp_init :: "AnimationScheduler \<Rightarrow> SceneTopology \<Rightarrow> PanelGeometry \<Rightarrow> SceneLayer list \<Rightarrow> GradientStop list list \<Rightarrow> ScenePlayer" where
  "sp_init sch topo geo raw_layers raw_palettes =
     \<lparr>sp_scheduler = sch, sp_topo = topo, sp_geom = geo, sp_layers = raw_layers, sp_currentStep = replicate SCENE_MAX_LAYERS 0,
      sp_stepStartMs = replicate SCENE_MAX_LAYERS 0, sp_layerState = replicate SCENE_MAX_LAYERS WAITING,
      sp_pendingStop = replicate SCENE_MAX_LAYERS False, sp_bouncePhase = replicate SCENE_MAX_LAYERS False,
      sp_spawnState = replicate SCENE_MAX_LAYERS lss_zero, sp_lCount = 0, sp_loop = False, sp_playing = False, sp_speed = 1,
      sp_defaultPalette = [], sp_baseColors = replicate BASE_COLORS_COUNT (rgb 0 0 0), sp_background = rgb 0 0 0,
      sp_resolvedPalettes = raw_palettes, sp_sent = []\<rparr>"

abbreviation sp_layer :: "ScenePlayer \<Rightarrow> nat \<Rightarrow> SceneLayer" where
  "sp_layer sp i \<equiv> sp_layers sp ! i"

definition sp_step :: "ScenePlayer \<Rightarrow> nat \<Rightarrow> SceneStep" where
  "sp_step sp i = ly_steps (sp_layer sp i) ! (sp_currentStep sp ! i)"

abbreviation sp_spawn :: "ScenePlayer \<Rightarrow> nat \<Rightarrow> LayerSpawnState" where
  "sp_spawn sp i \<equiv> sp_spawnState sp ! i"

definition put_spawn :: "nat \<Rightarrow> LayerSpawnState \<Rightarrow> ScenePlayer \<Rightarrow> ScenePlayer" where
  "put_spawn i st sp = sp\<lparr>sp_spawnState := (sp_spawnState sp)[i := st]\<rparr>"

definition sp_emit :: "sink_call list \<Rightarrow> ScenePlayer \<Rightarrow> ScenePlayer" where
  "sp_emit cs sp = sp\<lparr>sp_sent := sp_sent sp @ cs\<rparr>"

definition sp_schedule :: "(AnimationScheduler \<Rightarrow> sink_call list \<times> AnimationScheduler) \<Rightarrow> ScenePlayer \<Rightarrow> ScenePlayer" where
  "sp_schedule f sp = (let (cs, sch) = f (sp_scheduler sp) in sp_emit cs (sp\<lparr>sp_scheduler := sch\<rparr>))"

definition sp_resolve :: "ScenePlayer \<Rightarrow> nat \<Rightarrow> u8 list option" where
  "sp_resolve sp i = st_resolvePanels (ly_target (sp_layer sp i)) SCENE_MAX_RESOLVED_PANELS (sp_topo sp)"

section \<open>Simple accessors\<close>

definition hasScene :: "ScenePlayer \<Rightarrow> bool" where "hasScene sp \<longleftrightarrow> 0 < sp_lCount sp"

definition setSpeed :: "real \<Rightarrow> ScenePlayer \<Rightarrow> ScenePlayer" where
  "setSpeed s sp = sp\<lparr>sp_speed := clamp_speed s\<rparr>"

definition layerIndexForGroup :: "ScenePlayer \<Rightarrow> u8 \<Rightarrow> nat option" where
  "layerIndexForGroup sp g = List.find (\<lambda>i. ly_groupId (sp_layer sp i) = g) [0..<sp_lCount sp]"

definition groupIdForName :: "ScenePlayer \<Rightarrow> string \<Rightarrow> u8" where
  "groupIdForName sp name =
     (if name = [] then 0
      else (case List.find (\<lambda>i. ly_groupName (sp_layer sp i) \<noteq> [] \<and> ly_groupName (sp_layer sp i) = name) [0..<sp_lCount sp] of
              None \<Rightarrow> 0 | Some i \<Rightarrow> ly_groupId (sp_layer sp i)))"

definition resolveColorToRgb :: "ScenePlayer \<Rightarrow> ColorRef \<Rightarrow> nat \<Rightarrow> ColorRGB" where
  "resolveColorToRgb sp ref i =
     (if cr_kind ref = COLORREF_RGB then rgb (cr_raw0 ref) (cr_raw1 ref) (cr_raw2 ref)
      else if cr_kind ref = COLORREF_PALETTE
        then samplePalette 32 (sp_resolvedPalettes sp ! i) (length (sp_resolvedPalettes sp ! i)) (cr_raw0 ref)
      else if cr_kind ref = COLORREF_USE_COLOR \<and> unat (cr_raw0 ref) < BASE_COLORS_COUNT then sp_baseColors sp ! unat (cr_raw0 ref)
      else rgb 255 255 255)"

section \<open>Pools of group ids\<close>

definition pool_plan :: "SceneLayer list \<Rightarrow> nat \<times> nat" where
  "pool_plan layers =
     (let maxUsed = fold (\<lambda>l m. if m < unat (ly_groupId l) then unat (ly_groupId l) else m) layers 0;
          spawners = length (filter layerIsSpawner layers);
          regionStart = maxUsed + 1;
          avail = (if regionStart \<le> 254 then 254 - regionStart + 1 else 0)
      in (regionStart, min SPAWN_POOL_MAX (avail div spawners)))"

definition alloc_pool :: "SceneLayer list \<Rightarrow> nat \<Rightarrow> nat \<times> LayerSpawnState list \<Rightarrow> nat \<times> LayerSpawnState list" where
  "alloc_pool layers i kst =
     (case kst of (k, sts) \<Rightarrow>
        (let (regionStart, per) = pool_plan layers; layer = layers ! i
         in if \<not> layerIsSpawner layer then (k, sts)
            else
              (let sz = (if layerIsSweepSpawner layer then min (unat (maxSweepCountForLayer layer + 1)) per else per)
               in (k + 1, sts[i := (sts ! i)\<lparr>lss_poolBase := of_nat (regionStart + k * per), lss_poolSize := of_nat sz, lss_cursor := 0\<rparr>]))))"

definition allocSpawnPools :: "ScenePlayer \<Rightarrow> ScenePlayer" where
  "allocSpawnPools sp =
     (let layers = take (sp_lCount sp) (sp_layers sp); zero = replicate SCENE_MAX_LAYERS lss_zero
      in if \<not> list_ex layerIsSpawner layers then sp\<lparr>sp_spawnState := zero\<rparr>
         else sp\<lparr>sp_spawnState := snd (fold (alloc_pool layers) [0..<length layers] (0, zero))\<rparr>)"

section \<open>Stopping a layer's animation\<close>

definition stop_calls :: "SceneLayer \<Rightarrow> u8 list \<Rightarrow> sink_call list" where
  "stop_calls layer panels = (if panels = [] then [] else sch_sendControlToPanels (ly_groupId layer) ANIM_CTRL_STOP panels)"

definition stopLayerGroup :: "nat \<Rightarrow> ScenePlayer \<Rightarrow> ScenePlayer option" where
  "stopLayerGroup i sp = do { panels \<leftarrow> sp_resolve sp i; Some (sp_emit (stop_calls (sp_layer sp i) panels) sp) }"

section \<open>Directionality fields\<close>

definition field_resolution :: "ScenePlayer \<Rightarrow> u8 list \<Rightarrow> nat" where
  "field_resolution sp panels =
     (let r = ti_maxDepthVal (st_topo (sp_topo sp)) in if r = 0 then (if 1 < length panels then length panels - 1 else 1) else r)"

definition wants_geometry :: "ScenePlayer \<Rightarrow> SceneStep \<Rightarrow> bool" where
  "wants_geometry sp step \<longleftrightarrow> has_runner_flag step RUNNER_FLAG_GEOMETRIC \<and> pgeo_valid (sp_geom sp)"

text \<open>The field of a linear sweep: along the axis of the layout, or in hops from the source.\<close>

definition linear_field :: "libm \<Rightarrow> ScenePlayer \<Rightarrow> SceneStep \<Rightarrow> bool \<Rightarrow> u8 list \<Rightarrow> (nat \<times> nat list) option" where
  "linear_field m sp step reverse panels =
     (let arg = ss_params step ! RUNNER_PARAM_SRC_ARG
      in if wants_geometry sp step
         then Some (computeGeometricField m (sp_geom sp) panels (fl (of_u arg * 2)) reverse (field_resolution sp panels))
         else computeDistanceField (st_topo (sp_topo sp)) panels (ss_params step ! RUNNER_PARAM_SRC_KIND) arg reverse
                (replicate LIGHTNET_MAX_PANELS 0))"

definition runner_width :: "SceneStep \<Rightarrow> u8" where
  "runner_width step = (let w = ss_params step ! RUNNER_PARAM_WIDTH in if w < 2 then 2 else w)"

definition start_runner :: "u8 \<Rightarrow> sink_call list \<Rightarrow> ScenePlayer \<Rightarrow> ScenePlayer" where
  "start_runner grp prepares sp = sp_schedule (sch_sendGroupStart grp) (sp_emit (prepares @ [Sink_Pace 300]) sp)"

section \<open>BOUNCE\<close>

definition fireBouncePass :: "libm \<Rightarrow> nat \<Rightarrow> u16 \<Rightarrow> ScenePlayer \<Rightarrow> ScenePlayer option" where
  "fireBouncePass m i passDurMs sp = do {
     panels \<leftarrow> sp_resolve sp i;
     if panels = [] \<or> passDurMs = 0 then Some sp
     else do {
       let layer = sp_layer sp i;
       let step = sp_step sp i;
       let color = resolveColorToRgb sp (ss_colorTo step) i;
       let reverse = (has_runner_flag step RUNNER_FLAG_REVERSE \<noteq> sp_bouncePhase sp ! i);
       (maxCoord, coord) \<leftarrow> linear_field m sp step reverse panels;
       let pulse = (\<lambda>c. compileBounce (real c) (of_nat maxCoord) (runner_width step) passDurMs);
       Some (start_runner (ly_groupId layer)
         (concat (map (\<lambda>(p, c). runner_prepare p (ly_groupId layer) 0 False layer step i color (pulse c)) (zip panels coord))) sp)
     }
   }"

definition bounce_due :: "nat \<Rightarrow> u32 \<Rightarrow> ScenePlayer \<Rightarrow> bool" where
  "bounce_due i nowMs sp \<longleftrightarrow> lss_bounceNextFlipAtMs (sp_spawn sp i) \<noteq> 0 \<and> lss_bounceNextFlipAtMs (sp_spawn sp i) \<le> nowMs"

definition bounce_leg :: "libm \<Rightarrow> nat \<Rightarrow> ScenePlayer \<Rightarrow> ScenePlayer option" where
  "bounce_leg m i sp = do {
     let st = sp_spawn sp i;
     sp \<leftarrow> fireBouncePass m i (lss_bouncePassDur st) (sp\<lparr>sp_bouncePhase := (sp_bouncePhase sp)[i := \<not> sp_bouncePhase sp ! i]\<rparr>);
     Some (put_spawn i (st\<lparr>lss_bounceNextFlipAtMs := lss_bounceNextFlipAtMs st + ucast (lss_bouncePassDur st)\<rparr>) sp)
   }"

text \<open>The loop of the code has no bound of its own: it runs until the next turn lies in the future.\<close>

definition bounce_legs :: "libm \<Rightarrow> nat \<Rightarrow> u32 \<Rightarrow> ScenePlayer \<Rightarrow> ScenePlayer option" where
  "bounce_legs m i nowMs sp = do {
     fin \<leftarrow> while_option (\<lambda>s. case s of None \<Rightarrow> False | Some sp \<Rightarrow> bounce_due i nowMs sp) (\<lambda>s. Option.bind s (bounce_leg m i)) (Some sp);
     fin
   }"

section \<open>Sweeps\<close>

definition sweep_pulse :: "LayerSpawnState \<Rightarrow> SceneStep \<Rightarrow> nat \<Rightarrow> CompiledPulse" where
  "sweep_pulse st step k =
     (let c = lss_sweepCoord st ! k; maxC = of_nat (lss_sweepMaxCoord st); w = lss_sweepWidth st; dur = lss_sweepDurationMs st
      in if ss_animType step = RUN_WAVE then compileWave (real c) maxC w dur
         else if ss_animType step = RUN_CHASE then compileChase (of_nat c) maxC dur
         else compileRipple (real c) (real (if lss_sweepHaveFar st then lss_sweepCoordFar st ! k else c)) maxC w dur)"

definition fire_sweep :: "nat \<Rightarrow> ScenePlayer \<Rightarrow> ScenePlayer" where
  "fire_sweep i sp =
     (let layer = sp_layer sp i; step = sp_step sp i;
          cnt = sweepSpawnCount (ss_params step ! RUNNER_PARAM_COUNT);
          color = resolveColorToRgb sp (ss_colorTo step) i;
          (grp, st) = lss_next_group (sp_spawn sp i);
          sp = start_runner grp (concat (map (\<lambda>k. runner_prepare (lss_sweepPanels st ! k) grp FLAG_REAP_ON_DONE False layer step i color
                 (sweep_pulse st step k)) [0..<length (lss_sweepPanels st)])) sp;
          st = st\<lparr>lss_sweepSpawnIndex := lss_sweepSpawnIndex st + 1\<rparr>;
          st = (if lss_sweepSpawnIndex st < cnt
                then st\<lparr>lss_nextSpawnMs := sp_stepStartMs sp ! i + spawnSweepStartMs (lss_sweepDurationMs st) cnt (lss_sweepSpawnIndex st)\<rparr>
                else st)
      in put_spawn i st sp)"

text \<open>The loop over the sweeps that are due; the first argument is the number of sweeps left of the step.\<close>

fun sweep_loop :: "nat \<Rightarrow> nat \<Rightarrow> u32 \<Rightarrow> ScenePlayer \<Rightarrow> ScenePlayer" where
  "sweep_loop 0 i nowMs sp = sp"
| "sweep_loop (Suc left) i nowMs sp =
     (if lss_nextSpawnMs (sp_spawn sp i) \<le> nowMs then sweep_loop left i nowMs (fire_sweep i sp) else sp)"

definition serviceSweepSpawner :: "nat \<Rightarrow> u32 \<Rightarrow> ScenePlayer \<Rightarrow> ScenePlayer" where
  "serviceSweepSpawner i nowMs sp =
     (let st = sp_spawn sp i; cnt = sweepSpawnCount (ss_params (sp_step sp i) ! RUNNER_PARAM_COUNT)
      in if lss_sweepPanels st = [] \<or> lss_sweepDurationMs st = 0 then sp
         else sweep_loop (unat cnt - unat (lss_sweepSpawnIndex st)) i nowMs sp)"

section \<open>Drops\<close>

definition drop_style :: "ScenePlayer \<Rightarrow> nat \<Rightarrow> DropStyle" where
  "drop_style sp i =
     (let step = sp_step sp i
      in \<lparr>ds_target = ss_animates step, ds_identity = target_identity (ss_animates step), ds_peak = ss_params step ! RUNNER_PARAM_AMOUNT,
          ds_blend = resolveComposeMode (ly_blend (sp_layer sp i)) True, ds_fromRgb = resolveColorToRgb sp (ss_colorFrom step) i,
          ds_litRgb = resolveColorToRgb sp (ss_colorTo step) i\<rparr>)"

definition run_drops :: "nat \<Rightarrow> u8 \<Rightarrow> drop_step \<Rightarrow> ScenePlayer \<Rightarrow> ScenePlayer" where
  "run_drops i due f sp =
     (let (cs, (st, sch)) = repeat_drops (unat due) f (sp_spawn sp i, sp_scheduler sp)
      in sp_emit cs (put_spawn i st (sp\<lparr>sp_scheduler := sch\<rparr>)))"

text \<open>A time in ms under the global speed, at least 1 and at most 65535.\<close>

definition drop_ms :: "u32 \<Rightarrow> real \<Rightarrow> u16" where
  "drop_ms v speed =
     (let spd = (if speed < SPEED_MIN then SPEED_MIN else speed); x = to_u32 (fl (of_u v / spd));
          x = (if x < 1 then 1 else x)
      in if 65535 < x then 65535 else ucast x)"

definition emit_drops :: "libm \<Rightarrow> nat \<Rightarrow> u8 \<Rightarrow> u16 \<Rightarrow> ScenePlayer \<Rightarrow> ScenePlayer option" where
  "emit_drops m i due interval sp =
     (let step = sp_step sp i; ds = drop_style sp i; width = ss_params step ! RUNNER_PARAM_WIDTH;
          topo = st_topo (sp_topo sp); geo = sp_geom sp
      in if ss_animType step = RUN_SPARKLE then do {
           panels \<leftarrow> sp_resolve sp i;
           Some (if panels = [] then sp
                 else run_drops i due (sparkle_drop panels interval i ds (drop_ms (ucast width * SPARKLE_FADE_MS_PER_WIDTH) (sp_speed sp))) sp)
         }
         else if ti_count topo = 0 then Some sp
         else
           (let reverse = has_runner_flag step RUNNER_FLAG_REVERSE;
                fallMs = drop_ms (if ss_speedMs step \<noteq> 0 then ucast (ss_speedMs step) else RAIN_DEFAULT_FALL_MS) (sp_speed sp)
            in Some
              (if ss_animType step = RUN_MATRIX then
                 (if wants_geometry sp step then
                    (if line_slots geo topo = [] then sp
                     else run_drops i due (line_drop m geo topo step width fallMs interval i ds) sp)
                  else if leaf_slots topo = [] then sp
                  else run_drops i due (matrix_path_drop topo reverse width fallMs interval i ds) sp)
               else if wants_geometry sp step then
                 (if top_slots geo topo (fall_axis m step) (fall_dir step) = [] then sp
                  else run_drops i due (streak_drop m geo topo step width fallMs interval i ds) sp)
               else if leaf_slots topo = [] then sp
               else run_drops i due (rain_drop topo reverse width fallMs interval i ds) sp)))"

definition serviceSpawner :: "libm \<Rightarrow> nat \<Rightarrow> u32 \<Rightarrow> ScenePlayer \<Rightarrow> ScenePlayer option" where
  "serviceSpawner m i nowMs sp =
     (let step = sp_step sp i; st = sp_spawn sp i
      in if lss_poolSize st = 0 then Some sp
         else if isSweepRunner (ss_animType step) then Some (serviceSweepSpawner i nowMs sp)
         else
           (let w = ss_params step ! RUNNER_PARAM_WAVES; waves = (if w = 0 then 1 else w);
                (due, accum) = spawnDueCount (lss_accumMs st) (nowMs - lss_lastServiceMs st) waves SPAWN_MAX_BURST;
                sp = put_spawn i (st\<lparr>lss_lastServiceMs := nowMs, lss_accumMs := accum\<rparr>) sp
            in if due = 0 then Some sp else emit_drops m i due (ucast (spawnInterval waves)) sp))"

end
