(* ===== verification/Scene_Player.thy ===== *)
theory Scene_Player
  imports
    Scene_Runners
begin

text \<open>
  The scene player (\<open>Core/Controller/ScenePlayer.cpp\<close>): firing a step, arming the layers, the tick with its barrier,
  and the operations of its interface.
\<close>

section \<open>Firing a step\<close>

definition fireSpawnerStep :: "nat \<Rightarrow> u32 \<Rightarrow> ScenePlayer \<Rightarrow> ScenePlayer" where
  "fireSpawnerStep i nowMs sp =
     (let st = sp_spawn sp i
      in put_spawn i (st\<lparr>lss_rng := (nowMs * 2654435761) XOR 0x9E3779B9 XOR push_bit 16 (ucast (lss_cursor st)) XOR (of_nat i * 0x01000193) XOR 1,
           lss_accumMs := 0, lss_lastServiceMs := nowMs\<rparr>) sp)"

definition fireBounceStep :: "libm \<Rightarrow> nat \<Rightarrow> u32 \<Rightarrow> u16 \<Rightarrow> ScenePlayer \<Rightarrow> ScenePlayer option" where
  "fireBounceStep m i nowMs effective sp =
     (let passDur = (if effective div 2 = 0 then 1 else effective div 2)
      in fireBouncePass m i passDur
           (put_spawn i ((sp_spawn sp i)\<lparr>lss_bouncePassDur := passDur, lss_bounceNextFlipAtMs := nowMs + ucast passDur\<rparr>) sp))"

definition fireWheelStep :: "libm \<Rightarrow> nat \<Rightarrow> u32 \<Rightarrow> u8 list \<Rightarrow> u16 \<Rightarrow> ScenePlayer \<Rightarrow> ScenePlayer" where
  "fireWheelStep m i nowMs panels effective sp =
     (let layer = sp_layer sp i; step = sp_step sp i; arg = ss_params step ! RUNNER_PARAM_SRC_ARG
      in if \<not> pgeo_valid (sp_geom sp) then sp
         else
           (case computeWheelField m (sp_geom sp) (st_topo (sp_topo sp)) panels (ss_params step ! RUNNER_PARAM_SRC_KIND) arg
                   (has_runner_flag step RUNNER_FLAG_REVERSE) of
              None \<Rightarrow> sp
            | Some turns \<Rightarrow>
                (let color = resolveColorToRgb sp (ss_colorTo step) i;
                     lns = ss_params step ! RUNNER_PARAM_LINES;
                     lns = (if lns = 0 then 1 else lns); lns = (if 6 < lns then 6 else lns);
                     pulse = (\<lambda>t. compileWheel t lns (ss_params step ! RUNNER_PARAM_WIDTH) effective);
                     sp = start_runner (ly_groupId layer)
                            (concat (map (\<lambda>(p, t). runner_prepare p (ly_groupId layer) FLAG_LOOP True layer step i color (pulse t)) (zip panels turns))) sp;
                     wheelLoop = (isAsyncLayer layer \<or> ss_flags step AND FLAG_LOOP \<noteq> 0);
                     revMs = scaled_ms effective (sp_speed sp)
                 in put_spawn i ((sp_spawn sp i)\<lparr>lss_wheelStopAtMs := (if wheelLoop then 0 else nowMs + revMs)\<rparr>) sp)))"

text \<open>The field of a sweep: its greatest coordinate, the coordinates, and far edges for the geometric ripple.\<close>

definition sweep_field :: "libm \<Rightarrow> ScenePlayer \<Rightarrow> SceneStep \<Rightarrow> u8 list \<Rightarrow> (nat \<times> nat list \<times> nat list option) option" where
  "sweep_field m sp step panels =
     (if wants_geometry sp step \<and> ss_animType step = RUN_RIPPLE then
        (let (maxC, bands) = computeGeometricCenterField m (sp_geom sp) (st_topo (sp_topo sp)) panels
               (ss_params step ! RUNNER_PARAM_SRC_KIND) (ss_params step ! RUNNER_PARAM_SRC_ARG)
               (has_runner_flag step RUNNER_FLAG_REVERSE) (field_resolution sp panels)
         in Some (maxC, map fst bands, Some (map snd bands)))
      else map_option (\<lambda>(maxC, cs). (maxC, cs, None)) (linear_field m sp step (has_runner_flag step RUNNER_FLAG_REVERSE) panels))"

definition fireSweepStep :: "libm \<Rightarrow> nat \<Rightarrow> u32 \<Rightarrow> u8 list \<Rightarrow> u16 \<Rightarrow> ScenePlayer \<Rightarrow> ScenePlayer option" where
  "fireSweepStep m i nowMs panels effective sp = do {
     let step = sp_step sp i;
     (maxC, coord, far) \<leftarrow> sweep_field m sp step panels;
     let st = (sp_spawn sp i)\<lparr>lss_sweepPanels := panels, lss_sweepCoord := coord, lss_sweepHaveFar := (far \<noteq> None), lss_sweepMaxCoord := maxC,
            lss_sweepWidth := runner_width step, lss_sweepDurationMs := effective, lss_sweepSpawnIndex := 0,
            lss_nextSpawnMs := sp_stepStartMs sp ! i\<rparr>;
     let st = (case far of None \<Rightarrow> st | Some fs \<Rightarrow> st\<lparr>lss_sweepCoordFar := fs\<rparr>);
     Some (serviceSweepSpawner i nowMs (put_spawn i st sp))
   }"

definition fireRunnerStep :: "libm \<Rightarrow> nat \<Rightarrow> u32 \<Rightarrow> u8 list \<Rightarrow> u16 \<Rightarrow> ScenePlayer \<Rightarrow> ScenePlayer option" where
  "fireRunnerStep m i nowMs panels effective sp =
     (let t = ss_animType (sp_step sp i)
      in if isDropRunner t then Some (fireSpawnerStep i nowMs sp)
         else if effective = 0 then Some sp
         else if t = RUN_BOUNCE then fireBounceStep m i nowMs effective sp
         else if t = RUN_WHEEL then Some (fireWheelStep m i nowMs panels effective sp)
         else fireSweepStep m i nowMs panels effective sp)"

definition fireLocalAnimStep :: "nat \<Rightarrow> u8 list \<Rightarrow> u16 \<Rightarrow> ScenePlayer \<Rightarrow> ScenePlayer" where
  "fireLocalAnimStep i panels effective sp =
     (let layer = sp_layer sp i; step = sp_step sp i;
          (from, to) = (if ss_animates step = TARGET_COLOR then (ss_colorFrom step, ss_colorTo step)
                        else (ColorRef_scalar (ss_valueFrom step), ColorRef_scalar (ss_valueTo step)))
      in sp_schedule (sch_playOnPanels (ly_groupId layer) (ss_animType step) (ss_flags step) effective from to
           (ss_params step ! STEP_PARAM_PREPARE_1) (ss_params step ! STEP_PARAM_PREPARE_2) panels
           (resolveComposeMode (ly_blend layer) False) (of_nat i) (ss_animates step)) sp)"

definition fireStep :: "libm \<Rightarrow> u32 \<Rightarrow> nat \<Rightarrow> ScenePlayer \<Rightarrow> ScenePlayer option" where
  "fireStep m nowMs i sp =
     (let step = sp_step sp i
      in if ss_animType step = ANIM_GAP then stopLayerGroup i sp
         else do {
           panels \<leftarrow> sp_resolve sp i;
           if panels = [] then Some sp
           else
             (let effective = effective_ms (ss_durationMs step) (sp_speed sp)
              in if isRunnerType (ss_animType step) then fireRunnerStep m i nowMs panels effective sp
                 else Some (fireLocalAnimStep i panels effective sp))
         })"

section \<open>Arming and gating\<close>

definition arm_layer :: "u32 \<Rightarrow> bool \<Rightarrow> nat \<Rightarrow> ScenePlayer \<Rightarrow> ScenePlayer" where
  "arm_layer nowMs includeAsync i sp =
     (let layer = sp_layer sp i
      in if \<not> includeAsync \<and> isAsyncLayer layer then sp
         else sp\<lparr>sp_currentStep := (sp_currentStep sp)[i := 0], sp_stepStartMs := (sp_stepStartMs sp)[i := nowMs],
                 sp_layerState := (sp_layerState sp)[i :=
                   (if ly_stepCount layer = 0 \<or> ly_disabled layer then DONE
                    else if ly_startAfterGroupId layer = 0 then RUNNING else WAITING)]\<rparr>)"

definition fire_armed :: "libm \<Rightarrow> u32 \<Rightarrow> bool \<Rightarrow> nat \<Rightarrow> ScenePlayer \<Rightarrow> ScenePlayer option" where
  "fire_armed m nowMs includeAsync i sp =
     (if \<not> includeAsync \<and> isAsyncLayer (sp_layer sp i) then Some sp
      else if sp_layerState sp ! i = RUNNING then fireStep m nowMs i sp else Some sp)"

definition armLayers :: "libm \<Rightarrow> u32 \<Rightarrow> bool \<Rightarrow> ScenePlayer \<Rightarrow> ScenePlayer option" where
  "armLayers m nowMs includeAsync sp =
     each (fire_armed m nowMs includeAsync) [0..<sp_lCount sp] (fold (arm_layer nowMs includeAsync) [0..<sp_lCount sp] sp)"

definition dependencySatisfied :: "ScenePlayer \<Rightarrow> nat \<Rightarrow> u8 \<Rightarrow> bool" where
  "dependencySatisfied sp dep stepIdx \<longleftrightarrow>
     (if sp_layerState sp ! dep = DONE then True
      else if stepIdx = SCENE_NO_STEP_INDEX then False else unat stepIdx < sp_currentStep sp ! dep)"

definition promote_layer :: "libm \<Rightarrow> u32 \<Rightarrow> nat \<Rightarrow> ScenePlayer \<Rightarrow> ScenePlayer option" where
  "promote_layer m nowMs i sp =
     (if sp_layerState sp ! i \<noteq> WAITING then Some sp
      else
        (case layerIndexForGroup sp (ly_startAfterGroupId (sp_layer sp i)) of
           Some dep \<Rightarrow>
             (if \<not> dependencySatisfied sp dep (ly_startAfterStepIndex (sp_layer sp i)) then Some sp
              else fireStep m nowMs i (sp\<lparr>sp_layerState := (sp_layerState sp)[i := RUNNING], sp_currentStep := (sp_currentStep sp)[i := 0],
                     sp_stepStartMs := (sp_stepStartMs sp)[i := nowMs]\<rparr>))
         | None \<Rightarrow> fireStep m nowMs i (sp\<lparr>sp_layerState := (sp_layerState sp)[i := RUNNING], sp_currentStep := (sp_currentStep sp)[i := 0],
                     sp_stepStartMs := (sp_stepStartMs sp)[i := nowMs]\<rparr>)))"

definition promoteReadyLayers :: "libm \<Rightarrow> u32 \<Rightarrow> ScenePlayer \<Rightarrow> ScenePlayer option" where
  "promoteReadyLayers m nowMs sp = each (promote_layer m nowMs) [0..<sp_lCount sp] sp"

section \<open>The tick\<close>

definition service_step :: "libm \<Rightarrow> u32 \<Rightarrow> nat \<Rightarrow> ScenePlayer \<Rightarrow> ScenePlayer option" where
  "service_step m nowMs i sp =
     (let t = ss_animType (sp_step sp i); st = sp_spawn sp i
      in if t = RUN_WHEEL then
           (if lss_wheelStopAtMs st \<noteq> 0 \<and> lss_wheelStopAtMs st \<le> nowMs then stopLayerGroup i (put_spawn i (st\<lparr>lss_wheelStopAtMs := 0\<rparr>) sp)
            else Some sp)
         else if t = RUN_BOUNCE then bounce_legs m i nowMs sp
         else if isSpawnRunner t then serviceSpawner m i nowMs sp
         else Some sp)"

definition enter_step :: "libm \<Rightarrow> u32 \<Rightarrow> nat \<Rightarrow> nat \<Rightarrow> ScenePlayer \<Rightarrow> ScenePlayer option" where
  "enter_step m nowMs i k sp =
     fireStep m nowMs i (sp\<lparr>sp_currentStep := (sp_currentStep sp)[i := k], sp_stepStartMs := (sp_stepStartMs sp)[i := nowMs]\<rparr>)"

definition tick_layer :: "libm \<Rightarrow> u32 \<Rightarrow> nat \<Rightarrow> ScenePlayer \<Rightarrow> ScenePlayer option" where
  "tick_layer m nowMs i sp =
     (if sp_layerState sp ! i \<noteq> RUNNING then Some sp
      else
        (let step = sp_step sp i; nextStep = sp_currentStep sp ! i + 1
         in if ss_durationMs step = 0 then (if isSpawnRunner (ss_animType step) then serviceSpawner m i nowMs sp else Some sp)
            else if nowMs - sp_stepStartMs sp ! i < scaled_ms (ss_durationMs step) (sp_speed sp) then service_step m nowMs i sp
            else if nextStep < ly_stepCount (sp_layer sp i) then enter_step m nowMs i nextStep sp
            else if isAsyncLayer (sp_layer sp i) then enter_step m nowMs i 0 sp
            else Some (sp\<lparr>sp_pendingStop := (sp_pendingStop sp)[i := True], sp_layerState := (sp_layerState sp)[i := DONE]\<rparr>)))"

definition flush_stop :: "bool \<Rightarrow> nat \<Rightarrow> ScenePlayer \<Rightarrow> ScenePlayer option" where
  "flush_stop restarting i sp =
     (if \<not> sp_pendingStop sp ! i then Some sp
      else
        (let sp = sp\<lparr>sp_pendingStop := (sp_pendingStop sp)[i := False]\<rparr>
         in if restarting \<and> restartReclaimsLayerSlot (sp_layer sp i) then Some sp else stopLayerGroup i sp))"

definition flushPendingStops :: "bool \<Rightarrow> ScenePlayer \<Rightarrow> ScenePlayer option" where
  "flushPendingStops restarting sp = each (flush_stop restarting) [0..<sp_lCount sp] sp"

text \<open>The layers that the barrier waits for, and whether all of them are done.\<close>

definition sync_layers :: "ScenePlayer \<Rightarrow> nat list" where
  "sync_layers sp = filter (\<lambda>i. \<not> ly_disabled (sp_layer sp i) \<and> \<not> isAsyncLayer (sp_layer sp i)) [0..<sp_lCount sp]"

definition anyBlockingAsync :: "ScenePlayer \<Rightarrow> bool" where
  "anyBlockingAsync sp \<longleftrightarrow>
     list_ex (\<lambda>i. \<not> ly_disabled (sp_layer sp i) \<and> isAsyncLayer (sp_layer sp i) \<and> \<not> isNonBlocking (sp_layer sp i)) [0..<sp_lCount sp]"

definition allSyncDone :: "ScenePlayer \<Rightarrow> bool" where
  "allSyncDone sp \<longleftrightarrow> list_all (\<lambda>i. sp_layerState sp ! i = DONE) (sync_layers sp)"

definition barrier :: "libm \<Rightarrow> u32 \<Rightarrow> ScenePlayer \<Rightarrow> ScenePlayer option" where
  "barrier m nowMs sp = do {
     let anySync = (sync_layers sp \<noteq> []);
     let allDone = allSyncDone sp;
     let blocking = anyBlockingAsync sp;
     sp \<leftarrow> flushPendingStops (anySync \<and> allDone \<and> sp_loop sp) sp;
     if \<not> anySync \<or> \<not> allDone then Some sp
     else if sp_loop sp then armLayers m nowMs False sp
     else if \<not> blocking then Some (sp\<lparr>sp_playing := False\<rparr>)
     else Some sp
   }"

definition sp_tick :: "libm \<Rightarrow> u32 \<Rightarrow> ScenePlayer \<Rightarrow> ScenePlayer option" where
  "sp_tick m nowMs sp =
     (if \<not> sp_playing sp then Some sp
      else do {
        sp \<leftarrow> each (tick_layer m nowMs) [0..<sp_lCount sp] sp;
        sp \<leftarrow> promoteReadyLayers m nowMs sp;
        barrier m nowMs sp
      })"

section \<open>Loading and stopping\<close>

definition sp_stop :: "ScenePlayer \<Rightarrow> ScenePlayer" where
  "sp_stop sp =
     sp_emit (sch_broadcastStop @ sch_broadcastBlack)
       (sp\<lparr>sp_playing := False, sp_layerState := replicate SCENE_MAX_LAYERS WAITING, sp_pendingStop := replicate SCENE_MAX_LAYERS False,
           sp_bouncePhase := replicate SCENE_MAX_LAYERS False\<rparr>)"

definition buildUserColors :: "ColorRGB list \<Rightarrow> GradientStop list" where
  "buildUserColors base =
     map (\<lambda>(pos, c). \<lparr>gs_pos = pos, gs_r = rgb_r c, gs_g = rgb_g c, gs_b = rgb_b c\<rparr>) [(0, base ! 0), (128, base ! 1), (255, base ! 2)]"

definition resolve_palette :: "scene_env \<Rightarrow> string \<Rightarrow> ColorRGB list \<Rightarrow> GradientStop list" where
  "resolve_palette env name base =
     (if name = ''userColors'' then buildUserColors base
      else (case env_resolve env name of None \<Rightarrow> buildUserColors base | Some stops \<Rightarrow> stops))"

text \<open>The rooted view and the layout are rebuilt on one graph.\<close>

definition sp_rebuild :: "scene_env \<Rightarrow> ScenePlayer \<Rightarrow> ScenePlayer option" where
  "sp_rebuild env sp = do {
     st \<leftarrow> st_rebuild (env_indices env) (env_links env) (sp_topo sp);
     (_, geo) \<leftarrow> pgeo_build (env_libm env) (st_graph st) (env_edgeCounts env) 0 (sp_geom sp);
     Some (sp\<lparr>sp_topo := st, sp_geom := geo\<rparr>)
   }"

definition send_layer_palette :: "nat \<Rightarrow> ScenePlayer \<Rightarrow> ScenePlayer option" where
  "send_layer_palette i sp =
     (if ly_disabled (sp_layer sp i) then Some sp
      else do {
        panels \<leftarrow> sp_resolve sp i;
        let pal = sp_resolvedPalettes sp ! i;
        Some (if panels = [] then sp else sp_emit (sch_turnOnPanels panels @ sch_unicastPaletteToPanels pal (length pal) panels) sp)
      })"

definition sendPalettesToPanels :: "ScenePlayer \<Rightarrow> ScenePlayer option" where
  "sendPalettesToPanels sp = each send_layer_palette [0..<sp_lCount sp] (sp_emit (sch_broadcastBaseColors (sp_baseColors sp)) sp)"

definition armScene ::
  "scene_env \<Rightarrow> bool \<Rightarrow> string option \<Rightarrow> ColorRGB list \<Rightarrow> u32 \<Rightarrow> real \<Rightarrow> ColorRGB \<Rightarrow> ScenePlayer \<Rightarrow> ScenePlayer option" where
  "armScene env newLoop paletteDefault newBaseColors nowMs newSpeed newBackground sp = do {
     let sp = allocSpawnPools (sp_emit (sch_broadcastBackground newBackground) ((sp_stop sp)\<lparr>sp_background := newBackground\<rparr>));
     let pal = (case paletteDefault of None \<Rightarrow> ''userColors'' | Some p \<Rightarrow> if p = [] then ''userColors'' else p);
     let sp = sp\<lparr>sp_loop := newLoop, sp_speed := clamp_speed newSpeed, sp_defaultPalette := take 15 pal, sp_baseColors := newBaseColors\<rparr>;
     let sp = sp\<lparr>sp_resolvedPalettes :=
       map (\<lambda>i. resolve_palette env (if ly_palette (sp_layer sp i) \<noteq> [] then ly_palette (sp_layer sp i) else sp_defaultPalette sp) newBaseColors)
         [0..<sp_lCount sp] @ drop (sp_lCount sp) (sp_resolvedPalettes sp)\<rparr>;
     sp \<leftarrow> sp_rebuild env sp;
     sp \<leftarrow> sendPalettesToPanels sp;
     armLayers (env_libm env) nowMs True (sp\<lparr>sp_playing := True\<rparr>)
   }"

definition playPreloaded ::
  "scene_env \<Rightarrow> nat \<Rightarrow> bool \<Rightarrow> string option \<Rightarrow> ColorRGB list \<Rightarrow> u32 \<Rightarrow> real \<Rightarrow> ColorRGB \<Rightarrow> ScenePlayer \<Rightarrow> ScenePlayer option" where
  "playPreloaded env newCount newLoop paletteDefault newBaseColors nowMs newSpeed newBackground sp =
     armScene env newLoop paletteDefault newBaseColors nowMs newSpeed newBackground
       (sp\<lparr>sp_lCount := (if SCENE_MAX_LAYERS < newCount then SCENE_MAX_LAYERS else newCount)\<rparr>)"

definition loadAndPlay ::
  "scene_env \<Rightarrow> SceneLayer list \<Rightarrow> nat \<Rightarrow> bool \<Rightarrow> string option \<Rightarrow> ColorRGB list \<Rightarrow> u32 \<Rightarrow> real \<Rightarrow> ColorRGB \<Rightarrow> ScenePlayer \<Rightarrow> ScenePlayer option" where
  "loadAndPlay env newLayers newCount newLoop paletteDefault newBaseColors nowMs newSpeed newBackground sp =
     (let n = (if SCENE_MAX_LAYERS < newCount then SCENE_MAX_LAYERS else newCount)
      in armScene env newLoop paletteDefault newBaseColors nowMs newSpeed newBackground
           (sp\<lparr>sp_lCount := n, sp_layers := take n newLayers @ drop n (sp_layers sp)\<rparr>))"

definition sp_resume :: "scene_env \<Rightarrow> u32 \<Rightarrow> ScenePlayer \<Rightarrow> ScenePlayer option" where
  "sp_resume env nowMs sp =
     (if sp_lCount sp = 0 then Some sp
      else loadAndPlay env (sp_layers sp) (sp_lCount sp) (sp_loop sp) (Some (sp_defaultPalette sp)) (sp_baseColors sp) nowMs (sp_speed sp)
             (sp_background sp) sp)"

definition sp_setLogicalRoot :: "scene_env \<Rightarrow> u8 \<Rightarrow> u32 \<Rightarrow> ScenePlayer \<Rightarrow> ScenePlayer option" where
  "sp_setLogicalRoot env p nowMs sp =
     (let sp = sp\<lparr>sp_topo := st_setLogicalRoot p (sp_topo sp)\<rparr> in if sp_playing sp then sp_resume env nowMs sp else sp_rebuild env sp)"

definition reresolvePalettes :: "scene_env \<Rightarrow> string option \<Rightarrow> ColorRGB list option \<Rightarrow> ScenePlayer \<Rightarrow> ScenePlayer" where
  "reresolvePalettes env newPal newColors sp =
     (if \<not> sp_playing sp \<or> sp_lCount sp = 0 then sp
      else
        (let sp = (case newPal of None \<Rightarrow> sp | Some p \<Rightarrow> if p = [] then sp else sp\<lparr>sp_defaultPalette := take 15 p\<rparr>);
             sp = (case newColors of None \<Rightarrow> sp | Some cs \<Rightarrow> sp\<lparr>sp_baseColors := cs\<rparr>)
         in sp\<lparr>sp_resolvedPalettes :=
              map (\<lambda>i. if ly_palette (sp_layer sp i) \<noteq> [] then sp_resolvedPalettes sp ! i
                       else resolve_palette env (sp_defaultPalette sp) (sp_baseColors sp)) [0..<sp_lCount sp]
              @ drop (sp_lCount sp) (sp_resolvedPalettes sp)\<rparr>))"

definition reresolvePalettes_bytes :: "scene_env \<Rightarrow> string option \<Rightarrow> u8 list option \<Rightarrow> ScenePlayer \<Rightarrow> ScenePlayer" where
  "reresolvePalettes_bytes env newPal bytes =
     reresolvePalettes env newPal
       (map_option (\<lambda>bs. map (\<lambda>i. rgb (bs ! (i * 3)) (bs ! (i * 3 + 1)) (bs ! (i * 3 + 2))) [0..<BASE_COLORS_COUNT]) bytes)"

end
