(* ===== verification/Scene_Actions.thy ===== *)
theory Scene_Actions
  imports
    Scene_Player
begin

text \<open>
  What firing and servicing a layer does and does not do: every operation on a layer returns on a ready topology,
  leaves the plan of the scene (layers, steps, states, timing) and the spawner state of the other layers alone,
  and sends packets for the group ids of that layer only: its own and those of its pool.
\<close>

section \<open>Group ids\<close>

definition lss_pool :: "LayerSpawnState \<Rightarrow> u8 set" where
  "lss_pool st = range (\<lambda>c. fst (spawnPoolNext c (lss_poolBase st) (lss_poolSize st)))"

definition layer_groups :: "ScenePlayer \<Rightarrow> nat \<Rightarrow> u8 set" where
  "layer_groups sp i = insert (ly_groupId (sp_layer sp i)) (lss_pool (sp_spawn sp i))"

definition on_groups :: "u8 set \<Rightarrow> sink_call \<Rightarrow> bool" where
  "on_groups G c \<longleftrightarrow>
     (case c of
        Sink_Send a f ack \<Rightarrow>
          (\<exists>q. f = makePacket PACKET_ANIMATION_PREPARE 0 (Animation_Prepare q) \<and> ap_group_id q \<in> G)
          \<or> (\<exists>q. f = makePacket PACKET_ANIMATION_START 0 (Animation_Start q) \<and> as_group_id q \<in> G)
          \<or> (\<exists>q. f = makePacket PACKET_ANIMATION_CONTROL 0 (Animation_Control q) \<and> ac_group_id q \<in> G)
      | _ \<Rightarrow> True)"

named_theorems grouped \<open>packets that stay on the given group ids\<close>

lemma on_groups_mono: "on_groups G c \<Longrightarrow> G \<subseteq> H \<Longrightarrow> on_groups H c"
  by (cases c) (auto simp: on_groups_def)

lemma all_on_groups_mono: "list_all (on_groups G) cs \<Longrightarrow> G \<subseteq> H \<Longrightarrow> list_all (on_groups H) cs"
  by (auto simp: list_all_iff intro: on_groups_mono)

lemma on_groups_pace [grouped]: "on_groups G (Sink_Pace n)" "on_groups G (Sink_PaceForHop k)"
  by (simp_all add: on_groups_def)

lemma prepare_on_groups [grouped]: "g \<in> G \<Longrightarrow> list_all (on_groups G) (sch_sendPrepareToPanel p g t f d from to p1 p2 cm co sd an)"
  by (auto simp: sch_sendPrepareToPanel_def Let_def on_groups_def)

lemma start_on_groups [grouped]: "g \<in> G \<Longrightarrow> list_all (on_groups G) (fst (sch_sendGroupStart g s))"
  by (auto simp: sch_sendGroupStart_def Let_def on_groups_def list_all_iff)

lemma stop_on_groups [grouped]: "ly_groupId layer \<in> G \<Longrightarrow> list_all (on_groups G) (stop_calls layer panels)"
  by (auto simp: stop_calls_def sch_sendControlToPanels_def unicast_def on_groups_def list_all_iff)

lemma play_on_groups [grouped]:
  "g \<in> G \<Longrightarrow> list_all (on_groups G) (fst (sch_playOnPanels g t f d from to p1 p2 panels cm co an s))"
proof -
  assume g: "g \<in> G"
  have "list_all (on_groups G) (concat (map (\<lambda>p. sch_sendPrepareToPanel p g t f d from to p1 p2 cm co 0 an) panels))"
    using prepare_on_groups [OF g] by (induction panels) simp_all
  then show ?thesis using start_on_groups [OF g, of s] by (simp add: sch_playOnPanels_def Let_def split_beta grouped)
qed

lemma runner_on_groups [grouped]: "g \<in> G \<Longrightarrow> list_all (on_groups G) (runner_prepare p g f sw layer step i color cp)"
  by (simp add: runner_prepare_def Let_def split_beta grouped)

lemma drop_on_groups [grouped]: "g \<in> G \<Longrightarrow> list_all (on_groups G) (sendDropPrepare p g co ds dp x b)"
  by (simp add: sendDropPrepare_def Let_def split_beta grouped)

lemma concat_on_groups [grouped]: "(\<And>x. list_all P (f x)) \<Longrightarrow> list_all P (concat (map f xs))"
  by (induction xs) simp_all

section \<open>Actions on one layer\<close>

text \<open>The part of the state that only the tick, arming and loading change.\<close>

definition plan :: "ScenePlayer \<Rightarrow> ScenePlayer" where
  "plan sp = sp\<lparr>sp_scheduler := sch_init, sp_bouncePhase := [], sp_spawnState := [], sp_sent := []\<rparr>"

lemma plan_fields:
  assumes "plan sp' = plan sp"
  shows "sp_layers sp' = sp_layers sp" "sp_currentStep sp' = sp_currentStep sp" "sp_stepStartMs sp' = sp_stepStartMs sp"
    "sp_layerState sp' = sp_layerState sp" "sp_pendingStop sp' = sp_pendingStop sp" "sp_lCount sp' = sp_lCount sp"
    "sp_loop sp' = sp_loop sp" "sp_playing sp' = sp_playing sp" "sp_speed sp' = sp_speed sp" "sp_topo sp' = sp_topo sp"
    "sp_geom sp' = sp_geom sp" "sp_resolvedPalettes sp' = sp_resolvedPalettes sp" "sp_baseColors sp' = sp_baseColors sp"
    "sp_defaultPalette sp' = sp_defaultPalette sp" "sp_background sp' = sp_background sp"
  using assms by (cases sp; cases sp'; simp add: plan_def)+

text \<open>While a bouncing step has a turn pending, the length of a leg is not zero.\<close>

definition bounce_ok :: "LayerSpawnState \<Rightarrow> bool" where
  "bounce_ok st \<longleftrightarrow> (lss_bounceNextFlipAtMs st \<noteq> 0 \<longrightarrow> lss_bouncePassDur st \<noteq> 0)"

definition lss_keeps :: "LayerSpawnState \<Rightarrow> LayerSpawnState \<Rightarrow> bool" where
  "lss_keeps st st' \<longleftrightarrow> lss_poolBase st' = lss_poolBase st \<and> lss_poolSize st' = lss_poolSize st \<and> (bounce_ok st \<longrightarrow> bounce_ok st')"

lemma lss_keeps_refl [simp]: "lss_keeps st st"
  by (simp add: lss_keeps_def)

lemma lss_keeps_trans: "lss_keeps a b \<Longrightarrow> lss_keeps b c \<Longrightarrow> lss_keeps a c"
  by (simp add: lss_keeps_def)

lemma lss_keeps_pool: "lss_keeps st st' \<Longrightarrow> lss_pool st' = lss_pool st"
  by (simp add: lss_keeps_def lss_pool_def)

definition acts :: "nat \<Rightarrow> ScenePlayer \<Rightarrow> ScenePlayer \<Rightarrow> bool" where
  "acts i sp sp' \<longleftrightarrow>
     plan sp' = plan sp \<and> length (sp_bouncePhase sp') = length (sp_bouncePhase sp)
     \<and> length (sp_spawnState sp') = length (sp_spawnState sp)
     \<and> (\<forall>j. lss_keeps (sp_spawn sp j) (sp_spawn sp' j))
     \<and> (\<forall>j. j \<noteq> i \<longrightarrow> sp_spawn sp' j = sp_spawn sp j)
     \<and> (\<exists>cs. sp_sent sp' = sp_sent sp @ cs \<and> list_all (on_groups (layer_groups sp i)) cs)"

lemma acts_groups: "acts i sp sp' \<Longrightarrow> layer_groups sp' j = layer_groups sp j"
proof -
  assume a: "acts i sp sp'"
  have "sp_layers sp' = sp_layers sp" by (rule plan_fields) (use a in \<open>simp add: acts_def\<close>)
  moreover have "lss_pool (sp_spawn sp' j) = lss_pool (sp_spawn sp j)" by (rule lss_keeps_pool) (use a in \<open>simp add: acts_def\<close>)
  ultimately show ?thesis by (simp add: layer_groups_def)
qed

lemma acts_refl [simp]: "acts i sp sp"
  by (simp add: acts_def)

lemma acts_trans: "acts i a b \<Longrightarrow> acts i b c \<Longrightarrow> acts i a c"
proof -
  assume ab: "acts i a b" and bc: "acts i b c"
  have "\<exists>cs. sp_sent b = sp_sent a @ cs \<and> list_all (on_groups (layer_groups a i)) cs" using ab unfolding acts_def by (elim conjE)
  then obtain cs where cs: "sp_sent b = sp_sent a @ cs" "list_all (on_groups (layer_groups a i)) cs" by blast
  have "\<exists>cs. sp_sent c = sp_sent b @ cs \<and> list_all (on_groups (layer_groups b i)) cs" using bc unfolding acts_def by (elim conjE)
  then obtain ds where ds: "sp_sent c = sp_sent b @ ds" "list_all (on_groups (layer_groups b i)) ds" by blast
  have "sp_sent c = sp_sent a @ (cs @ ds) \<and> list_all (on_groups (layer_groups a i)) (cs @ ds)"
    using cs ds acts_groups [OF ab] by simp
  then have sent: "\<exists>ds. sp_sent c = sp_sent a @ ds \<and> list_all (on_groups (layer_groups a i)) ds" by blast
  show ?thesis unfolding acts_def by (intro conjI sent) (use ab bc in \<open>auto simp: acts_def intro: lss_keeps_trans\<close>)
qed

lemma acts_emit: "list_all (on_groups (layer_groups sp i)) cs \<Longrightarrow> acts i sp (sp_emit cs sp)"
  by (simp add: acts_def plan_def sp_emit_def)

lemma acts_schedule: "list_all (on_groups (layer_groups sp i)) (fst (f (sp_scheduler sp))) \<Longrightarrow> acts i sp (sp_schedule f sp)"
  by (auto simp: acts_def plan_def sp_schedule_def sp_emit_def split_beta)

lemma acts_put_spawn: "lss_keeps (sp_spawn sp i) st \<Longrightarrow> acts i sp (put_spawn i st sp)"
  by (cases "i < length (sp_spawnState sp)") (auto simp: acts_def plan_def put_spawn_def nth_list_update list_update_beyond)

lemma acts_bounce: "acts i sp (sp\<lparr>sp_bouncePhase := (sp_bouncePhase sp)[k := b]\<rparr>)"
  by (simp add: acts_def plan_def layer_groups_def)

lemma acts_start_runner:
  assumes g: "g \<in> layer_groups sp i" and cs: "list_all (on_groups (layer_groups sp i)) cs"
  shows "acts i sp (start_runner g cs sp)"
proof -
  have e: "acts i sp (sp_emit (cs @ [Sink_Pace 300]) sp)" using cs by (intro acts_emit) (simp add: grouped)
  have "g \<in> layer_groups (sp_emit (cs @ [Sink_Pace 300]) sp) i" using g acts_groups [OF e] by simp
  then show ?thesis unfolding start_runner_def by (intro acts_trans [OF e] acts_schedule start_on_groups)
qed

lemma own_group [simp]: "ly_groupId (sp_layer sp i) \<in> layer_groups sp i"
  by (simp add: layer_groups_def)

section \<open>Sweeps\<close>

lemma next_group:
  assumes "lss_next_group st = (g, st')"
  shows "g \<in> lss_pool st" and "lss_keeps st st'"
  using assms by (auto simp: lss_next_group_def lss_pool_def split_beta lss_keeps_def bounce_ok_def)

lemma fire_sweep_acts: "acts i sp (fire_sweep i sp)"
proof -
  obtain g st where g: "lss_next_group (sp_spawn sp i) = (g, st)" by (cases "lss_next_group (sp_spawn sp i)")
  have pool: "g \<in> layer_groups sp i" using next_group(1) [OF g] by (simp add: layer_groups_def)
  let ?step = "sp_step sp i" and ?color = "resolveColorToRgb sp (ss_colorTo (sp_step sp i)) i"
  let ?cs = "concat (map (\<lambda>k. runner_prepare (lss_sweepPanels st ! k) g FLAG_REAP_ON_DONE False (sp_layer sp i) ?step i ?color
                 (sweep_pulse st ?step k)) [0..<length (lss_sweepPanels st)])"
  have run: "acts i sp (start_runner g ?cs sp)" using pool by (intro acts_start_runner concat_on_groups runner_on_groups)
  have same: "sp_spawnState (start_runner g ?cs sp) = sp_spawnState sp"
    by (simp add: start_runner_def sp_schedule_def sp_emit_def split_beta)
  obtain st' where st': "fire_sweep i sp = put_spawn i st' (start_runner g ?cs sp)" "lss_keeps st st'"
    by (auto simp: fire_sweep_def g Let_def lss_keeps_def bounce_ok_def)
  show ?thesis unfolding st'(1) same by (intro acts_trans [OF run] acts_put_spawn) (simp add: same lss_keeps_trans [OF next_group(2) [OF g] st'(2)])
qed

lemma sweep_loop_acts: "acts i sp (sweep_loop n i now sp)"
  by (induction n arbitrary: sp) (auto intro: acts_trans fire_sweep_acts)

lemma sweep_service_acts: "acts i sp (serviceSweepSpawner i now sp)"
  by (simp add: serviceSweepSpawner_def Let_def sweep_loop_acts)

section \<open>Drops\<close>

definition drop_ok :: "drop_step \<Rightarrow> bool" where
  "drop_ok f \<longleftrightarrow> (\<forall>st sch. list_all (on_groups (lss_pool st)) (fst (f (st, sch))) \<and> lss_keeps st (fst (snd (f (st, sch)))))"

lemma lss_draw_keeps [simp]: "lss_keeps st (snd (lss_draw n st'))  \<longleftrightarrow> lss_keeps st st'"
  by (simp add: lss_draw_def split_beta lss_keeps_def bounce_ok_def)

lemma lss_next_keeps [simp]: "lss_keeps st (snd (lss_next_group st))" "fst (lss_next_group st) \<in> lss_pool st"
  using next_group [of st "fst (lss_next_group st)" "snd (lss_next_group st)"] by simp_all

lemma start_group_fst: "list_all (on_groups G) cs \<Longrightarrow> g \<in> G \<Longrightarrow> list_all (on_groups G) (fst (start_group g gap cs sp))"
  by (simp add: start_group_def Let_def split_beta grouped)

lemma start_group_snd [simp]: "fst (snd (start_group g gap cs sp)) = fst sp"
  by (simp add: start_group_def Let_def split_beta)

lemma chain_on_groups: "g \<in> G \<Longrightarrow> list_all (on_groups G) (chain_prepares topo path reverse pulse g i ds off)"
  unfolding chain_prepares_def by (intro concat_on_groups drop_on_groups)

lemma line_on_groups: "g \<in> G \<Longrightarrow> list_all (on_groups G) (line_prepare geo topo axis dir lo alongSpan ap hw fallMs tail g i ds off s)"
  by (simp add: line_prepare_def Let_def grouped split: option.split)

lemma sparkle_drop_ok: "drop_ok (sparkle_drop panels interval i ds fadeMs)"
  by (simp add: drop_ok_def sparkle_drop_def Let_def split_beta start_group_fst drop_on_groups)

lemma rain_drop_ok: "drop_ok (rain_drop topo reverse width fallMs interval i ds)"
  by (simp add: drop_ok_def rain_drop_def Let_def split_beta start_group_fst chain_on_groups)

lemma matrix_path_drop_ok: "drop_ok (matrix_path_drop topo reverse width fallMs interval i ds)"
  by (simp add: drop_ok_def matrix_path_drop_def Let_def split_beta start_group_fst chain_on_groups)

lemma line_drop_ok: "drop_ok (line_drop m geo topo step width fallMs interval i ds)"
  by (auto simp: drop_ok_def line_drop_def Let_def split_beta start_group_fst concat_on_groups line_on_groups split: option.split)

lemma streak_drop_ok: "drop_ok (streak_drop m geo topo step width fallMs interval i ds)"
  by (auto simp: drop_ok_def streak_drop_def Let_def split_beta start_group_fst chain_on_groups split: option.split)

lemma repeat_drops_ok: "drop_ok f \<Longrightarrow> drop_ok (repeat_drops n f)"
proof (induction n)
  case (Suc n)
  show ?case unfolding drop_ok_def
  proof (intro allI)
    fix st sch
    obtain cs st1 s1 where f: "f (st, sch) = (cs, (st1, s1))" by (metis prod.exhaust)
    obtain ds st2 s2 where r: "repeat_drops n f (st1, s1) = (ds, (st2, s2))" by (metis prod.exhaust)
    have 1: "list_all (on_groups (lss_pool st)) cs" "lss_keeps st st1"
      using Suc.prems f unfolding drop_ok_def by (metis fst_conv snd_conv)+
    have 2: "list_all (on_groups (lss_pool st1)) ds" "lss_keeps st1 st2"
      using Suc.IH [OF Suc.prems] r unfolding drop_ok_def by (metis fst_conv snd_conv)+
    have "lss_pool st1 = lss_pool st" by (rule lss_keeps_pool) (rule 1)
    then show "list_all (on_groups (lss_pool st)) (fst (repeat_drops (Suc n) f (st, sch)))
      \<and> lss_keeps st (fst (snd (repeat_drops (Suc n) f (st, sch))))"
      using 1 2 by (simp add: f r lss_keeps_trans [OF 1(2) 2(2)])
  qed
qed (simp add: drop_ok_def)

lemma run_drops_acts:
  assumes "drop_ok f"
  shows "acts i sp (run_drops i due f sp)"
proof -
  obtain cs st sch where r: "repeat_drops (unat due) f (sp_spawn sp i, sp_scheduler sp) = (cs, (st, sch))" by (metis prod.exhaust)
  have ok: "list_all (on_groups (lss_pool (sp_spawn sp i))) cs" "lss_keeps (sp_spawn sp i) st"
    using repeat_drops_ok [OF assms, of "unat due"] r unfolding drop_ok_def by (metis fst_conv snd_conv)+
  let ?a = "sp\<lparr>sp_scheduler := sch\<rparr>"
  have a: "acts i sp ?a" by (simp add: acts_def plan_def layer_groups_def)
  have b: "acts i ?a (put_spawn i st ?a)" by (intro acts_put_spawn) (simp add: ok)
  have "list_all (on_groups (layer_groups (put_spawn i st ?a) i)) cs"
    using all_on_groups_mono [OF ok(1)] acts_groups [OF acts_trans [OF a b]] by (simp add: layer_groups_def subset_insertI)
  then have "acts i (put_spawn i st ?a) (sp_emit cs (put_spawn i st ?a))" by (rule acts_emit)
  then show ?thesis using acts_trans [OF a acts_trans [OF b]] by (simp add: run_drops_def r)
qed

section \<open>Operations that resolve panels\<close>

abbreviation topo_of :: "ScenePlayer \<Rightarrow> TopologyIndex" where "topo_of sp \<equiv> st_topo (sp_topo sp)"

lemma resolve_returns [returned]: "topo_ready (topo_of sp) \<Longrightarrow> returns (sp_resolve sp i) (\<lambda>_. True)"
  using sel_loop_total [of "topo_of sp" "ly_target (sp_layer sp i)" 0 "[]"]
  by (auto simp: sp_resolve_def st_resolvePanels_def resolveSelector_def returns_def split: option.splits)

lemma distance_returns: "topo_ready t \<Longrightarrow> returns (computeDistanceField t panels k a reverse (replicate LIGHTNET_MAX_PANELS 0)) (\<lambda>_. True)"
proof -
  assume t: "topo_ready t"
  then have "graph_ok (ti_graph t)" "ti_n t = pg_n (ti_graph t)" by (simp_all add: topo_ready_def)
  moreover from this have "pg_n (ti_graph t) \<le> length (replicate LIGHTNET_MAX_PANELS (0 :: nat))" by (simp add: graph_ok_def MAXN_def)
  ultimately show ?thesis
    using distances_spec [of "ti_graph t" t "replicate LIGHTNET_MAX_PANELS 0" "buildSourceSet t k a []"]
    by (auto simp: computeDistanceField_def returns_def)
qed

lemma linear_field_returns: "topo_ready (topo_of sp) \<Longrightarrow> returns (linear_field m sp step reverse panels) (\<lambda>_. True)"
  by (simp add: linear_field_def Let_def distance_returns)

lemma stop_returns: "topo_ready (topo_of sp) \<Longrightarrow> returns (stopLayerGroup i sp) (acts i sp)"
  using resolve_returns [of sp i] by (auto simp: stopLayerGroup_def intro!: acts_emit stop_on_groups elim: returns_mono)

lemma bounce_pass_returns: "topo_ready (topo_of sp) \<Longrightarrow>
  returns (fireBouncePass m i dur sp) (\<lambda>sp'. acts i sp sp' \<and> sp_spawnState sp' = sp_spawnState sp)"
proof -
  assume t: "topo_ready (topo_of sp)"
  obtain panels where p: "sp_resolve sp i = Some panels" using resolve_returns [OF t] by (auto simp: returns_def)
  let ?step = "sp_step sp i"
  obtain maxC cs where f: "linear_field m sp ?step (has_runner_flag ?step RUNNER_FLAG_REVERSE \<noteq> sp_bouncePhase sp ! i) panels = Some (maxC, cs)"
    using linear_field_returns [OF t, of m ?step "has_runner_flag ?step RUNNER_FLAG_REVERSE \<noteq> sp_bouncePhase sp ! i" panels]
    unfolding returns_def by (metis prod.exhaust)
  have "sp_spawnState (start_runner g xs sp) = sp_spawnState sp" for g xs
    by (simp add: start_runner_def sp_schedule_def sp_emit_def split_beta)
  moreover have "list_all (on_groups (layer_groups sp i)) (concat (map (\<lambda>(p, c). runner_prepare p (ly_groupId (sp_layer sp i)) 0 False (sp_layer sp i) ?step i color (pulse c)) ps))"
    for color pulse and ps :: "(u8 \<times> nat) list"
    unfolding split_beta by (intro concat_on_groups runner_on_groups own_group)
  ultimately show ?thesis by (auto simp: fireBouncePass_def p f [simplified] Let_def intro!: acts_start_runner)
qed

text \<open>The turns of a bouncing step: they end while the clock stays one leg away from its wrap.\<close>

lemma bounce_leg_returns:
  assumes t: "topo_ready (topo_of sp)" and i: "i < length (sp_spawnState sp)" and due: "bounce_due i now sp" and ok: "bounce_ok (sp_spawn sp i)"
  shows "returns (bounce_leg m i sp) (\<lambda>sp'. acts i sp sp'
    \<and> lss_bouncePassDur (sp_spawn sp' i) = lss_bouncePassDur (sp_spawn sp i)
    \<and> lss_bounceNextFlipAtMs (sp_spawn sp' i) = lss_bounceNextFlipAtMs (sp_spawn sp i) + ucast (lss_bouncePassDur (sp_spawn sp i)))"
proof -
  let ?st = "sp_spawn sp i" and ?sp = "sp\<lparr>sp_bouncePhase := (sp_bouncePhase sp)[i := \<not> sp_bouncePhase sp ! i]\<rparr>"
  have dur: "lss_bouncePassDur ?st \<noteq> 0" using due ok by (simp add: bounce_due_def bounce_ok_def)
  obtain s where s: "fireBouncePass m i (lss_bouncePassDur ?st) ?sp = Some s" "acts i ?sp s" "sp_spawnState s = sp_spawnState sp"
    using bounce_pass_returns [of ?sp m i "lss_bouncePassDur ?st"] t by (auto simp: returns_def)
  have a: "acts i sp s" by (rule acts_trans [OF acts_bounce s(2)])
  let ?new = "?st\<lparr>lss_bounceNextFlipAtMs := lss_bounceNextFlipAtMs ?st + ucast (lss_bouncePassDur ?st)\<rparr>"
  have "acts i s (put_spawn i ?new s)" by (intro acts_put_spawn) (simp add: s(3) lss_keeps_def bounce_ok_def dur)
  then have "acts i sp (put_spawn i ?new s)" by (rule acts_trans [OF a])
  then show ?thesis using i s(3) by (simp add: bounce_leg_def s(1) Let_def put_spawn_def)
qed

lemma bounce_legs_returns:
  assumes t: "topo_ready (topo_of sp)" and i: "i < length (sp_spawnState sp)" and ok: "bounce_ok (sp_spawn sp i)"
    and now: "unat nowMs < 2 ^ 32 - 65535"
  shows "returns (bounce_legs m i nowMs sp) (acts i sp)"
proof -
  let ?b = "\<lambda>s. case s of None \<Rightarrow> False | Some sp \<Rightarrow> bounce_due i nowMs sp" and ?c = "\<lambda>s. Option.bind s (bounce_leg m i)"
  let ?I = "\<lambda>s. \<exists>q. s = Some q \<and> acts i sp q"
  let ?next = "\<lambda>s. unat (lss_bounceNextFlipAtMs (sp_spawn (the s) i))"
  have step: "?I (?c s) \<and> 2 ^ 32 - ?next (?c s) < 2 ^ 32 - ?next s" if I: "?I s" and b: "?b s" for s
  proof -
    obtain q where q: "s = Some q" "acts i sp q" using I by blast
    have due: "bounce_due i nowMs q" using b q(1) by simp
    have qt: "topo_ready (topo_of q)" "i < length (sp_spawnState q)" "bounce_ok (sp_spawn q i)"
      using q(2) t i ok plan_fields(10) [of q sp] by (simp_all add: acts_def lss_keeps_def)
    obtain q' where q': "bounce_leg m i q = Some q'" "acts i q q'"
      "lss_bounceNextFlipAtMs (sp_spawn q' i) = lss_bounceNextFlipAtMs (sp_spawn q i) + ucast (lss_bouncePassDur (sp_spawn q i))"
      using bounce_leg_returns [OF qt(1,2) due qt(3), of m] by (auto simp: returns_def)
    let ?n = "lss_bounceNextFlipAtMs (sp_spawn q i)" and ?d = "lss_bouncePassDur (sp_spawn q i)"
    have d: "0 < unat ?d" "unat ?n \<le> unat nowMs" "unat ?d \<le> 65535"
      using due qt(3) unat_u16_less [of ?d] by (simp_all add: bounce_due_def bounce_ok_def unat_gt_0 word_le_nat_alt)
    have "unat (ucast ?d :: u32) = unat ?d" using unat_u16_less [of ?d] by (simp add: unsigned_ucast_eq take_bit_nat_eq_self)
    then have "unat (?n + ucast ?d) = unat ?n + unat ?d" using d now by (simp add: unat_word_ariths)
    moreover have "acts i sp q'" by (rule acts_trans [OF q(2) q'(2)])
    ultimately show ?thesis using q(1) q'(1,3) d now by simp
  qed
  have start: "?I (Some sp)" by simp
  obtain e where e: "while_option ?b ?c (Some sp) = Some e"
    using measure_while_option_Some [where P = ?I and f = "\<lambda>s. 2 ^ 32 - ?next s" and b = ?b and c = ?c, OF step start] by blast
  have "?I e" by (rule while_option_rule [where P = ?I, OF _ e start]) (use step in blast)
  then show ?thesis by (auto simp: bounce_legs_def e)
qed

section \<open>Firing and servicing a layer\<close>

lemma emit_drops_returns: "topo_ready (topo_of sp) \<Longrightarrow> returns (emit_drops m i due interval sp) (acts i sp)"
  using resolve_returns [of sp i]
  by (auto simp: emit_drops_def Let_def returns_def
      intro!: run_drops_acts sparkle_drop_ok line_drop_ok matrix_path_drop_ok streak_drop_ok rain_drop_ok)

lemma service_returns: "topo_ready (topo_of sp) \<Longrightarrow> returns (serviceSpawner m i nowMs sp) (acts i sp)"
proof -
  assume t: "topo_ready (topo_of sp)"
  let ?st = "sp_spawn sp i"
  have "returns (emit_drops m i due interval (put_spawn i (?st\<lparr>lss_lastServiceMs := nowMs, lss_accumMs := accum\<rparr>) sp)) (acts i sp)"
    and keep: "acts i sp (put_spawn i (?st\<lparr>lss_lastServiceMs := nowMs, lss_accumMs := accum\<rparr>) sp)" for due interval accum
  proof -
    let ?sp = "put_spawn i (?st\<lparr>lss_lastServiceMs := nowMs, lss_accumMs := accum\<rparr>) sp"
    show a: "acts i sp ?sp" by (intro acts_put_spawn) (simp add: lss_keeps_def bounce_ok_def)
    have "topo_ready (topo_of ?sp)" using t by (simp add: put_spawn_def)
    then show "returns (emit_drops m i due interval ?sp) (acts i sp)"
      by (rule returns_mono [OF emit_drops_returns]) (rule acts_trans [OF a])
  qed
  then show ?thesis by (auto simp: serviceSpawner_def Let_def split_beta sweep_service_acts)
qed

lemma spawner_step_acts: "acts i sp (fireSpawnerStep i nowMs sp)"
  unfolding fireSpawnerStep_def Let_def by (intro acts_put_spawn) (simp add: lss_keeps_def bounce_ok_def)

lemma bounce_step_returns: "topo_ready (topo_of sp) \<Longrightarrow> returns (fireBounceStep m i nowMs effective sp) (acts i sp)"
proof -
  assume t: "topo_ready (topo_of sp)"
  let ?d = "if effective div 2 = 0 then 1 else effective div 2"
  let ?sp = "put_spawn i ((sp_spawn sp i)\<lparr>lss_bouncePassDur := ?d, lss_bounceNextFlipAtMs := nowMs + ucast ?d\<rparr>) sp"
  have a: "acts i sp ?sp" by (intro acts_put_spawn) (simp add: lss_keeps_def bounce_ok_def)
  have "topo_ready (topo_of ?sp)" using t by (simp add: put_spawn_def)
  then have "returns (fireBouncePass m i ?d ?sp) (acts i sp)"
    using bounce_pass_returns [of ?sp m i ?d] acts_trans [OF a] by (auto simp: returns_def)
  then show ?thesis by (simp only: fireBounceStep_def Let_def)
qed

lemma wheel_step_acts: "acts i sp (fireWheelStep m i nowMs panels effective sp)"
proof -
  let ?g = "ly_groupId (sp_layer sp i)"
  have "acts i sp (put_spawn i ((sp_spawn q i)\<lparr>lss_wheelStopAtMs := x\<rparr>) q)" if "acts i sp q" for q x
    by (rule acts_trans [OF that], intro acts_put_spawn) (simp add: lss_keeps_def bounce_ok_def)
  moreover have "acts i sp (start_runner ?g (concat (map (\<lambda>(p, t). runner_prepare p ?g f sw (sp_layer sp i) step i color (pulse t)) ps)) sp)"
    for f sw step color pulse and ps :: "(u8 \<times> real) list"
    unfolding split_beta by (intro acts_start_runner concat_on_groups runner_on_groups own_group)
  ultimately show ?thesis by (simp add: fireWheelStep_def Let_def split: option.split)
qed

lemma sweep_step_returns: "topo_ready (topo_of sp) \<Longrightarrow> returns (fireSweepStep m i nowMs panels effective sp) (acts i sp)"
proof -
  assume t: "topo_ready (topo_of sp)"
  have "returns (sweep_field m sp step panels) (\<lambda>_. True)" for step
    using linear_field_returns [OF t] by (simp add: sweep_field_def Let_def split_beta)
  then obtain maxC cs far where f: "sweep_field m sp (sp_step sp i) panels = Some (maxC, cs, far)" by (metis returns_def prod.exhaust)
  have "acts i sp (serviceSweepSpawner i nowMs (put_spawn i st sp))" if "lss_keeps (sp_spawn sp i) st" for st
    by (rule acts_trans [OF acts_put_spawn [OF that] sweep_service_acts])
  then show ?thesis by (simp add: fireSweepStep_def f Let_def lss_keeps_def bounce_ok_def split: option.split)
qed

lemma local_step_acts: "acts i sp (fireLocalAnimStep i panels effective sp)"
  by (simp add: fireLocalAnimStep_def Let_def split_beta acts_schedule play_on_groups)

lemma fire_returns: "topo_ready (topo_of sp) \<Longrightarrow> returns (fireStep m nowMs i sp) (acts i sp)"
  using resolve_returns [of sp i]
  by (auto simp: fireStep_def Let_def fireRunnerStep_def stop_returns spawner_step_acts bounce_step_returns wheel_step_acts
      sweep_step_returns local_step_acts elim!: returns_mono)

lemma service_step_returns:
  assumes "topo_ready (topo_of sp)" and "i < length (sp_spawnState sp)" and "bounce_ok (sp_spawn sp i)" and "unat nowMs < 2 ^ 32 - 65535"
  shows "returns (service_step m nowMs i sp) (acts i sp)"
proof -
  let ?sp = "put_spawn i ((sp_spawn sp i)\<lparr>lss_wheelStopAtMs := 0\<rparr>) sp"
  have a: "acts i sp ?sp" by (intro acts_put_spawn) (simp add: lss_keeps_def bounce_ok_def)
  have "returns (stopLayerGroup i ?sp) (acts i sp)"
    by (rule returns_mono [OF stop_returns]) (use assms(1) in \<open>auto simp: put_spawn_def intro: acts_trans [OF a]\<close>)
  then show ?thesis using bounce_legs_returns [OF assms] service_returns [OF assms(1)] by (simp add: service_step_def Let_def)
qed

end
