(* ===== verification/Scene_Timeline.thy ===== *)
theory Scene_Timeline
  imports
    Scene_Actions
begin

text \<open>
  The timeline of a scene: what a tick does to the states, steps and start times of the layers, independent of
  everything the runners compute. Each layer is a clock; a tick moves all clocks at once, which the sequential
  loops of the player implement.
\<close>

section \<open>Clocks\<close>

type_synonym layer_clock = "LayerState \<times> nat \<times> u32"

definition clock_of :: "ScenePlayer \<Rightarrow> nat \<Rightarrow> layer_clock" where
  "clock_of sp i = (sp_layerState sp ! i, sp_currentStep sp ! i, sp_stepStartMs sp ! i)"

definition advance_clock :: "SceneLayer \<Rightarrow> real \<Rightarrow> u32 \<Rightarrow> layer_clock \<Rightarrow> layer_clock" where
  "advance_clock layer speed nowMs c =
     (case c of (s, k, t0) \<Rightarrow>
        (let d = ss_durationMs (ly_steps layer ! k)
         in if s \<noteq> RUNNING \<or> d = 0 \<or> nowMs - t0 < scaled_ms d speed then c
            else if k + 1 < ly_stepCount layer then (RUNNING, k + 1, nowMs)
            else if isAsyncLayer layer then (RUNNING, 0, nowMs)
            else (DONE, k, t0)))"

text \<open>The layer that owns a group, and whether what a layer waits for has happened.\<close>

definition owner_of :: "SceneLayer list \<Rightarrow> nat \<Rightarrow> u8 \<Rightarrow> nat option" where
  "owner_of layers n g = List.find (\<lambda>i. ly_groupId (layers ! i) = g) [0..<n]"

definition gate_open :: "SceneLayer list \<Rightarrow> nat \<Rightarrow> (nat \<Rightarrow> layer_clock) \<Rightarrow> nat \<Rightarrow> bool" where
  "gate_open layers n c i \<longleftrightarrow>
     (case owner_of layers n (ly_startAfterGroupId (layers ! i)) of
        None \<Rightarrow> True
      | Some dep \<Rightarrow>
          fst (c dep) = DONE
          \<or> (ly_startAfterStepIndex (layers ! i) \<noteq> SCENE_NO_STEP_INDEX
             \<and> unat (ly_startAfterStepIndex (layers ! i)) < fst (snd (c dep))))"

definition promote_clock :: "SceneLayer list \<Rightarrow> nat \<Rightarrow> u32 \<Rightarrow> (nat \<Rightarrow> layer_clock) \<Rightarrow> nat \<Rightarrow> layer_clock" where
  "promote_clock layers n nowMs c i = (if fst (c i) = WAITING \<and> gate_open layers n c i then (RUNNING, 0, nowMs) else c i)"

definition arm_clock :: "SceneLayer \<Rightarrow> u32 \<Rightarrow> layer_clock" where
  "arm_clock layer nowMs =
     (if ly_stepCount layer = 0 \<or> ly_disabled layer then DONE
      else if ly_startAfterGroupId layer = 0 then RUNNING else WAITING, 0, nowMs)"

section \<open>What is fixed while a scene plays\<close>

definition fixed :: "ScenePlayer \<Rightarrow> ScenePlayer" where
  "fixed sp = (plan sp)\<lparr>sp_currentStep := [], sp_stepStartMs := [], sp_layerState := [], sp_pendingStop := []\<rparr>"

lemma fixed_fields:
  assumes "fixed sp' = fixed sp"
  shows "sp_layers sp' = sp_layers sp" "sp_lCount sp' = sp_lCount sp" "sp_loop sp' = sp_loop sp" "sp_playing sp' = sp_playing sp"
    "sp_speed sp' = sp_speed sp" "sp_topo sp' = sp_topo sp"
  using assms by (cases sp; cases sp'; simp add: fixed_def plan_def)+

text \<open>The arrays have one entry for each layer the player can hold.\<close>

definition arrays_ok :: "ScenePlayer \<Rightarrow> bool" where
  "arrays_ok sp \<longleftrightarrow>
     length (sp_currentStep sp) = SCENE_MAX_LAYERS \<and> length (sp_stepStartMs sp) = SCENE_MAX_LAYERS
     \<and> length (sp_layerState sp) = SCENE_MAX_LAYERS \<and> length (sp_pendingStop sp) = SCENE_MAX_LAYERS
     \<and> length (sp_bouncePhase sp) = SCENE_MAX_LAYERS \<and> length (sp_spawnState sp) = SCENE_MAX_LAYERS
     \<and> sp_lCount sp \<le> SCENE_MAX_LAYERS \<and> (\<forall>i < SCENE_MAX_LAYERS. bounce_ok (sp_spawn sp i))"

text \<open>A state later in the same scene: the fixed part, the pools and the arrays are the same, packets were added.\<close>

definition of_some_layer :: "ScenePlayer \<Rightarrow> sink_call \<Rightarrow> bool" where
  "of_some_layer sp c \<longleftrightarrow> (\<exists>i < sp_lCount sp. on_groups (layer_groups sp i) c)"

definition later :: "ScenePlayer \<Rightarrow> ScenePlayer \<Rightarrow> bool" where
  "later sp sp' \<longleftrightarrow>
     fixed sp' = fixed sp \<and> (arrays_ok sp \<longrightarrow> arrays_ok sp') \<and> (\<forall>j. lss_keeps (sp_spawn sp j) (sp_spawn sp' j))
     \<and> (\<exists>cs. sp_sent sp' = sp_sent sp @ cs \<and> list_all (of_some_layer sp) cs)"

lemma later_refl [simp]: "later sp sp"
  by (simp add: later_def)

lemma later_fields:
  assumes "later sp sp'"
  shows "sp_layers sp' = sp_layers sp" "sp_lCount sp' = sp_lCount sp" "sp_loop sp' = sp_loop sp" "sp_playing sp' = sp_playing sp"
    "sp_speed sp' = sp_speed sp" "sp_topo sp' = sp_topo sp"
proof -
  have "fixed sp' = fixed sp" using assms by (simp add: later_def)
  note f = fixed_fields [OF this]
  show "sp_layers sp' = sp_layers sp" "sp_lCount sp' = sp_lCount sp" "sp_loop sp' = sp_loop sp" "sp_playing sp' = sp_playing sp"
    "sp_speed sp' = sp_speed sp" "sp_topo sp' = sp_topo sp" by (rule f)+
qed

lemma later_groups: "later sp sp' \<Longrightarrow> layer_groups sp' j = layer_groups sp j"
proof -
  assume l: "later sp sp'"
  have "sp_layers sp' = sp_layers sp" by (rule later_fields [OF l])
  moreover have "lss_pool (sp_spawn sp' j) = lss_pool (sp_spawn sp j)" by (rule lss_keeps_pool) (use l in \<open>simp add: later_def\<close>)
  ultimately show ?thesis by (simp add: layer_groups_def)
qed

lemma later_some_layer:
  assumes "later sp sp'"
  shows "of_some_layer sp' = of_some_layer sp"
  by (rule ext) (simp add: of_some_layer_def later_groups [OF assms] later_fields [OF assms])

lemma later_trans: "later a b \<Longrightarrow> later b c \<Longrightarrow> later a c"
proof -
  assume ab: "later a b" and bc: "later b c"
  have "\<exists>cs. sp_sent b = sp_sent a @ cs \<and> list_all (of_some_layer a) cs" using ab by (simp add: later_def)
  then obtain cs where cs: "sp_sent b = sp_sent a @ cs" "list_all (of_some_layer a) cs" by blast
  have "\<exists>ds. sp_sent c = sp_sent b @ ds \<and> list_all (of_some_layer b) ds" using bc by (simp add: later_def)
  then obtain ds where ds: "sp_sent c = sp_sent b @ ds" "list_all (of_some_layer b) ds" by blast
  have "sp_sent c = sp_sent a @ (cs @ ds) \<and> list_all (of_some_layer a) (cs @ ds)"
    using cs ds later_some_layer [OF ab] by simp
  then have sent: "\<exists>ds. sp_sent c = sp_sent a @ ds \<and> list_all (of_some_layer a) ds" by blast
  show ?thesis unfolding later_def by (intro conjI sent) (use ab bc in \<open>auto simp: later_def intro: lss_keeps_trans\<close>)
qed

lemma acts_later:
  assumes a: "acts i sp sp'" and i: "i < sp_lCount sp"
  shows "later sp sp'" and "clock_of sp' = clock_of sp" and "sp_pendingStop sp' = sp_pendingStop sp"
proof -
  have p: "plan sp' = plan sp" using a by (simp add: acts_def)
  note f = plan_fields [OF p]
  show "clock_of sp' = clock_of sp" "sp_pendingStop sp' = sp_pendingStop sp" using f by (simp_all add: clock_of_def fun_eq_iff)
  have "\<exists>cs. sp_sent sp' = sp_sent sp @ cs \<and> list_all (on_groups (layer_groups sp i)) cs" using a by (simp add: acts_def)
  then have sent: "\<exists>cs. sp_sent sp' = sp_sent sp @ cs \<and> list_all (of_some_layer sp) cs"
    using i unfolding of_some_layer_def list_all_iff by blast
  have "arrays_ok sp \<longrightarrow> arrays_ok sp'" using a f by (simp add: acts_def arrays_ok_def lss_keeps_def)
  then show "later sp sp'" unfolding later_def
    by (intro conjI sent) (use a p in \<open>simp_all add: acts_def fixed_def\<close>)
qed

lemma returns_acts_later:
  "returns m (acts i sp) \<Longrightarrow> i < sp_lCount sp \<Longrightarrow>
    returns m (\<lambda>sp'. later sp sp' \<and> clock_of sp' = clock_of sp \<and> sp_pendingStop sp' = sp_pendingStop sp)"
  by (erule returns_mono) (simp add: acts_later)

section \<open>Setting a clock\<close>

definition set_clock :: "nat \<Rightarrow> layer_clock \<Rightarrow> ScenePlayer \<Rightarrow> ScenePlayer" where
  "set_clock i c sp =
     sp\<lparr>sp_currentStep := (sp_currentStep sp)[i := fst (snd c)], sp_stepStartMs := (sp_stepStartMs sp)[i := snd (snd c)],
        sp_layerState := (sp_layerState sp)[i := fst c]\<rparr>"

lemma set_clock_later [simp]: "later sp (set_clock i c sp)"
  by (simp add: later_def set_clock_def fixed_def plan_def arrays_ok_def)

lemma set_clock_clock:
  "arrays_ok sp \<Longrightarrow> i < sp_lCount sp \<Longrightarrow> clock_of (set_clock i c sp) j = (if j = i then c else clock_of sp j)"
  by (cases c) (auto simp: clock_of_def set_clock_def arrays_ok_def nth_list_update)

lemma set_clock_pending [simp]: "sp_pendingStop (set_clock i c sp) = sp_pendingStop sp"
  by (simp add: set_clock_def)

lemma set_clock_fixed [simp]: "fixed (set_clock i c sp) = fixed sp"
  by (simp add: set_clock_def fixed_def plan_def)

lemma set_clock_fields [simp]:
  "sp_layers (set_clock i c sp) = sp_layers sp" "sp_lCount (set_clock i c sp) = sp_lCount sp" "sp_topo (set_clock i c sp) = sp_topo sp"
  "sp_loop (set_clock i c sp) = sp_loop sp" "sp_speed (set_clock i c sp) = sp_speed sp" "sp_playing (set_clock i c sp) = sp_playing sp"
  by (simp_all add: set_clock_def)

text \<open>Firing a layer after its clock was set.\<close>

lemma fire_set_clock:
  assumes t: "topo_ready (topo_of sp)" and a: "arrays_ok sp" and i: "i < sp_lCount sp"
  shows "returns (fireStep m nowMs i (set_clock i c sp)) (\<lambda>sp'. later sp sp' \<and> clock_of sp' = (clock_of sp)(i := c)
    \<and> sp_pendingStop sp' = sp_pendingStop sp)"
proof -
  have "returns (fireStep m nowMs i (set_clock i c sp)) (acts i (set_clock i c sp))" by (rule fire_returns) (simp add: t)
  from returns_acts_later [OF this] show ?thesis using i
    by (auto simp: fun_eq_iff set_clock_clock [OF a i] intro: later_trans [OF set_clock_later] elim!: returns_mono)
qed

section \<open>Advancing\<close>

definition finishes :: "SceneLayer \<Rightarrow> real \<Rightarrow> u32 \<Rightarrow> layer_clock \<Rightarrow> bool" where
  "finishes layer speed nowMs c \<longleftrightarrow> fst c = RUNNING \<and> fst (advance_clock layer speed nowMs c) = DONE"

definition clock_safe :: "u32 \<Rightarrow> bool" where
  "clock_safe nowMs \<longleftrightarrow> unat nowMs < 2 ^ 32 - 65535"

lemma enter_step_set: "sp_layerState sp ! i = RUNNING \<Longrightarrow> enter_step m nowMs i k sp = fireStep m nowMs i (set_clock i (RUNNING, k, nowMs) sp)"
proof -
  assume "sp_layerState sp ! i = RUNNING"
  then have "(sp_layerState sp)[i := RUNNING] = sp_layerState sp" by (metis list_update_id)
  then show ?thesis by (simp add: enter_step_def set_clock_def)
qed

lemma tick_layer_advances:
  assumes t: "topo_ready (topo_of sp)" and a: "arrays_ok sp" and i: "i < sp_lCount sp" and now: "clock_safe nowMs"
  shows "returns (tick_layer m nowMs i sp) (\<lambda>sp'. later sp sp'
    \<and> clock_of sp' = (clock_of sp)(i := advance_clock (sp_layer sp i) (sp_speed sp) nowMs (clock_of sp i))
    \<and> sp_pendingStop sp' = (sp_pendingStop sp)[i := finishes (sp_layer sp i) (sp_speed sp) nowMs (clock_of sp i) \<or> sp_pendingStop sp ! i])"
proof -
  let ?layer = "sp_layer sp i" and ?k = "sp_currentStep sp ! i" and ?t0 = "sp_stepStartMs sp ! i"
  let ?d = "ss_durationMs (ly_steps ?layer ! ?k)" and ?adv = "advance_clock (sp_layer sp i) (sp_speed sp) nowMs (clock_of sp i)"
  have c: "clock_of sp i = (sp_layerState sp ! i, ?k, ?t0)" by (simp add: clock_of_def)
  have i8: "i < length (sp_spawnState sp)" "bounce_ok (sp_spawn sp i)" "i < length (sp_pendingStop sp)" "i < length (sp_layerState sp)"
    using a i by (auto simp: arrays_ok_def)
  have idle: ?thesis if "returns (tick_layer m nowMs i sp) (acts i sp)" "?adv = clock_of sp i" "\<not> finishes ?layer (sp_speed sp) nowMs (clock_of sp i)"
    by (rule returns_mono [OF returns_acts_later [OF that(1) i]]) (use that(2,3) in simp)
  consider (still) "sp_layerState sp ! i \<noteq> RUNNING" | (endless) "sp_layerState sp ! i = RUNNING" "?d = 0"
    | (inside) "sp_layerState sp ! i = RUNNING" "?d \<noteq> 0" "nowMs - ?t0 < scaled_ms ?d (sp_speed sp)"
    | (over) "sp_layerState sp ! i = RUNNING" "?d \<noteq> 0" "\<not> nowMs - ?t0 < scaled_ms ?d (sp_speed sp)" by blast
  then show ?thesis
  proof cases
    case still
    then show ?thesis by (intro idle) (simp_all add: tick_layer_def advance_clock_def c finishes_def)
  next
    case endless
    then show ?thesis
      by (intro idle) (simp_all add: tick_layer_def advance_clock_def c finishes_def Let_def sp_step_def service_returns [OF t])
  next
    case inside
    have "returns (service_step m nowMs i sp) (acts i sp)" by (rule service_step_returns [OF t i8(1,2)]) (use now in \<open>simp add: clock_safe_def\<close>)
    then show ?thesis using inside by (intro idle) (simp_all add: tick_layer_def advance_clock_def c finishes_def Let_def sp_step_def)
  next
    case over
    have tl: "tick_layer m nowMs i sp =
        (if ?k + 1 < ly_stepCount ?layer then fireStep m nowMs i (set_clock i (RUNNING, ?k + 1, nowMs) sp)
         else if isAsyncLayer ?layer then fireStep m nowMs i (set_clock i (RUNNING, 0, nowMs) sp)
         else Some (sp\<lparr>sp_pendingStop := (sp_pendingStop sp)[i := True], sp_layerState := (sp_layerState sp)[i := DONE]\<rparr>))"
      using over by (simp add: tick_layer_def Let_def sp_step_def enter_step_set)
    have adv: "?adv = (if ?k + 1 < ly_stepCount ?layer then (RUNNING, ?k + 1, nowMs)
        else if isAsyncLayer ?layer then (RUNNING, 0, nowMs) else (DONE, ?k, ?t0))"
      using over by (simp add: advance_clock_def c Let_def)
    show ?thesis
    proof (cases "?k + 1 < ly_stepCount ?layer \<or> isAsyncLayer ?layer")
      case True
      have "\<not> finishes ?layer (sp_speed sp) nowMs (clock_of sp i)" unfolding finishes_def adv using True by auto
      moreover have "tick_layer m nowMs i sp = fireStep m nowMs i (set_clock i ?adv sp)" unfolding tl adv using True by auto
      ultimately show ?thesis using returns_mono [OF fire_set_clock [OF t a i]] by simp
    next
      case False
      let ?sp = "sp\<lparr>sp_pendingStop := (sp_pendingStop sp)[i := True], sp_layerState := (sp_layerState sp)[i := DONE]\<rparr>"
      have "finishes ?layer (sp_speed sp) nowMs (clock_of sp i)" unfolding finishes_def adv using False over by (simp add: c)
      moreover have "later sp ?sp" by (simp add: later_def fixed_def plan_def arrays_ok_def)
      moreover have "clock_of ?sp = (clock_of sp)(i := ?adv)" unfolding adv using False i8 by (auto simp: clock_of_def fun_eq_iff nth_list_update)
      ultimately show ?thesis unfolding tl using False by simp
    qed
  qed
qed

text \<open>All layers: the loop moves every clock as if they were moved at once.\<close>

definition advance_all :: "ScenePlayer \<Rightarrow> u32 \<Rightarrow> nat \<Rightarrow> layer_clock" where
  "advance_all sp nowMs i = (if i < sp_lCount sp then advance_clock (sp_layer sp i) (sp_speed sp) nowMs (clock_of sp i) else clock_of sp i)"

lemma later_ready: "later sp sp' \<Longrightarrow> topo_ready (topo_of sp) \<Longrightarrow> topo_ready (topo_of sp')"
  by (simp add: later_fields)

lemma advance_loop:
  assumes t: "topo_ready (topo_of sp)" and a: "arrays_ok sp" and now: "clock_safe nowMs"
  shows "returns (each (tick_layer m nowMs) [0..<sp_lCount sp] sp) (\<lambda>sp'. later sp sp' \<and> clock_of sp' = advance_all sp nowMs
    \<and> (\<forall>i < sp_lCount sp. sp_pendingStop sp' ! i \<longleftrightarrow> finishes (sp_layer sp i) (sp_speed sp) nowMs (clock_of sp i) \<or> sp_pendingStop sp ! i))"
proof -
  let ?I = "\<lambda>k s. later sp s \<and> (\<forall>i. clock_of s i = (if i < k then advance_all sp nowMs i else clock_of sp i))
    \<and> (\<forall>i < sp_lCount sp. sp_pendingStop s ! i \<longleftrightarrow> (i < k \<and> finishes (sp_layer sp i) (sp_speed sp) nowMs (clock_of sp i)) \<or> sp_pendingStop sp ! i)"
  have "returns (each (tick_layer m nowMs) [0..<sp_lCount sp] sp) (?I (sp_lCount sp))"
  proof (rule each_upt [where I = ?I])
    fix k s assume k: "k < sp_lCount sp" and I: "?I k s"
    then have l: "later sp s" by blast
    have f: "sp_layers s = sp_layers sp" "sp_lCount s = sp_lCount sp" "sp_speed s = sp_speed sp"
      by (rule later_fields [OF l])+
    have s: "topo_ready (topo_of s)" "arrays_ok s" "k < sp_lCount s"
      using later_ready [OF l t] l a k f(2) by (simp_all add: later_def)
    have ck: "clock_of s k = clock_of sp k" using I by simp
    have len: "i < length (sp_pendingStop s)" if "i < sp_lCount sp" for i using s(2) f(2) that by (auto simp: arrays_ok_def)
    show "returns (tick_layer m nowMs k s) (?I (Suc k))"
      by (rule returns_mono [OF tick_layer_advances [OF s now]])
         (use I k f ck len later_trans [OF l] in \<open>auto simp: advance_all_def nth_list_update less_Suc_eq\<close>)
  qed simp
  then show ?thesis by (rule returns_mono) (auto simp: fun_eq_iff advance_all_def)
qed

section \<open>Promoting\<close>

lemma owner_of_some: "owner_of layers n g = Some d \<Longrightarrow> d < n \<and> ly_groupId (layers ! d) = g"
  by (auto simp: owner_of_def find_Some_iff)

lemma gate_open_cong:
  assumes "\<And>d. d < n \<Longrightarrow> c' d = c d \<or> (fst (c d) \<noteq> DONE \<and> fst (snd (c d)) = 0 \<and> fst (c' d) \<noteq> DONE \<and> fst (snd (c' d)) = 0)"
  shows "gate_open layers n c' i = gate_open layers n c i"
proof (cases "owner_of layers n (ly_startAfterGroupId (layers ! i))")
  case (Some d)
  then have "d < n" using owner_of_some by blast
  then show ?thesis using assms [of d] Some by (auto simp: gate_open_def)
qed (simp add: gate_open_def)

lemma promote_layer_clock:
  assumes t: "topo_ready (topo_of sp)" and a: "arrays_ok sp" and i: "i < sp_lCount sp"
  shows "returns (promote_layer m nowMs i sp) (\<lambda>sp'. later sp sp' \<and> sp_pendingStop sp' = sp_pendingStop sp
    \<and> clock_of sp' = (clock_of sp)(i := promote_clock (sp_layers sp) (sp_lCount sp) nowMs (clock_of sp) i))"
proof -
  let ?fire = "fireStep m nowMs i (set_clock i (RUNNING, 0, nowMs) sp)"
  have dep: "dependencySatisfied sp d x \<longleftrightarrow> fst (clock_of sp d) = DONE \<or> (x \<noteq> SCENE_NO_STEP_INDEX \<and> unat x < fst (snd (clock_of sp d)))" for d x
    by (auto simp: dependencySatisfied_def clock_of_def)
  have running: "sp\<lparr>sp_layerState := (sp_layerState sp)[i := RUNNING], sp_currentStep := (sp_currentStep sp)[i := 0],
      sp_stepStartMs := (sp_stepStartMs sp)[i := nowMs]\<rparr> = set_clock i (RUNNING, 0, nowMs) sp"
    by (cases sp) (simp add: set_clock_def)
  have "promote_layer m nowMs i sp =
      (if fst (clock_of sp i) = WAITING \<and> gate_open (sp_layers sp) (sp_lCount sp) (clock_of sp) i then ?fire else Some sp)"
    unfolding promote_layer_def layerIndexForGroup_def gate_open_def owner_of_def dep running
    by (simp add: clock_of_def split: option.split)
  then show ?thesis using fire_set_clock [OF t a i, of m nowMs "(RUNNING, 0, nowMs)"]
    by (auto simp: promote_clock_def elim!: returns_mono)
qed

definition promote_all :: "ScenePlayer \<Rightarrow> u32 \<Rightarrow> (nat \<Rightarrow> layer_clock) \<Rightarrow> nat \<Rightarrow> layer_clock" where
  "promote_all sp nowMs c i = (if i < sp_lCount sp then promote_clock (sp_layers sp) (sp_lCount sp) nowMs c i else c i)"

text \<open>A waiting layer has not started its first step.\<close>

definition waiting_fresh :: "ScenePlayer \<Rightarrow> bool" where
  "waiting_fresh sp \<longleftrightarrow> (\<forall>i < sp_lCount sp. sp_layerState sp ! i = WAITING \<longrightarrow> sp_currentStep sp ! i = 0)"

lemma promote_loop:
  assumes t: "topo_ready (topo_of sp)" and a: "arrays_ok sp" and w: "waiting_fresh sp"
  shows "returns (promoteReadyLayers m nowMs sp) (\<lambda>sp'. later sp sp' \<and> sp_pendingStop sp' = sp_pendingStop sp
    \<and> clock_of sp' = promote_all sp nowMs (clock_of sp))"
proof -
  let ?c = "clock_of sp"
  let ?I = "\<lambda>k s. later sp s \<and> sp_pendingStop s = sp_pendingStop sp \<and> clock_of s = (\<lambda>i. if i < k then promote_all sp nowMs ?c i else ?c i)"
  have "returns (promoteReadyLayers m nowMs sp) (?I (sp_lCount sp))"
    unfolding promoteReadyLayers_def
  proof (rule each_upt [where I = ?I])
    fix k s assume k: "k < sp_lCount sp" and I: "?I k s"
    then have l: "later sp s" by blast
    note f = later_fields [OF l]
    have s: "topo_ready (topo_of s)" "arrays_ok s" "k < sp_lCount s"
      using later_ready [OF l t] l a k f(2) by (simp_all add: later_def)
    have ck: "clock_of s k = ?c k" using I by simp
    have "gate_open (sp_layers sp) (sp_lCount sp) (clock_of s) k = gate_open (sp_layers sp) (sp_lCount sp) ?c k"
    proof (rule gate_open_cong)
      fix d assume d: "d < sp_lCount sp"
      have "fst (snd (?c d)) = 0" if "fst (?c d) = WAITING" using w d that by (simp add: waiting_fresh_def clock_of_def)
      then show "clock_of s d = ?c d \<or> (fst (?c d) \<noteq> DONE \<and> fst (snd (?c d)) = 0 \<and> fst (clock_of s d) \<noteq> DONE \<and> fst (snd (clock_of s d)) = 0)"
        using I by (auto simp: promote_all_def promote_clock_def)
    qed
    then have p: "promote_clock (sp_layers s) (sp_lCount s) nowMs (clock_of s) k = promote_all sp nowMs ?c k"
      using k by (simp add: promote_clock_def promote_all_def f ck)
    have upd: "(clock_of s)(k := promote_all sp nowMs ?c k) = (\<lambda>i. if i < Suc k then promote_all sp nowMs ?c i else ?c i)"
      using I by (auto simp: fun_eq_iff less_Suc_eq)
    show "returns (promote_layer m nowMs k s) (?I (Suc k))"
    proof (rule returns_mono [OF promote_layer_clock [OF s]], elim conjE)
      fix s' assume s': "later s s'" "sp_pendingStop s' = sp_pendingStop s"
        "clock_of s' = (clock_of s)(k := promote_clock (sp_layers s) (sp_lCount s) nowMs (clock_of s) k)"
      show "?I (Suc k) s'" using s'(3) unfolding p upd using s'(2) I later_trans [OF l s'(1)] by simp
    qed
  qed simp
  then show ?thesis by (rule returns_mono) (auto simp: fun_eq_iff promote_all_def)
qed

section \<open>Stopping finished layers\<close>

text \<open>The packets that stop layer \<open>i\<close> were sent after the state \<open>sp\<close>.\<close>

definition stopped_since :: "ScenePlayer \<Rightarrow> ScenePlayer \<Rightarrow> nat \<Rightarrow> bool" where
  "stopped_since sp sp' i \<longleftrightarrow>
     (\<exists>panels xs ys. sp_resolve sp i = Some panels \<and> sp_sent sp' = sp_sent sp @ xs @ stop_calls (sp_layer sp i) panels @ ys)"

lemma later_resolve: "later sp sp' \<Longrightarrow> sp_resolve sp' i = sp_resolve sp i"
  by (simp add: sp_resolve_def later_fields)

lemma stopped_later: "later a b \<Longrightarrow> stopped_since b c i \<Longrightarrow> stopped_since a c i"
proof -
  assume l: "later a b" and st: "stopped_since b c i"
  obtain panels xs ys where p: "sp_resolve b i = Some panels" "sp_sent c = sp_sent b @ xs @ stop_calls (sp_layer b i) panels @ ys"
    using st by (auto simp: stopped_since_def)
  obtain zs where "sp_sent b = sp_sent a @ zs" using l by (auto simp: later_def)
  then have "sp_sent c = sp_sent a @ (zs @ xs) @ stop_calls (sp_layer a i) panels @ ys" using p(2) later_fields(1) [OF l] by simp
  then show ?thesis using p(1) later_resolve [OF l] unfolding stopped_since_def
    by (intro exI [of _ panels] exI [of _ "zs @ xs"] exI [of _ ys] conjI) simp_all
qed

lemma stopped_mono: "stopped_since a b i \<Longrightarrow> later b c \<Longrightarrow> stopped_since a c i"
proof -
  assume st: "stopped_since a b i" and l: "later b c"
  obtain panels xs ys where p: "sp_resolve a i = Some panels" "sp_sent b = sp_sent a @ xs @ stop_calls (sp_layer a i) panels @ ys"
    using st by (auto simp: stopped_since_def)
  obtain zs where "sp_sent c = sp_sent b @ zs" using l by (auto simp: later_def)
  then have "sp_sent c = sp_sent a @ xs @ stop_calls (sp_layer a i) panels @ (ys @ zs)" using p(2) by simp
  then show ?thesis using p(1) unfolding stopped_since_def by (intro exI [of _ panels] exI [of _ xs] exI [of _ "ys @ zs"] conjI)
qed

lemma flush_one:
  assumes t: "topo_ready (topo_of sp)" and i: "i < sp_lCount sp"
  shows "returns (flush_stop restarting i sp) (\<lambda>sp'. later sp sp' \<and> clock_of sp' = clock_of sp
    \<and> sp_pendingStop sp' = (sp_pendingStop sp)[i := False]
    \<and> (sp_pendingStop sp ! i \<longrightarrow> (restarting \<and> restartReclaimsLayerSlot (sp_layer sp i)) \<or> stopped_since sp sp' i))"
proof -
  let ?sp = "sp\<lparr>sp_pendingStop := (sp_pendingStop sp)[i := False]\<rparr>"
  have l: "later sp ?sp" by (simp add: later_def fixed_def plan_def arrays_ok_def)
  have c: "clock_of ?sp = clock_of sp" by (simp add: clock_of_def fun_eq_iff)
  obtain panels where p: "sp_resolve sp i = Some panels" using resolve_returns [OF t] by (auto simp: returns_def)
  then have p': "sp_resolve ?sp i = Some panels" by (simp add: sp_resolve_def)
  have "acts i ?sp (sp_emit (stop_calls (sp_layer ?sp i) panels) ?sp)" by (intro acts_emit stop_on_groups own_group)
  note a = acts_later [OF this]
  have "later sp (sp_emit (stop_calls (sp_layer sp i) panels) ?sp)" using later_trans [OF l a(1)] i by simp
  moreover have "stopped_since sp (sp_emit (stop_calls (sp_layer sp i) panels) ?sp) i"
    unfolding stopped_since_def using p by (intro exI [of _ panels] exI [of _ "[]"]) (simp add: sp_emit_def)
  moreover have "clock_of (sp_emit cs ?sp) = clock_of sp" "sp_pendingStop (sp_emit cs ?sp) = (sp_pendingStop sp)[i := False]" for cs
    by (simp_all add: clock_of_def sp_emit_def fun_eq_iff)
  moreover have "(sp_pendingStop sp)[i := False] = sp_pendingStop sp" if "\<not> sp_pendingStop sp ! i"
    using that by (metis list_update_id)
  ultimately show ?thesis
    using l c by (cases "sp_pendingStop sp ! i"; cases "restarting \<and> restartReclaimsLayerSlot (sp_layer sp i)")
      (simp_all add: flush_stop_def stopLayerGroup_def p' Let_def)
qed

lemma flush_loop:
  assumes t: "topo_ready (topo_of sp)" and a: "arrays_ok sp"
  shows "returns (flushPendingStops restarting sp) (\<lambda>sp'. later sp sp' \<and> clock_of sp' = clock_of sp
    \<and> (\<forall>i < sp_lCount sp. \<not> sp_pendingStop sp' ! i)
    \<and> (\<forall>i < sp_lCount sp. sp_pendingStop sp ! i \<longrightarrow> (restarting \<and> restartReclaimsLayerSlot (sp_layer sp i)) \<or> stopped_since sp sp' i))"
proof -
  let ?ok = "\<lambda>s i. (restarting \<and> restartReclaimsLayerSlot (sp_layer sp i)) \<or> stopped_since sp s i"
  let ?I = "\<lambda>k s. later sp s \<and> clock_of s = clock_of sp \<and> (\<forall>i < sp_lCount sp. sp_pendingStop s ! i \<longleftrightarrow> k \<le> i \<and> sp_pendingStop sp ! i)
    \<and> (\<forall>i < k. sp_pendingStop sp ! i \<longrightarrow> ?ok s i)"
  have "returns (flushPendingStops restarting sp) (?I (sp_lCount sp))"
    unfolding flushPendingStops_def
  proof (rule each_upt [where I = ?I])
    fix k s assume k: "k < sp_lCount sp" and I: "?I k s"
    then have l: "later sp s" by blast
    note f = later_fields [OF l]
    have s: "topo_ready (topo_of s)" "arrays_ok s" "k < sp_lCount s"
      using later_ready [OF l t] l a k f(2) by (simp_all add: later_def)
    have len: "k < length (sp_pendingStop s)" using s by (auto simp: arrays_ok_def)
    show "returns (flush_stop restarting k s) (?I (Suc k))"
    proof (rule returns_mono [OF flush_one [OF s(1,3)]])
      fix s'
      assume s': "later s s' \<and> clock_of s' = clock_of s \<and> sp_pendingStop s' = (sp_pendingStop s)[k := False]
        \<and> (sp_pendingStop s ! k \<longrightarrow> (restarting \<and> restartReclaimsLayerSlot (sp_layer s k)) \<or> stopped_since s s' k)"
      have "?ok s' i" if i: "i < Suc k" "sp_pendingStop sp ! i" for i
      proof (cases "i = k")
        case True
        then have "sp_pendingStop s ! k" using I k i by simp
        then show ?thesis using s' True f(1) stopped_later [OF l] by auto
      next
        case False
        then have "?ok s i" using I i by simp
        then show ?thesis using stopped_mono s' by blast
      qed
      moreover have "\<forall>i < sp_lCount sp. sp_pendingStop s' ! i \<longleftrightarrow> Suc k \<le> i \<and> sp_pendingStop sp ! i"
        using s' I len by (auto simp: nth_list_update)
      ultimately show "?I (Suc k) s'" using s' I later_trans [OF l, of s'] by simp
    qed
  qed simp
  then show ?thesis by (rule returns_mono) auto
qed

section \<open>Arming\<close>

definition arm_all :: "ScenePlayer \<Rightarrow> u32 \<Rightarrow> bool \<Rightarrow> (nat \<Rightarrow> layer_clock) \<Rightarrow> nat \<Rightarrow> layer_clock" where
  "arm_all sp nowMs includeAsync c i =
     (if i < sp_lCount sp \<and> (includeAsync \<or> \<not> isAsyncLayer (sp_layer sp i)) then arm_clock (sp_layer sp i) nowMs else c i)"

lemma arm_layer_set: "arm_layer nowMs includeAsync i sp =
    (if includeAsync \<or> \<not> isAsyncLayer (sp_layer sp i) then set_clock i (arm_clock (sp_layer sp i) nowMs) sp else sp)"
  by (simp add: arm_layer_def set_clock_def arm_clock_def Let_def)

lemma arm_fold:
  assumes "arrays_ok sp" and "n \<le> sp_lCount sp"
  shows "later sp (fold (arm_layer nowMs includeAsync) [0..<n] sp)
    \<and> clock_of (fold (arm_layer nowMs includeAsync) [0..<n] sp) = (\<lambda>i. if i < n then arm_all sp nowMs includeAsync (clock_of sp) i else clock_of sp i)
    \<and> sp_pendingStop (fold (arm_layer nowMs includeAsync) [0..<n] sp) = sp_pendingStop sp"
  using assms(2)
proof (induction n)
  case (Suc n)
  define s where "s = fold (arm_layer nowMs includeAsync) [0..<n] sp"
  have IH: "later sp s" "clock_of s = (\<lambda>i. if i < n then arm_all sp nowMs includeAsync (clock_of sp) i else clock_of sp i)"
    "sp_pendingStop s = sp_pendingStop sp" using Suc by (simp_all add: s_def)
  note f = later_fields [OF IH(1)]
  have s: "arrays_ok s" "n < sp_lCount s" using IH(1) assms(1) Suc.prems f(2) by (simp_all add: later_def)
  have step: "fold (arm_layer nowMs includeAsync) [0..<Suc n] sp = arm_layer nowMs includeAsync n s" by (simp add: s_def)
  note al = arm_layer_set [of nowMs includeAsync n s]
  have l: "later sp (arm_layer nowMs includeAsync n s)"
    unfolding al by (rule if_split [THEN iffD2]) (intro conjI impI IH(1) later_trans [OF IH(1) set_clock_later])
  have "clock_of (arm_layer nowMs includeAsync n s) i = (if i < Suc n then arm_all sp nowMs includeAsync (clock_of sp) i else clock_of sp i)" for i
    using Suc.prems by (auto simp: al IH(2) f set_clock_clock [OF s] arm_all_def less_Suc_eq)
  moreover have "sp_pendingStop (arm_layer nowMs includeAsync n s) = sp_pendingStop sp" using IH(3) by (simp add: al)
  ultimately show ?case unfolding step using l by (simp add: fun_eq_iff)
qed simp

lemma fire_armed_loop:
  assumes t: "topo_ready (topo_of sp)" and a: "arrays_ok sp"
  shows "returns (each (fire_armed m nowMs includeAsync) [0..<sp_lCount sp] sp) (\<lambda>sp'. later sp sp' \<and> clock_of sp' = clock_of sp
    \<and> sp_pendingStop sp' = sp_pendingStop sp)"
proof -
  let ?I = "\<lambda>s. later sp s \<and> clock_of s = clock_of sp \<and> sp_pendingStop s = sp_pendingStop sp"
  show ?thesis
  proof (rule each_invariant [where I = ?I])
    fix i s assume i: "i \<in> set [0..<sp_lCount sp]" and I: "?I s"
    then have l: "later sp s" by blast
    have s: "topo_ready (topo_of s)" "i < sp_lCount s" using later_ready [OF l t] later_fields [OF l] i by simp_all
    show "returns (fire_armed m nowMs includeAsync i s) ?I"
      using I returns_acts_later [OF fire_returns [OF s(1)] s(2), of m nowMs] later_trans [OF l]
      by (auto simp: fire_armed_def elim!: returns_mono)
  qed simp
qed

lemma arm_loop:
  assumes t: "topo_ready (topo_of sp)" and a: "arrays_ok sp"
  shows "returns (armLayers m nowMs includeAsync sp) (\<lambda>sp'. later sp sp' \<and> sp_pendingStop sp' = sp_pendingStop sp
    \<and> clock_of sp' = arm_all sp nowMs includeAsync (clock_of sp))"
proof -
  let ?s = "fold (arm_layer nowMs includeAsync) [0..<sp_lCount sp] sp"
  note f = arm_fold [OF a order_refl, of nowMs includeAsync]
  have l: "later sp ?s" using f by blast
  have s: "topo_ready (topo_of ?s)" "arrays_ok ?s" "sp_lCount ?s = sp_lCount sp"
    using later_ready [OF l t] l a later_fields [OF l] by (simp_all add: later_def)
  show ?thesis
    unfolding armLayers_def
    using fire_armed_loop [OF s(1,2), of m nowMs includeAsync] f later_trans [OF l]
    by (auto simp: s(3) arm_all_def fun_eq_iff elim!: returns_mono)
qed

end
