(* ===== verification/Scene_Tick.thy ===== *)
theory Scene_Tick
  imports
    Scene_Timeline
begin

text \<open>
  The whole tick of the scene player against its specification: all clocks advance, all layers whose gate opened
  start, then the scene restarts, ends, or plays on.
\<close>

section \<open>The specification\<close>

definition sync_of :: "SceneLayer list \<Rightarrow> nat \<Rightarrow> nat list" where
  "sync_of layers n = filter (\<lambda>i. \<not> ly_disabled (layers ! i) \<and> \<not> isAsyncLayer (layers ! i)) [0..<n]"

definition keeps_alive :: "SceneLayer \<Rightarrow> bool" where
  "keeps_alive layer \<longleftrightarrow> \<not> ly_disabled layer \<and> isAsyncLayer layer \<and> \<not> isNonBlocking layer"

definition moved :: "SceneLayer list \<Rightarrow> nat \<Rightarrow> real \<Rightarrow> u32 \<Rightarrow> (nat \<Rightarrow> layer_clock) \<Rightarrow> nat \<Rightarrow> layer_clock" where
  "moved layers n speed nowMs c =
     (let a = (\<lambda>i. if i < n then advance_clock (layers ! i) speed nowMs (c i) else c i)
      in (\<lambda>i. if i < n then promote_clock layers n nowMs a i else a i))"

definition all_done :: "SceneLayer list \<Rightarrow> nat \<Rightarrow> (nat \<Rightarrow> layer_clock) \<Rightarrow> bool" where
  "all_done layers n c \<longleftrightarrow> (\<forall>i \<in> set (sync_of layers n). fst (c i) = DONE)"

text \<open>Whether the scene is still playing, and the clocks.\<close>

definition timeline_step ::
  "SceneLayer list \<Rightarrow> nat \<Rightarrow> bool \<Rightarrow> real \<Rightarrow> u32 \<Rightarrow> (nat \<Rightarrow> layer_clock) \<Rightarrow> bool \<times> (nat \<Rightarrow> layer_clock)" where
  "timeline_step layers n loop speed nowMs c =
     (let c' = moved layers n speed nowMs c
      in if sync_of layers n = [] \<or> \<not> all_done layers n c' then (True, c')
         else if loop then (True, \<lambda>i. if i < n \<and> \<not> isAsyncLayer (layers ! i) then arm_clock (layers ! i) nowMs else c' i)
         else (\<exists>i < n. keeps_alive (layers ! i), c'))"

section \<open>Well-formed states of the player\<close>

definition clock_ok :: "SceneLayer \<Rightarrow> layer_clock \<Rightarrow> bool" where
  "clock_ok layer c \<longleftrightarrow>
     (fst c = RUNNING \<longrightarrow> fst (snd c) < ly_stepCount layer) \<and> (fst c = WAITING \<longrightarrow> fst (snd c) = 0 \<and> 0 < ly_stepCount layer)"

definition sp_inv :: "ScenePlayer \<Rightarrow> bool" where
  "sp_inv sp \<longleftrightarrow>
     arrays_ok sp \<and> (\<forall>i < sp_lCount sp. \<not> sp_pendingStop sp ! i) \<and> SPEED_MIN \<le> sp_speed sp \<and> sp_speed sp \<le> SPEED_MAX
     \<and> st_caps (sp_topo sp)
     \<and> (sp_playing sp \<longrightarrow> topo_ready (topo_of sp) \<and> (\<forall>i < sp_lCount sp. clock_ok (sp_layer sp i) (clock_of sp i)))"

lemma advance_ok: "clock_ok layer c \<Longrightarrow> clock_ok layer (advance_clock layer speed nowMs c)"
  by (auto simp: clock_ok_def advance_clock_def Let_def split: prod.split)

lemma promote_ok: "clock_ok (layers ! i) (c i) \<Longrightarrow> clock_ok (layers ! i) (promote_clock layers n nowMs c i)"
  by (simp add: clock_ok_def promote_clock_def)

lemma arm_ok: "clock_ok layer (arm_clock layer nowMs)"
  by (simp add: clock_ok_def arm_clock_def)

lemma moved_ok: "\<forall>i < n. clock_ok (layers ! i) (c i) \<Longrightarrow> i < n \<Longrightarrow> clock_ok (layers ! i) (moved layers n speed nowMs c i)"
  by (simp add: moved_def Let_def promote_ok advance_ok)

lemma timeline_ok:
  assumes "\<forall>i < n. clock_ok (layers ! i) (c i)"
  shows "\<forall>i < n. clock_ok (layers ! i) (snd (timeline_step layers n loop speed nowMs c) i)"
  using moved_ok [OF assms] by (simp add: timeline_step_def Let_def arm_ok)

section \<open>The barrier\<close>

lemma sync_layers_of: "sync_layers sp = sync_of (sp_layers sp) (sp_lCount sp)"
  by (simp add: sync_layers_def sync_of_def)

lemma allSyncDone_of: "allSyncDone sp \<longleftrightarrow> all_done (sp_layers sp) (sp_lCount sp) (clock_of sp)"
  by (simp add: allSyncDone_def all_done_def sync_layers_of list_all_iff clock_of_def)

lemma anyBlockingAsync_of: "anyBlockingAsync sp \<longleftrightarrow> (\<exists>i < sp_lCount sp. keeps_alive (sp_layer sp i))"
  by (auto simp: anyBlockingAsync_def keeps_alive_def list_ex_iff)

text \<open>What becomes of a layer that is marked to be stopped.\<close>

definition released :: "bool \<Rightarrow> ScenePlayer \<Rightarrow> ScenePlayer \<Rightarrow> nat \<Rightarrow> bool" where
  "released restarting sp sp' i \<longleftrightarrow> (restarting \<and> restartReclaimsLayerSlot (sp_layer sp i)) \<or> stopped_since sp sp' i"

definition restarts :: "ScenePlayer \<Rightarrow> bool" where
  "restarts sp \<longleftrightarrow> sync_layers sp \<noteq> [] \<and> allSyncDone sp \<and> sp_loop sp"

lemma released_mono: "released r a b i \<Longrightarrow> later b c \<Longrightarrow> released r a c i"
  using stopped_mono by (auto simp: released_def)

lemma barrier_step:
  assumes t: "topo_ready (topo_of sp)" and a: "arrays_ok sp" and play: "sp_playing sp"
  shows "returns (barrier m nowMs sp) (\<lambda>sp'.
      sp_playing sp' = (sync_layers sp = [] \<or> \<not> allSyncDone sp \<or> sp_loop sp \<or> anyBlockingAsync sp)
    \<and> later sp (sp'\<lparr>sp_playing := True\<rparr>)
    \<and> clock_of sp' = (if restarts sp then arm_all sp nowMs False (clock_of sp) else clock_of sp)
    \<and> (\<forall>i < sp_lCount sp. \<not> sp_pendingStop sp' ! i)
    \<and> (\<forall>i < sp_lCount sp. sp_pendingStop sp ! i \<longrightarrow> released (restarts sp) sp sp' i))"
proof -
  obtain s where s: "flushPendingStops (restarts sp) sp = Some s" "later sp s" "clock_of s = clock_of sp"
    "\<forall>i < sp_lCount sp. \<not> sp_pendingStop s ! i" "\<forall>i < sp_lCount sp. sp_pendingStop sp ! i \<longrightarrow> released (restarts sp) sp s i"
    using flush_loop [OF t a, of "restarts sp"] by (auto simp: returns_def released_def)
  have f: "sp_playing s = True" "sp_layers s = sp_layers sp" "sp_lCount s = sp_lCount sp"
    using later_fields [OF s(2)] play by simp_all
  have s': "topo_ready (topo_of s)" "arrays_ok s" using later_ready [OF s(2) t] s(2) a by (simp_all add: later_def)
  have armed: "returns (armLayers m nowMs False s) (\<lambda>sp'. sp_playing sp' \<and> later sp (sp'\<lparr>sp_playing := True\<rparr>)
      \<and> clock_of sp' = arm_all sp nowMs False (clock_of sp) \<and> (\<forall>i < sp_lCount sp. \<not> sp_pendingStop sp' ! i)
      \<and> (\<forall>i < sp_lCount sp. sp_pendingStop sp ! i \<longrightarrow> released (restarts sp) sp sp' i))"
  proof (rule returns_mono [OF arm_loop [OF s']], elim conjE)
    fix sp' assume l: "later s sp'" and p: "sp_pendingStop sp' = sp_pendingStop s" and c: "clock_of sp' = arm_all s nowMs False (clock_of s)"
    have pl: "sp_playing sp'" using later_fields(4) [OF l] f(1) by simp
    then have same: "sp'\<lparr>sp_playing := True\<rparr> = sp'" by simp
    have "arm_all s = arm_all sp" by (intro ext) (auto simp: arm_all_def f)
    then show "sp_playing sp' \<and> later sp (sp'\<lparr>sp_playing := True\<rparr>)
      \<and> clock_of sp' = arm_all sp nowMs False (clock_of sp) \<and> (\<forall>i < sp_lCount sp. \<not> sp_pendingStop sp' ! i)
      \<and> (\<forall>i < sp_lCount sp. sp_pendingStop sp ! i \<longrightarrow> released (restarts sp) sp sp' i)"
      unfolding same using pl later_trans [OF s(2) l] p c s(3-5) released_mono [OF _ l] by simp
  qed
  have "s\<lparr>sp_playing := True\<rparr> = s" using f(1) by simp
  then have stay: "later sp (s\<lparr>sp_playing := True\<rparr>)" using s(2) by metis
  have off: "released r sp (s\<lparr>sp_playing := False\<rparr>) i = released r sp s i" "clock_of (s\<lparr>sp_playing := False\<rparr>) = clock_of s" for r i
    by (simp_all add: released_def stopped_since_def clock_of_def fun_eq_iff)
  have b: "barrier m nowMs sp =
      (if sync_layers sp = [] \<or> \<not> allSyncDone sp then Some s else if sp_loop sp then armLayers m nowMs False s
       else if \<not> anyBlockingAsync sp then Some (s\<lparr>sp_playing := False\<rparr>) else Some s)"
    using s(1) later_fields(3) [OF s(2)] by (simp add: barrier_def Let_def restarts_def)
  consider "sync_layers sp = [] \<or> \<not> allSyncDone sp" | (loop) "sync_layers sp \<noteq> []" "allSyncDone sp" "sp_loop sp"
    | (last) "sync_layers sp \<noteq> []" "allSyncDone sp" "\<not> sp_loop sp" by blast
  then show ?thesis
  proof cases
    case 1
    then have r: "\<not> restarts sp" by (auto simp: restarts_def)
    show ?thesis unfolding b using 1 r f(1) stay s(3-5) by auto
  next
    case loop
    then have "restarts sp" by (simp add: restarts_def)
    then show ?thesis unfolding b using loop armed by simp
  next
    case last
    then have r: "\<not> restarts sp" by (simp add: restarts_def)
    show ?thesis unfolding b using last r f(1) stay s(3-5) off by simp
  qed
qed

section \<open>The tick\<close>

lemma moved_eq:
  assumes "\<And>i. i < n \<Longrightarrow> b i = advance_clock (layers ! i) speed nowMs (c i)" and "\<And>i. n \<le> i \<Longrightarrow> b i = c i"
  shows "(\<lambda>i. if i < n then promote_clock layers n nowMs b i else b i) = moved layers n speed nowMs c"
proof -
  have "b = (\<lambda>i. if i < n then advance_clock (layers ! i) speed nowMs (c i) else c i)" using assms by (auto simp: fun_eq_iff)
  then show ?thesis by (simp only: moved_def Let_def)
qed

lemma tick_spec:
  assumes inv: "sp_inv sp" and play: "sp_playing sp" and now: "clock_safe nowMs"
  shows "returns (sp_tick m nowMs sp) (\<lambda>sp'. sp_inv sp'
    \<and> (sp_playing sp', clock_of sp') = timeline_step (sp_layers sp) (sp_lCount sp) (sp_loop sp) (sp_speed sp) nowMs (clock_of sp)
    \<and> later sp (sp'\<lparr>sp_playing := True\<rparr>)
    \<and> (\<forall>i < sp_lCount sp. finishes (sp_layer sp i) (sp_speed sp) nowMs (clock_of sp i) \<longrightarrow>
         (sp_playing sp' \<and> restartReclaimsLayerSlot (sp_layer sp i) \<and> clock_of sp' i = (RUNNING, 0, nowMs)) \<or> stopped_since sp sp' i))"
proof -
  let ?n = "sp_lCount sp" and ?ls = "sp_layers sp" and ?c = "clock_of sp"
  have t: "topo_ready (topo_of sp)" and a: "arrays_ok sp" and cok: "\<forall>i < ?n. clock_ok (?ls ! i) (?c i)"
    and pend: "\<forall>i < ?n. \<not> sp_pendingStop sp ! i"
    using inv play by (simp_all add: sp_inv_def)
  obtain s1 where s1: "each (tick_layer m nowMs) [0..<?n] sp = Some s1" "later sp s1" "clock_of s1 = advance_all sp nowMs"
      "\<forall>i < ?n. sp_pendingStop s1 ! i \<longleftrightarrow> finishes (sp_layer sp i) (sp_speed sp) nowMs (?c i)"
    using advance_loop [OF t a now, of m] pend by (auto simp: returns_def)
  note f1 = later_fields [OF s1(2)]
  have t1: "topo_ready (topo_of s1)" "arrays_ok s1" using later_ready [OF s1(2) t] s1(2) a by (simp_all add: later_def)
  have "clock_ok (?ls ! i) (clock_of s1 i)" if "i < ?n" for i
    unfolding s1(3) advance_all_def using cok that by (simp add: advance_ok)
  then have w1: "waiting_fresh s1" by (auto simp: waiting_fresh_def clock_ok_def f1 clock_of_def)
  obtain s2 where s2: "promoteReadyLayers m nowMs s1 = Some s2" "later s1 s2" "sp_pendingStop s2 = sp_pendingStop s1"
      "clock_of s2 = promote_all s1 nowMs (clock_of s1)"
    using promote_loop [OF t1 w1, of m nowMs] by (auto simp: returns_def)
  have l2: "later sp s2" by (rule later_trans [OF s1(2) s2(2)])
  note f2 = later_fields [OF l2]
  have t2: "topo_ready (topo_of s2)" "arrays_ok s2" using later_ready [OF l2 t] l2 a by (simp_all add: later_def)
  have c2: "clock_of s2 = moved ?ls ?n (sp_speed sp) nowMs ?c"
    unfolding s2(4) promote_all_def f1 by (rule moved_eq) (simp_all add: s1(3) advance_all_def)
  have sync: "sync_layers s2 = sync_of ?ls ?n" "allSyncDone s2 = all_done ?ls ?n (clock_of s2)" "anyBlockingAsync s2 = (\<exists>i < ?n. keeps_alive (?ls ! i))"
    by (simp_all add: sync_layers_of allSyncDone_of anyBlockingAsync_of f2)
  have r2: "restarts s2 \<longleftrightarrow> sync_of ?ls ?n \<noteq> [] \<and> all_done ?ls ?n (clock_of s2) \<and> sp_loop sp" by (simp add: restarts_def sync f2)
  have play2: "sp_playing s2" using f2(4) play by simp
  have tick: "sp_tick m nowMs sp = barrier m nowMs s2" using play by (simp add: sp_tick_def s1(1) s2(1))
  show ?thesis unfolding tick
  proof (rule returns_mono [OF barrier_step [OF t2 play2]], elim conjE, intro conjI)
    fix s3
    assume p3: "sp_playing s3 = (sync_layers s2 = [] \<or> \<not> allSyncDone s2 \<or> sp_loop s2 \<or> anyBlockingAsync s2)"
      and l3: "later s2 (s3\<lparr>sp_playing := True\<rparr>)"
      and c3: "clock_of s3 = (if restarts s2 then arm_all s2 nowMs False (clock_of s2) else clock_of s2)"
      and n3: "\<forall>i < sp_lCount s2. \<not> sp_pendingStop s3 ! i"
      and e3: "\<forall>i < sp_lCount s2. sp_pendingStop s2 ! i \<longrightarrow> released (restarts s2) s2 s3 i"
    show l: "later sp (s3\<lparr>sp_playing := True\<rparr>)" by (rule later_trans [OF l2 l3])
    have c3': "clock_of s3 = (if restarts s2 then \<lambda>i. if i < ?n \<and> \<not> isAsyncLayer (?ls ! i) then arm_clock (?ls ! i) nowMs else clock_of s2 i else clock_of s2)"
      unfolding c3 by (auto simp: arm_all_def f2 fun_eq_iff)
    show step: "(sp_playing s3, clock_of s3) = timeline_step ?ls ?n (sp_loop sp) (sp_speed sp) nowMs ?c"
      unfolding c3' p3 sync r2 by (auto simp: timeline_step_def Let_def c2 f2)
    have same: "sp_layers s3 = ?ls" "sp_lCount s3 = ?n" "sp_speed s3 = sp_speed sp" "sp_topo s3 = sp_topo sp"
      using later_fields [OF l] by simp_all
    have cs: "clock_of s3 = snd (timeline_step ?ls ?n (sp_loop sp) (sp_speed sp) nowMs ?c)" using step by (metis snd_conv)
    have "arrays_ok (s3\<lparr>sp_playing := True\<rparr>)" using l a by (simp add: later_def)
    then have "arrays_ok s3" by (simp add: arrays_ok_def)
    moreover have "\<forall>i < ?n. clock_ok (?ls ! i) (clock_of s3 i)" unfolding cs by (rule timeline_ok [OF cok])
    ultimately show "sp_inv s3" using inv t n3 f2 by (simp add: sp_inv_def same)
    show "\<forall>i < ?n. finishes (sp_layer sp i) (sp_speed sp) nowMs (?c i) \<longrightarrow>
         (sp_playing s3 \<and> restartReclaimsLayerSlot (sp_layer sp i) \<and> clock_of s3 i = (RUNNING, 0, nowMs)) \<or> stopped_since sp s3 i"
    proof (intro allI impI)
      fix i assume i: "i < ?n" "finishes (sp_layer sp i) (sp_speed sp) nowMs (?c i)"
      then have "sp_pendingStop s2 ! i" using s1(4) s2(3) by simp
      then have "released (restarts s2) s2 s3 i" using e3 i(1) f2 by simp
      then consider (keep) "restarts s2" "restartReclaimsLayerSlot (sp_layer sp i)" | (stop) "stopped_since s2 s3 i"
        by (auto simp: released_def f2)
      then show "(sp_playing s3 \<and> restartReclaimsLayerSlot (sp_layer sp i) \<and> clock_of s3 i = (RUNNING, 0, nowMs)) \<or> stopped_since sp s3 i"
      proof cases
        case keep
        then have "clock_of s3 i = (RUNNING, 0, nowMs)"
          using i(1) by (simp add: c3' restartReclaimsLayerSlot_def arm_clock_def split: if_splits)
        moreover have "sp_playing s3" using keep(1) by (simp add: p3 restarts_def)
        ultimately show ?thesis using keep(2) by simp
      next
        case stop
        then show ?thesis using stopped_later [OF l2] by simp
      qed
    qed
  qed
qed

end
