(* ===== verification/Scene_Life.thy ===== *)
theory Scene_Life
  imports
    Scene_Tick
begin

text \<open>
  The life of the scene player: loading, stopping, resuming, re-rooting. Every operation returns and keeps the
  invariant, whatever the order of the operations, as long as the provider answers with a tree of panels.
\<close>

section \<open>Rebuilding the topology\<close>

definition env_ok :: "scene_env \<Rightarrow> bool" where
  "env_ok env \<longleftrightarrow> tree_shape (env_indices env) (env_links env) \<and> (\<forall>p. fan_out (env_links env) p \<le> 7)"

lemma rebuild_returns:
  assumes e: "env_ok env" and caps: "st_caps (sp_topo sp)"
  shows "returns (sp_rebuild env sp) (\<lambda>sp'. \<exists>st geo. sp' = sp\<lparr>sp_topo := st, sp_geom := geo\<rparr> \<and> topo_ready (st_topo st) \<and> st_caps st)"
proof -
  have t: "tree_shape (env_indices env) (env_links env)" and fan: "\<And>p. fan_out (env_links env) p \<le> 7"
    using e by (simp_all add: env_ok_def)
  obtain st where st: "st_rebuild (env_indices env) (env_links env) (sp_topo sp) = Some st" "topo_ready (st_topo st)" "st_caps st"
      "st_graph st = ti_graph (st_topo st)" "pg_lowestSlot (st_graph st) < length (env_indices env)" "ti_n (st_topo st) = length (env_indices env)"
    by (rule rebuild_ready [OF t fan caps])
  have g: "graph_ok (st_graph st)" "pg_n (st_graph st) = length (env_indices env)"
    and slot: "\<And>p u. pg_slotOf (st_graph st) p = Some u \<Longrightarrow> u < pg_n (st_graph st)"
    using st(2,4,6) by (auto simp: topo_ready_def ti_slotOf_def)
  have "pgeo_build (env_libm env) (st_graph st) (env_edgeCounts env) 0 (sp_geom sp) \<noteq> None"
    by (rule pgeo_build_total [OF g(1)]) (use slot st(5) g(2) in auto)
  then obtain b geo where "pgeo_build (env_libm env) (st_graph st) (env_edgeCounts env) 0 (sp_geom sp) = Some (b, geo)" by auto
  then have "sp_rebuild env sp = Some (sp\<lparr>sp_topo := st, sp_geom := geo\<rparr>)" by (simp add: sp_rebuild_def st(1))
  then show ?thesis using st(2,3) by (auto simp: returns_def)
qed

section \<open>Loading\<close>

lemma emit_fields [simp]:
  "sp_layers (sp_emit cs sp) = sp_layers sp" "sp_currentStep (sp_emit cs sp) = sp_currentStep sp"
  "sp_stepStartMs (sp_emit cs sp) = sp_stepStartMs sp" "sp_layerState (sp_emit cs sp) = sp_layerState sp"
  "sp_pendingStop (sp_emit cs sp) = sp_pendingStop sp" "sp_bouncePhase (sp_emit cs sp) = sp_bouncePhase sp"
  "sp_spawnState (sp_emit cs sp) = sp_spawnState sp" "sp_lCount (sp_emit cs sp) = sp_lCount sp" "sp_topo (sp_emit cs sp) = sp_topo sp"
  "sp_loop (sp_emit cs sp) = sp_loop sp" "sp_speed (sp_emit cs sp) = sp_speed sp" "sp_playing (sp_emit cs sp) = sp_playing sp"
  by (simp_all add: sp_emit_def)

lemma palettes_returns: "topo_ready (topo_of sp) \<Longrightarrow> returns (sendPalettesToPanels sp) (\<lambda>sp'. \<exists>cs. sp' = sp_emit cs sp)"
proof -
  assume t: "topo_ready (topo_of sp)"
  have one: "returns (send_layer_palette i s) (\<lambda>sp'. \<exists>cs. sp' = sp_emit cs sp)" if "\<exists>cs. s = sp_emit cs sp" for i s
  proof -
    from that obtain cs where s: "s = sp_emit cs sp" by blast
    obtain panels where p: "sp_resolve s i = Some panels" using resolve_returns [of s i] t s by (auto simp: returns_def)
    have twice: "\<exists>es. sp_emit ds (sp_emit cs sp) = sp_emit es sp" for ds by (intro exI [of _ "cs @ ds"]) (simp add: sp_emit_def)
    show ?thesis using p twice that by (auto simp: send_layer_palette_def Let_def s)
  qed
  have "\<exists>cs. sp_emit (sch_broadcastBaseColors (sp_baseColors sp)) sp = sp_emit cs sp" by blast
  then show ?thesis unfolding sendPalettesToPanels_def by (rule each_invariant) (rule one)
qed

lemma clamp_speed_range: "SPEED_MIN \<le> clamp_speed x" "clamp_speed x \<le> SPEED_MAX"
proof -
  have "SPEED_MIN \<le> SPEED_MAX" using fl_mono [of "1 / 10" 10] by (simp add: SPEED_MIN_def SPEED_MAX_def)
  then show "SPEED_MIN \<le> clamp_speed x" "clamp_speed x \<le> SPEED_MAX" by (simp_all add: clamp_speed_def)
qed

text \<open>The pools that loading lays out, for the layers of a scene.\<close>

definition pools_of :: "SceneLayer list \<Rightarrow> LayerSpawnState list" where
  "pools_of layers =
     (if \<not> list_ex layerIsSpawner layers then replicate SCENE_MAX_LAYERS lss_zero
      else snd (fold (alloc_pool layers) [0..<length layers] (0, replicate SCENE_MAX_LAYERS lss_zero)))"

lemma alloc_is_pools: "allocSpawnPools sp = sp\<lparr>sp_spawnState := pools_of (take (sp_lCount sp) (sp_layers sp))\<rparr>"
  by (simp add: allocSpawnPools_def pools_of_def Let_def)

lemma alloc_fold:
  assumes "\<forall>st \<in> set sts. bounce_ok st"
  shows "length (snd (fold (alloc_pool layers) is (k, sts))) = length sts \<and> (\<forall>st \<in> set (snd (fold (alloc_pool layers) is (k, sts))). bounce_ok st)"
  using assms
proof (induction "is" arbitrary: k sts)
  case (Cons i "is")
  obtain k' sts' where s: "alloc_pool layers i (k, sts) = (k', sts')" by (metis prod.exhaust)
  have keep: "bounce_ok (st\<lparr>lss_poolBase := a, lss_poolSize := b, lss_cursor := c\<rparr>) = bounce_ok st" for st a b c
    by (simp add: bounce_ok_def)
  have "length sts' = length sts \<and> (\<forall>st \<in> set sts'. bounce_ok st)"
  proof (cases "i < length sts")
    case True
    then have "bounce_ok (sts ! i)" using Cons.prems by simp
    then show ?thesis using s Cons.prems set_update_subset_insert
      by (fastforce simp: alloc_pool_def Let_def split_beta keep split: if_splits)
  next
    case False
    then show ?thesis using s Cons.prems by (auto simp: alloc_pool_def Let_def split_beta list_update_beyond split: if_splits)
  qed
  then show ?case using Cons.IH [of sts' k'] by (simp add: s)
qed simp

lemma pools_ok: "length (pools_of layers) = SCENE_MAX_LAYERS" "\<forall>st \<in> set (pools_of layers). bounce_ok st"
proof -
  have z: "\<forall>st \<in> set (replicate SCENE_MAX_LAYERS lss_zero). bounce_ok st" by (simp add: bounce_ok_def lss_zero_def)
  show "length (pools_of layers) = SCENE_MAX_LAYERS" "\<forall>st \<in> set (pools_of layers). bounce_ok st"
    using alloc_fold [OF z, of layers "[0..<length layers]" 0] z by (simp_all add: pools_of_def)
qed

text \<open>The arrays of the player that never change their length, in any state.\<close>

definition frame_ok :: "ScenePlayer \<Rightarrow> bool" where
  "frame_ok sp \<longleftrightarrow> length (sp_currentStep sp) = SCENE_MAX_LAYERS \<and> length (sp_stepStartMs sp) = SCENE_MAX_LAYERS \<and> st_caps (sp_topo sp)"

lemma inv_frame: "sp_inv sp \<Longrightarrow> frame_ok sp"
  by (simp add: sp_inv_def frame_ok_def arrays_ok_def)

lemma armScene_returns:
  assumes e: "env_ok env" and fr: "frame_ok sp" and n: "sp_lCount sp \<le> SCENE_MAX_LAYERS"
  shows "returns (armScene env lp pal cols nowMs speed bg sp) (\<lambda>sp'. sp_inv sp' \<and> sp_playing sp' \<and> sp_loop sp' = lp
    \<and> sp_speed sp' = clamp_speed speed \<and> sp_layers sp' = sp_layers sp \<and> sp_lCount sp' = sp_lCount sp
    \<and> (\<forall>i < sp_lCount sp. clock_of sp' i = arm_clock (sp_layer sp i) nowMs)
    \<and> (\<forall>i < SCENE_MAX_LAYERS. lss_pool (sp_spawn sp' i) = lss_pool (pools_of (take (sp_lCount sp) (sp_layers sp)) ! i)))"
proof -
  let ?a = "allocSpawnPools (sp_emit (sch_broadcastBackground bg) ((sp_stop sp)\<lparr>sp_background := bg\<rparr>))"
  let ?pal = "case pal of None \<Rightarrow> ''userColors'' | Some p \<Rightarrow> if p = [] then ''userColors'' else p"
  define b where "b = ?a\<lparr>sp_loop := lp, sp_speed := clamp_speed speed, sp_defaultPalette := take 15 ?pal, sp_baseColors := cols\<rparr>"
  define c where "c = b\<lparr>sp_resolvedPalettes :=
       map (\<lambda>i. resolve_palette env (if ly_palette (sp_layer b i) \<noteq> [] then ly_palette (sp_layer b i) else sp_defaultPalette b) cols)
         [0..<sp_lCount b] @ drop (sp_lCount b) (sp_resolvedPalettes b)\<rparr>"
  have cf: "sp_layers c = sp_layers sp" "sp_lCount c = sp_lCount sp" "sp_topo c = sp_topo sp" "sp_loop c = lp" "sp_speed c = clamp_speed speed"
    "sp_spawnState c = pools_of (take (sp_lCount sp) (sp_layers sp))" "sp_pendingStop c = replicate SCENE_MAX_LAYERS False"
    "sp_bouncePhase c = replicate SCENE_MAX_LAYERS False" "sp_layerState c = replicate SCENE_MAX_LAYERS WAITING"
    "sp_currentStep c = sp_currentStep sp" "sp_stepStartMs c = sp_stepStartMs sp"
    by (simp_all add: c_def b_def alloc_is_pools sp_stop_def)
  have "st_caps (sp_topo c)" using fr cf by (simp add: frame_ok_def)
  from rebuild_returns [OF e this] obtain st geo where d: "sp_rebuild env c = Some (c\<lparr>sp_topo := st, sp_geom := geo\<rparr>)"
    "topo_ready (st_topo st)" "st_caps st" by (auto simp: returns_def)
  obtain cs where p: "sendPalettesToPanels (c\<lparr>sp_topo := st, sp_geom := geo\<rparr>) = Some (sp_emit cs (c\<lparr>sp_topo := st, sp_geom := geo\<rparr>))"
    using palettes_returns [of "c\<lparr>sp_topo := st, sp_geom := geo\<rparr>"] d(2) by (auto simp: returns_def)
  define q where "q = (sp_emit cs (c\<lparr>sp_topo := st, sp_geom := geo\<rparr>))\<lparr>sp_playing := True\<rparr>"
  have arm: "armScene env lp pal cols nowMs speed bg sp = armLayers (env_libm env) nowMs True q"
    by (simp only: armScene_def Let_def b_def [symmetric] c_def [symmetric] d(1) p Option.bind.simps q_def)
  have qf: "sp_layers q = sp_layers sp" "sp_lCount q = sp_lCount sp" "sp_topo q = st" "sp_loop q = lp" "sp_speed q = clamp_speed speed"
    "sp_spawnState q = pools_of (take (sp_lCount sp) (sp_layers sp))" "sp_playing q" "sp_pendingStop q = replicate SCENE_MAX_LAYERS False"
    using cf by (simp_all add: q_def)
  have "bounce_ok (pools_of layers ! i)" if "i < SCENE_MAX_LAYERS" for layers i
    using pools_ok(2) [of layers] nth_mem [of i "pools_of layers"] that by (simp add: pools_ok(1))
  then have aq: "arrays_ok q"
    unfolding arrays_ok_def using fr n by (simp add: q_def cf frame_ok_def pools_ok(1))
  have tq: "topo_ready (topo_of q)" using d(2) qf by simp
  show ?thesis unfolding arm
  proof (rule returns_mono [OF arm_loop [OF tq aq]], elim conjE)
    fix sp' assume l: "later q sp'" and pend: "sp_pendingStop sp' = sp_pendingStop q" and cl: "clock_of sp' = arm_all q nowMs True (clock_of q)"
    note f = later_fields [OF l]
    have clk: "\<forall>i < sp_lCount sp. clock_of sp' i = arm_clock (sp_layer sp i) nowMs" unfolding cl by (simp add: arm_all_def qf)
    have "sp_inv sp'"
      using l aq pend n tq clk d(3) clamp_speed_range [of speed] f qf
      by (simp add: sp_inv_def later_def arm_ok)
    moreover have "lss_pool (sp_spawn sp' i) = lss_pool (sp_spawn q i)" for i by (rule lss_keeps_pool) (use l in \<open>simp add: later_def\<close>)
    ultimately show "sp_inv sp' \<and> sp_playing sp' \<and> sp_loop sp' = lp \<and> sp_speed sp' = clamp_speed speed \<and> sp_layers sp' = sp_layers sp
      \<and> sp_lCount sp' = sp_lCount sp \<and> (\<forall>i < sp_lCount sp. clock_of sp' i = arm_clock (sp_layer sp i) nowMs)
      \<and> (\<forall>i < SCENE_MAX_LAYERS. lss_pool (sp_spawn sp' i) = lss_pool (pools_of (take (sp_lCount sp) (sp_layers sp)) ! i))"
      using f qf clk by simp
  qed
qed

section \<open>Every operation returns and keeps the invariant\<close>

lemma frame_same: "frame_ok sp \<Longrightarrow> frame_ok (sp\<lparr>sp_layers := ls, sp_lCount := n\<rparr>)" "frame_ok sp \<Longrightarrow> frame_ok (sp\<lparr>sp_lCount := n\<rparr>)"
  by (simp_all add: frame_ok_def)

lemma load_returns:
  assumes "env_ok env" and "frame_ok sp"
  shows "returns (loadAndPlay env layers n lp pal cols nowMs speed bg sp) sp_inv"
  unfolding loadAndPlay_def Let_def
  by (rule returns_mono [OF armScene_returns [OF assms(1)]]) (use assms(2) in \<open>simp_all add: frame_ok_def\<close>)

lemma preload_returns:
  assumes "env_ok env" and "frame_ok sp"
  shows "returns (playPreloaded env n lp pal cols nowMs speed bg sp) sp_inv"
  unfolding playPreloaded_def
  by (rule returns_mono [OF armScene_returns [OF assms(1)]]) (use assms(2) in \<open>simp_all add: frame_ok_def\<close>)

lemma resume_returns: "env_ok env \<Longrightarrow> sp_inv sp \<Longrightarrow> returns (sp_resume env nowMs sp) sp_inv"
  using load_returns [OF _ inv_frame] by (simp add: sp_resume_def)

lemma stop_inv: "sp_inv sp \<Longrightarrow> sp_inv (sp_stop sp)"
  by (simp add: sp_inv_def arrays_ok_def sp_stop_def)

lemma speed_inv: "sp_inv sp \<Longrightarrow> sp_inv (setSpeed x sp)"
  by (simp add: sp_inv_def arrays_ok_def setSpeed_def clamp_speed_range clock_of_def)

lemma reresolve_inv: "sp_inv sp \<Longrightarrow> sp_inv (reresolvePalettes env p cs sp)"
  by (simp add: sp_inv_def arrays_ok_def reresolvePalettes_def Let_def clock_of_def split: option.split)

lemma root_returns: "env_ok env \<Longrightarrow> sp_inv sp \<Longrightarrow> returns (sp_setLogicalRoot env p nowMs sp) sp_inv"
proof -
  assume e: "env_ok env" and i: "sp_inv sp"
  let ?sp = "sp\<lparr>sp_topo := st_setLogicalRoot p (sp_topo sp)\<rparr>"
  have caps: "st_caps (sp_topo ?sp)" using i by (simp add: sp_inv_def st_caps_def st_setLogicalRoot_def)
  have topo: "topo_of ?sp = topo_of sp" by (simp add: st_setLogicalRoot_def)
  have inv: "sp_inv ?sp" using i caps topo by (simp add: sp_inv_def arrays_ok_def clock_of_def)
  have "returns (sp_rebuild env ?sp) sp_inv" if "\<not> sp_playing sp"
    by (rule returns_mono [OF rebuild_returns [OF e caps]]) (use inv that in \<open>auto simp: sp_inv_def arrays_ok_def\<close>)
  then show ?thesis using resume_returns [OF e inv, of nowMs] by (simp add: sp_setLogicalRoot_def Let_def)
qed

lemma tick_returns: "sp_inv sp \<Longrightarrow> clock_safe nowMs \<Longrightarrow> returns (sp_tick m nowMs sp) sp_inv"
proof (cases "sp_playing sp")
  case True
  assume "sp_inv sp" "clock_safe nowMs"
  then show ?thesis using True by (intro returns_mono [OF tick_spec]) simp_all
qed (simp add: sp_tick_def)

text \<open>The calls of the controller on the player, in any order. A preload fills the buffer of layers first.\<close>

datatype scene_op =
    Op_Load "SceneLayer list" nat bool "string option" "ColorRGB list" u32 real ColorRGB
  | Op_Preload "SceneLayer list" nat bool "string option" "ColorRGB list" u32 real ColorRGB
  | Op_Tick u32
  | Op_Stop
  | Op_Resume u32
  | Op_SetSpeed real
  | Op_SetRoot u8 u32
  | Op_Reresolve "string option" "ColorRGB list option"

fun scene_step :: "scene_env \<Rightarrow> scene_op \<Rightarrow> ScenePlayer \<Rightarrow> ScenePlayer option" where
  "scene_step env (Op_Load ls n lp pal cols now speed bg) sp = loadAndPlay env ls n lp pal cols now speed bg sp"
| "scene_step env (Op_Preload ls n lp pal cols now speed bg) sp =
     playPreloaded env n lp pal cols now speed bg (sp\<lparr>sp_layers := ls\<rparr>)"
| "scene_step env (Op_Tick now) sp = sp_tick (env_libm env) now sp"
| "scene_step env Op_Stop sp = Some (sp_stop sp)"
| "scene_step env (Op_Resume now) sp = sp_resume env now sp"
| "scene_step env (Op_SetSpeed x) sp = Some (setSpeed x sp)"
| "scene_step env (Op_SetRoot p now) sp = sp_setLogicalRoot env p now sp"
| "scene_step env (Op_Reresolve p cs) sp = Some (reresolvePalettes env p cs sp)"

definition op_in_time :: "scene_op \<Rightarrow> bool" where
  "op_in_time op \<longleftrightarrow> (case op of Op_Tick now \<Rightarrow> clock_safe now | _ \<Rightarrow> True)"

definition scene_run :: "scene_env \<Rightarrow> scene_op list \<Rightarrow> ScenePlayer \<Rightarrow> ScenePlayer option" where
  "scene_run env = each (scene_step env)"

lemma scene_step_returns: "env_ok env \<Longrightarrow> op_in_time op \<Longrightarrow> sp_inv sp \<Longrightarrow> returns (scene_step env op sp) sp_inv"
proof (cases op)
  case (Op_Preload ls n lp pal cols now speed bg)
  assume "env_ok env" "sp_inv sp"
  moreover have "frame_ok (sp\<lparr>sp_layers := ls\<rparr>)" if "frame_ok sp" using that by (simp add: frame_ok_def)
  ultimately show ?thesis using preload_returns inv_frame by (simp add: Op_Preload)
qed (simp_all add: load_returns inv_frame stop_inv resume_returns speed_inv root_returns reresolve_inv tick_returns op_in_time_def)

lemma init_inv: "st_caps topo \<Longrightarrow> sp_inv (sp_init sch topo geo layers palettes)"
proof -
  assume "st_caps topo"
  moreover have "SPEED_MIN \<le> 1" "1 \<le> SPEED_MAX" using fl_mono [of "1 / 10" 1] by (simp_all add: SPEED_MIN_def SPEED_MAX_def)
  ultimately show ?thesis by (simp add: sp_inv_def sp_init_def arrays_ok_def bounce_ok_def lss_zero_def)
qed

lemma scene_run_returns: "env_ok env \<Longrightarrow> list_all op_in_time ops \<Longrightarrow> sp_inv sp \<Longrightarrow> returns (scene_run env ops sp) sp_inv"
  unfolding scene_run_def by (rule each_invariant) (auto simp: list_all_iff intro: scene_step_returns)

end
