(* ===== verification/Scene_Groups.thy ===== *)
theory Scene_Groups
  imports
    Scene_Life
begin

text \<open>
  Group ids. The panels address a slot by its group id and start whole groups, so two layers must not share one.
  Loading a scene gives every spawner layer a pool above all ids in use; the pools do not meet.
\<close>

section \<open>The plan of the pools\<close>

lemma max_used:
  "unat (ly_groupId l) \<le> fold (\<lambda>l m. if m < unat (ly_groupId l) then unat (ly_groupId l) else m) layers (m0 :: nat)" if "l \<in> set layers"
  for l :: SceneLayer
proof -
  let ?f = "\<lambda>l m. if m < unat (ly_groupId l) then unat (ly_groupId l) else m"
  have grow: "m \<le> fold ?f ls m" for ls :: "SceneLayer list" and m
  proof (induction ls arbitrary: m)
    case (Cons a ls)
    show ?case using Cons.IH [of "?f a m"] by (simp split: if_splits)
  qed simp
  from that show ?thesis
  proof (induction layers arbitrary: m0)
    case (Cons a ls)
    show ?case
    proof (cases "l = a")
      case True
      then show ?thesis using grow [of "?f a m0" ls] by (simp split: if_splits)
    next
      case False
      then show ?thesis using Cons by simp
    qed
  qed simp
qed

lemma max_used_bound: "m0 \<le> 255 \<Longrightarrow> fold (\<lambda>l m. if m < unat (ly_groupId l) then unat (ly_groupId l) else m) (layers :: SceneLayer list) m0 \<le> (255 :: nat)"
proof (induction layers arbitrary: m0)
  case (Cons a ls)
  then show ?case using unat_u8_less [of "ly_groupId a"] by simp
qed simp

definition spawners_before :: "SceneLayer list \<Rightarrow> nat \<Rightarrow> nat" where
  "spawners_before layers i = length (filter layerIsSpawner (take i layers))"

lemma spawners_before_less: "i < j \<Longrightarrow> j \<le> length layers \<Longrightarrow> layerIsSpawner (layers ! i) \<Longrightarrow> spawners_before layers i < spawners_before layers j"
proof (induction j)
  case (Suc j)
  have "spawners_before layers (Suc j) = spawners_before layers j + (if layerIsSpawner (layers ! j) then 1 else 0)"
    using Suc.prems(2) by (simp add: spawners_before_def take_Suc_conv_app_nth)
  then show ?case using Suc by (cases "i = j") auto
qed simp

lemma pool_plan_room:
  assumes "pool_plan layers = (start, per)" and "0 < per"
  shows "start + spawners_before layers (length layers) * per \<le> 255" and "\<And>l. l \<in> set layers \<Longrightarrow> unat (ly_groupId l) < start"
proof -
  let ?m = "fold (\<lambda>l m. if m < unat (ly_groupId l) then unat (ly_groupId l) else m) layers 0" and ?k = "spawners_before layers (length layers)"
  have e: "(?m + 1, min SPAWN_POOL_MAX ((if ?m + 1 \<le> 254 then 254 - (?m + 1) + 1 else 0) div ?k)) = (start, per)"
    using assms(1) by (simp only: pool_plan_def Let_def spawners_before_def take_all [OF order_refl])
  have s: "start = ?m + 1" "per = min SPAWN_POOL_MAX ((if ?m + 1 \<le> 254 then 254 - (?m + 1) + 1 else 0) div ?k)"
    by (rule prod.inject [THEN iffD1, OF e, THEN conjunct1, symmetric])
      (rule prod.inject [THEN iffD1, OF e, THEN conjunct2, symmetric])
  show "unat (ly_groupId l) < start" if "l \<in> set layers" for l using max_used [OF that, of 0] s(1) by simp
  have "?m + 1 \<le> 254" using s(2) assms(2) by (auto split: if_splits)
  moreover have "per \<le> (255 - start) div ?k"
  proof -
    have "254 - start + 1 = 255 - start" using \<open>?m + 1 \<le> 254\<close> s(1) by linarith
    then show ?thesis using \<open>?m + 1 \<le> 254\<close> unfolding s(2) s(1) [symmetric] by simp
  qed
  then have "?k * per \<le> 255 - start" by (metis div_times_less_eq_dividend le_trans mult.commute mult_le_mono2)
  ultimately show "start + ?k * per \<le> 255" using s(1) by simp
qed

section \<open>The pools\<close>

definition pool_state :: "SceneLayer list \<Rightarrow> nat \<Rightarrow> LayerSpawnState" where
  "pool_state layers i =
     (let (start, per) = pool_plan layers; layer = layers ! i
      in if \<not> layerIsSpawner layer then lss_zero
         else lss_zero\<lparr>lss_poolBase := of_nat (start + spawners_before layers i * per),
                lss_poolSize := of_nat (if layerIsSweepSpawner layer then min (unat (maxSweepCountForLayer layer + 1)) per else per)\<rparr>)"

lemma alloc_upto:
  assumes "length layers \<le> SCENE_MAX_LAYERS" and "n \<le> length layers"
  shows "fold (alloc_pool layers) [0..<n] (0, replicate SCENE_MAX_LAYERS lss_zero) =
    (spawners_before layers n, map (\<lambda>i. if i < n then pool_state layers i else lss_zero) [0..<SCENE_MAX_LAYERS])"
  using assms(2)
proof (induction n)
  case 0
  show ?case by (simp add: spawners_before_def map_replicate_const)
next
  case (Suc n)
  obtain start per where p: "pool_plan layers = (start, per)" by (metis prod.exhaust)
  have z: "lss_zero\<lparr>lss_poolBase := a, lss_poolSize := b, lss_cursor := 0\<rparr> = lss_zero\<lparr>lss_poolBase := a, lss_poolSize := b\<rparr>" for a b
    by (simp add: lss_zero_def)
  have count: "spawners_before layers (Suc n) = spawners_before layers n + (if layerIsSpawner (layers ! n) then 1 else 0)"
    using Suc.prems by (simp add: spawners_before_def take_Suc_conv_app_nth)
  have n: "n < SCENE_MAX_LAYERS" using assms(1) Suc.prems by simp
  have upd: "(map (\<lambda>i. if i < n then pool_state layers i else lss_zero) [0..<SCENE_MAX_LAYERS])[n := x] =
      map (\<lambda>i. if i < Suc n then pool_state layers i else lss_zero) [0..<SCENE_MAX_LAYERS]" if "x = pool_state layers n" for x
    by (rule nth_equalityI) (use that n in \<open>auto simp: nth_list_update less_Suc_eq\<close>)
  have same: "map (\<lambda>i. if i < n then pool_state layers i else lss_zero) [0..<SCENE_MAX_LAYERS] =
      map (\<lambda>i. if i < Suc n then pool_state layers i else lss_zero) [0..<SCENE_MAX_LAYERS]" if "pool_state layers n = lss_zero"
    by (rule nth_equalityI) (use that n in \<open>auto simp: less_Suc_eq\<close>)
  let ?sts = "map (\<lambda>i. if i < n then pool_state layers i else lss_zero) [0..<SCENE_MAX_LAYERS]"
  have step: "fold (alloc_pool layers) [0..<Suc n] (0, replicate SCENE_MAX_LAYERS lss_zero) = alloc_pool layers n (spawners_before layers n, ?sts)"
    using Suc by simp
  have zn: "?sts ! n = lss_zero" using n by simp
  show ?case unfolding step
  proof (cases "layerIsSpawner (layers ! n)")
    case True
    let ?sz = "if layerIsSweepSpawner (layers ! n) then min (unat (maxSweepCountForLayer (layers ! n) + 1)) per else per"
    have one: "alloc_pool layers n (k, sts) = (k + 1, sts[n := (sts ! n)\<lparr>lss_poolBase := of_nat (start + k * per), lss_poolSize := of_nat ?sz, lss_cursor := 0\<rparr>])"
      for k sts using True by (simp add: alloc_pool_def p Let_def)
    have x: "pool_state layers n = lss_zero\<lparr>lss_poolBase := of_nat (start + spawners_before layers n * per), lss_poolSize := of_nat ?sz\<rparr>"
      using True by (simp add: pool_state_def p Let_def)
    have "alloc_pool layers n (spawners_before layers n, ?sts) = (spawners_before layers (Suc n), ?sts[n := pool_state layers n])"
      unfolding one zn z x count using True by simp
    then show "alloc_pool layers n (spawners_before layers n, ?sts)
      = (spawners_before layers (Suc n), map (\<lambda>i. if i < Suc n then pool_state layers i else lss_zero) [0..<SCENE_MAX_LAYERS])"
      by (simp only: upd)
  next
    case False
    then have "pool_state layers n = lss_zero" by (simp add: pool_state_def p)
    then show "alloc_pool layers n (spawners_before layers n, ?sts)
      = (spawners_before layers (Suc n), map (\<lambda>i. if i < Suc n then pool_state layers i else lss_zero) [0..<SCENE_MAX_LAYERS])"
      using False by (simp add: alloc_pool_def p count same [symmetric] Let_def)
  qed
qed

lemma pools_of_nth:
  assumes "length layers \<le> SCENE_MAX_LAYERS" and "i < length layers"
  shows "pools_of layers ! i = pool_state layers i"
proof (cases "list_ex layerIsSpawner layers")
  case True
  then show ?thesis using alloc_upto [OF assms(1) order_refl] assms by (simp add: pools_of_def)
next
  case False
  then have "\<not> layerIsSpawner (layers ! i)" using assms(2) by (auto simp: list_ex_iff)
  then show ?thesis using False assms by (simp add: pools_of_def pool_state_def split_beta)
qed

text \<open>The ids of a pool lie in its own stretch of the region above the ids in use.\<close>

lemma pool_ids_range:
  assumes "pool_plan layers = (start, per)" and "0 < per" and "i < length layers" and "g \<in> lss_pool (pool_state layers i)"
    and sp: "layerIsSpawner (layers ! i)"
  shows "start + spawners_before layers i * per \<le> unat g" and "unat g < start + (spawners_before layers i + 1) * per"
proof -
  let ?k = "spawners_before layers i" and ?K = "spawners_before layers (length layers)"
  let ?sz = "if layerIsSweepSpawner (layers ! i) then min (unat (maxSweepCountForLayer (layers ! i) + 1)) per else per"
  have K: "?k + 1 \<le> ?K" using spawners_before_less [of i "length layers" layers] assms(3) sp by simp
  have "start + (?k + 1) * per \<le> start + ?K * per" using K by (intro add_left_mono mult_le_mono1) simp
  then have room: "start + ?k * per + per \<le> 255" using pool_plan_room(1) [OF assms(1,2)] by simp
  let ?base = "of_nat (start + ?k * per) :: u8" and ?size = "of_nat ?sz :: u8"
  have base: "unat ?base = start + ?k * per" using room by (intro unat_of_nat_u8) simp
  have size: "unat ?size = ?sz" "?sz \<le> per" using room by (auto intro!: unat_of_nat_u8)
  obtain c where g: "g = fst (spawnPoolNext c ?base ?size)" using assms(4) sp by (auto simp: lss_pool_def pool_state_def assms(1) Let_def)
  have "unat g = unat ?base + (if ?size = 0 then 0 else unat c mod unat ?size)"
  proof (cases "?size = 0")
    case True
    then show ?thesis unfolding g by (simp add: spawnPoolNext_def)
  next
    case False
    then show ?thesis unfolding g using pool_id_in [OF False, of ?base c] base size room by simp
  qed
  moreover have "(if ?size = 0 then 0 else unat c mod unat ?size) < per"
  proof (cases "?size = 0")
    case False
    then have "unat c mod unat ?size < unat ?size" by (simp add: unat_gt_0)
    then show ?thesis using False size by simp
  qed (use assms(2) in simp)
  ultimately show "start + ?k * per \<le> unat g" "unat g < start + (?k + 1) * per" using base by simp_all
qed

lemma idle_pool: "\<not> layerIsSpawner (layers ! i) \<Longrightarrow> lss_pool (pool_state layers i) = {0}"
  by (auto simp: pool_state_def split_beta lss_pool_def lss_zero_def spawnPoolNext_def)

lemma groups_apart:
  assumes plan: "pool_plan layers = (start, per)" and per: "0 < per" and ids: "distinct (map ly_groupId layers)"
    and i: "i < j" "j < length layers"
  shows "insert (ly_groupId (layers ! i)) (lss_pool (pool_state layers i)) \<inter> insert (ly_groupId (layers ! j)) (lss_pool (pool_state layers j)) \<subseteq> {0}"
proof -
  note range = pool_ids_range [OF plan per]
  have own: "unat (ly_groupId (layers ! x)) < start" if "x < length layers" for x using pool_plan_room(2) [OF plan per] that by simp
  have pool: "g = 0 \<or> (layerIsSpawner (layers ! x) \<and> start \<le> unat g)" if "g \<in> lss_pool (pool_state layers x)" "x < length layers" for g x
  proof (cases "layerIsSpawner (layers ! x)")
    case True
    then show ?thesis using range(1) [OF that(2,1) True] by simp
  next
    case False
    then show ?thesis using that(1) by (simp add: idle_pool)
  qed
  have pools: "g = 0" if "g \<in> lss_pool (pool_state layers i)" "g \<in> lss_pool (pool_state layers j)" for g
  proof (rule ccontr)
    assume "g \<noteq> 0"
    then have sp: "layerIsSpawner (layers ! i)" "layerIsSpawner (layers ! j)" using pool [of g i] pool [of g j] that i by simp_all
    have "spawners_before layers i + 1 \<le> spawners_before layers j" using spawners_before_less [of i j layers] i sp(1) by simp
    then have "(spawners_before layers i + 1) * per \<le> spawners_before layers j * per" by (rule mult_le_mono1)
    moreover have "unat g < start + (spawners_before layers i + 1) * per" by (rule range(2)) (use i sp that in simp_all)
    moreover have "start + spawners_before layers j * per \<le> unat g" by (rule range(1)) (use i sp that in simp_all)
    ultimately show False by linarith
  qed
  have "ly_groupId (layers ! i) \<noteq> ly_groupId (layers ! j)" using ids i by (simp add: distinct_conv_nth)
  moreover have "ly_groupId (layers ! x) = 0 \<or> ly_groupId (layers ! x) \<notin> lss_pool (pool_state layers y)" if "x < length layers" "y < length layers" for x y
    using pool [of "ly_groupId (layers ! x)" y] own [of x] that by fastforce
  ultimately show ?thesis using pools i by (blast dest: order.strict_trans)
qed

end
