(* ===== verification/Scene_End.thy ===== *)
theory Scene_End
  imports
    Scene_Life
begin

text \<open>
  A scene that is played once comes to its end, and when: the steps still to play bound the time, however the
  layers wait for each other.
\<close>

section \<open>Steps still to play\<close>

definition remaining :: "SceneLayer \<Rightarrow> layer_clock \<Rightarrow> nat" where
  "remaining layer c = (case c of (s, k, _) \<Rightarrow> if s = WAITING then ly_stepCount layer else if s = RUNNING then ly_stepCount layer - k else 0)"

definition todo :: "SceneLayer list \<Rightarrow> nat \<Rightarrow> (nat \<Rightarrow> layer_clock) \<Rightarrow> nat" where
  "todo layers n c = (\<Sum>i < n. remaining (layers ! i) (c i))"

text \<open>Layers that end: no async layer, steps of bounded length, and no circle of layers that wait for each other.\<close>

definition ending_scene :: "SceneLayer list \<Rightarrow> nat \<Rightarrow> real \<Rightarrow> nat \<Rightarrow> bool" where
  "ending_scene layers n speed T \<longleftrightarrow>
     0 < T \<and> (\<exists>i < n. \<not> ly_disabled (layers ! i)) \<and> (\<forall>i < n. \<not> isAsyncLayer (layers ! i))
     \<and> (\<forall>i < n. \<forall>k < ly_stepCount (layers ! i). ss_durationMs (ly_steps (layers ! i) ! k) \<noteq> 0
          \<and> unat (scaled_ms (ss_durationMs (ly_steps (layers ! i) ! k)) speed) \<le> T)
     \<and> (\<exists>rank :: nat \<Rightarrow> nat. \<forall>i < n. \<forall>d. owner_of layers n (ly_startAfterGroupId (layers ! i)) = Some d \<longrightarrow> rank d < rank i)"

definition started_by :: "nat \<Rightarrow> (nat \<Rightarrow> layer_clock) \<Rightarrow> u32 \<Rightarrow> bool" where
  "started_by n c t \<longleftrightarrow> (\<forall>i < n. fst (c i) = RUNNING \<longrightarrow> snd (snd (c i)) \<le> t)"

lemma promote_remaining: "clock_ok (layers ! i) (c i) \<Longrightarrow> remaining (layers ! i) (promote_clock layers n nowMs c i) = remaining (layers ! i) (c i)"
  by (auto simp: promote_clock_def remaining_def split: prod.split)

lemma advance_remaining: "clock_ok layer c \<Longrightarrow> \<not> isAsyncLayer layer \<Longrightarrow>
    remaining layer (advance_clock layer speed nowMs c) \<le> remaining layer c
    \<and> (advance_clock layer speed nowMs c \<noteq> c \<longrightarrow> remaining layer (advance_clock layer speed nowMs c) < remaining layer c)"
  by (cases c) (auto simp: advance_clock_def remaining_def clock_ok_def Let_def)

lemma moved_remaining:
  assumes scene: "ending_scene layers n speed T" and ok: "\<forall>i < n. clock_ok (layers ! i) (c i)" and i: "i < n"
  shows "remaining (layers ! i) (moved layers n speed nowMs c i) \<le> remaining (layers ! i) (c i)"
    and "advance_clock (layers ! i) speed nowMs (c i) \<noteq> c i \<Longrightarrow> remaining (layers ! i) (moved layers n speed nowMs c i) < remaining (layers ! i) (c i)"
proof -
  have na: "\<not> isAsyncLayer (layers ! i)" using scene i by (simp add: ending_scene_def)
  have aok: "clock_ok (layers ! i) (advance_clock (layers ! i) speed nowMs (c i))" using ok i by (simp add: advance_ok)
  let ?a = "\<lambda>i. if i < n then advance_clock (layers ! i) speed nowMs (c i) else c i"
  have "moved layers n speed nowMs c i = promote_clock layers n nowMs ?a i" using i by (simp only: moved_def Let_def if_True)
  moreover have "remaining (layers ! i) (promote_clock layers n nowMs ?a i) = remaining (layers ! i) (?a i)"
    by (rule promote_remaining) (use aok i in simp)
  ultimately have r: "remaining (layers ! i) (moved layers n speed nowMs c i) = remaining (layers ! i) (advance_clock (layers ! i) speed nowMs (c i))"
    using i by simp
  have cok: "clock_ok (layers ! i) (c i)" using ok i by blast
  show "remaining (layers ! i) (moved layers n speed nowMs c i) \<le> remaining (layers ! i) (c i)"
    and "advance_clock (layers ! i) speed nowMs (c i) \<noteq> c i \<Longrightarrow> remaining (layers ! i) (moved layers n speed nowMs c i) < remaining (layers ! i) (c i)"
    unfolding r using advance_remaining [OF cok na, of speed nowMs] by blast+
qed

lemma todo_le: "ending_scene layers n speed T \<Longrightarrow> \<forall>i < n. clock_ok (layers ! i) (c i) \<Longrightarrow> todo layers n (moved layers n speed nowMs c) \<le> todo layers n c"
  unfolding todo_def by (intro sum_mono moved_remaining) simp_all

lemma todo_less:
  assumes scene: "ending_scene layers n speed T" and ok: "\<forall>i < n. clock_ok (layers ! i) (c i)" and i: "i < n" "advance_clock (layers ! i) speed nowMs (c i) \<noteq> c i"
  shows "todo layers n (moved layers n speed nowMs c) < todo layers n c"
  unfolding todo_def
proof (rule sum_strict_mono_ex1)
  show "\<exists>a \<in> {..<n}. remaining (layers ! a) (moved layers n speed nowMs c a) < remaining (layers ! a) (c a)"
    by (rule bexI [of _ i]) (use moved_remaining(2) [OF scene ok i] i(1) in simp_all)
qed (use moved_remaining(1) [OF scene ok] in auto)

text \<open>After a tick that does not end the scene some layer is running, and its step began less than \<open>T\<close> ago.\<close>

lemma some_layer_runs:
  assumes scene: "ending_scene layers n speed T" and going: "\<not> all_done layers n (moved layers n speed nowMs c)"
  shows "\<exists>j < n. fst (moved layers n speed nowMs c j) = RUNNING"
proof (rule ccontr)
  assume none: "\<not> ?thesis"
  obtain rank :: "nat \<Rightarrow> nat" where rank: "\<And>i d. i < n \<Longrightarrow> owner_of layers n (ly_startAfterGroupId (layers ! i)) = Some d \<Longrightarrow> rank d < rank i"
    using scene unfolding ending_scene_def by blast
  let ?m = "moved layers n speed nowMs c" and ?a = "\<lambda>i. if i < n then advance_clock (layers ! i) speed nowMs (c i) else c i"
  have m: "?m i = promote_clock layers n nowMs ?a i" if "i < n" for i using that by (simp only: moved_def Let_def if_True)
  have "fst (?m i) \<noteq> WAITING" if "i < n" for i
    using that
  proof (induction "rank i" arbitrary: i rule: less_induct)
    case less
    show ?case
    proof
      assume w: "fst (?m i) = WAITING"
      then have "fst (?a i) = WAITING" "\<not> gate_open layers n ?a i" unfolding m [OF less.prems] by (auto simp: promote_clock_def split: if_splits)
      then obtain d where d: "owner_of layers n (ly_startAfterGroupId (layers ! i)) = Some d" "fst (?a d) \<noteq> DONE"
        by (auto simp: gate_open_def split: option.splits)
      have dn: "d < n" using owner_of_some [OF d(1)] by simp
      then have "fst (?m d) \<noteq> WAITING" using less.hyps rank [OF less.prems d(1)] by blast
      moreover have "fst (?m d) \<noteq> RUNNING" using none dn by blast
      ultimately have "fst (?m d) = DONE" using LayerState.exhaust by blast
      then show False using d(2) unfolding m [OF dn] by (auto simp: promote_clock_def split: if_splits)
    qed
  qed
  then have "fst (?m i) = DONE" if "i < n" for i using none that LayerState.exhaust by blast
  then have "all_done layers n ?m" by (simp add: all_done_def sync_of_def)
  then show False using going by simp
qed

lemma running_since:
  assumes scene: "ending_scene layers n speed T" and ok: "\<forall>i < n. clock_ok (layers ! i) (c i)" and past: "started_by n c nowMs"
    and j: "j < n" "fst (moved layers n speed nowMs c j) = RUNNING"
  shows "snd (snd (moved layers n speed nowMs c j)) \<le> nowMs \<and> unat nowMs < unat (snd (snd (moved layers n speed nowMs c j))) + T
    \<and> (snd (snd (moved layers n speed nowMs c j)) = nowMs \<or> (moved layers n speed nowMs c j = c j \<and> advance_clock (layers ! j) speed nowMs (c j) = c j))"
proof -
  let ?a = "\<lambda>i. if i < n then advance_clock (layers ! i) speed nowMs (c i) else c i"
  have T: "0 < T" using scene by (simp add: ending_scene_def)
  have m: "moved layers n speed nowMs c j = promote_clock layers n nowMs ?a j" using j(1) by (simp only: moved_def Let_def if_True)
  obtain s k t0 where cj: "c j = (s, k, t0)" by (metis prod_cases3)
  let ?d = "ss_durationMs (ly_steps (layers ! j) ! k)"
  consider "snd (snd (moved layers n speed nowMs c j)) = nowMs" | "moved layers n speed nowMs c j = c j" "advance_clock (layers ! j) speed nowMs (c j) = c j"
    using j unfolding m by (auto simp: promote_clock_def advance_clock_def Let_def split: if_splits prod.splits)
  then show ?thesis
  proof cases
    case 2
    have run: "s = RUNNING" using j(2) 2(1) cj by simp
    have k: "k < ly_stepCount (layers ! j)" using ok j(1) run cj by (auto simp: clock_ok_def)
    then have d: "?d \<noteq> 0" "unat (scaled_ms ?d speed) \<le> T" using scene j(1) by (auto simp: ending_scene_def)
    have t0: "t0 \<le> nowMs" using past j(1) run cj by (auto simp: started_by_def)
    have "nowMs - t0 < scaled_ms ?d speed"
    proof (rule ccontr)
      assume "\<not> nowMs - t0 < scaled_ms ?d speed"
      then have "advance_clock (layers ! j) speed nowMs (c j) = (if k + 1 < ly_stepCount (layers ! j) then (RUNNING, k + 1, nowMs) else (DONE, k, t0))"
        using scene j(1) run d(1) cj by (simp add: advance_clock_def ending_scene_def)
      then show False using 2(2) cj run by (simp split: if_splits)
    qed
    then have "unat nowMs - unat t0 < T" using d(2) t0 by (simp add: word_less_nat_alt unat_sub)
    then show ?thesis using 2 t0 cj by (auto simp: word_le_nat_alt)
  qed (use T in simp)
qed

lemma started_after: "ending_scene layers n speed T \<Longrightarrow> started_by n c nowMs \<Longrightarrow> \<forall>i < n. clock_ok (layers ! i) (c i) \<Longrightarrow> started_by n (moved layers n speed nowMs c) nowMs"
  using running_since by (simp add: started_by_def [of n "moved layers n speed nowMs c"])

section \<open>The bound\<close>

definition due_by :: "SceneLayer list \<Rightarrow> nat \<Rightarrow> nat \<Rightarrow> nat \<Rightarrow> (nat \<Rightarrow> layer_clock) \<Rightarrow> u32 \<Rightarrow> nat \<Rightarrow> bool" where
  "due_by layers n T D c t B \<longleftrightarrow> (\<exists>i < n. fst (c i) = RUNNING \<and> snd (snd (c i)) \<le> t \<and> unat t < unat (snd (snd (c i))) + T
     \<and> unat (snd (snd (c i))) + todo layers n c * (T + D) \<le> B)"

lemma due_byI:
  assumes "i < n" and "fst (c i) = RUNNING" and "snd (snd (c i)) \<le> t \<and> unat t < unat (snd (snd (c i))) + T" and "unat (snd (snd (c i))) + x \<le> B"
    and "todo layers n c * (T + D) \<le> x"
  shows "due_by layers n T D c t B"
proof -
  have "unat (snd (snd (c i))) + todo layers n c * (T + D) \<le> B" using assms(4,5) by linarith
  then show ?thesis unfolding due_by_def using assms(1-3) by blast
qed

lemma first_due:
  assumes scene: "ending_scene layers n speed T" and ok: "\<forall>i < n. clock_ok (layers ! i) (c i)" and past: "started_by n c nowMs" and B: "unat nowMs + todo layers n c * (T + D) \<le> B"
    and going: "\<not> all_done layers n (moved layers n speed nowMs c)"
  shows "due_by layers n T D (moved layers n speed nowMs c) nowMs B"
proof -
  obtain j where j: "j < n" "fst (moved layers n speed nowMs c j) = RUNNING" using some_layer_runs [OF scene going] by blast
  note r = running_since [OF scene ok past j]
  have x: "todo layers n (moved layers n speed nowMs c) * (T + D) \<le> todo layers n c * (T + D)" using todo_le [OF scene ok] by (rule mult_le_mono1)
  have "unat (snd (snd (moved layers n speed nowMs c j))) \<le> unat nowMs" using r by (simp add: word_le_nat_alt)
  then have "unat (snd (snd (moved layers n speed nowMs c j))) + todo layers n c * (T + D) \<le> B" using B by linarith
  then show ?thesis using r by (intro due_byI [OF j _ _ x]) simp_all
qed

lemma still_due:
  assumes scene: "ending_scene layers n speed T" and ok: "\<forall>i < n. clock_ok (layers ! i) (c i)" and past: "started_by n c nowMs" and due: "due_by layers n T D c t B"
    and gap: "t \<le> nowMs" "unat nowMs \<le> unat t + D" and going: "\<not> all_done layers n (moved layers n speed nowMs c)"
  shows "due_by layers n T D (moved layers n speed nowMs c) nowMs B"
proof -
  let ?m = "moved layers n speed nowMs c"
  obtain i where i: "i < n" "fst (c i) = RUNNING" "snd (snd (c i)) \<le> t" "unat t < unat (snd (snd (c i))) + T"
    "unat (snd (snd (c i))) + todo layers n c * (T + D) \<le> B" using due unfolding due_by_def by blast
  show ?thesis
  proof (cases "advance_clock (layers ! i) speed nowMs (c i) = c i")
    case True
    have m: "?m i = c i" unfolding moved_def Let_def using i(1,2) True by (simp add: promote_clock_def)
    have x: "todo layers n ?m * (T + D) \<le> todo layers n c * (T + D)" using todo_le [OF scene ok] by (rule mult_le_mono1)
    have run: "fst (?m i) = RUNNING" using i(2) by (simp only: m)
    have since: "snd (snd (?m i)) \<le> nowMs \<and> unat nowMs < unat (snd (snd (?m i))) + T" using running_since [OF scene ok past i(1) run] by blast
    show ?thesis by (rule due_byI [OF i(1) run since _ x]) (simp only: m i(5))
  next
    case False
    have "todo layers n ?m + 1 \<le> todo layers n c" using todo_less [OF scene ok i(1) False] by simp
    then have "(todo layers n ?m + 1) * (T + D) \<le> todo layers n c * (T + D)" by (rule mult_le_mono1)
    moreover have "(todo layers n ?m + 1) * (T + D) = todo layers n ?m * (T + D) + (T + D)" by simp
    ultimately have B: "unat nowMs + todo layers n ?m * (T + D) \<le> B" using i(4,5) gap(2) by linarith
    obtain j where j: "j < n" "fst (?m j) = RUNNING" using some_layer_runs [OF scene going] by blast
    note r = running_since [OF scene ok past j]
    have "unat (snd (snd (?m j))) \<le> unat nowMs" using r by (simp add: word_le_nat_alt)
    then have "unat (snd (snd (?m j))) + todo layers n ?m * (T + D) \<le> B" using B by linarith
    then show ?thesis using r by (intro due_byI [where i = j and x = "todo layers n ?m * (T + D)"] j) simp_all
  qed
qed

lemma due_before: "\<forall>i < n. clock_ok (layers ! i) (c i) \<Longrightarrow> due_by layers n T D c t B \<Longrightarrow> unat t < B"
proof -
  assume ok: "\<forall>i < n. clock_ok (layers ! i) (c i)" and due: "due_by layers n T D c t B"
  obtain i where i: "i < n" "fst (c i) = RUNNING" "unat t < unat (snd (snd (c i))) + T"
    "unat (snd (snd (c i))) + todo layers n c * (T + D) \<le> B" using due unfolding due_by_def by blast
  have "0 < remaining (layers ! i) (c i)" using ok i(1,2) by (cases "c i") (auto simp: remaining_def clock_ok_def)
  then have "0 < todo layers n c" unfolding todo_def using i(1) by (intro sum_pos2 [of _ i]) simp_all
  then have "1 * (T + D) \<le> todo layers n c * (T + D)" by (intro mult_le_mono1) simp
  then have "T \<le> todo layers n c * (T + D)" unfolding nat_mult_1 by (rule add_leD1)
  then have "unat (snd (snd (c i))) + T \<le> B" by (intro order_trans [OF _ i(4)]) simp
  then show ?thesis using i(3) by simp
qed

text \<open>The specification of a tick in a scene that is played once.\<close>

lemma once_step: "ending_scene layers n speed T \<Longrightarrow> timeline_step layers n False speed nowMs c = (\<not> all_done layers n (moved layers n speed nowMs c), moved layers n speed nowMs c)"
proof -
  assume scene: "ending_scene layers n speed T"
  have "sync_of layers n \<noteq> []" using scene by (auto simp: ending_scene_def sync_of_def filter_empty_conv)
  moreover have "\<not> (\<exists>i < n. keeps_alive (layers ! i))" using scene by (auto simp: ending_scene_def keeps_alive_def)
  ultimately show ?thesis by (auto simp: timeline_step_def Let_def)
qed

section \<open>Ticks of the player\<close>

text \<open>Ticks that come in order, at most \<open>D\<close> ms apart, and before the clock is about to wrap.\<close>

fun paced :: "u32 \<Rightarrow> nat \<Rightarrow> u32 list \<Rightarrow> bool" where
  "paced t D [] = True"
| "paced t D (x # xs) = (t \<le> x \<and> unat x \<le> unat t + D \<and> clock_safe x \<and> paced x D xs)"

lemma idle_ticks: "\<not> sp_playing sp \<Longrightarrow> each (sp_tick m) ts sp = Some sp"
  by (induction ts) (simp_all add: sp_tick_def)

lemma started_mono: "started_by n c t \<Longrightarrow> t \<le> t' \<Longrightarrow> started_by n c t'"
  by (auto simp: started_by_def intro: order.trans)

lemma ends_from_due:
  assumes scene: "ending_scene layers n speed T"
  shows "\<lbrakk>sp_inv sp; sp_playing sp; \<not> sp_loop sp; sp_layers sp = layers; sp_lCount sp = n; sp_speed sp = speed;
      started_by n (clock_of sp) t; due_by layers n T D (clock_of sp) t B; paced t D ts; B \<le> unat (last (t # ts))\<rbrakk>
    \<Longrightarrow> returns (each (sp_tick m) ts sp) (\<lambda>sp'. \<not> sp_playing sp')"
proof (induction ts arbitrary: sp t)
  case Nil
  have "\<forall>i < n. clock_ok (layers ! i) (clock_of sp i)" using Nil.prems by (simp add: sp_inv_def)
  from due_before [OF this Nil.prems(8)] show ?case using Nil.prems(10) by simp
next
  case (Cons x xs)
  let ?c = "clock_of sp" and ?m = "moved layers n speed x (clock_of sp)"
  have ok: "\<forall>i < n. clock_ok (layers ! i) (?c i)" using Cons.prems by (simp add: sp_inv_def)
  have x: "t \<le> x" "unat x \<le> unat t + D" "clock_safe x" "paced x D xs" using Cons.prems(9) by simp_all
  have past: "started_by n ?c x" by (rule started_mono [OF Cons.prems(7) x(1)])
  obtain s where s: "sp_tick m x sp = Some s" "sp_inv s" "later sp (s\<lparr>sp_playing := True\<rparr>)"
    "(sp_playing s, clock_of s) = timeline_step layers n False speed x ?c"
    using tick_spec [OF Cons.prems(1,2) x(3), of m] Cons.prems(3-6) by (auto simp: returns_def)
  have p: "sp_playing s = (\<not> all_done layers n ?m)" "clock_of s = ?m" using s(4) by (simp_all add: once_step [OF scene])
  have f: "sp_layers s = layers" "sp_lCount s = n" "sp_speed s = speed" "\<not> sp_loop s" using later_fields [OF s(3)] Cons.prems(3-6) by simp_all
  show ?case
  proof (cases "sp_playing s")
    case True
    then have going: "\<not> all_done layers n ?m" using p by simp
    have "due_by layers n T D (clock_of s) x B" unfolding p(2) by (rule still_due [OF scene ok past Cons.prems(8) x(1,2) going])
    moreover have "started_by n (clock_of s) x" unfolding p(2) by (rule started_after [OF scene past ok])
    ultimately have "returns (each (sp_tick m) xs s) (\<lambda>sp'. \<not> sp_playing sp')"
      using Cons.IH [OF s(2) True f(4,1,2,3) _ _ x(4)] Cons.prems(10) by simp
    then show ?thesis by (simp add: s(1))
  qed (simp add: s(1) idle_ticks)
qed

end
