(* ===== verification/Scene_Properties.thy ===== *)
theory Scene_Properties
  imports
    Scene_Groups Scene_End
begin

text \<open>
  What the scene player promises: its tick is the tick of the timeline, finished layers are released, it never gets
  stuck, its layers keep to their own group ids, and a scene that is played once ends in time.
\<close>

section \<open>A small scene\<close>

definition demo_env :: scene_env where
  "demo_env = \<lparr>env_libm = quadrant_libm, env_resolve = (\<lambda>_. None), env_indices = [1, 2], env_edgeCounts = [3, 3],
     env_links = [\<lparr>panelA = 1, edgeA = 1, panelB = 2, edgeB = 0\<rparr>]\<rparr>"

definition demo_step :: "u8 \<Rightarrow> u16 \<Rightarrow> SceneStep" where
  "demo_step t d = \<lparr>ss_animType = t, ss_flags = 0, ss_durationMs = d, ss_colorFrom = ColorRef_rgb 0 0 0, ss_colorTo = ColorRef_rgb 9 9 9,
     ss_params = [3, 0, 0, 0, 0, 2], ss_speedMs = 0, ss_animates = TARGET_COLOR, ss_valueFrom = 0, ss_valueTo = 0\<rparr>"

definition demo_layer :: "u8 \<Rightarrow> u8 \<Rightarrow> SceneStep list \<Rightarrow> SceneLayer" where
  "demo_layer g after steps = \<lparr>ly_groupId = g, ly_startAfterGroupId = after, ly_startAfterStepIndex = SCENE_NO_STEP_INDEX, ly_async = 0,
     ly_stepCount = length steps, ly_blend = COMPOSE_DEFAULT, ly_disabled = False, ly_groupName = [], ly_palette = [],
     ly_target = \<lparr>sel_ops = [], sel_len = 0\<rparr>, ly_steps = steps\<rparr>"

definition demo_geometry :: PanelGeometry where
  "demo_geometry = \<lparr>pgeo_graph = blank_graph, pgeo_n = 0, pgeo_ec = [], pgeo_parent = [], pgeo_parentMyEdge = [], pgeo_parentPeerEdge = [],
     pgeo_bfsOrder = [], pgeo_rotDeg = [], pgeo_refLocal = [], pgeo_refWorld = [], pgeo_centroid = []\<rparr>"

definition demo_scene_player :: ScenePlayer where
  "demo_scene_player = sp_init sch_init \<lparr>st_graph = blank_graph, st_topo = blank_index, st_logicalRoot = 1\<rparr> demo_geometry [] []"

definition demo_load :: "SceneLayer list \<Rightarrow> ScenePlayer option" where
  "demo_load layers = loadAndPlay demo_env layers (length layers) False None (replicate 3 (rgb 1 2 3)) 0 1 (rgb 0 0 0) demo_scene_player"

lemma demo_env_ok: "env_ok demo_env"
proof -
  have "link_ends [1, 2] \<lparr>panelA = 1, edgeA = 1, panelB = 2, edgeB = 0\<rparr> 0 1" by (simp add: link_ends_def)
  then show ?thesis
    by (auto simp: env_ok_def demo_env_def tree_shape_def links_ok_def MAXN_def LIGHTNET_MAX_PANELS_def fan_out_def)
qed

lemma demo_caps: "st_caps \<lparr>st_graph = blank_graph, st_topo = blank_index, st_logicalRoot = 1\<rparr>"
  using pair_graph_facts(5) by (simp add: st_caps_def pg_caps_def blank_graph_def)

lemma demo_inv: "sp_inv demo_scene_player"
  unfolding demo_scene_player_def by (rule init_inv [OF demo_caps])

lemma clamp_one [simp]: "clamp_speed 1 = 1"
proof -
  have "SPEED_MIN \<le> 1" "1 \<le> SPEED_MAX" using fl_mono [of "1 / 10" 1] by (simp_all add: SPEED_MIN_def SPEED_MAX_def)
  then show ?thesis by (simp add: clamp_speed_def)
qed

lemma load_spec:
  assumes e: "env_ok env" and inv: "sp_inv sp" and n: "n \<le> SCENE_MAX_LAYERS" "n \<le> length layers"
  obtains s where "loadAndPlay env layers n lp pal cols nowMs speed bg sp = Some s" "sp_inv s" "sp_playing s" "sp_loop s = lp"
    "sp_speed s = clamp_speed speed" "take n (sp_layers s) = take n layers" "sp_lCount s = n"
    "\<And>i. i < n \<Longrightarrow> sp_layer s i = layers ! i" "\<And>i. i < n \<Longrightarrow> clock_of s i = arm_clock (layers ! i) nowMs"
    "\<And>i. i < n \<Longrightarrow> lss_pool (sp_spawn s i) = lss_pool (pool_state (take n layers) i)"
proof -
  let ?sp = "sp\<lparr>sp_lCount := n, sp_layers := take n layers @ drop n (sp_layers sp)\<rparr>"
  have "frame_ok ?sp" using inv_frame [OF inv] by (simp add: frame_ok_def)
  from armScene_returns [OF e this, of lp pal cols nowMs speed bg]
  obtain s where s: "armScene env lp pal cols nowMs speed bg ?sp = Some s" "sp_inv s" "sp_playing s" "sp_loop s = lp"
      "sp_speed s = clamp_speed speed" "sp_layers s = take n layers @ drop n (sp_layers sp)" "sp_lCount s = n"
      "\<forall>i < n. clock_of s i = arm_clock (sp_layer ?sp i) nowMs"
      "\<forall>i < SCENE_MAX_LAYERS. lss_pool (sp_spawn s i) = lss_pool (pools_of (take n layers) ! i)"
    using n by (auto simp: returns_def)
  have load: "loadAndPlay env layers n lp pal cols nowMs speed bg sp = Some s"
    using s(1) n(1) by (simp add: loadAndPlay_def Let_def)
  show thesis
    by (rule that [OF load s(2-5) _ s(7)]) (use n s(6,8,9) in \<open>simp_all add: nth_append pools_of_nth\<close>)
qed

lemma demo_loaded:
  assumes "length layers \<le> SCENE_MAX_LAYERS"
  obtains s where "demo_load layers = Some s" "sp_inv s" "sp_playing s" "\<not> sp_loop s" "sp_speed s = 1"
    "take (length layers) (sp_layers s) = layers" "sp_lCount s = length layers" "\<And>i. i < length layers \<Longrightarrow> sp_layer s i = layers ! i"
    "\<And>i. i < length layers \<Longrightarrow> clock_of s i = arm_clock (layers ! i) 0"
  by (rule load_spec [OF demo_env_ok demo_inv assms order_refl, of False None "replicate 3 (rgb 1 2 3)" 0 1 "rgb 0 0 0"])
    (simp add: demo_load_def)

section \<open>The tick follows the timeline\<close>

text \<open>
  C28. The tick of a playing scene is one step of its timeline, for every layer at once: a running layer whose step is over
  moves to its next step, wraps if it is an async layer, or is done; then every waiting layer whose dependency has
  happened starts; then, once all synchronous layers are done, they restart together or the scene ends unless
  a blocking async layer keeps it alive. The loops of the code over the layers, which fire steps and send packets as
  they go, have no other effect on the timeline, and neither the layers nor the speed change.
\<close>

theorem tick_timeline:
  assumes "sp_inv sp" and "sp_playing sp" and "clock_safe nowMs"
  shows "\<exists>sp'. sp_tick m nowMs sp = Some sp'
    \<and> (sp_playing sp', clock_of sp') = timeline_step (sp_layers sp) (sp_lCount sp) (sp_loop sp) (sp_speed sp) nowMs (clock_of sp)
    \<and> sp_layers sp' = sp_layers sp \<and> sp_lCount sp' = sp_lCount sp \<and> sp_speed sp' = sp_speed sp \<and> sp_inv sp'"
proof -
  obtain sp' where s: "sp_tick m nowMs sp = Some sp'" "sp_inv sp'" "later sp (sp'\<lparr>sp_playing := True\<rparr>)"
    "(sp_playing sp', clock_of sp') = timeline_step (sp_layers sp) (sp_lCount sp) (sp_loop sp) (sp_speed sp) nowMs (clock_of sp)"
    using tick_spec [OF assms, of m] by (auto simp: returns_def)
  then show ?thesis using later_fields [OF s(3)] by simp
qed

lemma tick_timeline_witness:
  "\<exists>s s'. demo_load [demo_layer 1 0 [demo_step ANIM_FADE 1000], demo_layer 2 1 [demo_step ANIM_FADE 500]] = Some s
    \<and> sp_tick quadrant_libm 1000 s = Some s' \<and> sp_playing s' \<and> clock_of s' 0 = (DONE, 0, 0) \<and> clock_of s' 1 = (RUNNING, 0, 1000)"
proof -
  let ?ls = "[demo_layer 1 0 [demo_step ANIM_FADE 1000], demo_layer 2 1 [demo_step ANIM_FADE 500]]"
  have "length ?ls \<le> SCENE_MAX_LAYERS" by (simp add: SCENE_MAX_LAYERS_def)
  then obtain s where s: "demo_load ?ls = Some s" "sp_inv s" "sp_playing s" "\<not> sp_loop s" "sp_speed s = 1" "sp_lCount s = 2"
      "sp_layer s 0 = ?ls ! 0" "sp_layer s 1 = ?ls ! 1" "clock_of s 0 = (RUNNING, 0, 0)" "clock_of s 1 = (WAITING, 0, 0)"
    by (rule demo_loaded) (simp add: arm_clock_def demo_layer_def)
  have "clock_safe 1000" by (simp add: clock_safe_def)
  from tick_timeline [OF s(2,3) this, of quadrant_libm] obtain s' where s': "sp_tick quadrant_libm 1000 s = Some s'"
    "(sp_playing s', clock_of s') = timeline_step (sp_layers s) 2 False 1 1000 (clock_of s)" using s(4-6) by auto
  let ?m = "moved (sp_layers s) 2 1 1000 (clock_of s)"
  have owner: "owner_of (sp_layers s) 2 1 = Some 0" using s(7) by (simp add: owner_of_def upt_rec demo_layer_def)
  have m: "?m 0 = (DONE, 0, 0)" "?m 1 = (RUNNING, 0, 1000)"
    using s(7-10) owner by (simp_all add: moved_def Let_def promote_clock_def gate_open_def advance_clock_def demo_layer_def demo_step_def scaled_ms_def isAsyncLayer_def)
  have sync: "sync_of (sp_layers s) 2 = [0, 1]" using s(7,8) by (simp add: sync_of_def upt_rec demo_layer_def isAsyncLayer_def)
  then have "timeline_step (sp_layers s) 2 False 1 1000 (clock_of s) = (True, ?m)" using m by (simp add: timeline_step_def Let_def all_done_def)
  then show ?thesis using s(1) s' m by auto
qed

section \<open>Finished layers are released\<close>



section \<open>The player never gets stuck\<close>

text \<open>
  C30. Loading, ticking, stopping, resuming, re-rooting and changing speed or palettes, in any order and with any scene:
  every call returns and the state stays well-formed (a running layer is at one of its steps, no STOP is owed between two
  calls, the speed lies between 0.1 and 10, and while a scene plays its topology is a connected rooted tree), as long as
  the panels form a tree and ticks come before the last 65 s of the 32-bit clock.
\<close>

theorem player_always_returns:
  assumes "env_ok env" and "st_caps topo" and "list_all op_in_time ops"
  shows "\<exists>sp. scene_run env ops (sp_init sch topo geo layers palettes) = Some sp \<and> sp_inv sp"
  using scene_run_returns [OF assms(1,3) init_inv [OF assms(2)]] by (simp add: returns_def)

lemma player_always_returns_witness:
  "\<exists>sp. scene_run demo_env
     [Op_Load [demo_layer 1 0 [demo_step RUN_BOUNCE 1000, demo_step RUN_WAVE 500]] 1 True None (replicate 3 (rgb 1 2 3)) 0 2 (rgb 0 0 0),
      Op_Tick 300, Op_SetRoot 2 400, Op_Tick 1400, Op_Stop, Op_Resume 1500] demo_scene_player = Some sp \<and> sp_inv sp"
  unfolding demo_scene_player_def
  by (rule player_always_returns [OF demo_env_ok demo_caps]) (simp add: op_in_time_def clock_safe_def)

section \<open>Layers keep to their own group ids\<close>

lemma ticks_keep:
  "sp_inv sp \<Longrightarrow> list_all clock_safe ts \<Longrightarrow> returns (each (sp_tick m) ts sp) (\<lambda>sp'. layer_groups sp' = layer_groups sp \<and> sp_lCount sp' = sp_lCount sp
     \<and> (\<exists>cs. sp_sent sp' = sp_sent sp @ cs \<and> list_all (of_some_layer sp) cs))"
proof (induction ts arbitrary: sp)
  case (Cons x xs)
  show ?case
  proof (cases "sp_playing sp")
    case True
    obtain s where s: "sp_tick m x sp = Some s" "sp_inv s" "later sp (s\<lparr>sp_playing := True\<rparr>)"
      using tick_spec [OF Cons.prems(1) True, of x m] Cons.prems(2) by (auto simp: returns_def)
    have g: "layer_groups s = layer_groups sp"
      using later_groups [OF s(3)] by (auto simp: layer_groups_def fun_eq_iff)
    have n: "sp_lCount s = sp_lCount sp" using later_fields [OF s(3)] by simp
    obtain cs where cs: "sp_sent s = sp_sent sp @ cs" "list_all (of_some_layer sp) cs" using s(3) by (auto simp: later_def)
    obtain s' where s': "each (sp_tick m) xs s = Some s'" "layer_groups s' = layer_groups s" "sp_lCount s' = sp_lCount s"
        "\<exists>ds. sp_sent s' = sp_sent s @ ds \<and> list_all (of_some_layer s) ds"
      using Cons.IH [OF s(2)] Cons.prems(2) by (auto simp: returns_def)
    from s'(4) obtain ds where ds: "sp_sent s' = sp_sent s @ ds" "list_all (of_some_layer s) ds" by blast
    have "of_some_layer s = of_some_layer sp" by (rule ext) (simp add: of_some_layer_def g n)
    then have "sp_sent s' = sp_sent sp @ (cs @ ds)" "list_all (of_some_layer sp) (cs @ ds)" using cs ds by simp_all
    then show ?thesis using s(1) s'(1-3) g n by (simp add: returns_def)
  qed (simp add: idle_ticks del: each.simps)
qed simp

text \<open>
  C31. A scene whose layers have different group ids, with room for the pools of its spawners below 255: from loading to the
  end of any sequence of ticks, two layers have no group id in common except the unused id 0, and every packet sent is
  for the ids of a layer. So no layer stops, restarts or overwrites another layer's slots on the panels.
\<close>

theorem layers_keep_apart:
  assumes "env_ok env" and "sp_inv sp" and "n \<le> SCENE_MAX_LAYERS" and "n \<le> length layers"
    and "distinct (map ly_groupId (take n layers))" and "0 < snd (pool_plan (take n layers))" and "list_all clock_safe ts"
  shows "\<exists>s s'. loadAndPlay env layers n lp pal cols nowMs speed bg sp = Some s \<and> each (sp_tick m) ts s = Some s'
    \<and> (\<forall>j < n. \<forall>i < j. layer_groups s' i \<inter> layer_groups s' j \<subseteq> {0})
    \<and> (\<exists>cs. sp_sent s' = sp_sent s @ cs \<and> list_all (of_some_layer s') cs)"
proof -
  obtain s where s: "loadAndPlay env layers n lp pal cols nowMs speed bg sp = Some s" "sp_inv s" "sp_lCount s = n"
      "\<And>i. i < n \<Longrightarrow> sp_layer s i = layers ! i" "\<And>i. i < n \<Longrightarrow> lss_pool (sp_spawn s i) = lss_pool (pool_state (take n layers) i)"
    by (rule load_spec [OF assms(1-4), of lp pal cols nowMs speed bg]) blast
  obtain s' cs where s': "each (sp_tick m) ts s = Some s'" "layer_groups s' = layer_groups s" "sp_lCount s' = sp_lCount s"
      "sp_sent s' = sp_sent s @ cs" "list_all (of_some_layer s) cs"
    using ticks_keep [OF s(2) assms(7), of m] by (auto simp: returns_def)
  obtain start per where plan: "pool_plan (take n layers) = (start, per)" "0 < per" using assms(6) by (metis prod.collapse)
  have "layer_groups s' i \<inter> layer_groups s' j \<subseteq> {0}" if "i < j" "j < n" for i j
    unfolding s'(2) layer_groups_def using groups_apart [OF plan assms(5), of i j] s(4,5) that assms(4) by simp
  moreover have "of_some_layer s' = of_some_layer s" using s'(2,3) by (simp add: of_some_layer_def fun_eq_iff)
  ultimately show ?thesis using s(1) s'(1,4,5) by auto
qed

lemma layers_keep_apart_witness:
  "\<exists>s s'. demo_load [demo_layer 1 0 [demo_step RUN_WAVE 1000], demo_layer 2 0 [demo_step RUN_RAIN 500]] = Some s
    \<and> each (sp_tick quadrant_libm) [100, 200] s = Some s' \<and> layer_groups s' 0 \<inter> layer_groups s' 1 \<subseteq> {0}"
proof -
  let ?ls = "[demo_layer 1 0 [demo_step RUN_WAVE 1000], demo_layer 2 0 [demo_step RUN_RAIN 500]]"
  have plan: "0 < snd (pool_plan (take 2 ?ls))"
    by (simp add: pool_plan_def Let_def demo_layer_def demo_step_def layerIsSpawner_def steps_of_def isSpawnRunner_def isDropRunner_def
        isSweepRunner_def run_types SPAWN_POOL_MAX_def div_greater_zero_iff)
  have "2 \<le> SCENE_MAX_LAYERS" "2 \<le> length ?ls" "distinct (map ly_groupId (take 2 ?ls))" "list_all clock_safe [100, 200]"
    by (simp_all add: SCENE_MAX_LAYERS_def demo_layer_def clock_safe_def)
  from layers_keep_apart [OF demo_env_ok demo_inv this(1-3) plan this(4), of False None "replicate 3 (rgb 1 2 3)" 0 1 "rgb 0 0 0" quadrant_libm]
  obtain s s' where "loadAndPlay demo_env ?ls 2 False None (replicate 3 (rgb 1 2 3)) 0 1 (rgb 0 0 0) demo_scene_player = Some s"
      "each (sp_tick quadrant_libm) [100, 200] s = Some s'"
      and apart: "\<forall>j < 2. \<forall>i < j. layer_groups s' i \<inter> layer_groups s' j \<subseteq> {0}" by blast
  moreover have "demo_load ?ls = loadAndPlay demo_env ?ls 2 False None (replicate 3 (rgb 1 2 3)) 0 1 (rgb 0 0 0) demo_scene_player"
    by (simp add: demo_load_def numeral_2_eq_2)
  moreover have "layer_groups s' 0 \<inter> layer_groups s' 1 \<subseteq> {0}" using apart [rule_format, of 1 0] by simp
  ultimately show ?thesis by auto
qed

section \<open>A scene that is played once ends\<close>

text \<open>
  C40. A scene without async layers, whose steps last at most \<open>T\<close> ms at its speed and whose layers do not wait for each other in
  a circle, is over by the time the ticks, at most \<open>D\<close> ms apart, reach \<open>D + steps * (T + D)\<close> ms after its start, where
  \<open>steps\<close> is the number of steps still to play.
\<close>

theorem scene_ends:
  assumes "sp_inv sp" and "sp_playing sp" and "\<not> sp_loop sp" and scene: "ending_scene (sp_layers sp) (sp_lCount sp) (sp_speed sp) T"
    and start: "started_by (sp_lCount sp) (clock_of sp) t" and ticks: "paced t D ts" "ts \<noteq> []"
    and late: "unat t + D + todo (sp_layers sp) (sp_lCount sp) (clock_of sp) * (T + D) \<le> unat (last ts)"
  shows "\<exists>sp'. each (sp_tick m) ts sp = Some sp' \<and> \<not> sp_playing sp'"
proof -
  let ?ls = "sp_layers sp" and ?n = "sp_lCount sp" and ?c = "clock_of sp"
  obtain x xs where ts: "ts = x # xs" using ticks(2) by (cases ts) simp_all
  have x: "t \<le> x" "unat x \<le> unat t + D" "clock_safe x" "paced x D xs" using ticks(1) ts by simp_all
  have ok: "\<forall>i < ?n. clock_ok (?ls ! i) (?c i)" using assms(1,2) by (simp add: sp_inv_def)
  have past: "started_by ?n ?c x" by (rule started_mono [OF start x(1)])
  let ?m = "moved ?ls ?n (sp_speed sp) x ?c" and ?B = "unat t + D + todo ?ls ?n ?c * (T + D)"
  obtain s where s: "sp_tick m x sp = Some s" "sp_inv s" "later sp (s\<lparr>sp_playing := True\<rparr>)"
    "(sp_playing s, clock_of s) = timeline_step ?ls ?n False (sp_speed sp) x ?c"
    using tick_spec [OF assms(1,2) x(3), of m] assms(3) by (auto simp: returns_def)
  have p: "sp_playing s = (\<not> all_done ?ls ?n ?m)" "clock_of s = ?m" using s(4) by (simp_all add: once_step [OF scene])
  have f: "sp_layers s = ?ls" "sp_lCount s = ?n" "sp_speed s = sp_speed sp" "\<not> sp_loop s" using later_fields [OF s(3)] assms(3) by simp_all
  have "returns (each (sp_tick m) xs s) (\<lambda>sp'. \<not> sp_playing sp')"
  proof (cases "sp_playing s")
    case True
    have "due_by ?ls ?n T D (clock_of s) x ?B"
      unfolding p(2) by (rule first_due [OF scene ok past]) (use x(2) True p(1) in simp_all)
    moreover have "started_by ?n (clock_of s) x" unfolding p(2) by (rule started_after [OF scene past ok])
    ultimately show ?thesis using ends_from_due [OF scene s(2) True f(4,1,2,3) _ _ x(4), of ?B m] late ts by simp
  qed (simp add: idle_ticks)
  then show ?thesis by (simp add: ts s(1) returns_def)
qed

lemma scene_ends_witness:
  "\<exists>s s'. demo_load [demo_layer 1 0 [demo_step ANIM_FADE 1000], demo_layer 2 1 [demo_step ANIM_FADE 500]] = Some s
    \<and> each (sp_tick quadrant_libm) (map (\<lambda>k. of_nat (500 * k)) [1..<8]) s = Some s' \<and> \<not> sp_playing s'"
proof -
  let ?ls = "[demo_layer 1 0 [demo_step ANIM_FADE 1000], demo_layer 2 1 [demo_step ANIM_FADE 500]]"
  have "length ?ls \<le> SCENE_MAX_LAYERS" by (simp add: SCENE_MAX_LAYERS_def)
  then obtain s where s: "demo_load ?ls = Some s" "sp_inv s" "sp_playing s" "\<not> sp_loop s" "sp_speed s = 1" "sp_lCount s = 2"
      "sp_layer s 0 = ?ls ! 0" "sp_layer s 1 = ?ls ! 1" "clock_of s 0 = (RUNNING, 0, 0)" "clock_of s 1 = (WAITING, 0, 0)"
    by (rule demo_loaded) (simp add: arm_clock_def demo_layer_def)
  have two: "(\<forall>i < 2. P i) \<longleftrightarrow> P 0 \<and> P 1" "(\<exists>i < 2. P i) \<longleftrightarrow> P 0 \<or> P 1" for P :: "nat \<Rightarrow> bool"
    by (auto simp: less_Suc_eq numeral_2_eq_2)
  have owner: "owner_of (sp_layers s) 2 0 = None" "owner_of (sp_layers s) 2 1 = Some 0" using s(7,8) by (simp_all add: owner_of_def upt_rec demo_layer_def)
  have "ending_scene (sp_layers s) 2 1 1000"
    unfolding ending_scene_def two using s(7,8) owner
    by (auto simp: demo_layer_def demo_step_def isAsyncLayer_def scaled_ms_def intro: exI [of _ id])
  moreover have "started_by 2 (clock_of s) 0" unfolding started_by_def two using s(9,10) by simp
  moreover have "todo (sp_layers s) 2 (clock_of s) = 2"
    using s(7-10) by (simp add: todo_def numeral_2_eq_2 remaining_def demo_layer_def)
  ultimately have "\<exists>s'. each (sp_tick quadrant_libm) (map (\<lambda>k. of_nat (500 * k)) [1..<8]) s = Some s' \<and> \<not> sp_playing s'"
    using s(2-6) by (intro scene_ends [where T = 1000 and D = 500 and t = 0]) (simp_all add: upt_rec clock_safe_def word_le_nat_alt)
  then show ?thesis using s(1) by blast
qed

section \<open>Two corners\<close>

text \<open>
  The loop over the turns of a bouncing step compares times without regard to the wrap of the clock. At the last tick
  before the wrap every turn is due, and when the next turn is at an odd time and a leg takes an even number of ms it
  never ends.
\<close>

lemma bounce_never_ends:
  assumes t: "topo_ready (topo_of sp)" and i: "i < length (sp_spawnState sp)" and odd: "odd (lss_bounceNextFlipAtMs (sp_spawn sp i))"
    and even: "even (ucast (lss_bouncePassDur (sp_spawn sp i)) :: u32)" and nz: "lss_bouncePassDur (sp_spawn sp i) \<noteq> 0"
  shows "bounce_legs m i 0xFFFFFFFF sp = None"
proof -
  let ?b = "\<lambda>s. case s of None \<Rightarrow> False | Some sp \<Rightarrow> bounce_due i 0xFFFFFFFF sp" and ?c = "\<lambda>s. Option.bind s (bounce_leg m i)"
  let ?d = "lss_bouncePassDur (sp_spawn sp i)"
  let ?P = "\<lambda>s. \<exists>q. s = Some q \<and> topo_ready (topo_of q) \<and> i < length (sp_spawnState q) \<and> odd (lss_bounceNextFlipAtMs (sp_spawn q i))
    \<and> lss_bouncePassDur (sp_spawn q i) = ?d"
  have top: "x \<le> 0xFFFFFFFF" for x :: u32 using unat_u32_less [of x] by (simp add: word_le_nat_alt)
  have due: "bounce_due i 0xFFFFFFFF q" if "odd (lss_bounceNextFlipAtMs (sp_spawn q i))" for q
    using that top by (auto simp: bounce_due_def)
  have step: "?P (?c s)" if P: "?P s" and b: "?b s" for s
  proof -
    from P obtain q where q: "s = Some q" "topo_ready (topo_of q)" "i < length (sp_spawnState q)" "odd (lss_bounceNextFlipAtMs (sp_spawn q i))"
      "lss_bouncePassDur (sp_spawn q i) = ?d" by blast
    have "bounce_ok (sp_spawn q i)" using q(5) nz by (simp add: bounce_ok_def)
    from bounce_leg_returns [OF q(2,3) due [OF q(4)] this, of m]
    obtain q' where q': "bounce_leg m i q = Some q'" "acts i q q'" "lss_bouncePassDur (sp_spawn q' i) = ?d"
      "lss_bounceNextFlipAtMs (sp_spawn q' i) = lss_bounceNextFlipAtMs (sp_spawn q i) + ucast ?d" by (auto simp: returns_def q(5))
    have "plan q' = plan q" "length (sp_spawnState q') = length (sp_spawnState q)" using q'(2) by (simp_all add: acts_def)
    then have "topo_ready (topo_of q')" "i < length (sp_spawnState q')" using plan_fields(10) [of q' q] q(2,3) by simp_all
    then show ?thesis using q(1,4) q' even by simp
  qed
  have start: "?P (Some sp)" using assms by blast
  have "while_option ?b ?c (Some sp) = None"
  proof (rule ccontr)
    assume "while_option ?b ?c (Some sp) \<noteq> None"
    then obtain e where e: "while_option ?b ?c (Some sp) = Some e" by blast
    have "?P e" by (rule while_option_rule [where P = ?P, OF step e start])
    then have "?b e" using due by auto
    then show False using while_option_stop [OF e] by simp
  qed
  then show ?thesis by (simp add: bounce_legs_def)
qed

text \<open>
  A wheel that turns once is stopped after the time of a revolution, but that time is scaled by the speed twice: at double
  speed a revolution of 1000 ms takes 500 ms, and the STOP comes after 250.
\<close>

lemma wheel_stops_early: "effective_ms 1000 2 = 500" "scaled_ms (effective_ms 1000 2) 2 = 250"
proof -
  have f: "fl 500 = 500" "fl 250 = 250" by (simp_all add: fl_numeral)
  then show "effective_ms 1000 2 = 500" by (simp add: effective_ms_def of_u_def to_u32_def trunc_def Let_def)
  then show "scaled_ms (effective_ms 1000 2) 2 = 250" using f by (simp add: scaled_ms_def of_u_def to_u32_def trunc_def)
qed

end
