(* ===== verification/Json_Reader.thy ===== *)
theory Json_Reader
  imports
    Lightnet_Prelude Binary32 "HOL-Library.Sublist"
begin

text \<open>
  The JSON reader (\<open>Utils/SimpleJson.hpp\<close>). A cursor \<open>p\<close> into a buffer that ends at \<open>end\<close> is the text between the two; a
  function that moves the cursor returns the text that is left. A \<open>char\<close> array that is filled and then used as a C
  string is the string up to its first zero. Skipping a value may read the byte at \<open>end\<close>; that byte is the argument
  \<open>z\<close>. A loop that does not end is \<open>None\<close> of the outer option of \<open>json_skip\<close>.
\<close>

section \<open>Characters\<close>

abbreviation NUL :: char where "NUL \<equiv> CHR 0x00"
abbreviation QUOTE :: char where "QUOTE \<equiv> CHR 0x22"
abbreviation BACKSLASH :: char where "BACKSLASH \<equiv> CHR 0x5C"

definition json_ws :: "char \<Rightarrow> bool" where
  "json_ws c \<longleftrightarrow> c = CHR '' '' \<or> c = CHR 0x09 \<or> c = CHR 0x0A \<or> c = CHR 0x0D"

definition is_digit :: "char \<Rightarrow> bool" where
  "is_digit c \<longleftrightarrow> 48 \<le> (of_char c :: nat) \<and> (of_char c :: nat) \<le> 57"

definition digit_val :: "char \<Rightarrow> nat" where
  "digit_val c = of_char c - 48"

text \<open>A \<open>char\<close> array as a C string.\<close>

definition cstr :: "string \<Rightarrow> string" where
  "cstr s = takeWhile (\<lambda>c. c \<noteq> NUL) s"

section \<open>Free helpers\<close>

text \<open>The loop of \<open>jsonSkipQuotedString\<close> behind the opening quote.\<close>

fun quoted_tail :: "string \<Rightarrow> string" where
  "quoted_tail [] = []"
| "quoted_tail (c # cs) =
     (if c = QUOTE then cs
      else if c = BACKSLASH \<and> cs \<noteq> [] then quoted_tail (tl cs)
      else quoted_tail cs)"

lemma quoted_tail_suffix: "suffix (quoted_tail cs) cs"
proof (induction cs rule: quoted_tail.induct)
  case (2 c cs)
  have "suffix (quoted_tail (tl cs)) cs" if "c \<noteq> QUOTE" "c = BACKSLASH \<and> cs \<noteq> []"
    using 2(1) [OF that] suffix_tl suffix_order.trans by blast
  then show ?case using 2(2) by (auto intro: suffix_ConsI)
qed simp

definition jsonSkipQuotedString :: "string \<Rightarrow> string" where
  "jsonSkipQuotedString bs = (case bs of c # cs \<Rightarrow> if c = QUOTE then quoted_tail cs else bs | [] \<Rightarrow> [])"

definition jsonSkipWs :: "string \<Rightarrow> string" where
  "jsonSkipWs bs = dropWhile json_ws bs"

text \<open>The value behind a key at the cursor, when the quoted string there is that key.\<close>

definition key_here :: "string \<Rightarrow> string \<Rightarrow> string option" where
  "key_here key cs =
     (if length key < length cs \<and> take (length key) cs = key \<and> cs ! length key = QUOTE
      then (case jsonSkipWs (drop (length key + 1) cs) of
              c # q \<Rightarrow> if c = CHR '':'' then Some (jsonSkipWs q) else None
            | [] \<Rightarrow> None)
      else None)"

function find_key :: "string \<Rightarrow> int \<Rightarrow> string \<Rightarrow> string option" where
  "find_key key depth [] = None"
| "find_key key depth (c # cs) =
     (if c = CHR ''{'' \<or> c = CHR ''['' then find_key key (depth + 1) cs
      else if c = CHR ''}'' \<or> c = CHR '']'' then find_key key (depth - 1) cs
      else if depth \<noteq> 0 \<or> c \<noteq> QUOTE then find_key key depth cs
      else (case key_here key cs of
              Some q \<Rightarrow> Some q
            | None \<Rightarrow> find_key key depth (quoted_tail cs)))"
  by pat_completeness auto
termination
  using quoted_tail_suffix by (relation "measure (\<lambda>(_, _, bs). length bs)") (auto simp: suffix_length_le le_imp_less_Suc)

definition jsonFindKey :: "string \<Rightarrow> string \<Rightarrow> string option" where
  "jsonFindKey body key =
     (let bs = jsonSkipWs body
      in find_key key 0 (case bs of c # cs \<Rightarrow> if c = CHR ''{'' then cs else bs | [] \<Rightarrow> []))"

text \<open>The digit loop that the three integer readers share: the value, or nothing once it passes 65535.\<close>

fun uint_digits :: "nat \<Rightarrow> string \<Rightarrow> (nat \<times> string) option" where
  "uint_digits v [] = Some (v, [])"
| "uint_digits v (c # cs) =
     (if is_digit c
      then (let v = v * 10 + digit_val c in if 65535 < v then None else uint_digits v cs)
      else Some (v, c # cs))"

definition jsonParseUInt :: "string option \<Rightarrow> int" where
  "jsonParseUInt p =
     (case p of
        Some (c # cs) \<Rightarrow> if is_digit c then (case uint_digits 0 (c # cs) of Some (v, _) \<Rightarrow> int v | None \<Rightarrow> -1) else -1
      | _ \<Rightarrow> -1)"

definition jsonHexVal :: "char \<Rightarrow> int" where
  "jsonHexVal c =
     (let x = of_char c :: int
      in if 48 \<le> x \<and> x \<le> 57 then x - 48
         else if 97 \<le> x \<and> x \<le> 102 then x - 97 + 10
         else if 65 \<le> x \<and> x \<le> 70 then x - 65 + 10
         else -1)"

text \<open>The four digits behind \<open>\u\<close>, as the \<open>uint16_t\<close> of the code.\<close>

definition hex_code :: "string \<Rightarrow> u16 option" where
  "hex_code ds =
     (if list_ex (\<lambda>c. jsonHexVal c < 0) ds then None
      else Some (fold (\<lambda>c code. push_bit 4 code OR word_of_int (jsonHexVal c)) ds 0))"

definition jsonDecodeEscapedChar :: "string \<Rightarrow> char option \<times> string" where
  "jsonDecodeEscapedChar bs =
     (case bs of
        [] \<Rightarrow> (None, [])
      | esc # p \<Rightarrow>
          if esc = QUOTE then (Some QUOTE, p)
          else if esc = BACKSLASH then (Some BACKSLASH, p)
          else if esc = CHR ''/'' then (Some (CHR ''/''), p)
          else if esc = CHR ''b'' then (Some (CHR 0x08), p)
          else if esc = CHR ''f'' then (Some (CHR 0x0C), p)
          else if esc = CHR ''n'' then (Some (CHR 0x0A), p)
          else if esc = CHR ''r'' then (Some (CHR 0x0D), p)
          else if esc = CHR ''t'' then (Some (CHR 0x09), p)
          else if esc = CHR ''u'' then
            (if length p < 4 then (None, p)
             else (case hex_code (take 4 p) of
                     None \<Rightarrow> (None, p)
                   | Some code \<Rightarrow>
                       if 0x7F < code then (None, drop 4 p)
                       else (Some (char_of (unat code)), drop 4 p)))
          else (None, p))"

lemma decode_suffix: "suffix (snd (jsonDecodeEscapedChar bs)) bs"
  by (auto simp: jsonDecodeEscapedChar_def suffix_drop suffix_ConsI split: list.split option.split)

text \<open>
  The character loop of the two string readers, behind the opening quote: what \<open>put\<close> makes of the characters, until the
  closing quote.
\<close>

function string_loop :: "(char \<Rightarrow> string \<Rightarrow> string option) \<Rightarrow> string \<Rightarrow> string \<Rightarrow> string option \<times> string" where
  "string_loop put out [] = (None, [])"
| "string_loop put out (c # cs) =
     (if c = QUOTE then (Some out, cs)
      else
        (let (ch, rest) = (if c = BACKSLASH then jsonDecodeEscapedChar cs else (Some c, cs))
         in case ch of
              None \<Rightarrow> (None, rest)
            | Some ch \<Rightarrow> (case put ch out of None \<Rightarrow> (None, rest) | Some out \<Rightarrow> string_loop put out rest)))"
  by pat_completeness auto
termination
proof (relation "measure (\<lambda>(_, _, bs). length bs)", goal_cases)
  case (2 put out c cs x ch rest)
  then show ?case using suffix_length_le [OF decode_suffix [of cs]] by (auto split: if_splits simp: le_imp_less_Suc dest: sym)
qed simp

text \<open>\<open>jsonParseString\<close> gives up when the buffer is full, \<open>jsonReadString\<close> drops the characters that do not fit.\<close>

definition put_strict :: "nat \<Rightarrow> char \<Rightarrow> string \<Rightarrow> string option" where
  "put_strict n ch out = (if n \<le> length out + 1 then None else Some (out @ [ch]))"

definition put_truncating :: "nat \<Rightarrow> char \<Rightarrow> string \<Rightarrow> string option" where
  "put_truncating n ch out = Some (if length out + 1 < n then out @ [ch] else out)"

definition jsonParseString :: "nat \<Rightarrow> string option \<Rightarrow> string option" where
  "jsonParseString n p =
     (case p of
        Some (c # cs) \<Rightarrow> if c = QUOTE then map_option cstr (fst (string_loop (put_strict n) [] cs)) else None
      | _ \<Rightarrow> None)"

text \<open>A colour \<open>#RRGGBB\<close>.\<close>

definition hex_byte :: "char \<Rightarrow> char \<Rightarrow> u8" where
  "hex_byte hi lo = word_of_int (push_bit 4 (jsonHexVal hi) OR jsonHexVal lo)"

definition jsonParseHexColor :: "string \<Rightarrow> (u8 \<times> u8 \<times> u8) option" where
  "jsonParseHexColor s =
     (if length s \<noteq> 7 \<or> s ! 0 \<noteq> CHR ''#'' \<or> list_ex (\<lambda>c. jsonHexVal c < 0) (tl s) then None
      else Some (hex_byte (s ! 1) (s ! 2), hex_byte (s ! 3) (s ! 4), hex_byte (s ! 5) (s ! 6)))"

section \<open>Cursor primitives\<close>

definition jsonReadString :: "nat \<Rightarrow> string \<Rightarrow> string option \<times> string" where
  "jsonReadString n bs =
     (case jsonSkipWs bs of
        [] \<Rightarrow> (None, [])
      | c # cs \<Rightarrow>
          if c \<noteq> QUOTE then (None, c # cs)
          else (let (out, rest) = string_loop (put_truncating n) [] cs in (map_option cstr out, rest)))"

definition jsonReadUInt :: "string \<Rightarrow> (nat \<times> string) option" where
  "jsonReadUInt bs =
     (case jsonSkipWs bs of
        [] \<Rightarrow> None
      | c # cs \<Rightarrow> if is_digit c then uint_digits 0 (c # cs) else None)"

text \<open>\<open>long\<close> has 32 bits on the controller and wraps in the model.\<close>

fun long_digits :: "u32 \<Rightarrow> string \<Rightarrow> u32 \<times> string" where
  "long_digits v [] = (v, [])"
| "long_digits v (c # cs) =
     (if is_digit c then long_digits (v * 10 + of_nat (digit_val c)) cs else (v, c # cs))"

fun fraction_digits :: "real \<Rightarrow> real \<Rightarrow> string \<Rightarrow> real \<times> string" where
  "fraction_digits f divisor [] = (f, [])"
| "fraction_digits f divisor (c # cs) =
     (if is_digit c
      then fraction_digits (fl (f + fl (real (digit_val c) / divisor))) (fl (divisor * 10)) cs
      else (f, c # cs))"

text \<open>The unsigned number at the cursor; the selector parser has the same loop.\<close>

definition decimal :: "string \<Rightarrow> (real \<times> string) option" where
  "decimal bs =
     (case bs of
        [] \<Rightarrow> None
      | c # _ \<Rightarrow>
          if \<not> is_digit c then None
          else
            (let (v, p) = long_digits 0 bs;
                 (f, p) = (case p of
                             d # ds \<Rightarrow> if d = CHR ''.'' then fraction_digits 0 10 ds else (0, p)
                           | [] \<Rightarrow> (0, p))
             in Some (fl (fl (of_int (sint v)) + f), p)))"

definition jsonReadFloat :: "string \<Rightarrow> (real \<times> string) option" where
  "jsonReadFloat bs =
     (case jsonSkipWs bs of
        [] \<Rightarrow> None
      | c # cs \<Rightarrow>
          if c = CHR ''-'' then map_option (\<lambda>(x, p). (- x, p)) (decimal cs) else decimal (c # cs))"

definition jsonReadBool :: "string \<Rightarrow> (bool \<times> string) option" where
  "jsonReadBool bs =
     (let p = jsonSkipWs bs
      in if take 4 p = ''true'' then Some (True, drop 4 p)
         else if take 5 p = ''false'' then Some (False, drop 5 p)
         else None)"

section \<open>Skipping a value\<close>

text \<open>
  \<open>jsonSkipValue\<close>, \<open>jsonSkipObject\<close> and \<open>jsonSkipArray\<close> call each other; \<open>json_skip\<close> is the three of them. The loop of an
  object or an array is a tail call. Once the cursor is at \<open>end\<close> the loop reads \<open>z\<close>; the cursor may then
  move past \<open>end\<close>, where every later test answers as at \<open>end\<close>.
\<close>

datatype skip_mode = SkipValue | SkipObject | SkipArray

definition scalar_end :: "char \<Rightarrow> bool" where
  "scalar_end c \<longleftrightarrow> c = CHR '','' \<or> c = CHR ''}'' \<or> c = CHR '']'' \<or> json_ws c"

partial_function (option) json_skip :: "char \<Rightarrow> skip_mode \<Rightarrow> string \<Rightarrow> (bool \<times> string) option" where
  "json_skip z mode bs =
     (case mode of
        SkipValue \<Rightarrow>
          (case jsonSkipWs bs of
             [] \<Rightarrow> Some (False, [])
           | c # cs \<Rightarrow>
               if c = QUOTE then Some (True, quoted_tail cs)
               else if c = CHR ''{'' then json_skip z SkipObject cs
               else if c = CHR ''['' then json_skip z SkipArray cs
               else Some (True, dropWhile (\<lambda>c. \<not> scalar_end c) (c # cs)))
      | SkipObject \<Rightarrow>
          if bs = [] then Some (False, [])
          else
            (case jsonSkipWs bs of
               [] \<Rightarrow> Some (z = CHR ''}'', [])
             | c # cs \<Rightarrow>
                 if c = CHR ''}'' then Some (True, cs)
                 else if c = CHR '','' then json_skip z SkipObject cs
                 else if c = QUOTE then json_skip z SkipObject (quoted_tail cs)
                 else if c \<noteq> CHR '':'' then Some (False, c # cs)
                 else Option.bind (json_skip z SkipValue cs)
                        (\<lambda>(ok, rest). if ok then json_skip z SkipObject rest else Some (False, rest)))
      | SkipArray \<Rightarrow>
          if bs = [] then Some (False, [])
          else
            (case jsonSkipWs bs of
               [] \<Rightarrow> Some (z = CHR '']'', [])
             | c # cs \<Rightarrow>
                 if c = CHR '']'' then Some (True, cs)
                 else if c = CHR '','' then json_skip z SkipArray cs
                 else Option.bind (json_skip z SkipValue (c # cs))
                        (\<lambda>(ok, rest). if ok then json_skip z SkipArray rest else Some (False, rest))))"

definition jsonSkipValue :: "char \<Rightarrow> string \<Rightarrow> (bool \<times> string) option" where
  "jsonSkipValue z bs = json_skip z SkipValue bs"

definition jsonSkipObject :: "char \<Rightarrow> string \<Rightarrow> (bool \<times> string) option" where
  "jsonSkipObject z bs = json_skip z SkipObject bs"

definition jsonSkipArray :: "char \<Rightarrow> string \<Rightarrow> (bool \<times> string) option" where
  "jsonSkipArray z bs = json_skip z SkipArray bs"

section \<open>Container iterators\<close>

definition jsonEnterObject :: "string \<Rightarrow> string option" where
  "jsonEnterObject bs = (case jsonSkipWs bs of c # cs \<Rightarrow> if c = CHR ''{'' then Some cs else None | [] \<Rightarrow> None)"

definition jsonEnterArray :: "string \<Rightarrow> string option" where
  "jsonEnterArray bs = (case jsonSkipWs bs of c # cs \<Rightarrow> if c = CHR ''['' then Some cs else None | [] \<Rightarrow> None)"

text \<open>White space and commas before a key or an element.\<close>

definition skip_separators :: "string \<Rightarrow> string" where
  "skip_separators bs = dropWhile (\<lambda>c. json_ws c \<or> c = CHR '','') bs"

definition jsonNextKey :: "nat \<Rightarrow> string \<Rightarrow> string option \<times> string" where
  "jsonNextKey n bs =
     (case skip_separators bs of
        [] \<Rightarrow> (None, [])
      | c # cs \<Rightarrow>
          if c = CHR ''}'' then (None, cs)
          else
            (case jsonReadString n (c # cs) of
               (None, p) \<Rightarrow> (None, p)
             | (Some key, p) \<Rightarrow>
                 (case jsonSkipWs p of
                    [] \<Rightarrow> (None, [])
                  | d # ds \<Rightarrow> if d = CHR '':'' then (Some key, jsonSkipWs ds) else (None, d # ds))))"

definition jsonNextElement :: "string \<Rightarrow> bool \<times> string" where
  "jsonNextElement bs =
     (case skip_separators bs of
        [] \<Rightarrow> (False, [])
      | c # cs \<Rightarrow> if c = CHR '']'' then (False, cs) else (True, c # cs))"

section \<open>The accessor class\<close>

definition getInt :: "string \<Rightarrow> string \<Rightarrow> int" where
  "getInt body key = jsonParseUInt (jsonFindKey body key)"

definition getString :: "string \<Rightarrow> string \<Rightarrow> nat \<Rightarrow> string option" where
  "getString body key n = jsonParseString n (jsonFindKey body key)"

definition hasKey :: "string \<Rightarrow> string \<Rightarrow> bool" where
  "hasKey body key \<longleftrightarrow> jsonFindKey body key \<noteq> None"

definition rawValue :: "string \<Rightarrow> string \<Rightarrow> string option" where
  "rawValue body key = jsonFindKey body key"

end
