(* ===== verification/Json_Writer.thy ===== *)
theory Json_Writer
  imports
    Json_Reader
begin

text \<open>
  The JSON writer of \<open>Utils/SimpleJson.hpp\<close>. A buffer is the text written so far, its capacity is a number, and \<open>None\<close> is
  the overflow answer of the code. The lemmas say that what is written is read back.
\<close>

section \<open>Colours\<close>

definition hx_upper :: "u8 \<Rightarrow> char" where
  "hx_upper v = ''0123456789ABCDEF'' ! unat v"

definition jsonFormatHex :: "u8 \<Rightarrow> u8 \<Rightarrow> u8 \<Rightarrow> string" where
  "jsonFormatHex r g b =
     [CHR ''#'', hx_upper (drop_bit 4 r), hx_upper (r AND 0xF), hx_upper (drop_bit 4 g), hx_upper (g AND 0xF),
      hx_upper (drop_bit 4 b), hx_upper (b AND 0xF)]"

section \<open>Strings\<close>

definition hx_lower :: "nat \<Rightarrow> char" where
  "hx_lower v = ''0123456789abcdef'' ! v"

definition json_escape :: "char \<Rightarrow> string" where
  "json_escape c =
     (if c = QUOTE then [BACKSLASH, QUOTE]
      else if c = BACKSLASH then [BACKSLASH, BACKSLASH]
      else if c = CHR 0x08 then [BACKSLASH, CHR ''b'']
      else if c = CHR 0x0C then [BACKSLASH, CHR ''f'']
      else if c = CHR 0x0A then [BACKSLASH, CHR ''n'']
      else if c = CHR 0x0D then [BACKSLASH, CHR ''r'']
      else if c = CHR 0x09 then [BACKSLASH, CHR ''t'']
      else if (of_char c :: nat) < 0x20
        then [BACKSLASH, CHR ''u'', CHR ''0'', CHR ''0'', hx_lower (of_char c div 16), hx_lower (of_char c mod 16)]
      else [c])"

definition escaped_char_len :: "char \<Rightarrow> nat" where
  "escaped_char_len c =
     (if c \<in> {QUOTE, BACKSLASH, CHR 0x08, CHR 0x0C, CHR 0x0A, CHR 0x0D, CHR 0x09} then 2
      else if (of_char c :: nat) < 0x20 then 6 else 1)"

text \<open>A null pointer for the source is \<open>None\<close>.\<close>

definition jsonEscapedContentLen :: "string option \<Rightarrow> nat" where
  "jsonEscapedContentLen src =
     (case src of None \<Rightarrow> 0 | Some s \<Rightarrow> fold (\<lambda>c n. n + escaped_char_len c) s 0)"

definition jsonQuotedLen :: "string option \<Rightarrow> nat" where
  "jsonQuotedLen src = jsonEscapedContentLen src + 2"

fun write_escaped :: "nat \<Rightarrow> string \<Rightarrow> string \<Rightarrow> string option" where
  "write_escaped cap out [] = (if cap \<le> length out then None else Some out)"
| "write_escaped cap out (c # cs) =
     (let esc = json_escape c
      in if cap \<le> length out + length esc then None else write_escaped cap (out @ esc) cs)"

definition jsonWriteEscapedContent :: "nat \<Rightarrow> string option \<Rightarrow> string option" where
  "jsonWriteEscapedContent cap src =
     (if cap = 0 then None else (case src of None \<Rightarrow> Some [] | Some s \<Rightarrow> write_escaped cap [] s))"

definition jsonWriteQuotedString :: "nat \<Rightarrow> string option \<Rightarrow> string option" where
  "jsonWriteQuotedString cap src =
     (if cap < 2 then None
      else
        (case jsonWriteEscapedContent (cap - 1) src of
           None \<Rightarrow> None
         | Some t \<Rightarrow> if cap \<le> 1 + length t + 1 then None else Some (QUOTE # t @ [QUOTE])))"

text \<open>The appending operations: the position in the buffer is the length of its text.\<close>

definition jsonAppendQuotedString :: "nat \<Rightarrow> string \<Rightarrow> string option \<Rightarrow> string option" where
  "jsonAppendQuotedString cap buf src =
     (if cap \<le> length buf then None
      else map_option (\<lambda>t. buf @ t) (jsonWriteQuotedString (cap - length buf) src))"

definition jsonAppendStringField :: "nat \<Rightarrow> string \<Rightarrow> string option \<Rightarrow> string option \<Rightarrow> bool \<Rightarrow> string option" where
  "jsonAppendStringField cap buf key value leadingComma =
     (case (key, value) of
        (Some key, Some value) \<Rightarrow>
          if leadingComma \<and> cap \<le> length buf then None
          else
            (let buf = (if leadingComma then buf @ '','' else buf)
             in if cap \<le> length buf + length key + 3 then None
                else jsonAppendQuotedString cap (buf @ [QUOTE] @ key @ [QUOTE, CHR '':'']) (Some value))
      | _ \<Rightarrow> None)"

definition jsonWriteObjectStringField :: "nat \<Rightarrow> string option \<Rightarrow> string option \<Rightarrow> string option" where
  "jsonWriteObjectStringField cap key value =
     (if cap < 4 \<or> key = None \<or> value = None then None
      else
        (case jsonAppendStringField cap ''{'' key value False of
           None \<Rightarrow> None
         | Some buf \<Rightarrow> if cap \<le> length buf + 1 then None else Some (buf @ ''}'')))"

definition jsonWriteErrorObject :: "nat \<Rightarrow> string option \<Rightarrow> string option" where
  "jsonWriteErrorObject cap msg =
     jsonWriteObjectStringField cap (Some ''error'') (Some (case msg of Some m \<Rightarrow> m | None \<Rightarrow> ''error''))"

text \<open>
  An element of an array. On overflow the text is the one of the call, with the comma when that was written, and the
  array is no longer empty.
\<close>

definition jsonAppendArrayStringElement :: "nat \<Rightarrow> string \<Rightarrow> bool \<Rightarrow> string option \<Rightarrow> bool \<times> string \<times> bool" where
  "jsonAppendArrayStringElement cap buf fst_elem src =
     (if src = None \<or> cap \<le> length buf then (False, buf, fst_elem)
      else if \<not> fst_elem \<and> cap \<le> length buf + 1 then (False, buf, fst_elem)
      else
        (let buf = (if fst_elem then buf else buf @ '','')
         in case jsonAppendQuotedString cap buf src of
              None \<Rightarrow> (False, buf, False)
            | Some buf' \<Rightarrow> (True, buf', False)))"

section \<open>What is written\<close>

definition json_content :: "string \<Rightarrow> string" where
  "json_content s = concat (map json_escape s)"

definition json_quoted :: "string \<Rightarrow> string" where
  "json_quoted s = QUOTE # json_content s @ [QUOTE]"

lemma json_content_simps [simp]:
  "json_content [] = []" "json_content (c # s) = json_escape c @ json_content s"
  by (simp_all add: json_content_def)

lemma length_json_escape: "length (json_escape c) = escaped_char_len c"
  by (simp add: json_escape_def escaped_char_len_def)

lemma escaped_char_len_pos: "0 < escaped_char_len c"
  by (simp add: escaped_char_len_def)

lemma content_len: "jsonEscapedContentLen (Some s) = length (json_content s)"
proof -
  have "fold (\<lambda>c n. n + escaped_char_len c) s k = k + length (json_content s)" for k
    by (induction s arbitrary: k) (simp_all add: length_json_escape)
  then show ?thesis by (simp add: jsonEscapedContentLen_def)
qed

lemma quoted_len: "jsonQuotedLen (Some s) = length (json_quoted s)"
  by (simp add: jsonQuotedLen_def content_len json_quoted_def)

lemma write_escaped_eq:
  "write_escaped cap out s = (if length out + length (json_content s) < cap then Some (out @ json_content s) else None)"
proof (induction s arbitrary: out)
  case (Cons c s)
  have "length out + length (json_escape c) + length (json_content s) < cap \<Longrightarrow> length out + length (json_escape c) < cap" by linarith
  then show ?case by (auto simp: Let_def Cons.IH)
qed auto

lemma write_quoted_eq:
  "jsonWriteQuotedString cap (Some s) = (if jsonQuotedLen (Some s) < cap then Some (json_quoted s) else None)"
  by (auto simp: jsonWriteQuotedString_def jsonWriteEscapedContent_def write_escaped_eq quoted_len json_quoted_def)

lemma append_quoted_eq:
  "jsonAppendQuotedString cap buf (Some s) =
     (if length buf + length (json_quoted s) < cap then Some (buf @ json_quoted s) else None)"
  by (auto simp: jsonAppendQuotedString_def write_quoted_eq quoted_len)

lemma append_field_eq:
  "jsonAppendStringField cap buf (Some key) (Some s) comma =
     (let t = (if comma then '','' else []) @ [QUOTE] @ key @ [QUOTE, CHR '':''] @ json_quoted s
      in if length buf + length t < cap then Some (buf @ t) else None)"
proof -
  have "2 \<le> length (json_quoted s)" by (simp add: json_quoted_def)
  then show ?thesis by (cases comma) (auto simp: jsonAppendStringField_def append_quoted_eq Let_def)
qed

section \<open>Reading back\<close>

text \<open>The two digits written for a control character.\<close>

lemma control_code:
  assumes "n < 32"
  shows "hex_code [CHR ''0'', CHR ''0'', hx_lower (n div 16), hx_lower (n mod 16)] = Some (of_nat n)"
    and "hx_lower (n div 16) \<notin> {QUOTE, BACKSLASH}" and "hx_lower (n mod 16) \<notin> {QUOTE, BACKSLASH}"
proof -
  have "\<forall>n \<in> set [0..<32]. hex_code [CHR ''0'', CHR ''0'', hx_lower (n div 16), hx_lower (n mod 16)] = Some (of_nat n)
          \<and> hx_lower (n div 16) \<notin> {QUOTE, BACKSLASH} \<and> hx_lower (n mod 16) \<notin> {QUOTE, BACKSLASH}"
    by code_simp
  then show "hex_code [CHR ''0'', CHR ''0'', hx_lower (n div 16), hx_lower (n mod 16)] = Some (of_nat n)"
    and "hx_lower (n div 16) \<notin> {QUOTE, BACKSLASH}" and "hx_lower (n mod 16) \<notin> {QUOTE, BACKSLASH}"
    using assms by auto
qed

lemma decode_escape:
  assumes "(of_char c :: nat) < 32 \<or> c = QUOTE \<or> c = BACKSLASH"
  obtains e where "json_escape c = BACKSLASH # e" and "\<And>rest. jsonDecodeEscapedChar (e @ rest) = (Some c, rest)"
    and "e \<noteq> []" and "QUOTE \<notin> set (tl e)" and "BACKSLASH \<notin> set (tl e)"
proof (cases "c \<in> {QUOTE, BACKSLASH, CHR 0x08, CHR 0x0C, CHR 0x0A, CHR 0x0D, CHR 0x09}")
  case True
  show thesis
    by (rule that [of "[if c = CHR 0x08 then CHR ''b'' else if c = CHR 0x0C then CHR ''f'' else if c = CHR 0x0A then CHR ''n''
                        else if c = CHR 0x0D then CHR ''r'' else if c = CHR 0x09 then CHR ''t'' else c]"])
       (use True in \<open>auto simp: json_escape_def jsonDecodeEscapedChar_def\<close>)
next
  case False
  let ?n = "of_char c :: nat"
  have n: "?n < 32" using assms False by auto
  have small: "unat (of_nat ?n :: u16) = ?n" "\<not> 0x7F < (of_nat ?n :: u16)"
    using n by (simp_all add: unat_of_nat take_bit_nat_eq_self word_less_nat_alt)
  show thesis
    by (rule that [of "[CHR ''u'', CHR ''0'', CHR ''0'', hx_lower (?n div 16), hx_lower (?n mod 16)]"])
       (use n False small control_code [OF n] in \<open>auto simp: json_escape_def jsonDecodeEscapedChar_def\<close>)
qed

lemma escape_plain: "\<not> ((of_char c :: nat) < 32 \<or> c = QUOTE \<or> c = BACKSLASH) \<Longrightarrow> json_escape c = [c]"
  by (auto simp: json_escape_def)

lemma string_loop_escape:
  "string_loop put out (json_escape c @ rest) =
     (case put c out of None \<Rightarrow> (None, rest) | Some out' \<Rightarrow> string_loop put out' rest)"
proof (cases "(of_char c :: nat) < 32 \<or> c = QUOTE \<or> c = BACKSLASH")
  case True
  from True obtain e where "json_escape c = BACKSLASH # e" and "jsonDecodeEscapedChar (e @ rest) = (Some c, rest)"
    by (rule decode_escape) blast
  then show ?thesis by simp
next
  case False
  then show ?thesis by (simp add: escape_plain)
qed

lemma string_loop_strict:
  "fst (string_loop (put_strict n) out (json_content s @ QUOTE # rest)) =
     (if s = [] \<or> length out + length s < n then Some (out @ s) else None)"
  by (induction s arbitrary: out) (auto simp: string_loop_escape put_strict_def)

lemma string_loop_truncating:
  "string_loop (put_truncating n) out (json_content s @ QUOTE # rest) = (Some (out @ take (n - 1 - length out) s), rest)"
proof (induction s arbitrary: out)
  case (Cons c s)
  show ?case
  proof (cases "length out + 1 < n")
    case True
    then have "n - 1 - length out = Suc (n - 1 - length (out @ [c]))" by simp
    then show ?thesis using True Cons.IH [of "out @ [c]"] by (simp add: string_loop_escape put_truncating_def)
  next
    case False
    then show ?thesis using Cons.IH [of out] by (simp add: string_loop_escape put_truncating_def)
  qed
qed simp

lemma quoted_tail_plain: "QUOTE \<notin> set e \<Longrightarrow> BACKSLASH \<notin> set e \<Longrightarrow> quoted_tail (e @ rest) = quoted_tail rest"
  by (induction e) auto

lemma quoted_tail_content: "quoted_tail (json_content s @ QUOTE # rest) = rest"
proof (induction s)
  case (Cons c s)
  have "quoted_tail (json_escape c @ json_content s @ QUOTE # rest) = quoted_tail (json_content s @ QUOTE # rest)"
  proof (cases "(of_char c :: nat) < 32 \<or> c = QUOTE \<or> c = BACKSLASH")
    case True
    from True obtain e where e: "json_escape c = BACKSLASH # e" "e \<noteq> []" "QUOTE \<notin> set (tl e)" "BACKSLASH \<notin> set (tl e)"
      by (rule decode_escape) blast
    then show ?thesis by (simp add: quoted_tail_plain)
  next
    case False
    then show ?thesis by (simp add: escape_plain)
  qed
  then show ?case using Cons.IH by simp
qed simp

lemma cstr_plain: "NUL \<notin> set s \<Longrightarrow> cstr s = s"
  unfolding cstr_def by (rule takeWhile_eq_all_conv [THEN iffD2]) auto

lemma ws_quoted [simp]: "jsonSkipWs (json_quoted s @ rest) = json_quoted s @ rest" "jsonSkipWs (QUOTE # t) = QUOTE # t"
  by (simp_all add: jsonSkipWs_def json_quoted_def json_ws_def)

lemma read_quoted: "NUL \<notin> set s \<Longrightarrow> jsonReadString n (json_quoted s @ rest) = (Some (take (n - 1) s), rest)"
  using cstr_plain [of "take (n - 1) s"] in_set_takeD [of NUL "n - 1" s]
  by (auto simp: jsonReadString_def json_quoted_def string_loop_truncating)

lemma parse_quoted:
  "NUL \<notin> set s \<Longrightarrow> jsonParseString n (Some (json_quoted s @ rest)) = (if s = [] \<or> length s < n then Some s else None)"
  by (simp add: jsonParseString_def json_quoted_def string_loop_strict cstr_plain)

lemma skip_quoted: "jsonSkipQuotedString (json_quoted s @ rest) = rest"
  by (simp add: jsonSkipQuotedString_def json_quoted_def quoted_tail_content)

text \<open>Colours.\<close>

lemma hex_val_upper: "unat v < 16 \<Longrightarrow> jsonHexVal (hx_upper v) = int (unat v)"
proof -
  have "\<forall>n \<in> set [0..<16]. jsonHexVal (''0123456789ABCDEF'' ! n) = int n" by code_simp
  then show "unat v < 16 \<Longrightarrow> ?thesis" by (simp add: hx_upper_def)
qed

lemma low_nibble: "v AND 0xF = take_bit 4 v" for v :: u8
  by (simp add: take_bit_eq_mask mask_eq_exp_minus_1)

lemma nibble_values: "unat (drop_bit 4 v) = unat v div 16" "unat (v AND 0xF) = unat v mod 16" for v :: u8
proof -
  show "unat (drop_bit 4 v) = unat v div 16" using unat_u8_less [of v] by (simp only: unsigned_drop_bit_eq) (simp add: drop_bit_eq_div take_bit_nat_eq_self)
  show "unat (v AND 0xF) = unat v mod 16" by (simp only: low_nibble unsigned_take_bit_eq) (simp add: take_bit_eq_mod)
qed

lemma nibbles: "unat (drop_bit 4 v) < 16" "unat (v AND 0xF) < 16" for v :: u8
  using unat_u8_less [of v] by (simp_all add: nibble_values less_mult_imp_div_less)

lemma hex_byte_format: "hex_byte (hx_upper (drop_bit 4 v)) (hx_upper (v AND 0xF)) = v"
proof -
  let ?n = "int (unat v)"
  have "push_bit 4 (?n div 16) OR ?n mod 16 = push_bit 4 (drop_bit 4 ?n) OR take_bit 4 ?n"
    by (simp add: drop_bit_eq_div take_bit_eq_mod)
  also have "\<dots> = ?n" by (rule bit_eqI) (auto simp: bit_or_iff bit_push_bit_iff bit_drop_bit_eq bit_take_bit_iff)
  finally have "push_bit 4 (?n div 16) OR ?n mod 16 = ?n" .
  moreover have "hex_byte (hx_upper (drop_bit 4 v)) (hx_upper (v AND 0xF)) = word_of_int (push_bit 4 (?n div 16) OR ?n mod 16)"
    by (simp only: hex_byte_def hex_val_upper [OF nibbles(1)] hex_val_upper [OF nibbles(2)] nibble_values zdiv_int zmod_int) simp
  ultimately show ?thesis by simp
qed

lemma parse_format_hex: "jsonParseHexColor (jsonFormatHex r g b) = Some (r, g, b)"
  by (simp add: jsonParseHexColor_def jsonFormatHex_def hex_byte_format hex_val_upper nibbles not_less)

end
