(* ===== verification/Json_Text.thy ===== *)
theory Json_Text
  imports
    Json_Writer
begin

text \<open>
  JSON texts: numbers as \<open>printf\<close> writes them, the grammar of values, and flat objects. The reader is correct on them:
  a number is read back, a value is skipped exactly, and looking up a key of a flat object is looking it up in
  the list of its members.
\<close>

section \<open>Numbers\<close>

fun udec :: "nat \<Rightarrow> string" where
  "udec n = (if n < 10 then [char_of (48 + n)] else udec (n div 10) @ [char_of (48 + n mod 10)])"

declare udec.simps [simp del]

lemma digit_char: "d < 10 \<Longrightarrow> is_digit (char_of (48 + d)) \<and> digit_val (char_of (48 + d)) = d" for d :: nat
  by (simp add: is_digit_def digit_val_def)

lemma udec_digits: "\<forall>c \<in> set (udec n). is_digit c"
proof (induction n rule: udec.induct)
  case (1 n)
  then show ?case using digit_char [of n] digit_char [of "n mod 10"] by (subst udec.simps) auto
qed

lemma udec_not_Nil [simp]: "udec n \<noteq> []"
  by (subst udec.simps) simp

lemma udec_hd: "is_digit (hd (udec n))"
  using udec_digits udec_not_Nil by (meson hd_in_set)

lemma uint_digits_udec:
  "v * 10 ^ length (udec n) + n \<le> 65535 \<Longrightarrow>
    uint_digits v (udec n @ rest) = uint_digits (v * 10 ^ length (udec n) + n) rest"
proof (induction n arbitrary: rest rule: udec.induct)
  case (1 n)
  show ?case
  proof (cases "n < 10")
    case True
    then have "udec n = [char_of (48 + n)]" by (subst udec.simps) simp
    then show ?thesis using 1(2) digit_char [OF True] by simp
  next
    case False
    let ?k = "n div 10" and ?d = "n mod 10"
    have u: "udec n = udec ?k @ [char_of (48 + ?d)]" using False by (subst udec.simps) simp
    let ?w = "v * 10 ^ length (udec ?k) + ?k"
    have "?w * 10 + ?d = v * 10 ^ length (udec n) + (?k * 10 + ?d)" by (simp only: u length_append) (simp add: algebra_simps)
    then have w: "?w * 10 + ?d = v * 10 ^ length (udec n) + n" by (simp only: div_mult_mod_eq)
    then have b: "?w * 10 + ?d \<le> 65535" using 1(2) by (simp only:)
    have "x * 10 + d \<le> 65535 \<Longrightarrow> x \<le> 65535" for x d :: nat by simp
    then have "?w \<le> 65535" using b .
    then show ?thesis using 1(1) [OF False, of "char_of (48 + ?d) # rest"] digit_char [of ?d] b
      by (simp add: u w Let_def algebra_simps)
  qed
qed

lemma uint_digits_overflow: "65535 < n \<Longrightarrow> uint_digits 0 (udec n @ rest) = None"
proof (induction n arbitrary: rest rule: udec.induct)
  case (1 n)
  let ?k = "n div 10" and ?d = "n mod 10"
  have u: "udec n = udec ?k @ [char_of (48 + ?d)]" using 1(2) by (subst udec.simps) simp
  show ?case
  proof (cases "65535 < ?k")
    case True
    then show ?thesis using 1(1) [of "char_of (48 + ?d) # rest"] 1(2) by (simp add: u)
  next
    case False
    moreover have "?k * 10 + ?d = n" by simp
    ultimately show ?thesis using uint_digits_udec [of 0 ?k "char_of (48 + ?d) # rest"] digit_char [of ?d] 1(2) by (simp add: u)
  qed
qed

definition no_digit :: "string \<Rightarrow> bool" where
  "no_digit rest \<longleftrightarrow> (case rest of [] \<Rightarrow> True | c # _ \<Rightarrow> \<not> is_digit c)"

lemma uint_digits_end: "no_digit rest \<Longrightarrow> uint_digits v rest = Some (v, rest)"
  by (cases rest) (simp_all add: no_digit_def)

lemma digit_not_ws: "is_digit c \<Longrightarrow> \<not> json_ws c"
  by (auto simp: is_digit_def json_ws_def)

lemma read_uint: "n \<le> 65535 \<Longrightarrow> no_digit rest \<Longrightarrow> jsonReadUInt (udec n @ rest) = Some (n, rest)"
proof -
  assume n: "n \<le> 65535" "no_digit rest"
  obtain c cs where u: "udec n = c # cs" by (metis udec_not_Nil list.exhaust)
  then have "is_digit c" using udec_hd [of n] by simp
  moreover have "uint_digits 0 (c # cs @ rest) = Some (n, rest)"
    using uint_digits_udec [of 0 n rest] n by (simp only: u append_Cons) (simp add: uint_digits_end)
  ultimately show ?thesis by (simp add: u jsonReadUInt_def jsonSkipWs_def digit_not_ws)
qed

lemma parse_uint:
  "no_digit rest \<Longrightarrow> jsonParseUInt (Some (udec n @ rest)) = (if n \<le> 65535 then int n else -1)"
proof -
  assume rest: "no_digit rest"
  obtain c cs where u: "udec n = c # cs" by (metis udec_not_Nil list.exhaust)
  then have "is_digit c" using udec_hd [of n] by simp
  moreover have "uint_digits 0 (c # cs @ rest) = (if n \<le> 65535 then Some (n, rest) else None)"
    using uint_digits_udec [of 0 n rest] uint_digits_overflow [of n rest] rest
    by (simp only: u append_Cons) (simp add: uint_digits_end split: if_splits)
  ultimately show ?thesis by (simp add: u jsonParseUInt_def del: uint_digits.simps)
qed

section \<open>Values\<close>

definition ws :: "string \<Rightarrow> bool" where
  "ws w \<longleftrightarrow> list_all json_ws w"

text \<open>What may stand between two quotes.\<close>

fun raw_string :: "string \<Rightarrow> bool" where
  "raw_string [] \<longleftrightarrow> True"
| "raw_string (c # cs) \<longleftrightarrow>
     (if c = QUOTE then False else if c = BACKSLASH then cs \<noteq> [] \<and> raw_string (tl cs) else raw_string cs)"

definition delimited :: "string \<Rightarrow> bool" where
  "delimited rest \<longleftrightarrow> rest = [] \<or> scalar_end (hd rest)"

text \<open>
  Values; the members of an object up to its closing brace; the elements of an array up to its closing bracket. A
  scalar is any other token. Additional commas are allowed, as the reader allows them.
\<close>

inductive jvalue :: "string \<Rightarrow> bool" and jmembers :: "string \<Rightarrow> bool" and jelements :: "string \<Rightarrow> bool" where
  scalar: "\<lbrakk>v \<noteq> []; list_all (\<lambda>c. \<not> scalar_end c) v; hd v \<notin> {QUOTE, CHR ''{'', CHR ''[''}\<rbrakk> \<Longrightarrow> jvalue v"
| quoted: "raw_string s \<Longrightarrow> jvalue (QUOTE # s @ [QUOTE])"
| object: "jmembers ms \<Longrightarrow> jvalue (CHR ''{'' # ms)"
| array: "jelements es \<Longrightarrow> jvalue (CHR ''['' # es)"
| members_close: "ws w \<Longrightarrow> jmembers (w @ ''}'')"
| members_comma: "\<lbrakk>ws w; jmembers ms\<rbrakk> \<Longrightarrow> jmembers (w @ '','' @ ms)"
| member: "\<lbrakk>ws w1; raw_string k; ws w2; ws w3; jvalue v; jmembers ms; delimited ms\<rbrakk>
           \<Longrightarrow> jmembers (w1 @ [QUOTE] @ k @ [QUOTE] @ w2 @ '':'' @ w3 @ v @ ms)"
| elements_close: "ws w \<Longrightarrow> jelements (w @ '']'')"
| elements_comma: "\<lbrakk>ws w; jelements es\<rbrakk> \<Longrightarrow> jelements (w @ '','' @ es)"
| element_value: "\<lbrakk>ws w; jvalue v; jelements es; delimited es\<rbrakk> \<Longrightarrow> jelements (w @ v @ es)"

lemma raw_tail: "raw_string s \<Longrightarrow> quoted_tail (s @ QUOTE # rest) = rest"
  by (induction s rule: raw_string.induct) (auto simp: neq_Nil_conv split: if_splits)

lemma skip_ws: "ws w \<Longrightarrow> jsonSkipWs (w @ t) = jsonSkipWs t"
  by (simp add: jsonSkipWs_def ws_def list_all_iff)

lemma no_ws: "\<not> json_ws c \<Longrightarrow> jsonSkipWs (c # t) = c # t"
  by (simp add: jsonSkipWs_def)

lemma value_starts: "jvalue v \<Longrightarrow> v \<noteq> [] \<and> \<not> scalar_end (hd v)"
proof (erule jvalue.cases, goal_cases)
  case (1 v)
  then show ?case by (cases v) simp_all
qed (simp_all add: scalar_end_def json_ws_def)

lemma members_not_Nil: "jmembers ms \<Longrightarrow> ms \<noteq> []" "jelements es \<Longrightarrow> es \<noteq> []"
proof -
  show "jmembers ms \<Longrightarrow> ms \<noteq> []" by (erule jmembers.cases) simp_all
  show "jelements es \<Longrightarrow> es \<noteq> []" by (erule jelements.cases) (auto dest: value_starts)
qed

lemma punctuation [simp]:
  "jsonSkipWs (CHR '','' # t) = CHR '','' # t" "jsonSkipWs (CHR '':'' # t) = CHR '':'' # t"
  "jsonSkipWs (CHR ''{'' # t) = CHR ''{'' # t" "jsonSkipWs (CHR ''}'' # t) = CHR ''}'' # t"
  "jsonSkipWs (CHR ''['' # t) = CHR ''['' # t" "jsonSkipWs (CHR '']'' # t) = CHR '']'' # t"
  by (simp_all add: jsonSkipWs_def json_ws_def)

lemma skip_well_formed:
  "jvalue v \<Longrightarrow> (\<forall>w rest. ws w \<longrightarrow> delimited rest \<longrightarrow> json_skip z SkipValue (w @ v @ rest) = Some (True, rest))"
  "jmembers ms \<Longrightarrow> (\<forall>rest. json_skip z SkipObject (ms @ rest) = Some (True, rest))"
  "jelements es \<Longrightarrow> (\<forall>rest. json_skip z SkipArray (es @ rest) = Some (True, rest))"
proof (induction v and ms and es rule: jvalue_jmembers_jelements.inducts)
  case (scalar v)
  obtain c cs where v: "v = c # cs" using scalar(1) by (cases v) auto
  have c: "\<not> json_ws c" using scalar(2) v by (simp add: scalar_end_def)
  have "dropWhile (\<lambda>c. \<not> scalar_end c) (v @ rest) = rest" if "delimited rest" for rest
    using scalar(2) that by (cases rest) (auto simp: list_all_iff delimited_def)
  then show ?case using scalar(3) c
    by (auto simp: json_skip.simps [of _ SkipValue] skip_ws v no_ws)
next
  case (quoted s)
  show ?case by (simp add: json_skip.simps [of _ SkipValue] skip_ws raw_tail quoted)
next
  case (object ms)
  then show ?case by (simp add: json_skip.simps [of _ SkipValue] skip_ws)
next
  case (array es)
  then show ?case by (simp add: json_skip.simps [of _ SkipValue] skip_ws)
next
  case (members_close w)
  then show ?case by (simp add: json_skip.simps [of _ SkipObject] skip_ws)
next
  case (members_comma w ms)
  then show ?case by (simp add: json_skip.simps [of _ SkipObject "w @ _"] skip_ws)
next
  case (member w1 k w2 w3 v ms)
  have colon: "json_skip z SkipObject (w2 @ CHR '':'' # w3 @ v @ ms @ rest) = Some (True, rest)" for rest
  proof -
    have d: "delimited (ms @ rest)" using member.hyps(7) members_not_Nil(1) [OF member.hyps(6)] by (auto simp: delimited_def)
    have "json_skip z SkipValue (w3 @ v @ ms @ rest) = Some (True, ms @ rest)" using member.IH(1) member.hyps(4) d by blast
    then show ?thesis using member.hyps(3) member.IH(2) by (simp add: json_skip.simps [of _ SkipObject "w2 @ _"] skip_ws)
  qed
  show ?case
  proof
    fix rest
    have "json_skip z SkipObject (w1 @ QUOTE # k @ QUOTE # w2 @ CHR '':'' # w3 @ v @ ms @ rest) = Some (True, rest)"
      using member.hyps(1) colon by (simp add: json_skip.simps [of _ SkipObject "w1 @ _"] skip_ws raw_tail member.hyps(2))
    then show "json_skip z SkipObject ((w1 @ [QUOTE] @ k @ [QUOTE] @ w2 @ '':'' @ w3 @ v @ ms) @ rest) = Some (True, rest)" by simp
  qed
next
  case (elements_close w)
  then show ?case by (simp add: json_skip.simps [of _ SkipArray] skip_ws)
next
  case (elements_comma w es)
  then show ?case by (simp add: json_skip.simps [of _ SkipArray "w @ _"] skip_ws)
next
  case (element_value w v es)
  obtain c cs where v: "v = c # cs" and c: "\<not> scalar_end c" using value_starts [OF element_value.hyps(2)] by (cases v) auto
  show ?case
  proof
    fix rest
    have d: "delimited (es @ rest)" using element_value.hyps(4) members_not_Nil(2) [OF element_value.hyps(3)] by (auto simp: delimited_def)
    have "json_skip z SkipValue ([] @ v @ es @ rest) = Some (True, es @ rest)" 
      by (rule element_value.IH(1) [rule_format]) (simp_all add: ws_def d)
    moreover have "c \<noteq> CHR '']''" "c \<noteq> CHR '',''" "\<not> json_ws c" using c by (auto simp: scalar_end_def)
    ultimately show "json_skip z SkipArray ((w @ v @ es) @ rest) = Some (True, rest)" using element_value.hyps(1) element_value.IH(2)
      by (simp add: json_skip.simps [of _ SkipArray "w @ _"] skip_ws v no_ws)
  qed
qed

text \<open>
  A closing brace where an array expects an element is not a value and is not consumed, so the loop stays where it is
  for ever.
\<close>

lemma skip_at_brace:
  "json_skip z mode bs = Some y \<Longrightarrow> jsonSkipWs bs = CHR ''}'' # cs \<Longrightarrow>
     mode \<noteq> SkipArray \<and> (mode = SkipValue \<longrightarrow> y = (True, CHR ''}'' # cs))"
proof (induction arbitrary: cs rule: json_skip.raw_induct [rotated, consumes 1, case_names round])
  case (round skip z mode bs y)
  have nonempty: "bs \<noteq> []" using round.prems by (auto simp: jsonSkipWs_def)
  show ?case
  proof (cases mode)
    case SkipValue
    then show ?thesis using round(2) round.prems by (simp add: scalar_end_def)
  next
    case SkipArray
    then obtain ok r where v: "skip z SkipValue (CHR ''}'' # cs) = Some (ok, r)"
      and again: "(if ok then skip z SkipArray r else Some (False, r)) = Some y"
      using round(2) round.prems nonempty by (auto simp: bind_eq_Some_conv)
    have "(ok, r) = (True, CHR ''}'' # cs)" using round(1) [OF v, of cs] by simp
    then show ?thesis using again round(1) [of z SkipArray "CHR ''}'' # cs" y cs] by simp
  qed simp
qed

lemma skip_stuck: "ws w \<Longrightarrow> json_skip z SkipArray (w @ CHR ''}'' # rest) = None"
  using skip_at_brace [of z SkipArray "w @ CHR ''}'' # rest" _ rest] by (cases "json_skip z SkipArray (w @ CHR ''}'' # rest)") (auto simp: skip_ws)

section \<open>Flat objects\<close>

datatype json_field = FText string | FNumber nat

fun field_text :: "json_field \<Rightarrow> string" where
  "field_text (FText s) = json_quoted s"
| "field_text (FNumber n) = udec n"

fun members_text :: "(string \<times> json_field) list \<Rightarrow> string" where
  "members_text [] = ''}''"
| "members_text [(k, f)] = QUOTE # k @ [QUOTE, CHR '':''] @ field_text f @ ''}''"
| "members_text ((k, f) # ms) = QUOTE # k @ [QUOTE, CHR '':''] @ field_text f @ '','' @ members_text ms"

definition flat_object :: "(string \<times> json_field) list \<Rightarrow> string" where
  "flat_object ms = CHR ''{'' # members_text ms"

text \<open>Keys are written as they are.\<close>

definition plain_key :: "string \<Rightarrow> bool" where
  "plain_key k \<longleftrightarrow> QUOTE \<notin> set k \<and> BACKSLASH \<notin> set k"

lemma find_key_plain:
  "list_all (\<lambda>c. c \<notin> {QUOTE, CHR ''{'', CHR ''['', CHR ''}'', CHR '']''}) t \<Longrightarrow> find_key key 0 (t @ rest) = find_key key 0 rest"
  by (induction t) simp_all

lemma digits_plain: "list_all (\<lambda>c. c \<notin> {QUOTE, CHR ''{'', CHR ''['', CHR ''}'', CHR '']''}) (udec n)"
  using udec_digits by (fastforce simp: list_all_iff is_digit_def)

text \<open>What \<open>key_here\<close> compares is the whole quoted string.\<close>

lemma key_here_tail:
  assumes "plain_key key" and "key_here key cs = Some q"
  shows "take (length key + 1) cs = key @ [QUOTE]" and "\<exists>t. jsonSkipWs (quoted_tail cs) = CHR '':'' # t \<and> q = jsonSkipWs t"
proof -
  have k: "length key < length cs" "take (length key) cs = key" "cs ! length key = QUOTE"
    using assms(2) by (auto simp: key_here_def split: if_splits)
  show t: "take (length key + 1) cs = key @ [QUOTE]" using k by (simp add: take_Suc_conv_app_nth)
  then have "cs = key @ QUOTE # drop (length key + 1) cs"
    by (metis append_take_drop_id append.assoc append_Cons append_Nil)
  then have "quoted_tail cs = drop (length key + 1) cs"
    using assms(1) by (metis quoted_tail_plain plain_key_def quoted_tail.simps(2))
  then show "\<exists>t. jsonSkipWs (quoted_tail cs) = CHR '':'' # t \<and> q = jsonSkipWs t"
    using assms(2) k by (auto simp: key_here_def split: list.splits if_splits)
qed

lemma find_key_value:
  assumes "plain_key key" and "c = CHR '','' \<or> c = CHR ''}''"
  shows "find_key key 0 (json_quoted s @ c # t) = find_key key 0 (c # t)"
proof -
  have "key_here key (json_content s @ QUOTE # c # t) = None"
  proof (rule ccontr)
    assume "key_here key (json_content s @ QUOTE # c # t) \<noteq> None"
    then obtain q where "key_here key (json_content s @ QUOTE # c # t) = Some q" by blast
    from key_here_tail(2) [OF assms(1) this] assms(2) show False by (auto simp: quoted_tail_content)
  qed
  then show ?thesis by (simp add: json_quoted_def quoted_tail_content)
qed

lemma find_key_member:
  assumes "plain_key key" and "plain_key k"
  shows "find_key key 0 (QUOTE # k @ QUOTE # CHR '':'' # t) =
           (if k = key then Some (jsonSkipWs t) else find_key key 0 t)"
proof (cases "k = key")
  case True
  then have "key_here key (k @ QUOTE # CHR '':'' # t) = Some (jsonSkipWs t)" by (simp add: key_here_def nth_append)
  then show ?thesis using True by simp
next
  case False
  have tail: "quoted_tail (k @ QUOTE # CHR '':'' # t) = CHR '':'' # t"
    using assms(2) by (simp add: quoted_tail_plain plain_key_def)
  have "key_here key (k @ QUOTE # CHR '':'' # t) = None"
  proof (rule ccontr)
    assume "key_here key (k @ QUOTE # CHR '':'' # t) \<noteq> None"
    then obtain q where q: "key_here key (k @ QUOTE # CHR '':'' # t) = Some q" by blast
    from key_here_tail(1) [OF assms(1) q]
    have "take (length key + 1) (k @ QUOTE # CHR '':'' # t) = key @ [QUOTE]" .
    then obtain u where u: "k @ QUOTE # CHR '':'' # t = key @ QUOTE # u"
      by (metis append_take_drop_id append.assoc append_Cons append_Nil)
    then have "quoted_tail (k @ QUOTE # CHR '':'' # t) = u" using assms(1) by (simp add: quoted_tail_plain plain_key_def)
    then show False using u tail False by simp
  qed
  then show ?thesis using False tail by simp
qed

lemma ws_field: "jsonSkipWs (field_text f @ t) = field_text f @ t"
proof (cases f)
  case (FNumber n)
  obtain c cs where u: "udec n = c # cs" by (metis udec_not_Nil list.exhaust)
  then have "is_digit c" using udec_hd [of n] by simp
  then show ?thesis by (simp add: FNumber u jsonSkipWs_def digit_not_ws)
qed simp

lemma find_key_field:
  assumes "plain_key key" and "c = CHR '','' \<or> c = CHR ''}''"
  shows "find_key key 0 (field_text f @ c # t) = find_key key 0 (c # t)"
  using find_key_plain [OF digits_plain] find_key_value [OF assms] by (cases f) simp_all

lemma find_key_close: "d \<le> 0 \<Longrightarrow> find_key key d ''}'' = None"
  by simp

definition finds :: "string option \<Rightarrow> json_field option \<Rightarrow> bool" where
  "finds q f \<longleftrightarrow>
     (case f of
        None \<Rightarrow> q = None
      | Some f \<Rightarrow> \<exists>c t. (c = CHR '','' \<or> c = CHR ''}'') \<and> q = Some (field_text f @ c # t))"

lemma find_members:
  assumes "plain_key key" and "\<forall>(k, f) \<in> set ms. plain_key k"
  shows "finds (find_key key 0 (members_text ms)) (map_of ms key)"
  using assms(2)
proof (induction ms rule: members_text.induct)
  case 1
  show ?case by (simp add: finds_def)
next
  case (2 k f)
  have "find_key key 0 (members_text [(k, f)]) = (if k = key then Some (field_text f @ ''}'') else None)"
    using find_key_member [OF assms(1), of k "field_text f @ ''}''"] find_key_field [OF assms(1), of "CHR ''}''" f "[]"] 2
    by (simp add: ws_field)
  then show ?case by (simp only: map_of.simps) (simp add: finds_def)
next
  case (3 k f v va)
  have m: "find_key key 0 (members_text ((k, f) # v # va)) =
      (if k = key then Some (field_text f @ CHR '','' # members_text (v # va)) else find_key key 0 (members_text (v # va)))"
    using find_key_member [OF assms(1), of k "field_text f @ CHR '','' # members_text (v # va)"]
      find_key_field [OF assms(1), of "CHR '',''" f "members_text (v # va)"] 3(2)
    by (simp add: ws_field)
  have IH: "finds (find_key key 0 (members_text (v # va))) (map_of (v # va) key)" by (rule 3(1)) (use 3(2) in simp)
  have "finds (Some (field_text f @ CHR '','' # members_text (v # va))) (Some f)" by (simp add: finds_def)
  moreover have "map_of ((k, f) # v # va) key = (if k = key then Some f else map_of (v # va) key)" by simp
  ultimately show ?case using IH by (simp only: m split: if_split) blast
qed

text \<open>What the accessors are for: the members of the object.\<close>

definition text_of :: "json_field option \<Rightarrow> nat \<Rightarrow> string option" where
  "text_of f n = (case f of Some (FText s) \<Rightarrow> if s = [] \<or> length s < n then Some s else None | _ \<Rightarrow> None)"

definition number_of :: "json_field option \<Rightarrow> int" where
  "number_of f = (case f of Some (FNumber v) \<Rightarrow> if v \<le> 65535 then int v else -1 | _ \<Rightarrow> -1)"

lemma lookup_field:
  assumes "plain_key key" and "\<forall>(k, f) \<in> set ms. plain_key k \<and> (\<forall>s. f = FText s \<longrightarrow> NUL \<notin> set s)"
  shows "hasKey (flat_object ms) key \<longleftrightarrow> key \<in> fst ` set ms"
    and "getString (flat_object ms) key n = text_of (map_of ms key) n"
    and "getInt (flat_object ms) key = number_of (map_of ms key)"
proof -
  have find: "jsonFindKey (flat_object ms) key = find_key key 0 (members_text ms)"
    by (simp add: jsonFindKey_def flat_object_def)
  have keys: "\<forall>(k, f) \<in> set ms. plain_key k" using assms(2) by auto
  note found = find_members [OF assms(1) keys]
  have starts: "\<not> is_digit QUOTE" "\<And>c. c = CHR '','' \<or> c = CHR ''}'' \<Longrightarrow> no_digit (c # t)" for t
    by (auto simp: is_digit_def no_digit_def)
  show "hasKey (flat_object ms) key \<longleftrightarrow> key \<in> fst ` set ms"
    using found by (cases "map_of ms key") (auto simp: finds_def hasKey_def find map_of_eq_None_iff intro: rev_image_eqI dest: map_of_SomeD)
  show "getString (flat_object ms) key n = text_of (map_of ms key) n"
  proof (cases "map_of ms key")
    case (Some f)
    then obtain c t where f: "find_key key 0 (members_text ms) = Some (field_text f @ c # t)" using found by (auto simp: finds_def)
    show ?thesis
    proof (cases f)
      case (FText s)
      have "NUL \<notin> set s" using assms(2) map_of_SomeD [OF Some] FText by auto
      then show ?thesis using Some FText by (simp add: getString_def find f text_of_def parse_quoted)
    next
      case (FNumber v)
      obtain d ds where u: "udec v = d # ds" by (metis udec_not_Nil list.exhaust)
      then have "d \<noteq> QUOTE" using udec_hd [of v] starts(1) by auto
      then show ?thesis using Some FNumber by (simp add: getString_def find f text_of_def jsonParseString_def u)
    qed
  qed (use found in \<open>simp add: finds_def getString_def find text_of_def jsonParseString_def\<close>)
  show "getInt (flat_object ms) key = number_of (map_of ms key)"
  proof (cases "map_of ms key")
    case (Some f)
    then obtain c t where f: "find_key key 0 (members_text ms) = Some (field_text f @ c # t)" and c: "c = CHR '','' \<or> c = CHR ''}''"
      using found by (auto simp: finds_def)
    show ?thesis
    proof (cases f)
      case (FText s)
      then show ?thesis using Some starts(1) by (simp add: getInt_def find f number_of_def jsonParseUInt_def json_quoted_def)
    next
      case (FNumber v)
      then show ?thesis using Some parse_uint [OF starts(2) [OF c]] by (simp add: getInt_def find f number_of_def)
    qed
  qed (use found in \<open>simp add: finds_def getInt_def find number_of_def jsonParseUInt_def\<close>)
qed

lemma object_field_is_flat:
  "jsonWriteObjectStringField cap (Some k) (Some s) =
     (if length (flat_object [(k, FText s)]) < cap then Some (flat_object [(k, FText s)]) else None)"
proof -
  have "2 \<le> length (json_quoted s)" by (simp add: json_quoted_def)
  then show ?thesis
    by (auto simp: jsonWriteObjectStringField_def append_field_eq flat_object_def Let_def)
qed

section \<open>Properties\<close>

text \<open>
  C38. Any text without a zero byte survives being written as a JSON string and read again: quotes, backslashes, control
  characters and bytes above 127 included. The writer succeeds exactly when the length that \<open>jsonQuotedLen\<close> predicts is
  less than the capacity, writes exactly that many characters, and both readers and the skipping stop exactly behind
  the closing quote; the strict reader refuses a text that does not fit its buffer, the other one cuts it.
\<close>

theorem json_string_roundtrip:
  assumes "NUL \<notin> set s"
  shows "jsonWriteQuotedString cap (Some s) = (if jsonQuotedLen (Some s) < cap then Some (json_quoted s) else None)
    \<and> length (json_quoted s) = jsonQuotedLen (Some s)
    \<and> jsonParseString n (Some (json_quoted s @ rest)) = (if s = [] \<or> length s < n then Some s else None)
    \<and> jsonReadString n (json_quoted s @ rest) = (Some (take (n - 1) s), rest)
    \<and> jsonSkipQuotedString (json_quoted s @ rest) = rest"
  using assms by (simp add: write_quoted_eq quoted_len parse_quoted read_quoted skip_quoted)

theorem json_string_roundtrip_witness:
  "jsonReadString 16 (json_quoted [CHR ''a'', QUOTE, CHR 0x0A, CHR 0x01, BACKSLASH] @ '',1'') =
     (Some [CHR ''a'', QUOTE, CHR 0x0A, CHR 0x01, BACKSLASH], '',1'')"
  using json_string_roundtrip [of "[CHR ''a'', QUOTE, CHR 0x0A, CHR 0x01, BACKSLASH]" 0 16 "'',1''"] by simp

text \<open>
  C37. Skipping consumes a well-formed value exactly, whatever its nesting, its strings and its white space, and never reads
  past the end of the text then. A closing brace where an array expects an element is different: the loop of
  \<open>jsonSkipArray\<close> does not move and never ends.
\<close>

theorem json_value_skipped:
  assumes "ws w"
  shows "(jvalue v \<and> delimited rest \<longrightarrow> jsonSkipValue z (w @ v @ rest) = Some (True, rest))
    \<and> jsonSkipArray z (w @ CHR ''}'' # rest) = None"
  using skip_well_formed(1) [of v z] skip_stuck assms by (auto simp: jsonSkipValue_def jsonSkipArray_def)

theorem json_value_skipped_witness:
  "jsonSkipValue NUL '' [1,2],x'' = Some (True, '',x'') \<and> jsonSkipArray NUL '' }'' = None"
proof -
  have one: "jvalue ''1''" "jvalue ''2''" by (rule jvalue_jmembers_jelements.scalar; simp add: scalar_end_def json_ws_def)+
  have "jelements ([] @ '']'')" by (rule jvalue_jmembers_jelements.elements_close) (simp add: ws_def)
  then have "jelements ([] @ ''2'' @ '']'')"
    by (intro jvalue_jmembers_jelements.element_value one) (simp_all add: ws_def delimited_def scalar_end_def)
  then have "jelements ([] @ '','' @ ''2]'')" by (intro jvalue_jmembers_jelements.elements_comma) (simp_all add: ws_def)
  then have "jelements ([] @ ''1'' @ '',2]'')"
    by (intro jvalue_jmembers_jelements.element_value one) (simp_all add: ws_def delimited_def scalar_end_def)
  then have "jvalue ''[1,2]''" by (auto intro: jvalue_jmembers_jelements.array)
  moreover have "ws '' ''" "delimited '',x''" by (simp_all add: ws_def json_ws_def delimited_def scalar_end_def)
  ultimately show ?thesis
    using json_value_skipped [of "'' ''" "''[1,2]''" "'',x''" NUL] json_value_skipped [of "'' ''" "''1''" "[]" NUL] by simp
qed

text \<open>
  On a flat object the accessors of \<open>SimpleJson\<close> are a lookup in the list of its members, the first of equal keys: no
  text inside a value is mistaken for a key, a number is read when it is at most 65535, a string when it fits. What
  \<open>jsonWriteObjectStringField\<close> writes is such an object.
\<close>

theorem flat_object_lookup:
  assumes "plain_key key" and "\<forall>(k, f) \<in> set ms. plain_key k \<and> (\<forall>s. f = FText s \<longrightarrow> NUL \<notin> set s)"
  shows "(hasKey (flat_object ms) key \<longleftrightarrow> key \<in> fst ` set ms)
    \<and> getString (flat_object ms) key n = text_of (map_of ms key) n
    \<and> getInt (flat_object ms) key = number_of (map_of ms key)
    \<and> jsonWriteObjectStringField cap (Some k) (Some s) =
        (if length (flat_object [(k, FText s)]) < cap then Some (flat_object [(k, FText s)]) else None)"
  using lookup_field [OF assms] object_field_is_flat by simp

theorem flat_object_lookup_witness:
  "getInt (flat_object [(''a'', FText ''n'' ), (''n'', FNumber 7)]) ''n'' = 7"
  using flat_object_lookup [of "''n''" "[(''a'', FText ''n''), (''n'', FNumber 7)]"]
  by (simp add: plain_key_def number_of_def)

text \<open>
  Brackets inside a string of a nested container are counted, so a key behind such a container is not found.
\<close>

lemma nested_string_hides_key: "jsonFindKey ''{\"a\":[\"]\"],\"id\":1}'' ''id'' = None"
  by code_simp

end
