(* ===== verification/Json_Loops.thy ===== *)
theory Json_Loops
  imports
    Json_Text Option_Programs
begin

text \<open>
  The loops of the parsers over the keys of an object and the elements of an array, the pattern that \<open>SimpleJson.hpp\<close>
  prescribes for its container iterators. A parser gives \<open>None\<close> when it does not return, the message it copies into the
  caller's error buffer (empty when it leaves the buffer alone), or what it has read and the text behind it. The loops
  are functions of their body, so one invariant rule and one termination rule serve every parser.
\<close>

type_synonym 'a parse = "(string + 'a \<times> string) option"

definition ok :: "'a \<Rightarrow> string \<Rightarrow> 'a parse" where
  "ok x rest = Some (Inr (x, rest))"

definition fail :: "string \<Rightarrow> 'a parse" where
  "fail msg = Some (Inl msg)"

definition and_then :: "'a parse \<Rightarrow> ('a \<Rightarrow> string \<Rightarrow> 'b parse) \<Rightarrow> 'b parse" where
  "and_then m f = (case m of None \<Rightarrow> None | Some (Inl e) \<Rightarrow> Some (Inl e) | Some (Inr (x, rest)) \<Rightarrow> f x rest)"

lemma and_then_simps [simp]:
  "and_then None f = None" "and_then (fail e) f = fail e" "and_then (ok x rest) f = f x rest"
  by (simp_all add: and_then_def fail_def ok_def)

lemma results_differ [simp]:
  "ok x r = ok y r' \<longleftrightarrow> x = y \<and> r = r'" "ok x r \<noteq> fail e" "fail e \<noteq> ok x r" "ok x r \<noteq> None" "fail e \<noteq> None" "None \<noteq> ok x r"
  by (auto simp: ok_def fail_def)

lemma parse_cases:
  obtains "m = None" | e where "m = fail e" | x rest where "m = ok x rest"
  unfolding ok_def fail_def by (metis not_None_eq sumE surj_pair)

text \<open>Reading a piece that is there, or failing with a message.\<close>

definition require :: "string \<Rightarrow> ('a \<times> string) option \<Rightarrow> 'a parse" where
  "require msg r = (case r of None \<Rightarrow> fail msg | Some (x, rest) \<Rightarrow> ok x rest)"

definition require_string :: "string \<Rightarrow> nat \<Rightarrow> string \<Rightarrow> string parse" where
  "require_string msg n bs = (case jsonReadString n bs of (None, _) \<Rightarrow> fail msg | (Some s, rest) \<Rightarrow> ok s rest)"

definition require_open :: "string \<Rightarrow> string option \<Rightarrow> unit parse" where
  "require_open msg r = (case r of None \<Rightarrow> fail msg | Some rest \<Rightarrow> ok () rest)"

text \<open>A call of \<open>jsonSkipValue\<close> whose answer is ignored.\<close>

definition skip_then :: "char \<Rightarrow> 's \<Rightarrow> string \<Rightarrow> 's parse" where
  "skip_then z s bs = (case jsonSkipValue z bs of None \<Rightarrow> None | Some (_, rest) \<Rightarrow> ok s rest)"

section \<open>The loops\<close>

partial_function (option) json_fields :: "nat \<Rightarrow> (string \<Rightarrow> 's \<Rightarrow> string \<Rightarrow> 's parse) \<Rightarrow> 's \<Rightarrow> string \<Rightarrow> 's parse" where
  "json_fields n body s bs =
     (case jsonNextKey n bs of
        (None, rest) \<Rightarrow> Some (Inr (s, rest))
      | (Some key, p) \<Rightarrow>
          Option.bind (body key s p)
            (\<lambda>r. case r of Inl e \<Rightarrow> Some (Inl e) | Inr (s', rest) \<Rightarrow> json_fields n body s' rest))"

partial_function (option) json_elements :: "('s \<Rightarrow> string \<Rightarrow> 's parse) \<Rightarrow> 's \<Rightarrow> string \<Rightarrow> 's parse" where
  "json_elements body s bs =
     (case jsonNextElement bs of
        (present, p) \<Rightarrow>
          if \<not> present then Some (Inr (s, p))
          else
            Option.bind (body s p)
              (\<lambda>r. case r of Inl e \<Rightarrow> Some (Inl e) | Inr (s', rest) \<Rightarrow> json_elements body s' rest))"

lemma bind_and_then:
  "Option.bind m (\<lambda>r. case r of Inl e \<Rightarrow> Some (Inl e) | Inr (s', rest) \<Rightarrow> f s' rest) = and_then m f"
  by (cases m) (auto simp: and_then_def split: sum.splits)

lemma json_fields_step:
  "json_fields n body s bs =
     (case jsonNextKey n bs of (None, rest) \<Rightarrow> ok s rest | (Some key, p) \<Rightarrow> and_then (body key s p) (json_fields n body))"
  by (subst json_fields.simps) (simp add: bind_and_then ok_def split: prod.split option.split)

lemma json_elements_step:
  "json_elements body s bs =
     (case jsonNextElement bs of (present, p) \<Rightarrow> if present then and_then (body s p) (json_elements body) else ok s p)"
  by (subst json_elements.simps) (simp add: bind_and_then ok_def split: prod.split)

section \<open>What a loop keeps\<close>

lemma and_then_ok: "and_then m f = ok y r \<longleftrightarrow> (\<exists>x rest. m = ok x rest \<and> f x rest = ok y r)"
  by (cases m rule: parse_cases) auto

lemma json_fields_keep:
  assumes "json_fields n body s bs = ok s' rest" and "I s"
    and "\<And>key s p s' rest. body key s p = ok s' rest \<Longrightarrow> I s \<Longrightarrow> I s'"
  shows "I s'"
proof -
  have "(\<forall>key s p s' rest. body key s p = ok s' rest \<longrightarrow> I s \<longrightarrow> I s') \<longrightarrow> I s \<longrightarrow> (\<forall>s' rest. y = Inr (s', rest) \<longrightarrow> I s')"
    if "json_fields n body s bs = Some y" for n body s bs y
    using that
  proof (induction rule: json_fields.raw_induct [rotated, consumes 1, case_names round])
    case (round loop n body s bs y)
    show ?case
    proof (intro impI allI)
      fix s' rest
      assume step: "\<forall>key s p s' rest. body key s p = ok s' rest \<longrightarrow> I s \<longrightarrow> I s'" and s: "I s" and y: "y = Inr (s', rest)"
      obtain k p where k: "jsonNextKey n bs = (k, p)" by (meson surj_pair)
      show "I s'"
      proof (cases k)
        case (Some key)
        then have "and_then (body key s p) (loop n body) = ok s' rest"
          using round(2) k y by (simp add: bind_and_then [symmetric] ok_def)
        then obtain s1 r1 where 1: "body key s p = ok s1 r1" "loop n body s1 r1 = ok s' rest" by (auto simp: and_then_ok)
        then have "I s1" using step s by blast
        then show ?thesis using round(1) [OF 1(2) [unfolded ok_def]] step by blast
      qed (use round(2) k y s in simp)
    qed
  qed
  then show ?thesis using assms unfolding ok_def by blast
qed

lemma json_elements_keep:
  assumes "json_elements body s bs = ok s' rest" and "I s"
    and "\<And>s p s' rest. body s p = ok s' rest \<Longrightarrow> I s \<Longrightarrow> I s'"
  shows "I s'"
proof -
  have "(\<forall>s p s' rest. body s p = ok s' rest \<longrightarrow> I s \<longrightarrow> I s') \<longrightarrow> I s \<longrightarrow> (\<forall>s' rest. y = Inr (s', rest) \<longrightarrow> I s')"
    if "json_elements body s bs = Some y" for body s bs y
    using that
  proof (induction rule: json_elements.raw_induct [rotated, consumes 1, case_names round])
    case (round loop body s bs y)
    show ?case
    proof (intro impI allI)
      fix s' rest
      assume step: "\<forall>s p s' rest. body s p = ok s' rest \<longrightarrow> I s \<longrightarrow> I s'" and s: "I s" and y: "y = Inr (s', rest)"
      obtain more_left p where k: "jsonNextElement bs = (more_left, p)" by (meson surj_pair)
      show "I s'"
      proof (cases more_left)
        case True
        then have "and_then (body s p) (loop body) = ok s' rest"
          using round(2) k y by (simp add: bind_and_then [symmetric] ok_def)
        then obtain s1 r1 where 1: "body s p = ok s1 r1" "loop body s1 r1 = ok s' rest" by (auto simp: and_then_ok)
        then have "I s1" using step s by blast
        then show ?thesis using round(1) [OF 1(2) [unfolded ok_def]] step by blast
      qed (use round(2) k y s in simp)
    qed
  qed
  then show ?thesis using assms unfolding ok_def by blast
qed

section \<open>A loop ends\<close>

text \<open>A parser that returns and leaves at most, or less than, the text it was given.\<close>

definition advances :: "'a parse \<Rightarrow> string \<Rightarrow> bool" where
  "advances m bs \<longleftrightarrow> m \<noteq> None \<and> (\<forall>x rest. m = ok x rest \<longrightarrow> suffix rest bs)"

definition consumes :: "'a parse \<Rightarrow> string \<Rightarrow> bool" where
  "consumes m bs \<longleftrightarrow> m \<noteq> None \<and> (\<forall>x rest. m = ok x rest \<longrightarrow> strict_suffix rest bs)"

lemma consumes_advances: "consumes m bs \<Longrightarrow> advances m bs"
  by (auto simp: consumes_def advances_def strict_suffix_def)

lemma advances_ok [simp]: "advances (ok x rest) bs \<longleftrightarrow> suffix rest bs" "advances (fail e) bs" "\<not> advances None bs"
  by (simp_all add: advances_def)

lemma consumes_ok [simp]: "consumes (ok x rest) bs \<longleftrightarrow> strict_suffix rest bs" "consumes (fail e) bs" "\<not> consumes None bs"
  by (simp_all add: consumes_def)

lemma advances_and_then:
  "advances m bs \<Longrightarrow> (\<And>x rest. m = ok x rest \<Longrightarrow> suffix rest bs \<Longrightarrow> advances (f x rest) rest) \<Longrightarrow> advances (and_then m f) bs"
  by (cases m rule: parse_cases) (auto simp: advances_def intro: suffix_order.trans)

lemma consumes_and_then:
  "consumes m bs \<Longrightarrow> (\<And>x rest. m = ok x rest \<Longrightarrow> strict_suffix rest bs \<Longrightarrow> advances (f x rest) rest) \<Longrightarrow> consumes (and_then m f) bs"
  by (cases m rule: parse_cases) (auto simp: advances_def consumes_def intro: suffix_order.le_less_trans)

lemma ws_suffix: "suffix (jsonSkipWs bs) bs"
  by (simp add: jsonSkipWs_def suffix_dropWhile)

lemma separators_suffix: "suffix (skip_separators bs) bs"
  by (simp add: skip_separators_def suffix_dropWhile)

lemma string_loop_suffix: "suffix (snd (string_loop put out bs)) bs"
proof (induction put out bs rule: string_loop.induct)
  case (2 put out c cs)
  obtain ch rest where d: "(if c = BACKSLASH then jsonDecodeEscapedChar cs else (Some c, cs)) = (ch, rest)" by (meson surj_pair)
  then have r: "suffix rest cs" using decode_suffix [of cs] by (auto split: if_splits)
  show ?case
  proof (cases "c = QUOTE")
    case False
    have "suffix (snd (string_loop put out' rest)) rest" if "ch = Some x" "put x out = Some out'" for x out'
      using 2 False d that by auto
    then have "suffix (snd (string_loop put out (c # cs))) cs"
      using False d r by (auto split: option.splits intro: suffix_order.trans)
    then show ?thesis by (rule suffix_ConsI)
  qed (simp add: suffix_ConsI)
qed simp

lemma strict_suffix_Cons: "suffix rest cs \<Longrightarrow> strict_suffix rest (c # cs)"
  by (auto simp: strict_suffix_def suffix_def)

lemma read_string_suffix: "jsonReadString n bs = (r, rest) \<Longrightarrow> suffix rest bs \<and> (r \<noteq> None \<longrightarrow> strict_suffix rest bs)"
proof -
  assume a: "jsonReadString n bs = (r, rest)"
  show ?thesis
  proof (cases "jsonSkipWs bs")
    case (Cons c cs)
    have s: "suffix (c # cs) bs" using ws_suffix [of bs] Cons by simp
    show ?thesis
    proof (cases "c = QUOTE")
      case True
      obtain out t where l: "string_loop (put_truncating n) [] cs = (out, t)" by (meson surj_pair)
      then have "suffix t cs" using string_loop_suffix [of "put_truncating n" "[]" cs] by simp
      then have "strict_suffix t (c # cs)" by (rule strict_suffix_Cons)
      then have "strict_suffix t bs" using s by (rule suffix_order.less_le_trans)
      then show ?thesis using a Cons True l by (auto simp: jsonReadString_def strict_suffix_def)
    qed (use a Cons s in \<open>auto simp: jsonReadString_def\<close>)
  qed (use a in \<open>auto simp: jsonReadString_def\<close>)
qed

lemma next_key_suffix: "jsonNextKey n bs = (r, rest) \<Longrightarrow> suffix rest bs \<and> (r \<noteq> None \<longrightarrow> strict_suffix rest bs)"
proof -
  assume a: "jsonNextKey n bs = (r, rest)"
  show ?thesis
  proof (cases "skip_separators bs")
    case (Cons c cs)
    have s: "suffix (c # cs) bs" "suffix cs bs" using separators_suffix [of bs] Cons by (auto intro: suffix_ConsD)
    show ?thesis
    proof (cases "c = CHR ''}''")
      case False
      obtain k p where k: "jsonReadString n (c # cs) = (k, p)" by (meson surj_pair)
      note p = read_string_suffix [OF k]
      have pb: "suffix p bs" using p s(1) by (blast intro: suffix_order.trans)
      show ?thesis
      proof (cases k)
        case None
        then show ?thesis using a Cons False k pb by (simp add: jsonNextKey_def)
      next
        case (Some key)
        then have "strict_suffix p bs" using p s(1) by (blast intro: suffix_order.less_le_trans)
        moreover have "suffix (jsonSkipWs p) p" by (rule ws_suffix)
        moreover have "suffix (jsonSkipWs ds) p" if "jsonSkipWs p = d # ds" for d ds
          using ws_suffix [of p] ws_suffix [of ds] that by (metis suffix_ConsD suffix_order.trans)
        ultimately show ?thesis using a Cons False k Some
          by (auto simp: jsonNextKey_def split: list.splits if_splits intro: suffix_order.trans suffix_order.le_less_trans)
      qed
    qed (use a Cons s in \<open>auto simp: jsonNextKey_def\<close>)
  qed (use a in \<open>auto simp: jsonNextKey_def\<close>)
qed

lemma next_element_suffix: "jsonNextElement bs = (r, rest) \<Longrightarrow> suffix rest bs"
  using separators_suffix [of bs] by (auto simp: jsonNextElement_def split: list.splits if_splits intro: suffix_ConsD)

lemma json_fields_advances:
  "(\<And>key s p. suffix p bs \<Longrightarrow> advances (body key s p) p) \<Longrightarrow> advances (json_fields n body s bs) bs"
proof (induction bs arbitrary: s rule: measure_induct_rule [where f = length])
  case (less bs)
  obtain k p where k: "jsonNextKey n bs = (k, p)" by (meson surj_pair)
  note p = next_key_suffix [OF k]
  show ?case
  proof (cases k)
    case (Some key)
    have "advances (and_then (body key s p) (json_fields n body)) p"
    proof (rule advances_and_then)
      show "advances (body key s p) p" using p by (intro less.prems) simp
      fix s' rest assume r: "suffix rest p"
      then have "length rest < length bs" using p Some suffix_length_le [OF r] suffix_length_less [of p bs] by auto
      moreover have "suffix rest bs" using r p by (blast intro: suffix_order.trans)
      ultimately show "advances (json_fields n body s' rest) rest"
        by (intro less.IH less.prems) (auto intro: suffix_order.trans)
    qed
    then show ?thesis using p Some k by (auto simp: json_fields_step [of n body s bs] advances_def intro: suffix_order.trans)
  qed (use k p in \<open>simp add: json_fields_step [of n body s bs]\<close>)
qed

lemma json_elements_advances:
  "(\<And>s p. suffix p bs \<Longrightarrow> consumes (body s p) p) \<Longrightarrow> advances (json_elements body s bs) bs"
proof (induction bs arbitrary: s rule: measure_induct_rule [where f = length])
  case (less bs)
  obtain b p where b: "jsonNextElement bs = (b, p)" by (meson surj_pair)
  note p = next_element_suffix [OF b]
  show ?case
  proof (cases b)
    case True
    have c: "consumes (body s p) p" using p by (intro less.prems)
    have "advances (and_then (body s p) (json_elements body)) p"
    proof (rule advances_and_then)
      show "advances (body s p) p" using c by (rule consumes_advances)
      fix s' rest assume "body s p = ok s' rest"
      then have r: "strict_suffix rest p" using c by (simp add: consumes_def)
      then have "length rest < length bs" using suffix_length_less [OF r] suffix_length_le [OF p] by simp
      moreover have "suffix rest bs" using r p by (auto simp: strict_suffix_def intro: suffix_order.trans)
      ultimately show "advances (json_elements body s' rest) rest"
        by (intro less.IH less.prems) (auto intro: suffix_order.trans)
    qed
    then show ?thesis using p True b by (auto simp: json_elements_step [of body s bs] advances_def intro: suffix_order.trans)
  qed (use b p in \<open>simp add: json_elements_step [of body s bs]\<close>)
qed

lemma skip_suffix: "json_skip z mode bs = Some (b, rest) \<Longrightarrow> suffix rest bs"
proof -
  have "suffix (snd y) bs" if "json_skip z mode bs = Some y" for z mode bs and y :: "bool \<times> string"
    using that
  proof (induction rule: json_skip.raw_induct [rotated, consumes 1, case_names round])
    case (round skip z mode bs y)
    have w: "suffix (jsonSkipWs bs) bs" by (rule ws_suffix)
    show ?case
    proof (cases "jsonSkipWs bs")
      case Nil
      then show ?thesis using round(2) by (cases mode) (auto split: if_splits)
    next
      case (Cons c cs)
      have cs: "suffix (c # cs) bs" "suffix cs bs" using w Cons by (auto intro: suffix_ConsD)
      have rec: "suffix (snd y) bs" if "skip z m t = Some y" "suffix t bs" for m t
        using round(1) [OF that(1)] that(2) by (rule suffix_order.trans)
      have q: "suffix (quoted_tail cs) bs" using quoted_tail_suffix cs(2) by (rule suffix_order.trans)
      have after: "suffix (snd y) bs"
        if v: "Option.bind (skip z SkipValue t) (\<lambda>(b, rest). if b then skip z m rest else Some (False, rest)) = Some y" and t: "suffix t bs" for t m
      proof -
        obtain b r where r: "skip z SkipValue t = Some (b, r)" "(if b then skip z m r else Some (False, r)) = Some y"
          using v by (auto simp: bind_eq_Some_conv)
        have "suffix r bs" using round(1) [OF r(1)] t by (auto intro: suffix_order.trans)
        then show ?thesis using r(2) rec by (auto split: if_splits)
      qed
      have "suffix (dropWhile (\<lambda>c. \<not> scalar_end c) (c # cs)) bs" using suffix_dropWhile cs(1) by (rule suffix_order.trans)
      then show ?thesis using round(2) Cons cs q after rec by (cases mode) (auto split: if_splits)
    qed
  qed
  then show "json_skip z mode bs = Some (b, rest) \<Longrightarrow> ?thesis" by force
qed

text \<open>The texts on which skipping a value returns, wherever the cursor is.\<close>

definition skippable :: "char \<Rightarrow> string \<Rightarrow> bool" where
  "skippable z bs \<longleftrightarrow> (\<forall>s. suffix s bs \<longrightarrow> jsonSkipValue z s \<noteq> None)"

lemma skippable_suffix: "skippable z bs \<Longrightarrow> suffix p bs \<Longrightarrow> skippable z p"
  unfolding skippable_def by (blast intro: suffix_order.trans)

lemma skip_then_advances: "skippable z bs \<Longrightarrow> advances (skip_then z s bs) bs"
  unfolding skippable_def skip_then_def jsonSkipValue_def by (auto split: option.splits intro: skip_suffix)

section \<open>Rules that follow the shape of a parser\<close>

text \<open>What a parser gives when it succeeds.\<close>

definition gives :: "('a \<Rightarrow> bool) \<Rightarrow> 'a parse \<Rightarrow> bool" where
  "gives P m \<longleftrightarrow> (\<forall>x rest. m = ok x rest \<longrightarrow> P x)"

named_theorems gives_rules \<open>what the parts of a parser give\<close>
named_theorems advances_rules \<open>that the parts of a parser return and advance\<close>

lemma givesD: "gives P m \<Longrightarrow> m = ok x rest \<Longrightarrow> P x"
  by (simp add: gives_def)

lemma gives_basic [simp]: "gives P (ok x rest) \<longleftrightarrow> P x" "gives P (fail e)" "gives P None"
  by (auto simp: gives_def)

lemma gives_and_then [gives_rules]: "(\<And>x rest. m = ok x rest \<Longrightarrow> gives P (f x rest)) \<Longrightarrow> gives P (and_then m f)"
  by (auto simp: gives_def and_then_ok)

lemma gives_seq: "gives Q m \<Longrightarrow> (\<And>x rest. Q x \<Longrightarrow> gives P (f x rest)) \<Longrightarrow> gives P (and_then m f)"
  unfolding gives_def and_then_ok by blast

lemma gives_if [gives_rules]: "(c \<Longrightarrow> gives P a) \<Longrightarrow> (\<not> c \<Longrightarrow> gives P b) \<Longrightarrow> gives P (if c then a else b)"
  by simp

lemma gives_let [gives_rules]: "(\<And>x. x = e \<Longrightarrow> gives P (f x)) \<Longrightarrow> gives P (let x = e in f x)"
  by simp

lemma gives_prod [gives_rules]: "(\<And>a b. p = (a, b) \<Longrightarrow> gives P (f a b)) \<Longrightarrow> gives P (case p of (a, b) \<Rightarrow> f a b)"
  by (cases p) simp

lemma gives_option [gives_rules]: "(x = None \<Longrightarrow> gives P a) \<Longrightarrow> (\<And>y. x = Some y \<Longrightarrow> gives P (f y)) \<Longrightarrow> gives P (case x of None \<Rightarrow> a | Some y \<Rightarrow> f y)"
  by (cases x) simp_all

lemma gives_fields:
  "I s \<Longrightarrow> (\<And>key s p. I s \<Longrightarrow> gives I (body key s p)) \<Longrightarrow> gives I (json_fields n body s bs)"
  unfolding gives_def using json_fields_keep [where I = I] by blast

lemma gives_elements: "I s \<Longrightarrow> (\<And>s p. I s \<Longrightarrow> gives I (body s p)) \<Longrightarrow> gives I (json_elements body s bs)"
  unfolding gives_def using json_elements_keep [where I = I] by blast

lemma gives_skip: "P s \<Longrightarrow> gives P (skip_then z s bs)"
  by (auto simp: skip_then_def split: option.splits)

declare advances_and_then [advances_rules]

lemma advances_if [advances_rules]: "(c \<Longrightarrow> advances a bs) \<Longrightarrow> (\<not> c \<Longrightarrow> advances b bs) \<Longrightarrow> advances (if c then a else b) bs"
  by simp

lemma advances_let [advances_rules]: "(\<And>x. x = e \<Longrightarrow> advances (f x) bs) \<Longrightarrow> advances (let x = e in f x) bs"
  by simp

lemma advances_prod [advances_rules]: "(\<And>a b. p = (a, b) \<Longrightarrow> advances (f a b) bs) \<Longrightarrow> advances (case p of (a, b) \<Rightarrow> f a b) bs"
  by (cases p) simp

lemma advances_option [advances_rules]:
  "(x = None \<Longrightarrow> advances a bs) \<Longrightarrow> (\<And>y. x = Some y \<Longrightarrow> advances (f y) bs) \<Longrightarrow> advances (case x of None \<Rightarrow> a | Some y \<Rightarrow> f y) bs"
  by (cases x) simp_all

section \<open>A loop on a written text\<close>

fun comma_sep :: "string list \<Rightarrow> string" where
  "comma_sep [] = []"
| "comma_sep [t] = t"
| "comma_sep (t # ts) = t @ '','' @ comma_sep ts"

text \<open>A text that is found where it starts, and what may follow it inside an array or an object.\<close>

definition starts_value :: "string \<Rightarrow> bool" where
  "starts_value t \<longleftrightarrow> t \<noteq> [] \<and> \<not> json_ws (hd t) \<and> hd t \<noteq> CHR '','' \<and> hd t \<noteq> CHR '']''"

definition ends_value :: "string \<Rightarrow> bool" where
  "ends_value r \<longleftrightarrow> r \<noteq> [] \<and> hd r \<in> {CHR '','', CHR '']'', CHR ''}''}"

lemma next_element_value:
  "starts_value t \<Longrightarrow> jsonNextElement (t @ r) = (True, t @ r)" "starts_value t \<Longrightarrow> jsonNextElement (CHR '','' # t @ r) = (True, t @ r)"
  by (cases t; simp add: starts_value_def jsonNextElement_def skip_separators_def)+

lemma next_element_close:
  "jsonNextElement (CHR '']'' # r) = (False, r)"
  by (simp add: jsonNextElement_def skip_separators_def json_ws_def)

lemma elements_written:
  assumes "list_all starts_value ts" and "I 0 s"
    and "\<And>k s r. k < length ts \<Longrightarrow> I k s \<Longrightarrow> ends_value r \<Longrightarrow> \<exists>s'. body s (ts ! k @ r) = ok s' r \<and> I (Suc k) s'"
  shows "\<exists>s'. json_elements body s (comma_sep ts @ CHR '']'' # rest) = ok s' rest \<and> I (length ts) s'"
  using assms
proof (induction ts arbitrary: I s rule: comma_sep.induct)
  case 1
  then show ?case by (simp add: json_elements_step next_element_close)
next
  case (2 t)
  have "ends_value (CHR '']'' # rest)" by (simp add: ends_value_def)
  then obtain s' where "body s (t @ CHR '']'' # rest) = ok s' (CHR '']'' # rest)" "I 1 s'" using "2.prems"(3) [of 0 s] "2.prems"(2) by auto
  then show ?case using "2.prems"(1) by (simp add: json_elements_step [of body s] json_elements_step [of body s'] next_element_value next_element_close)
next
  case (3 t u us)
  let ?r = "CHR '','' # comma_sep (u # us) @ CHR '']'' # rest"
  have "ends_value ?r" by (simp add: ends_value_def)
  then obtain s1 where s1: "body s (t @ ?r) = ok s1 ?r" "I 1 s1" using "3.prems"(3) [of 0 s] "3.prems"(2) by auto
  have "\<exists>s'. json_elements body s1 (comma_sep (u # us) @ CHR '']'' # rest) = ok s' rest \<and> I (Suc (length (u # us))) s'"
  proof (rule "3.IH" [where I = "\<lambda>k. I (Suc k)"])
    show "list_all starts_value (u # us)" using "3.prems"(1) by simp
    show "I (Suc 0) s1" using s1(2) by simp
    show "\<exists>s'. body s ((u # us) ! k @ r) = ok s' r \<and> I (Suc (Suc k)) s'"
      if "k < length (u # us)" "I (Suc k) s" "ends_value r" for k s r
      using "3.prems"(3) [of "Suc k" s r] that by simp
  qed
  moreover have "json_elements body s1 ?r = json_elements body s1 (comma_sep (u # us) @ CHR '']'' # rest)"
    by (simp add: json_elements_step [of body s1] jsonNextElement_def skip_separators_def)
  ultimately show ?case using s1(1) "3.prems"(1) by (simp add: json_elements_step [of body s] next_element_value)
qed

definition member_text :: "string \<times> string \<Rightarrow> string" where
  "member_text kv = json_quoted (fst kv) @ CHR '':'' # snd kv"

text \<open>A member whose key fits the buffer for keys.\<close>

definition starts_member :: "nat \<Rightarrow> string \<times> string \<Rightarrow> bool" where
  "starts_member n kv \<longleftrightarrow> NUL \<notin> set (fst kv) \<and> length (fst kv) < n \<and> snd kv \<noteq> [] \<and> \<not> json_ws (hd (snd kv))"

lemma next_key_member:
  assumes "starts_member n (k, v)" and "sep = [] \<or> sep = '',''"
  shows "jsonNextKey n (sep @ member_text (k, v) @ r) = (Some k, v @ r)"
proof -
  have k: "NUL \<notin> set k" "length k < n" and v: "jsonSkipWs (v @ r) = v @ r"
    using assms(1) by (cases v; simp add: starts_member_def jsonSkipWs_def)+
  have "skip_separators (sep @ json_quoted k @ CHR '':'' # v @ r) = json_quoted k @ CHR '':'' # v @ r"
    using assms(2) by (auto simp: skip_separators_def json_quoted_def json_ws_def)
  moreover obtain t where "json_quoted k = QUOTE # t" by (simp add: json_quoted_def)
  ultimately show ?thesis using read_quoted [OF k(1), of n "CHR '':'' # v @ r"] k(2) v
    by (simp add: jsonNextKey_def member_text_def)
qed

lemma next_key_close: "jsonNextKey n (CHR ''}'' # rest) = (None, rest)"
  by (simp add: jsonNextKey_def skip_separators_def json_ws_def)

lemma fields_written:
  assumes "list_all (starts_member n) ms" and "I 0 s"
    and "\<And>j s r. j < length ms \<Longrightarrow> I j s \<Longrightarrow> ends_value r \<Longrightarrow>
           \<exists>s'. body (fst (ms ! j)) s (snd (ms ! j) @ r) = ok s' r \<and> I (Suc j) s'"
  shows "\<exists>s'. json_fields n body s (comma_sep (map member_text ms) @ CHR ''}'' # rest) = ok s' rest \<and> I (length ms) s'"
proof -
  have "\<exists>s'. json_fields n body s (sep @ comma_sep (map member_text ms) @ CHR ''}'' # rest) = ok s' rest \<and> I (length ms) s'"
    if "list_all (starts_member n) ms" "I 0 s" "sep = [] \<or> sep = '','' \<and> ms \<noteq> []"
      and "\<And>j s r. j < length ms \<Longrightarrow> I j s \<Longrightarrow> ends_value r \<Longrightarrow>
           \<exists>s'. body (fst (ms ! j)) s (snd (ms ! j) @ r) = ok s' r \<and> I (Suc j) s'" for ms I s sep
    using that
  proof (induction ms arbitrary: I s sep)
    case Nil
    then show ?case by (simp add: json_fields_step [of n body s] next_key_close)
  next
    case (Cons kv ms)
    obtain k v where kv: "kv = (k, v)" by (rule prod.exhaust)
    define sep' :: string where "sep' = (if ms = [] then [] else '','')"
    define r where "r = sep' @ comma_sep (map member_text ms) @ CHR ''}'' # rest"
    have split: "comma_sep (map member_text (kv # ms)) @ CHR ''}'' # rest = member_text (k, v) @ r"
      by (cases ms) (simp_all add: r_def sep'_def kv)
    have "ends_value r" by (cases ms) (simp_all add: r_def sep'_def ends_value_def)
    then obtain s1 where s1: "body k s (v @ r) = ok s1 r" "I (Suc 0) s1" using Cons.prems(4) [of 0 s r] Cons.prems(2) kv by auto
    have "\<exists>s'. json_fields n body s1 (sep' @ comma_sep (map member_text ms) @ CHR ''}'' # rest) = ok s' rest \<and> I (Suc (length ms)) s'"
    proof (rule Cons.IH [where I = "\<lambda>j. I (Suc j)"])
      show "list_all (starts_member n) ms" using Cons.prems(1) by simp
      show "I (Suc 0) s1" by (rule s1(2))
      show "sep' = [] \<or> sep' = '','' \<and> ms \<noteq> []" by (simp add: sep'_def)
      show "\<exists>s'. body (fst (ms ! j)) s (snd (ms ! j) @ r) = ok s' r \<and> I (Suc (Suc j)) s'"
        if "j < length ms" "I (Suc j) s" "ends_value r" for j s r
        using Cons.prems(4) [of "Suc j" s r] that by simp
    qed
    moreover have "json_fields n body s (sep @ member_text (k, v) @ r) = json_fields n body s1 r"
      using next_key_member [of n k v sep r] Cons.prems(1,3) s1(1) kv by (auto simp: json_fields_step [of n body s])
    ultimately show ?case by (simp only: split) (simp add: r_def)
  qed
  then show ?thesis using assms(1,2,3) by (metis append_Nil)
qed

end
