(* ===== verification/Json_Written.thy ===== *)
theory Json_Written
  imports
    Json_Loops
begin

text \<open>
  Reading back what was written: an object or an array is read one member after the other, so the effect of a whole
  written container is the chain of the effects of its members.
\<close>

section \<open>Chains of members\<close>

inductive reads :: "nat \<Rightarrow> (string \<Rightarrow> 's \<Rightarrow> string \<Rightarrow> 's parse) \<Rightarrow> (string \<times> string) list \<Rightarrow> 's \<Rightarrow> 's \<Rightarrow> bool"
  for n :: nat and body :: "string \<Rightarrow> 's \<Rightarrow> string \<Rightarrow> 's parse" where
  reads_none: "reads n body [] s s"
| reads_member:
    "starts_member n (k, v) \<Longrightarrow> \<forall>r. ends_value r \<longrightarrow> body k s (v @ r) = ok s1 r \<Longrightarrow> reads n body ms s1 s'
      \<Longrightarrow> reads n body ((k, v) # ms) s s'"

inductive reads_all :: "('s \<Rightarrow> string \<Rightarrow> 's parse) \<Rightarrow> string list \<Rightarrow> 's \<Rightarrow> 's \<Rightarrow> bool"
  for body :: "'s \<Rightarrow> string \<Rightarrow> 's parse" where
  all_none: "reads_all body [] s s"
| all_element:
    "starts_value t \<Longrightarrow> \<forall>r. ends_value r \<longrightarrow> body s (t @ r) = ok s1 r \<Longrightarrow> reads_all body ts s1 s'
      \<Longrightarrow> reads_all body (t # ts) s s'"

lemma reads_append: "reads n body ms s s1 \<Longrightarrow> reads n body ms' s1 s' \<Longrightarrow> reads n body (ms @ ms') s s'"
  by (induction rule: reads.induct) (auto intro: reads_member)

lemma reads_one: "starts_member n (k, v) \<Longrightarrow> (\<And>r. ends_value r \<Longrightarrow> body k s (v @ r) = ok s' r) \<Longrightarrow> reads n body [(k, v)] s s'"
  by (auto intro: reads_member reads_none)

lemma all_append: "reads_all body ts s s1 \<Longrightarrow> reads_all body ts' s1 s' \<Longrightarrow> reads_all body (ts @ ts') s s'"
  by (induction rule: reads_all.induct) (auto intro: all_element)

lemma all_one: "starts_value t \<Longrightarrow> (\<And>r. ends_value r \<Longrightarrow> body s (t @ r) = ok s' r) \<Longrightarrow> reads_all body [t] s s'"
  by (auto intro: all_element all_none)

text \<open>A member that is written under a condition, and whose effect is nothing when it is not.\<close>

definition opt :: "bool \<Rightarrow> 'a \<Rightarrow> 'a list" where
  "opt c x = (if c then [x] else [])"

lemma reads_opt:
  assumes "c \<Longrightarrow> reads n body [m] s s'" and "\<not> c \<Longrightarrow> s' = s"
  shows "reads n body (opt c m) s s'"
  using assms by (cases c) (auto simp: opt_def intro: reads_none)

section \<open>The loops\<close>

lemma ends_after: "ends_value (CHR '','' # r)" "ends_value (CHR '']'' # r)" "ends_value (CHR ''}'' # r)"
  by (simp_all add: ends_value_def)

lemma reads_fields_sep:
  assumes "reads n body ms s s'" and "sep = [] \<or> sep = '','' \<and> ms \<noteq> []"
  shows "json_fields n body s (sep @ comma_sep (map member_text ms) @ CHR ''}'' # rest) = ok s' rest"
  using assms
proof (induction arbitrary: sep rule: reads.induct)
  case (reads_none s)
  then show ?case by (simp add: json_fields_step [of n body s] next_key_close)
next
  case (reads_member k v s s1 ms s')
  define sep' :: string where "sep' = (if ms = [] then [] else '','')"
  define r where "r = sep' @ comma_sep (map member_text ms) @ CHR ''}'' # rest"
  have split: "comma_sep (map member_text ((k, v) # ms)) @ CHR ''}'' # rest = member_text (k, v) @ r"
    by (cases ms) (simp_all add: r_def sep'_def)
  have "ends_value r" by (cases ms) (simp_all add: r_def sep'_def ends_after)
  then have "body k s (v @ r) = ok s1 r" using reads_member.hyps(2) by simp
  moreover have "json_fields n body s1 r = ok s' rest" unfolding r_def by (rule reads_member.IH) (simp add: sep'_def)
  moreover have "jsonNextKey n (sep @ member_text (k, v) @ r) = (Some k, v @ r)"
    using next_key_member [OF reads_member.hyps(1)] reads_member.prems by auto
  ultimately show ?case unfolding split by (simp add: json_fields_step [of n body s])
qed

lemma reads_fields: "reads n body ms s s' \<Longrightarrow> json_fields n body s (comma_sep (map member_text ms) @ CHR ''}'' # rest) = ok s' rest"
  using reads_fields_sep [where sep = "[]"] by simp

lemma reads_elements_sep:
  assumes "reads_all body ts s s'" and "sep = [] \<or> sep = '','' \<and> ts \<noteq> []"
  shows "json_elements body s (sep @ comma_sep ts @ CHR '']'' # rest) = ok s' rest"
  using assms
proof (induction arbitrary: sep rule: reads_all.induct)
  case (all_none s)
  then show ?case by (simp add: json_elements_step [of body s] next_element_close)
next
  case (all_element t s s1 ts s')
  define sep' :: string where "sep' = (if ts = [] then [] else '','')"
  define r where "r = sep' @ comma_sep ts @ CHR '']'' # rest"
  have split: "comma_sep (t # ts) @ CHR '']'' # rest = t @ r"
    by (cases ts) (simp_all add: r_def sep'_def)
  have "ends_value r" by (cases ts) (simp_all add: r_def sep'_def ends_after)
  then have "body s (t @ r) = ok s1 r" using all_element.hyps(2) by simp
  moreover have "json_elements body s1 r = ok s' rest" unfolding r_def by (rule all_element.IH) (simp add: sep'_def)
  moreover have "jsonNextElement (sep @ t @ r) = (True, t @ r)"
    using next_element_value [OF all_element.hyps(1)] all_element.prems by auto
  ultimately show ?case unfolding split by (simp add: json_elements_step [of body s])
qed

lemma reads_elements: "reads_all body ts s s' \<Longrightarrow> json_elements body s (comma_sep ts @ CHR '']'' # rest) = ok s' rest"
  using reads_elements_sep [where sep = "[]"] by simp

text \<open>The text of a container, when its parts are written one after the other with a comma in front of all but the first.\<close>

lemma comma_sep_Cons: "comma_sep (t # ts) = t @ concat (map (\<lambda>t. CHR '','' # t) ts)"
  by (induction ts arbitrary: t) simp_all

lemma map_opt [simp]: "map g (opt c x) = opt c (g x)"
  by (simp add: opt_def)

lemma concat_map_opt [simp]: "concat (map f (opt c x)) = concat (opt c (f x))"
  by (simp add: opt_def)

definition object_text :: "(string \<times> string) list \<Rightarrow> string" where
  "object_text ms = CHR ''{'' # comma_sep (map member_text ms) @ ''}''"

definition array_text :: "string list \<Rightarrow> string" where
  "array_text ts = CHR ''['' # comma_sep ts @ '']''"

lemma enter_object: "jsonEnterObject (object_text ms @ rest) = Some (comma_sep (map member_text ms) @ CHR ''}'' # rest)"
  by (simp add: jsonEnterObject_def object_text_def no_ws json_ws_def)

lemma enter_array: "jsonEnterArray (array_text ts @ rest) = Some (comma_sep ts @ CHR '']'' # rest)"
  by (simp add: jsonEnterArray_def array_text_def no_ws json_ws_def)

section \<open>Values\<close>

lemma ends_no_digit: "ends_value r \<Longrightarrow> no_digit r"
  by (cases r) (auto simp: ends_value_def no_digit_def is_digit_def)

lemma value_string: "NUL \<notin> set s \<Longrightarrow> length s < n \<Longrightarrow> require_string msg n (json_quoted s @ r) = ok s r"
  by (simp add: require_string_def read_quoted)

lemma value_bool: "jsonReadBool (''true'' @ r) = Some (True, r)" "jsonReadBool (''false'' @ r) = Some (False, r)"
  by (simp_all add: jsonReadBool_def jsonSkipWs_def json_ws_def)

text \<open>Texts that need no escape.\<close>

definition plain_char :: "char \<Rightarrow> bool" where
  "plain_char c \<longleftrightarrow> 32 \<le> (of_char c :: nat) \<and> c \<noteq> QUOTE \<and> c \<noteq> BACKSLASH"

lemma plain_content: "list_all plain_char s \<Longrightarrow> json_content s = s"
  by (induction s) (auto simp: plain_char_def escape_plain not_le)

lemma plain_quoted: "list_all plain_char s \<Longrightarrow> json_quoted s = QUOTE # s @ [QUOTE]"
  by (simp add: json_quoted_def plain_content)

lemma nul_not_plain: "\<not> plain_char NUL"
  by (simp add: plain_char_def)

lemma plain_no_nul: "list_all plain_char s \<Longrightarrow> NUL \<notin> set s"
  using nul_not_plain by (auto simp: list_all_iff)

lemma hex_plain: "list_all plain_char (jsonFormatHex r g b)"
proof -
  have "plain_char (hx_upper v)" if "unat v < 16" for v
  proof -
    have "list_all plain_char ''0123456789ABCDEF''" by code_simp
    then show ?thesis using that by (simp add: hx_upper_def list_all_length)
  qed
  then show ?thesis using nibbles by (simp add: jsonFormatHex_def) (simp add: plain_char_def)
qed

lemma hex_length: "length (jsonFormatHex r g b) = 7"
  by (simp add: jsonFormatHex_def)

lemma member_starts: "NUL \<notin> set k \<Longrightarrow> length k < n \<Longrightarrow> v \<noteq> [] \<Longrightarrow> \<not> json_ws (hd v) \<Longrightarrow> starts_member n (k, v)"
  by (simp add: starts_member_def)

lemma value_heads [simp]:
  "json_quoted s \<noteq> []" "\<not> json_ws (hd (json_quoted s))" "object_text ms \<noteq> []" "\<not> json_ws (hd (object_text ms))"
  "array_text ts \<noteq> []" "\<not> json_ws (hd (array_text ts))" "\<not> json_ws (hd (udec n))"
  using digit_not_ws [OF udec_hd] by (simp_all add: json_quoted_def object_text_def array_text_def json_ws_def)

lemma object_starts [simp]: "starts_value (object_text ms)"
  by (simp add: starts_value_def object_text_def json_ws_def)

lemma uint_starts [simp]: "starts_value (udec n)"
  using udec_hd [of n] digit_not_ws [OF udec_hd] by (auto simp: starts_value_def is_digit_def)

end
