(* ===== verification/Selector_Parser.thy ===== *)
theory Selector_Parser
  imports
    Json_Written Panel_Selector
begin

text \<open>
  The parser of a layer's \<open>panels\<close> value (\<open>Core/Controller/PanelSelectorParser.hpp\<close>) into a selector program. A written
  selector has a meaning as a selector expression; the parser emits the program of that expression.
\<close>

section \<open>The code\<close>

definition SEL_MAX_INDEX_LIST :: nat where "SEL_MAX_INDEX_LIST = 32"

definition too_complex :: string where "too_complex = ''panels: too complex''"

definition selTokUInt :: "string \<Rightarrow> (nat \<times> string) option" where
  "selTokUInt s = (case s of [] \<Rightarrow> None | c # _ \<Rightarrow> if is_digit c then uint_digits 0 s else None)"

definition selTokFloat :: "string \<Rightarrow> (real \<times> string) option" where
  "selTokFloat s = decimal s"

text \<open>Emitting bytes one after the other, up to the first that does not fit; \<open>msg\<close> is the complaint about it.\<close>

fun sel_emits :: "u8 list \<Rightarrow> PanelSelector \<Rightarrow> PanelSelector option" where
  "sel_emits [] out = Some out"
| "sel_emits (b # bs) out = (case sel_emit b out of (True, out') \<Rightarrow> sel_emits bs out' | (False, _) \<Rightarrow> None)"

definition emit_or :: "string \<Rightarrow> u8 list \<Rightarrow> PanelSelector \<Rightarrow> string + PanelSelector" where
  "emit_or msg bs out = (case sel_emits bs out of None \<Rightarrow> Inl msg | Some out' \<Rightarrow> Inr out')"

definition selector_word :: "string \<Rightarrow> u8 option" where
  "selector_word tok =
     (if tok = ''all'' then Some SEL_ALL
      else if tok = ''root'' then Some SEL_ROOT
      else if tok = ''leaves'' then Some SEL_LEAVES
      else if tok = ''branches'' then Some SEL_BRANCHES
      else if tok = ''even'' then Some SEL_EVEN
      else if tok = ''odd'' then Some SEL_ODD
      else None)"

definition emit_depth :: "string \<Rightarrow> PanelSelector \<Rightarrow> string + PanelSelector" where
  "emit_depth a out =
     (case selTokUInt a of
        None \<Rightarrow> Inl ''depth: bad range''
      | Some (l, a) \<Rightarrow>
          (case (if a \<noteq> [] \<and> hd a = CHR ''-'' then selTokUInt (tl a) else Some (l, a)) of
             None \<Rightarrow> Inl ''depth: bad range''
           | Some (h, _) \<Rightarrow>
               if 255 < l \<or> 255 < h then Inl ''depth: out of range''
               else emit_or [] [SEL_DEPTH, of_nat l, of_nat h] out))"

definition emit_index :: "string \<Rightarrow> u8 \<Rightarrow> string \<Rightarrow> PanelSelector \<Rightarrow> string + PanelSelector" where
  "emit_index msg op a out =
     (case selTokUInt a of
        None \<Rightarrow> Inl msg
      | Some (v, _) \<Rightarrow> if v = 0 \<or> 255 < v then Inl msg else emit_or [] [op, of_nat v] out)"

definition emit_fraction :: "string \<Rightarrow> PanelSelector \<Rightarrow> string + PanelSelector" where
  "emit_fraction a out =
     (case selTokFloat a of
        None \<Rightarrow> Inl ''fraction: bad range''
      | Some (l, a) \<Rightarrow>
          (case a of
             [] \<Rightarrow> Inl ''fraction: expected a-b''
           | c # a \<Rightarrow>
               if c \<noteq> CHR ''-'' then Inl ''fraction: expected a-b''
               else
                 (case selTokFloat a of
                    None \<Rightarrow> Inl ''fraction: bad range''
                  | Some (h, _) \<Rightarrow>
                      (let l = (if l < 0 then 0 else l); h = (if 1 < h then 1 else h)
                       in emit_or [] [SEL_FRACTION, word_of_int (trunc (fl (fl (l * 255) + fl (1 / 2)))),
                            word_of_int (trunc (fl (fl (h * 255) + fl (1 / 2))))] out))))"

definition selEmitToken :: "string \<Rightarrow> PanelSelector \<Rightarrow> string + PanelSelector" where
  "selEmitToken s out =
     (let tok = takeWhile (\<lambda>c. c \<noteq> CHR '':'') s
      in if CHR '':'' \<notin> set s then
           (case selector_word tok of
              Some op \<Rightarrow> emit_or too_complex [op] out
            | None \<Rightarrow> Inl ''panels: unknown selector'')
         else
           (let a = drop (length tok + 1) s
            in if tok = ''depth'' then emit_depth a out
               else if tok = ''subtree'' \<or> tok = ''neighbors'' then
                 emit_index ''subtree/neighbors: bad index'' (if tok = ''subtree'' then SEL_SUBTREE else SEL_NEIGHBORS) a out
               else if tok = ''first'' \<or> tok = ''last'' then
                 emit_index ''first/last: bad count'' (if tok = ''first'' then SEL_FIRST else SEL_LAST) a out
               else if tok = ''fraction'' then emit_fraction a out
               else Inl ''panels: unknown selector''))"

text \<open>An index array behind its bracket.\<close>

definition index_element :: "u8 list \<Rightarrow> string \<Rightarrow> u8 list parse" where
  "index_element tmp p =
     (case jsonReadUInt p of
        None \<Rightarrow> fail ''panels[]: invalid index (panels start at 1)''
      | Some (v, rest) \<Rightarrow>
          if v = 0 \<or> 255 < v then fail ''panels[]: invalid index (panels start at 1)''
          else if SEL_MAX_INDEX_LIST \<le> length tmp then fail ''panels[]: too many''
          else ok (tmp @ [of_nat v]) rest)"

definition emit_ok :: "string + PanelSelector \<Rightarrow> string \<Rightarrow> PanelSelector parse" where
  "emit_ok r rest = (case r of Inl e \<Rightarrow> fail e | Inr out \<Rightarrow> ok out rest)"

definition selEmitIndexArray :: "PanelSelector \<Rightarrow> bool \<Rightarrow> string \<Rightarrow> PanelSelector parse" where
  "selEmitIndexArray out complement p =
     and_then (json_elements index_element [] p) (\<lambda>tmp rest.
       if tmp = [] then fail ''panels[]: empty list''
       else
         emit_ok (emit_or too_complex
           (SEL_INDICES # of_nat (length tmp) # tmp @ (if complement then [SEL_NOT] else [])) out) rest)"

text \<open>
  The composition keys. \<open>self\<close> is the recursive call, one level deeper; the state of the loop over the keys is the program
  and whether a composition key was seen, the state of the loop over operands is the program and \<open>cnt\<close>.
\<close>

definition operand :: "(PanelSelector \<Rightarrow> string \<Rightarrow> PanelSelector parse) \<Rightarrow> u8 \<Rightarrow> PanelSelector \<times> u8 \<Rightarrow> string \<Rightarrow> (PanelSelector \<times> u8) parse" where
  "operand self op st p =
     (case st of (out, cnt) \<Rightarrow>
        and_then (self out p) (\<lambda>out rest.
          if 2 \<le> cnt + 1
          then and_then (emit_ok (emit_or too_complex [op] out) rest) (\<lambda>out rest. ok (out, cnt + 1) rest)
          else ok (out, cnt + 1) rest))"

definition one_key :: string where "one_key = ''panels: one composition key per object''"

definition composition_key ::
  "char \<Rightarrow> (PanelSelector \<Rightarrow> string \<Rightarrow> PanelSelector parse) \<Rightarrow> string \<Rightarrow> PanelSelector \<times> bool \<Rightarrow> string
     \<Rightarrow> (PanelSelector \<times> bool) parse" where
  "composition_key z self key st p =
     (case st of (out, got) \<Rightarrow>
        if key = ''any'' \<or> key = ''all'' then
          if got then fail one_key
          else
            and_then (require_open ''panels.any/all: expected array'' (jsonEnterArray p)) (\<lambda>_ p.
              and_then (json_elements (operand self (if key = ''any'' then SEL_OR else SEL_AND)) (out, 0) p) (\<lambda>(out, cnt) rest.
                if cnt = 0 then fail ''panels.any/all: empty'' else ok (out, True) rest))
        else if key = ''not'' then
          if got then fail one_key
          else
            and_then (self out p) (\<lambda>out rest.
              and_then (emit_ok (emit_or too_complex [SEL_NOT] out) rest) (\<lambda>out rest. ok (out, True) rest))
        else if key = ''exclude'' then
          if got then fail one_key
          else
            and_then (require_open ''panels.exclude: expected array'' (jsonEnterArray p)) (\<lambda>_ p.
              and_then (selEmitIndexArray out True p) (\<lambda>out rest. ok (out, True) rest))
        else skip_then z (out, got) p)"

text \<open>The levels that are left: the code counts \<open>depth\<close> up to \<open>SEL_STACK_MAX\<close>.\<close>

primrec selAppend :: "nat \<Rightarrow> char \<Rightarrow> PanelSelector \<Rightarrow> string \<Rightarrow> PanelSelector parse" where
  "selAppend 0 z out bs = fail ''panels: nesting too deep''"
| "selAppend (Suc levels) z out bs =
     (case jsonSkipWs bs of
        [] \<Rightarrow> fail ''panels: empty''
      | c # cs \<Rightarrow>
          if c = QUOTE then
            and_then (require_string ''panels: bad string'' 40 (c # cs)) (\<lambda>tok rest. emit_ok (selEmitToken tok out) rest)
          else if c = CHR ''['' then
            and_then (require_open ''panels: bad array'' (jsonEnterArray (c # cs))) (\<lambda>_ p. selEmitIndexArray out False p)
          else if c = CHR ''{'' then
            and_then (require_open ''panels: bad object'' (jsonEnterObject (c # cs))) (\<lambda>_ p.
              and_then (json_fields 12 (composition_key z (selAppend levels z)) (out, False) p) (\<lambda>(out, got) rest.
                if \<not> got then fail ''panels: empty object (use any/all/not/exclude)'' else ok out rest))
          else fail ''panels: expected string, array, or object'')"

definition parsePanelSelector :: "char \<Rightarrow> PanelSelector \<Rightarrow> string \<Rightarrow> PanelSelector parse" where
  "parsePanelSelector z out p = selAppend (SEL_STACK_MAX + 1) z (sel_clear out) p"

section \<open>Emitting\<close>

definition sel_ready :: "PanelSelector \<Rightarrow> bool" where
  "sel_ready out \<longleftrightarrow> length (sel_ops out) = SEL_CAP \<and> sel_len out \<le> SEL_CAP"

definition extends :: "PanelSelector \<Rightarrow> u8 list \<Rightarrow> PanelSelector \<Rightarrow> bool" where
  "extends out code out' \<longleftrightarrow> sel_ready out' \<and> prog out' = prog out @ code"

lemma extends_trans: "extends a x b \<Longrightarrow> extends b y c \<Longrightarrow> extends a (x @ y) c"
  by (simp add: extends_def)

lemma extends_refl: "sel_ready out \<Longrightarrow> extends out [] out"
  by (simp add: extends_def)

lemma extends_ready: "extends out code out' \<Longrightarrow> sel_ready out'"
  by (simp add: extends_def)

lemma length_prog: "sel_ready out \<Longrightarrow> length (prog out) = sel_len out"
  by (simp add: prog_def sel_ready_def)

lemma emit_extends:
  assumes "sel_ready out"
  shows "if sel_len out < SEL_CAP then \<exists>out'. sel_emit b out = (True, out') \<and> extends out [b] out' else \<exists>out'. sel_emit b out = (False, out')"
  using assms by (auto simp: sel_emit_def extends_def sel_ready_def prog_def take_Suc_conv_app_nth)

lemma emits_extends:
  assumes "sel_ready out"
  shows "if sel_len out + length bs \<le> SEL_CAP then \<exists>out'. sel_emits bs out = Some out' \<and> extends out bs out' else sel_emits bs out = None"
  using assms
proof (induction bs arbitrary: out)
  case (Cons b bs)
  show ?case
  proof (cases "sel_len out < SEL_CAP")
    case True
    then obtain out1 where o: "sel_emit b out = (True, out1)" "extends out [b] out1" using emit_extends [OF Cons.prems, of b] by auto
    have "sel_len out1 = sel_len out + 1"
      using o(2) length_prog [of out1] length_prog [OF Cons.prems] by (auto simp: extends_def)
    then show ?thesis using Cons.IH [OF extends_ready [OF o(2)]] o extends_trans [OF o(2)] by (auto split: if_splits)
  next
    case False
    then show ?thesis using emit_extends [OF Cons.prems, of b] by auto
  qed
qed (auto simp: sel_ready_def extends_refl)

lemma emit_or_extends:
  assumes "sel_ready out"
  shows "emit_or msg bs out = Inr out' \<Longrightarrow> extends out bs out'"
    and "sel_len out + length bs \<le> SEL_CAP \<Longrightarrow> \<exists>out'. emit_or msg bs out = Inr out' \<and> extends out bs out'"
  using emits_extends [OF assms, of bs] by (auto simp: emit_or_def split: option.splits if_splits)

section \<open>Whatever is accepted is the program of an expression\<close>

definition codes :: "nat \<Rightarrow> PanelSelector \<Rightarrow> PanelSelector \<Rightarrow> bool" where
  "codes need out out' \<longleftrightarrow> (\<exists>e. extends out (sel_code e) out' \<and> sel_lists_ok e \<and> sel_need e \<le> need)"

lemma codesI: "extends out code out' \<Longrightarrow> code = sel_code e \<Longrightarrow> sel_lists_ok e \<Longrightarrow> sel_need e \<le> need \<Longrightarrow> codes need out out'"
  unfolding codes_def by blast

lemma word_codes:
  assumes "sel_ready out" and "selector_word tok = Some op" and "emit_or msg [op] out = Inr out'"
  shows "codes (Suc n) out out'"
proof -
  have x: "extends out [op] out'" using emit_or_extends(1) assms(1,3) by blast
  obtain e where "[op] = sel_code e" "sel_lists_ok e" "sel_need e = 1"
  proof -
    have "op \<in> {SEL_ALL, SEL_ROOT, SEL_LEAVES, SEL_BRANCHES, SEL_EVEN, SEL_ODD}"
      using assms(2) by (auto simp: selector_word_def split: if_splits)
    then show thesis using that [of SAll] that [of SRoot] that [of SLeaves] that [of SBranches] that [of SEven] that [of SOdd] by auto
  qed
  then show ?thesis using x by (intro codesI) auto
qed

lemma leaf_codes: "sel_ready out \<Longrightarrow> emit_or msg (sel_code e) out = Inr out' \<Longrightarrow> leaf_expr e \<Longrightarrow> sel_lists_ok e \<Longrightarrow> codes (Suc n) out out'"
  using leaf_op [of e] by (intro codesI [OF emit_or_extends(1)]) auto

lemma depth_codes:
  assumes "sel_ready out" and "emit_depth a out = Inr out'"
  shows "codes (Suc n) out out'"
proof -
  obtain l h where "emit_or [] [SEL_DEPTH, l, h] out = Inr out'" using assms(2) by (auto simp: emit_depth_def split: option.splits if_splits)
  then show ?thesis using leaf_codes [OF assms(1), of "[]" "SDepth l h"] by (simp add: leaf_expr_def)
qed

lemma fraction_codes:
  assumes "sel_ready out" and "emit_fraction a out = Inr out'"
  shows "codes (Suc n) out out'"
proof -
  obtain l h where "emit_or [] [SEL_FRACTION, l, h] out = Inr out'"
    using assms(2) by (auto simp: emit_fraction_def Let_def split: option.splits list.splits if_splits)
  then show ?thesis using leaf_codes [OF assms(1), of "[]" "SFraction l h"] by (simp add: leaf_expr_def)
qed

lemma index_codes:
  assumes "sel_ready out" and "emit_index msg op a out = Inr out'" and "op \<in> {SEL_SUBTREE, SEL_NEIGHBORS, SEL_FIRST, SEL_LAST}"
  shows "codes (Suc n) out out'"
proof -
  obtain v where x: "emit_or [] [op, v] out = Inr out'" using assms(2) by (auto simp: emit_index_def split: option.splits if_splits)
  have "\<exists>e. [op, v] = sel_code e \<and> leaf_expr e \<and> sel_lists_ok e"
    using assms(3) by (elim insertE emptyE) (metis sel_code.simps(8,9,11,12) sel_lists_ok.simps leaf_expr_def sel_expr.case)+
  then show ?thesis using x leaf_codes [OF assms(1), of "[]"] by auto
qed

lemma token_codes: "sel_ready out \<Longrightarrow> selEmitToken s out = Inr out' \<Longrightarrow> codes (Suc n) out out'"
  by (auto simp: selEmitToken_def Let_def split: option.splits if_splits
      dest: word_codes depth_codes fraction_codes index_codes)

lemma emit_ok_ok: "emit_ok r rest = ok out' rest' \<longleftrightarrow> r = Inr out' \<and> rest' = rest"
  by (auto simp: emit_ok_def split: sum.splits)

lemma index_list_length:
  assumes "json_elements index_element [] p = ok tmp rest"
  shows "length tmp \<le> SEL_MAX_INDEX_LIST"
  by (rule json_elements_keep [OF assms]) (auto simp: index_element_def split: option.splits if_splits)

lemma index_array_codes:
  assumes "sel_ready out" and "selEmitIndexArray out complement p = ok out' rest"
  shows "codes (Suc n) out out'"
proof -
  obtain tmp where l: "length tmp \<le> SEL_MAX_INDEX_LIST"
    and e: "emit_or too_complex (SEL_INDICES # of_nat (length tmp) # tmp @ (if complement then [SEL_NOT] else [])) out = Inr out'"
    using assms(2) index_list_length by (auto simp: selEmitIndexArray_def and_then_ok emit_ok_ok split: if_splits)
  have x: "extends out (SEL_INDICES # of_nat (length tmp) # tmp @ (if complement then [SEL_NOT] else [])) out'"
    by (rule emit_or_extends(1) [OF assms(1) e])
  show ?thesis
    by (rule codesI [OF x, where e = "if complement then SNot (SIndices tmp) else SIndices tmp"])
       (use l in \<open>auto simp: SEL_MAX_INDEX_LIST_def\<close>)
qed

text \<open>
  The operands of \<open>any\<close> and \<open>all\<close>: the program of the expression folded so far, and a count that cannot wrap because
  every operand takes a byte of the program.
\<close>

definition folded :: "nat \<Rightarrow> PanelSelector \<Rightarrow> PanelSelector \<times> u8 \<Rightarrow> bool" where
  "folded need out0 st \<longleftrightarrow>
     (case st of (out, cnt) \<Rightarrow>
        sel_ready out \<and> unat cnt \<le> sel_len out
        \<and> (if cnt = 0 then out = out0 else codes need out0 out))"

lemma codes_binary:
  assumes "codes (Suc n) a b" and "codes n b c" and "op = SEL_OR \<or> op = SEL_AND" and "extends c [op] d"
  shows "codes (Suc n) a d"
proof -
  obtain e f where e: "extends a (sel_code e) b" "sel_lists_ok e" "sel_need e \<le> Suc n"
    and f: "extends b (sel_code f) c" "sel_lists_ok f" "sel_need f \<le> n"
    using assms(1,2) unfolding codes_def by blast
  let ?g = "if op = SEL_OR then SOr e f else SAnd e f"
  have "extends a ((sel_code e @ sel_code f) @ [op]) d" using extends_trans e(1) f(1) assms(4) by blast
  then show ?thesis by (rule codesI [where e = ?g]) (use e f assms(3) in \<open>auto\<close>)
qed

lemma codes_longer: "sel_ready out \<Longrightarrow> codes n out out' \<Longrightarrow> sel_len out < sel_len out' \<and> sel_ready out'"
proof -
  assume r: "sel_ready out" and "codes n out out'"
  then obtain e where e: "extends out (sel_code e) out'" unfolding codes_def by blast
  then have "length (prog out') = length (prog out) + length (sel_code e)" by (simp add: extends_def)
  moreover have "sel_code e \<noteq> []" by (cases e) simp_all
  ultimately show ?thesis using r extends_ready [OF e] by (simp add: length_prog)
qed

lemma codes_mono: "codes n a b \<Longrightarrow> n \<le> m \<Longrightarrow> codes m a b"
  unfolding codes_def by (meson order_trans)

lemma operand_folded:
  assumes self: "\<And>out p out' rest. sel_ready out \<Longrightarrow> self out p = ok out' rest \<Longrightarrow> codes n out out'"
    and st: "folded (Suc n) out0 st" and op: "op = SEL_OR \<or> op = SEL_AND" and step: "operand self op st p = ok st' rest"
  shows "folded (Suc n) out0 st'"
proof -
  obtain out cnt where s: "st = (out, cnt)" by (rule prod.exhaust)
  have ready: "sel_ready out" using st s by (simp add: folded_def)
  obtain out1 r1 where 1: "self out p = ok out1 r1"
    and 2: "(if 2 \<le> cnt + 1 then and_then (emit_ok (emit_or too_complex [op] out1) r1) (\<lambda>out rest. ok (out, cnt + 1) rest)
            else ok (out1, cnt + 1) r1) = ok st' rest"
    using step by (auto simp: operand_def s and_then_ok)
  have c1: "codes n out out1" by (rule self [OF ready 1])
  note r1 = codes_longer [OF ready c1]
  have below: "unat cnt \<le> sel_len out" using st s by (simp add: folded_def)
  have "sel_len out1 \<le> 64" using r1 by (simp add: sel_ready_def SEL_CAP_def)
  then have cnt: "unat cnt < 64" "unat (cnt + 1) = unat cnt + 1" using st s r1 by (auto simp: folded_def unat_add_one_u8)
  have two: "2 \<le> cnt + 1 \<longleftrightarrow> cnt \<noteq> 0" "cnt + 1 \<noteq> 0" using cnt by (auto simp: word_le_nat_alt unat_eq_zero Suc_le_eq unat_gt_0)
  show ?thesis
  proof (cases "cnt = 0")
    case True
    then have "st' = (out1, cnt + 1)" using 2 two by simp
    moreover have "out = out0" using st s True by (simp add: folded_def)
    ultimately show ?thesis using r1 cnt(2) below two codes_mono [OF c1, of "Suc n"] by (simp add: folded_def)
  next
    case False
    then obtain out2 where 3: "emit_or too_complex [op] out1 = Inr out2" "st' = (out2, cnt + 1)"
      using 2 two by (auto simp: and_then_ok emit_ok_ok)
    have x: "extends out1 [op] out2" using emit_or_extends(1) 3(1) r1 by blast
    have "codes (Suc n) out0 out" using st s False by (simp add: folded_def)
    then have "codes (Suc n) out0 out2" using codes_binary c1 op x by blast
    moreover have "sel_len out2 = sel_len out1 + 1" using x r1 length_prog [of out2] length_prog [of out1] by (auto simp: extends_def)
    ultimately show ?thesis using 3(2) r1 cnt two st s extends_ready [OF x] by (auto simp: folded_def)
  qed
qed

definition composed :: "nat \<Rightarrow> PanelSelector \<Rightarrow> PanelSelector \<times> bool \<Rightarrow> bool" where
  "composed need out0 st \<longleftrightarrow>
     (case st of (out, got) \<Rightarrow> sel_ready out \<and> (if got then codes need out0 out else out = out0))"

lemma composition_key_simps:
  "key = ''any'' \<or> key = ''all'' \<Longrightarrow> composition_key z self key (out, got) p =
     (if got then fail one_key
      else
        and_then (require_open ''panels.any/all: expected array'' (jsonEnterArray p)) (\<lambda>_ p.
          and_then (json_elements (operand self (if key = ''any'' then SEL_OR else SEL_AND)) (out, 0) p) (\<lambda>(out, cnt) rest.
            if cnt = 0 then fail ''panels.any/all: empty'' else ok (out, True) rest)))"
  "composition_key z self ''not'' (out, got) p =
     (if got then fail one_key
      else and_then (self out p) (\<lambda>out rest.
        and_then (emit_ok (emit_or too_complex [SEL_NOT] out) rest) (\<lambda>out rest. ok (out, True) rest)))"
  "composition_key z self ''exclude'' (out, got) p =
     (if got then fail one_key
      else and_then (require_open ''panels.exclude: expected array'' (jsonEnterArray p)) (\<lambda>_ p.
        and_then (selEmitIndexArray out True p) (\<lambda>out rest. ok (out, True) rest)))"
  "key \<notin> {''any'', ''all'', ''not'', ''exclude''} \<Longrightarrow> composition_key z self key (out, got) p = skip_then z (out, got) p"
  by (simp_all add: composition_key_def)

lemma require_open_ok: "require_open msg r = ok u rest \<longleftrightarrow> r = Some rest"
  by (auto simp: require_open_def split: option.splits)

lemma composition_composed:
  assumes self: "\<And>out p out' rest. sel_ready out \<Longrightarrow> self out p = ok out' rest \<Longrightarrow> codes n out out'"
    and st: "composed (Suc n) out0 st" and step: "composition_key z self key st p = ok st' rest"
  shows "composed (Suc n) out0 st'"
proof -
  obtain out got where s: "st = (out, got)" by (rule prod.exhaust)
  have ready: "sel_ready out" using st s by (simp add: composed_def)
  consider (list) "key = ''any'' \<or> key = ''all''" | (neg) "key = ''not''" | (ex) "key = ''exclude''"
    | (other) "key \<notin> {''any'', ''all'', ''not'', ''exclude''}" by auto
  then show ?thesis
  proof cases
    case list
    let ?op = "if key = ''any'' then SEL_OR else SEL_AND"
    note step = step [unfolded s composition_key_simps(1) [OF list]]
    have got: "\<not> got" using step by (cases got) simp_all
    then have o: "out = out0" using st s got by (simp add: composed_def)
    obtain q out1 cnt r1 where e: "json_elements (operand self ?op) (out, 0) q = ok (out1, cnt) r1" and "cnt \<noteq> 0" and st': "st' = (out1, True)"
      using step got by (auto simp: and_then_ok split: if_splits)
    have "folded (Suc n) out0 (out1, cnt)"
    proof (rule json_elements_keep [OF e])
      show "folded (Suc n) out0 (out, 0)" using o ready by (simp add: folded_def)
    qed (rule operand_folded [OF self], assumption+, use list in auto)
    then show ?thesis using \<open>cnt \<noteq> 0\<close> st' by (simp add: folded_def composed_def)
  next
    case neg
    note step = step [unfolded s neg composition_key_simps(2)]
    have got: "\<not> got" using step by (cases got) simp_all
    then have o: "out = out0" using st s got by (simp add: composed_def)
    obtain out1 r1 out2 where e: "self out p = ok out1 r1" "emit_or too_complex [SEL_NOT] out1 = Inr out2" "st' = (out2, True)"
      using step got by (auto simp: and_then_ok emit_ok_ok)
    obtain f where f: "extends out0 (sel_code f) out1" "sel_lists_ok f" "sel_need f \<le> n"
      using self [OF ready e(1)] o unfolding codes_def by blast
    have "extends out1 [SEL_NOT] out2" by (rule emit_or_extends(1) [OF extends_ready [OF f(1)] e(2)])
    then have "extends out0 (sel_code (SNot f)) out2" using extends_trans [OF f(1)] by simp
    then show ?thesis using e(3) f(2,3) codesI [of out0 _ out2 "SNot f" "Suc n"] extends_ready by (auto simp: composed_def)
  next
    case ex
    note step = step [unfolded s ex composition_key_simps(3)]
    have got: "\<not> got" using step by (cases got) simp_all
    then have o: "out = out0" using st s got by (simp add: composed_def)
    obtain q out1 r1 where "selEmitIndexArray out True q = ok out1 r1" "st' = (out1, True)"
      using step got by (auto simp: and_then_ok)
    then have "codes (Suc n) out out1" "st' = (out1, True)" using index_array_codes [OF ready] by blast+
    then show ?thesis using o codes_longer [OF ready] by (auto simp: composed_def)
  next
    case other
    then have "st' = st" using step by (auto simp: composition_key_def s skip_then_def split: option.splits)
    then show ?thesis using st by simp
  qed
qed

lemma selAppend_codes:
  "sel_ready out \<Longrightarrow> selAppend levels z out bs = ok out' rest \<Longrightarrow> codes levels out out'"
proof (induction levels arbitrary: out bs out' rest)
  case (Suc n)
  obtain c cs where bs: "jsonSkipWs bs = c # cs" using Suc.prems(2) by (cases "jsonSkipWs bs") auto
  consider (string) "c = QUOTE" | (array) "c = CHR ''[''" | (object) "c = CHR ''{''"
    using Suc.prems(2) bs by (auto split: if_splits)
  then show ?case
  proof cases
    case string
    then show ?thesis using Suc.prems bs by (auto simp: and_then_ok emit_ok_ok intro: token_codes)
  next
    case array
    then show ?thesis using Suc.prems bs by (auto simp: and_then_ok intro: index_array_codes)
  next
    case object
    then obtain q out1 r1 where e: "json_fields 12 (composition_key z (selAppend n z)) (out, False) q = ok (out', True) rest"
      using Suc.prems(2) bs by (auto simp: and_then_ok split: if_splits)
    have "composed (Suc n) out (out', True)"
    proof (rule json_fields_keep [OF e])
      show "composed (Suc n) out (out, False)" using Suc.prems(1) by (simp add: composed_def)
    qed (rule composition_composed [OF Suc.IH])
    then show ?thesis by (simp add: composed_def)
  qed
qed simp

section \<open>Written selectors\<close>

text \<open>The selectors of the documented grammar and how they are written; \<open>FLeaf\<close> is a token.\<close>

datatype sel_form =
  FLeaf sel_expr | FList "u8 list" | FExclude "u8 list" | FAny "sel_form list" | FEvery "sel_form list" | FNot sel_form

fun leaf_text :: "sel_expr \<Rightarrow> string" where
  "leaf_text SAll = ''all''"
| "leaf_text SRoot = ''root''"
| "leaf_text SLeaves = ''leaves''"
| "leaf_text SBranches = ''branches''"
| "leaf_text SEven = ''even''"
| "leaf_text SOdd = ''odd''"
| "leaf_text (SDepth l h) = ''depth:'' @ udec (unat l) @ ''-'' @ udec (unat h)"
| "leaf_text (SSubtree p) = ''subtree:'' @ udec (unat p)"
| "leaf_text (SNeighbors p) = ''neighbors:'' @ udec (unat p)"
| "leaf_text (SFirst k) = ''first:'' @ udec (unat k)"
| "leaf_text (SLast k) = ''last:'' @ udec (unat k)"
| "leaf_text _ = []"

definition leaf_form_ok :: "sel_expr \<Rightarrow> bool" where
  "leaf_form_ok e \<longleftrightarrow>
     (case e of SSubtree p \<Rightarrow> p \<noteq> 0 | SNeighbors p \<Rightarrow> p \<noteq> 0 | SFirst k \<Rightarrow> k \<noteq> 0 | SLast k \<Rightarrow> k \<noteq> 0
      | SFraction _ _ \<Rightarrow> False | SIndices _ \<Rightarrow> False | SAnd _ _ \<Rightarrow> False | SOr _ _ \<Rightarrow> False | SNot _ \<Rightarrow> False | _ \<Rightarrow> True)"

definition index_text :: "u8 list \<Rightarrow> string" where
  "index_text ps = CHR ''['' # comma_sep (map (\<lambda>p. udec (unat p)) ps) @ '']''"

fun form_text :: "sel_form \<Rightarrow> string" where
  "form_text (FLeaf e) = json_quoted (leaf_text e)"
| "form_text (FList ps) = index_text ps"
| "form_text (FExclude ps) = CHR ''{'' # member_text (''exclude'', index_text ps) @ ''}''"
| "form_text (FAny fs) = CHR ''{'' # member_text (''any'', CHR ''['' # comma_sep (map form_text fs) @ '']'') @ ''}''"
| "form_text (FEvery fs) = CHR ''{'' # member_text (''all'', CHR ''['' # comma_sep (map form_text fs) @ '']'') @ ''}''"
| "form_text (FNot f) = CHR ''{'' # member_text (''not'', form_text f) @ ''}''"

definition fold_exprs :: "(sel_expr \<Rightarrow> sel_expr \<Rightarrow> sel_expr) \<Rightarrow> sel_expr list \<Rightarrow> sel_expr" where
  "fold_exprs op es = (case es of [] \<Rightarrow> SAll | e # es \<Rightarrow> foldl op e es)"

fun form_expr :: "sel_form \<Rightarrow> sel_expr" where
  "form_expr (FLeaf e) = e"
| "form_expr (FList ps) = SIndices ps"
| "form_expr (FExclude ps) = SNot (SIndices ps)"
| "form_expr (FAny fs) = fold_exprs SOr (map form_expr fs)"
| "form_expr (FEvery fs) = fold_exprs SAnd (map form_expr fs)"
| "form_expr (FNot f) = SNot (form_expr f)"

definition index_list_ok :: "u8 list \<Rightarrow> bool" where
  "index_list_ok ps \<longleftrightarrow> ps \<noteq> [] \<and> length ps \<le> SEL_MAX_INDEX_LIST \<and> 0 \<notin> set ps"

fun form_ok :: "sel_form \<Rightarrow> bool" where
  "form_ok (FLeaf e) = leaf_form_ok e"
| "form_ok (FList ps) = index_list_ok ps"
| "form_ok (FExclude ps) = index_list_ok ps"
| "form_ok (FAny fs) = (fs \<noteq> [] \<and> list_all form_ok fs)"
| "form_ok (FEvery fs) = (fs \<noteq> [] \<and> list_all form_ok fs)"
| "form_ok (FNot f) = form_ok f"

fun nesting :: "sel_form \<Rightarrow> nat" where
  "nesting (FAny fs) = Suc (Max (insert 0 (set (map nesting fs))))"
| "nesting (FEvery fs) = Suc (Max (insert 0 (set (map nesting fs))))"
| "nesting (FNot f) = Suc (nesting f)"
| "nesting _ = 0"

lemma nesting_operand:
  assumes "f \<in> set fs"
  shows "Suc (nesting f) \<le> nesting (FAny fs)" and "Suc (nesting f) \<le> nesting (FEvery fs)"
  using Max_ge [of "insert 0 (set (map nesting fs))" "nesting f"] assms by (simp_all del: Max_insert)

text \<open>Tokens.\<close>

lemma tok_uint: "n \<le> 65535 \<Longrightarrow> no_digit rest \<Longrightarrow> selTokUInt (udec n @ rest) = Some (n, rest)"
proof -
  assume n: "n \<le> 65535" "no_digit rest"
  obtain c cs where u: "udec n = c # cs" by (metis udec_not_Nil list.exhaust)
  have "is_digit c" using udec_hd [of n] u by simp
  moreover have "uint_digits 0 (udec n @ rest) = Some (n, rest)" using uint_digits_udec [of 0 n rest] n by (simp add: uint_digits_end)
  ultimately show ?thesis by (simp add: selTokUInt_def u del: uint_digits.simps)
qed

lemma tok_uint_end: "n \<le> 65535 \<Longrightarrow> selTokUInt (udec n) = Some (n, [])"
  using tok_uint [of n "[]"] by (simp add: no_digit_def)

lemma token_form:
  assumes "leaf_form_ok e"
  shows "\<exists>msg. selEmitToken (leaf_text e) out = emit_or msg (sel_code e) out"
proof -
  have small: "unat p \<le> 65535" "\<not> 255 < unat p" "of_nat (unat p) = p" for p :: u8 using unat_u8_le [of p] by simp_all
  have dash: "no_digit (CHR ''-'' # t)" for t by (simp add: no_digit_def is_digit_def)
  show ?thesis
    using assms small
    by (cases e) (auto simp: leaf_form_ok_def selEmitToken_def selector_word_def emit_depth_def emit_index_def tok_uint tok_uint_end dash
        unat_eq_zero)
qed

lemma udec_byte: "NUL \<notin> set (udec (unat p)) \<and> length (udec (unat p)) \<le> 3" for p :: u8
proof -
  have "NUL \<notin> set (udec n)" for n using udec_digits [of n] by (auto simp: is_digit_def)
  moreover have "length (udec n) \<le> 1" if "n < 10" for n using that by (subst udec.simps) simp
  then have "length (udec n) \<le> 2" if "n < 100" for n using that by (subst udec.simps) (simp add: le_Suc_eq)
  then have "length (udec n) \<le> 3" if "n < 1000" for n using that by (subst udec.simps) (simp add: le_Suc_eq)
  ultimately show ?thesis using unat_u8_less [of p] by simp
qed

lemma leaf_text_plain: "NUL \<notin> set (leaf_text e) \<and> length (leaf_text e) < 40"
proof (cases e)
  case (SDepth l h)
  then show ?thesis using udec_byte [of l] udec_byte [of h] by simp
qed (use udec_byte in \<open>auto intro!: le_less_trans [OF udec_byte [THEN conjunct2]]\<close>)

text \<open>Index arrays.\<close>

lemma digit_starts: "is_digit c \<Longrightarrow> \<not> json_ws c \<and> c \<notin> {CHR '','', CHR '']'', CHR ''}'', CHR ''{'', CHR ''['', QUOTE}"
  by (auto simp: is_digit_def json_ws_def)

lemma index_list_read:
  assumes "index_list_ok ps"
  shows "json_elements index_element [] (comma_sep (map (\<lambda>p. udec (unat p)) ps) @ CHR '']'' # rest) = ok ps rest"
proof -
  have "\<exists>s'. json_elements index_element [] (comma_sep (map (\<lambda>p. udec (unat p)) ps) @ CHR '']'' # rest) = ok s' rest
      \<and> s' = take (length (map (\<lambda>p. udec (unat p)) ps)) ps"
  proof (rule elements_written)
    show "list_all starts_value (map (\<lambda>p. udec (unat p)) ps)" by (simp add: list_all_iff uint_starts)
    fix k s r assume k: "k < length (map (\<lambda>p. udec (unat p)) ps)" and s: "s = take k ps" and r: "ends_value r"
    have "ps ! k \<noteq> 0" "length s < SEL_MAX_INDEX_LIST" using k s assms by (auto simp: index_list_ok_def in_set_conv_nth)
    moreover have "unat (ps ! k) \<le> 255" by (rule unat_u8_le)
    ultimately have "index_element s (udec (unat (ps ! k)) @ r) = ok (s @ [ps ! k]) r"
      using read_uint [of "unat (ps ! k)" r] ends_no_digit [OF r] by (simp add: index_element_def unat_eq_zero)
    then show "\<exists>s'. index_element s (map (\<lambda>p. udec (unat p)) ps ! k @ r) = ok s' r \<and> s' = take (Suc k) ps"
      using k s by (simp add: take_Suc_conv_app_nth)
  qed simp
  then show ?thesis by simp
qed

lemma enter_written: "jsonEnterArray (CHR ''['' # t) = Some t" "jsonEnterObject (CHR ''{'' # t) = Some t"
  by (simp_all add: jsonEnterArray_def jsonEnterObject_def)

lemma index_array_written:
  assumes "index_list_ok ps" and "sel_ready out"
    and "sel_len out + length (sel_code (SIndices ps)) + (if complement then 1 else 0) \<le> SEL_CAP"
  shows "\<exists>out'. selEmitIndexArray out complement (comma_sep (map (\<lambda>p. udec (unat p)) ps) @ CHR '']'' # rest) = ok out' rest
    \<and> extends out (sel_code (if complement then SNot (SIndices ps) else SIndices ps)) out'"
proof -
  have "ps \<noteq> []" using assms(1) by (simp add: index_list_ok_def)
  moreover obtain out' where "emit_or too_complex (sel_code (if complement then SNot (SIndices ps) else SIndices ps)) out = Inr out'"
    "extends out (sel_code (if complement then SNot (SIndices ps) else SIndices ps)) out'"
    using emit_or_extends(2) [OF assms(2), of "sel_code (if complement then SNot (SIndices ps) else SIndices ps)" too_complex] assms(3)
    by (cases complement) auto
  ultimately show ?thesis by (cases complement) (simp_all add: selEmitIndexArray_def index_list_read [OF assms(1)] emit_ok_def)
qed

section \<open>The parser on written selectors\<close>

lemma fold_code:
  assumes "\<And>a b. sel_code (op a b) = sel_code a @ sel_code b @ [c]"
  shows "sel_code (foldl op e es) = sel_code e @ concat (map (\<lambda>x. sel_code x @ [c]) es)"
  by (induction es arbitrary: e) (simp_all add: assms)

definition written_in :: "nat \<Rightarrow> sel_form \<Rightarrow> bool" where
  "written_in levels f \<longleftrightarrow>
     (\<forall>z out rest. sel_ready out \<longrightarrow> sel_len out + length (sel_code (form_expr f)) \<le> SEL_CAP \<longrightarrow>
        (\<exists>out'. selAppend levels z out (form_text f @ rest) = ok out' rest \<and> extends out (sel_code (form_expr f)) out'))"

lemma form_starts: "starts_value (form_text f)"
  by (cases f) (simp_all add: starts_value_def json_quoted_def index_text_def json_ws_def)

lemma operands_written:
  assumes ops: "\<And>f. f \<in> set fs \<Longrightarrow> written_in n f" and fs: "fs \<noteq> []" and ready: "sel_ready out"
    and op: "\<And>a b. sel_code (op a b) = sel_code a @ sel_code b @ [c]"
    and fits: "sel_len out + length (sel_code (fold_exprs op (map form_expr fs))) \<le> SEL_CAP"
  shows "\<exists>out' cnt. json_elements (operand (selAppend n z) c) (out, 0) (comma_sep (map form_text fs) @ CHR '']'' # rest) = ok (out', cnt) rest
    \<and> cnt \<noteq> 0 \<and> extends out (sel_code (fold_exprs op (map form_expr fs))) out'"
proof -
  define es where "es = map form_expr fs"
  define part where "part k = (if k = 0 then [] else sel_code (foldl op (hd es) (take (k - 1) (tl es))))" for k
  have es: "es \<noteq> []" "length es = length fs" using fs by (simp_all add: es_def)
  have part_Suc: "part (Suc k) = part k @ sel_code (es ! k) @ (if k = 0 then [] else [c])" if "k < length fs" for k
  proof (cases k)
    case 0
    then show ?thesis using es by (simp add: part_def hd_conv_nth)
  next
    case (Suc j)
    then have "j < length (tl es)" "es ! k = tl es ! j" using that es by (simp_all add: nth_tl)
    then show ?thesis using Suc by (simp add: part_def fold_code [OF op] op take_Suc_conv_app_nth)
  qed
  have all: "part (length fs) = sel_code (fold_exprs op es)"
    using es by (cases es) (auto simp: part_def fold_exprs_def)
  have mono: "length (part k) + (length fs - k) \<le> length (part (length fs))" if "k \<le> length fs" for k
    using that
  proof (induction "length fs - k" arbitrary: k)
    case (Suc d)
    have "sel_code e \<noteq> []" for e by (cases e) simp_all
    then have "length (part k) + 1 \<le> length (part (Suc k))" using part_Suc [of k] Suc by (cases "sel_code (es ! k)") auto
    moreover have "length (part (Suc k)) + (length fs - Suc k) \<le> length (part (length fs))"
      using Suc.hyps Suc.prems by (intro Suc.hyps(1)) linarith+
    ultimately show ?case using Suc.hyps(2) by linarith
  qed simp
  have small: "length fs \<le> 64" using mono [of 0] fits all by (simp add: part_def es_def SEL_CAP_def)
  have "\<exists>s'. json_elements (operand (selAppend n z) c) (out, 0) (comma_sep (map form_text fs) @ CHR '']'' # rest) = ok s' rest
      \<and> extends out (part (length (map form_text fs))) (fst s') \<and> unat (snd s') = length (map form_text fs)"
  proof (rule elements_written)
    show "list_all starts_value (map form_text fs)" by (simp add: list_all_iff form_starts)
    show "extends out (part 0) (fst (out, 0)) \<and> unat (snd (out, 0 :: u8)) = 0" using ready by (simp add: part_def extends_refl)
    fix k r and s :: "PanelSelector \<times> u8"
    assume k: "k < length (map form_text fs)" and I: "extends out (part k) (fst s) \<and> unat (snd s) = k"
    obtain out1 cnt where s: "s = (out1, cnt)" by (rule prod.exhaust)
    have x: "extends out (part k) out1" and cnt: "unat cnt = k" using I s by simp_all
    have r1: "sel_ready out1" "sel_len out1 = sel_len out + length (part k)"
      using x length_prog [OF ready] length_prog [of out1] by (auto simp: extends_def)
    have room: "sel_len out + length (part (Suc k)) \<le> SEL_CAP" using mono [of "Suc k"] k fits all by (simp add: es_def)
    have cnt1: "unat (cnt + 1) = Suc k" using cnt k small by (simp add: unat_add_one_u8)
    then have two: "2 \<le> cnt + 1 \<longleftrightarrow> k \<noteq> 0" by (auto simp: word_le_nat_alt)
    have f: "written_in n (fs ! k)" "form_expr (fs ! k) = es ! k" using ops k by (simp_all add: es_def)
    have "sel_len out1 + length (sel_code (form_expr (fs ! k))) \<le> SEL_CAP" using room part_Suc [of k] k r1(2) f(2) by simp
    then obtain out2 where o2: "selAppend n z out1 (form_text (fs ! k) @ r) = ok out2 r" "extends out1 (sel_code (es ! k)) out2"
      using f r1(1) unfolding written_in_def by metis
    have x2: "extends out (part k @ sel_code (es ! k)) out2" by (rule extends_trans [OF x o2(2)])
    show "\<exists>s'. operand (selAppend n z) c s (map form_text fs ! k @ r) = ok s' r \<and> extends out (part (Suc k)) (fst s') \<and> unat (snd s') = Suc k"
    proof (cases "k = 0")
      case True
      then show ?thesis using o2(1) x2 two cnt1 k part_Suc [of k] by (simp add: operand_def s)
    next
      case False
      have "sel_len out2 + 1 \<le> SEL_CAP"
        using room part_Suc [of k] k False length_prog [OF extends_ready [OF x2]] x2 length_prog [OF ready] by (auto simp: extends_def)
      then obtain out3 where o3: "emit_or too_complex [c] out2 = Inr out3" "extends out2 [c] out3"
        using emit_or_extends(2) [OF extends_ready [OF x2], of "[c]" too_complex] by auto
      then show ?thesis using o2(1) extends_trans [OF x2 o3(2)] two cnt1 k False part_Suc [of k]
        by (simp add: operand_def s emit_ok_def)
    qed
  qed
  then obtain out' cnt where "json_elements (operand (selAppend n z) c) (out, 0) (comma_sep (map form_text fs) @ CHR '']'' # rest) = ok (out', cnt) rest"
    "extends out (part (length fs)) out'" "unat cnt = length fs" by auto
  then show ?thesis using all fs by (auto simp: es_def)
qed

lemma ws_self: "jsonSkipWs (form_text f @ rest) = form_text f @ rest"
  using form_starts [of f] by (cases "form_text f") (auto simp: starts_value_def jsonSkipWs_def)

lemma member_key:
  assumes "starts_member 12 (k, v)"
  shows "json_fields 12 body s (member_text (k, v) @ CHR ''}'' # rest) = and_then (body k s (v @ CHR ''}'' # rest)) (json_fields 12 body)"
  using next_key_member [OF assms, of "[]" "CHR ''}'' # rest"] by (simp add: json_fields_step [of 12 body s])

lemma fields_end: "json_fields n body s (CHR ''}'' # rest) = ok s rest"
  by (simp add: json_fields_step [of n body s] next_key_close)

lemma composed_written:
  assumes "starts_member 12 (k, v)"
    and "\<exists>out'. composition_key z (selAppend levels z) k (out, False) (v @ CHR ''}'' # rest) = ok (out', True) (CHR ''}'' # rest) \<and> P out'"
  shows "\<exists>out'. selAppend (Suc levels) z out (CHR ''{'' # member_text (k, v) @ ''}'' @ rest) = ok out' rest \<and> P out'"
  using assms(2) by (auto simp: enter_written require_open_def member_key [OF assms(1)] fields_end)

lemma form_written: "form_ok f \<Longrightarrow> nesting f < levels \<Longrightarrow> written_in levels f"
proof (induction f arbitrary: levels)
  case (FLeaf e)
  obtain n where n: "levels = Suc n" using FLeaf.prems by (cases levels) auto
  show ?case unfolding written_in_def
  proof (intro allI impI)
    fix z out rest assume r: "sel_ready out" and fits: "sel_len out + length (sel_code (form_expr (FLeaf e))) \<le> SEL_CAP"
    obtain msg where msg: "selEmitToken (leaf_text e) out = emit_or msg (sel_code e) out" using token_form FLeaf.prems by auto
    obtain out' where "emit_or msg (sel_code e) out = Inr out'" "extends out (sel_code e) out'"
      using emit_or_extends(2) [OF r, of "sel_code e" msg] fits by auto
    moreover have "jsonReadString 40 (json_quoted (leaf_text e) @ rest) = (Some (leaf_text e), rest)"
      using read_quoted [of "leaf_text e" 40 rest] leaf_text_plain [of e] by simp
    moreover obtain t where "json_quoted (leaf_text e) @ rest = QUOTE # t" by (simp add: json_quoted_def)
    ultimately show "\<exists>out'. selAppend levels z out (form_text (FLeaf e) @ rest) = ok out' rest \<and> extends out (sel_code (form_expr (FLeaf e))) out'"
      using msg by (simp add: n require_string_def emit_ok_def)
  qed
next
  case (FList ps)
  obtain n where n: "levels = Suc n" using FList.prems by (cases levels) auto
  show ?case using index_array_written [of ps _ False] FList.prems
    by (auto simp: written_in_def n index_text_def enter_written require_open_def)
next
  case (FExclude ps)
  obtain n where n: "levels = Suc n" using FExclude.prems by (cases levels) auto
  have k: "starts_member 12 (''exclude'', index_text ps)" by (simp add: starts_member_def index_text_def json_ws_def)
  show ?case unfolding written_in_def
  proof (intro allI impI)
    fix z out rest assume r: "sel_ready out" and fits: "sel_len out + length (sel_code (form_expr (FExclude ps))) \<le> SEL_CAP"
    obtain out' where "selEmitIndexArray out True (comma_sep (map (\<lambda>p. udec (unat p)) ps) @ CHR '']'' # CHR ''}'' # rest) = ok out' (CHR ''}'' # rest)"
      "extends out (sel_code (form_expr (FExclude ps))) out'"
      using index_array_written [of ps out True "CHR ''}'' # rest"] r fits FExclude.prems by auto
    then show "\<exists>out'. selAppend levels z out (form_text (FExclude ps) @ rest) = ok out' rest \<and> extends out (sel_code (form_expr (FExclude ps))) out'"
      using composed_written [OF k, of z n out rest "extends out (sel_code (form_expr (FExclude ps)))"]
      by (simp add: n composition_key_simps index_text_def enter_written require_open_def del: selAppend.simps)
  qed
next
  case (FAny fs)
  obtain n where n: "levels = Suc n" using FAny.prems by (cases levels) auto
  have ops: "written_in n f" if "f \<in> set fs" for f
    using FAny that nesting_operand(1) [OF that] by (simp add: n list_all_iff del: nesting.simps)
  have k: "starts_member 12 (''any'', CHR ''['' # comma_sep (map form_text fs) @ '']'')" by (simp add: starts_member_def json_ws_def)
  show ?case unfolding written_in_def
  proof (intro allI impI)
    fix z out rest assume r: "sel_ready out" and fits: "sel_len out + length (sel_code (form_expr (FAny fs))) \<le> SEL_CAP"
    obtain out' cnt where "json_elements (operand (selAppend n z) SEL_OR) (out, 0) (comma_sep (map form_text fs) @ CHR '']'' # CHR ''}'' # rest) = ok (out', cnt) (CHR ''}'' # rest)"
      "cnt \<noteq> 0" "extends out (sel_code (form_expr (FAny fs))) out'"
      using operands_written [OF ops _ r, of fs SOr SEL_OR z "CHR ''}'' # rest"] fits FAny.prems by auto
    then show "\<exists>out'. selAppend levels z out (form_text (FAny fs) @ rest) = ok out' rest \<and> extends out (sel_code (form_expr (FAny fs))) out'"
      using composed_written [OF k, of z n out rest "extends out (sel_code (form_expr (FAny fs)))"]
      by (simp add: n composition_key_simps enter_written require_open_def del: selAppend.simps)
  qed
next
  case (FEvery fs)
  obtain n where n: "levels = Suc n" using FEvery.prems by (cases levels) auto
  have ops: "written_in n f" if "f \<in> set fs" for f
    using FEvery that nesting_operand(2) [OF that] by (simp add: n list_all_iff del: nesting.simps)
  have k: "starts_member 12 (''all'', CHR ''['' # comma_sep (map form_text fs) @ '']'')" by (simp add: starts_member_def json_ws_def)
  show ?case unfolding written_in_def
  proof (intro allI impI)
    fix z out rest assume r: "sel_ready out" and fits: "sel_len out + length (sel_code (form_expr (FEvery fs))) \<le> SEL_CAP"
    obtain out' cnt where "json_elements (operand (selAppend n z) SEL_AND) (out, 0) (comma_sep (map form_text fs) @ CHR '']'' # CHR ''}'' # rest) = ok (out', cnt) (CHR ''}'' # rest)"
      "cnt \<noteq> 0" "extends out (sel_code (form_expr (FEvery fs))) out'"
      using operands_written [OF ops _ r, of fs SAnd SEL_AND z "CHR ''}'' # rest"] fits FEvery.prems by auto
    then show "\<exists>out'. selAppend levels z out (form_text (FEvery fs) @ rest) = ok out' rest \<and> extends out (sel_code (form_expr (FEvery fs))) out'"
      using composed_written [OF k, of z n out rest "extends out (sel_code (form_expr (FEvery fs)))"]
      by (simp add: n composition_key_simps enter_written require_open_def del: selAppend.simps)
  qed
next
  case (FNot f)
  obtain n where n: "levels = Suc n" using FNot.prems by (cases levels) auto
  have f: "written_in n f" using FNot by (simp add: n)
  have k: "starts_member 12 (''not'', form_text f)" using form_starts [of f] by (simp add: starts_member_def starts_value_def)
  show ?case unfolding written_in_def
  proof (intro allI impI)
    fix z out rest assume r: "sel_ready out" and fits: "sel_len out + length (sel_code (form_expr (FNot f))) \<le> SEL_CAP"
    obtain out1 where o1: "selAppend n z out (form_text f @ CHR ''}'' # rest) = ok out1 (CHR ''}'' # rest)" "extends out (sel_code (form_expr f)) out1"
      using f r fits unfolding written_in_def by fastforce
    have "sel_len out1 + 1 \<le> SEL_CAP"
      using fits o1(2) length_prog [OF r] length_prog [OF extends_ready [OF o1(2)]] by (simp add: extends_def)
    then obtain out2 where "emit_or too_complex [SEL_NOT] out1 = Inr out2" "extends out1 [SEL_NOT] out2"
      using emit_or_extends(2) [OF extends_ready [OF o1(2)], of "[SEL_NOT]" too_complex] by auto
    then show "\<exists>out'. selAppend levels z out (form_text (FNot f) @ rest) = ok out' rest \<and> extends out (sel_code (form_expr (FNot f))) out'"
      using composed_written [OF k, of z n out rest "extends out (sel_code (form_expr (FNot f)))"] o1 extends_trans [OF o1(2)]
      by (simp add: n composition_key_simps emit_ok_def del: selAppend.simps)
  qed
qed

section \<open>The parser returns\<close>

lemma uint_digits_suffix: "uint_digits v bs = Some (n, rest) \<Longrightarrow> suffix rest bs"
  by (induction v bs rule: uint_digits.induct) (auto simp: Let_def suffix_ConsI split: if_splits)

lemma read_uint_suffix: "jsonReadUInt bs = Some (v, rest) \<Longrightarrow> strict_suffix rest bs"
proof -
  assume a: "jsonReadUInt bs = Some (v, rest)"
  then obtain c cs where c: "jsonSkipWs bs = c # cs" "is_digit c" "uint_digits 0 (c # cs) = Some (v, rest)"
    by (auto simp: jsonReadUInt_def simp del: uint_digits.simps split: list.splits if_splits)
  then have "suffix rest cs" by (auto simp: Let_def dest: uint_digits_suffix split: if_splits)
  then have "strict_suffix rest (c # cs)" by (rule strict_suffix_Cons)
  moreover have "suffix (c # cs) bs" using ws_suffix [of bs] c(1) by simp
  ultimately show ?thesis by (rule suffix_order.less_le_trans)
qed

lemma index_consumes: "consumes (index_element tmp p) p"
  by (auto simp: index_element_def intro: read_uint_suffix split: option.splits if_splits)

lemma emit_ok_advances: "advances (emit_ok r rest) bs \<longleftrightarrow> (\<forall>out. r = Inr out \<longrightarrow> suffix rest bs)"
  by (auto simp: emit_ok_def split: sum.splits)

lemma index_array_advances: "advances (selEmitIndexArray out complement p) p"
  unfolding selEmitIndexArray_def
  by (rule advances_and_then [OF json_elements_advances [OF index_consumes]]) (simp add: emit_ok_advances)

lemma require_string_consumes: "consumes (require_string msg n bs) bs"
  using read_string_suffix [of n bs] by (auto simp: require_string_def split: prod.splits option.splits)

lemma enter_consumes:
  "consumes (require_open msg (jsonEnterArray bs)) bs" "consumes (require_open msg (jsonEnterObject bs)) bs"
  using ws_suffix [of bs]
  by (auto simp: require_open_def jsonEnterArray_def jsonEnterObject_def split: list.splits if_splits
      intro: suffix_order.less_le_trans [OF strict_suffix_Cons])

lemma strict_then: "strict_suffix rest bs \<Longrightarrow> suffix bs cs \<Longrightarrow> strict_suffix rest cs"
  by (rule suffix_order.less_le_trans)

lemma consumes_suffix: "consumes m bs \<Longrightarrow> suffix bs cs \<Longrightarrow> consumes m cs"
  by (auto simp: consumes_def intro: strict_then)

lemma operand_consumes:
  assumes "\<And>out. consumes (self out p) p"
  shows "consumes (operand self op st p) p"
proof -
  obtain out cnt where s: "st = (out, cnt)" by (rule prod.exhaust)
  show ?thesis unfolding operand_def s prod.case
    by (rule consumes_and_then [OF assms]) (auto simp: emit_ok_advances intro!: advances_and_then)
qed

lemma composition_advances:
  assumes self: "\<And>out q. suffix q p \<Longrightarrow> consumes (self out q) q" and z: "skippable z p"
  shows "advances (composition_key z self key st p) p"
proof -
  obtain out got where s: "st = (out, got)" by (rule prod.exhaust)
  consider (list) "key = ''any'' \<or> key = ''all''" | (neg) "key = ''not''" | (ex) "key = ''exclude''"
    | (other) "key \<notin> {''any'', ''all'', ''not'', ''exclude''}" by auto
  then show ?thesis
  proof cases
    case list
    have "advances (json_elements (operand self op) (out, 0) q) q" if "suffix q p" for q op
    proof (rule json_elements_advances)
      fix st r assume "suffix r q"
      then have "suffix r p" using that by (rule suffix_order.trans)
      then show "consumes (operand self op st r) r" by (intro operand_consumes self)
    qed
    then show ?thesis unfolding s composition_key_simps(1) [OF list]
      by (auto intro!: advances_and_then consumes_advances [OF enter_consumes(1)])
  next
    case neg
    show ?thesis unfolding s neg composition_key_simps(2)
      by (auto simp: emit_ok_advances intro!: advances_and_then consumes_advances [OF self])
  next
    case ex
    show ?thesis unfolding s ex composition_key_simps(3)
      by (auto intro!: advances_and_then consumes_advances [OF enter_consumes(1)] index_array_advances)
  next
    case other
    show ?thesis unfolding s composition_key_simps(4) [OF other] by (rule skip_then_advances [OF z])
  qed
qed

lemma selAppend_consumes: "skippable z bs \<Longrightarrow> consumes (selAppend levels z out bs) bs"
proof (induction levels arbitrary: out bs)
  case (Suc n)
  show ?case
  proof (cases "jsonSkipWs bs")
    case (Cons c cs)
    have cs: "suffix (c # cs) bs" using ws_suffix [of bs] Cons by simp
    have "consumes (selAppend (Suc n) z out bs) (c # cs)"
    proof -
      have fields: "advances (json_fields 12 (composition_key z (selAppend n z)) (out, False) p) p" if "suffix p bs" for p
        using Suc.IH skippable_suffix [OF Suc.prems] that
        by (intro json_fields_advances composition_advances) (auto intro: suffix_order.trans)
      have tok: "consumes (and_then (require_string ''panels: bad string'' 40 (c # cs)) (\<lambda>tok rest. emit_ok (selEmitToken tok out) rest)) (c # cs)"
        by (rule consumes_and_then [OF require_string_consumes]) (simp add: emit_ok_advances)
      have arr: "consumes (and_then (require_open ''panels: bad array'' (jsonEnterArray (c # cs))) (\<lambda>_ p. selEmitIndexArray out False p)) (c # cs)"
        by (rule consumes_and_then [OF enter_consumes(1)]) (rule index_array_advances)
      have obj: "consumes (and_then (require_open ''panels: bad object'' (jsonEnterObject (c # cs))) (\<lambda>_ p.
              and_then (json_fields 12 (composition_key z (selAppend n z)) (out, False) p) (\<lambda>(out, got) rest.
                if \<not> got then fail ''panels: empty object (use any/all/not/exclude)'' else ok out rest))) (c # cs)"
      proof (rule consumes_and_then [OF enter_consumes(2)])
        fix u p assume "strict_suffix p (c # cs)"
        then have "suffix p bs" using cs by (auto simp: strict_suffix_def intro: suffix_order.trans)
        then show "advances (and_then (json_fields 12 (composition_key z (selAppend n z)) (out, False) p) (\<lambda>(out, got) rest.
                if \<not> got then fail ''panels: empty object (use any/all/not/exclude)'' else ok out rest)) p"
          by (auto intro!: advances_and_then [OF fields])
      qed
      show ?thesis using tok arr obj by (simp only: selAppend.simps Cons list.case split: if_split) simp
    qed
    then show ?thesis using cs by (rule consumes_suffix)
  qed simp
qed simp

section \<open>Properties\<close>

text \<open>The meaning of a written selector, straight from its form.\<close>

fun form_set :: "TopologyIndex \<Rightarrow> sel_form \<Rightarrow> nat set" where
  "form_set t (FLeaf e) = sel_set t e"
| "form_set t (FList ps) = {u. \<exists>p \<in> set ps. ti_slotOf t p = Some u}"
| "form_set t (FExclude ps) = {..<ti_n t} - {u. \<exists>p \<in> set ps. ti_slotOf t p = Some u}"
| "form_set t (FAny fs) = (\<Union>f \<in> set fs. form_set t f)"
| "form_set t (FEvery fs) = (\<Inter>f \<in> set fs. form_set t f)"
| "form_set t (FNot f) = {..<ti_n t} - form_set t f"

lemma fold_set:
  "sel_set t (foldl SOr e es) = sel_set t e \<union> (\<Union>x \<in> set es. sel_set t x)"
  "sel_set t (foldl SAnd e es) = sel_set t e \<inter> (\<Inter>x \<in> set es. sel_set t x)"
  by (induction es arbitrary: e) auto

lemma form_set_expr: "form_ok f \<Longrightarrow> sel_set t (form_expr f) = form_set t f"
proof (induction f)
  case (FAny fs)
  then show ?case by (cases fs) (auto simp: fold_exprs_def fold_set list_all_iff)
next
  case (FEvery fs)
  then show ?case by (cases fs) (auto simp: fold_exprs_def fold_set list_all_iff)
qed simp_all

lemma fold_need:
  assumes "\<And>a b. sel_need (op a b) = max (sel_need a) (Suc (sel_need b))" and "\<And>a b. sel_lists_ok (op a b) = (sel_lists_ok a \<and> sel_lists_ok b)"
  shows "sel_need e \<le> Suc m \<Longrightarrow> \<forall>x \<in> set es. sel_need x \<le> m \<Longrightarrow> sel_need (foldl op e es) \<le> Suc m"
    and "sel_lists_ok e \<Longrightarrow> \<forall>x \<in> set es. sel_lists_ok x \<Longrightarrow> sel_lists_ok (foldl op e es)"
  by (induction es arbitrary: e) (simp_all add: assms)

lemma form_need: "form_ok f \<Longrightarrow> sel_need (form_expr f) \<le> Suc (nesting f) \<and> sel_lists_ok (form_expr f)"
proof (induction f)
  case (FLeaf e)
  then show ?case by (cases e) (simp_all add: leaf_form_ok_def)
next
  case (FAny fs)
  have "sel_need (form_expr f) \<le> nesting (FAny fs) \<and> sel_lists_ok (form_expr f)" if "f \<in> set fs" for f
    using FAny.IH [OF that] FAny.prems that nesting_operand(1) [OF that] by (simp add: list_all_iff del: nesting.simps)
  then have "\<forall>x \<in> set (map form_expr fs). sel_need x \<le> nesting (FAny fs) \<and> sel_lists_ok x" by simp
  then show ?case using FAny.prems fold_need(1) [where op = SOr and m = "nesting (FAny fs)"] fold_need(2) [where op = SOr] by (cases fs) (auto simp: fold_exprs_def simp del: nesting.simps)
next
  case (FEvery fs)
  have "sel_need (form_expr f) \<le> nesting (FEvery fs) \<and> sel_lists_ok (form_expr f)" if "f \<in> set fs" for f
    using FEvery.IH [OF that] FEvery.prems that nesting_operand(2) [OF that] by (simp add: list_all_iff del: nesting.simps)
  then have "\<forall>x \<in> set (map form_expr fs). sel_need x \<le> nesting (FEvery fs) \<and> sel_lists_ok x" by simp
  then show ?case using FEvery.prems fold_need(1) [where op = SAnd and m = "nesting (FEvery fs)"] fold_need(2) [where op = SAnd] by (cases fs) (auto simp: fold_exprs_def simp del: nesting.simps)
qed (auto simp: index_list_ok_def SEL_MAX_INDEX_LIST_def)

lemma cleared_ready: "length (sel_ops out) = SEL_CAP \<Longrightarrow> sel_ready (sel_clear out) \<and> sel_len (sel_clear out) = 0 \<and> prog (sel_clear out) = []"
  by (simp add: sel_ready_def sel_clear_def prog_def)

text \<open>
  C32. Whatever text the parser accepts, white space, unknown keys, cut tokens and numbers with trailing characters included,
  the program it leaves is the postfix code of a selector expression with lists that fit their length byte, and
  needs at most one stack entry more than the evaluator has: a program is never truncated, and its bytes are never
  taken for other operations.
\<close>

theorem accepted_selector_well_formed:
  assumes "parsePanelSelector z out p = ok out' rest" and "length (sel_ops out) = SEL_CAP"
  shows "\<exists>e. take (sel_len out') (sel_ops out') = sel_code e \<and> sel_lists_ok e \<and> sel_need e \<le> SEL_STACK_MAX + 1
    \<and> length (sel_ops out') = SEL_CAP"
proof -
  note c = cleared_ready [OF assms(2)]
  have "codes (SEL_STACK_MAX + 1) (sel_clear out) out'"
    using assms(1) selAppend_codes c unfolding parsePanelSelector_def by blast
  then show ?thesis using c by (auto simp: codes_def extends_def prog_def sel_ready_def)
qed

theorem accepted_selector_well_formed_witness:
  "\<exists>out' rest. parsePanelSelector NUL \<lparr>sel_ops = replicate 64 0, sel_len = 0\<rparr> ''[1,2],'' = ok out' rest
     \<and> (\<exists>e. take (sel_len out') (sel_ops out') = sel_code e)"
proof -
  let ?out = "\<lparr>sel_ops = replicate 64 0, sel_len = 0\<rparr>"
  have len: "length (sel_ops ?out) = SEL_CAP" by (simp add: SEL_CAP_def)
  have "written_in 7 (FList [1, 2])" by (rule form_written) (simp_all add: index_list_ok_def SEL_MAX_INDEX_LIST_def)
  then have "\<exists>out'. selAppend 7 NUL (sel_clear ?out) (form_text (FList [1, 2]) @ '','') = ok out' '','' \<and> extends (sel_clear ?out) (sel_code (form_expr (FList [1, 2]))) out'"
    by (rule written_in_def [THEN iffD1, rule_format]) (use cleared_ready [OF len] in \<open>simp_all add: SEL_CAP_def\<close>)
  moreover have "form_text (FList [1, 2]) @ '','' = ''[1,2],''" by code_simp
  ultimately have "\<exists>out' rest. parsePanelSelector NUL ?out ''[1,2],'' = ok out' rest"
    by (simp only: parsePanelSelector_def) (auto simp: SEL_STACK_MAX_def simp del: selAppend.simps form_text.simps)
  then show ?thesis using accepted_selector_well_formed [OF _ len] by blast
qed

lemma resolve_code:
  assumes "topo_ready t" and "sel_len sel \<le> length (sel_ops sel)" and "sel_expr_ok e" and "take (sel_len sel) (sel_ops sel) = sel_code e"
  shows "\<exists>s. resolveSelector sel t out = Some (True, s) \<and> {x. x < ti_n t \<and> ps_test s x} = sel_set t e"
proof -
  from selector_meaning [OF assms(1,2), of out] obtain b s where r: "resolveSelector sel t out = Some (b, s)"
    and b: "b \<longleftrightarrow> (\<exists>e. sel_expr_ok e \<and> take (sel_len sel) (sel_ops sel) = sel_code e)"
    and m: "\<forall>e. sel_expr_ok e \<and> take (sel_len sel) (sel_ops sel) = sel_code e \<longrightarrow> {x. x < ti_n t \<and> ps_test s x} = sel_set t e"
    by (elim exE conjE)
  have "b" unfolding b using assms(3,4) by (intro exI conjI)
  then show ?thesis using r m [rule_format, OF conjI [OF assms(3,4)]] by simp
qed



text \<open>
  One level more is accepted by the parser, but its program needs seven stack entries, and the evaluator refuses it: the
  layer selects nothing.
\<close>

definition deepest_form :: sel_form where
  "deepest_form = ((\<lambda>f. FAny [FLeaf SRoot, f]) ^^ 6) (FLeaf SLeaves)"

lemma seven_leaves_refused:
  assumes t: "topo_ready t" and len: "sel_len sel \<le> length (sel_ops sel)"
    and p: "prog sel = replicate 6 SEL_ROOT @ SEL_LEAVES # rest"
  shows "resolveSelector sel t out = Some (False, out)"
proof -
  have l: "length (prog sel) = sel_len sel" using len by (simp add: prog_def)
  have "\<exists>st. length st = k \<and> sel_loop sel t 0 [] = sel_loop sel t k st" if "k \<le> 6" for k
    using that
  proof (induction k)
    case (Suc k)
    then obtain st where st: "length st = k" "sel_loop sel t 0 [] = sel_loop sel t k st" by auto
    have "drop k (prog sel) = sel_code SRoot @ drop (Suc k) (prog sel)"
      using Suc.prems l p by (subst Cons_nth_drop_Suc [symmetric]) (simp_all add: nth_append)
    then obtain s where "sel_loop sel t k st = sel_loop sel t (k + 1) (st @ [s])"
      using sel_loop_leaf_expr [OF t len, of SRoot st k "drop (Suc k) (prog sel)"] Suc.prems st(1) by (auto simp: leaf_expr_def SEL_STACK_MAX_def)
    then show ?case using st by (intro exI [of _ "st @ [s]"]) simp
  qed simp
  then obtain st where st: "length st = 6" "sel_loop sel t 0 [] = sel_loop sel t 6 st" by blast
  have "6 < sel_len sel" "sel_ops sel ! 6 = SEL_LEAVES" using p l prog_at [OF len, of 0 "prog sel" 6] by (simp_all add: nth_append)
  then have "sel_loop sel t 6 st = Some None" using sel_loop_leaf [of 6 sel t st] st(1) by (simp add: sel_codes SEL_STACK_MAX_def)
  then show ?thesis using st(2) by (simp add: resolveSelector_def)
qed

lemma deepest_selector_unresolved:
  assumes "topo_ready t"
  shows "\<exists>out' s. parsePanelSelector NUL \<lparr>sel_ops = replicate 64 0, sel_len = 0\<rparr> (form_text deepest_form) = ok out' []
    \<and> resolveSelector out' t (ps_clearAll []) = Some (False, s)"
proof -
  let ?out = "\<lparr>sel_ops = replicate 64 0, sel_len = 0\<rparr>"
  have c: "sel_ready (sel_clear ?out)" "sel_len (sel_clear ?out) = 0" "prog (sel_clear ?out) = []"
    using cleared_ready [of ?out] by (simp_all add: SEL_CAP_def)
  have code: "sel_code (form_expr deepest_form) = replicate 6 SEL_ROOT @ SEL_LEAVES # replicate 6 SEL_OR"
    by (simp add: deepest_form_def fold_exprs_def eval_nat_numeral)
  have "written_in 7 deepest_form" by (rule form_written) (simp_all add: deepest_form_def leaf_form_ok_def eval_nat_numeral)
  then have "\<exists>out'. selAppend 7 NUL (sel_clear ?out) (form_text deepest_form @ []) = ok out' []
      \<and> extends (sel_clear ?out) (sel_code (form_expr deepest_form)) out'"
    by (rule written_in_def [THEN iffD1, rule_format]) (use c in \<open>simp_all add: code SEL_CAP_def\<close>)
  then obtain out' where o: "selAppend 7 NUL (sel_clear ?out) (form_text deepest_form) = ok out' []"
    "extends (sel_clear ?out) (replicate 6 SEL_ROOT @ SEL_LEAVES # replicate 6 SEL_OR) out'"
    unfolding code by auto
  then have "resolveSelector out' t (ps_clearAll []) = Some (False, ps_clearAll [])"
    using c(3) by (intro seven_leaves_refused [OF assms]) (simp_all add: extends_def sel_ready_def)
  then show ?thesis using o(1) by (auto simp: parsePanelSelector_def SEL_STACK_MAX_def simp del: selAppend.simps)
qed

end
