(* ===== verification/Scene_Parser.thy ===== *)
theory Scene_Parser
  imports
    Selector_Parser Scene_Data
begin

text \<open>
  The parser of scenes (\<open>Core/Controller/SceneParser.cpp\<close>). The state of each loop over keys is the part of the scene that
  the loop fills; what the code writes into arrays behind a count is the list of the entries in use. Groups are named in
  a table, steps may carry an id, and both are resolved to numbers once all layers are read.
\<close>

section \<open>Records\<close>

record SceneRecord =
  sr_id :: string
  sr_name :: string
  sr_duration :: u32
  sr_schemaVersion :: u8
  sr_hidden :: u8
  sr_loop :: bool
  sr_palette :: string
  sr_hasPalette :: bool
  sr_hasColors :: bool
  sr_baseColors :: "ColorRGB list"
  sr_background :: ColorRGB
  sr_speed :: real
  sr_layers :: "SceneLayer list"

definition SCENE_NAME_MAX :: nat where "SCENE_NAME_MAX = 30"
definition SCENE_SCHEMA_VERSION :: u8 where "SCENE_SCHEMA_VERSION = 8"
definition GROUP_NAME_LEN :: nat where "GROUP_NAME_LEN = 16"
definition STEP_NAME_LEN :: nat where "STEP_NAME_LEN = 16"
definition START_AFTER_LEN :: nat where "START_AFTER_LEN = GROUP_NAME_LEN + STEP_NAME_LEN"
definition USER_COLORS_PALETTE_NAME :: string where "USER_COLORS_PALETTE_NAME = ''Base colors''"

definition FLAG_PINGPONG :: u8 where "FLAG_PINGPONG = 0x02"
definition COMPOSE_ADD :: u8 where "COMPOSE_ADD = 2"
definition COMPOSE_MULTIPLY :: u8 where "COMPOSE_MULTIPLY = 4"
definition COMPOSE_SCREEN :: u8 where "COMPOSE_SCREEN = 5"
definition COMPOSE_DARKEN :: u8 where "COMPOSE_DARKEN = 6"
definition COMPOSE_OVERLAY :: u8 where "COMPOSE_OVERLAY = 7"
definition COMPOSE_DIFFERENCE :: u8 where "COMPOSE_DIFFERENCE = 8"
definition COMPOSE_SUBTRACT :: u8 where "COMPOSE_SUBTRACT = 9"

definition isValidSceneName :: "string \<Rightarrow> bool" where
  "isValidSceneName name \<longleftrightarrow> name \<noteq> [] \<and> length name \<le> SCENE_NAME_MAX"

text \<open>The names given to groups, with their ids, and the next id to hand out.\<close>

record NameTable =
  nt_entries :: "(string \<times> u8) list"
  nt_nextAuto :: u8

definition nt_reset :: NameTable where
  "nt_reset = \<lparr>nt_entries = [], nt_nextAuto = 1\<rparr>"

definition nt_intern :: "string \<Rightarrow> NameTable \<Rightarrow> u8 \<times> NameTable" where
  "nt_intern name t =
     (case List.find (\<lambda>e. fst e = name) (nt_entries t) of
        Some e \<Rightarrow> (snd e, t)
      | None \<Rightarrow>
          if SCENE_MAX_LAYERS \<le> length (nt_entries t) then (0, t)
          else (nt_nextAuto t,
                \<lparr>nt_entries = nt_entries t @ [(take (GROUP_NAME_LEN - 1) name, nt_nextAuto t)], nt_nextAuto = nt_nextAuto t + 1\<rparr>))"

definition nt_find :: "string \<Rightarrow> NameTable \<Rightarrow> u8" where
  "nt_find name t = (case List.find (\<lambda>e. fst e = name) (nt_entries t) of Some e \<Rightarrow> snd e | None \<Rightarrow> 0)"

section \<open>Values\<close>

text \<open>A number in a range, with the complaint about any other value.\<close>

definition uint_in :: "string \<Rightarrow> nat \<Rightarrow> nat \<Rightarrow> string \<Rightarrow> nat parse" where
  "uint_in msg least greatest p =
     (case jsonReadUInt p of
        None \<Rightarrow> fail msg
      | Some (v, rest) \<Rightarrow> if v < least \<or> greatest < v then fail msg else ok v rest)"

definition bool_in :: "string \<Rightarrow> string \<Rightarrow> bool parse" where
  "bool_in msg p = require msg (jsonReadBool p)"

text \<open>The object form of a colour: the reference so far and whether a key has set it.\<close>

definition color_key :: "char \<Rightarrow> string \<Rightarrow> ColorRef \<times> bool \<Rightarrow> string \<Rightarrow> (ColorRef \<times> bool) parse" where
  "color_key z key st p =
     (case st of (out, found) \<Rightarrow>
        if key = ''palette'' then
          and_then (uint_in [] 0 255 p) (\<lambda>v rest. ok (ColorRef_palette (of_nat v), True) rest)
        else if key = ''useColor'' then
          and_then (uint_in [] 0 2 p) (\<lambda>v rest. ok (ColorRef_useColor (of_nat v), True) rest)
        else if key = ''r'' \<or> key = ''g'' \<or> key = ''b'' then
          and_then (uint_in [] 0 255 p) (\<lambda>v rest.
            let out = (if found then out else ColorRef_rgb 255 255 255);
                out = (if key = ''r'' then out\<lparr>cr_raw0 := of_nat v\<rparr>
                       else if key = ''g'' then out\<lparr>cr_raw1 := of_nat v\<rparr>
                       else out\<lparr>cr_raw2 := of_nat v\<rparr>)
            in ok (out\<lparr>cr_kind := COLORREF_RGB\<rparr>, True) rest)
        else skip_then z (out, found) p)"

definition parseColorRef :: "char \<Rightarrow> ColorRef \<Rightarrow> string \<Rightarrow> ColorRef parse" where
  "parseColorRef z out bs =
     (case jsonSkipWs bs of
        [] \<Rightarrow> fail []
      | c # cs \<Rightarrow>
          if c = QUOTE then
            and_then (require_string [] 16 (c # cs)) (\<lambda>s rest.
              case jsonParseHexColor s of
                None \<Rightarrow> fail []
              | Some (r, g, b) \<Rightarrow> ok (ColorRef_rgb r g b) rest)
          else
            and_then (require_open [] (jsonEnterObject (c # cs))) (\<lambda>_ p.
              and_then (json_fields 12 (color_key z) (out, False) p) (\<lambda>(out, found) rest.
                if found then ok out rest else fail [])))"

text \<open>A colour field of something: the complaint of the caller replaces the silence of \<open>parseColorRef\<close>.\<close>

definition complain :: "string \<Rightarrow> 'a parse \<Rightarrow> 'a parse" where
  "complain msg m = (case m of Some (Inl _) \<Rightarrow> fail msg | _ \<Rightarrow> m)"

definition parseAnimTypeName :: "string \<Rightarrow> u8" where
  "parseAnimTypeName s =
     (if s = ''SOLID'' then ANIM_SOLID
      else if s = ''FADE'' then ANIM_FADE
      else if s = ''TRANSITION'' then ANIM_TRANSITION
      else if s = ''BREATHE'' then ANIM_BREATHE
      else if s = ''PULSE'' then ANIM_PULSE
      else if s = ''BLINK'' then ANIM_BLINK
      else if s = ''HUE_CYCLE'' then ANIM_HUE_CYCLE
      else if s = ''STROBE'' then ANIM_STROBE
      else if s = ''REACTIVE'' then ANIM_REACTIVE
      else 0xFF)"

definition parseRunnerName :: "string \<Rightarrow> u8" where
  "parseRunnerName s =
     (if s = ''WAVE'' then RUN_WAVE
      else if s = ''RIPPLE'' then RUN_RIPPLE
      else if s = ''CHASE'' then RUN_CHASE
      else if s = ''WHEEL'' then RUN_WHEEL
      else if s = ''BOUNCE'' then RUN_BOUNCE
      else if s = ''RAIN'' then RUN_RAIN
      else if s = ''SPARKLE'' then RUN_SPARKLE
      else if s = ''MATRIX'' then RUN_MATRIX
      else 0xFF)"

text \<open>\<open>atol\<close>, on texts short enough not to overflow.\<close>

definition c_space :: "char \<Rightarrow> bool" where
  "c_space c \<longleftrightarrow> json_ws c \<or> c = CHR 0x0B \<or> c = CHR 0x0C"

definition atol :: "string \<Rightarrow> int" where
  "atol s =
     (let t = dropWhile c_space s;
          neg = (t \<noteq> [] \<and> hd t = CHR ''-'');
          t = (if t \<noteq> [] \<and> (hd t = CHR ''-'' \<or> hd t = CHR ''+'') then tl t else t);
          v = fold (\<lambda>c v. v * 10 + int (digit_val c)) (takeWhile is_digit t) 0
      in if neg then - v else v)"

section \<open>The fields of a step\<close>

definition set_param :: "nat \<Rightarrow> u8 \<Rightarrow> SceneStep \<Rightarrow> SceneStep" where
  "set_param i v step = step\<lparr>ss_params := (ss_params step)[i := v]\<rparr>"

definition set_runner_flag :: "u8 \<Rightarrow> SceneStep \<Rightarrow> SceneStep" where
  "set_runner_flag f step = set_param RUNNER_PARAM_FLAGS (ss_params step ! RUNNER_PARAM_FLAGS OR f) step"

text \<open>\<open>type\<close> and \<open>runner\<close>: \<open>decode\<close> is the table of names.\<close>

definition type_field ::
  "string \<Rightarrow> string \<Rightarrow> nat \<Rightarrow> (string \<Rightarrow> u8) \<Rightarrow> SceneStep \<times> bool \<Rightarrow> string \<Rightarrow> (SceneStep \<times> bool) parse" where
  "type_field not_string unknown len decode st p =
     (case st of (step, hasType) \<Rightarrow>
        and_then (require_string not_string len p) (\<lambda>s rest.
          if decode s = 0xFF then fail (unknown @ s)
          else if hasType then fail ''step: type and runner both set''
          else ok (step\<lparr>ss_animType := decode s\<rparr>, True) rest))"

definition source_field :: "SceneStep \<Rightarrow> string \<Rightarrow> SceneStep parse" where
  "source_field step p =
     and_then (require_string ''step.source: not a string'' 16 p) (\<lambda>s rest.
       if s = ''root'' then ok (set_param RUNNER_PARAM_SRC_KIND SRC_ROOT step) rest
       else if s = ''leaves'' then ok (set_param RUNNER_PARAM_SRC_KIND SRC_LEAVES step) rest
       else if s = ''all'' then ok (set_param RUNNER_PARAM_SRC_KIND SRC_ALL step) rest
       else if s = ''geometric'' then ok (set_runner_flag RUNNER_FLAG_GEOMETRIC step) rest
       else if take 6 s = ''panel:'' then
         (let n = atol (drop 6 s)
          in if n < 1 \<or> 255 < n then fail ''step.source: bad panel index''
             else ok (set_param RUNNER_PARAM_SRC_ARG (word_of_int n) (set_param RUNNER_PARAM_SRC_KIND SRC_PANEL step)) rest)
       else fail (''step.source: unknown ('' @ s @ '')''))"

definition directionality_field :: "SceneStep \<Rightarrow> string \<Rightarrow> SceneStep parse" where
  "directionality_field step p =
     and_then (require_string ''step.directionality: not a string'' 16 p) (\<lambda>s rest.
       if s = ''geometric'' then ok (set_runner_flag RUNNER_FLAG_GEOMETRIC step) rest
       else if s = ''topology'' then
         ok (set_param RUNNER_PARAM_FLAGS (ss_params step ! RUNNER_PARAM_FLAGS AND NOT RUNNER_FLAG_GEOMETRIC) step) rest
       else fail (''step.directionality: unknown ('' @ s @ '')''))"

definition animates_target :: "string \<Rightarrow> u8 option" where
  "animates_target s =
     (if s = ''color'' then Some TARGET_COLOR
      else if s = ''dim'' then Some TARGET_DIM
      else if s = ''desaturate'' then Some TARGET_DESATURATE
      else if s = ''hue'' then Some TARGET_HUE
      else if s = ''invert'' then Some TARGET_INVERT
      else if s = ''brighten'' then Some TARGET_BRIGHTEN
      else if s = ''saturate'' then Some TARGET_SATURATE
      else None)"

definition animates_field :: "SceneStep \<Rightarrow> string \<Rightarrow> SceneStep parse" where
  "animates_field step p =
     and_then (require_string ''step.animates: not a string'' 16 p) (\<lambda>s rest.
       case animates_target s of
         Some target \<Rightarrow> ok (step\<lparr>ss_animates := target\<rparr>) rest
       | None \<Rightarrow> fail (''step.animates: unknown ('' @ s @ '')''))"

text \<open>The elements of \<open>params\<close>: the step and how many are stored.\<close>

definition params_element :: "SceneStep \<times> nat \<Rightarrow> string \<Rightarrow> (SceneStep \<times> nat) parse" where
  "params_element st p =
     (case st of (step, k) \<Rightarrow>
        and_then (uint_in ''step.params[i] out of range'' 0 255 p) (\<lambda>v rest.
          if 5 \<le> k then fail ''step.params too long (max 5)''
          else ok (set_param k (of_nat v) step, k + 1) rest))"

definition params_field :: "SceneStep \<Rightarrow> string \<Rightarrow> SceneStep parse" where
  "params_field step p =
     and_then (require_open ''step.params: expected array'' (jsonEnterArray p)) (\<lambda>_ p.
       and_then (json_elements params_element (step, 0) p) (\<lambda>(step, _) rest. ok step rest))"

text \<open>The fields of the step itself, without the two that also touch \<open>hasType\<close>.\<close>

definition plain_step_field :: "char \<Rightarrow> string \<Rightarrow> SceneStep \<Rightarrow> string \<Rightarrow> SceneStep parse" where
  "plain_step_field z key step p =
     (if key = ''colorFrom'' then
        and_then (complain ''step.colorFrom: invalid color ref'' (parseColorRef z (ss_colorFrom step) p)) (\<lambda>c rest.
          ok (step\<lparr>ss_colorFrom := c\<rparr>) rest)
      else if key = ''colorTo'' \<or> key = ''color'' then
        and_then (complain ''step.colorTo: invalid color ref'' (parseColorRef z (ss_colorTo step) p)) (\<lambda>c rest.
          ok (step\<lparr>ss_colorTo := c\<rparr>) rest)
      else if key = ''duration'' then
        and_then (uint_in ''step.duration: not a uint'' 0 65535 p) (\<lambda>v rest. ok (step\<lparr>ss_durationMs := of_nat v\<rparr>) rest)
      else if key = ''loop'' then
        and_then (bool_in ''step.loop: not bool'' p) (\<lambda>b rest.
          ok (if b then step\<lparr>ss_flags := ss_flags step OR FLAG_LOOP\<rparr> else step) rest)
      else if key = ''pingpong'' then
        and_then (bool_in ''step.pingpong: not bool'' p) (\<lambda>b rest.
          ok (if b then step\<lparr>ss_flags := ss_flags step OR FLAG_PINGPONG\<rparr> else step) rest)
      else if key = ''params'' then params_field step p
      else if key = ''from'' then
        and_then (uint_in ''step.from: expected 0-255'' 0 255 p) (\<lambda>v rest. ok (step\<lparr>ss_valueFrom := of_nat v\<rparr>) rest)
      else if key = ''to'' then
        and_then (uint_in ''step.to: expected 0-255'' 0 255 p) (\<lambda>v rest. ok (step\<lparr>ss_valueTo := of_nat v\<rparr>) rest)
      else if key = ''waveWidth'' \<or> key = ''rippleWidth'' \<or> key = ''width'' then
        and_then (uint_in [] 0 255 p) (\<lambda>v rest. ok (set_param RUNNER_PARAM_WIDTH (of_nat v) step) rest)
      else if key = ''thickness'' then
        and_then (uint_in ''step.thickness: expected 0-255'' 0 255 p) (\<lambda>v rest. ok (set_param RUNNER_PARAM_WIDTH (of_nat v) step) rest)
      else if key = ''lines'' then
        and_then (uint_in ''step.lines: expected 1-6'' 1 6 p) (\<lambda>v rest. ok (set_param RUNNER_PARAM_LINES (of_nat v) step) rest)
      else if key = ''source'' then source_field step p
      else if key = ''directionality'' then directionality_field step p
      else if key = ''reverse'' then
        and_then (bool_in ''step.reverse: not bool'' p) (\<lambda>b rest.
          ok (if b then set_runner_flag RUNNER_FLAG_REVERSE step else step) rest)
      else if key = ''count'' then
        and_then (uint_in ''step.count: out of range'' 1 30 p) (\<lambda>v rest. ok (set_param RUNNER_PARAM_COUNT (of_nat v) step) rest)
      else if key = ''repeatCount'' \<or> key = ''waves'' then
        and_then (uint_in ''step.repeatCount: out of range'' 0 255 p) (\<lambda>v rest. ok (set_param RUNNER_PARAM_WAVES (of_nat v) step) rest)
      else if key = ''speed'' then
        and_then (uint_in ''step.speed: out of range'' 0 65535 p) (\<lambda>v rest. ok (step\<lparr>ss_speedMs := of_nat v\<rparr>) rest)
      else if key = ''angle'' then
        and_then (uint_in ''step.angle: not a uint'' 0 65535 p) (\<lambda>v rest.
          ok (set_param RUNNER_PARAM_SRC_ARG (of_nat ((v mod 360) div 2)) step) rest)
      else if key = ''originPanel'' then
        and_then (uint_in [] 1 255 p) (\<lambda>v rest.
          ok (set_param RUNNER_PARAM_SRC_ARG (of_nat v) (set_param RUNNER_PARAM_SRC_KIND SRC_PANEL step)) rest)
      else if key = ''animates'' then animates_field step p
      else if key = ''amount'' then
        and_then (uint_in ''step.amount: expected 0-255'' 0 255 p) (\<lambda>v rest. ok (set_param RUNNER_PARAM_AMOUNT (of_nat v) step) rest)
      else skip_then z step p)"

definition handleStepField :: "char \<Rightarrow> string \<Rightarrow> SceneStep \<times> bool \<Rightarrow> string \<Rightarrow> (SceneStep \<times> bool) parse" where
  "handleStepField z key st p =
     (if key = ''type'' then type_field ''step.type: not a string'' ''unknown animType: '' 20 parseAnimTypeName st p
      else if key = ''runner'' then type_field ''step.runner: not a string'' ''unknown runner: '' 16 parseRunnerName st p
      else (case st of (step, hasType) \<Rightarrow>
              and_then (plain_step_field z key step p) (\<lambda>step rest. ok (step, hasType) rest)))"

section \<open>A step\<close>

definition step_zero :: SceneStep where
  "step_zero =
     \<lparr>ss_animType = ANIM_SOLID, ss_flags = 0, ss_durationMs = 0, ss_colorFrom = ColorRef_rgb 0 0 0, ss_colorTo = ColorRef_rgb 0 0 0,
      ss_params = replicate 6 0, ss_speedMs = 0, ss_animates = 0, ss_valueFrom = 0, ss_valueTo = 0\<rparr>"

text \<open>The keys of a step: the step, whether it has a type, and its id.\<close>

definition step_key :: "char \<Rightarrow> string \<Rightarrow> (SceneStep \<times> bool) \<times> string \<Rightarrow> string \<Rightarrow> ((SceneStep \<times> bool) \<times> string) parse" where
  "step_key z key st p =
     (case st of (step, stepId) \<Rightarrow>
        if key = ''id'' then
          and_then (require_string ''step.id: not a non-empty string'' STEP_NAME_LEN p) (\<lambda>s rest.
            if s = [] then fail ''step.id: not a non-empty string''
            else if CHR '':'' \<in> set s then fail ''step.id: ':' is reserved, not allowed''
            else ok (step, s) rest)
        else and_then (handleStepField z key step p) (\<lambda>step rest. ok (step, stepId) rest))"

definition finish_step :: "SceneStep \<Rightarrow> SceneStep" where
  "finish_step step =
     (let step = (if ss_animates step = TARGET_INVERT then step\<lparr>ss_valueFrom := 0, ss_valueTo := 0\<rparr> else step)
      in if ss_animType step = ANIM_SOLID \<and> ss_animates step \<noteq> TARGET_COLOR then step\<lparr>ss_valueTo := 0\<rparr> else step)"

definition parseStep :: "char \<Rightarrow> string \<Rightarrow> (SceneStep \<times> string) parse" where
  "parseStep z p =
     and_then (json_fields 20 (step_key z) ((step_zero, False), []) p) (\<lambda>((step, hasType), stepId) rest.
       let step = (if \<not> hasType then step\<lparr>ss_animType := ANIM_GAP\<rparr> else step)
       in if ss_animType step = ANIM_HUE_CYCLE \<and> ss_animates step \<noteq> TARGET_COLOR then fail ''HUE_CYCLE: animates must be \"color\"''
          else ok (finish_step step, stepId) rest)"

section \<open>A layer\<close>

definition layer_zero :: SceneLayer where
  "layer_zero =
     \<lparr>ly_groupId = 0, ly_startAfterGroupId = 0, ly_startAfterStepIndex = 0, ly_async = 0, ly_stepCount = 0, ly_blend = 0,
      ly_disabled = False, ly_groupName = [], ly_palette = [],
      ly_target = snd (sel_emit SEL_ALL (sel_clear \<lparr>sel_ops = replicate SEL_CAP 0, sel_len = 0\<rparr>)),
      ly_steps = replicate SCENE_MAX_STEPS step_zero\<rparr>"

text \<open>What parsing a layer fills: the layer, the table of names, the reference to another layer, the ids of the steps.\<close>

record LayerDraft =
  ld_layer :: SceneLayer
  ld_names :: NameTable
  ld_startAfter :: string
  ld_stepIds :: "string list"

definition ld_set :: "(SceneLayer \<Rightarrow> SceneLayer) \<Rightarrow> LayerDraft \<Rightarrow> LayerDraft" where
  "ld_set f d = d\<lparr>ld_layer := f (ld_layer d)\<rparr>"

definition starts_quoted :: "string \<Rightarrow> bool" where
  "starts_quoted p \<longleftrightarrow> (case p of c # _ \<Rightarrow> c = QUOTE | [] \<Rightarrow> False)"

definition group_field :: "LayerDraft \<Rightarrow> string \<Rightarrow> LayerDraft parse" where
  "group_field d p =
     (let p = jsonSkipWs p
      in if starts_quoted p then
           and_then (require_string ''layer.group: empty name'' GROUP_NAME_LEN p) (\<lambda>gname rest.
             if gname = [] then fail ''layer.group: empty name''
             else
               (let (i, names) = nt_intern gname (ld_names d)
                in if i = 0 then fail ''layer.group: too many group names''
                   else ok (ld_set (\<lambda>l. l\<lparr>ly_groupId := i, ly_groupName := gname\<rparr>) (d\<lparr>ld_names := names\<rparr>)) rest))
         else
           and_then (uint_in ''layer.group: must be 1-254 or a name'' 1 254 p) (\<lambda>v rest.
             ok (ld_set (\<lambda>l. l\<lparr>ly_groupId := of_nat v\<rparr>) d) rest))"

definition async_field :: "LayerDraft \<Rightarrow> string \<Rightarrow> LayerDraft parse" where
  "async_field d p =
     (let p = jsonSkipWs p
      in if starts_quoted p then
           and_then (require_string ''layer.async: invalid string'' 8 p) (\<lambda>s rest.
             if s = ''free'' then ok (ld_set (\<lambda>l. l\<lparr>ly_async := LAYER_ASYNC_LOOP OR LAYER_ASYNC_NON_BLOCKING\<rparr>) d) rest
             else if s = ''loop'' then ok (ld_set (\<lambda>l. l\<lparr>ly_async := LAYER_ASYNC_LOOP\<rparr>) d) rest
             else fail ''layer.async: expected true/false, \"loop\", or \"free\"'')
         else
           and_then (bool_in ''layer.async: expected bool or \"loop\"/\"free\"'' p) (\<lambda>b rest.
             ok (ld_set (\<lambda>l. l\<lparr>ly_async := (if b then LAYER_ASYNC_LOOP else 0)\<rparr>) d) rest))"

definition blend_mode :: "string \<Rightarrow> u8 option" where
  "blend_mode s =
     (if s = ''opaque'' then Some COMPOSE_OPAQUE
      else if s = ''add'' then Some COMPOSE_ADD
      else if s = ''max'' then Some COMPOSE_MAX
      else if s = ''multiply'' then Some COMPOSE_MULTIPLY
      else if s = ''screen'' then Some COMPOSE_SCREEN
      else if s = ''darken'' then Some COMPOSE_DARKEN
      else if s = ''overlay'' then Some COMPOSE_OVERLAY
      else if s = ''difference'' then Some COMPOSE_DIFFERENCE
      else if s = ''subtract'' then Some COMPOSE_SUBTRACT
      else None)"

definition sequence_element :: "char \<Rightarrow> LayerDraft \<Rightarrow> string \<Rightarrow> LayerDraft parse" where
  "sequence_element z d p =
     and_then (require_open ''layer.sequence[]: expected object'' (jsonEnterObject p)) (\<lambda>_ p.
       let n = ly_stepCount (ld_layer d)
       in if SCENE_MAX_STEPS \<le> n then fail ''layer.sequence: too many steps''
          else
            and_then (parseStep z p) (\<lambda>(step, stepId) rest.
              if stepId \<noteq> [] \<and> stepId \<in> set (ld_stepIds d) then fail (''layer.sequence: duplicate step id \"'' @ stepId @ ''\"'')
              else
                ok (ld_set (\<lambda>l. l\<lparr>ly_steps := (ly_steps l)[n := step], ly_stepCount := n + 1\<rparr>)
                      (d\<lparr>ld_stepIds := ld_stepIds d @ [stepId]\<rparr>)) rest))"

definition layer_key :: "char \<Rightarrow> string \<Rightarrow> LayerDraft \<Rightarrow> string \<Rightarrow> LayerDraft parse" where
  "layer_key z key d p =
     (if key = ''group'' then group_field d p
      else if key = ''async'' then async_field d p
      else if key = ''blend'' then
        and_then (require_string ''layer.blend: not a string'' 12 p) (\<lambda>s rest.
          case blend_mode s of
            Some m \<Rightarrow> ok (ld_set (\<lambda>l. l\<lparr>ly_blend := m\<rparr>) d) rest
          | None \<Rightarrow> fail (''layer.blend: unknown ('' @ s @ '')''))
      else if key = ''disabled'' then
        and_then (bool_in ''layer.disabled: expected bool'' p) (\<lambda>b rest. ok (ld_set (\<lambda>l. l\<lparr>ly_disabled := b\<rparr>) d) rest)
      else if key = ''startAfter'' then
        and_then (require_string ''layer.startAfter: not a non-empty \"group\" or \"group:stepId\"'' START_AFTER_LEN p) (\<lambda>s rest.
          if s = [] then fail ''layer.startAfter: not a non-empty \"group\" or \"group:stepId\"''
          else ok (d\<lparr>ld_startAfter := s\<rparr>) rest)
      else if key = ''panels'' then
        and_then (parsePanelSelector z (ly_target (ld_layer d)) p) (\<lambda>sel rest. ok (ld_set (\<lambda>l. l\<lparr>ly_target := sel\<rparr>) d) rest)
      else if key = ''palette'' then
        and_then (require_string ''layer.palette: not a string'' 16 p) (\<lambda>s rest. ok (ld_set (\<lambda>l. l\<lparr>ly_palette := s\<rparr>) d) rest)
      else if key = ''sequence'' then
        and_then (require_open ''layer.sequence: expected array'' (jsonEnterArray p)) (\<lambda>_ p. json_elements (sequence_element z) d p)
      else skip_then z d p)"

definition parseLayer :: "char \<Rightarrow> NameTable \<Rightarrow> string \<Rightarrow> LayerDraft parse" where
  "parseLayer z names p =
     and_then
       (json_fields 16 (layer_key z)
          \<lparr>ld_layer = layer_zero\<lparr>ly_startAfterStepIndex := SCENE_NO_STEP_INDEX\<rparr>, ld_names = names, ld_startAfter = [], ld_stepIds = []\<rparr> p)
       (\<lambda>d rest.
          if ly_groupId (ld_layer d) = 0 then fail ''layer: missing group''
          else if ly_stepCount (ld_layer d) = 0 then fail ''layer: empty sequence''
          else ok d rest)"

section \<open>A scene\<close>

definition colors_key :: "string \<Rightarrow> ColorRGB list \<Rightarrow> string \<Rightarrow> ColorRGB list parse" where
  "colors_key key cs p =
     and_then (require_string ''colors: value not a string'' 16 p) (\<lambda>hex rest.
       case jsonParseHexColor hex of
         None \<Rightarrow> fail (''colors.'' @ key @ '': bad hex'')
       | Some (r, g, b) \<Rightarrow>
           (let c = \<lparr>rgb_r = r, rgb_g = g, rgb_b = b\<rparr>
            in ok (if key = ''primary'' then cs[0 := c]
                   else if key = ''secondary'' then cs[1 := c]
                   else if key = ''tertiary'' then cs[2 := c]
                   else cs) rest))"

definition parseColors :: "ColorRGB list \<Rightarrow> string \<Rightarrow> ColorRGB list parse" where
  "parseColors cs p =
     and_then (require_open ''colors: expected object'' (jsonEnterObject p)) (\<lambda>_ p. json_fields 12 colors_key cs p)"

text \<open>What parsing a scene fills: the record and, for each layer, its reference and the ids of its steps.\<close>

record SceneDraft =
  sd_record :: SceneRecord
  sd_names :: NameTable
  sd_startAfter :: "string list"
  sd_stepIds :: "string list list"

definition sd_set :: "(SceneRecord \<Rightarrow> SceneRecord) \<Rightarrow> SceneDraft \<Rightarrow> SceneDraft" where
  "sd_set f d = d\<lparr>sd_record := f (sd_record d)\<rparr>"

definition layers_element :: "char \<Rightarrow> SceneDraft \<Rightarrow> string \<Rightarrow> SceneDraft parse" where
  "layers_element z d p =
     and_then (require_open ''layers[]: expected object'' (jsonEnterObject p)) (\<lambda>_ p.
       if SCENE_MAX_LAYERS \<le> length (sr_layers (sd_record d)) then fail ''too many layers''
       else
         and_then (parseLayer z (sd_names d) p) (\<lambda>l rest.
           ok (sd_set (\<lambda>r. r\<lparr>sr_layers := sr_layers r @ [ld_layer l]\<rparr>)
                 (d\<lparr>sd_names := ld_names l, sd_startAfter := sd_startAfter d @ [ld_startAfter l],
                    sd_stepIds := sd_stepIds d @ [ld_stepIds l]\<rparr>)) rest))"

definition scene_key :: "char \<Rightarrow> string \<Rightarrow> SceneDraft \<Rightarrow> string \<Rightarrow> SceneDraft parse" where
  "scene_key z key d p =
     (if key = ''schemaVersion'' then
        and_then (uint_in ''schemaVersion: not uint'' 0 65535 p) (\<lambda>v rest. ok (sd_set (\<lambda>r. r\<lparr>sr_schemaVersion := of_nat v\<rparr>) d) rest)
      else if key = ''name'' then
        and_then (require_string ''name: not a string'' (SCENE_NAME_MAX + 1) p) (\<lambda>s rest. ok (sd_set (\<lambda>r. r\<lparr>sr_name := s\<rparr>) d) rest)
      else if key = ''loop'' then
        and_then (bool_in ''loop: not bool'' p) (\<lambda>b rest. ok (sd_set (\<lambda>r. r\<lparr>sr_loop := b\<rparr>) d) rest)
      else if key = ''speed'' then
        and_then (require ''speed: not a number'' (jsonReadFloat p)) (\<lambda>x rest.
          let x = (if x < fl (1 / 10) then fl (1 / 10) else x); x = (if 10 < x then 10 else x)
          in ok (sd_set (\<lambda>r. r\<lparr>sr_speed := x\<rparr>) d) rest)
      else if key = ''palette'' then
        and_then (require_string ''palette: not a string'' 16 p) (\<lambda>s rest.
          ok (sd_set (\<lambda>r. r\<lparr>sr_palette := s, sr_hasPalette := True\<rparr>) d) rest)
      else if key = ''colors'' then
        and_then (parseColors (sr_baseColors (sd_record d)) p) (\<lambda>cs rest.
          ok (sd_set (\<lambda>r. r\<lparr>sr_baseColors := cs, sr_hasColors := True\<rparr>) d) rest)
      else if key = ''background'' then
        and_then (complain ''background: must be an inline RGB colour'' (parseColorRef z (ColorRef_rgb 0 0 0) p)) (\<lambda>c rest.
          if cr_kind c \<noteq> COLORREF_RGB then fail ''background: must be an inline RGB colour''
          else ok (sd_set (\<lambda>r. r\<lparr>sr_background := \<lparr>rgb_r = cr_raw0 c, rgb_g = cr_raw1 c, rgb_b = cr_raw2 c\<rparr>\<rparr>) d) rest)
      else if key = ''layers'' then
        and_then (require_open ''layers: expected array'' (jsonEnterArray p)) (\<lambda>_ p. json_elements (layers_element z) d p)
      else skip_then z d p)"

section \<open>Validation\<close>

text \<open>Loops that check or complete every layer, up to the first complaint.\<close>

fun check_all :: "('a \<Rightarrow> 's \<Rightarrow> string + 's) \<Rightarrow> 'a list \<Rightarrow> 's \<Rightarrow> string + 's" where
  "check_all f [] s = Inr s"
| "check_all f (x # xs) s = (case f x s of Inl e \<Rightarrow> Inl e | Inr s' \<Rightarrow> check_all f xs s')"

definition find_group :: "SceneLayer list \<Rightarrow> u8 \<Rightarrow> nat option" where
  "find_group layers g = List.find (\<lambda>k. ly_groupId (layers ! k) = g) [0..<length layers]"

definition duplicate_groups :: "SceneLayer list \<Rightarrow> bool" where
  "duplicate_groups layers \<longleftrightarrow>
     list_ex (\<lambda>i. list_ex (\<lambda>j. ly_groupId (layers ! i) = ly_groupId (layers ! j)) [i + 1..<length layers]) [0..<length layers]"

definition infinite_inside :: "SceneLayer \<Rightarrow> bool" where
  "infinite_inside layer \<longleftrightarrow>
     list_ex (\<lambda>s. ss_durationMs (ly_steps layer ! s) = 0 \<and> s < ly_stepCount layer - 1) [0..<ly_stepCount layer]"

text \<open>A reference split at its first colon, cut to the buffers of the code.\<close>

definition start_group :: "string \<Rightarrow> string" where
  "start_group s = take (GROUP_NAME_LEN - 1) (takeWhile (\<lambda>c. c \<noteq> CHR '':'') s)"

definition start_step :: "string \<Rightarrow> string" where
  "start_step s = take (STEP_NAME_LEN - 1) (drop 1 (dropWhile (\<lambda>c. c \<noteq> CHR '':'') s))"

definition resolve_start :: "SceneDraft \<Rightarrow> nat \<Rightarrow> SceneLayer list \<Rightarrow> string + SceneLayer list" where
  "resolve_start d i layers =
     (let s = sd_startAfter d ! i
      in if s = [] then Inr layers
         else if CHR '':'' \<in> set s \<and> start_step s = [] then Inl ''startAfter: empty step id after \":\"''
         else
           (let g = nt_find (start_group s) (sd_names d)
            in if g = 0 then Inl (''startAfter: unknown group \"'' @ start_group s @ ''\"'')
               else if g = ly_groupId (layers ! i) then Inl ''startAfter: layer cannot wait for itself''
               else
                 (let layers = layers[i := (layers ! i)\<lparr>ly_startAfterGroupId := g, ly_async := 0\<rparr>]
                  in if start_step s = [] then Inr layers
                     else
                       (case Option.bind (find_group layers g)
                               (\<lambda>k. List.find (\<lambda>j. sd_stepIds d ! k ! j = start_step s) [0..<ly_stepCount (layers ! k)]) of
                          None \<Rightarrow> Inl (''startAfter: unknown step \"'' @ start_step s @ ''\" in group \"'' @ start_group s @ ''\"'')
                        | Some j \<Rightarrow> Inr (layers[i := (layers ! i)\<lparr>ly_startAfterStepIndex := of_nat j\<rparr>])))))"

definition target_never_ends :: "SceneLayer list \<Rightarrow> SceneLayer \<Rightarrow> bool" where
  "target_never_ends layers layer \<longleftrightarrow>
     ly_startAfterGroupId layer \<noteq> 0
     \<and> (case find_group layers (ly_startAfterGroupId layer) of
          None \<Rightarrow> False
        | Some k \<Rightarrow>
            (let t = layers ! k;
                 lastIdx = (if ly_startAfterStepIndex layer = SCENE_NO_STEP_INDEX then of_nat (ly_stepCount t - 1)
                            else ly_startAfterStepIndex layer :: u8)
             in 0 < ly_stepCount t \<and> ss_durationMs (ly_steps t ! unat lastIdx) = 0 \<and> lastIdx = of_nat (ly_stepCount t - 1)))"

text \<open>Following the references from a layer: false when there are more hops than layers.\<close>

function chain_ends :: "SceneLayer list \<Rightarrow> nat \<Rightarrow> nat \<Rightarrow> bool" where
  "chain_ends layers cur hops =
     (if ly_startAfterGroupId (layers ! cur) = 0 then True
      else
        (case find_group layers (ly_startAfterGroupId (layers ! cur)) of
           None \<Rightarrow> True
         | Some k \<Rightarrow> if length layers < hops + 1 then False else chain_ends layers k (hops + 1)))"
  by pat_completeness auto
termination by (relation "measure (\<lambda>(layers, _, hops). length layers - hops)") auto

declare chain_ends.simps [simp del]

definition validate :: "SceneDraft \<Rightarrow> string + SceneRecord" where
  "validate d =
     (let r = sd_record d; n = length (sr_layers r)
      in if SCENE_SCHEMA_VERSION < sr_schemaVersion r then
           Inl (''schema_too_new: scene='' @ udec (unat (sr_schemaVersion r)) @ '' firmware='' @ udec (unat SCENE_SCHEMA_VERSION))
         else if sr_name r = [] then Inl ''name is required''
         else if n = 0 then Inl ''at least one layer required''
         else if \<not> isValidSceneName (sr_name r) then Inl (''name: max '' @ udec SCENE_NAME_MAX @ '' characters'')
         else if duplicate_groups (sr_layers r) then Inl ''duplicate group id across layers''
         else if list_ex infinite_inside (sr_layers r) then Inl ''infinite step (duration=0) only allowed as last step''
         else
           (case check_all (resolve_start d) [0..<n] (sr_layers r) of
              Inl e \<Rightarrow> Inl e
            | Inr layers \<Rightarrow>
                if list_ex (target_never_ends layers) layers then Inl ''startAfter: target step never ends (infinite last step)''
                else if \<not> list_all (\<lambda>i. chain_ends layers i 0) [0..<n] then Inl ''startAfter: dependency cycle''
                else Inr (r\<lparr>sr_layers := layers\<rparr>)))"

section \<open>Entry points\<close>

definition white :: ColorRGB where "white = \<lparr>rgb_r = 0xFF, rgb_g = 0xFF, rgb_b = 0xFF\<rparr>"
definition black :: ColorRGB where "black = \<lparr>rgb_r = 0, rgb_g = 0, rgb_b = 0\<rparr>"

definition record_zero :: SceneRecord where
  "record_zero =
     \<lparr>sr_id = [], sr_name = [], sr_duration = 0, sr_schemaVersion = 1, sr_hidden = 0, sr_loop = False,
      sr_palette = USER_COLORS_PALETTE_NAME, sr_hasPalette = False, sr_hasColors = False, sr_baseColors = [white, black, black],
      sr_background = black, sr_speed = 1, sr_layers = []\<rparr>"

definition parseScene :: "char \<Rightarrow> string \<Rightarrow> SceneRecord parse" where
  "parseScene z json =
     and_then (require_open ''scene: expected {'' (jsonEnterObject json)) (\<lambda>_ p.
       and_then (json_fields 20 (scene_key z) \<lparr>sd_record = record_zero, sd_names = nt_reset, sd_startAfter = [], sd_stepIds = []\<rparr> p) (\<lambda>d rest.
         case validate d of Inl e \<Rightarrow> fail e | Inr r \<Rightarrow> ok r rest))"

text \<open>The flat body of a one-shot: the layer, its single step, and whether that has a type.\<close>

definition one_shot_key :: "char \<Rightarrow> string \<Rightarrow> SceneLayer \<times> SceneStep \<times> bool \<Rightarrow> string \<Rightarrow> (SceneLayer \<times> SceneStep \<times> bool) parse" where
  "one_shot_key z key st p =
     (case st of (layer, step) \<Rightarrow>
        if key = ''group'' then
          and_then (uint_in ''group must be 1-254'' 1 254 p) (\<lambda>v rest. ok (layer\<lparr>ly_groupId := of_nat v\<rparr>, step) rest)
        else if key = ''panels'' then
          and_then (parsePanelSelector z (ly_target layer) p) (\<lambda>sel rest. ok (layer\<lparr>ly_target := sel\<rparr>, step) rest)
        else and_then (handleStepField z key step p) (\<lambda>step rest. ok (layer, step) rest))"

definition parseOneShotBody :: "char \<Rightarrow> string \<Rightarrow> SceneLayer parse" where
  "parseOneShotBody z json =
     and_then (require_open ''expected {'' (jsonEnterObject json)) (\<lambda>_ p.
       and_then (json_fields 20 (one_shot_key z) (layer_zero, step_zero, False) p) (\<lambda>(layer, step, _) rest.
         if ly_groupId layer = 0 then fail ''group is required''
         else ok (layer\<lparr>ly_steps := (ly_steps layer)[0 := step], ly_stepCount := 1\<rparr>) rest))"

end
