(* ===== verification/Scene_Writer.thy ===== *)
theory Scene_Writer
  imports
    Scene_Parser Json_Written
begin

text \<open>
  The writer of scenes (\<open>Core/Controller/SceneWriter.cpp\<close>) and the duration of a scene (\<open>SceneDuration.hpp\<close>). The buffer
  up to the position is its text; a position at or behind the capacity, after which the code writes nothing more, is
  \<open>None\<close>. The lemmas give the text that is written when it fits, as an object with its members.
\<close>

section \<open>Appending\<close>

text \<open>\<open>append\<close> with the text that \<open>vsnprintf\<close> makes of its format.\<close>

definition scene_append :: "nat \<Rightarrow> string \<Rightarrow> string option \<Rightarrow> string option" where
  "scene_append cap t b =
     (case b of None \<Rightarrow> None | Some s \<Rightarrow> if length s + length t < cap then Some (s @ t) else None)"

text \<open>\<open>if (c) pos = append(...)\<close>.\<close>

definition append_when :: "nat \<Rightarrow> bool \<Rightarrow> string \<Rightarrow> string option \<Rightarrow> string option" where
  "append_when cap c t b = (if c then scene_append cap t b else b)"

definition appendJsonQuoted :: "nat \<Rightarrow> string \<Rightarrow> string option \<Rightarrow> string option" where
  "appendJsonQuoted cap str b = (case b of None \<Rightarrow> None | Some s \<Rightarrow> jsonAppendQuotedString cap s (Some str))"

definition appendJsonStringField :: "nat \<Rightarrow> string \<Rightarrow> string \<Rightarrow> bool \<Rightarrow> string option \<Rightarrow> string option" where
  "appendJsonStringField cap key val leadingComma b =
     (case b of None \<Rightarrow> None | Some s \<Rightarrow> jsonAppendStringField cap s (Some key) (Some val) leadingComma)"

text \<open>\<open>%.2f\<close>: the value rounded to hundredths, ties to even.\<close>

definition two_decimals :: "real \<Rightarrow> string" where
  "two_decimals x =
     (let n = nat (round_even (\<bar>x\<bar> * 100))
      in (if x < 0 then ''-'' else []) @ udec (n div 100) @ CHR ''.'' # [char_of (48 + n div 10 mod 10), char_of (48 + n mod 10)])"

section \<open>Names\<close>

definition animTypeWireName :: "u8 \<Rightarrow> string option" where
  "animTypeWireName t =
     (if t = ANIM_SOLID then Some ''SOLID''
      else if t = ANIM_FADE then Some ''FADE''
      else if t = ANIM_TRANSITION then Some ''TRANSITION''
      else if t = ANIM_BREATHE then Some ''BREATHE''
      else if t = ANIM_PULSE then Some ''PULSE''
      else if t = ANIM_BLINK then Some ''BLINK''
      else if t = ANIM_HUE_CYCLE then Some ''HUE_CYCLE''
      else if t = ANIM_STROBE then Some ''STROBE''
      else if t = ANIM_REACTIVE then Some ''REACTIVE''
      else if t = RUN_WAVE then Some ''WAVE''
      else if t = RUN_RIPPLE then Some ''RIPPLE''
      else if t = RUN_CHASE then Some ''CHASE''
      else if t = RUN_WHEEL then Some ''WHEEL''
      else if t = RUN_BOUNCE then Some ''BOUNCE''
      else if t = RUN_RAIN then Some ''RAIN''
      else if t = RUN_SPARKLE then Some ''SPARKLE''
      else if t = RUN_MATRIX then Some ''MATRIX''
      else None)"

definition animateTargetName :: "u8 \<Rightarrow> string option" where
  "animateTargetName t =
     (if t = TARGET_DIM then Some ''dim''
      else if t = TARGET_DESATURATE then Some ''desaturate''
      else if t = TARGET_HUE then Some ''hue''
      else if t = TARGET_INVERT then Some ''invert''
      else if t = TARGET_BRIGHTEN then Some ''brighten''
      else if t = TARGET_SATURATE then Some ''saturate''
      else None)"

definition blendWireName :: "u8 \<Rightarrow> string option" where
  "blendWireName blend =
     (if blend = COMPOSE_OPAQUE then Some ''opaque''
      else if blend = COMPOSE_ADD then Some ''add''
      else if blend = COMPOSE_MAX then Some ''max''
      else if blend = COMPOSE_MULTIPLY then Some ''multiply''
      else if blend = COMPOSE_SCREEN then Some ''screen''
      else if blend = COMPOSE_DARKEN then Some ''darken''
      else if blend = COMPOSE_OVERLAY then Some ''overlay''
      else if blend = COMPOSE_DIFFERENCE then Some ''difference''
      else if blend = COMPOSE_SUBTRACT then Some ''subtract''
      else None)"

section \<open>The parts of a scene\<close>

definition uint_text :: "'a::len word \<Rightarrow> string" where
  "uint_text v = udec (unat v)"

definition writeColorRef :: "nat \<Rightarrow> ColorRef \<Rightarrow> string option \<Rightarrow> string option" where
  "writeColorRef cap c b =
     (if cr_kind c = COLORREF_RGB then
        scene_append cap (QUOTE # jsonFormatHex (cr_raw0 c) (cr_raw1 c) (cr_raw2 c) @ [QUOTE]) b
      else if cr_kind c = COLORREF_PALETTE then scene_append cap (''{\"palette\":'' @ uint_text (cr_raw0 c) @ ''}'') b
      else scene_append cap (''{\"useColor\":'' @ uint_text (cr_raw0 c) @ ''}'') b)"

text \<open>The loop over an index list that starts at byte 2 of the program.\<close>

definition writeIndices :: "nat \<Rightarrow> PanelSelector \<Rightarrow> nat \<Rightarrow> string option \<Rightarrow> string option" where
  "writeIndices cap sel n b =
     fold (\<lambda>i b. scene_append cap ((if i = 0 then [] else '','') @ uint_text (sel_ops sel ! (2 + i))) b) [0..<n] b"

definition writePanelSelector :: "nat \<Rightarrow> PanelSelector \<Rightarrow> string option \<Rightarrow> string option" where
  "writePanelSelector cap sel b =
     (if sel_len sel = 0 \<or> (sel_len sel = 1 \<and> sel_ops sel ! 0 = SEL_ALL) then scene_append cap ''\"all\"'' b
      else if 2 \<le> sel_len sel \<and> sel_ops sel ! 0 = SEL_INDICES then
        (let n = unat (sel_ops sel ! 1)
         in if 2 + n < sel_len sel \<and> sel_ops sel ! (2 + n) = SEL_NOT then
              (let b = scene_append cap ''{\"exclude\":['' b; b = writeIndices cap sel n b in scene_append cap '']}'' b)
            else
              (let b = scene_append cap ''['' b; b = writeIndices cap sel n b in scene_append cap '']'' b))
      else scene_append cap ''\"all\"'' b)"

definition writeRunnerSource :: "nat \<Rightarrow> SceneStep \<Rightarrow> string option \<Rightarrow> string option" where
  "writeRunnerSource cap step b =
     (let kind = ss_params step ! RUNNER_PARAM_SRC_KIND
      in if kind = SRC_ROOT then scene_append cap ''\"source\":\"root\"'' b
         else if kind = SRC_LEAVES then scene_append cap ''\"source\":\"leaves\"'' b
         else if kind = SRC_ALL then scene_append cap ''\"source\":\"all\"'' b
         else if kind = SRC_PANEL then
           scene_append cap (''\"source\":\"panel:'' @ uint_text (ss_params step ! RUNNER_PARAM_SRC_ARG) @ ''\"'') b
         else b)"

text \<open>The members of a runner and of a step with parameters, behind the members that both have.\<close>

definition writeDirection :: "nat \<Rightarrow> SceneStep \<Rightarrow> string option \<Rightarrow> string option" where
  "writeDirection cap step b =
     (let param = (\<lambda>i. ss_params step ! i)
      in if param RUNNER_PARAM_FLAGS AND RUNNER_FLAG_GEOMETRIC \<noteq> 0 then
           append_when cap (param RUNNER_PARAM_SRC_ARG \<noteq> 0) ('',\"angle\":'' @ udec (unat (param RUNNER_PARAM_SRC_ARG) * 2))
             (scene_append cap '',\"directionality\":\"geometric\"'' b)
         else writeRunnerSource cap step (scene_append cap '','' b))"

definition writeRunnerFields :: "nat \<Rightarrow> SceneStep \<Rightarrow> string option \<Rightarrow> string option" where
  "writeRunnerFields cap step b =
     (let t = ss_animType step;
          param = (\<lambda>i. ss_params step ! i);
          width = param RUNNER_PARAM_WIDTH;
          b = append_when cap (width \<noteq> 0 \<and> t = RUN_WHEEL) ('',\"thickness\":'' @ uint_text width) b;
          b = append_when cap (width \<noteq> 0 \<and> t \<noteq> RUN_WHEEL) ('',\"width\":'' @ uint_text width) b;
          b = append_when cap (param RUNNER_PARAM_LINES \<noteq> 0 \<and> t = RUN_WHEEL) ('',\"lines\":'' @ uint_text (param RUNNER_PARAM_LINES)) b;
          b = append_when cap (param RUNNER_PARAM_COUNT \<noteq> 0 \<and> (t = RUN_WAVE \<or> t = RUN_RIPPLE \<or> t = RUN_CHASE))
                ('',\"count\":'' @ uint_text (param RUNNER_PARAM_COUNT)) b;
          b = append_when cap (param RUNNER_PARAM_WAVES \<noteq> 0 \<and> (t = RUN_RAIN \<or> t = RUN_SPARKLE \<or> t = RUN_MATRIX))
                ('',\"waves\":'' @ uint_text (param RUNNER_PARAM_WAVES)) b;
          b = append_when cap (ss_speedMs step \<noteq> 0) ('',\"speed\":'' @ uint_text (ss_speedMs step)) b;
          b = append_when cap (param RUNNER_PARAM_AMOUNT \<noteq> 0) ('',\"amount\":'' @ uint_text (param RUNNER_PARAM_AMOUNT)) b;
          b = writeDirection cap step b
      in append_when cap (param RUNNER_PARAM_FLAGS AND RUNNER_FLAG_REVERSE \<noteq> 0) '',\"reverse\":true'' b)"

definition writeParams :: "nat \<Rightarrow> SceneStep \<Rightarrow> string option \<Rightarrow> string option" where
  "writeParams cap step b =
     (let param = (\<lambda>i. ss_params step ! i)
      in if param STEP_PARAM_PREPARE_1 \<noteq> 0 \<or> param STEP_PARAM_PREPARE_2 \<noteq> 0 then
           (let b = scene_append cap ('',\"params\":['' @ uint_text (param STEP_PARAM_PREPARE_1) @ '','' @ uint_text (param STEP_PARAM_PREPARE_2)) b;
                b = fold (\<lambda>i. append_when cap (param i \<noteq> 0) ('','' @ uint_text (param i))) [2..<6] b
            in scene_append cap '']'' b)
         else b)"

definition writeColorFrom :: "nat \<Rightarrow> ColorRef \<Rightarrow> string option \<Rightarrow> string option" where
  "writeColorFrom cap c b =
     (if cr_kind c \<noteq> COLORREF_RGB \<or> cr_raw0 c \<noteq> 0 \<or> cr_raw1 c \<noteq> 0 \<or> cr_raw2 c \<noteq> 0
      then writeColorRef cap c (scene_append cap '',\"colorFrom\":'' b) else b)"

definition writeAnimates :: "nat \<Rightarrow> SceneStep \<Rightarrow> string option \<Rightarrow> string option" where
  "writeAnimates cap step b =
     (if ss_animates step \<noteq> TARGET_COLOR then
        (case animateTargetName (ss_animates step) of
           None \<Rightarrow> b
         | Some target \<Rightarrow>
             scene_append cap ('',\"from\":'' @ uint_text (ss_valueFrom step) @ '',\"to\":'' @ uint_text (ss_valueTo step))
               (scene_append cap ('',\"animates\":\"'' @ target @ ''\"'') b))
      else b)"

definition writeStep :: "nat \<Rightarrow> SceneStep \<Rightarrow> string option \<Rightarrow> string option" where
  "writeStep cap step b =
     (if ss_animType step = ANIM_GAP then
        scene_append cap ''}''
          (append_when cap (0 < ss_durationMs step) (''\"duration\":'' @ uint_text (ss_durationMs step)) (scene_append cap ''{'' b))
      else
        (case animTypeWireName (ss_animType step) of
           None \<Rightarrow> b
         | Some nm \<Rightarrow>
             (let runner = isRunnerType (ss_animType step);
                  b = scene_append cap ''{'' b;
                  b = scene_append cap ((if runner then ''\"runner\":\"'' else ''\"type\":\"'') @ nm @ ''\"'') b;
                  b = writeColorFrom cap (ss_colorFrom step) b;
                  b = writeColorRef cap (ss_colorTo step) (scene_append cap '',\"color\":'' b);
                  b = append_when cap (0 < ss_durationMs step \<or> \<not> runner) ('',\"duration\":'' @ uint_text (ss_durationMs step)) b;
                  b = append_when cap (ss_flags step AND FLAG_LOOP \<noteq> 0) '',\"loop\":true'' b;
                  b = append_when cap (ss_flags step AND FLAG_PINGPONG \<noteq> 0) '',\"pingpong\":true'' b;
                  b = writeAnimates cap step b;
                  b = (if runner then writeRunnerFields cap step b else writeParams cap step b)
              in scene_append cap ''}'' b)))"

definition groupWireName :: "SceneLayer \<Rightarrow> string option" where
  "groupWireName layer = (if ly_groupName layer \<noteq> [] then Some (ly_groupName layer) else None)"

definition writeStartAfter :: "nat \<Rightarrow> SceneLayer \<Rightarrow> SceneRecord \<Rightarrow> string option \<Rightarrow> string option" where
  "writeStartAfter cap layer record b =
     (if ly_startAfterGroupId layer = 0 then b
      else
        (case find_group (sr_layers record) (ly_startAfterGroupId layer) of
           None \<Rightarrow> b
         | Some k \<Rightarrow>
             (case groupWireName (sr_layers record ! k) of
                Some gn \<Rightarrow> appendJsonQuoted cap gn (scene_append cap '',\"startAfter\":'' b)
              | None \<Rightarrow> scene_append cap ('',\"startAfter\":\"'' @ uint_text (ly_startAfterGroupId layer) @ ''\"'') b)))"

definition writeAsync :: "nat \<Rightarrow> u8 \<Rightarrow> string option \<Rightarrow> string option" where
  "writeAsync cap async b =
     (if async AND LAYER_ASYNC_NON_BLOCKING \<noteq> 0 then scene_append cap '',\"async\":\"free\"'' b
      else append_when cap (async AND LAYER_ASYNC_LOOP \<noteq> 0) '',\"async\":true'' b)"

definition writeBlend :: "nat \<Rightarrow> u8 \<Rightarrow> string option \<Rightarrow> string option" where
  "writeBlend cap blend b =
     (if blend \<noteq> COMPOSE_DEFAULT then
        (case blendWireName blend of None \<Rightarrow> b | Some nm \<Rightarrow> scene_append cap ('',\"blend\":\"'' @ nm @ ''\"'') b)
      else b)"

definition writeGroup :: "nat \<Rightarrow> SceneLayer \<Rightarrow> string option \<Rightarrow> string option" where
  "writeGroup cap layer b =
     (case groupWireName layer of
        Some gn \<Rightarrow> appendJsonQuoted cap gn (scene_append cap ''\"group\":'' b)
      | None \<Rightarrow> scene_append cap (''\"group\":'' @ uint_text (ly_groupId layer)) b)"

text \<open>The palette of a scene and of a layer, and the id of a scene: a string field when there is one.\<close>

definition field_when :: "nat \<Rightarrow> bool \<Rightarrow> string \<Rightarrow> string \<Rightarrow> string option \<Rightarrow> string option" where
  "field_when cap c key val b = (if c then appendJsonStringField cap key val True b else b)"

definition writeLayer :: "nat \<Rightarrow> SceneLayer \<Rightarrow> SceneRecord \<Rightarrow> string option \<Rightarrow> string option" where
  "writeLayer cap layer record b =
     (let b = writeGroup cap layer (scene_append cap ''{'' b);
          b = writePanelSelector cap (ly_target layer) (scene_append cap '',\"panels\":'' b);
          b = field_when cap (ly_palette layer \<noteq> []) ''palette'' (ly_palette layer) b;
          b = writeBlend cap (ly_blend layer) b;
          b = append_when cap (ly_disabled layer) '',\"disabled\":true'' b;
          b = writeAsync cap (ly_async layer) b;
          b = writeStartAfter cap layer record b;
          b = scene_append cap '',\"sequence\":['' b;
          b = fold (\<lambda>s b. writeStep cap (ly_steps layer ! s) (append_when cap (s \<noteq> 0) '','' b)) [0..<ly_stepCount layer] b
      in scene_append cap '']}'' b)"

definition hex_text :: "ColorRGB \<Rightarrow> string" where
  "hex_text c = jsonFormatHex (rgb_r c) (rgb_g c) (rgb_b c)"

definition serializeScene :: "nat \<Rightarrow> SceneRecord \<Rightarrow> string option" where
  "serializeScene bufLen record =
     (if bufLen < 32 then None
      else
        (let b = scene_append bufLen (''{\"schemaVersion\":'' @ uint_text (sr_schemaVersion record)) (Some []);
             b = field_when bufLen (sr_id record \<noteq> []) ''id'' (sr_id record) b;
             b = appendJsonQuoted bufLen (sr_name record) (scene_append bufLen '',\"name\":'' b);
             b = append_when bufLen (sr_loop record) '',\"loop\":true'' b;
             b = append_when bufLen (sr_speed record \<noteq> 1) ('',\"speed\":'' @ two_decimals (sr_speed record)) b;
             b = field_when bufLen (sr_hasPalette record) ''palette'' (sr_palette record) b;
             b = append_when bufLen (sr_hasColors record)
                   ('',\"colors\":{\"primary\":\"'' @ hex_text (sr_baseColors record ! 0) @ ''\",\"secondary\":\"'' @ hex_text (sr_baseColors record ! 1)
                      @ ''\",\"tertiary\":\"'' @ hex_text (sr_baseColors record ! 2) @ ''\"}'') b;
             b = append_when bufLen (sr_background record \<noteq> black) ('',\"background\":\"'' @ hex_text (sr_background record) @ ''\"'') b;
             b = scene_append bufLen '',\"layers\":['' b;
             b = fold (\<lambda>i b. writeLayer bufLen (sr_layers record ! i) record (append_when bufLen (i \<noteq> 0) '','' b))
                   [0..<length (sr_layers record)] b
         in scene_append bufLen '']}'' b))"

section \<open>The duration of a scene\<close>

definition computeSceneDurationMs :: "SceneRecord \<Rightarrow> u32" where
  "computeSceneDurationMs record =
     fold (\<lambda>layer maxLayerMs.
       let layerMs = fold (\<lambda>step ms. ms + ucast (ss_durationMs step)) (steps_of layer) 0
       in if maxLayerMs < layerMs then layerMs else maxLayerMs) (sr_layers record) 0"

section \<open>The text that is written\<close>

text \<open>A buffer with a text, if it fits. Appending to it is appending to the text.\<close>

definition buf :: "nat \<Rightarrow> string \<Rightarrow> string option" where
  "buf cap t = (if length t < cap then Some t else None)"

named_theorems buf_simps \<open>what a writer does to a buffer\<close>

lemma append_buf [buf_simps]: "scene_append cap t (buf cap s) = buf cap (s @ t)"
  by (simp add: scene_append_def buf_def)

lemma quoted_buf [buf_simps]: "appendJsonQuoted cap t (buf cap s) = buf cap (s @ json_quoted t)"
  by (auto simp: appendJsonQuoted_def buf_def append_quoted_eq)

lemma field_buf [buf_simps]:
  "appendJsonStringField cap k t True (buf cap s) = buf cap (s @ '','' @ QUOTE # k @ [QUOTE, CHR '':''] @ json_quoted t)"
  by (auto simp: appendJsonStringField_def buf_def append_field_eq)

lemma when_buf [buf_simps]: "append_when cap c t (buf cap s) = buf cap (s @ concat (opt c t))"
  by (simp add: append_when_def append_buf opt_def)

lemma field_when_buf [buf_simps]:
  "field_when cap c k t (buf cap s) = buf cap (s @ concat (opt c ('','' @ QUOTE # k @ [QUOTE, CHR '':''] @ json_quoted t)))"
  by (simp add: field_when_def field_buf opt_def)

text \<open>Only a buffer is put in place of its variable, so that no buffer is written down twice.\<close>

lemma let_buf [buf_simps]: "Let (buf cap s) f = f (buf cap s)"
  by simp

end
