(* ===== verification/Scene_Accepted.thy ===== *)
theory Scene_Accepted
  imports
    Scene_Parser
begin

text \<open>
  What the parser of scenes promises about a scene it accepts, whatever the text: counts within the arrays, distinct
  groups, well-formed selectors, references that exist and cannot go in circles. And it returns: the only loop that may
  not end is the one that skips an unknown value.
\<close>

section \<open>Steps\<close>

definition known_type :: "u8 \<Rightarrow> bool" where
  "known_type t \<longleftrightarrow>
     t \<in> {ANIM_SOLID, ANIM_FADE, ANIM_TRANSITION, ANIM_BREATHE, ANIM_PULSE, ANIM_BLINK, ANIM_HUE_CYCLE, ANIM_STROBE, ANIM_REACTIVE,
          ANIM_GAP, RUN_WAVE, RUN_RIPPLE, RUN_CHASE, RUN_WHEEL, RUN_BOUNCE, RUN_RAIN, RUN_SPARKLE, RUN_MATRIX}"

definition step_ok :: "SceneStep \<Rightarrow> bool" where
  "step_ok step \<longleftrightarrow>
     length (ss_params step) = 6 \<and> known_type (ss_animType step)
     \<and> (ss_animType step = ANIM_HUE_CYCLE \<longrightarrow> ss_animates step = TARGET_COLOR)
     \<and> (ss_animates step = TARGET_INVERT \<longrightarrow> ss_valueFrom step = 0 \<and> ss_valueTo step = 0)"

definition keeps_shape :: "SceneStep \<Rightarrow> SceneStep \<Rightarrow> bool" where
  "keeps_shape step step' \<longleftrightarrow> length (ss_params step') = length (ss_params step) \<and> ss_animType step' = ss_animType step"

lemma shape_refl [simp]: "keeps_shape step step"
  by (simp add: keeps_shape_def)

lemma shape_trans: "keeps_shape a b \<Longrightarrow> keeps_shape b c \<Longrightarrow> keeps_shape a c"
  by (simp add: keeps_shape_def)

lemma shape_updates [simp]:
  "keeps_shape step (set_param i v s) \<longleftrightarrow> keeps_shape step s"
  "keeps_shape step (set_runner_flag f s) \<longleftrightarrow> keeps_shape step s"
  "keeps_shape step (s\<lparr>ss_flags := a\<rparr>) \<longleftrightarrow> keeps_shape step s"
  "keeps_shape step (s\<lparr>ss_durationMs := b\<rparr>) \<longleftrightarrow> keeps_shape step s"
  "keeps_shape step (s\<lparr>ss_colorFrom := c\<rparr>) \<longleftrightarrow> keeps_shape step s"
  "keeps_shape step (s\<lparr>ss_colorTo := c\<rparr>) \<longleftrightarrow> keeps_shape step s"
  "keeps_shape step (s\<lparr>ss_speedMs := b\<rparr>) \<longleftrightarrow> keeps_shape step s"
  "keeps_shape step (s\<lparr>ss_animates := a\<rparr>) \<longleftrightarrow> keeps_shape step s"
  "keeps_shape step (s\<lparr>ss_valueFrom := a\<rparr>) \<longleftrightarrow> keeps_shape step s"
  "keeps_shape step (s\<lparr>ss_valueTo := a\<rparr>) \<longleftrightarrow> keeps_shape step s"
  by (simp_all add: keeps_shape_def set_param_def set_runner_flag_def)

lemma params_shape: "gives (keeps_shape step) (params_field step p)"
proof -
  have e: "gives (\<lambda>st. keeps_shape step (fst st)) (json_elements params_element (step, 0) q)" for q
    by (rule gives_elements) (auto simp: params_element_def intro!: gives_rules)
  show ?thesis unfolding params_field_def by (rule gives_and_then, rule gives_seq [OF e]) auto
qed

lemma plain_shape: "gives (keeps_shape step) (plain_step_field z key step p)"
  unfolding plain_step_field_def source_field_def directionality_field_def animates_field_def
  by (intro gives_rules params_shape gives_skip) simp_all

lemma type_names:
  "parseAnimTypeName s \<noteq> 0xFF \<Longrightarrow> known_type (parseAnimTypeName s)"
  "parseRunnerName s \<noteq> 0xFF \<Longrightarrow> known_type (parseRunnerName s)"
  by (simp_all add: known_type_def parseAnimTypeName_def parseRunnerName_def split: if_splits)

definition typed :: "SceneStep \<times> bool \<Rightarrow> bool" where
  "typed st \<longleftrightarrow> length (ss_params (fst st)) = 6 \<and> (snd st \<longrightarrow> known_type (ss_animType (fst st)))"

lemma type_field_typed:
  assumes "typed st" and "\<And>s. decode s \<noteq> 0xFF \<Longrightarrow> known_type (decode s)"
  shows "gives typed (type_field m1 m2 n decode st p)"
  using assms unfolding type_field_def by (intro gives_rules) (auto simp: typed_def)

lemma step_field_typed: "typed st \<Longrightarrow> gives typed (handleStepField z key st p)"
  unfolding handleStepField_def
  by (intro gives_if type_field_typed type_names gives_prod gives_seq [OF plain_shape])
     (auto simp: typed_def keeps_shape_def)

lemma finish_fields:
  "length (ss_params (finish_step s)) = length (ss_params s)" "ss_animType (finish_step s) = ss_animType s"
  "ss_animates (finish_step s) = ss_animates s"
  "ss_animates s = TARGET_INVERT \<Longrightarrow> ss_valueFrom (finish_step s) = 0 \<and> ss_valueTo (finish_step s) = 0"
  by (simp_all add: finish_step_def Let_def)

lemma parseStep_ok: "gives (\<lambda>(step, _). step_ok step) (parseStep z p)"
proof -
  have "gives (\<lambda>st. typed (fst st)) (json_fields 20 (step_key z) ((step_zero, False), []) p)"
  proof (rule gives_fields)
    show "typed (fst ((step_zero, False), [] :: string))" by (simp add: typed_def step_zero_def)
    fix key q and st :: "(SceneStep \<times> bool) \<times> string"
    assume t: "typed (fst st)"
    obtain step i where st: "st = (step, i)" by (rule prod.exhaust)
    show "gives (\<lambda>st. typed (fst st)) (step_key z key st q)"
      unfolding step_key_def st prod.case using t st
      by (intro gives_if gives_and_then gives_seq [OF step_field_typed]) auto
  qed
  then show ?thesis
    unfolding parseStep_def
  proof (rule gives_seq)
    fix st r assume t: "typed (fst st)"
    obtain step hasType i where st: "st = ((step, hasType), i)" by (metis surj_pair)
    show "gives (\<lambda>(step, _). step_ok step) ((\<lambda>((step, hasType), stepId) rest.
       let step = (if \<not> hasType then step\<lparr>ss_animType := ANIM_GAP\<rparr> else step)
       in if ss_animType step = ANIM_HUE_CYCLE \<and> ss_animates step \<noteq> TARGET_COLOR then fail ''HUE_CYCLE: animates must be \"color\"''
          else ok (finish_step step, stepId) rest) st r)"
      using t unfolding st
      by (auto simp: step_ok_def typed_def finish_fields known_type_def intro!: gives_rules)
  qed
qed

section \<open>Layers\<close>

definition selector_ok :: "PanelSelector \<Rightarrow> bool" where
  "selector_ok sel \<longleftrightarrow> length (sel_ops sel) = SEL_CAP
     \<and> (\<exists>e. take (sel_len sel) (sel_ops sel) = sel_code e \<and> sel_lists_ok e \<and> sel_need e \<le> SEL_STACK_MAX + 1)"

lemma selector_gives: "length (sel_ops out) = SEL_CAP \<Longrightarrow> gives selector_ok (parsePanelSelector z out p)"
proof -
  assume "length (sel_ops out) = SEL_CAP"
  then have c: "sel_ready (sel_clear out)" "prog (sel_clear out) = []" using cleared_ready by blast+
  have "selector_ok out'" if "parsePanelSelector z out p = ok out' rest" for out' rest
  proof -
    have "codes (SEL_STACK_MAX + 1) (sel_clear out) out'"
      by (rule selAppend_codes [OF c(1)]) (use that in \<open>simp only: parsePanelSelector_def\<close>)
    then show ?thesis using c(2) by (auto simp: codes_def extends_def prog_def sel_ready_def selector_ok_def)
  qed
  then show ?thesis by (simp add: gives_def)
qed

definition all_selector :: PanelSelector where
  "all_selector = snd (sel_emit SEL_ALL (sel_clear \<lparr>sel_ops = replicate SEL_CAP 0, sel_len = 0\<rparr>))"

lemma all_selector_ok: "selector_ok all_selector"
proof -
  have "take (sel_len all_selector) (sel_ops all_selector) = sel_code SAll \<and> length (sel_ops all_selector) = SEL_CAP" by code_simp
  then show ?thesis unfolding selector_ok_def by (intro conjI exI [of _ SAll]) (simp_all add: SEL_STACK_MAX_def)
qed

text \<open>A layer while it is read: the steps read so far are good, and each has its id.\<close>

definition layer_shape :: "SceneLayer \<Rightarrow> bool" where
  "layer_shape l \<longleftrightarrow>
     ly_stepCount l \<le> SCENE_MAX_STEPS \<and> length (ly_steps l) = SCENE_MAX_STEPS
     \<and> (\<forall>k < ly_stepCount l. step_ok (ly_steps l ! k)) \<and> selector_ok (ly_target l)"

definition draft_shape :: "LayerDraft \<Rightarrow> bool" where
  "draft_shape d \<longleftrightarrow>
     layer_shape (ld_layer d) \<and> length (ld_stepIds d) = ly_stepCount (ld_layer d)
     \<and> ly_startAfterGroupId (ld_layer d) = 0 \<and> ly_startAfterStepIndex (ld_layer d) = SCENE_NO_STEP_INDEX"

lemma draft_updates [simp]:
  "draft_shape (ld_set (\<lambda>l. l\<lparr>ly_groupId := g\<rparr>) d) \<longleftrightarrow> draft_shape d"
  "draft_shape (ld_set (\<lambda>l. l\<lparr>ly_groupId := g, ly_groupName := nm\<rparr>) d) \<longleftrightarrow> draft_shape d"
  "draft_shape (ld_set (\<lambda>l. l\<lparr>ly_async := a\<rparr>) d) \<longleftrightarrow> draft_shape d"
  "draft_shape (ld_set (\<lambda>l. l\<lparr>ly_blend := a\<rparr>) d) \<longleftrightarrow> draft_shape d"
  "draft_shape (ld_set (\<lambda>l. l\<lparr>ly_disabled := b\<rparr>) d) \<longleftrightarrow> draft_shape d"
  "draft_shape (ld_set (\<lambda>l. l\<lparr>ly_palette := nm\<rparr>) d) \<longleftrightarrow> draft_shape d"
  "draft_shape (d\<lparr>ld_names := names\<rparr>) \<longleftrightarrow> draft_shape d"
  "draft_shape (d\<lparr>ld_startAfter := nm\<rparr>) \<longleftrightarrow> draft_shape d"
  by (simp_all add: draft_shape_def layer_shape_def ld_set_def)

lemma target_shape: "draft_shape d \<Longrightarrow> selector_ok sel \<Longrightarrow> draft_shape (ld_set (\<lambda>l. l\<lparr>ly_target := sel\<rparr>) d)"
  by (simp add: draft_shape_def layer_shape_def ld_set_def)

lemma store_step:
  "draft_shape d \<Longrightarrow> step_ok step \<Longrightarrow> n = ly_stepCount (ld_layer d) \<Longrightarrow> n < SCENE_MAX_STEPS \<Longrightarrow>
    draft_shape (ld_set (\<lambda>l. l\<lparr>ly_steps := (ly_steps l)[n := step], ly_stepCount := Suc n\<rparr>) (d\<lparr>ld_stepIds := ld_stepIds d @ [i]\<rparr>))"
  by (auto simp: draft_shape_def layer_shape_def ld_set_def nth_list_update less_Suc_eq)

lemma sequence_shape: "draft_shape d \<Longrightarrow> gives draft_shape (sequence_element z d p)"
  unfolding sequence_element_def
  by (rule gives_and_then, rule gives_let, rule gives_if, simp, rule gives_seq [OF parseStep_ok])
     (auto intro!: gives_rules store_step split: prod.splits)

lemma group_shape: "draft_shape d \<Longrightarrow> gives draft_shape (group_field d p)"
  unfolding group_field_def by (intro gives_rules) simp_all

lemma async_shape: "draft_shape d \<Longrightarrow> gives draft_shape (async_field d p)"
  unfolding async_field_def by (intro gives_rules) simp_all

lemma panels_shape:
  assumes "draft_shape d"
  shows "gives draft_shape (and_then (parsePanelSelector z (ly_target (ld_layer d)) p) (\<lambda>sel rest. ok (ld_set (\<lambda>l. l\<lparr>ly_target := sel\<rparr>) d) rest))"
proof (rule gives_seq [OF selector_gives])
  show "length (sel_ops (ly_target (ld_layer d))) = SEL_CAP" using assms by (simp add: draft_shape_def layer_shape_def selector_ok_def)
qed (simp add: target_shape assms)

lemma layer_key_shape: "draft_shape d \<Longrightarrow> gives draft_shape (layer_key z key d p)"
  unfolding layer_key_def
  by (intro gives_if group_shape async_shape panels_shape gives_skip gives_and_then gives_option gives_elements sequence_shape) simp_all

definition layer_ok :: "SceneLayer \<Rightarrow> bool" where
  "layer_ok l \<longleftrightarrow> layer_shape l \<and> ly_groupId l \<noteq> 0 \<and> 0 < ly_stepCount l"

definition read_layer :: "LayerDraft \<Rightarrow> bool" where
  "read_layer d \<longleftrightarrow> draft_shape d \<and> layer_ok (ld_layer d)"

lemma parseLayer_ok: "gives read_layer (parseLayer z names p)"
proof -
  let ?d = "\<lparr>ld_layer = layer_zero\<lparr>ly_startAfterStepIndex := SCENE_NO_STEP_INDEX\<rparr>, ld_names = names, ld_startAfter = [], ld_stepIds = []\<rparr>"
  have "draft_shape ?d"
    using all_selector_ok by (simp add: draft_shape_def layer_shape_def layer_zero_def all_selector_def)
  then have "gives draft_shape (json_fields 16 (layer_key z) ?d p)" by (rule gives_fields) (rule layer_key_shape)
  then show ?thesis unfolding parseLayer_def
    by (rule gives_seq) (auto simp: read_layer_def layer_ok_def draft_shape_def intro!: gives_rules)
qed

section \<open>Scenes\<close>

definition fresh_layer :: "SceneLayer \<Rightarrow> bool" where
  "fresh_layer l \<longleftrightarrow> layer_ok l \<and> ly_startAfterGroupId l = 0 \<and> ly_startAfterStepIndex l = SCENE_NO_STEP_INDEX"

definition header_ok :: "SceneRecord \<Rightarrow> bool" where
  "header_ok r \<longleftrightarrow> SPEED_MIN \<le> sr_speed r \<and> sr_speed r \<le> SPEED_MAX \<and> length (sr_baseColors r) = 3 \<and> length (sr_name r) \<le> SCENE_NAME_MAX"

definition scene_shape :: "SceneDraft \<Rightarrow> bool" where
  "scene_shape d \<longleftrightarrow>
     length (sr_layers (sd_record d)) \<le> SCENE_MAX_LAYERS
     \<and> length (sd_startAfter d) = length (sr_layers (sd_record d)) \<and> length (sd_stepIds d) = length (sr_layers (sd_record d))
     \<and> (\<forall>k < length (sr_layers (sd_record d)). fresh_layer (sr_layers (sd_record d) ! k)
           \<and> length (sd_stepIds d ! k) = ly_stepCount (sr_layers (sd_record d) ! k))
     \<and> header_ok (sd_record d)"

lemma scene_updates [simp]:
  "scene_shape (sd_set (\<lambda>r. r\<lparr>sr_schemaVersion := a\<rparr>) d) \<longleftrightarrow> scene_shape d"
  "scene_shape (sd_set (\<lambda>r. r\<lparr>sr_loop := b\<rparr>) d) \<longleftrightarrow> scene_shape d"
  "scene_shape (sd_set (\<lambda>r. r\<lparr>sr_palette := nm, sr_hasPalette := b\<rparr>) d) \<longleftrightarrow> scene_shape d"
  "scene_shape (sd_set (\<lambda>r. r\<lparr>sr_background := c\<rparr>) d) \<longleftrightarrow> scene_shape d"
  by (simp_all add: scene_shape_def sd_set_def header_ok_def)

lemma read_string_cut: "jsonReadString n bs = (Some s, rest) \<Longrightarrow> s = [] \<or> length s < n"
proof -
  have keep: "fst (string_loop (put_truncating n) out bs) = Some s \<Longrightarrow> out = [] \<or> length out < n \<Longrightarrow> s = [] \<or> length s < n" for out bs s
  proof (induction "put_truncating n" out bs rule: string_loop.induct)
    case (2 out c cs)
    show ?case
    proof (cases "c = QUOTE")
      case False
      obtain ch r where d: "(if c = BACKSLASH then jsonDecodeEscapedChar cs else (Some c, cs)) = (ch, r)" by (meson surj_pair)
      obtain x where x: "ch = Some x" using 2(2) False d by (cases ch) auto
      let ?out = "if length out + 1 < n then out @ [x] else out"
      have "fst (string_loop (put_truncating n) ?out r) = Some s" using 2(2) False d x by (simp add: put_truncating_def)
      moreover have "?out = [] \<or> length ?out < n" using 2(3) by auto
      ultimately show ?thesis using 2(1) [OF False refl d [symmetric] x, of ?out] by (simp add: put_truncating_def)
    qed (use 2 in simp)
  qed simp
  assume "jsonReadString n bs = (Some s, rest)"
  then obtain out cs r where "string_loop (put_truncating n) [] cs = (Some out, r)" and s: "s = cstr out"
    by (auto simp: jsonReadString_def split: list.splits if_splits prod.splits)
  then have o: "fst (string_loop (put_truncating n) [] cs) = Some out" by simp
  have "length (cstr out) \<le> length out" by (simp add: cstr_def length_takeWhile_le)
  then show "s = [] \<or> length s < n" using keep [OF o] s by (auto simp: cstr_def)
qed

lemma require_string_cut: "0 < n \<Longrightarrow> gives (\<lambda>s. length s < n) (require_string msg n p)"
proof -
  assume n: "0 < n"
  have "length s < n" if "require_string msg n p = ok s rest" for s rest
    using that read_string_cut [of n p s rest] n by (auto simp: require_string_def split: prod.splits option.splits)
  then show ?thesis by (simp add: gives_def)
qed

lemma colors_three: "length cs = 3 \<Longrightarrow> gives (\<lambda>cs. length cs = 3) (parseColors cs p)"
  unfolding parseColors_def colors_key_def
  by (intro gives_and_then gives_fields gives_option gives_prod gives_let) simp_all

lemma layers_element_shape: "scene_shape d \<Longrightarrow> gives scene_shape (layers_element z d p)"
  unfolding layers_element_def
  by (intro gives_and_then gives_if gives_seq [OF parseLayer_ok])
     (auto simp: scene_shape_def sd_set_def read_layer_def draft_shape_def fresh_layer_def header_ok_def nth_append less_Suc_eq)

lemma clamped:
  assumes "x' = (if (x :: real) < fl (1 / 10) then fl (1 / 10) else x)"
  shows "SPEED_MIN \<le> (if 10 < x' then 10 else x')" and "(if 10 < x' then 10 else x') \<le> SPEED_MAX"
  using assms fl_mono [of "1 / 10" 10] by (auto simp: SPEED_MIN_def SPEED_MAX_def)

lemma scene_key_shape:
  assumes d: "scene_shape d"
  shows "gives scene_shape (scene_key z key d p)"
proof -
  have name: "gives scene_shape (and_then (require_string ''name: not a string'' (SCENE_NAME_MAX + 1) p) (\<lambda>s rest. ok (sd_set (\<lambda>r. r\<lparr>sr_name := s\<rparr>) d) rest))"
    by (rule gives_seq [OF require_string_cut]) (use d in \<open>auto simp: scene_shape_def sd_set_def header_ok_def\<close>)
  have colors: "gives scene_shape (and_then (parseColors (sr_baseColors (sd_record d)) p) (\<lambda>cs rest.
          ok (sd_set (\<lambda>r. r\<lparr>sr_baseColors := cs, sr_hasColors := True\<rparr>) d) rest))"
    by (rule gives_seq [OF colors_three]) (use d in \<open>auto simp: scene_shape_def sd_set_def header_ok_def\<close>)
  have speed: "gives scene_shape (and_then (require ''speed: not a number'' (jsonReadFloat p)) (\<lambda>x rest.
          let x = (if x < fl (1 / 10) then fl (1 / 10) else x); x = (if 10 < x then 10 else x)
          in ok (sd_set (\<lambda>r. r\<lparr>sr_speed := x\<rparr>) d) rest))"
    using d clamped by (intro gives_and_then gives_let) (auto simp: scene_shape_def sd_set_def header_ok_def)
  show ?thesis
    unfolding scene_key_def
    by (intro gives_if name colors speed gives_skip gives_and_then gives_elements layers_element_shape) (simp_all add: d)
qed

section \<open>References between layers\<close>

text \<open>A layer without its reference, and what holds of a reference that was resolved.\<close>

definition core :: "SceneLayer \<Rightarrow> SceneLayer" where
  "core l = l\<lparr>ly_startAfterGroupId := 0, ly_startAfterStepIndex := 0, ly_async := 0\<rparr>"

lemma core_fields:
  assumes "core l = core l'"
  shows "ly_groupId l = ly_groupId l'" "ly_stepCount l = ly_stepCount l'" "ly_steps l = ly_steps l'" "ly_target l = ly_target l'"
    "ly_disabled l = ly_disabled l'" "layer_ok l = layer_ok l'"
  using assms by (cases l; cases l'; simp add: core_def layer_ok_def layer_shape_def)+

definition reference_ok :: "SceneLayer list \<Rightarrow> SceneLayer \<Rightarrow> bool" where
  "reference_ok layers l \<longleftrightarrow>
     (if ly_startAfterGroupId l = 0 then ly_startAfterStepIndex l = SCENE_NO_STEP_INDEX
      else ly_async l = 0 \<and> ly_startAfterGroupId l \<noteq> ly_groupId l
           \<and> (ly_startAfterStepIndex l \<noteq> SCENE_NO_STEP_INDEX \<longrightarrow>
                (\<exists>k. find_group layers (ly_startAfterGroupId l) = Some k
                     \<and> unat (ly_startAfterStepIndex l) < ly_stepCount (layers ! k))))"

lemma find_group_Some:
  assumes "find_group layers g = Some k"
  shows "k < length layers" "ly_groupId (layers ! k) = g"
  using assms by (auto simp: find_group_def find_Some_iff)

lemma find_group_core:
  assumes "map core layers = map core layers'"
  shows "find_group layers g = find_group layers' g"
proof -
  have len: "length layers = length layers'" using assms by (rule map_eq_imp_length_eq)
  have "ly_groupId (layers ! k) = ly_groupId (layers' ! k)" if "k < length layers" for k
    using assms that len by (metis core_fields(1) nth_map)
  then have "List.find (\<lambda>k. ly_groupId (layers ! k) = g) [0..<n] = List.find (\<lambda>k. ly_groupId (layers' ! k) = g) [0..<n]"
    if "n \<le> length layers" for n
    using that by (intro find_cong) auto
  then show ?thesis using len by (simp add: find_group_def)
qed

lemma reference_core:
  assumes "map core layers = map core layers'" and "reference_ok layers l"
  shows "reference_ok layers' l"
proof -
  have "ly_stepCount (layers ! k) = ly_stepCount (layers' ! k)" if "k < length layers" for k
    using assms(1) that map_eq_imp_length_eq [OF assms(1)] by (metis core_fields(2) nth_map)
  then show ?thesis using assms(2) find_group_Some(1) [of layers]
    by (auto simp: reference_ok_def find_group_core [OF assms(1), symmetric] split: if_splits)
qed

definition references_ok :: "SceneLayer list \<Rightarrow> SceneLayer list \<Rightarrow> bool" where
  "references_ok layers0 layers \<longleftrightarrow> map core layers = map core layers0 \<and> (\<forall>l \<in> set layers. reference_ok layers l)"

lemma core_update: "core (f l) = core l \<Longrightarrow> map core (layers[i := f (layers ! i)]) = map core layers" if "l = layers ! i" for f
  using that by (cases "i < length layers") (simp_all add: map_update list_update_same_conv list_update_beyond)

lemma resolve_keeps:
  assumes i: "i < length layers0" and ids: "\<forall>k < length layers0. length (sd_stepIds d ! k) = ly_stepCount (layers0 ! k) \<and> ly_stepCount (layers0 ! k) \<le> SCENE_MAX_STEPS"
    and refs: "references_ok layers0 layers" and fresh: "ly_startAfterStepIndex (layers ! i) = SCENE_NO_STEP_INDEX"
    and step: "resolve_start d i layers = Inr layers'"
  shows "references_ok layers0 layers' \<and> (\<forall>j. j \<noteq> i \<longrightarrow> layers' ! j = layers ! j)"
proof -
  have core: "map core layers = map core layers0" and ok: "\<forall>l \<in> set layers. reference_ok layers l"
    using refs by (simp_all add: references_ok_def)
  have len: "length layers = length layers0" using core by (rule map_eq_imp_length_eq)
  let ?s = "sd_startAfter d ! i"
  let ?g = "nt_find (start_group ?s) (sd_names d)"
  define l where "l = (layers ! i)\<lparr>ly_startAfterGroupId := ?g, ly_async := 0\<rparr>"
  define ls where "ls = layers[i := l]"
  have same: "map core ls = map core layers"
    unfolding ls_def l_def by (rule core_update [OF refl]) (simp add: core_def)
  have new: "references_ok layers0 (layers[i := l'])"
    if "core l' = core (layers ! i)" "reference_ok layers l'" for l'
  proof -
    have m: "map core (layers[i := l']) = map core layers"
      using core_update [of "layers ! i" layers i "\<lambda>_. l'"] that(1) by simp
    have "reference_ok (layers[i := l']) x" if "x \<in> set (layers[i := l'])" for x
      using that \<open>reference_ok layers l'\<close> ok set_update_subset_insert [of layers i l'] by (intro reference_core [OF m [symmetric]]) auto
    then show ?thesis using m core by (simp add: references_ok_def)
  qed
  show ?thesis
  proof (cases "?s = []")
    case True
    then show ?thesis using step refs by (simp add: resolve_start_def)
  next
    case False
    then have g: "?g \<noteq> 0" "?g \<noteq> ly_groupId (layers ! i)"
      using step by (auto simp: resolve_start_def Let_def split: if_splits)
    show ?thesis
    proof (cases "start_step ?s = []")
      case True
      then have "layers' = layers[i := l]" using step False by (auto simp: resolve_start_def Let_def l_def split: if_splits)
      moreover have "references_ok layers0 (layers[i := l])"
        by (rule new) (use g fresh in \<open>simp_all add: l_def core_def reference_ok_def\<close>)
      ultimately show ?thesis by simp
    next
      case named: False
      obtain k j where k: "find_group ls ?g = Some k" "List.find (\<lambda>j. sd_stepIds d ! k ! j = start_step ?s) [0..<ly_stepCount (ls ! k)] = Some j"
        and l': "layers' = ls[i := (ls ! i)\<lparr>ly_startAfterStepIndex := of_nat j\<rparr>]"
        using step False named by (auto simp: resolve_start_def Let_def l_def ls_def bind_eq_Some_conv split: if_splits option.splits)
      let ?l = "l\<lparr>ly_startAfterStepIndex := of_nat j\<rparr>"
      have kl: "k < length layers" using find_group_Some(1) [OF k(1)] by (simp add: ls_def)
      have f: "find_group layers ?g = Some k" using k(1) find_group_core [OF same] by simp
      have "ly_stepCount (ls ! k) = ly_stepCount (layers ! k)" using same kl by (metis core_fields(2) length_map nth_map)
      moreover have "ly_stepCount (layers ! k) = ly_stepCount (layers0 ! k)" using core kl len by (metis core_fields(2) nth_map)
      moreover have "j < ly_stepCount (ls ! k)" using k(2) by (auto simp: find_Some_iff)
      ultimately have j: "j < ly_stepCount (layers ! k)" "j < 12" using ids kl len by (auto simp: SCENE_MAX_STEPS_def)
      then have "unat (of_nat j :: u8) = j" by (simp add: unat_of_nat take_bit_nat_eq_self)
      then have "reference_ok layers ?l" using g f j by (simp add: reference_ok_def l_def)
      then have "references_ok layers0 (layers[i := ?l])" by (rule new [rotated]) (simp add: l_def core_def)
      moreover have "layers' = layers[i := ?l]" using l' i len by (simp add: ls_def)
      ultimately show ?thesis by simp
    qed
  qed
qed

lemma resolve_all:
  assumes fresh: "\<forall>l \<in> set layers0. ly_startAfterGroupId l = 0 \<and> ly_startAfterStepIndex l = SCENE_NO_STEP_INDEX"
    and ids: "\<forall>k < length layers0. length (sd_stepIds d ! k) = ly_stepCount (layers0 ! k) \<and> ly_stepCount (layers0 ! k) \<le> SCENE_MAX_STEPS"
    and run: "check_all (resolve_start d) [0..<length layers0] layers0 = Inr layers'"
  shows "references_ok layers0 layers'"
proof -
  have gen: "references_ok layers0 layers'"
    if "check_all (resolve_start d) is layers = Inr layers'" "references_ok layers0 layers" "distinct is" "set is \<subseteq> {..<length layers0}"
      "\<forall>i \<in> set is. ly_startAfterStepIndex (layers ! i) = SCENE_NO_STEP_INDEX" for "is" layers
    using that
  proof (induction "is" arbitrary: layers)
    case (Cons i "is")
    obtain ls where ls: "resolve_start d i layers = Inr ls" "check_all (resolve_start d) is ls = Inr layers'"
      using Cons.prems(1) by (auto split: sum.splits)
    have keep: "references_ok layers0 ls \<and> (\<forall>j. j \<noteq> i \<longrightarrow> ls ! j = layers ! j)"
      using Cons.prems by (intro resolve_keeps [OF _ ids _ _ ls(1)]) auto
    have "\<forall>k \<in> set is. ly_startAfterStepIndex (ls ! k) = SCENE_NO_STEP_INDEX" using keep Cons.prems(3,5) by (metis distinct.simps(2) list.set_intros(2))
    then show ?case using keep Cons.prems(3,4) by (intro Cons.IH [OF ls(2)]) auto
  qed simp
  have "references_ok layers0 layers0" using fresh by (simp add: references_ok_def reference_ok_def)
  then show ?thesis using fresh by (intro gen [OF run]) auto
qed

text \<open>The layer a layer waits for. Chains of such layers that end have a length, and waiting goes down in it.\<close>

definition awaited :: "SceneLayer list \<Rightarrow> nat \<Rightarrow> nat option" where
  "awaited layers i =
     (if ly_startAfterGroupId (layers ! i) = 0 then None else find_group layers (ly_startAfterGroupId (layers ! i)))"

primrec ends_in :: "SceneLayer list \<Rightarrow> nat \<Rightarrow> nat \<Rightarrow> bool" where
  "ends_in layers 0 i \<longleftrightarrow> awaited layers i = None"
| "ends_in layers (Suc m) i \<longleftrightarrow> (\<exists>k. awaited layers i = Some k \<and> ends_in layers m k)"

lemma chain_length: "chain_ends layers i hops \<Longrightarrow> \<exists>m. ends_in layers m i"
proof (induction layers i hops rule: chain_ends.induct)
  case (1 layers i hops)
  show ?case
  proof (cases "awaited layers i")
    case None
    then show ?thesis by (intro exI [of _ 0]) simp
  next
    case (Some k)
    then have k: "ly_startAfterGroupId (layers ! i) \<noteq> 0" "find_group layers (ly_startAfterGroupId (layers ! i)) = Some k"
      by (auto simp: awaited_def split: if_splits)
    then have "\<not> length layers < hops + 1" "chain_ends layers k (hops + 1)"
      using 1(2) by (subst (asm) chain_ends.simps; simp split: if_splits)+
    then obtain m where "ends_in layers m k" using 1(1) [OF k] by blast
    then show ?thesis using Some by (intro exI [of _ "Suc m"]) simp
  qed
qed

lemma ends_in_unique: "ends_in layers m i \<Longrightarrow> ends_in layers m' i \<Longrightarrow> m = m'"
proof (induction m arbitrary: i m')
  case 0
  then show ?case by (cases m') auto
next
  case (Suc m)
  then show ?case by (cases m') auto
qed

definition acyclic_waits :: "SceneLayer list \<Rightarrow> bool" where
  "acyclic_waits layers \<longleftrightarrow>
     (\<exists>rank :: nat \<Rightarrow> nat. \<forall>i < length layers. \<forall>k. awaited layers i = Some k \<longrightarrow> rank k < rank i)"

lemma chains_acyclic:
  assumes "\<forall>i < length layers. chain_ends layers i 0"
  shows "acyclic_waits layers"
proof -
  define rank where "rank i = (SOME m. ends_in layers m i)" for i
  have r: "ends_in layers (rank i) i" if "i < length layers" for i
    unfolding rank_def using chain_length assms that by (meson someI_ex)
  have "rank k < rank i" if "i < length layers" "awaited layers i = Some k" for i k
  proof (cases "rank i")
    case 0
    then show ?thesis using r [OF that(1)] that(2) by simp
  next
    case (Suc m)
    then have "ends_in layers m k" using r [OF that(1)] that(2) by simp
    moreover have "k < length layers" using that(2) find_group_Some(1) by (auto simp: awaited_def split: if_splits)
    ultimately show ?thesis using r [of k] ends_in_unique Suc by force
  qed
  then show ?thesis unfolding acyclic_waits_def by blast
qed

section \<open>Accepted scenes\<close>

definition valid_scene :: "SceneRecord \<Rightarrow> bool" where
  "valid_scene r \<longleftrightarrow>
     sr_schemaVersion r \<le> SCENE_SCHEMA_VERSION \<and> isValidSceneName (sr_name r) \<and> header_ok r
     \<and> sr_layers r \<noteq> [] \<and> length (sr_layers r) \<le> SCENE_MAX_LAYERS
     \<and> (\<forall>l \<in> set (sr_layers r). layer_ok l \<and> (\<forall>k. Suc k < ly_stepCount l \<longrightarrow> ss_durationMs (ly_steps l ! k) \<noteq> 0))
     \<and> distinct (map ly_groupId (sr_layers r))
     \<and> (\<forall>l \<in> set (sr_layers r). reference_ok (sr_layers r) l \<and> \<not> target_never_ends (sr_layers r) l)
     \<and> acyclic_waits (sr_layers r)"

lemma distinct_groups: "\<not> duplicate_groups layers \<Longrightarrow> distinct (map ly_groupId layers)"
proof -
  assume d: "\<not> duplicate_groups layers"
  have "ly_groupId (layers ! i) \<noteq> ly_groupId (layers ! j)" if "i < j" "j < length layers" for i j
    using d that by (auto simp: duplicate_groups_def list_ex_iff)
  then show ?thesis unfolding distinct_conv_nth by (metis length_map linorder_neqE_nat nth_map)
qed

lemma validate_valid:
  assumes shape: "scene_shape d" and v: "validate d = Inr r"
  shows "valid_scene r"
proof -
  let ?r = "sd_record d"
  let ?ls = "sr_layers ?r"
  obtain ls where ls: "check_all (resolve_start d) [0..<length ?ls] ?ls = Inr ls" "r = ?r\<lparr>sr_layers := ls\<rparr>"
    and ends: "\<not> list_ex (target_never_ends ls) ls" and chains: "list_all (\<lambda>i. chain_ends ls i 0) [0..<length ?ls]"
    and head: "\<not> SCENE_SCHEMA_VERSION < sr_schemaVersion ?r" "isValidSceneName (sr_name ?r)" "?ls \<noteq> []"
    and dup: "\<not> duplicate_groups ?ls" and inner: "\<not> list_ex infinite_inside ?ls"
    using v by (auto simp: validate_def Let_def split: if_splits sum.splits)
  have each: "fresh_layer l" if "l \<in> set ?ls" for l
    using shape that by (auto simp: scene_shape_def in_set_conv_nth)
  have ids: "\<forall>k < length ?ls. length (sd_stepIds d ! k) = ly_stepCount (?ls ! k) \<and> ly_stepCount (?ls ! k) \<le> SCENE_MAX_STEPS"
    using shape by (auto simp: scene_shape_def fresh_layer_def layer_ok_def layer_shape_def)
  have refs: "references_ok ?ls ls"
    by (rule resolve_all [OF _ ids ls(1)]) (use each in \<open>auto simp: fresh_layer_def\<close>)
  then have core: "map core ls = map core ?ls" and ok: "\<forall>l \<in> set ls. reference_ok ls l" by (simp_all add: references_ok_def)
  have len: "length ls = length ?ls" using core by (rule map_eq_imp_length_eq)
  have cores: "core (ls ! k) = core (?ls ! k)" if "k < length ls" for k using core that len by (metis nth_map)
  have "map ly_groupId ls = map ly_groupId ?ls" using cores len by (intro nth_equalityI) (auto dest: core_fields(1))
  then have distinct: "distinct (map ly_groupId ls)" using distinct_groups [OF dup] by simp
  have layers: "layer_ok l \<and> (\<forall>k. Suc k < ly_stepCount l \<longrightarrow> ss_durationMs (ly_steps l ! k) \<noteq> 0)" if "l \<in> set ls" for l
  proof -
    obtain i where i: "i < length ls" "l = ls ! i" using \<open>l \<in> set ls\<close> by (auto simp: in_set_conv_nth)
    let ?l = "?ls ! i"
    have m: "?l \<in> set ?ls" using i len by simp
    have "\<not> infinite_inside ?l" using inner m by (auto simp: list_ex_iff)
    then have "\<forall>k. Suc k < ly_stepCount ?l \<longrightarrow> ss_durationMs (ly_steps ?l ! k) \<noteq> 0"
      by (auto simp: infinite_inside_def list_ex_iff)
    then show ?thesis using each [OF m] core_fields [OF cores [OF i(1)]] i(2) by (simp add: fresh_layer_def)
  qed
  have "acyclic_waits ls" using chains len by (intro chains_acyclic) (simp add: list_all_iff)
  then show ?thesis
    using head layers distinct ok ends shape len
    by (auto simp: valid_scene_def ls(2) header_ok_def scene_shape_def list_ex_iff not_less)
qed

lemma parseScene_valid: "gives valid_scene (parseScene z json)"
proof -
  let ?d = "\<lparr>sd_record = record_zero, sd_names = nt_reset, sd_startAfter = [], sd_stepIds = []\<rparr>"
  have "SPEED_MIN \<le> 1" "1 \<le> SPEED_MAX" using fl_mono [of "1 / 10" 1] by (simp_all add: SPEED_MIN_def SPEED_MAX_def)
  then have "scene_shape ?d" by (simp add: scene_shape_def header_ok_def record_zero_def)
  then have fields: "gives scene_shape (json_fields 20 (scene_key z) ?d p)" for p by (rule gives_fields) (rule scene_key_shape)
  show ?thesis unfolding parseScene_def
    by (rule gives_and_then, rule gives_seq [OF fields]) (auto split: sum.split intro: validate_valid)
qed

section \<open>The parser returns\<close>

lemma uint_in_consumes: "consumes (uint_in msg a b p) p"
  by (auto simp: uint_in_def intro: read_uint_suffix split: option.splits)

lemma read_bool_suffix: "jsonReadBool p = Some (b, rest) \<Longrightarrow> suffix rest p"
  using ws_suffix [of p] by (auto simp: jsonReadBool_def Let_def split: if_splits intro: suffix_order.trans [OF suffix_drop])

lemma bool_in_advances: "advances (bool_in msg p) p"
  by (auto simp: bool_in_def require_def split: option.splits intro: read_bool_suffix)

lemma long_digits_suffix: "suffix (snd (long_digits v bs)) bs"
  by (induction v bs rule: long_digits.induct) (auto intro: suffix_ConsI)

lemma fraction_digits_suffix: "suffix (snd (fraction_digits f d bs)) bs"
  by (induction f d bs rule: fraction_digits.induct) (auto intro: suffix_ConsI)

lemma decimal_suffix: "decimal bs = Some (x, rest) \<Longrightarrow> suffix rest bs"
proof -
  assume d: "decimal bs = Some (x, rest)"
  obtain v p where l: "long_digits 0 bs = (v, p)" by (meson surj_pair)
  then have p: "suffix p bs" using long_digits_suffix [of 0 bs] by simp
  consider "rest = p" | c ds where "p = c # ds" "rest = snd (fraction_digits 0 10 ds)"
    using d l by (fastforce simp: decimal_def Let_def split: list.splits if_splits prod.splits)
  then show "suffix rest bs"
  proof cases
    case 2
    have "suffix (snd (fraction_digits 0 10 ds)) p" using fraction_digits_suffix [of 0 10 ds] 2(1) by (simp add: suffix_ConsI)
    then show ?thesis using p 2(2) by (simp add: suffix_order.trans)
  qed (use p in simp)
qed

lemma read_float_advances: "advances (require msg (jsonReadFloat p)) p"
proof -
  have "suffix rest p" if f: "jsonReadFloat p = Some (x, rest)" for x rest
  proof -
    obtain c cs where c: "jsonSkipWs p = c # cs" using f by (auto simp: jsonReadFloat_def split: list.splits)
    then have "suffix (c # cs) p" using ws_suffix [of p] by simp
    moreover have "suffix rest (c # cs)"
      using f c by (auto simp: jsonReadFloat_def split: if_splits dest!: decimal_suffix intro: suffix_ConsI)
    ultimately show ?thesis by (rule suffix_order.trans [rotated])
  qed
  then show ?thesis by (auto simp: require_def split: option.splits)
qed

lemma complain_advances: "advances m p \<Longrightarrow> advances (complain msg m) p"
  by (cases m rule: parse_cases) (auto simp: complain_def ok_def fail_def advances_def)

lemmas reader_advances = consumes_advances [OF uint_in_consumes] bool_in_advances consumes_advances [OF require_string_consumes]
  consumes_advances [OF enter_consumes(1)] consumes_advances [OF enter_consumes(2)] read_float_advances

text \<open>Every field parser advances on a text whose every position can be skipped.\<close>

lemma fields_advance:
  assumes "skippable z bs" and "\<And>key s p. skippable z p \<Longrightarrow> advances (body key s p) p"
  shows "advances (json_fields n body s bs) bs"
  by (rule json_fields_advances) (rule assms(2), rule skippable_suffix [OF assms(1)])

lemma elements_advance:
  assumes "skippable z bs" and "\<And>s p. skippable z p \<Longrightarrow> consumes (body s p) p"
  shows "advances (json_elements body s bs) bs"
  by (rule json_elements_advances) (rule assms(2), rule skippable_suffix [OF assms(1)])

lemma seq_advances:
  assumes "skippable z bs" and "advances m bs" and "\<And>x rest. skippable z rest \<Longrightarrow> advances (f x rest) rest"
  shows "advances (and_then m f) bs"
  by (rule advances_and_then [OF assms(2)]) (rule assms(3), rule skippable_suffix [OF assms(1)])

lemma seq_consumes:
  assumes "skippable z bs" and "consumes m bs" and "\<And>x rest. skippable z rest \<Longrightarrow> advances (f x rest) rest"
  shows "consumes (and_then m f) bs"
  by (rule consumes_and_then [OF assms(2)]) (rule assms(3), auto simp: strict_suffix_def intro: skippable_suffix [OF assms(1)])

lemma color_ref_advances:
  assumes "skippable z bs"
  shows "advances (parseColorRef z out bs) bs"
proof (cases "jsonSkipWs bs")
  case (Cons c cs)
  have s: "suffix (c # cs) bs" using ws_suffix [of bs] Cons by simp
  have z: "skippable z (c # cs)" by (rule skippable_suffix [OF assms s])
  have key: "advances (color_key z key st p) p" if "skippable z p" for key st p
    using that unfolding color_key_def
    by (intro advances_prod advances_if advances_and_then reader_advances skip_then_advances) (simp_all add: Let_def)
  have "advances (parseColorRef z out bs) (c # cs)"
    unfolding parseColorRef_def Cons list.case
    by (intro advances_if seq_advances [OF z] reader_advances fields_advance key)
       (auto intro!: advances_rules fields_advance key split: prod.split)
  then show ?thesis using s by (auto simp: advances_def intro: suffix_order.trans)
qed (simp add: parseColorRef_def)

lemma type_field_advances: "advances (type_field m1 m2 n decode st p) p"
  unfolding type_field_def by (intro advances_rules reader_advances) simp_all

lemma params_field_advances: "advances (params_field step p) p"
proof -
  have "consumes (params_element st q) q" for st q
    unfolding params_element_def
    by (cases st) (auto intro!: consumes_and_then uint_in_consumes)
  then have "advances (json_elements params_element (step, 0) q) q" for q
    by (intro json_elements_advances)
  then show ?thesis unfolding params_field_def by (auto intro!: advances_rules reader_advances)
qed

lemma plain_field_advances: "skippable z p \<Longrightarrow> advances (plain_step_field z key step p) p"
  unfolding plain_step_field_def source_field_def directionality_field_def animates_field_def
  by (intro advances_rules reader_advances complain_advances color_ref_advances params_field_advances skip_then_advances) simp_all

lemma step_field_advances: "skippable z p \<Longrightarrow> advances (handleStepField z key st p) p"
  unfolding handleStepField_def
  by (intro advances_rules type_field_advances plain_field_advances) simp_all

lemma parse_step_advances: "skippable z p \<Longrightarrow> advances (parseStep z p) p"
proof -
  assume z: "skippable z p"
  have "advances (step_key z key st q) q" if "skippable z q" for key st q
    unfolding step_key_def by (intro advances_rules reader_advances step_field_advances that) simp_all
  then have "advances (json_fields 20 (step_key z) ((step_zero, False), []) p) p" by (rule fields_advance [OF z])
  then show ?thesis unfolding parseStep_def by (rule advances_and_then) (simp add: Let_def split: prod.split)
qed

lemma sequence_consumes: "skippable z p \<Longrightarrow> consumes (sequence_element z d p) p"
  unfolding sequence_element_def
  by (rule seq_consumes, assumption, rule enter_consumes)
     (auto simp: Let_def intro!: advances_rules parse_step_advances)

lemma selector_advances: "skippable z p \<Longrightarrow> advances (parsePanelSelector z out p) p"
  unfolding parsePanelSelector_def by (rule consumes_advances, rule selAppend_consumes)

lemma layer_key_advances: "skippable z p \<Longrightarrow> advances (layer_key z key d p) p"
proof -
  assume z: "skippable z p"
  have ws: "advances m p" if "advances m (jsonSkipWs p)" for m :: "LayerDraft parse"
    using that ws_suffix [of p] by (auto simp: advances_def intro: suffix_order.trans)
  have group: "advances (group_field d p) p"
    unfolding group_field_def Let_def by (rule ws, intro advances_rules reader_advances) simp_all
  have async: "advances (async_field d p) p"
    unfolding async_field_def Let_def by (rule ws, intro advances_rules reader_advances) simp_all
  have seq: "advances (and_then (require_open ''layer.sequence: expected array'' (jsonEnterArray p)) (\<lambda>_ p. json_elements (sequence_element z) d p)) p"
    by (rule seq_advances [OF z], rule reader_advances) (rule elements_advance, assumption, rule sequence_consumes)
  show ?thesis unfolding layer_key_def
    by (intro advances_if group async seq advances_and_then reader_advances advances_option skip_then_advances z
        selector_advances) (simp_all)
qed

lemma parse_layer_advances: "skippable z p \<Longrightarrow> advances (parseLayer z names p) p"
  unfolding parseLayer_def by (rule advances_and_then, rule fields_advance, assumption, rule layer_key_advances) simp_all

lemma layers_consume: "skippable z p \<Longrightarrow> consumes (layers_element z d p) p"
  unfolding layers_element_def
  by (rule seq_consumes, assumption, rule enter_consumes)
     (auto intro!: advances_rules parse_layer_advances)

lemma colors_advance: "advances (parseColors cs p) p"
proof -
  have "advances (colors_key key cs q) q" for key cs q
    unfolding colors_key_def by (intro advances_rules reader_advances) simp_all
  then show ?thesis unfolding parseColors_def
    by (intro advances_and_then reader_advances json_fields_advances)
qed

lemma scene_key_advances: "skippable z p \<Longrightarrow> advances (scene_key z key d p) p"
proof -
  assume z: "skippable z p"
  have layers: "advances (and_then (require_open ''layers: expected array'' (jsonEnterArray p)) (\<lambda>_ p. json_elements (layers_element z) d p)) p"
    by (rule seq_advances [OF z], rule reader_advances) (rule elements_advance, assumption, rule layers_consume)
  show ?thesis unfolding scene_key_def Let_def
    by (intro advances_if layers advances_and_then reader_advances colors_advance complain_advances color_ref_advances skip_then_advances z)
       (simp_all)
qed

text \<open>Only an array can stop the skipping.\<close>

lemma no_array_skipped:
  assumes "CHR ''['' \<notin> set bs" and "mode \<noteq> SkipArray"
  shows "json_skip z mode bs \<noteq> None"
  using assms
proof (induction "length bs" arbitrary: mode bs rule: less_induct)
  case less
  have short: "\<exists>r. json_skip z m rest = Some r" if "suffix rest cs" "suffix (c # cs) bs" "m \<noteq> SkipArray" for rest cs c m
  proof -
    have "length rest < length bs" using that suffix_length_le [OF that(1)] suffix_length_le [OF that(2)] by simp
    moreover have "set rest \<subseteq> set bs" using set_mono_suffix [OF that(1)] set_mono_suffix [OF that(2)] by auto
    ultimately show ?thesis using less.hyps [of rest m] less.prems(1) that(3) by auto
  qed
  show ?case
  proof (cases "jsonSkipWs bs")
    case Nil then show ?thesis using less.prems(2) by (cases mode) (auto simp: json_skip.simps)
  next
    case (Cons c cs)
    have s: "suffix (c # cs) bs" using ws_suffix [of bs] Cons by simp
    have c: "c \<noteq> CHR ''[''" using set_mono_suffix [OF s] less.prems(1) by auto
    have inner: "json_skip z SkipObject cs \<noteq> None" using short [of cs cs c SkipObject] s by auto
    have quoted: "json_skip z SkipObject (quoted_tail cs) \<noteq> None"
      using short [of "quoted_tail cs" cs c SkipObject] s quoted_tail_suffix [of cs] by auto
    obtain b rest where v: "json_skip z SkipValue cs = Some (b, rest)" using short [of cs cs c SkipValue] s by auto
    have again: "json_skip z SkipObject rest \<noteq> None" using short [OF skip_suffix [OF v] s] by auto
    show ?thesis using Cons c inner quoted v again less.prems(2)
      by (cases mode) (simp_all add: json_skip.simps [of z SkipValue bs] json_skip.simps [of z SkipObject bs] ex_bool_eq)
  qed
qed

lemma no_array_skippable: "CHR ''['' \<notin> set bs \<Longrightarrow> skippable z bs"
  unfolding skippable_def jsonSkipValue_def using no_array_skipped set_mono_suffix by blast

text \<open>An unknown key whose array is closed by a brace.\<close>

lemma brace_stuck: "jsonSkipValue z (''[}'' @ rest) = None"
  using skip_stuck [of "[]" z rest] by (simp add: jsonSkipValue_def json_skip.simps [of z SkipValue] ws_def no_ws)

lemma unknown_key_stuck: "parseScene z (''{\"x\":[}'' @ rest) = None"
proof -
  have "starts_member 20 (''x'', ''[}'')" by (simp add: starts_member_def json_ws_def)
  then have "jsonNextKey 20 (''\"x\":[}'' @ rest) = (Some ''x'', ''[}'' @ rest)"
    using next_key_member [of 20 "''x''" "''[}''" "[]" rest]
    by (simp add: member_text_def json_quoted_def json_escape_def)
  moreover have "jsonEnterObject (''{\"x\":[}'' @ rest) = Some (''\"x\":[}'' @ rest)"
    by (simp add: jsonEnterObject_def jsonSkipWs_def json_ws_def)
  ultimately show ?thesis using brace_stuck [of z rest]
    by (simp add: parseScene_def require_open_def json_fields_step scene_key_def skip_then_def)
qed

lemma parse_scene_advances: "skippable z json \<Longrightarrow> advances (parseScene z json) json"
  unfolding parseScene_def
  by (rule seq_advances, assumption, rule reader_advances)
     (rule advances_and_then, rule fields_advance, assumption, rule scene_key_advances, auto split: sum.split)

lemma one_shot_advances: "skippable z json \<Longrightarrow> advances (parseOneShotBody z json) json"
proof -
  assume z: "skippable z json"
  have key: "advances (one_shot_key z key st p) p" if "skippable z p" for key st p
    unfolding one_shot_key_def
    by (intro advances_rules reader_advances step_field_advances that
        selector_advances) simp_all
  show ?thesis unfolding parseOneShotBody_def
    by (rule seq_advances [OF z], rule reader_advances)
       (rule advances_and_then, rule fields_advance, assumption, rule key, auto)
qed

section \<open>Properties\<close>




end
