(* ===== verification/Step_Written.thy ===== *)
theory Step_Written
  imports
    Scene_Writer Scene_Accepted
begin

text \<open>
  A written step is read back. The steps that the writer can express are those of \<open>step_written\<close>: the text has no place
  for a parameter that the kind of the step does not use, nor for a zero between two parameters.
\<close>

section \<open>Colours and numbers\<close>

definition color_written :: "ColorRef \<Rightarrow> bool" where
  "color_written c \<longleftrightarrow>
     cr_kind c = COLORREF_RGB
     \<or> (cr_raw1 c = 0 \<and> cr_raw2 c = 0 \<and> (cr_kind c = COLORREF_PALETTE \<or> (cr_kind c = COLORREF_USE_COLOR \<and> cr_raw0 c \<le> 2)))"

definition color_text :: "ColorRef \<Rightarrow> string" where
  "color_text c =
     (if cr_kind c = COLORREF_RGB then json_quoted (jsonFormatHex (cr_raw0 c) (cr_raw1 c) (cr_raw2 c))
      else object_text [(if cr_kind c = COLORREF_PALETTE then ''palette'' else ''useColor'', uint_text (cr_raw0 c))])"

lemmas key_text = member_text_def plain_quoted plain_char_def

lemma color_buf [buf_simps]: "writeColorRef cap c (buf cap s) = buf cap (s @ color_text c)"
  by (simp add: writeColorRef_def color_text_def buf_simps plain_quoted [OF hex_plain] object_text_def key_text)

lemma value_uint:
  assumes "ends_value r" and "least \<le> unat v" and "unat v \<le> greatest" and "unat v \<le> 65535"
  shows "uint_in msg least greatest (uint_text v @ r) = ok (unat v) r"
  using assms read_uint [OF assms(4) ends_no_digit [OF assms(1)]] by (simp add: uint_in_def uint_text_def)

lemma byte_range [simp]: "unat v \<le> 255" "unat v \<le> 65535" for v :: u8
  using unat_u8_less [of v] by simp_all

lemma word_range [simp]: "unat v \<le> 65535" for v :: u16
  using unat_u16_less [of v] by simp

lemma uint_text_head [simp]: "uint_text v \<noteq> []" "\<not> json_ws (hd (uint_text v))" "starts_value (uint_text v)"
  by (simp_all add: uint_text_def)

lemma byte_le: "unat v \<le> n \<longleftrightarrow> v \<le> of_nat n" if "n \<le> 255" for v :: u8
  using that by (simp add: word_le_nat_alt unat_of_nat)

lemma color_read:
  assumes "color_written c" and "ends_value r"
  shows "parseColorRef z out (color_text c @ r) = ok c r"
proof (cases "cr_kind c = COLORREF_RGB")
  case True
  obtain cs where t: "color_text c @ r = QUOTE # cs" using True by (simp add: color_text_def json_quoted_def)
  have "require_string [] 16 (color_text c @ r) = ok (jsonFormatHex (cr_raw0 c) (cr_raw1 c) (cr_raw2 c)) r"
    using True plain_no_nul [OF hex_plain] by (simp add: color_text_def value_string hex_length)
  then have "parseColorRef z out (color_text c @ r) = ok (ColorRef_rgb (cr_raw0 c) (cr_raw1 c) (cr_raw2 c)) r"
    unfolding t by (simp add: parseColorRef_def parse_format_hex)
  then show ?thesis using True by (cases c) (simp add: ColorRef_rgb_def)
next
  case False
  define k where "k = (if cr_kind c = COLORREF_PALETTE then ''palette'' else ''useColor'')"
  have shape: "color_text c = object_text [(k, uint_text (cr_raw0 c))]" using False by (simp add: color_text_def k_def)
  have "reads 12 (color_key z) [(k, uint_text (cr_raw0 c))] (out, False) (c, True)"
  proof (rule reads_one)
    show "starts_member 12 (k, uint_text (cr_raw0 c))" by (simp add: starts_member_def k_def)
    show "color_key z k (out, False) (uint_text (cr_raw0 c) @ r) = ok (c, True) r" if "ends_value r" for r
      using assms(1) False that
      by (cases c) (auto simp: color_key_def k_def color_written_def value_uint byte_le ColorRef_palette_def ColorRef_useColor_def COLORREF_RGB_def
          COLORREF_PALETTE_def COLORREF_USE_COLOR_def)
  qed
  note f = reads_fields [OF this, of r]
  obtain cs where t: "color_text c @ r = CHR ''{'' # cs" by (simp add: shape object_text_def)
  have e: "jsonEnterObject (CHR ''{'' # cs) = Some (comma_sep (map member_text [(k, uint_text (cr_raw0 c))]) @ CHR ''}'' # r)"
    using enter_object [of "[(k, uint_text (cr_raw0 c))]" r] t by (simp only: shape)
  show ?thesis
    unfolding parseColorRef_def t by (simp add: no_ws json_ws_def require_open_def e f del: map_append list.map)
qed

section \<open>The members of a step\<close>

definition source_name :: "SceneStep \<Rightarrow> string" where
  "source_name step =
     (let kind = ss_params step ! RUNNER_PARAM_SRC_KIND
      in if kind = SRC_ROOT then ''root''
         else if kind = SRC_LEAVES then ''leaves''
         else if kind = SRC_ALL then ''all''
         else ''panel:'' @ uint_text (ss_params step ! RUNNER_PARAM_SRC_ARG))"

definition runner_members :: "SceneStep \<Rightarrow> (string \<times> string) list" where
  "runner_members step =
     (let t = ss_animType step; param = (\<lambda>i. ss_params step ! i)
      in opt (param RUNNER_PARAM_WIDTH \<noteq> 0 \<and> t = RUN_WHEEL) (''thickness'', uint_text (param RUNNER_PARAM_WIDTH))
         @ opt (param RUNNER_PARAM_WIDTH \<noteq> 0 \<and> t \<noteq> RUN_WHEEL) (''width'', uint_text (param RUNNER_PARAM_WIDTH))
         @ opt (param RUNNER_PARAM_LINES \<noteq> 0 \<and> t = RUN_WHEEL) (''lines'', uint_text (param RUNNER_PARAM_LINES))
         @ opt (param RUNNER_PARAM_COUNT \<noteq> 0 \<and> isSweepRunner t) (''count'', uint_text (param RUNNER_PARAM_COUNT))
         @ opt (param RUNNER_PARAM_WAVES \<noteq> 0 \<and> isDropRunner t) (''waves'', uint_text (param RUNNER_PARAM_WAVES))
         @ opt (ss_speedMs step \<noteq> 0) (''speed'', uint_text (ss_speedMs step))
         @ opt (param RUNNER_PARAM_AMOUNT \<noteq> 0) (''amount'', uint_text (param RUNNER_PARAM_AMOUNT))
         @ (if param RUNNER_PARAM_FLAGS AND RUNNER_FLAG_GEOMETRIC \<noteq> 0
            then (''directionality'', json_quoted ''geometric'')
                 # opt (param RUNNER_PARAM_SRC_ARG \<noteq> 0) (''angle'', udec (unat (param RUNNER_PARAM_SRC_ARG) * 2))
            else [(''source'', json_quoted (source_name step))])
         @ opt (param RUNNER_PARAM_FLAGS AND RUNNER_FLAG_REVERSE \<noteq> 0) (''reverse'', ''true''))"

text \<open>The parameters of a panel animation: the first two, and of the others those that are not zero.\<close>

definition params_list :: "SceneStep \<Rightarrow> u8 list" where
  "params_list step = take 2 (ss_params step) @ filter (\<lambda>v. v \<noteq> 0) (drop 2 (ss_params step))"

definition params_members :: "SceneStep \<Rightarrow> (string \<times> string) list" where
  "params_members step =
     opt (ss_params step ! STEP_PARAM_PREPARE_1 \<noteq> 0 \<or> ss_params step ! STEP_PARAM_PREPARE_2 \<noteq> 0)
       (''params'', array_text (map uint_text (params_list step)))"

definition value_members :: "SceneStep \<Rightarrow> (string \<times> string) list" where
  "value_members step =
     (case animateTargetName (ss_animates step) of
        None \<Rightarrow> []
      | Some target \<Rightarrow>
          [(''animates'', json_quoted target), (''from'', uint_text (ss_valueFrom step)), (''to'', uint_text (ss_valueTo step))])"

definition type_name :: "SceneStep \<Rightarrow> string" where
  "type_name step = (case animTypeWireName (ss_animType step) of Some nm \<Rightarrow> nm | None \<Rightarrow> [])"

definition shown_members :: "SceneStep \<Rightarrow> (string \<times> string) list" where
  "shown_members step =
     (let runner = isRunnerType (ss_animType step)
      in (if runner then ''runner'' else ''type'', json_quoted (type_name step))
         # opt (ss_colorFrom step \<noteq> ColorRef_rgb 0 0 0) (''colorFrom'', color_text (ss_colorFrom step))
         @ [(''color'', color_text (ss_colorTo step))]
         @ opt (0 < ss_durationMs step \<or> \<not> runner) (''duration'', uint_text (ss_durationMs step))
         @ opt (ss_flags step AND FLAG_LOOP \<noteq> 0) (''loop'', ''true'')
         @ opt (ss_flags step AND FLAG_PINGPONG \<noteq> 0) (''pingpong'', ''true'')
         @ value_members step
         @ (if runner then runner_members step else params_members step))"

definition step_members :: "SceneStep \<Rightarrow> (string \<times> string) list" where
  "step_members step =
     (if ss_animType step = ANIM_GAP then opt (0 < ss_durationMs step) (''duration'', uint_text (ss_durationMs step))
      else shown_members step)"

section \<open>The steps that can be written\<close>

definition runner_written :: "SceneStep \<Rightarrow> bool" where
  "runner_written step \<longleftrightarrow>
     (let t = ss_animType step; param = (\<lambda>i. ss_params step ! i)
      in param RUNNER_PARAM_FLAGS \<le> 3
         \<and> (if param RUNNER_PARAM_FLAGS AND RUNNER_FLAG_GEOMETRIC \<noteq> 0
            then param RUNNER_PARAM_SRC_KIND = SRC_ROOT \<and> param RUNNER_PARAM_SRC_ARG < 180
            else param RUNNER_PARAM_SRC_KIND \<le> SRC_PANEL
                 \<and> (param RUNNER_PARAM_SRC_KIND = SRC_PANEL \<longleftrightarrow> param RUNNER_PARAM_SRC_ARG \<noteq> 0))
         \<and> (t = RUN_WHEEL \<longrightarrow> param RUNNER_PARAM_LINES \<le> 6) \<and> (isSweepRunner t \<longrightarrow> param RUNNER_PARAM_COUNT \<le> 30)
         \<and> (t = RUN_BOUNCE \<longrightarrow> param RUNNER_PARAM_LINES = 0))"

definition params_written :: "SceneStep \<Rightarrow> bool" where
  "params_written step \<longleftrightarrow>
     (\<exists>ps. length ps \<le> 5 \<and> list_all (\<lambda>v. v \<noteq> 0) (drop 2 ps) \<and> ss_params step = ps @ replicate (6 - length ps) 0
        \<and> (ps = [] \<or> 2 \<le> length ps \<and> take 2 ps \<noteq> [0, 0]))"

definition shown_written :: "SceneStep \<Rightarrow> bool" where
  "shown_written step \<longleftrightarrow>
     color_written (ss_colorFrom step) \<and> color_written (ss_colorTo step) \<and> ss_flags step \<le> 3
     \<and> ss_animates step \<le> TARGET_SATURATE
     \<and> (ss_animates step = TARGET_COLOR \<or> ss_animates step = TARGET_INVERT \<longrightarrow> ss_valueFrom step = 0 \<and> ss_valueTo step = 0)
     \<and> (ss_animType step = ANIM_SOLID \<longrightarrow> ss_valueTo step = 0)
     \<and> (if isRunnerType (ss_animType step) then runner_written step else ss_speedMs step = 0 \<and> params_written step)"

definition step_written :: "SceneStep \<Rightarrow> bool" where
  "step_written step \<longleftrightarrow>
     step_ok step
     \<and> (if ss_animType step = ANIM_GAP then step = step_zero\<lparr>ss_animType := ANIM_GAP, ss_durationMs := ss_durationMs step\<rparr>
        else shown_written step)"

section \<open>The text of a step\<close>

lemma wire_name:
  assumes "known_type t" and "t \<noteq> ANIM_GAP"
  shows "\<exists>nm. animTypeWireName t = Some nm \<and> list_all plain_char nm"
  using assms unfolding known_type_def
  by (elim insertE emptyE) (simp_all add: animTypeWireName_def plain_char_def anim_type_defs run_types)

lemma target_name: "animateTargetName t = Some nm \<Longrightarrow> list_all plain_char nm"
  by (auto simp: animateTargetName_def plain_char_def split: if_splits)

abbreviation commas :: "(string \<times> string) list \<Rightarrow> string" where
  "commas ms \<equiv> concat (map (\<lambda>m. CHR '','' # member_text m) ms)"

lemma fold_params_buf:
  "fold (\<lambda>i. append_when cap (f i \<noteq> 0) ('','' @ uint_text (f i))) is (buf cap s) =
     buf cap (s @ concat (map (\<lambda>v. CHR '','' # uint_text v) (filter (\<lambda>v. v \<noteq> 0) (map f is))))"
  by (induction "is" arbitrary: s) (simp_all add: buf_simps opt_def)

lemma params_buf [buf_simps]:
  assumes "length (ss_params step) = 6"
  shows "writeParams cap step (buf cap s) = buf cap (s @ commas (params_members step))"
proof -
  obtain a b xs where ps: "ss_params step = a # b # xs" "length xs = 4" using assms by (auto simp: numeral_eq_Suc length_Suc_conv)
  have rest: "map ((!) (a # b # xs)) [2..<6] = xs"
    using ps(2) by (intro nth_equalityI) (auto simp: nth_Cons eval_nat_numeral split: nat.split)
  show ?thesis
    by (simp add: writeParams_def params_members_def params_list_def STEP_PARAM_PREPARE_1_def STEP_PARAM_PREPARE_2_def ps buf_simps
        fold_params_buf [where f = "(!) (a # b # xs)", simplified] rest
        array_text_def comma_sep_Cons o_def key_text Let_def opt_def del: upt_rec_numeral)
qed

lemma digits_plain_chars: "list_all plain_char (udec n)"
  using udec_digits [of n] by (auto simp: list_all_iff is_digit_def plain_char_def)

lemma source_plain: "list_all plain_char (source_name step)"
  using digits_plain_chars by (simp add: source_name_def Let_def uint_text_def) (simp add: plain_char_def)

lemma small_word: "v \<le> 3 \<Longrightarrow> v = 0 \<or> v = 1 \<or> v = 2 \<or> v = 3" for v :: u8
proof -
  assume "v \<le> 3"
  then have "unat v \<le> 3" by (simp add: word_le_nat_alt)
  then consider "unat v = 0" | "unat v = 1" | "unat v = 2" | "unat v = 3" by linarith
  then show ?thesis by cases (simp_all add: word_unat_eq_iff)
qed

lemma source_buf:
  assumes "ss_params step ! RUNNER_PARAM_SRC_KIND \<le> SRC_PANEL"
  shows "writeRunnerSource cap step (buf cap s) = buf cap (s @ member_text (''source'', json_quoted (source_name step)))"
proof -
  have "ss_params step ! RUNNER_PARAM_SRC_KIND \<in> {SRC_ROOT, SRC_LEAVES, SRC_ALL, SRC_PANEL}"
    using small_word assms by (simp add: SRC_ROOT_def SRC_LEAVES_def SRC_ALL_def SRC_PANEL_def)
  then show ?thesis
    using source_plain [of step]
    by (elim insertE emptyE)
       (simp_all add: writeRunnerSource_def source_name_def Let_def buf_simps key_text SRC_ROOT_def SRC_LEAVES_def SRC_ALL_def SRC_PANEL_def)
qed

lemma direction_buf [buf_simps]:
  assumes "runner_written step"
  shows "writeDirection cap step (buf cap s) =
    buf cap (s @ commas (if ss_params step ! RUNNER_PARAM_FLAGS AND RUNNER_FLAG_GEOMETRIC \<noteq> 0
            then (''directionality'', json_quoted ''geometric'')
                 # opt (ss_params step ! RUNNER_PARAM_SRC_ARG \<noteq> 0) (''angle'', udec (unat (ss_params step ! RUNNER_PARAM_SRC_ARG) * 2))
            else [(''source'', json_quoted (source_name step))]))"
  using assms by (simp add: writeDirection_def buf_simps runner_written_def Let_def source_buf key_text)

lemma runner_buf [buf_simps]:
  assumes "runner_written step"
  shows "writeRunnerFields cap step (buf cap s) = buf cap (s @ commas (runner_members step))"
  unfolding writeRunnerFields_def
  by (subst Let_def, subst Let_def, subst Let_def)
     (simp add: buf_simps direction_buf [OF assms] runner_members_def Let_def isSweepRunner_def isDropRunner_def key_text)

lemma color_from_buf [buf_simps]:
  assumes "color_written c"
  shows "writeColorFrom cap c (buf cap s) = buf cap (s @ concat (opt (c \<noteq> ColorRef_rgb 0 0 0) (CHR '','' # member_text (''colorFrom'', color_text c))))"
  by (cases c) (simp add: writeColorFrom_def buf_simps ColorRef_rgb_def opt_def key_text)

lemma animates_buf [buf_simps]: "writeAnimates cap step (buf cap s) = buf cap (s @ commas (value_members step))"
proof -
  have "animateTargetName TARGET_COLOR = None" by (simp add: animateTargetName_def TARGET_COLOR_def TARGET_DIM_def TARGET_DESATURATE_def
    TARGET_HUE_def TARGET_INVERT_def TARGET_BRIGHTEN_def TARGET_SATURATE_def)
  then show ?thesis
    using target_name by (auto simp: writeAnimates_def value_members_def buf_simps key_text split: option.split)
qed

lemma step_buf:
  assumes "step_written step"
  shows "writeStep cap step (buf cap s) = buf cap (s @ object_text (step_members step))"
proof (cases "ss_animType step = ANIM_GAP")
  case True
  then show ?thesis by (simp add: writeStep_def step_members_def buf_simps object_text_def key_text opt_def)
next
  case False
  then have w: "step_ok step" "shown_written step" using assms by (auto simp: step_written_def)
  then obtain nm where nm: "animTypeWireName (ss_animType step) = Some nm" "list_all plain_char nm"
    using wire_name False by (auto simp: step_ok_def)
  show ?thesis
  proof (cases "isRunnerType (ss_animType step)")
    case True
    then show ?thesis using w nm False
      by (simp add: writeStep_def step_members_def shown_members_def type_name_def shown_written_def buf_simps object_text_def comma_sep_Cons o_def Let_def key_text)
  next
    case no: False
    then show ?thesis using w nm False
      by (simp add: writeStep_def step_members_def shown_members_def type_name_def shown_written_def step_ok_def buf_simps object_text_def comma_sep_Cons o_def Let_def key_text)
  qed
qed

section \<open>Reading the fields of a step\<close>

text \<open>What reading one member does to the step.\<close>

definition field_reads :: "char \<Rightarrow> string \<Rightarrow> string \<Rightarrow> (SceneStep \<Rightarrow> SceneStep) \<Rightarrow> bool" where
  "field_reads z k v f \<longleftrightarrow>
     starts_member 20 (k, v)
     \<and> (\<forall>st b i r. ends_value r \<longrightarrow> step_key z k ((st, b), i) (v @ r) = ok ((f st, b), i) r)"

lemma field_reads_member: "field_reads z k v f \<Longrightarrow> reads 20 (step_key z) [(k, v)] ((st, b), i) ((f st, b), i)"
  by (rule reads_one) (simp_all add: field_reads_def)

lemma field_reads_opt:
  "field_reads z k v f \<Longrightarrow> (\<not> c \<Longrightarrow> f st = st) \<Longrightarrow> reads 20 (step_key z) (opt c (k, v)) ((st, b), i) ((f st, b), i)"
  using field_reads_member by (intro reads_opt) auto

lemma field_readsI:
  assumes "NUL \<notin> set k" "length k < 20" "k \<noteq> ''id''" "k \<noteq> ''type''" "k \<noteq> ''runner''" "v \<noteq> []" "\<not> json_ws (hd v)"
    and "\<And>st r. ends_value r \<Longrightarrow> plain_step_field z k st (v @ r) = ok (f st) r"
  shows "field_reads z k v f"
  using assms by (auto simp: field_reads_def starts_member_def step_key_def handleStepField_def)

lemma uint_fields:
  "field_reads z ''duration'' (uint_text d) (\<lambda>st. st\<lparr>ss_durationMs := d\<rparr>)"
  "field_reads z ''speed'' (uint_text d) (\<lambda>st. st\<lparr>ss_speedMs := d\<rparr>)"
  "field_reads z ''from'' (uint_text v) (\<lambda>st. st\<lparr>ss_valueFrom := v\<rparr>)"
  "field_reads z ''to'' (uint_text v) (\<lambda>st. st\<lparr>ss_valueTo := v\<rparr>)"
  "field_reads z ''width'' (uint_text v) (set_param RUNNER_PARAM_WIDTH v)"
  "field_reads z ''thickness'' (uint_text v) (set_param RUNNER_PARAM_WIDTH v)"
  "field_reads z ''amount'' (uint_text v) (set_param RUNNER_PARAM_AMOUNT v)"
  "field_reads z ''waves'' (uint_text v) (set_param RUNNER_PARAM_WAVES v)"
  by (rule field_readsI; simp add: plain_step_field_def value_uint)+

lemma bounded_fields:
  "v \<noteq> 0 \<Longrightarrow> v \<le> 6 \<Longrightarrow> field_reads z ''lines'' (uint_text v) (set_param RUNNER_PARAM_LINES v)"
  "v \<noteq> 0 \<Longrightarrow> v \<le> 30 \<Longrightarrow> field_reads z ''count'' (uint_text v) (set_param RUNNER_PARAM_COUNT v)"
  by (rule field_readsI; simp add: plain_step_field_def value_uint byte_le Suc_le_eq unat_gt_0)+

lemma bool_fields:
  "field_reads z ''loop'' ''true'' (\<lambda>st. st\<lparr>ss_flags := ss_flags st OR FLAG_LOOP\<rparr>)"
  "field_reads z ''pingpong'' ''true'' (\<lambda>st. st\<lparr>ss_flags := ss_flags st OR FLAG_PINGPONG\<rparr>)"
  "field_reads z ''reverse'' ''true'' (set_runner_flag RUNNER_FLAG_REVERSE)"
  by (rule field_readsI; simp add: plain_step_field_def bool_in_def value_bool [simplified] require_def json_ws_def)+

lemma color_fields:
  assumes "color_written c"
  shows "field_reads z ''colorFrom'' (color_text c) (\<lambda>st. st\<lparr>ss_colorFrom := c\<rparr>)"
    and "field_reads z ''color'' (color_text c) (\<lambda>st. st\<lparr>ss_colorTo := c\<rparr>)"
proof -
  have "color_text c \<noteq> []" "\<not> json_ws (hd (color_text c))" by (simp_all add: color_text_def)
  then show "field_reads z ''colorFrom'' (color_text c) (\<lambda>st. st\<lparr>ss_colorFrom := c\<rparr>)"
      "field_reads z ''color'' (color_text c) (\<lambda>st. st\<lparr>ss_colorTo := c\<rparr>)"
    using assms by (intro field_readsI; simp add: plain_step_field_def color_read complain_def ok_def and_then_def)+
qed

lemma animates_reads:
  assumes "animateTargetName t = Some nm"
  shows "field_reads z ''animates'' (json_quoted nm) (\<lambda>st. st\<lparr>ss_animates := t\<rparr>)"
proof (rule field_readsI)
  have "NUL \<notin> set nm" "length nm < 16" "animates_target nm = Some t"
    using assms by (auto simp: animateTargetName_def animates_target_def split: if_splits)
  then show "plain_step_field z ''animates'' st (json_quoted nm @ r) = ok (st\<lparr>ss_animates := t\<rparr>) r" if "ends_value r" for st r
    by (simp add: plain_step_field_def animates_field_def value_string)
qed simp_all

lemma angle_reads:
  assumes "v < 180"
  shows "field_reads z ''angle'' (udec (unat v * 2)) (set_param RUNNER_PARAM_SRC_ARG v)"
proof (rule field_readsI)
  have v: "unat v < 180" using assms by (simp add: word_less_nat_alt)
  show "plain_step_field z ''angle'' st (udec (unat v * 2) @ r) = ok (set_param RUNNER_PARAM_SRC_ARG v st) r" if "ends_value r" for st r
    using v read_uint [of "unat v * 2" r] ends_no_digit [OF that] by (simp add: plain_step_field_def uint_in_def)
qed simp_all

lemma geometric_reads: "field_reads z ''directionality'' (json_quoted ''geometric'') (set_runner_flag RUNNER_FLAG_GEOMETRIC)"
  by (rule field_readsI) (simp_all add: plain_step_field_def directionality_field_def value_string)

lemma atol_udec: "atol (udec n) = int n"
proof -
  have d: "\<forall>c \<in> set (udec n). is_digit c" by (rule udec_digits)
  have t: "takeWhile is_digit (udec n) = udec n" using d by (simp only: takeWhile_eq_all_conv)
  have w: "dropWhile c_space (udec n) = udec n"
    using udec_hd [of n] by (cases "udec n") (auto simp: c_space_def json_ws_def is_digit_def)
  have h: "hd (udec n) \<noteq> CHR ''-''" "hd (udec n) \<noteq> CHR ''+''" using udec_hd [of n] by (auto simp: is_digit_def)
  have v: "fold (\<lambda>c v. v * 10 + int (digit_val c)) (udec n) 0 = int n"
  proof (induction n rule: udec.induct)
    case (1 n)
    have "int (n div 10) * 10 + int (n mod 10) = int n" by presburger
    then show ?case using 1 digit_char [of "n mod 10"] digit_char [of n] by (subst udec.simps) auto
  qed
  show ?thesis unfolding atol_def Let_def w using h by (simp add: t v)
qed

text \<open>The source: its kind, and for a panel its index.\<close>

definition set_source :: "u8 \<Rightarrow> u8 \<Rightarrow> SceneStep \<Rightarrow> SceneStep" where
  "set_source kind arg st =
     (if kind = SRC_PANEL then set_param RUNNER_PARAM_SRC_ARG arg (set_param RUNNER_PARAM_SRC_KIND kind st)
      else set_param RUNNER_PARAM_SRC_KIND kind st)"

lemma byte_interval: "v \<noteq> 0 \<Longrightarrow> 1 \<le> uint v \<and> uint v \<le> 255" for v :: u8
proof -
  assume "v \<noteq> 0"
  then have "uint v \<noteq> 0" by (simp only: uint_0_iff) simp
  moreover have "0 \<le> uint v" "uint v < 256" using uint_ge_0 uint_lt2p [of v] by simp_all
  ultimately show ?thesis by linarith
qed

lemma source_reads:
  assumes "ss_params step ! RUNNER_PARAM_SRC_KIND \<le> SRC_PANEL"
    and "ss_params step ! RUNNER_PARAM_SRC_KIND = SRC_PANEL \<Longrightarrow> ss_params step ! RUNNER_PARAM_SRC_ARG \<noteq> 0"
  shows "field_reads z ''source'' (json_quoted (source_name step))
    (set_source (ss_params step ! RUNNER_PARAM_SRC_KIND) (ss_params step ! RUNNER_PARAM_SRC_ARG))"
proof (rule field_readsI)
  let ?k = "ss_params step ! RUNNER_PARAM_SRC_KIND" and ?a = "ss_params step ! RUNNER_PARAM_SRC_ARG"
  have k: "?k \<in> {SRC_ROOT, SRC_LEAVES, SRC_ALL, SRC_PANEL}"
    using small_word assms by (simp add: SRC_ROOT_def SRC_LEAVES_def SRC_ALL_def SRC_PANEL_def)
  have len: "length (uint_text ?a) \<le> 3" using udec_byte [of ?a] by (simp add: uint_text_def)
  then have n: "length (source_name step) < 16" by (simp add: source_name_def Let_def)
  have a: "?k = SRC_PANEL \<Longrightarrow> 1 \<le> uint ?a \<and> uint ?a \<le> 255"
    using byte_interval assms(2) by blast
  have q: "require_string msg 16 (json_quoted (source_name step) @ r) = ok (source_name step) r" for msg r
    using n plain_no_nul [OF source_plain [of step]] by (simp add: value_string)
  show "plain_step_field z ''source'' st (json_quoted (source_name step) @ r) = ok (set_source ?k ?a st) r" for st r
    using k a
    by (elim insertE emptyE)
       (simp_all add: plain_step_field_def source_field_def q, simp_all add: source_name_def Let_def set_source_def uint_text_def atol_udec
          SRC_ROOT_def SRC_LEAVES_def SRC_ALL_def SRC_PANEL_def)
qed simp_all

lemma params_reads:
  assumes "length ps \<le> 5"
  shows "reads 20 (step_key z) [(''params'', array_text (map uint_text ps))] ((st\<lparr>ss_params := replicate 6 0\<rparr>, b), i)
    ((st\<lparr>ss_params := ps @ replicate (6 - length ps) 0\<rparr>, b), i)"
proof (rule reads_one)
  show "starts_member 20 (''params'', array_text (map uint_text ps))" by (simp add: starts_member_def)
  fix r assume "ends_value r"
  have all: "reads_all params_element (map uint_text qs) (st\<lparr>ss_params := pre @ replicate (6 - length pre) 0\<rparr>, length pre)
      (st\<lparr>ss_params := pre @ qs @ replicate (6 - length pre - length qs) 0\<rparr>, length pre + length qs)"
    if "length pre + length qs \<le> 5" for pre qs
    using that
  proof (induction qs arbitrary: pre)
    case Nil
    then show ?case by (simp add: all_none)
  next
    case (Cons v qs)
    have "(pre @ replicate (6 - length pre) 0)[length pre := v] = (pre @ [v]) @ replicate (6 - length (pre @ [v])) 0"
      using Cons.prems by (simp add: list_update_append Suc_diff_le flip: Cons_replicate_eq) (cases "6 - length pre"; simp)
    then have "\<forall>r. ends_value r \<longrightarrow> params_element (st\<lparr>ss_params := pre @ replicate (6 - length pre) 0\<rparr>, length pre) (uint_text v @ r)
        = ok (st\<lparr>ss_params := (pre @ [v]) @ replicate (6 - length (pre @ [v])) 0\<rparr>, length (pre @ [v])) r"
      using Cons.prems by (simp add: params_element_def value_uint set_param_def)
    then show ?case using Cons.IH [of "pre @ [v]"] Cons.prems by (auto intro: all_element)
  qed
  show "step_key z ''params'' ((st\<lparr>ss_params := replicate 6 0\<rparr>, b), i) (array_text (map uint_text ps) @ r) =
    ok ((st\<lparr>ss_params := ps @ replicate (6 - length ps) 0\<rparr>, b), i) r"
    using reads_elements [OF all [of "[]" ps], of r] assms
    by (simp add: step_key_def handleStepField_def plain_step_field_def params_field_def enter_array require_open_def)
qed

lemma type_reads:
  assumes "known_type (ss_animType step)" and "ss_animType step \<noteq> ANIM_GAP"
  shows "reads 20 (step_key z) [(if isRunnerType (ss_animType step) then ''runner'' else ''type'', json_quoted (type_name step))]
    ((st, False), i) ((st\<lparr>ss_animType := ss_animType step\<rparr>, True), i)"
proof (rule reads_one)
  show "starts_member 20 (if isRunnerType (ss_animType step) then ''runner'' else ''type'', json_quoted (type_name step))"
    by (simp add: starts_member_def)
  show "step_key z (if isRunnerType (ss_animType step) then ''runner'' else ''type'') ((st, False), i) (json_quoted (type_name step) @ r) =
      ok ((st\<lparr>ss_animType := ss_animType step\<rparr>, True), i) r" for r
    using assms unfolding known_type_def
    by (elim insertE emptyE)
       (simp_all add: step_key_def handleStepField_def type_field_def type_name_def animTypeWireName_def isRunnerType_def value_string
         parseAnimTypeName_def parseRunnerName_def anim_type_defs run_types word_le_nat_alt)
qed

section \<open>Reading a step\<close>

abbreviation step_reads :: "char \<Rightarrow> (string \<times> string) list \<Rightarrow> bool \<Rightarrow> SceneStep \<Rightarrow> SceneStep \<Rightarrow> bool" where
  "step_reads z ms b st st' \<equiv> reads 20 (step_key z) ms ((st, b), []) ((st', b), [])"

lemma step_reads_trans: "step_reads z ms b st st1 \<Longrightarrow> step_reads z ms' b st1 st' \<Longrightarrow> step_reads z (ms @ ms') b st st'"
  by (rule reads_append)

lemma value_reads:
  assumes "ss_animates step \<le> TARGET_SATURATE" and "ss_animates st = 0" "ss_valueFrom st = 0" "ss_valueTo st = 0"
    and "ss_animates step = TARGET_COLOR \<Longrightarrow> ss_valueFrom step = 0 \<and> ss_valueTo step = 0"
  shows "step_reads z (value_members step) b st
    (st\<lparr>ss_animates := ss_animates step, ss_valueFrom := ss_valueFrom step, ss_valueTo := ss_valueTo step\<rparr>)"
proof (cases "animateTargetName (ss_animates step)")
  case None
  have "unat (ss_animates step) \<le> 6" using assms(1) by (simp add: TARGET_SATURATE_def word_le_nat_alt)
  moreover have "unat (ss_animates step) \<notin> {1, 2, 3, 4, 5, 6}"
    using None by (auto simp: animateTargetName_def TARGET_DIM_def TARGET_DESATURATE_def TARGET_HUE_def TARGET_INVERT_def
        TARGET_BRIGHTEN_def TARGET_SATURATE_def word_unat_eq_iff split: if_splits)
  ultimately have "unat (ss_animates step) = 0" by auto
  then have "ss_animates step = TARGET_COLOR" by (simp add: TARGET_COLOR_def unat_eq_0)
  then have "st\<lparr>ss_animates := ss_animates step, ss_valueFrom := ss_valueFrom step, ss_valueTo := ss_valueTo step\<rparr> = st"
    using assms(2-5) by (cases st) (simp add: TARGET_COLOR_def)
  then show ?thesis using None by (simp add: value_members_def reads_none)
next
  case (Some nm)
  have "step_reads z ([(''animates'', json_quoted nm)] @ [(''from'', uint_text (ss_valueFrom step))] @ [(''to'', uint_text (ss_valueTo step))]) b st
    (st\<lparr>ss_animates := ss_animates step, ss_valueFrom := ss_valueFrom step, ss_valueTo := ss_valueTo step\<rparr>)"
    by (rule step_reads_trans step_reads_trans field_reads_member [OF animates_reads [OF Some]] field_reads_member [OF uint_fields(3)]
        field_reads_member [OF uint_fields(4)])+
  then show ?thesis using Some by (simp add: value_members_def)
qed

lemma flag_reads:
  assumes "ss_flags step \<le> 3" and "ss_flags st = 0"
  shows "step_reads z (opt (ss_flags step AND FLAG_LOOP \<noteq> 0) (''loop'', ''true'') @ opt (ss_flags step AND FLAG_PINGPONG \<noteq> 0) (''pingpong'', ''true'')) b st
    (st\<lparr>ss_flags := ss_flags step\<rparr>)"
proof (cases "ss_flags step = 0")
  case True
  then have "st\<lparr>ss_flags := ss_flags step\<rparr> = st" using assms(2) by (cases st) simp
  moreover have "opt (ss_flags step AND FLAG_LOOP \<noteq> 0) m @ opt (ss_flags step AND FLAG_PINGPONG \<noteq> 0) m' = []" for m m' :: "string \<times> string"
    using True by (simp add: opt_def)
  ultimately show ?thesis by (simp only: reads_none)
next
  case False
  then have "ss_flags step \<in> {1, 2, 3}" using small_word assms(1) by auto
  then show ?thesis
    using assms(2) field_reads_member [OF bool_fields(1), of z st b "[]"] field_reads_member [OF bool_fields(2), of z st b "[]"]
      step_reads_trans [OF field_reads_member [OF bool_fields(1)] field_reads_member [OF bool_fields(2)], of z st b]
    by (elim insertE emptyE) (simp_all add: opt_def FLAG_LOOP_def FLAG_PINGPONG_def)
qed

lemma set_param_same: "ss_params st ! k = v \<Longrightarrow> set_param k v st = st"
  by (cases st) (auto simp: set_param_def)

lemma runner_types:
  assumes "known_type t" and "isRunnerType t"
  shows "(t = RUN_WHEEL \<and> \<not> isSweepRunner t \<and> \<not> isDropRunner t) \<or> (t \<noteq> RUN_WHEEL \<and> isSweepRunner t \<and> \<not> isDropRunner t)
    \<or> (t \<noteq> RUN_WHEEL \<and> \<not> isSweepRunner t \<and> isDropRunner t) \<or> t = RUN_BOUNCE \<and> t \<noteq> RUN_WHEEL \<and> \<not> isSweepRunner t \<and> \<not> isDropRunner t"
  using assms unfolding known_type_def
  by (elim insertE emptyE) (simp_all add: isRunnerType_def isSweepRunner_def isDropRunner_def anim_type_defs run_types word_le_nat_alt)

lemmas runner_params = RUNNER_PARAM_WIDTH_def RUNNER_PARAM_SRC_KIND_def RUNNER_PARAM_SRC_ARG_def RUNNER_PARAM_FLAGS_def
  RUNNER_PARAM_AMOUNT_def RUNNER_PARAM_LINES_def RUNNER_PARAM_COUNT_def RUNNER_PARAM_WAVES_def

lemma param_reads_opt:
  "field_reads z k v (set_param j a) \<Longrightarrow> ss_params st ! j = 0 \<Longrightarrow> c = (a \<noteq> 0) \<Longrightarrow> step_reads z (opt c (k, v)) b st (set_param j a st)"
  by (rule field_reads_opt) (simp_all add: set_param_same)

lemma width_reads:
  assumes "ss_params st ! RUNNER_PARAM_WIDTH = 0"
  shows "step_reads z (opt (a \<noteq> 0 \<and> t) (''thickness'', uint_text a) @ opt (a \<noteq> 0 \<and> \<not> t) (''width'', uint_text a)) b st (set_param RUNNER_PARAM_WIDTH a st)"
  using param_reads_opt [OF uint_fields(5) assms refl, of z a b] param_reads_opt [OF uint_fields(6) assms refl, of z a b]
  by (cases t) (simp_all add: opt_def [of False])

lemma last_reads:
  assumes t: "known_type t" "isRunnerType t" and a: "ss_params st ! RUNNER_PARAM_LINES = 0"
    and w: "t = RUN_WHEEL \<Longrightarrow> a \<le> 6" "isSweepRunner t \<Longrightarrow> a \<le> 30" "t = RUN_BOUNCE \<Longrightarrow> a = 0"
  shows "step_reads z (opt (a \<noteq> 0 \<and> t = RUN_WHEEL) (''lines'', uint_text a) @ opt (a \<noteq> 0 \<and> isSweepRunner t) (''count'', uint_text a)
      @ opt (a \<noteq> 0 \<and> isDropRunner t) (''waves'', uint_text a)) b st (set_param RUNNER_PARAM_LINES a st)"
proof (cases "a = 0")
  case True
  then show ?thesis using a by (simp add: opt_def reads_none set_param_same)
next
  case False
  have lines: "t = RUN_WHEEL \<Longrightarrow> step_reads z [(''lines'', uint_text a)] b st (set_param RUNNER_PARAM_LINES a st)"
    by (rule field_reads_member [OF bounded_fields(1) [OF False w(1)]])
  have count: "isSweepRunner t \<Longrightarrow> step_reads z [(''count'', uint_text a)] b st (set_param RUNNER_PARAM_COUNT a st)"
    by (rule field_reads_member [OF bounded_fields(2) [OF False w(2)]])
  have waves: "step_reads z [(''waves'', uint_text a)] b st (set_param RUNNER_PARAM_WAVES a st)"
    by (rule field_reads_member [OF uint_fields(8)])
  have "RUNNER_PARAM_COUNT = RUNNER_PARAM_LINES" "RUNNER_PARAM_WAVES = RUNNER_PARAM_LINES"
    by (simp_all add: runner_params)
  then show ?thesis
    using runner_types [OF t] w(3) False lines count waves by (elim disjE conjE) (simp_all add: opt_def)
qed

lemma direction_reads:
  assumes w: "runner_written step" and p: "length (ss_params st) = 6" "\<forall>j \<in> {RUNNER_PARAM_SRC_KIND, RUNNER_PARAM_SRC_ARG, RUNNER_PARAM_FLAGS}. ss_params st ! j = 0"
    and a: "a1 = ss_params step ! RUNNER_PARAM_SRC_KIND" "a2 = ss_params step ! RUNNER_PARAM_SRC_ARG" "a3 = ss_params step ! RUNNER_PARAM_FLAGS"
  shows "step_reads z (if a3 AND RUNNER_FLAG_GEOMETRIC \<noteq> 0
        then (''directionality'', json_quoted ''geometric'') # opt (a2 \<noteq> 0) (''angle'', udec (unat a2 * 2))
        else [(''source'', json_quoted (source_name step))]) b st
      (set_param RUNNER_PARAM_FLAGS (a3 AND RUNNER_FLAG_GEOMETRIC) (set_param RUNNER_PARAM_SRC_ARG a2 (set_param RUNNER_PARAM_SRC_KIND a1 st)))"
proof (cases "a3 AND RUNNER_FLAG_GEOMETRIC = 0")
  case True
  have k: "a1 \<le> SRC_PANEL" "a1 = SRC_PANEL \<longleftrightarrow> a2 \<noteq> 0" using w True by (auto simp: runner_written_def Let_def a)
  have "a1 \<noteq> SRC_PANEL \<Longrightarrow> set_param RUNNER_PARAM_SRC_ARG a2 (set_param RUNNER_PARAM_SRC_KIND a1 st) = set_param RUNNER_PARAM_SRC_KIND a1 st"
    using k(2) p by (intro set_param_same) (simp add: set_param_def runner_params)
  then have "set_source a1 a2 st = set_param RUNNER_PARAM_SRC_ARG a2 (set_param RUNNER_PARAM_SRC_KIND a1 st)" by (simp add: set_source_def)
  moreover have "set_param RUNNER_PARAM_FLAGS 0 (set_param RUNNER_PARAM_SRC_ARG a2 (set_param RUNNER_PARAM_SRC_KIND a1 st))
      = set_param RUNNER_PARAM_SRC_ARG a2 (set_param RUNNER_PARAM_SRC_KIND a1 st)"
    using p by (intro set_param_same) (simp add: set_param_def runner_params)
  ultimately have "set_param RUNNER_PARAM_FLAGS 0 (set_param RUNNER_PARAM_SRC_ARG a2 (set_param RUNNER_PARAM_SRC_KIND a1 st)) = set_source a1 a2 st" by simp
  then show ?thesis using True field_reads_member [OF source_reads [of step z], of st b "[]"] k by (simp add: a)
next
  case False
  have k: "a1 = 0" "a2 < 180" using w False by (auto simp: runner_written_def Let_def a SRC_ROOT_def)
  have "a3 \<in> {0, 1, 2, 3}" using w small_word [of a3] by (auto simp: runner_written_def Let_def a)
  then have g: "a3 AND RUNNER_FLAG_GEOMETRIC = 2" using False by (auto simp: RUNNER_FLAG_GEOMETRIC_def)
  define st1 where "st1 = set_runner_flag RUNNER_FLAG_GEOMETRIC st"
  have "step_reads z [(''directionality'', json_quoted ''geometric'')] b st st1"
    unfolding st1_def by (rule field_reads_member [OF geometric_reads])
  moreover have "ss_params st1 ! RUNNER_PARAM_SRC_ARG = 0" using p by (simp add: st1_def set_runner_flag_def set_param_def runner_params)
  then have "step_reads z (opt (a2 \<noteq> 0) (''angle'', udec (unat a2 * 2))) b st1 (set_param RUNNER_PARAM_SRC_ARG a2 st1)"
    by (rule param_reads_opt [OF angle_reads [OF k(2)] _ refl])
  ultimately have "step_reads z ([(''directionality'', json_quoted ''geometric'')] @ opt (a2 \<noteq> 0) (''angle'', udec (unat a2 * 2))) b st
      (set_param RUNNER_PARAM_SRC_ARG a2 st1)" by (rule step_reads_trans)
  moreover have "set_param RUNNER_PARAM_SRC_ARG a2 st1
      = set_param RUNNER_PARAM_FLAGS 2 (set_param RUNNER_PARAM_SRC_ARG a2 (set_param RUNNER_PARAM_SRC_KIND 0 st))"
    using p set_param_same [of st RUNNER_PARAM_SRC_KIND 0]
    by (simp add: st1_def set_runner_flag_def set_param_def runner_params RUNNER_FLAG_GEOMETRIC_def list_update_swap)
  ultimately show ?thesis using False k(1) g by simp
qed

lemma reverse_reads:
  assumes "a \<le> 3" and "ss_params st ! RUNNER_PARAM_FLAGS = a AND RUNNER_FLAG_GEOMETRIC"
  shows "step_reads z (opt (a AND RUNNER_FLAG_REVERSE \<noteq> 0) (''reverse'', ''true'')) b st (set_param RUNNER_PARAM_FLAGS a st)"
proof -
  have f: "a \<in> {0, 1, 2, 3}" using small_word assms(1) by auto
  show ?thesis
  proof (cases "a AND RUNNER_FLAG_REVERSE = 0")
    case True
    then have "a AND RUNNER_FLAG_GEOMETRIC = a" using f by (auto simp: RUNNER_FLAG_REVERSE_def RUNNER_FLAG_GEOMETRIC_def)
    then show ?thesis using True assms(2) by (simp add: opt_def reads_none set_param_same)
  next
    case False
    then have "set_runner_flag RUNNER_FLAG_REVERSE st = set_param RUNNER_PARAM_FLAGS a st"
      using f assms(2) by (auto simp: set_runner_flag_def RUNNER_FLAG_REVERSE_def RUNNER_FLAG_GEOMETRIC_def)
    then show ?thesis using False field_reads_member [OF bool_fields(3), of z st b "[]"] by (simp add: opt_def)
  qed
qed

lemma runner_reads:
  assumes w: "runner_written step" and t: "known_type (ss_animType step)" "isRunnerType (ss_animType step)"
    and len: "length (ss_params step) = 6" and st: "ss_params st = replicate 6 0" "ss_speedMs st = 0"
  shows "step_reads z (runner_members step) b st (st\<lparr>ss_params := ss_params step, ss_speedMs := ss_speedMs step\<rparr>)"
proof -
  let ?p = "\<lambda>k. ss_params step ! k"
  have z: "ss_params st ! k = 0" if "k < 6" for k using st(1) that by simp
  define s1 where "s1 = set_param RUNNER_PARAM_WIDTH (?p RUNNER_PARAM_WIDTH) st"
  define s2 where "s2 = set_param RUNNER_PARAM_LINES (?p RUNNER_PARAM_LINES) s1"
  define s3 where "s3 = s2\<lparr>ss_speedMs := ss_speedMs step\<rparr>"
  define s4 where "s4 = set_param RUNNER_PARAM_AMOUNT (?p RUNNER_PARAM_AMOUNT) s3"
  define s5 where "s5 = set_param RUNNER_PARAM_FLAGS (?p RUNNER_PARAM_FLAGS AND RUNNER_FLAG_GEOMETRIC)
    (set_param RUNNER_PARAM_SRC_ARG (?p RUNNER_PARAM_SRC_ARG) (set_param RUNNER_PARAM_SRC_KIND (?p RUNNER_PARAM_SRC_KIND) s4))"
  note defs = s1_def s2_def s3_def s4_def s5_def set_param_def runner_params
  have p5: "RUNNER_PARAM_COUNT = RUNNER_PARAM_LINES" "RUNNER_PARAM_WAVES = RUNNER_PARAM_LINES" by (simp_all add: runner_params)
  have r1: "step_reads z (opt (?p RUNNER_PARAM_WIDTH \<noteq> 0 \<and> ss_animType step = RUN_WHEEL) (''thickness'', uint_text (?p RUNNER_PARAM_WIDTH))
      @ opt (?p RUNNER_PARAM_WIDTH \<noteq> 0 \<and> ss_animType step \<noteq> RUN_WHEEL) (''width'', uint_text (?p RUNNER_PARAM_WIDTH))) b st s1"
    unfolding s1_def by (rule width_reads) (simp add: z runner_params)
  have r2: "step_reads z (opt (?p RUNNER_PARAM_LINES \<noteq> 0 \<and> ss_animType step = RUN_WHEEL) (''lines'', uint_text (?p RUNNER_PARAM_LINES))
      @ opt (?p RUNNER_PARAM_LINES \<noteq> 0 \<and> isSweepRunner (ss_animType step)) (''count'', uint_text (?p RUNNER_PARAM_LINES))
      @ opt (?p RUNNER_PARAM_LINES \<noteq> 0 \<and> isDropRunner (ss_animType step)) (''waves'', uint_text (?p RUNNER_PARAM_LINES))) b s1 s2"
    unfolding s2_def using w by (intro last_reads [OF t]) (auto simp: s1_def set_param_def z runner_params runner_written_def Let_def)
  have r3: "step_reads z (opt (ss_speedMs step \<noteq> 0) (''speed'', uint_text (ss_speedMs step))) b s2 s3"
    unfolding s3_def using st(2) by (intro field_reads_opt [OF uint_fields(2)]) (cases st, simp add: s2_def s1_def set_param_def)
  have r4: "step_reads z (opt (?p RUNNER_PARAM_AMOUNT \<noteq> 0) (''amount'', uint_text (?p RUNNER_PARAM_AMOUNT))) b s3 s4"
    unfolding s4_def by (rule param_reads_opt [OF uint_fields(7) _ refl]) (simp add: s1_def s2_def s3_def set_param_def runner_params z)
  note r5 = direction_reads [OF w, of s4 _ _ _ z b, OF _ _ refl refl refl, folded s5_def]
  have r6: "step_reads z (opt (?p RUNNER_PARAM_FLAGS AND RUNNER_FLAG_REVERSE \<noteq> 0) (''reverse'', ''true'')) b s5
      (set_param RUNNER_PARAM_FLAGS (?p RUNNER_PARAM_FLAGS) s5)"
    using w st(1) by (intro reverse_reads) (auto simp: runner_written_def Let_def defs)
  have "set_param RUNNER_PARAM_FLAGS (?p RUNNER_PARAM_FLAGS) s5 = st\<lparr>ss_params := ss_params step, ss_speedMs := ss_speedMs step\<rparr>"
  proof -
    obtain a0 a1 a2 a3 a4 a5 where ps: "ss_params step = [a0, a1, a2, a3, a4, a5]"
      using len by (auto simp: numeral_eq_Suc length_Suc_conv)
    show ?thesis using st(1) by (simp add: defs ps eval_nat_numeral)
  qed
  moreover have "length (ss_params s4) = 6"
    "\<forall>j \<in> {RUNNER_PARAM_SRC_KIND, RUNNER_PARAM_SRC_ARG, RUNNER_PARAM_FLAGS}. ss_params s4 ! j = 0"
    using st(1) by (simp_all add: defs)
  ultimately show ?thesis
    using step_reads_trans [OF r1 step_reads_trans [OF r2 step_reads_trans [OF r3 step_reads_trans [OF r4 step_reads_trans [OF r5 r6]]]]]
    unfolding runner_members_def Let_def p5 by simp
qed

lemma written_params:
  assumes "params_written step" and "ss_params st = replicate 6 0"
  shows "step_reads z (params_members step) b st (st\<lparr>ss_params := ss_params step\<rparr>)"
proof -
  obtain ps where ps: "length ps \<le> 5" "list_all (\<lambda>v. v \<noteq> 0) (drop 2 ps)" "ss_params step = ps @ replicate (6 - length ps) 0"
    "ps = [] \<or> 2 \<le> length ps \<and> take 2 ps \<noteq> [0, 0]"
    using assms(1) by (auto simp: params_written_def)
  show ?thesis
  proof (cases "ps = []")
    case True
    then have "st\<lparr>ss_params := ss_params step\<rparr> = st" using ps(3) assms(2) by (cases st) simp
    moreover have "params_members step = []"
      using True ps(3) by (simp add: params_members_def opt_def STEP_PARAM_PREPARE_1_def STEP_PARAM_PREPARE_2_def)
    ultimately show ?thesis by (simp only: reads_none)
  next
    case False
    then obtain u v qs where l: "ps = u # v # qs" "u \<noteq> 0 \<or> v \<noteq> 0"
      using ps(4) by (cases ps; cases "tl ps") auto
    have "params_list step = ps"
      using ps(2,3) by (simp add: params_list_def l filter_id_conv list_all_iff)
    then have m: "params_members step = [(''params'', array_text (map uint_text ps))]"
      using l ps(3) by (simp add: params_members_def opt_def STEP_PARAM_PREPARE_1_def STEP_PARAM_PREPARE_2_def)
    have "st\<lparr>ss_params := replicate 6 0\<rparr> = st" using assms(2) by (cases st) simp
    then show ?thesis using params_reads [OF ps(1), of z st b "[]"] m ps(3) by simp
  qed
qed

lemma shown_reads:
  assumes ok: "step_ok step" and w: "shown_written step" and g: "ss_animType step \<noteq> ANIM_GAP"
  shows "reads 20 (step_key z) (shown_members step) ((step_zero, False), []) ((step, True), [])"
proof -
  let ?r = "isRunnerType (ss_animType step)"
  have len: "length (ss_params step) = 6" and k: "known_type (ss_animType step)" using ok by (auto simp: step_ok_def)
  note w' = w [unfolded shown_written_def]
  define s1 where "s1 = step_zero\<lparr>ss_animType := ss_animType step\<rparr>"
  define s2 where "s2 = s1\<lparr>ss_colorFrom := ss_colorFrom step\<rparr>"
  define s3 where "s3 = s2\<lparr>ss_colorTo := ss_colorTo step\<rparr>"
  define s4 where "s4 = s3\<lparr>ss_durationMs := ss_durationMs step\<rparr>"
  define s5 where "s5 = s4\<lparr>ss_flags := ss_flags step\<rparr>"
  define s6 where "s6 = s5\<lparr>ss_animates := ss_animates step, ss_valueFrom := ss_valueFrom step, ss_valueTo := ss_valueTo step\<rparr>"
  note defs = s1_def s2_def s3_def s4_def s5_def s6_def step_zero_def
  have r1: "reads 20 (step_key z) [(if ?r then ''runner'' else ''type'', json_quoted (type_name step))] ((step_zero, False), []) ((s1, True), [])"
    unfolding s1_def by (rule type_reads [OF k g])
  have r2: "step_reads z (opt (ss_colorFrom step \<noteq> ColorRef_rgb 0 0 0) (''colorFrom'', color_text (ss_colorFrom step))) True s1 s2"
    unfolding s2_def using w' by (intro field_reads_opt [OF color_fields(1)]) (simp_all add: s1_def step_zero_def)
  have r3: "step_reads z [(''color'', color_text (ss_colorTo step))] True s2 s3"
    unfolding s3_def using w' by (intro field_reads_member [OF color_fields(2)]) simp
  have r4: "step_reads z (opt (0 < ss_durationMs step \<or> \<not> ?r) (''duration'', uint_text (ss_durationMs step))) True s3 s4"
    unfolding s4_def by (intro field_reads_opt [OF uint_fields(1)]) (simp_all add: s1_def s2_def s3_def step_zero_def word_gt_0)
  have r5: "step_reads z (opt (ss_flags step AND FLAG_LOOP \<noteq> 0) (''loop'', ''true'') @ opt (ss_flags step AND FLAG_PINGPONG \<noteq> 0) (''pingpong'', ''true'')) True s4 s5"
    unfolding s5_def using w' by (intro flag_reads) (simp_all add: s1_def s2_def s3_def s4_def step_zero_def)
  have r6: "step_reads z (value_members step) True s5 s6"
    unfolding s6_def using w' by (intro value_reads) (simp_all add: s1_def s2_def s3_def s4_def s5_def step_zero_def)
  have r7: "step_reads z (if ?r then runner_members step else params_members step) True s6 step"
  proof (cases ?r)
    case True
    have "step_reads z (runner_members step) True s6 (s6\<lparr>ss_params := ss_params step, ss_speedMs := ss_speedMs step\<rparr>)"
      using w' True by (intro runner_reads [OF _ k True len]) (simp_all add: defs)
    moreover have "s6\<lparr>ss_params := ss_params step, ss_speedMs := ss_speedMs step\<rparr> = step" by (cases step) (simp add: defs)
    ultimately show ?thesis using True by simp
  next
    case False
    have "step_reads z (params_members step) True s6 (s6\<lparr>ss_params := ss_params step\<rparr>)"
      using w' False by (intro written_params) (simp_all add: defs)
    moreover have "s6\<lparr>ss_params := ss_params step\<rparr> = step" using w' False by (cases step) (simp add: defs)
    ultimately show ?thesis using False by simp
  qed
  show ?thesis
    using reads_append [OF r1 reads_append [OF r2 reads_append [OF r3 reads_append [OF r4 reads_append [OF r5 reads_append [OF r6 r7]]]]]]
    by (simp add: shown_members_def Let_def)
qed

lemma step_read:
  assumes "step_written step"
  shows "parseStep z (comma_sep (map member_text (step_members step)) @ CHR ''}'' # rest) = ok (step, []) rest"
proof (cases "ss_animType step = ANIM_GAP")
  case True
  define st where "st = step_zero\<lparr>ss_durationMs := ss_durationMs step\<rparr>"
  have "step_reads z (step_members step) False step_zero st"
    unfolding st_def using True
    by (simp add: step_members_def) (rule field_reads_opt [OF uint_fields(1)], simp add: step_zero_def word_gt_0)
  note r = reads_fields [OF this, of rest]
  have "step = step_zero\<lparr>ss_animType := ANIM_GAP, ss_durationMs := ss_durationMs step\<rparr>"
    using assms True by (simp add: step_written_def)
  then have "finish_step (st\<lparr>ss_animType := ANIM_GAP\<rparr>) = step"
    by (cases step) (simp add: finish_step_def st_def step_zero_def Let_def ANIM_GAP_def ANIM_SOLID_def TARGET_INVERT_def)
  then show ?thesis by (simp add: parseStep_def r Let_def ANIM_GAP_def ANIM_HUE_CYCLE_def)
next
  case False
  then have w: "step_ok step" "shown_written step" using assms by (auto simp: step_written_def)
  have r: "json_fields 20 (step_key z) ((step_zero, False), []) (comma_sep (map member_text (step_members step)) @ CHR ''}'' # rest)
      = ok ((step, True), []) rest"
    using reads_fields [OF shown_reads [OF w False]] False by (simp add: step_members_def)
  have "finish_step step = step" using w unfolding finish_step_def Let_def
    by (cases step) (auto simp: shown_written_def step_ok_def)
  moreover have "\<not> (ss_animType step = ANIM_HUE_CYCLE \<and> ss_animates step \<noteq> TARGET_COLOR)" using w(1) by (auto simp: step_ok_def)
  ultimately show ?thesis by (simp add: parseStep_def r Let_def)
qed

end
