(* ===== verification/Layer_Written.thy ===== *)
theory Layer_Written
  imports
    Step_Written
begin

text \<open>
  A written layer is read back. The writer knows three forms of a selector (all panels, an index list, the complement of
  one) and a reference to the whole sequence of a named layer; \<open>layer_written\<close> describes the layers of that form.
\<close>

section \<open>Selectors\<close>

definition selector_of :: "u8 list \<Rightarrow> PanelSelector" where
  "selector_of code = \<lparr>sel_ops = code @ replicate (SEL_CAP - length code) 0, sel_len = length code\<rparr>"

definition list_code :: "u8 list \<Rightarrow> bool \<Rightarrow> u8 list" where
  "list_code ps complement = SEL_INDICES # of_nat (length ps) # ps @ (if complement then [SEL_NOT] else [])"

definition target_written :: "PanelSelector \<Rightarrow> bool" where
  "target_written sel \<longleftrightarrow>
     sel = selector_of [SEL_ALL] \<or> (\<exists>ps complement. index_list_ok ps \<and> sel = selector_of (list_code ps complement))"

definition target_indices :: "PanelSelector \<Rightarrow> u8 list" where
  "target_indices sel = take (unat (sel_ops sel ! 1)) (drop 2 (sel_ops sel))"

definition target_text :: "PanelSelector \<Rightarrow> string" where
  "target_text sel =
     (if sel_len sel = 1 then json_quoted ''all''
      else if 2 + length (target_indices sel) < sel_len sel
      then object_text [(''exclude'', index_text (target_indices sel))]
      else index_text (target_indices sel))"

lemma short_list: "index_list_ok ps \<Longrightarrow> length ps \<le> 32 \<and> unat (of_nat (length ps) :: u8) = length ps"
  by (simp add: index_list_ok_def SEL_MAX_INDEX_LIST_def unat_of_nat)

lemma list_parts:
  assumes "index_list_ok ps"
  shows "target_indices (selector_of (list_code ps c)) = ps" "sel_len (selector_of (list_code ps c)) = 2 + length ps + (if c then 1 else 0)"
    "ps \<noteq> []"
  using assms short_list [OF assms] by (auto simp: target_indices_def selector_of_def list_code_def index_list_ok_def)

lemma comma_sep_snoc: "comma_sep (ts @ [t]) = comma_sep ts @ (if ts = [] then [] else '','') @ t"
  by (cases ts) (simp_all add: comma_sep_Cons)

lemma indices_buf:
  assumes "\<forall>i < n. sel_ops sel ! (2 + i) = ps ! i" and "n \<le> length ps"
  shows "writeIndices cap sel n (buf cap s) = buf cap (s @ comma_sep (map uint_text (take n ps)))"
proof -
  show ?thesis using assms
  proof (induction n)
    case (Suc n)
    then have IH: "writeIndices cap sel n (buf cap s) = buf cap (s @ comma_sep (map uint_text (take n ps)))" by simp
    have now: "writeIndices cap sel (Suc n) b =
        scene_append cap ((if n = 0 then [] else '','') @ uint_text (sel_ops sel ! (2 + n))) (writeIndices cap sel n b)" for b
      by (simp add: writeIndices_def)
    have t: "take (Suc n) ps = take n ps @ [ps ! n]" "take n ps = [] \<longleftrightarrow> n = 0" "sel_ops sel ! (2 + n) = ps ! n"
      using Suc.prems by (auto simp: take_Suc_conv_app_nth)
    show ?case unfolding now IH t(1,3) by (simp only: append_buf map_append list.map comma_sep_snoc map_is_Nil_conv t(2) append_assoc)
  qed (simp add: writeIndices_def)
qed

lemma uint_text_fun: "uint_text = (\<lambda>v. udec (unat v))"
  by (rule ext) (simp add: uint_text_def)

lemma index_text_eq: "index_text ps = array_text (map uint_text ps)"
  by (simp add: index_text_def array_text_def uint_text_fun)

lemma target_buf:
  assumes "target_written sel"
  shows "writePanelSelector cap sel (buf cap s) = buf cap (s @ target_text sel)"
proof (cases "sel = selector_of [SEL_ALL]")
  case True
  then show ?thesis by (simp add: writePanelSelector_def target_text_def selector_of_def buf_simps key_text)
next
  case False
  then obtain ps c where ps: "index_list_ok ps" and sel: "sel = selector_of (list_code ps c)" using assms by (auto simp: target_written_def)
  note parts = list_parts(1,2) [OF ps, of c, folded sel] list_parts(3) [OF ps]
  have n: "unat (sel_ops sel ! 1) = length ps" using short_list [OF ps] by (simp add: sel selector_of_def list_code_def)
  have nth: "\<forall>i < length ps. sel_ops sel ! (2 + i) = ps ! i" by (simp add: sel selector_of_def list_code_def nth_append)
  have last: "c \<Longrightarrow> sel_ops sel ! (2 + length ps) = SEL_NOT" by (simp add: sel selector_of_def list_code_def nth_append)
  have op: "sel_ops sel ! 0 = SEL_INDICES" by (simp add: sel selector_of_def list_code_def)
  have two: "0 < length ps" using parts(3) by simp
  note w = indices_buf [OF nth order_refl, simplified]
  show ?thesis
    using two last op n by (simp add: writePanelSelector_def Let_def parts buf_simps w target_text_def index_text_eq array_text_def object_text_def key_text)
qed

text \<open>Emitting, byte by byte, into a cleared program.\<close>

lemma emits_exact:
  "length pre + length bs \<le> SEL_CAP \<Longrightarrow> length (pre @ suf) = SEL_CAP \<Longrightarrow>
     sel_emits bs \<lparr>sel_ops = pre @ suf, sel_len = length pre\<rparr>
       = Some \<lparr>sel_ops = pre @ bs @ drop (length bs) suf, sel_len = length pre + length bs\<rparr>"
proof (induction bs arbitrary: pre suf)
  case (Cons b bs)
  then obtain c suf' where suf: "suf = c # suf'" by (cases suf) auto
  have "sel_emits bs \<lparr>sel_ops = (pre @ [b]) @ suf', sel_len = length (pre @ [b])\<rparr>
      = Some \<lparr>sel_ops = (pre @ [b]) @ bs @ drop (length bs) suf', sel_len = length (pre @ [b]) + length bs\<rparr>"
    using Cons.prems suf by (intro Cons.IH) auto
  then show ?case using Cons.prems suf by (simp add: sel_emit_def)
qed simp

lemma emit_selector:
  assumes "sel_ops out = SEL_ALL # replicate (SEL_CAP - 1) 0" and "1 \<le> length code" "length code \<le> SEL_CAP"
  shows "emit_or msg code (sel_clear out) = Inr (selector_of code)"
proof -
  have "sel_clear out = \<lparr>sel_ops = [] @ SEL_ALL # replicate (SEL_CAP - 1) 0, sel_len = length ([] :: u8 list)\<rparr>"
    using assms(1) by (cases out) (simp add: sel_clear_def)
  moreover have "drop (length code) (SEL_ALL # replicate (SEL_CAP - 1) 0) = replicate (SEL_CAP - length code) 0"
    using assms(2) by (cases "length code") (simp_all add: drop_replicate)
  ultimately show ?thesis
    using emits_exact [of "[]" code "SEL_ALL # replicate (SEL_CAP - 1) 0"] assms(3)
    by (simp add: emit_or_def selector_of_def SEL_CAP_def)
qed

lemma index_array_emits:
  assumes "index_list_ok ps" and "sel_ops out = SEL_ALL # replicate (SEL_CAP - 1) 0"
  shows "selEmitIndexArray (sel_clear out) complement (comma_sep (map uint_text ps) @ CHR '']'' # rest) = ok (selector_of (list_code ps complement)) rest"
proof -
  have "length (list_code ps complement) \<le> SEL_CAP" using short_list [OF assms(1)] by (simp add: list_code_def SEL_CAP_def)
  then have "emit_or too_complex (list_code ps complement) (sel_clear out) = Inr (selector_of (list_code ps complement))"
    by (intro emit_selector [OF assms(2)]) (simp_all add: list_code_def)
  then show ?thesis
    using list_parts(3) [OF assms(1)] by (simp add: selEmitIndexArray_def uint_text_fun index_list_read [OF assms(1)] emit_ok_def list_code_def)
qed

lemma target_read:
  assumes "target_written sel" and out: "sel_ops out = SEL_ALL # replicate (SEL_CAP - 1) 0" and "ends_value r"
  shows "parsePanelSelector z out (target_text sel @ r) = ok sel r"
proof (cases "sel = selector_of [SEL_ALL]")
  case True
  have t: "target_text sel @ r = QUOTE # ''all'' @ QUOTE # r" by (simp add: True target_text_def selector_of_def key_text)
  have "require_string msg 40 (json_quoted ''all'' @ r) = ok ''all'' r" for msg by (rule value_string) simp_all
  then have q: "require_string msg 40 (QUOTE # ''all'' @ QUOTE # r) = ok ''all'' r" for msg by (simp add: key_text)
  have "emit_or too_complex [SEL_ALL] (sel_clear out) = Inr sel" unfolding True by (rule emit_selector [OF out]) (simp_all add: SEL_CAP_def)
  then have "selEmitToken ''all'' (sel_clear out) = Inr sel" by (simp add: selEmitToken_def selector_word_def)
  then show ?thesis using q unfolding parsePanelSelector_def t by (simp add: emit_ok_def)
next
  case False
  then obtain ps c where ps: "index_list_ok ps" and sel: "sel = selector_of (list_code ps c)" using assms(1) by (auto simp: target_written_def)
  note parts = list_parts(1,2) [OF ps, of c, folded sel] list_parts(3) [OF ps]
  show ?thesis
  proof (cases c)
    case no: False
    have t: "target_text sel @ r = CHR ''['' # comma_sep (map uint_text ps) @ CHR '']'' # r"
      using no parts by (simp add: target_text_def index_text_eq array_text_def)
    have "selEmitIndexArray (sel_clear out) False (comma_sep (map uint_text ps) @ CHR '']'' # r) = ok sel r"
      using index_array_emits [OF ps out, of False r] no sel by simp
    then show ?thesis unfolding parsePanelSelector_def t
      by (simp add: no_ws json_ws_def require_open_def enter_written)
  next
    case True
    let ?ms = "[(''exclude'', index_text ps)]"
    have t: "target_text sel @ r = CHR ''{'' # comma_sep (map member_text ?ms) @ CHR ''}'' # r"
      using True parts by (simp add: target_text_def object_text_def)
    have k: "composition_key z self ''exclude'' (sel_clear out, False) (index_text ps @ q) = ok (sel, True) q" for self q
      using index_array_emits [OF ps out, of True q] True sel
      by (simp add: composition_key_def require_open_def index_text_eq enter_array)
    have "reads 12 (composition_key z self) ?ms (sel_clear out, False) (sel, True)" for self
      using k by (intro reads_one) (simp_all add: starts_member_def index_text_eq)
    note f = reads_fields [OF this, of _ r]
    show ?thesis unfolding parsePanelSelector_def t
      by (simp add: no_ws json_ws_def require_open_def enter_written f del: list.map comma_sep.simps)
  qed
qed

section \<open>The members of a layer\<close>

definition group_text :: "SceneLayer \<Rightarrow> string" where
  "group_text l = (if ly_groupName l \<noteq> [] then json_quoted (ly_groupName l) else uint_text (ly_groupId l))"

definition start_name :: "SceneLayer list \<Rightarrow> SceneLayer \<Rightarrow> string" where
  "start_name layers l =
     (if ly_startAfterGroupId l = 0 then []
      else (case find_group layers (ly_startAfterGroupId l) of Some k \<Rightarrow> ly_groupName (layers ! k) | None \<Rightarrow> []))"

definition blend_name :: "SceneLayer \<Rightarrow> string" where
  "blend_name l = (case blendWireName (ly_blend l) of Some nm \<Rightarrow> nm | None \<Rightarrow> [])"

definition layer_members :: "SceneLayer list \<Rightarrow> SceneLayer \<Rightarrow> (string \<times> string) list" where
  "layer_members layers l =
     [(''group'', group_text l), (''panels'', target_text (ly_target l))]
     @ opt (ly_palette l \<noteq> []) (''palette'', json_quoted (ly_palette l))
     @ opt (ly_blend l \<noteq> COMPOSE_DEFAULT) (''blend'', json_quoted (blend_name l))
     @ opt (ly_disabled l) (''disabled'', ''true'')
     @ opt (ly_async l \<noteq> 0) (''async'', if ly_async l AND LAYER_ASYNC_NON_BLOCKING \<noteq> 0 then json_quoted ''free'' else ''true'')
     @ opt (ly_startAfterGroupId l \<noteq> 0) (''startAfter'', json_quoted (start_name layers l))
     @ [(''sequence'', array_text (map (\<lambda>step. object_text (step_members step)) (steps_of l)))]"

definition short_name :: "string \<Rightarrow> bool" where
  "short_name s \<longleftrightarrow> NUL \<notin> set s \<and> length s < GROUP_NAME_LEN"

text \<open>
  A reference can be written when the layer it names has a name, one in which no colon starts the name of a step, and when
  it is to the end of the layer.
\<close>

definition start_written :: "SceneLayer list \<Rightarrow> SceneLayer \<Rightarrow> bool" where
  "start_written layers l \<longleftrightarrow>
     ly_startAfterStepIndex l = SCENE_NO_STEP_INDEX
     \<and> (ly_startAfterGroupId l \<noteq> 0 \<longrightarrow>
          ly_async l = 0 \<and> ly_startAfterGroupId l \<noteq> ly_groupId l
          \<and> start_name layers l \<noteq> [] \<and> short_name (start_name layers l) \<and> CHR '':'' \<notin> set (start_name layers l))"

definition layer_written :: "SceneLayer list \<Rightarrow> SceneLayer \<Rightarrow> bool" where
  "layer_written layers l \<longleftrightarrow>
     short_name (ly_groupName l) \<and> ly_groupId l \<noteq> 0 \<and> ly_groupId l \<noteq> 255
     \<and> target_written (ly_target l) \<and> short_name (ly_palette l) \<and> ly_blend l \<le> COMPOSE_SUBTRACT
     \<and> ly_async l \<in> {0, LAYER_ASYNC_LOOP, LAYER_ASYNC_LOOP OR LAYER_ASYNC_NON_BLOCKING}
     \<and> 0 < ly_stepCount l \<and> ly_stepCount l \<le> SCENE_MAX_STEPS
     \<and> length (ly_steps l) = SCENE_MAX_STEPS \<and> list_all (\<lambda>step. step = step_zero) (drop (ly_stepCount l) (ly_steps l))
     \<and> list_all step_written (steps_of l) \<and> start_written layers l"

lemma steps_of_length: "layer_written layers l \<Longrightarrow> length (steps_of l) = ly_stepCount l"
  by (simp add: layer_written_def steps_of_def)

lemma steps_split:
  assumes "layer_written layers l"
  shows "ly_steps l = steps_of l @ replicate (SCENE_MAX_STEPS - ly_stepCount l) step_zero"
proof -
  have "drop (ly_stepCount l) (ly_steps l) = replicate (SCENE_MAX_STEPS - ly_stepCount l) step_zero"
    using assms by (intro replicate_eqI) (auto simp: layer_written_def list_all_iff)
  then show ?thesis by (metis steps_of_def append_take_drop_id)
qed

section \<open>The text of a layer\<close>

lemma fold_commas:
  assumes "\<And>i s. i < n \<Longrightarrow> w i (buf cap s) = buf cap (s @ t i)"
  shows "fold (\<lambda>i b. w i (append_when cap (i \<noteq> 0) '','' b)) [0..<n] (buf cap s) = buf cap (s @ comma_sep (map t [0..<n]))"
  using assms
proof (induction n)
  case (Suc n)
  have "fold (\<lambda>i b. w i (append_when cap (i \<noteq> 0) '','' b)) [0..<n] (buf cap s) = buf cap (s @ comma_sep (map t [0..<n]))"
    using Suc by simp
  then show ?case using Suc.prems [of n] by (simp add: when_buf opt_def comma_sep_snoc)
qed simp

lemma byte_cases: "v \<le> of_nat n \<Longrightarrow> n \<le> 255 \<Longrightarrow> \<exists>k \<le> n. v = of_nat k" for v :: u8
  by (intro exI [of _ "unat v"]) (simp add: byte_le)

lemma blend_named:
  assumes "ly_blend l \<le> COMPOSE_SUBTRACT" and "ly_blend l \<noteq> COMPOSE_DEFAULT"
  shows "blendWireName (ly_blend l) = Some (blend_name l)" "list_all plain_char (blend_name l)" "length (blend_name l) < 12"
    "blend_mode (blend_name l) = Some (ly_blend l)"
proof -
  obtain k where k: "k \<le> 9" "ly_blend l = of_nat k"
    using byte_cases [of "ly_blend l" 9] assms(1) by (auto simp: COMPOSE_SUBTRACT_def)
  note names = blendWireName_def blend_name_def COMPOSE_DEFAULT_def COMPOSE_OPAQUE_def COMPOSE_ADD_def COMPOSE_MAX_def
    COMPOSE_MULTIPLY_def COMPOSE_SCREEN_def COMPOSE_DARKEN_def COMPOSE_OVERLAY_def COMPOSE_DIFFERENCE_def COMPOSE_SUBTRACT_def
  have "k \<in> {0, 1, 2, 3, 4, 5, 6, 7, 8, 9}" using k(1) by auto
  then have "blendWireName (ly_blend l) = Some (blend_name l) \<and> list_all plain_char (blend_name l) \<and> length (blend_name l) < 12
      \<and> blend_mode (blend_name l) = Some (ly_blend l)"
    using k(2) assms(2) by (elim insertE emptyE) (simp_all add: names blend_mode_def plain_char_def)
  then show "blendWireName (ly_blend l) = Some (blend_name l)" "list_all plain_char (blend_name l)" "length (blend_name l) < 12"
    "blend_mode (blend_name l) = Some (ly_blend l)" by simp_all
qed

lemma blend_buf:
  "ly_blend l \<le> COMPOSE_SUBTRACT \<Longrightarrow>
    writeBlend cap (ly_blend l) (buf cap s) = buf cap (s @ commas (opt (ly_blend l \<noteq> COMPOSE_DEFAULT) (''blend'', json_quoted (blend_name l))))"
  using blend_named [of l] by (simp add: writeBlend_def buf_simps key_text opt_def)

lemma async_buf:
  "ly_async l \<in> {0, LAYER_ASYNC_LOOP, LAYER_ASYNC_LOOP OR LAYER_ASYNC_NON_BLOCKING} \<Longrightarrow>
    writeAsync cap (ly_async l) (buf cap s) = buf cap (s @ commas (opt (ly_async l \<noteq> 0)
      (''async'', if ly_async l AND LAYER_ASYNC_NON_BLOCKING \<noteq> 0 then json_quoted ''free'' else ''true'')))"
  by (elim insertE emptyE) (simp_all add: writeAsync_def buf_simps key_text opt_def LAYER_ASYNC_LOOP_def LAYER_ASYNC_NON_BLOCKING_def)

lemma start_buf:
  "start_written (sr_layers record) l \<Longrightarrow>
    writeStartAfter cap l record (buf cap s) = buf cap (s @ commas (opt (ly_startAfterGroupId l \<noteq> 0) (''startAfter'', json_quoted (start_name (sr_layers record) l))))"
  by (auto simp: writeStartAfter_def start_written_def start_name_def groupWireName_def buf_simps key_text opt_def split: option.splits)

lemma group_buf: "writeGroup cap l (buf cap s) = buf cap (s @ member_text (''group'', group_text l))"
  by (simp add: writeGroup_def groupWireName_def group_text_def buf_simps key_text)

lemma steps_buf:
  assumes "layer_written layers l"
  shows "fold (\<lambda>s b. writeStep cap (ly_steps l ! s) (append_when cap (0 < s) '','' b)) [0..<ly_stepCount l] (buf cap s) =
    buf cap (s @ comma_sep (map (\<lambda>step. object_text (step_members step)) (steps_of l)))"
proof -
  have len: "length (steps_of l) = ly_stepCount l" by (rule steps_of_length [OF assms])
  have nth: "ly_steps l ! i = steps_of l ! i" if "i < ly_stepCount l" for i using that by (simp add: steps_of_def)
  have "step_written (ly_steps l ! i)" if "i < ly_stepCount l" for i
    using assms that len nth by (simp add: layer_written_def list_all_length)
  then have "fold (\<lambda>s b. writeStep cap (ly_steps l ! s) (append_when cap (s \<noteq> 0) '','' b)) [0..<ly_stepCount l] (buf cap s) =
      buf cap (s @ comma_sep (map (\<lambda>i. object_text (step_members (ly_steps l ! i))) [0..<ly_stepCount l]))"
    by (intro fold_commas step_buf)
  moreover have "map (\<lambda>i. object_text (step_members (ly_steps l ! i))) [0..<ly_stepCount l] = map (\<lambda>step. object_text (step_members step)) (steps_of l)"
    using len nth by (intro nth_equalityI) simp_all
  ultimately show ?thesis by (simp add: neq0_conv)
qed

lemma layer_buf:
  assumes "layer_written (sr_layers record) l"
  shows "writeLayer cap l record (buf cap s) = buf cap (s @ object_text (layer_members (sr_layers record) l))"
proof -
  note w = assms [unfolded layer_written_def]
  show ?thesis
    unfolding writeLayer_def
    using w by (simp add: buf_simps group_buf target_buf blend_buf async_buf start_buf steps_buf [OF assms] object_text_def layer_members_def
        comma_sep_Cons key_text array_text_def)
qed

section \<open>Reading a layer\<close>

text \<open>What the group of a layer does to the table of names.\<close>

definition names_after :: "SceneLayer \<Rightarrow> NameTable \<Rightarrow> NameTable" where
  "names_after l names = (if ly_groupName l = [] then names else snd (nt_intern (ly_groupName l) names))"

definition names_give :: "SceneLayer \<Rightarrow> NameTable \<Rightarrow> bool" where
  "names_give l names \<longleftrightarrow> (ly_groupName l \<noteq> [] \<longrightarrow> fst (nt_intern (ly_groupName l) names) = ly_groupId l)"

lemma uint_no_ws: "jsonSkipWs (uint_text v @ r) = uint_text v @ r" "\<not> starts_quoted (uint_text v @ r)"
proof -
  obtain c cs where c: "uint_text v = c # cs" by (cases "uint_text v") simp_all
  then have "is_digit c" using udec_hd [of "unat v"] by (simp add: uint_text_def)
  then show "jsonSkipWs (uint_text v @ r) = uint_text v @ r" "\<not> starts_quoted (uint_text v @ r)"
    using digit_not_ws [of c] by (auto simp: c no_ws starts_quoted_def is_digit_def)
qed

lemma quoted_no_ws: "jsonSkipWs (json_quoted t @ r) = json_quoted t @ r" "starts_quoted (json_quoted t @ r)"
  by (simp_all add: json_quoted_def starts_quoted_def no_ws json_ws_def)

lemma group_read:
  assumes "short_name (ly_groupName l)" "ly_groupId l \<noteq> 0" "ly_groupId l \<noteq> 255" "names_give l (ld_names d)" "ly_groupName (ld_layer d) = []"
  shows "reads 16 (layer_key z) [(''group'', group_text l)] d
    (ld_set (\<lambda>x. x\<lparr>ly_groupId := ly_groupId l, ly_groupName := ly_groupName l\<rparr>) (d\<lparr>ld_names := names_after l (ld_names d)\<rparr>))"
proof (rule reads_one)
  show "starts_member 16 (''group'', group_text l)" by (simp add: starts_member_def group_text_def)
  fix r :: string assume r: "ends_value r"
  have g: "1 \<le> unat (ly_groupId l)" "unat (ly_groupId l) \<le> 254"
    using assms(2,3) unat_u8_less [of "ly_groupId l"] word_unat_eq_iff [of "ly_groupId l" 255] by (simp_all add: Suc_le_eq unat_gt_0)
  show "layer_key z ''group'' d (group_text l @ r) =
      ok (ld_set (\<lambda>x. x\<lparr>ly_groupId := ly_groupId l, ly_groupName := ly_groupName l\<rparr>) (d\<lparr>ld_names := names_after l (ld_names d)\<rparr>)) r"
  proof (cases "ly_groupName l = []")
    case True
    then show ?thesis
      using r g assms(5) by (cases d) (simp add: layer_key_def group_field_def group_text_def uint_no_ws value_uint names_after_def ld_set_def)
  next
    case False
    obtain names where n: "nt_intern (ly_groupName l) (ld_names d) = (ly_groupId l, names)"
      using assms(4) False by (cases "nt_intern (ly_groupName l) (ld_names d)") (simp add: names_give_def)
    show ?thesis
      using False n assms(1,2)
      by (simp add: layer_key_def group_field_def group_text_def quoted_no_ws value_string short_name_def names_after_def)
  qed
qed

lemma panels_read:
  assumes "target_written sel" and "sel_ops (ly_target (ld_layer d)) = SEL_ALL # replicate (SEL_CAP - 1) 0"
  shows "reads 16 (layer_key z) [(''panels'', target_text sel)] d (ld_set (\<lambda>l. l\<lparr>ly_target := sel\<rparr>) d)"
proof (rule reads_one)
  show "starts_member 16 (''panels'', target_text sel)" by (simp add: starts_member_def target_text_def index_text_eq)
qed (simp add: layer_key_def target_read [OF assms])

lemma palette_read:
  assumes "short_name s" and "ly_palette (ld_layer d) = []"
  shows "reads 16 (layer_key z) (opt (s \<noteq> []) (''palette'', json_quoted s)) d (ld_set (\<lambda>l. l\<lparr>ly_palette := s\<rparr>) d)"
proof (rule reads_opt [OF reads_one])
  show "starts_member 16 (''palette'', json_quoted s)" by (simp add: starts_member_def)
  show "\<not> s \<noteq> [] \<Longrightarrow> ld_set (\<lambda>l. l\<lparr>ly_palette := s\<rparr>) d = d" using assms(2) by (cases d; cases "ld_layer d") (simp add: ld_set_def)
qed (use assms in \<open>simp add: layer_key_def value_string short_name_def GROUP_NAME_LEN_def\<close>)

lemma blend_read:
  assumes "ly_blend l \<le> COMPOSE_SUBTRACT" and "ly_blend (ld_layer d) = COMPOSE_DEFAULT"
  shows "reads 16 (layer_key z) (opt (ly_blend l \<noteq> COMPOSE_DEFAULT) (''blend'', json_quoted (blend_name l))) d
    (ld_set (\<lambda>x. x\<lparr>ly_blend := ly_blend l\<rparr>) d)"
proof (rule reads_opt [OF reads_one])
  show "starts_member 16 (''blend'', json_quoted (blend_name l))" by (simp add: starts_member_def)
  show "\<not> ly_blend l \<noteq> COMPOSE_DEFAULT \<Longrightarrow> ld_set (\<lambda>x. x\<lparr>ly_blend := ly_blend l\<rparr>) d = d"
    using assms(2) by (cases d; cases "ld_layer d") (simp add: ld_set_def)
  fix r assume "ly_blend l \<noteq> COMPOSE_DEFAULT" "ends_value r"
  then show "layer_key z ''blend'' d (json_quoted (blend_name l) @ r) = ok (ld_set (\<lambda>x. x\<lparr>ly_blend := ly_blend l\<rparr>) d) r"
    using blend_named [OF assms(1)] by (simp add: layer_key_def value_string plain_no_nul)
qed

lemma disabled_read:
  assumes "\<not> ly_disabled (ld_layer d)"
  shows "reads 16 (layer_key z) (opt b (''disabled'', ''true'')) d (ld_set (\<lambda>l. l\<lparr>ly_disabled := b\<rparr>) d)"
proof (rule reads_opt [OF reads_one])
  show "starts_member 16 (''disabled'', ''true'')" by (simp add: starts_member_def json_ws_def)
  show "\<not> b \<Longrightarrow> ld_set (\<lambda>l. l\<lparr>ly_disabled := b\<rparr>) d = d" using assms by (cases d; cases "ld_layer d") (simp add: ld_set_def)
qed (simp add: layer_key_def bool_in_def value_bool [simplified] require_def)

lemma async_read:
  assumes "a \<in> {0, LAYER_ASYNC_LOOP, LAYER_ASYNC_LOOP OR LAYER_ASYNC_NON_BLOCKING}" and "ly_async (ld_layer d) = 0"
  shows "reads 16 (layer_key z) (opt (a \<noteq> 0) (''async'', if a AND LAYER_ASYNC_NON_BLOCKING \<noteq> 0 then json_quoted ''free'' else ''true'')) d
    (ld_set (\<lambda>l. l\<lparr>ly_async := a\<rparr>) d)"
proof (rule reads_opt [OF reads_one])
  let ?v = "if a AND LAYER_ASYNC_NON_BLOCKING \<noteq> 0 then json_quoted ''free'' else ''true''"
  show "starts_member 16 (''async'', ?v)" by (auto simp: starts_member_def json_ws_def json_quoted_def)
  show "\<not> a \<noteq> 0 \<Longrightarrow> ld_set (\<lambda>l. l\<lparr>ly_async := a\<rparr>) d = d" using assms(2) by (cases d; cases "ld_layer d") (simp add: ld_set_def)
  fix r assume "a \<noteq> 0" "ends_value r"
  then consider "a = LAYER_ASYNC_LOOP" | "a = LAYER_ASYNC_LOOP OR LAYER_ASYNC_NON_BLOCKING" using assms(1) by auto
  then show "layer_key z ''async'' d (?v @ r) = ok (ld_set (\<lambda>l. l\<lparr>ly_async := a\<rparr>) d) r"
  proof cases
    case 1
    have "jsonSkipWs (''true'' @ r) = ''true'' @ r" "\<not> starts_quoted (''true'' @ r)" by (simp_all add: no_ws json_ws_def starts_quoted_def)
    then show ?thesis
      using 1 value_bool(1) [of r] by (simp add: layer_key_def async_field_def bool_in_def require_def LAYER_ASYNC_LOOP_def LAYER_ASYNC_NON_BLOCKING_def)
  next
    case 2
    then show ?thesis
      by (simp add: layer_key_def async_field_def quoted_no_ws value_string LAYER_ASYNC_LOOP_def LAYER_ASYNC_NON_BLOCKING_def)
  qed
qed

lemma start_read:
  assumes "c \<Longrightarrow> s \<noteq> [] \<and> short_name s" and "\<not> c \<Longrightarrow> s = []" and "ld_startAfter d = []"
  shows "reads 16 (layer_key z) (opt c (''startAfter'', json_quoted s)) d (d\<lparr>ld_startAfter := s\<rparr>)"
proof (rule reads_opt [OF reads_one])
  show "starts_member 16 (''startAfter'', json_quoted s)" by (simp add: starts_member_def)
  show "\<not> c \<Longrightarrow> d\<lparr>ld_startAfter := s\<rparr> = d" using assms(2,3) by (cases d) simp
qed (use assms(1) in \<open>simp add: layer_key_def value_string short_name_def START_AFTER_LEN_def GROUP_NAME_LEN_def\<close>)

lemma sequence_elements:
  assumes "list_all step_written ss" and "length ds + length ss \<le> SCENE_MAX_STEPS"
    and "ly_steps (ld_layer d) = ds @ replicate (SCENE_MAX_STEPS - length ds) step_zero" "ly_stepCount (ld_layer d) = length ds"
    and "ld_stepIds d = replicate (length ds) []"
  shows "reads_all (sequence_element z) (map (\<lambda>step. object_text (step_members step)) ss) d
    (ld_set (\<lambda>l. l\<lparr>ly_steps := (ds @ ss) @ replicate (SCENE_MAX_STEPS - length (ds @ ss)) step_zero, ly_stepCount := length (ds @ ss)\<rparr>)
      (d\<lparr>ld_stepIds := replicate (length (ds @ ss)) []\<rparr>))"
  using assms
proof (induction ss arbitrary: ds d)
  case Nil
  have "ld_set (\<lambda>l. l\<lparr>ly_steps := ds @ replicate (SCENE_MAX_STEPS - length ds) step_zero, ly_stepCount := length ds\<rparr>)
      (d\<lparr>ld_stepIds := replicate (length ds) []\<rparr>) = d"
    using Nil.prems by (cases d; cases "ld_layer d") (simp add: ld_set_def)
  then show ?case by (simp only: append_Nil2 list.map all_none)
next
  case (Cons step ss)
  define d1 where "d1 = ld_set (\<lambda>l. l\<lparr>ly_steps := (ly_steps l)[length ds := step], ly_stepCount := length ds + 1\<rparr>)
    (d\<lparr>ld_stepIds := ld_stepIds d @ [[]]\<rparr>)"
  have grow: "(ds @ replicate (SCENE_MAX_STEPS - length ds) step_zero)[length ds := step]
      = (ds @ [step]) @ replicate (SCENE_MAX_STEPS - length (ds @ [step])) step_zero"
    using Cons.prems(2) by (cases "SCENE_MAX_STEPS - length ds") (simp_all add: list_update_append)
  have one: "sequence_element z d (object_text (step_members step) @ r) = ok d1 r" for r
    using step_read [of step z r] Cons.prems(1,2,4)
    by (simp add: sequence_element_def require_open_def enter_object d1_def Let_def)
  have "reads_all (sequence_element z) (map (\<lambda>step. object_text (step_members step)) ss) d1
    (ld_set (\<lambda>l. l\<lparr>ly_steps := ((ds @ [step]) @ ss) @ replicate (SCENE_MAX_STEPS - length ((ds @ [step]) @ ss)) step_zero, ly_stepCount := length ((ds @ [step]) @ ss)\<rparr>)
      (d1\<lparr>ld_stepIds := replicate (length ((ds @ [step]) @ ss)) []\<rparr>))"
    using Cons.prems grow by (intro Cons.IH) (simp_all add: d1_def ld_set_def replicate_append_same)
  then show ?case using one by (auto simp: d1_def ld_set_def intro: all_element)
qed

lemma sequence_read:
  assumes "list_all step_written ss" and "length ss \<le> SCENE_MAX_STEPS"
    and "ly_steps (ld_layer d) = replicate SCENE_MAX_STEPS step_zero" "ly_stepCount (ld_layer d) = 0" "ld_stepIds d = []"
  shows "reads 16 (layer_key z) [(''sequence'', array_text (map (\<lambda>step. object_text (step_members step)) ss))] d
    (ld_set (\<lambda>l. l\<lparr>ly_steps := ss @ replicate (SCENE_MAX_STEPS - length ss) step_zero, ly_stepCount := length ss\<rparr>)
      (d\<lparr>ld_stepIds := replicate (length ss) []\<rparr>))"
proof (rule reads_one)
  let ?t = "map (\<lambda>step. object_text (step_members step)) ss"
  show "starts_member 16 (''sequence'', array_text ?t)" by (simp add: starts_member_def)
  note e = reads_elements [OF sequence_elements [of ss "[]" d z]]
  show "layer_key z ''sequence'' d (array_text ?t @ r) = ok (ld_set (\<lambda>l. l\<lparr>ly_steps := ss @ replicate (SCENE_MAX_STEPS - length ss) step_zero, ly_stepCount := length ss\<rparr>)
      (d\<lparr>ld_stepIds := replicate (length ss) []\<rparr>)) r" for r
    using assms by (simp add: layer_key_def require_open_def enter_array e)
qed

lemma layer_read:
  assumes w: "layer_written layers l" and n: "names_give l names"
  shows "parseLayer z names (comma_sep (map member_text (layer_members layers l)) @ CHR ''}'' # rest) =
    ok \<lparr>ld_layer = l\<lparr>ly_startAfterGroupId := 0\<rparr>, ld_names = names_after l names, ld_startAfter = start_name layers l,
        ld_stepIds = replicate (ly_stepCount l) []\<rparr> rest"
proof -
  note w' = w [unfolded layer_written_def]
  define d0 where "d0 = \<lparr>ld_layer = layer_zero\<lparr>ly_startAfterStepIndex := SCENE_NO_STEP_INDEX\<rparr>, ld_names = names, ld_startAfter = [], ld_stepIds = []\<rparr>"
  define d1 where "d1 = ld_set (\<lambda>x. x\<lparr>ly_groupId := ly_groupId l, ly_groupName := ly_groupName l\<rparr>) (d0\<lparr>ld_names := names_after l names\<rparr>)"
  define d2 where "d2 = ld_set (\<lambda>x. x\<lparr>ly_target := ly_target l\<rparr>) d1"
  define d3 where "d3 = ld_set (\<lambda>x. x\<lparr>ly_palette := ly_palette l\<rparr>) d2"
  define d4 where "d4 = ld_set (\<lambda>x. x\<lparr>ly_blend := ly_blend l\<rparr>) d3"
  define d5 where "d5 = ld_set (\<lambda>x. x\<lparr>ly_disabled := ly_disabled l\<rparr>) d4"
  define d6 where "d6 = ld_set (\<lambda>x. x\<lparr>ly_async := ly_async l\<rparr>) d5"
  define d7 where "d7 = d6\<lparr>ld_startAfter := start_name layers l\<rparr>"
  define d8 where "d8 = ld_set (\<lambda>x. x\<lparr>ly_steps := steps_of l @ replicate (SCENE_MAX_STEPS - length (steps_of l)) step_zero, ly_stepCount := length (steps_of l)\<rparr>)
      (d7\<lparr>ld_stepIds := replicate (length (steps_of l)) []\<rparr>)"
  have r1: "reads 16 (layer_key z) [(''group'', group_text l)] d0 d1"
    using group_read [of l d0 z] w' n by (simp add: d1_def d0_def layer_zero_def)
  have z: "sel_ops (ly_target layer_zero) = SEL_ALL # replicate (SEL_CAP - 1) 0" by code_simp
  have r2: "reads 16 (layer_key z) [(''panels'', target_text (ly_target l))] d1 d2"
    unfolding d2_def using w' z by (intro panels_read) (simp_all add: d1_def d0_def ld_set_def)
  have r3: "reads 16 (layer_key z) (opt (ly_palette l \<noteq> []) (''palette'', json_quoted (ly_palette l))) d2 d3"
    unfolding d3_def using w' by (intro palette_read) (simp_all add: d2_def d1_def d0_def ld_set_def layer_zero_def)
  have r4: "reads 16 (layer_key z) (opt (ly_blend l \<noteq> COMPOSE_DEFAULT) (''blend'', json_quoted (blend_name l))) d3 d4"
    unfolding d4_def using w' by (intro blend_read) (simp_all add: d3_def d2_def d1_def d0_def ld_set_def layer_zero_def COMPOSE_DEFAULT_def)
  have r5: "reads 16 (layer_key z) (opt (ly_disabled l) (''disabled'', ''true'')) d4 d5"
    unfolding d5_def by (intro disabled_read) (simp_all add: d4_def d3_def d2_def d1_def d0_def ld_set_def layer_zero_def)
  have r6: "reads 16 (layer_key z) (opt (ly_async l \<noteq> 0) (''async'', if ly_async l AND LAYER_ASYNC_NON_BLOCKING \<noteq> 0 then json_quoted ''free'' else ''true'')) d5 d6"
    unfolding d6_def using w' by (intro async_read) (simp_all add: d5_def d4_def d3_def d2_def d1_def d0_def ld_set_def layer_zero_def)
  have r7: "reads 16 (layer_key z) (opt (ly_startAfterGroupId l \<noteq> 0) (''startAfter'', json_quoted (start_name layers l))) d6 d7"
    unfolding d7_def using w' by (intro start_read)
      (auto simp: start_written_def start_name_def d6_def d5_def d4_def d3_def d2_def d1_def d0_def ld_set_def)
  have r8: "reads 16 (layer_key z) [(''sequence'', array_text (map (\<lambda>step. object_text (step_members step)) (steps_of l)))] d7 d8"
    unfolding d8_def using w' by (intro sequence_read)
      (simp_all add: steps_of_length [OF w] d7_def d6_def d5_def d4_def d3_def d2_def d1_def d0_def ld_set_def layer_zero_def)
  have all: "reads 16 (layer_key z) (layer_members layers l) d0 d8"
    using reads_append [OF r1 reads_append [OF r2 reads_append [OF r3 reads_append [OF r4 reads_append [OF r5 reads_append [OF r6 reads_append [OF r7 r8]]]]]]]
    by (simp add: layer_members_def)
  have "d8 = \<lparr>ld_layer = l\<lparr>ly_startAfterGroupId := 0\<rparr>, ld_names = names_after l names, ld_startAfter = start_name layers l,
        ld_stepIds = replicate (ly_stepCount l) []\<rparr>"
    using steps_split [OF w] steps_of_length [OF w] w'
    by (cases l) (simp add: d8_def d7_def d6_def d5_def d4_def d3_def d2_def d1_def d0_def ld_set_def layer_zero_def start_written_def)
  then show ?thesis
    using reads_fields [OF all, of rest] w' unfolding parseLayer_def d0_def [symmetric] by simp
qed

end
