(* ===== verification/Scene_Written.thy ===== *)
theory Scene_Written
  imports
    Layer_Written
begin

text \<open>
  A written scene is read back: \<open>serializeScene\<close> and \<open>parseScene\<close> are inverse on the scenes that the text can express,
  up to the id, the duration and the hidden flag, which are not read from the text.
\<close>

section \<open>Names\<close>

fun names_given :: "SceneLayer list \<Rightarrow> NameTable \<Rightarrow> bool" where
  "names_given [] names \<longleftrightarrow> True"
| "names_given (l # ls) names \<longleftrightarrow> names_give l names \<and> names_given ls (names_after l names)"

lemma find_append: "List.find P (xs @ ys) = (case List.find P xs of Some x \<Rightarrow> Some x | None \<Rightarrow> List.find P ys)"
  by (induction xs) simp_all

lemma found_name:
  assumes "names_give l names" and "ly_groupName l \<noteq> []" "short_name (ly_groupName l)" "ly_groupId l \<noteq> 0"
  shows "nt_find (ly_groupName l) (names_after l names) = ly_groupId l"
  using assms
  by (auto simp: names_give_def names_after_def nt_intern_def nt_find_def short_name_def find_append split: option.splits if_splits)

lemma kept_name: "nt_find s names \<noteq> 0 \<Longrightarrow> nt_find s (names_after l names) = nt_find s names"
  by (auto simp: names_after_def nt_intern_def nt_find_def find_append split: option.splits)

lemma kept_names: "nt_find s names \<noteq> 0 \<Longrightarrow> nt_find s (fold names_after ls names) = nt_find s names"
  by (induction ls arbitrary: names) (simp_all add: kept_name)

lemma found_names:
  assumes "names_given ls names" and "l \<in> set ls" and "ly_groupName l \<noteq> []" "short_name (ly_groupName l)" "ly_groupId l \<noteq> 0"
  shows "nt_find (ly_groupName l) (fold names_after ls names) = ly_groupId l"
  using assms(1,2)
proof (induction ls arbitrary: names)
  case (Cons x ls)
  show ?case
  proof (cases "l = x")
    case True
    then have "nt_find (ly_groupName l) (names_after x names) = ly_groupId l" using Cons.prems assms(3-5) by (simp add: found_name)
    then show ?thesis using assms(5) by (simp add: kept_names)
  qed (use Cons in simp)
qed simp

section \<open>References\<close>

definition no_start :: "SceneLayer \<Rightarrow> SceneLayer" where
  "no_start l = l\<lparr>ly_startAfterGroupId := 0\<rparr>"

lemma no_start_fields [simp]:
  "ly_groupId (no_start l) = ly_groupId l" "ly_stepCount (no_start l) = ly_stepCount l" "ly_steps (no_start l) = ly_steps l"
  by (simp_all add: no_start_def)

lemma start_resolved:
  assumes written: "\<forall>l \<in> set layers. layer_written layers l" and names: "names_given layers names"
    and d: "sd_names d = fold names_after layers names" "sd_startAfter d = map (start_name layers) layers"
    and i: "i < length layers" and ls: "ls ! i = no_start (layers ! i)"
  shows "resolve_start d i ls = Inr (ls[i := layers ! i])"
proof -
  let ?l = "layers ! i"
  have w: "layer_written layers ?l" using written i by simp
  show ?thesis
  proof (cases "ly_startAfterGroupId ?l = 0")
    case True
    then have "no_start ?l = ?l" by (cases ?l) (simp add: no_start_def)
    moreover have "start_name layers ?l = []" using True by (simp add: start_name_def)
    ultimately show ?thesis using ls i d(2) list_update_id [of ls i] by (simp add: resolve_start_def)
  next
    case False
    let ?s = "start_name layers ?l"
    have s: "?s \<noteq> []" "short_name ?s" "CHR '':'' \<notin> set ?s" "ly_async ?l = 0" "ly_startAfterGroupId ?l \<noteq> ly_groupId ?l"
      using w False by (auto simp: layer_written_def start_written_def)
    obtain k where k: "find_group layers (ly_startAfterGroupId ?l) = Some k" "?s = ly_groupName (layers ! k)"
      using s(1) False by (auto simp: start_name_def split: option.splits)
    have "nt_find (ly_groupName (layers ! k)) (fold names_after layers names) = ly_groupId (layers ! k)"
      using find_group_Some [OF k(1)] s k written False by (intro found_names [OF names]) auto
    then have g: "nt_find ?s (sd_names d) = ly_startAfterGroupId ?l" using find_group_Some(2) [OF k(1)] k(2) d(1) by simp
    have whole: "takeWhile (\<lambda>c. c \<noteq> CHR '':'') ?s = ?s" "dropWhile (\<lambda>c. c \<noteq> CHR '':'') ?s = []"
      using s(3) by (auto simp: takeWhile_eq_all_conv)
    have parts: "start_group ?s = ?s" "start_step ?s = []"
      unfolding start_group_def start_step_def whole using s(2) by (simp_all add: short_name_def GROUP_NAME_LEN_def STEP_NAME_LEN_def)
    have "(no_start ?l)\<lparr>ly_startAfterGroupId := ly_startAfterGroupId ?l, ly_async := 0\<rparr> = ?l"
      using s(4) by (cases ?l) (simp add: no_start_def)
    then show ?thesis using s False g parts i d(2) ls by (simp add: resolve_start_def)
  qed
qed

lemma starts_resolved:
  assumes "\<forall>l \<in> set layers. layer_written layers l" "names_given layers names"
    and "sd_names d = fold names_after layers names" "sd_startAfter d = map (start_name layers) layers"
  shows "check_all (resolve_start d) [0..<length layers] (map no_start layers) = Inr layers"
proof -
  have "check_all (resolve_start d) [k..<length layers] (take k layers @ map no_start (drop k layers)) = Inr layers" if "k \<le> length layers" for k
    using that
  proof (induction "length layers - k" arbitrary: k)
    case (Suc n)
    then have k: "k < length layers" by simp
    let ?ls = "take k layers @ map no_start (drop k layers)"
    have "?ls ! k = no_start (layers ! k)" using k by (simp add: nth_append)
    then have "resolve_start d k ?ls = Inr (?ls[k := layers ! k])" by (rule start_resolved [OF assms k])
    moreover have "?ls[k := layers ! k] = take (Suc k) layers @ map no_start (drop (Suc k) layers)"
      using k by (simp add: list_update_append Cons_nth_drop_Suc [symmetric] take_Suc_conv_app_nth)
    ultimately show ?case using Suc k by (simp add: upt_rec [of k])
  qed simp
  from this [of 0] show ?thesis by simp
qed

section \<open>The scenes that can be written\<close>

definition speed_written :: "real \<Rightarrow> bool" where
  "speed_written x \<longleftrightarrow> list_ex (\<lambda>k. x = real k / 2) [1..<21]"

definition scene_written :: "SceneRecord \<Rightarrow> bool" where
  "scene_written r \<longleftrightarrow>
     sr_schemaVersion r \<le> SCENE_SCHEMA_VERSION \<and> NUL \<notin> set (sr_id r) \<and> isValidSceneName (sr_name r) \<and> NUL \<notin> set (sr_name r)
     \<and> speed_written (sr_speed r)
     \<and> (if sr_hasPalette r then short_name (sr_palette r) else sr_palette r = USER_COLORS_PALETTE_NAME)
     \<and> (if sr_hasColors r then length (sr_baseColors r) = 3 else sr_baseColors r = [white, black, black])
     \<and> sr_layers r \<noteq> [] \<and> length (sr_layers r) \<le> SCENE_MAX_LAYERS
     \<and> list_all (layer_written (sr_layers r)) (sr_layers r) \<and> names_given (sr_layers r) nt_reset
     \<and> \<not> duplicate_groups (sr_layers r) \<and> \<not> list_ex infinite_inside (sr_layers r)
     \<and> \<not> list_ex (target_never_ends (sr_layers r)) (sr_layers r)
     \<and> list_all (\<lambda>i. chain_ends (sr_layers r) i 0) [0..<length (sr_layers r)]"

definition color_members :: "ColorRGB list \<Rightarrow> (string \<times> string) list" where
  "color_members cs =
     [(''primary'', json_quoted (hex_text (cs ! 0))), (''secondary'', json_quoted (hex_text (cs ! 1))),
      (''tertiary'', json_quoted (hex_text (cs ! 2)))]"

definition scene_members :: "SceneRecord \<Rightarrow> (string \<times> string) list" where
  "scene_members r =
     [(''schemaVersion'', uint_text (sr_schemaVersion r))]
     @ opt (sr_id r \<noteq> []) (''id'', json_quoted (sr_id r))
     @ [(''name'', json_quoted (sr_name r))]
     @ opt (sr_loop r) (''loop'', ''true'')
     @ opt (sr_speed r \<noteq> 1) (''speed'', two_decimals (sr_speed r))
     @ opt (sr_hasPalette r) (''palette'', json_quoted (sr_palette r))
     @ opt (sr_hasColors r) (''colors'', object_text (color_members (sr_baseColors r)))
     @ opt (sr_background r \<noteq> black) (''background'', json_quoted (hex_text (sr_background r)))
     @ [(''layers'', array_text (map (\<lambda>l. object_text (layer_members (sr_layers r) l)) (sr_layers r)))]"

definition scene_text :: "SceneRecord \<Rightarrow> string" where
  "scene_text r = object_text (scene_members r)"

lemma layers_buf:
  assumes "list_all (layer_written (sr_layers r)) (sr_layers r)"
  shows "fold (\<lambda>i b. writeLayer cap (sr_layers r ! i) r (append_when cap (0 < i) '','' b)) [0..<length (sr_layers r)] (buf cap s) =
    buf cap (s @ comma_sep (map (\<lambda>l. object_text (layer_members (sr_layers r) l)) (sr_layers r)))"
proof -
  have "fold (\<lambda>i b. writeLayer cap (sr_layers r ! i) r (append_when cap (i \<noteq> 0) '','' b)) [0..<length (sr_layers r)] (buf cap s) =
      buf cap (s @ comma_sep (map (\<lambda>i. object_text (layer_members (sr_layers r) (sr_layers r ! i))) [0..<length (sr_layers r)]))"
    using assms by (intro fold_commas layer_buf) (simp add: list_all_length)
  moreover have "map (\<lambda>i. object_text (layer_members (sr_layers r) (sr_layers r ! i))) [0..<length (sr_layers r)]
      = map (\<lambda>l. object_text (layer_members (sr_layers r) l)) (sr_layers r)"
    by (intro nth_equalityI) simp_all
  ultimately show ?thesis by (simp add: neq0_conv)
qed

lemma hex_text_plain: "list_all plain_char (hex_text c)"
  by (simp add: hex_text_def hex_plain)

lemma scene_buf:
  assumes "scene_written r" and "32 \<le> cap"
  shows "serializeScene cap r = buf cap (scene_text r)"
proof -
  have start: "Some [] = buf cap []" using assms(2) by (simp add: buf_def)
  have w: "list_all (layer_written (sr_layers r)) (sr_layers r)" using assms(1) by (simp add: scene_written_def)
  show ?thesis
    unfolding serializeScene_def start using assms(2)
    by (simp add: buf_simps layers_buf [OF w] scene_text_def scene_members_def color_members_def object_text_def array_text_def
        comma_sep_Cons key_text plain_quoted [OF hex_text_plain] not_less)
qed

section \<open>Reading a scene\<close>

lemma halves:
  assumes "speed_written x"
  obtains k where "k \<in> {1, 2, 3, 4, 5, 6, 7, 8, 9, 10, 11, 12, 13, 14, 15, 16, 17, 18, 19, 20}" and "x = real k / 2"
proof -
  obtain k where k: "x = real k / 2" "1 \<le> k" "k < 21" using assms by (auto simp: speed_written_def list_ex_iff)
  then have "k \<in> {1, 2, 3, 4, 5, 6, 7, 8, 9, 10, 11, 12, 13, 14, 15, 16, 17, 18, 19, 20}"
    by (auto simp: less_Suc_eq numeral_eq_Suc)
  then show ?thesis using k(1) that by blast
qed

lemma speed_text:
  assumes "x = real k / 2"
  shows "two_decimals x = udec (k div 2) @ (if even k then ''.00'' else ''.50'')"
proof -
  have "\<bar>x\<bar> * 100 = real_of_int (int (k * 50))" using assms by simp
  moreover have "round_even (real_of_int n) = n" for n by (simp add: round_even_def)
  ultimately have n: "nat (round_even (\<bar>x\<bar> * 100)) = k * 50" by (simp only: nat_int)
  have "k * 50 div 100 = k div 2" using div_mult_mult2 [of 50 k 2] by simp
  moreover have "k * 50 div 10 = 5 * k" "k * 50 mod 10 = 0" by simp_all
  moreover have "5 * k mod 10 = (if even k then 0 else 5)" by presburger
  moreover have "char_of (48 :: nat) = CHR ''0''" "char_of (53 :: nat) = CHR ''5''" by code_simp+
  moreover have "\<not> x < 0" using assms by simp
  ultimately show ?thesis unfolding two_decimals_def n Let_def by simp
qed

lemma half_fl: "fl (real k / 2) = real k / 2" if "k \<le> 20"
  using fl_exact [of "int k" 1] that by simp

lemma half_numeral: "numeral n \<le> (20 :: nat) \<Longrightarrow> fl (numeral n / 2) = numeral n / 2"
  using half_fl [of "numeral n"] by simp

lemma decimal_written:
  assumes "k \<in> {1, 2, 3, 4, 5, 6, 7, 8, 9, 10, 11, 12, 13, 14, 15, 16, 17, 18, 19, 20}" and "no_digit r"
  shows "decimal (udec (k div 2) @ (if even k then ''.00'' else ''.50'') @ r) = Some (real k / 2, r)"
proof -
  have e: "fraction_digits f d r = (f, r)" for f d using assms(2) by (cases r) (simp_all add: no_digit_def)
  have h: "fl (5 / 10) = 1 / 2" using half_fl [of 1] by simp
  have f: "fraction_digits 0 10 (''00'' @ r) = (0, r)" "fraction_digits 0 10 (''50'' @ r) = (1 / 2, r)"
    using half_fl [of 1] by (simp_all add: e h is_digit_def digit_val_def)
  show ?thesis using assms(1)
    by (elim insertE emptyE) (simp_all add: decimal_def udec.simps is_digit_def digit_val_def e h half_numeral half_fl [of 1, simplified])
qed

lemma value_speed:
  assumes "speed_written x" and "ends_value r"
  shows "jsonReadFloat (two_decimals x @ r) = Some (x, r)" "fl (1 / 10) \<le> x" "x \<le> 10"
    "two_decimals x \<noteq> []" "\<not> json_ws (hd (two_decimals x))"
proof -
  obtain k where k: "k \<in> {1, 2, 3, 4, 5, 6, 7, 8, 9, 10, 11, 12, 13, 14, 15, 16, 17, 18, 19, 20}" "x = real k / 2"
    by (rule halves [OF assms(1)])
  have bounds: "1 \<le> k" "k \<le> 20" using k(1) by auto
  obtain c cs where c: "udec (k div 2) = c # cs" by (cases "udec (k div 2)") simp_all
  then have d: "is_digit c" using udec_hd [of "k div 2"] by simp
  then have n: "\<not> json_ws c" "c \<noteq> CHR ''-''" using digit_not_ws by (auto simp: is_digit_def)
  have "decimal (two_decimals x @ r) = Some (x, r)"
    using decimal_written [OF k(1) ends_no_digit [OF assms(2)]] k(2) by (simp add: speed_text [OF k(2)] split: if_splits)
  then show "jsonReadFloat (two_decimals x @ r) = Some (x, r)"
    using n by (simp add: jsonReadFloat_def speed_text [OF k(2)] c no_ws)
  have "fl (1 / 10) \<le> fl (1 / 2)" by (rule fl_mono) simp
  also have "fl (1 / 2) = 1 / 2" using half_fl [of 1] by simp
  finally show "fl (1 / 10) \<le> x" using k(2) bounds by simp
  show "x \<le> 10" using k(2) bounds by simp
  show "two_decimals x \<noteq> []" "\<not> json_ws (hd (two_decimals x))" using n by (simp_all add: speed_text [OF k(2)] c)
qed

lemma sd_same: "sr_loop (sd_record d) = b \<Longrightarrow> sd_set (\<lambda>r. r\<lparr>sr_loop := b\<rparr>) d = d"
  "sr_speed (sd_record d) = x \<Longrightarrow> sd_set (\<lambda>r. r\<lparr>sr_speed := x\<rparr>) d = d"
  "sr_palette (sd_record d) = s \<Longrightarrow> sr_hasPalette (sd_record d) = b \<Longrightarrow> sd_set (\<lambda>r. r\<lparr>sr_palette := s, sr_hasPalette := b\<rparr>) d = d"
  "sr_baseColors (sd_record d) = cs \<Longrightarrow> sr_hasColors (sd_record d) = b \<Longrightarrow> sd_set (\<lambda>r. r\<lparr>sr_baseColors := cs, sr_hasColors := b\<rparr>) d = d"
  "sr_background (sd_record d) = c \<Longrightarrow> sd_set (\<lambda>r. r\<lparr>sr_background := c\<rparr>) d = d"
  by (cases d; cases "sd_record d"; simp add: sd_set_def)+

lemma schema_read: "reads 20 (scene_key z) [(''schemaVersion'', uint_text v)] d (sd_set (\<lambda>r. r\<lparr>sr_schemaVersion := v\<rparr>) d)"
  by (rule reads_one) (simp_all add: starts_member_def scene_key_def value_uint)

lemma id_read:
  assumes "NUL \<notin> set s"
  shows "reads 20 (scene_key z) (opt c (''id'', json_quoted s)) d d"
proof (rule reads_opt [OF reads_one])
  show "starts_member 20 (''id'', json_quoted s)" by (simp add: starts_member_def)
  have "jsonSkipValue z (json_quoted s @ r) = Some (True, r)" for r
    using skip_quoted [of s r] by (simp add: jsonSkipValue_def json_skip.simps [of z SkipValue] quoted_no_ws json_quoted_def jsonSkipQuotedString_def)
  then show "scene_key z ''id'' d (json_quoted s @ r) = ok d r" for r by (simp add: scene_key_def skip_then_def)
qed simp

lemma name_read:
  assumes "NUL \<notin> set s" "isValidSceneName s"
  shows "reads 20 (scene_key z) [(''name'', json_quoted s)] d (sd_set (\<lambda>r. r\<lparr>sr_name := s\<rparr>) d)"
  by (rule reads_one) (use assms in \<open>simp_all add: starts_member_def scene_key_def value_string isValidSceneName_def\<close>)

lemma loop_read:
  assumes "\<not> sr_loop (sd_record d)"
  shows "reads 20 (scene_key z) (opt b (''loop'', ''true'')) d (sd_set (\<lambda>r. r\<lparr>sr_loop := b\<rparr>) d)"
proof (rule reads_opt [OF reads_one])
  show "starts_member 20 (''loop'', ''true'')" by (simp add: starts_member_def json_ws_def)
  show "\<not> b \<Longrightarrow> sd_set (\<lambda>r. r\<lparr>sr_loop := b\<rparr>) d = d" using assms by (intro sd_same) simp
qed (simp add: scene_key_def bool_in_def value_bool [simplified] require_def)

lemma speed_read:
  assumes "speed_written x" and "sr_speed (sd_record d) = 1"
  shows "reads 20 (scene_key z) (opt (x \<noteq> 1) (''speed'', two_decimals x)) d (sd_set (\<lambda>r. r\<lparr>sr_speed := x\<rparr>) d)"
proof (rule reads_opt [OF reads_one])
  note v = value_speed [OF assms(1)]
  show "starts_member 20 (''speed'', two_decimals x)" using v(4,5) [of "''}''"] by (simp add: starts_member_def ends_value_def)
  show "\<not> x \<noteq> 1 \<Longrightarrow> sd_set (\<lambda>r. r\<lparr>sr_speed := x\<rparr>) d = d" using assms(2) by (intro sd_same) simp
  show "scene_key z ''speed'' d (two_decimals x @ r) = ok (sd_set (\<lambda>r. r\<lparr>sr_speed := x\<rparr>) d) r" if "ends_value r" for r
    using v(1-3) [OF that] by (simp add: scene_key_def require_def not_less)
qed

lemma palette_member_read:
  assumes "if c then short_name s else s = USER_COLORS_PALETTE_NAME"
    and "sr_palette (sd_record d) = USER_COLORS_PALETTE_NAME" "\<not> sr_hasPalette (sd_record d)"
  shows "reads 20 (scene_key z) (opt c (''palette'', json_quoted s)) d (sd_set (\<lambda>r. r\<lparr>sr_palette := s, sr_hasPalette := c\<rparr>) d)"
proof (rule reads_opt [OF reads_one])
  show "starts_member 20 (''palette'', json_quoted s)" by (simp add: starts_member_def)
  show "\<not> c \<Longrightarrow> sd_set (\<lambda>r. r\<lparr>sr_palette := s, sr_hasPalette := c\<rparr>) d = d" using assms by (intro sd_same) simp_all
qed (use assms(1) in \<open>simp add: scene_key_def value_string short_name_def GROUP_NAME_LEN_def\<close>)

lemma hex_value: "require_string msg 16 (json_quoted (hex_text c) @ r) = ok (hex_text c) r"
  using hex_length plain_no_nul [OF hex_text_plain] by (simp add: hex_text_def value_string)

lemma parse_hex_text: "jsonParseHexColor (hex_text c) = Some (rgb_r c, rgb_g c, rgb_b c)"
  by (simp add: hex_text_def parse_format_hex)

lemma colors_member_read:
  assumes "if c then length cs = 3 else cs = [white, black, black]"
    and "sr_baseColors (sd_record d) = [white, black, black]" "\<not> sr_hasColors (sd_record d)"
  shows "reads 20 (scene_key z) (opt c (''colors'', object_text (color_members cs))) d
    (sd_set (\<lambda>r. r\<lparr>sr_baseColors := cs, sr_hasColors := c\<rparr>) d)"
proof (rule reads_opt [OF reads_one])
  show "starts_member 20 (''colors'', object_text (color_members cs))" by (simp add: starts_member_def)
  show "\<not> c \<Longrightarrow> sd_set (\<lambda>r. r\<lparr>sr_baseColors := cs, sr_hasColors := c\<rparr>) d = d" using assms by (intro sd_same) simp_all
  fix r assume c: c
  obtain a b e where cs: "cs = [a, b, e]" using assms(1) c by (auto simp: numeral_eq_Suc length_Suc_conv)
  have key: "colors_key k xs (json_quoted (hex_text x) @ r) =
      ok (if k = ''primary'' then xs[0 := x] else if k = ''secondary'' then xs[1 := x] else if k = ''tertiary'' then xs[2 := x] else xs) r" for k xs x r
    by (cases x) (simp add: colors_key_def hex_value parse_hex_text)
  have one: "reads 12 colors_key [(k, json_quoted (hex_text x))] xs
      (if k = ''primary'' then xs[0 := x] else if k = ''secondary'' then xs[1 := x] else if k = ''tertiary'' then xs[2 := x] else xs)"
    if "k \<in> {''primary'', ''secondary'', ''tertiary''}" for k xs x
    using that by (intro reads_one key) (auto simp: starts_member_def)
  have "reads 12 colors_key ([(''primary'', json_quoted (hex_text a))] @ [(''secondary'', json_quoted (hex_text b))] @ [(''tertiary'', json_quoted (hex_text e))])
      [white, black, black] cs"
    using one [of "''primary''" a "[white, black, black]"] one [of "''secondary''" b "[a, black, black]"] one [of "''tertiary''" e "[a, b, black]"]
    by (intro reads_append) (auto simp: cs)
  then have m: "reads 12 colors_key (color_members cs) [white, black, black] cs" by (simp add: color_members_def cs)
  show "scene_key z ''colors'' d (object_text (color_members cs) @ r) = ok (sd_set (\<lambda>r. r\<lparr>sr_baseColors := cs, sr_hasColors := c\<rparr>) d) r"
    using c assms(2) reads_fields [OF m] by (simp add: scene_key_def parseColors_def require_open_def enter_object)
qed

lemma background_read:
  assumes "sr_background (sd_record d) = black"
  shows "reads 20 (scene_key z) (opt (c \<noteq> black) (''background'', json_quoted (hex_text c))) d (sd_set (\<lambda>r. r\<lparr>sr_background := c\<rparr>) d)"
proof (rule reads_opt [OF reads_one])
  let ?c = "ColorRef_rgb (rgb_r c) (rgb_g c) (rgb_b c)"
  show "starts_member 20 (''background'', json_quoted (hex_text c))" by (simp add: starts_member_def)
  show "\<not> c \<noteq> black \<Longrightarrow> sd_set (\<lambda>r. r\<lparr>sr_background := c\<rparr>) d = d" using assms by (intro sd_same) simp
  fix r assume "ends_value r"
  then have "parseColorRef z out (color_text ?c @ r) = ok ?c r" for out
    by (intro color_read) (simp_all add: color_written_def ColorRef_rgb_def)
  then have "parseColorRef z out (json_quoted (hex_text c) @ r) = ok ?c r" for out
    by (simp add: color_text_def hex_text_def ColorRef_rgb_def)
  then show "scene_key z ''background'' d (json_quoted (hex_text c) @ r) = ok (sd_set (\<lambda>r. r\<lparr>sr_background := c\<rparr>) d) r"
    by (cases c) (simp add: scene_key_def complain_def ok_def and_then_def ColorRef_rgb_def)
qed

lemma layers_elements:
  assumes "list_all (layer_written layers) ls" and "names_given ls (sd_names d)"
    and "length (sr_layers (sd_record d)) + length ls \<le> SCENE_MAX_LAYERS"
  shows "reads_all (layers_element z) (map (\<lambda>l. object_text (layer_members layers l)) ls) d
    (sd_set (\<lambda>r. r\<lparr>sr_layers := sr_layers r @ map no_start ls\<rparr>)
      (d\<lparr>sd_names := fold names_after ls (sd_names d), sd_startAfter := sd_startAfter d @ map (start_name layers) ls,
         sd_stepIds := sd_stepIds d @ map (\<lambda>l. replicate (ly_stepCount l) []) ls\<rparr>))"
  using assms
proof (induction ls arbitrary: d)
  case Nil
  have "sd_set (\<lambda>r. r\<lparr>sr_layers := sr_layers r @ map no_start []\<rparr>)
      (d\<lparr>sd_names := fold names_after [] (sd_names d), sd_startAfter := sd_startAfter d @ map (start_name layers) [],
         sd_stepIds := sd_stepIds d @ map (\<lambda>l. replicate (ly_stepCount l) []) []\<rparr>) = d"
    by (cases d; cases "sd_record d") (simp add: sd_set_def)
  then show ?case by (simp only: list.map all_none)
next
  case (Cons l ls)
  define d1 where "d1 = sd_set (\<lambda>r. r\<lparr>sr_layers := sr_layers r @ [no_start l]\<rparr>)
      (d\<lparr>sd_names := names_after l (sd_names d), sd_startAfter := sd_startAfter d @ [start_name layers l],
         sd_stepIds := sd_stepIds d @ [replicate (ly_stepCount l) []]\<rparr>)"
  have one: "layers_element z d (object_text (layer_members layers l) @ r) = ok d1 r" for r
    using layer_read [of layers l "sd_names d" z r] Cons.prems
    by (simp add: layers_element_def require_open_def enter_object d1_def no_start_def)
  have "reads_all (layers_element z) (map (\<lambda>l. object_text (layer_members layers l)) ls) d1
      (sd_set (\<lambda>r. r\<lparr>sr_layers := sr_layers r @ map no_start ls\<rparr>)
      (d1\<lparr>sd_names := fold names_after ls (sd_names d1), sd_startAfter := sd_startAfter d1 @ map (start_name layers) ls,
         sd_stepIds := sd_stepIds d1 @ map (\<lambda>l. replicate (ly_stepCount l) []) ls\<rparr>))"
    using Cons.prems by (intro Cons.IH) (simp_all add: d1_def sd_set_def)
  then show ?case using one by (auto simp: d1_def sd_set_def intro: all_element)
qed

lemma layers_read:
  assumes "list_all (layer_written layers) layers" and "names_given layers (sd_names d)" and "length layers \<le> SCENE_MAX_LAYERS"
    and "sr_layers (sd_record d) = []" "sd_startAfter d = []" "sd_stepIds d = []"
  shows "reads 20 (scene_key z) [(''layers'', array_text (map (\<lambda>l. object_text (layer_members layers l)) layers))] d
    (sd_set (\<lambda>r. r\<lparr>sr_layers := map no_start layers\<rparr>)
      (d\<lparr>sd_names := fold names_after layers (sd_names d), sd_startAfter := map (start_name layers) layers,
         sd_stepIds := map (\<lambda>l. replicate (ly_stepCount l) []) layers\<rparr>))"
proof (rule reads_one)
  let ?t = "map (\<lambda>l. object_text (layer_members layers l)) layers"
  show "starts_member 20 (''layers'', array_text ?t)" by (simp add: starts_member_def)
  note e = reads_elements [OF layers_elements [of layers layers d z]]
  show "scene_key z ''layers'' d (array_text ?t @ r) = ok (sd_set (\<lambda>r. r\<lparr>sr_layers := map no_start layers\<rparr>)
      (d\<lparr>sd_names := fold names_after layers (sd_names d), sd_startAfter := map (start_name layers) layers,
         sd_stepIds := map (\<lambda>l. replicate (ly_stepCount l) []) layers\<rparr>)) r" for r
    using assms by (simp add: scene_key_def require_open_def enter_array e sd_set_def)
qed

section \<open>A scene\<close>

definition what_is_read :: "SceneRecord \<Rightarrow> SceneRecord" where
  "what_is_read r = r\<lparr>sr_id := [], sr_duration := 0, sr_hidden := 0\<rparr>"

lemma checks_no_start:
  "duplicate_groups (map no_start layers) = duplicate_groups layers"
  "list_ex infinite_inside (map no_start layers) = list_ex infinite_inside layers"
proof -
  show "duplicate_groups (map no_start layers) = duplicate_groups layers"
    by (auto simp: duplicate_groups_def list_ex_iff)
  have "infinite_inside (no_start l) = infinite_inside l" for l by (simp add: infinite_inside_def)
  then show "list_ex infinite_inside (map no_start layers) = list_ex infinite_inside layers" by (simp add: list_ex_iff)
qed

lemma scene_validated:
  assumes "scene_written r" and "sd_record d = (what_is_read r)\<lparr>sr_layers := map no_start (sr_layers r)\<rparr>"
    and "sd_names d = fold names_after (sr_layers r) nt_reset" "sd_startAfter d = map (start_name (sr_layers r)) (sr_layers r)"
  shows "validate d = Inr (what_is_read r)"
proof -
  note w = assms(1) [unfolded scene_written_def]
  have "check_all (resolve_start d) [0..<length (sr_layers r)] (map no_start (sr_layers r)) = Inr (sr_layers r)"
    using w assms(3,4) by (intro starts_resolved) (auto simp: list_all_iff)
  then show ?thesis
    using w assms(2) by (simp add: validate_def checks_no_start what_is_read_def isValidSceneName_def not_less [symmetric])
qed

lemma scene_read:
  assumes "scene_written r"
  shows "parseScene z (scene_text r @ rest) = ok (what_is_read r) rest"
proof -
  note w = assms [unfolded scene_written_def]
  define d0 where "d0 = \<lparr>sd_record = record_zero, sd_names = nt_reset, sd_startAfter = [], sd_stepIds = []\<rparr>"
  define d1 where "d1 = sd_set (\<lambda>x. x\<lparr>sr_schemaVersion := sr_schemaVersion r\<rparr>) d0"
  define d2 where "d2 = sd_set (\<lambda>x. x\<lparr>sr_name := sr_name r\<rparr>) d1"
  define d3 where "d3 = sd_set (\<lambda>x. x\<lparr>sr_loop := sr_loop r\<rparr>) d2"
  define d4 where "d4 = sd_set (\<lambda>x. x\<lparr>sr_speed := sr_speed r\<rparr>) d3"
  define d5 where "d5 = sd_set (\<lambda>x. x\<lparr>sr_palette := sr_palette r, sr_hasPalette := sr_hasPalette r\<rparr>) d4"
  define d6 where "d6 = sd_set (\<lambda>x. x\<lparr>sr_baseColors := sr_baseColors r, sr_hasColors := sr_hasColors r\<rparr>) d5"
  define d7 where "d7 = sd_set (\<lambda>x. x\<lparr>sr_background := sr_background r\<rparr>) d6"
  define d8 where "d8 = sd_set (\<lambda>x. x\<lparr>sr_layers := map no_start (sr_layers r)\<rparr>)
      (d7\<lparr>sd_names := fold names_after (sr_layers r) (sd_names d7), sd_startAfter := map (start_name (sr_layers r)) (sr_layers r),
         sd_stepIds := map (\<lambda>l. replicate (ly_stepCount l) []) (sr_layers r)\<rparr>)"
  note defs = d8_def d7_def d6_def d5_def d4_def d3_def d2_def d1_def d0_def sd_set_def record_zero_def
  have r1: "reads 20 (scene_key z) [(''schemaVersion'', uint_text (sr_schemaVersion r))] d0 d1"
    unfolding d1_def by (rule schema_read)
  have i: "reads 20 (scene_key z) (opt (sr_id r \<noteq> []) (''id'', json_quoted (sr_id r))) d1 d1"
    using w by (intro id_read) simp
  have r2: "reads 20 (scene_key z) [(''name'', json_quoted (sr_name r))] d1 d2"
    unfolding d2_def using w by (intro name_read) simp_all
  have r3: "reads 20 (scene_key z) (opt (sr_loop r) (''loop'', ''true'')) d2 d3"
    unfolding d3_def by (intro loop_read) (simp add: defs)
  have r4: "reads 20 (scene_key z) (opt (sr_speed r \<noteq> 1) (''speed'', two_decimals (sr_speed r))) d3 d4"
    unfolding d4_def using w by (intro speed_read) (simp_all add: defs)
  have r5: "reads 20 (scene_key z) (opt (sr_hasPalette r) (''palette'', json_quoted (sr_palette r))) d4 d5"
    unfolding d5_def using w by (intro palette_member_read) (simp_all add: defs)
  have r6: "reads 20 (scene_key z) (opt (sr_hasColors r) (''colors'', object_text (color_members (sr_baseColors r)))) d5 d6"
    unfolding d6_def using w by (intro colors_member_read) (simp_all add: defs)
  have r7: "reads 20 (scene_key z) (opt (sr_background r \<noteq> black) (''background'', json_quoted (hex_text (sr_background r)))) d6 d7"
    unfolding d7_def by (intro background_read) (simp add: defs)
  have r8: "reads 20 (scene_key z) [(''layers'', array_text (map (\<lambda>l. object_text (layer_members (sr_layers r) l)) (sr_layers r)))] d7 d8"
    unfolding d8_def using w by (intro layers_read) (simp_all add: defs)
  have all: "reads 20 (scene_key z) (scene_members r) d0 d8"
    using reads_append [OF r1 reads_append [OF i reads_append [OF r2 reads_append [OF r3 reads_append [OF r4 reads_append [OF r5
      reads_append [OF r6 reads_append [OF r7 r8]]]]]]]]
    by (simp add: scene_members_def)
  have "sd_record d8 = (what_is_read r)\<lparr>sr_layers := map no_start (sr_layers r)\<rparr>"
    by (cases r) (simp add: defs what_is_read_def)
  then have "validate d8 = Inr (what_is_read r)" by (intro scene_validated [OF assms]) (simp_all add: defs)
  then show ?thesis
    using reads_fields [OF all] by (simp add: parseScene_def scene_text_def enter_object require_open_def d0_def)
qed

section \<open>The duration\<close>

definition layer_duration :: "SceneLayer \<Rightarrow> nat" where
  "layer_duration l = sum_list (map (\<lambda>step. unat (ss_durationMs step)) (steps_of l))"

lemma fold_durations:
  assumes "n + length ss \<le> 12" and "unat acc \<le> n * 65535"
  shows "unat (fold (\<lambda>step ms. ms + ucast (ss_durationMs step)) ss acc :: u32) = unat acc + sum_list (map (\<lambda>step. unat (ss_durationMs step)) ss)"
  using assms
proof (induction ss arbitrary: acc n)
  case (Cons step ss)
  have d: "unat (ucast (ss_durationMs step) :: u32) = unat (ss_durationMs step)" by (simp add: unsigned_ucast_eq take_bit_nat_eq_self unat_u16_less less_trans [OF unat_u16_less])
  have b: "unat (ss_durationMs step) \<le> 65535" "n * 65535 \<le> 11 * 65535" using Cons.prems by simp_all
  have "unat acc + unat (ucast (ss_durationMs step) :: u32) < 2 ^ LENGTH(32)" using Cons.prems b d by (simp del: word_range)
  then have "unat (acc + ucast (ss_durationMs step)) = unat acc + unat (ss_durationMs step)" unfolding d [symmetric] by (rule iffD1 [OF unat_add_lem])
  then show ?case using Cons.IH [of "Suc n" "acc + ucast (ss_durationMs step)"] Cons.prems b by simp
qed simp

lemma scene_duration:
  assumes "\<forall>l \<in> set (sr_layers r). ly_stepCount l \<le> SCENE_MAX_STEPS"
  shows "unat (computeSceneDurationMs r) = Max (insert 0 (layer_duration ` set (sr_layers r)))"
proof -
  define f where "f = (\<lambda>l (m :: u32). let ms = fold (\<lambda>step ms. ms + ucast (ss_durationMs step)) (steps_of l) 0 in if m < ms then ms else m)"
  have one: "unat (f l m) = max (unat m) (layer_duration l)" if "ly_stepCount l \<le> SCENE_MAX_STEPS" for l m
    using fold_durations [of 0 "steps_of l" 0] that
    by (simp add: f_def layer_duration_def steps_of_def SCENE_MAX_STEPS_def Let_def word_less_nat_alt max_def)
  have "unat (fold f ls m) = Max (insert (unat m) (layer_duration ` set ls))" if "\<forall>l \<in> set ls. ly_stepCount l \<le> SCENE_MAX_STEPS" for ls m
    using that
  proof (induction ls arbitrary: m)
    case (Cons l ls)
    have "unat (fold f (l # ls) m) = Max (insert (max (unat m) (layer_duration l)) (layer_duration ` set ls))"
      using Cons.IH [of "f l m"] Cons.prems one by simp
    also have "\<dots> = Max (insert (unat m) (layer_duration ` set (l # ls)))"
      by (cases "set ls = {}") (simp_all add: Max_insert max.assoc max.left_commute)
    finally show ?case .
  qed simp
  from this [OF assms, of 0] show ?thesis by (simp add: computeSceneDurationMs_def f_def)
qed

section \<open>Properties\<close>

text \<open>A scene: a colour on all panels, and behind it a wave and a pause on all panels but two.\<close>

definition example_base :: SceneLayer where
  "example_base = layer_zero\<lparr>ly_startAfterStepIndex := SCENE_NO_STEP_INDEX, ly_groupId := 1, ly_groupName := ''base'', ly_stepCount := 1,
     ly_target := selector_of [SEL_ALL],
     ly_steps := [step_zero\<lparr>ss_animType := ANIM_SOLID, ss_colorTo := ColorRef_rgb 1 2 3, ss_durationMs := 500\<rparr>] @ replicate 11 step_zero\<rparr>"

definition example_wave :: SceneLayer where
  "example_wave = layer_zero\<lparr>ly_startAfterStepIndex := SCENE_NO_STEP_INDEX, ly_groupId := 2, ly_groupName := ''wave'', ly_stepCount := 2,
     ly_startAfterGroupId := 1, ly_blend := COMPOSE_ADD, ly_palette := ''sea'', ly_target := selector_of (list_code [2, 5] True),
     ly_steps := [step_zero\<lparr>ss_animType := RUN_WAVE, ss_params := [2, 0, 0, 0, 3, 0], ss_durationMs := 2000, ss_speedMs := 90\<rparr>,
                  step_zero\<lparr>ss_animType := ANIM_GAP, ss_durationMs := 250\<rparr>] @ replicate 10 step_zero\<rparr>"

definition example_scene :: SceneRecord where
  "example_scene = record_zero\<lparr>sr_name := ''Sea'', sr_schemaVersion := 8, sr_speed := 3 / 2, sr_loop := True, sr_id := ''k7'',
     sr_layers := [example_base, example_wave]\<rparr>"

text \<open>What can be computed of the conditions on a layer and on a scene.\<close>

definition layer_checks :: "SceneLayer \<Rightarrow> bool" where
  "layer_checks l \<longleftrightarrow>
     short_name (ly_groupName l) \<and> ly_groupId l \<noteq> 0 \<and> ly_groupId l \<noteq> 255 \<and> short_name (ly_palette l) \<and> ly_blend l \<le> COMPOSE_SUBTRACT
     \<and> ly_async l \<in> {0, LAYER_ASYNC_LOOP, LAYER_ASYNC_LOOP OR LAYER_ASYNC_NON_BLOCKING} \<and> 0 < ly_stepCount l
     \<and> ly_stepCount l \<le> SCENE_MAX_STEPS \<and> length (ly_steps l) = SCENE_MAX_STEPS
     \<and> list_all (\<lambda>step. step = step_zero) (drop (ly_stepCount l) (ly_steps l))"

lemma layer_writtenI:
  "layer_checks l \<Longrightarrow> target_written (ly_target l) \<Longrightarrow> list_all step_written (steps_of l) \<Longrightarrow> start_written layers l \<Longrightarrow> layer_written layers l"
  by (simp add: layer_written_def layer_checks_def)

lemma example_base_written: "layer_written [example_base, example_wave] example_base"
proof (rule layer_writtenI)
  let ?s = "step_zero\<lparr>ss_animType := ANIM_SOLID, ss_colorTo := ColorRef_rgb 1 2 3, ss_durationMs := 500\<rparr>"
  show "layer_checks example_base" "start_written [example_base, example_wave] example_base" by code_simp+
  show "target_written (ly_target example_base)" by (simp add: target_written_def example_base_def)
  have "params_written ?s" by (auto simp: params_written_def step_zero_def intro: exI [of _ "[]"])
  moreover have "step_ok ?s" "color_written (ss_colorFrom ?s)" "color_written (ss_colorTo ?s)" "ss_animType ?s \<noteq> ANIM_GAP"
    "\<not> isRunnerType (ss_animType ?s)" by code_simp+
  ultimately have "step_written ?s" by (simp add: step_written_def shown_written_def step_zero_def TARGET_COLOR_def)
  then show "list_all step_written (steps_of example_base)" by (simp add: steps_of_def example_base_def)
qed

lemma example_wave_written: "layer_written [example_base, example_wave] example_wave"
proof (rule layer_writtenI)
  have "index_list_ok [2, 5]" by code_simp
  then show "target_written (ly_target example_wave)" by (auto simp: target_written_def example_wave_def)
  show "layer_checks example_wave" "start_written [example_base, example_wave] example_wave" by code_simp+
  let ?w = "step_zero\<lparr>ss_animType := RUN_WAVE, ss_params := [2, 0, 0, 0, 3, 0], ss_durationMs := 2000, ss_speedMs := 90\<rparr>"
  let ?g = "step_zero\<lparr>ss_animType := ANIM_GAP, ss_durationMs := 250\<rparr>"
  have "step_ok ?w" "color_written (ss_colorFrom ?w)" "color_written (ss_colorTo ?w)" "runner_written ?w" "ss_animType ?w \<noteq> ANIM_GAP"
    "ss_animType ?w \<noteq> ANIM_SOLID" "isRunnerType (ss_animType ?w)" by code_simp+
  then have "step_written ?w" by (simp add: step_written_def shown_written_def step_zero_def TARGET_COLOR_def)
  moreover have "step_ok ?g" by code_simp
  then have "step_written ?g" by (simp add: step_written_def)
  ultimately have "step_written ?w" "step_written ?g" by simp_all
  then show "list_all step_written (steps_of example_wave)" by (simp add: steps_of_def example_wave_def)
qed

lemma example_written: "scene_written example_scene"
proof -
  let ?ls = "[example_base, example_wave]"
  have ls: "sr_layers example_scene = ?ls" by (simp add: example_scene_def)
  have "speed_written (sr_speed example_scene)" by (simp add: speed_written_def list_ex_iff example_scene_def)
  moreover have "sr_schemaVersion example_scene \<le> SCENE_SCHEMA_VERSION \<and> NUL \<notin> set (sr_id example_scene) \<and> isValidSceneName (sr_name example_scene)
      \<and> NUL \<notin> set (sr_name example_scene) \<and> \<not> sr_hasPalette example_scene \<and> \<not> sr_hasColors example_scene"
    by (simp add: example_scene_def record_zero_def SCENE_SCHEMA_VERSION_def isValidSceneName_def SCENE_NAME_MAX_def)
  moreover have "sr_palette example_scene = USER_COLORS_PALETTE_NAME" "sr_baseColors example_scene = [white, black, black]"
    by (simp_all add: example_scene_def record_zero_def)
  moreover have "length ?ls \<le> SCENE_MAX_LAYERS \<and> names_given ?ls nt_reset \<and> \<not> duplicate_groups ?ls \<and> \<not> list_ex infinite_inside ?ls
      \<and> \<not> list_ex (target_never_ends ?ls) ?ls \<and> list_all (\<lambda>i. chain_ends ?ls i 0) [0..<length ?ls]" by code_simp
  moreover have "list_all (layer_written ?ls) ?ls" using example_base_written example_wave_written by simp
  ultimately show ?thesis by (simp add: scene_written_def ls)
qed




end
