(* ===== verification/Random_Access.thy ===== *)
theory Random_Access
  imports
    Lightnet_Prelude
begin

text \<open>
  The storage behind the record database: the interface \<open>Common/Database/IRandomAccessStorage.hpp\<close> as a table of functions
  on a state, what a healthy implementation promises as a locale, and the implementation of the repository that keeps the
  content in memory (\<open>test/test_database/MemoryRandomAccessStorage.hpp\<close>).
\<close>

section \<open>The interface\<close>

datatype StorageResult = STORAGE_OK | STORAGE_NOT_OPEN | STORAGE_SEEK_OUT_OF_RANGE | STORAGE_TRUNCATE_FAILED | STORAGE_NO_MEMORY

text \<open>The virtual functions. \<open>read\<close> answers the bytes it got, \<open>write\<close> how many bytes it took.\<close>

record 's IRandomAccessStorage =
  st_seek :: "nat \<Rightarrow> 's \<Rightarrow> StorageResult \<times> 's"
  st_seekForward :: "nat \<Rightarrow> 's \<Rightarrow> StorageResult \<times> 's"
  st_read :: "nat \<Rightarrow> 's \<Rightarrow> u8 list \<times> 's"
  st_write :: "u8 list \<Rightarrow> 's \<Rightarrow> nat \<times> 's"
  st_size :: "'s \<Rightarrow> nat"
  st_truncate :: "nat \<Rightarrow> 's \<Rightarrow> StorageResult \<times> 's"

section \<open>Programs over a storage\<close>

text \<open>A program ends with an error code or a value, in a new state; the first error ends it.\<close>

type_synonym ('s, 'e, 'a) prog = "'s \<Rightarrow> ('e + 'a) \<times> 's"

definition p_ok :: "'a \<Rightarrow> ('s, 'e, 'a) prog" where
  "p_ok x s = (Inr x, s)"

definition p_fail :: "'e \<Rightarrow> ('s, 'e, 'a) prog" where
  "p_fail e s = (Inl e, s)"

definition p_bind :: "('s, 'e, 'a) prog \<Rightarrow> ('a \<Rightarrow> ('s, 'e, 'b) prog) \<Rightarrow> ('s, 'e, 'b) prog" where
  "p_bind m f s = (case m s of (Inl e, s') \<Rightarrow> (Inl e, s') | (Inr x, s') \<Rightarrow> f x s')"

text \<open>A call whose result code must be \<open>STORAGE_OK\<close>, a read and a write that must be complete.\<close>

definition p_check :: "'e \<Rightarrow> ('s \<Rightarrow> StorageResult \<times> 's) \<Rightarrow> ('s, 'e, unit) prog" where
  "p_check e call s = (case call s of (r, s') \<Rightarrow> if r \<noteq> STORAGE_OK then (Inl e, s') else (Inr (), s'))"

definition p_read :: "'e \<Rightarrow> 's IRandomAccessStorage \<Rightarrow> nat \<Rightarrow> ('s, 'e, u8 list) prog" where
  "p_read e st n s = (case st_read st n s of (got, s') \<Rightarrow> if length got \<noteq> n then (Inl e, s') else (Inr got, s'))"

definition p_write :: "'e \<Rightarrow> 's IRandomAccessStorage \<Rightarrow> u8 list \<Rightarrow> ('s, 'e, unit) prog" where
  "p_write e st bs s = (case st_write st bs s of (n, s') \<Rightarrow> if n \<noteq> length bs then (Inl e, s') else (Inr (), s'))"

definition p_size :: "'s IRandomAccessStorage \<Rightarrow> ('s, 'e, nat) prog" where
  "p_size st s = (Inr (st_size st s), s)"

text \<open>That a program ends with a value, or with an error code, and what holds then.\<close>

definition ends :: "('s, 'e, 'a) prog \<Rightarrow> 's \<Rightarrow> ('a \<Rightarrow> 's \<Rightarrow> bool) \<Rightarrow> bool" where
  "ends m s Q \<longleftrightarrow> (case m s of (Inr x, s') \<Rightarrow> Q x s' | (Inl _, _) \<Rightarrow> False)"

definition fails :: "('s, 'e, 'a) prog \<Rightarrow> 's \<Rightarrow> 'e \<Rightarrow> ('s \<Rightarrow> bool) \<Rightarrow> bool" where
  "fails m s e Q \<longleftrightarrow> (case m s of (Inl e', s') \<Rightarrow> e' = e \<and> Q s' | (Inr _, _) \<Rightarrow> False)"

lemma ends_ok [simp]: "ends (p_ok x) s Q \<longleftrightarrow> Q x s" "\<not> ends (p_fail e) s Q"
  by (simp_all add: ends_def p_ok_def p_fail_def)

lemma fails_fail [simp]: "fails (p_fail e) s e' Q \<longleftrightarrow> e = e' \<and> Q s" "\<not> fails (p_ok x) s e' Q"
  by (auto simp: fails_def p_ok_def p_fail_def)

lemma ends_bind: "ends (p_bind m f) s Q \<longleftrightarrow> ends m s (\<lambda>x s'. ends (f x) s' Q)"
  by (auto simp: ends_def p_bind_def split: prod.splits sum.splits)

lemma fails_bind: "fails (p_bind m f) s e Q \<longleftrightarrow> fails m s e Q \<or> ends m s (\<lambda>x s'. fails (f x) s' e Q)"
  by (auto simp: ends_def fails_def p_bind_def split: prod.splits sum.splits)

lemma ends_weaken: "ends m s P \<Longrightarrow> (\<And>x s'. P x s' \<Longrightarrow> Q x s') \<Longrightarrow> ends m s Q"
  by (auto simp: ends_def split: prod.splits sum.splits)

lemma fails_weaken: "fails m s e P \<Longrightarrow> (\<And>s'. P s' \<Longrightarrow> Q s') \<Longrightarrow> fails m s e Q"
  by (auto simp: fails_def split: prod.splits sum.splits)

lemma ends_seq: "ends m s P \<Longrightarrow> (\<And>x s'. P x s' \<Longrightarrow> ends (f x) s' Q) \<Longrightarrow> ends (p_bind m f) s Q"
  unfolding ends_bind by (rule ends_weaken)

lemma ends_size: "ends (p_size st) s Q \<longleftrightarrow> Q (st_size st s) s"
  by (simp add: ends_def p_size_def)

lemma ends_unique: "ends m s P \<Longrightarrow> m s = (Inr x, s') \<Longrightarrow> P x s'"
  by (simp add: ends_def)

lemma ends_value: "ends m s P \<Longrightarrow> \<exists>x s'. m s = (Inr x, s') \<and> P x s'"
  by (auto simp: ends_def split: prod.splits sum.splits)

lemma fails_value: "fails m s e P \<Longrightarrow> \<exists>s'. m s = (Inl e, s') \<and> P s'"
  by (auto simp: fails_def split: prod.splits sum.splits)

section \<open>A healthy storage\<close>

text \<open>The bytes from a position on replaced, within the file.\<close>

definition overwrite :: "nat \<Rightarrow> u8 list \<Rightarrow> u8 list \<Rightarrow> u8 list" where
  "overwrite p bs content = take p content @ bs @ drop (p + length bs) content"

definition resize :: "nat \<Rightarrow> u8 list \<Rightarrow> u8 list" where
  "resize n content = take n content @ replicate (n - length content) 0"

lemma overwrite_length [simp]: "p + length bs \<le> length content \<Longrightarrow> length (overwrite p bs content) = length content"
  by (simp add: overwrite_def)

lemma resize_length [simp]: "length (resize n content) = n"
  by (simp add: resize_def)

lemma nth_overwrite:
  "p + length bs \<le> length content \<Longrightarrow> i < length content \<Longrightarrow>
    overwrite p bs content ! i = (if p \<le> i \<and> i < p + length bs then bs ! (i - p) else content ! i)"
  by (auto simp: overwrite_def nth_append min_def)

text \<open>
  The laws, over the file and the position of the cursor: seeking works within the file, a read and a write within the file
  are complete, and the size can be changed, with zeros behind what was there.
\<close>

locale random_access =
  fixes st :: "'s IRandomAccessStorage" and content :: "'s \<Rightarrow> u8 list" and cursor :: "'s \<Rightarrow> nat"
  assumes seek_law: "p \<le> length (content s) \<Longrightarrow> \<exists>s'. st_seek st p s = (STORAGE_OK, s') \<and> content s' = content s \<and> cursor s' = p"
    and forward_law: "cursor s + d \<le> length (content s) \<Longrightarrow>
      \<exists>s'. st_seekForward st d s = (STORAGE_OK, s') \<and> content s' = content s \<and> cursor s' = cursor s + d"
    and read_law: "cursor s + n \<le> length (content s) \<Longrightarrow>
      \<exists>s'. st_read st n s = (take n (drop (cursor s) (content s)), s') \<and> content s' = content s \<and> cursor s' = cursor s + n"
    and write_law: "cursor s + length bs \<le> length (content s) \<Longrightarrow>
      \<exists>s'. st_write st bs s = (length bs, s') \<and> content s' = overwrite (cursor s) bs (content s) \<and> cursor s' = cursor s + length bs"
    and size_law: "st_size st s = length (content s)"
    and truncate_law: "\<exists>s'. st_truncate st n s = (STORAGE_OK, s') \<and> content s' = resize n (content s)"
begin

lemma ends_seek:
  "p \<le> length (content s) \<Longrightarrow> (\<And>s'. content s' = content s \<Longrightarrow> cursor s' = p \<Longrightarrow> Q () s') \<Longrightarrow> ends (p_check e (st_seek st p)) s Q"
  using seek_law [of p s] by (auto simp: ends_def p_check_def)

lemma ends_forward:
  "cursor s + d \<le> length (content s) \<Longrightarrow> (\<And>s'. content s' = content s \<Longrightarrow> cursor s' = cursor s + d \<Longrightarrow> Q () s') \<Longrightarrow>
    ends (p_check e (st_seekForward st d)) s Q"
  using forward_law [of s d] by (auto simp: ends_def p_check_def)

lemma ends_read:
  "cursor s + n \<le> length (content s) \<Longrightarrow>
    (\<And>s'. content s' = content s \<Longrightarrow> cursor s' = cursor s + n \<Longrightarrow> Q (take n (drop (cursor s) (content s))) s') \<Longrightarrow> ends (p_read e st n) s Q"
  using read_law [of s n] by (auto simp: ends_def p_read_def)

lemma ends_write:
  "cursor s + length bs \<le> length (content s) \<Longrightarrow>
    (\<And>s'. content s' = overwrite (cursor s) bs (content s) \<Longrightarrow> cursor s' = cursor s + length bs \<Longrightarrow> Q () s') \<Longrightarrow> ends (p_write e st bs) s Q"
  using write_law [of s bs] by (auto simp: ends_def p_write_def)

lemma ends_truncate: "(\<And>s'. content s' = resize n (content s) \<Longrightarrow> Q () s') \<Longrightarrow> ends (p_check e (st_truncate st n)) s Q"
  using truncate_law [of n s] by (auto simp: ends_def p_check_def)

end

section \<open>The storage in memory\<close>

record MemoryRandomAccessStorage =
  mem_fileBytes :: "u8 list"
  mem_seekPosition :: nat

definition mem_seek :: "nat \<Rightarrow> MemoryRandomAccessStorage \<Rightarrow> StorageResult \<times> MemoryRandomAccessStorage" where
  "mem_seek offset s =
     (if length (mem_fileBytes s) < offset then (STORAGE_SEEK_OUT_OF_RANGE, s) else (STORAGE_OK, s\<lparr>mem_seekPosition := offset\<rparr>))"

definition mem_seekForward :: "nat \<Rightarrow> MemoryRandomAccessStorage \<Rightarrow> StorageResult \<times> MemoryRandomAccessStorage" where
  "mem_seekForward delta s =
     (if length (mem_fileBytes s) < mem_seekPosition s + delta then (STORAGE_SEEK_OUT_OF_RANGE, s)
      else (STORAGE_OK, s\<lparr>mem_seekPosition := mem_seekPosition s + delta\<rparr>))"

definition mem_read :: "nat \<Rightarrow> MemoryRandomAccessStorage \<Rightarrow> u8 list \<times> MemoryRandomAccessStorage" where
  "mem_read len s =
     (if len = 0 then ([], s)
      else if length (mem_fileBytes s) \<le> mem_seekPosition s then ([], s)
      else
        (let bytesAvailable = length (mem_fileBytes s) - mem_seekPosition s;
             bytesToRead = (if len < bytesAvailable then len else bytesAvailable)
         in (take bytesToRead (drop (mem_seekPosition s) (mem_fileBytes s)), s\<lparr>mem_seekPosition := mem_seekPosition s + bytesToRead\<rparr>)))"

text \<open>\<open>resize(n, 0)\<close> of the vector, and \<open>memcpy\<close> into it.\<close>

definition mem_write :: "u8 list \<Rightarrow> MemoryRandomAccessStorage \<Rightarrow> nat \<times> MemoryRandomAccessStorage" where
  "mem_write bs s =
     (if bs = [] then (0, s)
      else
        (let p = mem_seekPosition s;
             bytes = (if length (mem_fileBytes s) < p + length bs then resize (p + length bs) (mem_fileBytes s) else mem_fileBytes s)
         in (length bs, \<lparr>mem_fileBytes = overwrite p bs bytes, mem_seekPosition = p + length bs\<rparr>)))"

definition mem_truncate :: "nat \<Rightarrow> MemoryRandomAccessStorage \<Rightarrow> StorageResult \<times> MemoryRandomAccessStorage" where
  "mem_truncate newSize s =
     (STORAGE_OK, \<lparr>mem_fileBytes = resize newSize (mem_fileBytes s),
                   mem_seekPosition = (if newSize < mem_seekPosition s then newSize else mem_seekPosition s)\<rparr>)"

definition memory :: "MemoryRandomAccessStorage IRandomAccessStorage" where
  "memory = \<lparr>st_seek = mem_seek, st_seekForward = mem_seekForward, st_read = mem_read, st_write = mem_write,
             st_size = (\<lambda>s. length (mem_fileBytes s)), st_truncate = mem_truncate\<rparr>"

interpretation mem: random_access memory mem_fileBytes mem_seekPosition
proof unfold_locales
  fix s :: MemoryRandomAccessStorage and n :: nat
  assume "mem_seekPosition s + n \<le> length (mem_fileBytes s)"
  then show "\<exists>s'. st_read memory n s = (take n (drop (mem_seekPosition s) (mem_fileBytes s)), s') \<and> mem_fileBytes s' = mem_fileBytes s \<and> mem_seekPosition s' = mem_seekPosition s + n"
    by (auto simp: memory_def mem_read_def Let_def)
qed (auto simp: memory_def mem_seek_def mem_seekForward_def mem_write_def mem_truncate_def overwrite_def Let_def)

end
