(* ===== verification/Record_Database.thy ===== *)
theory Record_Database
  imports
    Random_Access
begin

text \<open>
  The database of fixed-size records (\<open>Common/Database/Database.hpp\<close>, \<open>DatabaseFormat.hpp\<close>, \<open>DatabaseFormat.cpp\<close>). A file
  is a version byte, a header of three bytes and slots of one flag byte and a record each. The template parameter is a
  table of functions, \<open>size_t\<close> is \<open>nat\<close>, and a record buffer that the caller provides is the list of its bytes. The pointer
  to the storage is set whenever the database is open, so its tests for \<open>nullptr\<close> are those for being open.
\<close>

section \<open>The format\<close>

definition DB_VERSION :: u8 where "DB_VERSION = 1"
definition FLAG_DELETED :: u8 where "FLAG_DELETED = 0x01"

definition isRecordSlotDeleted :: "u8 \<Rightarrow> bool" where
  "isRecordSlotDeleted flags \<longleftrightarrow> flags AND FLAG_DELETED \<noteq> 0"

definition recordPayloadOffset :: "nat \<Rightarrow> nat" where
  "recordPayloadOffset slotOffset = slotOffset + 1"

datatype DatabaseFormatResult =
  DB_FORMAT_OK | DB_FORMAT_FILE_TOO_SHORT | DB_FORMAT_SEEK_FAILED | DB_FORMAT_READ_FAILED | DB_FORMAT_WRITE_FAILED

record DatabaseHeader =
  dh_recordModelVersion :: u8
  dh_recordsCount :: u16

definition put_DatabaseHeader :: "DatabaseHeader \<Rightarrow> u8 list" where
  "put_DatabaseHeader h = [dh_recordModelVersion h, ucast (dh_recordsCount h), ucast (drop_bit 8 (dh_recordsCount h))]"

definition get_DatabaseHeader :: "u8 list \<Rightarrow> DatabaseHeader" where
  "get_DatabaseHeader bs =
     \<lparr>dh_recordModelVersion = bs ! 0, dh_recordsCount = ucast (bs ! 1) OR push_bit 8 (ucast (bs ! 2))\<rparr>"

definition RECORDS_START_OFFSET :: nat where "RECORDS_START_OFFSET = 4"

record RecordRef =
  ref_offset :: u32

text \<open>The functions that return a \<open>DatabaseFormatResult\<close>: an error is a result other than \<open>DB_FORMAT_OK\<close>.\<close>

definition readVersion :: "'s IRandomAccessStorage \<Rightarrow> ('s, DatabaseFormatResult, u8) prog" where
  "readVersion st =
     p_bind (p_size st) (\<lambda>fileSize.
       if fileSize < 1 then p_fail DB_FORMAT_FILE_TOO_SHORT
       else p_bind (p_check DB_FORMAT_SEEK_FAILED (st_seek st 0)) (\<lambda>_.
         p_bind (p_read DB_FORMAT_READ_FAILED st 1) (\<lambda>bs. p_ok (bs ! 0))))"

definition readHeader :: "'s IRandomAccessStorage \<Rightarrow> ('s, DatabaseFormatResult, DatabaseHeader) prog" where
  "readHeader st =
     p_bind (p_size st) (\<lambda>fileSize.
       if fileSize < RECORDS_START_OFFSET then p_fail DB_FORMAT_FILE_TOO_SHORT
       else p_bind (p_check DB_FORMAT_SEEK_FAILED (st_seek st 1)) (\<lambda>_.
         p_bind (p_read DB_FORMAT_READ_FAILED st 3) (\<lambda>bs. p_ok (get_DatabaseHeader bs))))"

definition writeHeader :: "'s IRandomAccessStorage \<Rightarrow> DatabaseHeader \<Rightarrow> ('s, DatabaseFormatResult, unit) prog" where
  "writeHeader st header =
     p_bind (p_check DB_FORMAT_SEEK_FAILED (st_seek st 1)) (\<lambda>_. p_write DB_FORMAT_WRITE_FAILED st (put_DatabaseHeader header))"

definition writeVersion :: "'s IRandomAccessStorage \<Rightarrow> u8 \<Rightarrow> ('s, DatabaseFormatResult, unit) prog" where
  "writeVersion st databaseVersion =
     p_bind (p_check DB_FORMAT_SEEK_FAILED (st_seek st 0)) (\<lambda>_. p_write DB_FORMAT_WRITE_FAILED st [databaseVersion])"

section \<open>The database\<close>

datatype DatabaseResult =
  DB_OK | DB_NOT_OPEN | DB_NULL_ARG | DB_TRUNCATE_FAILED | DB_VERSION_READ_FAILED | DB_DB_VERSION_MISMATCH
| DB_HEADER_READ_FAILED | DB_MODEL_VERSION_MISMATCH | DB_HEADER_WRITE_FAILED | DB_VERSION_WRITE_FAILED | DB_FILE_TOO_SHORT
| DB_SEEK_FAILED | DB_READ_FAILED | DB_WRITE_FAILED | DB_RECORD_DELETED | DB_SERIALIZE_FAILED | DB_DESERIALIZE_FAILED
| DB_FOREACH_ABORTED | DB_NO_LIVE_RECORDS | DB_STORAGE_OPEN_FAILED

type_synonym ('s, 'a) db = "('s, DatabaseResult, 'a) prog"

text \<open>\<open>IRecordCodec.hpp\<close>: \<open>serialize\<close> answers the bytes of a record, or nothing for a result other than 0.\<close>

record 'm Codec =
  co_MODEL_VERSION :: u8
  co_RECORD_SIZE :: nat
  co_serialize :: "'m \<Rightarrow> u8 list option"
  co_deserialize :: "u8 list \<Rightarrow> 'm option"

text \<open>A result of the format functions, turned into one of the database.\<close>

definition p_map_error :: "'e \<Rightarrow> ('s, 'f, 'a) prog \<Rightarrow> ('s, 'e, 'a) prog" where
  "p_map_error e m s = (case m s of (Inl _, s') \<Rightarrow> (Inl e, s') | (Inr x, s') \<Rightarrow> (Inr x, s'))"

definition recordSlotSize :: "'m Codec \<Rightarrow> nat" where
  "recordSlotSize co = 1 + co_RECORD_SIZE co"

text \<open>\<open>create\<close> and \<open>open\<close>: the database is open exactly when they end without an error.\<close>

definition db_create :: "'s IRandomAccessStorage \<Rightarrow> 'm Codec \<Rightarrow> ('s, unit) db" where
  "db_create st co =
     p_bind (p_check DB_TRUNCATE_FAILED (st_truncate st RECORDS_START_OFFSET)) (\<lambda>_.
       p_bind (p_map_error DB_VERSION_WRITE_FAILED (writeVersion st DB_VERSION)) (\<lambda>_.
         p_map_error DB_HEADER_WRITE_FAILED
           (writeHeader st \<lparr>dh_recordModelVersion = co_MODEL_VERSION co, dh_recordsCount = 0\<rparr>)))"

definition db_open :: "'s IRandomAccessStorage \<Rightarrow> 'm Codec \<Rightarrow> ('s, unit) db" where
  "db_open st co =
     p_bind (p_size st) (\<lambda>fileSize.
       if fileSize < RECORDS_START_OFFSET then p_fail DB_FILE_TOO_SHORT
       else p_bind (p_map_error DB_VERSION_READ_FAILED (readVersion st)) (\<lambda>version.
         if version \<noteq> DB_VERSION then p_fail DB_DB_VERSION_MISMATCH
         else p_bind (p_map_error DB_HEADER_READ_FAILED (readHeader st)) (\<lambda>header.
           if dh_recordModelVersion header \<noteq> co_MODEL_VERSION co then p_fail DB_MODEL_VERSION_MISMATCH else p_ok ())))"

definition db_guard :: "bool \<Rightarrow> ('s, 'a) db \<Rightarrow> ('s, 'a) db" where
  "db_guard isOpen m = (if \<not> isOpen then p_fail DB_NOT_OPEN else m)"

text \<open>The private operations on one slot.\<close>

definition readSlotFlagsAt :: "'s IRandomAccessStorage \<Rightarrow> nat \<Rightarrow> ('s, u8) db" where
  "readSlotFlagsAt st slotOffset =
     p_bind (p_check DB_SEEK_FAILED (st_seek st slotOffset)) (\<lambda>_. p_bind (p_read DB_READ_FAILED st 1) (\<lambda>bs. p_ok (bs ! 0)))"

definition writeSlotFlagsAt :: "'s IRandomAccessStorage \<Rightarrow> nat \<Rightarrow> u8 \<Rightarrow> ('s, unit) db" where
  "writeSlotFlagsAt st slotOffset flags =
     p_bind (p_check DB_SEEK_FAILED (st_seek st slotOffset)) (\<lambda>_. p_write DB_WRITE_FAILED st [flags])"

definition readRecordPayloadAt :: "'s IRandomAccessStorage \<Rightarrow> 'm Codec \<Rightarrow> nat \<Rightarrow> ('s, u8 list) db" where
  "readRecordPayloadAt st co slotOffset =
     p_bind (p_check DB_SEEK_FAILED (st_seek st (recordPayloadOffset slotOffset))) (\<lambda>_. p_read DB_READ_FAILED st (co_RECORD_SIZE co))"

definition writeRecordPayloadAt :: "'s IRandomAccessStorage \<Rightarrow> nat \<Rightarrow> u8 list \<Rightarrow> ('s, unit) db" where
  "writeRecordPayloadAt st slotOffset recordBytes =
     p_bind (p_check DB_SEEK_FAILED (st_seek st (recordPayloadOffset slotOffset))) (\<lambda>_. p_write DB_WRITE_FAILED st recordBytes)"

definition writeLiveRecordSlot :: "'s IRandomAccessStorage \<Rightarrow> nat \<Rightarrow> u8 list \<Rightarrow> ('s, unit) db" where
  "writeLiveRecordSlot st slotOffset recordBytes =
     p_bind (p_check DB_SEEK_FAILED (st_seek st slotOffset)) (\<lambda>_.
       p_bind (p_write DB_WRITE_FAILED st [0]) (\<lambda>_. writeRecordPayloadAt st slotOffset recordBytes))"

definition appendRecordSlot :: "'s IRandomAccessStorage \<Rightarrow> 'm Codec \<Rightarrow> nat \<Rightarrow> u8 list \<Rightarrow> ('s, unit) db" where
  "appendRecordSlot st co slotOffset recordBytes =
     p_bind (p_size st) (\<lambda>fileSize.
       let requiredFileSize = slotOffset + recordSlotSize co
       in p_bind (if fileSize < requiredFileSize then p_check DB_TRUNCATE_FAILED (st_truncate st requiredFileSize) else p_ok ()) (\<lambda>_.
         writeLiveRecordSlot st slotOffset recordBytes))"

text \<open>One step of a scan: the flags of the slot at the cursor, and the move over its record.\<close>

definition read_flags :: "'s IRandomAccessStorage \<Rightarrow> ('s, u8) db" where
  "read_flags st = p_bind (p_read DB_READ_FAILED st 1) (\<lambda>bs. p_ok (bs ! 0))"

definition skip_record :: "'s IRandomAccessStorage \<Rightarrow> 'm Codec \<Rightarrow> ('s, unit) db" where
  "skip_record st co = p_check DB_SEEK_FAILED (st_seekForward st (recordSlotSize co - 1))"

section \<open>Scans\<close>

text \<open>The loop of \<open>liveCount\<close>, which stops without an error.\<close>

function live_loop :: "'s IRandomAccessStorage \<Rightarrow> 'm Codec \<Rightarrow> nat \<Rightarrow> nat \<Rightarrow> u16 \<Rightarrow> 's \<Rightarrow> u16 \<times> 's" where
  "live_loop st co fileSize slotOffset live s =
     (if slotOffset + recordSlotSize co \<le> fileSize then
        (case read_flags st s of
           (Inl _, s) \<Rightarrow> (live, s)
         | (Inr flags, s) \<Rightarrow>
             (let live = (if \<not> isRecordSlotDeleted flags then live + 1 else live)
              in case skip_record st co s of
                   (Inl _, s) \<Rightarrow> (live, s)
                 | (Inr _, s) \<Rightarrow> live_loop st co fileSize (slotOffset + recordSlotSize co) live s))
      else (live, s))"
  by pat_completeness auto
termination by (relation "measure (\<lambda>(st, co, fileSize, slotOffset, live, s). fileSize - slotOffset)") (auto simp: recordSlotSize_def)

definition liveCount :: "'s IRandomAccessStorage \<Rightarrow> bool \<Rightarrow> 'm Codec \<Rightarrow> 's \<Rightarrow> u16 \<times> 's" where
  "liveCount st isOpen co s =
     (let fileSize = st_size st s
      in if \<not> isOpen \<or> fileSize < RECORDS_START_OFFSET then (0, s)
         else
           (case st_seek st RECORDS_START_OFFSET s of (r, s) \<Rightarrow>
              if r \<noteq> STORAGE_OK then (0, s) else live_loop st co fileSize RECORDS_START_OFFSET 0 s))"

definition slotCount :: "'s IRandomAccessStorage \<Rightarrow> bool \<Rightarrow> 'm Codec \<Rightarrow> 's \<Rightarrow> nat" where
  "slotCount st isOpen co s =
     (let fileSize = st_size st s
      in if \<not> isOpen \<or> fileSize < RECORDS_START_OFFSET then 0 else (fileSize - RECORDS_START_OFFSET) div recordSlotSize co)"

text \<open>The loop of \<open>compact\<close>; its result is the offset behind the last live record.\<close>

function compact_loop :: "'s IRandomAccessStorage \<Rightarrow> 'm Codec \<Rightarrow> nat \<Rightarrow> nat \<Rightarrow> nat \<Rightarrow> ('s, nat) db" where
  "compact_loop st co fileSize slotOffset writeOffset =
     (if slotOffset + recordSlotSize co \<le> fileSize then
        p_bind (read_flags st) (\<lambda>flags.
          if isRecordSlotDeleted flags then
            p_bind (skip_record st co) (\<lambda>_. compact_loop st co fileSize (slotOffset + recordSlotSize co) writeOffset)
          else if slotOffset \<noteq> writeOffset then
            p_bind (p_read DB_READ_FAILED st (co_RECORD_SIZE co)) (\<lambda>recordBuffer.
              p_bind (writeLiveRecordSlot st writeOffset recordBuffer) (\<lambda>_.
                if fileSize < slotOffset + recordSlotSize co + recordSlotSize co then p_ok (writeOffset + recordSlotSize co)
                else
                  p_bind (p_check DB_SEEK_FAILED (st_seek st (slotOffset + recordSlotSize co))) (\<lambda>_.
                    compact_loop st co fileSize (slotOffset + recordSlotSize co) (writeOffset + recordSlotSize co))))
          else
            p_bind (skip_record st co) (\<lambda>_.
              compact_loop st co fileSize (slotOffset + recordSlotSize co) (writeOffset + recordSlotSize co)))
      else p_ok writeOffset)"
  by pat_completeness auto
termination by (relation "measure (\<lambda>(st, co, fileSize, slotOffset, writeOffset). fileSize - slotOffset)") (auto simp: recordSlotSize_def)

definition db_compact :: "'s IRandomAccessStorage \<Rightarrow> bool \<Rightarrow> 'm Codec \<Rightarrow> ('s, unit) db" where
  "db_compact st isOpen co =
     db_guard isOpen (p_bind (p_size st) (\<lambda>fileSize.
       if fileSize < RECORDS_START_OFFSET then p_fail DB_FILE_TOO_SHORT
       else
         p_bind (p_check DB_SEEK_FAILED (st_seek st RECORDS_START_OFFSET)) (\<lambda>_.
           p_bind (compact_loop st co fileSize RECORDS_START_OFFSET RECORDS_START_OFFSET) (\<lambda>writeOffset.
             p_check DB_TRUNCATE_FAILED (st_truncate st writeOffset)))))"

text \<open>
  \<open>foreachLive\<close>: the callback gets the reference, the offset of the payload and its size, and works on the storage and on a
  state of its own; an error in its result aborts the scan.
\<close>

type_synonym ('s, 'u) callback = "RecordRef \<Rightarrow> nat \<Rightarrow> nat \<Rightarrow> 'u \<Rightarrow> ('s, 'u) db"

function foreach_loop :: "'s IRandomAccessStorage \<Rightarrow> 'm Codec \<Rightarrow> ('s, 'u) callback \<Rightarrow> nat \<Rightarrow> nat \<Rightarrow> 'u \<Rightarrow> ('s, 'u) db" where
  "foreach_loop st co callback fileSize slotOffset u =
     (if slotOffset + recordSlotSize co \<le> fileSize then
        p_bind (read_flags st) (\<lambda>flags.
          if isRecordSlotDeleted flags then
            p_bind (skip_record st co) (\<lambda>_. foreach_loop st co callback fileSize (slotOffset + recordSlotSize co) u)
          else
            p_bind (p_map_error DB_FOREACH_ABORTED
                (callback \<lparr>ref_offset = of_nat slotOffset\<rparr> (recordPayloadOffset slotOffset) (co_RECORD_SIZE co) u)) (\<lambda>u.
              if fileSize < slotOffset + recordSlotSize co + recordSlotSize co then p_ok u
              else
                p_bind (p_check DB_SEEK_FAILED (st_seek st (slotOffset + recordSlotSize co))) (\<lambda>_.
                  foreach_loop st co callback fileSize (slotOffset + recordSlotSize co) u)))
      else p_ok u)"
  by pat_completeness auto
termination by (relation "measure (\<lambda>(st, co, callback, fileSize, slotOffset, u). fileSize - slotOffset)") (auto simp: recordSlotSize_def)

definition foreachLive :: "'s IRandomAccessStorage \<Rightarrow> bool \<Rightarrow> 'm Codec \<Rightarrow> ('s, 'u) callback \<Rightarrow> 'u \<Rightarrow> ('s, 'u) db" where
  "foreachLive st isOpen co callback u =
     db_guard isOpen (p_bind (p_size st) (\<lambda>fileSize.
       if fileSize < RECORDS_START_OFFSET then p_fail DB_FILE_TOO_SHORT
       else
         p_bind (p_check DB_SEEK_FAILED (st_seek st RECORDS_START_OFFSET)) (\<lambda>_.
           foreach_loop st co callback fileSize RECORDS_START_OFFSET u)))"

text \<open>The scans for the first slot that is live, or deleted, from an offset on; \<open>None\<close> with the offset where the slots end.\<close>

function next_slot :: "'s IRandomAccessStorage \<Rightarrow> 'm Codec \<Rightarrow> (u8 \<Rightarrow> bool) \<Rightarrow> nat \<Rightarrow> nat \<Rightarrow> ('s, bool \<times> nat) db" where
  "next_slot st co wanted fileSize slotOffset =
     (if slotOffset + recordSlotSize co \<le> fileSize then
        p_bind (read_flags st) (\<lambda>flags.
          if wanted flags then p_ok (True, slotOffset)
          else p_bind (skip_record st co) (\<lambda>_. next_slot st co wanted fileSize (slotOffset + recordSlotSize co)))
      else p_ok (False, slotOffset))"
  by pat_completeness auto
termination by (relation "measure (\<lambda>(st, co, wanted, fileSize, slotOffset). fileSize - slotOffset)") (auto simp: recordSlotSize_def)

text \<open>The outputs of \<open>nextLiveFrom\<close>: the reference, when one was found, and the offset to go on from.\<close>

definition nextLiveFrom :: "'s IRandomAccessStorage \<Rightarrow> bool \<Rightarrow> 'm Codec \<Rightarrow> nat \<Rightarrow> ('s, RecordRef option \<times> nat) db" where
  "nextLiveFrom st isOpen co fromSlotOffset =
     db_guard isOpen (p_bind (p_size st) (\<lambda>fileSize.
       if fileSize < RECORDS_START_OFFSET then p_fail DB_FILE_TOO_SHORT
       else
         (let slotOffset = (if fromSlotOffset < RECORDS_START_OFFSET then RECORDS_START_OFFSET else fromSlotOffset)
          in p_bind (p_check DB_SEEK_FAILED (st_seek st slotOffset)) (\<lambda>_.
               p_bind (next_slot st co (\<lambda>flags. \<not> isRecordSlotDeleted flags) fileSize slotOffset) (\<lambda>(found, offset).
                 if found then p_ok (Some \<lparr>ref_offset = of_nat offset\<rparr>, offset + recordSlotSize co) else p_ok (None, offset))))))"

section \<open>Records\<close>

definition db_read :: "'s IRandomAccessStorage \<Rightarrow> bool \<Rightarrow> 'm Codec \<Rightarrow> RecordRef \<Rightarrow> ('s, 'm) db" where
  "db_read st isOpen co recordRef =
     db_guard isOpen (p_bind (readSlotFlagsAt st (unat (ref_offset recordRef))) (\<lambda>flags.
       if isRecordSlotDeleted flags then p_fail DB_RECORD_DELETED
       else
         p_bind (readRecordPayloadAt st co (unat (ref_offset recordRef))) (\<lambda>bytes.
           case co_deserialize co bytes of None \<Rightarrow> p_fail DB_DESERIALIZE_FAILED | Some rec \<Rightarrow> p_ok rec)))"

definition insertSerialized :: "'s IRandomAccessStorage \<Rightarrow> bool \<Rightarrow> 'm Codec \<Rightarrow> u8 list \<Rightarrow> ('s, RecordRef) db" where
  "insertSerialized st isOpen co recordBytes =
     db_guard isOpen (p_bind (p_size st) (\<lambda>fileSize.
       p_bind
         (if RECORDS_START_OFFSET \<le> fileSize then
            p_bind (p_check DB_SEEK_FAILED (st_seek st RECORDS_START_OFFSET)) (\<lambda>_.
              next_slot st co isRecordSlotDeleted fileSize RECORDS_START_OFFSET)
          else p_ok (False, 0)) (\<lambda>(reuseTombstone, offset).
         let targetSlotOffset = (if reuseTombstone then offset
                                 else if RECORDS_START_OFFSET \<le> fileSize then fileSize else RECORDS_START_OFFSET)
         in p_bind (if \<not> reuseTombstone then appendRecordSlot st co targetSlotOffset recordBytes
                    else writeLiveRecordSlot st targetSlotOffset recordBytes) (\<lambda>_.
              p_ok \<lparr>ref_offset = of_nat targetSlotOffset\<rparr>))))"

definition replaceSerialized :: "'s IRandomAccessStorage \<Rightarrow> bool \<Rightarrow> RecordRef \<Rightarrow> u8 list \<Rightarrow> ('s, unit) db" where
  "replaceSerialized st isOpen recordRef recordBytes =
     db_guard isOpen (p_bind (readSlotFlagsAt st (unat (ref_offset recordRef))) (\<lambda>flags.
       if isRecordSlotDeleted flags then p_fail DB_RECORD_DELETED
       else writeRecordPayloadAt st (unat (ref_offset recordRef)) recordBytes))"

definition serialized :: "'m Codec \<Rightarrow> 'm \<Rightarrow> (u8 list \<Rightarrow> ('s, 'a) db) \<Rightarrow> ('s, 'a) db" where
  "serialized co rec f = (case co_serialize co rec of None \<Rightarrow> p_fail DB_SERIALIZE_FAILED | Some bytes \<Rightarrow> f bytes)"

definition db_insert :: "'s IRandomAccessStorage \<Rightarrow> bool \<Rightarrow> 'm Codec \<Rightarrow> 'm \<Rightarrow> ('s, RecordRef) db" where
  "db_insert st isOpen co rec = serialized co rec (insertSerialized st isOpen co)"

definition db_replace :: "'s IRandomAccessStorage \<Rightarrow> bool \<Rightarrow> 'm Codec \<Rightarrow> RecordRef \<Rightarrow> 'm \<Rightarrow> ('s, unit) db" where
  "db_replace st isOpen co recordRef rec = serialized co rec (replaceSerialized st isOpen recordRef)"

definition db_remove :: "'s IRandomAccessStorage \<Rightarrow> bool \<Rightarrow> RecordRef \<Rightarrow> ('s, unit) db" where
  "db_remove st isOpen recordRef =
     db_guard isOpen (p_bind (readSlotFlagsAt st (unat (ref_offset recordRef))) (\<lambda>flags.
       if isRecordSlotDeleted flags then p_fail DB_RECORD_DELETED
       else writeSlotFlagsAt st (unat (ref_offset recordRef)) (flags OR FLAG_DELETED)))"

declare live_loop.simps [simp del] compact_loop.simps [simp del] foreach_loop.simps [simp del] next_slot.simps [simp del]

end
