(* ===== verification/Database_Slots.thy ===== *)
theory Database_Slots
  imports
    Record_Database
begin

text \<open>
  The database as a list of slots: every operation on a healthy storage does to the file what the operation on the list
  does to its slots, a slot being a record or, where a record was deleted, nothing.
\<close>

section \<open>The slots of a file\<close>

definition slot_offset :: "nat \<Rightarrow> nat \<Rightarrow> nat" where
  "slot_offset n k = RECORDS_START_OFFSET + k * Suc n"

definition slot_count :: "nat \<Rightarrow> u8 list \<Rightarrow> nat" where
  "slot_count n bs = (length bs - RECORDS_START_OFFSET) div Suc n"

definition slot_at :: "nat \<Rightarrow> u8 list \<Rightarrow> nat \<Rightarrow> u8 list option" where
  "slot_at n bs k =
     (if isRecordSlotDeleted (bs ! slot_offset n k) then None else Some (take n (drop (slot_offset n k + 1) bs)))"

definition slots :: "nat \<Rightarrow> u8 list \<Rightarrow> u8 list option list" where
  "slots n bs = map (slot_at n bs) [0..<slot_count n bs]"

lemma slots_length [simp]: "length (slots n bs) = slot_count n bs"
  by (simp add: slots_def)

lemma slots_nth [simp]: "k < slot_count n bs \<Longrightarrow> slots n bs ! k = slot_at n bs k"
  by (simp add: slots_def)

lemma slot_offset_Suc: "slot_offset n (Suc k) = slot_offset n k + Suc n"
  by (simp add: slot_offset_def)

lemma slot_offset_zero [simp]: "slot_offset n 0 = RECORDS_START_OFFSET"
  by (simp add: slot_offset_def)

lemma slot_offset_eq [simp]: "slot_offset n k = slot_offset n j \<longleftrightarrow> k = j"
  using mult_cancel2 [of k "Suc n" j] by (simp add: slot_offset_def del: mult_Suc_right)

lemma slot_offset_less [simp]: "slot_offset n k < slot_offset n j \<longleftrightarrow> k < j"
  by (simp add: slot_offset_def mult_less_cancel2 del: mult_Suc_right)

lemma slot_fits:
  assumes "RECORDS_START_OFFSET \<le> length bs"
  shows "slot_offset n k + Suc n \<le> length bs \<longleftrightarrow> k < slot_count n bs"
proof -
  have "slot_offset n k + Suc n \<le> length bs \<longleftrightarrow> Suc k * Suc n \<le> length bs - RECORDS_START_OFFSET"
    using assms by (auto simp: slot_offset_def)
  also have "\<dots> \<longleftrightarrow> Suc k \<le> slot_count n bs" by (simp add: slot_count_def less_eq_div_iff_mult_less_eq del: mult_Suc_right mult_Suc)
  finally show ?thesis by (simp add: Suc_le_eq)
qed

lemma slot_inside: "k < slot_count n bs \<Longrightarrow> slot_offset n k + Suc n \<le> length bs"
proof -
  assume k: "k < slot_count n bs"
  then have "RECORDS_START_OFFSET \<le> length bs" by (cases "RECORDS_START_OFFSET \<le> length bs") (simp_all add: slot_count_def)
  then show ?thesis using slot_fits k by blast
qed

lemma slots_end: "RECORDS_START_OFFSET \<le> length bs \<Longrightarrow> slot_offset n (slot_count n bs) \<le> length bs"
  using slot_inside [of "slot_count n bs - 1" n bs] by (cases "slot_count n bs") (simp_all add: slot_offset_Suc)

lemma slots_apart: "j \<noteq> k \<Longrightarrow> slot_offset n j + Suc n \<le> slot_offset n k \<or> slot_offset n k + Suc n \<le> slot_offset n j"
  by (metis slot_offset_Suc slot_offset_less Suc_leI not_le nat_neq_iff less_antisym slot_offset_eq le_eq_less_or_eq)

section \<open>Changing a slot\<close>

lemma drop_overwrite_after:
  "p + length bs \<le> q \<Longrightarrow> q \<le> length content \<Longrightarrow> drop q (overwrite p bs content) = drop q content"
  by (intro nth_equalityI) (auto simp: overwrite_def nth_append)

lemma take_drop_overwrite_before:
  assumes "q + m \<le> p" "p + length bs \<le> length content"
  shows "take m (drop q (overwrite p bs content)) = take m (drop q content)"
  using assms by (intro nth_equalityI) (auto simp: nth_overwrite)

lemma slot_untouched:
  assumes "slot_offset n k \<le> p" "p + length bs \<le> slot_offset n k + Suc n" "k < slot_count n content" "j < slot_count n content" "j \<noteq> k"
  shows "slot_at n (overwrite p bs content) j = slot_at n content j"
proof -
  have in_k: "slot_offset n k + Suc n \<le> length content" and in_j: "slot_offset n j + Suc n \<le> length content"
    using assms slot_inside by blast+
  have "overwrite p bs content ! slot_offset n j = content ! slot_offset n j"
    using slots_apart [OF assms(5), of n] assms in_k in_j by (subst nth_overwrite) auto
  moreover have "take n (drop (slot_offset n j + 1) (overwrite p bs content)) = take n (drop (slot_offset n j + 1) content)"
    using slots_apart [OF assms(5), of n] assms in_k in_j
    by (elim disjE) (simp_all add: take_drop_overwrite_before drop_overwrite_after)
  ultimately show ?thesis by (simp add: slot_at_def)
qed

lemma slots_updated:
  assumes "slot_offset n k \<le> p" "p + length bs \<le> slot_offset n k + Suc n" "k < slot_count n content"
    and "slot_at n (overwrite p bs content) k = x"
  shows "slots n (overwrite p bs content) = (slots n content)[k := x]"
proof -
  have "slot_offset n k + Suc n \<le> length content" using assms(3) slot_inside by blast
  then have "length (overwrite p bs content) = length content" using assms(2) by simp
  then have c: "slot_count n (overwrite p bs content) = slot_count n content" by (simp add: slot_count_def)
  show ?thesis
    using assms slot_untouched by (intro nth_equalityI) (auto simp: c nth_list_update)
qed

lemma live_flag: "\<not> isRecordSlotDeleted 0"
  by (simp add: isRecordSlotDeleted_def)

lemma take_drop_at: "p + length bs \<le> length content \<Longrightarrow> take (length bs) (drop p (overwrite p bs content)) = bs"
  by (intro nth_equalityI) (auto simp: nth_overwrite)

lemma overwrite_twice:
  "p + Suc (length bs) \<le> length content \<Longrightarrow> overwrite (Suc p) bs (overwrite p [b] content) = overwrite p (b # bs) content"
  by (simp add: overwrite_def min_def add.commute)

lemma slot_written:
  assumes "k < slot_count n content" "length bs = n"
  shows "slots n (overwrite (slot_offset n k) (0 # bs) content) = (slots n content)[k := Some bs]"
proof (rule slots_updated)
  have i: "slot_offset n k + Suc n \<le> length content" using assms(1) by (rule slot_inside)
  have "overwrite (slot_offset n k) (0 # bs) content ! slot_offset n k = 0" using i assms(2) by (simp add: nth_overwrite)
  moreover have "take n (drop (slot_offset n k + 1) (overwrite (slot_offset n k) (0 # bs) content)) = bs"
    using i assms(2) take_drop_at [of "Suc (slot_offset n k)" bs "overwrite (slot_offset n k) [0] content"]
    by (simp add: overwrite_twice)
  ultimately show "slot_at n (overwrite (slot_offset n k) (0 # bs) content) k = Some bs" by (simp add: slot_at_def live_flag)
qed (use assms in auto)

lemma slot_deleted:
  assumes "k < slot_count n content" "isRecordSlotDeleted b"
  shows "slots n (overwrite (slot_offset n k) [b] content) = (slots n content)[k := None]"
proof (rule slots_updated)
  have i: "slot_offset n k + Suc n \<le> length content" using assms(1) by (rule slot_inside)
  then show "slot_at n (overwrite (slot_offset n k) [b] content) k = None" using assms(2) by (simp add: slot_at_def nth_overwrite)
qed (use assms in auto)

lemma slot_replaced:
  assumes "k < slot_count n content" "length bs = n" "slot_at n content k \<noteq> None"
  shows "slots n (overwrite (slot_offset n k + 1) bs content) = (slots n content)[k := Some bs]"
proof (rule slots_updated)
  have i: "slot_offset n k + Suc n \<le> length content" using assms(1) by (rule slot_inside)
  then show "slot_at n (overwrite (slot_offset n k + 1) bs content) k = Some bs"
    using assms(2,3) take_drop_at [of "slot_offset n k + 1" bs content] by (auto simp: slot_at_def nth_overwrite split: if_splits)
qed (use assms in auto)

text \<open>A slot depends on the file up to its end.\<close>

lemma slot_at_prefix:
  assumes "take (slot_offset n j + Suc n) a = take (slot_offset n j + Suc n) b"
  shows "slot_at n a j = slot_at n b j"
proof -
  have "a ! slot_offset n j = b ! slot_offset n j"
    using arg_cong [OF assms, of "\<lambda>bs. bs ! slot_offset n j"] by simp
  moreover have "take n (drop (slot_offset n j + 1) a) = take n (drop (slot_offset n j + 1) b)"
    using arg_cong [OF assms, of "drop (slot_offset n j + 1)"] by (simp add: drop_take)
  ultimately show ?thesis by (simp add: slot_at_def)
qed

text \<open>A file that ends with its last slot, as all files do that only completed operations have written.\<close>

definition aligned :: "nat \<Rightarrow> u8 list \<Rightarrow> bool" where
  "aligned n bs \<longleftrightarrow> length bs = slot_offset n (slot_count n bs)"

lemma count_of_offset: "length bs = slot_offset n k \<Longrightarrow> slot_count n bs = k"
  by (simp add: slot_count_def slot_offset_def del: mult_Suc_right)

lemma alignedI: "length bs = slot_offset n k \<Longrightarrow> aligned n bs"
  using count_of_offset by (simp add: aligned_def)

lemma slot_appended:
  assumes "aligned n content" "length bs = n"
  shows "slots n (overwrite (length content) (0 # bs) (resize (length content + Suc n) content)) = slots n content @ [Some bs]"
proof -
  let ?k = "slot_count n content" and ?g = "resize (length content + Suc n) content"
  have l: "length content = slot_offset n ?k" using assms(1) by (simp add: aligned_def)
  then have c: "slot_count n ?g = Suc ?k" by (intro count_of_offset) (simp add: slot_offset_Suc)
  have g: "?g = content @ replicate (Suc n) 0" by (simp add: resize_def)
  have same: "slot_at n ?g j = slot_at n content j" if "j < ?k" for j
    using slot_inside [OF that] unfolding g by (intro slot_at_prefix) simp
  have "slots n ?g = slots n content @ [slot_at n ?g ?k]"
    unfolding slots_def c using same by simp
  then show ?thesis using slot_written [of ?k n ?g bs] assms(2) c l by (simp add: list_update_append)
qed

lemma slots_cut:
  assumes "w \<le> slot_count n content"
  shows "slots n (resize (slot_offset n w) content) = take w (slots n content)" "aligned n (resize (slot_offset n w) content)"
proof -
  have c: "slot_count n (resize (slot_offset n w) content) = w" by (rule count_of_offset) simp
  show "aligned n (resize (slot_offset n w) content)" by (rule alignedI) simp
  have "slot_at n (resize (slot_offset n w) content) j = slot_at n content j" if "j < w" for j
  proof -
    have "slot_offset n j + Suc n \<le> slot_offset n w" using slots_apart [of j w n] that by (metis slot_offset_less leD le_add1 le_trans nat_neq_iff)
    moreover have "slot_offset n j + Suc n \<le> length content" using that assms by (intro slot_inside) simp
    ultimately show ?thesis by (intro slot_at_prefix) (simp add: resize_def min_def)
  qed
  then show "slots n (resize (slot_offset n w) content) = take w (slots n content)"
    using assms c by (intro nth_equalityI) auto
qed

section \<open>Scans\<close>

definition live_records :: "nat \<Rightarrow> u8 list \<Rightarrow> u8 list list" where
  "live_records n bs = List.map_filter (\<lambda>x. x) (slots n bs)"

lemma map_filter_simps2: "List.map_filter (\<lambda>x. x) (x # xs) = (case x of None \<Rightarrow> [] | Some y \<Rightarrow> [y]) @ List.map_filter (\<lambda>x. x) xs"
  by (simp add: List.map_filter_def split: option.split)

context random_access begin

text \<open>The first slot from the cursor on.\<close>

lemma flags_at:
  assumes "k < slot_count n (content s)" "cursor s = slot_offset n k"
    and "\<And>s'. content s' = content s \<Longrightarrow> cursor s' = slot_offset n k + 1 \<Longrightarrow> Q (content s ! slot_offset n k) s'"
  shows "ends (read_flags st) s Q"
proof -
  have i: "slot_offset n k + Suc n \<le> length (content s)" using assms(1) by (rule slot_inside)
  then have "take 1 (drop (slot_offset n k) (content s)) ! 0 = content s ! slot_offset n k" by simp
  then show ?thesis unfolding read_flags_def ends_bind
    using i assms(2,3) by (intro ends_read) simp_all
qed

lemma skip_at:
  assumes "k < slot_count n (content s)" "cursor s = slot_offset n k + 1" "co_RECORD_SIZE co = n"
    and "\<And>s'. content s' = content s \<Longrightarrow> cursor s' = slot_offset n (Suc k) \<Longrightarrow> Q () s'"
  shows "ends (skip_record st co) s Q"
proof -
  have i: "slot_offset n k + Suc n \<le> length (content s)" using assms(1) by (rule slot_inside)
  then show ?thesis unfolding skip_record_def using assms(2,3,4) by (intro ends_forward) (simp_all add: recordSlotSize_def slot_offset_Suc)
qed

lemma next_slot_found:
  assumes "RECORDS_START_OFFSET \<le> length (content s)" "co_RECORD_SIZE co = n" "k \<le> slot_count n (content s)" "cursor s = slot_offset n k"
  shows "ends (next_slot st co wanted (length (content s)) (slot_offset n k)) s
    (\<lambda>(found, offset) s'. content s' = content s
       \<and> (case List.find (\<lambda>j. wanted (content s ! slot_offset n j)) [k..<slot_count n (content s)] of
            Some j \<Rightarrow> found \<and> offset = slot_offset n j
          | None \<Rightarrow> \<not> found \<and> offset = slot_offset n (slot_count n (content s))))"
  using assms
proof (induction "slot_count n (content s) - k" arbitrary: k s)
  case 0
  then have "\<not> slot_offset n k + recordSlotSize co \<le> length (content s)" "k = slot_count n (content s)"
    using slot_fits [of "content s" n k] by (simp_all add: recordSlotSize_def)
  then show ?case by (subst next_slot.simps) simp
next
  case (Suc m)
  then have k: "k < slot_count n (content s)" and m: "m = slot_count n (content s) - Suc k" by simp_all
  let ?o = "slot_offset n k" and ?Q = "\<lambda>i (found, offset) s'. content s' = content s
       \<and> (case List.find (\<lambda>j. wanted (content s ! slot_offset n j)) [i..<slot_count n (content s)] of
            Some j \<Rightarrow> found \<and> offset = slot_offset n j
          | None \<Rightarrow> \<not> found \<and> offset = slot_offset n (slot_count n (content s)))"
  have fit: "?o + recordSlotSize co \<le> length (content s)" and size: "?o + recordSlotSize co = slot_offset n (Suc k)"
    using slot_inside [OF k] Suc.prems(2) by (simp_all add: recordSlotSize_def slot_offset_Suc)
  have "ends (p_bind (read_flags st) (\<lambda>flags. if wanted flags then p_ok (True, ?o)
      else p_bind (skip_record st co) (\<lambda>_. next_slot st co wanted (length (content s)) (?o + recordSlotSize co)))) s (?Q k)"
    unfolding ends_bind
  proof (rule flags_at [OF k Suc.prems(4)])
    fix s1 assume s1: "content s1 = content s" "cursor s1 = ?o + 1"
    show "ends (if wanted (content s ! ?o) then p_ok (True, ?o)
      else p_bind (skip_record st co) (\<lambda>_. next_slot st co wanted (length (content s)) (?o + recordSlotSize co))) s1 (?Q k)"
    proof (cases "wanted (content s ! ?o)")
      case True
      then show ?thesis using s1 k by (simp add: upt_rec [of k])
    next
      case False
      have "ends (p_bind (skip_record st co) (\<lambda>_. next_slot st co wanted (length (content s)) (?o + recordSlotSize co))) s1 (?Q (Suc k))"
        unfolding ends_bind size
      proof (rule skip_at [of k n s1])
        fix s2 assume "content s2 = content s1" "cursor s2 = slot_offset n (Suc k)"
        then show "ends (next_slot st co wanted (length (content s)) (slot_offset n (Suc k))) s2 (?Q (Suc k))"
          using Suc.hyps(1) [of s2 "Suc k"] m Suc.prems s1 k by (simp cong: option.case_cong)
      qed (use s1 k Suc.prems(2) in simp_all)
      then show ?thesis using False k by (simp add: upt_rec [of k])
    qed
  qed
  then show ?case using fit by (subst next_slot.simps) simp
qed

lemma live_counted:
  assumes "RECORDS_START_OFFSET \<le> length (content s)" "co_RECORD_SIZE co = n" "k \<le> slot_count n (content s)" "cursor s = slot_offset n k"
  shows "\<exists>s'. live_loop st co (length (content s)) (slot_offset n k) c s =
      (c + of_nat (length (List.map_filter (\<lambda>x. x) (drop k (slots n (content s))))), s') \<and> content s' = content s"
  using assms
proof (induction "slot_count n (content s) - k" arbitrary: k s c)
  case 0
  then have "\<not> slot_offset n k + recordSlotSize co \<le> length (content s)" "k = slot_count n (content s)"
    using slot_fits [of "content s" n k] by (simp_all add: recordSlotSize_def)
  then show ?case by (subst live_loop.simps) (simp add: List.map_filter_def)
next
  case (Suc m)
  then have k: "k < slot_count n (content s)" and m: "m = slot_count n (content s) - Suc k" by simp_all
  have fit: "slot_offset n k + recordSlotSize co \<le> length (content s)" using slot_inside [OF k] Suc.prems(2) by (simp add: recordSlotSize_def)
  have "ends (read_flags st) s (\<lambda>flags s'. flags = content s ! slot_offset n k \<and> content s' = content s \<and> cursor s' = slot_offset n k + 1)"
    using k Suc.prems(4) by (intro flags_at [of k n s]) simp_all
  then obtain s1 where s1: "read_flags st s = (Inr (content s ! slot_offset n k), s1)" "content s1 = content s" "cursor s1 = slot_offset n k + 1"
    by (auto dest!: ends_value)
  have "ends (skip_record st co) s1 (\<lambda>_ s'. content s' = content s \<and> cursor s' = slot_offset n (Suc k))"
    using s1 k Suc.prems(2) by (intro skip_at [of k n s1]) simp_all
  then obtain u s2 where s2: "skip_record st co s1 = (Inr u, s2)" "content s2 = content s" "cursor s2 = slot_offset n (Suc k)"
    by (auto dest!: ends_value)
  define c' where "c' = (if \<not> isRecordSlotDeleted (content s ! slot_offset n k) then c + 1 else c)"
  have d: "drop k (slots n (content s)) = slot_at n (content s) k # drop (Suc k) (slots n (content s))"
    using k by (simp add: Cons_nth_drop_Suc [symmetric])
  have c: "c' + of_nat (length (List.map_filter (\<lambda>x. x) (drop (Suc k) (slots n (content s)))))
      = c + of_nat (length (List.map_filter (\<lambda>x. x) (drop k (slots n (content s)))))"
    unfolding d by (simp add: c'_def map_filter_simps2 slot_at_def)
  obtain s' where s': "live_loop st co (length (content s2)) (slot_offset n (Suc k)) c' s2 =
      (c' + of_nat (length (List.map_filter (\<lambda>x. x) (drop (Suc k) (slots n (content s2))))), s')" "content s' = content s2"
    using Suc.hyps(1) [of s2 "Suc k" c'] m Suc.prems(1,2) k s2(2,3) by auto
  have size: "slot_offset n k + recordSlotSize co = slot_offset n (Suc k)" using Suc.prems(2) by (simp add: slot_offset_Suc recordSlotSize_def)
  have "live_loop st co (length (content s)) (slot_offset n k) c s = live_loop st co (length (content s)) (slot_offset n k + recordSlotSize co) c' s2"
    using fit s1 s2(1) by (subst live_loop.simps) (simp add: Let_def c'_def)
  then show ?case using s' unfolding size s2(2) c by (intro exI [of _ s'] conjI) (simp_all only:)
qed

text \<open>Every live record, with a callback that leaves the file and whose effect on its state is a function of the record.\<close>

lemma foreach_folds:
  assumes "RECORDS_START_OFFSET \<le> length (content s)" "co_RECORD_SIZE co = n" "k \<le> slot_count n (content s)" "cursor s = slot_offset n k"
    and "\<And>j p u s'. content s' = content s \<Longrightarrow> j < slot_count n (content s) \<Longrightarrow> slot_at n (content s) j = Some p
      \<Longrightarrow> cursor s' = slot_offset n j + 1
      \<Longrightarrow> ends (callback \<lparr>ref_offset = of_nat (slot_offset n j)\<rparr> (slot_offset n j + 1) n u) s' (\<lambda>u' s'. content s' = content s \<and> u' = f j p u)"
  shows "ends (foreach_loop st co callback (length (content s)) (slot_offset n k) u) s
    (\<lambda>u' s'. content s' = content s
       \<and> u' = fold (\<lambda>j u. case slot_at n (content s) j of None \<Rightarrow> u | Some p \<Rightarrow> f j p u) [k..<slot_count n (content s)] u)"
  using assms
proof (induction "slot_count n (content s) - k" arbitrary: k s u)
  case 0
  then have "\<not> slot_offset n k + recordSlotSize co \<le> length (content s)" "k = slot_count n (content s)"
    using slot_fits [of "content s" n k] by (simp_all add: recordSlotSize_def)
  then show ?case by (subst foreach_loop.simps) simp
next
  case (Suc m)
  then have k: "k < slot_count n (content s)" and m: "m = slot_count n (content s) - Suc k" by simp_all
  let ?bs = "content s" and ?o = "slot_offset n k" and ?o' = "slot_offset n (Suc k)"
  let ?g = "\<lambda>j u. case slot_at n ?bs j of None \<Rightarrow> u | Some p \<Rightarrow> f j p u"
  let ?Q = "\<lambda>u u' s'. content s' = ?bs \<and> u' = fold ?g [Suc k..<slot_count n ?bs] u"
  have fit: "?o + recordSlotSize co \<le> length ?bs" and size: "?o + recordSlotSize co = ?o'"
    using slot_inside [OF k] Suc.prems(2) by (simp_all add: recordSlotSize_def slot_offset_Suc)
  have rest: "ends (foreach_loop st co callback (length ?bs) ?o' v) s' (?Q v)"
    if "content s' = ?bs" "cursor s' = ?o'" for v s'
    using Suc.hyps(1) [of s' "Suc k" v] Suc.hyps(2) Suc.prems that k by simp
  show ?case
  proof (cases "slot_at n ?bs k")
    case None
    then have d: "isRecordSlotDeleted (?bs ! ?o)" by (auto simp: slot_at_def split: if_splits)
    have "ends (read_flags st) s (\<lambda>flags s'. flags = ?bs ! ?o \<and> content s' = ?bs \<and> cursor s' = ?o + 1)"
      using k Suc.prems(4) by (intro flags_at [of k n s]) simp_all
    then have "ends (p_bind (read_flags st) (\<lambda>flags. if isRecordSlotDeleted flags
          then p_bind (skip_record st co) (\<lambda>_. foreach_loop st co callback (length ?bs) (?o + recordSlotSize co) u) else after flags)) s (?Q u)" for after
    proof (rule ends_seq)
      fix flags s1 assume s1: "flags = ?bs ! ?o \<and> content s1 = ?bs \<and> cursor s1 = ?o + 1"
      have "ends (skip_record st co) s1 (\<lambda>_ s'. content s' = ?bs \<and> cursor s' = ?o')"
        using s1 k Suc.prems(2) by (intro skip_at [of k n s1]) simp_all
      then have "ends (p_bind (skip_record st co) (\<lambda>_. foreach_loop st co callback (length ?bs) (?o + recordSlotSize co) u)) s1 (?Q u)"
        by (rule ends_seq) (simp add: size rest)
      then show "ends (if isRecordSlotDeleted flags
          then p_bind (skip_record st co) (\<lambda>_. foreach_loop st co callback (length ?bs) (?o + recordSlotSize co) u) else after flags) s1 (?Q u)"
        using s1 d by simp
    qed
    then show ?thesis using fit None k by (subst foreach_loop.simps) (simp add: upt_rec [of k])
  next
    case (Some p)
    then have d: "\<not> isRecordSlotDeleted (?bs ! ?o)" by (auto simp: slot_at_def split: if_splits)
    have flags: "ends (read_flags st) s (\<lambda>flags s'. flags = ?bs ! ?o \<and> content s' = ?bs \<and> cursor s' = ?o + 1)"
      using k Suc.prems(4) by (intro flags_at [of k n s]) simp_all
    define more where "more u = (if length ?bs < ?o + recordSlotSize co + recordSlotSize co then p_ok u
        else p_bind (p_check DB_SEEK_FAILED (st_seek st (?o + recordSlotSize co))) (\<lambda>_.
               foreach_loop st co callback (length ?bs) (?o + recordSlotSize co) u))" for u
    have more: "ends (more v) s1 (?Q v)" if "content s1 = ?bs" for v s1
    proof (cases "length ?bs < ?o' + recordSlotSize co")
      case True
      then have "slot_count n ?bs \<le> Suc k"
        using slot_fits [OF Suc.prems(1), of n "Suc k"] Suc.prems(2) by (simp add: recordSlotSize_def)
      then show ?thesis using True that by (simp add: more_def size)
    next
      case False
      have "ends (p_check DB_SEEK_FAILED (st_seek st ?o')) s1 (\<lambda>_ s'. content s' = ?bs \<and> cursor s' = ?o')"
        using that fit by (intro ends_seek) (simp_all add: size)
      then have "ends (p_bind (p_check DB_SEEK_FAILED (st_seek st ?o')) (\<lambda>_. foreach_loop st co callback (length ?bs) ?o' v)) s1 (?Q v)"
        by (rule ends_seq) (simp add: rest)
      then show ?thesis using False by (simp add: more_def size)
    qed
    have call: "ends (p_map_error DB_FOREACH_ABORTED (callback \<lparr>ref_offset = of_nat ?o\<rparr> (recordPayloadOffset ?o) (co_RECORD_SIZE co) u)) s1
        (\<lambda>u' s'. content s' = ?bs \<and> u' = f k p u)" if "content s1 = ?bs" "cursor s1 = ?o + 1" for s1
      using Suc.prems(5) [OF that(1) k Some that(2), of u] Suc.prems(2)
      by (auto simp: ends_def p_map_error_def recordPayloadOffset_def split: prod.splits sum.splits)
    have "ends (p_bind (read_flags st) (\<lambda>flags. if isRecordSlotDeleted flags then after
        else p_bind (p_map_error DB_FOREACH_ABORTED (callback \<lparr>ref_offset = of_nat ?o\<rparr> (recordPayloadOffset ?o) (co_RECORD_SIZE co) u)) more)) s
        (?Q (f k p u))" for after
      using flags
    proof (rule ends_seq)
      fix flags s1 assume s1: "flags = ?bs ! ?o \<and> content s1 = ?bs \<and> cursor s1 = ?o + 1"
      have "ends (p_bind (p_map_error DB_FOREACH_ABORTED (callback \<lparr>ref_offset = of_nat ?o\<rparr> (recordPayloadOffset ?o) (co_RECORD_SIZE co) u)) more) s1
          (?Q (f k p u))"
        using call s1 by (intro ends_seq [OF call]) (auto simp: more)
      then show "ends (if isRecordSlotDeleted flags then after
        else p_bind (p_map_error DB_FOREACH_ABORTED (callback \<lparr>ref_offset = of_nat ?o\<rparr> (recordPayloadOffset ?o) (co_RECORD_SIZE co) u)) more) s1
        (?Q (f k p u))" using s1 d by simp
    qed
    then show ?thesis using fit Some k unfolding more_def by (subst foreach_loop.simps) (simp add: upt_rec [of k])
  qed
qed

text \<open>Writing a slot.\<close>

lemma slot_write:
  assumes "p + Suc (length bs) \<le> length (content s)"
  shows "ends (writeLiveRecordSlot st p bs) s (\<lambda>_ s'. content s' = overwrite p (0 # bs) (content s))"
proof -
  have "ends (p_check DB_SEEK_FAILED (st_seek st p)) s (\<lambda>_ s'. content s' = content s \<and> cursor s' = p)"
    using assms by (intro ends_seek) simp_all
  then show ?thesis unfolding writeLiveRecordSlot_def
  proof (rule ends_seq)
    fix s1 assume s1: "content s1 = content s \<and> cursor s1 = p"
    have "ends (p_write DB_WRITE_FAILED st [0]) s1 (\<lambda>_ s'. content s' = overwrite p [0] (content s))"
      using s1 assms by (intro ends_write) simp_all
    then show "ends (p_bind (p_write DB_WRITE_FAILED st [0]) (\<lambda>_. writeRecordPayloadAt st p bs)) s1 (\<lambda>_ s'. content s' = overwrite p (0 # bs) (content s))"
    proof (rule ends_seq)
      fix s2 assume s2: "content s2 = overwrite p [0] (content s)"
      then have l: "length (content s2) = length (content s)" using assms by simp
      have "ends (p_check DB_SEEK_FAILED (st_seek st (recordPayloadOffset p))) s2 (\<lambda>_ s'. content s' = content s2 \<and> cursor s' = Suc p)"
        using assms l by (intro ends_seek) (simp_all add: recordPayloadOffset_def)
      then show "ends (writeRecordPayloadAt st p bs) s2 (\<lambda>_ s'. content s' = overwrite p (0 # bs) (content s))"
        unfolding writeRecordPayloadAt_def
      proof (rule ends_seq)
        fix s3 assume "content s3 = content s2 \<and> cursor s3 = Suc p"
        then show "ends (p_write DB_WRITE_FAILED st bs) s3 (\<lambda>_ s'. content s' = overwrite p (0 # bs) (content s))"
          using assms l s2 overwrite_twice [OF assms, of 0] by (intro ends_write) simp_all
      qed
    qed
  qed
qed

text \<open>Moving the live records to the front: one record, and the scan.\<close>

lemma record_moved:
  assumes k: "k < slot_count n (content s)" "slot_at n (content s) k = Some p" "cursor s = slot_offset n k + 1" "co_RECORD_SIZE co = n"
    and w: "w < slot_count n (content s)"
    and more: "\<And>s'. content s' = overwrite (slot_offset n w) (0 # p) (content s) \<Longrightarrow> ends cont s' Q"
  shows "ends (p_bind (p_read DB_READ_FAILED st (co_RECORD_SIZE co)) (\<lambda>r. p_bind (writeLiveRecordSlot st (slot_offset n w) r) (\<lambda>_. cont))) s Q"
proof -
  have in_k: "slot_offset n k + Suc n \<le> length (content s)" and in_w: "slot_offset n w + Suc n \<le> length (content s)"
    using k(1) w slot_inside by blast+
  have p: "take n (drop (slot_offset n k + 1) (content s)) = p" using k(2) by (auto simp: slot_at_def split: if_splits)
  then have pl: "length p = n" using in_k by auto
  have "ends (p_read DB_READ_FAILED st (co_RECORD_SIZE co)) s (\<lambda>r s'. r = p \<and> content s' = content s)"
    using in_k p k(3,4) by (intro ends_read) simp_all
  then show ?thesis
  proof (rule ends_seq)
    fix r s2 assume s2: "r = p \<and> content s2 = content s"
    have "ends (writeLiveRecordSlot st (slot_offset n w) r) s2 (\<lambda>_ s'. content s' = overwrite (slot_offset n w) (0 # p) (content s))"
      using s2 slot_write [of "slot_offset n w" p s2] in_w pl by simp
    then show "ends (p_bind (writeLiveRecordSlot st (slot_offset n w) r) (\<lambda>_. cont)) s2 Q"
      by (rule ends_seq) (erule more)
  qed
qed

lemma compacted:
  assumes "co_RECORD_SIZE co = n" "RECORDS_START_OFFSET \<le> length (content s)" "length (content s) = fsize" "k \<le> slot_count n (content s)"
    and "cursor s = slot_offset n k" "w \<le> k" "drop k (slots n (content s)) = drop k xs" "length xs = slot_count n (content s)"
    and "take w (slots n (content s)) = map Some (List.map_filter (\<lambda>x. x) (take k xs))"
  shows "ends (compact_loop st co fsize (slot_offset n k) (slot_offset n w)) s
    (\<lambda>off s'. \<exists>w'. off = slot_offset n w' \<and> w' \<le> length xs \<and> length (content s') = fsize
       \<and> take RECORDS_START_OFFSET (content s') = take RECORDS_START_OFFSET (content s)
       \<and> take w' (slots n (content s')) = map Some (List.map_filter (\<lambda>x. x) xs))"
  using assms
proof (induction "slot_count n (content s) - k" arbitrary: k w s)
  case 0
  then have "\<not> slot_offset n k + recordSlotSize co \<le> fsize" "k = length xs"
    using slot_fits [of "content s" n k] by (simp_all add: recordSlotSize_def)
  then show ?case using 0 by (subst compact_loop.simps) auto
next
  case (Suc m)
  let ?bs = "content s" and ?o = "slot_offset n k" and ?o' = "slot_offset n (Suc k)"
  have k: "k < slot_count n ?bs" and m: "m = slot_count n ?bs - Suc k" using Suc.hyps(2) by simp_all
  have fit: "?o + recordSlotSize co \<le> fsize" and size: "\<And>j. slot_offset n j + recordSlotSize co = slot_offset n (Suc j)"
    using slot_inside [OF k] Suc.prems(1,3) by (simp_all add: recordSlotSize_def slot_offset_Suc)
  define Q where "Q = (\<lambda>off s'. \<exists>w'. off = slot_offset n w' \<and> w' \<le> length xs \<and> length (content s') = fsize
       \<and> take RECORDS_START_OFFSET (content s') = take RECORDS_START_OFFSET ?bs
       \<and> take w' (slots n (content s')) = map Some (List.map_filter (\<lambda>x. x) xs))"
  have xk: "xs ! k = slot_at n ?bs k" and dk: "drop (Suc k) (slots n ?bs) = drop (Suc k) xs"
  proof -
    show "xs ! k = slot_at n ?bs k"
      using Suc.prems(7,8) k nth_via_drop [of k xs "xs ! k"] by (metis Cons_nth_drop_Suc list.inject slots_length slots_nth)
    show "drop (Suc k) (slots n ?bs) = drop (Suc k) xs" using Suc.prems(7) by (metis drop_Suc tl_drop)
  qed
  have grow: "List.map_filter (\<lambda>x. x) (take (Suc k) xs) =
      List.map_filter (\<lambda>x. x) (take k xs) @ (case slot_at n ?bs k of None \<Rightarrow> [] | Some p \<Rightarrow> [p])"
    using k Suc.prems(8) xk by (simp add: take_Suc_conv_app_nth List.map_filter_def split: option.split)
  have flags: "ends (read_flags st) s (\<lambda>flags s'. flags = ?bs ! ?o \<and> content s' = ?bs \<and> cursor s' = ?o + 1)"
    using k Suc.prems(5) by (intro flags_at [of k n s]) simp_all
  have skip: "ends (p_bind (skip_record st co) (\<lambda>_. compact_loop st co fsize (?o + recordSlotSize co) (slot_offset n w'))) s1 Q"
    if "content s1 = ?bs" "cursor s1 = ?o + 1" "w' \<le> Suc k"
      "take w' (slots n ?bs) = map Some (List.map_filter (\<lambda>x. x) (take (Suc k) xs))" for s1 w'
  proof -
    have "ends (skip_record st co) s1 (\<lambda>_ s'. content s' = ?bs \<and> cursor s' = ?o')"
      using that k Suc.prems(1) by (intro skip_at [of k n s1]) simp_all
    then show ?thesis
    proof (rule ends_seq)
      fix s2 assume "content s2 = ?bs \<and> cursor s2 = ?o'"
      then show "ends (compact_loop st co fsize (?o + recordSlotSize co) (slot_offset n w')) s2 Q"
        using Suc.hyps(1) [of s2 "Suc k" w'] m Suc.prems k that dk by (simp add: size Q_def)
    qed
  qed
  have "ends (p_bind (read_flags st) (\<lambda>flags.
          if isRecordSlotDeleted flags then
            p_bind (skip_record st co) (\<lambda>_. compact_loop st co fsize (?o + recordSlotSize co) (slot_offset n w))
          else if ?o \<noteq> slot_offset n w then
            p_bind (p_read DB_READ_FAILED st (co_RECORD_SIZE co)) (\<lambda>recordBuffer.
              p_bind (writeLiveRecordSlot st (slot_offset n w) recordBuffer) (\<lambda>_.
                if fsize < ?o + recordSlotSize co + recordSlotSize co then p_ok (slot_offset n w + recordSlotSize co)
                else
                  p_bind (p_check DB_SEEK_FAILED (st_seek st (?o + recordSlotSize co))) (\<lambda>_.
                    compact_loop st co fsize (?o + recordSlotSize co) (slot_offset n w + recordSlotSize co))))
          else
            p_bind (skip_record st co) (\<lambda>_.
              compact_loop st co fsize (?o + recordSlotSize co) (slot_offset n w + recordSlotSize co)))) s Q"
    using flags
  proof (rule ends_seq)
    fix flags s1 assume s1: "flags = ?bs ! ?o \<and> content s1 = ?bs \<and> cursor s1 = ?o + 1"
    consider (deleted) "slot_at n ?bs k = None" "isRecordSlotDeleted flags"
      | (stays) p where "slot_at n ?bs k = Some p" "\<not> isRecordSlotDeleted flags" "k = w"
      | (moves) p where "slot_at n ?bs k = Some p" "\<not> isRecordSlotDeleted flags" "k \<noteq> w"
      using s1 by (cases "isRecordSlotDeleted flags") (auto simp: slot_at_def)
    then show "ends (if isRecordSlotDeleted flags then
            p_bind (skip_record st co) (\<lambda>_. compact_loop st co fsize (?o + recordSlotSize co) (slot_offset n w))
          else if ?o \<noteq> slot_offset n w then
            p_bind (p_read DB_READ_FAILED st (co_RECORD_SIZE co)) (\<lambda>recordBuffer.
              p_bind (writeLiveRecordSlot st (slot_offset n w) recordBuffer) (\<lambda>_.
                if fsize < ?o + recordSlotSize co + recordSlotSize co then p_ok (slot_offset n w + recordSlotSize co)
                else
                  p_bind (p_check DB_SEEK_FAILED (st_seek st (?o + recordSlotSize co))) (\<lambda>_.
                    compact_loop st co fsize (?o + recordSlotSize co) (slot_offset n w + recordSlotSize co))))
          else
            p_bind (skip_record st co) (\<lambda>_.
              compact_loop st co fsize (?o + recordSlotSize co) (slot_offset n w + recordSlotSize co))) s1 Q"
    proof cases
      case deleted
      then show ?thesis using skip [of s1 w] s1 grow Suc.prems(6,9) by simp
    next
      case stays
      have "take (Suc k) (slots n ?bs) = take k (slots n ?bs) @ [Some p]" using k stays(1) by (simp add: take_Suc_conv_app_nth)
      then show ?thesis using skip [of s1 "Suc k"] s1 grow Suc.prems(9) stays size [of w] by simp
    next
      case moves
      have wk: "w < k" using moves(3) Suc.prems(6) by simp
      then have wc: "w < slot_count n ?bs" using k by simp
      let ?bs' = "overwrite (slot_offset n w) (0 # p) ?bs"
      have pl: "length p = n" using moves(1) slot_inside [OF k] by (auto simp: slot_at_def split: if_splits)
      have len: "length ?bs' = length ?bs" using slot_inside [OF wc] pl by simp
      then have cnt: "slot_count n ?bs' = slot_count n ?bs" by (simp add: slot_count_def)
      have sl: "slots n ?bs' = (slots n ?bs)[w := Some p]" by (rule slot_written [OF wc pl])
      have head: "take RECORDS_START_OFFSET ?bs' = take RECORDS_START_OFFSET ?bs"
        using slot_inside [OF wc] by (simp add: overwrite_def slot_offset_def min_def)
      have taken: "take (Suc w) (slots n ?bs') = map Some (List.map_filter (\<lambda>x. x) (take (Suc k) xs))"
        using wc grow moves(1) Suc.prems(9) by (simp add: sl take_Suc_conv_app_nth)
      have dropped: "drop (Suc k) (slots n ?bs') = drop (Suc k) xs" using wk dk by (simp add: sl)
      have more: "ends (if fsize < ?o + recordSlotSize co + recordSlotSize co then p_ok (slot_offset n w + recordSlotSize co)
                else
                  p_bind (p_check DB_SEEK_FAILED (st_seek st (?o + recordSlotSize co))) (\<lambda>_.
                    compact_loop st co fsize (?o + recordSlotSize co) (slot_offset n w + recordSlotSize co))) s3 Q"
        if s3: "content s3 = ?bs'" for s3
      proof (cases "fsize < ?o' + recordSlotSize co")
        case True
        then have "slot_count n ?bs = Suc k" using slot_fits [OF Suc.prems(2), of n "Suc k"] k Suc.prems(1,3) by (simp add: recordSlotSize_def)
        then have "ends (p_ok (slot_offset n (Suc w)) :: ('s, nat) db) s3 Q"
          using s3 taken head len wk Suc.prems(3,8) by (auto simp: Q_def intro!: exI [of _ "Suc w"])
        then show ?thesis using True by (simp add: size)
      next
        case False
        have "ends (p_check DB_SEEK_FAILED (st_seek st ?o')) s3 (\<lambda>_ s'. content s' = ?bs' \<and> cursor s' = ?o')"
          using s3 fit len Suc.prems(3) by (intro ends_seek) (simp_all add: size)
        then have "ends (p_bind (p_check DB_SEEK_FAILED (st_seek st ?o')) (\<lambda>_. compact_loop st co fsize ?o' (slot_offset n (Suc w)))) s3 Q"
        proof (rule ends_seq)
          fix s4 assume "content s4 = ?bs' \<and> cursor s4 = ?o'"
          then show "ends (compact_loop st co fsize ?o' (slot_offset n (Suc w))) s4 Q"
            using Suc.hyps(1) [of s4 "Suc k" "Suc w"] m Suc.prems(1,2,3,8) k wk dropped taken cnt len head by (simp add: Q_def)
        qed
        then show ?thesis using False by (simp add: size)
      qed
      have ne: "?o \<noteq> slot_offset n w" using moves(3) by simp
      show ?thesis
        unfolding if_not_P [OF moves(2)] if_P [OF ne]
      proof (rule record_moved [of k n s1 p])
        show "\<And>s3. content s3 = overwrite (slot_offset n w) (0 # p) (content s1) \<Longrightarrow> ends (if fsize < ?o + recordSlotSize co + recordSlotSize co
                then p_ok (slot_offset n w + recordSlotSize co)
                else
                  p_bind (p_check DB_SEEK_FAILED (st_seek st (?o + recordSlotSize co))) (\<lambda>_.
                    compact_loop st co fsize (?o + recordSlotSize co) (slot_offset n w + recordSlotSize co))) s3 Q"
          using more s1 by simp
      qed (use s1 k wc moves Suc.prems(1) in simp_all)
    qed
  qed
  then show ?case using fit unfolding Q_def [symmetric] by (subst compact_loop.simps) simp
qed

end

end
