(* ===== verification/Database_Spec.thy ===== *)
theory Database_Spec
  imports
    Database_Slots
begin

text \<open>
  The specification of the database: calls on a list of slots, with their answers, and that every sequence of calls on a
  healthy storage gives these answers.
\<close>

section \<open>Calls\<close>

text \<open>The reference of a slot.\<close>

definition slot_ref :: "nat \<Rightarrow> nat \<Rightarrow> RecordRef" where
  "slot_ref n k = \<lparr>ref_offset = of_nat (slot_offset n k)\<rparr>"

datatype db_call = Insert "u8 list" | Fetch nat | Replace nat "u8 list" | Remove nat | NextLive nat | Count | Compact | Open | Create

datatype 'm db_answer = Done | Ref RecordRef | Record 'm | Live "RecordRef option" nat | Counted u16

definition answer :: "('a \<Rightarrow> 'm db_answer) \<Rightarrow> ('s, 'a) db \<Rightarrow> ('s, 'm db_answer) db" where
  "answer g m = p_bind m (\<lambda>x. p_ok (g x))"

fun db_run_call :: "'s IRandomAccessStorage \<Rightarrow> 'm Codec \<Rightarrow> db_call \<Rightarrow> ('s, 'm db_answer) db" where
  "db_run_call st co (Insert p) = answer Ref (insertSerialized st True co p)"
| "db_run_call st co (Fetch k) = answer Record (db_read st True co (slot_ref (co_RECORD_SIZE co) k))"
| "db_run_call st co (Replace k p) = answer (\<lambda>_. Done) (replaceSerialized st True (slot_ref (co_RECORD_SIZE co) k) p)"
| "db_run_call st co (Remove k) = answer (\<lambda>_. Done) (db_remove st True (slot_ref (co_RECORD_SIZE co) k))"
| "db_run_call st co (NextLive k) = answer (\<lambda>(r, n). Live r n) (nextLiveFrom st True co (slot_offset (co_RECORD_SIZE co) k))"
| "db_run_call st co Count = (\<lambda>s. case liveCount st True co s of (n, s') \<Rightarrow> (Inr (Counted n), s'))"
| "db_run_call st co Compact = answer (\<lambda>_. Done) (db_compact st True co)"
| "db_run_call st co Open = answer (\<lambda>_. Done) (db_open st co)"
| "db_run_call st co Create = answer (\<lambda>_. Done) (db_create st co)"

text \<open>The same calls on a list of slots.\<close>

definition free_slot :: "u8 list option list \<Rightarrow> nat" where
  "free_slot xs = (case List.find (\<lambda>j. xs ! j = None) [0..<length xs] of Some j \<Rightarrow> j | None \<Rightarrow> length xs)"

definition put_slot :: "nat \<Rightarrow> u8 list \<Rightarrow> u8 list option list \<Rightarrow> u8 list option list" where
  "put_slot k p xs = (if k < length xs then xs[k := Some p] else xs @ [Some p])"

definition live_slots :: "'a option list \<Rightarrow> 'a list" where
  "live_slots xs = List.map_filter (\<lambda>x. x) xs"

definition live_or :: "u8 list option list \<Rightarrow> nat \<Rightarrow> (u8 list \<Rightarrow> (DatabaseResult + 'a) \<times> u8 list option list)
    \<Rightarrow> (DatabaseResult + 'a) \<times> u8 list option list" where
  "live_or xs k f = (case xs ! k of None \<Rightarrow> (Inl DB_RECORD_DELETED, xs) | Some p \<Rightarrow> f p)"

fun slot_call :: "'m Codec \<Rightarrow> db_call \<Rightarrow> u8 list option list \<Rightarrow> (DatabaseResult + 'm db_answer) \<times> u8 list option list" where
  "slot_call co (Insert p) xs = (Inr (Ref (slot_ref (co_RECORD_SIZE co) (free_slot xs))), put_slot (free_slot xs) p xs)"
| "slot_call co (Fetch k) xs =
     live_or xs k (\<lambda>p. case co_deserialize co p of None \<Rightarrow> (Inl DB_DESERIALIZE_FAILED, xs) | Some r \<Rightarrow> (Inr (Record r), xs))"
| "slot_call co (Replace k p) xs = live_or xs k (\<lambda>_. (Inr Done, xs[k := Some p]))"
| "slot_call co (Remove k) xs = live_or xs k (\<lambda>_. (Inr Done, xs[k := None]))"
| "slot_call co (NextLive k) xs =
     (Inr (case List.find (\<lambda>j. xs ! j \<noteq> None) [k..<length xs] of
             Some j \<Rightarrow> Live (Some (slot_ref (co_RECORD_SIZE co) j)) (slot_offset (co_RECORD_SIZE co) (Suc j))
           | None \<Rightarrow> Live None (slot_offset (co_RECORD_SIZE co) (length xs))), xs)"
| "slot_call co Count xs = (Inr (Counted (of_nat (length (live_slots xs)))), xs)"
| "slot_call co Compact xs = (Inr Done, map Some (live_slots xs))"
| "slot_call co Open xs = (Inr Done, xs)"
| "slot_call co Create xs = (Inr Done, [])"

text \<open>A call on a slot that exists, with a record of the right size.\<close>

fun call_ok :: "nat \<Rightarrow> db_call \<Rightarrow> u8 list option list \<Rightarrow> bool" where
  "call_ok n (Insert p) xs \<longleftrightarrow> length p = n \<and> slot_offset n (Suc (length xs)) < 2 ^ 32"
| "call_ok n (Fetch k) xs \<longleftrightarrow> k < length xs"
| "call_ok n (Replace k p) xs \<longleftrightarrow> k < length xs \<and> length p = n"
| "call_ok n (Remove k) xs \<longleftrightarrow> k < length xs"
| "call_ok n (NextLive k) xs \<longleftrightarrow> k \<le> length xs"
| "call_ok n call xs \<longleftrightarrow> True"

text \<open>The file of a database: its header, whole slots, and an offset of 32 bits for each.\<close>

definition db_file :: "'m Codec \<Rightarrow> u8 list \<Rightarrow> bool" where
  "db_file co bs \<longleftrightarrow>
     RECORDS_START_OFFSET \<le> length bs \<and> take 2 bs = [DB_VERSION, co_MODEL_VERSION co] \<and> aligned (co_RECORD_SIZE co) bs
     \<and> length bs < 2 ^ 32"

lemma header_overwrite:
  "4 \<le> p \<Longrightarrow> p + length new \<le> length bs \<Longrightarrow> take 2 (overwrite p new bs) = take 2 bs"
  by (simp add: overwrite_def)

lemma overwrite_count: "p + length new \<le> length bs \<Longrightarrow> slot_count n (overwrite p new bs) = slot_count n bs"
  by (simp add: slot_count_def)

lemma file_overwritten:
  assumes "db_file co bs" "RECORDS_START_OFFSET \<le> p" "p + length new \<le> length bs"
  shows "db_file co (overwrite p new bs)"
  using assms by (auto simp: db_file_def header_overwrite aligned_def overwrite_count RECORDS_START_OFFSET_def)

lemma file_offset:
  assumes "db_file co bs" "co_RECORD_SIZE co = n" "k \<le> slot_count n bs"
  shows "unat (of_nat (slot_offset n k) :: u32) = slot_offset n k" "slot_offset n k \<le> length bs"
proof -
  have "slot_offset n k \<le> slot_offset n (slot_count n bs)" 
    using mult_le_mono1 [OF assms(3), of "Suc n"] by (simp add: slot_offset_def del: mult_Suc_right)
  then show l: "slot_offset n k \<le> length bs" using assms(1,2) by (simp add: db_file_def aligned_def)
  then have "slot_offset n k < 2 ^ 32" using assms(1) by (simp add: db_file_def)
  then show "unat (of_nat (slot_offset n k) :: u32) = slot_offset n k" by (simp add: unat_of_nat take_bit_nat_eq_self)
qed

section \<open>The operations\<close>

text \<open>What a program makes of a file: its answer and the file behind it.\<close>

definition turns :: "('s \<Rightarrow> u8 list) \<Rightarrow> ('s, 'e, 'a) prog \<Rightarrow> 's \<Rightarrow> 'e + 'a \<Rightarrow> u8 list \<Rightarrow> bool" where
  "turns content m s r bs \<longleftrightarrow> (\<exists>s'. m s = (r, s') \<and> content s' = bs)"

lemma turns_ok: "ends m s (\<lambda>x s'. x = v \<and> content s' = bs) \<Longrightarrow> turns content m s (Inr v) bs"
  by (auto simp: turns_def dest: ends_value)

lemma turns_fail: "turns content (p_fail e) s (Inl e) (content s)" "turns content (p_ok x) s (Inr x) (content s)"
  by (simp_all add: turns_def p_fail_def p_ok_def)

lemma turns_seq:
  "ends m s P \<Longrightarrow> (\<And>x s'. P x s' \<Longrightarrow> turns content (f x) s' r bs) \<Longrightarrow> turns content (p_bind m f) s r bs"
  by (auto simp: turns_def p_bind_def dest!: ends_value)

lemma turns_answer: "turns content m s (Inr x) bs \<Longrightarrow> turns content (answer g m) s (Inr (g x)) bs"
  "turns content m s (Inl e) bs \<Longrightarrow> turns content (answer g m) s (Inl e) bs"
  by (auto simp: turns_def answer_def p_bind_def p_ok_def)

lemma turns_size: "turns content (f (st_size st s)) s r bs \<Longrightarrow> turns content (p_bind (p_size st) f) s r bs"
  by (simp add: turns_def p_bind_def p_size_def)

lemma guard_open [simp]: "db_guard True m = m"
  by (simp add: db_guard_def)

lemma find_deleted:
  "List.find (\<lambda>j. isRecordSlotDeleted (bs ! slot_offset n j)) [0..<slot_count n bs] = List.find (\<lambda>j. slots n bs ! j = None) [0..<slot_count n bs]"
  "List.find (\<lambda>j. \<not> isRecordSlotDeleted (bs ! slot_offset n j)) [k..<slot_count n bs] = List.find (\<lambda>j. slots n bs ! j \<noteq> None) [k..<slot_count n bs]"
  by (intro find_cong; simp add: slot_at_def)+

context random_access begin

lemma flags_read:
  assumes "k < slot_count n (content s)"
  shows "ends (readSlotFlagsAt st (slot_offset n k)) s (\<lambda>f s'. f = content s ! slot_offset n k \<and> content s' = content s)"
proof -
  have "ends (p_check DB_SEEK_FAILED (st_seek st (slot_offset n k))) s (\<lambda>_ s'. content s' = content s \<and> cursor s' = slot_offset n k)"
    using slot_inside [OF assms] by (intro ends_seek) simp_all
  then show ?thesis unfolding readSlotFlagsAt_def
  proof (rule ends_seq)
    fix s1 assume "content s1 = content s \<and> cursor s1 = slot_offset n k"
    then show "ends (p_bind (p_read DB_READ_FAILED st 1) (\<lambda>bs. p_ok (bs ! 0))) s1 (\<lambda>f s'. f = content s ! slot_offset n k \<and> content s' = content s)"
      unfolding read_flags_def [symmetric] using assms by (intro flags_at [of k n s1]) simp_all
  qed
qed

text \<open>An operation on a slot: nothing but the error when it is deleted.\<close>

lemma on_live_slot:
  assumes "k < slot_count n (content s)" "unat (ref_offset ref) = slot_offset n k"
    and "\<And>p s'. slot_at n (content s) k = Some p \<Longrightarrow> content s' = content s
      \<Longrightarrow> turns content (f (content s ! slot_offset n k)) s' (r p) (bs p)"
  shows "turns content (p_bind (readSlotFlagsAt st (unat (ref_offset ref))) (\<lambda>flags. if isRecordSlotDeleted flags then p_fail DB_RECORD_DELETED else f flags)) s
      (case slot_at n (content s) k of None \<Rightarrow> Inl DB_RECORD_DELETED | Some p \<Rightarrow> r p)
      (case slot_at n (content s) k of None \<Rightarrow> content s | Some p \<Rightarrow> bs p)"
  unfolding assms(2)
proof (rule turns_seq [OF flags_read [OF assms(1)]])
  fix flags s' assume fl: "flags = content s ! slot_offset n k \<and> content s' = content s"
  show "turns content (if isRecordSlotDeleted flags then p_fail DB_RECORD_DELETED else f flags) s'
      (case slot_at n (content s) k of None \<Rightarrow> Inl DB_RECORD_DELETED | Some p \<Rightarrow> r p)
      (case slot_at n (content s) k of None \<Rightarrow> content s | Some p \<Rightarrow> bs p)"
  proof (cases "slot_at n (content s) k")
    case None
    then have "isRecordSlotDeleted flags" using fl by (auto simp: slot_at_def split: if_splits)
    then show ?thesis using None fl turns_fail(1) [of content DB_RECORD_DELETED s'] by simp
  next
    case (Some p)
    then have "\<not> isRecordSlotDeleted flags" using fl by (auto simp: slot_at_def split: if_splits)
    then show ?thesis using Some fl assms(3) [OF Some] by simp
  qed
qed

lemma payload_read:
  assumes "k < slot_count n (content s)" "slot_at n (content s) k = Some p" "co_RECORD_SIZE co = n"
  shows "ends (readRecordPayloadAt st co (slot_offset n k)) s (\<lambda>r s'. r = p \<and> content s' = content s)"
proof -
  have i: "slot_offset n k + Suc n \<le> length (content s)" by (rule slot_inside [OF assms(1)])
  have p: "take n (drop (slot_offset n k + 1) (content s)) = p" using assms(2) by (auto simp: slot_at_def split: if_splits)
  have "ends (p_check DB_SEEK_FAILED (st_seek st (slot_offset n k + 1))) s (\<lambda>_ s'. content s' = content s \<and> cursor s' = slot_offset n k + 1)"
    using i by (intro ends_seek) simp_all
  then show ?thesis unfolding readRecordPayloadAt_def recordPayloadOffset_def
  proof (rule ends_seq)
    fix s1 assume "content s1 = content s \<and> cursor s1 = slot_offset n k + 1"
    then show "ends (p_read DB_READ_FAILED st (co_RECORD_SIZE co)) s1 (\<lambda>r s'. r = p \<and> content s' = content s)"
      using i p assms(3) by (intro ends_read) simp_all
  qed
qed

lemma write_at:
  assumes "q + length bs \<le> length (content s)"
  shows "ends (p_bind (p_check DB_SEEK_FAILED (st_seek st q)) (\<lambda>_. p_write DB_WRITE_FAILED st bs)) s
    (\<lambda>_ s'. content s' = overwrite q bs (content s))"
proof -
  have "ends (p_check DB_SEEK_FAILED (st_seek st q)) s (\<lambda>_ s'. content s' = content s \<and> cursor s' = q)"
    using assms by (intro ends_seek) simp_all
  then show ?thesis by (rule ends_seq) (use assms in \<open>auto intro!: ends_write\<close>)
qed

lemma read_turns:
  assumes "db_file co (content s)" "k < slot_count (co_RECORD_SIZE co) (content s)"
  shows "turns content (db_read st True co (slot_ref (co_RECORD_SIZE co) k)) s
    (case slot_at (co_RECORD_SIZE co) (content s) k of None \<Rightarrow> Inl DB_RECORD_DELETED
     | Some p \<Rightarrow> (case co_deserialize co p of None \<Rightarrow> Inl DB_DESERIALIZE_FAILED | Some r \<Rightarrow> Inr r))
    (content s)"
proof -
  let ?n = "co_RECORD_SIZE co" and ?ref = "slot_ref (co_RECORD_SIZE co) k"
  have ref: "unat (ref_offset ?ref) = slot_offset ?n k" using file_offset(1) [OF assms(1) refl] assms(2) by (simp add: slot_ref_def)
  have "turns content (db_read st True co ?ref) s
    (case slot_at ?n (content s) k of None \<Rightarrow> Inl DB_RECORD_DELETED
     | Some p \<Rightarrow> (case co_deserialize co p of None \<Rightarrow> Inl DB_DESERIALIZE_FAILED | Some r \<Rightarrow> Inr r))
    (case slot_at ?n (content s) k of None \<Rightarrow> content s | Some p \<Rightarrow> content s)"
    unfolding db_read_def guard_open
  proof (rule on_live_slot [OF assms(2) ref])
    fix p s' assume p: "slot_at ?n (content s) k = Some p" "content s' = content s"
    have "ends (readRecordPayloadAt st co (slot_offset ?n k)) s' (\<lambda>r s2. r = p \<and> content s2 = content s)"
      using payload_read [of k ?n s' p co] p assms(2) by simp
    then show "turns content (p_bind (readRecordPayloadAt st co (unat (ref_offset ?ref)))
        (\<lambda>bytes. case co_deserialize co bytes of None \<Rightarrow> p_fail DB_DESERIALIZE_FAILED | Some rec \<Rightarrow> p_ok rec)) s'
      (case co_deserialize co p of None \<Rightarrow> Inl DB_DESERIALIZE_FAILED | Some r \<Rightarrow> Inr r) (content s)"
      unfolding ref by (rule turns_seq) (auto simp: turns_def p_fail_def p_ok_def split: option.split)
  qed
  moreover have "(case slot_at ?n (content s) k of None \<Rightarrow> content s | Some p \<Rightarrow> content s) = content s" by (simp split: option.split)
  ultimately show ?thesis by (simp only:)
qed

lemma replace_turns:
  assumes "db_file co (content s)" "k < slot_count (co_RECORD_SIZE co) (content s)" "length q = co_RECORD_SIZE co"
  shows "turns content (replaceSerialized st True (slot_ref (co_RECORD_SIZE co) k) q) s
    (case slot_at (co_RECORD_SIZE co) (content s) k of None \<Rightarrow> Inl DB_RECORD_DELETED | Some p \<Rightarrow> Inr ())
    (case slot_at (co_RECORD_SIZE co) (content s) k of None \<Rightarrow> content s
     | Some p \<Rightarrow> overwrite (slot_offset (co_RECORD_SIZE co) k + 1) q (content s))"
proof -
  let ?n = "co_RECORD_SIZE co" and ?ref = "slot_ref (co_RECORD_SIZE co) k"
  have ref: "unat (ref_offset ?ref) = slot_offset ?n k" using file_offset(1) [OF assms(1) refl] assms(2) by (simp add: slot_ref_def)
  show ?thesis unfolding replaceSerialized_def guard_open
  proof (rule on_live_slot [OF assms(2) ref])
    fix p s' assume p: "slot_at ?n (content s) k = Some p" "content s' = content s"
    have "ends (writeRecordPayloadAt st (slot_offset ?n k) q) s' (\<lambda>_ s2. content s2 = overwrite (slot_offset ?n k + 1) q (content s'))"
      unfolding writeRecordPayloadAt_def recordPayloadOffset_def
      using slot_inside [OF assms(2)] p(2) assms(3) by (intro write_at) simp
    then show "turns content (writeRecordPayloadAt st (unat (ref_offset ?ref)) q) s' (Inr ()) (overwrite (slot_offset ?n k + 1) q (content s))"
      unfolding ref using p(2) by (intro turns_ok) simp
  qed
qed

lemma remove_turns:
  assumes "db_file co (content s)" "k < slot_count (co_RECORD_SIZE co) (content s)"
  shows "turns content (db_remove st True (slot_ref (co_RECORD_SIZE co) k)) s
    (case slot_at (co_RECORD_SIZE co) (content s) k of None \<Rightarrow> Inl DB_RECORD_DELETED | Some p \<Rightarrow> Inr ())
    (case slot_at (co_RECORD_SIZE co) (content s) k of None \<Rightarrow> content s
     | Some p \<Rightarrow> overwrite (slot_offset (co_RECORD_SIZE co) k) [content s ! slot_offset (co_RECORD_SIZE co) k OR FLAG_DELETED] (content s))"
proof -
  let ?n = "co_RECORD_SIZE co" and ?ref = "slot_ref (co_RECORD_SIZE co) k"
  have ref: "unat (ref_offset ?ref) = slot_offset ?n k" using file_offset(1) [OF assms(1) refl] assms(2) by (simp add: slot_ref_def)
  show ?thesis unfolding db_remove_def guard_open
  proof (rule on_live_slot [OF assms(2) ref])
    fix p s' assume p: "slot_at ?n (content s) k = Some p" "content s' = content s"
    let ?f = "content s ! slot_offset ?n k OR FLAG_DELETED"
    have "ends (writeSlotFlagsAt st (slot_offset ?n k) ?f) s' (\<lambda>_ s2. content s2 = overwrite (slot_offset ?n k) [?f] (content s'))"
      unfolding writeSlotFlagsAt_def using slot_inside [OF assms(2)] p(2) by (intro write_at) simp
    then show "turns content (writeSlotFlagsAt st (unat (ref_offset ?ref)) ?f) s' (Inr ()) (overwrite (slot_offset ?n k) [?f] (content s))"
      unfolding ref using p(2) by (intro turns_ok) simp
  qed
qed

lemma start_scan:
  assumes "RECORDS_START_OFFSET \<le> length (content s)"
  shows "ends (p_check DB_SEEK_FAILED (st_seek st RECORDS_START_OFFSET)) s (\<lambda>_ s'. content s' = content s \<and> cursor s' = slot_offset n 0)"
  using assms by (intro ends_seek) simp_all

lemma insert_turns:
  assumes f: "db_file co (content s)" and n: "co_RECORD_SIZE co = n" and p: "length p = n"
  shows "turns content (insertSerialized st True co p) s (Inr (slot_ref n (free_slot (slots n (content s)))))
    (if free_slot (slots n (content s)) < slot_count n (content s)
     then overwrite (slot_offset n (free_slot (slots n (content s)))) (0 # p) (content s)
     else overwrite (length (content s)) (0 # p) (resize (length (content s) + Suc n) (content s)))"
proof -
  let ?bs = "content s" and ?c = "slot_count n (content s)"
  have start: "RECORDS_START_OFFSET \<le> length ?bs" and whole: "length ?bs = slot_offset n ?c"
    using f n by (simp_all add: db_file_def aligned_def)
  define k where "k = free_slot (slots n ?bs)"
  define found where "found = (k < ?c)"
  have kc: "k \<le> ?c" by (auto simp: k_def free_slot_def find_Some_iff split: option.split)
  have hit: "case List.find (\<lambda>j. slots n ?bs ! j = None) [0..<?c] of Some j \<Rightarrow> found \<and> k = j | None \<Rightarrow> \<not> found \<and> k = ?c"
  proof (cases "List.find (\<lambda>j. slots n ?bs ! j = None) [0..<?c]")
    case (Some j)
    then have "j < ?c" by (auto simp: find_Some_iff)
    then show ?thesis using Some by (simp add: k_def found_def free_slot_def)
  qed (simp add: k_def found_def free_slot_def)
  have scan: "ends (p_bind (p_check DB_SEEK_FAILED (st_seek st RECORDS_START_OFFSET)) (\<lambda>_.
        next_slot st co isRecordSlotDeleted (length ?bs) RECORDS_START_OFFSET)) s
      (\<lambda>(reuse, off) s'. content s' = ?bs \<and> reuse = found \<and> off = slot_offset n k)"
  proof (rule ends_seq [OF start_scan [OF start, of n]])
    fix s1 assume s1: "content s1 = ?bs \<and> cursor s1 = slot_offset n 0"
    have "ends (next_slot st co isRecordSlotDeleted (length (content s1)) (slot_offset n 0)) s1
      (\<lambda>(found, offset) s'. content s' = content s1
       \<and> (case List.find (\<lambda>j. isRecordSlotDeleted (content s1 ! slot_offset n j)) [0..<slot_count n (content s1)] of
            Some j \<Rightarrow> found \<and> offset = slot_offset n j
          | None \<Rightarrow> \<not> found \<and> offset = slot_offset n (slot_count n (content s1))))"
      using s1 start n by (intro next_slot_found) simp_all
    then show "ends (next_slot st co isRecordSlotDeleted (length ?bs) RECORDS_START_OFFSET) s1
      (\<lambda>(reuse, off) s'. content s' = ?bs \<and> reuse = found \<and> off = slot_offset n k)"
      using s1 hit by (cases "List.find (\<lambda>j. slots n ?bs ! j = None) [0..<?c]") (auto simp: find_deleted elim!: ends_weaken)
  qed
  let ?new = "if found then overwrite (slot_offset n k) (0 # p) ?bs else overwrite (length ?bs) (0 # p) (resize (length ?bs + Suc n) ?bs)"
  have put: "ends (if \<not> found then appendRecordSlot st co (slot_offset n k) p else writeLiveRecordSlot st (slot_offset n k) p) s1 (\<lambda>_ s'. content s' = ?new)"
    if s1: "content s1 = ?bs" for s1
  proof (cases found)
    case True
    then have "slot_offset n k + Suc (length p) \<le> length ?bs" using slot_inside [of k n ?bs] p by (simp add: found_def)
    then show ?thesis using slot_write [of "slot_offset n k" p s1] s1 True by simp
  next
    case False
    then have kc': "slot_offset n k = length ?bs" using kc whole by (simp add: found_def)
    have "ends (p_check DB_TRUNCATE_FAILED (st_truncate st (length ?bs + Suc n))) s1 (\<lambda>_ s'. content s' = resize (length ?bs + Suc n) ?bs)"
      using s1 by (intro ends_truncate) simp
    then have "ends (p_bind (p_check DB_TRUNCATE_FAILED (st_truncate st (length ?bs + Suc n))) (\<lambda>_. writeLiveRecordSlot st (length ?bs) p)) s1
        (\<lambda>_ s'. content s' = ?new)"
    proof (rule ends_seq)
      fix s2 assume "content s2 = resize (length ?bs + Suc n) ?bs"
      then show "ends (writeLiveRecordSlot st (length ?bs) p) s2 (\<lambda>_ s'. content s' = ?new)"
        using slot_write [of "length ?bs" p s2] p False by simp
    qed
    then show ?thesis using False kc' s1 n
      by (simp add: appendRecordSlot_def ends_bind ends_size size_law recordSlotSize_def Let_def)
  qed
  have "turns content (insertSerialized st True co p) s (Inr (slot_ref n k)) ?new"
    unfolding insertSerialized_def guard_open
  proof (rule turns_size, unfold size_law if_P [OF start], rule turns_seq [OF scan])
    fix x s1 assume x: "(case x of (reuse, off) \<Rightarrow> \<lambda>s'. content s' = ?bs \<and> reuse = found \<and> off = slot_offset n k) s1"
    have target: "(if found then slot_offset n k else length ?bs) = slot_offset n k" using kc whole by (auto simp: found_def)
    have "turns content (p_bind (if \<not> found then appendRecordSlot st co (slot_offset n k) p else writeLiveRecordSlot st (slot_offset n k) p)
        (\<lambda>_. p_ok \<lparr>ref_offset = of_nat (slot_offset n k)\<rparr>)) s1 (Inr (slot_ref n k)) ?new"
      using x by (intro turns_seq [OF put]) (auto simp: turns_def p_ok_def slot_ref_def split: prod.splits)
    then show "turns content (case x of (reuseTombstone, offset) \<Rightarrow>
          let targetSlotOffset = if reuseTombstone then offset else length ?bs
          in p_bind (if \<not> reuseTombstone then appendRecordSlot st co targetSlotOffset p else writeLiveRecordSlot st targetSlotOffset p)
               (\<lambda>_. p_ok \<lparr>ref_offset = of_nat targetSlotOffset\<rparr>)) s1 (Inr (slot_ref n k)) ?new"
      using x target by (auto simp: Let_def split: prod.splits)
  qed
  then show ?thesis by (simp only: k_def found_def)
qed

lemma next_live_turns:
  assumes f: "db_file co (content s)" and n: "co_RECORD_SIZE co = n" and k: "k \<le> slot_count n (content s)"
  shows "turns content (nextLiveFrom st True co (slot_offset n k)) s
    (Inr (case List.find (\<lambda>j. slots n (content s) ! j \<noteq> None) [k..<slot_count n (content s)] of
            Some j \<Rightarrow> (Some (slot_ref n j), slot_offset n (Suc j)) | None \<Rightarrow> (None, slot_offset n (slot_count n (content s))))) (content s)"
proof -
  let ?bs = "content s"
  have start: "RECORDS_START_OFFSET \<le> length ?bs" using f by (simp add: db_file_def)
  have off: "(if slot_offset n k < RECORDS_START_OFFSET then RECORDS_START_OFFSET else slot_offset n k) = slot_offset n k"
    by (simp add: slot_offset_def)
  have seek: "ends (p_check DB_SEEK_FAILED (st_seek st (slot_offset n k))) s (\<lambda>_ s'. content s' = ?bs \<and> cursor s' = slot_offset n k)"
    using file_offset(2) [OF f n k] by (intro ends_seek) simp_all
  show ?thesis unfolding nextLiveFrom_def guard_open
  proof (rule turns_size, unfold size_law if_not_P [OF leD [OF start]] Let_def off, rule turns_seq [OF seek])
    fix s1 assume s1: "content s1 = ?bs \<and> cursor s1 = slot_offset n k"
    have "ends (next_slot st co (\<lambda>flags. \<not> isRecordSlotDeleted flags) (length (content s1)) (slot_offset n k)) s1
      (\<lambda>(found, offset) s'. content s' = content s1
       \<and> (case List.find (\<lambda>j. \<not> isRecordSlotDeleted (content s1 ! slot_offset n j)) [k..<slot_count n (content s1)] of
            Some j \<Rightarrow> found \<and> offset = slot_offset n j
          | None \<Rightarrow> \<not> found \<and> offset = slot_offset n (slot_count n (content s1))))"
      using s1 start n k by (intro next_slot_found) simp_all
    then have "ends (next_slot st co (\<lambda>flags. \<not> isRecordSlotDeleted flags) (length ?bs) (slot_offset n k)) s1
      (\<lambda>(found, offset) s'. content s' = ?bs
       \<and> (case List.find (\<lambda>j. slots n ?bs ! j \<noteq> None) [k..<slot_count n ?bs] of
            Some j \<Rightarrow> found \<and> offset = slot_offset n j
          | None \<Rightarrow> \<not> found \<and> offset = slot_offset n (slot_count n ?bs)))"
      using s1 by (simp add: find_deleted cong: option.case_cong)
    then show "turns content (p_bind (next_slot st co (\<lambda>flags. \<not> isRecordSlotDeleted flags) (length ?bs) (slot_offset n k))
        (\<lambda>(found, offset). if found then p_ok (Some \<lparr>ref_offset = of_nat offset\<rparr>, offset + recordSlotSize co) else p_ok (None, offset))) s1
      (Inr (case List.find (\<lambda>j. slots n ?bs ! j \<noteq> None) [k..<slot_count n ?bs] of
            Some j \<Rightarrow> (Some (slot_ref n j), slot_offset n (Suc j)) | None \<Rightarrow> (None, slot_offset n (slot_count n ?bs)))) ?bs"
      by (rule turns_seq) (auto simp: turns_def p_ok_def slot_ref_def slot_offset_Suc recordSlotSize_def n split: option.splits)
  qed
qed

lemma count_turns:
  assumes "RECORDS_START_OFFSET \<le> length (content s)" "co_RECORD_SIZE co = n"
  shows "\<exists>s'. liveCount st True co s = (of_nat (length (live_slots (slots n (content s)))), s') \<and> content s' = content s"
proof -
  obtain s1 where s1: "st_seek st RECORDS_START_OFFSET s = (STORAGE_OK, s1)" "content s1 = content s" "cursor s1 = slot_offset n 0"
    using seek_law [OF assms(1)] by auto
  show ?thesis
    using live_counted [of s1 co n 0 0] assms s1 by (auto simp: liveCount_def size_law live_slots_def Let_def)
qed

lemma compact_turns:
  assumes f: "db_file co (content s)" and n: "co_RECORD_SIZE co = n"
  shows "\<exists>bs. turns content (db_compact st True co) s (Inr ()) bs \<and> db_file co bs
    \<and> slots n bs = map Some (live_slots (slots n (content s)))"
proof -
  let ?bs = "content s" and ?c = "slot_count n (content s)"
  have start: "RECORDS_START_OFFSET \<le> length ?bs" using f by (simp add: db_file_def)
  define P where "P = (\<lambda>off s'. \<exists>w'. off = slot_offset n w' \<and> w' \<le> ?c \<and> length (content s') = length ?bs
       \<and> take RECORDS_START_OFFSET (content s') = take RECORDS_START_OFFSET ?bs
       \<and> take w' (slots n (content s')) = map Some (live_slots (slots n ?bs)))"
  have "ends (p_bind (p_check DB_SEEK_FAILED (st_seek st RECORDS_START_OFFSET)) (\<lambda>_.
           p_bind (compact_loop st co (length ?bs) RECORDS_START_OFFSET RECORDS_START_OFFSET) (\<lambda>writeOffset.
             p_check DB_TRUNCATE_FAILED (st_truncate st writeOffset)))) s
      (\<lambda>_ s'. db_file co (content s') \<and> slots n (content s') = map Some (live_slots (slots n ?bs)))"
  proof (rule ends_seq [OF start_scan [OF start, of n]])
    fix s1 assume s1: "content s1 = ?bs \<and> cursor s1 = slot_offset n 0"
    have "ends (compact_loop st co (length ?bs) (slot_offset n 0) (slot_offset n 0)) s1 P"
      using compacted [of co n s1 "length ?bs" 0 0 "slots n ?bs"] s1 start n by (simp add: P_def live_slots_def List.map_filter_def)
    then show "ends (p_bind (compact_loop st co (length ?bs) RECORDS_START_OFFSET RECORDS_START_OFFSET) (\<lambda>writeOffset.
             p_check DB_TRUNCATE_FAILED (st_truncate st writeOffset))) s1
      (\<lambda>_ s'. db_file co (content s') \<and> slots n (content s') = map Some (live_slots (slots n ?bs)))"
      unfolding slot_offset_zero
    proof (rule ends_seq)
      fix off s2 assume "P off s2"
      then obtain w where w: "off = slot_offset n w" "w \<le> ?c" "length (content s2) = length ?bs"
        "take RECORDS_START_OFFSET (content s2) = take RECORDS_START_OFFSET ?bs"
        "take w (slots n (content s2)) = map Some (live_slots (slots n ?bs))" by (auto simp: P_def)
      have wc: "w \<le> slot_count n (content s2)" using w(2,3) by (simp add: slot_count_def)
      have le: "off \<le> length (content s2)" using file_offset(2) [OF f n w(2)] w(1,3) by simp
      have two: "take 2 (resize off (content s2)) = take 2 ?bs"
      proof -
        have "take 2 (resize off (content s2)) = take 2 (take RECORDS_START_OFFSET (content s2))"
          using le by (simp add: resize_def w(1) slot_offset_def RECORDS_START_OFFSET_def)
        then show ?thesis by (simp add: w(4)) (simp add: RECORDS_START_OFFSET_def)
      qed
      have "db_file co (resize off (content s2))"
        using two f n le w(1,3) slots_cut(2) [OF wc] by (auto simp: db_file_def slot_offset_def)
      then show "ends (p_check DB_TRUNCATE_FAILED (st_truncate st off)) s2
        (\<lambda>_ s'. db_file co (content s') \<and> slots n (content s') = map Some (live_slots (slots n ?bs)))"
        using slots_cut(1) [OF wc] w(1,5) by (intro ends_truncate) simp
    qed
  qed
  then obtain u s' where s': "p_bind (p_check DB_SEEK_FAILED (st_seek st RECORDS_START_OFFSET)) (\<lambda>_.
           p_bind (compact_loop st co (length ?bs) RECORDS_START_OFFSET RECORDS_START_OFFSET) (\<lambda>writeOffset.
             p_check DB_TRUNCATE_FAILED (st_truncate st writeOffset))) s = (Inr u, s')"
      "db_file co (content s')" "slots n (content s') = map Some (live_slots (slots n ?bs))"
    by (auto dest!: ends_value)
  have "turns content (db_compact st True co) s (Inr ()) (content s')"
    unfolding db_compact_def guard_open
    by (rule turns_size, unfold size_law if_not_P [OF leD [OF start]]) (use s'(1) in \<open>simp add: turns_def\<close>)
  then show ?thesis using s'(2,3) by blast
qed

lemma version_read:
  assumes "RECORDS_START_OFFSET \<le> length (content s)"
  shows "ends (p_map_error e (readVersion st)) s (\<lambda>v s'. v = content s ! 0 \<and> content s' = content s)"
    and "ends (p_map_error e (readHeader st)) s (\<lambda>h s'. dh_recordModelVersion h = content s ! 1 \<and> content s' = content s)"
proof -
  have map: "ends (p_map_error e m) s Q" if "ends m s Q" for m :: "('s, DatabaseFormatResult, 'b) prog" and Q
    using that by (auto simp: ends_def p_map_error_def split: prod.splits sum.splits)
  have seek: "ends (p_check DB_FORMAT_SEEK_FAILED (st_seek st q)) s (\<lambda>_ s'. content s' = content s \<and> cursor s' = q)" if "q \<le> 1" for q
    using that assms by (intro ends_seek) (simp_all add: RECORDS_START_OFFSET_def)
  have read: "ends (p_read DB_FORMAT_READ_FAILED st m) s1 (\<lambda>bs s'. bs = take m (drop q (content s)) \<and> content s' = content s)"
    if "content s1 = content s \<and> cursor s1 = q" "q + m \<le> length (content s)" for s1 q m
    using that by (intro ends_read) simp_all
  have size: "st_size st s = length (content s)" by (rule size_law)
  have short: "1 \<le> length (content s)" using assms by (simp add: RECORDS_START_OFFSET_def)
  have "ends (p_bind (p_check DB_FORMAT_SEEK_FAILED (st_seek st 0)) (\<lambda>_. p_bind (p_read DB_FORMAT_READ_FAILED st 1) (\<lambda>bs. p_ok (bs ! 0)))) s
      (\<lambda>v s'. v = content s ! 0 \<and> content s' = content s)"
    using short by (intro ends_seq [OF seek] ends_seq [OF read]) auto
  then show "ends (p_map_error e (readVersion st)) s (\<lambda>v s'. v = content s ! 0 \<and> content s' = content s)"
    using short by (intro map) (auto simp: readVersion_def ends_bind ends_size size)
  have "take 3 (drop 1 (content s)) ! 0 = content s ! 1" using assms by (simp add: RECORDS_START_OFFSET_def)
  then have "ends (p_bind (p_check DB_FORMAT_SEEK_FAILED (st_seek st 1)) (\<lambda>_. p_bind (p_read DB_FORMAT_READ_FAILED st 3) (\<lambda>bs. p_ok (get_DatabaseHeader bs)))) s
      (\<lambda>h s'. dh_recordModelVersion h = content s ! 1 \<and> content s' = content s)"
    using assms by (intro ends_seq [OF seek] ends_seq [OF read [of _ 1 3]]) (auto simp: RECORDS_START_OFFSET_def get_DatabaseHeader_def)
  then show "ends (p_map_error e (readHeader st)) s (\<lambda>h s'. dh_recordModelVersion h = content s ! 1 \<and> content s' = content s)"
    using assms by (intro map) (simp add: readHeader_def ends_bind ends_size size)
qed

text \<open>Opening answers what the header says.\<close>

lemma open_turns:
  "turns content (db_open st co) s
    (if length (content s) < RECORDS_START_OFFSET then Inl DB_FILE_TOO_SHORT
     else if content s ! 0 \<noteq> DB_VERSION then Inl DB_DB_VERSION_MISMATCH
     else if content s ! 1 \<noteq> co_MODEL_VERSION co then Inl DB_MODEL_VERSION_MISMATCH else Inr ()) (content s)"
proof (cases "length (content s) < RECORDS_START_OFFSET")
  case True
  then show ?thesis by (simp add: db_open_def turns_def p_bind_def p_size_def p_fail_def size_law)
next
  case False
  then have start: "RECORDS_START_OFFSET \<le> length (content s)" by simp
  let ?r = "if content s ! 0 \<noteq> DB_VERSION then Inl DB_DB_VERSION_MISMATCH
     else if content s ! 1 \<noteq> co_MODEL_VERSION co then Inl DB_MODEL_VERSION_MISMATCH else Inr ()"
  have "turns content (db_open st co) s ?r (content s)"
    unfolding db_open_def
  proof (rule turns_size, unfold size_law if_not_P [OF False], rule turns_seq [OF version_read(1) [OF start]])
    fix v s1 assume v: "v = content s ! 0 \<and> content s1 = content s"
    then have start1: "RECORDS_START_OFFSET \<le> length (content s1)" using start by simp
    have "turns content (p_bind (p_map_error DB_HEADER_READ_FAILED (readHeader st)) (\<lambda>header.
           if dh_recordModelVersion header \<noteq> co_MODEL_VERSION co then p_fail DB_MODEL_VERSION_MISMATCH else p_ok ())) s1
         (if content s ! 1 \<noteq> co_MODEL_VERSION co then Inl DB_MODEL_VERSION_MISMATCH else Inr ()) (content s)"
      using v by (intro turns_seq [OF version_read(2) [OF start1]]) (auto simp: turns_def p_fail_def p_ok_def)
    then show "turns content (if v \<noteq> DB_VERSION then p_fail DB_DB_VERSION_MISMATCH
         else p_bind (p_map_error DB_HEADER_READ_FAILED (readHeader st)) (\<lambda>header.
           if dh_recordModelVersion header \<noteq> co_MODEL_VERSION co then p_fail DB_MODEL_VERSION_MISMATCH else p_ok ())) s1 ?r (content s)"
      using v by (auto simp: turns_def p_fail_def)
  qed
  then show ?thesis using False by simp
qed

lemma create_turns:
  "\<exists>bs. turns content (db_create st co) s (Inr ()) bs \<and> db_file co bs \<and> slots n bs = []"
proof -
  have map: "ends (p_map_error e m) s Q" if "ends m s Q" for e s and m :: "('s, DatabaseFormatResult, unit) prog" and Q
    using that by (auto simp: ends_def p_map_error_def split: prod.splits sum.splits)
  have at: "ends (p_bind (p_check DB_FORMAT_SEEK_FAILED (st_seek st q)) (\<lambda>_. p_write DB_FORMAT_WRITE_FAILED st bs)) s
      (\<lambda>_ s'. content s' = overwrite q bs (content s))" if "q + length bs \<le> length (content s)" for q bs s
  proof -
    have "ends (p_check DB_FORMAT_SEEK_FAILED (st_seek st q)) s (\<lambda>_ s'. content s' = content s \<and> cursor s' = q)"
      using that by (intro ends_seek) simp_all
    then show ?thesis by (rule ends_seq) (use that in \<open>auto intro!: ends_write\<close>)
  qed
  let ?h = "put_DatabaseHeader \<lparr>dh_recordModelVersion = co_MODEL_VERSION co, dh_recordsCount = 0\<rparr>"
  have cut: "ends (p_check DB_TRUNCATE_FAILED (st_truncate st RECORDS_START_OFFSET)) s (\<lambda>_ s'. length (content s') = 4)"
    by (intro ends_truncate) (simp add: RECORDS_START_OFFSET_def)
  have version: "ends (p_map_error DB_VERSION_WRITE_FAILED (writeVersion st DB_VERSION)) s1 (\<lambda>_ s'. length (content s') = 4 \<and> take 1 (content s') = [DB_VERSION])"
    if "length (content s1) = 4" for s1
    unfolding writeVersion_def using at [of 0 "[DB_VERSION]" s1] that by (intro map) (auto simp: overwrite_def elim!: ends_weaken)
  have header: "ends (p_map_error DB_HEADER_WRITE_FAILED (writeHeader st \<lparr>dh_recordModelVersion = co_MODEL_VERSION co, dh_recordsCount = 0\<rparr>)) s2
      (\<lambda>_ s'. length (content s') = 4 \<and> take 2 (content s') = [DB_VERSION, co_MODEL_VERSION co])"
    if "length (content s2) = 4 \<and> take 1 (content s2) = [DB_VERSION]" for s2
    unfolding writeHeader_def using at [of 1 ?h s2] that
    by (intro map) (auto simp: overwrite_def put_DatabaseHeader_def elim!: ends_weaken)
  have "ends (db_create st co) s (\<lambda>_ s'. length (content s') = 4 \<and> take 2 (content s') = [DB_VERSION, co_MODEL_VERSION co])"
    unfolding db_create_def by (rule ends_seq [OF cut], rule ends_seq [OF version], assumption, rule header)
  then obtain s' where s': "db_create st co s = (Inr (), s')" "length (content s') = 4" "take 2 (content s') = [DB_VERSION, co_MODEL_VERSION co]"
    by (auto dest!: ends_value)
  have "slot_offset m 0 = length (content s')" for m using s'(2) by (simp add: RECORDS_START_OFFSET_def)
  then have "aligned m (content s')" "slot_count m (content s') = 0" for m using alignedI count_of_offset by metis+
  then have "db_file co (content s')" "slots n (content s') = []" using s' by (simp_all add: db_file_def RECORDS_START_OFFSET_def slots_def)
  then show ?thesis using s'(1) by (auto simp: turns_def)
qed

text \<open>Every call.\<close>

lemma call_turns:
  assumes f: "db_file co (content s)" and n: "co_RECORD_SIZE co = n" and ok: "call_ok n call (slots n (content s))"
  shows "\<exists>bs. turns content (db_run_call st co call) s (fst (slot_call co call (slots n (content s)))) bs
    \<and> db_file co bs \<and> slots n bs = snd (slot_call co call (slots n (content s)))"
proof (cases call)
  case (Insert p)
  let ?xs = "slots n (content s)" and ?c = "slot_count n (content s)"
  have whole: "length (content s) = slot_offset n ?c" "aligned n (content s)" using f n by (simp_all add: db_file_def aligned_def)
  have p: "length p = n" "slot_offset n (Suc ?c) < 2 ^ 32" using ok Insert by simp_all
  note t = insert_turns [OF f n p(1)]
  show ?thesis
  proof (cases "free_slot ?xs < ?c")
    case True
    have i: "slot_offset n (free_slot ?xs) + Suc n \<le> length (content s)" by (rule slot_inside [OF True])
    have "db_file co (overwrite (slot_offset n (free_slot ?xs)) (0 # p) (content s))"
      using file_overwritten [OF f, of "slot_offset n (free_slot ?xs)" "0 # p"] i p(1) by (simp add: slot_offset_def)
    then show ?thesis
      using t True slot_written [OF True p(1)] n Insert by (auto simp: put_slot_def intro!: exI turns_answer)
  next
    case False
    let ?g = "resize (length (content s) + Suc n) (content s)"
    have "length (overwrite (length (content s)) (0 # p) ?g) = slot_offset n (Suc ?c)" using whole(1) p(1) by (simp add: slot_offset_Suc)
    moreover have "take 2 (overwrite (length (content s)) (0 # p) ?g) = take 2 (content s)"
      using f by (simp add: overwrite_def resize_def db_file_def RECORDS_START_OFFSET_def)
    ultimately have "db_file co (overwrite (length (content s)) (0 # p) ?g)"
      using f p(2) n alignedI [of "overwrite (length (content s)) (0 # p) ?g" n "Suc ?c"]
      unfolding db_file_def by (simp del: overwrite_length) (simp add: slot_offset_def)
    then show ?thesis
      using t False slot_appended [OF whole(2) p(1)] n Insert by (auto simp: put_slot_def intro!: exI turns_answer)
  qed
next
  case (Fetch k)
  then show ?thesis using read_turns [OF f, of k] ok n f
    by (auto simp: live_or_def split: option.splits intro!: exI [of _ "content s"] turns_answer)
next
  case (Replace k p)
  have k: "k < slot_count n (content s)" "length p = n" using ok Replace by simp_all
  have i: "slot_offset n k + Suc n \<le> length (content s)" by (rule slot_inside [OF k(1)])
  have "db_file co (overwrite (slot_offset n k + 1) p (content s))"
    using file_overwritten [OF f, of "slot_offset n k + 1" p] i k(2) by (simp add: slot_offset_def)
  then show ?thesis using replace_turns [OF f, of k p] k n f Replace slot_replaced [OF k]
    by (auto simp: live_or_def split: option.splits intro!: exI turns_answer)
next
  case (Remove k)
  have k: "k < slot_count n (content s)" using ok Remove by simp
  let ?b = "content s ! slot_offset n k OR FLAG_DELETED"
  have i: "slot_offset n k + Suc n \<le> length (content s)" by (rule slot_inside [OF k])
  have d: "isRecordSlotDeleted ?b" by (simp add: isRecordSlotDeleted_def FLAG_DELETED_def bit.conj_disj_distrib2)
  have "db_file co (overwrite (slot_offset n k) [?b] (content s))"
    using file_overwritten [OF f, of "slot_offset n k" "[?b]"] i by (simp add: slot_offset_def)
  then show ?thesis using remove_turns [OF f, of k] k n f Remove slot_deleted [OF k d]
    by (auto simp: live_or_def split: option.splits intro!: exI turns_answer)
next
  case (NextLive k)
  then show ?thesis using next_live_turns [OF f n, of k] ok f n
    by (auto split: option.splits intro!: exI [of _ "content s"] dest!: turns_answer [where g = "\<lambda>(r, n). Live r n"])
next
  case Count
  have "RECORDS_START_OFFSET \<le> length (content s)" using f by (simp add: db_file_def)
  then show ?thesis using count_turns [of s co n] n f Count by (auto simp: turns_def intro!: exI [of _ "content s"])
next
  case Compact
  then show ?thesis using compact_turns [OF f n] by (auto intro: turns_answer)
next
  case Open
  have "content s ! 0 = DB_VERSION" "content s ! 1 = co_MODEL_VERSION co"
    using f nth_take [of 0 2 "content s"] nth_take [of 1 2 "content s"] by (simp_all add: db_file_def)
  then show ?thesis using open_turns [of co s] f n Open by (auto simp: db_file_def intro!: exI [of _ "content s"] turns_answer)
next
  case Create
  then show ?thesis using create_turns [of co s n] by (auto intro: turns_answer)
qed

end

section \<open>Sequences of calls\<close>

fun run_calls :: "'s IRandomAccessStorage \<Rightarrow> 'm Codec \<Rightarrow> db_call list \<Rightarrow> 's \<Rightarrow> (DatabaseResult + 'm db_answer) list \<times> 's" where
  "run_calls st co [] s = ([], s)"
| "run_calls st co (call # calls) s =
     (case db_run_call st co call s of (a, s') \<Rightarrow> (case run_calls st co calls s' of (answers, s'') \<Rightarrow> (a # answers, s'')))"

fun slot_calls :: "'m Codec \<Rightarrow> db_call list \<Rightarrow> u8 list option list \<Rightarrow> (DatabaseResult + 'm db_answer) list \<times> u8 list option list" where
  "slot_calls co [] xs = ([], xs)"
| "slot_calls co (call # calls) xs =
     (case slot_call co call xs of (a, ys) \<Rightarrow> (case slot_calls co calls ys of (answers, zs) \<Rightarrow> (a # answers, zs)))"

fun calls_ok :: "'m Codec \<Rightarrow> db_call list \<Rightarrow> u8 list option list \<Rightarrow> bool" where
  "calls_ok co [] xs \<longleftrightarrow> True"
| "calls_ok co (call # calls) xs \<longleftrightarrow> call_ok (co_RECORD_SIZE co) call xs \<and> calls_ok co calls (snd (slot_call co call xs))"

context random_access begin

lemma calls_turn:
  assumes "db_file co (content s)" "calls_ok co calls (slots (co_RECORD_SIZE co) (content s))"
  shows "\<exists>s'. run_calls st co calls s = (fst (slot_calls co calls (slots (co_RECORD_SIZE co) (content s))), s')
    \<and> db_file co (content s') \<and> slots (co_RECORD_SIZE co) (content s') = snd (slot_calls co calls (slots (co_RECORD_SIZE co) (content s)))"
  using assms
proof (induction calls arbitrary: s)
  case (Cons call calls)
  let ?n = "co_RECORD_SIZE co"
  obtain s1 where s1: "db_run_call st co call s = (fst (slot_call co call (slots ?n (content s))), s1)"
    "db_file co (content s1)" "slots ?n (content s1) = snd (slot_call co call (slots ?n (content s)))"
    using call_turns [OF Cons.prems(1) refl, of call] Cons.prems(2) by (auto simp: turns_def)
  then obtain s2 where "run_calls st co calls s1 = (fst (slot_calls co calls (slots ?n (content s1))), s2)"
    "db_file co (content s2)" "slots ?n (content s2) = snd (slot_calls co calls (slots ?n (content s1)))"
    using Cons.IH [OF s1(2)] Cons.prems(2) by auto
  then show ?case using s1 by (auto split: prod.splits)
qed simp

text \<open>The callback that lists what it is given, in the order it is given.\<close>

lemma foreach_lists:
  assumes f: "db_file co (content s)" and n: "co_RECORD_SIZE co = n"
  shows "\<exists>s'. foreachLive st True co (\<lambda>ref off size u. p_bind (p_read DB_READ_FAILED st size) (\<lambda>p. p_ok (u @ [(ref, p)]))) [] s =
      (Inr (concat (map (\<lambda>k. case slots n (content s) ! k of None \<Rightarrow> [] | Some p \<Rightarrow> [(slot_ref n k, p)]) [0..<slot_count n (content s)])), s')
    \<and> content s' = content s"
proof -
  let ?bs = "content s" and ?c = "slot_count n (content s)"
  let ?cb = "\<lambda>ref off size u. p_bind (p_read DB_READ_FAILED st size) (\<lambda>p. p_ok (u @ [(ref, p)]))"
  have start: "RECORDS_START_OFFSET \<le> length ?bs" using f by (simp add: db_file_def)
  have call: "ends (?cb (slot_ref n j) (slot_offset n j + 1) n u) s1 (\<lambda>u' s'. content s' = ?bs \<and> u' = u @ [(slot_ref n j, p)])"
    if "content s1 = ?bs" "j < ?c" "slot_at n ?bs j = Some p" "cursor s1 = slot_offset n j + 1" for j p u s1
  proof -
    have i: "slot_offset n j + Suc n \<le> length ?bs" by (rule slot_inside [OF that(2)])
    have "take n (drop (slot_offset n j + 1) ?bs) = p" using that(3) by (auto simp: slot_at_def split: if_splits)
    then show ?thesis unfolding ends_bind using that i by (intro ends_read) simp_all
  qed
  have run: "ends (foreachLive st True co ?cb []) s (\<lambda>u s'. content s' = ?bs
      \<and> u = fold (\<lambda>j u. case slot_at n ?bs j of None \<Rightarrow> u | Some p \<Rightarrow> u @ [(slot_ref n j, p)]) [0..<?c] [])"
    unfolding foreachLive_def guard_open
  proof (simp only: ends_bind ends_size size_law if_not_P [OF leD [OF start]], rule ends_weaken [OF start_scan [OF start, of n]])
    fix u s1 assume s1: "content s1 = ?bs \<and> cursor s1 = slot_offset n 0"
    have "ends (foreach_loop st co ?cb (length (content s1)) (slot_offset n 0) []) s1 (\<lambda>u s'. content s' = content s1
      \<and> u = fold (\<lambda>j u. case slot_at n (content s1) j of None \<Rightarrow> u | Some p \<Rightarrow> u @ [(slot_ref n j, p)]) [0..<slot_count n (content s1)] [])"
      using s1 start n call by (intro foreach_folds) (simp_all add: slot_ref_def)
    then show "ends (foreach_loop st co ?cb (length ?bs) RECORDS_START_OFFSET []) s1 (\<lambda>u s'. content s' = ?bs
      \<and> u = fold (\<lambda>j u. case slot_at n ?bs j of None \<Rightarrow> u | Some p \<Rightarrow> u @ [(slot_ref n j, p)]) [0..<?c] [])"
      using s1 by simp
  qed
  have list: "fold (\<lambda>j u. case slot_at n ?bs j of None \<Rightarrow> u | Some p \<Rightarrow> u @ [(slot_ref n j, p)]) is u
      = u @ concat (map (\<lambda>k. case slot_at n ?bs k of None \<Rightarrow> [] | Some p \<Rightarrow> [(slot_ref n k, p)]) is)" for u "is"
    by (induction "is" arbitrary: u) (simp_all split: option.split)
  have same: "concat (map (\<lambda>k. case slots n ?bs ! k of None \<Rightarrow> [] | Some p \<Rightarrow> [(slot_ref n k, p)]) [0..<?c])
      = concat (map (\<lambda>k. case slot_at n ?bs k of None \<Rightarrow> [] | Some p \<Rightarrow> [(slot_ref n k, p)]) [0..<?c])"
    by (intro arg_cong [where f = concat] map_cong) simp_all
  show ?thesis using run unfolding list same by (auto dest!: ends_value)
qed

end

section \<open>Properties\<close>

text \<open>
  C39. On a healthy file the database is the list of its slots: any sequence of inserting, reading, replacing, removing,
  iterating, counting, compacting, opening and creating is answered as the same calls on a list of optional records are, a
  new record takes the first deleted slot or the end, compacting keeps the live records in their order and drops the rest,
  and the file stays one whose slots are that list.
\<close>

theorem database_refines_slots:
  assumes "db_file co (mem_fileBytes s)" and "calls_ok co calls (slots (co_RECORD_SIZE co) (mem_fileBytes s))"
  shows "fst (run_calls memory co calls s) = fst (slot_calls co calls (slots (co_RECORD_SIZE co) (mem_fileBytes s)))
    \<and> slots (co_RECORD_SIZE co) (mem_fileBytes (snd (run_calls memory co calls s)))
      = snd (slot_calls co calls (slots (co_RECORD_SIZE co) (mem_fileBytes s)))
    \<and> db_file co (mem_fileBytes (snd (run_calls memory co calls s)))"
  using mem.calls_turn [OF assms] by auto

text \<open>A codec of two bytes, and a file with a deleted slot between two live ones.\<close>

definition pair_codec :: "(u8 \<times> u8) Codec" where
  "pair_codec = \<lparr>co_MODEL_VERSION = 1, co_RECORD_SIZE = 2, co_serialize = (\<lambda>(a, b). Some [a, b]), co_deserialize = (\<lambda>bs. Some (bs ! 0, bs ! 1))\<rparr>"

definition three_slots :: MemoryRandomAccessStorage where
  "three_slots = \<lparr>mem_fileBytes = [1, 1, 0, 0, 0, 10, 11, 1, 20, 21, 0, 30, 31], mem_seekPosition = 0\<rparr>"

lemma three_slots_read: "slots (co_RECORD_SIZE pair_codec) (mem_fileBytes three_slots) = [Some [10, 11], None, Some [30, 31]]"
  by code_simp

theorem database_refines_slots_witness:
  "slots 2 (mem_fileBytes (snd (run_calls memory pair_codec [Remove 2, Insert [40, 41], Fetch 1, Compact] three_slots))) = [Some [10, 11], Some [40, 41]]"
proof -
  let ?calls = "[Remove 2, Insert [40, 41], Fetch 1, Compact]"
  have width: "co_RECORD_SIZE pair_codec = 2" by (simp add: pair_codec_def)
  have healthy: "db_file pair_codec (mem_fileBytes three_slots)"
    by (simp add: db_file_def three_slots_def RECORDS_START_OFFSET_def DB_VERSION_def aligned_def slot_offset_def slot_count_def pair_codec_def)
  have ok: "calls_ok pair_codec ?calls (slots (co_RECORD_SIZE pair_codec) (mem_fileBytes three_slots))"
    unfolding three_slots_read
    by (simp add: width slot_offset_def RECORDS_START_OFFSET_def live_or_def free_slot_def put_slot_def upt_rec)
  have spec: "snd (slot_calls pair_codec ?calls (slots (co_RECORD_SIZE pair_codec) (mem_fileBytes three_slots))) = [Some [10, 11], Some [40, 41]]"
    unfolding three_slots_read
    by (simp add: live_or_def free_slot_def put_slot_def upt_rec pair_codec_def live_slots_def map_filter_simps)
  show ?thesis using database_refines_slots [OF healthy ok] unfolding spec unfolding width by (elim conjE)
qed

end
