(* ===== verification/Edge_Transport.thy ===== *)
theory Edge_Transport
  imports
    Byte_Queues Panel_Discovery
begin

text \<open>
  The panel's end of the trunk (\<open>Panel/EdgeUartTransport.cpp\<close>): one serial port, a multiplexer for receiving and one
  tri-state buffer per edge for sending. The registers that the code writes are fields: the select lines of the
  multiplexer, the enable lines (active low), the mask of the wake interrupts and the activity LED. Setting up the baud
  rate is left out.
\<close>

definition EDGE_COUNT :: nat where "EDGE_COUNT = 3"
definition PREAMBLE_BYTE_COUNT :: nat where "PREAMBLE_BYTE_COUNT = 2"
definition WAKE_PCINT_BITS :: u8 where "WAKE_PCINT_BITS = 0x0E"
definition TRUNK_LED_IDLE_MS :: u32 where "TRUNK_LED_IDLE_MS = 2"

record EdgeUartTransport =
  et_rxRing :: ByteRing
  et_transmitting :: bool
  et_txFrameCounts :: "u16 list"
  et_rxActivityStamp :: u8
  et_rxFramingErrorStamp :: u8
  et_rxOverrunErrorStamp :: u8
  et_lastRxActivityMs :: u32
  et_rxSelectedEdge :: u8
  et_seenStamp :: u8
  et_muxSelect :: "bool \<times> bool"
  et_outputEnable :: "bool list"
  et_PCMSK0 :: u8
  et_trunkLed :: bool

text \<open>The state that \<open>begin\<close> and the start of \<open>main\<close> leave.\<close>

definition et_begin :: EdgeUartTransport where
  "et_begin =
     \<lparr>et_rxRing = br_init RX_RING_BYTES, et_transmitting = False, et_txFrameCounts = replicate EDGE_COUNT 0,
      et_rxActivityStamp = 0, et_rxFramingErrorStamp = 0, et_rxOverrunErrorStamp = 0, et_lastRxActivityMs = 0,
      et_rxSelectedEdge = 0, et_seenStamp = 0, et_muxSelect = (False, False),
      et_outputEnable = replicate EDGE_COUNT True, et_PCMSK0 = WAKE_PCINT_BITS, et_trunkLed = False\<rparr>"

definition et_selectRxEdge :: "u8 \<Rightarrow> EdgeUartTransport \<Rightarrow> EdgeUartTransport" where
  "et_selectRxEdge edgeIndex t =
     t\<lparr>et_muxSelect := (edgeIndex AND 0x01 \<noteq> 0, edgeIndex AND 0x02 \<noteq> 0), et_rxSelectedEdge := edgeIndex\<rparr>"

definition et_setEdgeEnable :: "u8 \<Rightarrow> bool \<Rightarrow> EdgeUartTransport \<Rightarrow> EdgeUartTransport" where
  "et_setEdgeEnable edgeIndex enabled t = t\<lparr>et_outputEnable := (et_outputEnable t)[unat edgeIndex := \<not> enabled]\<rparr>"

definition et_available :: "EdgeUartTransport \<Rightarrow> bool" where
  "et_available t \<longleftrightarrow> \<not> br_empty (et_rxRing t)"

definition et_readByte :: "EdgeUartTransport \<Rightarrow> u8 \<times> EdgeUartTransport" where
  "et_readByte t =
     (case br_pop (et_rxRing t) of (popped, ring) \<Rightarrow>
        (case popped of Some v \<Rightarrow> v | None \<Rightarrow> 0, t\<lparr>et_rxRing := ring, et_rxActivityStamp := et_rxActivityStamp t + 1\<rparr>))"

definition et_onRxByte :: "u8 \<Rightarrow> EdgeUartTransport \<Rightarrow> EdgeUartTransport" where
  "et_onRxByte v t = (if et_transmitting t then t else t\<lparr>et_rxRing := snd (br_push v (et_rxRing t))\<rparr>)"

definition et_onRxFramingError :: "EdgeUartTransport \<Rightarrow> EdgeUartTransport" where
  "et_onRxFramingError t = t\<lparr>et_rxFramingErrorStamp := et_rxFramingErrorStamp t + 1\<rparr>"

definition et_onRxOverrunError :: "EdgeUartTransport \<Rightarrow> EdgeUartTransport" where
  "et_onRxOverrunError t = t\<lparr>et_rxOverrunErrorStamp := et_rxOverrunErrorStamp t + 1\<rparr>"

definition et_setWakeInterruptsEnabled :: "bool \<Rightarrow> EdgeUartTransport \<Rightarrow> EdgeUartTransport" where
  "et_setWakeInterruptsEnabled enabled t =
     t\<lparr>et_PCMSK0 := (if enabled then et_PCMSK0 t OR WAKE_PCINT_BITS else et_PCMSK0 t AND NOT WAKE_PCINT_BITS)\<rparr>"

text \<open>
  \<open>sendOnEdge\<close> up to the first byte, and from the last byte on; the mask of the wake interrupts is saved in between. The
  bytes go out on the edges whose buffer is enabled.
\<close>

definition et_sendBegin :: "u8 \<Rightarrow> EdgeUartTransport \<Rightarrow> u8 \<times> EdgeUartTransport" where
  "et_sendBegin edgeIndex t =
     (let t = t\<lparr>et_txFrameCounts := (et_txFrameCounts t)[unat edgeIndex := et_txFrameCounts t ! unat edgeIndex + 1],
                et_transmitting := True, et_trunkLed := True\<rparr>;
          savedWakeIntBits = et_PCMSK0 t AND WAKE_PCINT_BITS;
          t = t\<lparr>et_PCMSK0 := et_PCMSK0 t AND NOT WAKE_PCINT_BITS\<rparr>
      in (savedWakeIntBits, et_setEdgeEnable edgeIndex True t))"

definition et_sendEnd :: "u8 \<Rightarrow> u8 \<Rightarrow> EdgeUartTransport \<Rightarrow> EdgeUartTransport" where
  "et_sendEnd edgeIndex savedWakeIntBits t =
     (let t = et_setEdgeEnable edgeIndex False t;
          t = t\<lparr>et_transmitting := False, et_PCMSK0 := et_PCMSK0 t OR savedWakeIntBits\<rparr>
      in if \<not> et_available t then t\<lparr>et_trunkLed := False\<rparr> else t)"

definition et_driven :: "EdgeUartTransport \<Rightarrow> nat list" where
  "et_driven t = filter (\<lambda>e. \<not> et_outputEnable t ! e) [0..<length (et_outputEnable t)]"

definition et_frame :: "u8 list \<Rightarrow> u8 list" where
  "et_frame packet = replicate PREAMBLE_BYTE_COUNT 0xFF @ packet"

definition et_pollTrunkActivityLed :: "u32 \<Rightarrow> EdgeUartTransport \<Rightarrow> EdgeUartTransport" where
  "et_pollTrunkActivityLed nowMs t =
     (let activity = (et_rxActivityStamp t \<noteq> et_seenStamp t);
          t = (if activity then t\<lparr>et_seenStamp := et_rxActivityStamp t\<rparr> else t)
      in if et_transmitting t then t
         else if activity \<or> et_available t then t\<lparr>et_trunkLed := True, et_lastRxActivityMs := nowMs\<rparr>
         else if nowMs - et_lastRxActivityMs t < TRUNK_LED_IDLE_MS then t
         else t\<lparr>et_trunkLed := False\<rparr>)"

section \<open>The wake mask\<close>

text \<open>The three wake interrupts are masked together.\<close>

definition wakes_on :: "EdgeUartTransport \<Rightarrow> bool" where
  "wakes_on t \<longleftrightarrow> et_PCMSK0 t = WAKE_PCINT_BITS"

definition wakes_off :: "EdgeUartTransport \<Rightarrow> bool" where
  "wakes_off t \<longleftrightarrow> et_PCMSK0 t = 0"

lemma wakes_apart: "wakes_on t \<Longrightarrow> \<not> wakes_off t"
  by (simp add: wakes_on_def wakes_off_def WAKE_PCINT_BITS_def)

lemma wakes_set:
  "wakes_on t \<or> wakes_off t \<Longrightarrow> wakes_on (et_setWakeInterruptsEnabled True t)"
  "wakes_on t \<or> wakes_off t \<Longrightarrow> wakes_off (et_setWakeInterruptsEnabled False t)"
  by (auto simp: wakes_on_def wakes_off_def et_setWakeInterruptsEnabled_def WAKE_PCINT_BITS_def)

lemma wakes_saved:
  assumes "wakes_on t \<or> wakes_off t" "et_sendBegin e t = (saved, t')"
  shows "wakes_off t'" "et_transmitting t'" "wakes_on t \<and> saved = WAKE_PCINT_BITS \<or> wakes_off t \<and> saved = 0"
  using assms by (auto simp: et_sendBegin_def et_setEdgeEnable_def wakes_on_def wakes_off_def WAKE_PCINT_BITS_def Let_def)

text \<open>While a frame is sent, its bytes go out on its edge only, and an interrupt of the receiver stores nothing.\<close>

lemma sends_on_one_edge:
  assumes "et_outputEnable t = replicate EDGE_COUNT True" "unat e < EDGE_COUNT"
  shows "et_driven (snd (et_sendBegin e t)) = [unat e]"
    and "et_outputEnable (et_sendEnd e saved (snd (et_sendBegin e t))) = replicate EDGE_COUNT True"
proof -
  have enable: "et_outputEnable (snd (et_sendBegin e t)) = (replicate EDGE_COUNT True)[unat e := False]"
    using assms(1) by (simp add: et_sendBegin_def et_setEdgeEnable_def Let_def)
  have edge: "unat e = 0 \<or> unat e = 1 \<or> unat e = 2" using assms(2) by (auto simp: EDGE_COUNT_def)
  then show "et_driven (snd (et_sendBegin e t)) = [unat e]"
    by (elim disjE) (simp_all add: et_driven_def enable EDGE_COUNT_def numeral_eq_Suc)
  have "et_outputEnable (et_sendEnd e saved t') = (et_outputEnable t')[unat e := True]" for t'
    by (simp add: et_sendEnd_def et_setEdgeEnable_def Let_def)
  then show "et_outputEnable (et_sendEnd e saved (snd (et_sendBegin e t))) = replicate EDGE_COUNT True"
    using edge by (elim disjE) (simp_all add: enable EDGE_COUNT_def numeral_eq_Suc)
qed

lemma echo_masked: "et_transmitting t \<Longrightarrow> et_onRxByte v t = t"
  by (simp add: et_onRxByte_def)

end
