(* ===== verification/Panel_Loop.thy ===== *)
theory Panel_Loop
  imports
    Edge_Transport Frame_Receivers Link_Arq Panel_Node
begin

text \<open>
  The main loop of a panel and its two interrupt handlers (\<open>Panel/LightnetPanel.cpp\<close>, \<open>Panel/ArqEdgeLink.cpp\<close>,
  \<open>src/panel/main.cpp\<close>), composed of the receiver, the hop acknowledgments, the dispatcher, the packet handlers and the
  player. The code of debug builds is left out.

  The world around a panel is a script: for each point where the main loop can be interrupted, the interrupts that come in
  there and the clock after them. Behind its end nothing comes in and the clock goes on by one each time. What the panel
  does is listed as it happens.
\<close>

section \<open>The panel and its world\<close>

text \<open>An edge change with the level of the port, and a received byte.\<close>

datatype irq = Pcint u8 | Usart_Rx u8

text \<open>A frame with its preamble on an edge, a completed frame, a frame handed to the dispatcher, an effect, a line of the log.\<close>

datatype panel_out = Wire u8 "u8 list" | Heard u8 "u8 list" u32 | Dispatch u8 "u8 list" u32 | Act node_effect | Printed DeferredLogEntry

record LightnetPanel =
  ln_node :: PanelNode
  ln_transport :: EdgeUartTransport
  ln_arqLink :: ArqEdgeLink
  ln_receiver :: EdgeFrameReceiver
  ln_linkDedup :: LinkDedup
  ln_pendingWakeMask :: u8
  ln_lastRelayActivityMs :: u32
  ln_probingSinceMs :: u32
  ln_wakeInterruptsSuppressed :: bool
  ln_lastPinB :: u8

record world = LightnetPanel +
  w_script :: "(irq list \<times> u32) list"
  w_millis :: u32
  w_halted :: bool
  w_out :: "panel_out list"

definition RELAY_QUIET_MS :: u32 where "RELAY_QUIET_MS = 200"
definition PROBE_STUCK_MS :: u32 where "PROBE_STUCK_MS = 2000"
definition MAX_BYTES_PER_POLL :: nat where "MAX_BYTES_PER_POLL = 32"

definition w_emit :: "panel_out \<Rightarrow> world \<Rightarrow> world" where
  "w_emit x w = w\<lparr>w_out := w_out w @ [x]\<rparr>"

definition w_edge :: "(EdgeUartTransport \<Rightarrow> EdgeUartTransport) \<Rightarrow> world \<Rightarrow> world" where
  "w_edge f w = w\<lparr>ln_transport := f (ln_transport w)\<rparr>"

text \<open>The panel at boot.\<close>

definition ln_init :: "Slot list \<Rightarrow> GradientStop list \<Rightarrow> (irq list \<times> u32) list \<Rightarrow> world" where
  "ln_init slots palette script =
     \<lparr>ln_node = \<lparr>pn_driver = pdd_init (pd_init (of_nat EDGE_COUNT)), pn_player = ap_init slots palette, pn_rgb = rc_init\<rparr>,
      ln_transport = et_begin, ln_arqLink = \<lparr>al_ackMatcher = lam_init, al_linkRetransmits = 0, al_linkAckTimeouts = 0\<rparr>,
      ln_receiver = efr_init, ln_linkDedup = ld_init EDGE_COUNT, ln_pendingWakeMask = 0, ln_lastRelayActivityMs = 0,
      ln_probingSinceMs = 0, ln_wakeInterruptsSuppressed = False, ln_lastPinB = 0,
      w_script = script, w_millis = 0, w_halted = False, w_out = []\<rparr>"

section \<open>Interrupts\<close>

definition onEdgeWakeIsr :: "nat \<Rightarrow> world \<Rightarrow> world" where
  "onEdgeWakeIsr edgeIndex w =
     (if et_transmitting (ln_transport w) then w
      else (w_edge (et_setWakeInterruptsEnabled False) (w\<lparr>ln_pendingWakeMask := ln_pendingWakeMask w OR push_bit edgeIndex 1\<rparr>))
             \<lparr>ln_wakeInterruptsSuppressed := True\<rparr>)"

text \<open>The handler of a change on the port; it looks at the three lines whatever the mask is by then.\<close>

definition pcint0_isr :: "u8 \<Rightarrow> world \<Rightarrow> world" where
  "pcint0_isr pinB w =
     (let changed = pinB XOR ln_lastPinB w
      in fold (\<lambda>edge w. if changed AND push_bit (edge + 1) 1 \<noteq> 0 then onEdgeWakeIsr edge w else w) [0..<EDGE_COUNT]
           (w\<lparr>ln_lastPinB := pinB\<rparr>))"

text \<open>The hardware calls it only for lines that are not masked.\<close>

fun irq_run :: "irq \<Rightarrow> world \<Rightarrow> world" where
  "irq_run (Pcint pinB) w = (if et_PCMSK0 (ln_transport w) AND WAKE_PCINT_BITS = 0 then w else pcint0_isr pinB w)"
| "irq_run (Usart_Rx v) w = w_edge (et_onRxByte v) w"

text \<open>A point of the main loop where interrupts come in.\<close>

definition pass :: "world \<Rightarrow> world" where
  "pass w =
     (case w_script w of
        [] \<Rightarrow> w\<lparr>w_millis := w_millis w + 1\<rparr>
      | (irqs, t) # script \<Rightarrow> fold irq_run irqs (w\<lparr>w_script := script, w_millis := t\<rparr>))"

section \<open>Sending\<close>

definition ln_transmit :: "u8 \<Rightarrow> u8 list \<Rightarrow> world \<Rightarrow> world" where
  "ln_transmit edgeIndex packet w =
     (case et_sendBegin edgeIndex (ln_transport w) of (saved, t) \<Rightarrow>
        let w = fold (\<lambda>_. pass) (et_frame packet) (w\<lparr>ln_transport := t\<rparr>)
        in w_emit (Wire edgeIndex (et_frame packet)) (w_edge (et_sendEnd edgeIndex saved) w))"

definition syncWakeInterruptSuppression :: "world \<Rightarrow> world" where
  "syncWakeInterruptSuppression w =
     (let shouldSuppress = (efr_claimedEdge (ln_receiver w) \<noteq> NO_EDGE);
          w = pass w
      in if shouldSuppress = ln_wakeInterruptsSuppressed w then w
         else
           (let w = pass (w\<lparr>ln_wakeInterruptsSuppressed := shouldSuppress\<rparr>)
            in w_edge (et_setWakeInterruptsEnabled (\<not> shouldSuppress)) w))"

definition clearPendingWakes :: "world \<Rightarrow> world" where
  "clearPendingWakes w = w\<lparr>ln_pendingWakeMask := 0\<rparr>"

definition onLinkWindowBegin :: "world \<Rightarrow> world" where
  "onLinkWindowBegin w =
     (let w = pass (w_edge (et_setWakeInterruptsEnabled False) w)
      in clearPendingWakes (w\<lparr>ln_wakeInterruptsSuppressed := True\<rparr>))"

definition onLinkWindowEnd :: "world \<Rightarrow> world" where
  "onLinkWindowEnd w = syncWakeInterruptSuppression (clearPendingWakes w)"

text \<open>The window for one acknowledgment: it reads the bytes of the ring until the clock passes the deadline.\<close>

definition ln_readByte :: "world \<Rightarrow> u8 \<times> world" where
  "ln_readByte w = (case et_readByte (ln_transport w) of (v, t) \<Rightarrow> (v, w\<lparr>ln_transport := t\<rparr>))"

definition ln_matchByte :: "u8 \<Rightarrow> world \<Rightarrow> u16 option \<times> world" where
  "ln_matchByte v w =
     (case lam_pushByte v (al_ackMatcher (ln_arqLink w)) of (acked, m) \<Rightarrow> (acked, w\<lparr>ln_arqLink := (ln_arqLink w)\<lparr>al_ackMatcher := m\<rparr>\<rparr>))"

lemma irq_world:
  "w_script (irq_run i w) = w_script w" "w_millis (irq_run i w) = w_millis w" "w_halted (irq_run i w) = w_halted w"
  "w_out (irq_run i w) = w_out w" "ln_node (irq_run i w) = ln_node w" "ln_arqLink (irq_run i w) = ln_arqLink w"
  "ln_receiver (irq_run i w) = ln_receiver w" "ln_linkDedup (irq_run i w) = ln_linkDedup w"
  "ln_lastRelayActivityMs (irq_run i w) = ln_lastRelayActivityMs w" "ln_probingSinceMs (irq_run i w) = ln_probingSinceMs w"
  by (cases i; simp add: pcint0_isr_def onEdgeWakeIsr_def w_edge_def Let_def EDGE_COUNT_def upt_rec)+

lemma irqs_world:
  "w_script (fold irq_run is w) = w_script w" "w_millis (fold irq_run is w) = w_millis w" "w_halted (fold irq_run is w) = w_halted w"
  "w_out (fold irq_run is w) = w_out w" "ln_node (fold irq_run is w) = ln_node w" "ln_arqLink (fold irq_run is w) = ln_arqLink w"
  "ln_receiver (fold irq_run is w) = ln_receiver w" "ln_linkDedup (fold irq_run is w) = ln_linkDedup w"
  "ln_lastRelayActivityMs (fold irq_run is w) = ln_lastRelayActivityMs w" "ln_probingSinceMs (fold irq_run is w) = ln_probingSinceMs w"
  by (induction "is" arbitrary: w; simp add: irq_world)+

lemma pass_world [simp]:
  "w_script (pass w) = tl (w_script w)" "w_halted (pass w) = w_halted w" "w_out (pass w) = w_out w" "ln_node (pass w) = ln_node w"
  "ln_arqLink (pass w) = ln_arqLink w" "ln_receiver (pass w) = ln_receiver w" "ln_linkDedup (pass w) = ln_linkDedup w"
  "ln_lastRelayActivityMs (pass w) = ln_lastRelayActivityMs w" "ln_probingSinceMs (pass w) = ln_probingSinceMs w"
  by (auto simp: pass_def irqs_world split: list.split)

lemma pass_clock: "w_script w = [] \<Longrightarrow> w_millis (pass w) = w_millis w + 1"
  by (simp add: pass_def)

definition window_left :: "u32 \<Rightarrow> world \<Rightarrow> nat" where
  "window_left start w =
     (if w_millis w - start < LINK_ACK_TIMEOUT_MS then unat LINK_ACK_TIMEOUT_MS - unat (w_millis w - start)
      else Suc (unat LINK_ACK_TIMEOUT_MS))"

lemma window_closes:
  assumes "w_script w = []" "w_millis (pass w) - start < LINK_ACK_TIMEOUT_MS"
  shows "window_left start (pass w) < window_left start w"
proof -
  have m: "w_millis (pass w) - start = (w_millis w - start) + 1" using assms(1) by (simp add: pass_clock)
  show ?thesis
  proof (cases "w_millis w - start < LINK_ACK_TIMEOUT_MS")
    case True
    then have "unat ((w_millis w - start) + 1) = Suc (unat (w_millis w - start))"
      by (auto simp: word_less_nat_alt LINK_ACK_TIMEOUT_MS_def unat_word_ariths)
    then show ?thesis using assms(2) True by (simp add: window_left_def m word_less_nat_alt)
  next
    case False
    then show ?thesis using assms(2) by (simp add: window_left_def m)
  qed
qed


function await_ring :: "u32 \<Rightarrow> u16 \<Rightarrow> world \<Rightarrow> bool \<times> world" where
  "await_ring start frameCrc w =
     (let w = pass w
      in if w_millis w - start < LINK_ACK_TIMEOUT_MS then
           (if \<not> et_available (ln_transport w) then await_ring start frameCrc w
            else
              (let (v, w) = ln_readByte w; (ackedCrc, w) = ln_matchByte v w
               in if ackedCrc = Some frameCrc then (True, w) else await_ring start frameCrc w))
         else (False, w))"
  by pat_completeness auto

lemma window_read [simp]:
  "w_script (snd (ln_readByte w)) = w_script w" "w_millis (snd (ln_readByte w)) = w_millis w"
  "w_script (snd (ln_matchByte v w)) = w_script w" "w_millis (snd (ln_matchByte v w)) = w_millis w"
  by (auto simp: ln_readByte_def ln_matchByte_def split: prod.splits)

lemma window_step:
  assumes "w_millis (pass w) - start < LINK_ACK_TIMEOUT_MS" "w_script w' = w_script (pass w)" "w_millis w' = w_millis (pass w)"
  shows "length (w_script w') < length (w_script w) \<or> w_script w' = [] \<and> w_script w = [] \<and> window_left start w' < window_left start w"
  using assms window_closes [of w start] by (cases "w_script w") (auto simp: window_left_def)

termination await_ring
proof (relation "measures [\<lambda>(start, c, w). length (w_script w), \<lambda>(start, c, w). window_left start w]", goal_cases)
  case (2 start c w w')
  then show ?case using window_step [of w start w'] by auto
next
  case (3 start c w w' p v w1 q acked w2)
  then have "w1 = snd (ln_readByte (pass w))" "w2 = snd (ln_matchByte v w1)" by (metis snd_conv)+
  then show ?case using window_step [of w start w2] 3 by auto
qed simp

declare await_ring.simps [simp del]

definition awaitRing :: "u8 \<Rightarrow> u16 \<Rightarrow> world \<Rightarrow> bool \<times> world" where
  "awaitRing edgeIndex frameCrc w =
     (let w = onLinkWindowBegin w;
          w = w_edge (et_selectRxEdge edgeIndex) w;
          w = w\<lparr>ln_arqLink := (ln_arqLink w)\<lparr>al_ackMatcher := lam_reset (al_ackMatcher (ln_arqLink w))\<rparr>\<rparr>;
          (acked, w) = await_ring (w_millis w) frameCrc w
      in (acked, onLinkWindowEnd w))"

text \<open>The transmissions that may still follow, then \<open>ArqEdgeLink::sendOnEdge\<close>.\<close>

fun ln_attempts :: "nat \<Rightarrow> u8 \<Rightarrow> u8 list \<Rightarrow> u16 \<Rightarrow> world \<Rightarrow> world" where
  "ln_attempts left edgeIndex packet frameCrc w =
     (case awaitRing edgeIndex frameCrc w of
        (True, w) \<Rightarrow> w
      | (False, w) \<Rightarrow>
          (case left of
             0 \<Rightarrow> w\<lparr>ln_arqLink := (ln_arqLink w)\<lparr>al_linkAckTimeouts := al_linkAckTimeouts (ln_arqLink w) + 1\<rparr>\<rparr>
           | Suc left \<Rightarrow>
               ln_attempts left edgeIndex packet frameCrc
                 (ln_transmit edgeIndex packet
                   (w\<lparr>ln_arqLink := (ln_arqLink w)\<lparr>al_linkRetransmits := al_linkRetransmits (ln_arqLink w) + 1\<rparr>\<rparr>))))"

declare ln_attempts.simps [simp del]

definition ln_sendOnEdge :: "u8 \<Rightarrow> u8 list \<Rightarrow> world \<Rightarrow> world" where
  "ln_sendOnEdge edgeIndex packet w =
     (let w = ln_transmit edgeIndex packet w
      in if \<not> isLinkAckedType (frame_type packet) \<or> MAX_PACKET_SIZE < length packet then w
         else ln_attempts LINK_RETRANSMITS edgeIndex packet (crc16 packet) w)"

section \<open>The main loop\<close>

text \<open>The edges of a drained mask: the first one that gets the claim takes the multiplexer, the others are noise.\<close>

fun wake_edges :: "u32 \<Rightarrow> u8 \<Rightarrow> nat list \<Rightarrow> world \<Rightarrow> world" where
  "wake_edges nowMs woken [] w = w"
| "wake_edges nowMs woken (edge # edges) w =
     (if woken AND push_bit edge 1 = 0 then wake_edges nowMs woken edges w
      else
        (case efr_onEdgeWake (of_nat edge) nowMs (ln_receiver w) of
           (True, r) \<Rightarrow> w_edge (et_selectRxEdge (of_nat edge)) (w\<lparr>ln_receiver := r\<rparr>)
         | (False, r) \<Rightarrow> wake_edges nowMs woken edges (w\<lparr>ln_receiver := r\<rparr>)))"

definition pollWake :: "u32 \<Rightarrow> world \<Rightarrow> world" where
  "pollWake nowMs w =
     (if ln_pendingWakeMask w = 0 then w
      else
        (let w = pass w; woken = ln_pendingWakeMask w
         in syncWakeInterruptSuppression (wake_edges nowMs woken [0..<EDGE_COUNT] (w\<lparr>ln_pendingWakeMask := 0\<rparr>))))"

text \<open>What the handler of a packet does outside the memory of the panel; the reset and the bootloader do not return.\<close>

fun ln_effect :: "node_effect \<Rightarrow> world \<Rightarrow> world" where
  "ln_effect (Send_Up edgeIndex packet) w = ln_sendOnEdge edgeIndex packet w"
| "ln_effect e w = w_emit (Act e) (if node_effect_halts e then w\<lparr>w_halted := True\<rparr> else w)"

definition ln_handlePacket :: "u8 list \<Rightarrow> world \<Rightarrow> world" where
  "ln_handlePacket packet w =
     (let w = pass w
      in case lp_handlePacket packet (w_millis w) (ln_node w) of (effects, n) \<Rightarrow> fold ln_effect effects (w\<lparr>ln_node := n\<rparr>))"

text \<open>
  \<open>onFrameArrived\<close> of the dispatcher and the handler. The frames that the discovery driver sends go straight to the
  transport in the code; they are of types that are never acknowledged, so sending them with \<open>sendOnEdge\<close> is the same.
\<close>

definition ln_dispatch :: "u8 \<Rightarrow> u8 list \<Rightarrow> u32 \<Rightarrow> world \<Rightarrow> world" where
  "ln_dispatch fromEdge packet nowMs w =
     (case dispatcher_onFrameArrived fromEdge packet nowMs (pn_driver (ln_node w)) of (actLocally, sends, d) \<Rightarrow>
        let w = w_emit (Dispatch fromEdge packet nowMs) w;
            w = fold (\<lambda>(e, f). ln_sendOnEdge e f) sends (w\<lparr>ln_node := (ln_node w)\<lparr>pn_driver := d\<rparr>\<rparr>);
            w = w\<lparr>ln_lastRelayActivityMs := nowMs\<rparr>
        in if actLocally then ln_handlePacket packet w else w)"

text \<open>A completed frame.\<close>

definition ln_onFrame :: "u32 \<Rightarrow> world \<Rightarrow> world" where
  "ln_onFrame nowMs w =
     (let w = syncWakeInterruptSuppression w;
          packet = efr_frame (ln_receiver w);
          fromEdge = efr_fromEdge (ln_receiver w)
      in if frame_type packet = packetType_code PACKET_LINK_ACK then w
         else if isLinkAckedType (frame_type packet) then
           (let frameCrc = crc16 packet;
                w = ln_sendOnEdge fromEdge (sendLinkAck frameCrc) (w_emit (Heard fromEdge packet nowMs) w)
            in case ld_checkAndNote fromEdge frameCrc nowMs (ln_linkDedup w) of (duplicate, dd) \<Rightarrow>
                 (let w = w\<lparr>ln_linkDedup := dd\<rparr> in if duplicate then w else ln_dispatch fromEdge packet nowMs w))
         else ln_dispatch fromEdge packet nowMs w)"

text \<open>One byte of the ring; bytes without a claim are claimed for the edge of the multiplexer.\<close>

definition ln_claimParked :: "u32 \<Rightarrow> world \<Rightarrow> world" where
  "ln_claimParked nowMs w =
     (if efr_claimedEdge (ln_receiver w) = NO_EDGE
      then syncWakeInterruptSuppression
        (w\<lparr>ln_receiver := snd (efr_onEdgeWake (et_rxSelectedEdge (ln_transport w)) nowMs (ln_receiver w))\<rparr>)
      else w)"

definition ln_byte :: "u32 \<Rightarrow> world \<Rightarrow> world" where
  "ln_byte nowMs w =
     (let w = ln_claimParked nowMs (pollWake nowMs w);
          (v, w) = ln_readByte w;
          w = w\<lparr>ln_lastRelayActivityMs := nowMs\<rparr>
      in case efr_onByte v nowMs (ln_receiver w) of (complete, r) \<Rightarrow>
           (let w = w\<lparr>ln_receiver := r\<rparr> in if complete then ln_onFrame nowMs w else w))"

fun poll_bytes :: "nat \<Rightarrow> u32 \<Rightarrow> world \<Rightarrow> world" where
  "poll_bytes 0 nowMs w = w"
| "poll_bytes (Suc n) nowMs w =
     (let w = pass w
      in if et_available (ln_transport w) \<and> \<not> w_halted w then poll_bytes n nowMs (ln_byte nowMs w) else w)"

definition pollBytes :: "u32 \<Rightarrow> world \<Rightarrow> world" where
  "pollBytes = poll_bytes MAX_BYTES_PER_POLL"

definition pollProbeClaim :: "u32 \<Rightarrow> world \<Rightarrow> world" where
  "pollProbeClaim nowMs w =
     (if \<not> pdd_isProbing (pn_driver (ln_node w)) then w
      else
        (let edge = pdd_probingEdgeIndex (pn_driver (ln_node w))
         in case efr_preemptClaim edge nowMs (ln_receiver w) of (taken, r) \<Rightarrow>
              (let w = w\<lparr>ln_receiver := r\<rparr>
               in if taken then syncWakeInterruptSuppression (w_edge (et_selectRxEdge edge) w) else w)))"

definition flushIdleDebugLogs :: "u32 \<Rightarrow> world \<Rightarrow> world" where
  "flushIdleDebugLogs nowMs w =
     (if et_available (ln_transport w) then w
      else
        (let probing = pdd_isProbing (pn_driver (ln_node w));
             w = (if \<not> probing then w\<lparr>ln_probingSinceMs := 0\<rparr>
                  else if ln_probingSinceMs w = 0 then w\<lparr>ln_probingSinceMs := nowMs\<rparr> else w)
         in if probing \<and> nowMs - ln_probingSinceMs w < PROBE_STUCK_MS then w
            else if nowMs - ln_lastRelayActivityMs w < RELAY_QUIET_MS then w
            else
              (case pdd_flushOneDeferredLog (pn_driver (ln_node w)) of (_, line, d) \<Rightarrow>
                 (let w = w\<lparr>ln_node := (ln_node w)\<lparr>pn_driver := d\<rparr>\<rparr>
                  in case line of None \<Rightarrow> w | Some l \<Rightarrow> w_emit (Printed l) w))))"

text \<open>\<open>tick\<close>, first up to the player, then the rest; a reset ends it.\<close>

definition ln_tickReceiver :: "u32 \<Rightarrow> world \<Rightarrow> world" where
  "ln_tickReceiver nowMs w =
     (case pdd_tick nowMs (pn_driver (ln_node w)) of (sends, d) \<Rightarrow>
        let w = fold (\<lambda>(e, f). ln_transmit e f) sends (w\<lparr>ln_node := (ln_node w)\<lparr>pn_driver := d\<rparr>\<rparr>);
            w = w\<lparr>ln_receiver := efr_tick nowMs (ln_receiver w)\<rparr>
        in pollProbeClaim nowMs (syncWakeInterruptSuppression w))"

definition ln_tickPlayer :: "nat \<Rightarrow> u32 \<Rightarrow> world \<Rightarrow> world" where
  "ln_tickPlayer width nowMs w =
     (case lp_tickPlayer width nowMs (ln_node w) of (effects, n) \<Rightarrow> fold ln_effect effects (w\<lparr>ln_node := n\<rparr>))"

definition ln_tick :: "nat \<Rightarrow> u32 \<Rightarrow> world \<Rightarrow> world" where
  "ln_tick width nowMs w =
     (let w = pollBytes nowMs (pollWake nowMs w)
      in if w_halted w then w
         else
           (let w = pass (ln_tickPlayer width nowMs (ln_tickReceiver nowMs w))
            in if et_available (ln_transport w) then
                 (let w = pollBytes nowMs (pollWake nowMs w)
                  in if w_halted w then w else w_edge (et_pollTrunkActivityLed nowMs) w)
               else w_edge (et_pollTrunkActivityLed nowMs) (flushIdleDebugLogs nowMs w)))"

fun main_loop :: "nat \<Rightarrow> nat \<Rightarrow> world \<Rightarrow> world" where
  "main_loop width 0 w = w"
| "main_loop width (Suc n) w =
     (if w_halted w then w else main_loop width n (let w = pass w in ln_tick width (w_millis w) w))"

end
