(* ===== verification/Panel_Wakes.thy ===== *)
theory Panel_Wakes
  imports
    Panel_Loop
begin

text \<open>
  The wake interrupts of a panel, against interrupts at every point of the main loop: they are off only while an edge is
  claimed or a wake waits to be taken up.
\<close>

definition claimed :: "world \<Rightarrow> bool" where
  "claimed w \<longleftrightarrow> efr_claimedEdge (ln_receiver w) \<noteq> NO_EDGE"

text \<open>The mirror of the mask is right, and no frame is being sent.\<close>

definition mask_ok :: "world \<Rightarrow> bool" where
  "mask_ok w \<longleftrightarrow>
     \<not> et_transmitting (ln_transport w)
     \<and> (if ln_wakeInterruptsSuppressed w then wakes_off (ln_transport w) else wakes_on (ln_transport w))"

definition armed :: "world \<Rightarrow> bool" where
  "armed w \<longleftrightarrow> mask_ok w \<and> (ln_wakeInterruptsSuppressed w \<longrightarrow> claimed w \<or> ln_pendingWakeMask w \<noteq> 0)
     \<and> (claimed w \<longrightarrow> ln_wakeInterruptsSuppressed w)"

section \<open>Interrupts\<close>

text \<open>What an interrupt may do to the wakes: nothing, or latch one and switch them off.\<close>

definition latches :: "world \<Rightarrow> world \<Rightarrow> bool" where
  "latches w w' \<longleftrightarrow>
     ln_receiver w' = ln_receiver w \<and> et_transmitting (ln_transport w') = et_transmitting (ln_transport w)
     \<and> (et_PCMSK0 (ln_transport w') = et_PCMSK0 (ln_transport w) \<and> ln_wakeInterruptsSuppressed w' = ln_wakeInterruptsSuppressed w
          \<and> ln_pendingWakeMask w' = ln_pendingWakeMask w
        \<or> wakes_on (ln_transport w) \<and> \<not> et_transmitting (ln_transport w) \<and> wakes_off (ln_transport w') \<and> ln_wakeInterruptsSuppressed w'
          \<and> ln_pendingWakeMask w' \<noteq> 0)"

lemma latches_refl: "latches w w"
  by (simp add: latches_def)

lemma latches_trans: "latches w w1 \<Longrightarrow> latches w1 w2 \<Longrightarrow> latches w w2"
  by (auto simp: latches_def wakes_on_def wakes_off_def)

lemma or_bit_nonzero: "n < EDGE_COUNT \<Longrightarrow> (m :: u8) OR push_bit n 1 \<noteq> 0"
proof -
  assume "n < EDGE_COUNT"
  then have "n = 0 \<or> n = 1 \<or> n = 2" by (auto simp: EDGE_COUNT_def)
  then have "(push_bit n 1 :: u8) \<noteq> 0" by (elim disjE) simp_all
  then show ?thesis by (simp add: or_eq_0_iff)
qed

lemma wake_latches:
  assumes "n < EDGE_COUNT" "latches w w'" "wakes_on (ln_transport w)"
  shows "latches w (onEdgeWakeIsr n w')"
proof (cases "et_transmitting (ln_transport w')")
  case False
  have "wakes_on (ln_transport w') \<or> wakes_off (ln_transport w')"
    using assms(2,3) by (auto simp: latches_def wakes_on_def)
  then show ?thesis
    using False assms wakes_set(2) [of "ln_transport w'"] or_bit_nonzero [OF assms(1), of "ln_pendingWakeMask w'"]
    by (auto simp: latches_def onEdgeWakeIsr_def w_edge_def et_setWakeInterruptsEnabled_def)
qed (use assms in \<open>simp add: onEdgeWakeIsr_def\<close>)

lemma pcint_latches:
  assumes on: "wakes_on (ln_transport w)"
  shows "latches w (pcint0_isr pinB w)"
proof -
  have steps: "latches w (fold (\<lambda>edge w. if x AND push_bit (edge + 1) 1 \<noteq> 0 then onEdgeWakeIsr edge w else w) es w')"
    if "set es \<subseteq> {0..<EDGE_COUNT}" "latches w w'" for es w' x
    using that wake_latches [OF _ _ on] by (induction es arbitrary: w') auto
  show ?thesis unfolding pcint0_isr_def Let_def by (intro steps) (simp_all add: latches_def)
qed

lemma irq_latches:
  assumes "wakes_on (ln_transport w) \<or> wakes_off (ln_transport w)"
  shows "latches w (irq_run i w)"
proof (cases i)
  case (Pcint pinB)
  then show ?thesis using assms pcint_latches [of w pinB] latches_refl [of w] by (auto simp: wakes_on_def wakes_off_def WAKE_PCINT_BITS_def)
next
  case (Usart_Rx v)
  then show ?thesis by (simp add: latches_def w_edge_def et_onRxByte_def)
qed

lemma latches_mask: "latches w w' \<Longrightarrow> wakes_on (ln_transport w) \<or> wakes_off (ln_transport w) \<Longrightarrow>
    wakes_on (ln_transport w') \<or> wakes_off (ln_transport w')"
  by (auto simp: latches_def wakes_on_def wakes_off_def)

lemma irqs_latch:
  "wakes_on (ln_transport w) \<or> wakes_off (ln_transport w) \<Longrightarrow> latches w (fold irq_run is w)"
proof (induction "is" arbitrary: w)
  case (Cons i "is")
  then show ?case using irq_latches [of w i] latches_mask [of w "irq_run i w"] latches_trans by auto
qed (simp add: latches_refl)

lemma pass_latches:
  assumes "wakes_on (ln_transport w) \<or> wakes_off (ln_transport w)"
  shows "latches w (pass w)"
proof -
  have "latches w (fold irq_run irqs (w\<lparr>w_script := script, w_millis := t\<rparr>))" for irqs script t
    using irqs_latch [of "w\<lparr>w_script := script, w_millis := t\<rparr>" irqs] assms by (simp add: latches_def)
  moreover have "latches w (w\<lparr>w_millis := t\<rparr>)" for t by (simp add: latches_def)
  ultimately show ?thesis by (auto simp: pass_def split: list.split)
qed

lemma mask_known: "mask_ok w \<Longrightarrow> wakes_on (ln_transport w) \<or> wakes_off (ln_transport w)"
  by (auto simp: mask_ok_def split: if_splits)

lemma claimed_pass [simp]: "claimed (pass w) = claimed w"
  by (simp add: claimed_def)

lemma pass_mask: "mask_ok w \<Longrightarrow> mask_ok (pass w)"
  using pass_latches [OF mask_known, of w] by (auto simp: mask_ok_def latches_def wakes_on_def wakes_off_def split: if_splits)

lemma pass_armed: "armed w \<Longrightarrow> armed (pass w)"
  using pass_latches [OF mask_known, of w] pass_mask [of w]
  by (auto simp: armed_def latches_def mask_ok_def wakes_on_def wakes_off_def split: if_splits)

text \<open>While the wakes are masked, no interrupt changes that.\<close>

definition masked :: "world \<Rightarrow> world \<Rightarrow> bool" where
  "masked w w' \<longleftrightarrow> wakes_off (ln_transport w') \<and> et_transmitting (ln_transport w') = et_transmitting (ln_transport w)
     \<and> ln_wakeInterruptsSuppressed w' = ln_wakeInterruptsSuppressed w \<and> ln_pendingWakeMask w' = ln_pendingWakeMask w
     \<and> ln_receiver w' = ln_receiver w"

lemma pass_masked: "wakes_off (ln_transport w) \<Longrightarrow> masked w (pass w)"
  using pass_latches [of w] wakes_apart [of "ln_transport w"] by (auto simp: latches_def masked_def wakes_off_def)

lemma masked_trans: "masked w w1 \<Longrightarrow> masked w1 w2 \<Longrightarrow> masked w w2"
  by (simp add: masked_def)

lemma passes_masked: "wakes_off (ln_transport w) \<Longrightarrow> masked w (fold (\<lambda>_. pass) xs w)"
proof (induction xs arbitrary: w)
  case (Cons x xs)
  then show ?case using pass_masked [of w] masked_trans [of w "pass w"] Cons.IH [of "pass w"] by (simp add: masked_def)
qed (simp add: masked_def)

section \<open>The steps of the main loop\<close>

text \<open>Reconciling arms the panel, whatever came before.\<close>

lemma sync_arms:
  assumes "mask_ok w"
  shows "armed (syncWakeInterruptSuppression w)"
proof -
  let ?s = "efr_claimedEdge (ln_receiver w) \<noteq> NO_EDGE"
  have s: "claimed (pass w) = ?s" "claimed w = ?s" by (simp_all add: claimed_def)
  have m: "mask_ok (pass w)" using assms by (rule pass_mask)
  show ?thesis
  proof (cases "?s = ln_wakeInterruptsSuppressed (pass w)")
    case True
    then show ?thesis using m s by (auto simp: syncWakeInterruptSuppression_def armed_def Let_def)
  next
    case False
    define w1 where "w1 = (pass w)\<lparr>ln_wakeInterruptsSuppressed := ?s\<rparr>"
    have known: "wakes_on (ln_transport w1) \<or> wakes_off (ln_transport w1)" using mask_known [OF m] by (simp add: w1_def)
    have l: "latches w1 (pass w1)" using known by (rule pass_latches)
    have c: "claimed w1 = ?s" by (simp add: w1_def claimed_def)
    have w1: "\<not> et_transmitting (ln_transport w1)" "ln_wakeInterruptsSuppressed w1 = ?s" "?s \<longrightarrow> wakes_on (ln_transport w1)"
      "\<not> ?s \<longrightarrow> wakes_off (ln_transport w1)"
      using m False by (auto simp: w1_def mask_ok_def split: if_splits)
    have eq: "syncWakeInterruptSuppression w = w_edge (et_setWakeInterruptsEnabled (\<not> ?s)) (pass w1)"
      using False by (simp add: syncWakeInterruptSuppression_def Let_def w1_def)
    have known2: "wakes_on (ln_transport (pass w1)) \<or> wakes_off (ln_transport (pass w1))" using l known by (rule latches_mask)
    have set: "et_transmitting (et_setWakeInterruptsEnabled b t) = et_transmitting t" for b t by (simp add: et_setWakeInterruptsEnabled_def)
    have c2: "claimed (syncWakeInterruptSuppression w) = ?s" using c claimed_pass [of w1] by (simp add: eq claimed_def w_edge_def)
    show ?thesis
    proof (cases ?s)
      case True
      then have "ln_wakeInterruptsSuppressed (pass w1)" "\<not> et_transmitting (ln_transport (pass w1))" using l w1 by (auto simp: latches_def)
      then show ?thesis unfolding armed_def mask_ok_def c2 using True wakes_set(2) [OF known2] by (simp add: eq w_edge_def set)
    next
      case ns: False
      then have "\<not> ln_wakeInterruptsSuppressed (pass w1)" "\<not> et_transmitting (ln_transport (pass w1))"
        using l w1 wakes_apart by (auto simp: latches_def)
      then show ?thesis unfolding armed_def mask_ok_def c2 using ns wakes_set(1) [OF known2] by (simp add: eq w_edge_def set)
    qed
  qed
qed

text \<open>A send leaves the wakes as they were: what comes in while it lasts is its own coupling.\<close>

lemma transmit_keeps:
  assumes "mask_ok w"
  shows "mask_ok (ln_transmit e f w)" "ln_wakeInterruptsSuppressed (ln_transmit e f w) = ln_wakeInterruptsSuppressed w"
    "ln_pendingWakeMask (ln_transmit e f w) = ln_pendingWakeMask w" "ln_receiver (ln_transmit e f w) = ln_receiver w"
proof -
  obtain saved t where b: "et_sendBegin e (ln_transport w) = (saved, t)" by (cases "et_sendBegin e (ln_transport w)")
  note sv = wakes_saved [OF mask_known [OF assms] b]
  define w1 where "w1 = fold (\<lambda>_. pass) (et_frame f) (w\<lparr>ln_transport := t\<rparr>)"
  have m: "masked (w\<lparr>ln_transport := t\<rparr>) w1" unfolding w1_def by (rule passes_masked) (simp add: sv)
  have eq: "ln_transmit e f w = w_emit (Wire e (et_frame f)) (w_edge (et_sendEnd e saved) w1)"
    by (simp add: ln_transmit_def b w1_def Let_def)
  have after: "et_PCMSK0 (et_sendEnd e saved t1) = et_PCMSK0 t1 OR saved" "\<not> et_transmitting (et_sendEnd e saved t1)" for t1
    by (simp_all add: et_sendEnd_def et_setEdgeEnable_def Let_def)
  show "ln_wakeInterruptsSuppressed (ln_transmit e f w) = ln_wakeInterruptsSuppressed w"
    "ln_pendingWakeMask (ln_transmit e f w) = ln_pendingWakeMask w" "ln_receiver (ln_transmit e f w) = ln_receiver w"
    using m by (simp_all add: eq w_emit_def w_edge_def masked_def)
  have "et_PCMSK0 (ln_transport (ln_transmit e f w)) = saved"
    using m by (simp add: eq w_emit_def w_edge_def masked_def wakes_off_def after)
  moreover have "\<not> et_transmitting (ln_transport (ln_transmit e f w))" by (simp add: eq w_emit_def w_edge_def after)
  moreover have "ln_wakeInterruptsSuppressed (ln_transmit e f w) = ln_wakeInterruptsSuppressed w"
    using m by (simp add: eq w_emit_def w_edge_def masked_def)
  ultimately show "mask_ok (ln_transmit e f w)"
    using assms sv(3) wakes_apart [of "ln_transport w"] by (auto simp: mask_ok_def wakes_on_def wakes_off_def split: if_splits)
qed

lemma transmit_armed: "armed w \<Longrightarrow> armed (ln_transmit e f w)"
  using transmit_keeps [of w e f] by (auto simp: armed_def claimed_def)

text \<open>A window for an acknowledgment.\<close>

lemma read_masked: "wakes_off (ln_transport w) \<Longrightarrow> masked w (snd (ln_readByte w))" "masked w w1 \<Longrightarrow> masked w (snd (ln_matchByte v w1))"
  by (auto simp: masked_def ln_readByte_def ln_matchByte_def et_readByte_def wakes_off_def split: prod.splits)

lemma await_masked: "wakes_off (ln_transport w) \<Longrightarrow> masked w (snd (await_ring start c w))"
proof (induction start c w rule: await_ring.induct)
  case (1 start c w)
  let ?w = "pass w"
  obtain v w1 where r: "ln_readByte ?w = (v, w1)" by (cases "ln_readByte ?w")
  obtain q w2 where m: "ln_matchByte v w1 = (q, w2)" by (cases "ln_matchByte v w1")
  have pass: "masked w ?w" using 1(3) by (rule pass_masked)
  then have off: "wakes_off (ln_transport ?w)" by (simp add: masked_def)
  have w2: "masked w w2" using masked_trans [OF pass read_masked(1) [OF off]] read_masked(2) [of w w1 v] by (simp add: r m)
  then have off2: "wakes_off (ln_transport w2)" by (simp add: masked_def)
  show ?case
  proof (cases "w_millis ?w - start < LINK_ACK_TIMEOUT_MS")
    case late: False
    then show ?thesis using pass by (subst await_ring.simps) (simp add: Let_def)
  next
    case early: True
    show ?thesis
    proof (cases "et_available (ln_transport ?w)")
      case False
      then show ?thesis using early 1(1) [OF refl early False off] masked_trans [OF pass]
        by (subst await_ring.simps) (simp add: Let_def)
    next
      case True
      then show ?thesis
        using early w2 1(2) [OF refl early _ r [symmetric] refl m [symmetric] refl _ off2] masked_trans [OF w2]
        by (subst await_ring.simps) (simp add: Let_def r m)
    qed
  qed
qed

lemma window_arms:
  assumes "mask_ok w"
  shows "armed (snd (awaitRing e c w))"
proof -
  define w1 where "w1 = onLinkWindowBegin w"
  have off: "wakes_off (ln_transport (w_edge (et_setWakeInterruptsEnabled False) w))"
    using wakes_set(2) [OF mask_known [OF assms]] by (simp add: w_edge_def)
  have w1: "wakes_off (ln_transport w1)" "\<not> et_transmitting (ln_transport w1)" "ln_wakeInterruptsSuppressed w1"
    using pass_masked [OF off] assms
    by (auto simp: w1_def onLinkWindowBegin_def clearPendingWakes_def masked_def w_edge_def mask_ok_def et_setWakeInterruptsEnabled_def Let_def)
  define w2 where "w2 = (w_edge (et_selectRxEdge e) w1)\<lparr>ln_arqLink := (ln_arqLink w1)\<lparr>al_ackMatcher := lam_reset (al_ackMatcher (ln_arqLink w1))\<rparr>\<rparr>"
  have w2: "wakes_off (ln_transport w2)" "\<not> et_transmitting (ln_transport w2)" "ln_wakeInterruptsSuppressed w2"
    using w1 by (simp_all add: w2_def w_edge_def et_selectRxEdge_def wakes_off_def)
  obtain a w3 where a: "await_ring (w_millis w2) c w2 = (a, w3)" by (cases "await_ring (w_millis w2) c w2")
  have "masked w2 w3" using await_masked [OF w2(1), of "w_millis w2" c] by (simp add: a)
  then have "mask_ok (clearPendingWakes w3)" using w2 by (simp add: masked_def mask_ok_def clearPendingWakes_def)
  then have "armed (onLinkWindowEnd w3)" unfolding onLinkWindowEnd_def by (rule sync_arms)
  moreover have "awaitRing e c w = (a, onLinkWindowEnd w3)"
    using a unfolding awaitRing_def Let_def w1_def [symmetric] w2_def by (simp add: w_edge_def)
  ultimately show ?thesis by simp
qed

text \<open>Changes that the wakes do not see.\<close>

lemma armed_cong:
  "ln_transport w' = ln_transport w \<Longrightarrow> ln_receiver w' = ln_receiver w \<Longrightarrow> ln_pendingWakeMask w' = ln_pendingWakeMask w \<Longrightarrow>
    ln_wakeInterruptsSuppressed w' = ln_wakeInterruptsSuppressed w \<Longrightarrow> armed w' \<longleftrightarrow> armed w"
  by (simp add: armed_def mask_ok_def claimed_def)

lemma armed_mask: "armed w \<Longrightarrow> mask_ok w"
  by (simp add: armed_def)

lemma mask_cong:
  "et_PCMSK0 (ln_transport w') = et_PCMSK0 (ln_transport w) \<Longrightarrow> et_transmitting (ln_transport w') = et_transmitting (ln_transport w) \<Longrightarrow>
    ln_wakeInterruptsSuppressed w' = ln_wakeInterruptsSuppressed w \<Longrightarrow> mask_ok w' \<longleftrightarrow> mask_ok w"
  by (simp add: mask_ok_def wakes_on_def wakes_off_def)

lemma attempts_armed: "armed w \<Longrightarrow> armed (ln_attempts left e f c w)"
proof (induction left arbitrary: w)
  case 0
  obtain a w1 where a: "awaitRing e c w = (a, w1)" by (cases "awaitRing e c w")
  have "armed w1" using window_arms [OF armed_mask [OF 0], of e c] by (simp add: a)
  then show ?case by (cases a) (subst ln_attempts.simps, simp add: a armed_def mask_ok_def claimed_def)+
next
  case (Suc left)
  obtain a w1 where a: "awaitRing e c w = (a, w1)" by (cases "awaitRing e c w")
  have w1: "armed w1" using window_arms [OF armed_mask [OF Suc.prems], of e c] by (simp add: a)
  have "armed (w1\<lparr>ln_arqLink := l\<rparr>)" for l using w1 by (simp add: armed_def mask_ok_def claimed_def)
  then show ?case using w1 Suc.IH [OF transmit_armed] by (cases a) (subst ln_attempts.simps, simp add: a)+
qed

lemma send_armed: "armed w \<Longrightarrow> armed (ln_sendOnEdge e f w)"
  by (simp add: ln_sendOnEdge_def Let_def transmit_armed attempts_armed)

lemma sends_armed: "armed w \<Longrightarrow> armed (fold (\<lambda>(e, f). ln_sendOnEdge e f) sends w)" "armed w \<Longrightarrow> armed (fold (\<lambda>(e, f). ln_transmit e f) sends w)"
  by (induction sends arbitrary: w) (auto simp: send_armed transmit_armed)

lemma emit_armed [simp]: "armed (w_emit x w) = armed w"
  by (simp add: w_emit_def armed_def mask_ok_def claimed_def)

lemma fields_armed [simp]:
  "armed (w\<lparr>ln_node := n\<rparr>) = armed w" "armed (w\<lparr>w_halted := h\<rparr>) = armed w" "armed (w\<lparr>ln_linkDedup := d\<rparr>) = armed w"
  "armed (w\<lparr>ln_lastRelayActivityMs := t\<rparr>) = armed w" "armed (w\<lparr>ln_probingSinceMs := t\<rparr>) = armed w"
  by (simp_all add: armed_def mask_ok_def claimed_def)

lemma effects_armed: "armed w \<Longrightarrow> armed (fold ln_effect es w)"
proof (induction es arbitrary: w)
  case (Cons x es)
  have "armed (ln_effect x w)" using Cons.prems by (cases x) (simp_all add: send_armed)
  then show ?case using Cons.IH by simp
qed simp

lemma dispatch_armed: "armed w \<Longrightarrow> armed (ln_dispatch e f t w)"
  by (auto simp: ln_dispatch_def ln_handlePacket_def Let_def sends_armed effects_armed pass_armed split: prod.splits)

lemma frame_armed: "mask_ok w \<Longrightarrow> armed (ln_onFrame t w)"
  using sync_arms [of w]
  by (auto simp: ln_onFrame_def Let_def send_armed dispatch_armed split: prod.splits)

lemma wake_edges_mask: "mask_ok (wake_edges t m es w) = mask_ok w"
proof (induction t m es w rule: wake_edges.induct)
  case (2 t m e es w)
  obtain q r where "efr_onEdgeWake (of_nat e) t (ln_receiver w) = (q, r)" by (cases "efr_onEdgeWake (of_nat e) t (ln_receiver w)")
  then show ?case using 2
    by (cases q) (auto simp: mask_ok_def w_edge_def et_selectRxEdge_def wakes_on_def wakes_off_def)
qed simp

lemma pollWake_armed:
  assumes "armed w"
  shows "armed (pollWake t w)"
proof -
  have "mask_ok ((pass w)\<lparr>ln_pendingWakeMask := 0\<rparr>)" using pass_mask [OF armed_mask [OF assms]] by (simp add: mask_ok_def)
  then show ?thesis using assms by (simp add: pollWake_def Let_def sync_arms wake_edges_mask)
qed

lemma readByte_armed: "armed (snd (ln_readByte w)) = armed w"
  by (auto simp: ln_readByte_def et_readByte_def armed_def mask_ok_def claimed_def wakes_on_def wakes_off_def split: prod.splits)

lemma receiver_mask [simp]: "mask_ok (w\<lparr>ln_receiver := r\<rparr>) = mask_ok w"
  by (simp add: mask_ok_def)

lemma claimParked_armed: "armed w \<Longrightarrow> armed (ln_claimParked t w)"
  by (auto simp: ln_claimParked_def intro!: sync_arms dest: armed_mask)

lemma byte_armed:
  assumes "armed w"
  shows "armed (ln_byte t w)"
proof -
  obtain v w1 where v: "ln_readByte (ln_claimParked t (pollWake t w)) = (v, w1)" by (cases "ln_readByte (ln_claimParked t (pollWake t w))")
  have w1: "armed w1" using claimParked_armed [OF pollWake_armed [OF assms, of t], of t] readByte_armed [of "ln_claimParked t (pollWake t w)"] by (simp add: v)
  obtain d r where d: "efr_onByte v t (ln_receiver w1) = (d, r)" by (cases "efr_onByte v t (ln_receiver w1)")
  show ?thesis
  proof (cases d)
    case True
    have "mask_ok (w1\<lparr>ln_lastRelayActivityMs := t, ln_receiver := r\<rparr>)" using armed_mask [OF w1] by (simp add: mask_ok_def)
    then show ?thesis using True by (simp add: ln_byte_def Let_def v d frame_armed)
  next
    case False
    have "efr_claimedEdge r = efr_claimedEdge (ln_receiver w1)"
      using d False by (auto simp: efr_onByte_def efr_claimedEdge_def Let_def split: if_splits prod.splits)
    then have "armed (w1\<lparr>ln_lastRelayActivityMs := t, ln_receiver := r\<rparr>)" using w1 by (simp add: armed_def mask_ok_def claimed_def)
    then show ?thesis using False by (simp add: ln_byte_def Let_def v d)
  qed
qed

lemma poll_bytes_armed: "armed w \<Longrightarrow> armed (poll_bytes n t w)"
  by (induction n t w rule: poll_bytes.induct) (simp_all add: Let_def pass_armed byte_armed)

lemma edge_armed:
  "(\<And>t. et_PCMSK0 (f t) = et_PCMSK0 t \<and> et_transmitting (f t) = et_transmitting t) \<Longrightarrow> armed (w_edge f w) = armed w"
  by (simp add: armed_def mask_ok_def claimed_def w_edge_def wakes_on_def wakes_off_def)

lemma led_armed: "armed (w_edge (et_pollTrunkActivityLed t) w) = armed w" "armed (w_edge (et_selectRxEdge e) w) = armed w"
  by (rule edge_armed, simp add: et_pollTrunkActivityLed_def et_selectRxEdge_def Let_def)+

lemma probeClaim_armed: "armed w \<Longrightarrow> armed (pollProbeClaim t w)"
proof -
  assume a: "armed w"
  let ?e = "pdd_probingEdgeIndex (pn_driver (ln_node w))"
  obtain q r where q: "efr_preemptClaim ?e t (ln_receiver w) = (q, r)" by (cases "efr_preemptClaim ?e t (ln_receiver w)")
  have "mask_ok (w_edge (et_selectRxEdge ?e) (w\<lparr>ln_receiver := r\<rparr>))"
    using armed_mask [OF a] by (auto simp: mask_ok_def w_edge_def et_selectRxEdge_def wakes_on_def wakes_off_def split: if_splits)
  then have "q \<Longrightarrow> armed (pollProbeClaim t w)" using a by (simp add: pollProbeClaim_def Let_def q sync_arms)
  moreover have "\<not> q \<Longrightarrow> r = ln_receiver w" using q by (auto simp: efr_preemptClaim_def Let_def split: if_splits)
  then have "\<not> q \<Longrightarrow> armed (pollProbeClaim t w)" using a by (simp add: pollProbeClaim_def Let_def q)
  ultimately show ?thesis by blast
qed

lemma idleLogs_armed: "armed w \<Longrightarrow> armed (flushIdleDebugLogs t w)"
  by (auto simp: flushIdleDebugLogs_def Let_def split: prod.splits option.splits)

lemma tickReceiver_armed:
  assumes "armed w"
  shows "armed (ln_tickReceiver t w)"
proof -
  have "mask_ok (fold (\<lambda>(e, f). ln_transmit e f) sends (w\<lparr>ln_node := n\<rparr>))" for sends n
    using sends_armed(2) [of "w\<lparr>ln_node := n\<rparr>" sends] assms by (simp add: armed_mask)
  then show ?thesis by (auto simp: ln_tickReceiver_def Let_def probeClaim_armed sync_arms split: prod.splits)
qed

lemma tickPlayer_armed: "armed w \<Longrightarrow> armed (ln_tickPlayer width t w)"
  by (auto simp: ln_tickPlayer_def effects_armed split: prod.splits)

lemma tick_armed: "armed w \<Longrightarrow> armed (ln_tick width t w)"
  by (simp add: ln_tick_def pollBytes_def Let_def poll_bytes_armed pollWake_armed tickReceiver_armed tickPlayer_armed pass_armed
      led_armed idleLogs_armed)

lemma loop_armed: "armed w \<Longrightarrow> armed (main_loop width n w)"
  by (induction width n w rule: main_loop.induct) (simp_all add: Let_def tick_armed pass_armed)

lemma init_armed: "armed (ln_init slots palette script)"
  by (simp add: armed_def mask_ok_def claimed_def ln_init_def et_begin_def efr_init_def efr_claimedEdge_def wakes_on_def)

section \<open>How long a claim lasts\<close>

text \<open>Sending and handling leave the receiver alone.\<close>

lemma passes_receiver: "ln_receiver (fold (\<lambda>_. pass) xs w) = ln_receiver w"
  by (induction xs arbitrary: w) simp_all

lemma transmit_receiver [simp]: "ln_receiver (ln_transmit e f w) = ln_receiver w"
  by (auto simp: ln_transmit_def w_emit_def w_edge_def passes_receiver Let_def split: prod.splits)

lemma sync_receiver [simp]: "ln_receiver (syncWakeInterruptSuppression w) = ln_receiver w"
  by (simp add: syncWakeInterruptSuppression_def w_edge_def Let_def)

lemma read_receiver [simp]: "ln_receiver (snd (ln_readByte w)) = ln_receiver w" "ln_receiver (snd (ln_matchByte v w)) = ln_receiver w"
  by (auto simp: ln_readByte_def ln_matchByte_def split: prod.splits)

lemma await_receiver: "ln_receiver (snd (await_ring start c w)) = ln_receiver w"
proof (induction start c w rule: await_ring.induct)
  case (1 start c w)
  obtain v w1 where r: "ln_readByte (pass w) = (v, w1)" by (cases "ln_readByte (pass w)")
  obtain q w2 where m: "ln_matchByte v w1 = (q, w2)" by (cases "ln_matchByte v w1")
  have "ln_receiver w2 = ln_receiver w" using read_receiver(1) [of "pass w"] read_receiver(2) [of v w1] by (simp add: r m)
  then show ?case using 1(1) [OF refl] 1(2) [OF refl _ _ r [symmetric] refl m [symmetric] refl]
    by (subst await_ring.simps) (auto simp: Let_def r m)
qed

lemma window_receiver [simp]: "ln_receiver (snd (awaitRing e c w)) = ln_receiver w"
proof -
  have "ln_receiver w' = ln_receiver w" if "await_ring start c w1 = (a, w')" "ln_receiver w1 = ln_receiver w" for start w1 a w'
    using await_receiver [of start c w1] that by simp
  then show ?thesis
    by (auto simp: awaitRing_def onLinkWindowBegin_def onLinkWindowEnd_def clearPendingWakes_def w_edge_def Let_def split: prod.splits)
qed

lemma attempts_receiver: "ln_receiver (ln_attempts left e f c w) = ln_receiver w"
proof (induction left arbitrary: w)
  case 0
  obtain a w1 where a: "awaitRing e c w = (a, w1)" by (cases "awaitRing e c w")
  then show ?case using window_receiver [of e c w] by (cases a; subst ln_attempts.simps) simp_all
next
  case (Suc left)
  obtain a w1 where a: "awaitRing e c w = (a, w1)" by (cases "awaitRing e c w")
  then show ?case using window_receiver [of e c w] Suc.IH by (cases a; subst ln_attempts.simps) simp_all
qed

lemma send_receiver [simp]: "ln_receiver (ln_sendOnEdge e f w) = ln_receiver w"
  by (simp add: ln_sendOnEdge_def Let_def attempts_receiver)

lemma sends_receiver [simp]:
  "ln_receiver (fold (\<lambda>(e, f). ln_sendOnEdge e f) sends w) = ln_receiver w" "ln_receiver (fold (\<lambda>(e, f). ln_transmit e f) sends w) = ln_receiver w"
  by (induction sends arbitrary: w) auto

lemma effects_receiver [simp]: "ln_receiver (fold ln_effect es w) = ln_receiver w"
proof (induction es arbitrary: w)
  case (Cons x es)
  have "ln_receiver (ln_effect x w) = ln_receiver w" by (cases x) (simp_all add: w_emit_def)
  then show ?case using Cons.IH by simp
qed simp

lemma frame_receiver: "ln_receiver (ln_onFrame t w) = ln_receiver w"
  by (auto simp: ln_onFrame_def ln_dispatch_def ln_handlePacket_def w_emit_def Let_def split: prod.splits)

definition young :: "u32 \<Rightarrow> world \<Rightarrow> bool" where
  "young t w \<longleftrightarrow> (claimed w \<longrightarrow> t - efr_claimStartMs (ln_receiver w) < MAX_CLAIM_MS \<and> t - efr_lastActivityMs (ln_receiver w) < FRAME_TIMEOUT_MS)"

lemma young_cong: "ln_receiver w' = ln_receiver w \<Longrightarrow> young t w' \<longleftrightarrow> young t w"
  by (simp add: young_def claimed_def)

lemma young_fresh: "efr_claimStartMs (ln_receiver w) = t \<Longrightarrow> efr_lastActivityMs (ln_receiver w) = t \<Longrightarrow> young t w"
  by (simp add: young_def MAX_CLAIM_MS_def FRAME_TIMEOUT_MS_def)

lemma young_wake_edges: "young t w \<Longrightarrow> young t (wake_edges t m es w)"
proof (induction t m es w rule: wake_edges.induct)
  case (2 t m e es w)
  obtain q r where q: "efr_onEdgeWake (of_nat e) t (ln_receiver w) = (q, r)" by (cases "efr_onEdgeWake (of_nat e) t (ln_receiver w)")
  show ?case
  proof (cases q)
    case True
    then have "efr_claimStartMs r = t" "efr_lastActivityMs r = t" using q by (auto simp: efr_onEdgeWake_def split: if_splits)
    then show ?thesis using 2 True q by (auto simp: w_edge_def intro!: young_fresh)
  next
    case False
    then have "r = ln_receiver w" using q by (auto simp: efr_onEdgeWake_def split: if_splits)
    then show ?thesis using 2 False q young_cong [of "w\<lparr>ln_receiver := r\<rparr>" w t] by simp
  qed
qed simp

lemma young_pollWake: "young t w \<Longrightarrow> young t (pollWake t w)"
proof -
  assume "young t w"
  then have "young t ((pass w)\<lparr>ln_pendingWakeMask := 0\<rparr>)" using young_cong [of "(pass w)\<lparr>ln_pendingWakeMask := 0\<rparr>" w] by simp
  then have "young t (wake_edges t m es ((pass w)\<lparr>ln_pendingWakeMask := 0\<rparr>))" for m es by (rule young_wake_edges)
  then show ?thesis using \<open>young t w\<close> young_cong [OF sync_receiver] by (simp add: pollWake_def Let_def)
qed

lemma young_byte: "young t w \<Longrightarrow> young t (ln_byte t w)"
proof -
  assume y: "young t w"
  define w0 where "w0 = ln_claimParked t (pollWake t w)"
  have "young t w0" using young_pollWake [OF y] young_cong [OF sync_receiver]
    by (auto simp: w0_def ln_claimParked_def efr_onEdgeWake_def efr_claimedEdge_def intro!: young_fresh)
  then have w1: "young t w1" "ln_receiver w1 = ln_receiver w0" if "ln_readByte w0 = (v, w1)" for v w1
    using that read_receiver(1) [of w0] young_cong [of w1 w0] by simp_all
  obtain v w1 where v: "ln_readByte w0 = (v, w1)" by (cases "ln_readByte w0")
  obtain d r where d: "efr_onByte v t (ln_receiver w1) = (d, r)" by (cases "efr_onByte v t (ln_receiver w1)")
  have "young t (w1\<lparr>ln_receiver := r\<rparr>)"
    using d w1(1) [OF v]
    by (auto simp: young_def claimed_def efr_onByte_def efr_claimedEdge_def efr_release_def FRAME_TIMEOUT_MS_def Let_def split: if_splits prod.splits)
  then show ?thesis
    using v d young_cong [OF frame_receiver] young_cong [of "w1\<lparr>ln_lastRelayActivityMs := t, ln_receiver := r\<rparr>" "w1\<lparr>ln_receiver := r\<rparr>" t]
    by (auto simp: ln_byte_def w0_def [symmetric] Let_def)
qed

lemma young_poll: "young t w \<Longrightarrow> young t (poll_bytes n t w)"
  by (induction n t w rule: poll_bytes.induct) (simp_all add: Let_def young_byte young_cong [OF pass_world(6)])

lemma young_tickReceiver: "young t (ln_tickReceiver t w)"
proof -
  have tick: "young t (w1\<lparr>ln_receiver := efr_tick t r\<rparr>)" for w1 r
    by (auto simp: young_def claimed_def efr_tick_def efr_claimedEdge_def efr_release_def)
  have probe: "young t (pollProbeClaim t w1)" if "young t w1" for w1
    using that young_cong [OF sync_receiver]
    by (auto simp: pollProbeClaim_def Let_def efr_preemptClaim_def w_edge_def claimed_def split: prod.splits if_splits intro!: young_fresh)
  show ?thesis by (auto simp: ln_tickReceiver_def Let_def tick young_cong [OF sync_receiver] split: prod.splits intro!: probe)
qed

lemma young_tick: "\<not> w_halted (ln_tick width t w) \<Longrightarrow> young t (ln_tick width t w)"
proof -
  assume h: "\<not> w_halted (ln_tick width t w)"
  define w1 where "w1 = pollBytes t (pollWake t w)"
  define w2 where "w2 = pass (ln_tickPlayer width t (ln_tickReceiver t w1))"
  have y2: "young t w2"
    using young_tickReceiver [of t w1] young_cong [of w2 "ln_tickReceiver t w1" t]
    by (auto simp: w2_def ln_tickPlayer_def split: prod.splits)
  have led: "young t (w_edge f w3) = young t w3" for f w3 by (rule young_cong) (simp add: w_edge_def)
  have logs: "ln_receiver (flushIdleDebugLogs t w3) = ln_receiver w3" for w3
    by (auto simp: flushIdleDebugLogs_def w_emit_def Let_def split: prod.splits option.splits)
  have tick: "ln_tick width t w =
      (if w_halted w1 then w1
       else if et_available (ln_transport w2) then
         (let w3 = pollBytes t (pollWake t w2) in if w_halted w3 then w3 else w_edge (et_pollTrunkActivityLed t) w3)
       else w_edge (et_pollTrunkActivityLed t) (flushIdleDebugLogs t w2))"
    by (simp add: ln_tick_def w1_def w2_def Let_def)
  show ?thesis
    using h y2 young_poll [OF young_pollWake [OF y2], of MAX_BYTES_PER_POLL] young_cong [OF logs, of t w2]
    unfolding tick Let_def by (auto simp: led pollBytes_def)
qed

section \<open>The property\<close>

text \<open>
  C9. Whatever interrupts come in, and wherever they interrupt the main loop, after every turn of it no frame is half sent
  and the panel can be woken: either the wake interrupts are on and no edge is claimed, or they are off because an edge is
  claimed or because a wake is latched that the next turn takes up. And unless the turn reset the panel, a claim that it
  leaves began less than 100 ms before and saw a byte, or began, less than 20 ms before.
\<close>

theorem panel_can_be_woken:
  "let w = ln_tick width t (main_loop width n (ln_init slots palette script)); r = ln_receiver w
   in \<not> et_transmitting (ln_transport w)
     \<and> (et_PCMSK0 (ln_transport w) = WAKE_PCINT_BITS \<and> \<not> ln_wakeInterruptsSuppressed w \<and> efr_claimedEdge r = NO_EDGE
        \<or> et_PCMSK0 (ln_transport w) = 0 \<and> ln_wakeInterruptsSuppressed w
          \<and> (efr_claimedEdge r \<noteq> NO_EDGE \<or> ln_pendingWakeMask w \<noteq> 0))
     \<and> (w_halted w \<or> efr_claimedEdge r = NO_EDGE
        \<or> t - efr_claimStartMs r < MAX_CLAIM_MS \<and> t - efr_lastActivityMs r < FRAME_TIMEOUT_MS)"
proof -
  define w where "w = ln_tick width t (main_loop width n (ln_init slots palette script))"
  have "armed w" unfolding w_def by (intro tick_armed loop_armed init_armed)
  moreover have "w_halted w \<or> young t w" unfolding w_def using young_tick by blast
  ultimately show ?thesis unfolding w_def [symmetric] Let_def
    by (auto simp: armed_def mask_ok_def claimed_def young_def wakes_on_def wakes_off_def split: if_splits)
qed

theorem panel_can_be_woken_witness:
  "let w = ln_tick 8 5 (main_loop 8 1 (ln_init [] [] [([Pcint 4], 3)])); r = ln_receiver w
   in \<not> et_transmitting (ln_transport w)
     \<and> (et_PCMSK0 (ln_transport w) = WAKE_PCINT_BITS \<and> \<not> ln_wakeInterruptsSuppressed w \<and> efr_claimedEdge r = NO_EDGE
        \<or> et_PCMSK0 (ln_transport w) = 0 \<and> ln_wakeInterruptsSuppressed w
          \<and> (efr_claimedEdge r \<noteq> NO_EDGE \<or> ln_pendingWakeMask w \<noteq> 0))
     \<and> (w_halted w \<or> efr_claimedEdge r = NO_EDGE
        \<or> 5 - efr_claimStartMs r < MAX_CLAIM_MS \<and> 5 - efr_lastActivityMs r < FRAME_TIMEOUT_MS)"
  by (rule panel_can_be_woken)

end
