(* ===== verification/Panel_Trace.thy ===== *)
theory Panel_Trace
  imports
    Panel_Wakes
begin

text \<open>
  What a panel hands to its dispatcher, against interrupts at every point of the main loop: only whole frames, each
  acknowledged first and not heard just before.
\<close>

section \<open>Frames are whole\<close>

lemma deframed_whole: "f \<in> set (fst (deframe v bs)) \<Longrightarrow> wire_frame v f"
proof (induction v bs rule: deframe.induct)
  case (2 v b bs)
  let ?n = "packetSizeForType b" and ?f = "take (packetSizeForType b) (b # bs)"
  obtain frames rest where d: "deframe v (drop ?n (b # bs)) = (frames, rest)" by (cases "deframe v (drop ?n (b # bs))")
  consider "?n = 0" | "length (b # bs) < ?n" | "?n \<noteq> 0" "\<not> length (b # bs) < ?n" by blast
  then show ?case
  proof cases
    case 1
    then show ?thesis using 2 by (simp add: deframe_noise)
  next
    case short: 2
    then show ?thesis using 2(3) deframe_partial [of "b # bs"] by simp
  next
    case 3
    then have head: "?f ! 0 = b" "?f \<noteq> []" "length ?f = ?n" by (simp_all add: nth_Cons')
    have "f = ?f \<and> validatePacket ?f ?n v = 0 \<or> f \<in> set frames"
      using 2(3) 3 d by (simp add: deframe.simps(2) Let_def split: if_splits)
    then show ?thesis
    proof
      assume "f = ?f \<and> validatePacket ?f ?n v = 0"
      then show ?thesis using head unfolding wire_frame_def by metis
    next
      assume "f \<in> set frames"
      then show ?thesis using 2(2) 3 d by simp
    qed
  qed
qed simp

lemma pushed_whole:
  assumes "framer_inv fr" "framer_pushByte b fr = (True, fr')"
  shows "wire_frame (pf_validateProtocolVersion fr) (framer_frame fr')"
proof -
  have "framer_step_ok fr b (True, fr')" using framer_pushByte_ok [OF assms(1), of b] assms(2) by simp
  then have "framer_frame fr' \<in> set (fst (deframe (pf_validateProtocolVersion fr) (framer_pending fr @ [b])))"
    by (simp add: framer_step_ok_def)
  then show ?thesis by (rule deframed_whole)
qed

lemma completed_whole:
  assumes "efr_inv r" "efr_onByte b t r = (True, r')"
  shows "wire_frame True (efr_frame r')" "efr_fromEdge r' = efr_claimedEdge r" "efr_claimedEdge r \<noteq> NO_EDGE"
proof -
  have act: "efr_activeEdge r \<noteq> NO_EDGE" using assms(2) by (auto simp: efr_onByte_def split: if_splits)
  obtain d fr where push: "framer_pushByte b (efr_framer r) = (d, fr)" by (cases "framer_pushByte b (efr_framer r)")
  note step = efr_onByte_claimed [OF act push, of t]
  have d: d using step assms(2) by (cases d) auto
  show "wire_frame True (efr_frame r')"
    using step assms pushed_whole [of "efr_framer r" b fr] push d by (auto simp: efr_inv_def efr_frame_def)
  show "efr_fromEdge r' = efr_claimedEdge r" "efr_claimedEdge r \<noteq> NO_EDGE"
    using step assms(2) d act by (auto simp: efr_fromEdge_def efr_claimedEdge_def)
qed

section \<open>Edges that exist\<close>

definition exists_edge :: "u8 \<Rightarrow> bool" where
  "exists_edge e \<longleftrightarrow> unat e < EDGE_COUNT"

text \<open>The discovery driver names existing edges only, and its frames open no window.\<close>

definition drv_ok :: "PanelDiscoveryDriver \<Rightarrow> bool" where
  "drv_ok d \<longleftrightarrow>
     pd_edgeCount (pdd_discovery d) = of_nat EDGE_COUNT \<and> exists_edge (pd_parent (pdd_discovery d))
     \<and> (pdd_probingEdgeIndex d = DRIVER_NO_EDGE \<or> exists_edge (pdd_probingEdgeIndex d))"

definition driver_sends :: "edge_sends \<times> PanelDiscoveryDriver \<Rightarrow> bool" where
  "driver_sends r \<longleftrightarrow> drv_ok (snd r) \<and> list_all (\<lambda>(e, f). exists_edge e \<and> \<not> isLinkAckedType (frame_type f)) (fst r)"

lemma control_plane_raw:
  "\<not> isLinkAckedType (packetType_code PACKET_INITIALIZATION_PULL)" "\<not> isLinkAckedType (packetType_code PACKET_REGISTER_EDGE)"
  "\<not> isLinkAckedType (packetType_code PACKET_DISCOVERY_DONE)" "\<not> isLinkAckedType (packetType_code PACKET_LINK_ACK)"
  by (simp_all add: isLinkAckedType_def packetType_of_code del: packetType_code.simps)

lemma nextEdge_exists: "pd_edgeCount t = of_nat EDGE_COUNT \<Longrightarrow> pdd_nextEdge t = Some e \<Longrightarrow> exists_edge (of_nat e)"
  by (auto simp: pdd_nextEdge_def find_Some_iff exists_edge_def EDGE_COUNT_def unat_of_nat)

lemma drv_deferLog [simp]: "drv_ok (pdd_deferLog c a b d) = drv_ok d"
  by (simp add: drv_ok_def)

lemma sendProbe_ok: "drv_ok d \<Longrightarrow> exists_edge e \<Longrightarrow> driver_sends (pdd_sendProbe e t d)"
  by (simp add: driver_sends_def pdd_sendProbe_def probe_frame_def control_plane_raw drv_ok_def del: packetType_code.simps)

lemma tryNextEdge_ok:
  assumes "drv_ok d"
  shows "driver_sends (pdd_tryNextEdge t d)"
proof (cases "pdd_nextEdge (pdd_discovery d)")
  case None
  then show ?thesis using assms
    by (simp add: pdd_tryNextEdge_def driver_sends_def done_frame_def control_plane_raw drv_ok_def Let_def del: packetType_code.simps)
next
  case (Some e)
  have "drv_ok (d\<lparr>pdd_probeAttempts := 0\<rparr>)" using assms by (simp add: drv_ok_def)
  then show ?thesis using Some assms nextEdge_exists [of "pdd_discovery d" e] by (simp add: pdd_tryNextEdge_def sendProbe_ok drv_ok_def)
qed

lemma frame_ok:
  assumes "drv_ok d" "exists_edge e"
  shows "driver_sends (pdd_onFrameArrived e f t d)"
proof -
  have pull: "driver_sends (pdd_handleInitializationPull e p d)" for p
    using assms
    by (auto simp: pdd_handleInitializationPull_def pd_onParentOffer_def control_plane_raw drv_ok_def driver_sends_def Let_def
        simp del: packetType_code.simps)
  have reply: "driver_sends (pdd_handleRegisterEdgeReply e r t d)" for r
  proof -
    have "drv_ok (d\<lparr>pdd_probingEdgeIndex := DRIVER_NO_EDGE, pdd_discovery := pd_onChildProbeAccepted e i (pdd_discovery d)\<rparr>)"
      "drv_ok (d\<lparr>pdd_probingEdgeIndex := DRIVER_NO_EDGE, pdd_discovery := pd_onChildProbeFailed e (pdd_discovery d)\<rparr>)" for i
      using assms by (simp_all add: drv_ok_def pd_onChildProbeAccepted_def pd_onChildProbeFailed_def)
    then have "drv_ok (d\<lparr>pdd_probingEdgeIndex := DRIVER_NO_EDGE, pdd_discovery := pd_onChildProbeAccepted e i (pdd_discovery d)\<rparr>)"
      "driver_sends (pdd_tryNextEdge t (d\<lparr>pdd_probingEdgeIndex := DRIVER_NO_EDGE, pdd_discovery := pd_onChildProbeFailed e (pdd_discovery d)\<rparr>))" for i
      by (simp_all add: tryNextEdge_ok)
    then show ?thesis by (auto simp: pdd_handleRegisterEdgeReply_def driver_sends_def Let_def split: prod.split)
  qed
  have advance: "driver_sends (pdd_handleAdvance g a t d)" for g a
  proof -
    have "drv_ok (d\<lparr>pdd_pendingAssignIndex := i\<rparr>)" for i using assms(1) by (simp add: drv_ok_def)
    then show ?thesis using assms(1) tryNextEdge_ok by (simp add: pdd_handleAdvance_def driver_sends_def)
  qed
  have none: "driver_sends ([], d)" using assms(1) by (simp add: driver_sends_def)
  show ?thesis unfolding pdd_onFrameArrived_def
    by (cases "packetType_of (frame_type f)") (use pull reply advance none in \<open>auto split: packetType_t.split\<close>)
qed

lemma driver_tick_ok:
  assumes "drv_ok d"
  shows "driver_sends (pdd_tick t d)"
proof -
  have "driver_sends ([], d)" using assms by (simp add: driver_sends_def)
  moreover have "drv_ok (pdd_deferLog c a b d\<lparr>pdd_probeAttempts := n\<rparr>)"
    "drv_ok (pdd_deferLog c a b d\<lparr>pdd_probeAttempts := n, pdd_probingEdgeIndex := DRIVER_NO_EDGE, pdd_discovery := pd_onChildProbeFailed e (pdd_discovery d)\<rparr>)" for c a b n e
    using assms by (simp_all add: drv_ok_def pd_onChildProbeFailed_def)
  moreover have "pdd_probingEdgeIndex d \<noteq> DRIVER_NO_EDGE \<Longrightarrow> exists_edge (pdd_probingEdgeIndex d)"
    using assms by (simp add: drv_ok_def)
  ultimately show ?thesis by (simp add: pdd_tick_def Let_def sendProbe_ok tryNextEdge_ok)
qed

lemma dispatch_ok:
  assumes "drv_ok d" "exists_edge e" "dispatcher_onFrameArrived e f t d = (act, sends, d')"
  shows "drv_ok d'" "list_all (\<lambda>(e, f). exists_edge e) sends"
proof -
  obtain reaction d1 where r: "pdd_onFrameArrived e f t d = (reaction, d1)" by (cases "pdd_onFrameArrived e f t d")
  have dr: "driver_sends (reaction, d1)" using frame_ok [OF assms(1,2), of f t] by (simp add: r)
  have edges: "exists_edge i" if "i \<in> set (pd_edge_list (pdd_discovery d))" for i
    using that assms(1) by (auto simp: pd_edge_list_def drv_ok_def exists_edge_def EDGE_COUNT_def unat_of_nat)
  have best: "fst (route_scan t0 fr g es b c a) \<in> set es \<or> fst (route_scan t0 fr g es b c a) = b" for t0 fr g es b c a
    by (induction t0 fr g es b c a rule: route_scan.induct) (auto simp: Let_def)
  obtain b c a where scan: "route_scan (pdd_discovery d) e (frame_target f) (pd_edge_list (pdd_discovery d)) ROUTER_NO_EDGE 0 True = (b, c, a)"
    by (cases "route_scan (pdd_discovery d) e (frame_target f) (pd_edge_list (pdd_discovery d)) ROUTER_NO_EDGE 0 True")
  have "list_all (\<lambda>(e, f). exists_edge e) (routeDownstream e f (pdd_discovery d))"
    using edges best [of "pdd_discovery d" e "frame_target f" "pd_edge_list (pdd_discovery d)" ROUTER_NO_EDGE 0 True] scan
    by (auto simp: routeDownstream_def list_all_iff Let_def)
  then have "list_all (\<lambda>(e, f). exists_edge e) (router_onFrameArrived e f (pdd_discovery d))"
    using assms(1) by (auto simp: router_onFrameArrived_def drv_ok_def)
  then show "drv_ok d'" "list_all (\<lambda>(e, f). exists_edge e) sends"
    using assms(3) dr by (auto simp: dispatcher_onFrameArrived_def r driver_sends_def list_all_iff Let_def split: if_splits)
qed

section \<open>Steps that hand nothing on\<close>

fun plain :: "panel_out \<Rightarrow> bool" where
  "plain (Heard e f t) = False"
| "plain (Dispatch e f t) = False"
| "plain (Wire e f) = exists_edge e"
| "plain _ = True"

definition mux :: "world \<Rightarrow> u8" where
  "mux w = et_rxSelectedEdge (ln_transport w)"

definition driver :: "world \<Rightarrow> PanelDiscoveryDriver" where
  "driver w = pn_driver (ln_node w)"

text \<open>Only frames on existing edges and effects in the trace; the receiver, the dedup memory and the driver as they were.\<close>

definition quiet :: "world \<Rightarrow> world \<Rightarrow> bool" where
  "quiet w w' \<longleftrightarrow>
     (\<exists>xs. w_out w' = w_out w @ xs \<and> list_all plain xs) \<and> ln_linkDedup w' = ln_linkDedup w \<and> ln_receiver w' = ln_receiver w
     \<and> driver w' = driver w \<and> (exists_edge (mux w) \<longrightarrow> exists_edge (mux w'))"

definition same :: "world \<Rightarrow> world \<Rightarrow> bool" where
  "same w w' \<longleftrightarrow> w_out w' = w_out w \<and> ln_linkDedup w' = ln_linkDedup w \<and> ln_receiver w' = ln_receiver w \<and> driver w' = driver w \<and> mux w' = mux w"

lemma quiet_same: "same w w' \<Longrightarrow> quiet w w'"
  by (simp add: quiet_def same_def)

lemma same_trans: "same w w1 \<Longrightarrow> same w1 w2 \<Longrightarrow> same w w2"
  by (simp add: same_def)

lemma quiet_trans: "quiet w w1 \<Longrightarrow> quiet w1 w2 \<Longrightarrow> quiet w w2"
  by (auto simp: quiet_def)

lemma same_fields [simp]:
  "same w (w\<lparr>ln_arqLink := l\<rparr>)" "same w (w\<lparr>ln_pendingWakeMask := m\<rparr>)" "same w (w\<lparr>ln_wakeInterruptsSuppressed := q\<rparr>)"
  "same w (w\<lparr>ln_lastRelayActivityMs := t\<rparr>)" "same w (w\<lparr>ln_probingSinceMs := t\<rparr>)" "same w (w\<lparr>w_halted := h\<rparr>)" "same w w"
  by (simp_all add: same_def driver_def mux_def)

lemma same_irq: "same w (irq_run i w)"
  by (cases i) (simp_all add: same_def driver_def mux_def irq_world pcint0_isr_def onEdgeWakeIsr_def w_edge_def et_onRxByte_def
      et_setWakeInterruptsEnabled_def Let_def EDGE_COUNT_def upt_rec)

lemma same_irqs: "same w (fold irq_run is w)"
  by (induction "is" arbitrary: w) (auto intro: same_trans [OF same_irq])

lemma same_pass: "same w (pass w)"
proof -
  have "same w (w\<lparr>w_millis := t\<rparr>)" "same w (w\<lparr>w_script := s, w_millis := t\<rparr>)" for s t by (simp_all add: same_def driver_def mux_def)
  moreover have "same w (fold irq_run irqs (w\<lparr>w_script := s, w_millis := t\<rparr>))" for irqs s t
    using same_irqs same_trans calculation(2) by blast
  ultimately show ?thesis by (auto simp: pass_def split: list.split)
qed

lemma same_passes: "same w (fold (\<lambda>_. pass) xs w)"
  by (induction xs arbitrary: w) (auto intro: same_trans [OF same_pass])

lemma same_edge: "(\<And>t. et_rxSelectedEdge (f t) = et_rxSelectedEdge t) \<Longrightarrow> same w (w_edge f w)"
  by (simp add: same_def driver_def mux_def w_edge_def)

lemma transmit_out: "w_out (ln_transmit e f w) = w_out w @ [Wire e (et_frame f)]"
  and transmit_same: "same (w\<lparr>w_out := w_out w @ [Wire e (et_frame f)]\<rparr>) (ln_transmit e f w)"
proof -
  obtain saved t where b: "et_sendBegin e (ln_transport w) = (saved, t)" by (cases "et_sendBegin e (ln_transport w)")
  define w1 where "w1 = fold (\<lambda>_. pass) (et_frame f) (w\<lparr>ln_transport := t\<rparr>)"
  have "et_rxSelectedEdge t = et_rxSelectedEdge (ln_transport w)" using b by (auto simp: et_sendBegin_def et_setEdgeEnable_def Let_def)
  then have "same w (w\<lparr>ln_transport := t\<rparr>)" by (simp add: same_def driver_def mux_def)
  then have "same w w1" unfolding w1_def using same_passes same_trans by blast
  moreover have "same w1 (w_edge (et_sendEnd e saved) w1)" by (rule same_edge) (simp add: et_sendEnd_def et_setEdgeEnable_def Let_def)
  ultimately have k: "same w (w_edge (et_sendEnd e saved) w1)" by (rule same_trans)
  have eq: "ln_transmit e f w = w_emit (Wire e (et_frame f)) (w_edge (et_sendEnd e saved) w1)" by (simp add: ln_transmit_def b w1_def Let_def)
  show "w_out (ln_transmit e f w) = w_out w @ [Wire e (et_frame f)]"
    "same (w\<lparr>w_out := w_out w @ [Wire e (et_frame f)]\<rparr>) (ln_transmit e f w)"
    using k by (simp_all add: eq w_emit_def same_def driver_def mux_def)
qed

lemma quiet_transmit: "exists_edge e \<Longrightarrow> quiet w (ln_transmit e f w)"
  using transmit_out [of e f w] transmit_same [of w e f] by (simp add: quiet_def same_def driver_def mux_def)

lemma same_sync: "same w (syncWakeInterruptSuppression w)"
proof -
  define s where "s = (efr_claimedEdge (ln_receiver w) \<noteq> NO_EDGE)"
  have "same (pass w) ((pass w)\<lparr>ln_wakeInterruptsSuppressed := s\<rparr>)" by simp
  moreover have "same w' (w_edge (et_setWakeInterruptsEnabled q) w')" for w' q by (rule same_edge) (simp add: et_setWakeInterruptsEnabled_def)
  ultimately have "same w (w_edge (et_setWakeInterruptsEnabled (\<not> s)) (pass ((pass w)\<lparr>ln_wakeInterruptsSuppressed := s\<rparr>)))"
    using same_pass same_trans by meson
  then show ?thesis using same_pass [of w] unfolding syncWakeInterruptSuppression_def Let_def s_def by presburger
qed

lemma same_read: "same w (snd (ln_readByte w))" "same w (snd (ln_matchByte v w))"
  by (auto simp: ln_readByte_def ln_matchByte_def et_readByte_def same_def driver_def mux_def split: prod.splits)

lemma same_await: "same w (snd (await_ring start c w))"
proof (induction start c w rule: await_ring.induct)
  case (1 start c w)
  obtain v w1 where r: "ln_readByte (pass w) = (v, w1)" by (cases "ln_readByte (pass w)")
  obtain q w2 where m: "ln_matchByte v w1 = (q, w2)" by (cases "ln_matchByte v w1")
  have "same (pass w) w1" "same w1 w2" using same_read(1) [of "pass w"] same_read(2) [of w1 v] by (simp_all add: r m)
  then have "same w w2" using same_pass same_trans by blast
  then show ?case using 1(1) [OF refl] 1(2) [OF refl _ _ r [symmetric] refl m [symmetric] refl] same_trans same_pass [of w]
    by (subst await_ring.simps) (auto simp: Let_def r m)
qed

lemma quiet_window: "exists_edge e \<Longrightarrow> quiet w (snd (awaitRing e c w))"
proof -
  assume e: "exists_edge e"
  define w0 where "w0 = onLinkWindowBegin w"
  define w1 where "w1 = (w_edge (et_selectRxEdge e) w0)\<lparr>ln_arqLink := (ln_arqLink w0)\<lparr>al_ackMatcher := lam_reset (al_ackMatcher (ln_arqLink w0))\<rparr>\<rparr>"
  have "same w (w_edge (et_setWakeInterruptsEnabled False) w)" by (rule same_edge) (simp add: et_setWakeInterruptsEnabled_def)
  then have "same w (pass (w_edge (et_setWakeInterruptsEnabled False) w))" using same_pass same_trans by blast
  then have "same w w0" by (simp add: w0_def onLinkWindowBegin_def clearPendingWakes_def Let_def same_def driver_def mux_def)
  then have "quiet w w1" using e by (simp add: w1_def quiet_def same_def driver_def mux_def w_edge_def et_selectRxEdge_def)
  moreover obtain a w2 where a: "await_ring (w_millis w1) c w1 = (a, w2)" by (cases "await_ring (w_millis w1) c w1")
  moreover have "same w1 w2" using same_await [of w1 "w_millis w1" c] by (simp add: a)
  then have "same w1 (syncWakeInterruptSuppression (clearPendingWakes w2))"
    using same_sync same_trans same_fields(2) unfolding clearPendingWakes_def by blast
  moreover have "awaitRing e c w = (a, syncWakeInterruptSuppression (clearPendingWakes w2))"
    using a unfolding awaitRing_def Let_def w1_def w0_def by (simp add: w_edge_def onLinkWindowEnd_def)
  ultimately show ?thesis using quiet_same quiet_trans by (metis snd_conv)
qed

lemma quiet_attempts: "exists_edge e \<Longrightarrow> quiet w (ln_attempts left e f c w)"
proof (induction left arbitrary: w)
  case 0
  obtain a w1 where a: "awaitRing e c w = (a, w1)" by (cases "awaitRing e c w")
  then show ?case using quiet_window [OF 0, of w c] quiet_trans [OF _ quiet_same [OF same_fields(1)]]
    by (cases a; subst ln_attempts.simps) simp_all
next
  case (Suc left)
  obtain a w1 where a: "awaitRing e c w = (a, w1)" by (cases "awaitRing e c w")
  have w1: "quiet w w1" using quiet_window [OF Suc.prems, of w c] by (simp add: a)
  have "quiet w (ln_attempts left e f c (ln_transmit e f (w1\<lparr>ln_arqLink := l\<rparr>)))" for l
    using w1 quiet_same [OF same_fields(1)] quiet_transmit [OF Suc.prems] Suc.IH [OF Suc.prems] quiet_trans by meson
  then show ?case using w1 by (cases a; subst ln_attempts.simps) (simp_all add: a)
qed

lemma quiet_send: "exists_edge e \<Longrightarrow> quiet w (ln_sendOnEdge e f w)"
  using quiet_trans [OF quiet_transmit quiet_attempts] quiet_transmit by (simp add: ln_sendOnEdge_def Let_def)

lemma quiet_sends:
  "list_all (\<lambda>(e, f). exists_edge e) sends \<Longrightarrow> quiet w (fold (\<lambda>(e, f). ln_sendOnEdge e f) sends w)"
  "list_all (\<lambda>(e, f). exists_edge e) sends \<Longrightarrow> quiet w (fold (\<lambda>(e, f). ln_transmit e f) sends w)"
  by (induction sends arbitrary: w) (auto intro: quiet_same [OF same_fields(7)] quiet_trans [OF quiet_send] quiet_trans [OF quiet_transmit])

text \<open>A packet handler sends to the parent only, and leaves the discovery driver alone.\<close>

definition upward :: "PanelNode \<Rightarrow> node_effect list \<times> PanelNode \<Rightarrow> bool" where
  "upward n r \<longleftrightarrow> pn_driver (snd r) = pn_driver n
     \<and> list_all (\<lambda>x. case x of Send_Up e f \<Rightarrow> e = pd_parent (pdd_discovery (pn_driver n)) | _ \<Rightarrow> True) (fst r)"

lemma upward_rgb: "upward n (with_rgb f n)" "upward n (with_player g n)" "upward n ([], n)" "upward n ([Device_Reset], n)"
  by (auto simp: upward_def with_rgb_def with_player_def list_all_iff split: prod.splits)

lemma upward_handle: "upward n (lp_handlePacket f t n)"
proof -
  have conf: "upward n (lp_handlePanelConfiguration p n)" for p
    by (auto simp: lp_handlePanelConfiguration_def upward_def with_rgb_def list_all_iff Let_def split: prod.splits)
  have "upward n (lp_handleFetchState n)" "upward n (lp_handleEnterBootloader b n)" for b
    by (simp_all add: lp_handleFetchState_def lp_handleEnterBootloader_def upward_def Let_def)
  then show ?thesis
    by (simp add: lp_handlePacket_def lp_handleTurnOnOff_def lp_handleSetColor_def lp_handleAnimationPrepare_def
        lp_handleAnimationStart_def lp_handleAnimationControl_def lp_handleAnimationUpdateParams_def lp_handleSetPalette_def
        lp_handleSetBaseColors_def lp_handleSetGlobalBrightness_def upward_rgb conf split: option.split payload.split)
qed

lemma upward_tick: "upward n (lp_tickPlayer width t n)"
  by (auto simp: lp_tickPlayer_def upward_def with_rgb_def list_all_iff Let_def split: prod.splits)

lemma quiet_effects:
  assumes "list_all (\<lambda>x. case x of Send_Up e f \<Rightarrow> exists_edge e | _ \<Rightarrow> True) es"
  shows "quiet w (fold ln_effect es w)"
  using assms
proof (induction es arbitrary: w)
  case (Cons x es)
  have "quiet w (ln_effect x w)" using Cons.prems
    by (cases x) (simp_all add: quiet_send, simp_all add: quiet_def w_emit_def driver_def mux_def)
  then show ?case using Cons.IH Cons.prems quiet_trans by auto
qed (simp add: quiet_same)

lemma quiet_node:
  assumes "drv_ok (driver w)" "upward (ln_node w) (es, n)"
  shows "quiet w (fold ln_effect es (w\<lparr>ln_node := n\<rparr>))"
proof -
  have "same w (w\<lparr>ln_node := n\<rparr>)" using assms(2) by (simp add: same_def driver_def mux_def upward_def)
  moreover have "list_all (\<lambda>x. case x of Send_Up e f \<Rightarrow> exists_edge e | _ \<Rightarrow> True) es"
    using assms by (auto simp: upward_def drv_ok_def driver_def list_all_iff split: node_effect.splits)
  ultimately show ?thesis using quiet_effects quiet_same quiet_trans by blast
qed

lemma quiet_handle:
  assumes "drv_ok (driver w)"
  shows "quiet w (ln_handlePacket f w)"
proof -
  obtain es n where r: "lp_handlePacket f (w_millis (pass w)) (ln_node (pass w)) = (es, n)" by (cases "lp_handlePacket f (w_millis (pass w)) (ln_node (pass w))")
  have "drv_ok (driver (pass w))" using assms by (simp add: driver_def)
  then have "quiet (pass w) (fold ln_effect es ((pass w)\<lparr>ln_node := n\<rparr>))"
    using upward_handle [of "ln_node (pass w)" f "w_millis (pass w)"] unfolding r by (intro quiet_node)
  then have "quiet w (fold ln_effect es ((pass w)\<lparr>ln_node := n\<rparr>))" using quiet_same [OF same_pass] quiet_trans by blast
  then show ?thesis using r by (simp add: ln_handlePacket_def Let_def)
qed

section \<open>The trace\<close>

text \<open>The hop-acknowledged frames heard so far, by edge, checksum and time.\<close>

definition heard_frames :: "panel_out list \<Rightarrow> (u8 \<times> u16 \<times> u32) list" where
  "heard_frames xs = List.map_filter (\<lambda>x. case x of Heard e f t \<Rightarrow> Some (e, crc16 f, t) | _ \<Rightarrow> None) xs"

text \<open>
  What may be handed to the dispatcher after a trace: a whole frame from an existing edge that is no hop acknowledgment;
  and if frames of its type are acknowledged, its acknowledgment has just been sent, and no copy of it was the last such
  frame heard on that edge within the window before.
\<close>

definition may_dispatch :: "panel_out list \<Rightarrow> u8 \<Rightarrow> u8 list \<Rightarrow> u32 \<Rightarrow> bool" where
  "may_dispatch xs e f t \<longleftrightarrow>
     exists_edge e \<and> wire_frame True f \<and> frame_type f \<noteq> packetType_code PACKET_LINK_ACK
     \<and> (isLinkAckedType (frame_type f) \<longrightarrow>
          (\<exists>ys. xs = ys @ [Heard e f t, Wire e (et_frame (sendLinkAck (crc16 f)))] \<and> \<not> repeats (last_seen e (heard_frames ys)) (crc16 f) t))"

definition event_ok :: "panel_out list \<Rightarrow> panel_out \<Rightarrow> bool" where
  "event_ok xs x \<longleftrightarrow> (case x of Wire e f \<Rightarrow> exists_edge e | Dispatch e f t \<Rightarrow> may_dispatch xs e f t | _ \<Rightarrow> True)"

definition trace_ok :: "panel_out list \<Rightarrow> bool" where
  "trace_ok xs \<longleftrightarrow> (\<forall>i < length xs. event_ok (take i xs) (xs ! i))"

lemma trace_snoc [simp]: "trace_ok (xs @ [x]) \<longleftrightarrow> trace_ok xs \<and> event_ok xs x" "trace_ok []"
  by (auto simp: trace_ok_def nth_append less_Suc_eq)

lemma trace_plain: "trace_ok xs \<Longrightarrow> list_all plain ys \<Longrightarrow> trace_ok (xs @ ys)"
proof (induction ys rule: rev_induct)
  case (snoc y ys)
  then have "trace_ok ((xs @ ys) @ [y])" unfolding trace_snoc by (cases y) (simp_all add: event_ok_def)
  then show ?case by simp
qed simp

lemma heard_frames_append: "heard_frames (xs @ ys) = heard_frames xs @ heard_frames ys"
  by (simp add: heard_frames_def map_filter_def)

lemma heard_frames_plain: "list_all plain xs \<Longrightarrow> heard_frames xs = []"
  by (induction xs) (auto simp: heard_frames_def map_filter_simps split: panel_out.splits)

lemma heard_frames_one [simp]: "heard_frames [Dispatch e f t] = []" "heard_frames [Heard e f t] = [(e, crc16 f, t)]" "heard_frames [Wire e g] = []"
  by (simp_all add: heard_frames_def map_filter_simps)

lemma last_seen_snoc: "last_seen e (xs @ [(i, c, t)]) = (if i = e then Some (c, t) else last_seen e xs)"
  by (induction e xs rule: last_seen.induct) (auto split: option.splits)

section \<open>The invariant of the main loop\<close>

definition receiver_ok :: "EdgeFrameReceiver \<Rightarrow> bool" where
  "receiver_ok r \<longleftrightarrow> efr_inv r \<and> (efr_claimedEdge r = NO_EDGE \<or> exists_edge (efr_claimedEdge r))"

definition world_ok :: "world \<Rightarrow> bool" where
  "world_ok w \<longleftrightarrow>
     trace_ok (w_out w) \<and> length (ln_linkDedup w) = EDGE_COUNT
     \<and> (\<forall>e. exists_edge e \<longrightarrow> ld_view (ln_linkDedup w) e = last_seen e (heard_frames (w_out w)))
     \<and> receiver_ok (ln_receiver w) \<and> exists_edge (mux w) \<and> drv_ok (driver w)"

lemma world_quiet: "world_ok w \<Longrightarrow> quiet w w' \<Longrightarrow> world_ok w'"
  by (auto simp: world_ok_def quiet_def trace_plain heard_frames_append heard_frames_plain)

lemma world_same: "world_ok w \<Longrightarrow> same w w' \<Longrightarrow> world_ok w'"
  by (rule world_quiet [OF _ quiet_same])

lemma world_fields [simp]:
  "world_ok (w\<lparr>ln_lastRelayActivityMs := t\<rparr>) = world_ok w" "world_ok (w\<lparr>ln_pendingWakeMask := m\<rparr>) = world_ok w"
  "world_ok (w\<lparr>ln_probingSinceMs := t\<rparr>) = world_ok w"
  by (simp_all add: world_ok_def driver_def mux_def)

lemma world_receiver: "world_ok w \<Longrightarrow> receiver_ok r \<Longrightarrow> world_ok (w\<lparr>ln_receiver := r\<rparr>)"
  by (simp add: world_ok_def driver_def mux_def)

lemma world_driver: "world_ok w \<Longrightarrow> drv_ok d \<Longrightarrow> world_ok (w\<lparr>ln_node := (ln_node w)\<lparr>pn_driver := d\<rparr>\<rparr>)"
  by (simp add: world_ok_def driver_def mux_def)

lemma world_mux: "world_ok w \<Longrightarrow> exists_edge e \<Longrightarrow> world_ok (w_edge (et_selectRxEdge e) w)"
  by (simp add: world_ok_def driver_def mux_def w_edge_def et_selectRxEdge_def)

lemma receiver_wake: "receiver_ok r \<Longrightarrow> exists_edge e \<Longrightarrow> receiver_ok (snd (efr_onEdgeWake e t r))"
  using efr_inv_wake [of r e t] by (auto simp: receiver_ok_def efr_onEdgeWake_def efr_claimedEdge_def)

lemma receiver_preempt: "receiver_ok r \<Longrightarrow> exists_edge e \<Longrightarrow> receiver_ok (snd (efr_preemptClaim e t r))"
  using efr_inv_preempt [of r e t] by (auto simp: receiver_ok_def efr_preemptClaim_def efr_claimedEdge_def Let_def)

lemma receiver_tick: "receiver_ok r \<Longrightarrow> receiver_ok (efr_tick t r)"
  using efr_inv_tick [of r t] by (auto simp: receiver_ok_def efr_tick_def efr_claimedEdge_def efr_release_def)

lemma receiver_byte: "receiver_ok r \<Longrightarrow> receiver_ok (snd (efr_onByte b t r))"
  using efr_inv_byte [of r b t]
  by (auto simp: receiver_ok_def efr_onByte_def efr_claimedEdge_def efr_release_def Let_def split: prod.splits)

lemma small_edge: "e < EDGE_COUNT \<Longrightarrow> exists_edge (of_nat e)"
  by (simp add: exists_edge_def EDGE_COUNT_def unat_of_nat)

text \<open>Frames.\<close>

lemma dispatch_world:
  assumes "world_ok w" "may_dispatch (w_out w) e f t"
  shows "world_ok (ln_dispatch e f t w)"
proof -
  obtain act sends d where r: "dispatcher_onFrameArrived e f t (driver w) = (act, sends, d)" by (cases "dispatcher_onFrameArrived e f t (driver w)")
  have ok: "drv_ok d" "list_all (\<lambda>(e, f). exists_edge e) sends"
    using dispatch_ok [OF _ _ r] assms by (simp_all add: world_ok_def may_dispatch_def)
  define w1 where "w1 = w_emit (Dispatch e f t) (w\<lparr>ln_node := (ln_node w)\<lparr>pn_driver := d\<rparr>\<rparr>)"
  have "world_ok w1" using world_driver [OF assms(1) ok(1)] assms(2)
    by (simp add: w1_def w_emit_def world_ok_def event_ok_def driver_def mux_def heard_frames_append)
  then have "world_ok (fold (\<lambda>(e, f). ln_sendOnEdge e f) sends w1)" using quiet_sends(1) [OF ok(2)] by (rule world_quiet)
  then have w2: "world_ok ((fold (\<lambda>(e, f). ln_sendOnEdge e f) sends w1)\<lparr>ln_lastRelayActivityMs := t\<rparr>)" by simp
  have "world_ok (ln_handlePacket f w')" if "world_ok w'" for w'
    using that quiet_handle [of w' f] by (intro world_quiet [OF that]) (simp add: world_ok_def)
  then have "world_ok (let w' = (fold (\<lambda>(e, f). ln_sendOnEdge e f) sends w1)\<lparr>ln_lastRelayActivityMs := t\<rparr> in if act then ln_handlePacket f w' else w')"
    using w2 by (simp add: Let_def)
  moreover have "(w_emit (Dispatch e f t) w)\<lparr>ln_node := (ln_node (w_emit (Dispatch e f t) w))\<lparr>pn_driver := d\<rparr>\<rparr> = w1"
    by (simp add: w1_def w_emit_def)
  ultimately show ?thesis using r by (cases act) (simp_all add: ln_dispatch_def driver_def Let_def)
qed

lemma onFrame_world:
  assumes w: "world_ok w" and f: "wire_frame True (efr_frame (ln_receiver w))" and e: "exists_edge (efr_fromEdge (ln_receiver w))"
  shows "world_ok (ln_onFrame t w)"
proof -
  define w0 where "w0 = syncWakeInterruptSuppression w"
  let ?f = "efr_frame (ln_receiver w)" and ?e = "efr_fromEdge (ln_receiver w)"
  have s: "same w w0" unfolding w0_def by (rule same_sync)
  have w0: "world_ok w0" using world_same [OF w s] .
  have recv: "ln_receiver w0 = ln_receiver w" using s by (simp add: same_def)
  consider "frame_type ?f = packetType_code PACKET_LINK_ACK" | "frame_type ?f \<noteq> packetType_code PACKET_LINK_ACK" "\<not> isLinkAckedType (frame_type ?f)"
    | "frame_type ?f \<noteq> packetType_code PACKET_LINK_ACK" "isLinkAckedType (frame_type ?f)" by blast
  then show ?thesis
  proof cases
    case 1
    then show ?thesis using w0 by (simp add: ln_onFrame_def w0_def [symmetric] recv Let_def del: packetType_code.simps)
  next
    case 2
    then have "may_dispatch (w_out w0) ?e ?f t" using e f by (simp add: may_dispatch_def)
    then show ?thesis using 2 dispatch_world [OF w0]
      by (simp add: ln_onFrame_def w0_def [symmetric] recv Let_def del: packetType_code.simps)
  next
    case 3
    define wh where "wh = w_emit (Heard ?e ?f t) w0"
    define wa where "wa = ln_transmit ?e (sendLinkAck (crc16 ?f)) wh"
    obtain dup dd where d: "ld_checkAndNote ?e (crc16 ?f) t (ln_linkDedup w0) = (dup, dd)" by (cases "ld_checkAndNote ?e (crc16 ?f) t (ln_linkDedup w0)")
    have ack: "ln_sendOnEdge ?e (sendLinkAck (crc16 ?f)) wh = wa"
      using control_plane_raw(4) by (simp add: ln_sendOnEdge_def wa_def Let_def sendLinkAck_def del: packetType_code.simps)
    have out: "w_out wa = w_out w0 @ [Heard ?e ?f t, Wire ?e (et_frame (sendLinkAck (crc16 ?f)))]"
      by (simp add: wa_def transmit_out wh_def w_emit_def)
    have wa: "quiet wh wa" unfolding wa_def using e by (rule quiet_transmit)
    have dedup: "ln_linkDedup wa = ln_linkDedup w0" using wa by (simp add: quiet_def wh_def w_emit_def)
    have lens: "length (ln_linkDedup w0) = EDGE_COUNT" and view: "\<And>i. exists_edge i \<Longrightarrow> ld_view (ln_linkDedup w0) i = last_seen i (heard_frames (w_out w0))"
      using w0 by (simp_all add: world_ok_def)
    have ld: "dup = repeats (ld_view (ln_linkDedup w0) ?e) (crc16 ?f) t" "length dd = EDGE_COUNT"
      "\<And>i. ld_view dd i = (if i = ?e then Some (crc16 ?f, t) else ld_view (ln_linkDedup w0) i)"
      using ld_check_view [of ?e "crc16 ?f" t "ln_linkDedup w0"] lens e by (simp_all add: d exists_edge_def)
    have hd: "heard_frames (w_out w0 @ [Heard ?e ?f t, Wire ?e g]) = heard_frames (w_out w0) @ [(?e, crc16 ?f, t)]" for g
      using heard_frames_append [of "[Heard ?e ?f t]" "[Wire ?e g]"] by (simp add: heard_frames_append)
    have tr: "trace_ok ((w_out w0 @ [Heard ?e ?f t]) @ [Wire ?e (et_frame (sendLinkAck (crc16 ?f)))])"
      using w0 e by (simp only: trace_snoc) (simp add: world_ok_def event_ok_def)
    have "receiver_ok (ln_receiver wa)" "exists_edge (mux wa)" "drv_ok (driver wa)"
      using wa w0 by (simp_all add: quiet_def world_ok_def wh_def w_emit_def mux_def driver_def)
    then have w1: "world_ok (wa\<lparr>ln_linkDedup := dd\<rparr>)"
      using tr ld(2,3) view by (simp add: world_ok_def mux_def driver_def out hd last_seen_snoc)
    have "may_dispatch (w_out (wa\<lparr>ln_linkDedup := dd\<rparr>)) ?e ?f t" if "\<not> dup"
      using that ld(1) view [OF e] e f 3 by (simp add: may_dispatch_def out)
    then have "world_ok (if dup then wa\<lparr>ln_linkDedup := dd\<rparr> else ln_dispatch ?e ?f t (wa\<lparr>ln_linkDedup := dd\<rparr>))"
      using w1 dispatch_world [OF w1] by simp
    then show ?thesis using 3 d ack dedup
      by (cases dup) (simp_all add: ln_onFrame_def w0_def [symmetric] recv Let_def wh_def [symmetric] del: packetType_code.simps)
  qed
qed

text \<open>The main loop.\<close>

lemma world_pass: "world_ok w \<Longrightarrow> world_ok (pass w)"
  by (rule world_same [OF _ same_pass])

lemma wake_edges_world:
  "world_ok w \<Longrightarrow> list_all (\<lambda>e. e < EDGE_COUNT) es \<Longrightarrow> world_ok (wake_edges t m es w)"
proof (induction t m es w rule: wake_edges.induct)
  case (2 t m e es w)
  obtain q r where q: "efr_onEdgeWake (of_nat e) t (ln_receiver w) = (q, r)" by (cases "efr_onEdgeWake (of_nat e) t (ln_receiver w)")
  have e: "exists_edge (of_nat e)" using 2(4) by (simp add: small_edge)
  have "receiver_ok r" using receiver_wake [OF _ e, of "ln_receiver w" t] 2(3) by (simp add: q world_ok_def)
  then have "world_ok (w\<lparr>ln_receiver := r\<rparr>)" using 2(3) by (rule world_receiver [rotated])
  then show ?case using 2 q world_mux [OF _ e] by (cases q) auto
qed simp

lemma pollWake_world: "world_ok w \<Longrightarrow> world_ok (pollWake t w)"
  unfolding pollWake_def Let_def
  by (auto intro!: world_same [OF _ same_sync] wake_edges_world simp: world_pass list_all_iff)

lemma byte_world:
  assumes "world_ok w"
  shows "world_ok (ln_byte t w)"
proof -
  define w0 where "w0 = ln_claimParked t (pollWake t w)"
  have p: "world_ok (pollWake t w)" using assms by (rule pollWake_world)
  have "receiver_ok (ln_receiver (pollWake t w))" "exists_edge (mux (pollWake t w))" using p by (simp_all add: world_ok_def)
  then have "receiver_ok (snd (efr_onEdgeWake (et_rxSelectedEdge (ln_transport (pollWake t w))) t (ln_receiver (pollWake t w))))"
    by (simp add: receiver_wake mux_def)
  then have w0: "world_ok w0" using p unfolding w0_def ln_claimParked_def
    by (auto intro!: world_same [OF _ same_sync] world_receiver)
  obtain v w1 where v: "ln_readByte w0 = (v, w1)" by (cases "ln_readByte w0")
  have w1: "world_ok w1" using world_same [OF w0 same_read(1)] by (simp add: v)
  obtain d r where d: "efr_onByte v t (ln_receiver w1) = (d, r)" by (cases "efr_onByte v t (ln_receiver w1)")
  have rw: "receiver_ok (ln_receiver w1)" using w1 by (simp add: world_ok_def)
  have w2: "world_ok (w1\<lparr>ln_lastRelayActivityMs := t, ln_receiver := r\<rparr>)"
    using receiver_byte [OF rw, of v t] w1 by (intro world_receiver) (simp_all add: d)
  show ?thesis
  proof (cases d)
    case True
    then have "wire_frame True (efr_frame r)" "exists_edge (efr_fromEdge r)"
      using completed_whole [of "ln_receiver w1" v t r] d rw by (auto simp: receiver_ok_def)
    then show ?thesis using onFrame_world [OF w2] True v d by (simp add: ln_byte_def w0_def [symmetric] Let_def)
  next
    case False
    then show ?thesis using w2 v d by (simp add: ln_byte_def w0_def [symmetric] Let_def)
  qed
qed

lemma poll_world: "world_ok w \<Longrightarrow> world_ok (poll_bytes n t w)"
  by (induction n t w rule: poll_bytes.induct) (simp_all add: Let_def byte_world world_pass)

lemma probeClaim_world:
  assumes "world_ok w"
  shows "world_ok (pollProbeClaim t w)"
proof (cases "pdd_isProbing (driver w)")
  case True
  let ?e = "pdd_probingEdgeIndex (driver w)"
  have e: "exists_edge ?e" using True assms by (auto simp: world_ok_def drv_ok_def pdd_isProbing_def)
  obtain q r where q: "efr_preemptClaim ?e t (ln_receiver w) = (q, r)" by (cases "efr_preemptClaim ?e t (ln_receiver w)")
  have "receiver_ok r" using receiver_preempt [OF _ e, of "ln_receiver w" t] assms by (simp add: q world_ok_def)
  then have w1: "world_ok (w\<lparr>ln_receiver := r\<rparr>)" by (rule world_receiver [OF assms])
  then have "world_ok (syncWakeInterruptSuppression (w_edge (et_selectRxEdge ?e) (w\<lparr>ln_receiver := r\<rparr>)))"
    using world_mux [OF _ e] world_same [OF _ same_sync] by blast
  then show ?thesis using w1 True q by (cases q) (simp_all add: pollProbeClaim_def driver_def Let_def)
qed (use assms in \<open>simp add: pollProbeClaim_def driver_def\<close>)

lemma tickReceiver_world:
  assumes "world_ok w"
  shows "world_ok (ln_tickReceiver t w)"
proof -
  obtain sends d where r: "pdd_tick t (driver w) = (sends, d)" by (cases "pdd_tick t (driver w)")
  have ds: "driver_sends (sends, d)" using driver_tick_ok [of "driver w" t] assms by (simp add: r world_ok_def)
  then have "world_ok (w\<lparr>ln_node := (ln_node w)\<lparr>pn_driver := d\<rparr>\<rparr>)" using assms by (intro world_driver) (simp_all add: driver_sends_def)
  moreover have "list_all (\<lambda>(e, f). exists_edge e) sends" using ds by (auto simp: driver_sends_def list_all_iff)
  ultimately have w1: "world_ok (fold (\<lambda>(e, f). ln_transmit e f) sends (w\<lparr>ln_node := (ln_node w)\<lparr>pn_driver := d\<rparr>\<rparr>))" (is "world_ok ?w")
    using quiet_sends(2) world_quiet by blast
  then have "world_ok (?w\<lparr>ln_receiver := efr_tick t (ln_receiver ?w)\<rparr>)"
    using receiver_tick by (intro world_receiver) (simp_all add: world_ok_def)
  then show ?thesis using r by (auto simp: ln_tickReceiver_def driver_def Let_def intro!: probeClaim_world world_same [OF _ same_sync])
qed

lemma tickPlayer_world:
  assumes "world_ok w"
  shows "world_ok (ln_tickPlayer width t w)"
proof -
  obtain es n where r: "lp_tickPlayer width t (ln_node w) = (es, n)" by (cases "lp_tickPlayer width t (ln_node w)")
  have "quiet w (fold ln_effect es (w\<lparr>ln_node := n\<rparr>))"
    using upward_tick [of "ln_node w" width t] assms unfolding r by (intro quiet_node) (simp_all add: world_ok_def)
  then show ?thesis using world_quiet [OF assms] r by (simp add: ln_tickPlayer_def)
qed

lemma logs_world:
  assumes "world_ok w"
  shows "world_ok (flushIdleDebugLogs t w)"
proof -
  obtain m line d where r: "pdd_flushOneDeferredLog (driver w) = (m, line, d)" by (cases "pdd_flushOneDeferredLog (driver w)")
  have d: "drv_ok d" using r assms by (auto simp: pdd_flushOneDeferredLog_def world_ok_def drv_ok_def split: list.splits)
  have "world_ok (w'\<lparr>ln_node := (ln_node w')\<lparr>pn_driver := d\<rparr>\<rparr>)" if "world_ok w'" for w' using that d by (rule world_driver)
  moreover have "world_ok (w_emit (Printed l) w')" if "world_ok w'" for l w'
  proof -
    have "quiet w' (w_emit (Printed l) w')" by (simp add: quiet_def w_emit_def driver_def mux_def)
    then show ?thesis by (rule world_quiet [OF that])
  qed
  ultimately have final: "world_ok (let w' = w'\<lparr>ln_node := (ln_node w')\<lparr>pn_driver := d\<rparr>\<rparr> in case line of None \<Rightarrow> w' | Some l \<Rightarrow> w_emit (Printed l) w')"
    if "world_ok w'" for w' using that by (simp add: Let_def split: option.split)
  show ?thesis using assms final r by (simp add: flushIdleDebugLogs_def driver_def Let_def)
qed

lemma led_world: "world_ok (w_edge (et_pollTrunkActivityLed t) w) = world_ok w"
  by (simp add: world_ok_def w_edge_def mux_def driver_def et_pollTrunkActivityLed_def Let_def)

lemma tick_world: "world_ok w \<Longrightarrow> world_ok (ln_tick width t w)"
  by (simp add: ln_tick_def pollBytes_def Let_def poll_world pollWake_world tickReceiver_world tickPlayer_world world_pass led_world logs_world)

lemma loop_world: "world_ok w \<Longrightarrow> world_ok (main_loop width n w)"
  by (induction width n w rule: main_loop.induct) (simp_all add: Let_def tick_world world_pass)

lemma init_world: "world_ok (ln_init slots palette script)"
  by (simp add: world_ok_def ln_init_def ld_init_def ld_view_def heard_frames_def map_filter_simps receiver_ok_def efr_inv_init efr_init_def
      efr_claimedEdge_def mux_def et_begin_def exists_edge_def EDGE_COUNT_def driver_def drv_ok_def pdd_init_def pd_init_def)
    (simp add: efr_inv_init [unfolded efr_init_def])

section \<open>The property\<close>

text \<open>
  C8. Whatever bytes and edge changes come in, and wherever they interrupt the main loop, a panel sends on existing edges
  only, and hands to its dispatcher only whole frames that passed validation; a frame of an acknowledged type goes there
  right after its acknowledgment was sent on the edge it came from, and only when the last such frame heard on that edge
  was another one or came 12 ms before or more.
\<close>

theorem panel_dispatches_once:
  "trace_ok (w_out (main_loop width n (ln_init slots palette script)))"
  using loop_world [OF init_world] by (simp add: world_ok_def)

end
