(* ===== verification/Panel_Delivery.thy ===== *)
theory Panel_Delivery
  imports
    Panel_Trace
begin

text \<open>
  The whole way of a frame through an idle panel: an edge change, its bytes in the ring, the claim, the receiver, the
  acknowledgment and the dispatcher, within two turns of the main loop.
\<close>

definition dispatched :: "panel_out list \<Rightarrow> (u8 \<times> u8 list) list" where
  "dispatched xs = List.map_filter (\<lambda>x. case x of Dispatch e f t \<Rightarrow> Some (e, f) | _ \<Rightarrow> None) xs"

lemma dispatched_append: "dispatched (xs @ ys) = dispatched xs @ dispatched ys"
  by (simp add: dispatched_def map_filter_def)

lemma dispatched_plain: "list_all plain xs \<Longrightarrow> dispatched xs = []"
  by (induction xs) (auto simp: dispatched_def map_filter_simps split: panel_out.splits)

lemma dispatched_one [simp]: "dispatched [Dispatch e f t] = [(e, f)]" "dispatched [Heard e f t] = []" "dispatched [Wire e g] = []"
  by (simp_all add: dispatched_def map_filter_simps)

lemma dispatched_quiet: "quiet w w' \<Longrightarrow> dispatched (w_out w') = dispatched (w_out w)"
  by (auto simp: quiet_def dispatched_append dispatched_plain)

section \<open>A silent world\<close>

definition ring_of :: "world \<Rightarrow> ByteRing" where
  "ring_of w = et_rxRing (ln_transport w)"

definition holds :: "world \<Rightarrow> u8 list \<Rightarrow> bool" where
  "holds w xs \<longleftrightarrow> br_holds RX_RING_BYTES (ring_of w) xs"

text \<open>No more interrupts, and no wake waits.\<close>

definition still :: "u8 list \<Rightarrow> world \<Rightarrow> bool" where
  "still xs w \<longleftrightarrow> w_script w = [] \<and> ln_pendingWakeMask w = 0 \<and> holds w xs"

lemma still_available: "still xs w \<Longrightarrow> et_available (ln_transport w) \<longleftrightarrow> xs \<noteq> []"
  using br_empty_holds [of RX_RING_BYTES "ring_of w" xs] by (simp add: still_def holds_def et_available_def ring_of_def)

lemma still_cong: "w_script w' = w_script w \<Longrightarrow> ln_pendingWakeMask w' = ln_pendingWakeMask w \<Longrightarrow> ring_of w' = ring_of w \<Longrightarrow> still xs w' = still xs w"
  by (simp add: still_def holds_def)

lemma silent_pass: "w_script w = [] \<Longrightarrow> pass w = w\<lparr>w_millis := w_millis w + 1\<rparr>"
  by (simp add: pass_def)

lemma still_pass: "still xs w \<Longrightarrow> still xs (pass w)"
  by (simp add: still_def silent_pass holds_def ring_of_def)

lemma still_passes: "still xs w \<Longrightarrow> still xs (fold (\<lambda>_. pass) ys w)"
  by (induction ys arbitrary: w) (simp_all add: still_pass)

lemma still_edge: "(\<And>t. et_rxRing (f t) = et_rxRing t) \<Longrightarrow> still xs (w_edge f w) = still xs w"
  by (rule still_cong) (simp_all add: w_edge_def ring_of_def)

lemma still_emit [simp]: "still xs (w_emit x w) = still xs w"
  by (rule still_cong) (simp_all add: w_emit_def ring_of_def)

lemma still_fields [simp]:
  "still xs (w\<lparr>ln_node := n\<rparr>) = still xs w" "still xs (w\<lparr>ln_arqLink := l\<rparr>) = still xs w" "still xs (w\<lparr>ln_receiver := r\<rparr>) = still xs w"
  "still xs (w\<lparr>ln_linkDedup := d\<rparr>) = still xs w" "still xs (w\<lparr>ln_wakeInterruptsSuppressed := q\<rparr>) = still xs w"
  "still xs (w\<lparr>ln_lastRelayActivityMs := t\<rparr>) = still xs w" "still xs (w\<lparr>ln_probingSinceMs := t\<rparr>) = still xs w" "still xs (w\<lparr>w_halted := h\<rparr>) = still xs w"
  by (simp_all add: still_def holds_def ring_of_def)

lemma still_transmit: "still xs w \<Longrightarrow> still xs (ln_transmit e f w)"
proof -
  assume w: "still xs w"
  obtain saved t where b: "et_sendBegin e (ln_transport w) = (saved, t)" by (cases "et_sendBegin e (ln_transport w)")
  have "et_rxRing t = et_rxRing (ln_transport w)" using b by (auto simp: et_sendBegin_def et_setEdgeEnable_def Let_def)
  then have "still xs (w\<lparr>ln_transport := t\<rparr>)" using w by (simp add: still_def holds_def ring_of_def)
  then have "still xs (w_edge (et_sendEnd e saved) (fold (\<lambda>_. pass) (et_frame f) (w\<lparr>ln_transport := t\<rparr>)))"
    using still_passes still_edge [of "et_sendEnd e saved"] by (simp add: et_sendEnd_def et_setEdgeEnable_def Let_def)
  then show ?thesis by (simp add: ln_transmit_def b Let_def)
qed

lemma still_wakes: "still xs (w_edge (et_setWakeInterruptsEnabled q) w) = still xs w"
  by (rule still_edge) (simp add: et_setWakeInterruptsEnabled_def)

lemma still_sync: "still xs w \<Longrightarrow> still xs (syncWakeInterruptSuppression w)"
  by (simp add: syncWakeInterruptSuppression_def Let_def still_wakes still_pass)

lemma still_mux: "still xs (w_edge (et_selectRxEdge e) w) = still xs w"
  by (rule still_edge) (simp add: et_selectRxEdge_def)

lemma still_clear: "w_script w = [] \<Longrightarrow> holds w xs \<Longrightarrow> still xs (clearPendingWakes w)"
  by (simp add: still_def clearPendingWakes_def holds_def ring_of_def)

text \<open>With an empty ring a window only waits.\<close>

lemma still_await: "still [] w \<Longrightarrow> still [] (snd (await_ring start c w))"
proof (induction start c w rule: await_ring.induct)
  case (1 start c w)
  have p: "still [] (pass w)" using 1(3) by (rule still_pass)
  then have "\<not> et_available (ln_transport (pass w))" by (simp add: still_available)
  then show ?case using 1(1) [OF refl _ _ p] p by (subst await_ring.simps) (simp add: Let_def)
qed

lemma still_window: "still [] w \<Longrightarrow> still [] (snd (awaitRing e c w))"
proof -
  assume w: "still [] w"
  define w1 where "w1 = (w_edge (et_selectRxEdge e) (onLinkWindowBegin w))
    \<lparr>ln_arqLink := (ln_arqLink (onLinkWindowBegin w))\<lparr>al_ackMatcher := lam_reset (al_ackMatcher (ln_arqLink (onLinkWindowBegin w)))\<rparr>\<rparr>"
  have "still [] (pass (w_edge (et_setWakeInterruptsEnabled False) w))" using w by (intro still_pass) (simp add: still_wakes)
  then have "still [] (onLinkWindowBegin w)" by (simp add: onLinkWindowBegin_def Let_def clearPendingWakes_def still_def holds_def ring_of_def)
  then have "still [] w1" by (simp add: w1_def still_mux)
  then have s: "still [] (snd (await_ring (w_millis w1) c w1))" by (rule still_await)
  obtain a w2 where a: "await_ring (w_millis w1) c w1 = (a, w2)" by (cases "await_ring (w_millis w1) c w1")
  have "still [] (syncWakeInterruptSuppression (clearPendingWakes w2))"
    using s by (intro still_sync still_clear) (simp_all add: a still_def)
  moreover have "awaitRing e c w = (a, syncWakeInterruptSuppression (clearPendingWakes w2))"
    using a unfolding awaitRing_def Let_def w1_def by (simp add: w_edge_def onLinkWindowEnd_def)
  ultimately show ?thesis by simp
qed

lemma still_attempts: "still [] w \<Longrightarrow> still [] (ln_attempts left e f c w)"
proof (induction left arbitrary: w)
  case 0
  obtain a w1 where a: "awaitRing e c w = (a, w1)" by (cases "awaitRing e c w")
  then show ?case using still_window [OF 0, of e c] by (cases a; subst ln_attempts.simps) simp_all
next
  case (Suc left)
  obtain a w1 where a: "awaitRing e c w = (a, w1)" by (cases "awaitRing e c w")
  then show ?case using still_window [OF Suc.prems, of e c] Suc.IH [OF still_transmit] by (cases a; subst ln_attempts.simps) simp_all
qed

lemma still_send: "still [] w \<Longrightarrow> still [] (ln_sendOnEdge e f w)"
  by (simp add: ln_sendOnEdge_def Let_def still_transmit still_attempts)

lemma still_sends:
  "still [] w \<Longrightarrow> still [] (fold (\<lambda>(e, f). ln_sendOnEdge e f) sends w)" "still [] w \<Longrightarrow> still [] (fold (\<lambda>(e, f). ln_transmit e f) sends w)"
  by (induction sends arbitrary: w) (auto simp: still_send still_transmit)

lemma still_effects: "still [] w \<Longrightarrow> still [] (fold ln_effect es w)"
proof (induction es arbitrary: w)
  case (Cons x es)
  have "still [] (ln_effect x w)" using Cons.prems by (cases x) (simp_all add: still_send)
  then show ?case using Cons.IH by simp
qed simp

lemma still_dispatch: "still [] w \<Longrightarrow> still [] (ln_dispatch e f t w)"
  by (auto simp: ln_dispatch_def ln_handlePacket_def Let_def still_sends still_effects still_pass split: prod.splits)

lemma still_onFrame: "still [] w \<Longrightarrow> still [] (ln_onFrame t w)"
  by (auto simp: ln_onFrame_def Let_def still_send still_dispatch still_sync split: prod.splits)

section \<open>One frame handed on\<close>

definition news :: "u8 \<Rightarrow> u8 list \<Rightarrow> world \<Rightarrow> bool" where
  "news e f w \<longleftrightarrow> (case ld_view (ln_linkDedup w) e of None \<Rightarrow> True | Some (c, t) \<Rightarrow> c \<noteq> crc16 f)"

lemma news_repeats: "news e f w \<Longrightarrow> \<not> repeats (ld_view (ln_linkDedup w) e) (crc16 f) t"
  by (auto simp: news_def repeats_def split: option.splits)

lemma dispatch_once:
  assumes "drv_ok (driver w)" "exists_edge e"
  shows "dispatched (w_out (ln_dispatch e f t w)) = dispatched (w_out w) @ [(e, f)]"
proof -
  obtain act sends d where r: "dispatcher_onFrameArrived e f t (driver w) = (act, sends, d)" by (cases "dispatcher_onFrameArrived e f t (driver w)")
  note ok = dispatch_ok [OF assms r]
  define w1 where "w1 = w_emit (Dispatch e f t) (w\<lparr>ln_node := (ln_node w)\<lparr>pn_driver := d\<rparr>\<rparr>)"
  define w2 where "w2 = fold (\<lambda>(e, f). ln_sendOnEdge e f) sends w1"
  have q: "quiet w1 w2" unfolding w2_def by (rule quiet_sends(1) [OF ok(2)])
  have d2: "drv_ok (driver (w2\<lparr>ln_lastRelayActivityMs := t\<rparr>))" using q ok(1) by (simp add: quiet_def w1_def w_emit_def driver_def)
  have "dispatched (w_out (ln_handlePacket f (w2\<lparr>ln_lastRelayActivityMs := t\<rparr>))) = dispatched (w_out w2)"
    using dispatched_quiet [OF quiet_handle [OF d2, of f]] by simp
  moreover have "dispatched (w_out w2) = dispatched (w_out w) @ [(e, f)]"
    using dispatched_quiet [OF q] by (simp add: w1_def w_emit_def dispatched_append)
  moreover have "(w_emit (Dispatch e f t) w)\<lparr>ln_node := (ln_node (w_emit (Dispatch e f t) w))\<lparr>pn_driver := d\<rparr>\<rparr> = w1"
    by (simp add: w1_def w_emit_def)
  ultimately show ?thesis using r by (cases act) (simp_all add: ln_dispatch_def driver_def Let_def w2_def)
qed

lemma onFrame_once:
  assumes d: "drv_ok (driver w)" and e: "exists_edge (efr_fromEdge (ln_receiver w))"
    and n: "news (efr_fromEdge (ln_receiver w)) (efr_frame (ln_receiver w)) w"
    and ty: "frame_type (efr_frame (ln_receiver w)) \<noteq> packetType_code PACKET_LINK_ACK"
  shows "dispatched (w_out (ln_onFrame t w)) = dispatched (w_out w) @ [(efr_fromEdge (ln_receiver w), efr_frame (ln_receiver w))]"
proof -
  define w0 where "w0 = syncWakeInterruptSuppression w"
  let ?f = "efr_frame (ln_receiver w)" and ?e = "efr_fromEdge (ln_receiver w)"
  have s: "same w w0" unfolding w0_def by (rule same_sync)
  then have w0: "ln_receiver w0 = ln_receiver w" "driver w0 = driver w" "ln_linkDedup w0 = ln_linkDedup w" "w_out w0 = w_out w"
    by (simp_all add: same_def)
  show ?thesis
  proof (cases "isLinkAckedType (frame_type ?f)")
    case False
    then show ?thesis using ty w0 dispatch_once [of w0 ?e ?f t] d e
      by (simp add: ln_onFrame_def w0_def [symmetric] Let_def del: packetType_code.simps)
  next
    case True
    define wh where "wh = w_emit (Heard ?e ?f t) w0"
    define wa where "wa = ln_transmit ?e (sendLinkAck (crc16 ?f)) wh"
    obtain dup dd where dd: "ld_checkAndNote ?e (crc16 ?f) t (ln_linkDedup w0) = (dup, dd)" by (cases "ld_checkAndNote ?e (crc16 ?f) t (ln_linkDedup w0)")
    have "\<not> dup" using ld_check_view(1) [of ?e "crc16 ?f" t "ln_linkDedup w0"] news_repeats [OF n, of t] w0(3) unfolding dd by simp
    moreover have ack: "ln_sendOnEdge ?e (sendLinkAck (crc16 ?f)) wh = wa"
      using control_plane_raw(4) by (simp add: ln_sendOnEdge_def wa_def Let_def sendLinkAck_def del: packetType_code.simps)
    moreover have wa: "quiet wh wa" unfolding wa_def using e by (rule quiet_transmit)
    then have k: "ln_linkDedup wa = ln_linkDedup w0" "driver wa = driver w" "dispatched (w_out wa) = dispatched (w_out w)"
      using dispatched_quiet [OF wa] w0 by (simp_all add: quiet_def wh_def w_emit_def driver_def dispatched_append)
    moreover have "dispatched (w_out (ln_dispatch ?e ?f t (wa\<lparr>ln_linkDedup := dd\<rparr>))) = dispatched (w_out w) @ [(?e, ?f)]"
      using dispatch_once [of "wa\<lparr>ln_linkDedup := dd\<rparr>" ?e ?f t] d e k by (simp add: driver_def)
    ultimately show ?thesis using ty True dd w0(1)
      by (simp add: ln_onFrame_def w0_def [symmetric] Let_def wh_def [symmetric] del: packetType_code.simps)
  qed
qed

section \<open>Turns with nothing to receive\<close>

lemma still_awake: "still xs w \<Longrightarrow> pollWake t w = w"
  by (simp add: still_def pollWake_def)

lemma poll_dry: "still [] w \<Longrightarrow> poll_bytes n t w = (if n = 0 then w else pass w)"
  using still_available [OF still_pass, of "[]" w] by (cases n) (simp_all add: Let_def)

definition calm :: "u8 list \<Rightarrow> world \<Rightarrow> world \<Rightarrow> bool" where
  "calm xs w w' \<longleftrightarrow> dispatched (w_out w') = dispatched (w_out w) \<and> still xs w'"

lemma calm_trans: "calm xs w w1 \<Longrightarrow> calm xs w1 w2 \<Longrightarrow> calm xs w w2"
  by (simp add: calm_def)

lemma edge_out [simp]: "w_out (w_edge f w) = w_out w"
  by (simp add: w_edge_def)

lemma receiver_calm:
  assumes "world_ok w" "still [] w"
  shows "calm [] w (ln_tickReceiver t w)"
proof -
  obtain sends d where r: "pdd_tick t (driver w) = (sends, d)" by (cases "pdd_tick t (driver w)")
  have ds: "driver_sends (sends, d)" using driver_tick_ok [of "driver w" t] assms(1) by (simp add: r world_ok_def)
  then have e: "list_all (\<lambda>(e, f). exists_edge e) sends" by (auto simp: driver_sends_def list_all_iff)
  define w1 where "w1 = fold (\<lambda>(e, f). ln_transmit e f) sends (w\<lparr>ln_node := (ln_node w)\<lparr>pn_driver := d\<rparr>\<rparr>)"
  have w1: "calm [] w w1"
    using dispatched_quiet [OF quiet_sends(2) [OF e, of "w\<lparr>ln_node := (ln_node w)\<lparr>pn_driver := d\<rparr>\<rparr>"]] still_sends(2) [of "w\<lparr>ln_node := (ln_node w)\<lparr>pn_driver := d\<rparr>\<rparr>"] assms(2)
    by (simp add: calm_def w1_def)
  have sync: "calm xs w' (syncWakeInterruptSuppression w')" if "still xs w'" for w' xs
    using that still_sync same_sync [of w'] by (simp add: calm_def same_def)
  have probe: "calm [] w' (pollProbeClaim t w')" if "still [] w'" for w'
  proof -
    have "calm [] w' (w_edge (et_selectRxEdge i) (w'\<lparr>ln_receiver := q\<rparr>))" for i q using that by (simp add: calm_def still_mux)
    then have "calm [] w' (syncWakeInterruptSuppression (w_edge (et_selectRxEdge i) (w'\<lparr>ln_receiver := q\<rparr>)))" for i q
      using calm_trans sync calm_def by blast
    then show ?thesis using that by (auto simp: pollProbeClaim_def Let_def calm_def split: prod.splits)
  qed
  have "calm [] w (w1\<lparr>ln_receiver := efr_tick t (ln_receiver w1)\<rparr>)" using w1 by (simp add: calm_def)
  then have "calm [] w (pollProbeClaim t (syncWakeInterruptSuppression (w1\<lparr>ln_receiver := efr_tick t (ln_receiver w1)\<rparr>)))"
    using sync probe calm_trans unfolding calm_def by metis
  then show ?thesis using r by (simp add: ln_tickReceiver_def driver_def Let_def w1_def)
qed

lemma player_calm:
  assumes "world_ok w" "still xs w"
  shows "calm xs w (ln_tickPlayer width t w)"
proof -
  obtain es n where r: "lp_tickPlayer width t (ln_node w) = (es, n)" by (cases "lp_tickPlayer width t (ln_node w)")
  have q: "quiet w (fold ln_effect es (w\<lparr>ln_node := n\<rparr>))"
    using upward_tick [of "ln_node w" width t] assms unfolding r by (intro quiet_node) (simp_all add: world_ok_def)
  have led: "list_all (\<lambda>x. \<exists>f. x = Led f) es" using r
    by (auto simp: lp_tickPlayer_def with_rgb_def list_all_iff Let_def split: prod.splits if_splits)
  have "still xs (fold ln_effect es w')" if "still xs w'" for w'
    using led that by (induction es arbitrary: w') auto
  then show ?thesis using dispatched_quiet [OF q] assms(2) r by (simp add: calm_def ln_tickPlayer_def)
qed

lemma logs_calm: "still [] w \<Longrightarrow> calm [] w (flushIdleDebugLogs t w)"
proof -
  assume w: "still [] w"
  have "dispatched (w_out (w_emit (Printed l) w')) = dispatched (w_out w')" for l w'
    by (simp add: w_emit_def dispatched_append) (simp add: dispatched_def map_filter_simps)
  then show ?thesis using w by (auto simp: flushIdleDebugLogs_def calm_def Let_def split: prod.splits option.splits)
qed

lemma led_calm: "still xs w \<Longrightarrow> calm xs w (w_edge (et_pollTrunkActivityLed t) w)"
  using still_edge [of "et_pollTrunkActivityLed t" xs w] by (simp add: calm_def et_pollTrunkActivityLed_def Let_def)

lemma pass_calm: "still xs w \<Longrightarrow> calm xs w (pass w)"
  by (simp add: calm_def still_pass)

text \<open>The part of a turn behind the first \<open>pollBytes\<close>, when the ring is empty.\<close>

lemma rest_calm:
  assumes "world_ok w" "still [] w"
  shows "calm [] w (w_edge (et_pollTrunkActivityLed t) (flushIdleDebugLogs t (pass (ln_tickPlayer width t (ln_tickReceiver t w)))))"
proof -
  note c1 = receiver_calm [OF assms, of t]
  have c2: "calm [] (ln_tickReceiver t w) (ln_tickPlayer width t (ln_tickReceiver t w))"
    by (rule player_calm [OF tickReceiver_world [OF assms(1)]]) (use c1 in \<open>simp add: calm_def\<close>)
  then have c3: "calm [] w (pass (ln_tickPlayer width t (ln_tickReceiver t w)))"
    using calm_trans [OF calm_trans [OF c1 c2] pass_calm] by (simp add: calm_def)
  then have "still [] (pass (ln_tickPlayer width t (ln_tickReceiver t w)))" by (simp add: calm_def)
  note c4 = calm_trans [OF c3 logs_calm [OF this, of t]]
  then have "still [] (flushIdleDebugLogs t (pass (ln_tickPlayer width t (ln_tickReceiver t w))))" by (simp add: calm_def)
  then show ?thesis by (rule calm_trans [OF c4 led_calm])
qed

lemma turn_calm:
  assumes "world_ok w" "still [] w"
  shows "calm [] w (ln_tick width t w)"
proof -
  have p: "pollBytes t (pollWake t w) = pass w" using assms(2) by (simp add: still_awake pollBytes_def poll_dry MAX_BYTES_PER_POLL_def)
  have w1: "world_ok (pass w)" "still [] (pass w)" "calm [] w (pass w)" using assms by (simp_all add: world_pass still_pass pass_calm)
  let ?w2 = "pass (ln_tickPlayer width t (ln_tickReceiver t (pass w)))"
  have "still [] ?w2" using receiver_calm [OF w1(1,2)] player_calm [OF tickReceiver_world [OF w1(1)]] by (simp add: calm_def still_pass)
  then have "\<not> et_available (ln_transport ?w2)" by (simp add: still_available)
  then show ?thesis using w1 rest_calm [OF w1(1,2), of t width] calm_trans by (auto simp: ln_tick_def p Let_def)
qed

section \<open>Byte by byte\<close>

text \<open>A receiver that reports the frame at the last of the bytes that are to come, whenever they come.\<close>

fun completes :: "u8 \<Rightarrow> u8 list \<Rightarrow> u8 list \<Rightarrow> EdgeFrameReceiver \<Rightarrow> bool" where
  "completes e f [] r = False"
| "completes e f (b # bs) r =
     (efr_claimedEdge r = e
      \<and> (\<forall>t. case efr_onByte b t r of
               (True, r') \<Rightarrow> bs = [] \<and> efr_frame r' = f \<and> efr_fromEdge r' = e
             | (False, r') \<Rightarrow> completes e f bs r'))"

lemma completes_feed:
  "framer_feed bs (efr_framer r) = ([], fr1) \<Longrightarrow> framer_pushByte b fr1 = (True, fr2) \<Longrightarrow> efr_activeEdge r = e \<Longrightarrow> e \<noteq> NO_EDGE \<Longrightarrow>
    completes e (framer_frame fr2) (bs @ [b]) r"
proof (induction bs arbitrary: r)
  case Nil
  then show ?case by (simp add: efr_claimedEdge_def efr_onByte_claimed efr_frame_def efr_fromEdge_def)
next
  case (Cons c bs)
  obtain d fr where push: "framer_pushByte c (efr_framer r) = (d, fr)" by (cases "framer_pushByte c (efr_framer r)")
  have d: "\<not> d" "framer_feed bs fr = ([], fr1)" using Cons.prems(1) push by (auto split: prod.splits if_splits)
  have "completes e (framer_frame fr2) (bs @ [b]) (r\<lparr>efr_lastActivityMs := t, efr_framer := fr\<rparr>)" for t
    using d(2) Cons.prems by (intro Cons.IH) simp_all
  then show ?case using Cons.prems d(1) push by (simp add: efr_claimedEdge_def efr_onByte_claimed [OF _ push])
qed

text \<open>The panel in the middle of a frame.\<close>

definition midway :: "u8 \<Rightarrow> u8 list \<Rightarrow> u8 list \<Rightarrow> world \<Rightarrow> bool" where
  "midway e f bs w \<longleftrightarrow>
     world_ok w \<and> still bs w \<and> \<not> w_halted w \<and> \<not> pdd_isProbing (driver w) \<and> completes e f bs (ln_receiver w) \<and> e \<noteq> NO_EDGE \<and> exists_edge e
     \<and> news e f w \<and> frame_type f \<noteq> packetType_code PACKET_LINK_ACK"

lemma midway_pass: "midway e f bs w \<Longrightarrow> midway e f bs (pass w)"
  using world_pass [of w] still_pass [of bs w] by (simp add: midway_def driver_def news_def)

lemma read_still:
  assumes "still (b # bs) w"
  shows "\<exists>t. ln_readByte w = (b, w\<lparr>ln_transport := t\<rparr>) \<and> still bs (w\<lparr>ln_transport := t\<rparr>)"
proof -
  obtain p q where p: "br_pop (ring_of w) = (p, q)" by (cases "br_pop (ring_of w)")
  have "p = Some b" "br_holds RX_RING_BYTES q bs"
    using br_pop_holds [of RX_RING_BYTES "ring_of w" "b # bs"] assms by (simp_all add: p still_def holds_def)
  then show ?thesis using assms p
    by (auto simp: ln_readByte_def et_readByte_def ring_of_def still_def holds_def)
qed

lemma byte_once:
  assumes m: "midway e f (b # bs) w"
  shows "dispatched (w_out (ln_byte t w)) = dispatched (w_out w) @ (if bs = [] then [(e, f)] else [])
    \<and> (if bs = [] then world_ok (ln_byte t w) \<and> still [] (ln_byte t w)
       else midway e f bs (ln_byte t w) \<and> efr_claimStartMs (ln_receiver (ln_byte t w)) = efr_claimStartMs (ln_receiver w)
         \<and> efr_lastActivityMs (ln_receiver (ln_byte t w)) = t)"
proof -
  have parts: "world_ok w" "still (b # bs) w" "\<not> pdd_isProbing (driver w)" "e \<noteq> NO_EDGE" "exists_edge e" "news e f w"
    "frame_type f \<noteq> packetType_code PACKET_LINK_ACK" "efr_claimedEdge (ln_receiver w) = e" "\<not> w_halted w"
    using m by (simp_all add: midway_def)
  obtain tr where tr: "ln_readByte w = (b, w\<lparr>ln_transport := tr\<rparr>)" "still bs (w\<lparr>ln_transport := tr\<rparr>)"
    using read_still [OF parts(2)] by blast
  obtain d r where d: "efr_onByte b t (ln_receiver w) = (d, r)" by (cases "efr_onByte b t (ln_receiver w)")
  define w2 where "w2 = w\<lparr>ln_transport := tr, ln_lastRelayActivityMs := t, ln_receiver := r\<rparr>"
  have step: "ln_byte t w = (if d then ln_onFrame t w2 else w2)"
    using parts(2,4,8) tr(1) d by (simp add: ln_byte_def still_awake ln_claimParked_def Let_def w2_def)
  have k2: "w_out w2 = w_out w" "still bs w2" "driver w2 = driver w" "ln_linkDedup w2 = ln_linkDedup w" "w_halted w2 = w_halted w" "ln_receiver w2 = r"
    using tr(2) by (simp_all add: w2_def driver_def)
  have b: "world_ok (ln_byte t w)" using parts(1) by (rule byte_world)
  have "completes e f (b # bs) (ln_receiver w)" using m by (simp only: midway_def)
  then have "\<forall>t. case efr_onByte b t (ln_receiver w) of
      (True, r') \<Rightarrow> bs = [] \<and> efr_frame r' = f \<and> efr_fromEdge r' = e | (False, r') \<Rightarrow> completes e f bs r'"
    unfolding completes.simps by (rule conjunct2)
  from spec [OF this, of t]
  have c: "case (d, r) of (True, r') \<Rightarrow> bs = [] \<and> efr_frame r' = f \<and> efr_fromEdge r' = e | (False, r') \<Rightarrow> completes e f bs r'"
    by (simp only: d)
  show ?thesis
  proof (cases d)
    case True
    then have k: "bs = []" "efr_frame r = f" "efr_fromEdge r = e" using c by simp_all
    have "dispatched (w_out (ln_onFrame t w2)) = dispatched (w_out w2) @ [(e, f)]"
      using onFrame_once [of w2 t] parts k k2 by (simp add: news_def world_ok_def)
    moreover have "still [] (ln_onFrame t w2)" using k2(2) k(1) by (intro still_onFrame) simp
    ultimately show ?thesis using True k k2 b by (simp add: step)
  next
    case False
    then have "completes e f bs r" using c by simp
    moreover from this have "bs \<noteq> []" by auto
    moreover have "efr_claimStartMs r = efr_claimStartMs (ln_receiver w)" "efr_lastActivityMs r = t"
      using d False parts(4,8) by (auto simp: efr_onByte_def efr_claimedEdge_def Let_def split: prod.splits if_splits)
    ultimately show ?thesis using False parts k2 b by (simp add: step midway_def news_def)
  qed
qed

text \<open>A poll takes bytes until its bound.\<close>

definition polled :: "u8 \<Rightarrow> u8 list \<Rightarrow> u8 list \<Rightarrow> nat \<Rightarrow> u32 \<Rightarrow> world \<Rightarrow> world \<Rightarrow> bool" where
  "polled e f bs n t w w' \<longleftrightarrow>
     dispatched (w_out w') = dispatched (w_out w) @ (if length bs \<le> n then [(e, f)] else [])
     \<and> (if length bs \<le> n then world_ok w' \<and> still [] w'
        else midway e f (drop n bs) w' \<and> efr_claimStartMs (ln_receiver w') = efr_claimStartMs (ln_receiver w)
          \<and> (0 < n \<longrightarrow> efr_lastActivityMs (ln_receiver w') = t))"

lemma poll_once: "midway e f bs w \<Longrightarrow> polled e f bs n t w (poll_bytes n t w)"
proof (induction n arbitrary: bs w)
  case 0
  then have "bs \<noteq> []" by (auto simp: midway_def)
  then show ?case using 0 by (simp add: polled_def)
next
  case (Suc n)
  have p: "midway e f bs (pass w)" using Suc.prems by (rule midway_pass)
  obtain b bs' where bs: "bs = b # bs'" using Suc.prems by (cases bs) (auto simp: midway_def)
  have av: "et_available (ln_transport (pass w))" "\<not> w_halted (pass w)" using p still_available [of bs "pass w"] by (simp_all add: midway_def bs)
  then have step: "poll_bytes (Suc n) t w = poll_bytes n t (ln_byte t (pass w))" by (simp add: Let_def)
  note once = byte_once [OF p [unfolded bs], of t]
  show ?case
  proof (cases "bs' = []")
    case True
    then have k: "dispatched (w_out (ln_byte t (pass w))) = dispatched (w_out w) @ [(e, f)]" "world_ok (ln_byte t (pass w))" "still [] (ln_byte t (pass w))"
      using once by simp_all
    show ?thesis unfolding step poll_dry [OF k(3)] using k by (simp add: polled_def bs True world_pass still_pass)
  next
    case False
    then have k: "dispatched (w_out (ln_byte t (pass w))) = dispatched (w_out w)" "midway e f bs' (ln_byte t (pass w))"
      "efr_claimStartMs (ln_receiver (ln_byte t (pass w))) = efr_claimStartMs (ln_receiver w)" "efr_lastActivityMs (ln_receiver (ln_byte t (pass w))) = t"
      using once by simp_all
    have "polled e f bs' n t (ln_byte t (pass w)) (poll_bytes n t (ln_byte t (pass w)))" using k(2) by (rule Suc.IH)
    moreover have "n = 0 \<Longrightarrow> poll_bytes n t (ln_byte t (pass w)) = ln_byte t (pass w)" by simp
    ultimately show ?thesis unfolding step using k by (cases "n = 0") (auto simp: polled_def bs simp del: poll_bytes.simps)
  qed
qed

section \<open>A turn\<close>

lemma midway_parts:
  assumes "midway e f bs w"
  shows "world_ok w" "still bs w" "\<not> w_halted w" "\<not> pdd_isProbing (driver w)"
  using assms unfolding midway_def by blast+

lemma midway_pollWake: "midway e f bs w \<Longrightarrow> pollWake t w = w"
  by (rule still_awake [OF midway_parts(2)])

lemma midway_cong:
  assumes "midway e f bs w" "still bs w'" "world_ok w'" "w_halted w' = w_halted w" "driver w' = driver w"
    "ln_receiver w' = ln_receiver w" "ln_linkDedup w' = ln_linkDedup w"
  shows "midway e f bs w'"
  using assms by (simp add: midway_def news_def)

lemma sync_fields: "w_halted (syncWakeInterruptSuppression w) = w_halted w"
  by (simp add: syncWakeInterruptSuppression_def w_edge_def Let_def)

lemma midway_sync: "midway e f bs w \<Longrightarrow> midway e f bs (syncWakeInterruptSuppression w)"
proof -
  assume m: "midway e f bs w"
  have s: "same w (syncWakeInterruptSuppression w)" by (rule same_sync)
  show ?thesis
    by (rule midway_cong [OF m still_sync [OF midway_parts(2) [OF m]] world_same [OF midway_parts(1) [OF m] s] sync_fields])
      (use s in \<open>simp_all add: same_def\<close>)
qed

text \<open>The receiver keeps a claim that is fresh, and the player only shows a color.\<close>

lemma midway_receiver:
  assumes m: "midway e f bs w" and fresh: "efr_claimStartMs (ln_receiver w) = t" "efr_lastActivityMs (ln_receiver w) = t"
  shows "ln_tickReceiver t w = syncWakeInterruptSuppression w"
proof -
  have idle: "\<not> pdd_isProbing (driver w)" using m by (rule midway_parts)
  then have "pdd_tick t (pn_driver (ln_node w)) = ([], pn_driver (ln_node w))" by (simp add: pdd_tick_def pdd_isProbing_def driver_def)
  moreover have "efr_tick t (ln_receiver w) = ln_receiver w"
    using fresh by (simp add: efr_tick_def FRAME_TIMEOUT_MS_def MAX_CLAIM_MS_def)
  moreover have "pollProbeClaim t (syncWakeInterruptSuppression w) = syncWakeInterruptSuppression w"
    using idle same_sync [of w] by (simp add: pollProbeClaim_def same_def driver_def)
  ultimately show ?thesis by (simp add: ln_tickReceiver_def)
qed

lemma player_shows:
  "\<exists>n es. pn_driver n = driver w \<and> list_all (\<lambda>x. \<exists>g. x = Led g) es \<and> ln_tickPlayer width t w = fold ln_effect es (w\<lparr>ln_node := n\<rparr>)"
proof -
  obtain es n where r: "lp_tickPlayer width t (ln_node w) = (es, n)" by (cases "lp_tickPlayer width t (ln_node w)")
  have "pn_driver n = driver w" "list_all (\<lambda>x. \<exists>g. x = Led g) es" using r
    by (auto simp: driver_def lp_tickPlayer_def with_rgb_def list_all_iff Let_def split: prod.splits if_splits)
  then show ?thesis using r by (auto simp: ln_tickPlayer_def)
qed

lemma led_effects:
  "list_all (\<lambda>x. \<exists>g. x = Led g) es \<Longrightarrow>
    w_halted (fold ln_effect es w) = w_halted w \<and> ln_receiver (fold ln_effect es w) = ln_receiver w
    \<and> ln_linkDedup (fold ln_effect es w) = ln_linkDedup w \<and> ln_node (fold ln_effect es w) = ln_node w"
proof (induction es arbitrary: w)
  case (Cons x es)
  obtain g where x: "x = Led g" using Cons.prems by auto
  show ?case using Cons.IH [of "ln_effect x w"] Cons.prems by (simp add: x w_emit_def)
qed simp

lemma midway_player:
  assumes "midway e f bs w"
  shows "midway e f bs (ln_tickPlayer width t w)" "ln_receiver (ln_tickPlayer width t w) = ln_receiver w"
proof -
  obtain n es where k: "pn_driver n = driver w" "list_all (\<lambda>x. \<exists>g. x = Led g) es" "ln_tickPlayer width t w = fold ln_effect es (w\<lparr>ln_node := n\<rparr>)"
    using player_shows [of w width t] by blast
  note led = led_effects [OF k(2), of "w\<lparr>ln_node := n\<rparr>"]
  then show "ln_receiver (ln_tickPlayer width t w) = ln_receiver w" by (simp add: k(3))
  have "world_ok w" "still bs w" using assms by (rule midway_parts)+
  then have "still bs (ln_tickPlayer width t w)" "world_ok (ln_tickPlayer width t w)" using player_calm [of w bs width t] tickPlayer_world by (simp_all add: calm_def)
  then show "midway e f bs (ln_tickPlayer width t w)"
    by (rule midway_cong [OF assms]) (use led k(1) in \<open>simp_all add: k(3) driver_def\<close>)
qed

text \<open>Where a frame that is still coming in stands after a turn.\<close>

definition arrived :: "u8 \<Rightarrow> u8 list \<Rightarrow> world \<Rightarrow> world \<Rightarrow> bool" where
  "arrived e f w w' \<longleftrightarrow> dispatched (w_out w') = dispatched (w_out w) @ [(e, f)] \<and> world_ok w' \<and> (w_halted w' \<or> still [] w')"

lemma turn_short:
  assumes m: "midway e f bs w" and short: "length bs \<le> MAX_BYTES_PER_POLL"
  shows "arrived e f w (ln_tick width t w)"
proof -
  define w1 where "w1 = pollBytes t w"
  have p: "polled e f bs MAX_BYTES_PER_POLL t w w1" unfolding w1_def pollBytes_def using m by (rule poll_once)
  then have k: "dispatched (w_out w1) = dispatched (w_out w) @ [(e, f)]" "world_ok w1" "still [] w1" using short by (simp_all add: polled_def)
  define w2 where "w2 = pass (ln_tickPlayer width t (ln_tickReceiver t w1))"
  have c: "calm [] w1 (w_edge (et_pollTrunkActivityLed t) (flushIdleDebugLogs t w2))" unfolding w2_def by (rule rest_calm [OF k(2,3)])
  have "still [] w2" unfolding w2_def
    using receiver_calm [OF k(2,3), of t] player_calm [OF tickReceiver_world [OF k(2), of t], of "[]" width t] by (simp add: calm_def still_pass)
  then have "\<not> et_available (ln_transport w2)" by (simp add: still_available)
  then have t: "ln_tick width t w = (if w_halted w1 then w1 else w_edge (et_pollTrunkActivityLed t) (flushIdleDebugLogs t w2))"
    by (simp add: ln_tick_def midway_pollWake [OF m] w1_def [symmetric] w2_def [symmetric] Let_def)
  have "world_ok (ln_tick width t w)" by (rule tick_world) (rule midway_parts [OF m])
  then show ?thesis using t k c by (auto simp: arrived_def calm_def)
qed

lemma turn_long:
  assumes m: "midway e f bs w" and long: "MAX_BYTES_PER_POLL < length bs" and fresh: "efr_claimStartMs (ln_receiver w) = t"
  shows "if length bs \<le> 2 * MAX_BYTES_PER_POLL then arrived e f w (ln_tick width t w)
    else midway e f (drop (2 * MAX_BYTES_PER_POLL) bs) (ln_tick width t w) \<and> dispatched (w_out (ln_tick width t w)) = dispatched (w_out w)"
proof -
  let ?n = MAX_BYTES_PER_POLL and ?cs = "drop MAX_BYTES_PER_POLL bs"
  define w1 where "w1 = pollBytes t w"
  have p: "polled e f bs ?n t w w1" unfolding w1_def pollBytes_def using m by (rule poll_once)
  have n: "0 < ?n" by (simp add: MAX_BYTES_PER_POLL_def)
  have m1: "midway e f ?cs w1" "dispatched (w_out w1) = dispatched (w_out w)" "efr_claimStartMs (ln_receiver w1) = t" "efr_lastActivityMs (ln_receiver w1) = t"
    using p long fresh n by (simp_all add: polled_def)
  define w2 where "w2 = pass (ln_tickPlayer width t (syncWakeInterruptSuppression w1))"
  have m2: "midway e f ?cs w2" unfolding w2_def by (intro midway_pass midway_player(1) midway_sync m1(1))
  have d2: "dispatched (w_out w2) = dispatched (w_out w)"
    using player_calm [OF midway_parts(1,2) [OF midway_sync [OF m1(1)]], of width t] m1(2) same_sync [of w1]
    by (simp add: w2_def calm_def same_def)
  define w3 where "w3 = pollBytes t w2"
  have p3: "polled e f ?cs ?n t w2 w3" unfolding w3_def pollBytes_def using m2 by (rule poll_once)
  have "et_available (ln_transport w2)" "\<not> w_halted w1" using still_available [OF midway_parts(2) [OF m2]] midway_parts(3) [OF m1(1)] long by simp_all
  then have t: "ln_tick width t w = (if w_halted w3 then w3 else w_edge (et_pollTrunkActivityLed t) w3)"
    by (simp add: ln_tick_def midway_pollWake [OF m] w1_def [symmetric] midway_receiver [OF m1(1,3,4)] w2_def [symmetric] midway_pollWake [OF m2] w3_def Let_def)
  have led: "still xs (w_edge (et_pollTrunkActivityLed t) w3) = still xs w3" for xs
    by (rule still_edge) (simp add: et_pollTrunkActivityLed_def Let_def)
  have w4: "world_ok (ln_tick width t w)" by (rule tick_world) (rule midway_parts [OF m])
  show ?thesis
  proof (cases "length bs \<le> 2 * ?n")
    case True
    then have "dispatched (w_out w3) = dispatched (w_out w) @ [(e, f)]" "still [] w3" using p3 d2 by (simp_all add: polled_def)
    then show ?thesis using True t w4 led by (simp add: arrived_def)
  next
    case False
    then have "\<not> length ?cs \<le> ?n" by simp
    then have "midway e f (drop ?n ?cs) w3" "dispatched (w_out w3) = dispatched (w_out w)"
      using p3 d2 by (simp_all only: polled_def if_False append_Nil2)
    moreover have "drop ?n ?cs = drop (2 * ?n) bs" by (simp add: mult_2)
    ultimately have m3: "midway e f (drop (2 * ?n) bs) w3" "dispatched (w_out w3) = dispatched (w_out w)" by simp_all
    have "midway e f (drop (2 * ?n) bs) (w_edge (et_pollTrunkActivityLed t) w3)"
      by (rule midway_cong [OF m3(1) led [THEN iffD2] led_world [THEN iffD2]])
        (use midway_parts [OF m3(1)] in \<open>simp_all add: w_edge_def driver_def\<close>)
    then show ?thesis using False t m3 by simp
  qed
qed

lemma turns_deliver:
  assumes m: "midway e f bs w" and len: "length bs \<le> 3 * MAX_BYTES_PER_POLL" and fresh: "efr_claimStartMs (ln_receiver w) = t"
  shows "dispatched (w_out (main_loop width 1 (ln_tick width t w))) = dispatched (w_out w) @ [(e, f)]"
proof -
  let ?w1 = "ln_tick width t w"
  have loop: "main_loop width 1 w' = (if w_halted w' then w' else ln_tick width (w_millis (pass w')) (pass w'))" for w' by (simp add: Let_def)
  have finished: "?thesis" if a: "arrived e f w ?w1"
  proof (cases "w_halted ?w1")
    case False
    then have s: "world_ok (pass ?w1)" "still [] (pass ?w1)" using a by (simp_all add: arrived_def world_pass still_pass)
    show ?thesis unfolding loop using False turn_calm [OF s, of width "w_millis (pass ?w1)"] a by (simp add: calm_def arrived_def)
  qed (use a in \<open>simp add: loop arrived_def\<close>)
  consider "length bs \<le> MAX_BYTES_PER_POLL" | "MAX_BYTES_PER_POLL < length bs" "length bs \<le> 2 * MAX_BYTES_PER_POLL"
    | "2 * MAX_BYTES_PER_POLL < length bs" by linarith
  then show ?thesis
  proof cases
    case 1 then show ?thesis using turn_short [OF m] finished by blast
  next
    case 2 then show ?thesis using turn_long [OF m 2(1) fresh, of width] finished by simp
  next
    case 3
    let ?cs = "drop (2 * MAX_BYTES_PER_POLL) bs"
    have k: "midway e f ?cs ?w1" "dispatched (w_out ?w1) = dispatched (w_out w)" using turn_long [OF m _ fresh, of width] 3 by auto
    then have "arrived e f (pass ?w1) (ln_tick width (w_millis (pass ?w1)) (pass ?w1))" using len by (intro turn_short midway_pass) auto
    then show ?thesis unfolding loop using k midway_parts(3) [OF k(1)] by (simp add: arrived_def)
  qed
qed

section \<open>From an idle panel\<close>

text \<open>Nothing received, nothing waiting, no claim, no probe; the wake interrupts are on.\<close>

definition idle :: "world \<Rightarrow> bool" where
  "idle w \<longleftrightarrow>
     world_ok w \<and> holds w [] \<and> ln_pendingWakeMask w = 0 \<and> \<not> w_halted w \<and> \<not> pdd_isProbing (driver w)
     \<and> efr_claimedEdge (ln_receiver w) = NO_EDGE \<and> \<not> et_transmitting (ln_transport w)
     \<and> wakes_on (ln_transport w)"

text \<open>The bytes of a frame and the noise before it, from the edge that changed.\<close>

lemma rx_pushed:
  assumes "holds w xs" "\<not> et_transmitting (ln_transport w)" "length (xs @ bs) < RX_RING_BYTES"
  shows "\<exists>tr. fold irq_run (map Usart_Rx bs) w = w\<lparr>ln_transport := tr\<rparr> \<and> br_holds RX_RING_BYTES (et_rxRing tr) (xs @ bs)"
  using assms
proof (induction bs arbitrary: w xs)
  case Nil
  then show ?case by (auto simp: holds_def ring_of_def intro!: exI [of _ "ln_transport w"])
next
  case (Cons b bs)
  let ?w = "irq_run (Usart_Rx b) w"
  have w: "?w = w\<lparr>ln_transport := (ln_transport w)\<lparr>et_rxRing := snd (br_push b (et_rxRing (ln_transport w)))\<rparr>\<rparr>"
    using Cons.prems(2) by (simp add: w_edge_def et_onRxByte_def)
  have "holds ?w (xs @ [b])"
    using br_push_holds(2) [of RX_RING_BYTES "ring_of w" xs b] Cons.prems by (simp add: w holds_def ring_of_def del: irq_run.simps)
  moreover have "\<not> et_transmitting (ln_transport ?w)" using Cons.prems(2) by (simp add: w del: irq_run.simps)
  ultimately obtain tr where "fold irq_run (map Usart_Rx bs) ?w = ?w\<lparr>ln_transport := tr\<rparr>" "br_holds RX_RING_BYTES (et_rxRing tr) (xs @ b # bs)"
    using Cons.IH [of ?w "xs @ [b]"] Cons.prems(3) by auto
  then show ?case by (auto simp: w simp del: irq_run.simps)
qed

lemma pin_change:
  assumes "pinB XOR ln_lastPinB w = push_bit (e + 1) 1" "e < EDGE_COUNT"
  shows "pcint0_isr pinB w = onEdgeWakeIsr e (w\<lparr>ln_lastPinB := pinB\<rparr>)"
proof -
  have e: "e = 0 \<or> e = 1 \<or> e = 2" using assms(2) by (auto simp: EDGE_COUNT_def)
  then show ?thesis using assms(1) by (elim disjE) (simp_all add: pcint0_isr_def EDGE_COUNT_def upt_rec flip: numeral_2_eq_2)
qed

lemma woken_edge:
  assumes "e < EDGE_COUNT" "efr_activeEdge (ln_receiver w) = NO_EDGE"
  shows "wake_edges t (push_bit e 1) [0..<EDGE_COUNT] w =
    w_edge (et_selectRxEdge (of_nat e)) (w\<lparr>ln_receiver := (ln_receiver w)\<lparr>efr_activeEdge := of_nat e, efr_lastActivityMs := t, efr_claimStartMs := t\<rparr>\<rparr>)"
proof -
  have e: "e = 0 \<or> e = 1 \<or> e = 2" using assms(1) by (auto simp: EDGE_COUNT_def)
  then show ?thesis using assms(2) by (elim disjE) (simp_all add: EDGE_COUNT_def upt_rec efr_onEdgeWake_def)
qed

lemma change_noted:
  assumes i: "idle w" and s: "w_script w = [(Pcint pinB # map Usart_Rx bs, t)]" and c: "pinB XOR ln_lastPinB w = push_bit (e + 1) 1"
    and e: "e < EDGE_COUNT" and len: "length bs < RX_RING_BYTES"
  shows "w_script (pass w) = []" "w_millis (pass w) = t" "ln_pendingWakeMask (pass w) = push_bit e 1" "holds (pass w) bs"
proof -
  define w1 where "w1 = irq_run (Pcint pinB) (w\<lparr>w_script := [], w_millis := t\<rparr>)"
  have "et_PCMSK0 (ln_transport w) AND WAKE_PCINT_BITS \<noteq> 0" using i by (simp add: idle_def wakes_on_def WAKE_PCINT_BITS_def)
  then have w1: "w1 = onEdgeWakeIsr e (w\<lparr>w_script := [], w_millis := t, ln_lastPinB := pinB\<rparr>)"
    using pin_change [of pinB "w\<lparr>w_script := [], w_millis := t\<rparr>" e] c e by (simp add: w1_def)
  have k: "ln_pendingWakeMask w1 = push_bit e 1" "w_script w1 = []" "w_millis w1 = t" "holds w1 []" "\<not> et_transmitting (ln_transport w1)"
    using i by (simp_all add: w1 onEdgeWakeIsr_def idle_def w_edge_def et_setWakeInterruptsEnabled_def holds_def ring_of_def)
  obtain tr where tr: "fold irq_run (map Usart_Rx bs) w1 = w1\<lparr>ln_transport := tr\<rparr>" "br_holds RX_RING_BYTES (et_rxRing tr) bs"
    using rx_pushed [OF k(4,5), of bs] len by auto
  have "pass w = w1\<lparr>ln_transport := tr\<rparr>" using tr(1) by (simp add: pass_def s w1_def)
  then show "w_script (pass w) = []" "w_millis (pass w) = t" "ln_pendingWakeMask (pass w) = push_bit e 1" "holds (pass w) bs"
    using k tr(2) by (simp_all add: holds_def ring_of_def)
qed

lemma wake_claims:
  assumes i: "idle w" and s: "w_script w = [(Pcint pinB # map Usart_Rx (ns @ f), t)]" and c: "pinB XOR ln_lastPinB w = push_bit (e + 1) 1"
    and e: "e < EDGE_COUNT" and len: "length (ns @ f) < RX_RING_BYTES" and f: "wire_frame True f" and ns: "noise ns"
    and n: "news (of_nat e) f w" and ty: "frame_type f \<noteq> packetType_code PACKET_LINK_ACK"
  shows "midway (of_nat e) f (ns @ f) (pollWake t (pass w))" "efr_claimStartMs (ln_receiver (pollWake t (pass w))) = t"
    "dispatched (w_out (pollWake t (pass w))) = dispatched (w_out w)"
proof -
  note p = change_noted [OF i s c e len]
  define r where "r = (ln_receiver w)\<lparr>efr_activeEdge := of_nat e, efr_lastActivityMs := t, efr_claimStartMs := t\<rparr>"
  define w2 where "w2 = w_edge (et_selectRxEdge (of_nat e)) ((pass (pass w))\<lparr>ln_pendingWakeMask := 0, ln_receiver := r\<rparr>)"
  have small: "e = 0 \<or> e = 1 \<or> e = 2" using e by (auto simp: EDGE_COUNT_def)
  then have ne: "push_bit e 1 \<noteq> (0 :: u8)" "of_nat e \<noteq> NO_EDGE" by (auto simp: NO_EDGE_def)
  have free: "efr_activeEdge (ln_receiver w) = NO_EDGE" "efr_inv (ln_receiver w)" using i by (simp_all add: idle_def efr_claimedEdge_def world_ok_def receiver_ok_def)
  have mask: "ln_pendingWakeMask (pass (pass w)) = push_bit e 1" by (simp add: silent_pass [OF p(1)] p(3))
  have w: "pollWake t (pass w) = syncWakeInterruptSuppression w2"
    using p(3) ne(1) mask woken_edge [OF e, of "(pass (pass w))\<lparr>ln_pendingWakeMask := 0\<rparr>" t] free(1)
    by (simp add: pollWake_def Let_def w2_def r_def)
  have same: "same w2 (pollWake t (pass w))" unfolding w by (rule same_sync)
  have "holds (pass (pass w)) (ns @ f)" using p(4) by (simp add: silent_pass [OF p(1)] holds_def ring_of_def)
  then have st: "still (ns @ f) w2" using p(1) by (simp add: w2_def still_def holds_def ring_of_def w_edge_def et_selectRxEdge_def)
  from framer_almost_frame [of "efr_framer r" f ns] free f ns
  obtain fr1 fr2 where "framer_feed (ns @ butlast f) (efr_framer r) = ([], fr1)" "framer_pushByte (last f) fr1 = (True, fr2)" "framer_frame fr2 = f"
    by (auto simp: r_def efr_inv_def)
  then have comp: "completes (of_nat e) f (ns @ f) r"
    using completes_feed [of "ns @ butlast f" r fr1 "last f" fr2 "of_nat e"] ne(2) f by (simp add: r_def wire_frame_def)
  have idle: "\<not> pdd_isProbing (driver w2)" "\<not> w_halted w2" "news (of_nat e) f w2" "ln_receiver w2 = r" "w_out w2 = w_out w"
    using i n by (simp_all add: w2_def w_edge_def driver_def idle_def news_def)
  have ok: "world_ok (pollWake t (pass w))" using i by (simp add: pollWake_world world_pass idle_def)
  have "still (ns @ f) (pollWake t (pass w))" unfolding w using st by (rule still_sync)
  moreover have "w_halted (pollWake t (pass w)) = w_halted w2" unfolding w by (rule sync_fields)
  moreover have "exists_edge (of_nat e)" using e by (rule small_edge)
  moreover note same ok idle comp ne(2) ty
  ultimately show "midway (of_nat e) f (ns @ f) (pollWake t (pass w))" "efr_claimStartMs (ln_receiver (pollWake t (pass w))) = t"
    "dispatched (w_out (pollWake t (pass w))) = dispatched (w_out w)"
    unfolding midway_def by (simp_all add: same_def news_def r_def)
qed

section \<open>The property\<close>


lemma init_idle: "idle (ln_init slots palette script)"
proof -
  have "driver (ln_init slots palette script) = pdd_init (pd_init (of_nat EDGE_COUNT))" by (simp add: ln_init_def driver_def)
  then have "\<not> pdd_isProbing (driver (ln_init slots palette script))" by (simp add: pdd_init_def pdd_isProbing_def)
  moreover have "holds (ln_init slots palette script) []"
    using br_holds_init [of RX_RING_BYTES] by (simp add: holds_def ring_of_def ln_init_def et_begin_def RX_RING_BYTES_def)
  ultimately show ?thesis
    using init_world by (simp add: idle_def) (simp add: ln_init_def efr_init_def efr_claimedEdge_def et_begin_def wakes_on_def)
qed


end
