(* ===== verification/Spec2Isabelle.thy ===== *)
theory Spec2Isabelle
  imports Frame_Receivers Link_Arq Byte_Queues Panel_Router Discovery_Coordinator Animation_Player Scene_Topology
    Animation_Scheduler Scene_Properties Scene_Written Database_Spec Panel_Wakes Panel_Delivery
begin

text \<open>
  \<^bold>\<open>Lightnet firmware: verification development.\<close>

  Lightnet is a set of LED panels (AVR microcontrollers) wired edge to edge into a tree, and a controller (ESP32) on
  a trunk to the root panel. At start the controller walks the tree and numbers the panels; afterwards it sends
  packets that the panels repeat hop by hop: colours, animations, configuration. All paths below are relative to
  \<open>src/lib/Lightnet\<close>.

  \<^bold>\<open>How the parts interact.\<close> Bytes arrive in an interrupt handler, cross a ring to the main loop, and are cut
  into frames by \<open>PacketFramer\<close> inside one of two receivers. A panel acknowledges each frame to its sender and drops
  copies (link ARQ), gives what remains to \<open>PanelFrameDispatcher\<close>, which feeds discovery, forwards through
  \<open>PanelRouter\<close>, and hands frames for this panel to the packet handlers; these act on the animation player and
  the LED driver. The controller's \<open>DiscoveryCoordinator\<close> collects the links; \<open>SceneTopology\<close> turns them into a
  rooted view, on which selectors and distance fields are computed; \<open>AnimationScheduler\<close> sends the packets.

  \<^bold>\<open>Theories.\<close>

  \<^item> \<open>Lightnet_Prelude\<close>: words, little-endian bytes, signed arithmetic, shared lemmas.
  \<^item> \<open>Byte_Scanner\<close>, \<open>Level_Search\<close>: two interfaces as locales (a receiver fed byte by byte; a breadth-first search
    over a queue array). \<open>Byte_Scanner\<close> is interpreted by the framer and by the link-ack matcher, \<open>Level_Search\<close> by the
    two searches of the topology index.
  \<^item> \<open>Wire_Protocol\<close>, \<open>Packet_Structs\<close>: \<open>Core/Common/ProtocolTypes.hpp\<close>, \<open>ProtocolMeta.cpp\<close>, \<open>ColorRef.hpp\<close>,
    \<open>Utils/Crc.cpp\<close>. A packed struct is a record with a \<open>put_\<close> and a \<open>get_\<close> function over bytes; the reinterpreting
    casts of the code are the \<open>get_\<close> functions. Shown: round trips of every packet, detection of a corrupted header byte.
  \<^item> \<open>Packet_Framer\<close>: \<open>Core/Relay/PacketFramer.cpp\<close>, refined to a segmentation of byte lists.
  \<^item> \<open>Frame_Receivers\<close>: \<open>TrunkFrameReceiver.cpp\<close>, \<open>EdgeFrameReceiver.cpp\<close>; the edge claim as a reachable-state
    invariant over wakes, bytes, ticks and releases.
  \<^item> \<open>Link_Arq\<close>: \<open>LinkArq.hpp\<close>, \<open>LinkArq.cpp\<close>, \<open>Panel/ArqEdgeLink.cpp\<close>: the duplicate window and the bounded
    retransmission, composed into exactly-once dispatch over one hop.
  \<^item> \<open>Byte_Queues\<close>: \<open>Core/Common/ByteRing.hpp\<close>, \<open>SpscByteQueue.hpp\<close>, refined to bounded lists; the pop is also given
    as its single memory accesses, with pushes between any two of them.
  \<^item> \<open>Panel_Discovery\<close>: \<open>PanelDiscovery.cpp\<close>, \<open>PanelDiscoveryDriver.cpp\<close>, the panel's half of discovery.
  \<^item> \<open>Panel_Router\<close>: \<open>PanelRouter.cpp\<close>, \<open>PanelFrameDispatcher.cpp\<close>; delivery in a whole tree by composing the
    dispatchers of its panels.
  \<^item> \<open>Discovery_Coordinator\<close>: \<open>DiscoveryCoordinator.cpp\<close>, \<open>DiscoveryTreeBuilder.cpp\<close>; the tree that any run builds.
  \<^item> \<open>Panel_Graph\<close>, \<open>Insertion_Sort\<close>, \<open>Topology_Index\<close>: \<open>Core/Controller/PanelGraph.hpp\<close>, \<open>TopologyIndex.hpp\<close>.
  \<^item> \<open>Panel_Selector\<close>, \<open>Scene_Topology\<close>: \<open>PanelSelector.hpp\<close>, \<open>SceneTopology.hpp\<close>, \<open>PanelField.hpp\<close>: selector
    programs against the set semantics of selector expressions, and the hop-distance field.
  \<^item> \<open>Color_Model\<close>: \<open>Core/Common/Palette.hpp\<close>, \<open>Core/Panel/ColorCompose.hpp\<close>.
  \<^item> \<open>Animation_Player\<close>: \<open>Core/Panel/AnimationPlayer.cpp\<close>.
  \<^item> \<open>Panel_Node\<close>: the packet handlers of \<open>Panel/LightnetPanel.cpp\<close> and the LED driver (\<open>RGBController.cpp\<close>,
    \<open>ClockedLed.cpp\<close>, \<open>Gamma.hpp\<close>).
  \<^item> \<open>Animation_Scheduler\<close>: \<open>Core/Controller/AnimationScheduler.cpp\<close>, and the composition of its calls with the
    packet handlers of a panel.
  \<^item> \<open>Option_Programs\<close>: operations that may fail to return, as functions to \<open>option\<close>, and rules that carry an
    invariant through them.
  \<^item> \<open>Binary32\<close>: \<open>float\<close> arithmetic as rounded reals: \<open>fl\<close> rounds to the nearest binary32 number, ties to even, and stands at
    every operation of the source that rounds.
  \<^item> \<open>Runner_Compile\<close>, \<open>Runner_Spawn\<close>, \<open>Panel_Geometry\<close>: \<open>RunnerMath.hpp\<close>, \<open>RunnerCompile.hpp\<close>, \<open>CompiledSweep.cpp\<close>,
    \<open>RunnerSpawn.hpp\<close>, \<open>PanelGeometry.hpp\<close> of \<open>Core/Controller\<close>: the pulse of each panel under a moving band, the rate
    gates of the particle spawners, the coordinates and bearings of the panels.
  \<^item> \<open>Scene_Data\<close>: the scenes (\<open>SceneModels.hpp\<close>) and what a layer is. \<open>Spawn_Drops\<close>: the drops of each spawner.
    \<open>Scene_Runners\<close>, \<open>Scene_Player\<close>: the state and every operation of \<open>Core/Controller/ScenePlayer.cpp\<close>.
  \<^item> \<open>Scene_Actions\<close>: what firing and servicing a layer keeps, and which packets it sends. \<open>Scene_Timeline\<close>,
    \<open>Scene_Tick\<close>: the tick refined to one step of all layer clocks. \<open>Scene_Life\<close>: any sequence of calls on the player.
    \<open>Scene_Groups\<close>: the group ids of the layers stay apart. \<open>Scene_End\<close>: how long a scene lasts. \<open>Scene_Properties\<close>:
    the theorems over these.
  \<^item> \<open>Json_Reader\<close>, \<open>Json_Writer\<close>: the functions of \<open>Utils/SimpleJson.hpp\<close>; a cursor is the text that is left. \<open>Json_Text\<close>:
    what they do on well-formed texts, by a grammar of JSON values. \<open>Json_Loops\<close>: the loops over keys and elements as
    functions of their body, with one invariant rule, one termination rule and one rule for written texts. \<open>Json_Written\<close>:
    a written object or array is read one member after the other, a chain of the effects of its members.
  \<^item> \<open>Selector_Parser\<close>: \<open>Core/Controller/PanelSelectorParser.hpp\<close>, against the postfix code of selector expressions.
  \<^item> \<open>Scene_Parser\<close>: \<open>Core/Controller/SceneParser.cpp\<close>. \<open>Scene_Accepted\<close>: what an accepted scene is like, and that the
    parser returns. \<open>Scene_Writer\<close>: \<open>Core/Controller/SceneWriter.cpp\<close> and \<open>SceneDuration.hpp\<close>. \<open>Step_Written\<close>,
    \<open>Layer_Written\<close>, \<open>Scene_Written\<close>: the text of a step, a layer and a scene, and that it is read back.
  \<^item> \<open>Random_Access\<close>: the interface of a storage, programs over it, its laws as a locale, and the storage in memory.
    \<open>Record_Database\<close>: \<open>Common/Database/Database.hpp\<close> and \<open>DatabaseFormat.cpp\<close>. \<open>Database_Slots\<close>: the slots of a file and what
    each scan finds. \<open>Database_Spec\<close>: the same calls on a list of slots, and that the database refines them.
  \<^item> \<open>Edge_Transport\<close>: \<open>Panel/EdgeUartTransport.cpp\<close>. \<open>Panel_Loop\<close>: the interrupt handlers and the main loop of a panel
    (\<open>Panel/LightnetPanel.cpp\<close>, \<open>Panel/ArqEdgeLink.cpp\<close>, \<open>src/panel/main.cpp\<close>). The world of a panel is a script of the
    interrupts that come in at each point where the loop can be interrupted. \<open>Panel_Wakes\<close>: it can always be woken.
    \<open>Panel_Trace\<close>: what it hands on and what it sends. \<open>Panel_Delivery\<close>: the way of a frame through an idle panel.

  \<^bold>\<open>Conventions.\<close> A class is a record, a method a function from the record to the results and the new record; a
  callback or a virtual call that the code makes is a value in the result (frames sent, packets handed on) and, where its
  answer matters, an argument. Widths are those of the code: \<open>u8\<close>, \<open>u16\<close>, \<open>u32\<close> wrap. Arithmetic in C's \<open>int\<close> takes the
  width as an argument \<open>w\<close> (16 on the AVR, 32 on the controller) and is reduced by \<open>c_int w\<close>; theorems hold for both
  unless they say otherwise. Memory that the code does not initialise (arrays behind a count, slots before their
  first use) is an argument of the initial state, so nothing is assumed about it. A read outside an array is a
  \<open>None\<close> where the code can reach it (\<open>selEvalLeaf\<close>), and excluded by a proved invariant elsewhere. The clock is an
  argument of each operation; nothing is assumed about it beyond what a theorem names.

  \<^bold>\<open>Loops.\<close> Counted loops are folds or structural recursion. Searches and walks are \<open>while_option\<close> with a proof that the
  result is \<open>Some\<close> (\<open>topology_build_rooted\<close>, \<open>fill_subtree_descendants\<close>, \<open>distances_are_shortest\<close>), or \<open>function\<close>
  with a measure (the selector loop, the router's scan). The retransmission of \<open>ArqEdgeLink\<close> runs over the
  list of ack windows and is bounded by the attempts of the code. No fuel is used.

\<close>

text \<open>
  \<^bold>\<open>Not modelled.\<close>

  \<^item> The baud rate and timer registers, the bit-banged serial of the panels and the half-duplex line of the controller
    (\<open>Controller/Link\<close>): their effect on the components here is the sequence of bytes, edge changes and times that the
    theorems quantify over. Interrupts come in between the steps of the main loop of a panel, not within one.
  \<^item> The functions \<open>sinf\<close>, \<open>cosf\<close> and \<open>atan2f\<close> of the C library: arguments of the geometry (the record \<open>libm\<close>), with
    their range as a hypothesis where a theorem needs it.
  \<^item> \<open>float\<close> overflow, NaN, and conversions of a \<open>float\<close> outside the range of the integer type: the first two do not
    occur for the values of this code, the last is taken modulo the width.
  \<^item> Networking, HTTP, WebSocket and MQTT services, file system stores, over-the-air update: calls into libraries and
    string building around them. The vendored WebSockets library, host bindings, test doubles and demonstration programs.
  \<^item> Debug output.
\<close>

text \<open>
  \<^bold>\<open>Plan.\<close> The stores on the record database; then the mirror stream, the relay bootloader, and the
  parts of the controller's sink that are not modelled yet.
\<close>

end
